(* ===== verification/Conc_Prelude.thy ===== *)
theory Conc_Prelude
  imports "HOL-Library.Word"
begin

text \<open>
  Shared foundations of the development: the machine types of the sources, the
  \<^verbatim>\<open><bit>\<close> functions they use, the errors a C++ operation can end in, and the way
  concurrency is modelled everywhere below.

  Concurrency.  A component with threads is an executable machine
  \<open>exec :: 's \<Rightarrow> 'a \<Rightarrow> 's option\<close>: the state holds the shared words and one program
  counter per thread, an action names the thread that moves (and what the
  environment chooses for it), and one action performs exactly one access to a shared
  atomic word, \<open>None\<close> when the action is not enabled.  A schedule is a list of actions, so
  \<open>run exec s as\<close> is one interleaving and a statement about every schedule is a
  statement about every interleaving (of sequentially consistent accesses).
  The locales \<open>machine_invariant\<close> and \<open>machine_refinement\<close> prove once what
  every component uses: an invariant kept by each step holds after every
  schedule, and a step-wise simulation maps every schedule to a schedule of the
  abstract machine.
\<close>

unbundle bit_operations_syntax

section \<open>Machine types and errors\<close>

type_synonym size_t = "64 word"
type_synonym word_t = "64 word"
type_synonym tid = nat

text \<open>
  How an operation can fail: an exception the sources document (\<open>Bad_alloc\<close>,
  \<open>Out_of_range\<close>, an exception thrown by the user's code), \<^verbatim>\<open>std::abort()\<close>, or an
  access the language leaves undefined (\<open>Undefined\<close>: out of bounds, a null pointer, an
  object that does not exist).
\<close>

datatype cxx_error = Bad_alloc | Out_of_range | User_exception | Abort | Undefined

definition checked_nth :: "'a list \<Rightarrow> nat \<Rightarrow> cxx_error + 'a" where
  "checked_nth xs i = (if i < length xs then Inr (xs ! i) else Inl Undefined)"

definition deref :: "'a option \<Rightarrow> cxx_error + 'a" where
  "deref p = (case p of None \<Rightarrow> Inl Undefined | Some x \<Rightarrow> Inr x)"

definition bind_err :: "'e + 'a \<Rightarrow> ('a \<Rightarrow> 'e + 'b) \<Rightarrow> 'e + 'b" where
  "bind_err r f = (case r of Inl e \<Rightarrow> Inl e | Inr x \<Rightarrow> f x)"

section \<open>The \<^verbatim>\<open><bit>\<close> header on 64-bit words\<close>

text \<open>
  \<^verbatim>\<open>std::bit_width\<close>: the number of bits needed, 0 for 0; \<^verbatim>\<open>std::bit_floor\<close>: the largest
  power of two not above the argument, 0 for 0; \<^verbatim>\<open>std::bit_ceil\<close>: the smallest power of two
  not below it (no representable result above \<open>2 ^ 63\<close>, where the standard leaves it
  undefined); \<^verbatim>\<open>std::countr_zero\<close>: the number of trailing zero bits, 64 for 0.
\<close>

fun bit_width_nat :: "nat \<Rightarrow> nat" where
  "bit_width_nat n = (if n = 0 then 0 else Suc (bit_width_nat (n div 2)))"

declare bit_width_nat.simps [simp del]

definition bit_width :: "size_t \<Rightarrow> nat" where
  "bit_width w = bit_width_nat (unat w)"

definition bit_floor :: "size_t \<Rightarrow> size_t" where
  "bit_floor w = (if w = 0 then 0 else 2 ^ (bit_width w - 1))"

definition bit_ceil :: "size_t \<Rightarrow> cxx_error + size_t" where
  "bit_ceil w = (if w \<le> 1 then Inr 1
                 else if w > 2 ^ 63 then Inl Undefined
                 else Inr (2 ^ bit_width (w - 1)))"

fun countr_zero_nat :: "nat \<Rightarrow> nat" where
  "countr_zero_nat n = (if n = 0 \<or> odd n then 0 else Suc (countr_zero_nat (n div 2)))"

declare countr_zero_nat.simps [simp del]

definition countr_zero :: "size_t \<Rightarrow> nat" where
  "countr_zero w = (if w = 0 then 64 else countr_zero_nat (unat w))"

section \<open>Schedules\<close>

fun run :: "('s \<Rightarrow> 'a \<Rightarrow> 's option) \<Rightarrow> 's \<Rightarrow> 'a list \<Rightarrow> 's option" where
  "run exec s [] = Some s"
| "run exec s (a # as) = (case exec s a of None \<Rightarrow> None | Some t \<Rightarrow> run exec t as)"

text \<open>
  The schedule of abstract actions that a concrete schedule induces: \<open>lin s a\<close> is the
  abstract action that the step \<open>a\<close> from \<open>s\<close> performs, if it performs one.
\<close>

fun lin_trace :: "('s \<Rightarrow> 'a \<Rightarrow> 's option) \<Rightarrow> ('s \<Rightarrow> 'a \<Rightarrow> 'b option) \<Rightarrow> 's \<Rightarrow> 'a list \<Rightarrow> 'b list" where
  "lin_trace exec lin s [] = []"
| "lin_trace exec lin s (a # as) =
     (case exec s a of None \<Rightarrow> []
      | Some t \<Rightarrow> (case lin s a of None \<Rightarrow> [] | Some b \<Rightarrow> [b]) @ lin_trace exec lin t as)"

named_theorems unat_simps \<open>reading 64-bit arithmetic as natural numbers\<close>

section \<open>Lemmas on results, lists and schedules\<close>

lemma bind_err_simps [simp]:
  "bind_err (Inl e) f = Inl e"
  "bind_err (Inr x) f = f x"
  by (simp_all add: bind_err_def)

lemma bind_err_Inr: "bind_err r f = Inr y \<longleftrightarrow> (\<exists>x. r = Inr x \<and> f x = Inr y)"
  by (cases r) auto

lemma bind_err_Inl: "bind_err r f = Inl e \<longleftrightarrow> r = Inl e \<or> (\<exists>x. r = Inr x \<and> f x = Inl e)"
  by (cases r) auto

lemma checked_nth_Inr [simp]: "checked_nth xs i = Inr x \<longleftrightarrow> i < length xs \<and> xs ! i = x"
  by (auto simp: checked_nth_def)

lemma deref_Inr [simp]: "deref p = Inr x \<longleftrightarrow> p = Some x"
  by (cases p) (auto simp: deref_def)

lemma deref_Some [simp]: "deref (Some x) = Inr x"
  by (simp add: deref_def)

lemma run_append: "run exec s (as @ bs) = Option.bind (run exec s as) (\<lambda>t. run exec t bs)"
  by (induction as arbitrary: s) (auto split: option.splits)

lemma run_snoc:
  "run exec s (as @ [a]) = Some u \<longleftrightarrow> (\<exists>t. run exec s as = Some t \<and> exec t a = Some u)"
  by (auto simp: run_append bind_eq_Some_conv split: option.splits)

section \<open>Invariants and refinement of schedules\<close>

locale machine_invariant =
  fixes exec :: "'s \<Rightarrow> 'a \<Rightarrow> 's option"
    and Inv :: "'s \<Rightarrow> bool"
  assumes exec_Inv: "Inv s \<Longrightarrow> exec s a = Some t \<Longrightarrow> Inv t"
begin

lemma run_Inv: "Inv s \<Longrightarrow> run exec s as = Some t \<Longrightarrow> Inv t"
  by (induction as arbitrary: s) (auto split: option.splits dest: exec_Inv)

end

locale machine_refinement = machine_invariant exec Inv
  for exec :: "'s \<Rightarrow> 'a \<Rightarrow> 's option"
    and Inv :: "'s \<Rightarrow> bool" +
  fixes aexec :: "'t \<Rightarrow> 'b \<Rightarrow> 't option"
    and abs :: "'s \<Rightarrow> 't"
    and lin :: "'s \<Rightarrow> 'a \<Rightarrow> 'b option"
  assumes stutter: "Inv s \<Longrightarrow> exec s a = Some t \<Longrightarrow> lin s a = None \<Longrightarrow> abs t = abs s"
    and linearize: "Inv s \<Longrightarrow> exec s a = Some t \<Longrightarrow> lin s a = Some b \<Longrightarrow> aexec (abs s) b = Some (abs t)"
begin

lemma run_abs:
  "Inv s \<Longrightarrow> run exec s as = Some t \<Longrightarrow> run aexec (abs s) (lin_trace exec lin s as) = Some (abs t)"
proof (induction as arbitrary: s)
  case Nil
  then show ?case by simp
next
  case (Cons a as)
  then obtain u where u: "exec s a = Some u" "run exec u as = Some t"
    by (auto split: option.splits)
  with Cons have "run aexec (abs u) (lin_trace exec lin u as) = Some (abs t)"
    using exec_Inv by blast
  with u Cons.prems show ?case
    by (cases "lin s a") (auto dest: stutter linearize)
qed

end

section \<open>Schedules within a budget\<close>

text \<open>
  Counters of the sources are machine words, so some invariants hold only as long as the calls are of
  reasonable size and there are not too many of them.  \<open>Inv n\<close> is the invariant after \<open>n\<close> steps, \<open>fits\<close> the
  condition on a call, \<open>lim\<close> the number of steps.
\<close>

locale budget_invariant =
  fixes exec :: "'s \<Rightarrow> 'a \<Rightarrow> 's option"
    and fits :: "'a \<Rightarrow> bool"
    and Inv :: "nat \<Rightarrow> 's \<Rightarrow> bool"
    and lim :: nat
  assumes budget_Inv: "Inv n s \<Longrightarrow> n < lim \<Longrightarrow> fits a \<Longrightarrow> exec s a = Some t \<Longrightarrow> Inv (Suc n) t"
begin

lemma budget_run:
  "Inv n s \<Longrightarrow> list_all fits as \<Longrightarrow> n + length as \<le> lim \<Longrightarrow> run exec s as = Some t \<Longrightarrow> Inv (n + length as) t"
proof (induction as arbitrary: n s)
  case Nil
  then show ?case by simp
next
  case (Cons a as)
  then obtain u where u: "exec s a = Some u" "run exec u as = Some t" by (auto split: option.splits)
  with Cons.prems have "Inv (Suc n) u" by (auto intro: budget_Inv)
  with Cons.IH [of "Suc n" u] Cons.prems u(2) show ?case by simp
qed

end

locale budget_progress = budget_invariant exec fits Inv lim
  for exec :: "'s \<Rightarrow> 'a \<Rightarrow> 's option" and fits Inv lim +
  assumes enabled: "Inv n s \<Longrightarrow> n < lim \<Longrightarrow> fits a \<Longrightarrow> \<exists>t. exec s a = Some t"
begin

lemma budget_returns:
  "Inv n s \<Longrightarrow> list_all fits as \<Longrightarrow> n + length as \<le> lim \<Longrightarrow> \<exists>t. run exec s as = Some t \<and> Inv (n + length as) t"
proof (induction as arbitrary: n s)
  case Nil
  then show ?case by simp
next
  case (Cons a as)
  then obtain u where u: "exec s a = Some u" using enabled [of n s a] by auto
  with Cons.prems have "Inv (Suc n) u" by (auto intro: budget_Inv)
  with Cons.IH [of "Suc n" u] Cons.prems u show ?case by simp
qed

end

locale budget_refinement = budget_invariant exec fits Inv lim
  for exec :: "'s \<Rightarrow> 'a \<Rightarrow> 's option" and fits Inv lim +
  fixes aexec :: "'t \<Rightarrow> 'b \<Rightarrow> 't option"
    and abs :: "'s \<Rightarrow> 't"
    and lin :: "'s \<Rightarrow> 'a \<Rightarrow> 'b option"
  assumes budget_stutter: "Inv n s \<Longrightarrow> n < lim \<Longrightarrow> fits a \<Longrightarrow> exec s a = Some t \<Longrightarrow> lin s a = None \<Longrightarrow> abs t = abs s"
    and budget_linearize: "Inv n s \<Longrightarrow> n < lim \<Longrightarrow> fits a \<Longrightarrow> exec s a = Some t \<Longrightarrow> lin s a = Some b \<Longrightarrow>
      aexec (abs s) b = Some (abs t)"
begin

lemma budget_abs:
  "Inv n s \<Longrightarrow> list_all fits as \<Longrightarrow> n + length as \<le> lim \<Longrightarrow> run exec s as = Some t \<Longrightarrow>
   run aexec (abs s) (lin_trace exec lin s as) = Some (abs t)"
proof (induction as arbitrary: n s)
  case Nil
  then show ?case by simp
next
  case (Cons a as)
  then obtain u where u: "exec s a = Some u" "run exec u as = Some t" by (auto split: option.splits)
  have b: "Inv n s" "n < lim" "fits a" using Cons.prems by auto
  note IH = Cons.IH [OF budget_Inv [OF b u(1)] _ _ u(2)]
  show ?case
  proof (cases "lin s a")
    case None
    with IH Cons.prems u(1) budget_stutter [OF b u(1)] show ?thesis by simp
  next
    case (Some c)
    with IH Cons.prems u(1) budget_linearize [OF b u(1) Some] show ?thesis by simp
  qed
qed

end

section \<open>Words as numbers\<close>

lemma unat_lt_size [simp]: "unat (w :: size_t) < 2 ^ 64"
  using unsigned_less [of w] by simp

lemma unat_shift [unat_simps]: "unat (drop_bit k (w :: size_t)) = unat w div 2 ^ k"
  by (subst unat_drop_bit_eq) (rule drop_bit_eq_div)

lemma unat_and_mask [unat_simps]:
  "unat ((w :: size_t) AND mask k) = unat w mod 2 ^ k"
  by (simp only: flip: take_bit_eq_mask take_bit_eq_mod) (simp add: unsigned_take_bit_eq)

lemma unat_add_size [unat_simps]:
  "unat a + unat b < 2 ^ 64 \<Longrightarrow> unat ((a :: size_t) + b) = unat a + unat b"
  by (simp add: unat_word_ariths)

lemma unat_of_nat_size [unat_simps]: "n < 2 ^ 64 \<Longrightarrow> unat (of_nat n :: size_t) = n"
  by (simp add: unat_of_nat)

lemma of_nat_size_eq_iff:
  "(of_nat m = (of_nat n :: size_t)) \<longleftrightarrow> m mod 2 ^ 64 = n mod 2 ^ 64"
  by (simp add: word_of_nat_eq_iff take_bit_eq_mod)

lemma of_nat_size_inj_window:
  assumes "of_nat m = (of_nat n :: size_t)" and "m \<le> n" and "n < m + 2 ^ 64"
  shows "m = n"
proof -
  from assms(1) have "m mod 2 ^ 64 = n mod 2 ^ 64"
    by (simp only: of_nat_size_eq_iff)
  with assms(2) have "2 ^ 64 dvd n - m"
    by (metis mod_eq_dvd_iff_nat)
  with assms(3) have "n - m = 0"
    by (metis add_diff_inverse_nat assms(2) dvd_imp_le linorder_not_less nat_add_left_cancel_less not_gr_zero)
  with assms(2) show ?thesis by simp
qed

lemma mod_size_mod: "c \<le> 64 \<Longrightarrow> j mod 18446744073709551616 mod 2 ^ c = (j :: nat) mod 2 ^ c"
  using mod_mod_cancel [OF le_imp_power_dvd [of c 64 "2::nat"], of j] by simp

lemma pow_le_size: "c < 64 \<Longrightarrow> (2 :: nat) ^ c \<le> 2 ^ 63"
  by (intro power_increasing) auto

lemma bit_width_nat_bounds: "0 < n \<Longrightarrow> 2 ^ (bit_width_nat n - 1) \<le> n \<and> n < 2 ^ bit_width_nat n"
proof (induction n rule: bit_width_nat.induct)
  case (1 n)
  show ?case
  proof (cases "n = 1")
    case True
    then show ?thesis by (simp add: bit_width_nat.simps)
  next
    case False
    with 1 have IH: "2 ^ (bit_width_nat (n div 2) - 1) \<le> n div 2" "n div 2 < 2 ^ bit_width_nat (n div 2)"
      by auto
    have w: "bit_width_nat n = Suc (bit_width_nat (n div 2))"
      using 1(2) by (simp add: bit_width_nat.simps [of n])
    have half: "0 < n div 2" using 1(2) False by (simp add: div_greater_zero_iff)
    then obtain m where m: "bit_width_nat (n div 2) = Suc m" by (simp add: bit_width_nat.simps [of "n div 2"])
    have "2 * 2 ^ m \<le> 2 * (n div 2)" using IH(1) m by simp
    moreover have "2 * (n div 2) \<le> n" "n < 2 * (n div 2) + 2" by simp_all
    ultimately show ?thesis using w m IH(2) by simp
  qed
qed

lemma unat_pow2 [unat_simps]: "c < 64 \<Longrightarrow> unat (2 ^ c :: size_t) = 2 ^ c"
  using unat_of_nat_size [of "2 ^ c"] power_strict_increasing [of c 64 "2 :: nat"] by simp

lemma bit_floor_bounds:
  assumes "w \<noteq> 0"
  obtains c where "bit_floor w = 2 ^ c" "c < 64" "2 ^ c \<le> unat w" "unat w < 2 * 2 ^ c"
proof -
  have pos: "0 < unat w" using assms by (simp add: unat_gt_0)
  then obtain c where c: "bit_width w = Suc c" by (simp add: bit_width_def bit_width_nat.simps [of "unat w"])
  have b: "2 ^ c \<le> unat w" "unat w < 2 * 2 ^ c"
    using bit_width_nat_bounds [OF pos] c by (simp_all add: bit_width_def)
  have "(2 :: nat) ^ c < 2 ^ 64" using b(1) unat_lt_size by (rule le_less_trans)
  then have "c < 64" by (rule power_less_imp_less_exp [rotated]) simp
  then show ?thesis using that [of c] b c assms by (simp add: bit_floor_def)
qed

end
