(* ===== verification/Spin_Lock.thy ===== *)
theory Spin_Lock
  imports Conc_Prelude
begin

text \<open>
  \<^verbatim>\<open>Spinlock/spinlock.h\<close>: the test-and-test-and-set lock with two-tier back-off.

  The lock word is the \<open>int\<close> of the source (0 free, 1 held).  \<open>spin_step\<close> is one shared
  access (or one sleep) of a thread inside \<open>lock()\<close> or \<open>try_lock()\<close>; its program
  counter carries the loop variable \<open>spin_count\<close> and the position in the unrolled
  burst of eight attempts.  \<open>spin_exec\<close> interleaves any number of threads.
  \<open>spin_solo\<close> runs one thread against an arbitrary environment, which chooses the lock
  word found at each of the thread's steps.  \<open>ttas\<close> is one whole
  attempt, the form in which the other components use the lock; the locale
  \<open>mutex\<close> is what they rely on.
\<close>

section \<open>The lock word and one acquire attempt\<close>

definition unlock :: "int \<Rightarrow> int" where
  "unlock l = 0"

definition locked :: "int \<Rightarrow> bool" where
  "locked l \<longleftrightarrow> l = 1"

text \<open>\<^verbatim>\<open>!(lock_.load() || lock_.exchange(1))\<close>: whether the attempt won, and the word it leaves.\<close>

definition ttas :: "int \<Rightarrow> bool \<times> int" where
  "ttas l = (if l \<noteq> 0 then (False, l) else (True, 1))"

section \<open>The spin loops, one access at a time\<close>

datatype spin_op = Lock | Try_lock

text \<open>
  \<open>Sp_test op c k\<close>: about to load the word for attempt \<open>k\<close> (0 is the \<^verbatim>\<open>for\<close> condition, 1 to
  7 the unrolled body) with \<open>spin_count = c\<close>; \<open>Sp_xchg\<close>: the load saw 0, about to exchange;
  \<open>Sp_short\<close>, \<open>Sp_long\<close>: about to sleep, \<open>spin_count\<close> as the \<^verbatim>\<open>for\<close> header will
  increment it; \<open>Sp_held\<close>: the call returned holding the lock; \<open>Sp_failed\<close>: \<open>try_lock()\<close>
  returned false.
\<close>

datatype spin_pc =
    Sp_idle
  | Sp_test spin_op int nat
  | Sp_xchg spin_op int nat
  | Sp_short spin_op int
  | Sp_long spin_op int
  | Sp_held
  | Sp_failed

text \<open>After a failed attempt: the next of the burst, or the back-off at its end.\<close>

definition spin_failed_attempt :: "spin_op \<Rightarrow> int \<Rightarrow> nat \<Rightarrow> spin_pc" where
  "spin_failed_attempt op c k =
     (if k < 7 then Sp_test op c (Suc k)
      else if c < 8 then Sp_short op c
      else (case op of Lock \<Rightarrow> Sp_long op (-1) | Try_lock \<Rightarrow> Sp_failed))"

fun spin_step :: "spin_pc \<Rightarrow> int \<Rightarrow> spin_pc \<times> int" where
  "spin_step (Sp_test op c k) l =
     (if l \<noteq> 0 then (spin_failed_attempt op c k, l) else (Sp_xchg op c k, l))"
| "spin_step (Sp_xchg op c k) l =
     (if l \<noteq> 0 then (spin_failed_attempt op c k, 1) else (Sp_held, 1))"
| "spin_step (Sp_short op c) l = (Sp_test op (c + 1) 0, l)"
| "spin_step (Sp_long op c) l = (Sp_test op (c + 1) 0, l)"
| "spin_step Sp_idle l = (Sp_idle, l)"
| "spin_step Sp_held l = (Sp_held, l)"
| "spin_step Sp_failed l = (Sp_failed, l)"

definition spin_enter :: "spin_op \<Rightarrow> spin_pc" where
  "spin_enter op = Sp_test op 0 0"

definition spin_running :: "spin_pc \<Rightarrow> bool" where
  "spin_running p \<longleftrightarrow> p \<noteq> Sp_idle \<and> p \<noteq> Sp_held \<and> p \<noteq> Sp_failed"

section \<open>Any number of threads on one lock\<close>

record spin_sys =
  lock_word :: int
  spin_pcs :: "tid \<Rightarrow> spin_pc"

datatype spin_action = Sp_call tid spin_op | Sp_step tid | Sp_unlock tid

fun spin_exec :: "spin_sys \<Rightarrow> spin_action \<Rightarrow> spin_sys option" where
  "spin_exec s (Sp_call t op) =
     (if spin_pcs s t = Sp_idle \<or> spin_pcs s t = Sp_failed
      then Some (s\<lparr>spin_pcs := (spin_pcs s)(t := spin_enter op)\<rparr>) else None)"
| "spin_exec s (Sp_step t) =
     (if spin_running (spin_pcs s t)
      then (case spin_step (spin_pcs s t) (lock_word s) of (p, l) \<Rightarrow>
              Some (s\<lparr>lock_word := l, spin_pcs := (spin_pcs s)(t := p)\<rparr>))
      else None)"
| "spin_exec s (Sp_unlock t) =
     (if spin_pcs s t = Sp_held
      then Some (s\<lparr>lock_word := unlock (lock_word s), spin_pcs := (spin_pcs s)(t := Sp_idle)\<rparr>)
      else None)"

definition spin_init :: spin_sys where
  "spin_init = \<lparr>lock_word = 0, spin_pcs = (\<lambda>_. Sp_idle)\<rparr>"

text \<open>The abstract lock: an atomic holder.\<close>

datatype alock_action = Acquire tid | Release tid

fun alock_exec :: "tid option \<Rightarrow> alock_action \<Rightarrow> tid option option" where
  "alock_exec h (Acquire t) = (if h = None then Some (Some t) else None)"
| "alock_exec h (Release t) = (if h = Some t then Some None else None)"

definition spin_inv :: "spin_sys \<Rightarrow> bool" where
  "spin_inv s \<longleftrightarrow>
     (lock_word s = 0 \<and> (\<forall>t. spin_pcs s t \<noteq> Sp_held)) \<or>
     (lock_word s = 1 \<and> (\<exists>!t. spin_pcs s t = Sp_held))"

definition spin_abs :: "spin_sys \<Rightarrow> tid option" where
  "spin_abs s = (if lock_word s = 0 then None else Some (THE t. spin_pcs s t = Sp_held))"

definition spin_lin :: "spin_sys \<Rightarrow> spin_action \<Rightarrow> alock_action option" where
  "spin_lin s a = (case a of
       Sp_call t op \<Rightarrow> None
     | Sp_step t \<Rightarrow> (case spin_pcs s t of Sp_xchg op c k \<Rightarrow>
                      (if lock_word s = 0 then Some (Acquire t) else None) | _ \<Rightarrow> None)
     | Sp_unlock t \<Rightarrow> Some (Release t))"

section \<open>One thread against any environment\<close>

datatype spin_event = Ev_attempt_failed | Ev_looks_free | Ev_won | Ev_short_sleep | Ev_long_sleep

fun spin_events_of :: "spin_pc \<Rightarrow> int \<Rightarrow> spin_event list" where
  "spin_events_of (Sp_test op c k) l = (if l \<noteq> 0 then [Ev_attempt_failed] else [Ev_looks_free])"
| "spin_events_of (Sp_xchg op c k) l = (if l \<noteq> 0 then [Ev_attempt_failed] else [Ev_won])"
| "spin_events_of (Sp_short op c) l = [Ev_short_sleep]"
| "spin_events_of (Sp_long op c) l = [Ev_long_sleep]"
| "spin_events_of Sp_idle l = []"
| "spin_events_of Sp_held l = []"
| "spin_events_of Sp_failed l = []"

text \<open>\<open>spin_solo p ws\<close>: the thread's steps when the environment lets it find the words \<open>ws\<close>.\<close>

fun spin_solo :: "spin_pc \<Rightarrow> int list \<Rightarrow> spin_pc \<times> spin_event list" where
  "spin_solo p [] = (p, [])"
| "spin_solo p (w # ws) =
     (case spin_solo (fst (spin_step p w)) ws of (q, es) \<Rightarrow> (q, spin_events_of p w @ es))"

definition spin_lock_call :: "int list \<Rightarrow> spin_pc \<times> spin_event list" where
  "spin_lock_call ws = spin_solo (spin_enter Lock) ws"

definition spin_try_lock_call :: "int list \<Rightarrow> spin_pc \<times> spin_event list" where
  "spin_try_lock_call ws = spin_solo (spin_enter Try_lock) ws"

section \<open>The interface the other components use\<close>

text \<open>
  \<open>owned l C\<close>: the lock word agrees with the set of threads in the critical section.
  The laws are all a client needs: at most one owner, and the word follows the owner.
\<close>

locale mutex =
  fixes try_acquire :: "'l \<Rightarrow> bool \<times> 'l"
    and release :: "'l \<Rightarrow> 'l"
    and held :: "'l \<Rightarrow> bool"
    and owned :: "'l \<Rightarrow> tid set \<Rightarrow> bool"
  assumes owned_sub: "owned l C \<Longrightarrow> C = {} \<or> (\<exists>t. C = {t})"
    and owned_held: "owned l C \<Longrightarrow> held l \<longleftrightarrow> C \<noteq> {}"
    and acquire_owned: "owned l C \<Longrightarrow> try_acquire l = (True, l') \<Longrightarrow> C = {} \<and> owned l' {t}"
    and fail_same: "try_acquire l = (False, l') \<Longrightarrow> l' = l \<and> held l \<or> \<not> owned l C"
    and release_owned: "owned l {t} \<Longrightarrow> owned (release l) {}"
begin

lemma exclusive: "owned l C \<Longrightarrow> t \<in> C \<Longrightarrow> u \<in> C \<Longrightarrow> t = u"
  using owned_sub by fastforce

lemma acquire_free: "owned l {} \<Longrightarrow> \<exists>l'. try_acquire l = (True, l')"
  by (metis fail_same owned_held prod.exhaust_sel)

lemma acquire_blocked: "owned l C \<Longrightarrow> C \<noteq> {} \<Longrightarrow> fst (try_acquire l) = False"
  by (metis (full_types) acquire_owned prod.exhaust_sel)

end

definition spin_owned :: "int \<Rightarrow> tid set \<Rightarrow> bool" where
  "spin_owned l C \<longleftrightarrow> (l = 0 \<and> C = {}) \<or> (l = 1 \<and> (\<exists>t. C = {t}))"

interpretation spin: mutex ttas unlock locked spin_owned
  by unfold_locales (auto simp: ttas_def unlock_def locked_def spin_owned_def split: if_splits)

section \<open>Mutual exclusion and refinement\<close>

lemma spin_inv_init: "spin_inv spin_init"
  by (simp add: spin_inv_def spin_init_def)

lemma spin_failed_attempt_not_held [simp]:
  "spin_failed_attempt op c k \<noteq> Sp_held" "spin_failed_attempt op c k \<noteq> Sp_idle"
  by (auto simp: spin_failed_attempt_def split: spin_op.splits)

lemma spin_step_held:
  "spin_running p \<Longrightarrow> spin_step p l = (Sp_held, l') \<longleftrightarrow>
     (\<exists>op c k. p = Sp_xchg op c k) \<and> l = 0 \<and> l' = 1"
  by (cases p) (auto simp: spin_running_def)

lemma spin_step_word:
  "spin_step p l = (q, l') \<Longrightarrow> q \<noteq> Sp_held \<Longrightarrow> l = 0 \<or> l = 1 \<Longrightarrow> l' = l"
  by (cases p) (auto split: if_splits)

lemma spin_inv_not_held_upd:
  assumes "spin_inv s" and "spin_pcs s t \<noteq> Sp_held" and "q \<noteq> Sp_held"
  shows "spin_inv (s\<lparr>spin_pcs := (spin_pcs s)(t := q)\<rparr>)"
proof -
  have "((spin_pcs s)(t := q)) u = Sp_held \<longleftrightarrow> spin_pcs s u = Sp_held" for u
    using assms(2,3) by simp
  with assms(1) show ?thesis by (simp add: spin_inv_def)
qed

lemma spin_exec_inv: "spin_inv s \<Longrightarrow> spin_exec s a = Some s' \<Longrightarrow> spin_inv s'"
proof (cases a)
  case (Sp_call t op)
  assume "spin_inv s" "spin_exec s a = Some s'"
  with Sp_call show ?thesis
    by (auto simp: spin_enter_def intro!: spin_inv_not_held_upd split: if_splits)
next
  case (Sp_step t)
  assume inv: "spin_inv s" and ex: "spin_exec s a = Some s'"
  obtain p l where st: "spin_step (spin_pcs s t) (lock_word s) = (p, l)" by fastforce
  from ex Sp_step st have r: "spin_running (spin_pcs s t)"
    and s': "s' = s\<lparr>lock_word := l, spin_pcs := (spin_pcs s)(t := p)\<rparr>"
    by (auto split: if_splits)
  from r have nh: "spin_pcs s t \<noteq> Sp_held" by (simp add: spin_running_def)
  show ?thesis
  proof (cases "p = Sp_held")
    case True
    with st r have "lock_word s = 0" "l = 1" by (auto simp: spin_step_held)
    with inv s' True show ?thesis by (auto simp: spin_inv_def)
  next
    case False
    with st inv have "l = lock_word s" by (auto simp: spin_inv_def dest: spin_step_word)
    with s' have "s' = s\<lparr>spin_pcs := (spin_pcs s)(t := p)\<rparr>" by simp
    with inv nh False show ?thesis by (auto intro: spin_inv_not_held_upd)
  qed
next
  case (Sp_unlock t)
  assume "spin_inv s" "spin_exec s a = Some s'"
  with Sp_unlock show ?thesis
    by (auto simp: spin_inv_def unlock_def split: if_splits)
qed

interpretation spinm: machine_invariant spin_exec spin_inv
  by unfold_locales (rule spin_exec_inv)

lemma spin_abs_held: "spin_inv s \<Longrightarrow> spin_pcs s t = Sp_held \<Longrightarrow> spin_abs s = Some t"
  by (auto simp: spin_inv_def spin_abs_def intro: the1_equality)

lemma spin_abs_cong:
  assumes "lock_word t = lock_word s" and "\<And>u. spin_pcs t u = Sp_held \<longleftrightarrow> spin_pcs s u = Sp_held"
  shows "spin_abs t = spin_abs s"
  using assms by (simp add: spin_abs_def)

interpretation spinr: machine_refinement spin_exec spin_inv alock_exec spin_abs spin_lin
proof unfold_locales
  fix s a t
  assume inv: "spin_inv s" and ex: "spin_exec s a = Some t" and none: "spin_lin s a = None"
  show "spin_abs t = spin_abs s"
  proof (rule spin_abs_cong)
    show "lock_word t = lock_word s"
      using ex none inv
      by (cases a) (auto simp: spin_lin_def spin_inv_def spin_running_def
          split: if_splits prod.splits spin_pc.splits)
    show "spin_pcs t u = Sp_held \<longleftrightarrow> spin_pcs s u = Sp_held" for u
      using ex none
      by (cases a) (auto simp: spin_lin_def spin_enter_def spin_running_def
          split: if_splits prod.splits spin_pc.splits)
  qed
next
  fix s a t b
  assume inv: "spin_inv s" and ex: "spin_exec s a = Some t" and b: "spin_lin s a = Some b"
  from inv ex have inv': "spin_inv t" by (rule spin_exec_inv)
  from b consider (acq) u op c k where "a = Sp_step u" "spin_pcs s u = Sp_xchg op c k"
      "lock_word s = 0" "b = Acquire u"
    | (rel) u where "a = Sp_unlock u" "b = Release u"
    by (auto simp: spin_lin_def split: spin_action.splits spin_pc.splits if_splits)
  then show "alock_exec (spin_abs s) b = Some (spin_abs t)"
  proof cases
    case acq
    with ex have "spin_pcs t u = Sp_held" by (auto simp: spin_running_def)
    with inv' have "spin_abs t = Some u" by (rule spin_abs_held)
    moreover have "spin_abs s = None" using acq by (simp add: spin_abs_def)
    ultimately show ?thesis using acq by simp
  next
    case rel
    with ex have "spin_pcs s u = Sp_held" and "lock_word t = 0"
      by (auto simp: unlock_def split: if_splits)
    with inv have "spin_abs s = Some u" and "spin_abs t = None"
      by (auto dest: spin_abs_held simp: spin_abs_def)
    with rel show ?thesis by simp
  qed
qed

section \<open>Bounds of the spin loops\<close>

text \<open>Failed attempts and steps that \<open>try_lock()\<close> has left before it gives up.\<close>

fun attempts_left :: "spin_pc \<Rightarrow> nat" where
  "attempts_left (Sp_test op c k) = 8 * nat (8 - c) + (8 - k)"
| "attempts_left (Sp_xchg op c k) = 8 * nat (8 - c) + (8 - k)"
| "attempts_left (Sp_short op c) = 8 * nat (8 - c)"
| "attempts_left _ = 0"

fun steps_left :: "spin_pc \<Rightarrow> nat" where
  "steps_left (Sp_test op c k) = 2 * (8 * nat (8 - c) + (8 - k)) + nat (8 - c)"
| "steps_left (Sp_xchg op c k) = 2 * (8 * nat (8 - c) + (8 - k)) + nat (8 - c) - 1"
| "steps_left (Sp_short op c) = 16 * nat (8 - c) + nat (8 - c)"
| "steps_left _ = 0"

fun parks_left :: "spin_pc \<Rightarrow> nat" where
  "parks_left (Sp_test op c k) = nat (8 - c)"
| "parks_left (Sp_xchg op c k) = nat (8 - c)"
| "parks_left (Sp_short op c) = nat (8 - c)"
| "parks_left _ = 0"

fun try_wf :: "spin_pc \<Rightarrow> bool" where
  "try_wf (Sp_test op c k) \<longleftrightarrow> op = Try_lock \<and> 0 \<le> c \<and> c \<le> 8 \<and> k < 8"
| "try_wf (Sp_xchg op c k) \<longleftrightarrow> op = Try_lock \<and> 0 \<le> c \<and> c \<le> 8 \<and> k < 8"
| "try_wf (Sp_short op c) \<longleftrightarrow> op = Try_lock \<and> 0 \<le> c \<and> c < 8"
| "try_wf (Sp_long op c) \<longleftrightarrow> False"
| "try_wf Sp_idle \<longleftrightarrow> False"
| "try_wf _ \<longleftrightarrow> True"

lemma try_wf_step: "try_wf p \<Longrightarrow> try_wf (fst (spin_step p w))"
  by (cases p) (auto simp: spin_failed_attempt_def)

lemma steps_left_step:
  "try_wf p \<Longrightarrow> spin_running p \<Longrightarrow> steps_left (fst (spin_step p w)) < steps_left p"
  by (cases p) (auto simp: spin_failed_attempt_def spin_running_def)

lemma not_running_solo: "\<not> spin_running p \<Longrightarrow> spin_solo p ws = (p, [])"
  by (induction ws) (auto simp: spin_running_def)

lemma fst_spin_solo: "fst (spin_solo p (w # ws)) = fst (spin_solo (fst (spin_step p w)) ws)"
  by (simp split: prod.splits)

lemma try_solo_ends:
  "try_wf p \<Longrightarrow> steps_left p \<le> length ws \<Longrightarrow> \<not> spin_running (fst (spin_solo p ws))"
proof (induction ws arbitrary: p)
  case Nil
  then show ?case by (cases p) (auto simp: spin_running_def)
next
  case (Cons w ws)
  show ?case
  proof (cases "spin_running p")
    case True
    with Cons.prems have "steps_left (fst (spin_step p w)) \<le> length ws"
      using steps_left_step [of p w] by simp
    with Cons.IH [OF try_wf_step [OF Cons.prems(1)]] show ?thesis by (simp add: fst_spin_solo del: spin_solo.simps)
  next
    case False
    then show ?thesis by (simp add: not_running_solo del: spin_solo.simps)
  qed
qed

lemma try_solo_counts:
  "try_wf p \<Longrightarrow> spin_solo p ws = (q, es) \<Longrightarrow> q \<noteq> Sp_held \<Longrightarrow>
     attempts_left p = count_list es Ev_attempt_failed + attempts_left q \<and>
     parks_left p = count_list es Ev_short_sleep + parks_left q \<and>
     Ev_long_sleep \<notin> set es \<and> Ev_won \<notin> set es \<and> try_wf q"
proof (induction ws arbitrary: p es)
  case Nil
  then show ?case by auto
next
  case (Cons w ws)
  obtain es' where es': "spin_solo (fst (spin_step p w)) ws = (q, es')"
    and es: "es = spin_events_of p w @ es'"
    using Cons.prems(2) by (auto split: prod.splits)
  have wf: "try_wf (fst (spin_step p w))" using Cons.prems(1) by (rule try_wf_step)
  note IH = Cons.IH [OF wf es' Cons.prems(3)]
  have nh: "fst (spin_step p w) \<noteq> Sp_held"
    using es' Cons.prems(3) by (auto simp: not_running_solo spin_running_def)
  have "attempts_left p =
      count_list (spin_events_of p w) Ev_attempt_failed + attempts_left (fst (spin_step p w)) \<and>
    parks_left p =
      count_list (spin_events_of p w) Ev_short_sleep + parks_left (fst (spin_step p w)) \<and>
    Ev_long_sleep \<notin> set (spin_events_of p w) \<and> Ev_won \<notin> set (spin_events_of p w)"
    using Cons.prems(1) nh
    by (cases p) (auto simp: spin_failed_attempt_def nat_diff_distrib' split: if_splits)
  with IH es show ?case by simp
qed

text \<open>A thread that only ever finds the lock held does not see the difference between held words.\<close>

fun testing :: "spin_pc \<Rightarrow> bool" where
  "testing (Sp_xchg op c k) \<longleftrightarrow> False"
| "testing Sp_held \<longleftrightarrow> False"
| "testing _ \<longleftrightarrow> True"

lemma testing_step: "w \<noteq> 0 \<Longrightarrow> testing p \<Longrightarrow> testing (fst (spin_step p w))"
  by (cases p) (auto simp: spin_failed_attempt_def split: spin_op.splits)

lemma spin_solo_busy:
  "\<forall>w\<in>set ws. w \<noteq> 0 \<Longrightarrow> testing p \<Longrightarrow> spin_solo p ws = spin_solo p (replicate (length ws) 1)"
proof (induction ws arbitrary: p)
  case Nil
  then show ?case by simp
next
  case (Cons w ws)
  have same: "fst (spin_step p w) = fst (spin_step p 1)" "spin_events_of p w = spin_events_of p 1"
    using Cons.prems by (cases p; simp)+
  have "testing (fst (spin_step p 1))" using Cons.prems(2) by (rule testing_step [rotated]) simp
  with Cons.IH Cons.prems same show ?case by (simp split: prod.splits)
qed

lemma spin_solo_append:
  "spin_solo p (us @ ws) =
     (case spin_solo p us of (q, es) \<Rightarrow> case spin_solo q ws of (r, fs) \<Rightarrow> (r, es @ fs))"
  by (induction us arbitrary: p) (auto split: prod.splits)

definition lock_backoff_round :: "spin_event list" where
  "lock_backoff_round =
     concat (replicate 8 (replicate 8 Ev_attempt_failed @ [Ev_short_sleep]))
     @ replicate 8 Ev_attempt_failed @ [Ev_long_sleep]"

lemma lock_one_cycle:
  "spin_solo (spin_enter Lock) (replicate 81 1) = (spin_enter Lock, lock_backoff_round)"
  by code_simp

lemma lock_cycles:
  "spin_solo (spin_enter Lock) (replicate (81 * n) 1) =
     (spin_enter Lock, concat (replicate n lock_backoff_round))"
proof (induction n)
  case 0
  then show ?case by simp
next
  case (Suc n)
  have "replicate (81 * Suc n) 1 = replicate 81 1 @ replicate (81 * n) (1::int)"
    by (simp only: flip: replicate_add) (simp add: algebra_simps)
  with Suc show ?case by (simp add: spin_solo_append lock_one_cycle)
qed

section \<open>Properties\<close>

text \<open>
  C10.  Mutual exclusion: after any interleaving of any number of threads calling \<open>lock()\<close>,
  \<open>try_lock()\<close> and, when they hold it, \<open>unlock()\<close>, at most one thread holds the lock, and the
  lock word is 1 exactly when some thread does.
\<close>

theorem spin_mutual_exclusion:
  assumes "run spin_exec spin_init as = Some s"
  shows "(spin_pcs s t = Sp_held \<longrightarrow> spin_pcs s u = Sp_held \<longrightarrow> t = u) \<and>
         (locked (lock_word s) \<longleftrightarrow> (\<exists>v. spin_pcs s v = Sp_held))"
proof -
  have "spin_inv s" using spinm.run_Inv [OF spin_inv_init assms] .
  then show ?thesis by (auto simp: spin_inv_def locked_def)
qed

text \<open>A run in which thread 1 takes the lock while thread 0 has already seen it free.\<close>

theorem spin_mutual_exclusion_witness:
  "\<exists>s. run spin_exec spin_init
         [Sp_call 0 Lock, Sp_call 1 Try_lock, Sp_step 0, Sp_step 1, Sp_step 1, Sp_step 0] = Some s \<and>
       (spin_pcs s 1 = Sp_held \<longrightarrow> spin_pcs s 0 = Sp_held \<longrightarrow> (1::nat) = 0) \<and>
       spin_pcs s 1 = Sp_held \<and> locked (lock_word s)"
proof -
  let ?as = "[Sp_call 0 Lock, Sp_call 1 Try_lock, Sp_step 0, Sp_step 1, Sp_step 1, Sp_step 0]"
  obtain s where s: "run spin_exec spin_init ?as = Some s" "spin_pcs s 1 = Sp_held"
    by (simp add: spin_init_def spin_enter_def spin_running_def spin_failed_attempt_def)
  with spin_mutual_exclusion [OF s(1), of 1 0] show ?thesis by blast
qed

text \<open>
  Refinement: every interleaving of the spin loops is, step for step, an
  interleaving of an atomic lock, where a call acquires at its winning exchange
  and releases at its store of 0, and every other access changes nothing.
\<close>

theorem spin_refines_atomic_lock:
  assumes "run spin_exec spin_init as = Some s"
  shows "run alock_exec None (lin_trace spin_exec spin_lin spin_init as) = Some (spin_abs s)"
  using spinr.run_abs [OF spin_inv_init assms] by (simp add: spin_abs_def spin_init_def)

theorem spin_refines_atomic_lock_witness:
  "run alock_exec None (lin_trace spin_exec spin_lin spin_init
      [Sp_call 0 Lock, Sp_call 1 Try_lock, Sp_step 0, Sp_step 1, Sp_step 1, Sp_step 0, Sp_unlock 1])
   = Some None"
proof -
  let ?as = "[Sp_call 0 Lock, Sp_call 1 Try_lock, Sp_step 0, Sp_step 1, Sp_step 1, Sp_step 0, Sp_unlock 1]"
  obtain s where s: "run spin_exec spin_init ?as = Some s" "lock_word s = 0"
    by (simp add: spin_init_def spin_enter_def spin_running_def spin_failed_attempt_def unlock_def)
  with spin_refines_atomic_lock [OF s(1)] show ?thesis by (simp add: spin_abs_def)
qed

text \<open>
  \<open>try_lock()\<close> is bounded and its \<^verbatim>\<open>false\<close> is honest: whatever lock words the
  environment lets it find, it returns within 152 of its own accesses and sleeps, and if it returns
  false it made exactly 72 attempts, each of which found the lock held, and
  parked exactly 8 times, never taking the long sleep.
\<close>

theorem try_lock_bounded:
  assumes "152 \<le> length ws"
  shows "fst (spin_try_lock_call ws) = Sp_held \<or>
         (fst (spin_try_lock_call ws) = Sp_failed \<and>
          count_list (snd (spin_try_lock_call ws)) Ev_attempt_failed = 72 \<and>
          count_list (snd (spin_try_lock_call ws)) Ev_short_sleep = 8 \<and>
          Ev_long_sleep \<notin> set (snd (spin_try_lock_call ws)))"
proof -
  obtain q es where solo: "spin_solo (spin_enter Try_lock) ws = (q, es)" by fastforce
  have wf: "try_wf (spin_enter Try_lock)" by (simp add: spin_enter_def)
  have "\<not> spin_running q"
    using try_solo_ends [OF wf, of ws] solo assms by (simp add: spin_enter_def)
  moreover have "q \<noteq> Sp_idle" using try_solo_counts [OF wf solo] by auto
  ultimately have "q = Sp_held \<or> q = Sp_failed" by (auto simp: spin_running_def)
  with try_solo_counts [OF wf solo] solo show ?thesis
    by (auto simp: spin_try_lock_call_def spin_enter_def)
qed

theorem try_lock_bounded_witness:
  "fst (spin_try_lock_call (replicate 152 1)) = Sp_failed \<and>
   count_list (snd (spin_try_lock_call (replicate 152 1))) Ev_attempt_failed = 72"
proof -
  have "fst (spin_try_lock_call (replicate 152 1)) \<noteq> Sp_held" by code_simp
  with try_lock_bounded [of "replicate 152 1"] show ?thesis by auto
qed

text \<open>
  The back-off of \<open>lock()\<close>: a waiter that keeps finding the lock held repeats, forever,
  the documented cycle of eight rounds (a burst of eight attempts, then a short
  park) followed by one burst and one long sleep.
\<close>

theorem lock_backoff_schedule:
  assumes "length ws = 81 * n" and "\<forall>w\<in>set ws. w \<noteq> 0"
  shows "spin_lock_call ws = (spin_enter Lock, concat (replicate n lock_backoff_round))"
  using spin_solo_busy [OF assms(2), of "spin_enter Lock"] lock_cycles [of n] assms(1)
  by (simp add: spin_lock_call_def spin_enter_def)

theorem lock_backoff_schedule_witness:
  "spin_lock_call (replicate 162 1) =
     (spin_enter Lock, lock_backoff_round @ lock_backoff_round)"
  using lock_backoff_schedule [of "replicate 162 1" 2] by (simp add: numeral_2_eq_2)

end
