(* ===== verification/Tune_Lock.thy ===== *)
theory Tune_Lock
  imports Spin_Lock
begin

text \<open>
  \<^verbatim>\<open>Spinlock/spinlock_tune.h\<close>: the lock word of \<open>SpinLock\<close> with the back-off ladder as a parameter.  Every call of \<^verbatim>\<open>lock<P>()\<close> has its own
  parameters, which its program counter carries, so threads with different ladders share one word.  The bounds of the
  tiers and the counter of the rounds are the 32-bit \<^verbatim>\<open>unsigned\<close> of the source.  \<open>LockAdapter\<close> and \<open>LadderedLock\<close> forward to
  \<open>TunableSpinLock\<close> with a fixed \<open>P\<close>.
\<close>

section \<open>The ladder\<close>

record back_off_params =
  ntry :: int
  npause :: int
  nyield :: int
  nshort :: int
  long_sleep_ns :: int
  short_sleep_ns :: int

text \<open>\<^verbatim>\<open>BackOffParams{}\<close>, and the static assertions of \<open>BackOffLadder\<close> with the ranges of \<^verbatim>\<open>int\<close>.\<close>

definition default_params :: back_off_params where
  "default_params = \<lparr>ntry = 8, npause = 0, nyield = 0, nshort = 8, long_sleep_ns = 1000001, short_sleep_ns = 1\<rparr>"

definition params_ok :: "back_off_params \<Rightarrow> bool" where
  "params_ok P \<longleftrightarrow> 1 \<le> ntry P \<and> ntry P < 2 ^ 31 \<and> 0 \<le> npause P \<and> npause P < 2 ^ 31 \<and> 0 \<le> nyield P \<and> nyield P < 2 ^ 31 \<and>
     0 \<le> nshort P \<and> nshort P < 2 ^ 31 \<and> 0 \<le> long_sleep_ns P \<and> long_sleep_ns P < 1000000000 \<and>
     0 \<le> short_sleep_ns P \<and> short_sleep_ns P < 1000000000"

definition pause_end :: "back_off_params \<Rightarrow> 32 word" where
  "pause_end P = word_of_int (npause P)"

definition yield_end :: "back_off_params \<Rightarrow> 32 word" where
  "yield_end P = pause_end P + word_of_int (nyield P)"

definition short_end :: "back_off_params \<Rightarrow> 32 word" where
  "short_end P = yield_end P + word_of_int (nshort P)"

datatype back_off = B_pause | B_yield | B_sleep int

text \<open>
  \<open>Tn_test P round k\<close>: about to load the word for attempt \<open>k\<close> of the burst; \<open>Tn_xchg\<close>: the load saw 0; \<open>Tn_wait P b round\<close>: about
  to back off, with the round that follows.
\<close>

datatype tune_pc =
    Tn_idle
  | Tn_test back_off_params "32 word" nat
  | Tn_xchg back_off_params "32 word" nat
  | Tn_wait back_off_params back_off "32 word"
  | Tn_held

text \<open>The end of a burst: the tiers of \<open>acquire\<close>.\<close>

definition tune_tier :: "back_off_params \<Rightarrow> 32 word \<Rightarrow> tune_pc" where
  "tune_tier P round =
     (if round < pause_end P then Tn_wait P B_pause (round + 1)
      else if round < yield_end P then Tn_wait P B_yield (round + 1)
      else if round < short_end P then Tn_wait P (B_sleep (short_sleep_ns P)) (round + 1)
      else if long_sleep_ns P > 0 then Tn_wait P (B_sleep (long_sleep_ns P)) 0
      else Tn_test P 0 0)"

text \<open>\<open>try_acquire_burst\<close>: the next of the \<open>ntry\<close> attempts, or the end of the burst.\<close>

definition tune_failed :: "back_off_params \<Rightarrow> 32 word \<Rightarrow> nat \<Rightarrow> tune_pc" where
  "tune_failed P round k = (if int (Suc k) < ntry P then Tn_test P round (Suc k) else tune_tier P round)"

fun tune_step :: "tune_pc \<Rightarrow> int \<Rightarrow> tune_pc \<times> int" where
  "tune_step (Tn_test P r k) l = (if l \<noteq> 0 then (tune_failed P r k, l) else (Tn_xchg P r k, l))"
| "tune_step (Tn_xchg P r k) l = (if l \<noteq> 0 then (tune_failed P r k, 1) else (Tn_held, 1))"
| "tune_step (Tn_wait P b r) l = (Tn_test P r 0, l)"
| "tune_step Tn_idle l = (Tn_idle, l)"
| "tune_step Tn_held l = (Tn_held, l)"

definition tune_running :: "tune_pc \<Rightarrow> bool" where
  "tune_running p \<longleftrightarrow> p \<noteq> Tn_idle \<and> p \<noteq> Tn_held"

section \<open>Any number of threads and ladders on one word\<close>

record tune_sys =
  tn_word :: int
  tn_pcs :: "tid \<Rightarrow> tune_pc"

datatype tune_action = Tn_lock tid back_off_params | Tn_step tid | Tn_unlock tid

fun tune_exec :: "tune_sys \<Rightarrow> tune_action \<Rightarrow> tune_sys option" where
  "tune_exec s (Tn_lock t P) =
     (if tn_pcs s t = Tn_idle \<and> params_ok P then Some (s\<lparr>tn_pcs := (tn_pcs s)(t := Tn_test P 0 0)\<rparr>) else None)"
| "tune_exec s (Tn_step t) =
     (if tune_running (tn_pcs s t)
      then (case tune_step (tn_pcs s t) (tn_word s) of (p, l) \<Rightarrow> Some (s\<lparr>tn_word := l, tn_pcs := (tn_pcs s)(t := p)\<rparr>))
      else None)"
| "tune_exec s (Tn_unlock t) =
     (if tn_pcs s t = Tn_held then Some (s\<lparr>tn_word := unlock (tn_word s), tn_pcs := (tn_pcs s)(t := Tn_idle)\<rparr>) else None)"

definition tune_init :: tune_sys where
  "tune_init = \<lparr>tn_word = 0, tn_pcs = (\<lambda>_. Tn_idle)\<rparr>"

section \<open>One thread against any environment\<close>

datatype tune_event = Tv_failed | Tv_free | Tv_won | Tv_back_off back_off

fun tune_events_of :: "tune_pc \<Rightarrow> int \<Rightarrow> tune_event list" where
  "tune_events_of (Tn_test P r k) l = (if l \<noteq> 0 then [Tv_failed] else [Tv_free])"
| "tune_events_of (Tn_xchg P r k) l = (if l \<noteq> 0 then [Tv_failed] else [Tv_won])"
| "tune_events_of (Tn_wait P b r) l = [Tv_back_off b]"
| "tune_events_of _ l = []"

fun tune_solo :: "tune_pc \<Rightarrow> int list \<Rightarrow> tune_pc \<times> tune_event list" where
  "tune_solo p [] = (p, [])"
| "tune_solo p (w # ws) = (case tune_solo (fst (tune_step p w)) ws of (q, es) \<Rightarrow> (q, tune_events_of p w @ es))"

text \<open>\<^verbatim>\<open>LadderedLock<P>::lock()\<close>.\<close>

definition laddered_lock :: "back_off_params \<Rightarrow> int list \<Rightarrow> tune_pc \<times> tune_event list" where
  "laddered_lock P ws = tune_solo (Tn_test P 0 0) ws"

section \<open>Mutual exclusion\<close>

definition tune_inv :: "tune_sys \<Rightarrow> bool" where
  "tune_inv s \<longleftrightarrow> (tn_word s = 0 \<and> (\<forall>t. tn_pcs s t \<noteq> Tn_held)) \<or> (tn_word s = 1 \<and> (\<exists>!t. tn_pcs s t = Tn_held))"

definition tune_abs :: "tune_sys \<Rightarrow> tid option" where
  "tune_abs s = (if tn_word s = 0 then None else Some (THE t. tn_pcs s t = Tn_held))"

definition tune_lin :: "tune_sys \<Rightarrow> tune_action \<Rightarrow> alock_action option" where
  "tune_lin s a = (case a of
       Tn_lock t P \<Rightarrow> None
     | Tn_step t \<Rightarrow> (case tn_pcs s t of Tn_xchg P r k \<Rightarrow> if tn_word s = 0 then Some (Acquire t) else None | _ \<Rightarrow> None)
     | Tn_unlock t \<Rightarrow> Some (Release t))"

lemma tune_failed_pc [simp]: "tune_failed P r k \<noteq> Tn_held" "tune_failed P r k \<noteq> Tn_idle"
  by (auto simp: tune_failed_def tune_tier_def)

text \<open>A step that is no acquisition changes neither the word nor the holder.\<close>

lemma tune_quiet:
  assumes inv: "tune_inv s" and ex: "tune_exec s a = Some s'" and a: "tune_lin s a = None"
  shows "tn_word s' = tn_word s" "tn_pcs s' u = Tn_held \<longleftrightarrow> tn_pcs s u = Tn_held"
  using assms
  by (cases a; auto simp: tune_lin_def tune_inv_def tune_running_def split: if_splits prod.splits tune_pc.splits)+

lemma tune_exec_inv:
  assumes inv: "tune_inv s" and ex: "tune_exec s a = Some s'"
  shows "tune_inv s'"
proof (cases "tune_lin s a")
  case None
  then show ?thesis using tune_quiet [OF inv ex None] inv by (simp add: tune_inv_def)
next
  case (Some b)
  then consider (acq) u P r k where "a = Tn_step u" "tn_pcs s u = Tn_xchg P r k" "tn_word s = 0"
    | (rel) u where "a = Tn_unlock u"
    by (auto simp: tune_lin_def split: tune_action.splits tune_pc.splits if_splits)
  then show ?thesis
  proof cases
    case acq
    then show ?thesis using ex inv by (auto simp: tune_inv_def tune_running_def split: if_splits)
  next
    case rel
    then show ?thesis using ex inv by (auto simp: tune_inv_def unlock_def split: if_splits)
  qed
qed

interpretation tunem: machine_invariant tune_exec tune_inv
  by unfold_locales (rule tune_exec_inv)

lemma tune_abs_held: "tune_inv s \<Longrightarrow> tn_pcs s t = Tn_held \<Longrightarrow> tune_abs s = Some t"
  by (auto simp: tune_inv_def tune_abs_def intro: the1_equality)

interpretation tuner: machine_refinement tune_exec tune_inv alock_exec tune_abs tune_lin
proof unfold_locales
  fix s a t
  assume "tune_inv s" and "tune_exec s a = Some t" and "tune_lin s a = None"
  note q = tune_quiet [OF this]
  then show "tune_abs t = tune_abs s" by (simp add: tune_abs_def)
next
  fix s a t b
  assume inv: "tune_inv s" and ex: "tune_exec s a = Some t" and b: "tune_lin s a = Some b"
  have inv': "tune_inv t" using tune_exec_inv [OF inv ex] .
  from b consider (acq) u P r k where "a = Tn_step u" "tn_pcs s u = Tn_xchg P r k" "tn_word s = 0" "b = Acquire u"
    | (rel) u where "a = Tn_unlock u" "b = Release u"
    by (auto simp: tune_lin_def split: tune_action.splits tune_pc.splits if_splits)
  then show "alock_exec (tune_abs s) b = Some (tune_abs t)"
  proof cases
    case acq
    then have "tn_pcs t u = Tn_held" using ex by (auto simp: tune_running_def)
    then show ?thesis using tune_abs_held [OF inv'] acq by (simp add: tune_abs_def)
  next
    case rel
    then have "tn_pcs s u = Tn_held" "tn_word t = 0" using ex by (auto simp: unlock_def split: if_splits)
    then show ?thesis using tune_abs_held [OF inv] rel by (simp add: tune_abs_def [of t])
  qed
qed

text \<open>
  C36.  One word, any number of ladders: after any interleaving of threads that call \<^verbatim>\<open>lock<P>()\<close>, each with parameters of its own, and
  \<open>unlock()\<close>, at most one thread holds the lock, \<open>locked()\<close> says whether one does, and the schedule is one of an atomic lock.  The
  waiting policy does not affect correctness.
\<close>

theorem tune_any_ladder_safe:
  assumes "run tune_exec tune_init as = Some s"
  shows "(tn_pcs s t = Tn_held \<longrightarrow> tn_pcs s u = Tn_held \<longrightarrow> t = u) \<and> (locked (tn_word s) \<longleftrightarrow> (\<exists>v. tn_pcs s v = Tn_held)) \<and>
         run alock_exec None (lin_trace tune_exec tune_lin tune_init as) = Some (tune_abs s)"
proof -
  have i0: "tune_inv tune_init" by (simp add: tune_inv_def tune_init_def)
  then have "tune_inv s" using tunem.run_Inv assms by blast
  moreover have "run alock_exec None (lin_trace tune_exec tune_lin tune_init as) = Some (tune_abs s)"
    using tuner.run_abs [OF i0 assms] by (simp add: tune_abs_def tune_init_def)
  ultimately show ?thesis by (auto simp: tune_inv_def locked_def)
qed

text \<open>A reader that only pauses and a writer with the default ladder.\<close>

theorem tune_any_ladder_safe_witness:
  "\<exists>s. run tune_exec tune_init
         [Tn_lock 0 default_params, Tn_lock 1 (default_params\<lparr>npause := 64, nshort := 0, long_sleep_ns := 0\<rparr>), Tn_step 0, Tn_step 1, Tn_step 1, Tn_step 0] = Some s \<and>
       tn_pcs s 1 = Tn_held \<and> tn_pcs s 0 \<noteq> Tn_held \<and> locked (tn_word s)"
proof -
  let ?as = "[Tn_lock 0 default_params, Tn_lock 1 (default_params\<lparr>npause := 64, nshort := 0, long_sleep_ns := 0\<rparr>), Tn_step 0, Tn_step 1, Tn_step 1, Tn_step 0]"
  obtain s where s: "run tune_exec tune_init ?as = Some s" "tn_pcs s 1 = Tn_held"
    by (simp add: tune_init_def tune_running_def default_params_def params_ok_def)
  then show ?thesis using tune_any_ladder_safe [OF s(1), of 1 0] by auto
qed

section \<open>The default ladder is the one of \<open>SpinLock\<close>\<close>

fun spin_pc_of :: "tune_pc \<Rightarrow> spin_pc" where
  "spin_pc_of Tn_idle = Sp_idle"
| "spin_pc_of (Tn_test P r k) = Sp_test Lock (uint r) k"
| "spin_pc_of (Tn_xchg P r k) = Sp_xchg Lock (uint r) k"
| "spin_pc_of (Tn_wait P b r) = (if r = 0 then Sp_long Lock (-1) else Sp_short Lock (uint r - 1))"
| "spin_pc_of Tn_held = Sp_held"

text \<open>The two sleeps of \<open>SpinLock\<close> with their durations.\<close>

primrec tune_event_of :: "spin_event \<Rightarrow> tune_event" where
  "tune_event_of Ev_attempt_failed = Tv_failed"
| "tune_event_of Ev_looks_free = Tv_free"
| "tune_event_of Ev_won = Tv_won"
| "tune_event_of Ev_short_sleep = Tv_back_off (B_sleep 1)"
| "tune_event_of Ev_long_sleep = Tv_back_off (B_sleep 1000001)"

definition spin_sys_of :: "tune_sys \<Rightarrow> spin_sys" where
  "spin_sys_of s = \<lparr>lock_word = tn_word s, spin_pcs = (\<lambda>t. spin_pc_of (tn_pcs s t))\<rparr>"

primrec tune_act_of :: "spin_action \<Rightarrow> tune_action" where
  "tune_act_of (Sp_call t op) = Tn_lock t default_params"
| "tune_act_of (Sp_step t) = Tn_step t"
| "tune_act_of (Sp_unlock t) = Tn_unlock t"

fun default_wf :: "tune_pc \<Rightarrow> bool" where
  "default_wf (Tn_test P r k) = (P = default_params \<and> r \<le> 8 \<and> k < 8)"
| "default_wf (Tn_xchg P r k) = (P = default_params \<and> r \<le> 8 \<and> k < 8)"
| "default_wf (Tn_wait P b r) = (P = default_params \<and> r \<le> 8 \<and> b = B_sleep (if r = 0 then 1000001 else 1))"
| "default_wf _ = True"

lemma default_bounds: "pause_end default_params = 0" "yield_end default_params = 0" "short_end default_params = 8"
  by (simp_all add: pause_end_def yield_end_def short_end_def default_params_def)

lemma default_tier:
  assumes "r \<le> 8"
  shows "tune_tier default_params r = (if r < 8 then Tn_wait default_params (B_sleep 1) (r + 1) else Tn_wait default_params (B_sleep 1000001) 0)"
  unfolding tune_tier_def default_bounds by (simp add: default_params_def)

lemma small_round:
  assumes "(r :: 32 word) < 8"
  shows "r + 1 \<noteq> 0" "uint (r + 1) = uint r + 1" "r + 1 \<le> 8"
proof -
  have u: "uint r < 8" using assms by (simp add: word_less_alt)
  then show e: "uint (r + 1) = uint r + 1" by (simp add: uint_word_ariths)
  then show "r + 1 \<noteq> 0" using uint_ge_0 [of r] by fastforce
  show "r + 1 \<le> 8" using e u by (simp add: word_le_def)
qed

lemma default_failed:
  assumes "r \<le> 8" "k < 8"
  shows "spin_pc_of (tune_failed default_params r k) = spin_failed_attempt Lock (uint r) k" "default_wf (tune_failed default_params r k)"
proof -
  have n: "ntry default_params = 8" by (simp add: default_params_def)
  have c: "r < 8 \<longleftrightarrow> uint r < 8" by (simp add: word_less_alt)
  show "spin_pc_of (tune_failed default_params r k) = spin_failed_attempt Lock (uint r) k" "default_wf (tune_failed default_params r k)"
    using assms small_round [of r] n c by (auto simp: tune_failed_def spin_failed_attempt_def default_tier)
qed

lemma default_step:
  assumes "default_wf p"
  shows "spin_step (spin_pc_of p) l = (spin_pc_of (fst (tune_step p l)), snd (tune_step p l))" "default_wf (fst (tune_step p l))"
    "map tune_event_of (spin_events_of (spin_pc_of p) l) = tune_events_of p l"
  using assms default_failed by (cases p; auto)+

lemma default_running: "spin_running (spin_pc_of p) \<longleftrightarrow> tune_running p"
  by (cases p) (auto simp: spin_running_def tune_running_def)

lemma spin_pc_of_inj: "spin_pc_of p = Sp_idle \<longleftrightarrow> p = Tn_idle" "spin_pc_of p = Sp_held \<longleftrightarrow> p = Tn_held" "spin_pc_of p \<noteq> Sp_failed"
  by (cases p; simp)+

definition lock_call :: "spin_action \<Rightarrow> bool" where
  "lock_call a \<longleftrightarrow> (case a of Sp_call t op \<Rightarrow> op = Lock | _ \<Rightarrow> True)"

lemma default_exec:
  assumes "\<forall>t. default_wf (tn_pcs s t)" and "lock_call a"
  shows "map_option spin_sys_of (tune_exec s (tune_act_of a)) = spin_exec (spin_sys_of s) a"
    "tune_exec s (tune_act_of a) = Some s' \<Longrightarrow> default_wf (tn_pcs s' t)"
proof -
  have ok: "params_ok default_params" by (simp add: params_ok_def default_params_def)
  show "map_option spin_sys_of (tune_exec s (tune_act_of a)) = spin_exec (spin_sys_of s) a"
    using assms ok by (cases a) (auto simp: spin_sys_of_def default_running default_step(1) spin_pc_of_inj lock_call_def spin_enter_def fun_eq_iff
        split: prod.splits)
  show "default_wf (tn_pcs s' t)" if "tune_exec s (tune_act_of a) = Some s'"
    using assms(1) that default_step(2) by (cases a) (auto simp: case_prod_beta split: if_splits)
qed

lemma default_run:
  "\<forall>t. default_wf (tn_pcs s t) \<Longrightarrow> list_all lock_call as \<Longrightarrow>
   map_option spin_sys_of (run tune_exec s (map tune_act_of as)) = run spin_exec (spin_sys_of s) as"
proof (induction as arbitrary: s)
  case (Cons a as)
  note e = default_exec [OF Cons.prems(1), of a]
  show ?case
  proof (cases "tune_exec s (tune_act_of a)")
    case None
    then show ?thesis using e(1) Cons.prems(2) by auto
  next
    case (Some s1)
    then have "spin_exec (spin_sys_of s) a = Some (spin_sys_of s1)" "\<forall>t. default_wf (tn_pcs s1 t)" using e Cons.prems(2) by auto
    then show ?thesis using Some Cons by simp
  qed
qed simp

lemma default_solo_eq:
  "default_wf p \<Longrightarrow> fst (spin_solo (spin_pc_of p) ws) = spin_pc_of (fst (tune_solo p ws)) \<and>
     map tune_event_of (snd (spin_solo (spin_pc_of p) ws)) = snd (tune_solo p ws)"
proof (induction ws arbitrary: p)
  case (Cons w ws)
  note d = default_step [OF Cons.prems, of w]
  show ?case using Cons.IH [OF d(2)] d(1,3) by (auto simp: case_prod_beta)
qed simp

text \<open>
  C37.  \<^verbatim>\<open>LadderedLock<BackOffParams{}>\<close> is \<open>SpinLock\<close>: under every schedule of \<open>lock()\<close> and \<open>unlock()\<close> by any number of threads the two locks go
  through the same words and the same program points, step by step, and a waiter makes the same attempts and the same sleeps,
  of the same durations, in the same order.
\<close>

theorem laddered_default_is_spinlock:
  assumes "list_all lock_call as"
  shows "map_option spin_sys_of (run tune_exec tune_init (map tune_act_of as)) = run spin_exec spin_init as \<and>
         spin_pc_of (fst (laddered_lock default_params ws)) = fst (spin_lock_call ws) \<and>
         snd (laddered_lock default_params ws) = map tune_event_of (snd (spin_lock_call ws))"
proof -
  have "spin_sys_of tune_init = spin_init" by (simp add: spin_sys_of_def tune_init_def spin_init_def)
  then have "map_option spin_sys_of (run tune_exec tune_init (map tune_act_of as)) = run spin_exec spin_init as"
    using default_run [of tune_init as] assms by (simp add: tune_init_def)
  moreover have "spin_pc_of (Tn_test default_params 0 0) = spin_enter Lock" "default_wf (Tn_test default_params 0 0)"
    by (simp_all add: spin_enter_def)
  ultimately show ?thesis using default_solo_eq [of "Tn_test default_params 0 0" ws] by (simp add: laddered_lock_def spin_lock_call_def)
qed

theorem laddered_default_is_spinlock_witness:
  "map_option spin_sys_of (run tune_exec tune_init [Tn_lock 0 default_params, Tn_lock 1 default_params, Tn_step 0, Tn_step 1, Tn_step 1, Tn_step 0]) =
   run spin_exec spin_init [Sp_call 0 Lock, Sp_call 1 Lock, Sp_step 0, Sp_step 1, Sp_step 1, Sp_step 0]"
  using laddered_default_is_spinlock [of "[Sp_call 0 Lock, Sp_call 1 Lock, Sp_step 0, Sp_step 1, Sp_step 1, Sp_step 0]"]
  by (simp add: lock_call_def del: run.simps)

section \<open>The schedule of a ladder\<close>

definition tier_round :: "back_off_params \<Rightarrow> back_off \<Rightarrow> tune_event list" where
  "tier_round P b = replicate (nat (ntry P)) Tv_failed @ [Tv_back_off b]"

definition ladder_cycle :: "back_off_params \<Rightarrow> tune_event list" where
  "ladder_cycle P = concat (replicate (nat (npause P)) (tier_round P B_pause)) @ concat (replicate (nat (nyield P)) (tier_round P B_yield)) @
     concat (replicate (nat (nshort P)) (tier_round P (B_sleep (short_sleep_ns P)))) @
     replicate (nat (ntry P)) Tv_failed @ (if long_sleep_ns P > 0 then [Tv_back_off (B_sleep (long_sleep_ns P))] else [])"

text \<open>A thread that finds the word held at each step: \<open>q\<close> is where it gets, with one event per step.\<close>

definition busy :: "tune_pc \<Rightarrow> tune_event list \<Rightarrow> tune_pc \<Rightarrow> bool" where
  "busy p es q \<longleftrightarrow> tune_solo p (replicate (length es) 1) = (q, es)"

lemma busy_Nil: "busy p [] p"
  by (simp add: busy_def)

lemma tune_solo_append:
  "tune_solo p (us @ ws) = (case tune_solo p us of (q, es) \<Rightarrow> case tune_solo q ws of (r, fs) \<Rightarrow> (r, es @ fs))"
  by (induction us arbitrary: p) (auto split: prod.splits)

lemma busy_trans: "busy p es q \<Longrightarrow> busy q fs r \<Longrightarrow> busy p (es @ fs) r"
  by (simp add: busy_def replicate_add tune_solo_append)

lemma busy_burst:
  assumes "1 \<le> ntry P"
  shows "k < nat (ntry P) \<Longrightarrow> busy (Tn_test P r k) (replicate (nat (ntry P) - k) Tv_failed) (tune_tier P r)"
proof (induction "nat (ntry P) - k" arbitrary: k)
  case (Suc m)
  have one: "busy (Tn_test P r k) [Tv_failed] (tune_failed P r k)" by (simp add: busy_def)
  show ?case
  proof (cases "Suc k < nat (ntry P)")
    case True
    then have "tune_failed P r k = Tn_test P r (Suc k)" by (simp add: tune_failed_def) linarith
    then have "busy (Tn_test P r k) ([Tv_failed] @ replicate (nat (ntry P) - Suc k) Tv_failed) (tune_tier P r)"
      using busy_trans [OF one] Suc True by auto
    moreover have "nat (ntry P) - k = Suc (nat (ntry P) - Suc k)" using True by simp
    ultimately show ?thesis by simp
  next
    case False
    then have "tune_failed P r k = tune_tier P r" "nat (ntry P) - k = 1" using Suc.prems by (auto simp: tune_failed_def)
    then show ?thesis using one by simp
  qed
qed simp

lemma busy_round:
  assumes n: "1 \<le> ntry P" and t: "tune_tier P r = Tn_wait P b r'"
  shows "busy (Tn_test P r 0) (tier_round P b) (Tn_test P r' 0)"
proof -
  have "busy (Tn_wait P b r') [Tv_back_off b] (Tn_test P r' 0)" by (simp add: busy_def)
  then show ?thesis using busy_trans [of "Tn_test P r 0" "replicate (nat (ntry P)) Tv_failed" "tune_tier P r"] busy_burst [OF n, of 0 r] n t
    by (simp add: tier_round_def)
qed

lemma busy_tier:
  assumes n: "1 \<le> ntry P" and t: "\<And>i. a \<le> i \<Longrightarrow> i < a + m \<Longrightarrow> tune_tier P (of_nat i) = Tn_wait P b (of_nat i + 1)"
  shows "busy (Tn_test P (of_nat a) 0) (concat (replicate m (tier_round P b))) (Tn_test P (of_nat (a + m)) 0)"
  using t
proof (induction m arbitrary: a)
  case (Suc m)
  have "busy (Tn_test P (of_nat a) 0) (tier_round P b) (Tn_test P (of_nat (Suc a)) 0)"
    using busy_round [OF n, of "of_nat a" b] Suc.prems [of a] by (simp add: add.commute)
  moreover have "busy (Tn_test P (of_nat (Suc a)) 0) (concat (replicate m (tier_round P b))) (Tn_test P (of_nat (Suc a + m)) 0)"
    using Suc.prems by (intro Suc.IH) auto
  ultimately show ?case using busy_trans by fastforce
qed (simp add: busy_Nil)

lemma unat_small: "n < 2 ^ 32 \<Longrightarrow> unat (of_nat n :: 32 word) = n"
  by (simp add: unat_of_nat take_bit_nat_eq_self)

lemma rounds_fit:
  assumes "params_ok P" and "npause P + nyield P + nshort P < 2 ^ 32"
  shows "nat (npause P) + nat (nyield P) + nat (nshort P) < 2 ^ 32"
proof -
  have "int (nat (npause P) + nat (nyield P) + nat (nshort P)) = npause P + nyield P + nshort P" using assms(1) by (simp add: params_ok_def)
  then show ?thesis using assms(2) by (metis of_nat_less_iff of_nat_numeral of_nat_power)
qed

lemma ladder_bounds:
  assumes "params_ok P" and "npause P + nyield P + nshort P < 2 ^ 32"
  shows "unat (pause_end P) = nat (npause P)" "unat (yield_end P) = nat (npause P) + nat (nyield P)"
    "unat (short_end P) = nat (npause P) + nat (nyield P) + nat (nshort P)"
proof -
  have e: "pause_end P = of_nat (nat (npause P))" "yield_end P = of_nat (nat (npause P) + nat (nyield P))"
    "short_end P = of_nat (nat (npause P) + nat (nyield P) + nat (nshort P))"
    using assms(1) by (simp_all add: pause_end_def yield_end_def short_end_def params_ok_def)
  show "unat (pause_end P) = nat (npause P)" "unat (yield_end P) = nat (npause P) + nat (nyield P)"
    "unat (short_end P) = nat (npause P) + nat (nyield P) + nat (nshort P)"
    unfolding e using rounds_fit [OF assms] by (simp_all only: unat_small)
qed

text \<open>
  The schedule of a ladder: a thread that finds the lock held at every attempt goes through \<open>npause\<close> rounds that end in a pause, then
  \<open>nyield\<close> that end in a yield, then \<open>nshort\<close> that end in a short sleep, each of exactly \<open>ntry\<close> attempts, then one more burst and, if
  there is one, the long sleep, and begins again; provided the number of rounds fits into an \<^verbatim>\<open>unsigned\<close>.
\<close>

theorem ladder_schedule:
  assumes ok: "params_ok P" and fits: "npause P + nyield P + nshort P < 2 ^ 32"
  shows "laddered_lock P (replicate (length (ladder_cycle P)) 1) = (Tn_test P 0 0, ladder_cycle P)"
proof -
  note b = ladder_bounds [OF assms]
  let ?p = "nat (npause P)" and ?y = "nat (nyield P)" and ?s = "nat (nshort P)"
  have n: "1 \<le> ntry P" using ok by (simp add: params_ok_def)
  have tot: "?p + ?y + ?s < 2 ^ 32" using rounds_fit [OF assms] .
  have lt: "of_nat i < (w :: 32 word) \<longleftrightarrow> i < unat w" if "i \<le> ?p + ?y + ?s" for i w
    using that tot by (simp add: word_less_nat_alt unat_small)
  have t1: "busy (Tn_test P (of_nat 0) 0) (concat (replicate ?p (tier_round P B_pause))) (Tn_test P (of_nat (0 + ?p)) 0)"
    by (rule busy_tier [OF n]) (simp add: tune_tier_def lt b)
  have t2: "busy (Tn_test P (of_nat ?p) 0) (concat (replicate ?y (tier_round P B_yield))) (Tn_test P (of_nat (?p + ?y)) 0)"
    by (rule busy_tier [OF n]) (simp add: tune_tier_def lt b)
  have t3: "busy (Tn_test P (of_nat (?p + ?y)) 0) (concat (replicate ?s (tier_round P (B_sleep (short_sleep_ns P))))) (Tn_test P (of_nat (?p + ?y + ?s)) 0)"
    by (rule busy_tier [OF n]) (simp add: tune_tier_def lt b)
  have "tune_tier P (of_nat (?p + ?y + ?s)) = (if long_sleep_ns P > 0 then Tn_wait P (B_sleep (long_sleep_ns P)) 0 else Tn_test P 0 0)"
    unfolding tune_tier_def by (simp only: lt b) simp
  then have t4: "busy (tune_tier P (of_nat (?p + ?y + ?s))) (if long_sleep_ns P > 0 then [Tv_back_off (B_sleep (long_sleep_ns P))] else []) (Tn_test P 0 0)"
    by (simp add: busy_def)
  have "busy (Tn_test P (of_nat (?p + ?y + ?s)) 0) (replicate (nat (ntry P)) Tv_failed) (tune_tier P (of_nat (?p + ?y + ?s)))"
    using busy_burst [OF n, of 0 "of_nat (?p + ?y + ?s)"] n by simp
  note t = busy_trans [OF t1 [unfolded add_0] busy_trans [OF t2 busy_trans [OF t3 busy_trans [OF this t4]]]]
  have "busy (Tn_test P (of_nat 0) 0) (ladder_cycle P) (Tn_test P 0 0)" unfolding ladder_cycle_def by (rule t)
  then show ?thesis by (simp add: busy_def laddered_lock_def)
qed

theorem ladder_schedule_witness:
  "laddered_lock default_params (replicate 80 1 @ [1]) = (Tn_test default_params 0 0, ladder_cycle default_params)"
proof -
  have "length (ladder_cycle default_params) = 81" by (simp add: ladder_cycle_def tier_round_def default_params_def length_concat sum_list_replicate)
  moreover have "replicate 80 1 @ [1] = replicate 81 (1 :: int)" by (simp add: numeral_eq_Suc)
  ultimately show ?thesis using ladder_schedule [of default_params] by (simp add: params_ok_def default_params_def)
qed

text \<open>
  Beyond that bound a tier disappears: these parameters pass the static assertions, but the bound of the short tier wraps around to 0,
  so that the two short sleeps they ask for never happen.
\<close>

theorem ladder_bounds_wrap:
  "params_ok (default_params\<lparr>npause := 2147483647, nyield := 2147483647, nshort := 2\<rparr>) \<and>
   short_end (default_params\<lparr>npause := 2147483647, nyield := 2147483647, nshort := 2\<rparr>) = 0 \<and>
   tune_tier (default_params\<lparr>npause := 2147483647, nyield := 2147483647, nshort := 2\<rparr>) (yield_end (default_params\<lparr>npause := 2147483647, nyield := 2147483647, nshort := 2\<rparr>)) =
     Tn_wait (default_params\<lparr>npause := 2147483647, nyield := 2147483647, nshort := 2\<rparr>) (B_sleep 1000001) 0"
  by (simp add: params_ok_def default_params_def tune_tier_def pause_end_def yield_end_def short_end_def)

end
