(* ===== verification/Atomic_Max.thy ===== *)
theory Atomic_Max
  imports Conc_Prelude
begin

text \<open>
  \<^verbatim>\<open>DCLP/atomic_max.h\<close>: raise a shared maximum by compare-and-swap.

  \<open>Am_load v\<close>: about to load the target; \<open>Am_cas v c\<close>: \<open>v > c\<close> was seen, about to
  \<^verbatim>\<open>compare_exchange_weak(c, v)\<close>.  The weak exchange may fail although the value
  matches; the scheduler chooses (\<open>spurious\<close>).  The field \<open>am_log\<close> is history only: the
  calls that have returned, in order, with their results.
\<close>

datatype 'a am_pc = Am_idle | Am_load 'a | Am_cas 'a 'a | Am_done bool

record 'a am_sys =
  am_target :: 'a
  am_pcs :: "tid \<Rightarrow> 'a am_pc"
  am_log :: "('a \<times> bool) list"

datatype 'a am_action = Am_call tid 'a | Am_step tid bool

text \<open>The loop test \<open>val > cur\<close>, after the load and after every failed exchange.\<close>

definition am_test :: "tid \<Rightarrow> 'a::linorder \<Rightarrow> 'a \<Rightarrow> 'a am_sys \<Rightarrow> 'a am_sys" where
  "am_test t v cur s =
     (if v > cur then s\<lparr>am_pcs := (am_pcs s)(t := Am_cas v cur)\<rparr>
      else s\<lparr>am_pcs := (am_pcs s)(t := Am_done False), am_log := am_log s @ [(v, False)]\<rparr>)"

fun am_exec :: "'a::linorder am_sys \<Rightarrow> 'a am_action \<Rightarrow> 'a am_sys option" where
  "am_exec s (Am_call t v) =
     (case am_pcs s t of
        Am_idle \<Rightarrow> Some (s\<lparr>am_pcs := (am_pcs s)(t := Am_load v)\<rparr>)
      | Am_done _ \<Rightarrow> Some (s\<lparr>am_pcs := (am_pcs s)(t := Am_load v)\<rparr>)
      | _ \<Rightarrow> None)"
| "am_exec s (Am_step t spurious) =
     (case am_pcs s t of
        Am_load v \<Rightarrow> Some (am_test t v (am_target s) s)
      | Am_cas v cur \<Rightarrow>
          (if am_target s = cur \<and> \<not> spurious
           then Some (s\<lparr>am_target := v, am_pcs := (am_pcs s)(t := Am_done True),
                        am_log := am_log s @ [(v, True)]\<rparr>)
           else Some (am_test t v (am_target s) s))
      | _ \<Rightarrow> None)"

definition am_init :: "'a \<Rightarrow> 'a am_sys" where
  "am_init v = \<lparr>am_target = v, am_pcs = (\<lambda>_. Am_idle), am_log = []\<rparr>"

text \<open>The values for which a call returned true, in the order of the calls' returns.\<close>

definition am_raises :: "('a \<times> bool) list \<Rightarrow> 'a list" where
  "am_raises log = map fst (filter snd log)"

definition am_hist :: "'a::linorder \<Rightarrow> 'a \<Rightarrow> ('a \<times> bool) list \<Rightarrow> bool" where
  "am_hist v0 target log \<longleftrightarrow>
     target = last (v0 # am_raises log) \<and> sorted_wrt (<) (v0 # am_raises log) \<and>
     (\<forall>x\<in>set log. fst x \<le> target)"

definition am_inv :: "'a::linorder \<Rightarrow> 'a am_sys \<Rightarrow> bool" where
  "am_inv v0 s \<longleftrightarrow> am_hist v0 (am_target s) (am_log s) \<and>
     (\<forall>t v c. am_pcs s t = Am_cas v c \<longrightarrow> c < v)"

lemma am_inv_init: "am_inv v0 (am_init v0)"
  by (simp add: am_inv_def am_hist_def am_init_def am_raises_def)

lemma am_raises_snoc [simp]:
  "am_raises (log @ [(v, True)]) = am_raises log @ [v]"
  "am_raises (log @ [(v, False)]) = am_raises log"
  by (simp_all add: am_raises_def)

lemma sorted_wrt_snoc_last:
  assumes "sorted_wrt (<) xs" and "xs \<noteq> []" and "last xs < (v :: 'a::linorder)"
  shows "sorted_wrt (<) (xs @ [v])"
proof -
  have "x \<le> last xs" if "x \<in> set xs" for x
    using assms(1,2) that
    by (induction xs) (auto simp: less_le split: if_splits)
  with assms(1,3) show ?thesis by (auto simp: sorted_wrt_append intro: le_less_trans)
qed

lemma am_hist_raise:
  assumes "am_hist v0 c log" and "c < v"
  shows "am_hist v0 v (log @ [(v, True)])"
proof -
  have "sorted_wrt (<) ((v0 # am_raises log) @ [v])"
    using assms by (intro sorted_wrt_snoc_last) (auto simp: am_hist_def)
  with assms show ?thesis by (auto simp: am_hist_def)
qed

lemma am_hist_keep: "am_hist v0 c log \<Longrightarrow> v \<le> c \<Longrightarrow> am_hist v0 c (log @ [(v, False)])"
  by (auto simp: am_hist_def)

lemma am_hist_Max:
  assumes "am_hist v0 c log"
  shows "c = Max (insert v0 (fst ` set log))"
proof (rule Max_eqI [symmetric])
  let ?xs = "v0 # am_raises log"
  have last: "last ?xs \<in> set ?xs" by (rule last_in_set) simp
  moreover have "set ?xs \<subseteq> insert v0 (fst ` set log)" by (auto simp: am_raises_def)
  ultimately have "last ?xs \<in> insert v0 (fst ` set log)" by blast
  then show "c \<in> insert v0 (fst ` set log)" using assms by (simp only: am_hist_def)
  have "v0 \<le> last ?xs"
    using last assms by (auto simp: am_hist_def less_imp_le simp del: last.simps)
  then show "y \<le> c" if "y \<in> insert v0 (fst ` set log)" for y
    using assms that by (auto simp: am_hist_def)
qed simp

lemma am_test_inv: "am_inv v0 s \<Longrightarrow> am_inv v0 (am_test t v (am_target s) s)"
  by (auto simp: am_inv_def am_test_def intro: am_hist_keep split: if_splits)

lemma am_exec_inv:
  assumes "am_inv v0 s" and "am_exec s a = Some s'"
  shows "am_inv v0 s'"
proof (cases a)
  case (Am_call t v)
  with assms show ?thesis by (auto simp: am_inv_def split: am_pc.splits if_splits)
next
  case (Am_step t sp)
  show ?thesis
  proof (cases "\<exists>v. am_pcs s t = Am_cas v (am_target s) \<and> \<not> sp")
    case True
    then obtain v where v: "am_pcs s t = Am_cas v (am_target s)" and sp: "\<not> sp" by blast
    with assms Am_step have s': "s' = s\<lparr>am_target := v, am_pcs := (am_pcs s)(t := Am_done True),
        am_log := am_log s @ [(v, True)]\<rparr>" by simp
    have "am_target s < v" using assms v by (auto simp: am_inv_def)
    with assms s' show ?thesis by (auto simp: am_inv_def intro: am_hist_raise split: if_splits)
  next
    case False
    with assms(2) Am_step have "\<exists>v. s' = am_test t v (am_target s) s"
      by (auto split: am_pc.splits if_splits)
    with assms(1) show ?thesis by (auto intro: am_test_inv)
  qed
qed

interpretation am: machine_invariant am_exec "am_inv v0"
  by unfold_locales (rule am_exec_inv)

text \<open>
  C11.  After any interleaving of concurrent \<open>atomic_max\<close> calls, spurious failures included, the
  target is the maximum of its initial value and of the arguments of every call that has
  returned: no raise is lost and no other value appears.
\<close>

theorem atomic_max_is_maximum:
  assumes "run am_exec (am_init v0) as = Some s"
  shows "am_target s = Max (insert v0 (fst ` set (am_log s)))"
proof -
  have "am_inv v0 s" using am.run_Inv [OF am_inv_init assms] .
  then show ?thesis by (intro am_hist_Max) (simp add: am_inv_def)
qed

theorem atomic_max_is_maximum_witness:
  "\<exists>s. run am_exec (am_init (3::int))
         [Am_call 0 5, Am_call 1 7, Am_step 0 False, Am_step 1 False, Am_step 1 False,
          Am_step 0 False] = Some s \<and> am_target s = Max (insert 3 (fst ` set (am_log s))) \<and>
       am_log s = [(7, True), (5, False)]"
proof -
  let ?as = "[Am_call 0 5, Am_call 1 7, Am_step 0 False, Am_step 1 False, Am_step 1 False,
              Am_step 0 False] :: int am_action list"
  obtain s where s: "run am_exec (am_init 3) ?as = Some s" "am_log s = [(7, True), (5, False)]"
    by (simp add: am_init_def am_test_def)
  with atomic_max_is_maximum [OF s(1)] show ?thesis by blast
qed

text \<open>
  The result is exact: the calls that return true raise the maximum, each strictly
  above every value that was the maximum before it, and a call that returns
  false finds a maximum that already reaches its argument.
\<close>

theorem atomic_max_result_exact:
  assumes "run am_exec (am_init v0) as = Some s" and "am_exec s (Am_step t sp) = Some s'"
  shows "sorted_wrt (<) (v0 # am_raises (am_log s')) \<and>
         (am_pcs s' t = Am_done True \<longrightarrow>
            (\<exists>v. am_pcs s t = Am_cas v (am_target s) \<and> am_target s < v \<and> am_target s' = v)) \<and>
         (am_pcs s' t = Am_done False \<longrightarrow>
            (\<exists>v. (am_pcs s t = Am_load v \<or> (\<exists>c. am_pcs s t = Am_cas v c)) \<and>
                 v \<le> am_target s \<and> am_target s' = am_target s))"
proof -
  have inv: "am_inv v0 s" using am.run_Inv [OF am_inv_init assms(1)] .
  then have "am_inv v0 s'" using assms(2) by (rule am_exec_inv)
  then have "sorted_wrt (<) (v0 # am_raises (am_log s'))" by (simp add: am_inv_def am_hist_def)
  moreover have "am_target s < v" if "am_pcs s t = Am_cas v (am_target s)" for v
    using inv that by (auto simp: am_inv_def)
  ultimately show ?thesis using assms(2)
    by (auto simp: am_test_def simp del: sorted_wrt.simps split: am_pc.splits if_splits)
qed

theorem atomic_max_result_exact_witness:
  "\<exists>s s'. run am_exec (am_init (3::int)) [Am_call 0 5, Am_step 0 False] = Some s \<and>
      am_exec s (Am_step 0 False) = Some s' \<and> am_pcs s' 0 = Am_done True \<and>
      (\<exists>v. am_pcs s 0 = Am_cas v (am_target s) \<and> am_target s < v \<and> am_target s' = v)"
proof -
  obtain s s' where s: "run am_exec (am_init (3::int)) [Am_call 0 5, Am_step 0 False] = Some s"
    and s': "am_exec s (Am_step 0 False) = Some s'" and d: "am_pcs s' 0 = Am_done True"
    by (simp add: am_init_def am_test_def)
  from atomic_max_result_exact [OF s s'] d s s' show ?thesis by blast
qed

end
