(* ===== verification/Seq_Lock.thy ===== *)
theory Seq_Lock
  imports Spin_Lock
begin

text \<open>
  \<^verbatim>\<open>Spinlock/seqlock.h\<close>: a sequence lock over one word of payload.

  The shared words are the fields of the class: the 64-bit counter \<^verbatim>\<open>seq_\<close> (\<open>sq_seq\<close>), the
  writers' \<open>SpinLock\<close> \<^verbatim>\<open>lock_\<close> (\<open>sq_lockw\<close>) and the \<^verbatim>\<open>payload_\<close> (\<open>sq_payload\<close>).  Every access of \<open>load()\<close>,
  \<open>store()\<close> and \<open>update()\<close> is one step; a writer takes the lock by the attempt of the
  theory \<open>Spin_Lock\<close> and relies on it through the locale \<open>mutex\<close> only.
  \<open>update(f)\<close> carries \<open>f\<close> as a partial function: \<open>None\<close> is a throw.

  Three fields are history, read by no step: \<open>sq_gens\<close>, the payload of every
  generation so far; \<open>sq_writes\<close>, the completed writes; \<open>sq_seen t\<close>, the
  generation that was in place at the last first counter load of reader \<open>t\<close>.
\<close>

datatype 'v write_op = Store 'v | Update "'v \<Rightarrow> 'v option"

text \<open>
  Writers: \<open>Sq_lock\<close> spins on the lock, \<open>Sq_invoke\<close> (lock held) computes the value,
  \<open>Sq_begin\<close> loads the counter, \<open>Sq_odd\<close> stores it plus one, \<open>Sq_pay\<close> stores the
  payload, \<open>Sq_end\<close> stores the closing even value, \<open>Sq_unlock\<close> releases (after a
  throw too).  Readers: \<open>Sq_read1\<close> to \<open>Sq_read3\<close> are the three loads of
  \<open>load_validated()\<close>, \<open>Sq_snap v n\<close> its returned \<open>Snapshot\<close>.
\<close>

datatype 'v sq_pc =
    Sq_idle
  | Sq_lock "'v write_op"
  | Sq_invoke "'v write_op"
  | Sq_begin "'v write_op" 'v
  | Sq_odd "'v write_op" 'v size_t
  | Sq_pay "'v write_op" 'v size_t
  | Sq_end "'v write_op" 'v size_t
  | Sq_unlock bool
  | Sq_read1
  | Sq_read2 size_t
  | Sq_read3 size_t 'v
  | Sq_snap 'v size_t

record 'v sq_sys =
  sq_seq :: size_t
  sq_lockw :: int
  sq_payload :: 'v
  sq_pcs :: "tid \<Rightarrow> 'v sq_pc"
  sq_gens :: "'v list"
  sq_writes :: "'v write_op list"
  sq_seen :: "tid \<Rightarrow> nat"

definition sq_init :: "'v \<Rightarrow> 'v sq_sys" where
  "sq_init v = \<lparr>sq_seq = 0, sq_lockw = 0, sq_payload = v, sq_pcs = (\<lambda>_. Sq_idle),
                sq_gens = [v], sq_writes = [], sq_seen = (\<lambda>_. 0)\<rparr>"

datatype 'v sq_action = Sq_call_load tid | Sq_call_write tid "'v write_op" | Sq_step tid

definition sq_goto :: "tid \<Rightarrow> 'v sq_pc \<Rightarrow> 'v sq_sys \<Rightarrow> 'v sq_sys" where
  "sq_goto t p s = s\<lparr>sq_pcs := (sq_pcs s)(t := p)\<rparr>"

definition sq_at_rest :: "'v sq_pc \<Rightarrow> bool" where
  "sq_at_rest p \<longleftrightarrow> p = Sq_idle \<or> (\<exists>v n. p = Sq_snap v n)"

text \<open>The value a write installs: the argument of \<open>store\<close>, or the callable of \<open>update\<close> on the payload.\<close>

fun write_value :: "'v write_op \<Rightarrow> 'v \<Rightarrow> 'v option" where
  "write_value (Store v) cur = Some v"
| "write_value (Update f) cur = f cur"

text \<open>The three steps of \<open>write()\<close>, in the source's order.\<close>

definition begin_write :: "size_t \<Rightarrow> size_t" where
  "begin_write seq = seq + 1"

definition end_write :: "size_t \<Rightarrow> size_t" where
  "end_write odd_seq = odd_seq + 1"

definition seq_is_even :: "size_t \<Rightarrow> bool" where
  "seq_is_even seq \<longleftrightarrow> seq AND 1 = 0"

fun sq_step :: "tid \<Rightarrow> 'v sq_pc \<Rightarrow> 'v sq_sys \<Rightarrow> 'v sq_sys option" where
  "sq_step t (Sq_lock w) s =
     (case ttas (sq_lockw s) of
        (True, l) \<Rightarrow> Some (sq_goto t (Sq_invoke w) (s\<lparr>sq_lockw := l\<rparr>))
      | (False, l) \<Rightarrow> Some (s\<lparr>sq_lockw := l\<rparr>))"
| "sq_step t (Sq_invoke w) s =
     (case write_value w (sq_payload s) of
        Some v \<Rightarrow> Some (sq_goto t (Sq_begin w v) s)
      | None \<Rightarrow> Some (sq_goto t (Sq_unlock True) s))"
| "sq_step t (Sq_begin w v) s = Some (sq_goto t (Sq_odd w v (begin_write (sq_seq s))) s)"
| "sq_step t (Sq_odd w v n) s = Some (sq_goto t (Sq_pay w v n) (s\<lparr>sq_seq := n\<rparr>))"
| "sq_step t (Sq_pay w v n) s = Some (sq_goto t (Sq_end w v n) (s\<lparr>sq_payload := v\<rparr>))"
| "sq_step t (Sq_end w v n) s =
     Some (sq_goto t (Sq_unlock False)
       (s\<lparr>sq_seq := end_write n, sq_gens := sq_gens s @ [v], sq_writes := sq_writes s @ [w]\<rparr>))"
| "sq_step t (Sq_unlock threw) s = Some (sq_goto t Sq_idle (s\<lparr>sq_lockw := unlock (sq_lockw s)\<rparr>))"
| "sq_step t Sq_read1 s =
     Some (sq_goto t (if seq_is_even (sq_seq s) then Sq_read2 (sq_seq s) else Sq_read1)
       (s\<lparr>sq_seen := (sq_seen s)(t := length (sq_gens s) - 1)\<rparr>))"
| "sq_step t (Sq_read2 n) s = Some (sq_goto t (Sq_read3 n (sq_payload s)) s)"
| "sq_step t (Sq_read3 n v) s =
     Some (sq_goto t (if sq_seq s = n then Sq_snap v n else Sq_read1) s)"
| "sq_step t Sq_idle s = None"
| "sq_step t (Sq_snap v n) s = None"

fun sq_exec :: "'v sq_sys \<Rightarrow> 'v sq_action \<Rightarrow> 'v sq_sys option" where
  "sq_exec s (Sq_call_load t) =
     (if sq_at_rest (sq_pcs s t) then Some (sq_goto t Sq_read1 s) else None)"
| "sq_exec s (Sq_call_write t w) =
     (if sq_at_rest (sq_pcs s t) then Some (sq_goto t (Sq_lock w) s) else None)"
| "sq_exec s (Sq_step t) = sq_step t (sq_pcs s t) s"

section \<open>The invariant\<close>

text \<open>
  \<open>sq_holds p\<close>: the thread holds the writers' lock; \<open>sq_open p\<close>: it has the counter odd.
\<close>

fun sq_holds :: "'v sq_pc \<Rightarrow> bool" where
  "sq_holds (Sq_invoke w) = True"
| "sq_holds (Sq_begin w v) = True"
| "sq_holds (Sq_odd w v n) = True"
| "sq_holds (Sq_pay w v n) = True"
| "sq_holds (Sq_end w v n) = True"
| "sq_holds (Sq_unlock b) = True"
| "sq_holds _ = False"

fun sq_open :: "'v sq_pc \<Rightarrow> bool" where
  "sq_open (Sq_pay w v n) = True"
| "sq_open (Sq_end w v n) = True"
| "sq_open _ = False"

definition sq_owners :: "'v sq_sys \<Rightarrow> tid set" where
  "sq_owners s = {t. sq_holds (sq_pcs s t)}"

text \<open>The number of counter increments so far, as an unbounded number.\<close>

definition sq_count :: "'v sq_sys \<Rightarrow> nat" where
  "sq_count s = 2 * (length (sq_gens s) - 1) + (if \<exists>t. sq_open (sq_pcs s t) then 1 else 0)"

text \<open>What the lock holder knows at each of its program points.\<close>

fun sq_writer_ok :: "'v sq_sys \<Rightarrow> 'v sq_pc \<Rightarrow> bool" where
  "sq_writer_ok s (Sq_begin w v) \<longleftrightarrow> write_value w (last (sq_gens s)) = Some v"
| "sq_writer_ok s (Sq_odd w v n) \<longleftrightarrow>
     write_value w (last (sq_gens s)) = Some v \<and> n = sq_seq s + 1"
| "sq_writer_ok s (Sq_pay w v n) \<longleftrightarrow>
     write_value w (last (sq_gens s)) = Some v \<and> n = sq_seq s"
| "sq_writer_ok s (Sq_end w v n) \<longleftrightarrow>
     write_value w (last (sq_gens s)) = Some v \<and> n = sq_seq s \<and> sq_payload s = v"
| "sq_writer_ok s _ \<longleftrightarrow> True"

text \<open>
  What a reader knows: the counter value it loaded is that of the generation it saw, and
  the payload it loaded is that generation unless a write has opened since.
\<close>

fun sq_reader_ok :: "'v sq_sys \<Rightarrow> nat \<Rightarrow> 'v sq_pc \<Rightarrow> bool" where
  "sq_reader_ok s k (Sq_read2 n) \<longleftrightarrow>
     k < length (sq_gens s) \<and> n = of_nat (2 * k) \<and> 2 * k \<le> sq_count s"
| "sq_reader_ok s k (Sq_read3 n v) \<longleftrightarrow>
     k < length (sq_gens s) \<and> n = of_nat (2 * k) \<and> 2 * k \<le> sq_count s \<and>
     (v = sq_gens s ! k \<or> 2 * k < sq_count s)"
| "sq_reader_ok s k _ \<longleftrightarrow> True"

definition writes_chain :: "'v list \<Rightarrow> 'v write_op list \<Rightarrow> bool" where
  "writes_chain gens ws \<longleftrightarrow> length gens = Suc (length ws) \<and>
     (\<forall>k < length ws. write_value (ws ! k) (gens ! k) = Some (gens ! Suc k))"

definition sq_inv :: "'v sq_sys \<Rightarrow> bool" where
  "sq_inv s \<longleftrightarrow>
     spin_owned (sq_lockw s) (sq_owners s) \<and>
     sq_seq s = of_nat (sq_count s) \<and>
     writes_chain (sq_gens s) (sq_writes s) \<and>
     (sq_payload s = last (sq_gens s) \<or> (\<exists>t w v n. sq_pcs s t = Sq_end w v n)) \<and>
     (\<forall>t. sq_writer_ok s (sq_pcs s t)) \<and>
     (\<forall>t. sq_reader_ok s (sq_seen s t) (sq_pcs s t))"

section \<open>Every step keeps the invariant\<close>

lemma sq_goto_simps [simp]:
  "sq_seq (sq_goto t p s) = sq_seq s" "sq_lockw (sq_goto t p s) = sq_lockw s"
  "sq_payload (sq_goto t p s) = sq_payload s" "sq_gens (sq_goto t p s) = sq_gens s"
  "sq_writes (sq_goto t p s) = sq_writes s" "sq_seen (sq_goto t p s) = sq_seen s"
  "sq_pcs (sq_goto t p s) = (sq_pcs s)(t := p)"
  by (simp_all add: sq_goto_def)

lemma sq_open_holds: "sq_open p \<Longrightarrow> sq_holds p"
  by (cases p) auto

lemma sq_owners_goto:
  "sq_owners (sq_goto t p s) = (if sq_holds p then insert t (sq_owners s) else sq_owners s - {t})"
  by (auto simp: sq_owners_def)

lemma sq_owners_simps [simp]:
  "sq_owners (s\<lparr>sq_lockw := l\<rparr>) = sq_owners s" "sq_owners (s\<lparr>sq_seq := n\<rparr>) = sq_owners s"
  "sq_owners (s\<lparr>sq_payload := v\<rparr>) = sq_owners s"
  "sq_owners (s\<lparr>sq_seq := n, sq_gens := g, sq_writes := w\<rparr>) = sq_owners s"
  "sq_owners (s\<lparr>sq_seen := f\<rparr>) = sq_owners s"
  by (simp_all add: sq_owners_def)

lemma sq_owner_unique: "sq_inv s \<Longrightarrow> sq_holds (sq_pcs s t) \<Longrightarrow> sq_owners s = {t}"
proof -
  assume "sq_inv s" and h: "sq_holds (sq_pcs s t)"
  then have "spin_owned (sq_lockw s) (sq_owners s)" by (simp add: sq_inv_def)
  moreover have "t \<in> sq_owners s" using h by (simp add: sq_owners_def)
  ultimately show "sq_owners s = {t}" using spin.owned_sub by fastforce
qed

lemma sq_count_owner:
  "sq_owners s \<subseteq> {t} \<Longrightarrow>
     sq_count s = 2 * (length (sq_gens s) - 1) + (if sq_open (sq_pcs s t) then 1 else 0)"
proof -
  assume "sq_owners s \<subseteq> {t}"
  then have "(\<exists>u. sq_open (sq_pcs s u)) \<longleftrightarrow> sq_open (sq_pcs s t)"
    using sq_open_holds by (fastforce simp: sq_owners_def)
  then show ?thesis by (simp add: sq_count_def)
qed

lemma sq_count_same:
  assumes "sq_open p = sq_open (sq_pcs s t)" and "sq_pcs s' = (sq_pcs s)(t := p)"
    and "sq_gens s' = sq_gens s"
  shows "sq_count s' = sq_count s"
proof -
  have "(\<exists>u. sq_open (sq_pcs s' u)) \<longleftrightarrow> (\<exists>u. sq_open (sq_pcs s u))"
    using assms(1,2) by (metis fun_upd_apply)
  with assms(3) show ?thesis by (simp add: sq_count_def)
qed

lemma sq_reader_ok_mono:
  "sq_reader_ok s k p \<Longrightarrow> sq_gens s' = sq_gens s @ xs \<Longrightarrow> sq_count s \<le> sq_count s' \<Longrightarrow>
   sq_reader_ok s' k p"
  by (cases p) (auto simp: nth_append)

lemma sq_writer_ok_other: "\<not> sq_holds p \<Longrightarrow> sq_writer_ok s p"
  by (cases p) auto

lemma sq_not_end: "\<not> sq_holds p \<Longrightarrow> p \<noteq> Sq_end w v n"
  by auto

text \<open>A step of a thread that does not hold the lock and changes no shared word but its own
  knowledge: a reader's load, or a call.\<close>

lemma sq_inv_outside:
  assumes inv: "sq_inv s" and nh: "\<not> sq_holds (sq_pcs s t)" and np: "\<not> sq_holds p"
    and s': "s' = sq_goto t p (s\<lparr>sq_seen := (sq_seen s)(t := k)\<rparr>)"
    and ok: "sq_reader_ok s k p"
  shows "sq_inv s'"
proof -
  have cnt: "sq_count s' = sq_count s"
    using nh np s' by (intro sq_count_same [of p s t]) (auto dest: sq_open_holds)
  have "sq_owners s' = sq_owners s"
    using nh np s' by (auto simp: sq_owners_goto) (auto simp: sq_owners_def)
  moreover have "sq_pcs s' u = Sq_end w v n \<longleftrightarrow> sq_pcs s u = Sq_end w v n" for u w v n
    using nh np s' by auto
  moreover have "sq_writer_ok s' (sq_pcs s' u)" for u
  proof (cases "u = t")
    case True
    then show ?thesis using np s' by (simp add: sq_writer_ok_other)
  next
    case False
    have "sq_writer_ok s (sq_pcs s u)" using inv by (simp add: sq_inv_def)
    with False s' show ?thesis by (cases "sq_pcs s u") auto
  qed
  moreover have "sq_reader_ok s' (sq_seen s' u) (sq_pcs s' u)" for u
  proof (rule sq_reader_ok_mono [of s _ _ _ "[]"])
    show "sq_reader_ok s (sq_seen s' u) (sq_pcs s' u)" using ok inv s' by (simp add: sq_inv_def)
  qed (use s' cnt in auto)
  ultimately show ?thesis using inv s' cnt by (simp add: sq_inv_def)
qed

text \<open>A step of the lock holder: what the other threads know survives.\<close>

lemma sq_inv_holder:
  assumes inv: "sq_inv s" and h: "sq_holds (sq_pcs s t)"
    and pcs: "sq_pcs s' = (sq_pcs s)(t := p)" and seen: "sq_seen s' = sq_seen s"
    and gens: "sq_gens s' = sq_gens s @ xs" and cnt: "sq_count s \<le> sq_count s'"
    and own: "spin_owned (sq_lockw s') (if sq_holds p then {t} else {})"
    and seq: "sq_seq s' = of_nat (sq_count s')"
    and chain: "writes_chain (sq_gens s') (sq_writes s')"
    and pay: "sq_payload s' = last (sq_gens s') \<or> (\<exists>w v n. p = Sq_end w v n)"
    and wok: "sq_writer_ok s' p" and rok: "sq_reader_ok s' (sq_seen s t) p"
  shows "sq_inv s'"
proof -
  have others: "\<not> sq_holds (sq_pcs s u)" if "u \<noteq> t" for u
    using sq_owner_unique [OF inv h] that by (auto simp: sq_owners_def)
  have "sq_owners s' = (if sq_holds p then {t} else {})"
    using pcs others by (auto simp: sq_owners_def split: if_splits)
  moreover have "sq_writer_ok s' (sq_pcs s' u)" for u
    using wok pcs others by (cases "u = t") (auto intro: sq_writer_ok_other)
  moreover have "sq_reader_ok s' (sq_seen s' u) (sq_pcs s' u)" for u
  proof (cases "u = t")
    case True
    then show ?thesis using rok pcs seen by simp
  next
    case False
    have "sq_reader_ok s (sq_seen s u) (sq_pcs s u)" using inv by (simp add: sq_inv_def)
    with False gens cnt pcs seen show ?thesis by (auto intro: sq_reader_ok_mono)
  qed
  moreover have "sq_payload s' = last (sq_gens s') \<or> (\<exists>u w v n. sq_pcs s' u = Sq_end w v n)"
    using pay pcs by (metis fun_upd_same)
  ultimately show ?thesis using own seq chain by (simp add: sq_inv_def)
qed

lemma sq_inv_facts:
  assumes "sq_inv s"
  shows "sq_seq s = of_nat (sq_count s)" "writes_chain (sq_gens s) (sq_writes s)"
    "sq_writer_ok s (sq_pcs s t)" "sq_reader_ok s (sq_seen s t) (sq_pcs s t)"
    "length (sq_gens s) = Suc (length (sq_writes s))"
  using assms by (simp_all add: sq_inv_def writes_chain_def)

lemma sq_payload_last:
  assumes "sq_inv s" and "\<And>t w v n. sq_pcs s t \<noteq> Sq_end w v n"
  shows "sq_payload s = last (sq_gens s)"
  using assms by (auto simp: sq_inv_def)

lemma sq_holder_payload:
  assumes inv: "sq_inv s" and h: "sq_holds (sq_pcs s t)" and "\<And>w v n. sq_pcs s t \<noteq> Sq_end w v n"
  shows "sq_payload s = last (sq_gens s)"
proof (rule sq_payload_last [OF inv])
  fix u w v n
  show "sq_pcs s u \<noteq> Sq_end w v n"
  proof
    assume e: "sq_pcs s u = Sq_end w v n"
    then have "sq_owners s = {u}" by (intro sq_owner_unique [OF inv]) simp
    moreover have "sq_owners s = {t}" by (rule sq_owner_unique [OF inv h])
    ultimately show False using e assms(3) by auto
  qed
qed

lemma writes_chain_snoc:
  "writes_chain gens ws \<Longrightarrow> write_value w (last gens) = Some v \<Longrightarrow> writes_chain (gens @ [v]) (ws @ [w])"
proof -
  assume chain: "writes_chain gens ws" and w: "write_value w (last gens) = Some v"
  then have "last gens = gens ! length ws"
    by (metis One_nat_def diff_Suc_1 last_conv_nth length_0_conv nat.distinct(1) writes_chain_def)
  with chain w show ?thesis by (auto simp: writes_chain_def nth_append less_Suc_eq)
qed

lemma spin_owned_one: "spin_owned l {t} \<Longrightarrow> spin_owned l {u}"
  by (simp add: spin_owned_def)

lemma sq_acquire_inv:
  assumes inv: "sq_inv s" and pc: "sq_pcs s t = Sq_lock w" and tt: "ttas (sq_lockw s) = (True, l)"
  shows "sq_inv (sq_goto t (Sq_invoke w) (s\<lparr>sq_lockw := l\<rparr>))" (is "sq_inv ?s'")
proof -
  from inv have "spin_owned (sq_lockw s) (sq_owners s)" by (simp add: sq_inv_def)
  from spin.acquire_owned [OF this tt, of t]
  have free: "sq_owners s = {}" and own: "spin_owned l {t}" by auto
  have others: "\<not> sq_holds (sq_pcs s u)" for u using free by (auto simp: sq_owners_def)
  have cnt: "sq_count ?s' = sq_count s"
    using pc by (intro sq_count_same [of "Sq_invoke w" s t]) auto
  have "sq_payload s = last (sq_gens s)"
    using others by (intro sq_payload_last [OF inv]) (metis sq_holds.simps(5))
  moreover have "sq_writer_ok ?s' (sq_pcs ?s' u)" for u
    using others by (cases "u = t") (auto intro: sq_writer_ok_other)
  moreover have "sq_reader_ok ?s' (sq_seen ?s' u) (sq_pcs ?s' u)" for u
  proof (cases "u = t")
    case False
    have "sq_reader_ok s (sq_seen s u) (sq_pcs s u)" using inv by (rule sq_inv_facts(4))
    with False cnt show ?thesis by (auto intro: sq_reader_ok_mono [of s _ _ _ "[]"])
  qed simp
  ultimately show ?thesis
    using inv free own cnt by (simp add: sq_inv_def sq_owners_goto)
qed

lemma sq_begin_phase_inv:
  assumes inv: "sq_inv s" and h: "sq_holds (sq_pcs s t)" "\<not> sq_open (sq_pcs s t)"
    and p: "sq_holds p" "\<not> sq_open p" and wok: "sq_writer_ok s p"
  shows "sq_inv (sq_goto t p s)"
proof -
  have cnt: "sq_count (sq_goto t p s) = sq_count s"
    using h p by (intro sq_count_same [of p s t]) auto
  have own: "spin_owned (sq_lockw s) {t}"
    using inv sq_owner_unique [OF inv h(1)] by (simp add: sq_inv_def)
  have pay: "sq_payload s = last (sq_gens s)"
    using h by (intro sq_holder_payload [OF inv h(1)]) auto
  have "sq_writer_ok (sq_goto t p s) p" "sq_reader_ok (sq_goto t p s) (sq_seen s t) p"
    using wok p by (cases p; simp)+
  with own pay cnt p inv show ?thesis
    by (intro sq_inv_holder [OF inv h(1), where p = p and xs = "[]"])
       (auto simp: sq_inv_def)
qed

lemma sq_odd_inv:
  assumes inv: "sq_inv s" and pc: "sq_pcs s t = Sq_odd w v n"
  shows "sq_inv (sq_goto t (Sq_pay w v n) (s\<lparr>sq_seq := n\<rparr>))" (is "sq_inv ?s'")
proof -
  have h: "sq_holds (sq_pcs s t)" using pc by simp
  note own = sq_owner_unique [OF inv h]
  have ok: "write_value w (last (sq_gens s)) = Some v" "n = sq_seq s + 1"
    using sq_inv_facts(3) [OF inv, of t] pc by auto
  have c0: "sq_count s = 2 * (length (sq_gens s) - 1)"
    using sq_count_owner [of s t] own pc by simp
  have c1: "sq_count ?s' = sq_count s + 1"
    using sq_count_owner [of ?s' t] own c0 by (simp add: sq_owners_goto)
  show ?thesis
  proof (rule sq_inv_holder [OF inv h, where p = "Sq_pay w v n" and xs = "[]"])
    show "spin_owned (sq_lockw ?s') (if sq_holds (Sq_pay w v n) then {t} else {})"
      using inv own by (simp add: sq_inv_def)
    show "sq_seq ?s' = of_nat (sq_count ?s')"
      using c1 ok sq_inv_facts(1) [OF inv] by simp
    show "sq_payload ?s' = last (sq_gens ?s') \<or> (\<exists>w' v' n'. Sq_pay w v n = Sq_end w' v' n')"
      using sq_holder_payload [OF inv h] pc by simp
  qed (use ok c1 sq_inv_facts(2) [OF inv] in auto)
qed

lemma sq_pay_inv:
  assumes inv: "sq_inv s" and pc: "sq_pcs s t = Sq_pay w v n"
  shows "sq_inv (sq_goto t (Sq_end w v n) (s\<lparr>sq_payload := v\<rparr>))" (is "sq_inv ?s'")
proof -
  have h: "sq_holds (sq_pcs s t)" using pc by simp
  have ok: "write_value w (last (sq_gens s)) = Some v" "n = sq_seq s"
    using sq_inv_facts(3) [OF inv, of t] pc by auto
  have c1: "sq_count ?s' = sq_count s"
    using pc by (intro sq_count_same [of "Sq_end w v n" s t]) auto
  show ?thesis
    by (rule sq_inv_holder [OF inv h, where p = "Sq_end w v n" and xs = "[]"])
       (use ok c1 sq_inv_facts(1,2) [OF inv] sq_owner_unique [OF inv h] inv in
         \<open>auto simp: sq_inv_def\<close>)
qed

lemma sq_end_inv:
  assumes inv: "sq_inv s" and pc: "sq_pcs s t = Sq_end w v n"
  shows "sq_inv (sq_goto t (Sq_unlock False)
           (s\<lparr>sq_seq := end_write n, sq_gens := sq_gens s @ [v], sq_writes := sq_writes s @ [w]\<rparr>))"
    (is "sq_inv ?s'")
proof -
  have h: "sq_holds (sq_pcs s t)" using pc by simp
  note own = sq_owner_unique [OF inv h]
  have ok: "write_value w (last (sq_gens s)) = Some v" "n = sq_seq s" "sq_payload s = v"
    using sq_inv_facts(3) [OF inv, of t] pc by auto
  have c0: "sq_count s = 2 * (length (sq_gens s) - 1) + 1"
    using sq_count_owner [of s t] own pc by simp
  have c1: "sq_count ?s' = sq_count s + 1"
    using sq_count_owner [of ?s' t] own c0 sq_inv_facts(5) [OF inv] by (simp add: sq_owners_goto)
  show ?thesis
  proof (rule sq_inv_holder [OF inv h, where p = "Sq_unlock False" and xs = "[v]"])
    show "spin_owned (sq_lockw ?s') (if sq_holds (Sq_unlock False) then {t} else {})"
      using inv own by (simp add: sq_inv_def)
    show "sq_seq ?s' = of_nat (sq_count ?s')"
      using c1 ok sq_inv_facts(1) [OF inv] by (simp add: end_write_def)
    show "writes_chain (sq_gens ?s') (sq_writes ?s')"
      using writes_chain_snoc [OF sq_inv_facts(2) [OF inv] ok(1)] by simp
  qed (use ok c1 in auto)
qed

lemma sq_unlock_inv:
  assumes inv: "sq_inv s" and pc: "sq_pcs s t = Sq_unlock b"
  shows "sq_inv (sq_goto t Sq_idle (s\<lparr>sq_lockw := unlock (sq_lockw s)\<rparr>))" (is "sq_inv ?s'")
proof -
  have h: "sq_holds (sq_pcs s t)" using pc by simp
  have own: "spin_owned (sq_lockw s) {t}"
    using inv sq_owner_unique [OF inv h] by (simp add: sq_inv_def)
  have c1: "sq_count ?s' = sq_count s"
    using pc by (intro sq_count_same [of Sq_idle s t]) auto
  show ?thesis
    by (rule sq_inv_holder [OF inv h, where p = Sq_idle and xs = "[]"])
       (use c1 sq_inv_facts(1,2) [OF inv] spin.release_owned [OF own] sq_holder_payload [OF inv h] pc in auto)
qed

lemma seq_is_even_of_nat: "seq_is_even (of_nat c) \<longleftrightarrow> even c"
  by (simp add: seq_is_even_def and_one_eq even_of_nat flip: odd_iff_mod_2_eq_one even_iff_mod_2_eq_zero)

lemma sq_count_even:
  assumes "even (sq_count s)"
  shows "sq_count s = 2 * (length (sq_gens s) - 1)"
  using assms by (auto simp: sq_count_def split: if_splits)

lemma sq_reader_ok_self:
  assumes inv: "sq_inv s" and k: "k = length (sq_gens s) - 1"
    and ev: "seq_is_even (sq_seq s)"
  shows "sq_reader_ok s k (Sq_read2 (sq_seq s))"
proof -
  have "even (sq_count s)" using ev sq_inv_facts(1) [OF inv] by (simp add: seq_is_even_of_nat)
  then have "sq_count s = 2 * k" using k by (simp add: sq_count_even)
  with sq_inv_facts(1,5) [OF inv] k show ?thesis by simp
qed

lemma sq_reader_ok_payload:
  assumes inv: "sq_inv s" and ok: "sq_reader_ok s k (Sq_read2 n)"
  shows "sq_reader_ok s k (Sq_read3 n (sq_payload s))"
proof (cases "2 * k < sq_count s")
  case True
  with ok show ?thesis by simp
next
  case False
  with ok have c: "sq_count s = 2 * k" and k: "k < length (sq_gens s)" by auto
  then have noopen: "\<not> (\<exists>t. sq_open (sq_pcs s t))"
    by (auto simp: sq_count_def split: if_splits)
  have "sq_payload s = last (sq_gens s)"
    using noopen by (intro sq_payload_last [OF inv]) (metis sq_open.simps(2))
  moreover have "length (sq_gens s) - 1 = k"
    using c noopen by (simp add: sq_count_def)
  ultimately have "sq_payload s = sq_gens s ! k" using k by (metis last_conv_nth length_0_conv not_less_zero)
  with ok show ?thesis by simp
qed

lemma sq_reader_inv:
  assumes "sq_inv s" and "\<not> sq_holds (sq_pcs s t)" and "\<not> sq_holds p"
    and "sq_reader_ok s (sq_seen s t) p"
  shows "sq_inv (sq_goto t p s)"
  by (rule sq_inv_outside [OF assms(1-3) _ assms(4)]) simp

lemma sq_exec_inv:
  assumes inv: "sq_inv s" and ex: "sq_exec s a = Some s'"
  shows "sq_inv s'"
proof (cases a)
  case (Sq_call_load t)
  with ex have "\<not> sq_holds (sq_pcs s t)" "s' = sq_goto t Sq_read1 s"
    by (auto simp: sq_at_rest_def split: if_splits)
  with inv show ?thesis by (auto intro: sq_reader_inv)
next
  case (Sq_call_write t w)
  with ex have "\<not> sq_holds (sq_pcs s t)" "s' = sq_goto t (Sq_lock w) s"
    by (auto simp: sq_at_rest_def split: if_splits)
  with inv show ?thesis by (auto intro: sq_reader_inv)
next
  case (Sq_step t)
  note ok = sq_inv_facts(3,4) [OF inv, of t]
  have hp: "sq_payload s = last (sq_gens s)" if "sq_holds (sq_pcs s t)" "\<not> sq_open (sq_pcs s t)"
    using that by (intro sq_holder_payload [OF inv that(1)]) auto
  show ?thesis
  proof (cases "sq_pcs s t")
    case (Sq_lock w)
    obtain b l where tt: "ttas (sq_lockw s) = (b, l)" by fastforce
    show ?thesis
    proof (cases b)
      case True
      with tt Sq_lock Sq_step ex inv show ?thesis by (auto intro: sq_acquire_inv)
    next
      case False
      with tt have "l = sq_lockw s" by (auto simp: ttas_def split: if_splits)
      with tt False Sq_lock Sq_step ex inv show ?thesis by auto
    qed
  next
    case (Sq_invoke w)
    with ex Sq_step inv hp show ?thesis
      by (auto intro!: sq_begin_phase_inv split: option.splits)
  next
    case (Sq_begin w v)
    with ex Sq_step inv ok show ?thesis
      by (auto intro!: sq_begin_phase_inv simp: begin_write_def)
  next
    case (Sq_odd w v n)
    with ex Sq_step inv show ?thesis by (auto intro: sq_odd_inv)
  next
    case (Sq_pay w v n)
    with ex Sq_step inv show ?thesis by (auto intro: sq_pay_inv)
  next
    case (Sq_end w v n)
    with ex Sq_step inv show ?thesis by (auto intro: sq_end_inv)
  next
    case (Sq_unlock b)
    with ex Sq_step inv show ?thesis by (auto intro: sq_unlock_inv)
  next
    case Sq_read1
    let ?k = "length (sq_gens s) - 1"
    let ?p = "if seq_is_even (sq_seq s) then Sq_read2 (sq_seq s) else Sq_read1"
    have "sq_reader_ok s ?k ?p" using sq_reader_ok_self [OF inv] by simp
    with ex Sq_step Sq_read1 inv show ?thesis
      by (intro sq_inv_outside [OF inv, where t = t and p = ?p and k = ?k]) auto
  next
    case (Sq_read2 n)
    with ex Sq_step inv ok show ?thesis
      by (auto intro!: sq_reader_inv sq_reader_ok_payload simp del: sq_reader_ok.simps(2))
  next
    case (Sq_read3 n v)
    with ex Sq_step inv show ?thesis by (auto intro!: sq_reader_inv split: if_splits)
  qed (use ex Sq_step in auto)
qed

interpretation sq: machine_invariant sq_exec sq_inv
  by unfold_locales (rule sq_exec_inv)

lemma sq_inv_init: "sq_inv (sq_init v)"
  by (auto simp: sq_inv_def sq_init_def sq_owners_def sq_count_def spin_owned_def writes_chain_def)

lemma sq_reachable_inv: "run sq_exec (sq_init v0) as = Some s \<Longrightarrow> sq_inv s"
  by (rule sq.run_Inv [OF sq_inv_init])

section \<open>Properties\<close>

text \<open>
  C7.  A validated read is exact: when the third load of \<open>load_validated()\<close> accepts counter \<open>n\<close>,
  then \<open>n = 2k\<close> for the generation \<open>k\<close> that is in place at that very moment (and was in
  place at the first load), and the value returned is the payload of
  generation \<open>k\<close>: not an older one and not that of a write in flight.
  The 64-bit counter wraps, so the read must span fewer than \<open>2 ^ 63\<close> writes.
\<close>

theorem seqlock_read_exact:
  assumes "run sq_exec (sq_init v0) as = Some s"
    and "sq_pcs s t = Sq_read3 n v"
    and "sq_exec s (Sq_step t) = Some s'" and "sq_pcs s' t = Sq_snap v n"
    and "length (sq_gens s) \<le> sq_seen s t + 2 ^ 63"
  shows "sq_seen s t = length (sq_gens s) - 1 \<and> n = of_nat (2 * sq_seen s t) \<and>
         v = last (sq_gens s) \<and> sq_payload s = v"
proof -
  let ?k = "sq_seen s t"
  have inv: "sq_inv s" using assms(1) by (rule sq_reachable_inv)
  have ok: "?k < length (sq_gens s)" "n = of_nat (2 * ?k)" "2 * ?k \<le> sq_count s"
    "v = sq_gens s ! ?k \<or> 2 * ?k < sq_count s"
    using sq_inv_facts(4) [OF inv, of t] assms(2) by auto
  have "sq_seq s = n" using assms(2-4) by (auto split: if_splits)
  then have "of_nat (2 * ?k) = (of_nat (sq_count s) :: size_t)"
    using ok(2) sq_inv_facts(1) [OF inv] by simp
  moreover have "sq_count s < 2 * ?k + 2 ^ 64"
    using assms(5) ok(1) by (cases "sq_gens s") (auto simp: sq_count_def)
  ultimately have c: "sq_count s = 2 * ?k"
    using ok(3) of_nat_size_inj_window [of "2 * ?k" "sq_count s"] by simp
  then have k: "?k = length (sq_gens s) - 1" using sq_count_even [of s] by simp
  have "sq_gens s \<noteq> []" using ok(1) by auto
  then have g: "sq_gens s ! ?k = last (sq_gens s)" using k by (simp add: last_conv_nth)
  then have "v = last (sq_gens s)" using c ok by simp
  moreover have "sq_payload s = last (sq_gens s)"
    using sq_reader_ok_payload [OF inv, of ?k n] ok(1-3) c g by simp
  ultimately show ?thesis using ok(2) k by simp
qed

text \<open>A reader that meets a write between its loads retries and then returns the new generation.\<close>

definition sq_demo :: "int sq_action list" where
  "sq_demo = [Sq_call_load 0, Sq_step 0, Sq_call_write 1 (Store 7), Sq_step 1, Sq_step 1, Sq_step 1,
     Sq_step 1, Sq_step 1, Sq_step 0, Sq_step 0, Sq_step 1, Sq_step 1, Sq_step 0, Sq_step 0]"

theorem seqlock_read_exact_witness:
  "\<exists>s s'. run sq_exec (sq_init 3) sq_demo = Some s \<and> sq_exec s (Sq_step 0) = Some s' \<and>
     sq_pcs s' 0 = Sq_snap 7 2 \<and> 7 = last (sq_gens s)"
proof -
  obtain s s' where s: "run sq_exec (sq_init 3) sq_demo = Some s" "sq_pcs s 0 = Sq_read3 2 7"
    and s': "sq_exec s (Sq_step 0) = Some s'" "sq_pcs s' 0 = Sq_snap 7 2"
    and g: "length (sq_gens s) \<le> sq_seen s 0 + 2 ^ 63"
    by (simp add: sq_demo_def sq_init_def sq_at_rest_def sq_goto_def ttas_def seq_is_even_def
        begin_write_def end_write_def unlock_def)
  from seqlock_read_exact [OF s s' g] s s' show ?thesis by blast
qed

text \<open>
  Writers: whatever the interleaving, the generations form a chain in which each completed
  write was applied to the generation just before it (no \<open>store\<close> or \<open>update\<close> is lost), at
  most one writer is inside, and the counter is twice the number of completed
  writes, plus one exactly while a writer has the odd window open.
\<close>

theorem seqlock_writers_serialized:
  assumes "run sq_exec (sq_init v0) as = Some s"
  shows "writes_chain (sq_gens s) (sq_writes s) \<and> hd (sq_gens s) = v0 \<and>
         (sq_holds (sq_pcs s t) \<longrightarrow> sq_holds (sq_pcs s u) \<longrightarrow> t = u) \<and>
         sq_seq s = of_nat (2 * length (sq_writes s) +
                      (if \<exists>x. sq_open (sq_pcs s x) then 1 else 0))"
proof -
  have inv: "sq_inv s" using assms by (rule sq_reachable_inv)
  have "hd (sq_gens s) = v0"
    using assms
  proof (induction as arbitrary: s rule: rev_induct)
    case Nil
    then show ?case by (auto simp: sq_init_def)
  next
    case (snoc a as)
    then obtain s1 where s1: "run sq_exec (sq_init v0) as = Some s1" "sq_exec s1 a = Some s"
      by (auto simp: run_snoc)
    have "sq_gens s1 \<noteq> []" using sq_inv_facts(5) [OF sq_reachable_inv [OF s1(1)]] by auto
    moreover obtain xs where "sq_gens s = sq_gens s1 @ xs"
    proof (cases a)
      case (Sq_step t)
      with s1(2) that show ?thesis
        by (cases "sq_pcs s1 t") (auto simp: split: prod.splits bool.splits option.splits)
    qed (use s1(2) that in \<open>auto split: if_splits\<close>)
    ultimately show ?case using snoc.IH [OF s1(1)] by simp
  qed
  moreover have "t = u" if "sq_holds (sq_pcs s t)" "sq_holds (sq_pcs s u)"
    using sq_owner_unique [OF inv that(1)] sq_owner_unique [OF inv that(2)] by simp
  ultimately show ?thesis
    using sq_inv_facts(1,2,5) [OF inv] by (auto simp: sq_count_def)
qed

theorem seqlock_writers_serialized_witness:
  "\<exists>s. run sq_exec (sq_init 3) sq_demo = Some s \<and>
     writes_chain (sq_gens s) (sq_writes s) \<and> sq_gens s = [3, 7]"
proof -
  obtain s where s: "run sq_exec (sq_init 3) sq_demo = Some s" "sq_gens s = [3, 7]"
    by (simp add: sq_demo_def sq_init_def sq_at_rest_def sq_goto_def ttas_def seq_is_even_def
        begin_write_def end_write_def unlock_def)
  with seqlock_writers_serialized [OF s(1)] show ?thesis by blast
qed

text \<open>
  A throwing callable: when \<open>f\<close> throws inside \<open>update(f)\<close>, the two remaining steps of the
  call release the lock and leave the counter, the payload and the generations untouched.
\<close>

theorem seqlock_update_throw:
  assumes "run sq_exec (sq_init v0) as = Some s"
    and "sq_pcs s t = Sq_invoke (Update f)" and "f (sq_payload s) = None"
  shows "\<exists>s'. run sq_exec s [Sq_step t, Sq_step t] = Some s' \<and> sq_pcs s' t = Sq_idle \<and>
         sq_seq s' = sq_seq s \<and> sq_payload s' = sq_payload s \<and> sq_gens s' = sq_gens s \<and>
         \<not> locked (sq_lockw s') \<and> sq_owners s' = {}"
proof -
  have inv: "sq_inv s" using assms(1) by (rule sq_reachable_inv)
  have "sq_owners s = {t}" using assms(2) by (intro sq_owner_unique [OF inv]) simp
  with assms show ?thesis
    by (auto simp: sq_owners_goto unlock_def locked_def)
qed

theorem seqlock_update_throw_witness:
  "\<exists>s s'. run sq_exec (sq_init (3::int)) [Sq_call_write 0 (Update (\<lambda>_. None)), Sq_step 0] = Some s \<and>
     run sq_exec s [Sq_step 0, Sq_step 0] = Some s' \<and> sq_payload s' = sq_payload s \<and>
     sq_seq s' = sq_seq s"
proof -
  obtain s where s: "run sq_exec (sq_init (3::int)) [Sq_call_write 0 (Update (\<lambda>_. None)), Sq_step 0] = Some s"
    "sq_pcs s 0 = Sq_invoke (Update (\<lambda>_. None))"
    by (simp add: sq_init_def sq_at_rest_def sq_goto_def ttas_def)
  from seqlock_update_throw [OF s] s(1) show ?thesis by auto
qed

text \<open>
  Readers make progress when no write is in flight: a reader at its first load that
  runs its three loads without an overlapping write returns, with the payload in place.
\<close>

theorem seqlock_reader_returns:
  assumes "run sq_exec (sq_init v0) as = Some s"
    and "sq_pcs s t = Sq_read1" and "\<forall>u. \<not> sq_open (sq_pcs s u)"
  shows "\<exists>s'. run sq_exec s [Sq_step t, Sq_step t, Sq_step t] = Some s' \<and>
         sq_pcs s' t = Sq_snap (last (sq_gens s)) (sq_seq s) \<and>
         sq_seq s' = sq_seq s \<and> sq_payload s' = sq_payload s \<and> sq_lockw s' = sq_lockw s"
proof -
  have inv: "sq_inv s" using assms(1) by (rule sq_reachable_inv)
  have "even (sq_count s)" using assms(3) by (simp add: sq_count_def)
  then have ev: "seq_is_even (sq_seq s)" using sq_inv_facts(1) [OF inv] by (simp add: seq_is_even_of_nat)
  have "sq_payload s = last (sq_gens s)"
    using assms(3) by (intro sq_payload_last [OF inv]) (metis sq_open.simps(2))
  with ev assms(2) show ?thesis by simp
qed

theorem seqlock_reader_returns_witness:
  "\<exists>s s'. run sq_exec (sq_init (3::int)) [Sq_call_load 0] = Some s \<and>
     run sq_exec s [Sq_step 0, Sq_step 0, Sq_step 0] = Some s' \<and> sq_pcs s' 0 = Sq_snap 3 0"
proof -
  obtain s where s: "run sq_exec (sq_init (3::int)) [Sq_call_load 0] = Some s" "sq_pcs s 0 = Sq_read1"
    "\<forall>u. \<not> sq_open (sq_pcs s u)" "sq_gens s = [3]" "sq_seq s = 0"
    by (simp add: sq_init_def sq_at_rest_def sq_goto_def)
  from seqlock_reader_returns [OF s(1-3)] s(4,5)
  obtain s' where "run sq_exec s [Sq_step 0, Sq_step 0, Sq_step 0] = Some s'" "sq_pcs s' 0 = Sq_snap 3 0"
    by auto
  with s(1) show ?thesis by blast
qed

end
