(* ===== verification/Ring_Queue.thy ===== *)
theory Ring_Queue
  imports Spin_Lock
begin

text \<open>
  \<^verbatim>\<open>ConcurrentQueue/concurrent_queue.h\<close>, the key-value queue: a ring of slots, each with a
  sequence number, a tail lock for producers and a head lock for consumers.

  The record \<open>kvq\<close> holds the members of the class; every slot is the struct
  \<open>queue_slot_t\<close>, its value storage an option (\<open>None\<close>: no object alive in it), so that a
  placement-new over a live value or a move from a dead one is visible.  One action is
  one access to a lock word or a sequence number, together with the plain accesses
  the code makes next to it under the lock or in a slot it owns.
  The environment argument \<open>NTRY\<close> is the template parameter and \<open>k0\<close> is \<open>Key{}\<close>.

  The last four fields are history, read by no step: the elements in the order
  their indices were claimed, the number of indices claimed by consumers,
  the phase of every index, and the index each thread claimed last.
\<close>

section \<open>State\<close>

record ('k, 'v) kv_slot =
  slot_seq :: size_t
  slot_key :: 'k
  slot_value :: "'v option"

datatype kv_phase = Unclaimed | Producing | Committed | Consuming | Released

text \<open>
  \<open>push\<close>: \<open>Push_lock\<close> spins on the tail lock; \<open>Push_try k v i n\<close> is attempt \<open>n\<close> of the retry
  loop at index \<open>i\<close>; \<open>Push_claim\<close> writes the key and advances the tail; \<open>Push_unlock\<close>,
  \<open>Push_construct\<close>, \<open>Push_commit\<close> are the rest of the success path.  \<open>pop\<close> and \<open>empty\<close> alike.
\<close>

datatype ('k, 'v) kv_pc =
    Kv_idle
  | Push_lock 'k 'v
  | Push_try 'k 'v size_t nat
  | Push_claim 'k 'v size_t
  | Push_unlock 'v size_t
  | Push_construct 'v size_t
  | Push_commit size_t
  | Push_full
  | Push_done bool
  | Pop_lock
  | Pop_load size_t
  | Pop_claim size_t
  | Pop_unlock 'k size_t
  | Pop_move 'k size_t
  | Pop_release 'k 'v size_t
  | Pop_none
  | Pop_done 'k "'v option"
  | Empty_lock
  | Empty_load size_t
  | Empty_unlock bool
  | Empty_done bool

record ('k, 'v) kvq =
  kv_slots :: "('k, 'v) kv_slot list"
  kv_capacity :: size_t
  kv_mask :: size_t
  kv_tail_l :: int
  kv_tail_i :: size_t
  kv_head_l :: int
  kv_head_i :: size_t
  kv_pcs :: "tid \<Rightarrow> ('k, 'v) kv_pc"
  kv_pushed :: "('k \<times> 'v) list"
  kv_popped :: nat
  kv_phase :: "nat \<Rightarrow> kv_phase"
  kv_own :: "tid \<Rightarrow> nat"

datatype ('k, 'v) kv_action = Call_push tid 'k 'v | Call_pop tid | Call_empty tid | Kv_step tid

section \<open>Construction\<close>

text \<open>
  The constructor: \<open>bit_floor(bytes / sizeof(slot_t))\<close> slots in the caller's buffer,
  \<open>std::abort()\<close> below 8; the zero fill gives every slot the default key, and slot
  \<open>p\<close> starts free for index \<open>p\<close>.
\<close>

definition kv_construct :: "'k \<Rightarrow> size_t \<Rightarrow> size_t \<Rightarrow> cxx_error + ('k, 'v) kvq" where
  "kv_construct k0 sizeof_slot bytes =
     (let capacity = bit_floor (bytes div sizeof_slot) in
      if capacity < 8 then Inl Abort
      else Inr \<lparr>kv_slots = map (\<lambda>p. \<lparr>slot_seq = of_nat p, slot_key = k0, slot_value = None\<rparr>)
                              [0..<unat capacity],
                kv_capacity = capacity, kv_mask = capacity - 1,
                kv_tail_l = 0, kv_tail_i = 0, kv_head_l = 0, kv_head_i = 0,
                kv_pcs = (\<lambda>_. Kv_idle), kv_pushed = [], kv_popped = 0,
                kv_phase = (\<lambda>_. Unclaimed), kv_own = (\<lambda>_. 0)\<rparr>)"

section \<open>The operations, step by step\<close>

definition kv_index :: "('k, 'v) kvq \<Rightarrow> size_t \<Rightarrow> nat" where
  "kv_index s i = unat (i AND kv_mask s)"

definition kv_slot :: "('k, 'v) kvq \<Rightarrow> size_t \<Rightarrow> ('k, 'v) kv_slot" where
  "kv_slot s i = kv_slots s ! kv_index s i"

definition kv_set :: "size_t \<Rightarrow> ('k, 'v) kv_slot \<Rightarrow> ('k, 'v) kvq \<Rightarrow> ('k, 'v) kvq" where
  "kv_set i x s = s\<lparr>kv_slots := (kv_slots s)[kv_index s i := x]\<rparr>"

definition kv_goto :: "tid \<Rightarrow> ('k, 'v) kv_pc \<Rightarrow> ('k, 'v) kvq \<Rightarrow> ('k, 'v) kvq" where
  "kv_goto t p s = s\<lparr>kv_pcs := (kv_pcs s)(t := p)\<rparr>"

definition kv_ghost :: "tid \<Rightarrow> nat \<Rightarrow> kv_phase \<Rightarrow> ('k, 'v) kvq \<Rightarrow> ('k, 'v) kvq" where
  "kv_ghost t j ph s = s\<lparr>kv_phase := (kv_phase s)(j := ph), kv_own := (kv_own s)(t := j)\<rparr>"

text \<open>\<open>push(key, value)\<close>.\<close>

fun kv_push_step :: "nat \<Rightarrow> tid \<Rightarrow> ('k, 'v) kv_pc \<Rightarrow> ('k, 'v) kvq \<Rightarrow> ('k, 'v) kvq option" where
  "kv_push_step NTRY t (Push_lock k v) s =
     (case ttas (kv_tail_l s) of
        (True, l) \<Rightarrow> Some (kv_goto t (if 0 \<noteq> NTRY then Push_try k v (kv_tail_i s) 0 else Push_full)
                             (s\<lparr>kv_tail_l := l\<rparr>))
      | (False, l) \<Rightarrow> Some s)"
| "kv_push_step NTRY t (Push_try k v i n) s =
     (if slot_seq (kv_slot s i) = i then Some (kv_goto t (Push_claim k v i) s)
      else if Suc n \<noteq> NTRY then Some (kv_goto t (Push_try k v i (Suc n)) s)
      else Some (kv_goto t Push_full s))"
| "kv_push_step NTRY t (Push_claim k v i) s =
     Some (kv_goto t (Push_unlock v i)
       (kv_ghost t (length (kv_pushed s)) Producing
         ((kv_set i ((kv_slot s i)\<lparr>slot_key := k\<rparr>) s)
            \<lparr>kv_tail_i := kv_tail_i s + 1, kv_pushed := kv_pushed s @ [(k, v)]\<rparr>)))"
| "kv_push_step NTRY t (Push_unlock v i) s =
     Some (kv_goto t (Push_construct v i) (s\<lparr>kv_tail_l := unlock (kv_tail_l s)\<rparr>))"
| "kv_push_step NTRY t (Push_construct v i) s =
     (if slot_value (kv_slot s i) = None
      then Some (kv_goto t (Push_commit i) (kv_set i ((kv_slot s i)\<lparr>slot_value := Some v\<rparr>) s))
      else None)"
| "kv_push_step NTRY t (Push_commit i) s =
     Some (kv_goto t (Push_done True)
       (kv_ghost t (kv_own s t) Committed (kv_set i ((kv_slot s i)\<lparr>slot_seq := i + 1\<rparr>) s)))"
| "kv_push_step NTRY t Push_full s =
     Some (kv_goto t (Push_done False) (s\<lparr>kv_tail_l := unlock (kv_tail_l s)\<rparr>))"
| "kv_push_step NTRY t _ s = None"

text \<open>\<open>pop(value)\<close> and \<open>empty()\<close>.\<close>

fun kv_pop_step :: "'k \<Rightarrow> tid \<Rightarrow> ('k, 'v) kv_pc \<Rightarrow> ('k, 'v) kvq \<Rightarrow> ('k, 'v) kvq option" where
  "kv_pop_step k0 t Pop_lock s =
     (case ttas (kv_head_l s) of
        (True, l) \<Rightarrow> Some (kv_goto t (Pop_load (kv_head_i s)) (s\<lparr>kv_head_l := l\<rparr>))
      | (False, l) \<Rightarrow> Some s)"
| "kv_pop_step k0 t (Pop_load i) s =
     (if slot_seq (kv_slot s i) \<noteq> i + 1 then Some (kv_goto t Pop_none s)
      else Some (kv_goto t (Pop_claim i) s))"
| "kv_pop_step k0 t (Pop_claim i) s =
     Some (kv_goto t (Pop_unlock (slot_key (kv_slot s i)) i)
       (kv_ghost t (kv_popped s) Consuming
         ((kv_set i ((kv_slot s i)\<lparr>slot_key := k0\<rparr>) s)
            \<lparr>kv_head_i := kv_head_i s + 1, kv_popped := Suc (kv_popped s)\<rparr>)))"
| "kv_pop_step k0 t (Pop_unlock r i) s =
     Some (kv_goto t (Pop_move r i) (s\<lparr>kv_head_l := unlock (kv_head_l s)\<rparr>))"
| "kv_pop_step k0 t (Pop_move r i) s =
     (case slot_value (kv_slot s i) of
        Some v \<Rightarrow> Some (kv_goto t (Pop_release r v i) (kv_set i ((kv_slot s i)\<lparr>slot_value := None\<rparr>) s))
      | None \<Rightarrow> None)"
| "kv_pop_step k0 t (Pop_release r v i) s =
     Some (kv_goto t (Pop_done r (Some v))
       (kv_ghost t (kv_own s t) Released (kv_set i ((kv_slot s i)\<lparr>slot_seq := i + kv_capacity s\<rparr>) s)))"
| "kv_pop_step k0 t Pop_none s =
     Some (kv_goto t (Pop_done k0 None) (s\<lparr>kv_head_l := unlock (kv_head_l s)\<rparr>))"
| "kv_pop_step k0 t Empty_lock s =
     (case ttas (kv_head_l s) of
        (True, l) \<Rightarrow> Some (kv_goto t (Empty_load (kv_head_i s)) (s\<lparr>kv_head_l := l\<rparr>))
      | (False, l) \<Rightarrow> Some s)"
| "kv_pop_step k0 t (Empty_load i) s =
     Some (kv_goto t (Empty_unlock (slot_seq (kv_slot s i) \<noteq> i + 1)) s)"
| "kv_pop_step k0 t (Empty_unlock b) s =
     Some (kv_goto t (Empty_done b) (s\<lparr>kv_head_l := unlock (kv_head_l s)\<rparr>))"
| "kv_pop_step k0 t _ s = None"

text \<open>A thread at rest: before its first call, or between calls.\<close>

fun kv_at_rest :: "('k, 'v) kv_pc \<Rightarrow> bool" where
  "kv_at_rest Kv_idle = True"
| "kv_at_rest (Push_done b) = True"
| "kv_at_rest (Pop_done r v) = True"
| "kv_at_rest (Empty_done b) = True"
| "kv_at_rest _ = False"

text \<open>The debug assertion of \<open>push\<close>: the key is not the reserved \<open>Key{}\<close>.\<close>

fun kv_exec :: "nat \<Rightarrow> 'k \<Rightarrow> ('k, 'v) kvq \<Rightarrow> ('k, 'v) kv_action \<Rightarrow> ('k, 'v) kvq option" where
  "kv_exec NTRY k0 s (Call_push t k v) =
     (if kv_at_rest (kv_pcs s t) \<and> k \<noteq> k0 then Some (kv_goto t (Push_lock k v) s) else None)"
| "kv_exec NTRY k0 s (Call_pop t) =
     (if kv_at_rest (kv_pcs s t) then Some (kv_goto t Pop_lock s) else None)"
| "kv_exec NTRY k0 s (Call_empty t) =
     (if kv_at_rest (kv_pcs s t) then Some (kv_goto t Empty_lock s) else None)"
| "kv_exec NTRY k0 s (Kv_step t) =
     (case kv_push_step NTRY t (kv_pcs s t) s of
        Some s' \<Rightarrow> Some s' | None \<Rightarrow> kv_pop_step k0 t (kv_pcs s t) s)"

text \<open>The destructor: destroy the value of every index in \<open>[head_.i, tail_.i)\<close>; a slot without a
  live value would be undefined.\<close>

fun kv_drain :: "nat \<Rightarrow> size_t \<Rightarrow> ('k, 'v) kvq \<Rightarrow> cxx_error + ('k, 'v) kvq" where
  "kv_drain 0 i s = Inr s"
| "kv_drain (Suc n) i s =
     (case slot_value (kv_slot s i) of
        None \<Rightarrow> Inl Undefined
      | Some v \<Rightarrow> kv_drain n (i + 1) (kv_set i ((kv_slot s i)\<lparr>slot_value := None\<rparr>) s))"

definition kv_destroy :: "('k, 'v) kvq \<Rightarrow> cxx_error + ('k, 'v) kvq" where
  "kv_destroy s = kv_drain (unat (kv_tail_i s - kv_head_i s)) (kv_head_i s) s"

section \<open>The invariant of the slot protocol\<close>

fun holds_tail :: "('k, 'v) kv_pc \<Rightarrow> bool" where
  "holds_tail (Push_try k v i n) = True"
| "holds_tail (Push_claim k v i) = True"
| "holds_tail (Push_unlock v i) = True"
| "holds_tail Push_full = True"
| "holds_tail _ = False"

fun holds_head :: "('k, 'v) kv_pc \<Rightarrow> bool" where
  "holds_head (Pop_load i) = True"
| "holds_head (Pop_claim i) = True"
| "holds_head (Pop_unlock r i) = True"
| "holds_head Pop_none = True"
| "holds_head (Empty_load i) = True"
| "holds_head (Empty_unlock b) = True"
| "holds_head _ = False"

fun in_flight :: "('k, 'v) kv_pc \<Rightarrow> bool" where
  "in_flight (Push_unlock v i) = True"
| "in_flight (Push_construct v i) = True"
| "in_flight (Push_commit i) = True"
| "in_flight (Pop_unlock r i) = True"
| "in_flight (Pop_move r i) = True"
| "in_flight (Pop_release r v i) = True"
| "in_flight _ = False"

abbreviation kv_N :: "('k, 'v) kvq \<Rightarrow> nat" where
  "kv_N s \<equiv> length (kv_slots s)"

abbreviation kv_T :: "('k, 'v) kvq \<Rightarrow> nat" where
  "kv_T s \<equiv> length (kv_pushed s)"

definition kv_geom :: "('k, 'v) kvq \<Rightarrow> bool" where
  "kv_geom s \<longleftrightarrow> (\<exists>c. 3 \<le> c \<and> c < 64 \<and> kv_N s = 2 ^ c \<and> kv_capacity s = 2 ^ c \<and> kv_mask s = mask c)"

definition kv_locks :: "('k, 'v) kvq \<Rightarrow> bool" where
  "kv_locks s \<longleftrightarrow> spin_owned (kv_tail_l s) {t. holds_tail (kv_pcs s t)} \<and>
                  spin_owned (kv_head_l s) {t. holds_head (kv_pcs s t)}"

definition kv_phases :: "('k, 'v) kvq \<Rightarrow> bool" where
  "kv_phases s \<longleftrightarrow>
     kv_tail_i s = of_nat (kv_T s) \<and> kv_head_i s = of_nat (kv_popped s) \<and>
     (\<forall>i. kv_phase s i = Unclaimed \<longleftrightarrow> kv_T s \<le> i) \<and>
     (\<forall>i. kv_phase s i = Consuming \<or> kv_phase s i = Released \<longleftrightarrow> i < kv_popped s) \<and>
     (\<forall>i. i + kv_N s < kv_T s \<longrightarrow> kv_phase s i = Released)"

text \<open>What the slot of index \<open>j\<close> holds, by the phase of \<open>j\<close> (the table in the class comment).\<close>

definition slot_ok :: "('k, 'v) kvq \<Rightarrow> nat \<Rightarrow> bool" where
  "slot_ok s j \<longleftrightarrow>
     (let x = kv_slots s ! (j mod kv_N s); e = kv_pushed s ! j in
      case kv_phase s j of
        Unclaimed \<Rightarrow> True
      | Producing \<Rightarrow> slot_seq x = of_nat j \<and> slot_key x = fst e
      | Committed \<Rightarrow> slot_seq x = of_nat (j + 1) \<and> slot_key x = fst e \<and> slot_value x = Some (snd e)
      | Consuming \<Rightarrow> slot_seq x = of_nat (j + 1)
      | Released \<Rightarrow> slot_seq x = of_nat (j + kv_N s) \<and> slot_value x = None)"

definition kv_slots_ok :: "('k, 'v) kvq \<Rightarrow> bool" where
  "kv_slots_ok s \<longleftrightarrow>
     (\<forall>j. j < kv_T s \<longrightarrow> kv_T s \<le> j + kv_N s \<longrightarrow> slot_ok s j) \<and>
     (\<forall>p. p < kv_N s \<longrightarrow> kv_T s \<le> p \<longrightarrow>
        slot_seq (kv_slots s ! p) = of_nat p \<and> slot_value (kv_slots s ! p) = None)"

text \<open>What each thread knows at its program point.\<close>

fun kv_pc_ok :: "'k \<Rightarrow> ('k, 'v) kvq \<Rightarrow> nat \<Rightarrow> ('k, 'v) kv_pc \<Rightarrow> bool" where
  "kv_pc_ok k0 s j (Push_lock k v) \<longleftrightarrow> k \<noteq> k0"
| "kv_pc_ok k0 s j (Push_try k v i n) \<longleftrightarrow> k \<noteq> k0 \<and> i = of_nat (kv_T s)"
| "kv_pc_ok k0 s j (Push_claim k v i) \<longleftrightarrow> k \<noteq> k0 \<and> i = of_nat (kv_T s) \<and>
     (kv_T s < kv_N s \<or> kv_phase s (kv_T s - kv_N s) = Released)"
| "kv_pc_ok k0 s j (Push_unlock v i) \<longleftrightarrow> i = of_nat j \<and> kv_phase s j = Producing \<and>
     snd (kv_pushed s ! j) = v \<and> slot_value (kv_slots s ! (j mod kv_N s)) = None"
| "kv_pc_ok k0 s j (Push_construct v i) \<longleftrightarrow> i = of_nat j \<and> kv_phase s j = Producing \<and>
     snd (kv_pushed s ! j) = v \<and> slot_value (kv_slots s ! (j mod kv_N s)) = None"
| "kv_pc_ok k0 s j (Push_commit i) \<longleftrightarrow> i = of_nat j \<and> kv_phase s j = Producing \<and>
     slot_value (kv_slots s ! (j mod kv_N s)) = Some (snd (kv_pushed s ! j))"
| "kv_pc_ok k0 s j (Pop_load i) \<longleftrightarrow> i = of_nat (kv_popped s)"
| "kv_pc_ok k0 s j (Pop_claim i) \<longleftrightarrow> i = of_nat (kv_popped s) \<and> kv_phase s (kv_popped s) = Committed"
| "kv_pc_ok k0 s j (Pop_unlock r i) \<longleftrightarrow> i = of_nat j \<and> kv_phase s j = Consuming \<and>
     r = fst (kv_pushed s ! j) \<and> slot_value (kv_slots s ! (j mod kv_N s)) = Some (snd (kv_pushed s ! j))"
| "kv_pc_ok k0 s j (Pop_move r i) \<longleftrightarrow> i = of_nat j \<and> kv_phase s j = Consuming \<and>
     r = fst (kv_pushed s ! j) \<and> slot_value (kv_slots s ! (j mod kv_N s)) = Some (snd (kv_pushed s ! j))"
| "kv_pc_ok k0 s j (Pop_release r v i) \<longleftrightarrow> i = of_nat j \<and> kv_phase s j = Consuming \<and>
     r = fst (kv_pushed s ! j) \<and> v = snd (kv_pushed s ! j) \<and> slot_value (kv_slots s ! (j mod kv_N s)) = None"
| "kv_pc_ok k0 s j (Pop_done r v) \<longleftrightarrow>
     (case v of None \<Rightarrow> r = k0
      | Some x \<Rightarrow> j < kv_popped s \<and> j < kv_T s \<and> kv_pushed s ! j = (r, x))"
| "kv_pc_ok k0 s j (Empty_load i) \<longleftrightarrow> i = of_nat (kv_popped s)"
| "kv_pc_ok k0 s j _ \<longleftrightarrow> True"

definition kv_inv :: "'k \<Rightarrow> ('k, 'v) kvq \<Rightarrow> bool" where
  "kv_inv k0 s \<longleftrightarrow> kv_geom s \<and> kv_locks s \<and> kv_phases s \<and> kv_slots_ok s \<and>
     (\<forall>t. kv_pc_ok k0 s (kv_own s t) (kv_pcs s t)) \<and>
     (\<forall>t u. in_flight (kv_pcs s t) \<longrightarrow> in_flight (kv_pcs s u) \<longrightarrow> kv_own s t = kv_own s u \<longrightarrow> t = u) \<and>
     (\<forall>e\<in>set (kv_pushed s). fst e \<noteq> k0)"

section \<open>Indices, slots and windows\<close>

lemma window_mod_inj:
  fixes N :: nat
  assumes "i mod N = j mod N" and "T \<le> i + N" "i < T" and "T \<le> j + N" "j < T"
  shows "i = j"
proof (rule ccontr)
  assume "i \<noteq> j"
  have "N dvd (max i j - min i j)" using assms(1)
    by (metis max_def min_def mod_eq_dvd_iff_nat nat_le_linear)
  moreover have "0 < max i j - min i j" using \<open>i \<noteq> j\<close> by auto
  ultimately have "N \<le> max i j - min i j" by (rule dvd_imp_le)
  with assms(2-5) show False by auto
qed

lemma kv_index_of_nat: "kv_geom s \<Longrightarrow> kv_index s (of_nat j) = j mod kv_N s"
  by (auto simp: kv_geom_def kv_index_def unat_and_mask unat_of_nat mod_size_mod)

lemma kv_N_pos: "kv_geom s \<Longrightarrow> 0 < kv_N s \<and> kv_N s \<le> 2 ^ 63"
  by (auto simp: kv_geom_def simp del: power_numeral intro: pow_le_size)

lemma kv_slot_of_nat: "kv_geom s \<Longrightarrow> kv_slot s (of_nat j) = kv_slots s ! (j mod kv_N s)"
  by (simp add: kv_slot_def kv_index_of_nat)

lemma kv_goto_simps [simp]:
  "kv_slots (kv_goto t p s) = kv_slots s" "kv_capacity (kv_goto t p s) = kv_capacity s"
  "kv_mask (kv_goto t p s) = kv_mask s" "kv_tail_l (kv_goto t p s) = kv_tail_l s"
  "kv_tail_i (kv_goto t p s) = kv_tail_i s" "kv_head_l (kv_goto t p s) = kv_head_l s"
  "kv_head_i (kv_goto t p s) = kv_head_i s" "kv_pcs (kv_goto t p s) = (kv_pcs s)(t := p)"
  "kv_pushed (kv_goto t p s) = kv_pushed s" "kv_popped (kv_goto t p s) = kv_popped s"
  "kv_phase (kv_goto t p s) = kv_phase s" "kv_own (kv_goto t p s) = kv_own s"
  by (simp_all add: kv_goto_def)

lemma kv_ghost_simps [simp]:
  "kv_slots (kv_ghost t j ph s) = kv_slots s" "kv_capacity (kv_ghost t j ph s) = kv_capacity s"
  "kv_mask (kv_ghost t j ph s) = kv_mask s" "kv_tail_l (kv_ghost t j ph s) = kv_tail_l s"
  "kv_tail_i (kv_ghost t j ph s) = kv_tail_i s" "kv_head_l (kv_ghost t j ph s) = kv_head_l s"
  "kv_head_i (kv_ghost t j ph s) = kv_head_i s" "kv_pcs (kv_ghost t j ph s) = kv_pcs s"
  "kv_pushed (kv_ghost t j ph s) = kv_pushed s" "kv_popped (kv_ghost t j ph s) = kv_popped s"
  "kv_phase (kv_ghost t j ph s) = (kv_phase s)(j := ph)" "kv_own (kv_ghost t j ph s) = (kv_own s)(t := j)"
  by (simp_all add: kv_ghost_def)

lemma kv_set_simps [simp]:
  "kv_slots (kv_set i x s) = (kv_slots s)[kv_index s i := x]" "kv_capacity (kv_set i x s) = kv_capacity s"
  "kv_mask (kv_set i x s) = kv_mask s" "kv_tail_l (kv_set i x s) = kv_tail_l s"
  "kv_tail_i (kv_set i x s) = kv_tail_i s" "kv_head_l (kv_set i x s) = kv_head_l s"
  "kv_head_i (kv_set i x s) = kv_head_i s" "kv_pcs (kv_set i x s) = kv_pcs s"
  "kv_pushed (kv_set i x s) = kv_pushed s" "kv_popped (kv_set i x s) = kv_popped s"
  "kv_phase (kv_set i x s) = kv_phase s" "kv_own (kv_set i x s) = kv_own s"
  by (simp_all add: kv_set_def)

section \<open>Consequences of the invariant\<close>

lemma kv_invD:
  assumes "kv_inv k0 s"
  shows "kv_geom s" "kv_locks s" "kv_phases s" "kv_slots_ok s"
    "kv_pc_ok k0 s (kv_own s t) (kv_pcs s t)"
    "in_flight (kv_pcs s t) \<Longrightarrow> in_flight (kv_pcs s u) \<Longrightarrow> kv_own s t = kv_own s u \<Longrightarrow> t = u"
    "e \<in> set (kv_pushed s) \<Longrightarrow> fst e \<noteq> k0"
  using assms unfolding kv_inv_def by blast+

lemma kv_phases_popped_le: "kv_phases s \<Longrightarrow> kv_popped s \<le> kv_T s"
proof (rule ccontr)
  assume ph: "kv_phases s" and "\<not> kv_popped s \<le> kv_T s"
  then have "kv_T s < kv_popped s" by simp
  with ph have "kv_phase s (kv_T s) = Consuming \<or> kv_phase s (kv_T s) = Released"
    unfolding kv_phases_def by blast
  moreover have "kv_phase s (kv_T s) = Unclaimed" using ph unfolding kv_phases_def by blast
  ultimately show False by auto
qed

lemma kv_phases_window: "kv_phases s \<Longrightarrow> kv_T s \<le> kv_popped s + kv_N s"
proof (rule ccontr)
  assume ph: "kv_phases s" and "\<not> kv_T s \<le> kv_popped s + kv_N s"
  then have "kv_phase s (kv_popped s) = Released" unfolding kv_phases_def by force
  with ph have "kv_popped s < kv_popped s" unfolding kv_phases_def by blast
  then show False by simp
qed

lemma kv_phase_bounds:
  assumes "kv_phases s" and "kv_phase s j = Producing \<or> kv_phase s j = Consuming"
  shows "j < kv_T s \<and> kv_T s \<le> j + kv_N s"
proof
  show "j < kv_T s"
    using assms unfolding kv_phases_def by (metis kv_phase.distinct(1,5) not_le)
  show "kv_T s \<le> j + kv_N s"
    using assms unfolding kv_phases_def by (metis kv_phase.distinct(13,19) not_le)
qed

lemma in_flight_phase:
  "kv_pc_ok k0 s j p \<Longrightarrow> in_flight p \<Longrightarrow> kv_phase s j = Producing \<or> kv_phase s j = Consuming"
  by (cases p) auto

lemma in_flight_bounds:
  assumes "kv_inv k0 s" and "in_flight (kv_pcs s t)"
  shows "kv_own s t < kv_T s \<and> kv_T s \<le> kv_own s t + kv_N s"
  using kv_phase_bounds [OF kv_invD(3) in_flight_phase] kv_invD(5) assms by metis

lemma in_flight_other_slot:
  assumes inv: "kv_inv k0 s" and "in_flight (kv_pcs s t)" "in_flight (kv_pcs s u)" "t \<noteq> u"
  shows "kv_own s t mod kv_N s \<noteq> kv_own s u mod kv_N s"
proof
  assume "kv_own s t mod kv_N s = kv_own s u mod kv_N s"
  then have "kv_own s t = kv_own s u"
    using in_flight_bounds [OF inv assms(2)] in_flight_bounds [OF inv assms(3)]
    by (blast intro: window_mod_inj)
  with kv_invD(6) [OF inv] assms(2-4) show False by blast
qed

lemma kv_tail_owner: "kv_inv k0 s \<Longrightarrow> holds_tail (kv_pcs s t) \<Longrightarrow> holds_tail (kv_pcs s u) \<Longrightarrow> t = u"
  using spin.exclusive [of "kv_tail_l s" "{t. holds_tail (kv_pcs s t)}" t u]
  by (auto simp: kv_inv_def kv_locks_def)

lemma kv_head_owner: "kv_inv k0 s \<Longrightarrow> holds_head (kv_pcs s t) \<Longrightarrow> holds_head (kv_pcs s u) \<Longrightarrow> t = u"
  using spin.exclusive [of "kv_head_l s" "{t. holds_head (kv_pcs s t)}" t u]
  by (auto simp: kv_inv_def kv_locks_def)

section \<open>What a step leaves alone\<close>

lemma slot_ok_cong:
  assumes "kv_N s' = kv_N s" and "kv_slots s' ! (j mod kv_N s) = kv_slots s ! (j mod kv_N s)"
    and "kv_pushed s' ! j = kv_pushed s ! j" and "kv_phase s' j = kv_phase s j"
  shows "slot_ok s' j = slot_ok s j"
  unfolding slot_ok_def assms by (rule refl)

lemma kv_pc_ok_frame:
  assumes ok: "kv_pc_ok k0 s j p"
    and N: "kv_N s' = kv_N s" and pushed: "kv_pushed s' = kv_pushed s @ xs"
    and popped: "kv_popped s \<le> kv_popped s'"
    and tail: "holds_tail p \<Longrightarrow> xs = []" and head: "holds_head p \<Longrightarrow> kv_popped s' = kv_popped s"
    and rel: "\<And>i. kv_phase s i = Released \<Longrightarrow> kv_phase s' i = Released"
    and com: "holds_head p \<Longrightarrow> kv_phase s (kv_popped s) = Committed \<Longrightarrow> kv_phase s' (kv_popped s) = Committed"
    and fl: "in_flight p \<Longrightarrow> j < kv_T s \<and> kv_phase s' j = kv_phase s j \<and>
                kv_slots s' ! (j mod kv_N s) = kv_slots s ! (j mod kv_N s)"
  shows "kv_pc_ok k0 s' j p"
proof (cases p)
  case (Push_claim k v i)
  with ok N pushed tail rel show ?thesis by auto
next
  case (Pop_claim i)
  with ok head com show ?thesis by auto
next
  case (Pop_done r v)
  with ok pushed popped show ?thesis by (cases v) (auto simp: nth_append)
qed (use ok N pushed tail head fl in \<open>auto simp: nth_append\<close>)

lemma kv_others_ok:
  assumes inv: "kv_inv k0 s" and pcs: "kv_pcs s' = (kv_pcs s)(t := p)"
    and own: "\<And>u. u \<noteq> t \<Longrightarrow> kv_own s' u = kv_own s u"
    and N: "kv_N s' = kv_N s" and pushed: "kv_pushed s' = kv_pushed s @ xs"
    and popped: "kv_popped s \<le> kv_popped s'"
    and tail: "xs \<noteq> [] \<Longrightarrow> holds_tail (kv_pcs s t)"
    and head: "kv_popped s' = kv_popped s \<and>
                 (kv_phase s (kv_popped s) = Committed \<longrightarrow> kv_phase s' (kv_popped s) = Committed) \<or>
               holds_head (kv_pcs s t)"
    and rel: "\<And>i. kv_phase s i = Released \<Longrightarrow> kv_phase s' i = Released"
    and fl: "\<And>u. u \<noteq> t \<Longrightarrow> in_flight (kv_pcs s u) \<Longrightarrow>
        kv_phase s' (kv_own s u) = kv_phase s (kv_own s u) \<and>
        kv_slots s' ! (kv_own s u mod kv_N s) = kv_slots s ! (kv_own s u mod kv_N s)"
    and self: "kv_pc_ok k0 s' (kv_own s' t) p"
  shows "kv_pc_ok k0 s' (kv_own s' u) (kv_pcs s' u)"
proof (cases "u = t")
  case True
  with self pcs show ?thesis by simp
next
  case False
  have "kv_pc_ok k0 s' (kv_own s u) (kv_pcs s u)"
  proof (rule kv_pc_ok_frame [OF kv_invD(5) [OF inv] N pushed popped])
    show "xs = []" if "holds_tail (kv_pcs s u)"
      using kv_tail_owner [OF inv that, of t] tail False by blast
    show "kv_popped s' = kv_popped s" if "holds_head (kv_pcs s u)"
      using kv_head_owner [OF inv that, of t] head False by blast
    show "kv_phase s' (kv_popped s) = Committed"
      if "holds_head (kv_pcs s u)" "kv_phase s (kv_popped s) = Committed"
      using kv_head_owner [OF inv that(1), of t] head False that(2) by blast
    show "kv_own s u < kv_T s \<and> kv_phase s' (kv_own s u) = kv_phase s (kv_own s u) \<and>
        kv_slots s' ! (kv_own s u mod kv_N s) = kv_slots s ! (kv_own s u mod kv_N s)"
      if "in_flight (kv_pcs s u)"
      using fl [OF False that] in_flight_bounds [OF inv that] by blast
  qed (rule rel)
  with pcs own False show ?thesis by simp
qed

lemma in_flight_unique_upd:
  assumes inv: "kv_inv k0 s" and pcs: "kv_pcs s' = (kv_pcs s)(t := p)"
    and own: "kv_own s' = kv_own s" and "in_flight p \<Longrightarrow> in_flight (kv_pcs s t)"
    and "in_flight (kv_pcs s' u)" "in_flight (kv_pcs s' w)" "kv_own s' u = kv_own s' w"
  shows "u = w"
proof -
  have "in_flight (kv_pcs s u)" and "in_flight (kv_pcs s w)"
    using assms(4-6) pcs by (auto split: if_splits)
  with kv_invD(6) [OF inv] assms(7) own show ?thesis by simp
qed

section \<open>Steps that touch only a lock or nothing\<close>

lemma tail_set_upd:
  "{u. holds_tail (((kv_pcs s)(t := p)) u)} =
     (if holds_tail p then insert t {u. holds_tail (kv_pcs s u)} else {u. holds_tail (kv_pcs s u)} - {t})"
  by auto

lemma head_set_upd:
  "{u. holds_head (((kv_pcs s)(t := p)) u)} =
     (if holds_head p then insert t {u. holds_head (kv_pcs s u)} else {u. holds_head (kv_pcs s u)} - {t})"
  by auto

lemma kv_lock_step_inv:
  assumes inv: "kv_inv k0 s"
    and same: "kv_slots s' = kv_slots s" "kv_capacity s' = kv_capacity s" "kv_mask s' = kv_mask s"
      "kv_tail_i s' = kv_tail_i s" "kv_head_i s' = kv_head_i s" "kv_pushed s' = kv_pushed s"
      "kv_popped s' = kv_popped s" "kv_phase s' = kv_phase s" "kv_own s' = kv_own s"
    and pcs: "kv_pcs s' = (kv_pcs s)(t := p)" and locks: "kv_locks s'"
    and fl: "in_flight p \<Longrightarrow> in_flight (kv_pcs s t)" and ok: "kv_pc_ok k0 s (kv_own s t) p"
  shows "kv_inv k0 s'"
proof -
  have self: "kv_pc_ok k0 s' (kv_own s' t) p" using ok same by (cases p) (auto split: option.splits)
  have "kv_pc_ok k0 s' (kv_own s' u) (kv_pcs s' u)" for u
    by (rule kv_others_ok [OF inv pcs, where xs = "[]"]) (use same self in auto)
  moreover have "u = w" if "in_flight (kv_pcs s' u)" "in_flight (kv_pcs s' w)" "kv_own s' u = kv_own s' w" for u w
    by (rule in_flight_unique_upd [OF inv pcs same(9) fl that])
  moreover have "slot_ok s' i = slot_ok s i" for i
    by (rule slot_ok_cong) (simp_all add: same)
  then have "kv_geom s'" "kv_phases s'" "kv_slots_ok s'"
    using kv_invD(1,3,4) [OF inv] same
    by (simp_all add: kv_geom_def kv_phases_def kv_slots_ok_def)
  moreover have "\<forall>e\<in>set (kv_pushed s'). fst e \<noteq> k0" using kv_invD(7) [OF inv] same by auto
  ultimately show ?thesis using locks unfolding kv_inv_def by blast
qed

lemma kv_pc_step_inv:
  assumes inv: "kv_inv k0 s" and "holds_tail p = holds_tail (kv_pcs s t)"
    and "holds_head p = holds_head (kv_pcs s t)"
    and "in_flight p \<Longrightarrow> in_flight (kv_pcs s t)" and "kv_pc_ok k0 s (kv_own s t) p"
  shows "kv_inv k0 (kv_goto t p s)"
proof (rule kv_lock_step_inv [OF inv])
  have "{u. holds_tail (((kv_pcs s)(t := p)) u)} = {u. holds_tail (kv_pcs s u)}"
    and "{u. holds_head (((kv_pcs s)(t := p)) u)} = {u. holds_head (kv_pcs s u)}"
    using assms(2,3) by auto
  with kv_invD(2) [OF inv] show "kv_locks (kv_goto t p s)"
    by (simp add: kv_locks_def)
qed (use assms(4,5) in auto)

lemma kv_tail_acquire_inv:
  assumes inv: "kv_inv k0 s" and tt: "ttas (kv_tail_l s) = (True, l)"
    and pc: "\<not> holds_head (kv_pcs s t)"
    and p: "holds_tail p" "\<not> holds_head p" "\<not> in_flight p" "kv_pc_ok k0 s (kv_own s t) p"
  shows "kv_inv k0 (kv_goto t p (s\<lparr>kv_tail_l := l\<rparr>))"
proof (rule kv_lock_step_inv [OF inv, where t = t and p = p])
  have own: "spin_owned (kv_tail_l s) {u. holds_tail (kv_pcs s u)}"
    using kv_invD(2) [OF inv] by (simp add: kv_locks_def)
  have "{u. holds_head (kv_pcs s u)} - {t} = {u. holds_head (kv_pcs s u)}" using pc by auto
  with spin.acquire_owned [OF own tt, of t] show "kv_locks (kv_goto t p (s\<lparr>kv_tail_l := l\<rparr>))"
    using kv_invD(2) [OF inv] p(1,2)
    by (simp add: kv_locks_def tail_set_upd head_set_upd del: fun_upd_apply)
qed (use p in auto)

lemma kv_head_acquire_inv:
  assumes inv: "kv_inv k0 s" and tt: "ttas (kv_head_l s) = (True, l)"
    and pc: "\<not> holds_tail (kv_pcs s t)"
    and p: "holds_head p" "\<not> holds_tail p" "\<not> in_flight p" "kv_pc_ok k0 s (kv_own s t) p"
  shows "kv_inv k0 (kv_goto t p (s\<lparr>kv_head_l := l\<rparr>))"
proof (rule kv_lock_step_inv [OF inv, where t = t and p = p])
  have own: "spin_owned (kv_head_l s) {u. holds_head (kv_pcs s u)}"
    using kv_invD(2) [OF inv] by (simp add: kv_locks_def)
  have "{u. holds_tail (kv_pcs s u)} - {t} = {u. holds_tail (kv_pcs s u)}" using pc by auto
  with spin.acquire_owned [OF own tt, of t] show "kv_locks (kv_goto t p (s\<lparr>kv_head_l := l\<rparr>))"
    using kv_invD(2) [OF inv] p(1,2)
    by (simp add: kv_locks_def tail_set_upd head_set_upd del: fun_upd_apply)
qed (use p in auto)

lemma kv_tail_release_inv:
  assumes inv: "kv_inv k0 s" and pc: "holds_tail (kv_pcs s t)" "\<not> holds_head (kv_pcs s t)"
    and p: "\<not> holds_tail p" "\<not> holds_head p" "in_flight p \<Longrightarrow> in_flight (kv_pcs s t)"
      "kv_pc_ok k0 s (kv_own s t) p"
  shows "kv_inv k0 (kv_goto t p (s\<lparr>kv_tail_l := unlock (kv_tail_l s)\<rparr>))"
proof (rule kv_lock_step_inv [OF inv, where t = t and p = p])
  have only: "{u. holds_tail (kv_pcs s u)} = {t}" using kv_tail_owner [OF inv _ pc(1)] pc(1) by blast
  have own: "spin_owned (kv_tail_l s) {t}" using kv_invD(2) [OF inv] only by (simp add: kv_locks_def)
  from spin.release_owned [OF own] only
  show "kv_locks (kv_goto t p (s\<lparr>kv_tail_l := unlock (kv_tail_l s)\<rparr>))"
    using kv_invD(2) [OF inv] p(1,2) pc(2)
    by (auto simp: kv_locks_def tail_set_upd head_set_upd simp del: fun_upd_apply)
qed (use p in auto)

lemma kv_head_release_inv:
  assumes inv: "kv_inv k0 s" and pc: "holds_head (kv_pcs s t)" "\<not> holds_tail (kv_pcs s t)"
    and p: "\<not> holds_tail p" "\<not> holds_head p" "in_flight p \<Longrightarrow> in_flight (kv_pcs s t)"
      "kv_pc_ok k0 s (kv_own s t) p"
  shows "kv_inv k0 (kv_goto t p (s\<lparr>kv_head_l := unlock (kv_head_l s)\<rparr>))"
proof (rule kv_lock_step_inv [OF inv, where t = t and p = p])
  have only: "{u. holds_head (kv_pcs s u)} = {t}" using kv_head_owner [OF inv _ pc(1)] pc(1) by blast
  have own: "spin_owned (kv_head_l s) {t}" using kv_invD(2) [OF inv] only by (simp add: kv_locks_def)
  from spin.release_owned [OF own] only
  show "kv_locks (kv_goto t p (s\<lparr>kv_head_l := unlock (kv_head_l s)\<rparr>))"
    using kv_invD(2) [OF inv] p(1,2) pc(2)
    by (auto simp: kv_locks_def tail_set_upd head_set_upd simp del: fun_upd_apply)
qed (use p in auto)

section \<open>Steps of the thread that owns a slot\<close>

text \<open>
  The owner of index \<open>j\<close> changes its own slot and, with it, the phase of \<open>j\<close>; no other
  thread's knowledge is affected, because the indices in flight lie in one window.
\<close>

lemma kv_own_slot_inv:
  assumes inv: "kv_inv k0 s" and fl: "in_flight (kv_pcs s t)" and j: "j = kv_own s t"
    and nolock: "\<not> holds_tail (kv_pcs s t)" "\<not> holds_head (kv_pcs s t)" "\<not> holds_tail p" "\<not> holds_head p"
    and slots: "kv_slots s' = (kv_slots s)[j mod kv_N s := x]"
    and phase: "kv_phase s' = (kv_phase s)(j := ph)"
    and move: "kv_phase s j = Producing \<and> (ph = Producing \<or> ph = Committed) \<or>
               kv_phase s j = Consuming \<and> (ph = Consuming \<or> ph = Released)"
    and same: "kv_capacity s' = kv_capacity s" "kv_mask s' = kv_mask s"
      "kv_tail_i s' = kv_tail_i s" "kv_head_i s' = kv_head_i s" "kv_pushed s' = kv_pushed s"
      "kv_popped s' = kv_popped s" "kv_own s' = kv_own s" "kv_tail_l s' = kv_tail_l s" "kv_head_l s' = kv_head_l s"
    and pcs: "kv_pcs s' = (kv_pcs s)(t := p)"
    and slot: "slot_ok s' j" and ok: "kv_pc_ok k0 s' j p"
  shows "kv_inv k0 s'"
proof -
  note bnd = in_flight_bounds [OF inv fl, folded j]
  have N: "kv_N s' = kv_N s" using slots by simp
  have "kv_pc_ok k0 s' (kv_own s' u) (kv_pcs s' u)" for u
  proof (rule kv_others_ok [OF inv pcs, where xs = "[]"])
    show "kv_phase s' (kv_own s u) = kv_phase s (kv_own s u) \<and>
        kv_slots s' ! (kv_own s u mod kv_N s) = kv_slots s ! (kv_own s u mod kv_N s)"
      if "u \<noteq> t" "in_flight (kv_pcs s u)" for u
      using in_flight_other_slot [OF inv fl that(2)] that(1) j phase slots
        kv_invD(6) [OF inv fl that(2)] by auto
  qed (use same N ok j move phase in auto)
  moreover have "u = w" if "in_flight (kv_pcs s' u)" "in_flight (kv_pcs s' w)" "kv_own s' u = kv_own s' w" for u w
    by (rule in_flight_unique_upd [OF inv pcs same(7) fl that])
  moreover have "kv_phases s'"
  proof -
    have "kv_phase s j = Consuming \<or> kv_phase s j = Released \<longleftrightarrow> j < kv_popped s"
      using kv_invD(3) [OF inv] unfolding kv_phases_def by blast
    with move have "(ph = Consuming \<or> ph = Released) = (j < kv_popped s)" and "ph \<noteq> Unclaimed"
      by auto
    then show ?thesis
      using kv_invD(3) [OF inv] same N phase bnd by (auto simp: kv_phases_def)
  qed
  moreover have "kv_slots_ok s'"
    unfolding kv_slots_ok_def
  proof (intro conjI allI impI)
    fix i assume i: "i < kv_T s'" "kv_T s' \<le> i + kv_N s'"
    show "slot_ok s' i"
    proof (cases "i = j")
      case False
      then have ne: "i mod kv_N s \<noteq> j mod kv_N s"
        using i N same(5) bnd window_mod_inj [of i "kv_N s" j "kv_T s"] by auto
      have "slot_ok s i" using kv_invD(4) [OF inv] i N same(5) by (simp add: kv_slots_ok_def)
      with ne False show ?thesis using slots phase same(5) N slot_ok_cong [of s' s i] by simp
    qed (simp add: slot)
  next
    fix q assume q: "q < kv_N s'" "kv_T s' \<le> q"
    have "j mod kv_N s \<noteq> q" using q N same(5) bnd by (metis less_le_trans mod_less_eq_dividend not_less order_trans)
    then show "slot_seq (kv_slots s' ! q) = of_nat q" "slot_value (kv_slots s' ! q) = None"
      using kv_invD(4) [OF inv] q slots N same(5) by (simp_all add: kv_slots_ok_def)
  qed
  moreover have "kv_locks s'"
    using kv_invD(2) [OF inv] nolock same pcs
    by (auto simp: kv_locks_def tail_set_upd head_set_upd simp del: fun_upd_apply)
  moreover have "kv_geom s'" using kv_invD(1) [OF inv] N same by (simp add: kv_geom_def)
  moreover have "\<forall>e\<in>set (kv_pushed s'). fst e \<noteq> k0" using kv_invD(7) [OF inv] same(5) by auto
  ultimately show ?thesis unfolding kv_inv_def by blast
qed

lemma kv_free_slot:
  assumes inv: "kv_inv k0 s" and free: "kv_T s < kv_N s \<or> kv_phase s (kv_T s - kv_N s) = Released"
  shows "slot_seq (kv_slots s ! (kv_T s mod kv_N s)) = of_nat (kv_T s)"
    and "slot_value (kv_slots s ! (kv_T s mod kv_N s)) = None"
proof -
  let ?T = "kv_T s" and ?N = "kv_N s"
  have "slot_seq (kv_slots s ! (?T mod ?N)) = of_nat ?T \<and> slot_value (kv_slots s ! (?T mod ?N)) = None"
  proof (cases "?T < ?N")
    case True
    then show ?thesis using kv_invD(4) [OF inv] by (simp add: kv_slots_ok_def)
  next
    case False
    have N: "0 < ?N" using kv_N_pos [OF kv_invD(1) [OF inv]] by simp
    have "?T - ?N < ?T" "?T \<le> ?T - ?N + ?N" using False N by linarith+
    then have "slot_ok s (?T - ?N)" using kv_invD(4) [OF inv] unfolding kv_slots_ok_def by blast
    moreover have "kv_phase s (?T - ?N) = Released" using free False by simp
    moreover have "(?T - ?N) mod ?N = ?T mod ?N" using False by (simp add: le_mod_geq)
    ultimately show ?thesis using False by (simp add: slot_ok_def Let_def)
  qed
  then show "slot_seq (kv_slots s ! (?T mod ?N)) = of_nat ?T" "slot_value (kv_slots s ! (?T mod ?N)) = None"
    by simp_all
qed

lemma kv_push_claim_inv:
  assumes inv: "kv_inv k0 s" and pc: "kv_pcs s t = Push_claim k v i"
    and ex: "kv_push_step NTRY t (kv_pcs s t) s = Some s'"
  shows "kv_inv k0 s'"
proof -
  let ?T = "kv_T s" and ?N = "kv_N s"
  have ok: "k \<noteq> k0" "i = of_nat ?T" "?T < ?N \<or> kv_phase s (?T - ?N) = Released"
    using kv_invD(5) [OF inv, of t] pc by auto
  have geom: "kv_geom s" by (rule kv_invD(1) [OF inv])
  have N: "0 < ?N" using kv_N_pos [OF geom] by simp
  let ?x = "(kv_slots s ! (?T mod ?N))\<lparr>slot_key := k\<rparr>"
  have slots: "kv_slots s' = (kv_slots s)[?T mod ?N := ?x]"
    and rest: "kv_pcs s' = (kv_pcs s)(t := Push_unlock v i)" "kv_pushed s' = kv_pushed s @ [(k, v)]"
      "kv_popped s' = kv_popped s" "kv_phase s' = (kv_phase s)(?T := Producing)"
      "kv_own s' = (kv_own s)(t := ?T)" "kv_tail_i s' = kv_tail_i s + 1" "kv_head_i s' = kv_head_i s"
      "kv_tail_l s' = kv_tail_l s" "kv_head_l s' = kv_head_l s" "kv_capacity s' = kv_capacity s"
      "kv_mask s' = kv_mask s"
    using ex pc ok(2) geom by (auto simp: kv_slot_of_nat kv_index_of_nat)
  have N': "kv_N s' = ?N" and T': "kv_T s' = Suc ?T" using slots rest by simp_all
  have unc: "kv_phase s ?T = Unclaimed" using kv_invD(3) [OF inv] by (simp add: kv_phases_def)
  note free = kv_free_slot [OF inv ok(3)]
  have newslot: "kv_slots s' ! (?T mod ?N) = ?x" using slots N by simp
  have other: "kv_slots s' ! (j mod ?N) = kv_slots s ! (j mod ?N)" if "j mod ?N \<noteq> ?T mod ?N" for j
    using slots that by simp
  have window: "j mod ?N \<noteq> ?T mod ?N" if "j < ?T" "Suc ?T \<le> j + ?N" for j
    using window_mod_inj [of j ?N ?T "Suc ?T"] that N by auto
  have inflT: "kv_own s u < ?T \<and> Suc ?T \<le> kv_own s u + ?N" if "in_flight (kv_pcs s u)" for u
  proof -
    have b: "kv_own s u < ?T" "?T \<le> kv_own s u + ?N" using in_flight_bounds [OF inv that] by auto
    have "kv_own s u \<noteq> ?T - ?N" if "?N \<le> ?T"
      using ok(3) that in_flight_phase [OF kv_invD(5) [OF inv] \<open>in_flight (kv_pcs s u)\<close>] by auto
    with b show ?thesis by linarith
  qed
  have "kv_pc_ok k0 s' (kv_own s' u) (kv_pcs s' u)" for u
  proof (rule kv_others_ok [OF inv rest(1), where xs = "[(k, v)]"])
    show "kv_phase s' (kv_own s w) = kv_phase s (kv_own s w) \<and>
        kv_slots s' ! (kv_own s w mod ?N) = kv_slots s ! (kv_own s w mod ?N)"
      if "w \<noteq> t" "in_flight (kv_pcs s w)" for w
      using inflT [OF that(2)] window other rest(4) by auto
    show "kv_pc_ok k0 s' (kv_own s' t) (Push_unlock v i)"
      using rest N' newslot free(2) ok(2) by (simp add: nth_append)
    show "kv_popped s' = kv_popped s \<and>
        (kv_phase s (kv_popped s) = Committed \<longrightarrow> kv_phase s' (kv_popped s) = Committed) \<or>
        holds_head (kv_pcs s t)"
      using rest unc by auto
  qed (use rest N' pc unc in auto)
  moreover have "u = w" if "in_flight (kv_pcs s' u)" "in_flight (kv_pcs s' w)" "kv_own s' u = kv_own s' w" for u w
    using that rest inflT [of u] inflT [of w] kv_invD(6) [OF inv, of u w] by (auto split: if_splits)
  moreover have "kv_phases s'"
  proof -
    have pop: "kv_popped s \<le> ?T" by (rule kv_phases_popped_le [OF kv_invD(3) [OF inv]])
    have "kv_phase s j = Released" if "j + ?N < Suc ?T" for j
    proof (cases "j + ?N < ?T")
      case True
      then show ?thesis using kv_invD(3) [OF inv] unfolding kv_phases_def by blast
    next
      case False
      with that have "?T - ?N = j" "\<not> ?T < ?N" by linarith+
      with ok(3) show ?thesis by simp
    qed
    then show ?thesis
      using kv_invD(3) [OF inv] rest N' T' pop by (auto simp: kv_phases_def)
  qed
  moreover have "kv_slots_ok s'"
    unfolding kv_slots_ok_def
  proof (intro conjI allI impI)
    fix j assume j: "j < kv_T s'" "kv_T s' \<le> j + kv_N s'"
    show "slot_ok s' j"
    proof (cases "j = ?T")
      case True
      then show ?thesis using newslot free(1) rest N' by (simp add: slot_ok_def Let_def)
    next
      case False
      with j T' N' have "j < ?T" "Suc ?T \<le> j + ?N" by auto
      moreover from this have "slot_ok s j" using kv_invD(4) [OF inv] by (simp add: kv_slots_ok_def)
      ultimately show ?thesis
        using window other rest N' slot_ok_cong [of s' s j] by (simp add: nth_append)
    qed
  next
    fix q assume q: "q < kv_N s'" "kv_T s' \<le> q"
    then have "?T mod ?N \<noteq> q" using N' T' by auto
    then show "slot_seq (kv_slots s' ! q) = of_nat q" "slot_value (kv_slots s' ! q) = None"
      using kv_invD(4) [OF inv] q slots N' T' by (simp_all add: kv_slots_ok_def)
  qed
  moreover have "kv_locks s'"
  proof -
    have "insert t {u. holds_tail (kv_pcs s u)} = {u. holds_tail (kv_pcs s u)}"
      and "{u. holds_head (kv_pcs s u)} - {t} = {u. holds_head (kv_pcs s u)}" using pc by auto
    with kv_invD(2) [OF inv] rest show ?thesis
      by (simp add: kv_locks_def tail_set_upd head_set_upd del: fun_upd_apply)
  qed
  moreover have "kv_geom s'" using geom N' rest by (simp add: kv_geom_def)
  moreover have "\<forall>e\<in>set (kv_pushed s'). fst e \<noteq> k0" using kv_invD(7) [OF inv] rest(2) ok(1) by auto
  ultimately show ?thesis unfolding kv_inv_def by blast
qed

lemma kv_pop_claim_inv:
  assumes inv: "kv_inv k0 s" and pc: "kv_pcs s t = Pop_claim i"
    and ex: "kv_pop_step k0 t (kv_pcs s t) s = Some s'"
  shows "kv_inv k0 s'"
proof -
  let ?H = "kv_popped s" and ?T = "kv_T s" and ?N = "kv_N s"
  have ok: "i = of_nat ?H" "kv_phase s ?H = Committed"
    using kv_invD(5) [OF inv, of t] pc by auto
  have geom: "kv_geom s" by (rule kv_invD(1) [OF inv])
  have N: "0 < ?N" using kv_N_pos [OF geom] by simp
  have HT: "?H < ?T" using ok(2) kv_invD(3) [OF inv] unfolding kv_phases_def
    by (metis kv_phase.distinct(3) not_le)
  have win: "?T \<le> ?H + ?N" by (rule kv_phases_window [OF kv_invD(3) [OF inv]])
  have sok: "slot_ok s ?H" using kv_invD(4) [OF inv] HT win by (simp add: kv_slots_ok_def)
  let ?x = "(kv_slots s ! (?H mod ?N))\<lparr>slot_key := k0\<rparr>" and ?r = "slot_key (kv_slots s ! (?H mod ?N))"
  have slots: "kv_slots s' = (kv_slots s)[?H mod ?N := ?x]"
    and rest: "kv_pcs s' = (kv_pcs s)(t := Pop_unlock ?r i)" "kv_pushed s' = kv_pushed s"
      "kv_popped s' = Suc ?H" "kv_phase s' = (kv_phase s)(?H := Consuming)"
      "kv_own s' = (kv_own s)(t := ?H)" "kv_tail_i s' = kv_tail_i s" "kv_head_i s' = kv_head_i s + 1"
      "kv_tail_l s' = kv_tail_l s" "kv_head_l s' = kv_head_l s" "kv_capacity s' = kv_capacity s"
      "kv_mask s' = kv_mask s"
    using ex pc ok(1) geom by (auto simp: kv_slot_of_nat kv_index_of_nat)
  have N': "kv_N s' = ?N" using slots by simp
  have newslot: "kv_slots s' ! (?H mod ?N) = ?x" using slots N by simp
  have infl: "kv_own s u \<noteq> ?H \<and> kv_own s u mod ?N \<noteq> ?H mod ?N" if "in_flight (kv_pcs s u)" for u
  proof -
    have "kv_own s u \<noteq> ?H" using in_flight_phase [OF kv_invD(5) [OF inv] that] ok(2) by auto
    with in_flight_bounds [OF inv that] HT win show ?thesis
      using window_mod_inj [of "kv_own s u" ?N ?H ?T] by blast
  qed
  have "kv_pc_ok k0 s' (kv_own s' u) (kv_pcs s' u)" for u
  proof (rule kv_others_ok [OF inv rest(1), where xs = "[]"])
    show "kv_phase s' (kv_own s w) = kv_phase s (kv_own s w) \<and>
        kv_slots s' ! (kv_own s w mod ?N) = kv_slots s ! (kv_own s w mod ?N)"
      if "w \<noteq> t" "in_flight (kv_pcs s w)" for w
      using infl [OF that(2)] slots rest(4) by simp
    show "kv_pc_ok k0 s' (kv_own s' t) (Pop_unlock ?r i)"
      using rest N' newslot ok sok by (simp add: slot_ok_def Let_def)
  qed (use rest N' pc ok in auto)
  moreover have "u = w" if "in_flight (kv_pcs s' u)" "in_flight (kv_pcs s' w)" "kv_own s' u = kv_own s' w" for u w
    using that rest infl [of u] infl [of w] kv_invD(6) [OF inv, of u w] by (auto split: if_splits)
  moreover have "kv_phases s'"
    using kv_invD(3) [OF inv] rest N' HT win ok by (auto simp: kv_phases_def less_Suc_eq)
  moreover have "kv_slots_ok s'"
    unfolding kv_slots_ok_def
  proof (intro conjI allI impI)
    fix j assume j: "j < kv_T s'" "kv_T s' \<le> j + kv_N s'"
    then have j': "j < ?T" "?T \<le> j + ?N" using rest N' by auto
    then have sj: "slot_ok s j" using kv_invD(4) [OF inv] by (simp add: kv_slots_ok_def)
    show "slot_ok s' j"
    proof (cases "j = ?H")
      case True
      then show ?thesis using newslot rest N' sok ok(2) by (simp add: slot_ok_def Let_def)
    next
      case False
      then have "j mod ?N \<noteq> ?H mod ?N" using window_mod_inj [of j ?N ?H ?T] j' HT win by blast
      with False sj show ?thesis using slots rest N' slot_ok_cong [of s' s j] by simp
    qed
  next
    fix q assume q: "q < kv_N s'" "kv_T s' \<le> q"
    then have "?H mod ?N \<noteq> q" using N' rest HT by auto
    then show "slot_seq (kv_slots s' ! q) = of_nat q" "slot_value (kv_slots s' ! q) = None"
      using kv_invD(4) [OF inv] q slots N' rest by (simp_all add: kv_slots_ok_def)
  qed
  moreover have "kv_locks s'"
  proof -
    have "insert t {u. holds_head (kv_pcs s u)} = {u. holds_head (kv_pcs s u)}"
      and "{u. holds_tail (kv_pcs s u)} - {t} = {u. holds_tail (kv_pcs s u)}" using pc by auto
    with kv_invD(2) [OF inv] rest show ?thesis
      by (simp add: kv_locks_def tail_set_upd head_set_upd del: fun_upd_apply)
  qed
  moreover have "kv_geom s'" using geom N' rest by (simp add: kv_geom_def)
  moreover have "\<forall>e\<in>set (kv_pushed s'). fst e \<noteq> k0" using kv_invD(7) [OF inv] rest(2) by auto
  ultimately show ?thesis unfolding kv_inv_def by blast
qed

section \<open>What the sequence number tells\<close>

text \<open>
  The comparisons of \<open>push\<close> and \<open>pop\<close> are exact although the words wrap: the slot of the
  tail index holds that index only when it is free for it, and the slot of the
  head index holds the index plus one only when that index is committed.
\<close>

lemma size_eq_window:
  assumes "of_nat m = (of_nat n :: size_t)" and "m \<le> n + d" and "n \<le> m + d" and "d \<le> 2 ^ 63"
  shows "m = n"
proof -
  have "d < 2 ^ 64" using assms(4) by (rule le_less_trans) simp
  then show ?thesis
    using of_nat_size_inj_window [of m n] of_nat_size_inj_window [of n m] assms(1-3)
    by (cases "m \<le> n") auto
qed

lemma kv_N_bounds: "kv_geom s \<Longrightarrow> 1 < kv_N s \<and> kv_N s \<le> 2 ^ 63"
  using kv_N_pos [of s] power_strict_increasing [of 0 _ "2 :: nat"]
  by (fastforce simp: kv_geom_def simp del: power_numeral)

lemma kv_tail_seq:
  assumes inv: "kv_inv k0 s" and seq: "slot_seq (kv_slots s ! (kv_T s mod kv_N s)) = of_nat (kv_T s)"
  shows "kv_T s < kv_N s \<or> kv_phase s (kv_T s - kv_N s) = Released"
proof (rule disjCI)
  let ?T = "kv_T s" and ?N = "kv_N s"
  assume nr: "kv_phase s (?T - ?N) \<noteq> Released"
  have N: "1 < ?N" "?N \<le> 2 ^ 63" using kv_N_bounds [OF kv_invD(1) [OF inv]] by blast+
  show "?T < ?N"
  proof (rule ccontr)
    assume ge: "\<not> ?T < ?N"
    let ?j = "?T - ?N"
    have j: "?j < ?T" "?T \<le> ?j + ?N" using ge N by linarith+
    then have "slot_ok s ?j" using kv_invD(4) [OF inv] unfolding kv_slots_ok_def by blast
    moreover have "?j mod ?N = ?T mod ?N" using ge by (simp add: le_mod_geq)
    moreover have "kv_phase s ?j \<noteq> Unclaimed" using kv_invD(3) [OF inv] j unfolding kv_phases_def by auto
    ultimately have "of_nat ?T = (of_nat ?j :: size_t) \<or> of_nat ?T = (of_nat (?j + 1) :: size_t)"
      using seq nr by (cases "kv_phase s ?j") (auto simp: slot_ok_def Let_def)
    moreover have "?T \<le> ?j + ?N" "?j \<le> ?T + ?N" "?T \<le> ?j + 1 + ?N" "?j + 1 \<le> ?T + ?N"
      using N(1) j by linarith+
    ultimately have "?T = ?j \<or> ?T = ?j + 1" using size_eq_window [OF _ _ _ N(2)] by blast
    then show False using ge j N(1) by linarith
  qed
qed

lemma kv_head_seq:
  assumes inv: "kv_inv k0 s"
    and seq: "slot_seq (kv_slots s ! (kv_popped s mod kv_N s)) = of_nat (kv_popped s + 1)"
  shows "kv_phase s (kv_popped s) = Committed"
proof -
  let ?H = "kv_popped s" and ?T = "kv_T s" and ?N = "kv_N s"
  have N: "1 < ?N" "?N \<le> 2 ^ 63" using kv_N_bounds [OF kv_invD(1) [OF inv]] by blast+
  have HT: "?H \<le> ?T" "?T \<le> ?H + ?N"
    using kv_phases_popped_le kv_phases_window kv_invD(3) [OF inv] by blast+
  have ph: "kv_phase s ?H \<noteq> Consuming" "kv_phase s ?H \<noteq> Released"
    using kv_invD(3) [OF inv] unfolding kv_phases_def by blast+
  show ?thesis
  proof (cases "?H < ?T")
    case True
    then have "slot_ok s ?H" using kv_invD(4) [OF inv] HT by (simp add: kv_slots_ok_def)
    moreover have "kv_phase s ?H \<noteq> Unclaimed"
      using kv_invD(3) [OF inv] True by (simp add: kv_phases_def)
    moreover have "kv_phase s ?H \<noteq> Producing"
    proof
      assume "kv_phase s ?H = Producing"
      with \<open>slot_ok s ?H\<close> seq have "of_nat ?H = (of_nat (?H + 1) :: size_t)"
        by (simp add: slot_ok_def Let_def)
      then show False using size_eq_window [of ?H "?H + 1" 1] by simp
    qed
    ultimately show ?thesis using ph by (cases "kv_phase s ?H") auto
  next
    case False
    then have eq: "?H = ?T" using HT by simp
    show ?thesis
    proof (cases "?T < ?N")
      case True
      then have "of_nat ?T = (of_nat (?T + 1) :: size_t)"
        using kv_invD(4) [OF inv] seq eq by (simp add: kv_slots_ok_def)
      then show ?thesis using size_eq_window [of ?T "?T + 1" 1] by simp
    next
      case False
      let ?j = "?T - ?N"
      have j: "?j < ?T" "?T \<le> ?j + ?N" using False N by linarith+
      then have "slot_ok s ?j" using kv_invD(4) [OF inv] unfolding kv_slots_ok_def by blast
      moreover have "?j mod ?N = ?T mod ?N" using False by (simp add: le_mod_geq)
      moreover have "kv_phase s ?j = Consuming \<or> kv_phase s ?j = Released"
        using kv_invD(3) [OF inv] j eq unfolding kv_phases_def by auto
      ultimately have "of_nat (?T + 1) = (of_nat (?j + 1) :: size_t) \<or> of_nat (?T + 1) = (of_nat (?j + ?N) :: size_t)"
        using seq eq by (auto simp: slot_ok_def Let_def)
      moreover have "?T + 1 \<le> ?j + 1 + ?N" "?j + 1 \<le> ?T + 1 + ?N"
          "?T + 1 \<le> ?j + ?N + ?N" "?j + ?N \<le> ?T + 1 + ?N"
        using N(1) j by linarith+
      ultimately have "?T + 1 = ?j + 1 \<or> ?T + 1 = ?j + ?N" using size_eq_window [OF _ _ _ N(2)] by blast
      with N(1) j False show ?thesis by linarith
    qed
  qed
qed

section \<open>Every step keeps the invariant\<close>

lemma kv_own_slot_ok:
  assumes "kv_inv k0 s" and "in_flight (kv_pcs s t)"
  shows "slot_ok s (kv_own s t)"
  using in_flight_bounds [OF assms] kv_invD(4) [OF assms(1)] by (simp add: kv_slots_ok_def)

lemma kv_capacity_N: "kv_geom s \<Longrightarrow> kv_capacity s = of_nat (kv_N s)"
  by (auto simp: kv_geom_def)

lemma kv_push_step_inv:
  assumes inv: "kv_inv k0 s" and ex: "kv_push_step NTRY t (kv_pcs s t) s = Some s'"
  shows "kv_inv k0 s'"
proof -
  note ok = kv_invD(5) [OF inv, of t] and geom = kv_invD(1) [OF inv]
  let ?j = "kv_own s t"
  have N: "0 < kv_N s" using kv_N_pos [OF geom] by simp
  have tail: "kv_tail_i s = of_nat (kv_T s)" using kv_invD(3) [OF inv] by (simp add: kv_phases_def)
  show ?thesis
  proof (cases "kv_pcs s t")
    case (Push_lock k v)
    show ?thesis
    proof (cases "ttas (kv_tail_l s)")
      case (Pair b l)
      with inv ex ok Push_lock tail show ?thesis
        by (cases b) (auto split: if_splits intro!: kv_tail_acquire_inv)
    qed
  next
    case (Push_try k v i n)
    with ex ok kv_tail_seq [OF inv] geom show ?thesis
      by (auto split: if_splits simp: kv_slot_of_nat intro!: kv_pc_step_inv [OF inv])
  next
    case (Push_claim k v i)
    then show ?thesis using kv_push_claim_inv [OF inv _ ex] by blast
  next
    case (Push_unlock v i)
    with ex ok show ?thesis by (auto intro!: kv_tail_release_inv [OF inv])
  next
    case Push_full
    with ex ok show ?thesis by (auto intro!: kv_tail_release_inv [OF inv])
  next
    case (Push_construct v i)
    let ?x = "(kv_slots s ! (?j mod kv_N s))\<lparr>slot_value := Some v\<rparr>"
    show ?thesis
    proof (rule kv_own_slot_inv [OF inv, where t = t and j = ?j and x = ?x and ph = Producing and p = "Push_commit i"])
      show "slot_ok s' ?j"
        using kv_own_slot_ok [OF inv, of t] Push_construct ex ok geom N
        by (auto simp: slot_ok_def Let_def kv_slot_of_nat kv_index_of_nat split: if_splits)
    qed (use Push_construct ex ok geom N in \<open>auto simp: kv_slot_of_nat kv_index_of_nat split: if_splits\<close>)
  next
    case (Push_commit i)
    let ?x = "(kv_slots s ! (?j mod kv_N s))\<lparr>slot_seq := i + 1\<rparr>"
    show ?thesis
    proof (rule kv_own_slot_inv [OF inv, where t = t and j = ?j and x = ?x and ph = Committed and p = "Push_done True"])
      show "slot_ok s' ?j"
        using kv_own_slot_ok [OF inv, of t] Push_commit ex ok geom N
        by (auto simp: slot_ok_def Let_def kv_slot_of_nat kv_index_of_nat)
    qed (use Push_commit ex ok geom N in \<open>auto simp: kv_slot_of_nat kv_index_of_nat\<close>)
  qed (use ex in auto)
qed

lemma kv_pop_step_inv:
  assumes inv: "kv_inv k0 s" and ex: "kv_pop_step k0 t (kv_pcs s t) s = Some s'"
  shows "kv_inv k0 s'"
proof -
  note ok = kv_invD(5) [OF inv, of t] and geom = kv_invD(1) [OF inv]
  let ?j = "kv_own s t"
  have N: "0 < kv_N s" using kv_N_pos [OF geom] by simp
  have head: "kv_head_i s = of_nat (kv_popped s)" using kv_invD(3) [OF inv] by (simp add: kv_phases_def)
  show ?thesis
  proof (cases "kv_pcs s t")
    case Pop_lock
    show ?thesis
    proof (cases "ttas (kv_head_l s)")
      case (Pair b l)
      with inv ex ok Pop_lock head show ?thesis
        by (cases b) (auto intro!: kv_head_acquire_inv)
    qed
  next
    case Empty_lock
    show ?thesis
    proof (cases "ttas (kv_head_l s)")
      case (Pair b l)
      with inv ex ok Empty_lock head show ?thesis
        by (cases b) (auto intro!: kv_head_acquire_inv)
    qed
  next
    case (Pop_load i)
    with ex ok kv_head_seq [OF inv] geom show ?thesis
      by (auto split: if_splits simp: kv_slot_of_nat add.commute intro!: kv_pc_step_inv [OF inv])
  next
    case (Pop_claim i)
    then show ?thesis using kv_pop_claim_inv [OF inv _ ex] by blast
  next
    case (Pop_unlock r i)
    with ex ok show ?thesis by (auto intro!: kv_head_release_inv [OF inv])
  next
    case Pop_none
    with ex ok show ?thesis by (auto intro!: kv_head_release_inv [OF inv])
  next
    case (Empty_load i)
    with ex ok show ?thesis by (auto intro!: kv_pc_step_inv [OF inv])
  next
    case (Empty_unlock b)
    with ex ok show ?thesis by (auto intro!: kv_head_release_inv [OF inv])
  next
    case (Pop_move r i)
    let ?v = "snd (kv_pushed s ! ?j)" and ?x = "(kv_slots s ! (?j mod kv_N s))\<lparr>slot_value := None\<rparr>"
    show ?thesis
    proof (rule kv_own_slot_inv [OF inv, where t = t and j = ?j and x = ?x and ph = Consuming and p = "Pop_release r ?v i"])
      show "slot_ok s' ?j"
        using kv_own_slot_ok [OF inv, of t] Pop_move ex ok geom N
        by (auto simp: slot_ok_def Let_def kv_slot_of_nat kv_index_of_nat split: option.splits)
    qed (use Pop_move ex ok geom N in \<open>auto simp: kv_slot_of_nat kv_index_of_nat split: option.splits\<close>)
  next
    case (Pop_release r v i)
    let ?x = "(kv_slots s ! (?j mod kv_N s))\<lparr>slot_seq := i + kv_capacity s\<rparr>"
    have bnd: "?j < kv_T s" using in_flight_bounds [OF inv, of t] Pop_release by simp
    have con: "?j < kv_popped s" using kv_invD(3) [OF inv] ok Pop_release unfolding kv_phases_def by auto
    show ?thesis
    proof (rule kv_own_slot_inv [OF inv, where t = t and j = ?j and x = ?x and ph = Released and p = "Pop_done r (Some v)"])
      show "slot_ok s' ?j"
        using kv_own_slot_ok [OF inv, of t] Pop_release ex ok geom N kv_capacity_N [OF geom]
        by (auto simp: slot_ok_def Let_def kv_slot_of_nat kv_index_of_nat)
    qed (use Pop_release ex ok geom N bnd con in \<open>auto simp: kv_slot_of_nat kv_index_of_nat\<close>)
  qed (use ex in auto)
qed

lemma kv_at_rest_pc: "kv_at_rest p \<Longrightarrow> \<not> holds_tail p \<and> \<not> holds_head p \<and> \<not> in_flight p"
  by (cases p) auto

lemma kv_exec_inv:
  assumes inv: "kv_inv k0 s" and ex: "kv_exec NTRY k0 s a = Some s'"
  shows "kv_inv k0 s'"
proof (cases a)
  case (Kv_step t)
  with ex kv_push_step_inv [OF inv] kv_pop_step_inv [OF inv] show ?thesis
    by (auto split: option.splits)
qed (use ex kv_at_rest_pc in \<open>auto split: if_splits intro!: kv_pc_step_inv [OF inv]\<close>)

interpretation kvq: machine_invariant "kv_exec NTRY k0" "kv_inv k0" for NTRY k0
  by unfold_locales (rule kv_exec_inv)

end
