(* ===== verification/Fifo_Spec.thy ===== *)
theory Fifo_Spec
  imports Conc_Prelude
begin

text \<open>
  What a bounded FIFO queue promises, independently of its implementation: \<open>fifo_exec\<close> is the atomic
  queue that the concurrent queues refine, and the locale \<open>bounded_fifo\<close> is the contract of a queue
  used by one thread at a time, with what a client of it can rely on.
\<close>

section \<open>The atomic queue\<close>

text \<open>
  A list of elements, and the element each thread took last (cleared when the
  thread starts another call).
\<close>

datatype 'e fifo_action = Enq 'e | Deq tid | Fresh tid

fun fifo_exec :: "nat \<Rightarrow> 'e list \<times> (tid \<Rightarrow> 'e option) \<Rightarrow> 'e fifo_action \<Rightarrow> ('e list \<times> (tid \<Rightarrow> 'e option)) option" where
  "fifo_exec cap (q, r) (Enq e) = (if length q < cap then Some (q @ [e], r) else None)"
| "fifo_exec cap ([], r) (Deq t) = None"
| "fifo_exec cap (e # q, r) (Deq t) = Some (q, r(t := Some e))"
| "fifo_exec cap (q, r) (Fresh t) = Some (q, r(t := None))"

section \<open>The sequential contract\<close>

text \<open>Offering a list of elements, counting those accepted, and taking up to \<open>n\<close> elements.\<close>

fun enq_list :: "('q \<Rightarrow> 'e \<Rightarrow> (bool \<times> 'q) option) \<Rightarrow> 'q \<Rightarrow> 'e list \<Rightarrow> (nat \<times> 'q) option" where
  "enq_list enq q [] = Some (0, q)"
| "enq_list enq q (e # es) =
     (case enq q e of
        Some (True, q') \<Rightarrow> map_option (\<lambda>(n, r). (Suc n, r)) (enq_list enq q' es)
      | Some (False, q') \<Rightarrow> enq_list enq q' es
      | None \<Rightarrow> None)"

fun deq_list :: "('q \<Rightarrow> ('e option \<times> 'q) option) \<Rightarrow> nat \<Rightarrow> 'q \<Rightarrow> ('e list \<times> 'q) option" where
  "deq_list deq 0 q = Some ([], q)"
| "deq_list deq (Suc n) q =
     (case deq q of
        Some (Some e, q') \<Rightarrow> map_option (\<lambda>(es, r). (e # es, r)) (deq_list deq n q')
      | Some (None, q') \<Rightarrow> deq_list deq n q'
      | None \<Rightarrow> None)"

locale bounded_fifo =
  fixes enq :: "'q \<Rightarrow> 'e \<Rightarrow> (bool \<times> 'q) option"
    and deq :: "'q \<Rightarrow> ('e option \<times> 'q) option"
    and abs :: "'q \<Rightarrow> 'e list"
    and inv :: "'q \<Rightarrow> bool"
    and cap :: "'q \<Rightarrow> nat"
    and elem :: "'e \<Rightarrow> bool"
  assumes enq_room: "inv q \<Longrightarrow> elem e \<Longrightarrow> length (abs q) < cap q \<Longrightarrow>
      \<exists>q'. enq q e = Some (True, q') \<and> inv q' \<and> abs q' = abs q @ [e] \<and> cap q' = cap q"
    and enq_full: "inv q \<Longrightarrow> elem e \<Longrightarrow> length (abs q) = cap q \<Longrightarrow>
      \<exists>q'. enq q e = Some (False, q') \<and> inv q' \<and> abs q' = abs q \<and> cap q' = cap q"
    and deq_some: "inv q \<Longrightarrow> abs q = e # es \<Longrightarrow>
      \<exists>q'. deq q = Some (Some e, q') \<and> inv q' \<and> abs q' = es \<and> cap q' = cap q"
    and deq_none: "inv q \<Longrightarrow> abs q = [] \<Longrightarrow>
      \<exists>q'. deq q = Some (None, q') \<and> inv q' \<and> abs q' = [] \<and> cap q' = cap q"
    and abs_cap: "inv q \<Longrightarrow> length (abs q) \<le> cap q"
begin

lemma enq_list_accepts:
  "inv q \<Longrightarrow> \<forall>e\<in>set es. elem e \<Longrightarrow>
     \<exists>q'. enq_list enq q es = Some (min (length es) (cap q - length (abs q)), q') \<and> inv q' \<and>
          abs q' = abs q @ take (cap q - length (abs q)) es \<and> cap q' = cap q"
proof (induction es arbitrary: q)
  case Nil
  then show ?case by simp
next
  case (Cons e es)
  show ?case
  proof (cases "length (abs q) < cap q")
    case True
    then obtain q' where q': "enq q e = Some (True, q')" "inv q'" "abs q' = abs q @ [e]" "cap q' = cap q"
      using enq_room Cons.prems by fastforce
    have m: "cap q - length (abs q) = Suc (cap q' - length (abs q'))" using True q' by simp
    obtain q'' where "enq_list enq q' es = Some (min (length es) (cap q' - length (abs q')), q'')" "inv q''"
        "abs q'' = abs q' @ take (cap q' - length (abs q')) es" "cap q'' = cap q'"
      using Cons.IH [OF q'(2)] Cons.prems(2) by auto
    then show ?thesis using q' unfolding m by simp
  next
    case False
    then have "length (abs q) = cap q" using abs_cap [OF Cons.prems(1)] by simp
    then obtain q' where "enq q e = Some (False, q')" "inv q'" "abs q' = abs q" "cap q' = cap q"
      using enq_full Cons.prems by fastforce
    then show ?thesis using Cons.IH [of q'] Cons.prems False by fastforce
  qed
qed

lemma deq_list_takes:
  "inv q \<Longrightarrow> \<exists>q'. deq_list deq n q = Some (take n (abs q), q') \<and> inv q' \<and> abs q' = drop n (abs q) \<and> cap q' = cap q"
proof (induction n arbitrary: q)
  case 0
  then show ?case by simp
next
  case (Suc n)
  show ?case
  proof (cases "abs q")
    case Nil
    then obtain q' where "deq q = Some (None, q')" "inv q'" "abs q' = []" "cap q' = cap q"
      using deq_none Suc.prems by blast
    then show ?thesis using Suc.IH [of q'] Nil by fastforce
  next
    case (Cons e es)
    then obtain q' where "deq q = Some (Some e, q')" "inv q'" "abs q' = es" "cap q' = cap q"
      using deq_some Suc.prems by blast
    then show ?thesis using Suc.IH [of q'] Cons by fastforce
  qed
qed

lemma fill_drain:
  assumes "inv q" and "abs q = []" and "\<forall>e\<in>set es. elem e"
  shows "\<exists>q' q''. enq_list enq q es = Some (min (length es) (cap q), q') \<and>
           deq_list deq (length es) q' = Some (take (cap q) es, q'') \<and> inv q'' \<and> abs q'' = []"
proof -
  obtain q' where q': "enq_list enq q es = Some (min (length es) (cap q), q')" "inv q'"
      "abs q' = take (cap q) es"
    using enq_list_accepts [OF assms(1,3)] assms(2) by auto
  have "take (length es) (abs q') = take (cap q) es" "drop (length es) (abs q') = []"
    using q'(3) by (simp_all add: min_def)
  with q' deq_list_takes [OF q'(2), of "length es"] show ?thesis by fastforce
qed

end

end
