(* ===== verification/Ring_Queue_Spec.thy ===== *)
theory Ring_Queue_Spec
  imports Ring_Queue Fifo_Spec
begin

text \<open>
  What the key-value ring queue promises, from the slot protocol of \<open>Ring_Queue\<close>: every
  interleaving of \<open>push\<close>, \<open>pop\<close> and \<open>empty\<close> is an interleaving of an atomic FIFO queue of at most
  \<open>capacity()\<close> elements, no step touches a value that is not alive or overwrites one that is,
  and a full or empty answer is justified by the state of the ring.
\<close>

section \<open>Construction\<close>

lemma kv_construct_inv:
  assumes "kv_construct k0 sz bytes = Inr s"
  shows "kv_inv k0 s"
proof -
  let ?w = "bytes div sz"
  have big: "8 \<le> bit_floor ?w"
    using assms by (auto simp: kv_construct_def Let_def not_less split: if_splits)
  then have "?w \<noteq> 0" by (auto simp: bit_floor_def)
  then obtain c where c: "bit_floor ?w = 2 ^ c" "c < 64"
    by (rule bit_floor_bounds)
  have "(2 :: nat) ^ 3 \<le> 2 ^ c"
    using big c by (simp add: word_le_nat_alt unat_pow2)
  then have c3: "3 \<le> c" by (rule power_le_imp_le_exp [rotated]) simp
  have cap: "unat (bit_floor ?w) = 2 ^ c" using c by (simp add: unat_pow2)
  have s: "kv_slots s = map (\<lambda>p. \<lparr>slot_seq = of_nat p, slot_key = k0, slot_value = None\<rparr>) [0..<2 ^ c]"
      "kv_capacity s = 2 ^ c" "kv_mask s = 2 ^ c - 1" "kv_tail_l s = 0" "kv_tail_i s = 0" "kv_head_l s = 0"
      "kv_head_i s = 0" "kv_pcs s = (\<lambda>_. Kv_idle)" "kv_pushed s = []" "kv_popped s = 0"
      "kv_phase s = (\<lambda>_. Unclaimed)"
    using assms big by (auto simp: kv_construct_def Let_def cap c unat_pow2 split: if_splits)
  have "kv_geom s" using c(2) c3 s unfolding kv_geom_def by (intro exI [of _ c]) (simp add: mask_eq_exp_minus_1)
  moreover have "kv_locks s" using s by (simp add: kv_locks_def spin_owned_def)
  moreover have "kv_phases s" using s by (simp add: kv_phases_def)
  moreover have "kv_slots_ok s" using s by (simp add: kv_slots_ok_def)
  ultimately show ?thesis using s by (simp add: kv_inv_def)
qed

section \<open>The queue as an atomic FIFO\<close>

fun kv_result :: "('k \<times> 'v) list \<Rightarrow> nat \<Rightarrow> ('k, 'v) kv_pc \<Rightarrow> ('k \<times> 'v) option" where
  "kv_result xs j (Pop_unlock r i) = Some (xs ! j)"
| "kv_result xs j (Pop_move r i) = Some (xs ! j)"
| "kv_result xs j (Pop_release r v i) = Some (xs ! j)"
| "kv_result xs j (Pop_done r (Some v)) = Some (r, v)"
| "kv_result xs j _ = None"

definition kv_queue :: "('k, 'v) kvq \<Rightarrow> ('k \<times> 'v) list" where
  "kv_queue s = drop (kv_popped s) (kv_pushed s)"

definition kv_abs :: "('k, 'v) kvq \<Rightarrow> ('k \<times> 'v) list \<times> (tid \<Rightarrow> ('k \<times> 'v) option)" where
  "kv_abs s = (kv_queue s, \<lambda>t. kv_result (kv_pushed s) (kv_own s t) (kv_pcs s t))"

fun kv_lin :: "('k, 'v) kvq \<Rightarrow> ('k, 'v) kv_action \<Rightarrow> ('k \<times> 'v) fifo_action option" where
  "kv_lin s (Kv_step t) =
     (case kv_pcs s t of Push_claim k v i \<Rightarrow> Some (Enq (k, v)) | Pop_claim i \<Rightarrow> Some (Deq t) | _ \<Rightarrow> None)"
| "kv_lin s (Call_push t k v) = Some (Fresh t)"
| "kv_lin s (Call_pop t) = Some (Fresh t)"
| "kv_lin s (Call_empty t) = Some (Fresh t)"

lemma kv_result_frame:
  "kv_pc_ok k0 s j p \<Longrightarrow> (in_flight p \<Longrightarrow> j < kv_T s) \<Longrightarrow> kv_result (kv_pushed s @ ys) j p = kv_result (kv_pushed s) j p"
  by (cases p) (auto simp: nth_append split: option.splits)

lemma kv_queue_bound: "kv_inv k0 s \<Longrightarrow> length (kv_queue s) \<le> kv_N s"
  using kv_phases_window [of s] by (auto simp: kv_queue_def dest: kv_invD(3))

lemma kv_push_room:
  assumes inv: "kv_inv k0 s" and "kv_T s < kv_N s \<or> kv_phase s (kv_T s - kv_N s) = Released"
  shows "length (kv_queue s) < kv_N s"
proof (cases "kv_T s < kv_N s")
  case True
  then show ?thesis by (simp add: kv_queue_def)
next
  case False
  with assms(2) have "kv_phase s (kv_T s - kv_N s) = Released" by simp
  with kv_invD(3) [OF inv] have "kv_T s - kv_N s < kv_popped s" unfolding kv_phases_def by blast
  moreover have "0 < kv_N s" using kv_N_pos [OF kv_invD(1) [OF inv]] by simp
  ultimately show ?thesis using False by (simp only: kv_queue_def length_drop)
qed

lemma kv_step_cases:
  assumes "kv_exec NTRY k0 s (Kv_step t) = Some s'"
  shows "kv_push_step NTRY t (kv_pcs s t) s = Some s' \<or> kv_pop_step k0 t (kv_pcs s t) s = Some s'"
  using assms by (auto split: option.splits)

lemma kv_step_N:
  assumes "kv_exec NTRY k0 s a = Some s'"
  shows "kv_N s' = kv_N s"
proof (cases a)
  case (Kv_step t)
  with kv_step_cases [of NTRY k0 s t s'] assms show ?thesis
    by (cases "kv_pcs s t") (auto split: prod.splits bool.splits if_splits option.splits)
qed (use assms in \<open>auto split: if_splits\<close>)

lemma kv_stutter:
  assumes inv: "kv_inv k0 s" and ex: "kv_exec NTRY k0 s a = Some s'" and lin: "kv_lin s a = None"
  shows "kv_abs s' = kv_abs s"
proof (cases a)
  case (Kv_step t)
  have st: "kv_push_step NTRY t (kv_pcs s t) s = Some s' \<or> kv_pop_step k0 t (kv_pcs s t) s = Some s'"
    using kv_step_cases [of NTRY k0 s t s'] ex Kv_step by simp
  then have "kv_pushed s' = kv_pushed s \<and> kv_popped s' = kv_popped s \<and> kv_own s' = kv_own s \<and>
      (\<forall>u. u \<noteq> t \<longrightarrow> kv_pcs s' u = kv_pcs s u) \<and>
      kv_result (kv_pushed s) (kv_own s t) (kv_pcs s' t) = kv_result (kv_pushed s) (kv_own s t) (kv_pcs s t)"
    using lin Kv_step kv_invD(5) [OF inv, of t]
    by (cases "kv_pcs s t") (auto split: prod.splits bool.splits if_splits option.splits)
  then show ?thesis by (auto simp: kv_abs_def kv_queue_def intro!: ext)
qed (use lin in auto)

lemma kv_linearize:
  assumes inv: "kv_inv k0 s" and ex: "kv_exec NTRY k0 s a = Some s'" and lin: "kv_lin s a = Some b"
  shows "fifo_exec (kv_N s) (kv_abs s) b = Some (kv_abs s')"
proof (cases a)
  case (Kv_step t)
  have st: "kv_push_step NTRY t (kv_pcs s t) s = Some s' \<or> kv_pop_step k0 t (kv_pcs s t) s = Some s'"
    using kv_step_cases [of NTRY k0 s t s'] ex Kv_step by simp
  note ok = kv_invD(5) [OF inv, of t]
  show ?thesis
  proof (cases "kv_pcs s t")
    case (Push_claim k v i)
    then have "length (kv_queue s) < kv_N s" using ok kv_push_room [OF inv] by auto
    moreover have "kv_queue s' = kv_queue s @ [(k, v)]"
      using st Push_claim kv_phases_popped_le [OF kv_invD(3) [OF inv]] by (auto simp: kv_queue_def)
    moreover have "kv_result (kv_pushed s') (kv_own s' u) (kv_pcs s' u) =
        kv_result (kv_pushed s) (kv_own s u) (kv_pcs s u)" for u
      using st Push_claim kv_result_frame [OF kv_invD(5) [OF inv, of u]] in_flight_bounds [OF inv, of u] by auto
    ultimately show ?thesis using lin Kv_step Push_claim by (auto simp: kv_abs_def)
  next
    case (Pop_claim i)
    let ?H = "kv_popped s"
    have "?H < kv_T s"
      using ok Pop_claim kv_invD(3) [OF inv] unfolding kv_phases_def
      by (metis kv_pc_ok.simps(8) kv_phase.distinct(3) not_le)
    then have q: "kv_queue s = (kv_pushed s ! ?H) # drop (Suc ?H) (kv_pushed s)"
      by (simp add: kv_queue_def Cons_nth_drop_Suc)
    have "kv_queue s' = drop (Suc ?H) (kv_pushed s)"
      using st Pop_claim by (auto simp: kv_queue_def)
    moreover have "kv_result (kv_pushed s') (kv_own s' u) (kv_pcs s' u) =
        ((\<lambda>u. kv_result (kv_pushed s) (kv_own s u) (kv_pcs s u))(t := Some (kv_pushed s ! ?H))) u" for u
      using st Pop_claim by auto
    ultimately show ?thesis using lin Kv_step Pop_claim q by (auto simp: kv_abs_def fun_eq_iff)
  qed (use lin Kv_step in auto)
qed (use ex lin in \<open>auto simp: kv_abs_def kv_queue_def fun_eq_iff split: if_splits\<close>)

lemma kv_run_N: "run (kv_exec NTRY k0) s as = Some s' \<Longrightarrow> kv_N s' = kv_N s"
  by (induction as arbitrary: s) (auto split: option.splits dest: kv_step_N)

interpretation kvr: machine_refinement "kv_exec NTRY k0" "\<lambda>s. kv_inv k0 s \<and> kv_N s = N"
    "fifo_exec N" kv_abs kv_lin for NTRY k0 N
proof unfold_locales
qed (auto dest: kv_exec_inv kv_step_N kv_stutter kv_linearize)

lemma kv_abs_construct:
  "kv_construct k0 sz bytes = Inr s \<Longrightarrow> kv_abs s = ([], \<lambda>_. None) \<and> kv_N s = unat (kv_capacity s)"
  by (auto simp: kv_construct_def Let_def kv_abs_def kv_queue_def split: if_splits)

section \<open>Indices in flight have an owner\<close>

definition kv_attended :: "('k, 'v) kvq \<Rightarrow> bool" where
  "kv_attended s \<longleftrightarrow> (\<forall>j. kv_phase s j = Producing \<or> kv_phase s j = Consuming \<longrightarrow>
     (\<exists>u. in_flight (kv_pcs s u) \<and> kv_own s u = j))"

lemma kv_attended_same:
  assumes "kv_attended s" and "kv_phase s' = kv_phase s" and "kv_own s' = kv_own s"
    and "\<And>u. in_flight (kv_pcs s' u) = in_flight (kv_pcs s u)"
  shows "kv_attended s'"
  using assms by (simp add: kv_attended_def)

lemma kv_attended_claim:
  assumes "kv_attended s" and "\<not> in_flight (kv_pcs s t)" and "in_flight (kv_pcs s' t)"
    and "kv_phase s' = (kv_phase s)(j := ph)" and "kv_own s' = (kv_own s)(t := j)"
    and "\<And>u. u \<noteq> t \<Longrightarrow> kv_pcs s' u = kv_pcs s u"
  shows "kv_attended s'"
  unfolding kv_attended_def
proof (intro allI impI)
  fix i assume i: "kv_phase s' i = Producing \<or> kv_phase s' i = Consuming"
  show "\<exists>u. in_flight (kv_pcs s' u) \<and> kv_own s' u = i"
  proof (cases "i = j")
    case True
    with assms(3,5) show ?thesis by (intro exI [of _ t]) simp
  next
    case False
    with i assms(1,4) obtain u where u: "in_flight (kv_pcs s u)" "kv_own s u = i"
      unfolding kv_attended_def by (auto split: if_splits)
    with assms(2) have "u \<noteq> t" by auto
    with u assms(5,6) show ?thesis by (intro exI [of _ u]) simp
  qed
qed

lemma kv_attended_finish:
  assumes "kv_attended s" and "ph \<noteq> Producing" "ph \<noteq> Consuming"
    and "kv_phase s' = (kv_phase s)(kv_own s t := ph)" and "kv_own s' = kv_own s"
    and "\<And>u. u \<noteq> t \<Longrightarrow> kv_pcs s' u = kv_pcs s u"
  shows "kv_attended s'"
  unfolding kv_attended_def
proof (intro allI impI)
  fix i assume i: "kv_phase s' i = Producing \<or> kv_phase s' i = Consuming"
  with assms(2-4) have ne: "i \<noteq> kv_own s t" by auto
  with i assms(1,4) obtain u where u: "in_flight (kv_pcs s u)" "kv_own s u = i"
    unfolding kv_attended_def by (auto split: if_splits)
  with ne have "u \<noteq> t" by auto
  with u assms(5,6) show "\<exists>u. in_flight (kv_pcs s' u) \<and> kv_own s' u = i" by (intro exI [of _ u]) simp
qed

lemma kv_attended_exec:
  assumes att: "kv_attended s" and ex: "kv_exec NTRY k0 s a = Some s'"
  shows "kv_attended s'"
proof (cases a)
  case (Kv_step t)
  have st: "kv_push_step NTRY t (kv_pcs s t) s = Some s' \<or> kv_pop_step k0 t (kv_pcs s t) s = Some s'"
    using kv_step_cases [of NTRY k0 s t s'] ex Kv_step by simp
  show ?thesis
  proof (cases "kv_pcs s t")
    case (Push_claim k v i)
    with st show ?thesis by (auto intro!: kv_attended_claim [OF att, of t])
  next
    case (Pop_claim i)
    with st show ?thesis by (auto intro!: kv_attended_claim [OF att, of t])
  next
    case (Push_commit i)
    with st show ?thesis by (auto intro!: kv_attended_finish [OF att, of Committed])
  next
    case (Pop_release r v i)
    with st show ?thesis by (auto intro!: kv_attended_finish [OF att, of Released])
  qed (use st in \<open>auto split: prod.splits bool.splits if_splits option.splits
         intro!: kv_attended_same [OF att] att\<close>)
qed (use ex in \<open>auto split: if_splits dest: kv_at_rest_pc intro!: kv_attended_same [OF att]\<close>)

interpretation kva: machine_invariant "kv_exec NTRY k0" "\<lambda>s. kv_inv k0 s \<and> kv_attended s" for NTRY k0
  by unfold_locales (auto intro: kv_exec_inv kv_attended_exec)

lemma kv_reachable:
  assumes "kv_construct k0 sz bytes = Inr s0" and "run (kv_exec NTRY k0) s0 as = Some s"
  shows "kv_inv k0 s" and "kv_attended s"
proof -
  have "kv_attended s0"
    using assms(1) by (auto simp: kv_construct_def Let_def kv_attended_def split: if_splits)
  with kv_construct_inv [OF assms(1)] kva.run_Inv [OF _ assms(2)]
  show "kv_inv k0 s" "kv_attended s" by blast+
qed

lemma kv_quiet_phase:
  assumes inv: "kv_inv k0 s" and "kv_attended s" and "\<And>u. \<not> in_flight (kv_pcs s u)"
    and "kv_popped s \<le> j" "j < kv_T s"
  shows "kv_phase s j = Committed"
proof -
  have "kv_phase s j \<noteq> Unclaimed" "kv_phase s j \<noteq> Released"
    using kv_invD(3) [OF inv] assms(4,5) unfolding kv_phases_def by (metis not_le)+
  moreover have "kv_phase s j \<noteq> Producing" "kv_phase s j \<noteq> Consuming"
    using assms(2,3) unfolding kv_attended_def by blast+
  ultimately show ?thesis by (cases "kv_phase s j") auto
qed

section \<open>The contract\<close>

text \<open>
  C8.  Linearizability of the key-value queue: every interleaving of \<open>push\<close>, \<open>pop\<close> and \<open>empty\<close> by
  any number of threads is a run of an atomic FIFO of \<open>capacity()\<close> elements, in
  which an element enters when its index is claimed under the tail lock, leaves when it is
  claimed under the head lock, and a \<open>pop\<close> that returned \<open>(r, v)\<close> returned
  exactly the element the atomic queue gave its thread; the indices may wrap.
\<close>

theorem kv_queue_linearizable:
  assumes "kv_construct k0 sz bytes = Inr s0" and "run (kv_exec NTRY k0) s0 as = Some s"
  shows "run (fifo_exec (unat (kv_capacity s0))) ([], \<lambda>_. None) (lin_trace (kv_exec NTRY k0) kv_lin s0 as)
           = Some (kv_abs s) \<and>
         (kv_pcs s t = Pop_done r (Some v) \<longrightarrow> snd (kv_abs s) t = Some (r, v) \<and> r \<noteq> k0)"
proof -
  note inv = kv_construct_inv [OF assms(1)]
  note inv' = kvq.run_Inv [OF inv assms(2)]
  have "snd (kv_abs s) t = Some (r, v) \<and> r \<noteq> k0" if "kv_pcs s t = Pop_done r (Some v)"
    using that kv_invD(5) [OF inv', of t] kv_invD(7) [OF inv', of "(r, v)"]
    by (auto simp: kv_abs_def in_set_conv_nth)
  then show ?thesis
    using kvr.run_abs [of k0 s0 "kv_N s0" NTRY as s] inv assms(2) kv_abs_construct [OF assms(1)] by simp
qed

text \<open>Two producers interleaved and a consumer, on a ring of eight slots.\<close>

definition kv_demo0 :: "(nat, nat) kvq" where
  "kv_demo0 = \<lparr>kv_slots = map (\<lambda>p. \<lparr>slot_seq = of_nat p, slot_key = 0, slot_value = None\<rparr>) [0..<8],
     kv_capacity = 8, kv_mask = 7, kv_tail_l = 0, kv_tail_i = 0, kv_head_l = 0, kv_head_i = 0,
     kv_pcs = (\<lambda>_. Kv_idle), kv_pushed = [], kv_popped = 0, kv_phase = (\<lambda>_. Unclaimed), kv_own = (\<lambda>_. 0)\<rparr>"

definition kv_demo :: "(nat, nat) kv_action list" where
  "kv_demo = [Call_push 1 5 50, Call_push 2 6 60, Kv_step 1, Kv_step 2, Kv_step 1, Kv_step 1, Kv_step 1,
     Kv_step 2, Kv_step 2, Kv_step 2, Kv_step 2, Kv_step 2, Kv_step 2]"

definition kv_demo_pop :: "(nat, nat) kv_action list" where
  "kv_demo_pop = kv_demo @ [Kv_step 1, Kv_step 1, Call_pop 3, Kv_step 3, Kv_step 3, Kv_step 3, Kv_step 3, Kv_step 3, Kv_step 3]"

lemma kv_demo0_construct: "kv_construct 0 4 35 = Inr kv_demo0"
proof -
  have "bit_floor (35 div 4 :: size_t) = 8" by code_simp
  then show ?thesis by (simp add: kv_construct_def kv_demo0_def)
qed

lemmas kv_eval = kv_demo_def kv_demo0_def ttas_def unlock_def kv_goto_def kv_ghost_def
  kv_set_def kv_slot_def kv_index_def

theorem kv_queue_linearizable_witness:
  "\<exists>s. run (kv_exec 3 0) kv_demo0 kv_demo_pop = Some s \<and> kv_pcs s 3 = Pop_done 5 (Some 50) \<and>
     snd (kv_abs s) 3 = Some (5, 50)"
proof -
  obtain s where s: "run (kv_exec 3 0) kv_demo0 kv_demo_pop = Some s" "kv_pcs s 3 = Pop_done 5 (Some 50)"
    by (simp add: kv_eval kv_demo_pop_def upt_rec)
  with kv_queue_linearizable [OF kv_demo0_construct s(1), of 3 5 50] show ?thesis by blast
qed

text \<open>
  C12.  Object lifetimes: in every interleaving, a thread inside a call can always take its next step;
  so \<open>push\<close> never constructs over a live value, \<open>pop\<close> never moves from a slot without one,
  and at every point at most \<open>capacity()\<close> elements are in the ring.
\<close>

theorem kv_lifetimes_safe:
  assumes "kv_construct k0 sz bytes = Inr s0" and "run (kv_exec NTRY k0) s0 as = Some s"
    and "\<not> kv_at_rest (kv_pcs s t)"
  shows "\<exists>s'. kv_exec NTRY k0 s (Kv_step t) = Some s' \<and> length (kv_queue s') \<le> unat (kv_capacity s0)"
proof -
  note inv = kvq.run_Inv [OF kv_construct_inv [OF assms(1)] assms(2)]
  note ok = kv_invD(5) [OF inv, of t] and geom = kv_invD(1) [OF inv]
  have "\<exists>s'. kv_exec NTRY k0 s (Kv_step t) = Some s'"
  proof (cases "kv_pcs s t")
    case (Push_construct v i)
    with ok geom show ?thesis by (simp add: kv_slot_of_nat)
  next
    case (Pop_move r i)
    with ok geom show ?thesis by (simp add: kv_slot_of_nat)
  qed (use assms(3) in \<open>auto split: prod.splits bool.splits option.splits\<close>)
  then obtain s' where s': "kv_exec NTRY k0 s (Kv_step t) = Some s'" by blast
  have "kv_N s' = unat (kv_capacity s0)"
    using kv_step_N [OF s'] kv_run_N [OF assms(2)] kv_abs_construct [OF assms(1)] by simp
  with kv_queue_bound [OF kv_exec_inv [OF inv s']] s' show ?thesis by auto
qed

theorem kv_lifetimes_safe_witness:
  "\<exists>s s'. run (kv_exec 3 0) kv_demo0 kv_demo = Some s \<and> kv_pcs s 1 = Push_construct 50 0 \<and>
     kv_exec 3 0 s (Kv_step 1) = Some s' \<and> length (kv_queue s') \<le> 8"
proof -
  obtain s where s: "run (kv_exec 3 0) kv_demo0 kv_demo = Some s" "kv_pcs s 1 = Push_construct 50 0"
    by (simp add: kv_eval upt_rec)
  then have "\<not> kv_at_rest (kv_pcs s 1)" by simp
  from kv_lifetimes_safe [OF kv_demo0_construct s(1) this] s show ?thesis by (auto simp: kv_demo0_def)
qed

text \<open>
  A full answer is exact: when \<open>push\<close> reads the sequence number of the slot at its index \<open>i\<close>, it finds
  the slot free if and only if the element one lap earlier has left it completely; so a
  \<open>push\<close> that gives up has seen the element of index \<open>i - capacity\<close> still in its slot at every one
  of its \<open>NTRY\<close> looks.
\<close>

theorem kv_full_exact:
  assumes "kv_construct k0 sz bytes = Inr s0" and "run (kv_exec NTRY k0) s0 as = Some s"
    and "kv_pcs s t = Push_try k v i n" and "kv_exec NTRY k0 s (Kv_step t) = Some s'"
  shows "(kv_pcs s' t = Push_claim k v i) =
      (kv_T s < kv_N s \<or> kv_phase s (kv_T s - kv_N s) = Released) \<and>
    (kv_pcs s' t \<noteq> Push_claim k v i \<longrightarrow>
       kv_pcs s' t = (if Suc n = NTRY then Push_full else Push_try k v i (Suc n)))"
proof -
  note inv = kvq.run_Inv [OF kv_construct_inv [OF assms(1)] assms(2)]
  have i: "i = of_nat (kv_T s)" using kv_invD(5) [OF inv, of t] assms(3) by simp
  have "slot_seq (kv_slot s i) = i \<longleftrightarrow> (kv_T s < kv_N s \<or> kv_phase s (kv_T s - kv_N s) = Released)"
    unfolding i kv_slot_of_nat [OF kv_invD(1) [OF inv]] using kv_tail_seq [OF inv] kv_free_slot(1) [OF inv] by blast
  with assms(3,4) show ?thesis by (auto split: if_splits)
qed

theorem kv_full_exact_witness:
  "\<exists>s s'. run (kv_exec 3 0) kv_demo0 [Call_push 1 5 50, Kv_step 1] = Some s \<and>
     kv_exec 3 0 s (Kv_step 1) = Some s' \<and> kv_pcs s' 1 = Push_claim 5 50 0"
proof -
  obtain s s' where s: "run (kv_exec 3 0) kv_demo0 [Call_push 1 5 50, Kv_step 1] = Some s"
      "kv_pcs s 1 = Push_try 5 50 0 0" "kv_exec 3 0 s (Kv_step 1) = Some s'"
      and T: "kv_T s < kv_N s"
    by (simp add: kv_eval upt_rec)
  from kv_full_exact [OF kv_demo0_construct s] T s show ?thesis by blast
qed

text \<open>A \<open>push\<close> that has claimed index \<open>i\<close> and has not committed its element yet.\<close>

fun pushing_at :: "size_t \<Rightarrow> ('k, 'v) kv_pc \<Rightarrow> bool" where
  "pushing_at i (Push_unlock v j) = (j = i)"
| "pushing_at i (Push_construct v j) = (j = i)"
| "pushing_at i (Push_commit j) = (j = i)"
| "pushing_at i _ = False"

lemma kv_head_phase:
  assumes inv: "kv_inv k0 s" and att: "kv_attended s"
  shows "kv_phase s (kv_popped s) = Committed \<longleftrightarrow>
     kv_queue s \<noteq> [] \<and> (\<forall>u. \<not> pushing_at (of_nat (kv_popped s)) (kv_pcs s u))"
proof -
  let ?H = "kv_popped s"
  note ph = kv_invD(3) [OF inv]
  have HT: "?H \<le> kv_T s" "kv_T s \<le> ?H + kv_N s" using kv_phases_popped_le [OF ph] kv_phases_window [OF ph] .
  have q: "kv_queue s \<noteq> [] \<longleftrightarrow> ?H < kv_T s" by (auto simp: kv_queue_def)
  have un: "kv_phase s ?H = Unclaimed \<longleftrightarrow> kv_T s \<le> ?H" using ph unfolding kv_phases_def by blast
  have nc: "kv_phase s ?H \<noteq> Consuming" "kv_phase s ?H \<noteq> Released" using ph unfolding kv_phases_def by blast+
  have "(\<exists>u. pushing_at (of_nat ?H) (kv_pcs s u)) \<longleftrightarrow> kv_phase s ?H = Producing"
  proof
    assume "\<exists>u. pushing_at (of_nat ?H) (kv_pcs s u)"
    then obtain u where u: "pushing_at (of_nat ?H) (kv_pcs s u)" by blast
    let ?j = "kv_own s u"
    have j: "of_nat ?j = (of_nat ?H :: size_t)" "kv_phase s ?j = Producing" "in_flight (kv_pcs s u)"
      using u kv_invD(5) [OF inv, of u] by (cases "kv_pcs s u"; simp)+
    have N: "kv_N s < 2 ^ 64" using kv_N_pos [OF kv_invD(1) [OF inv]] by simp
    note b = in_flight_bounds [OF inv j(3)]
    have "?j = ?H"
    proof (cases "?j \<le> ?H")
      case True
      then show ?thesis using of_nat_size_inj_window [OF j(1)] b HT N by linarith
    next
      case False
      then show ?thesis using of_nat_size_inj_window [OF j(1) [symmetric]] b HT N by linarith
    qed
    with j(2) show "kv_phase s ?H = Producing" by simp
  next
    assume "kv_phase s ?H = Producing"
    then obtain u where u: "in_flight (kv_pcs s u)" "kv_own s u = ?H" "kv_phase s (kv_own s u) = Producing"
      using att unfolding kv_attended_def by metis
    then have "pushing_at (of_nat ?H) (kv_pcs s u)"
      using kv_invD(5) [OF inv, of u] by (cases "kv_pcs s u") auto
    then show "\<exists>u. pushing_at (of_nat ?H) (kv_pcs s u)" by blast
  qed
  then show ?thesis using q un nc by (cases "kv_phase s ?H") auto
qed

lemma kv_head_committed:
  assumes inv: "kv_inv k0 s" and c: "kv_phase s (kv_popped s) = Committed"
  shows "slot_ok s (kv_popped s)" and "kv_queue s \<noteq> []" and "hd (kv_queue s) = kv_pushed s ! kv_popped s"
proof -
  note ph = kv_invD(3) [OF inv]
  have "kv_popped s < kv_T s" using c ph kv_phases_popped_le [OF ph] unfolding kv_phases_def
    by (metis kv_phase.distinct(3) not_le)
  with kv_invD(4) [OF inv] kv_phases_window [OF ph]
  show "slot_ok s (kv_popped s)" "kv_queue s \<noteq> []" "hd (kv_queue s) = kv_pushed s ! kv_popped s"
    by (simp_all add: kv_slots_ok_def kv_queue_def hd_drop_conv_nth)
qed

text \<open>
  C13.  The empty answer, exactly: in every interleaving, when \<open>pop\<close> or \<open>empty()\<close> looks at the head slot it finds an
  element if and only if the queue has one and the \<open>push\<close> that claimed the head index is not
  still under way, whatever the pushes at later indices have done (so \<open>pop\<close> may answer \<open>Key{}\<close>
  although a later \<open>push\<close> has returned true, the snapshot note of the class comment; the witness is such
  a schedule); and when it finds one, the slot holds the key and the value at the front of the
  queue.
\<close>

theorem kv_empty_exact:
  assumes "kv_construct k0 sz bytes = Inr s0" and "run (kv_exec NTRY k0) s0 as = Some s"
    and "kv_pcs s t = Pop_load i \<or> kv_pcs s t = Empty_load i" and "kv_exec NTRY k0 s (Kv_step t) = Some s'"
  shows "(kv_pcs s' t = Pop_claim i \<or> kv_pcs s' t = Empty_unlock False) =
       (kv_queue s \<noteq> [] \<and> (\<forall>u. \<not> pushing_at i (kv_pcs s u))) \<and>
     (kv_pcs s' t = Pop_claim i \<or> kv_pcs s' t = Empty_unlock False \<or> kv_pcs s' t = Pop_none \<or> kv_pcs s' t = Empty_unlock True) \<and>
     (kv_pcs s' t = Pop_claim i \<longrightarrow> slot_key (kv_slot s i) = fst (hd (kv_queue s)) \<and>
        slot_value (kv_slot s i) = Some (snd (hd (kv_queue s))))"
proof -
  note inv = kv_reachable(1) [OF assms(1,2)] and att = kv_reachable(2) [OF assms(1,2)]
  let ?H = "kv_popped s"
  have i: "i = of_nat ?H" using kv_invD(5) [OF inv, of t] assms(3) by auto
  have slot: "kv_slot s i = kv_slots s ! (?H mod kv_N s)" unfolding i by (rule kv_slot_of_nat [OF kv_invD(1) [OF inv]])
  have com: "slot_seq (kv_slot s i) = i + 1 \<and> slot_key (kv_slot s i) = fst (hd (kv_queue s)) \<and>
      slot_value (kv_slot s i) = Some (snd (hd (kv_queue s)))" if c: "kv_phase s ?H = Committed"
    using kv_head_committed [OF inv c] c unfolding slot by (simp add: slot_ok_def Let_def i add.commute)
  have seq: "kv_phase s ?H = Committed" if "slot_seq (kv_slot s i) = i + 1"
    by (rule kv_head_seq [OF inv]) (use that [unfolded slot] in \<open>simp add: i add.commute\<close>)
  have "slot_seq (kv_slot s i) = i + 1 \<longleftrightarrow> kv_queue s \<noteq> [] \<and> (\<forall>u. \<not> pushing_at i (kv_pcs s u))"
    using kv_head_phase [OF inv att, folded i] com seq by blast
  moreover have "slot_seq (kv_slot s i) = i + 1 \<Longrightarrow> slot_key (kv_slot s i) = fst (hd (kv_queue s)) \<and>
      slot_value (kv_slot s i) = Some (snd (hd (kv_queue s)))"
    using com seq by blast
  ultimately show ?thesis using assms(3,4) by (auto split: if_splits)
qed

theorem kv_empty_exact_witness:
  "\<exists>s s'. run (kv_exec 3 0) kv_demo0 (kv_demo @ [Call_pop 3, Kv_step 3]) = Some s \<and>
     kv_pcs s 2 = Push_done True \<and> kv_queue s = [(5, 50), (6, 60)] \<and>
     kv_exec 3 0 s (Kv_step 3) = Some s' \<and> kv_pcs s' 3 = Pop_none \<and> (\<exists>u. pushing_at 0 (kv_pcs s u))"
proof -
  obtain s s' where s: "run (kv_exec 3 0) kv_demo0 (kv_demo @ [Call_pop 3, Kv_step 3]) = Some s"
      "kv_pcs s 3 = Pop_load 0" "kv_exec 3 0 s (Kv_step 3) = Some s'" and p: "kv_pcs s' 3 = Pop_none"
      and q: "kv_pcs s 2 = Push_done True" "kv_queue s = [(5, 50), (6, 60)]"
    by (simp add: kv_eval kv_queue_def upt_rec)
  have "\<exists>u. pushing_at 0 (kv_pcs s u)"
    using kv_empty_exact [OF kv_demo0_construct s(1) disjI1 [OF s(2)] s(3)] p q(2) by auto
  with p s q show ?thesis by blast
qed

section \<open>Destruction\<close>

lemma kv_drain_ok:
  assumes "kv_geom s" and "n \<le> kv_N s"
    and "\<And>j. h \<le> j \<Longrightarrow> j < h + n \<Longrightarrow> slot_value (kv_slots s ! (j mod kv_N s)) \<noteq> None"
  shows "\<exists>s'. kv_drain n (of_nat h) s = Inr s' \<and> kv_N s' = kv_N s \<and>
           (\<forall>p<kv_N s. slot_value (kv_slots s' ! p) =
              (if \<exists>j. h \<le> j \<and> j < h + n \<and> j mod kv_N s = p then None else slot_value (kv_slots s ! p)))"
  using assms
proof (induction n arbitrary: h s)
  case 0
  then show ?case by (auto dest: leD)
next
  case (Suc n)
  let ?N = "kv_N s" and ?x = "(kv_slots s ! (h mod kv_N s))\<lparr>slot_value := None\<rparr>"
  let ?s = "kv_set (of_nat h) ?x s"
  have N: "0 < ?N" using Suc.prems(2) by linarith
  have slots: "kv_slots ?s = (kv_slots s)[h mod ?N := ?x]" using Suc.prems(1) by (simp add: kv_index_of_nat)
  have geom: "kv_geom ?s" using Suc.prems(1) by (simp add: kv_geom_def)
  have other: "j mod ?N \<noteq> h mod ?N" if "Suc h \<le> j" "j < Suc h + n" for j
    using window_mod_inj [of j ?N h "h + ?N"] window_mod_inj [of h ?N j "Suc h + n"] that Suc.prems(2) by auto
  obtain s' where s': "kv_drain n (of_nat (Suc h)) ?s = Inr s'" "kv_N s' = kv_N ?s"
    and v: "\<And>p. p < kv_N ?s \<Longrightarrow> slot_value (kv_slots s' ! p) =
        (if \<exists>j. Suc h \<le> j \<and> j < Suc h + n \<and> j mod kv_N ?s = p then None else slot_value (kv_slots ?s ! p))"
  proof -
    have "slot_value (kv_slots ?s ! (j mod kv_N ?s)) \<noteq> None" if "Suc h \<le> j" "j < Suc h + n" for j
      using other [OF that] Suc.prems(3) [of j] that slots by simp
    with Suc.IH [OF geom, of "Suc h"] Suc.prems(2) show ?thesis using that by auto
  qed
  obtain w where w: "slot_value (kv_slots s ! (h mod ?N)) = Some w" using Suc.prems(3) [of h] by auto
  have step: "kv_drain (Suc n) (of_nat h) s = Inr s'"
    using w s'(1) Suc.prems(1) by (simp add: kv_slot_of_nat add.commute)
  have "slot_value (kv_slots s' ! p) =
      (if \<exists>j. h \<le> j \<and> j < h + Suc n \<and> j mod ?N = p then None else slot_value (kv_slots s ! p))" if "p < ?N" for p
  proof (cases "p = h mod ?N")
    case True
    then have "slot_value (kv_slots s' ! p) = None" using v [of p] that slots N by auto
    moreover have "\<exists>j. h \<le> j \<and> j < h + Suc n \<and> j mod ?N = p" using True by (intro exI [of _ h]) simp
    ultimately show ?thesis by simp
  next
    case False
    then have "(\<exists>j. h \<le> j \<and> j < h + Suc n \<and> j mod ?N = p) = (\<exists>j. Suc h \<le> j \<and> j < Suc h + n \<and> j mod ?N = p)"
      by (metis Suc_le_eq add_Suc add_Suc_right le_eq_less_or_eq less_or_eq_imp_le)
    with v [of p] that slots False show ?thesis by auto
  qed
  with step s'(2) show ?case by (intro exI [of _ s']) simp
qed

text \<open>
  Destruction: when no call is in progress, the destructor finds a live value at every index in
  \<open>[head_.i, tail_.i)\<close>, destroys each once, and leaves no live value in any slot of the buffer.
\<close>

theorem kv_destroy_complete:
  assumes "kv_construct k0 sz bytes = Inr s0" and "run (kv_exec NTRY k0) s0 as = Some s"
    and "\<And>u. kv_at_rest (kv_pcs s u)"
  shows "\<exists>s'. kv_destroy s = Inr s' \<and> kv_N s' = kv_N s \<and> (\<forall>x\<in>set (kv_slots s'). slot_value x = None)"
proof -
  note inv = kv_reachable(1) [OF assms(1,2)] and att = kv_reachable(2) [OF assms(1,2)]
  let ?H = "kv_popped s" and ?T = "kv_T s" and ?N = "kv_N s"
  have quiet: "\<not> in_flight (kv_pcs s u)" for u using kv_at_rest_pc assms(3) by blast
  have HT: "?H \<le> ?T" "?T \<le> ?H + ?N"
    using kv_phases_popped_le kv_phases_window kv_invD(3) [OF inv] by blast+
  have N: "0 < ?N" "?N < 2 ^ 64" using kv_N_bounds [OF kv_invD(1) [OF inv]] by (auto intro: le_less_trans)
  have ok: "slot_ok s j" if "j < ?T" "?T \<le> j + ?N" for j
    using kv_invD(4) [OF inv] that by (simp add: kv_slots_ok_def)
  have live: "slot_value (kv_slots s ! (j mod ?N)) \<noteq> None" if "?H \<le> j" "j < ?H + (?T - ?H)" for j
    using ok [of j] that HT kv_quiet_phase [OF inv att quiet, of j] by (simp add: slot_ok_def Let_def)
  have "kv_tail_i s - kv_head_i s = of_nat (?T - ?H)"
    using kv_invD(3) [OF inv] HT(1) by (simp add: kv_phases_def of_nat_diff)
  moreover have "?T - ?H < 2 ^ 64" using HT(2) N(2) by linarith
  ultimately have d: "kv_destroy s = kv_drain (?T - ?H) (of_nat ?H) s"
    using kv_invD(3) [OF inv] by (simp add: kv_destroy_def kv_phases_def unat_of_nat_size del: power_numeral)
  obtain s' where s': "kv_drain (?T - ?H) (of_nat ?H) s = Inr s'" "kv_N s' = ?N"
    and v: "\<And>p. p < ?N \<Longrightarrow> slot_value (kv_slots s' ! p) =
        (if \<exists>j. ?H \<le> j \<and> j < ?H + (?T - ?H) \<and> j mod ?N = p then None else slot_value (kv_slots s ! p))"
  proof -
    have "?T - ?H \<le> ?N" using HT(2) by linarith
    with kv_drain_ok [OF kv_invD(1) [OF inv] _ live] that show thesis by blast
  qed
  have "slot_value (kv_slots s' ! p) = None" if p: "p < ?N" for p
  proof (cases "?T \<le> p")
    case True
    then show ?thesis using v [OF p] kv_invD(4) [OF inv] p by (simp add: kv_slots_ok_def)
  next
    case False
    define j where "j = ?T - Suc ((?T - Suc p) mod ?N)"
    have j: "j < ?T" "?T \<le> j + ?N" "j mod ?N = p"
    proof -
      let ?r = "(?T - Suc p) mod ?N"
      have r: "?r < ?N" "?r \<le> ?T - Suc p" using N by simp_all
      then show "j < ?T" "?T \<le> j + ?N" using False unfolding j_def by linarith+
      have "j = p + ((?T - Suc p) - ?r)" using False r(2) unfolding j_def by linarith
      also have "(?T - Suc p) - ?r = (?T - Suc p) div ?N * ?N" by (simp add: minus_mod_eq_div_mult)
      finally show "j mod ?N = p" using p by simp
    qed
    show ?thesis
    proof (cases "?H \<le> j")
      case True
      with j v [OF p] show ?thesis by auto
    next
      case False
      then have "kv_phase s j = Released"
        using kv_invD(3) [OF inv] att quiet unfolding kv_phases_def kv_attended_def by (metis not_le)
      with ok [OF j(1,2)] j(3) have "slot_value (kv_slots s ! p) = None" by (simp add: slot_ok_def Let_def)
      with v [OF p] show ?thesis by simp
    qed
  qed
  with s' d show ?thesis by (auto simp: in_set_conv_nth)
qed

theorem kv_destroy_complete_witness:
  "\<exists>s s'. run (kv_exec 3 0) kv_demo0 kv_demo_pop = Some s \<and> kv_queue s = [(6, 60)] \<and>
     kv_destroy s = Inr s' \<and> (\<forall>x\<in>set (kv_slots s'). slot_value x = None)"
proof -
  obtain s where s: "run (kv_exec 3 0) kv_demo0 kv_demo_pop = Some s" "\<And>u. kv_at_rest (kv_pcs s u)"
      and q: "kv_queue s = [(6, 60)]"
    by (simp add: kv_eval kv_demo_pop_def kv_queue_def upt_rec)
  from kv_destroy_complete [OF kv_demo0_construct s] s(1) q show ?thesis by blast
qed

section \<open>One thread at a time\<close>

text \<open>
  A call that runs alone: the thread takes its steps until it returns, with \<open>n\<close> steps as fuel (\<open>None\<close> when
  the fuel is not enough).  \<open>push\<close> needs at most \<open>NTRY + 6\<close> steps and \<open>pop\<close> at most 6.
\<close>

fun kv_solo :: "nat \<Rightarrow> 'k \<Rightarrow> tid \<Rightarrow> nat \<Rightarrow> ('k, 'v) kvq \<Rightarrow> ('k, 'v) kvq option" where
  "kv_solo NTRY k0 t 0 s = (if kv_at_rest (kv_pcs s t) then Some s else None)"
| "kv_solo NTRY k0 t (Suc n) s =
     (if kv_at_rest (kv_pcs s t) then Some s
      else case kv_exec NTRY k0 s (Kv_step t) of Some s' \<Rightarrow> kv_solo NTRY k0 t n s' | None \<Rightarrow> None)"

definition kv_enq :: "nat \<Rightarrow> 'k \<Rightarrow> tid \<Rightarrow> ('k, 'v) kvq \<Rightarrow> 'k \<times> 'v \<Rightarrow> (bool \<times> ('k, 'v) kvq) option" where
  "kv_enq NTRY k0 t s e =
     (case kv_exec NTRY k0 s (Call_push t (fst e) (snd e)) of None \<Rightarrow> None
      | Some s1 \<Rightarrow> (case kv_solo NTRY k0 t (NTRY + 6) s1 of None \<Rightarrow> None
         | Some s2 \<Rightarrow> (case kv_pcs s2 t of Push_done b \<Rightarrow> Some (b, s2) | _ \<Rightarrow> None)))"

definition kv_deq :: "nat \<Rightarrow> 'k \<Rightarrow> tid \<Rightarrow> ('k, 'v) kvq \<Rightarrow> (('k \<times> 'v) option \<times> ('k, 'v) kvq) option" where
  "kv_deq NTRY k0 t s =
     (case kv_exec NTRY k0 s (Call_pop t) of None \<Rightarrow> None
      | Some s1 \<Rightarrow> (case kv_solo NTRY k0 t 6 s1 of None \<Rightarrow> None
         | Some s2 \<Rightarrow> (case kv_pcs s2 t of Pop_done r v \<Rightarrow> Some (map_option (Pair r) v, s2) | _ \<Rightarrow> None)))"

text \<open>Between two calls of a single user: every thread at rest.  \<open>kv_busy t\<close>: only \<open>t\<close> is inside a call.\<close>

definition kv_quiet :: "'k \<Rightarrow> ('k, 'v) kvq \<Rightarrow> bool" where
  "kv_quiet k0 s \<longleftrightarrow> kv_inv k0 s \<and> kv_attended s \<and> (\<forall>u. kv_at_rest (kv_pcs s u))"

definition kv_busy :: "'k \<Rightarrow> tid \<Rightarrow> ('k, 'v) kv_pc \<Rightarrow> nat \<Rightarrow> ('k \<times> 'v) list \<Rightarrow> ('k, 'v) kvq \<Rightarrow> bool" where
  "kv_busy k0 t p N q s \<longleftrightarrow> kv_inv k0 s \<and> kv_attended s \<and> (\<forall>u. u \<noteq> t \<longrightarrow> kv_at_rest (kv_pcs s u)) \<and>
     kv_pcs s t = p \<and> kv_N s = N \<and> kv_queue s = q"

lemma kv_busyD:
  assumes "kv_busy k0 t p N q s"
  shows "kv_inv k0 s" "kv_attended s" "kv_pcs s t = p" "u \<noteq> t \<Longrightarrow> kv_at_rest (kv_pcs s u)"
    "kv_N s = N" "kv_queue s = q"
  using assms by (auto simp: kv_busy_def)

lemma kv_busy_rest: "kv_busy k0 t p N q s \<Longrightarrow> kv_at_rest p \<Longrightarrow> kv_quiet k0 s"
  unfolding kv_busy_def kv_quiet_def by metis

lemma kv_busy_step:
  assumes b: "kv_busy k0 t p N q s" and p: "\<not> kv_at_rest p"
    and st: "kv_exec NTRY k0 s (Kv_step t) = Some s'" and pc: "kv_pcs s' t = p'"
    and others: "\<And>u. u \<noteq> t \<Longrightarrow> kv_pcs s' u = kv_pcs s u" and q: "kv_queue s' = q'"
  shows "kv_busy k0 t p' N q' s' \<and> kv_solo NTRY k0 t (Suc n) s = kv_solo NTRY k0 t n s'"
proof -
  have "kv_inv k0 s'" "kv_attended s'"
    using kv_exec_inv [OF kv_busyD(1) [OF b] st] kv_attended_exec [OF kv_busyD(2) [OF b] st] .
  then show ?thesis
    using b st pc others q p kv_step_N [OF st] by (simp add: kv_busy_def)
qed

lemma kv_busy_unlocked:
  assumes b: "kv_busy k0 t p N q s"
  shows "\<not> holds_tail p \<Longrightarrow> kv_tail_l s = 0" and "\<not> holds_head p \<Longrightarrow> kv_head_l s = 0"
proof -
  note l = kv_invD(2) [OF kv_busyD(1) [OF b]]
  have rest: "\<not> holds_tail (kv_pcs s u) \<and> \<not> holds_head (kv_pcs s u)" if "u \<noteq> t" for u
    using kv_at_rest_pc kv_busyD(4) [OF b that] by blast
  show "kv_tail_l s = 0" if "\<not> holds_tail p"
  proof -
    have "\<not> holds_tail (kv_pcs s u)" for u
      by (cases "u = t") (use rest [of u] kv_busyD(3) [OF b] that in auto)
    with l show ?thesis by (simp add: kv_locks_def spin_owned_def)
  qed
  show "kv_head_l s = 0" if "\<not> holds_head p"
  proof -
    have "\<not> holds_head (kv_pcs s u)" for u
      by (cases "u = t") (use rest [of u] kv_busyD(3) [OF b] that in auto)
    with l show ?thesis by (simp add: kv_locks_def spin_owned_def)
  qed
qed

lemma kv_busy_room:
  assumes b: "kv_busy k0 t p N q s" and "\<not> in_flight p"
  shows "slot_seq (kv_slots s ! (kv_T s mod kv_N s)) = of_nat (kv_T s) \<longleftrightarrow> length q < N"
proof -
  note inv = kv_busyD(1) [OF b] and att = kv_busyD(2) [OF b]
  have quiet: "\<not> in_flight (kv_pcs s u)" for u
    by (cases "u = t") (use kv_busyD(3) [OF b] kv_busyD(4) [OF b, of u] assms(2) kv_at_rest_pc in auto)
  have N: "1 < kv_N s" using kv_N_bounds [OF kv_invD(1) [OF inv]] by simp
  have HT: "kv_popped s \<le> kv_T s" by (rule kv_phases_popped_le [OF kv_invD(3) [OF inv]])
  have len: "length q = kv_T s - kv_popped s" using kv_busyD(6) [OF b] by (auto simp: kv_queue_def)
  have "kv_phase s (kv_T s - kv_N s) = Released" if "length q < kv_N s" "\<not> kv_T s < kv_N s"
  proof -
    have "kv_T s - kv_N s < kv_popped s" using that len HT by linarith
    with kv_invD(3) [OF inv] have "kv_phase s (kv_T s - kv_N s) = Consuming \<or> kv_phase s (kv_T s - kv_N s) = Released"
      unfolding kv_phases_def by blast
    with att quiet show ?thesis unfolding kv_attended_def by blast
  qed
  moreover have "length (kv_queue s) < kv_N s \<longleftrightarrow> length q < N" using kv_busyD(5,6) [OF b] by simp
  ultimately show ?thesis
    using kv_tail_seq [OF inv] kv_free_slot(1) [OF inv] kv_push_room [OF inv] kv_busyD(5) [OF b] by blast
qed

lemma kv_busy_head:
  assumes b: "kv_busy k0 t p N q s" and "\<not> in_flight p"
  shows "slot_seq (kv_slots s ! (kv_popped s mod kv_N s)) = of_nat (kv_popped s + 1) \<longleftrightarrow> q \<noteq> []"
proof -
  note inv = kv_busyD(1) [OF b]
  let ?H = "kv_popped s"
  have quiet: "\<not> in_flight (kv_pcs s u)" for u
    by (cases "u = t") (use kv_busyD(3) [OF b] kv_busyD(4) [OF b, of u] assms(2) kv_at_rest_pc in auto)
  have q: "q \<noteq> [] \<longleftrightarrow> ?H < kv_T s" using kv_busyD(6) [OF b] by (auto simp: kv_queue_def)
  have "slot_seq (kv_slots s ! (?H mod kv_N s)) = of_nat (?H + 1)" if "?H < kv_T s"
  proof -
    have "slot_ok s ?H" using kv_invD(4) [OF inv] that kv_phases_window [OF kv_invD(3) [OF inv]]
      by (simp add: kv_slots_ok_def)
    then show ?thesis
      using kv_quiet_phase [OF inv kv_busyD(2) [OF b] quiet order_refl that] by (simp add: slot_ok_def Let_def)
  qed
  moreover have "?H < kv_T s" if "kv_phase s ?H = Committed"
    using that kv_invD(3) [OF inv] unfolding kv_phases_def by (metis kv_phase.distinct(3) not_le)
  ultimately show ?thesis using kv_head_seq [OF inv] q by blast
qed

lemma kv_solo_full:
  assumes "kv_busy k0 t (Push_try k v i n) N q s" and "length q = N" and "n < NTRY"
  shows "\<exists>s'. kv_solo NTRY k0 t (NTRY - n + 5) s = Some s' \<and> kv_busy k0 t (Push_done False) N q s'"
  using assms
proof (induction "NTRY - Suc n" arbitrary: n s)
  case 0
  then have last: "Suc n = NTRY" by simp
  note b = 0(2) and inv = kv_busyD(1) [OF 0(2)]
  have i: "i = of_nat (kv_T s)" using kv_invD(5) [OF inv, of t] kv_busyD(3) [OF b] by simp
  have ne: "slot_seq (kv_slot s i) \<noteq> i"
    using kv_busy_room [OF b] 0(3) unfolding i kv_slot_of_nat [OF kv_invD(1) [OF inv]] by simp
  let ?s1 = "kv_goto t Push_full s"
  let ?s2 = "kv_goto t (Push_done False) (?s1\<lparr>kv_tail_l := unlock (kv_tail_l ?s1)\<rparr>)"
  have s1: "kv_busy k0 t Push_full N q ?s1 \<and> kv_solo NTRY k0 t (Suc m) s = kv_solo NTRY k0 t m ?s1" for m
    by (rule kv_busy_step [OF b]) (use kv_busyD(3,6) [OF b] ne last in \<open>auto simp: kv_queue_def\<close>)
  have s2: "kv_busy k0 t (Push_done False) N q ?s2 \<and> kv_solo NTRY k0 t (Suc m) ?s1 = kv_solo NTRY k0 t m ?s2" for m
    by (rule kv_busy_step [OF conjunct1 [OF s1 [of 0]]]) (use kv_busyD(3,6) [OF b] in \<open>auto simp: kv_queue_def\<close>)
  have "NTRY - n + 5 = Suc (Suc 4)" using last by simp
  moreover have "kv_solo NTRY k0 t 4 ?s2 = Some ?s2" by (simp add: numeral_eq_Suc)
  ultimately show ?case using s1 s2 by metis
next
  case (Suc d)
  note b = Suc(3) and inv = kv_busyD(1) [OF Suc(3)]
  have i: "i = of_nat (kv_T s)" using kv_invD(5) [OF inv, of t] kv_busyD(3) [OF b] by simp
  have ne: "slot_seq (kv_slot s i) \<noteq> i"
    using kv_busy_room [OF b] Suc(4) unfolding i kv_slot_of_nat [OF kv_invD(1) [OF inv]] by simp
  let ?s1 = "kv_goto t (Push_try k v i (Suc n)) s"
  have s1: "kv_busy k0 t (Push_try k v i (Suc n)) N q ?s1 \<and> kv_solo NTRY k0 t (Suc m) s = kv_solo NTRY k0 t m ?s1" for m
    by (rule kv_busy_step [OF b]) (use kv_busyD(3,6) [OF b] ne Suc(2) in \<open>auto simp: kv_queue_def\<close>)
  have "NTRY - n + 5 = Suc (NTRY - Suc n + 5)" using Suc(5) by simp
  moreover have "\<exists>s'. kv_solo NTRY k0 t (NTRY - Suc n + 5) ?s1 = Some s' \<and> kv_busy k0 t (Push_done False) N q s'"
    using Suc(1) [of "Suc n" ?s1] Suc(2,4,5) s1 by auto
  ultimately show ?case using s1 by simp
qed

lemma kv_busy_next:
  assumes b: "kv_busy k0 t p N q s" and "\<not> kv_at_rest p"
    and st: "kv_exec NTRY k0 s (Kv_step t) = Some s'" and "kv_pcs s' = (kv_pcs s)(t := p')" and "kv_queue s' = q'"
  obtains s'' where "kv_busy k0 t p' N q' s''" "\<And>m. kv_solo NTRY k0 t (Suc m) s = kv_solo NTRY k0 t m s''"
proof -
  have "kv_busy k0 t p' N q' s' \<and> kv_solo NTRY k0 t (Suc m) s = kv_solo NTRY k0 t m s'" for m
    by (rule kv_busy_step [OF b assms(2) st]) (use assms(4,5) in auto)
  then show ?thesis using that by blast
qed

lemma kv_solo_push_lock:
  assumes b: "kv_busy k0 t (Push_lock k v) N q s" and "0 < NTRY"
  shows "\<exists>s' i. kv_busy k0 t (Push_try k v i 0) N q s' \<and>
           (\<forall>m. kv_solo NTRY k0 t (Suc m) s = kv_solo NTRY k0 t m s')"
proof -
  have "kv_tail_l s = 0" using kv_busy_unlocked(1) [OF b] by simp
  then have st: "kv_exec NTRY k0 s (Kv_step t) = Some (kv_goto t (Push_try k v (kv_tail_i s) 0) (s\<lparr>kv_tail_l := 1\<rparr>))"
    using kv_busyD(3) [OF b] assms(2) by (simp add: ttas_def)
  show ?thesis
    using kv_busy_step [OF b _ st refl _ refl] kv_busyD(6) [OF b] by (auto simp: kv_queue_def)
qed

lemma kv_solo_push_room:
  assumes b: "kv_busy k0 t (Push_try k v i n) N q s" and room: "length q < N"
  shows "\<exists>s'. kv_solo NTRY k0 t (m + 5) s = Some s' \<and> kv_busy k0 t (Push_done True) N (q @ [(k, v)]) s'"
proof -
  have "slot_seq (kv_slot s i) = i"
    using kv_busy_room [OF b] kv_invD(5) [OF kv_busyD(1) [OF b], of t] kv_busyD(3) [OF b] room
      kv_slot_of_nat [OF kv_invD(1) [OF kv_busyD(1) [OF b]]] by simp
  then have st: "kv_exec NTRY k0 s (Kv_step t) = Some (kv_goto t (Push_claim k v i) s)"
    using kv_busyD(3) [OF b] by simp
  obtain s1 where s1: "kv_busy k0 t (Push_claim k v i) N q s1"
      "\<And>m. kv_solo NTRY k0 t (Suc m) s = kv_solo NTRY k0 t m s1"
    by (rule kv_busy_next [OF b _ st]) (use kv_busyD(6) [OF b] in \<open>auto simp: kv_queue_def\<close>)
  obtain s2' where st2: "kv_exec NTRY k0 s1 (Kv_step t) = Some s2'" and pc2: "kv_pcs s2' = (kv_pcs s1)(t := Push_unlock v i)"
    using kv_busyD(3) [OF s1(1)] by simp
  have "kv_queue s2' = q @ [(k, v)]"
    using kv_linearize [OF kv_busyD(1) [OF s1(1)] st2, of "Enq (k, v)"] kv_busyD(3,6) [OF s1(1)]
    by (simp add: kv_abs_def split: if_splits)
  then obtain s2 where s2: "kv_busy k0 t (Push_unlock v i) N (q @ [(k, v)]) s2"
      "\<And>m. kv_solo NTRY k0 t (Suc m) s1 = kv_solo NTRY k0 t m s2"
    by (rule kv_busy_next [OF s1(1) _ st2 pc2, rotated]) simp_all
  have "kv_exec NTRY k0 s2 (Kv_step t) = Some (kv_goto t (Push_construct v i) (s2\<lparr>kv_tail_l := unlock (kv_tail_l s2)\<rparr>))"
    using kv_busyD(3) [OF s2(1)] by simp
  then obtain s3 where s3: "kv_busy k0 t (Push_construct v i) N (q @ [(k, v)]) s3"
      "\<And>m. kv_solo NTRY k0 t (Suc m) s2 = kv_solo NTRY k0 t m s3"
    by (rule kv_busy_next [OF s2(1), rotated]) (use kv_busyD(6) [OF s2(1)] in \<open>auto simp: kv_queue_def\<close>)
  have "slot_value (kv_slot s3 i) = None"
    using kv_invD(5) [OF kv_busyD(1) [OF s3(1)], of t] kv_busyD(3) [OF s3(1)]
      kv_slot_of_nat [OF kv_invD(1) [OF kv_busyD(1) [OF s3(1)]]] by simp
  then have "kv_exec NTRY k0 s3 (Kv_step t) =
      Some (kv_goto t (Push_commit i) (kv_set i ((kv_slot s3 i)\<lparr>slot_value := Some v\<rparr>) s3))"
    using kv_busyD(3) [OF s3(1)] by simp
  then obtain s4 where s4: "kv_busy k0 t (Push_commit i) N (q @ [(k, v)]) s4"
      "\<And>m. kv_solo NTRY k0 t (Suc m) s3 = kv_solo NTRY k0 t m s4"
    by (rule kv_busy_next [OF s3(1), rotated]) (use kv_busyD(6) [OF s3(1)] in \<open>auto simp: kv_queue_def\<close>)
  have "kv_exec NTRY k0 s4 (Kv_step t) = Some (kv_goto t (Push_done True)
      (kv_ghost t (kv_own s4 t) Committed (kv_set i ((kv_slot s4 i)\<lparr>slot_seq := i + 1\<rparr>) s4)))"
    using kv_busyD(3) [OF s4(1)] by simp
  then obtain s5 where s5: "kv_busy k0 t (Push_done True) N (q @ [(k, v)]) s5"
      "\<And>m. kv_solo NTRY k0 t (Suc m) s4 = kv_solo NTRY k0 t m s5"
    by (rule kv_busy_next [OF s4(1), rotated]) (use kv_busyD(6) [OF s4(1)] in \<open>auto simp: kv_queue_def\<close>)
  have "kv_solo NTRY k0 t (Suc (Suc (Suc (Suc (Suc m))))) s = kv_solo NTRY k0 t m s5"
    using s1(2) s2(2) s3(2) s4(2) s5(2) by metis
  moreover have "kv_solo NTRY k0 t m s5 = Some s5" using kv_busyD(3) [OF s5(1)] by (cases m) simp_all
  ultimately show ?thesis using s5(1) by (intro exI [of _ s5]) (simp add: numeral_eq_Suc)
qed

lemma kv_quiet_call:
  assumes q: "kv_quiet k0 s" and ex: "kv_exec NTRY k0 s a = Some s'"
    and "kv_pcs s' = (kv_pcs s)(t := p)" and "kv_queue s' = kv_queue s"
  shows "kv_busy k0 t p (kv_N s) (kv_queue s) s'"
  using assms kv_exec_inv [OF _ ex] kv_attended_exec [OF _ ex] kv_step_N [OF ex]
  unfolding kv_quiet_def kv_busy_def by auto

lemma kv_enq_quiet:
  assumes q: "kv_quiet k0 s" and e: "fst e \<noteq> k0" and n: "0 < NTRY"
  shows "\<exists>s'. kv_enq NTRY k0 t s e = Some (length (kv_queue s) < kv_N s, s') \<and> kv_quiet k0 s' \<and> kv_N s' = kv_N s \<and>
           kv_queue s' = (if length (kv_queue s) < kv_N s then kv_queue s @ [e] else kv_queue s)"
proof -
  obtain k v where kv: "e = (k, v)" by (cases e)
  let ?q = "kv_queue s" and ?N = "kv_N s"
  let ?s1 = "kv_goto t (Push_lock k v) s"
  have ex: "kv_exec NTRY k0 s (Call_push t k v) = Some ?s1" using q e kv by (simp add: kv_quiet_def)
  have b1: "kv_busy k0 t (Push_lock k v) ?N ?q ?s1" by (rule kv_quiet_call [OF q ex]) (simp_all add: kv_queue_def)
  obtain s2 i where s2: "kv_busy k0 t (Push_try k v i 0) ?N ?q s2"
      "\<And>m. kv_solo NTRY k0 t (Suc m) ?s1 = kv_solo NTRY k0 t m s2"
    using kv_solo_push_lock [OF b1 n] by metis
  have fuel: "kv_solo NTRY k0 t (NTRY + 6) ?s1 = kv_solo NTRY k0 t (NTRY + 5) s2"
    using s2(2) [of "NTRY + 5"] by (simp add: numeral_eq_Suc)
  show ?thesis
  proof (cases "length ?q < ?N")
    case True
    then obtain s3 where s3: "kv_solo NTRY k0 t (NTRY + 5) s2 = Some s3"
        and b3: "kv_busy k0 t (Push_done True) ?N (?q @ [(k, v)]) s3"
      using kv_solo_push_room [OF s2(1)] by blast
    have "kv_enq NTRY k0 t s e = Some (True, s3)"
      using s3 fuel ex kv kv_busyD(3) [OF b3] by (simp add: kv_enq_def)
    then show ?thesis using True kv kv_busy_rest [OF b3] kv_busyD(5,6) [OF b3] by simp
  next
    case False
    then have "length ?q = ?N" using kv_queue_bound [of k0 s] q by (simp add: kv_quiet_def)
    then obtain s3 where s3: "kv_solo NTRY k0 t (NTRY + 5) s2 = Some s3"
        and b3: "kv_busy k0 t (Push_done False) ?N ?q s3"
      using kv_solo_full [OF s2(1) _ n] by auto
    have "kv_enq NTRY k0 t s e = Some (False, s3)"
      using s3 fuel ex kv kv_busyD(3) [OF b3] by (simp add: kv_enq_def)
    then show ?thesis using False kv_busy_rest [OF b3] kv_busyD(5,6) [OF b3] by simp
  qed
qed

lemma kv_solo_pop_finish:
  assumes b: "kv_busy k0 t (Pop_unlock r i) N q s" and e: "snd (kv_abs s) t = Some e"
  shows "\<exists>s' v. kv_solo NTRY k0 t 3 s = Some s' \<and> kv_busy k0 t (Pop_done r (Some v)) N q s' \<and> (r, v) = e"
proof -
  have st1: "kv_exec NTRY k0 s (Kv_step t) = Some (kv_goto t (Pop_move r i) (s\<lparr>kv_head_l := unlock (kv_head_l s)\<rparr>))"
      (is "_ = Some ?s1") using kv_busyD(3) [OF b] by simp
  have b1: "kv_busy k0 t (Pop_move r i) N q ?s1 \<and> kv_solo NTRY k0 t (Suc m) s = kv_solo NTRY k0 t m ?s1" for m
    by (rule kv_busy_step [OF b _ st1]) (use kv_busyD(6) [OF b] in \<open>auto simp: kv_queue_def\<close>)
  note inv1 = kv_busyD(1) [OF conjunct1 [OF b1]]
  obtain v where "slot_value (kv_slot ?s1 i) = Some v"
    using kv_invD(5) [OF inv1, of t] kv_slot_of_nat [OF kv_invD(1) [OF inv1]] by auto
  then have st2: "kv_exec NTRY k0 ?s1 (Kv_step t) =
      Some (kv_goto t (Pop_release r v i) (kv_set i ((kv_slot ?s1 i)\<lparr>slot_value := None\<rparr>) ?s1))"
      (is "_ = Some ?s2") by simp
  have b2: "kv_busy k0 t (Pop_release r v i) N q ?s2 \<and> kv_solo NTRY k0 t (Suc m) ?s1 = kv_solo NTRY k0 t m ?s2" for m
    by (rule kv_busy_step [OF conjunct1 [OF b1] _ st2]) (use kv_busyD(6) [OF b] in \<open>auto simp: kv_queue_def\<close>)
  note inv2 = kv_busyD(1) [OF conjunct1 [OF b2]]
  have st3: "kv_exec NTRY k0 ?s2 (Kv_step t) = Some (kv_goto t (Pop_done r (Some v))
      (kv_ghost t (kv_own ?s2 t) Released (kv_set i ((kv_slot ?s2 i)\<lparr>slot_seq := i + kv_capacity ?s2\<rparr>) ?s2)))"
      (is "_ = Some ?s3") by simp
  have b3: "kv_busy k0 t (Pop_done r (Some v)) N q ?s3 \<and> kv_solo NTRY k0 t (Suc m) ?s2 = kv_solo NTRY k0 t m ?s3" for m
    by (rule kv_busy_step [OF conjunct1 [OF b2] _ st3]) (use kv_busyD(6) [OF b] in \<open>auto simp: kv_queue_def\<close>)
  have "kv_abs ?s3 = kv_abs s"
    using kv_stutter [OF kv_busyD(1) [OF b] st1] kv_stutter [OF inv1 st2] kv_stutter [OF inv2 st3] kv_busyD(3) [OF b]
    by simp
  with e have "snd (kv_abs ?s3) t = Some e" by (simp only:)
  then have "(r, v) = e" by (simp add: kv_abs_def)
  moreover have "kv_solo NTRY k0 t 3 s = Some ?s3"
  proof -
    have "kv_solo NTRY k0 t 3 s = kv_solo NTRY k0 t 2 ?s1" using conjunct2 [OF b1 [of 2]] by (simp only: numeral_eq_Suc pred_numeral_simps BitM.simps)
    also have "\<dots> = kv_solo NTRY k0 t 1 ?s2" using conjunct2 [OF b2 [of 1]] by (simp only: numeral_2_eq_2 One_nat_def)
    also have "\<dots> = kv_solo NTRY k0 t 0 ?s3" using conjunct2 [OF b3 [of 0]] by (simp only: One_nat_def)
    also have "\<dots> = Some ?s3" by simp
    finally show ?thesis .
  qed
  ultimately show ?thesis using conjunct1 [OF b3] by blast
qed

lemma kv_deq_quiet:
  assumes q: "kv_quiet k0 s"
  shows "\<exists>s'. kv_deq NTRY k0 t s = Some (case kv_queue s of [] \<Rightarrow> None | e # es \<Rightarrow> Some e, s') \<and> kv_quiet k0 s' \<and>
           kv_N s' = kv_N s \<and> kv_queue s' = tl (kv_queue s)"
proof -
  let ?q = "kv_queue s" and ?N = "kv_N s" and ?s1 = "kv_goto t Pop_lock s"
  have ex: "kv_exec NTRY k0 s (Call_pop t) = Some ?s1" using q by (simp add: kv_quiet_def)
  have b1: "kv_busy k0 t Pop_lock ?N ?q ?s1" by (rule kv_quiet_call [OF q ex]) (simp_all add: kv_queue_def)
  have "kv_head_l ?s1 = 0" using kv_busy_unlocked(2) [OF b1] by simp
  then have st1: "kv_exec NTRY k0 ?s1 (Kv_step t) = Some (kv_goto t (Pop_load (kv_head_i s)) (?s1\<lparr>kv_head_l := 1\<rparr>))"
    by (simp add: ttas_def)
  obtain s2 where b2: "kv_busy k0 t (Pop_load (kv_head_i s)) ?N ?q s2"
      and f2: "\<And>m. kv_solo NTRY k0 t (Suc m) ?s1 = kv_solo NTRY k0 t m s2"
    by (rule kv_busy_next [OF b1 _ st1]) (auto simp: kv_queue_def)
  let ?i = "kv_head_i s"
  have i: "?i = of_nat (kv_popped s2)" using kv_invD(5) [OF kv_busyD(1) [OF b2], of t] kv_busyD(3) [OF b2] by simp
  have test: "slot_seq (kv_slot s2 ?i) = ?i + 1 \<longleftrightarrow> ?q \<noteq> []"
    using kv_busy_head [OF b2] unfolding i kv_slot_of_nat [OF kv_invD(1) [OF kv_busyD(1) [OF b2]]]
    by (simp add: add.commute)
  show ?thesis
  proof (cases ?q)
    case Nil
    then have st2: "kv_exec NTRY k0 s2 (Kv_step t) = Some (kv_goto t Pop_none s2)"
      using test kv_busyD(3) [OF b2] by simp
    obtain s3 where b3: "kv_busy k0 t Pop_none ?N ?q s3"
        and f3: "\<And>m. kv_solo NTRY k0 t (Suc m) s2 = kv_solo NTRY k0 t m s3"
      by (rule kv_busy_next [OF b2 _ st2]) (use kv_busyD(6) [OF b2] in \<open>auto simp: kv_queue_def\<close>)
    have st3: "kv_exec NTRY k0 s3 (Kv_step t) = Some (kv_goto t (Pop_done k0 None) (s3\<lparr>kv_head_l := unlock (kv_head_l s3)\<rparr>))"
      using kv_busyD(3) [OF b3] by simp
    obtain s4 where b4: "kv_busy k0 t (Pop_done k0 None) ?N ?q s4"
        and f4: "\<And>m. kv_solo NTRY k0 t (Suc m) s3 = kv_solo NTRY k0 t m s4"
      by (rule kv_busy_next [OF b3 _ st3]) (use kv_busyD(6) [OF b3] in \<open>auto simp: kv_queue_def\<close>)
    have "kv_solo NTRY k0 t 6 ?s1 = kv_solo NTRY k0 t 3 s4"
      using f2 [of 5] f3 [of 4] f4 [of 3] by (simp only: numeral_eq_Suc pred_numeral_simps BitM.simps)
    also have "\<dots> = Some s4" using kv_busyD(3) [OF b4] by (simp add: numeral_eq_Suc)
    finally have "kv_deq NTRY k0 t s = Some (None, s4)"
      using ex kv_busyD(3) [OF b4] by (simp add: kv_deq_def)
    then show ?thesis using Nil kv_busy_rest [OF b4] kv_busyD(5,6) [OF b4] by simp
  next
    case (Cons e es)
    then have st2: "kv_exec NTRY k0 s2 (Kv_step t) = Some (kv_goto t (Pop_claim ?i) s2)"
      using test kv_busyD(3) [OF b2] by simp
    obtain s3 where b3: "kv_busy k0 t (Pop_claim ?i) ?N ?q s3"
        and f3: "\<And>m. kv_solo NTRY k0 t (Suc m) s2 = kv_solo NTRY k0 t m s3"
      by (rule kv_busy_next [OF b2 _ st2]) (use kv_busyD(6) [OF b2] in \<open>auto simp: kv_queue_def\<close>)
    obtain s4 where st3: "kv_exec NTRY k0 s3 (Kv_step t) = Some s4"
        and pc4: "kv_pcs s4 = (kv_pcs s3)(t := Pop_unlock (slot_key (kv_slot s3 ?i)) ?i)"
      using kv_busyD(3) [OF b3] by simp
    have abs4: "fst (kv_abs s4) = es" "snd (kv_abs s4) t = Some e"
    proof -
      have "kv_abs s3 = (e # es, snd (kv_abs s3))" using kv_busyD(6) [OF b3] Cons by (simp add: kv_abs_def)
      moreover have "fifo_exec (kv_N s3) (kv_abs s3) (Deq t) = Some (kv_abs s4)"
        using kv_linearize [OF kv_busyD(1) [OF b3] st3] kv_busyD(3) [OF b3] by simp
      ultimately have "kv_abs s4 = (es, (snd (kv_abs s3))(t := Some e))"
        by (metis fifo_exec.simps(3) option.inject)
      then show "fst (kv_abs s4) = es" "snd (kv_abs s4) t = Some e" by simp_all
    qed
    have b4: "kv_busy k0 t (Pop_unlock (slot_key (kv_slot s3 ?i)) ?i) ?N es s4 \<and>
        kv_solo NTRY k0 t (Suc m) s3 = kv_solo NTRY k0 t m s4" for m
      by (rule kv_busy_step [OF b3 _ st3]) (use pc4 abs4(1) in \<open>auto simp: kv_abs_def\<close>)
    obtain s5 v where s5: "kv_solo NTRY k0 t 3 s4 = Some s5" "(slot_key (kv_slot s3 ?i), v) = e"
        and b5: "kv_busy k0 t (Pop_done (slot_key (kv_slot s3 ?i)) (Some v)) ?N es s5"
      using kv_solo_pop_finish [OF conjunct1 [OF b4] abs4(2)] by metis
    have "kv_solo NTRY k0 t 6 ?s1 = kv_solo NTRY k0 t 3 s4"
      using f2 [of 5] f3 [of 4] conjunct2 [OF b4 [of 3]] by (simp only: numeral_eq_Suc pred_numeral_simps BitM.simps)
    with s5 have "kv_deq NTRY k0 t s = Some (Some e, s5)"
      using ex kv_busyD(3) [OF b5] by (simp add: kv_deq_def)
    then show ?thesis using Cons kv_busy_rest [OF b5] kv_busyD(5,6) [OF b5] by simp
  qed
qed

interpretation kvf: bounded_fifo "kv_enq (Suc n) k0 t" "kv_deq (Suc n) k0 t" kv_queue "kv_quiet k0" kv_N
    "\<lambda>e. fst e \<noteq> k0" for n k0 t
  apply unfold_locales
  subgoal for s e using kv_enq_quiet [of k0 s e "Suc n" t] by auto
  subgoal for s e using kv_enq_quiet [of k0 s e "Suc n" t] by auto
  subgoal for s e es using kv_deq_quiet [of k0 s "Suc n" t] by auto
  subgoal for s using kv_deq_quiet [of k0 s "Suc n" t] by auto
  subgoal for s using kv_queue_bound [of k0 s] by (simp add: kv_quiet_def)
  done

lemma kv_construct_quiet:
  assumes "kv_construct k0 sz bytes = Inr s0"
  shows "kv_quiet k0 s0 \<and> kv_queue s0 = [] \<and> kv_N s0 = unat (kv_capacity s0)"
  using kv_reachable [OF assms, of 0 "[]" s0] assms kv_abs_construct [OF assms]
  by (auto simp: kv_quiet_def kv_abs_def kv_construct_def Let_def split: if_splits)

text \<open>
  Round trip: on a new queue, pushing \<open>es\<close> one after the other accepts exactly as many elements as the
  capacity and refuses the rest, every call returning; popping them gives
  back the accepted ones in the order they were pushed and leaves the queue empty.
\<close>

theorem kv_fill_drain:
  assumes "kv_construct k0 sz bytes = Inr s0" and "0 < NTRY" and "\<forall>e\<in>set es. fst e \<noteq> k0"
  shows "\<exists>s s'. enq_list (kv_enq NTRY k0 t) s0 es = Some (min (length es) (unat (kv_capacity s0)), s) \<and>
           deq_list (kv_deq NTRY k0 u) (length es) s = Some (take (unat (kv_capacity s0)) es, s') \<and>
           kv_queue s' = []"
proof -
  obtain n where n: "NTRY = Suc n" using assms(2) by (cases NTRY) auto
  note q0 = kv_construct_quiet [OF assms(1)]
  obtain s where s: "enq_list (kv_enq NTRY k0 t) s0 es = Some (min (length es) (unat (kv_capacity s0)), s)"
      "kv_quiet k0 s" "kv_queue s = take (unat (kv_capacity s0)) es"
    using kvf.enq_list_accepts [of k0 s0 es n t] q0 assms(3) n by auto
  have "take (length es) (kv_queue s) = take (unat (kv_capacity s0)) es" "drop (length es) (kv_queue s) = []"
    using s(3) by (simp_all add: min_def)
  with s kvf.deq_list_takes [OF s(2), of n u "length es"] n show ?thesis by fastforce
qed

theorem kv_fill_drain_witness:
  "\<exists>s s'. enq_list (kv_enq 2 0 0) kv_demo0 [(1, 10), (2, 20)] = Some (2, s) \<and>
     deq_list (kv_deq 2 0 7) 2 s = Some ([(1, 10), (2, 20)], s') \<and> kv_queue s' = []"
proof -
  have "unat (kv_capacity kv_demo0) = 8" by (simp add: kv_demo0_def)
  with kv_fill_drain [OF kv_demo0_construct, of 2 "[(1, 10), (2, 20)]" 0 7] show ?thesis
    by (simp add: numeral_2_eq_2)
qed

text \<open>
  Construction: the constructor aborts exactly when the buffer has no room for eight slots, and otherwise
  the capacity is the largest power of two of slots that fits.
\<close>

theorem kv_construct_capacity:
  "(kv_construct k0 sz bytes = (Inl Abort :: cxx_error + ('k, 'v) kvq) \<longleftrightarrow> unat (bytes div sz) < 8) \<and>
   (\<forall>s. kv_construct k0 sz bytes = (Inr s :: cxx_error + ('k, 'v) kvq) \<longrightarrow>
      (\<exists>c\<ge>3. unat (kv_capacity s) = 2 ^ c \<and> 2 ^ c \<le> unat (bytes div sz) \<and> unat (bytes div sz) < 2 * 2 ^ c))"
proof (cases "bytes div sz = 0")
  case True
  then show ?thesis by (simp add: kv_construct_def bit_floor_def)
next
  case False
  let ?w = "bytes div sz"
  obtain c where c: "bit_floor ?w = 2 ^ c" "c < 64" "2 ^ c \<le> unat ?w" "unat ?w < 2 * 2 ^ c"
    using bit_floor_bounds [OF False] by blast
  have lt: "bit_floor ?w < 8 \<longleftrightarrow> c < 3"
    using c power_strict_increasing_iff [of "2 :: nat" c 3] by (simp add: word_less_nat_alt unat_pow2)
  have "unat ?w < 8 \<longleftrightarrow> c < 3"
  proof
    assume "unat ?w < 8"
    with c(3) have "(2 :: nat) ^ c < 2 ^ 3" by simp
    then show "c < 3" by (rule power_less_imp_less_exp [rotated]) simp
  next
    assume "c < 3"
    then have "(2 :: nat) ^ Suc c \<le> 2 ^ 3" by (intro power_increasing) auto
    with c(4) show "unat ?w < 8" by simp
  qed
  with lt c show ?thesis by (auto simp: kv_construct_def Let_def unat_pow2 intro!: exI [of _ c])
qed

theorem kv_construct_capacity_witness:
  "unat (kv_capacity kv_demo0) = 8 \<and> (\<exists>c\<ge>3. (8 :: nat) = 2 ^ c \<and> (2 :: nat) ^ c \<le> unat (35 div 4 :: size_t))"
proof -
  have "unat (kv_capacity kv_demo0) = 8" by (simp add: kv_demo0_def)
  moreover have "\<exists>c\<ge>3. unat (kv_capacity kv_demo0) = 2 ^ c \<and> (2 :: nat) ^ c \<le> unat (35 div 4 :: size_t)"
    using kv_construct_capacity [where 'k = nat and 'v = nat, of 0 4 35] kv_demo0_construct by blast
  ultimately show ?thesis by simp
qed

end
