(* ===== verification/Key_Queue.thy ===== *)
theory Key_Queue
  imports Ring_Queue Fifo_Spec
begin

text \<open>
  \<^verbatim>\<open>ConcurrentQueue/concurrent_queue.h\<close>, the key-only queue (\<open>Value = void\<close>): the key of a slot is the whole
  state of the slot, \<open>Key{}\<close> (here \<open>k0\<close>) for an empty one.  Producers hold the tail lock for the
  whole of \<open>push\<close>, consumers the head lock for the whole of \<open>pop\<close>, and the two sides meet only in
  the atomic keys.  One action is one access to a lock word or a key, with the index increment next to it.
  The fields \<open>kq_pushed\<close> and \<open>kq_popped\<close> are history.
\<close>

section \<open>State and operations\<close>

datatype 'k kq_pc =
    Kq_idle
  | Kpush_lock 'k
  | Kpush_try 'k nat
  | Kpush_store 'k
  | Kpush_unlock bool
  | Kpush_done bool
  | Kpop_lock
  | Kpop_load
  | Kpop_store 'k
  | Kpop_unlock 'k
  | Kpop_done 'k
  | Kempty_lock
  | Kempty_load
  | Kempty_unlock bool
  | Kempty_done bool

record 'k kq =
  kq_slots :: "'k list"
  kq_capacity :: size_t
  kq_mask :: size_t
  kq_tail_l :: int
  kq_tail_i :: size_t
  kq_head_l :: int
  kq_head_i :: size_t
  kq_pcs :: "tid \<Rightarrow> 'k kq_pc"
  kq_pushed :: "'k list"
  kq_popped :: nat

datatype 'k kq_action = Kcall_push tid 'k | Kcall_pop tid | Kcall_empty tid | Kq_step tid

definition kq_construct :: "'k \<Rightarrow> size_t \<Rightarrow> size_t \<Rightarrow> cxx_error + 'k kq" where
  "kq_construct k0 sizeof_slot bytes =
     (let capacity = bit_floor (bytes div sizeof_slot) in
      if capacity < 8 then Inl Abort
      else Inr \<lparr>kq_slots = replicate (unat capacity) k0, kq_capacity = capacity, kq_mask = capacity - 1,
                kq_tail_l = 0, kq_tail_i = 0, kq_head_l = 0, kq_head_i = 0,
                kq_pcs = (\<lambda>_. Kq_idle), kq_pushed = [], kq_popped = 0\<rparr>)"

definition kq_tail :: "'k kq \<Rightarrow> nat" where
  "kq_tail s = unat (kq_tail_i s AND kq_mask s)"

definition kq_head :: "'k kq \<Rightarrow> nat" where
  "kq_head s = unat (kq_head_i s AND kq_mask s)"

definition kq_goto :: "tid \<Rightarrow> 'k kq_pc \<Rightarrow> 'k kq \<Rightarrow> 'k kq" where
  "kq_goto t p s = s\<lparr>kq_pcs := (kq_pcs s)(t := p)\<rparr>"

text \<open>\<open>push(key)\<close>, \<open>pop()\<close> and \<open>empty()\<close>.\<close>

fun kq_step :: "nat \<Rightarrow> 'k \<Rightarrow> tid \<Rightarrow> 'k kq_pc \<Rightarrow> 'k kq \<Rightarrow> 'k kq option" where
  "kq_step NTRY k0 t (Kpush_lock k) s =
     (case ttas (kq_tail_l s) of
        (True, l) \<Rightarrow> Some (kq_goto t (if 0 \<noteq> NTRY then Kpush_try k 0 else Kpush_unlock False) (s\<lparr>kq_tail_l := l\<rparr>))
      | (False, l) \<Rightarrow> Some s)"
| "kq_step NTRY k0 t (Kpush_try k i) s =
     (if kq_slots s ! kq_tail s = k0 then Some (kq_goto t (Kpush_store k) s)
      else if Suc i \<noteq> NTRY then Some (kq_goto t (Kpush_try k (Suc i)) s)
      else Some (kq_goto t (Kpush_unlock False) s))"
| "kq_step NTRY k0 t (Kpush_store k) s =
     Some (kq_goto t (Kpush_unlock True)
       (s\<lparr>kq_slots := (kq_slots s)[kq_tail s := k], kq_tail_i := kq_tail_i s + 1,
          kq_pushed := kq_pushed s @ [k]\<rparr>))"
| "kq_step NTRY k0 t (Kpush_unlock b) s =
     Some (kq_goto t (Kpush_done b) (s\<lparr>kq_tail_l := unlock (kq_tail_l s)\<rparr>))"
| "kq_step NTRY k0 t Kpop_lock s =
     (case ttas (kq_head_l s) of
        (True, l) \<Rightarrow> Some (kq_goto t Kpop_load (s\<lparr>kq_head_l := l\<rparr>))
      | (False, l) \<Rightarrow> Some s)"
| "kq_step NTRY k0 t Kpop_load s =
     (let ret = kq_slots s ! kq_head s in
      if ret = k0 then Some (kq_goto t (Kpop_unlock k0) s)
      else Some (kq_goto t (Kpop_store ret) s))"
| "kq_step NTRY k0 t (Kpop_store ret) s =
     Some (kq_goto t (Kpop_unlock ret)
       (s\<lparr>kq_slots := (kq_slots s)[kq_head s := k0], kq_head_i := kq_head_i s + 1,
          kq_popped := Suc (kq_popped s)\<rparr>))"
| "kq_step NTRY k0 t (Kpop_unlock ret) s =
     Some (kq_goto t (Kpop_done ret) (s\<lparr>kq_head_l := unlock (kq_head_l s)\<rparr>))"
| "kq_step NTRY k0 t Kempty_lock s =
     (case ttas (kq_head_l s) of
        (True, l) \<Rightarrow> Some (kq_goto t Kempty_load (s\<lparr>kq_head_l := l\<rparr>))
      | (False, l) \<Rightarrow> Some s)"
| "kq_step NTRY k0 t Kempty_load s =
     Some (kq_goto t (Kempty_unlock (kq_slots s ! kq_head s = k0)) s)"
| "kq_step NTRY k0 t (Kempty_unlock b) s =
     Some (kq_goto t (Kempty_done b) (s\<lparr>kq_head_l := unlock (kq_head_l s)\<rparr>))"
| "kq_step NTRY k0 t _ s = None"

fun kq_at_rest :: "'k kq_pc \<Rightarrow> bool" where
  "kq_at_rest Kq_idle = True"
| "kq_at_rest (Kpush_done b) = True"
| "kq_at_rest (Kpop_done r) = True"
| "kq_at_rest (Kempty_done b) = True"
| "kq_at_rest _ = False"

fun kq_exec :: "nat \<Rightarrow> 'k \<Rightarrow> 'k kq \<Rightarrow> 'k kq_action \<Rightarrow> 'k kq option" where
  "kq_exec NTRY k0 s (Kcall_push t k) =
     (if kq_at_rest (kq_pcs s t) \<and> k \<noteq> k0 then Some (kq_goto t (Kpush_lock k) s) else None)"
| "kq_exec NTRY k0 s (Kcall_pop t) = (if kq_at_rest (kq_pcs s t) then Some (kq_goto t Kpop_lock s) else None)"
| "kq_exec NTRY k0 s (Kcall_empty t) = (if kq_at_rest (kq_pcs s t) then Some (kq_goto t Kempty_lock s) else None)"
| "kq_exec NTRY k0 s (Kq_step t) = kq_step NTRY k0 t (kq_pcs s t) s"

text \<open>The destructor clears the keys of \<open>[head_.i, tail_.i)\<close>.\<close>

fun kq_drain :: "'k \<Rightarrow> nat \<Rightarrow> size_t \<Rightarrow> 'k kq \<Rightarrow> 'k kq" where
  "kq_drain k0 0 i s = s"
| "kq_drain k0 (Suc n) i s = kq_drain k0 n (i + 1) (s\<lparr>kq_slots := (kq_slots s)[unat (i AND kq_mask s) := k0]\<rparr>)"

definition kq_destroy :: "'k \<Rightarrow> 'k kq \<Rightarrow> 'k kq" where
  "kq_destroy k0 s = kq_drain k0 (unat (kq_tail_i s - kq_head_i s)) (kq_head_i s) s"

section \<open>Invariant\<close>

fun kq_holds_tail :: "'k kq_pc \<Rightarrow> bool" where
  "kq_holds_tail (Kpush_try k i) = True"
| "kq_holds_tail (Kpush_store k) = True"
| "kq_holds_tail (Kpush_unlock b) = True"
| "kq_holds_tail _ = False"

fun kq_holds_head :: "'k kq_pc \<Rightarrow> bool" where
  "kq_holds_head Kpop_load = True"
| "kq_holds_head (Kpop_store k) = True"
| "kq_holds_head (Kpop_unlock k) = True"
| "kq_holds_head Kempty_load = True"
| "kq_holds_head (Kempty_unlock b) = True"
| "kq_holds_head _ = False"

abbreviation kq_N :: "'k kq \<Rightarrow> nat" where
  "kq_N s \<equiv> length (kq_slots s)"

abbreviation kq_T :: "'k kq \<Rightarrow> nat" where
  "kq_T s \<equiv> length (kq_pushed s)"

definition kq_geom :: "'k kq \<Rightarrow> bool" where
  "kq_geom s \<longleftrightarrow> (\<exists>c. 3 \<le> c \<and> c < 64 \<and> kq_N s = 2 ^ c \<and> kq_capacity s = 2 ^ c \<and> kq_mask s = mask c)"

text \<open>The data of the ring: the queued keys in their slots, every other slot empty.\<close>

definition kq_ring :: "'k \<Rightarrow> 'k kq \<Rightarrow> bool" where
  "kq_ring k0 s \<longleftrightarrow>
     kq_geom s \<and> kq_tail_i s = of_nat (kq_T s) \<and> kq_head_i s = of_nat (kq_popped s) \<and>
     kq_popped s \<le> kq_T s \<and> kq_T s \<le> kq_popped s + kq_N s \<and> k0 \<notin> set (kq_pushed s) \<and>
     (\<forall>j. kq_popped s \<le> j \<longrightarrow> j < kq_T s \<longrightarrow> kq_slots s ! (j mod kq_N s) = kq_pushed s ! j) \<and>
     (\<forall>j. kq_T s \<le> j \<longrightarrow> j < kq_popped s + kq_N s \<longrightarrow> kq_slots s ! (j mod kq_N s) = k0)"

fun kq_pc_ok :: "'k \<Rightarrow> 'k kq \<Rightarrow> 'k kq_pc \<Rightarrow> bool" where
  "kq_pc_ok k0 s (Kpush_lock k) \<longleftrightarrow> k \<noteq> k0"
| "kq_pc_ok k0 s (Kpush_try k i) \<longleftrightarrow> k \<noteq> k0"
| "kq_pc_ok k0 s (Kpush_store k) \<longleftrightarrow> k \<noteq> k0 \<and> kq_T s < kq_popped s + kq_N s"
| "kq_pc_ok k0 s (Kpop_store r) \<longleftrightarrow> kq_popped s < kq_T s \<and> r = kq_pushed s ! kq_popped s"
| "kq_pc_ok k0 s _ \<longleftrightarrow> True"

definition kq_inv :: "'k \<Rightarrow> 'k kq \<Rightarrow> bool" where
  "kq_inv k0 s \<longleftrightarrow> kq_ring k0 s \<and> (\<forall>t. kq_pc_ok k0 s (kq_pcs s t)) \<and>
     spin_owned (kq_tail_l s) {t. kq_holds_tail (kq_pcs s t)} \<and>
     spin_owned (kq_head_l s) {t. kq_holds_head (kq_pcs s t)}"

lemma kq_goto_simps [simp]:
  "kq_slots (kq_goto t p s) = kq_slots s" "kq_capacity (kq_goto t p s) = kq_capacity s"
  "kq_mask (kq_goto t p s) = kq_mask s" "kq_tail_l (kq_goto t p s) = kq_tail_l s"
  "kq_tail_i (kq_goto t p s) = kq_tail_i s" "kq_head_l (kq_goto t p s) = kq_head_l s"
  "kq_head_i (kq_goto t p s) = kq_head_i s" "kq_pcs (kq_goto t p s) = (kq_pcs s)(t := p)"
  "kq_pushed (kq_goto t p s) = kq_pushed s" "kq_popped (kq_goto t p s) = kq_popped s"
  by (simp_all add: kq_goto_def)

lemma kq_invD:
  assumes "kq_inv k0 s"
  shows "kq_ring k0 s" "kq_pc_ok k0 s (kq_pcs s t)"
    "spin_owned (kq_tail_l s) {t. kq_holds_tail (kq_pcs s t)}"
    "spin_owned (kq_head_l s) {t. kq_holds_head (kq_pcs s t)}"
  using assms by (auto simp: kq_inv_def)

lemma kq_ringD:
  assumes "kq_ring k0 s"
  shows "kq_geom s" "kq_tail_i s = of_nat (kq_T s)" "kq_head_i s = of_nat (kq_popped s)"
    "kq_popped s \<le> kq_T s" "kq_T s \<le> kq_popped s + kq_N s" "k0 \<notin> set (kq_pushed s)"
    "kq_popped s \<le> j \<Longrightarrow> j < kq_T s \<Longrightarrow> kq_slots s ! (j mod kq_N s) = kq_pushed s ! j"
    "kq_T s \<le> j \<Longrightarrow> j < kq_popped s + kq_N s \<Longrightarrow> kq_slots s ! (j mod kq_N s) = k0"
  using assms unfolding kq_ring_def by blast+

lemma kq_geom_N: "kq_geom s \<Longrightarrow> 0 < kq_N s \<and> kq_N s \<le> 2 ^ 63"
  by (auto simp: kq_geom_def simp del: power_numeral intro: pow_le_size)

lemma kq_index:
  assumes "kq_ring k0 s"
  shows "kq_tail s = kq_T s mod kq_N s" "kq_head s = kq_popped s mod kq_N s"
proof -
  have "unat (of_nat j AND kq_mask s) = j mod kq_N s" for j
    using kq_ringD(1) [OF assms]
    by (auto simp: kq_geom_def unat_and_mask unat_of_nat mod_size_mod)
  then show "kq_tail s = kq_T s mod kq_N s" "kq_head s = kq_popped s mod kq_N s"
    using kq_ringD(2,3) [OF assms] by (simp_all add: kq_tail_def kq_head_def)
qed

text \<open>The tests of \<open>push\<close> and of \<open>pop\<close> are exact: an empty slot at the tail means room, an empty slot at the
  head means no element.\<close>

lemma kq_tail_test:
  assumes r: "kq_ring k0 s"
  shows "kq_slots s ! kq_tail s = k0 \<longleftrightarrow> kq_T s < kq_popped s + kq_N s"
proof
  assume e: "kq_slots s ! kq_tail s = k0"
  show "kq_T s < kq_popped s + kq_N s"
  proof (rule ccontr)
    assume "\<not> kq_T s < kq_popped s + kq_N s"
    then have full: "kq_T s = kq_popped s + kq_N s" using kq_ringD(5) [OF r] by simp
    have "0 < kq_N s" using kq_geom_N [OF kq_ringD(1) [OF r]] by simp
    then have "kq_popped s < kq_T s" using full by simp
    then have "kq_slots s ! (kq_popped s mod kq_N s) = kq_pushed s ! kq_popped s"
      "kq_pushed s ! kq_popped s \<in> set (kq_pushed s)"
      using kq_ringD(7) [OF r] by simp_all
    with e full kq_ringD(6) [OF r] kq_index(1) [OF r] show False by auto
  qed
next
  assume "kq_T s < kq_popped s + kq_N s"
  with kq_ringD(8) [OF r order_refl] kq_index(1) [OF r] show "kq_slots s ! kq_tail s = k0" by simp
qed

lemma kq_head_test:
  assumes r: "kq_ring k0 s"
  shows "kq_slots s ! kq_head s = (if kq_popped s < kq_T s then kq_pushed s ! kq_popped s else k0)"
proof (cases "kq_popped s < kq_T s")
  case True
  with kq_ringD(7) [OF r order_refl True] kq_index(2) [OF r] show ?thesis by simp
next
  case False
  have "0 < kq_N s" using kq_geom_N [OF kq_ringD(1) [OF r]] by simp
  with False kq_ringD(4) [OF r] kq_ringD(8) [OF r, of "kq_popped s"] kq_index(2) [OF r] show ?thesis by simp
qed

lemma kq_push_ring:
  assumes r: "kq_ring k0 s" and room: "kq_T s < kq_popped s + kq_N s" and "k \<noteq> k0"
    and slots: "kq_slots s' = (kq_slots s)[kq_tail s := k]"
    and s': "kq_tail_i s' = kq_tail_i s + 1" "kq_pushed s' = kq_pushed s @ [k]"
      "kq_head_i s' = kq_head_i s" "kq_popped s' = kq_popped s" "kq_capacity s' = kq_capacity s" "kq_mask s' = kq_mask s"
  shows "kq_ring k0 s'"
proof -
  let ?T = "kq_T s" and ?H = "kq_popped s" and ?N = "kq_N s"
  have N: "0 < ?N" using kq_geom_N [OF kq_ringD(1) [OF r]] by simp
  have i: "kq_tail s = ?T mod ?N" by (rule kq_index [OF r])
  have N': "kq_N s' = ?N" using slots by simp
  have ne: "j mod ?N \<noteq> ?T mod ?N" if "?H \<le> j" "j < ?H + ?N" "j \<noteq> ?T" for j
    using window_mod_inj [of j ?N ?T "?H + ?N"] that room kq_ringD(4) [OF r] by auto
  have "kq_slots s' ! (j mod ?N) = kq_pushed s' ! j" if "?H \<le> j" "j < Suc ?T" for j
    using ne [of j] that room slots i N s' kq_ringD(7) [OF r, of j] by (cases "j = ?T") (auto simp: nth_append)
  moreover have "kq_slots s' ! (j mod ?N) = k0" if "Suc ?T \<le> j" "j < ?H + ?N" for j
    using ne [of j] that slots i kq_ringD(4) [OF r] kq_ringD(8) [OF r, of j] by auto
  moreover have "kq_geom s'" using kq_ringD(1) [OF r] N' s' by (simp add: kq_geom_def)
  ultimately show ?thesis
    using kq_ringD(2-6) [OF r] room assms(3) s' N' by (auto simp: kq_ring_def add.commute)
qed

lemma kq_pop_ring:
  assumes r: "kq_ring k0 s" and some: "kq_popped s < kq_T s"
    and slots: "kq_slots s' = (kq_slots s)[kq_head s := k0]"
    and s': "kq_head_i s' = kq_head_i s + 1" "kq_popped s' = Suc (kq_popped s)"
      "kq_tail_i s' = kq_tail_i s" "kq_pushed s' = kq_pushed s" "kq_capacity s' = kq_capacity s" "kq_mask s' = kq_mask s"
  shows "kq_ring k0 s'"
proof -
  let ?T = "kq_T s" and ?H = "kq_popped s" and ?N = "kq_N s"
  have N: "0 < ?N" using kq_geom_N [OF kq_ringD(1) [OF r]] by simp
  have i: "kq_head s = ?H mod ?N" by (rule kq_index [OF r])
  have N': "kq_N s' = ?N" using slots by simp
  have ne: "j mod ?N \<noteq> ?H mod ?N" if "?H < j" "j < ?H + ?N" for j
    using window_mod_inj [of j ?N ?H "?H + ?N"] that N by auto
  have "kq_slots s' ! (j mod ?N) = kq_pushed s' ! j" if "Suc ?H \<le> j" "j < ?T" for j
    using ne [of j] that slots i s' kq_ringD(5) [OF r] kq_ringD(7) [OF r, of j] by auto
  moreover have "kq_slots s' ! (j mod ?N) = k0" if "?T \<le> j" "j < Suc ?H + ?N" for j
  proof (cases "j = ?H + ?N")
    case True
    then show ?thesis using slots i N by simp
  next
    case False
    with ne [of j] that slots i some kq_ringD(8) [OF r, of j] show ?thesis by auto
  qed
  moreover have "kq_geom s'" using kq_ringD(1) [OF r] N' s' by (simp add: kq_geom_def)
  ultimately show ?thesis
    using kq_ringD(2-6) [OF r] some s' N' by (auto simp: kq_ring_def add.commute)
qed

section \<open>Every step keeps the invariant\<close>

lemma kq_owner:
  assumes "kq_inv k0 s"
  shows "kq_holds_tail (kq_pcs s t) \<Longrightarrow> kq_holds_tail (kq_pcs s u) \<Longrightarrow> t = u"
    and "kq_holds_head (kq_pcs s t) \<Longrightarrow> kq_holds_head (kq_pcs s u) \<Longrightarrow> t = u"
  using spin.exclusive [OF kq_invD(3) [OF assms], of t u] spin.exclusive [OF kq_invD(4) [OF assms], of t u] by auto

lemma kq_pc_ok_frame:
  assumes "kq_pc_ok k0 s p" and "kq_N s' = kq_N s" and "kq_pushed s' = kq_pushed s @ xs"
    and "kq_popped s \<le> kq_popped s'" and "kq_holds_tail p \<Longrightarrow> xs = []"
    and "kq_holds_head p \<Longrightarrow> kq_popped s' = kq_popped s"
  shows "kq_pc_ok k0 s' p"
  using assms by (cases p) (auto simp: nth_append)

lemma kq_step_frame:
  assumes inv: "kq_inv k0 s" and pcs: "kq_pcs s' = (kq_pcs s)(t := p)" and ring: "kq_ring k0 s'"
    and N: "kq_N s' = kq_N s" and pushed: "kq_pushed s' = kq_pushed s @ xs" and popped: "kq_popped s \<le> kq_popped s'"
    and tail: "xs \<noteq> [] \<Longrightarrow> kq_holds_tail (kq_pcs s t)"
    and head: "kq_popped s' \<noteq> kq_popped s \<Longrightarrow> kq_holds_head (kq_pcs s t)"
    and self: "kq_pc_ok k0 s' p"
    and tl: "spin_owned (kq_tail_l s') {u. kq_holds_tail (kq_pcs s' u)}"
    and hl: "spin_owned (kq_head_l s') {u. kq_holds_head (kq_pcs s' u)}"
  shows "kq_inv k0 s'"
proof -
  have "kq_pc_ok k0 s' (kq_pcs s' u)" for u
  proof (cases "u = t")
    case True
    with self pcs show ?thesis by simp
  next
    case False
    have "kq_pc_ok k0 s' (kq_pcs s u)"
      by (rule kq_pc_ok_frame [OF kq_invD(2) [OF inv] N pushed popped])
        (use kq_owner [OF inv, of u t] False tail head in blast)+
    with False pcs show ?thesis by simp
  qed
  with ring tl hl show ?thesis by (simp add: kq_inv_def)
qed

text \<open>What a step does to the two lock words and their holders.\<close>

lemma kq_set_upd:
  "{u. kq_holds_tail (((kq_pcs s)(t := p)) u)} =
     (if kq_holds_tail p then insert t {u. kq_holds_tail (kq_pcs s u)} else {u. kq_holds_tail (kq_pcs s u)} - {t})"
  "{u. kq_holds_head (((kq_pcs s)(t := p)) u)} =
     (if kq_holds_head p then insert t {u. kq_holds_head (kq_pcs s u)} else {u. kq_holds_head (kq_pcs s u)} - {t})"
  by auto

lemma kq_tail_lock:
  assumes inv: "kq_inv k0 s"
  shows "kq_holds_tail p = kq_holds_tail (kq_pcs s t) \<Longrightarrow>
      spin_owned (kq_tail_l s) {u. kq_holds_tail (((kq_pcs s)(t := p)) u)}"
    and "ttas (kq_tail_l s) = (True, l) \<Longrightarrow> kq_holds_tail p \<Longrightarrow>
      spin_owned l {u. kq_holds_tail (((kq_pcs s)(t := p)) u)}"
    and "kq_holds_tail (kq_pcs s t) \<Longrightarrow> \<not> kq_holds_tail p \<Longrightarrow>
      spin_owned (unlock (kq_tail_l s)) {u. kq_holds_tail (((kq_pcs s)(t := p)) u)}"
proof -
  note own = kq_invD(3) [OF inv]
  show "spin_owned (kq_tail_l s) {u. kq_holds_tail (((kq_pcs s)(t := p)) u)}"
    if "kq_holds_tail p = kq_holds_tail (kq_pcs s t)"
  proof -
    have "{u. kq_holds_tail (((kq_pcs s)(t := p)) u)} = {u. kq_holds_tail (kq_pcs s u)}" using that by auto
    with own show ?thesis by simp
  qed
  show "spin_owned l {u. kq_holds_tail (((kq_pcs s)(t := p)) u)}"
    if "ttas (kq_tail_l s) = (True, l)" "kq_holds_tail p"
    using spin.acquire_owned [OF own that(1), of t] that(2) unfolding kq_set_upd by simp
  show "spin_owned (unlock (kq_tail_l s)) {u. kq_holds_tail (((kq_pcs s)(t := p)) u)}"
    if "kq_holds_tail (kq_pcs s t)" "\<not> kq_holds_tail p"
  proof -
    have "{u. kq_holds_tail (kq_pcs s u)} = {t}" using kq_owner(1) [OF inv that(1)] that(1) by blast
    with own spin.release_owned [of "kq_tail_l s" t] that(2) show ?thesis unfolding kq_set_upd by simp
  qed
qed

lemma kq_head_lock:
  assumes inv: "kq_inv k0 s"
  shows "kq_holds_head p = kq_holds_head (kq_pcs s t) \<Longrightarrow>
      spin_owned (kq_head_l s) {u. kq_holds_head (((kq_pcs s)(t := p)) u)}"
    and "ttas (kq_head_l s) = (True, l) \<Longrightarrow> kq_holds_head p \<Longrightarrow>
      spin_owned l {u. kq_holds_head (((kq_pcs s)(t := p)) u)}"
    and "kq_holds_head (kq_pcs s t) \<Longrightarrow> \<not> kq_holds_head p \<Longrightarrow>
      spin_owned (unlock (kq_head_l s)) {u. kq_holds_head (((kq_pcs s)(t := p)) u)}"
proof -
  note own = kq_invD(4) [OF inv]
  show "spin_owned (kq_head_l s) {u. kq_holds_head (((kq_pcs s)(t := p)) u)}"
    if "kq_holds_head p = kq_holds_head (kq_pcs s t)"
  proof -
    have "{u. kq_holds_head (((kq_pcs s)(t := p)) u)} = {u. kq_holds_head (kq_pcs s u)}" using that by auto
    with own show ?thesis by simp
  qed
  show "spin_owned l {u. kq_holds_head (((kq_pcs s)(t := p)) u)}"
    if "ttas (kq_head_l s) = (True, l)" "kq_holds_head p"
    using spin.acquire_owned [OF own that(1), of t] that(2) unfolding kq_set_upd by simp
  show "spin_owned (unlock (kq_head_l s)) {u. kq_holds_head (((kq_pcs s)(t := p)) u)}"
    if "kq_holds_head (kq_pcs s t)" "\<not> kq_holds_head p"
  proof -
    have "{u. kq_holds_head (kq_pcs s u)} = {t}" using kq_owner(2) [OF inv that(1)] that(1) by blast
    with own spin.release_owned [of "kq_head_l s" t] that(2) show ?thesis unfolding kq_set_upd by simp
  qed
qed

lemma kq_ring_cong:
  "kq_ring k0 s \<Longrightarrow> kq_slots s' = kq_slots s \<Longrightarrow> kq_capacity s' = kq_capacity s \<Longrightarrow> kq_mask s' = kq_mask s \<Longrightarrow>
   kq_tail_i s' = kq_tail_i s \<Longrightarrow> kq_head_i s' = kq_head_i s \<Longrightarrow> kq_pushed s' = kq_pushed s \<Longrightarrow>
   kq_popped s' = kq_popped s \<Longrightarrow> kq_ring k0 s'"
  by (simp add: kq_ring_def kq_geom_def)

lemma kq_quiet_step_inv:
  assumes inv: "kq_inv k0 s"
    and same: "kq_slots s' = kq_slots s" "kq_capacity s' = kq_capacity s" "kq_mask s' = kq_mask s"
      "kq_tail_i s' = kq_tail_i s" "kq_head_i s' = kq_head_i s" "kq_pushed s' = kq_pushed s" "kq_popped s' = kq_popped s"
    and pcs: "kq_pcs s' = (kq_pcs s)(t := p)" and ok: "kq_pc_ok k0 s p"
    and tl: "spin_owned (kq_tail_l s') {u. kq_holds_tail (((kq_pcs s)(t := p)) u)}"
    and hl: "spin_owned (kq_head_l s') {u. kq_holds_head (((kq_pcs s)(t := p)) u)}"
  shows "kq_inv k0 s'"
proof (rule kq_step_frame [OF inv pcs, where xs = "[]"])
  show "kq_ring k0 s'" by (rule kq_ring_cong [OF kq_invD(1) [OF inv]]) (simp_all add: same)
  show "kq_pc_ok k0 s' p" by (rule kq_pc_ok_frame [OF ok, where xs = "[]"]) (simp_all add: same)
qed (use tl hl in \<open>simp_all add: same pcs\<close>)

lemma kq_exec_inv:
  assumes inv: "kq_inv k0 s" and ex: "kq_exec NTRY k0 s a = Some s'"
  shows "kq_inv k0 s'"
proof (cases a)
  case (Kq_step t)
  note ring = kq_invD(1) [OF inv] and ok = kq_invD(2) [OF inv, of t]
  note tl = kq_tail_lock [OF inv, where t = t] and hl = kq_head_lock [OF inv, where t = t]
  have st: "kq_step NTRY k0 t (kq_pcs s t) s = Some s'" using ex Kq_step by simp
  show ?thesis
  proof (cases "kq_pcs s t")
    case (Kpush_lock k)
    show ?thesis
    proof (cases "ttas (kq_tail_l s)")
      case (Pair b l)
      with st ok Kpush_lock inv tl(2) hl(1) show ?thesis
        by (cases b) (auto intro!: kq_quiet_step_inv [OF inv, where t = t] simp del: fun_upd_apply)
    qed
  next
    case (Kpush_try k i)
    with st kq_tail_test [OF ring]
    have "s' = kq_goto t (if kq_T s < kq_popped s + kq_N s then Kpush_store k
        else if Suc i \<noteq> NTRY then Kpush_try k (Suc i) else Kpush_unlock False) s"
      by (auto split: if_splits)
    with Kpush_try ok tl(1) hl(1) show ?thesis
      by (auto intro!: kq_quiet_step_inv [OF inv, where t = t] simp del: fun_upd_apply)
  next
    case (Kpush_store k)
    show ?thesis
    proof (rule kq_step_frame [OF inv, where t = t and p = "Kpush_unlock True" and xs = "[k]"])
      show "kq_ring k0 s'"
        by (rule kq_push_ring [OF ring, of k]) (use st ok Kpush_store in auto)
    qed (use st Kpush_store tl(1) hl(1) in \<open>auto simp del: fun_upd_apply\<close>)
  next
    case (Kpush_unlock b)
    with st tl(3) hl(1) show ?thesis
      by (auto intro!: kq_quiet_step_inv [OF inv, where t = t] simp del: fun_upd_apply)
  next
    case Kpop_lock
    show ?thesis
    proof (cases "ttas (kq_head_l s)")
      case (Pair b l)
      with st Kpop_lock inv tl(1) hl(2) show ?thesis
        by (cases b) (auto intro!: kq_quiet_step_inv [OF inv, where t = t] simp del: fun_upd_apply)
    qed
  next
    case Kpop_load
    have ne: "kq_pushed s ! kq_popped s \<noteq> k0" if "kq_popped s < kq_T s"
      using kq_ringD(6) [OF ring] that by (metis nth_mem)
    have "s' = kq_goto t (if kq_popped s < kq_T s then Kpop_store (kq_pushed s ! kq_popped s) else Kpop_unlock k0) s"
      using st Kpop_load kq_head_test [OF ring] ne by (auto simp: Let_def split: if_splits)
    with Kpop_load tl(1) hl(1) show ?thesis
      by (auto intro!: kq_quiet_step_inv [OF inv, where t = t] simp del: fun_upd_apply)
  next
    case (Kpop_store r)
    show ?thesis
    proof (rule kq_step_frame [OF inv, where t = t and p = "Kpop_unlock r" and xs = "[]"])
      show "kq_ring k0 s'"
        by (rule kq_pop_ring [OF ring]) (use st ok Kpop_store in auto)
    qed (use st Kpop_store tl(1) hl(1) in \<open>auto simp del: fun_upd_apply\<close>)
  next
    case (Kpop_unlock r)
    with st tl(1) hl(3) show ?thesis
      by (auto intro!: kq_quiet_step_inv [OF inv, where t = t] simp del: fun_upd_apply)
  next
    case Kempty_lock
    show ?thesis
    proof (cases "ttas (kq_head_l s)")
      case (Pair b l)
      with st Kempty_lock inv tl(1) hl(2) show ?thesis
        by (cases b) (auto intro!: kq_quiet_step_inv [OF inv, where t = t] simp del: fun_upd_apply)
    qed
  next
    case Kempty_load
    with st tl(1) hl(1) show ?thesis
      by (auto intro!: kq_quiet_step_inv [OF inv, where t = t] simp del: fun_upd_apply)
  next
    case (Kempty_unlock b)
    with st tl(1) hl(3) show ?thesis
      by (auto intro!: kq_quiet_step_inv [OF inv, where t = t] simp del: fun_upd_apply)
  qed (use st in auto)
next
  case (Kcall_push t k)
  have "\<not> kq_holds_tail (kq_pcs s t) \<and> \<not> kq_holds_head (kq_pcs s t)"
    using ex Kcall_push by (cases "kq_pcs s t") auto
  with ex Kcall_push kq_tail_lock(1) [OF inv] kq_head_lock(1) [OF inv] show ?thesis
    by (auto split: if_splits intro!: kq_quiet_step_inv [OF inv, where t = t] simp del: fun_upd_apply)
next
  case (Kcall_pop t)
  have "\<not> kq_holds_tail (kq_pcs s t) \<and> \<not> kq_holds_head (kq_pcs s t)"
    using ex Kcall_pop by (cases "kq_pcs s t") auto
  with ex Kcall_pop kq_tail_lock(1) [OF inv] kq_head_lock(1) [OF inv] show ?thesis
    by (auto split: if_splits intro!: kq_quiet_step_inv [OF inv, where t = t] simp del: fun_upd_apply)
next
  case (Kcall_empty t)
  have "\<not> kq_holds_tail (kq_pcs s t) \<and> \<not> kq_holds_head (kq_pcs s t)"
    using ex Kcall_empty by (cases "kq_pcs s t") auto
  with ex Kcall_empty kq_tail_lock(1) [OF inv] kq_head_lock(1) [OF inv] show ?thesis
    by (auto split: if_splits intro!: kq_quiet_step_inv [OF inv, where t = t] simp del: fun_upd_apply)
qed

interpretation kqm: machine_invariant "kq_exec NTRY k0" "kq_inv k0" for NTRY k0
  by unfold_locales (rule kq_exec_inv)

section \<open>The queue as an atomic FIFO\<close>

definition kq_queue :: "'k kq \<Rightarrow> 'k list" where
  "kq_queue s = drop (kq_popped s) (kq_pushed s)"

fun kq_result :: "'k \<Rightarrow> 'k kq_pc \<Rightarrow> 'k option" where
  "kq_result k0 (Kpop_unlock r) = (if r = k0 then None else Some r)"
| "kq_result k0 (Kpop_done r) = (if r = k0 then None else Some r)"
| "kq_result k0 _ = None"

definition kq_abs :: "'k \<Rightarrow> 'k kq \<Rightarrow> 'k list \<times> (tid \<Rightarrow> 'k option)" where
  "kq_abs k0 s = (kq_queue s, \<lambda>t. kq_result k0 (kq_pcs s t))"

fun kq_lin :: "'k kq \<Rightarrow> 'k kq_action \<Rightarrow> 'k fifo_action option" where
  "kq_lin s (Kq_step t) =
     (case kq_pcs s t of Kpush_store k \<Rightarrow> Some (Enq k) | Kpop_store r \<Rightarrow> Some (Deq t) | _ \<Rightarrow> None)"
| "kq_lin s (Kcall_push t k) = Some (Fresh t)"
| "kq_lin s (Kcall_pop t) = Some (Fresh t)"
| "kq_lin s (Kcall_empty t) = Some (Fresh t)"

lemma kq_exec_N: "kq_exec NTRY k0 s a = Some s' \<Longrightarrow> kq_N s' = kq_N s"
proof (cases a)
  case (Kq_step t)
  assume "kq_exec NTRY k0 s a = Some s'"
  with Kq_step show ?thesis
    by (cases "kq_pcs s t") (auto simp: Let_def split: prod.splits bool.splits if_splits)
qed (auto split: if_splits)

lemma kq_stutter:
  assumes ex: "kq_exec NTRY k0 s a = Some s'" and lin: "kq_lin s a = None"
  shows "kq_abs k0 s' = kq_abs k0 s"
proof (cases a)
  case (Kq_step t)
  with ex lin have "kq_pushed s' = kq_pushed s \<and> kq_popped s' = kq_popped s \<and>
      (\<forall>u. kq_result k0 (kq_pcs s' u) = kq_result k0 (kq_pcs s u))"
    by (cases "kq_pcs s t") (auto simp: Let_def split: prod.splits bool.splits if_splits)
  then show ?thesis by (simp add: kq_abs_def kq_queue_def)
qed (use lin in auto)

lemma kq_linearize:
  assumes inv: "kq_inv k0 s" and ex: "kq_exec NTRY k0 s a = Some s'" and lin: "kq_lin s a = Some b"
  shows "fifo_exec (kq_N s) (kq_abs k0 s) b = Some (kq_abs k0 s')"
proof (cases a)
  case (Kq_step t)
  note ok = kq_invD(2) [OF inv, of t] and ring = kq_invD(1) [OF inv]
  show ?thesis
  proof (cases "kq_pcs s t")
    case (Kpush_store k)
    have "length (kq_queue s) < kq_N s"
      using ok Kpush_store kq_ringD(4) [OF ring] by (simp add: kq_queue_def less_diff_conv2 add.commute)
    with ex lin Kq_step Kpush_store kq_ringD(4) [OF ring] show ?thesis
      by (auto simp: kq_abs_def kq_queue_def fun_eq_iff)
  next
    case (Kpop_store r)
    then have H: "kq_popped s < kq_T s" "r = kq_pushed s ! kq_popped s" using ok by auto
    then have "r \<noteq> k0" using kq_ringD(6) [OF ring] by (metis nth_mem)
    moreover have "kq_queue s = r # drop (Suc (kq_popped s)) (kq_pushed s)"
      using H by (simp add: kq_queue_def Cons_nth_drop_Suc)
    ultimately show ?thesis
      using ex lin Kq_step Kpop_store by (auto simp: kq_abs_def kq_queue_def fun_eq_iff)
  qed (use lin Kq_step in auto)
qed (use ex lin in \<open>auto simp: kq_abs_def kq_queue_def fun_eq_iff split: if_splits\<close>)

interpretation kqr: machine_refinement "kq_exec NTRY k0" "\<lambda>s. kq_inv k0 s \<and> kq_N s = N"
    "fifo_exec N" "kq_abs k0" kq_lin for NTRY k0 N
proof unfold_locales
qed (auto dest: kq_exec_inv kq_exec_N kq_stutter kq_linearize)

lemma kq_construct_inv:
  assumes "kq_construct k0 sz bytes = Inr s"
  shows "kq_inv k0 s" and "kq_abs k0 s = ([], \<lambda>_. None)" and "kq_N s = unat (kq_capacity s)"
    and "kq_at_rest (kq_pcs s t)"
proof -
  let ?w = "bytes div sz"
  have big: "8 \<le> bit_floor ?w"
    using assms by (auto simp: kq_construct_def Let_def not_less split: if_splits)
  then have "?w \<noteq> 0" by (auto simp: bit_floor_def)
  then obtain c where c: "bit_floor ?w = 2 ^ c" "c < 64"
    by (rule bit_floor_bounds)
  have "(2 :: nat) ^ 3 \<le> 2 ^ c" using big c by (simp add: word_le_nat_alt unat_pow2)
  then have c3: "3 \<le> c" by (rule power_le_imp_le_exp [rotated]) simp
  have s: "s = \<lparr>kq_slots = replicate (2 ^ c) k0, kq_capacity = 2 ^ c, kq_mask = 2 ^ c - 1,
      kq_tail_l = 0, kq_tail_i = 0, kq_head_l = 0, kq_head_i = 0, kq_pcs = (\<lambda>_. Kq_idle), kq_pushed = [], kq_popped = 0\<rparr>"
    using assms big c by (auto simp: kq_construct_def Let_def unat_pow2 split: if_splits)
  have "kq_geom s" using c(2) c3 s unfolding kq_geom_def by (intro exI [of _ c]) (simp add: mask_eq_exp_minus_1)
  then show "kq_inv k0 s" using s by (auto simp: kq_inv_def kq_ring_def spin_owned_def)
  show "kq_abs k0 s = ([], \<lambda>_. None)" "kq_N s = unat (kq_capacity s)" "kq_at_rest (kq_pcs s t)"
    using s c(2) by (simp_all add: kq_abs_def kq_queue_def unat_pow2)
qed

lemmas kq_reachable = kqm.run_Inv [OF kq_construct_inv(1)]

section \<open>The contract\<close>

text \<open>
  C14.  Linearizability of the key-only queue: every interleaving of \<open>push\<close>, \<open>pop\<close> and \<open>empty\<close> is a run of
  an atomic FIFO of \<open>capacity()\<close> keys in which a key enters at its store and leaves at the clearing
  store, and a \<open>pop\<close> that returned a key \<open>r\<close> other than \<open>Key{}\<close> returned the key the atomic queue
  gave its thread.
\<close>

theorem kq_queue_linearizable:
  assumes "kq_construct k0 sz bytes = Inr s0" and "run (kq_exec NTRY k0) s0 as = Some s"
  shows "run (fifo_exec (unat (kq_capacity s0))) ([], \<lambda>_. None) (lin_trace (kq_exec NTRY k0) kq_lin s0 as)
           = Some (kq_abs k0 s) \<and>
         (kq_pcs s t = Kpop_done r \<longrightarrow> r \<noteq> k0 \<longrightarrow> snd (kq_abs k0 s) t = Some r)"
  using kqr.run_abs [of k0 s0 "kq_N s0" NTRY as s] kq_construct_inv(1-3) [OF assms(1)] assms(2)
  by (simp add: kq_abs_def)

definition kq_demo0 :: "nat kq" where
  "kq_demo0 = \<lparr>kq_slots = replicate 8 0, kq_capacity = 8, kq_mask = 7,
     kq_tail_l = 0, kq_tail_i = 0, kq_head_l = 0, kq_head_i = 0, kq_pcs = (\<lambda>_. Kq_idle), kq_pushed = [], kq_popped = 0\<rparr>"

lemma kq_demo0_construct: "kq_construct 0 4 35 = Inr kq_demo0"
proof -
  have "bit_floor (35 div 4 :: size_t) = 8" by code_simp
  then show ?thesis by (simp add: kq_construct_def kq_demo0_def)
qed

definition kq_demo :: "nat kq_action list" where
  "kq_demo = [Kcall_push 1 5, Kcall_pop 2, Kq_step 1, Kq_step 2, Kq_step 1, Kq_step 1, Kq_step 2, Kq_step 1, Kq_step 2, Kq_step 2]"

lemmas kq_eval = kq_demo_def kq_demo0_def ttas_def unlock_def kq_goto_def kq_tail_def kq_head_def Let_def

theorem kq_queue_linearizable_witness:
  "\<exists>s. run (kq_exec 3 0) kq_demo0 kq_demo = Some s \<and> kq_pcs s 2 = Kpop_done 5 \<and> snd (kq_abs 0 s) 2 = Some 5"
proof -
  obtain s where s: "run (kq_exec 3 0) kq_demo0 kq_demo = Some s" "kq_pcs s 2 = Kpop_done 5"
    by (simp add: kq_eval)
  with kq_queue_linearizable [OF kq_demo0_construct s(1), of 2 5] show ?thesis by simp
qed

text \<open>
  The answers of the key-only queue are exact: at the look that decides, \<open>push\<close> goes on to store if and only
  if fewer than \<open>capacity()\<close> keys are queued, \<open>pop\<close> takes the oldest key if and only if there is one, and
  \<open>empty()\<close> answers whether there is none.
\<close>

theorem kq_answers_exact:
  assumes "kq_construct k0 sz bytes = Inr s0" and "run (kq_exec NTRY k0) s0 as = Some s"
    and "kq_exec NTRY k0 s (Kq_step t) = Some s'"
  shows "(kq_pcs s t = Kpush_try k i \<longrightarrow>
           (kq_pcs s' t = Kpush_store k) = (length (kq_queue s) < kq_N s)) \<and>
         (kq_pcs s t = Kpop_load \<longrightarrow>
           kq_pcs s' t = (case kq_queue s of [] \<Rightarrow> Kpop_unlock k0 | x # xs \<Rightarrow> Kpop_store x)) \<and>
         (kq_pcs s t = Kempty_load \<longrightarrow> kq_pcs s' t = Kempty_unlock (kq_queue s = []))"
proof -
  note ring = kq_invD(1) [OF kq_reachable [OF assms(1,2)]]
  have len: "length (kq_queue s) < kq_N s \<longleftrightarrow> kq_T s < kq_popped s + kq_N s"
    using kq_ringD(4) [OF ring] by (auto simp: kq_queue_def)
  have ne: "kq_pushed s ! kq_popped s \<noteq> k0" if "kq_popped s < kq_T s"
    using kq_ringD(6) [OF ring] that by (metis nth_mem)
  have q: "kq_queue s = (if kq_popped s < kq_T s then kq_pushed s ! kq_popped s # drop (Suc (kq_popped s)) (kq_pushed s) else [])"
    by (simp add: kq_queue_def Cons_nth_drop_Suc)
  show ?thesis
    using assms(3) kq_tail_test [OF ring] kq_head_test [OF ring] len ne q
    by (auto simp: Let_def split: if_splits)
qed

theorem kq_answers_exact_witness:
  "\<exists>s s'. run (kq_exec 3 0) kq_demo0 [Kcall_push 1 5, Kq_step 1] = Some s \<and>
     kq_exec 3 0 s (Kq_step 1) = Some s' \<and> kq_pcs s' 1 = Kpush_store 5"
proof -
  obtain s s' where s: "run (kq_exec 3 0) kq_demo0 [Kcall_push 1 5, Kq_step 1] = Some s"
      "kq_exec 3 0 s (Kq_step 1) = Some s'" and p: "kq_pcs s 1 = Kpush_try 5 0" "length (kq_queue s) < kq_N s"
    by (simp add: kq_eval kq_queue_def)
  from kq_answers_exact [OF kq_demo0_construct s, of 5 0] p s show ?thesis by blast
qed

section \<open>One thread at a time\<close>

fun kq_solo :: "nat \<Rightarrow> 'k \<Rightarrow> tid \<Rightarrow> nat \<Rightarrow> 'k kq \<Rightarrow> 'k kq option" where
  "kq_solo NTRY k0 t 0 s = (if kq_at_rest (kq_pcs s t) then Some s else None)"
| "kq_solo NTRY k0 t (Suc n) s =
     (if kq_at_rest (kq_pcs s t) then Some s
      else case kq_exec NTRY k0 s (Kq_step t) of Some s' \<Rightarrow> kq_solo NTRY k0 t n s' | None \<Rightarrow> None)"

definition kq_enq :: "nat \<Rightarrow> 'k \<Rightarrow> tid \<Rightarrow> 'k kq \<Rightarrow> 'k \<Rightarrow> (bool \<times> 'k kq) option" where
  "kq_enq NTRY k0 t s k =
     (case kq_exec NTRY k0 s (Kcall_push t k) of None \<Rightarrow> None
      | Some s1 \<Rightarrow> (case kq_solo NTRY k0 t (NTRY + 3) s1 of None \<Rightarrow> None
         | Some s2 \<Rightarrow> (case kq_pcs s2 t of Kpush_done b \<Rightarrow> Some (b, s2) | _ \<Rightarrow> None)))"

definition kq_deq :: "nat \<Rightarrow> 'k \<Rightarrow> tid \<Rightarrow> 'k kq \<Rightarrow> ('k option \<times> 'k kq) option" where
  "kq_deq NTRY k0 t s =
     (case kq_exec NTRY k0 s (Kcall_pop t) of None \<Rightarrow> None
      | Some s1 \<Rightarrow> (case kq_solo NTRY k0 t 4 s1 of None \<Rightarrow> None
         | Some s2 \<Rightarrow> (case kq_pcs s2 t of Kpop_done r \<Rightarrow> Some (if r = k0 then None else Some r, s2) | _ \<Rightarrow> None)))"

definition kq_quiet :: "'k \<Rightarrow> 'k kq \<Rightarrow> bool" where
  "kq_quiet k0 s \<longleftrightarrow> kq_inv k0 s \<and> (\<forall>u. kq_at_rest (kq_pcs s u))"

lemma kq_at_rest_pc: "kq_at_rest p \<Longrightarrow> \<not> kq_holds_tail p \<and> \<not> kq_holds_head p"
  by (cases p) auto

lemma kq_quiet_unlocked: "kq_quiet k0 s \<Longrightarrow> kq_tail_l s = 0 \<and> kq_head_l s = 0"
  using kq_at_rest_pc by (fastforce simp: kq_quiet_def kq_inv_def spin_owned_def)

lemma kq_solo_run: "kq_solo NTRY k0 t n s = Some s' \<Longrightarrow> \<exists>as. run (kq_exec NTRY k0) s as = Some s'"
proof (induction n arbitrary: s)
  case 0
  then show ?case by (intro exI [of _ "[]"]) (simp split: if_splits)
next
  case (Suc n)
  show ?case
  proof (cases "kq_at_rest (kq_pcs s t)")
    case True
    with Suc.prems show ?thesis by (intro exI [of _ "[]"]) simp
  next
    case False
    with Suc.prems obtain u where "kq_exec NTRY k0 s (Kq_step t) = Some u" "kq_solo NTRY k0 t n u = Some s'"
      by (auto split: option.splits)
    with Suc.IH [of u] obtain as where "run (kq_exec NTRY k0) s (Kq_step t # as) = Some s'" by auto
    then show ?thesis by blast
  qed
qed

lemma kq_solo_inv: "kq_inv k0 s \<Longrightarrow> kq_solo NTRY k0 t n s = Some s' \<Longrightarrow> kq_inv k0 s'"
  using kq_solo_run [of NTRY k0 t n s s'] kqm.run_Inv [of k0 s NTRY] by blast

lemma kq_solo_full:
  assumes "kq_pcs s t = Kpush_try k i" and "kq_slots s ! kq_tail s \<noteq> k0" and "i < NTRY"
  shows "kq_solo NTRY k0 t (NTRY - i + 2) s =
     Some (s\<lparr>kq_tail_l := unlock (kq_tail_l s), kq_pcs := (kq_pcs s)(t := Kpush_done False)\<rparr>)"
  using assms
proof (induction "NTRY - Suc i" arbitrary: i s)
  case 0
  then have "NTRY = Suc i" by simp
  with 0 show ?case by (simp add: kq_goto_def fun_upd_def cong: if_cong)
next
  case (Suc d)
  let ?s = "kq_goto t (Kpush_try k (Suc i)) s"
  have "kq_solo NTRY k0 t (NTRY - Suc i + 2) ?s =
      Some (?s\<lparr>kq_tail_l := unlock (kq_tail_l ?s), kq_pcs := (kq_pcs ?s)(t := Kpush_done False)\<rparr>)"
    by (rule Suc(1)) (use Suc(2-) in \<open>auto simp: kq_tail_def\<close>)
  moreover have "NTRY - i + 2 = Suc (NTRY - Suc i + 2)" using Suc(5) by simp
  moreover have "Suc i \<noteq> NTRY" using Suc(2) by simp
  ultimately show ?case using Suc(3,4) by (simp add: kq_goto_def fun_upd_def cong: if_cong)
qed

lemma kq_quiet_finish:
  assumes "kq_quiet k0 s" and "kq_exec NTRY k0 s a = Some s1" and "kq_solo NTRY k0 t n s1 = Some s2"
    and "\<And>u. u \<noteq> t \<Longrightarrow> kq_pcs s2 u = kq_pcs s u" and "kq_at_rest (kq_pcs s2 t)"
  shows "kq_quiet k0 s2"
proof -
  have "kq_inv k0 s2"
    using assms(1) kq_exec_inv [OF _ assms(2)] kq_solo_inv [OF _ assms(3)] by (simp add: kq_quiet_def)
  moreover have "kq_at_rest (kq_pcs s2 u)" for u
    by (cases "u = t") (use assms(1,4,5) in \<open>auto simp: kq_quiet_def\<close>)
  ultimately show ?thesis by (simp add: kq_quiet_def)
qed

lemma kq_room_iff: "kq_ring k0 s \<Longrightarrow> kq_slots s ! kq_tail s = k0 \<longleftrightarrow> length (kq_queue s) < kq_N s"
  using kq_tail_test [of k0 s] kq_ringD(4) [of k0 s] by (auto simp: kq_queue_def)

lemma kq_enq_quiet:
  assumes q: "kq_quiet k0 s" and k: "k \<noteq> k0" and n: "0 < NTRY"
  shows "\<exists>s'. kq_enq NTRY k0 t s k = Some (length (kq_queue s) < kq_N s, s') \<and> kq_quiet k0 s' \<and> kq_N s' = kq_N s \<and>
           kq_queue s' = (if length (kq_queue s) < kq_N s then kq_queue s @ [k] else kq_queue s)"
proof -
  have inv: "kq_inv k0 s" and rest: "kq_at_rest (kq_pcs s t)" using q by (auto simp: kq_quiet_def)
  note ring = kq_invD(1) [OF inv] and test = kq_room_iff [OF kq_invD(1) [OF inv]]
  have l: "kq_tail_l s = 0" using kq_quiet_unlocked [OF q] by simp
  let ?s1 = "kq_goto t (Kpush_lock k) s"
  have ex: "kq_exec NTRY k0 s (Kcall_push t k) = Some ?s1" using rest k by simp
  let ?s2 = "kq_goto t (Kpush_try k 0) (?s1\<lparr>kq_tail_l := 1\<rparr>)"
  have st: "kq_solo NTRY k0 t (NTRY + 3) ?s1 = kq_solo NTRY k0 t (NTRY + 2) ?s2"
    using l n by (simp add: numeral_eq_Suc ttas_def)
  show ?thesis
  proof (cases "length (kq_queue s) < kq_N s")
    case True
    let ?s3 = "kq_goto t (Kpush_done True)
      (?s2\<lparr>kq_slots := (kq_slots s)[kq_tail s := k], kq_tail_i := kq_tail_i s + 1, kq_pushed := kq_pushed s @ [k], kq_tail_l := 0\<rparr>)"
    obtain m where m: "NTRY + 2 = Suc (Suc (Suc m))" using n by (cases NTRY) auto
    have "kq_slots s ! kq_tail s = k0" using True test by simp
    then have s3: "kq_solo NTRY k0 t (NTRY + 2) ?s2 = Some ?s3"
      unfolding m by (cases m) (simp_all add: kq_goto_def kq_tail_def unlock_def)
    have "kq_quiet k0 ?s3" by (rule kq_quiet_finish [OF q ex st [unfolded s3]]) auto
    moreover have "kq_enq NTRY k0 t s k = Some (True, ?s3)" using ex st s3 by (simp add: kq_enq_def)
    ultimately show ?thesis using True kq_ringD(4) [OF ring]
      by (intro exI [of _ ?s3]) (simp add: kq_queue_def)
  next
    case False
    let ?s3 = "?s2\<lparr>kq_tail_l := unlock (kq_tail_l ?s2), kq_pcs := (kq_pcs ?s2)(t := Kpush_done False)\<rparr>"
    have "kq_slots s ! kq_tail s \<noteq> k0" using False test by simp
    then have s3: "kq_solo NTRY k0 t (NTRY + 2) ?s2 = Some ?s3"
      using kq_solo_full [of ?s2 t k 0 k0 NTRY] n by (simp add: kq_tail_def)
    have "kq_quiet k0 ?s3" by (rule kq_quiet_finish [OF q ex st [unfolded s3]]) auto
    moreover have "kq_enq NTRY k0 t s k = Some (False, ?s3)" using ex st s3 by (simp add: kq_enq_def)
    ultimately show ?thesis using False by (intro exI [of _ ?s3]) (simp add: kq_queue_def)
  qed
qed

lemma kq_deq_quiet:
  assumes q: "kq_quiet k0 s"
  shows "\<exists>s'. kq_deq NTRY k0 t s = Some (case kq_queue s of [] \<Rightarrow> None | x # xs \<Rightarrow> Some x, s') \<and> kq_quiet k0 s' \<and>
           kq_N s' = kq_N s \<and> kq_queue s' = tl (kq_queue s)"
proof -
  have inv: "kq_inv k0 s" and rest: "kq_at_rest (kq_pcs s t)" using q by (auto simp: kq_quiet_def)
  note ring = kq_invD(1) [OF inv] and test = kq_head_test [OF kq_invD(1) [OF inv]]
  have l: "kq_head_l s = 0" using kq_quiet_unlocked [OF q] by simp
  let ?s1 = "kq_goto t Kpop_lock s"
  have ex: "kq_exec NTRY k0 s (Kcall_pop t) = Some ?s1" using rest by simp
  let ?s2 = "kq_goto t Kpop_load (?s1\<lparr>kq_head_l := 1\<rparr>)"
  have st: "kq_solo NTRY k0 t 4 ?s1 = kq_solo NTRY k0 t 3 ?s2"
    using l by (simp add: numeral_eq_Suc ttas_def)
  show ?thesis
  proof (cases "kq_popped s < kq_T s")
    case True
    let ?x = "kq_pushed s ! kq_popped s"
    have qx: "kq_queue s = ?x # drop (Suc (kq_popped s)) (kq_pushed s)"
      using True by (simp add: kq_queue_def Cons_nth_drop_Suc)
    have ne: "?x \<noteq> k0" using kq_ringD(6) [OF ring] True by (metis nth_mem)
    let ?s3 = "kq_goto t (Kpop_done ?x)
      (?s2\<lparr>kq_slots := (kq_slots s)[kq_head s := k0], kq_head_i := kq_head_i s + 1, kq_popped := Suc (kq_popped s), kq_head_l := 0\<rparr>)"
    have s3: "kq_solo NTRY k0 t 3 ?s2 = Some ?s3"
      using True test ne by (simp add: numeral_eq_Suc kq_goto_def kq_head_def unlock_def Let_def)
    have "kq_quiet k0 ?s3" by (rule kq_quiet_finish [OF q ex st [unfolded s3]]) auto
    moreover have "kq_deq NTRY k0 t s = Some (Some ?x, ?s3)" using ex st s3 ne by (simp add: kq_deq_def)
    ultimately show ?thesis using qx by (intro exI [of _ ?s3]) (simp add: kq_queue_def)
  next
    case False
    let ?s3 = "kq_goto t (Kpop_done k0) (?s2\<lparr>kq_head_l := 0\<rparr>)"
    have s3: "kq_solo NTRY k0 t 3 ?s2 = Some ?s3"
      using False test by (simp add: numeral_eq_Suc kq_goto_def kq_head_def unlock_def Let_def)
    have "kq_quiet k0 ?s3" by (rule kq_quiet_finish [OF q ex st [unfolded s3]]) auto
    moreover have "kq_deq NTRY k0 t s = Some (None, ?s3)" using ex st s3 by (simp add: kq_deq_def)
    ultimately show ?thesis using False by (intro exI [of _ ?s3]) (simp add: kq_queue_def)
  qed
qed

interpretation kqf: bounded_fifo "kq_enq (Suc n) k0 t" "kq_deq (Suc n) k0 t" kq_queue "kq_quiet k0" kq_N
    "\<lambda>k. k \<noteq> k0" for n k0 t
  apply unfold_locales
  subgoal for s e using kq_enq_quiet [of k0 s e "Suc n" t] by auto
  subgoal for s e using kq_enq_quiet [of k0 s e "Suc n" t] by auto
  subgoal for s e es using kq_deq_quiet [of k0 s "Suc n" t] by auto
  subgoal for s using kq_deq_quiet [of k0 s "Suc n" t] by auto
  subgoal for s using kq_ringD(5) [OF kq_invD(1) [of k0 s]] by (auto simp: kq_quiet_def kq_queue_def)
  done

text \<open>
  Round trip of the key-only queue: pushing \<open>ks\<close> on a new queue accepts as many keys as the capacity and
  popping returns the accepted ones in order, every call returning within its fuel.
\<close>

theorem kq_fill_drain:
  assumes "kq_construct k0 sz bytes = Inr s0" and "0 < NTRY" and "k0 \<notin> set ks"
  shows "\<exists>s s'. enq_list (kq_enq NTRY k0 t) s0 ks = Some (min (length ks) (unat (kq_capacity s0)), s) \<and>
           deq_list (kq_deq NTRY k0 t) (length ks) s = Some (take (unat (kq_capacity s0)) ks, s') \<and>
           kq_queue s' = []"
proof -
  obtain n where n: "NTRY = Suc n" using assms(2) by (cases NTRY) auto
  note c = kq_construct_inv [OF assms(1)]
  have "kq_quiet k0 s0" "kq_queue s0 = []" using c by (auto simp: kq_quiet_def kq_abs_def)
  moreover have "\<forall>k\<in>set ks. k \<noteq> k0" using assms(3) by auto
  ultimately show ?thesis using kqf.fill_drain [of k0 s0 ks n t] n c(3) by auto
qed

theorem kq_fill_drain_witness:
  "\<exists>s s'. enq_list (kq_enq 2 0 0) kq_demo0 [1, 2] = Some (2, s) \<and>
     deq_list (kq_deq 2 0 0) 2 s = Some ([1, 2], s') \<and> kq_queue s' = []"
proof -
  have "unat (kq_capacity kq_demo0) = 8" by (simp add: kq_demo0_def)
  with kq_fill_drain [OF kq_demo0_construct, of 2 "[1, 2]" 0] show ?thesis
    by (simp add: numeral_2_eq_2)
qed

section \<open>Destruction\<close>

lemma kq_drain_slots:
  assumes "kq_geom s"
  shows "kq_N (kq_drain k0 n (of_nat h) s) = kq_N s \<and>
    (\<forall>p<kq_N s. (\<exists>j. h \<le> j \<and> j < h + n \<and> j mod kq_N s = p) \<or> kq_slots s ! p = k0 \<longrightarrow>
       kq_slots (kq_drain k0 n (of_nat h) s) ! p = k0)"
  using assms
proof (induction n arbitrary: h s)
  case 0
  then show ?case by (auto dest: leD)
next
  case (Suc n)
  let ?s = "s\<lparr>kq_slots := (kq_slots s)[unat ((of_nat h :: size_t) AND kq_mask s) := k0]\<rparr>"
  have i: "unat ((of_nat h :: size_t) AND kq_mask s) = h mod kq_N s"
    using Suc.prems by (auto simp: kq_geom_def unat_and_mask unat_of_nat mod_size_mod)
  have "kq_geom ?s" using Suc.prems by (simp add: kq_geom_def)
  note IH = Suc.IH [OF this, of "Suc h"]
  have step: "kq_drain k0 (Suc n) (of_nat h) s = kq_drain k0 n (of_nat (Suc h)) ?s" by (simp add: add.commute)
  have "kq_slots (kq_drain k0 (Suc n) (of_nat h) s) ! p = k0"
    if p: "p < kq_N s" and c: "(\<exists>j. h \<le> j \<and> j < h + Suc n \<and> j mod kq_N s = p) \<or> kq_slots s ! p = k0" for p
  proof -
    have "(\<exists>j. Suc h \<le> j \<and> j < Suc h + n \<and> j mod kq_N s = p) \<or> kq_slots ?s ! p = k0"
    proof (cases "p = h mod kq_N s")
      case True
      then show ?thesis using i p by simp
    next
      case False
      with c i show ?thesis by (auto simp: nth_list_update) (metis Suc_leI le_neq_implies_less)
    qed
    with IH p show ?thesis unfolding step by auto
  qed
  with IH step show ?case by simp
qed

text \<open>
  Destruction of the key-only queue: after the destructor every slot of the buffer is empty again.
\<close>

theorem kq_destroy_clears:
  assumes "kq_construct k0 sz bytes = Inr s0" and "run (kq_exec NTRY k0) s0 as = Some s"
  shows "kq_slots (kq_destroy k0 s) = replicate (kq_N s) k0"
proof -
  note ring = kq_invD(1) [OF kq_reachable [OF assms]]
  let ?H = "kq_popped s" and ?T = "kq_T s" and ?N = "kq_N s"
  have N: "0 < ?N" "?N < 2 ^ 64" using kq_geom_N [OF kq_ringD(1) [OF ring]] by (auto intro: le_less_trans)
  have "kq_tail_i s - kq_head_i s = of_nat (?T - ?H)"
    using kq_ringD(2,3,4) [OF ring] by (simp add: of_nat_diff)
  moreover have "?T - ?H < 2 ^ 64" using kq_ringD(5) [OF ring] N(2) by linarith
  ultimately have d: "kq_destroy k0 s = kq_drain k0 (?T - ?H) (of_nat ?H) s"
    using kq_ringD(3) [OF ring] by (simp add: kq_destroy_def unat_of_nat_size del: power_numeral)
  note dr = kq_drain_slots [OF kq_ringD(1) [OF ring], of k0 "?T - ?H" ?H]
  have "(\<exists>j. ?H \<le> j \<and> j < ?H + (?T - ?H) \<and> j mod ?N = p) \<or> kq_slots s ! p = k0" if p: "p < ?N" for p
  proof -
    define j where "j = ?H + (p + ?N - ?H mod ?N) mod ?N"
    have j: "?H \<le> j" "j < ?H + ?N" using N(1) by (simp_all add: j_def)
    have "j mod ?N = (?H mod ?N + (p + ?N - ?H mod ?N)) mod ?N"
      unfolding j_def by (metis mod_add_eq mod_mod_trivial)
    also have "?H mod ?N + (p + ?N - ?H mod ?N) = p + ?N" using N(1) by (simp add: less_imp_le trans_le_add2)
    finally have "j mod ?N = p" using p by simp
    with j kq_ringD(8) [OF ring, of j] kq_ringD(4) [OF ring] show ?thesis
      by (cases "j < ?T") auto
  qed
  with dr d show ?thesis by (intro nth_equalityI) auto
qed

theorem kq_destroy_clears_witness:
  "\<exists>s. run (kq_exec 3 0) kq_demo0 (take 8 kq_demo) = Some s \<and> kq_queue s = [5] \<and>
     kq_slots (kq_destroy 0 s) = replicate 8 0"
proof -
  obtain s where s: "run (kq_exec 3 0) kq_demo0 (take 8 kq_demo) = Some s" and q: "kq_queue s = [5]" "kq_N s = 8"
    by (simp add: kq_eval kq_queue_def)
  from kq_destroy_clears [OF kq_demo0_construct s] q s show ?thesis by auto
qed

end
