(* ===== verification/Append_Deque.thy ===== *)
theory Append_Deque
  imports Conc_Prelude
begin

text \<open>
  \<^verbatim>\<open>ConcurrentDeque/concurrent_deque.h\<close>: the append-only deque.  Elements live in blocks of \<open>2 ^ k\<close> (the
  parameter \<open>k\<close> is \<open>BlockShift\<close>) that never move; a directory array holds the block pointers and is
  replaced, never changed in length, when it must grow; replaced directories are kept.

  The record holds the members of the class and the heap objects it owns: \<open>dq_dirs\<close> and
  \<open>dq_blocks\<close> map addresses to directory arrays (null pointers as \<open>None\<close>) and to blocks (cells not yet
  constructed as \<open>None\<close>).  Addresses are taken from the count of allocation attempts; the
  environment argument \<open>ok\<close> says which attempts succeed.  Every access through a pointer is
  checked: a null or dangling pointer and an index out of bounds give \<open>Undefined\<close>.
\<close>

section \<open>State\<close>

record 'a deque =
  dq_dirs :: "nat \<rightharpoonup> nat option list"
  dq_blocks :: "nat \<rightharpoonup> 'a option list"
  dq_allocs :: nat
  dq_directory :: "nat option"
  dq_dcap :: size_t
  dq_retired :: "nat list"
  dq_size :: size_t

definition dq_empty :: "'a deque" where
  "dq_empty = \<lparr>dq_dirs = Map.empty, dq_blocks = Map.empty, dq_allocs = 0, dq_directory = None, dq_dcap = 0,
     dq_retired = [], dq_size = 0\<rparr>"

text \<open>\<open>index >> BlockShift\<close> and \<open>index & BlockMask\<close>.\<close>

definition block_idx :: "nat \<Rightarrow> size_t \<Rightarrow> nat" where
  "block_idx k i = unat (drop_bit k i)"

definition local_offset :: "nat \<Rightarrow> size_t \<Rightarrow> nat" where
  "local_offset k i = unat (i AND mask k)"

section \<open>Access\<close>

text \<open>\<open>dir[j]\<close> through the directory at address \<open>a\<close>, and the element reference \<open>dir[block_idx][local_offset]\<close>
  as the pair of a block address and an offset.\<close>

definition dir_entry :: "nat \<Rightarrow> nat \<Rightarrow> 'a deque \<Rightarrow> cxx_error + nat option" where
  "dir_entry a j d = bind_err (deref (dq_dirs d a)) (\<lambda>arr. checked_nth arr j)"

definition elem_ref :: "nat \<Rightarrow> nat \<Rightarrow> size_t \<Rightarrow> 'a deque \<Rightarrow> cxx_error + nat \<times> nat" where
  "elem_ref k a i d =
     bind_err (dir_entry a (block_idx k i) d) (\<lambda>p. bind_err (deref p) (\<lambda>b. Inr (b, local_offset k i)))"

definition load_ref :: "nat \<times> nat \<Rightarrow> 'a deque \<Rightarrow> cxx_error + 'a" where
  "load_ref r d =
     bind_err (deref (dq_blocks d (fst r))) (\<lambda>cells. bind_err (checked_nth cells (snd r)) deref)"

definition dq_index :: "nat \<Rightarrow> size_t \<Rightarrow> 'a deque \<Rightarrow> cxx_error + nat \<times> nat" where
  "dq_index k i d = bind_err (deref (dq_directory d)) (\<lambda>a. elem_ref k a i d)"

definition dq_at :: "nat \<Rightarrow> size_t \<Rightarrow> 'a deque \<Rightarrow> cxx_error + nat \<times> nat" where
  "dq_at k i d = (if dq_size d \<le> i then Inl Out_of_range else dq_index k i d)"

definition dq_front :: "nat \<Rightarrow> 'a deque \<Rightarrow> cxx_error + nat \<times> nat" where
  "dq_front k d = dq_index k 0 d"

definition dq_back :: "nat \<Rightarrow> 'a deque \<Rightarrow> cxx_error + nat \<times> nat" where
  "dq_back k d = dq_index k (dq_size d - 1) d"

definition dq_capacity :: "nat \<Rightarrow> 'a deque \<Rightarrow> size_t" where
  "dq_capacity k d = push_bit k (dq_dcap d)"

definition dq_is_empty :: "'a deque \<Rightarrow> bool" where
  "dq_is_empty d \<longleftrightarrow> dq_size d = 0"

section \<open>Growth\<close>

text \<open>An operation that can throw and leaves a state behind.\<close>

definition bind_st :: "(cxx_error + 'a) \<times> 's \<Rightarrow> ('a \<Rightarrow> 's \<Rightarrow> (cxx_error + 'b) \<times> 's) \<Rightarrow> (cxx_error + 'b) \<times> 's" where
  "bind_st r f = (case r of (Inl e, s) \<Rightarrow> (Inl e, s) | (Inr x, s) \<Rightarrow> f x s)"

text \<open>
  \<open>reallocate_directory\<close>: the array new (an array of \<open>2 ^ 60\<close> pointers or more is over the limit of the
  language), the two copy loops, the \<open>push_back\<close> on the vector of retired directories (which may throw),
  and the publication.
\<close>

definition old_entries :: "'a deque \<Rightarrow> nat option list" where
  "old_entries d = (case dq_directory d of None \<Rightarrow> [] | Some a \<Rightarrow> (case dq_dirs d a of None \<Rightarrow> [] | Some arr \<Rightarrow> arr))"

definition reallocate_directory :: "(nat \<Rightarrow> bool) \<Rightarrow> size_t \<Rightarrow> 'a deque \<Rightarrow> (cxx_error + unit) \<times> 'a deque" where
  "reallocate_directory ok new_capacity d =
     (let a = dq_allocs d; d1 = d\<lparr>dq_allocs := Suc a\<rparr>; n = unat (dq_dcap d) in
      if \<not> ok a \<or> 2 ^ 60 \<le> unat new_capacity then (Inl Bad_alloc, d1)
      else if length (old_entries d) < n \<or> unat new_capacity < n then (Inl Undefined, d1)
      else
        let new_dir = take n (old_entries d) @ replicate (unat new_capacity - n) None;
            m = (if dq_directory d = None then Suc a else Suc (Suc a)) in
        if dq_directory d \<noteq> None \<and> \<not> ok (Suc a) then (Inl Bad_alloc, d\<lparr>dq_allocs := m\<rparr>)
        else (Inr (), d\<lparr>dq_allocs := m, dq_dirs := (dq_dirs d)(a \<mapsto> new_dir),
               dq_retired := dq_retired d @ (case dq_directory d of None \<Rightarrow> [] | Some old_dir \<Rightarrow> [old_dir]),
               dq_directory := Some a, dq_dcap := new_capacity\<rparr>))"

definition allocate_block :: "(nat \<Rightarrow> bool) \<Rightarrow> nat \<Rightarrow> 'a deque \<Rightarrow> (cxx_error + nat) \<times> 'a deque" where
  "allocate_block ok k d =
     (let a = dq_allocs d; d1 = d\<lparr>dq_allocs := Suc a\<rparr> in
      if ok a then (Inr a, d1\<lparr>dq_blocks := (dq_blocks d)(a \<mapsto> replicate (2 ^ k) None)\<rparr>)
      else (Inl Bad_alloc, d1))"

definition store_entry :: "nat \<Rightarrow> nat \<Rightarrow> 'a deque \<Rightarrow> (cxx_error + unit) \<times> 'a deque" where
  "store_entry j b d =
     (case dq_directory d of None \<Rightarrow> (Inl Undefined, d)
      | Some a \<Rightarrow> (case dq_dirs d a of None \<Rightarrow> (Inl Undefined, d)
          | Some arr \<Rightarrow> if j < length arr then (Inr (), d\<lparr>dq_dirs := (dq_dirs d)(a \<mapsto> arr[j := Some b])\<rparr>)
              else (Inl Undefined, d)))"

text \<open>\<open>if (!dir[block_idx]) dir[block_idx] = allocate_block();\<close>\<close>

definition ensure_block :: "(nat \<Rightarrow> bool) \<Rightarrow> nat \<Rightarrow> size_t \<Rightarrow> 'a deque \<Rightarrow> (cxx_error + unit) \<times> 'a deque" where
  "ensure_block ok k i d =
     (case bind_err (deref (dq_directory d)) (\<lambda>a. dir_entry a (block_idx k i) d) of
        Inl e \<Rightarrow> (Inl e, d)
      | Inr (Some b) \<Rightarrow> (Inr (), d)
      | Inr None \<Rightarrow> bind_st (allocate_block ok k d) (\<lambda>b d'. store_entry (block_idx k i) b d'))"

text \<open>\<open>std::construct_at(&dir[block_idx][local_offset], ...)\<close>; \<open>None\<close> when the constructor of \<open>T\<close> throws.\<close>

definition construct_elem :: "nat \<Rightarrow> size_t \<Rightarrow> 'a option \<Rightarrow> 'a deque \<Rightarrow> (cxx_error + unit) \<times> 'a deque" where
  "construct_elem k i v d =
     (case dq_index k i d of
        Inl e \<Rightarrow> (Inl e, d)
      | Inr (b, off) \<Rightarrow>
          (case dq_blocks d b of None \<Rightarrow> (Inl Undefined, d)
           | Some cells \<Rightarrow>
               if length cells \<le> off then (Inl Undefined, d)
               else case v of None \<Rightarrow> (Inl User_exception, d)
                    | Some x \<Rightarrow> (Inr (), d\<lparr>dq_blocks := (dq_blocks d)(b \<mapsto> cells[off := Some x])\<rparr>)))"

section \<open>The writers\<close>

text \<open>The bodies run under \<open>spinlock_\<close>.\<close>

definition emplace_dir :: "(nat \<Rightarrow> bool) \<Rightarrow> nat \<Rightarrow> 'a deque \<Rightarrow> (cxx_error + unit) \<times> 'a deque" where
  "emplace_dir ok k d =
     (if unat (dq_dcap d) \<le> block_idx k (dq_size d)
      then reallocate_directory ok (if dq_dcap d = 0 then 1 else dq_dcap d * 2) d
      else (Inr (), d))"

definition publish_size :: "size_t \<Rightarrow> 'a deque \<Rightarrow> 'a deque" where
  "publish_size n d = d\<lparr>dq_size := n\<rparr>"

definition emplace_back :: "(nat \<Rightarrow> bool) \<Rightarrow> nat \<Rightarrow> 'a option \<Rightarrow> 'a deque \<Rightarrow> (cxx_error + size_t) \<times> 'a deque" where
  "emplace_back ok k v d =
     (let current_size = dq_size d in
      bind_st (emplace_dir ok k d) (\<lambda>_ d1.
      bind_st (ensure_block ok k current_size d1) (\<lambda>_ d2.
      bind_st (construct_elem k current_size v d2) (\<lambda>_ d3.
      (Inr current_size, publish_size (current_size + 1) d3)))))"

definition dq_reserve :: "(nat \<Rightarrow> bool) \<Rightarrow> nat \<Rightarrow> size_t \<Rightarrow> 'a deque \<Rightarrow> (cxx_error + unit) \<times> 'a deque" where
  "dq_reserve ok k new_capacity d =
     (let current_capacity = push_bit k (dq_dcap d) in
      if current_capacity < new_capacity
      then reallocate_directory ok (drop_bit k (new_capacity + mask k)) d
      else (Inr (), d))"

fun resize_loop :: "(nat \<Rightarrow> bool) \<Rightarrow> nat \<Rightarrow> 'a \<Rightarrow> nat \<Rightarrow> size_t \<Rightarrow> 'a deque \<Rightarrow> (cxx_error + unit) \<times> 'a deque" where
  "resize_loop ok k dflt 0 i d = (Inr (), d)"
| "resize_loop ok k dflt (Suc n) i d =
     bind_st (ensure_block ok k i d) (\<lambda>_ d1.
     bind_st (construct_elem k i (Some dflt) d1) (\<lambda>_ d2. resize_loop ok k dflt n (i + 1) d2))"

definition resize_dir :: "(nat \<Rightarrow> bool) \<Rightarrow> nat \<Rightarrow> size_t \<Rightarrow> 'a deque \<Rightarrow> (cxx_error + unit) \<times> 'a deque" where
  "resize_dir ok k new_size d =
     (let new_dir_capacity = drop_bit k (new_size + mask k) in
      if dq_dcap d < new_dir_capacity then reallocate_directory ok new_dir_capacity d else (Inr (), d))"

definition dq_resize :: "(nat \<Rightarrow> bool) \<Rightarrow> nat \<Rightarrow> 'a \<Rightarrow> size_t \<Rightarrow> 'a deque \<Rightarrow> (cxx_error + unit) \<times> 'a deque" where
  "dq_resize ok k dflt new_size d =
     (if new_size \<le> dq_size d then (Inr (), d)
      else let current_size = dq_size d in
        bind_st (resize_dir ok k new_size d) (\<lambda>_ d1.
        bind_st (resize_loop ok k dflt (unat (new_size - current_size)) current_size d1) (\<lambda>_ d2.
        (Inr (), publish_size new_size d2))))"

section \<open>Destruction\<close>

text \<open>
  The three loops of the destructor: destroy the elements below \<open>size_\<close> (an element that is not alive would be
  undefined), delete every block, delete the directory and the retired ones (deleting twice would
  be undefined).
\<close>

definition destroy_elem :: "nat \<Rightarrow> size_t \<Rightarrow> 'a deque \<Rightarrow> cxx_error + 'a deque" where
  "destroy_elem k i d =
     bind_err (dq_index k i d) (\<lambda>r. bind_err (load_ref r d) (\<lambda>_.
       case dq_blocks d (fst r) of None \<Rightarrow> Inl Undefined
       | Some cells \<Rightarrow> Inr (d\<lparr>dq_blocks := (dq_blocks d)(fst r \<mapsto> cells[snd r := None])\<rparr>)))"

fun destroy_elems :: "nat \<Rightarrow> nat \<Rightarrow> size_t \<Rightarrow> 'a deque \<Rightarrow> cxx_error + 'a deque" where
  "destroy_elems k 0 i d = Inr d"
| "destroy_elems k (Suc n) i d = bind_err (destroy_elem k i d) (destroy_elems k n (i + 1))"

fun delete_blocks :: "nat option list \<Rightarrow> 'a deque \<Rightarrow> cxx_error + 'a deque" where
  "delete_blocks [] d = Inr d"
| "delete_blocks (None # es) d = delete_blocks es d"
| "delete_blocks (Some b # es) d =
     (case dq_blocks d b of None \<Rightarrow> Inl Undefined
      | Some cells \<Rightarrow> delete_blocks es (d\<lparr>dq_blocks := (dq_blocks d)(b := None)\<rparr>))"

fun delete_dirs :: "nat list \<Rightarrow> 'a deque \<Rightarrow> cxx_error + 'a deque" where
  "delete_dirs [] d = Inr d"
| "delete_dirs (a # as) d =
     (case dq_dirs d a of None \<Rightarrow> Inl Undefined
      | Some arr \<Rightarrow> delete_dirs as (d\<lparr>dq_dirs := (dq_dirs d)(a := None)\<rparr>))"

definition dq_destroy :: "nat \<Rightarrow> 'a deque \<Rightarrow> cxx_error + 'a deque" where
  "dq_destroy k d =
     bind_err
       (case dq_directory d of None \<Rightarrow> Inr d
        | Some a \<Rightarrow>
            bind_err (destroy_elems k (unat (dq_size d)) 0 d) (\<lambda>d1.
              case dq_dirs d1 a of None \<Rightarrow> Inl Undefined
              | Some arr \<Rightarrow>
                  if length arr < unat (dq_dcap d1) then Inl Undefined
                  else bind_err (delete_blocks (take (unat (dq_dcap d1)) arr) d1) (delete_dirs [a])))
       (\<lambda>d2. delete_dirs (dq_retired d2) d2)"

section \<open>Invariant and abstraction\<close>

definition dq_entry :: "'a deque \<Rightarrow> nat \<Rightarrow> nat option" where
  "dq_entry d j = (if j < length (old_entries d) then old_entries d ! j else None)"

definition dq_cell :: "nat \<Rightarrow> 'a deque \<Rightarrow> nat \<Rightarrow> 'a option" where
  "dq_cell k d i =
     (case dq_entry d (i div 2 ^ k) of None \<Rightarrow> None
      | Some b \<Rightarrow> (case dq_blocks d b of None \<Rightarrow> None | Some cells \<Rightarrow> cells ! (i mod 2 ^ k)))"

definition dq_list :: "nat \<Rightarrow> 'a deque \<Rightarrow> 'a list" where
  "dq_list k d = map (\<lambda>i. the (dq_cell k d i)) [0..<unat (dq_size d)]"

text \<open>The current directory has \<open>directory_capacity_\<close> entries, and the directories are the current one and the
  retired ones, each agreeing with the current one where it is not null.\<close>

definition dirs_ok :: "'a deque \<Rightarrow> bool" where
  "dirs_ok d \<longleftrightarrow>
     unat (dq_dcap d) < 2 ^ 60 \<and> length (old_entries d) = unat (dq_dcap d) \<and>
     (\<forall>a. dq_dirs d a \<noteq> None \<longleftrightarrow> dq_directory d = Some a \<or> a \<in> set (dq_retired d)) \<and>
     distinct (dq_retired d) \<and> (\<forall>a\<in>set (dq_retired d). dq_directory d \<noteq> Some a) \<and>
     (\<forall>a arr. dq_dirs d a = Some arr \<longrightarrow> a < dq_allocs d \<and> length arr \<le> unat (dq_dcap d) \<and>
        (\<forall>j<length arr. arr ! j = None \<or> arr ! j = old_entries d ! j))"

text \<open>Every block is in exactly one directory entry.\<close>

definition blocks_ok :: "nat \<Rightarrow> 'a deque \<Rightarrow> bool" where
  "blocks_ok k d \<longleftrightarrow>
     (\<forall>b. dq_blocks d b \<noteq> None \<longleftrightarrow> (\<exists>j. dq_entry d j = Some b)) \<and>
     (\<forall>i j b. dq_entry d i = Some b \<longrightarrow> dq_entry d j = Some b \<longrightarrow> i = j) \<and>
     (\<forall>b cells. dq_blocks d b = Some cells \<longrightarrow> b < dq_allocs d \<and> length cells = 2 ^ k)"

definition dq_inv :: "nat \<Rightarrow> 'a deque \<Rightarrow> bool" where
  "dq_inv k d \<longleftrightarrow> k < 64 \<and> dirs_ok d \<and> blocks_ok k d \<and> (\<forall>i<unat (dq_size d). dq_cell k d i \<noteq> None)"

text \<open>
  What no writer ever takes away: a directory array, once allocated, keeps its address, its length and its
  block pointers, and the current directory keeps every block pointer at its place.
\<close>

definition dq_ext :: "'a deque \<Rightarrow> 'a deque \<Rightarrow> bool" where
  "dq_ext d d' \<longleftrightarrow>
     (\<forall>a arr. dq_dirs d a = Some arr \<longrightarrow>
        (\<exists>arr'. dq_dirs d' a = Some arr' \<and> length arr' = length arr \<and>
                (\<forall>j<length arr. arr ! j \<noteq> None \<longrightarrow> arr' ! j = arr ! j))) \<and>
     (\<forall>j b. dq_entry d j = Some b \<longrightarrow> dq_entry d' j = Some b)"

lemma dq_ext_refl [simp]: "dq_ext d d"
  by (simp add: dq_ext_def)

lemma dq_ext_trans: "dq_ext d e \<Longrightarrow> dq_ext e f \<Longrightarrow> dq_ext d f"
  unfolding dq_ext_def by (fastforce)

lemma bind_st_simps [simp]:
  "bind_st (Inl e, s) f = (Inl e, s)"
  "bind_st (Inr x, s) f = f x s"
  by (simp_all add: bind_st_def)

lemma block_idx_div: "block_idx k i = unat i div 2 ^ k"
  by (simp add: block_idx_def unat_shift)

lemma local_offset_mod: "local_offset k i = unat i mod 2 ^ k"
  by (simp add: local_offset_def unat_and_mask)

lemma dq_empty_inv: "k < 64 \<Longrightarrow> dq_inv k dq_empty \<and> dq_list k dq_empty = []"
  by (simp add: dq_inv_def dirs_ok_def blocks_ok_def dq_empty_def old_entries_def dq_entry_def dq_list_def)

lemma length_dq_list [simp]: "length (dq_list k d) = unat (dq_size d)"
  by (simp add: dq_list_def)

lemma dq_list_nth: "i < unat (dq_size d) \<Longrightarrow> dq_list k d ! i = the (dq_cell k d i)"
  by (simp add: dq_list_def)

lemma dq_entry_directory:
  assumes "dq_entry d j = Some b"
  obtains a arr where "dq_directory d = Some a" "dq_dirs d a = Some arr" "j < length arr" "arr ! j = Some b"
  using assms by (auto simp: dq_entry_def old_entries_def split: option.splits if_splits)

lemma dq_index_entry:
  assumes "dq_entry d (unat i div 2 ^ k) = Some b"
  shows "dq_index k i d = Inr (b, unat i mod 2 ^ k)"
proof -
  obtain a arr where "dq_directory d = Some a" "dq_dirs d a = Some arr" "unat i div 2 ^ k < length arr"
      "arr ! (unat i div 2 ^ k) = Some b"
    using assms by (rule dq_entry_directory)
  then show ?thesis
    by (simp add: dq_index_def elem_ref_def dir_entry_def block_idx_div local_offset_mod checked_nth_def)
qed

lemma dq_index_Inr: "dq_index k i d = Inr r \<Longrightarrow> dq_entry d (unat i div 2 ^ k) = Some (fst r) \<and> snd r = unat i mod 2 ^ k"
  by (auto simp: dq_index_def elem_ref_def dir_entry_def bind_err_Inr block_idx_div local_offset_mod dq_entry_def old_entries_def)

lemma dq_cell_entry: "dq_cell k d i = Some x \<Longrightarrow> \<exists>b. dq_entry d (i div 2 ^ k) = Some b"
  by (auto simp: dq_cell_def split: option.splits)

lemma dq_index_cell:
  assumes inv: "dq_inv k d" and cell: "dq_cell k d (unat i) = Some x"
  shows "\<exists>r. dq_index k i d = Inr r \<and> load_ref r d = Inr x"
proof -
  obtain b where b: "dq_entry d (unat i div 2 ^ k) = Some b" using dq_cell_entry [OF cell] by blast
  with cell obtain cells where cells: "dq_blocks d b = Some cells" "cells ! (unat i mod 2 ^ k) = Some x"
    by (auto simp: dq_cell_def split: option.splits)
  moreover have "length cells = 2 ^ k" using inv cells by (auto simp: dq_inv_def blocks_ok_def)
  ultimately have "load_ref (b, unat i mod 2 ^ k) d = Inr x" by (simp add: load_ref_def checked_nth_def)
  with dq_index_entry [OF b] show ?thesis by blast
qed

lemma old_entries_cong:
  "dq_directory d' = dq_directory d \<Longrightarrow> dq_dirs d' = dq_dirs d \<Longrightarrow> old_entries d' = old_entries d"
  unfolding old_entries_def by (erule ssubst)+ (rule refl)

lemma dq_cell_cong:
  "dq_entry d' (i div 2 ^ k) = dq_entry d (i div 2 ^ k) \<Longrightarrow> dq_blocks d' = dq_blocks d \<Longrightarrow> dq_cell k d' i = dq_cell k d i"
  unfolding dq_cell_def by (erule ssubst)+ (rule refl)

lemma dirs_okD:
  assumes "dirs_ok d"
  shows "unat (dq_dcap d) < 2 ^ 60" "length (old_entries d) = unat (dq_dcap d)"
    "dq_dirs d a \<noteq> None \<longleftrightarrow> dq_directory d = Some a \<or> a \<in> set (dq_retired d)"
    "distinct (dq_retired d)" "a \<in> set (dq_retired d) \<Longrightarrow> dq_directory d \<noteq> Some a"
    "dq_dirs d a = Some arr \<Longrightarrow> a < dq_allocs d" "dq_dirs d a = Some arr \<Longrightarrow> length arr \<le> unat (dq_dcap d)"
    "dq_dirs d a = Some arr \<Longrightarrow> j < length arr \<Longrightarrow> arr ! j = None \<or> arr ! j = old_entries d ! j"
  using assms unfolding dirs_ok_def by blast+

lemma dq_invD:
  assumes "dq_inv k d"
  shows "k < 64" "dirs_ok d" "blocks_ok k d" "i < unat (dq_size d) \<Longrightarrow> dq_cell k d i \<noteq> None"
  using assms unfolding dq_inv_def by blast+

lemma blocks_okD:
  assumes "blocks_ok k d"
  shows "dq_blocks d b \<noteq> None \<longleftrightarrow> (\<exists>j. dq_entry d j = Some b)"
    "dq_entry d i = Some b \<Longrightarrow> dq_entry d j = Some b \<Longrightarrow> i = j"
    "dq_blocks d b = Some cells \<Longrightarrow> b < dq_allocs d" "dq_blocks d b = Some cells \<Longrightarrow> length cells = 2 ^ k"
  using assms unfolding blocks_ok_def by blast+

lemma blocks_ok_cong:
  assumes "blocks_ok k d" and "\<And>j. dq_entry d' j = dq_entry d j" and "dq_blocks d' = dq_blocks d"
    and "dq_allocs d \<le> dq_allocs d'"
  shows "blocks_ok k d'"
  unfolding blocks_ok_def assms(2,3) using blocks_okD [OF assms(1)] assms(4) by (meson less_le_trans)

section \<open>The pieces of a write\<close>

text \<open>What a piece that does not construct an element keeps: invariant, stability, size and every cell.\<close>

definition dq_keeps :: "nat \<Rightarrow> 'a deque \<Rightarrow> 'a deque \<Rightarrow> bool" where
  "dq_keeps k d d' \<longleftrightarrow> dq_inv k d' \<and> dq_ext d d' \<and> dq_size d' = dq_size d \<and> (\<forall>i. dq_cell k d' i = dq_cell k d i) \<and>
     unat (dq_dcap d) \<le> unat (dq_dcap d')"

lemma dq_keeps_refl: "dq_inv k d \<Longrightarrow> dq_keeps k d d"
  by (simp add: dq_keeps_def)

lemma dq_keeps_trans: "dq_keeps k d e \<Longrightarrow> dq_keeps k e f \<Longrightarrow> dq_keeps k d f"
  unfolding dq_keeps_def using dq_ext_trans by (auto intro: order_trans)

lemma dq_keeps_list: "dq_keeps k d d' \<Longrightarrow> dq_list k d' = dq_list k d"
  by (simp add: dq_keeps_def dq_list_def)

lemma dq_keeps_allocs:
  assumes inv: "dq_inv k d" and n: "dq_allocs d \<le> n"
  shows "dq_keeps k d (d\<lparr>dq_allocs := n\<rparr>)"
proof -
  let ?d = "d\<lparr>dq_allocs := n\<rparr>"
  have e: "old_entries ?d = old_entries d" by (rule old_entries_cong) simp_all
  then have E: "dq_entry ?d j = dq_entry d j" for j by (simp add: dq_entry_def)
  have "dq_cell k ?d i = dq_cell k d i" for i by (rule dq_cell_cong) (simp_all add: E)
  moreover have "dirs_ok ?d"
    unfolding dirs_ok_def e using dirs_okD [OF dq_invD(2) [OF inv]] n by simp (meson less_le_trans)
  moreover have "blocks_ok k ?d"
    by (rule blocks_ok_cong [OF dq_invD(3) [OF inv] E]) (use n in simp_all)
  moreover have "dq_ext d ?d" using E unfolding dq_ext_def by simp
  ultimately show ?thesis using inv by (simp add: dq_keeps_def dq_inv_def)
qed

lemma dq_new_directory:
  assumes inv: "dq_inv k d" and cap: "unat (dq_dcap d) \<le> unat n" "unat n < 2 ^ 60"
    and a: "dq_allocs d \<le> a" "a < m"
    and new: "new_dir = old_entries d @ replicate (unat n - unat (dq_dcap d)) None"
    and d': "d' = d\<lparr>dq_allocs := m, dq_dirs := (dq_dirs d)(a \<mapsto> new_dir),
       dq_retired := dq_retired d @ (case dq_directory d of None \<Rightarrow> [] | Some old_dir \<Rightarrow> [old_dir]),
       dq_directory := Some a, dq_dcap := n\<rparr>"
  shows "dq_keeps k d d'"
proof -
  note dirs = inv [unfolded dq_inv_def dirs_ok_def]
  have len: "length (old_entries d) = unat (dq_dcap d)" using dirs by blast
  have e: "old_entries d' = new_dir" by (simp add: d' old_entries_def)
  have old: "old_entries d' ! j = old_entries d ! j" if "j < length (old_entries d)" for j
    using that by (simp add: e new nth_append)
  have E: "dq_entry d' j = dq_entry d j" for j
    using len cap by (auto simp: dq_entry_def e new nth_append)
  have fresh: "dq_dirs d a = None"
    using dirs a(1) by (metis leD not_Some_eq)
  have cell: "dq_cell k d' i = dq_cell k d i" for i by (rule dq_cell_cong) (simp_all add: E, simp add: d')
  have "dirs_ok d'"
    unfolding dirs_ok_def
  proof (intro conjI)
    show "unat (dq_dcap d') < 2 ^ 60" using cap by (simp add: d')
    show "length (old_entries d') = unat (dq_dcap d')" using len cap by (simp add: e new) (simp add: d')
    show "\<forall>b. dq_dirs d' b \<noteq> None \<longleftrightarrow> dq_directory d' = Some b \<or> b \<in> set (dq_retired d')"
      using dirs by (auto simp: d' split: option.splits)
    show "distinct (dq_retired d')" using dirs by (auto simp: d' split: option.splits)
    show "\<forall>b\<in>set (dq_retired d'). dq_directory d' \<noteq> Some b"
      using dirs_okD(3) [OF dq_invD(2) [OF inv], of a] fresh by (auto simp: d' split: option.splits)
    show "\<forall>b arr. dq_dirs d' b = Some arr \<longrightarrow> b < dq_allocs d' \<and> length arr \<le> unat (dq_dcap d') \<and>
        (\<forall>j<length arr. arr ! j = None \<or> arr ! j = old_entries d' ! j)"
    proof (intro allI impI)
      fix b arr assume b: "dq_dirs d' b = Some arr"
      show "b < dq_allocs d' \<and> length arr \<le> unat (dq_dcap d') \<and> (\<forall>j<length arr. arr ! j = None \<or> arr ! j = old_entries d' ! j)"
      proof (cases "b = a")
        case True
        then show ?thesis using b a cap len e by (auto simp: d' new)
      next
        case False
        then have "dq_dirs d b = Some arr" using b by (simp add: d')
        then have "b < dq_allocs d" "length arr \<le> unat (dq_dcap d)"
          "\<And>j. j < length arr \<Longrightarrow> arr ! j = None \<or> arr ! j = old_entries d ! j"
          using dirs by blast+
        then show ?thesis using a cap len old by (auto simp: d' intro: order_trans)
      qed
    qed
  qed
  moreover have "blocks_ok k d'"
    by (rule blocks_ok_cong [OF dq_invD(3) [OF inv] E]) (use a in \<open>simp_all add: d'\<close>)
  moreover have "dq_ext d d'"
    using E fresh unfolding dq_ext_def by (auto simp: d')
  ultimately show ?thesis using inv cell cap by (auto simp: dq_keeps_def dq_inv_def d')
qed

lemma reallocate_directory_ok:
  assumes inv: "dq_inv k d" and cap: "unat (dq_dcap d) \<le> unat n"
    and r: "reallocate_directory ok n d = (r, d')"
  shows "dq_keeps k d d' \<and> (r = Inl Bad_alloc \<and> \<not> (unat n < 2 ^ 60 \<and> (\<forall>a. ok a)) \<or> r = Inr () \<and> dq_dcap d' = n)"
proof -
  let ?a = "dq_allocs d" and ?new = "take (unat (dq_dcap d)) (old_entries d) @ replicate (unat n - unat (dq_dcap d)) None"
  have len: "length (old_entries d) = unat (dq_dcap d)" using inv by (simp add: dq_inv_def dirs_ok_def)
  then have tk: "take (unat (dq_dcap d)) (old_entries d) = old_entries d" by simp
  let ?m = "if dq_directory d = None then Suc ?a else Suc (Suc ?a)"
  let ?d = "d\<lparr>dq_allocs := ?m, dq_dirs := (dq_dirs d)(?a \<mapsto> ?new),
     dq_retired := dq_retired d @ (case dq_directory d of None \<Rightarrow> [] | Some old_dir \<Rightarrow> [old_dir]),
     dq_directory := Some ?a, dq_dcap := n\<rparr>"
  have "r = Inl Bad_alloc \<and> \<not> (unat n < 2 ^ 60 \<and> (\<forall>a. ok a)) \<and> (d' = d\<lparr>dq_allocs := Suc ?a\<rparr> \<or> d' = d\<lparr>dq_allocs := ?m\<rparr>) \<or>
      unat n < 2 ^ 60 \<and> r = Inr () \<and> d' = ?d"
    using r cap len unfolding reallocate_directory_def Let_def
    by (cases "\<not> ok ?a \<or> 2 ^ 60 \<le> unat n"; cases "dq_directory d \<noteq> None \<and> \<not> ok (Suc ?a)") auto
  then show ?thesis
  proof (elim disjE conjE)
    assume "r = Inl Bad_alloc" and "d' = d\<lparr>dq_allocs := Suc ?a\<rparr>" and "\<not> (unat n < 2 ^ 60 \<and> (\<forall>a. ok a))"
    then show ?thesis using dq_keeps_allocs [OF inv, of "Suc ?a"] by simp
  next
    assume "r = Inl Bad_alloc" and "d' = d\<lparr>dq_allocs := ?m\<rparr>" and "\<not> (unat n < 2 ^ 60 \<and> (\<forall>a. ok a))"
    then show ?thesis using dq_keeps_allocs [OF inv, of ?m] by simp
  next
    assume n: "unat n < 2 ^ 60" and "r = Inr ()" and d': "d' = ?d"
    moreover have "dq_keeps k d d'"
      by (rule dq_new_directory [OF inv cap n order_refl _ _ d']) (simp_all add: tk)
    ultimately show ?thesis by simp
  qed
qed

lemma dq_new_block:
  assumes inv: "dq_inv k d" and null: "dq_entry d j = None" and j: "j < unat (dq_dcap d)"
    and a: "dq_directory d = Some a" "dq_dirs d a = Some arr" and b: "b = dq_allocs d"
    and d': "d' = d\<lparr>dq_allocs := Suc b, dq_blocks := (dq_blocks d)(b \<mapsto> replicate (2 ^ k) None),
       dq_dirs := (dq_dirs d)(a \<mapsto> arr[j := Some b])\<rparr>"
  shows "dq_keeps k d d' \<and> dq_entry d' j = Some b"
proof -
  note dirs = dirs_okD [OF dq_invD(2) [OF inv]] and blk = blocks_okD [OF dq_invD(3) [OF inv]]
  have e: "old_entries d = arr" and e': "old_entries d' = arr[j := Some b]"
    using a by (simp_all add: old_entries_def d')
  have len: "length arr = unat (dq_dcap d)" using dirs(2) e by simp
  have E: "dq_entry d' i = (if i = j then Some b else dq_entry d i)" for i
    using j len by (auto simp: dq_entry_def e e')
  have fresh: "dq_blocks d b = None" using blk(3) [of b] b by (cases "dq_blocks d b") auto
  have nob: "dq_entry d i \<noteq> Some b" for i using blk(1) [of b] fresh by blast
  have cell: "dq_cell k d' i = dq_cell k d i" for i
    using null nob [of "i div 2 ^ k"] fresh
    by (cases "i div 2 ^ k = j"; cases "dq_entry d (i div 2 ^ k)") (auto simp: dq_cell_def E, auto simp: d')
  have "dirs_ok d'"
    unfolding dirs_ok_def
  proof (intro conjI)
    show "\<forall>c arr'. dq_dirs d' c = Some arr' \<longrightarrow> c < dq_allocs d' \<and> length arr' \<le> unat (dq_dcap d') \<and>
        (\<forall>i<length arr'. arr' ! i = None \<or> arr' ! i = old_entries d' ! i)"
    proof (intro allI impI)
      fix c arr' assume c: "dq_dirs d' c = Some arr'"
      show "c < dq_allocs d' \<and> length arr' \<le> unat (dq_dcap d') \<and> (\<forall>i<length arr'. arr' ! i = None \<or> arr' ! i = old_entries d' ! i)"
      proof (cases "c = a")
        case True
        with c have "arr' = arr[j := Some b]" by (simp add: d')
        then show ?thesis using dirs(6) [OF a(2)] len True e' b by (simp add: d')
      next
        case False
        then have c': "dq_dirs d c = Some arr'" using c by (simp add: d')
        have "arr' ! i = None \<or> arr' ! i = old_entries d' ! i" if "i < length arr'" for i
          using dirs(8) [OF c' that] null dirs(7) [OF c'] that len
          by (cases "i = j") (auto simp: e e' dq_entry_def split: if_splits)
        then show ?thesis using dirs(6,7) [OF c'] b by (auto simp: d')
      qed
    qed
  qed (use dirs(1,2,4,5) e e' a dirs(3) in \<open>auto simp: d'\<close>)
  moreover have "blocks_ok k d'"
    unfolding blocks_ok_def
  proof (intro conjI allI impI)
    fix c show "(dq_blocks d' c \<noteq> None) = (\<exists>i. dq_entry d' i = Some c)"
    proof (cases "c = b")
      case True
      then show ?thesis using E [of j] by (auto simp: d')
    next
      case False
      have "(\<exists>i. dq_entry d' i = Some c) \<longleftrightarrow> (\<exists>i. dq_entry d i = Some c)"
        using E False null by (metis option.distinct(1) option.inject)
      with False blk(1) [of c] show ?thesis by (simp add: d')
    qed
  next
    fix x y c assume "dq_entry d' x = Some c" "dq_entry d' y = Some c"
    then show "x = y" using E nob blk(2) by (metis option.inject)
  next
    fix c cells assume "dq_blocks d' c = Some cells"
    then show "c < dq_allocs d'" "length cells = 2 ^ k"
      using blk(3,4) [of c cells] b by (auto simp: d' split: if_splits)
  qed
  moreover have "dq_ext d d'"
    unfolding dq_ext_def
  proof (intro conjI allI impI)
    fix c arr' assume c: "dq_dirs d c = Some arr'"
    show "\<exists>arr''. dq_dirs d' c = Some arr'' \<and> length arr'' = length arr' \<and> (\<forall>i<length arr'. arr' ! i \<noteq> None \<longrightarrow> arr'' ! i = arr' ! i)"
    proof (cases "c = a")
      case True
      with c a null j len show ?thesis by (auto simp: d' dq_entry_def e nth_list_update)
    next
      case False
      with c show ?thesis by (simp add: d')
    qed
  next
    fix i c assume "dq_entry d i = Some c"
    then show "dq_entry d' i = Some c" using E null by (metis option.distinct(1))
  qed
  ultimately show ?thesis
    using inv cell E [of j] by (simp add: dq_keeps_def dq_inv_def) (simp add: d')
qed

lemma ensure_block_ok:
  assumes inv: "dq_inv k d" and j: "unat i div 2 ^ k < unat (dq_dcap d)"
    and r: "ensure_block ok k i d = (r, d')"
  shows "dq_keeps k d d' \<and> (r = Inl Bad_alloc \<and> \<not> (\<forall>a. ok a) \<or> r = Inr () \<and> dq_entry d' (unat i div 2 ^ k) \<noteq> None)"
proof -
  let ?j = "unat i div 2 ^ k"
  note dirs = dirs_okD [OF dq_invD(2) [OF inv]]
  obtain a arr where a: "dq_directory d = Some a" "dq_dirs d a = Some arr" "length arr = unat (dq_dcap d)"
  proof -
    have "old_entries d \<noteq> []" using dirs(2) j by auto
    then show thesis using that dirs(2) by (auto simp: old_entries_def split: option.splits)
  qed
  have e: "dq_entry d ?j = arr ! ?j" using a j by (simp add: dq_entry_def old_entries_def)
  have look: "bind_err (deref (dq_directory d)) (\<lambda>a. dir_entry a (block_idx k i) d) = Inr (dq_entry d ?j)"
    using a j by (simp add: dir_entry_def block_idx_div checked_nth_def e)
  show ?thesis
  proof (cases "dq_entry d ?j")
    case (Some b)
    then show ?thesis using r look dq_keeps_refl [OF inv] by (simp add: ensure_block_def)
  next
    case None
    let ?b = "dq_allocs d"
    show ?thesis
    proof (cases "ok ?b")
      case True
      have "r = Inr () \<and> d' = d\<lparr>dq_allocs := Suc ?b, dq_blocks := (dq_blocks d)(?b \<mapsto> replicate (2 ^ k) None),
          dq_dirs := (dq_dirs d)(a \<mapsto> arr[?j := Some ?b])\<rparr>"
        using r look None True a j by (auto simp: ensure_block_def allocate_block_def store_entry_def Let_def block_idx_div)
      then show ?thesis using dq_new_block [OF inv None j a(1,2) refl] by simp
    next
      case False
      then have "r = Inl Bad_alloc \<and> d' = d\<lparr>dq_allocs := Suc ?b\<rparr>"
        using r look None by (auto simp: ensure_block_def allocate_block_def Let_def)
      then show ?thesis using dq_keeps_allocs [OF inv, of "Suc ?b"] False by auto
    qed
  qed
qed

lemma div_mod_eq: "(i :: nat) div n = j div n \<Longrightarrow> i mod n = j mod n \<Longrightarrow> i = j"
  by (metis div_mult_mod_eq)

lemma cell_update:
  assumes ok: "blocks_ok k d" and b: "dq_entry d (i div 2 ^ k) = Some b" and cells: "dq_blocks d b = Some cells"
    and d': "d' = d\<lparr>dq_blocks := (dq_blocks d)(b \<mapsto> cells[i mod 2 ^ k := y])\<rparr>"
  shows "blocks_ok k d'" and "dq_entry d' = dq_entry d" and "dq_cell k d' j = (if j = i then y else dq_cell k d j)"
proof -
  note blk = blocks_okD [OF ok]
  have len: "length cells = 2 ^ k" by (rule blk(4) [OF cells])
  have "old_entries d' = old_entries d" unfolding d' by (rule old_entries_cong) simp_all
  then have E: "dq_entry d' j = dq_entry d j" for j by (simp add: dq_entry_def)
  then show "dq_entry d' = dq_entry d" by blast
  show "blocks_ok k d'" unfolding blocks_ok_def E using blk cells len by (auto simp: d')
  show "dq_cell k d' j = (if j = i then y else dq_cell k d j)"
  proof (cases "dq_entry d (j div 2 ^ k)")
    case None
    then show ?thesis using b by (auto simp: dq_cell_def E)
  next
    case (Some b')
    show ?thesis
    proof (cases "b' = b")
      case True
      then have "j div 2 ^ k = i div 2 ^ k" using Some b blk(2) by blast
      then have "(j mod 2 ^ k = i mod 2 ^ k) = (j = i)" using div_mod_eq by metis
      with Some True cells len show ?thesis by (auto simp: dq_cell_def E) (auto simp: d')
    next
      case False
      with Some b have "j \<noteq> i" by auto
      with Some False show ?thesis by (simp add: dq_cell_def E) (simp add: d')
    qed
  qed
qed

lemma construct_elem_ok:
  assumes inv: "dq_inv k d" and e: "dq_entry d (unat i div 2 ^ k) \<noteq> None"
    and r: "construct_elem k i v d = (r, d')"
  shows "case v of
      None \<Rightarrow> r = Inl User_exception \<and> d' = d
    | Some x \<Rightarrow> r = Inr () \<and> dq_inv k d' \<and> dq_ext d d' \<and> dq_size d' = dq_size d \<and> dq_dcap d' = dq_dcap d \<and>
        (\<forall>j. dq_cell k d' j = (if j = unat i then Some x else dq_cell k d j))"
proof -
  note blk = blocks_okD [OF dq_invD(3) [OF inv]]
  obtain b where b: "dq_entry d (unat i div 2 ^ k) = Some b" using e by blast
  then obtain cells where cells: "dq_blocks d b = Some cells" using blk(1) [of b] by auto
  have len: "length cells = 2 ^ k" by (rule blk(4) [OF cells])
  let ?d = "\<lambda>x. d\<lparr>dq_blocks := (dq_blocks d)(b \<mapsto> cells[unat i mod 2 ^ k := Some x])\<rparr>"
  have c: "construct_elem k i v d = (case v of None \<Rightarrow> (Inl User_exception, d) | Some x \<Rightarrow> (Inr (), ?d x))"
    using dq_index_entry [OF b] cells len by (simp add: construct_elem_def not_le split: option.splits)
  show ?thesis
  proof (cases v)
    case None
    then show ?thesis using r c by simp
  next
    case (Some x)
    then have d': "d' = ?d x" and rr: "r = Inr ()" using r c by auto
    note upd = cell_update [OF dq_invD(3) [OF inv] b cells d']
    have oe: "old_entries d' = old_entries d" unfolding d' by (rule old_entries_cong) simp_all
    have "dirs_ok d'" using dq_invD(2) [OF inv] oe unfolding dirs_ok_def by (simp add: d')
    moreover have "dq_ext d d'" unfolding dq_ext_def upd(2) by (simp add: d')
    moreover have sz: "dq_size d' = dq_size d" by (simp add: d')
    have "\<forall>j<unat (dq_size d'). dq_cell k d' j \<noteq> None"
      unfolding sz upd(3) using dq_invD(4) [OF inv] by auto
    ultimately show ?thesis using Some rr upd dq_invD(1) [OF inv] by (simp add: dq_inv_def) (simp add: d')
  qed
qed

lemma publish_size_ok:
  assumes "dq_inv k d" and "\<And>i. i < unat n \<Longrightarrow> dq_cell k d i \<noteq> None"
  shows "dq_inv k (publish_size n d) \<and> dq_ext d (publish_size n d) \<and>
         (\<forall>i. dq_cell k (publish_size n d) i = dq_cell k d i)"
proof -
  let ?d = "publish_size n d"
  have oe: "old_entries ?d = old_entries d" by (rule old_entries_cong) (simp_all add: publish_size_def)
  then have E: "dq_entry ?d j = dq_entry d j" for j by (simp add: dq_entry_def)
  have cell: "dq_cell k ?d i = dq_cell k d i" for i by (rule dq_cell_cong) (simp_all add: E, simp add: publish_size_def)
  have "dirs_ok ?d" using dq_invD(2) [OF assms(1)] oe unfolding dirs_ok_def by (simp add: publish_size_def)
  moreover have "blocks_ok k ?d"
    by (rule blocks_ok_cong [OF dq_invD(3) [OF assms(1)] E]) (simp_all add: publish_size_def)
  moreover have "dq_ext d ?d" unfolding dq_ext_def E by (simp add: publish_size_def)
  ultimately show ?thesis using assms(2) dq_invD(1) [OF assms(1)] cell by (simp add: dq_inv_def publish_size_def)
qed

section \<open>The writers meet their specification\<close>

lemma dq_cell_list: "dq_inv k d \<Longrightarrow> i < unat (dq_size d) \<Longrightarrow> dq_cell k d i = Some (dq_list k d ! i)"
  using dq_invD(4) [of k d i] by (simp add: dq_list_nth)

lemma dq_list_eqI:
  assumes "unat (dq_size d) = length xs" and "\<And>i. i < length xs \<Longrightarrow> dq_cell k d i = Some (xs ! i)"
  shows "dq_list k d = xs"
  using assms by (intro nth_equalityI) (auto simp: dq_list_nth)

lemma dq_keeps_inv: "dq_keeps k d d' \<Longrightarrow> dq_inv k d'"
  by (simp add: dq_keeps_def)

lemma dq_size_block:
  assumes inv: "dq_inv k d"
  shows "unat (dq_size d) div 2 ^ k \<le> unat (dq_dcap d)"
proof (cases "unat (dq_size d)")
  case 0
  then show ?thesis by simp
next
  case (Suc m)
  then have "dq_cell k d m \<noteq> None" using dq_invD(4) [OF inv, of m] by simp
  then obtain b where "dq_entry d (m div 2 ^ k) = Some b" using dq_cell_entry [of k d m] by auto
  then have "m div 2 ^ k < unat (dq_dcap d)"
    using dirs_okD(2) [OF dq_invD(2) [OF inv]] by (auto simp: dq_entry_def split: if_splits)
  moreover have "Suc m div 2 ^ k \<le> Suc (m div 2 ^ k)" by (simp add: div_Suc)
  ultimately show ?thesis using Suc by simp
qed

lemma unat_double: "unat (w :: size_t) < 2 ^ 60 \<Longrightarrow> unat (w * 2) = 2 * unat w"
  by (simp add: unat_word_ariths mult.commute)

lemma emplace_dir_ok:
  assumes inv: "dq_inv k d" and r: "emplace_dir ok k d = (r, d')"
  shows "dq_keeps k d d' \<and> (r = Inl Bad_alloc \<and> \<not> (unat (dq_dcap d) < 2 ^ 59 \<and> (\<forall>a. ok a)) \<or>
           r = Inr () \<and> unat (dq_size d') div 2 ^ k < unat (dq_dcap d'))"
proof (cases "unat (dq_dcap d) \<le> block_idx k (dq_size d)")
  case False
  then show ?thesis using r dq_keeps_refl [OF inv] by (simp add: emplace_dir_def block_idx_div)
next
  case True
  let ?n = "if dq_dcap d = 0 then 1 else dq_dcap d * 2"
  have cap: "unat (dq_dcap d) < 2 ^ 60" by (rule dirs_okD(1) [OF dq_invD(2) [OF inv]])
  have n: "unat ?n = (if dq_dcap d = 0 then 1 else 2 * unat (dq_dcap d))"
    using unat_double [OF cap] by simp
  have "0 < unat (dq_dcap d)" if "dq_dcap d \<noteq> 0" using that by (simp add: unat_gt_0)
  then have lt: "unat (dq_dcap d) < unat ?n" using n by (cases "dq_dcap d = 0") simp_all
  have "reallocate_directory ok ?n d = (r, d')" using r True by (simp add: emplace_dir_def)
  from reallocate_directory_ok [OF inv less_imp_le [OF lt] this]
  have k: "dq_keeps k d d'" and c: "r = Inl Bad_alloc \<and> \<not> (unat ?n < 2 ^ 60 \<and> (\<forall>a. ok a)) \<or> r = Inr () \<and> dq_dcap d' = ?n"
    by auto
  have "unat (dq_size d') div 2 ^ k < unat ?n"
    using dq_size_block [OF inv] lt k by (simp add: dq_keeps_def)
  moreover have "unat ?n < 2 ^ 60" if "unat (dq_dcap d) < 2 ^ 59" using that n by simp
  ultimately show ?thesis using k c by auto
qed

lemma emplace_back_ok:
  assumes inv: "dq_inv k d" and room: "unat (dq_size d) + 1 < 2 ^ 64"
    and r: "emplace_back ok k v d = (r, d')"
  shows "dq_inv k d' \<and> dq_ext d d' \<and>
    ((\<exists>x. v = Some x \<and> r = Inr (dq_size d) \<and> dq_list k d' = dq_list k d @ [x]) \<or>
     dq_list k d' = dq_list k d \<and>
       (r = Inl Bad_alloc \<and> \<not> (unat (dq_dcap d) < 2 ^ 59 \<and> (\<forall>a. ok a)) \<or> v = None \<and> r = Inl User_exception))"
proof -
  let ?i = "dq_size d" and ?n = "unat (dq_size d)"
  obtain r1 d1 where p1: "emplace_dir ok k d = (r1, d1)" by fastforce
  note k1 = emplace_dir_ok [OF inv p1]
  show ?thesis
  proof (cases r1)
    case (Inl e)
    then show ?thesis using k1 r p1 dq_keeps_list [of k d d1] by (auto simp: emplace_back_def Let_def dq_keeps_def)
  next
    case (Inr u)
    have keep1: "dq_keeps k d d1" and cap1: "unat ?i div 2 ^ k < unat (dq_dcap d1)"
      using k1 Inr by (auto simp: dq_keeps_def)
    obtain r2 d2 where p2: "ensure_block ok k ?i d1 = (r2, d2)" by fastforce
    note k2 = ensure_block_ok [OF dq_keeps_inv [OF keep1] cap1 p2]
    then have keep2: "dq_keeps k d d2" using dq_keeps_trans [OF keep1] by blast
    show ?thesis
    proof (cases r2)
      case Inl
      then show ?thesis using k2 keep2 r p1 p2 \<open>r1 = Inr u\<close> dq_keeps_list [OF keep2]
        by (auto simp: emplace_back_def Let_def dq_keeps_def)
    next
      case Inr
      then have e2: "dq_entry d2 (unat ?i div 2 ^ k) \<noteq> None" using k2 by auto
      obtain r3 d3 where p3: "construct_elem k ?i v d2 = (r3, d3)" by fastforce
      note k3 = construct_elem_ok [OF dq_keeps_inv [OF keep2] e2 p3]
      show ?thesis
      proof (cases v)
        case None
        then show ?thesis using k3 keep2 r p1 p2 p3 \<open>r1 = Inr u\<close> Inr dq_keeps_list [OF keep2]
          by (auto simp: emplace_back_def Let_def dq_keeps_def)
      next
        case (Some x)
        then have r3: "r3 = Inr ()" "dq_inv k d3" "dq_ext d2 d3"
          and cell3: "\<And>j. dq_cell k d3 j = (if j = ?n then Some x else dq_cell k d2 j)"
          using k3 by auto
        have n1: "unat (?i + 1) = Suc ?n" using room unat_add_size [of ?i 1] by simp
        have "dq_cell k d3 j \<noteq> None" if "j < unat (?i + 1)" for j
          using that n1 dq_invD(4) [OF inv, of j] keep2 by (auto simp: cell3 dq_keeps_def less_Suc_eq)
        note pub = publish_size_ok [OF r3(2), of "?i + 1", OF this]
        have d': "d' = publish_size (?i + 1) d3" "r = Inr ?i"
          using r p1 p2 p3 r3(1) \<open>r1 = Inr u\<close> Inr by (auto simp: emplace_back_def Let_def)
        have "dq_list k d' = dq_list k d @ [x]"
        proof (rule dq_list_eqI)
          show "unat (dq_size d') = length (dq_list k d @ [x])" using n1 by (simp add: d' publish_size_def)
          fix j assume "j < length (dq_list k d @ [x])"
          then show "dq_cell k d' j = Some ((dq_list k d @ [x]) ! j)"
            using pub cell3 keep2 dq_cell_list [OF inv, of j] unfolding d'(1) dq_keeps_def
            by (auto simp: nth_append)
        qed
        moreover have "dq_ext d d'"
          using keep2 r3(3) pub dq_ext_trans unfolding d' dq_keeps_def by blast
        ultimately show ?thesis using Some pub d' by simp
      qed
    qed
  qed
qed

lemma unat_ceil_shift:
  assumes "k < 64" and "unat n + (2 ^ k - 1) < 2 ^ 64"
  shows "unat (drop_bit k (n + mask k :: size_t)) = (unat n + (2 ^ k - 1)) div 2 ^ k"
proof -
  have "unat (mask k :: size_t) = 2 ^ k - 1"
    using assms(1) by (simp add: mask_eq_exp_minus_1 unat_minus_one unat_pow2)
  then show ?thesis using assms(2) by (simp add: unat_shift unat_add_size)
qed

lemma div_next: "((i :: nat) + 2 ^ k) div 2 ^ k = Suc (i div 2 ^ k)"
  by (simp add: div_add_self2)

lemma ceil_div_bound:
  fixes i n :: nat
  assumes "i < n"
  shows "i div 2 ^ k < (n + (2 ^ k - 1)) div 2 ^ k"
proof -
  have "i + 2 ^ k \<le> n + (2 ^ k - 1)" using assms by (simp add: Suc_leI)
  then have "(i + 2 ^ k) div 2 ^ k \<le> (n + (2 ^ k - 1)) div 2 ^ k" by (rule div_le_mono)
  then show ?thesis by (simp add: div_next)
qed

lemma resize_loop_ok:
  assumes "dq_inv k d" and "\<And>j. j < unat i + n \<Longrightarrow> j div 2 ^ k < unat (dq_dcap d)" and "unat i + n < 2 ^ 64"
    and "unat (dq_size d) \<le> unat i" and "resize_loop ok k dflt n i d = (r, d')"
  shows "dq_inv k d' \<and> dq_ext d d' \<and> dq_size d' = dq_size d \<and> (\<forall>j<unat i. dq_cell k d' j = dq_cell k d j) \<and>
    (r = Inl Bad_alloc \<and> \<not> (\<forall>a. ok a) \<or> r = Inr () \<and> (\<forall>j. unat i \<le> j \<longrightarrow> j < unat i + n \<longrightarrow> dq_cell k d' j = Some dflt))"
  using assms
proof (induction n arbitrary: i d)
  case 0
  then show ?case by auto
next
  case (Suc n)
  obtain r1 d1 where p1: "ensure_block ok k i d = (r1, d1)" by fastforce
  have "unat i div 2 ^ k < unat (dq_dcap d)" using Suc.prems(2) by simp
  note k1 = ensure_block_ok [OF Suc.prems(1) this p1]
  then have keep: "dq_keeps k d d1" by simp
  show ?case
  proof (cases r1)
    case (Inl e)
    then show ?thesis using k1 p1 Suc.prems(5) by (auto simp: dq_keeps_def)
  next
    case (Inr u)
    then have e: "dq_entry d1 (unat i div 2 ^ k) \<noteq> None" using k1 by auto
    obtain r2 d2 where p2: "construct_elem k i (Some dflt) d1 = (r2, d2)" by fastforce
    have k2: "r2 = Inr ()" "dq_inv k d2" "dq_ext d1 d2" "dq_size d2 = dq_size d1" "dq_dcap d2 = dq_dcap d1"
      and cell2: "\<And>j. dq_cell k d2 j = (if j = unat i then Some dflt else dq_cell k d1 j)"
      using construct_elem_ok [OF dq_keeps_inv [OF keep] e p2] by auto
    have i1: "unat (i + 1) = Suc (unat i)" using Suc.prems(3) unat_add_size [of i 1] by simp
    have "resize_loop ok k dflt n (i + 1) d2 = (r, d')" using Suc.prems(5) p1 p2 Inr k2(1) by simp
    note IH = Suc.IH [OF k2(2) _ _ _ this]
    have "j div 2 ^ k < unat (dq_dcap d2)" if "j < unat (i + 1) + n" for j
      using Suc.prems(2) [of j] that i1 k2(5) keep by (simp add: dq_keeps_def)
    then have IH': "dq_inv k d'" "dq_ext d2 d'" "dq_size d' = dq_size d2"
      "\<And>j. j < Suc (unat i) \<Longrightarrow> dq_cell k d' j = dq_cell k d2 j"
      "r = Inl Bad_alloc \<and> \<not> (\<forall>a. ok a) \<or> r = Inr () \<and> (\<forall>j. Suc (unat i) \<le> j \<longrightarrow> j < Suc (unat i) + n \<longrightarrow> dq_cell k d' j = Some dflt)"
      using IH Suc.prems(3,4) i1 k2(4) keep by (auto simp: dq_keeps_def)
    have "dq_ext d d'" using keep k2(3) IH'(2) dq_ext_trans unfolding dq_keeps_def by blast
    moreover have "dq_cell k d' j = dq_cell k d j" if "j < unat i" for j
      using IH'(4) [of j] cell2 [of j] that keep by (simp add: dq_keeps_def)
    moreover have "dq_cell k d' (unat i) = Some dflt" using IH'(4) [of "unat i"] cell2 by simp
    then have "r = Inl Bad_alloc \<and> \<not> (\<forall>a. ok a) \<or> r = Inr () \<and>
        (\<forall>j. unat i \<le> j \<longrightarrow> j < unat i + Suc n \<longrightarrow> dq_cell k d' j = Some dflt)"
      using IH'(5) by (simp add: Suc_le_eq) (metis le_neq_implies_less)
    moreover have "dq_size d' = dq_size d" using IH'(3) k2(4) keep by (simp add: dq_keeps_def)
    ultimately show ?thesis using IH'(1) by blast
  qed
qed

lemma resize_dir_ok:
  assumes inv: "dq_inv k d" and nowrap: "unat n + (2 ^ k - 1) < 2 ^ 64" and r: "resize_dir ok k n d = (r, d')"
  shows "dq_keeps k d d' \<and> (r = Inl Bad_alloc \<and> \<not> (unat n < 2 ^ 60 \<and> (\<forall>a. ok a)) \<or>
           r = Inr () \<and> (\<forall>j<unat n. j div 2 ^ k < unat (dq_dcap d')))"
proof -
  let ?c = "drop_bit k (n + mask k)"
  have c: "unat ?c = (unat n + (2 ^ k - 1)) div 2 ^ k" by (rule unat_ceil_shift [OF dq_invD(1) [OF inv] nowrap])
  have reach: "j div 2 ^ k < unat ?c" if "j < unat n" for j using ceil_div_bound [OF that] c by simp
  have small: "unat ?c < 2 ^ 60" if "unat n < 2 ^ 60"
  proof -
    have "unat ?c \<le> unat n"
    proof (cases "unat n")
      case (Suc m)
      have "(Suc m + (2 ^ k - 1)) div 2 ^ k = Suc (m div 2 ^ k)"
      proof -
        have "Suc m + (2 ^ k - 1) = m + 2 ^ k" by simp
        then show ?thesis by (simp add: div_next)
      qed
      then show ?thesis using c Suc by (simp add: div_le_dividend)
    qed (use c in simp)
    with that show ?thesis by simp
  qed
  show ?thesis
  proof (cases "dq_dcap d < ?c")
    case False
    then have "unat ?c \<le> unat (dq_dcap d)" by (simp add: word_less_nat_alt)
    moreover have "r = Inr ()" "d' = d" using r False by (auto simp: resize_dir_def Let_def)
    ultimately show ?thesis using dq_keeps_refl [OF inv] reach by (meson less_le_trans)
  next
    case True
    then have "unat (dq_dcap d) \<le> unat ?c" by (simp add: word_less_nat_alt)
    moreover have "reallocate_directory ok ?c d = (r, d')" using r True by (simp add: resize_dir_def Let_def)
    ultimately show ?thesis using reallocate_directory_ok [OF inv] reach small by metis
  qed
qed

lemma dq_resize_ok:
  assumes inv: "dq_inv k d" and nowrap: "unat n + (2 ^ k - 1) < 2 ^ 64" and r: "dq_resize ok k dflt n d = (r, d')"
  shows "dq_inv k d' \<and> dq_ext d d' \<and>
    (r = Inr () \<and> dq_list k d' = dq_list k d @ replicate (unat n - length (dq_list k d)) dflt \<or>
     r = Inl Bad_alloc \<and> \<not> (unat n < 2 ^ 60 \<and> (\<forall>a. ok a)) \<and> dq_list k d' = dq_list k d)"
proof (cases "n \<le> dq_size d")
  case True
  then have "unat n \<le> unat (dq_size d)" by (simp add: word_le_nat_alt)
  with True r inv show ?thesis by (simp add: dq_resize_def)
next
  case False
  let ?i = "dq_size d"
  have lt: "unat ?i < unat n" using False by (simp add: word_le_nat_alt not_le)
  obtain r1 d1 where p1: "resize_dir ok k n d = (r1, d1)" by fastforce
  note k1 = resize_dir_ok [OF inv nowrap p1]
  then have keep: "dq_keeps k d d1" by simp
  show ?thesis
  proof (cases r1)
    case (Inl e)
    then show ?thesis using k1 r p1 False dq_keeps_list [OF keep] by (auto simp: dq_resize_def Let_def dq_keeps_def)
  next
    case (Inr u)
    have count: "unat (n - ?i) = unat n - unat ?i" using False by (simp add: unat_sub_if_size word_le_nat_alt not_le)
    obtain r2 d2 where p2: "resize_loop ok k dflt (unat (n - ?i)) ?i d1 = (r2, d2)" by fastforce
    have reach: "j div 2 ^ k < unat (dq_dcap d1)" if "j < unat ?i + unat (n - ?i)" for j
      using k1 Inr that count lt by auto
    have top: "unat ?i + unat (n - ?i) < 2 ^ 64" using count lt unat_lt_size [of n] by linarith
    have sz1: "unat (dq_size d1) \<le> unat ?i" using keep by (simp add: dq_keeps_def)
    note k2 = resize_loop_ok [OF dq_keeps_inv [OF keep] reach top sz1 p2]
    have cells: "dq_cell k d2 j = Some (dq_list k d ! j)" if "j < unat ?i" for j
      using k2 keep that dq_cell_list [OF inv that] by (auto simp: dq_keeps_def)
    have ext: "dq_ext d d2" using k2 keep dq_ext_trans unfolding dq_keeps_def by blast
    show ?thesis
    proof (cases r2)
      case (Inl e)
      have "dq_list k d2 = dq_list k d"
        by (rule dq_list_eqI) (use k2 keep cells in \<open>auto simp: dq_keeps_def\<close>)
      then show ?thesis using Inl k2 ext r p1 p2 \<open>r1 = Inr u\<close> False by (auto simp: dq_resize_def Let_def)
    next
      case Inr2: (Inr u2)
      then have new: "dq_cell k d2 j = Some dflt" if "unat ?i \<le> j" "j < unat n" for j
        using k2 that count lt by auto
      have "dq_cell k d2 j \<noteq> None" if "j < unat n" for j
        using cells [of j] new [of j] that by (cases "j < unat ?i") auto
      moreover have "dq_inv k d2" using k2 by blast
      ultimately have pub: "dq_inv k (publish_size n d2) \<and> dq_ext d2 (publish_size n d2) \<and>
          (\<forall>i. dq_cell k (publish_size n d2) i = dq_cell k d2 i)" using publish_size_ok by blast
      have d': "r = Inr ()" "d' = publish_size n d2"
        using r p1 p2 Inr Inr2 False by (auto simp: dq_resize_def Let_def)
      have "dq_list k d' = dq_list k d @ replicate (unat n - length (dq_list k d)) dflt"
      proof (rule dq_list_eqI)
        show "unat (dq_size d') = length (dq_list k d @ replicate (unat n - length (dq_list k d)) dflt)"
          using lt by (simp add: d' publish_size_def)
        fix j assume "j < length (dq_list k d @ replicate (unat n - length (dq_list k d)) dflt)"
        then have "j < unat n" using lt by simp
        then show "dq_cell k d' j = Some ((dq_list k d @ replicate (unat n - length (dq_list k d)) dflt) ! j)"
          using pub cells [of j] new [of j] unfolding d'(2) by (cases "j < unat ?i") (auto simp: nth_append)
      qed
      moreover have "dq_ext d d'" using ext pub dq_ext_trans unfolding d'(2) by blast
      ultimately show ?thesis using pub d' by simp
    qed
  qed
qed

lemma dq_reserve_ok:
  assumes inv: "dq_inv k d" and nowrap: "unat n + (2 ^ k - 1) < 2 ^ 64" and cap: "unat (dq_dcap d) * 2 ^ k < 2 ^ 64"
    and r: "dq_reserve ok k n d = (r, d')"
  shows "dq_inv k d' \<and> dq_ext d d' \<and> dq_list k d' = dq_list k d \<and>
    (r = Inr () \<and> unat n \<le> unat (dq_dcap d') * 2 ^ k \<or> r = Inl Bad_alloc \<and> \<not> (unat n < 2 ^ 60 \<and> (\<forall>a. ok a)))"
proof -
  have pb: "unat (push_bit k (dq_dcap d)) = unat (dq_dcap d) * 2 ^ k"
    using cap by (simp add: push_bit_eq_mult unat_word_ariths unat_pow2 [OF dq_invD(1) [OF inv]])
  let ?c = "drop_bit k (n + mask k)"
  have c: "unat ?c = (unat n + (2 ^ k - 1)) div 2 ^ k" by (rule unat_ceil_shift [OF dq_invD(1) [OF inv] nowrap])
  show ?thesis
  proof (cases "push_bit k (dq_dcap d) < n")
    case False
    then have "unat n \<le> unat (dq_dcap d) * 2 ^ k" using pb by (simp add: word_less_nat_alt)
    then show ?thesis using r False inv by (simp add: dq_reserve_def Let_def)
  next
    case True
    then have gt: "unat (dq_dcap d) * 2 ^ k < unat n" using pb by (simp add: word_less_nat_alt)
    then have "unat (dq_dcap d) < unat ?c" using ceil_div_bound [OF gt, of k] c by simp
    moreover have "unat n \<le> unat ?c * 2 ^ k \<and> unat ?c \<le> unat n"
    proof -
      obtain m where m: "unat n = Suc m" using gt by (cases "unat n") auto
      have "m < (m div 2 ^ k + 1) * 2 ^ k" by (simp add: dividend_less_div_times)
      moreover have "unat ?c = Suc (m div 2 ^ k)"
      proof -
        have "Suc m + (2 ^ k - 1) = m + 2 ^ k" by simp
        then show ?thesis using c m by (simp add: div_next)
      qed
      ultimately show ?thesis using m by (simp add: div_le_dividend)
    qed
    moreover have "reallocate_directory ok ?c d = (r, d')" using r True by (simp add: dq_reserve_def Let_def)
    ultimately show ?thesis using reallocate_directory_ok [OF inv, of ?c ok r d'] dq_keeps_list [of k d d']
      by (auto simp: dq_keeps_def)
  qed
qed

section \<open>Destruction\<close>

text \<open>Which calls change \<open>directory_capacity_\<close>, and when \<open>capacity()\<close> stays a \<open>size_t\<close>.\<close>

definition cap_ok :: "nat \<Rightarrow> 'a deque \<Rightarrow> bool" where
  "cap_ok k d \<longleftrightarrow> unat (dq_dcap d) * 2 ^ k < 2 ^ 64"

lemma dq_capacity_unat: "k < 64 \<Longrightarrow> cap_ok k d \<Longrightarrow> unat (dq_capacity k d) = unat (dq_dcap d) * 2 ^ k"
  by (simp add: cap_ok_def dq_capacity_def push_bit_eq_mult unat_word_ariths unat_pow2)

lemma reallocate_directory_dcap:
  "reallocate_directory ok n d = (r, d') \<Longrightarrow> dq_dcap d' = dq_dcap d \<or> dq_dcap d' = n"
  by (auto simp: reallocate_directory_def Let_def split: if_splits)

lemma store_entry_dcap: "store_entry j b d = (r, d') \<Longrightarrow> dq_dcap d' = dq_dcap d"
  by (auto simp: store_entry_def split: option.splits if_splits)

lemma ensure_block_dcap: "ensure_block ok k i d = (r, d') \<Longrightarrow> dq_dcap d' = dq_dcap d"
  by (auto simp: ensure_block_def allocate_block_def Let_def split: option.splits sum.splits if_splits
      dest: store_entry_dcap)

lemma construct_elem_dcap: "construct_elem k i v d = (r, d') \<Longrightarrow> dq_dcap d' = dq_dcap d"
  by (auto simp: construct_elem_def split: option.splits sum.splits if_splits)

lemma resize_loop_dcap: "resize_loop ok k dflt n i d = (r, d') \<Longrightarrow> dq_dcap d' = dq_dcap d"
proof (induction n arbitrary: i d)
  case (Suc n)
  obtain r1 d1 where p1: "ensure_block ok k i d = (r1, d1)" by fastforce
  obtain r2 d2 where p2: "construct_elem k i (Some dflt) d1 = (r2, d2)" by fastforce
  consider e where "r1 = Inl e" "d' = d1" | e where "r2 = Inl e" "d' = d2"
    | "resize_loop ok k dflt n (i + 1) d2 = (r, d')"
    using Suc.prems p1 p2 by (cases r1; cases r2) simp_all
  then have "dq_dcap d' = dq_dcap d2 \<or> dq_dcap d' = dq_dcap d1" using Suc.IH by cases auto
  then show ?case using ensure_block_dcap [OF p1] construct_elem_dcap [OF p2] by argo
qed simp

lemma publish_size_dcap [simp]: "dq_dcap (publish_size n d) = dq_dcap d"
  by (simp add: publish_size_def)

lemma ceil_cap_ok:
  assumes "k < 64" and "unat n + (2 ^ k - 1) < 2 ^ 64" and "dq_dcap d' = drop_bit k (n + mask k)"
  shows "cap_ok k d'"
proof -
  have "unat (dq_dcap d') * 2 ^ k \<le> unat n + (2 ^ k - 1)"
    unfolding assms(3) unat_ceil_shift [OF assms(1,2)] by (rule div_times_less_eq_dividend)
  then show ?thesis unfolding cap_ok_def using assms(2) by (rule le_less_trans)
qed

lemma emplace_dir_cap:
  assumes inv: "dq_inv k d" and cap: "cap_ok k d" and size: "unat (dq_size d) < 2 ^ 63"
    and r: "emplace_dir ok k d = (r, d')"
  shows "cap_ok k d'"
proof (cases "unat (dq_dcap d) \<le> block_idx k (dq_size d)")
  case False
  then show ?thesis using r cap by (simp add: emplace_dir_def)
next
  case True
  let ?n = "if dq_dcap d = 0 then 1 else dq_dcap d * 2"
  have k: "(2 :: nat) ^ k \<le> 2 ^ 63" by (rule pow_le_size [OF dq_invD(1) [OF inv]])
  have "unat (dq_dcap d) < 2 ^ 60" by (rule dirs_okD(1) [OF dq_invD(2) [OF inv]])
  then have n: "unat ?n = (if dq_dcap d = 0 then 1 else 2 * unat (dq_dcap d))" using unat_double by simp
  have "unat (dq_dcap d) * 2 ^ k \<le> unat (dq_size d)"
    using True unfolding block_idx_div by (metis div_times_less_eq_dividend le_trans mult_le_mono1)
  then have "unat ?n * 2 ^ k < 2 ^ 64" using n k size by (cases "dq_dcap d = 0") simp_all
  moreover have "dq_dcap d' = dq_dcap d \<or> dq_dcap d' = ?n"
    using r True reallocate_directory_dcap [of ok ?n d r d'] by (simp add: emplace_dir_def)
  ultimately show ?thesis using cap by (auto simp: cap_ok_def)
qed

lemma emplace_back_cap:
  assumes inv: "dq_inv k d" and cap: "cap_ok k d" and size: "unat (dq_size d) < 2 ^ 63"
    and r: "emplace_back ok k v d = (r, d')"
  shows "cap_ok k d'"
proof -
  let ?i = "dq_size d"
  obtain r1 d1 where p1: "emplace_dir ok k d = (r1, d1)" by fastforce
  obtain r2 d2 where p2: "ensure_block ok k ?i d1 = (r2, d2)" by fastforce
  obtain r3 d3 where p3: "construct_elem k ?i v d2 = (r3, d3)" by fastforce
  have "dq_dcap d' = dq_dcap d1"
    using r p1 p2 p3 ensure_block_dcap [OF p2] construct_elem_dcap [OF p3]
    by (cases r1; cases r2; cases r3) (auto simp: emplace_back_def Let_def)
  with emplace_dir_cap [OF inv cap size p1] show ?thesis by (simp add: cap_ok_def)
qed

lemma resize_dir_cap:
  assumes k: "k < 64" and cap: "cap_ok k d" and "unat n + (2 ^ k - 1) < 2 ^ 64" and "resize_dir ok k n d = (r, d')"
  shows "cap_ok k d'"
proof (cases "dq_dcap d < drop_bit k (n + mask k)")
  case True
  with assms reallocate_directory_dcap [of ok "drop_bit k (n + mask k)" d r d'] ceil_cap_ok [OF k assms(3)]
  show ?thesis by (auto simp: resize_dir_def Let_def cap_ok_def)
qed (use assms in \<open>auto simp: resize_dir_def Let_def\<close>)

lemma dq_resize_cap:
  assumes k: "k < 64" and cap: "cap_ok k d" and n: "unat n + (2 ^ k - 1) < 2 ^ 64" and r: "dq_resize ok k dflt n d = (r, d')"
  shows "cap_ok k d'"
proof (cases "n \<le> dq_size d")
  case False
  obtain r1 d1 where p1: "resize_dir ok k n d = (r1, d1)" by fastforce
  obtain r2 d2 where p2: "resize_loop ok k dflt (unat (n - dq_size d)) (dq_size d) d1 = (r2, d2)" by fastforce
  have "dq_dcap d' = dq_dcap d1"
    using r False p1 p2 resize_loop_dcap [OF p2] by (cases r1; cases r2) (auto simp: dq_resize_def Let_def)
  with resize_dir_cap [OF k cap n p1] show ?thesis by (simp add: cap_ok_def)
qed (use r cap in \<open>simp add: dq_resize_def\<close>)

lemma dq_reserve_cap:
  assumes k: "k < 64" and cap: "cap_ok k d" and n: "unat n + (2 ^ k - 1) < 2 ^ 64" and r: "dq_reserve ok k n d = (r, d')"
  shows "cap_ok k d'"
proof (cases "push_bit k (dq_dcap d) < n")
  case True
  with assms reallocate_directory_dcap [of ok "drop_bit k (n + mask k)" d r d'] ceil_cap_ok [OF k n]
  show ?thesis by (auto simp: dq_reserve_def Let_def cap_ok_def)
qed (use assms in \<open>auto simp: dq_reserve_def Let_def\<close>)

text \<open>A size whose rounding up to blocks wraps around gives a directory of no entries.\<close>

lemma ceil_wraps:
  assumes k: "k < 64" and n: "2 ^ 64 \<le> unat n + (2 ^ k - 1)"
  shows "drop_bit k (n + mask k :: size_t) = 0"
proof -
  have k2: "(2 :: nat) ^ k \<le> 2 ^ 63" by (rule pow_le_size [OF k])
  have m: "unat (mask k :: size_t) = 2 ^ k - 1" using k by (simp add: mask_eq_exp_minus_1 unat_minus_one unat_pow2)
  have "unat (n + mask k) = (unat n + (2 ^ k - 1)) mod 2 ^ 64" by (simp add: unat_word_ariths m)
  also have "\<dots> = unat n + (2 ^ k - 1) - 2 ^ 64" using n k2 unat_lt_size [of n] by (subst le_mod_geq) auto
  also have "\<dots> < 2 ^ k"
  proof -
    have "a + (b - 1) - c < b" if "a < c" "0 < b" for a b c :: nat using that by simp
    from this [OF unat_lt_size] show ?thesis by simp
  qed
  finally have "unat (n + mask k) < 2 ^ k" .
  then have "unat (drop_bit k (n + mask k)) = 0" by (simp add: unat_shift)
  then show ?thesis by (simp only: unat_eq_0)
qed

lemma capacity_below_wrap:
  assumes k: "k < 64" and cap: "cap_ok k d" and n: "2 ^ 64 \<le> unat n + (2 ^ k - 1)"
  shows "dq_capacity k d < n"
proof -
  have e: "(2 :: nat) ^ 64 = 2 ^ (64 - k) * 2 ^ k" using k by (simp flip: power_add)
  have "unat (dq_dcap d) < 2 ^ (64 - k)" using cap unfolding cap_ok_def e by simp
  then have "(unat (dq_dcap d) + 1) * 2 ^ k \<le> 2 ^ 64" unfolding e by (intro mult_le_mono1) simp
  then have "unat (dq_dcap d) * 2 ^ k + 2 ^ k \<le> 2 ^ 64" by (simp add: algebra_simps)
  moreover have "(0 :: nat) < 2 ^ k" by simp
  ultimately have "unat (dq_dcap d) * 2 ^ k < unat n" using n by linarith
  then show ?thesis using dq_capacity_unat [OF k cap] by (simp add: word_less_nat_alt)
qed

lemma dq_reserve_wraps:
  assumes inv: "dq_inv k d" and cap: "cap_ok k d" and n: "2 ^ 64 \<le> unat n + (2 ^ k - 1)"
    and r: "dq_reserve ok k n d = (r, d')"
  shows "if dq_dcap d = 0 then (r = Inr () \<and> dq_dcap d' = 0 \<or> r = Inl Bad_alloc \<and> \<not> (\<forall>a. ok a))
     else r = Inl (if ok (dq_allocs d) then Undefined else Bad_alloc)"
proof -
  note k = dq_invD(1) [OF inv]
  have "length (old_entries d) = unat (dq_dcap d)" by (rule dirs_okD(2) [OF dq_invD(2) [OF inv]])
  moreover have "reallocate_directory ok 0 d = (r, d')"
    using r ceil_wraps [OF k n] capacity_below_wrap [OF k cap n] by (simp add: dq_reserve_def Let_def dq_capacity_def)
  moreover have "0 < unat (dq_dcap d)" if "dq_dcap d \<noteq> 0" using that by (simp add: unat_gt_0)
  ultimately show ?thesis by (auto simp: reallocate_directory_def Let_def split: if_splits)
qed

lemma destroy_elem_ok:
  assumes ok: "blocks_ok k d" and cell: "dq_cell k d (unat i) = Some x"
  shows "\<exists>d' B. destroy_elem k i d = Inr d' \<and> d' = d\<lparr>dq_blocks := B\<rparr> \<and> dom B = dom (dq_blocks d) \<and> blocks_ok k d' \<and>
    (\<forall>j. j \<noteq> unat i \<longrightarrow> dq_cell k d' j = dq_cell k d j)"
proof -
  obtain b where b: "dq_entry d (unat i div 2 ^ k) = Some b" using dq_cell_entry [OF cell] by blast
  with cell obtain cells where cells: "dq_blocks d b = Some cells" "cells ! (unat i mod 2 ^ k) = Some x"
    by (auto simp: dq_cell_def split: option.splits)
  let ?B = "(dq_blocks d)(b \<mapsto> cells[unat i mod 2 ^ k := None])"
  have "length cells = 2 ^ k" by (rule blocks_okD(4) [OF ok cells(1)])
  then have "destroy_elem k i d = Inr (d\<lparr>dq_blocks := ?B\<rparr>)"
    using dq_index_entry [OF b] cells by (simp add: destroy_elem_def load_ref_def checked_nth_def)
  moreover have "dom ?B = dom (dq_blocks d)" using cells by auto
  ultimately show ?thesis using cell_update [OF ok b cells(1) refl, of None]
    by (intro exI [of _ "d\<lparr>dq_blocks := ?B\<rparr>"] exI [of _ ?B]) simp
qed

lemma destroy_elems_ok:
  assumes "blocks_ok k d" and "\<And>j. unat i \<le> j \<Longrightarrow> j < unat i + n \<Longrightarrow> dq_cell k d j \<noteq> None" and "unat i + n < 2 ^ 64"
  shows "\<exists>B. destroy_elems k n i d = Inr (d\<lparr>dq_blocks := B\<rparr>) \<and> dom B = dom (dq_blocks d)"
  using assms
proof (induction n arbitrary: i d)
  case 0
  then show ?case by (intro exI [of _ "dq_blocks d"]) simp
next
  case (Suc n)
  then obtain x where "dq_cell k d (unat i) = Some x" by force
  from destroy_elem_ok [OF Suc.prems(1) this] obtain d1 B where
    d1: "destroy_elem k i d = Inr d1" "d1 = d\<lparr>dq_blocks := B\<rparr>" "dom B = dom (dq_blocks d)" "blocks_ok k d1"
      "\<And>j. j \<noteq> unat i \<Longrightarrow> dq_cell k d1 j = dq_cell k d j"
    by blast
  have i1: "unat (i + 1) = Suc (unat i)" using Suc.prems(3) unat_add_size [of i 1] by simp
  have "dq_cell k d1 j \<noteq> None" if "unat (i + 1) \<le> j" "j < unat (i + 1) + n" for j
    using d1(5) [of j] Suc.prems(2) [of j] that i1 by simp
  with Suc.IH [OF d1(4), of "i + 1"] Suc.prems(3) i1 obtain B' where
    "destroy_elems k n (i + 1) d1 = Inr (d1\<lparr>dq_blocks := B'\<rparr>)" "dom B' = dom (dq_blocks d1)" by auto
  with d1(1-3) show ?case by (intro exI [of _ B']) simp
qed

lemma delete_blocks_ok:
  assumes "\<And>b. Some b \<in> set es \<Longrightarrow> dq_blocks d b \<noteq> None" and "distinct (filter (\<lambda>e. e \<noteq> None) es)"
  shows "delete_blocks es d = Inr (d\<lparr>dq_blocks := (\<lambda>b. if Some b \<in> set es then None else dq_blocks d b)\<rparr>)"
  using assms
proof (induction es arbitrary: d)
  case Nil
  then show ?case by simp
next
  case (Cons e es)
  show ?case
  proof (cases e)
    case None
    then show ?thesis using Cons by simp
  next
    case (Some b)
    then obtain cells where cells: "dq_blocks d b = Some cells" using Cons.prems(1) [of b] by auto
    have fresh: "Some b \<notin> set es" using Cons.prems(2) Some by simp
    let ?d = "d\<lparr>dq_blocks := (dq_blocks d)(b := None)\<rparr>"
    have "delete_blocks es ?d = Inr (?d\<lparr>dq_blocks := (\<lambda>c. if Some c \<in> set es then None else dq_blocks ?d c)\<rparr>)"
      by (rule Cons.IH) (use Cons.prems Some fresh in auto)
    moreover have "(\<lambda>c. if Some c \<in> set es then None else dq_blocks ?d c) =
        (\<lambda>c. if Some c \<in> set (e # es) then None else dq_blocks d c)" using Some by auto
    ultimately show ?thesis using Some cells by simp
  qed
qed

lemma delete_dirs_ok:
  assumes "\<And>a. a \<in> set as \<Longrightarrow> dq_dirs d a \<noteq> None" and "distinct as"
  shows "delete_dirs as d = Inr (d\<lparr>dq_dirs := (\<lambda>a. if a \<in> set as then None else dq_dirs d a)\<rparr>)"
  using assms
proof (induction as arbitrary: d)
  case Nil
  then show ?case by simp
next
  case (Cons a as)
  then obtain arr where arr: "dq_dirs d a = Some arr" by fastforce
  let ?d = "d\<lparr>dq_dirs := (dq_dirs d)(a := None)\<rparr>"
  have "delete_dirs as ?d = Inr (?d\<lparr>dq_dirs := (\<lambda>c. if c \<in> set as then None else dq_dirs ?d c)\<rparr>)"
    by (rule Cons.IH) (use Cons.prems in auto)
  moreover have "(\<lambda>c. if c \<in> set as then None else dq_dirs ?d c) = (\<lambda>c. if c \<in> set (a # as) then None else dq_dirs d c)"
    by auto
  ultimately show ?case using arr by simp
qed

lemma distinct_non_null:
  "(\<And>i j b. i < length es \<Longrightarrow> j < length es \<Longrightarrow> es ! i = Some b \<Longrightarrow> es ! j = Some b \<Longrightarrow> i = j) \<Longrightarrow>
   distinct (filter (\<lambda>e. e \<noteq> None) es)"
proof (induction es)
  case Nil
  then show ?case by simp
next
  case (Cons e es)
  have "distinct (filter (\<lambda>e. e \<noteq> None) es)"
    by (rule Cons.IH) (use Cons.prems [of "Suc _" "Suc _"] in fastforce)
  moreover have "e \<notin> set es" if "e = Some b" for b
  proof
    assume "e \<in> set es"
    then obtain i where "i < length es" "es ! i = e" by (auto simp: in_set_conv_nth)
    with Cons.prems [of 0 "Suc i" b] that show False by simp
  qed
  ultimately show ?case by auto
qed

lemma dq_destroy_ok:
  assumes inv: "dq_inv k d"
  shows "\<exists>d'. dq_destroy k d = Inr d' \<and> dq_blocks d' = Map.empty \<and> dq_dirs d' = Map.empty"
proof -
  note dirs = dirs_okD [OF dq_invD(2) [OF inv]] and blk = blocks_okD [OF dq_invD(3) [OF inv]]
  show ?thesis
  proof (cases "dq_directory d")
    case None
    then have noent: "dq_entry d j = None" for j by (simp add: dq_entry_def old_entries_def)
    then have "dq_blocks d b = None" for b using blk(1) [of b] by simp
    moreover have "delete_dirs (dq_retired d) d = Inr (d\<lparr>dq_dirs := (\<lambda>a. if a \<in> set (dq_retired d) then None else dq_dirs d a)\<rparr>)"
      by (rule delete_dirs_ok) (use dirs(3,4) in auto)
    moreover have "(\<lambda>a. if a \<in> set (dq_retired d) then None else dq_dirs d a) = Map.empty"
      using dirs(3) None by (auto simp: fun_eq_iff) (metis not_Some_eq)
    ultimately show ?thesis using None by (auto simp: dq_destroy_def)
  next
    case (Some a)
    then obtain arr where arr: "dq_dirs d a = Some arr" using dirs(3) [of a] by auto
    have oe: "old_entries d = arr" using Some arr by (simp add: old_entries_def)
    have len: "length arr = unat (dq_dcap d)" using dirs(2) oe by simp
    obtain B where B: "destroy_elems k (unat (dq_size d)) 0 d = Inr (d\<lparr>dq_blocks := B\<rparr>)" "dom B = dom (dq_blocks d)"
      using destroy_elems_ok [OF dq_invD(3) [OF inv], of 0 "unat (dq_size d)"] dq_invD(4) [OF inv]
        unat_lt_size [of "dq_size d"] by auto
    let ?d1 = "d\<lparr>dq_blocks := B\<rparr>"
    have ent: "Some b \<in> set arr \<longleftrightarrow> dq_blocks d b \<noteq> None" for b
      using blk(1) [of b] by (auto simp: dq_entry_def oe in_set_conv_nth)
    have "delete_blocks arr ?d1 = Inr (?d1\<lparr>dq_blocks := (\<lambda>b. if Some b \<in> set arr then None else dq_blocks ?d1 b)\<rparr>)"
    proof (rule delete_blocks_ok)
      show "dq_blocks ?d1 b \<noteq> None" if "Some b \<in> set arr" for b
        using that ent [of b] B(2) by (auto simp: dom_def set_eq_iff)
      show "distinct (filter (\<lambda>e. e \<noteq> None) arr)"
        by (rule distinct_non_null) (use blk(2) in \<open>auto simp: dq_entry_def oe\<close>)
    qed
    moreover have "(\<lambda>b. if Some b \<in> set arr then None else dq_blocks ?d1 b) = Map.empty"
      using ent B(2) by (auto simp: fun_eq_iff dom_def set_eq_iff) (metis not_Some_eq)
    ultimately have del: "delete_blocks arr ?d1 = Inr (d\<lparr>dq_blocks := Map.empty\<rparr>)" by simp
    let ?d2 = "d\<lparr>dq_blocks := Map.empty, dq_dirs := (dq_dirs d)(a := None)\<rparr>"
    have "delete_dirs (dq_retired d) ?d2 = Inr (?d2\<lparr>dq_dirs := (\<lambda>c. if c \<in> set (dq_retired d) then None else dq_dirs ?d2 c)\<rparr>)"
      by (rule delete_dirs_ok) (use dirs(3,4,5) Some in auto)
    moreover have "(\<lambda>c. if c \<in> set (dq_retired d) then None else dq_dirs ?d2 c) = Map.empty"
      using dirs(3) Some by (auto simp: fun_eq_iff) (metis not_Some_eq)
    ultimately show ?thesis using Some arr B(1) len del by (simp add: dq_destroy_def)
  qed
qed

end
