(* ===== verification/Append_Deque_Spec.thy ===== *)
theory Append_Deque_Spec
  imports Append_Deque
begin

text \<open>
  What the append-only deque promises: it behaves as a list that only grows at the end, every index keeps
  its address for the life of the container, failures leave the list unchanged, the iterators walk the
  list, and destruction releases every object exactly once.
\<close>

section \<open>Iterators\<close>

text \<open>
  \<open>Iterator<IsConst>\<close>: the logical index and the cached element address (\<open>current_element_\<close>).
  A \<open>difference_type\<close> is read from a 64-bit word as a signed number.
\<close>

record dq_iter =
  it_index :: size_t
  it_cur :: "(nat \<times> nat) option"

definition iter_at :: "nat \<Rightarrow> size_t \<Rightarrow> 'a deque \<Rightarrow> cxx_error + dq_iter" where
  "iter_at k i d =
     (if i < dq_size d
      then bind_err (dq_index k i d) (\<lambda>r. Inr \<lparr>it_index = i, it_cur = Some r\<rparr>)
      else Inr \<lparr>it_index = i, it_cur = None\<rparr>)"

definition dq_begin :: "nat \<Rightarrow> 'a deque \<Rightarrow> cxx_error + dq_iter" where
  "dq_begin k d = iter_at k 0 d"

definition dq_end :: "nat \<Rightarrow> 'a deque \<Rightarrow> cxx_error + dq_iter" where
  "dq_end k d = iter_at k (dq_size d) d"

definition iter_deref :: "nat \<Rightarrow> dq_iter \<Rightarrow> 'a deque \<Rightarrow> cxx_error + (nat \<times> nat) \<times> dq_iter" where
  "iter_deref k it d =
     (case it_cur it of
        Some r \<Rightarrow> Inr (r, it)
      | None \<Rightarrow> bind_err (dq_index k (it_index it) d) (\<lambda>r. Inr (r, it\<lparr>it_cur := Some r\<rparr>)))"

definition iter_inc :: "nat \<Rightarrow> dq_iter \<Rightarrow> dq_iter" where
  "iter_inc k it =
     (let i = it_index it + 1 in
      if i AND mask k = 0 then \<lparr>it_index = i, it_cur = None\<rparr>
      else \<lparr>it_index = i, it_cur = map_option (\<lambda>(b, off). (b, off + 1)) (it_cur it)\<rparr>)"

definition iter_dec :: "nat \<Rightarrow> dq_iter \<Rightarrow> dq_iter" where
  "iter_dec k it =
     (if it_index it AND mask k = 0 then \<lparr>it_index = it_index it - 1, it_cur = None\<rparr>
      else \<lparr>it_index = it_index it - 1, it_cur = map_option (\<lambda>(b, off). (b, off - 1)) (it_cur it)\<rparr>)"

definition iter_add :: "nat \<Rightarrow> size_t \<Rightarrow> dq_iter \<Rightarrow> dq_iter" where
  "iter_add k n it =
     (if n = 0 then it
      else let new_index = it_index it + n in
        case it_cur it of
          Some (b, off) \<Rightarrow>
            if drop_bit k (it_index it) = drop_bit k new_index
            then \<lparr>it_index = new_index, it_cur = Some (b, nat (int off + sint n))\<rparr>
            else \<lparr>it_index = new_index, it_cur = None\<rparr>
        | None \<Rightarrow> \<lparr>it_index = new_index, it_cur = None\<rparr>)"

definition iter_subscript :: "nat \<Rightarrow> size_t \<Rightarrow> dq_iter \<Rightarrow> 'a deque \<Rightarrow> cxx_error + (nat \<times> nat) \<times> dq_iter" where
  "iter_subscript k n it d = iter_deref k (iter_add k n it) d"

definition iter_sub :: "nat \<Rightarrow> size_t \<Rightarrow> dq_iter \<Rightarrow> dq_iter" where
  "iter_sub k n it = iter_add k (- n) it"

definition iter_diff :: "dq_iter \<Rightarrow> dq_iter \<Rightarrow> size_t" where
  "iter_diff a b = it_index a - it_index b"

definition iter_eq :: "dq_iter \<Rightarrow> dq_iter \<Rightarrow> bool" where
  "iter_eq a b \<longleftrightarrow> it_index a = it_index b"

definition iter_less :: "dq_iter \<Rightarrow> dq_iter \<Rightarrow> bool" where
  "iter_less a b \<longleftrightarrow> it_index a < it_index b"

text \<open>A loop over the deque, \<open>for (; it != stop; ++it) out.push_back(*it)\<close>, with fuel.\<close>

fun iter_collect :: "nat \<Rightarrow> nat \<Rightarrow> dq_iter \<Rightarrow> dq_iter \<Rightarrow> 'a deque \<Rightarrow> (cxx_error + 'a list) option" where
  "iter_collect k 0 it stop d = (if iter_eq it stop then Some (Inr []) else None)"
| "iter_collect k (Suc n) it stop d =
     (if iter_eq it stop then Some (Inr [])
      else case iter_deref k it d of
        Inl e \<Rightarrow> Some (Inl e)
      | Inr (r, it') \<Rightarrow>
          (case load_ref r d of
             Inl e \<Rightarrow> Some (Inl e)
           | Inr v \<Rightarrow> map_option (\<lambda>res. bind_err res (\<lambda>vs. Inr (v # vs))) (iter_collect k n (iter_inc k it') stop d)))"

section \<open>The caching invariant\<close>

definition iter_ok :: "nat \<Rightarrow> 'a deque \<Rightarrow> dq_iter \<Rightarrow> bool" where
  "iter_ok k d it \<longleftrightarrow> (\<forall>r. it_cur it = Some r \<longrightarrow> dq_index k (it_index it) d = Inr r)"

lemma dq_index_ext: "dq_ext d d' \<Longrightarrow> dq_index k i d = Inr r \<Longrightarrow> dq_index k i d' = Inr r"
  using dq_index_Inr [of k i d r] dq_index_entry [of d' i k "fst r"] by (cases r) (auto simp: dq_ext_def)

lemma iter_ok_ext: "dq_ext d d' \<Longrightarrow> iter_ok k d it \<Longrightarrow> iter_ok k d' it"
  using dq_index_ext by (auto simp: iter_ok_def)

lemma same_block_index:
  assumes "dq_index k i d = Inr (b, off)" and "unat j div 2 ^ k = unat i div 2 ^ k"
  shows "dq_index k j d = Inr (b, unat j mod 2 ^ k)" and "off = unat i mod 2 ^ k"
  using dq_index_Inr [OF assms(1)] assms(2) dq_index_entry [of d j k b] by auto

lemma and_mask_0: "(i :: size_t) AND mask k = 0 \<longleftrightarrow> unat i mod 2 ^ k = 0"
  by (simp only: unat_and_mask [symmetric] unat_eq_0)

lemma mod_Suc_block: "Suc m mod n \<noteq> 0 \<Longrightarrow> Suc m div n = m div n \<and> Suc m mod n = Suc (m mod n)"
  by (metis div_Suc mod_Suc)

lemma iter_inc_ok:
  assumes "iter_ok k d it" shows "iter_ok k d (iter_inc k it)"
proof (cases "it_cur it")
  case None
  then show ?thesis by (simp add: iter_ok_def iter_inc_def Let_def)
next
  case (Some r)
  obtain b off where r: "r = (b, off)" by fastforce
  let ?i = "it_index it"
  have ix: "dq_index k ?i d = Inr (b, off)" using assms Some r by (simp add: iter_ok_def)
  show ?thesis
  proof (cases "(?i + 1) AND mask k = 0")
    case True
    then show ?thesis by (simp add: iter_ok_def iter_inc_def Let_def)
  next
    case False
    then have nz: "unat (?i + 1) mod 2 ^ k \<noteq> 0" by (simp only: and_mask_0 not_False_eq_True)
    have "?i + 1 \<noteq> 0" using nz by auto
    then have i1: "unat (?i + 1) = Suc (unat ?i)" by (metis unatSuc add.commute)
    note bl = mod_Suc_block [OF nz [unfolded i1]]
    have "unat (?i + 1) div 2 ^ k = unat ?i div 2 ^ k" unfolding i1 using bl by simp
    from same_block_index [OF ix this] have "dq_index k (?i + 1) d = Inr (b, off + 1)"
      unfolding i1 using bl by simp
    then show ?thesis using False Some r by (simp add: iter_ok_def iter_inc_def Let_def)
  qed
qed

lemma iter_dec_ok:
  assumes "iter_ok k d it" shows "iter_ok k d (iter_dec k it)"
proof (cases "it_cur it")
  case None
  then show ?thesis by (simp add: iter_ok_def iter_dec_def)
next
  case (Some r)
  obtain b off where r: "r = (b, off)" by fastforce
  let ?i = "it_index it"
  have ix: "dq_index k ?i d = Inr (b, off)" using assms Some r by (simp add: iter_ok_def)
  show ?thesis
  proof (cases "?i AND mask k = 0")
    case True
    then show ?thesis by (simp add: iter_ok_def iter_dec_def)
  next
    case False
    then have nz: "unat ?i mod 2 ^ k \<noteq> 0" by (simp only: and_mask_0 not_False_eq_True)
    then obtain m where m: "unat ?i = Suc m" by (cases "unat ?i") auto
    then have "?i \<noteq> 0" by auto
    then have i1: "unat (?i - 1) = m" using unat_minus_one [of ?i] m by simp
    note bl = mod_Suc_block [OF nz [unfolded m]]
    have "unat (?i - 1) div 2 ^ k = unat ?i div 2 ^ k" unfolding i1 m using bl by simp
    from same_block_index [OF ix this] have "dq_index k (?i - 1) d = Inr (b, off - 1)"
      unfolding i1 m using bl by simp
    then show ?thesis using False Some r by (simp add: iter_ok_def iter_dec_def)
  qed
qed

lemma sint_mod: "int (unat (i + n :: size_t)) = (int (unat i) + sint n) mod 2 ^ 64"
proof -
  have "i + n = word_of_int (uint i + sint n)" by simp
  then have "uint (i + n) = uint (word_of_int (uint i + sint n) :: size_t)" by (rule arg_cong)
  also have "\<dots> = (uint i + sint n) mod 2 ^ 64"
    unfolding uint_word_of_int_eq by (simp add: take_bit_eq_mod)
  finally have "uint (i + n) = (uint i + sint n) mod 2 ^ 64" .
  then show ?thesis by simp
qed
lemma sint_block_step:
  assumes "k < 64" and "unat (i + n :: size_t) div 2 ^ k = unat i div 2 ^ k"
  shows "nat (int (unat i mod 2 ^ k) + sint n) = unat (i + n) mod 2 ^ k"
proof -
  let ?i = "int (unat i)" and ?j = "int (unat (i + n))" and ?q = "int (unat i div 2 ^ k) * 2 ^ k"
  have split: "int m = int (m div 2 ^ k) * 2 ^ k + int (m mod 2 ^ k)" for m
    using arg_cong [OF div_mult_mod_eq [of m "2 ^ k"], of int] by simp
  have i: "?i = ?q + int (unat i mod 2 ^ k)" by (rule split)
  have j: "?j = ?q + int (unat (i + n) mod 2 ^ k)" using split [of "unat (i + n)"] assms(2) by simp
  have k: "(2 :: int) ^ k \<le> 2 ^ 63" using assms(1) by (intro power_increasing) auto
  have "int (unat i mod 2 ^ k) < 2 ^ k" "int (unat (i + n) mod 2 ^ k) < 2 ^ k"
    using of_nat_less_iff [of _ "2 ^ k", where 'a = int] by simp_all
  with i j have diff: "?j - ?i < 2 ^ 63" "- (2 ^ 63) < ?j - ?i" using k by linarith+
  define m where "m = (?i + sint n) div 2 ^ 64"
  have m: "?i + sint n = ?j + m * 2 ^ 64"
    using sint_mod [of i n] div_mult_mod_eq [of "?i + sint n" "2 ^ 64"] unfolding m_def by linarith
  have b: "sint n < 2 ^ 63" "- (2 ^ 63) \<le> sint n" using sint_lt [of n] sint_ge [of n] by simp_all
  have "m * 2 ^ 64 < 2 ^ 64" "- (2 ^ 64) < m * 2 ^ 64" using m diff b by simp_all
  then have "m = 0" by simp
  then have eq: "?i + sint n = ?j" using m by simp
  have "A + x = B" if "a + x = b" "a = q + A" "b = q + B" for a b q A B x :: int using that by linarith
  from this [OF eq i j] have "int (unat i mod 2 ^ k) + sint n = int (unat (i + n) mod 2 ^ k)" .
  then show ?thesis by simp
qed

lemma iter_add_ok:
  assumes ok: "iter_ok k d it" and k: "k < 64" shows "iter_ok k d (iter_add k n it)"
proof (cases "n = 0 \<or> it_cur it = None \<or> drop_bit k (it_index it) \<noteq> drop_bit k (it_index it + n)")
  case True
  then show ?thesis using ok by (auto simp: iter_ok_def iter_add_def Let_def split: option.splits)
next
  case False
  then obtain b off where cur: "it_cur it = Some (b, off)" by auto
  let ?i = "it_index it"
  have same: "unat (?i + n) div 2 ^ k = unat ?i div 2 ^ k" using False by (metis unat_shift)
  have ix: "dq_index k ?i d = Inr (b, off)" using ok cur by (simp add: iter_ok_def)
  have "dq_index k (?i + n) d = Inr (b, nat (int off + sint n))"
    using same_block_index [OF ix same] sint_block_step [OF k same] by simp
  then show ?thesis using False cur by (simp add: iter_ok_def iter_add_def Let_def)
qed

lemma iter_deref_ok:
  assumes inv: "dq_inv k d" and ok: "iter_ok k d it" and i: "unat (it_index it) < unat (dq_size d)"
  shows "\<exists>r it'. iter_deref k it d = Inr (r, it') \<and> load_ref r d = Inr (dq_list k d ! unat (it_index it)) \<and>
           dq_index k (it_index it) d = Inr r \<and> iter_ok k d it' \<and> it_index it' = it_index it"
proof -
  obtain r where r: "dq_index k (it_index it) d = Inr r" "load_ref r d = Inr (dq_list k d ! unat (it_index it))"
    using dq_index_cell [OF inv dq_cell_list [OF inv i]] by blast
  then show ?thesis using ok by (cases "it_cur it") (auto simp: iter_deref_def iter_ok_def)
qed

lemma iter_collect_ok:
  assumes inv: "dq_inv k d" and "iter_ok k d it" and "unat (it_index it) + n = unat (dq_size d)"
    and "it_index stop = dq_size d"
  shows "iter_collect k n it stop d = Some (Inr (drop (unat (it_index it)) (dq_list k d)))"
  using assms
proof (induction n arbitrary: it)
  case 0
  then have "it_index it = dq_size d" by (auto intro: unsigned_word_eqI)
  then show ?case using 0 by (simp add: iter_eq_def)
next
  case (Suc n)
  let ?i = "unat (it_index it)"
  have lt: "?i < unat (dq_size d)" using Suc.prems(3) by simp
  obtain r it' where d: "iter_deref k it d = Inr (r, it')" "load_ref r d = Inr (dq_list k d ! ?i)"
      "iter_ok k d it'" "it_index it' = it_index it"
    using iter_deref_ok [OF inv Suc.prems(2) lt] by blast
  have i1: "unat (it_index it + 1) = Suc ?i"
    using lt unat_lt_size [of "dq_size d"] unat_add_size [of "it_index it" 1] by simp
  have ix: "it_index (iter_inc k it') = it_index it + 1" using d(4) by (simp add: iter_inc_def Let_def)
  have "iter_collect k n (iter_inc k it') stop d = Some (Inr (drop (unat (it_index (iter_inc k it'))) (dq_list k d)))"
    by (rule Suc.IH [OF inv iter_inc_ok [OF d(3)]]) (use Suc.prems ix i1 in simp_all)
  moreover have "\<not> iter_eq it stop" using lt Suc.prems(4) by (auto simp: iter_eq_def)
  moreover have "drop ?i (dq_list k d) = dq_list k d ! ?i # drop (Suc ?i) (dq_list k d)"
    using lt by (simp add: Cons_nth_drop_Suc)
  ultimately show ?case using d(1,2) ix i1 by simp
qed

section \<open>The deque as an append-only array\<close>

text \<open>
  The contract a client of an append-only array relies on, up to \<open>lim\<close> elements: a successful append puts the
  element at the end and returns its index, and a lookup finds exactly the elements of the list.
\<close>

fun append_list :: "('d \<Rightarrow> 'a \<Rightarrow> (nat \<times> 'd) option) \<Rightarrow> 'd \<Rightarrow> 'a list \<Rightarrow> (nat list \<times> 'd) option" where
  "append_list app d [] = Some ([], d)"
| "append_list app d (x # xs) =
     (case app d x of None \<Rightarrow> None
      | Some (i, d') \<Rightarrow> map_option (\<lambda>(is, e). (i # is, e)) (append_list app d' xs))"

locale append_array =
  fixes app :: "'d \<Rightarrow> 'a \<Rightarrow> (nat \<times> 'd) option"
    and get :: "'d \<Rightarrow> nat \<Rightarrow> 'a option"
    and abs :: "'d \<Rightarrow> 'a list"
    and inv :: "'d \<Rightarrow> bool"
    and lim :: nat
  assumes app_snoc: "inv d \<Longrightarrow> length (abs d) < lim \<Longrightarrow> app d x = Some (i, d') \<Longrightarrow>
      inv d' \<and> abs d' = abs d @ [x] \<and> i = length (abs d)"
    and get_nth: "inv d \<Longrightarrow> i < lim \<Longrightarrow> get d i = (if i < length (abs d) then Some (abs d ! i) else None)"
begin

lemma append_list_snoc:
  "inv d \<Longrightarrow> length (abs d) + length xs \<le> lim \<Longrightarrow> append_list app d xs = Some (is, d') \<Longrightarrow>
   inv d' \<and> abs d' = abs d @ xs \<and> is = [length (abs d)..<length (abs d) + length xs]"
proof (induction xs arbitrary: d "is")
  case Nil
  then show ?case by simp
next
  case (Cons x xs)
  obtain i e js where a: "app d x = Some (i, e)" "append_list app e xs = Some (js, d')" "is = i # js"
    using Cons.prems(3) by (auto split: option.splits)
  have e: "inv e" "abs e = abs d @ [x]" "i = length (abs d)"
    using app_snoc [OF Cons.prems(1) _ a(1)] Cons.prems(2) by auto
  moreover have "[length (abs d)..<length (abs d) + length (x # xs)] =
      length (abs d) # [Suc (length (abs d))..<Suc (length (abs d)) + length xs]"
    by (simp add: upt_conv_Cons del: upt_Suc)
  ultimately show ?case using Cons.IH [OF e(1) _ a(2)] Cons.prems(2) a(3) by (simp del: upt_Suc)
qed

lemma append_list_get:
  assumes "inv d" and "length (abs d) + length xs < lim" and "append_list app d xs = Some (is, d')"
  shows "map (get d') is = map Some xs" and "get d i = Some v \<Longrightarrow> i < lim \<Longrightarrow> get d' i = Some v"
proof -
  have r: "inv d'" "abs d' = abs d @ xs" "is = [length (abs d)..<length (abs d) + length xs]"
    using append_list_snoc [OF assms(1) less_imp_le [OF assms(2)] assms(3)] by auto
  show "map (get d') is = map Some xs"
    by (rule nth_equalityI) (use r assms(2) get_nth [OF r(1)] in \<open>auto simp: nth_append\<close>)
  show "get d' i = Some v" if "get d i = Some v" "i < lim"
    using that get_nth [OF assms(1) that(2)] get_nth [OF r(1) that(2)] r(2) by (auto simp: nth_append split: if_splits)
qed

end

definition dq_app :: "(nat \<Rightarrow> bool) \<Rightarrow> nat \<Rightarrow> 'a deque \<Rightarrow> 'a \<Rightarrow> (nat \<times> 'a deque) option" where
  "dq_app ok k d x = (case emplace_back ok k (Some x) d of (Inr i, d') \<Rightarrow> Some (unat i, d') | _ \<Rightarrow> None)"

definition dq_get :: "nat \<Rightarrow> 'a deque \<Rightarrow> nat \<Rightarrow> 'a option" where
  "dq_get k d i =
     (case bind_err (dq_at k (of_nat i) d) (\<lambda>r. load_ref r d) of Inr x \<Rightarrow> Some x | Inl e \<Rightarrow> None)"

lemma dq_at_ok:
  assumes inv: "dq_inv k d"
  shows "if unat i < length (dq_list k d)
     then \<exists>r. dq_at k i d = Inr r \<and> load_ref r d = Inr (dq_list k d ! unat i)
     else dq_at k i d = Inl Out_of_range"
  using dq_index_cell [OF inv dq_cell_list [OF inv, of "unat i"]]
  by (auto simp: dq_at_def word_le_nat_alt not_le)

interpretation dqa: append_array "dq_app ok k" "dq_get k" "dq_list k" "dq_inv k" "2 ^ 64 - 1" for ok k
proof unfold_locales
  fix d :: "'a deque" and x i d'
  assume inv: "dq_inv k d" and len: "length (dq_list k d) < 2 ^ 64 - 1" and a: "dq_app ok k d x = Some (i, d')"
  obtain r e where e: "emplace_back ok k (Some x) d = (r, e)" by fastforce
  have "unat (dq_size d) + 1 < 2 ^ 64" using len by simp
  from emplace_back_ok [OF inv this e] a e
  show "dq_inv k d' \<and> dq_list k d' = dq_list k d @ [x] \<and> i = length (dq_list k d)"
    by (auto simp: dq_app_def split: sum.splits)
next
  fix d :: "'a deque" and i :: nat
  assume inv: "dq_inv k d" and "i < 2 ^ 64 - 1"
  then have "unat (of_nat i :: size_t) = i" by (simp add: unat_of_nat_size)
  with dq_at_ok [OF inv, of "of_nat i"]
  show "dq_get k d i = (if i < length (dq_list k d) then Some (dq_list k d ! i) else None)"
    by (auto simp: dq_get_def split: if_splits)
qed

section \<open>Histories of writers\<close>

text \<open>
  Any sequence of \<open>emplace_back\<close>/\<open>push_back\<close>, \<open>reserve\<close> and \<open>resize\<close> calls, failing ones included.  A call that runs
  into undefined behaviour has no state after it: the history is \<open>None\<close> from there on.
\<close>

datatype 'a dq_op = Emplace "'a option" | Reserve size_t | Resize size_t

definition unless_undefined :: "(cxx_error + 'r) \<times> 's \<Rightarrow> 's option" where
  "unless_undefined p = (case p of (Inl Undefined, s) \<Rightarrow> None | (_, s) \<Rightarrow> Some s)"

fun dq_exec :: "(nat \<Rightarrow> bool) \<Rightarrow> nat \<Rightarrow> 'a \<Rightarrow> 'a deque \<Rightarrow> 'a dq_op \<Rightarrow> 'a deque option" where
  "dq_exec ok k dflt d (Emplace v) = unless_undefined (emplace_back ok k v d)"
| "dq_exec ok k dflt d (Reserve n) = unless_undefined (dq_reserve ok k n d)"
| "dq_exec ok k dflt d (Resize n) = unless_undefined (dq_resize ok k dflt n d)"

text \<open>
  The code computes sizes in \<open>size_t\<close> without checks, so what it promises has a side condition on the calls:
  the argument of \<open>reserve\<close> can be rounded up to whole blocks, a \<open>resize\<close> asks for at most \<open>2 ^ 62\<close> elements, and
  there are fewer than \<open>2 ^ 62\<close> calls.  \<open>deque_reserve\<close> below shows what happens outside it.
\<close>

fun dq_op_fits :: "nat \<Rightarrow> 'a dq_op \<Rightarrow> bool" where
  "dq_op_fits k (Emplace v) = True"
| "dq_op_fits k (Reserve n) = (unat n + (2 ^ k - 1) < 2 ^ 64)"
| "dq_op_fits k (Resize n) = (unat n \<le> 2 ^ 62)"

definition dq_fits :: "nat \<Rightarrow> 'a dq_op list \<Rightarrow> bool" where
  "dq_fits k ops \<longleftrightarrow> list_all (dq_op_fits k) ops \<and> length ops < 2 ^ 62"

text \<open>The room left after \<open>n\<close> calls.\<close>

definition dq_room :: "nat \<Rightarrow> nat \<Rightarrow> 'a deque \<Rightarrow> bool" where
  "dq_room k n d \<longleftrightarrow> cap_ok k d \<and> unat (dq_size d) \<le> 2 ^ 62 + n"

lemma unless_undefined_Some [simp]: "unless_undefined (r, s) = Some s' \<longleftrightarrow> r \<noteq> Inl Undefined \<and> s' = s"
  by (auto simp: unless_undefined_def split: sum.splits cxx_error.splits)

lemma resize_fits: "k < 64 \<Longrightarrow> unat n \<le> 2 ^ 62 \<Longrightarrow> unat (n :: size_t) + (2 ^ k - 1) < 2 ^ 64"
  using pow_le_size [of k] by simp

lemma dq_exec_fits:
  assumes inv: "dq_inv k d" and room: "dq_room k n d" "n < 2 ^ 62" and op: "dq_op_fits k op"
  shows "\<exists>d'. dq_exec ok k dflt d op = Some d' \<and> dq_inv k d' \<and> dq_ext d d' \<and> (\<exists>ys. dq_list k d' = dq_list k d @ ys) \<and>
     dq_room k (Suc n) d'"
proof -
  have cap: "cap_ok k d" and size: "unat (dq_size d) \<le> 2 ^ 62 + n" using room(1) by (auto simp: dq_room_def)
  have small: "unat (dq_size d) < 2 ^ 63" using size room(2) by simp
  show ?thesis
  proof (cases op)
    case (Emplace v)
    obtain r e where e: "emplace_back ok k v d = (r, e)" by fastforce
    have "unat (dq_size d) + 1 < 2 ^ 64" using small by simp
    note g = emplace_back_ok [OF inv this e]
    then have "length (dq_list k e) \<le> Suc (length (dq_list k d))" by (auto simp del: length_dq_list)
    then have "unat (dq_size e) \<le> Suc (unat (dq_size d))" by simp
    with g e Emplace size emplace_back_cap [OF inv cap small e] show ?thesis by (auto simp: dq_room_def)
  next
    case (Reserve m)
    obtain r e where e: "dq_reserve ok k m d = (r, e)" by fastforce
    have m: "unat m + (2 ^ k - 1) < 2 ^ 64" using op Reserve by simp
    note g = dq_reserve_ok [OF inv m cap [unfolded cap_ok_def] e]
    then have "unat (dq_size e) = unat (dq_size d)" by (metis length_dq_list)
    with g e Reserve size dq_reserve_cap [OF dq_invD(1) [OF inv] cap m e] show ?thesis by (auto simp: dq_room_def)
  next
    case (Resize m)
    obtain r e where e: "dq_resize ok k dflt m d = (r, e)" by fastforce
    have m2: "unat m \<le> 2 ^ 62" using op Resize by simp
    note m = resize_fits [OF dq_invD(1) [OF inv] m2]
    note g = dq_resize_ok [OF inv m e]
    then have "unat (dq_size e) = unat (dq_size d) \<or> unat (dq_size e) = unat (dq_size d) + (unat m - unat (dq_size d))"
      by (metis length_append length_dq_list length_replicate)
    then have "unat (dq_size e) \<le> 2 ^ 62 + Suc n" using size m2 by auto
    with g e Resize dq_resize_cap [OF dq_invD(1) [OF inv] cap m e] show ?thesis by (auto simp: dq_room_def)
  qed
qed

interpretation dqm: budget_progress "dq_exec ok k dflt" "dq_op_fits k"
  "\<lambda>n d. dq_inv k d \<and> dq_room k n d \<and> dq_ext d0 d \<and> (\<exists>ys. dq_list k d = dq_list k d0 @ ys)" "2 ^ 62"
  for ok k dflt d0
proof unfold_locales
  fix n t and a :: "'a dq_op" and s :: "'a deque"
  assume s: "dq_inv k s \<and> dq_room k n s \<and> dq_ext d0 s \<and> (\<exists>ys. dq_list k s = dq_list k d0 @ ys)" "n < 2 ^ 62" "dq_op_fits k a"
  then obtain u where u: "dq_exec ok k dflt s a = Some u" "dq_inv k u" "dq_ext s u" "\<exists>ys. dq_list k u = dq_list k s @ ys"
      "dq_room k (Suc n) u"
    using dq_exec_fits [of k s n a ok dflt] by blast
  then show "\<exists>t. dq_exec ok k dflt s a = Some t" by blast
  show "dq_inv k t \<and> dq_room k (Suc n) t \<and> dq_ext d0 t \<and> (\<exists>ys. dq_list k t = dq_list k d0 @ ys)"
    if "dq_exec ok k dflt s a = Some t"
    using that u s(1) dq_ext_trans [of d0 s u] by fastforce
qed

lemma dq_reachable:
  fixes d :: "'a deque"
  assumes "k < 64" and "dq_fits k ops" and "run (dq_exec ok k dflt) dq_empty ops = Some d"
  shows "dq_inv k d \<and> dq_room k (length ops) d"
proof -
  have "dq_inv k (dq_empty :: 'a deque)" using dq_empty_inv [OF assms(1)] by blast
  moreover have "dq_room k 0 (dq_empty :: 'a deque)" by (simp add: dq_room_def cap_ok_def dq_empty_def)
  ultimately show ?thesis
    using dqm.budget_run [of k dq_empty 0 dq_empty ops ok dflt d] assms by (auto simp: dq_fits_def)
qed

lemma dq_run_grows:
  assumes "dq_inv k d" and "dq_room k n d" and "list_all (dq_op_fits k) ops" and "n + length ops \<le> 2 ^ 62"
  shows "\<exists>d'. run (dq_exec ok k dflt) d ops = Some d' \<and> dq_inv k d' \<and> dq_ext d d' \<and> (\<exists>ys. dq_list k d' = dq_list k d @ ys)"
  using dqm.budget_returns [of k d n d ops ok dflt] assms by fastforce

lemmas dq_reachable_inv = dq_reachable [THEN conjunct1]

lemma dq_reachable_small:
  assumes "k < 64" and "dq_fits k ops" and "run (dq_exec ok k dflt) dq_empty ops = Some d"
  shows "cap_ok k d" and "unat (dq_size d) < 2 ^ 63"
  using dq_reachable [OF assms] assms(2) by (auto simp: dq_room_def dq_fits_def)

text \<open>
  \<open>emplace_back\<close>/\<open>push_back\<close> refine list append: after any history, a call either appends the element and returns the
  index it got, which is the old size, or throws (an allocation failed, or the constructor of the
  element threw) and leaves the elements as they were; with working allocations and fewer than
  \<open>2 ^ 59\<close> directory entries a non-throwing constructor succeeds.
\<close>

theorem deque_emplace_back:
  assumes "k < 64" and "dq_fits k ops" and "run (dq_exec ok k dflt) dq_empty ops = Some d"
    and "emplace_back ok k v d = (r, d')"
  shows "(\<exists>x. v = Some x \<and> r = Inr (of_nat (length (dq_list k d))) \<and> dq_list k d' = dq_list k d @ [x]) \<or>
     dq_list k d' = dq_list k d \<and>
       (r = Inl Bad_alloc \<and> \<not> (unat (dq_dcap d) < 2 ^ 59 \<and> (\<forall>a. ok a)) \<or> v = None \<and> r = Inl User_exception)"
  using emplace_back_ok [OF dq_reachable_inv [OF assms(1-3)] _ assms(4)] dq_reachable_small(2) [OF assms(1-3)] by simp

lemmas dq_eval = dq_empty_def emplace_back_def emplace_dir_def ensure_block_def construct_elem_def publish_size_def
  reallocate_directory_def allocate_block_def store_entry_def dq_index_def elem_ref_def dir_entry_def old_entries_def
  block_idx_div local_offset_mod checked_nth_def dq_list_def dq_cell_def dq_entry_def dq_reserve_def Let_def
  unless_undefined_def

definition dq_demo :: "int dq_op list" where
  "dq_demo = [Emplace (Some 10), Emplace (Some 11), Emplace (Some 12)]"

lemma replicate_2: "replicate 2 x = [x, x]"
  by (simp add: numeral_2_eq_2)

definition dq_demo_more :: "int dq_op list" where
  "dq_demo_more = [Emplace (Some 13), Emplace None, Emplace (Some 14), Reserve 30]"

lemma dq_demo_fits: "dq_fits 1 dq_demo" "dq_fits 1 (dq_demo @ dq_demo_more)"
  by (simp_all add: dq_fits_def dq_demo_def dq_demo_more_def)

lemma dq_demo_run:
  "\<exists>d. run (dq_exec (\<lambda>_. True) 1 0) dq_empty dq_demo = Some d \<and> dq_list 1 d = [10, 11, 12] \<and> dq_dcap d = 2 \<and> dq_size d = 3"
  by (simp add: dq_demo_def dq_eval upt_rec replicate_2)

theorem deque_emplace_back_witness:
  "\<exists>d d'. run (dq_exec (\<lambda>_. True) 1 0) dq_empty dq_demo = Some d \<and>
     emplace_back (\<lambda>_. True) 1 (Some 13) d = (Inr 3, d') \<and> dq_list 1 d' = [10, 11, 12, 13]"
proof -
  obtain d where d: "run (dq_exec (\<lambda>_. True) 1 0) dq_empty dq_demo = Some d" "dq_list 1 d = [10, 11, 12]"
      "dq_dcap d = 2" "dq_size d = 3"
    using dq_demo_run by blast
  obtain r d' where r: "emplace_back (\<lambda>_. True) 1 (Some 13) d = (r, d')" by fastforce
  from deque_emplace_back [OF _ dq_demo_fits(1) d(1) r] d r show ?thesis by auto
qed

text \<open>
  C17.  Stability: for every history of calls whose sizes fit (\<open>dq_fits\<close>), no call runs into undefined behaviour, and once an
  element is in the deque no later call, failing or not, moves or changes it: its index gives the
  same address and the same value for the life of the container, and the elements only grow at the
  end.
\<close>

theorem deque_addresses_stable:
  assumes "k < 64" and "dq_fits k (ops @ ops')"
  shows "\<exists>d d'. run (dq_exec ok k dflt) dq_empty ops = Some d \<and> run (dq_exec ok k dflt) d ops' = Some d' \<and>
     take (length (dq_list k d)) (dq_list k d') = dq_list k d \<and>
     (\<forall>i. unat i < length (dq_list k d) \<longrightarrow>
        (\<exists>r. dq_index k i d = Inr r \<and> dq_index k i d' = Inr r \<and> load_ref r d' = load_ref r d \<and>
             load_ref r d' = Inr (dq_list k d ! unat i)))"
proof -
  have f: "list_all (dq_op_fits k) ops" "list_all (dq_op_fits k) ops'" "length ops + length ops' < 2 ^ 62"
    using assms(2) by (auto simp: dq_fits_def)
  have e: "dq_inv k (dq_empty :: 'a deque)" "dq_room k 0 (dq_empty :: 'a deque)"
    using dq_empty_inv [OF assms(1)] by (auto simp: dq_room_def cap_ok_def dq_empty_def)
  obtain d where d: "run (dq_exec ok k dflt) dq_empty ops = Some d"
    using dq_run_grows [OF e f(1), of ok dflt] f(3) by auto
  have "dq_fits k ops" using f by (simp add: dq_fits_def)
  note reach = dq_reachable [OF assms(1) this d]
  then have inv: "dq_inv k d" by simp
  obtain d' ys where d': "run (dq_exec ok k dflt) d ops' = Some d'" and
    g: "dq_inv k d'" "dq_ext d d'" "dq_list k d' = dq_list k d @ ys"
    using dq_run_grows [OF conjunct1 [OF reach] conjunct2 [OF reach] f(2), of ok dflt] f(3) by auto
  have "\<exists>r. dq_index k i d = Inr r \<and> dq_index k i d' = Inr r \<and> load_ref r d' = load_ref r d \<and>
      load_ref r d' = Inr (dq_list k d ! unat i)" if i: "unat i < length (dq_list k d)" for i
  proof -
    obtain r where r: "dq_index k i d = Inr r" "load_ref r d = Inr (dq_list k d ! unat i)"
      using dq_index_cell [OF inv dq_cell_list [OF inv]] i by fastforce
    have ix: "dq_index k i d' = Inr r" by (rule dq_index_ext [OF g(2) r(1)])
    have "unat i < unat (dq_size d')" using i arg_cong [OF g(3), of length] by simp
    then have "load_ref r d' = Inr (dq_list k d' ! unat i)"
      using dq_index_cell [OF g(1) dq_cell_list [OF g(1)]] ix by fastforce
    with r ix g(3) i show ?thesis by (auto simp: nth_append)
  qed
  with d d' g(3) show ?thesis by auto
qed

theorem deque_addresses_stable_witness:
  "\<exists>d d' r. run (dq_exec (\<lambda>_. True) 1 0) dq_empty dq_demo = Some d \<and>
     run (dq_exec (\<lambda>_. True) 1 0) d dq_demo_more = Some d' \<and>
     dq_index 1 2 d = Inr r \<and> dq_index 1 2 d' = Inr r \<and> load_ref r d' = Inr 12"
proof -
  obtain e where e: "run (dq_exec (\<lambda>_. True) 1 0) dq_empty dq_demo = Some e" "dq_list 1 e = [10, 11, 12]" "dq_size e = 3"
    using dq_demo_run by blast
  obtain d d' where d: "run (dq_exec (\<lambda>_. True) 1 0) dq_empty dq_demo = Some d"
      "run (dq_exec (\<lambda>_. True) 1 0) d dq_demo_more = Some d'"
      "\<forall>i. unat i < length (dq_list 1 d) \<longrightarrow> (\<exists>r. dq_index 1 i d = Inr r \<and> dq_index 1 i d' = Inr r \<and>
         load_ref r d' = load_ref r d \<and> load_ref r d' = Inr (dq_list 1 d ! unat i))"
    using deque_addresses_stable [OF _ dq_demo_fits(2), of "\<lambda>_. True" 0] by auto
  have "dq_list 1 d = [10, 11, 12]" "dq_size d = 3" using d(1) e by simp_all
  with d(3) [rule_format, of 2] d(1,2) show ?thesis by auto
qed

text \<open>
  \<open>resize(n)\<close> and its failure guarantee: it appends value-initialised elements up to size \<open>n\<close>, does nothing when the
  deque is already that large, and when an allocation throws the elements are unchanged and the
  deque is still in a valid state, so that the call can be repeated.
\<close>

theorem deque_resize:
  assumes "k < 64" and "dq_fits k ops" and "run (dq_exec ok k dflt) dq_empty ops = Some d" and "unat n + (2 ^ k - 1) < 2 ^ 64"
    and "dq_resize ok k dflt n d = (r, d')"
  shows "dq_inv k d' \<and>
    (r = Inr () \<and> dq_list k d' = dq_list k d @ replicate (unat n - length (dq_list k d)) dflt \<or>
     r = Inl Bad_alloc \<and> \<not> (unat n < 2 ^ 60 \<and> (\<forall>a. ok a)) \<and> dq_list k d' = dq_list k d)"
  using dq_resize_ok [OF dq_reachable_inv [OF assms(1-3)] assms(4,5)] by blast

theorem deque_resize_witness:
  "\<exists>d d'. run (dq_exec (\<lambda>_. True) 1 0) dq_empty dq_demo = Some d \<and> dq_resize (\<lambda>_. True) 1 0 5 d = (Inr (), d') \<and>
     dq_list 1 d' = [10, 11, 12, 0, 0]"
proof -
  obtain d where d: "run (dq_exec (\<lambda>_. True) 1 0) dq_empty dq_demo = Some d" "dq_list 1 d = [10, 11, 12]" "dq_size d = 3"
    using dq_demo_run by blast
  obtain r d' where r: "dq_resize (\<lambda>_. True) 1 0 5 d = (r, d')" by fastforce
  have "unat (5 :: size_t) - 3 = 2" by simp
  with deque_resize [OF _ dq_demo_fits(1) d(1) _ r] d r show ?thesis by (auto simp: replicate_2)
qed

text \<open>
  Checked access: \<open>at(i)\<close> throws \<open>out_of_range\<close> exactly when \<open>i \<ge> size()\<close> and otherwise gives the element of that index;
  on a non-empty deque \<open>front()\<close> and \<open>back()\<close> are its first and last elements.
\<close>

theorem deque_at:
  assumes "k < 64" and "dq_fits k ops" and "run (dq_exec ok k dflt) dq_empty ops = Some d"
  shows "(unat i < length (dq_list k d) \<longrightarrow> (\<exists>r. dq_at k i d = Inr r \<and> load_ref r d = Inr (dq_list k d ! unat i))) \<and>
    (length (dq_list k d) \<le> unat i \<longrightarrow> dq_at k i d = Inl Out_of_range) \<and>
    (dq_list k d \<noteq> [] \<longrightarrow> (\<exists>r. dq_front k d = Inr r \<and> load_ref r d = Inr (hd (dq_list k d))) \<and>
       (\<exists>r. dq_back k d = Inr r \<and> load_ref r d = Inr (last (dq_list k d))))"
proof -
  note inv = dq_reachable_inv [OF assms]
  have "(\<exists>r. dq_front k d = Inr r \<and> load_ref r d = Inr (hd (dq_list k d))) \<and>
       (\<exists>r. dq_back k d = Inr r \<and> load_ref r d = Inr (last (dq_list k d)))" if ne: "dq_list k d \<noteq> []"
  proof -
    have pos: "0 < unat (dq_size d)" using ne length_dq_list [of k d] by (metis length_greater_0_conv)
    then have "dq_size d \<noteq> 0" by auto
    then have "unat (dq_size d - 1) = unat (dq_size d) - 1" by (rule unat_minus_one)
    then show ?thesis
      using dq_index_cell [OF inv dq_cell_list [OF inv], of 0] dq_index_cell [OF inv dq_cell_list [OF inv], of "dq_size d - 1"]
        pos ne by (simp add: dq_front_def dq_back_def hd_conv_nth last_conv_nth)
  qed
  then show ?thesis using dq_at_ok [OF inv, of i] by (auto split: if_splits)
qed

theorem deque_at_witness:
  "\<exists>d r. run (dq_exec (\<lambda>_. True) 1 0) dq_empty dq_demo = Some d \<and> dq_at 1 2 d = Inr r \<and> load_ref r d = Inr 12 \<and>
     dq_at 1 3 d = Inl Out_of_range"
proof -
  obtain d where d: "run (dq_exec (\<lambda>_. True) 1 0) dq_empty dq_demo = Some d" "dq_list 1 d = [10, 11, 12]" "dq_size d = 3"
    using dq_demo_run by blast
  from deque_at [OF _ dq_demo_fits(1) d(1), of 2] deque_at [OF _ dq_demo_fits(1) d(1), of 3] d show ?thesis by auto
qed

text \<open>
  Iteration: the loop from \<open>begin()\<close> to \<open>end()\<close> returns after \<open>size()\<close> rounds having read exactly the elements of the deque in
  order.
\<close>

theorem deque_iteration:
  assumes "k < 64" and "dq_fits k ops" and "run (dq_exec ok k dflt) dq_empty ops = Some d"
  shows "\<exists>b e. dq_begin k d = Inr b \<and> dq_end k d = Inr e \<and>
     iter_collect k (unat (dq_size d)) b e d = Some (Inr (dq_list k d))"
proof -
  note inv = dq_reachable_inv [OF assms]
  have e: "dq_end k d = Inr \<lparr>it_index = dq_size d, it_cur = None\<rparr>" by (simp add: dq_end_def iter_at_def)
  have "\<exists>b. dq_begin k d = Inr b \<and> iter_ok k d b \<and> it_index b = 0"
  proof (cases "0 < dq_size d")
    case False
    then show ?thesis by (auto simp: dq_begin_def iter_at_def iter_ok_def)
  next
    case True
    then have "unat (0 :: size_t) < unat (dq_size d)" by (simp add: word_less_nat_alt)
    from dq_index_cell [OF inv dq_cell_list [OF inv this]] True show ?thesis
      by (auto simp: dq_begin_def iter_at_def iter_ok_def)
  qed
  then obtain b where b: "dq_begin k d = Inr b" "iter_ok k d b" "it_index b = 0" by blast
  with iter_collect_ok [OF inv b(2), of "unat (dq_size d)" "\<lparr>it_index = dq_size d, it_cur = None\<rparr>"] e show ?thesis by simp
qed

theorem deque_iteration_witness:
  "\<exists>d b e. run (dq_exec (\<lambda>_. True) 1 0) dq_empty dq_demo = Some d \<and> dq_begin 1 d = Inr b \<and> dq_end 1 d = Inr e \<and>
     iter_collect 1 3 b e d = Some (Inr [10, 11, 12])"
proof -
  obtain d where d: "run (dq_exec (\<lambda>_. True) 1 0) dq_empty dq_demo = Some d" "dq_list 1 d = [10, 11, 12]" "dq_size d = 3"
    using dq_demo_run by blast
  from deque_iteration [OF _ dq_demo_fits(1) d(1)] d show ?thesis by auto
qed

text \<open>
  The caching invariant of the iterators: \<open>++\<close>, \<open>--\<close>, \<open>+= n\<close> and \<open>-= n\<close> (any signed \<open>n\<close>, also past the ends) move the index by
  that amount modulo \<open>2 ^ 64\<close> and leave a cached address that is the address of the new index,
  a cached address stays right whatever the writers do afterwards, and \<open>it[n]\<close> reads the element
  \<open>n\<close> positions away.
\<close>

theorem deque_iterator_cache:
  assumes "k < 64" and "dq_fits k (ops @ ops')" and "run (dq_exec ok k dflt) dq_empty ops = Some d"
    and "run (dq_exec ok k dflt) d ops' = Some d'" and "iter_ok k d it"
  shows "iter_ok k d (iter_inc k it) \<and> it_index (iter_inc k it) = it_index it + 1 \<and>
     iter_ok k d (iter_dec k it) \<and> it_index (iter_dec k it) = it_index it - 1 \<and>
     iter_ok k d (iter_add k n it) \<and> iter_diff (iter_add k n it) it = n \<and>
     iter_ok k d (iter_sub k n it) \<and> iter_diff it (iter_sub k n it) = n \<and> iter_ok k d' it \<and>
     (unat (it_index it + n) < length (dq_list k d) \<longrightarrow>
        (\<exists>r it'. iter_subscript k n it d = Inr (r, it') \<and> load_ref r d = Inr (dq_list k d ! unat (it_index it + n))))"
proof -
  have fits: "dq_fits k ops" "list_all (dq_op_fits k) ops'" "length ops + length ops' \<le> 2 ^ 62"
    using assms(2) by (auto simp: dq_fits_def)
  note reach = dq_reachable [OF assms(1) fits(1) assms(3)]
  then have inv: "dq_inv k d" by simp
  have "dq_ext d d'" using dq_run_grows [OF inv conjunct2 [OF reach] fits(2,3), of ok dflt] assms(4) by auto
  moreover have ix: "it_index (iter_add k m it) = it_index it + m" for m
    by (auto simp: iter_add_def Let_def split: option.splits)
  moreover have "\<exists>r it'. iter_subscript k n it d = Inr (r, it') \<and> load_ref r d = Inr (dq_list k d ! unat (it_index it + n))"
    if "unat (it_index it + n) < length (dq_list k d)"
    using iter_deref_ok [OF inv iter_add_ok [OF assms(5,1), of n]] that ix [of n] by (auto simp: iter_subscript_def)
  ultimately show ?thesis
    using iter_inc_ok [OF assms(5)] iter_dec_ok [OF assms(5)] iter_add_ok [OF assms(5,1)] iter_ok_ext [OF _ assms(5)]
    by (auto simp: iter_inc_def iter_dec_def iter_sub_def iter_diff_def Let_def)
qed

theorem deque_iterator_cache_witness:
  "\<exists>d d' r. run (dq_exec (\<lambda>_. True) 1 0) dq_empty dq_demo = Some d \<and>
     run (dq_exec (\<lambda>_. True) 1 0) d dq_demo_more = Some d' \<and> dq_index 1 1 d = Inr r \<and>
     iter_ok 1 d' \<lparr>it_index = 1, it_cur = Some r\<rparr> \<and> iter_ok 1 d (iter_inc 1 \<lparr>it_index = 1, it_cur = Some r\<rparr>)"
proof -
  obtain d where d: "run (dq_exec (\<lambda>_. True) 1 0) dq_empty dq_demo = Some d" "dq_list 1 d = [10, 11, 12]"
    using dq_demo_run by blast
  have "run (dq_exec (\<lambda>_. True) 1 0) dq_empty (dq_demo @ dq_demo_more) \<noteq> None"
    by (simp add: dq_demo_def dq_demo_more_def dq_eval)
  then obtain d' where d': "run (dq_exec (\<lambda>_. True) 1 0) d dq_demo_more = Some d'"
    using d(1) by (auto simp: run_append)
  have inv: "dq_inv 1 d" by (rule dq_reachable_inv [OF _ dq_demo_fits(1) d(1)]) simp
  have "unat (1 :: size_t) < unat (dq_size d)" using d(2) length_dq_list [of 1 d] by simp
  then obtain r where r: "dq_index 1 1 d = Inr r" using dq_index_cell [OF inv dq_cell_list [OF inv]] by blast
  then have "iter_ok 1 d \<lparr>it_index = 1, it_cur = Some r\<rparr>" by (simp add: iter_ok_def)
  from deque_iterator_cache [OF _ dq_demo_fits(2) d(1) d' this, of 1] have "iter_ok 1 d' \<lparr>it_index = 1, it_cur = Some r\<rparr>"
      "iter_ok 1 d (iter_inc 1 \<lparr>it_index = 1, it_cur = Some r\<rparr>)" by simp_all
  with d d' r show ?thesis by blast
qed

text \<open>
  Destruction: after any history the destructor destroys every element, frees every block, the directory and all
  retired directories, each exactly once, and no heap object of the deque is left.
\<close>

theorem deque_destroy:
  assumes "k < 64" and "dq_fits k ops" and "run (dq_exec ok k dflt) dq_empty ops = Some d"
  shows "\<exists>d'. dq_destroy k d = Inr d' \<and> dq_blocks d' = Map.empty \<and> dq_dirs d' = Map.empty"
  by (rule dq_destroy_ok [OF dq_reachable_inv [OF assms]])

theorem deque_destroy_witness:
  "\<exists>d d'. run (dq_exec (\<lambda>_. True) 1 0) dq_empty dq_demo = Some d \<and> dq_destroy 1 d = Inr d' \<and> dq_blocks d' = Map.empty"
proof -
  obtain d where d: "run (dq_exec (\<lambda>_. True) 1 0) dq_empty dq_demo = Some d" using dq_demo_run by blast
  from deque_destroy [OF _ dq_demo_fits(1) d] d show ?thesis by auto
qed

text \<open>
  C18.  \<open>reserve(n)\<close> on every argument, after any history that fits.  When \<open>n\<close> can be rounded up to whole blocks
  (\<open>n + BlockMask\<close> does not wrap around), it never changes the elements, and it either returns with
  \<open>capacity() \<ge> n\<close>, leaving a deque that already had it untouched, or throws \<open>bad_alloc\<close>, which needs a
  failing allocation or an array over the limit of the language.  When the rounding wraps around,
  nothing is reserved: the computed directory has no entries, so a deque that has a directory
  copies its entries out of bounds (or throws), and an empty one returns with capacity 0.
\<close>

theorem deque_reserve:
  assumes "k < 64" and "dq_fits k ops" and "run (dq_exec ok k dflt) dq_empty ops = Some d"
    and "dq_reserve ok k n d = (r, d')"
  shows "(unat n + (2 ^ k - 1) < 2 ^ 64 \<longrightarrow> dq_list k d' = dq_list k d \<and> (n \<le> dq_capacity k d \<longrightarrow> d' = d) \<and>
       (r = Inr () \<and> n \<le> dq_capacity k d' \<or> r = Inl Bad_alloc \<and> \<not> (unat n < 2 ^ 60 \<and> (\<forall>a. ok a)))) \<and>
     (2 ^ 64 \<le> unat n + (2 ^ k - 1) \<longrightarrow>
       (if dq_dcap d = 0 then r = Inr () \<and> dq_capacity k d' = 0 \<or> r = Inl Bad_alloc \<and> \<not> (\<forall>a. ok a)
        else r = Inl (if ok (dq_allocs d) then Undefined else Bad_alloc)))"
proof -
  note inv = dq_reachable_inv [OF assms(1-3)] and cap = dq_reachable_small(1) [OF assms(1-3)]
  have "dq_list k d' = dq_list k d \<and> (n \<le> dq_capacity k d \<longrightarrow> d' = d) \<and>
       (r = Inr () \<and> n \<le> dq_capacity k d' \<or> r = Inl Bad_alloc \<and> \<not> (unat n < 2 ^ 60 \<and> (\<forall>a. ok a)))"
    if n: "unat n + (2 ^ k - 1) < 2 ^ 64"
  proof -
    have "unat (dq_capacity k d') = unat (dq_dcap d') * 2 ^ k"
      by (rule dq_capacity_unat [OF assms(1) dq_reserve_cap [OF assms(1) cap n assms(4)]])
    moreover have "d' = d" if "n \<le> dq_capacity k d" using that assms(4) by (auto simp: dq_reserve_def dq_capacity_def Let_def dest: leD split: if_splits)
    ultimately show ?thesis
      using dq_reserve_ok [OF inv n cap [unfolded cap_ok_def] assms(4)] by (auto simp: word_le_nat_alt)
  qed
  moreover have "if dq_dcap d = 0 then r = Inr () \<and> dq_capacity k d' = 0 \<or> r = Inl Bad_alloc \<and> \<not> (\<forall>a. ok a)
      else r = Inl (if ok (dq_allocs d) then Undefined else Bad_alloc)" if "2 ^ 64 \<le> unat n + (2 ^ k - 1)"
    using dq_reserve_wraps [OF inv cap that assms(4)] by (auto simp: dq_capacity_def)
  ultimately show ?thesis by blast
qed

theorem deque_reserve_witness:
  "\<exists>d d' d''. run (dq_exec (\<lambda>_. True) 1 0) dq_empty dq_demo = Some d \<and> dq_reserve (\<lambda>_. True) 1 9 d = (Inr (), d') \<and>
     dq_list 1 d' = [10, 11, 12] \<and> 9 \<le> dq_capacity 1 d' \<and> dq_reserve (\<lambda>_. True) 1 (- 1) d = (Inl Undefined, d'')"
proof -
  obtain d where d: "run (dq_exec (\<lambda>_. True) 1 0) dq_empty dq_demo = Some d" "dq_list 1 d = [10, 11, 12]" "dq_dcap d = 2"
    using dq_demo_run by blast
  obtain r d' where r: "dq_reserve (\<lambda>_. True) 1 9 d = (r, d')" by fastforce
  obtain q d'' where q: "dq_reserve (\<lambda>_. True) 1 (- 1) d = (q, d'')" by fastforce
  have "(2 :: nat) ^ 64 \<le> unat (- 1 :: size_t) + (2 ^ 1 - 1)" by (simp add: unsigned_minus_1_eq_mask mask_eq_exp_minus_1)
  with deque_reserve [OF _ dq_demo_fits(1) d(1) q] d have "q = Inl Undefined" by simp
  moreover from deque_reserve [OF _ dq_demo_fits(1) d(1) r] d have "dq_list 1 d' = [10, 11, 12]" "r = Inr ()" "9 \<le> dq_capacity 1 d'"
    by auto
  ultimately show ?thesis using d(1) r q by auto
qed

text \<open>
  Round trip: appending \<open>xs\<close> returns the consecutive indices from the old size on, \<open>at()\<close> of those indices gives \<open>xs\<close>
  back, and what \<open>at()\<close> gave before it still gives.
\<close>

theorem deque_append_lookup:
  assumes "k < 64" and "dq_fits k ops" and "run (dq_exec ok k dflt) dq_empty ops = Some d"
    and "length (dq_list k d) + length xs < 2 ^ 64 - 1" and "append_list (dq_app ok k) d xs = Some (is, d')"
  shows "is = [length (dq_list k d)..<length (dq_list k d) + length xs] \<and> map (dq_get k d') is = map Some xs \<and>
     (\<forall>i<length (dq_list k d). dq_get k d' i = dq_get k d i)"
proof -
  note inv = dq_reachable_inv [OF assms(1-3)]
  have "dq_get k d' i = dq_get k d i" if "i < length (dq_list k d)" for i
  proof -
    have l: "i < 2 ^ 64 - 1" using that assms(4) by linarith
    then have "dq_get k d i = Some (dq_list k d ! i)" using dqa.get_nth [OF inv l] that by simp
    then show ?thesis using dqa.append_list_get(2) [OF inv assms(4,5) _ l] by simp
  qed
  then show ?thesis
    using dqa.append_list_snoc [OF inv less_imp_le [OF assms(4)] assms(5)] dqa.append_list_get(1) [OF inv assms(4,5)] by blast
qed

theorem deque_append_lookup_witness:
  "\<exists>d d'. run (dq_exec (\<lambda>_. True) 1 0) dq_empty dq_demo = Some d \<and>
     append_list (dq_app (\<lambda>_. True) 1) d [20, 21] = Some ([3, 4], d') \<and> map (dq_get 1 d') [3, 4] = [Some 20, Some 21]"
proof -
  obtain d where d: "run (dq_exec (\<lambda>_. True) 1 0) dq_empty dq_demo = Some d" "dq_list 1 d = [10, 11, 12]" "dq_size d = 3"
    using dq_demo_run by blast
  have "Option.bind (run (dq_exec (\<lambda>_. True) 1 0) dq_empty dq_demo) (\<lambda>d. append_list (dq_app (\<lambda>_. True) 1) d [20, 21]) \<noteq> None"
    by (simp add: dq_demo_def dq_app_def dq_eval)
  then have "append_list (dq_app (\<lambda>_. True) 1) d [20, 21] \<noteq> None" unfolding d(1) by simp
  then obtain ix d' where a: "append_list (dq_app (\<lambda>_. True) 1) d [20, 21] = Some (ix, d')" by auto
  have "[3..<5] = [3, 4 :: nat]" by (simp add: upt_rec)
  with deque_append_lookup [OF _ dq_demo_fits(1) d(1) _ a] d a show ?thesis by auto
qed

end
