(* ===== verification/Append_Deque_Conc.thy ===== *)
theory Append_Deque_Conc
  imports Append_Deque_Spec Spin_Lock
begin

text \<open>
  The append-only deque under concurrency: any number of writers, serialized by \<open>spinlock_\<close>, and any number of
  wait-free readers calling \<open>at(i)\<close>.  One action is one access that another thread can observe: to the lock word, to
  \<open>size_\<close>, to \<open>directory_\<close>, to an entry of a directory array or to an element.  Readers hold the
  directory they loaded across any number of steps of the writers, so they may read through a
  directory that has been retired.  The deque itself and the pieces of the writers are those of
  \<open>Append_Deque\<close>.
\<close>

section \<open>The machine\<close>

datatype 'a dq_call = Call_emplace "'a option" | Call_reserve size_t | Call_resize size_t | Call_at size_t

datatype 'a dq_pc =
    Dq_rest
  | Em_lock "'a option" | Em_dir "'a option" | Em_block "'a option" | Em_construct "'a option" | Em_publish 'a
  | Rs_check size_t | Rs_lock size_t | Rs_dir size_t | Rs_block size_t size_t | Rs_construct size_t size_t | Rs_publish size_t
  | Rv_lock size_t | Rv_dir size_t
  | Wr_unlock "'a option" "cxx_error + size_t" | Wr_ret "'a option" "cxx_error + size_t"
  | At_size size_t | At_dir size_t | At_entry size_t nat | At_cell size_t nat | At_ret size_t "cxx_error + 'a"

record 'a dqsys =
  ds_d :: "'a deque"
  ds_lock :: int
  ds_pcs :: "tid \<Rightarrow> 'a dq_pc"

datatype 'a dq_act = Dq_call tid "'a dq_call" | Dq_move tid

definition ds_init :: "'a dqsys" where
  "ds_init = \<lparr>ds_d = dq_empty, ds_lock = 0, ds_pcs = (\<lambda>_. Dq_rest)\<rparr>"

definition ds_to :: "tid \<Rightarrow> 'a dq_pc \<Rightarrow> 'a deque \<Rightarrow> 'a dqsys \<Rightarrow> 'a dqsys" where
  "ds_to t p d s = s\<lparr>ds_d := d, ds_pcs := (ds_pcs s)(t := p)\<rparr>"

text \<open>Taking the lock: one attempt of the TTAS loop.\<close>

definition ds_acquire :: "tid \<Rightarrow> 'a dq_pc \<Rightarrow> 'a dqsys \<Rightarrow> 'a dqsys" where
  "ds_acquire t p s =
     (case ttas (ds_lock s) of (True, l) \<Rightarrow> ds_to t p (ds_d s) (s\<lparr>ds_lock := l\<rparr>) | (False, l) \<Rightarrow> s)"

text \<open>The steps of \<open>emplace_back\<close>, \<open>resize\<close> and \<open>reserve\<close>.  An exception leaves through the lock guard; undefined
  behaviour has no step.\<close>

definition ds_fail :: "tid \<Rightarrow> 'a option \<Rightarrow> cxx_error \<Rightarrow> 'a deque \<Rightarrow> 'a dqsys \<Rightarrow> 'a dqsys option" where
  "ds_fail t v e d s = (if e = Undefined then None else Some (ds_to t (Wr_unlock v (Inl e)) d s))"

fun ds_write :: "(nat \<Rightarrow> bool) \<Rightarrow> nat \<Rightarrow> 'a \<Rightarrow> tid \<Rightarrow> 'a dq_pc \<Rightarrow> 'a dqsys \<Rightarrow> 'a dqsys option" where
  "ds_write ok k dflt t (Em_lock v) s = Some (ds_acquire t (Em_dir v) s)"
| "ds_write ok k dflt t (Em_dir v) s =
     (case emplace_dir ok k (ds_d s) of
        (Inl e, d) \<Rightarrow> ds_fail t v e d s
      | (Inr _, d) \<Rightarrow> Some (ds_to t (Em_block v) d s))"
| "ds_write ok k dflt t (Em_block v) s =
     (case ensure_block ok k (dq_size (ds_d s)) (ds_d s) of
        (Inl e, d) \<Rightarrow> ds_fail t v e d s
      | (Inr _, d) \<Rightarrow> Some (ds_to t (Em_construct v) d s))"
| "ds_write ok k dflt t (Em_construct v) s =
     (case construct_elem k (dq_size (ds_d s)) v (ds_d s) of
        (Inl e, d) \<Rightarrow> ds_fail t v e d s
      | (Inr _, d) \<Rightarrow> (case v of Some x \<Rightarrow> Some (ds_to t (Em_publish x) d s) | None \<Rightarrow> None))"
| "ds_write ok k dflt t (Em_publish x) s =
     (let current_size = dq_size (ds_d s) in
      Some (ds_to t (Wr_unlock (Some x) (Inr current_size)) (publish_size (current_size + 1) (ds_d s)) s))"
| "ds_write ok k dflt t (Rs_check n) s =
     Some (ds_to t (if n \<le> dq_size (ds_d s) then Wr_ret None (Inr n) else Rs_lock n) (ds_d s) s)"
| "ds_write ok k dflt t (Rs_lock n) s = Some (ds_acquire t (Rs_dir n) s)"
| "ds_write ok k dflt t (Rs_dir n) s =
     (if n \<le> dq_size (ds_d s) then Some (ds_to t (Wr_unlock None (Inr n)) (ds_d s) s)
      else case resize_dir ok k n (ds_d s) of
          (Inl e, d) \<Rightarrow> ds_fail t None e d s
        | (Inr _, d) \<Rightarrow> Some (ds_to t (Rs_block n (dq_size d)) d s))"
| "ds_write ok k dflt t (Rs_block n i) s =
     (case ensure_block ok k i (ds_d s) of
        (Inl e, d) \<Rightarrow> ds_fail t None e d s
      | (Inr _, d) \<Rightarrow> Some (ds_to t (Rs_construct n i) d s))"
| "ds_write ok k dflt t (Rs_construct n i) s =
     (case construct_elem k i (Some dflt) (ds_d s) of
        (Inl e, d) \<Rightarrow> ds_fail t None e d s
      | (Inr _, d) \<Rightarrow> Some (ds_to t (if i + 1 < n then Rs_block n (i + 1) else Rs_publish n) d s))"
| "ds_write ok k dflt t (Rs_publish n) s =
     Some (ds_to t (Wr_unlock None (Inr n)) (publish_size n (ds_d s)) s)"
| "ds_write ok k dflt t (Rv_lock n) s = Some (ds_acquire t (Rv_dir n) s)"
| "ds_write ok k dflt t (Rv_dir n) s =
     (case dq_reserve ok k n (ds_d s) of
        (Inl e, d) \<Rightarrow> ds_fail t None e d s
      | (Inr _, d) \<Rightarrow> Some (ds_to t (Wr_unlock None (Inr n)) d s))"
| "ds_write ok k dflt t (Wr_unlock v r) s =
     Some (ds_to t (Wr_ret v r) (ds_d s) (s\<lparr>ds_lock := unlock (ds_lock s)\<rparr>))"
| "ds_write ok k dflt t _ s = None"

text \<open>The steps of \<open>at(i)\<close>: the size, the directory, the entry, the element.  A read that the language leaves
  undefined has no step.\<close>

fun ds_read :: "nat \<Rightarrow> tid \<Rightarrow> 'a dq_pc \<Rightarrow> 'a dqsys \<Rightarrow> 'a dqsys option" where
  "ds_read k t (At_size i) s =
     Some (ds_to t (if dq_size (ds_d s) \<le> i then At_ret i (Inl Out_of_range) else At_dir i) (ds_d s) s)"
| "ds_read k t (At_dir i) s =
     (case dq_directory (ds_d s) of None \<Rightarrow> None | Some a \<Rightarrow> Some (ds_to t (At_entry i a) (ds_d s) s))"
| "ds_read k t (At_entry i a) s =
     (case dir_entry a (block_idx k i) (ds_d s) of
        Inr (Some b) \<Rightarrow> Some (ds_to t (At_cell i b) (ds_d s) s) | _ \<Rightarrow> None)"
| "ds_read k t (At_cell i b) s =
     (case load_ref (b, local_offset k i) (ds_d s) of
        Inr x \<Rightarrow> Some (ds_to t (At_ret i (Inr x)) (ds_d s) s) | Inl e \<Rightarrow> None)"
| "ds_read k t _ s = None"

fun ds_start :: "'a dq_call \<Rightarrow> 'a dq_pc" where
  "ds_start (Call_emplace v) = Em_lock v"
| "ds_start (Call_reserve n) = Rv_lock n"
| "ds_start (Call_resize n) = Rs_check n"
| "ds_start (Call_at i) = At_size i"

fun ds_at_rest :: "'a dq_pc \<Rightarrow> bool" where
  "ds_at_rest Dq_rest = True"
| "ds_at_rest (Wr_ret v r) = True"
| "ds_at_rest (At_ret i r) = True"
| "ds_at_rest _ = False"

fun ds_exec :: "(nat \<Rightarrow> bool) \<Rightarrow> nat \<Rightarrow> 'a \<Rightarrow> 'a dqsys \<Rightarrow> 'a dq_act \<Rightarrow> 'a dqsys option" where
  "ds_exec ok k dflt s (Dq_call t c) =
     (if ds_at_rest (ds_pcs s t) then Some (ds_to t (ds_start c) (ds_d s) s) else None)"
| "ds_exec ok k dflt s (Dq_move t) =
     (case ds_write ok k dflt t (ds_pcs s t) s of
        Some s' \<Rightarrow> Some s' | None \<Rightarrow> ds_read k t (ds_pcs s t) s)"

text \<open>
  The side condition of the theorems below, as for the histories of \<open>Append_Deque_Spec\<close>: the sizes that the calls
  of a schedule ask for, and fewer than \<open>2 ^ 62\<close> steps.
\<close>

fun ds_act_fits :: "nat \<Rightarrow> 'a dq_act \<Rightarrow> bool" where
  "ds_act_fits k (Dq_call t (Call_reserve n)) = (unat n + (2 ^ k - 1) < 2 ^ 64)"
| "ds_act_fits k (Dq_call t (Call_resize n)) = (unat n \<le> 2 ^ 62)"
| "ds_act_fits k _ = True"

definition ds_fits :: "nat \<Rightarrow> 'a dq_act list \<Rightarrow> bool" where
  "ds_fits k as \<longleftrightarrow> list_all (ds_act_fits k) as \<and> length as < 2 ^ 62"

section \<open>Invariant\<close>

fun ds_holds :: "'a dq_pc \<Rightarrow> bool" where
  "ds_holds (Em_dir v) = True" | "ds_holds (Em_block v) = True" | "ds_holds (Em_construct v) = True"
| "ds_holds (Em_publish x) = True" | "ds_holds (Rs_dir n) = True" | "ds_holds (Rs_block n i) = True"
| "ds_holds (Rs_construct n i) = True" | "ds_holds (Rs_publish n) = True" | "ds_holds (Rv_dir n) = True"
| "ds_holds (Wr_unlock v r) = True" | "ds_holds _ = False"

text \<open>What a writer knows under the lock (\<open>grown\<close>: the elements it has constructed above \<open>size_\<close>).\<close>

definition grown :: "nat \<Rightarrow> 'a \<Rightarrow> nat \<Rightarrow> 'a deque \<Rightarrow> bool" where
  "grown k dflt m d \<longleftrightarrow> (\<forall>j. unat (dq_size d) \<le> j \<longrightarrow> j < m \<longrightarrow> dq_cell k d j = Some dflt)"

fun ds_writer_ok :: "nat \<Rightarrow> 'a \<Rightarrow> 'a deque \<Rightarrow> 'a dq_pc \<Rightarrow> bool" where
  "ds_writer_ok k dflt d (Em_block v) \<longleftrightarrow> unat (dq_size d) + 1 < 2 ^ 64 \<and> unat (dq_size d) div 2 ^ k < unat (dq_dcap d)"
| "ds_writer_ok k dflt d (Em_construct v) \<longleftrightarrow> unat (dq_size d) + 1 < 2 ^ 64 \<and> dq_entry d (unat (dq_size d) div 2 ^ k) \<noteq> None"
| "ds_writer_ok k dflt d (Em_publish x) \<longleftrightarrow> unat (dq_size d) + 1 < 2 ^ 64 \<and> dq_cell k d (unat (dq_size d)) = Some x"
| "ds_writer_ok k dflt d (Rs_check n) \<longleftrightarrow> unat n \<le> 2 ^ 62"
| "ds_writer_ok k dflt d (Rs_lock n) \<longleftrightarrow> unat n \<le> 2 ^ 62"
| "ds_writer_ok k dflt d (Rs_dir n) \<longleftrightarrow> unat n \<le> 2 ^ 62"
| "ds_writer_ok k dflt d (Rs_block n i) \<longleftrightarrow> unat n \<le> 2 ^ 62 \<and> unat (dq_size d) \<le> unat i \<and> unat i < unat n \<and>
     (\<forall>j<unat n. j div 2 ^ k < unat (dq_dcap d)) \<and> grown k dflt (unat i) d"
| "ds_writer_ok k dflt d (Rs_construct n i) \<longleftrightarrow> unat n \<le> 2 ^ 62 \<and> unat (dq_size d) \<le> unat i \<and> unat i < unat n \<and>
     (\<forall>j<unat n. j div 2 ^ k < unat (dq_dcap d)) \<and> grown k dflt (unat i) d \<and> dq_entry d (unat i div 2 ^ k) \<noteq> None"
| "ds_writer_ok k dflt d (Rs_publish n) \<longleftrightarrow> unat n \<le> 2 ^ 62 \<and> unat (dq_size d) < unat n \<and> grown k dflt (unat n) d"
| "ds_writer_ok k dflt d (Rv_lock n) \<longleftrightarrow> unat n + (2 ^ k - 1) < 2 ^ 64"
| "ds_writer_ok k dflt d (Rv_dir n) \<longleftrightarrow> unat n + (2 ^ k - 1) < 2 ^ 64"
| "ds_writer_ok k dflt d _ \<longleftrightarrow> True"

text \<open>What a thread outside the lock knows; none of it can be taken away by a writer.\<close>

fun ds_result_ok :: "nat \<Rightarrow> 'a deque \<Rightarrow> 'a dq_pc \<Rightarrow> bool" where
  "ds_result_ok k d (Wr_unlock v r) \<longleftrightarrow>
     (\<forall>x i. v = Some x \<longrightarrow> r = Inr i \<longrightarrow> unat i < unat (dq_size d) \<and> dq_cell k d (unat i) = Some x)"
| "ds_result_ok k d (Wr_ret v r) \<longleftrightarrow>
     (\<forall>x i. v = Some x \<longrightarrow> r = Inr i \<longrightarrow> unat i < unat (dq_size d) \<and> dq_cell k d (unat i) = Some x)"
| "ds_result_ok k d (At_dir i) \<longleftrightarrow> unat i < unat (dq_size d)"
| "ds_result_ok k d (At_entry i a) \<longleftrightarrow> unat i < unat (dq_size d) \<and>
     (\<exists>arr b. dq_dirs d a = Some arr \<and> unat i div 2 ^ k < length arr \<and> arr ! (unat i div 2 ^ k) = Some b \<and>
              dq_entry d (unat i div 2 ^ k) = Some b)"
| "ds_result_ok k d (At_cell i b) \<longleftrightarrow> unat i < unat (dq_size d) \<and> dq_entry d (unat i div 2 ^ k) = Some b"
| "ds_result_ok k d (At_ret i r) \<longleftrightarrow> (\<forall>x. r = Inr x \<longrightarrow> unat i < unat (dq_size d) \<and> dq_cell k d (unat i) = Some x)"
| "ds_result_ok k d _ \<longleftrightarrow> True"

definition ds_inv :: "nat \<Rightarrow> 'a \<Rightarrow> 'a dqsys \<Rightarrow> bool" where
  "ds_inv k dflt s \<longleftrightarrow> dq_inv k (ds_d s) \<and> cap_ok k (ds_d s) \<and> spin_owned (ds_lock s) {t. ds_holds (ds_pcs s t)} \<and>
     (\<forall>t. ds_writer_ok k dflt (ds_d s) (ds_pcs s t) \<and> ds_result_ok k (ds_d s) (ds_pcs s t))"

text \<open>The part of a writer step that the others see: blocks and directories stay, published elements stay.\<close>

definition dq_safe :: "nat \<Rightarrow> 'a deque \<Rightarrow> 'a deque \<Rightarrow> bool" where
  "dq_safe k d d' \<longleftrightarrow> dq_inv k d' \<and> cap_ok k d' \<and> dq_ext d d' \<and> unat (dq_size d) \<le> unat (dq_size d') \<and>
     (\<forall>j<unat (dq_size d). dq_cell k d' j = dq_cell k d j)"

lemma dq_safe_refl: "dq_inv k d \<Longrightarrow> cap_ok k d \<Longrightarrow> dq_safe k d d"
  by (simp add: dq_safe_def)

lemma dq_keeps_safe: "dq_keeps k d d' \<Longrightarrow> cap_ok k d' \<Longrightarrow> dq_safe k d d'"
  by (simp add: dq_keeps_def dq_safe_def)

lemma ds_result_ok_safe:
  assumes "dq_safe k d d'" and "ds_result_ok k d p"
  shows "ds_result_ok k d' p"
proof (cases p)
  case (At_entry i a)
  then obtain arr b where *: "unat i < unat (dq_size d)" "dq_dirs d a = Some arr" "unat i div 2 ^ k < length arr"
      "arr ! (unat i div 2 ^ k) = Some b" "dq_entry d (unat i div 2 ^ k) = Some b"
    using assms(2) by auto
  have "dq_ext d d'" using assms(1) by (simp add: dq_safe_def)
  then obtain arr' where "dq_dirs d' a = Some arr'" "length arr' = length arr"
      "\<forall>j<length arr. arr ! j \<noteq> None \<longrightarrow> arr' ! j = arr ! j"
    using *(2) unfolding dq_ext_def by blast
  moreover have "dq_entry d' (unat i div 2 ^ k) = Some b" using \<open>dq_ext d d'\<close> *(5) unfolding dq_ext_def by blast
  ultimately show ?thesis using * assms(1) At_entry by (auto simp: dq_safe_def)
next
  case (At_cell i b)
  then show ?thesis using assms by (auto simp: dq_safe_def dq_ext_def)
qed (use assms in \<open>auto simp: dq_safe_def\<close>)

lemma ds_invD:
  assumes "ds_inv k dflt s"
  shows "dq_inv k (ds_d s)" "spin_owned (ds_lock s) {t. ds_holds (ds_pcs s t)}"
    "ds_writer_ok k dflt (ds_d s) (ds_pcs s t)" "ds_result_ok k (ds_d s) (ds_pcs s t)" "cap_ok k (ds_d s)"
  using assms by (auto simp: ds_inv_def)

lemma ds_owner: "ds_inv k dflt s \<Longrightarrow> ds_holds (ds_pcs s t) \<Longrightarrow> ds_holds (ds_pcs s u) \<Longrightarrow> t = u"
  using spin.exclusive [of "ds_lock s" "{t. ds_holds (ds_pcs s t)}" t u] ds_invD(2) [of k dflt s] by auto

lemma ds_writer_ok_outside: "\<not> ds_holds p \<Longrightarrow> ds_writer_ok k dflt d p \<Longrightarrow> ds_writer_ok k dflt d' p"
  by (cases p) auto

lemma ds_frame:
  assumes inv: "ds_inv k dflt s" and safe: "dq_safe k (ds_d s) (ds_d s')" and pcs: "ds_pcs s' = (ds_pcs s)(t := p)"
    and own: "ds_d s' \<noteq> ds_d s \<Longrightarrow> ds_holds (ds_pcs s t)"
    and lock: "spin_owned (ds_lock s') {u. ds_holds (((ds_pcs s)(t := p)) u)}"
    and self: "ds_writer_ok k dflt (ds_d s') p" "ds_result_ok k (ds_d s') p"
  shows "ds_inv k dflt s'"
proof -
  have "ds_writer_ok k dflt (ds_d s') (ds_pcs s' u) \<and> ds_result_ok k (ds_d s') (ds_pcs s' u)" for u
  proof (cases "u = t")
    case True
    with self pcs show ?thesis by simp
  next
    case False
    have "ds_writer_ok k dflt (ds_d s') (ds_pcs s u)"
    proof (cases "ds_holds (ds_pcs s u)")
      case True
      then have "ds_d s' = ds_d s" using own ds_owner [OF inv True] False by blast
      with ds_invD(3) [OF inv] show ?thesis by simp
    next
      case nh: False
      show ?thesis by (rule ds_writer_ok_outside [OF nh ds_invD(3) [OF inv]])
    qed
    with ds_result_ok_safe [OF safe ds_invD(4) [OF inv]] False pcs show ?thesis by simp
  qed
  with safe lock pcs show ?thesis by (simp add: ds_inv_def dq_safe_def)
qed

lemma ds_to_simps [simp]:
  "ds_d (ds_to t p d s) = d" "ds_lock (ds_to t p d s) = ds_lock s" "ds_pcs (ds_to t p d s) = (ds_pcs s)(t := p)"
  by (simp_all add: ds_to_def)

lemma ds_lock_same:
  "ds_inv k dflt s \<Longrightarrow> ds_holds p = ds_holds (ds_pcs s t) \<Longrightarrow> spin_owned (ds_lock s) {u. ds_holds (((ds_pcs s)(t := p)) u)}"
proof -
  assume inv: "ds_inv k dflt s" and eq: "ds_holds p = ds_holds (ds_pcs s t)"
  have "{u. ds_holds (((ds_pcs s)(t := p)) u)} = {u. ds_holds (ds_pcs s u)}" using eq by auto
  with ds_invD(2) [OF inv] show ?thesis by simp
qed

text \<open>A step of the lock holder on the deque, a step outside the lock, taking the lock and releasing it.\<close>

lemma ds_holder_step:
  assumes inv: "ds_inv k dflt s" and "ds_holds (ds_pcs s t)" "ds_holds p" and "dq_safe k (ds_d s) d"
    and "ds_writer_ok k dflt d p" "ds_result_ok k d p"
  shows "ds_inv k dflt (ds_to t p d s)"
  by (rule ds_frame [OF inv, where t = t and p = p]) (use assms ds_lock_same [OF inv, of p t] in auto)

lemma ds_local_step:
  assumes inv: "ds_inv k dflt s" and "\<not> ds_holds (ds_pcs s t)" "\<not> ds_holds p"
    and "ds_writer_ok k dflt (ds_d s) p" "ds_result_ok k (ds_d s) p"
  shows "ds_inv k dflt (ds_to t p (ds_d s) s)"
  by (rule ds_frame [OF inv, where t = t and p = p])
    (use assms ds_lock_same [OF inv, of p t] dq_safe_refl [OF ds_invD(1,5) [OF inv]] in auto)

lemma ds_acquire_step:
  assumes inv: "ds_inv k dflt s" and p: "ds_holds p" "ds_writer_ok k dflt (ds_d s) p" "ds_result_ok k (ds_d s) p"
  shows "ds_inv k dflt (ds_acquire t p s)"
proof (cases "ttas (ds_lock s)")
  case (Pair b l)
  show ?thesis
  proof (cases b)
    case True
    have "{u. ds_holds (((ds_pcs s)(t := p)) u)} = insert t {u. ds_holds (ds_pcs s u)}" using p(1) by auto
    with spin.acquire_owned [OF ds_invD(2) [OF inv], of l t] Pair True
    have "spin_owned l {u. ds_holds (((ds_pcs s)(t := p)) u)}" by simp
    then have "ds_inv k dflt (ds_to t p (ds_d s) (s\<lparr>ds_lock := l\<rparr>))"
      by (intro ds_frame [OF inv, where t = t and p = p]) (use p dq_safe_refl [OF ds_invD(1,5) [OF inv]] in \<open>auto simp: ds_to_def\<close>)
    then show ?thesis using Pair True by (simp add: ds_acquire_def)
  next
    case False
    then show ?thesis using Pair inv by (simp add: ds_acquire_def)
  qed
qed

lemma ds_release_step:
  assumes inv: "ds_inv k dflt s" and h: "ds_holds (ds_pcs s t)" and p: "\<not> ds_holds p" "ds_writer_ok k dflt (ds_d s) p" "ds_result_ok k (ds_d s) p"
  shows "ds_inv k dflt (ds_to t p (ds_d s) (s\<lparr>ds_lock := unlock (ds_lock s)\<rparr>))"
proof (rule ds_frame [OF inv, where t = t and p = p])
  have only: "{u. ds_holds (ds_pcs s u)} = {t}" using ds_owner [OF inv _ h] h by blast
  have "{u. ds_holds (((ds_pcs s)(t := p)) u)} = {u. ds_holds (ds_pcs s u)} - {t}" using p(1) by auto
  with only spin.release_owned [of "ds_lock s" t] ds_invD(2) [OF inv]
  show "spin_owned (ds_lock (ds_to t p (ds_d s) (s\<lparr>ds_lock := unlock (ds_lock s)\<rparr>))) {u. ds_holds (((ds_pcs s)(t := p)) u)}"
    by simp
qed (use p dq_safe_refl [OF ds_invD(1,5) [OF inv]] in \<open>auto simp: ds_to_def\<close>)

section \<open>Every step keeps the invariant\<close>

lemma ds_fail_Some [simp]: "ds_fail t v e d s = Some s' \<longleftrightarrow> e \<noteq> Undefined \<and> s' = ds_to t (Wr_unlock v (Inl e)) d s"
  by (auto simp: ds_fail_def)

lemma ds_emplace_inv:
  assumes inv: "ds_inv k dflt s" and room: "unat (dq_size (ds_d s)) < 2 ^ 63" and st: "ds_write ok k dflt t (ds_pcs s t) s = Some s'"
    and pc: "ds_pcs s t \<in> {Em_lock v, Em_dir v, Em_block v, Em_construct v} \<or> ds_pcs s t = Em_publish x"
  shows "ds_inv k dflt s'"
proof -
  let ?d = "ds_d s" and ?i = "dq_size (ds_d s)"
  note dinv = ds_invD(1) [OF inv] and cap = ds_invD(5) [OF inv] and wr = ds_invD(3) [OF inv, of t]
  consider "ds_pcs s t = Em_lock v" | "ds_pcs s t = Em_dir v" | "ds_pcs s t = Em_block v" | "ds_pcs s t = Em_construct v"
    | "ds_pcs s t = Em_publish x" using pc by auto
  then show ?thesis
  proof cases
    case 1
    with st show ?thesis by (auto intro!: ds_acquire_step [OF inv])
  next
    case 2
    obtain r d where p: "emplace_dir ok k ?d = (r, d)" by fastforce
    note k = emplace_dir_ok [OF dinv p]
    have "dq_safe k ?d d" "dq_size d = ?i"
      using k dq_keeps_safe emplace_dir_cap [OF dinv cap room p] by (auto simp: dq_keeps_def)
    with st 2 p k room show ?thesis
      by (cases r) (auto split: if_splits intro!: ds_holder_step [OF inv])
  next
    case 3
    then have "unat ?i div 2 ^ k < unat (dq_dcap ?d)" "unat ?i + 1 < 2 ^ 64" using wr by auto
    moreover obtain r d where p: "ensure_block ok k ?i ?d = (r, d)" by fastforce
    ultimately have k: "dq_keeps k ?d d" "r = Inr u \<Longrightarrow> dq_entry d (unat ?i div 2 ^ k) \<noteq> None" for u
      using ensure_block_ok [OF dinv _ p] by auto
    have "cap_ok k d" using cap ensure_block_dcap [OF p] by (simp add: cap_ok_def)
    with k(1) dq_keeps_safe have "dq_safe k ?d d" "dq_size d = ?i" by (auto simp: dq_keeps_def)
    with st 3 p k(2) wr show ?thesis
      by (cases r) (auto intro!: ds_holder_step [OF inv])
  next
    case 4
    then have e: "dq_entry ?d (unat ?i div 2 ^ k) \<noteq> None" "unat ?i + 1 < 2 ^ 64" using wr by auto
    obtain r d where p: "construct_elem k ?i v ?d = (r, d)" by fastforce
    note k = construct_elem_ok [OF dinv e(1) p]
    show ?thesis
    proof (cases v)
      case None
      then have "r = Inl User_exception" "d = ?d" using k by auto
      with st 4 p None dq_safe_refl [OF dinv cap] show ?thesis by (auto intro!: ds_holder_step [OF inv])
    next
      case (Some y)
      then have r: "r = Inr ()" "dq_inv k d" "dq_ext ?d d" "dq_size d = ?i"
        and cell: "\<And>j. dq_cell k d j = (if j = unat ?i then Some y else dq_cell k ?d j)" using k by auto
      have "cap_ok k d" using cap construct_elem_dcap [OF p] by (simp add: cap_ok_def)
      with r cell have "dq_safe k ?d d" by (simp add: dq_safe_def)
      with st 4 p Some r cell e(2) show ?thesis by (auto intro!: ds_holder_step [OF inv])
    qed
  next
    case 5
    then have e: "dq_cell k ?d (unat ?i) = Some x" "unat ?i + 1 < 2 ^ 64" using wr by auto
    have n1: "unat (?i + 1) = Suc (unat ?i)" using e(2) unat_add_size [of ?i 1] by simp
    have "dq_cell k ?d j \<noteq> None" if "j < unat (?i + 1)" for j
      using that n1 e(1) dq_invD(4) [OF dinv, of j] by (auto simp: less_Suc_eq)
    note pub = publish_size_ok [OF dinv, of "?i + 1", OF this]
    then have "dq_safe k ?d (publish_size (?i + 1) ?d)" using n1 cap by (simp add: dq_safe_def publish_size_def cap_ok_def)
    moreover have "dq_size (publish_size (?i + 1) ?d) = ?i + 1" by (simp add: publish_size_def)
    ultimately show ?thesis using st 5 pub e n1 by (auto simp: Let_def intro!: ds_holder_step [OF inv])
  qed
qed

lemma grown_cong:
  "grown k dflt m d \<Longrightarrow> dq_size d' = dq_size d \<Longrightarrow> (\<And>j. j < m \<Longrightarrow> dq_cell k d' j = dq_cell k d j) \<Longrightarrow> grown k dflt m d'"
  by (simp add: grown_def)

lemma ds_resize_inv:
  assumes inv: "ds_inv k dflt s" and st: "ds_write ok k dflt t (ds_pcs s t) s = Some s'"
    and pc: "ds_pcs s t \<in> {Rs_dir n, Rs_publish n} \<or> ds_pcs s t = Rs_block n i \<or> ds_pcs s t = Rs_construct n i"
  shows "ds_inv k dflt s'"
proof -
  let ?d = "ds_d s"
  note dinv = ds_invD(1) [OF inv] and cap = ds_invD(5) [OF inv] and wr = ds_invD(3) [OF inv, of t]
  consider "ds_pcs s t = Rs_dir n" | "ds_pcs s t = Rs_block n i" | "ds_pcs s t = Rs_construct n i" | "ds_pcs s t = Rs_publish n"
    using pc by auto
  then show ?thesis
  proof cases
    case 1
    then have n62: "unat n \<le> 2 ^ 62" using wr by simp
    note nw = resize_fits [OF dq_invD(1) [OF dinv] n62]
    show ?thesis
    proof (cases "n \<le> dq_size ?d")
      case True
      with st 1 dq_safe_refl [OF dinv cap] show ?thesis by (auto intro!: ds_holder_step [OF inv])
    next
      case False
      then have lt: "unat (dq_size ?d) < unat n" by (simp add: word_le_nat_alt)
      obtain r d where p: "resize_dir ok k n ?d = (r, d)" by fastforce
      note k = resize_dir_ok [OF dinv nw p]
      have sz: "dq_size d = dq_size ?d" using k by (simp add: dq_keeps_def)
      have "dq_safe k ?d d" using k dq_keeps_safe resize_dir_cap [OF dq_invD(1) [OF dinv] cap nw p] by blast
      moreover have "grown k dflt (unat (dq_size d)) d" by (simp add: grown_def)
      ultimately show ?thesis using st 1 False p k lt sz n62
        by (cases r) (auto intro!: ds_holder_step [OF inv])
    qed
  next
    case 2
    then have w: "unat (dq_size ?d) \<le> unat i" "unat i < unat n" "\<And>j. j < unat n \<Longrightarrow> j div 2 ^ k < unat (dq_dcap ?d)"
      "grown k dflt (unat i) ?d" "unat n \<le> 2 ^ 62" using wr by auto
    obtain r d where p: "ensure_block ok k i ?d = (r, d)" by fastforce
    note k = ensure_block_ok [OF dinv w(3) [OF w(2)] p]
    have keep: "dq_size d = dq_size ?d" "\<And>j. dq_cell k d j = dq_cell k ?d j" "unat (dq_dcap ?d) \<le> unat (dq_dcap d)"
      using k by (auto simp: dq_keeps_def)
    have "cap_ok k d" using cap ensure_block_dcap [OF p] by (simp add: cap_ok_def)
    then have "dq_safe k ?d d" using k dq_keeps_safe by blast
    moreover have "grown k dflt (unat i) d" by (rule grown_cong [OF w(4) keep(1,2)])
    moreover have "\<forall>j<unat n. j div 2 ^ k < unat (dq_dcap d)" using w(3) keep(3) by (meson less_le_trans)
    ultimately show ?thesis using st 2 p k w(1,2,5) keep(1)
      by (cases r) (auto intro!: ds_holder_step [OF inv])
  next
    case 3
    then have w: "unat (dq_size ?d) \<le> unat i" "unat i < unat n" "\<forall>j<unat n. j div 2 ^ k < unat (dq_dcap ?d)"
      "grown k dflt (unat i) ?d" "dq_entry ?d (unat i div 2 ^ k) \<noteq> None" "unat n \<le> 2 ^ 62" using wr by auto
    obtain r d where p: "construct_elem k i (Some dflt) ?d = (r, d)" by fastforce
    have r: "r = Inr ()" "dq_inv k d" "dq_ext ?d d" "dq_size d = dq_size ?d" "dq_dcap d = dq_dcap ?d"
      and cell: "\<And>j. dq_cell k d j = (if j = unat i then Some dflt else dq_cell k ?d j)"
      using construct_elem_ok [OF dinv w(5) p] by auto
    have i1: "unat (i + 1) = Suc (unat i)" using w(2) unat_lt_size [of n] unat_add_size [of i 1] by simp
    have "cap_ok k d" using cap r(5) by (simp add: cap_ok_def)
    with r cell w(1) have "dq_safe k ?d d" by (auto simp: dq_safe_def)
    moreover have g: "grown k dflt (Suc (unat i)) d"
      using w(4) cell r(4) by (auto simp: grown_def less_Suc_eq)
    moreover have "unat n = Suc (unat i)" if "\<not> i + 1 < n" using that i1 w(2) by (simp add: word_less_nat_alt)
    moreover have "Suc (unat i) < unat n" if "i + 1 < n" using that i1 by (simp add: word_less_nat_alt)
    ultimately show ?thesis using st 3 p r w(1-3,6) i1
      by (auto intro!: ds_holder_step [OF inv])
  next
    case 4
    then have w: "unat (dq_size ?d) < unat n" "grown k dflt (unat n) ?d" using wr by auto
    have "dq_cell k ?d j \<noteq> None" if "j < unat n" for j
      using that w(2) dq_invD(4) [OF dinv, of j] by (cases "j < unat (dq_size ?d)") (auto simp: grown_def)
    note pub = publish_size_ok [OF dinv, of n, OF this]
    then have "dq_safe k ?d (publish_size n ?d)" using w(1) cap by (simp add: dq_safe_def publish_size_def cap_ok_def)
    then show ?thesis using st 4 by (auto intro!: ds_holder_step [OF inv])
  qed
qed

lemma ds_write_inv:
  assumes inv: "ds_inv k dflt s" and room: "unat (dq_size (ds_d s)) < 2 ^ 63"
    and st: "ds_write ok k dflt t (ds_pcs s t) s = Some s'"
  shows "ds_inv k dflt s'"
proof -
  note dinv = ds_invD(1) [OF inv] and cap = ds_invD(5) [OF inv] and wr = ds_invD(3) [OF inv, of t] and rd = ds_invD(4) [OF inv, of t]
  show ?thesis
  proof (cases "ds_pcs s t")
    case (Rs_check n)
    with st wr show ?thesis by (auto split: if_splits intro!: ds_local_step [OF inv])
  next
    case (Rs_lock n)
    with st wr show ?thesis by (auto intro!: ds_acquire_step [OF inv])
  next
    case (Rv_lock n)
    with st wr show ?thesis by (auto intro!: ds_acquire_step [OF inv])
  next
    case (Rv_dir n)
    then have nw: "unat n + (2 ^ k - 1) < 2 ^ 64" using wr by simp
    obtain r d where p: "dq_reserve ok k n (ds_d s) = (r, d)" by fastforce
    note res = dq_reserve_ok [OF dinv nw cap [unfolded cap_ok_def] p]
    have "dq_safe k (ds_d s) d"
    proof -
      have l: "dq_list k d = dq_list k (ds_d s)" using res by blast
      then have sz: "unat (dq_size d) = unat (dq_size (ds_d s))" using length_dq_list [of k d] by simp
      then have "dq_cell k d j = dq_cell k (ds_d s) j" if "j < unat (dq_size (ds_d s))" for j
        using dq_cell_list [of k d j] dq_cell_list [OF dinv that] l res that by simp
      with sz res dq_reserve_cap [OF dq_invD(1) [OF dinv] cap nw p] show ?thesis by (simp add: dq_safe_def)
    qed
    with st Rv_dir p show ?thesis by (cases r) (auto intro!: ds_holder_step [OF inv])
  next
    case (Wr_unlock v r)
    with st rd show ?thesis by (auto intro!: ds_release_step [OF inv])
  qed (use st ds_emplace_inv [OF inv room st] ds_resize_inv [OF inv st] in auto)
qed

lemma at_entry_read:
  assumes "ds_result_ok k d (At_entry i a)"
  shows "\<exists>b. dir_entry a (block_idx k i) d = Inr (Some b) \<and> dq_entry d (unat i div 2 ^ k) = Some b"
  using assms by (auto simp: dir_entry_def checked_nth_def block_idx_div)

lemma at_cell_read:
  assumes inv: "dq_inv k d" and "ds_result_ok k d (At_cell i b)"
  shows "load_ref (b, local_offset k i) d = Inr (dq_list k d ! unat i)"
proof -
  have lt: "unat i < unat (dq_size d)" and e: "dq_entry d (unat i div 2 ^ k) = Some b" using assms(2) by auto
  from dq_index_cell [OF inv dq_cell_list [OF inv lt]] dq_index_entry [OF e] show ?thesis
    by (auto simp: local_offset_mod)
qed

lemma ds_read_inv:
  assumes inv: "ds_inv k dflt s" and st: "ds_read k t (ds_pcs s t) s = Some s'"
  shows "ds_inv k dflt s'"
proof -
  note dinv = ds_invD(1) [OF inv] and rd = ds_invD(4) [OF inv, of t]
  show ?thesis
  proof (cases "ds_pcs s t")
    case (At_size i)
    with st show ?thesis by (auto simp: word_le_nat_alt not_le split: if_splits intro!: ds_local_step [OF inv])
  next
    case (At_dir i)
    then have lt: "unat i < unat (dq_size (ds_d s))" using rd by simp
    obtain b where b: "dq_entry (ds_d s) (unat i div 2 ^ k) = Some b"
      using dq_cell_entry [OF dq_cell_list [OF dinv lt]] by blast
    obtain a arr where "dq_directory (ds_d s) = Some a" "dq_dirs (ds_d s) a = Some arr"
        "unat i div 2 ^ k < length arr" "arr ! (unat i div 2 ^ k) = Some b"
      using dq_entry_directory [OF b] by blast
    with st At_dir lt b show ?thesis by (auto intro!: ds_local_step [OF inv])
  next
    case (At_entry i a)
    then obtain b where "dir_entry a (block_idx k i) (ds_d s) = Inr (Some b)" "dq_entry (ds_d s) (unat i div 2 ^ k) = Some b"
      using at_entry_read rd by metis
    with st At_entry rd show ?thesis by (auto intro!: ds_local_step [OF inv])
  next
    case (At_cell i b)
    then have "load_ref (b, local_offset k i) (ds_d s) = Inr (dq_list k (ds_d s) ! unat i)"
      using at_cell_read [OF dinv] rd by metis
    with st At_cell rd dq_cell_list [OF dinv] show ?thesis by (auto intro!: ds_local_step [OF inv])
  qed (use st in auto)
qed

lemma ds_at_rest_pc: "ds_at_rest p \<Longrightarrow> \<not> ds_holds p"
  by (cases p) auto

lemma ds_exec_inv:
  assumes inv: "ds_inv k dflt s" and room: "unat (dq_size (ds_d s)) < 2 ^ 63" and fits: "ds_act_fits k a"
    and ex: "ds_exec ok k dflt s a = Some s'"
  shows "ds_inv k dflt s'"
proof (cases a)
  case (Dq_call t c)
  with ex fits show ?thesis
    by (cases c) (auto split: if_splits dest: ds_at_rest_pc intro!: ds_local_step [OF inv])
next
  case (Dq_move t)
  with ex ds_write_inv [OF inv room] ds_read_inv [OF inv] show ?thesis by (auto split: option.splits)
qed

section \<open>Refinement of a growing list\<close>

definition grow_exec :: "'a list \<Rightarrow> 'a list \<Rightarrow> 'a list option" where
  "grow_exec xs ys = Some (xs @ ys)"

definition ds_abs :: "nat \<Rightarrow> 'a dqsys \<Rightarrow> 'a list" where
  "ds_abs k s = dq_list k (ds_d s)"

fun ds_lin :: "'a \<Rightarrow> 'a dqsys \<Rightarrow> 'a dq_act \<Rightarrow> 'a list option" where
  "ds_lin dflt s (Dq_call t c) = None"
| "ds_lin dflt s (Dq_move t) =
     (case ds_pcs s t of Em_publish x \<Rightarrow> Some [x]
      | Rs_publish n \<Rightarrow> Some (replicate (unat n - unat (dq_size (ds_d s))) dflt) | _ \<Rightarrow> None)"

lemma dq_safe_list: "dq_inv k d \<Longrightarrow> dq_safe k d d' \<Longrightarrow> dq_size d' = dq_size d \<Longrightarrow> dq_list k d' = dq_list k d"
  by (rule dq_list_eqI) (auto simp: dq_safe_def dq_cell_list)

lemma publish_size_cell: "dq_cell k (publish_size m d) j = dq_cell k d j"
proof (rule dq_cell_cong)
  have "old_entries (publish_size m d) = old_entries d" by (rule old_entries_cong) (simp_all add: publish_size_def)
  then show "dq_entry (publish_size m d) (j div 2 ^ k) = dq_entry d (j div 2 ^ k)" by (simp add: dq_entry_def)
qed (simp add: publish_size_def)

lemma ds_linearize:
  assumes inv: "ds_inv k dflt s" and ex: "ds_exec ok k dflt s a = Some s'" and lin: "ds_lin dflt s a = Some b"
  shows "ds_abs k s' = ds_abs k s @ b"
proof (cases a)
  case (Dq_move t)
  let ?d = "ds_d s"
  note dinv = ds_invD(1) [OF inv] and cap = ds_invD(5) [OF inv] and wr = ds_invD(3) [OF inv, of t]
  consider x where "ds_pcs s t = Em_publish x" "b = [x]"
    | n where "ds_pcs s t = Rs_publish n" "b = replicate (unat n - unat (dq_size ?d)) dflt"
    using lin Dq_move by (cases "ds_pcs s t") auto
  then show ?thesis
  proof cases
    case 1
    then have w: "dq_cell k ?d (unat (dq_size ?d)) = Some x" "unat (dq_size ?d) + 1 < 2 ^ 64" using wr by auto
    have n1: "unat (dq_size ?d + 1) = Suc (unat (dq_size ?d))" using w(2) unat_add_size [of "dq_size ?d" 1] by simp
    have d': "ds_d s' = publish_size (dq_size ?d + 1) ?d" using ex Dq_move 1 by (auto simp: Let_def)
    show ?thesis
      unfolding ds_abs_def d' 1(2)
      by (rule dq_list_eqI) (use w n1 dq_cell_list [OF dinv] in \<open>auto simp: publish_size_cell nth_append less_Suc_eq, auto simp: publish_size_def\<close>)
  next
    case 2
    then have w: "unat (dq_size ?d) < unat n" "grown k dflt (unat n) ?d" using wr by auto
    have d': "ds_d s' = publish_size n ?d" using ex Dq_move 2 by auto
    show ?thesis
      unfolding ds_abs_def d' 2(2)
      by (rule dq_list_eqI) (use w dq_cell_list [OF dinv] in \<open>auto simp: publish_size_cell nth_append grown_def, auto simp: publish_size_def\<close>)
  qed
qed (use lin in auto)

lemma construct_above_list:
  assumes inv: "dq_inv k d" and e: "dq_entry d (unat i div 2 ^ k) \<noteq> None" and i: "unat (dq_size d) \<le> unat i"
  shows "dq_list k (snd (construct_elem k i v d)) = dq_list k d"
proof (cases v)
  case None
  obtain r d' where p: "construct_elem k i v d = (r, d')" by fastforce
  with construct_elem_ok [OF inv e p] None show ?thesis by simp
next
  case (Some x)
  obtain r d' where p: "construct_elem k i v d = (r, d')" by fastforce
  have "dq_size d' = dq_size d" "\<And>j. dq_cell k d' j = (if j = unat i then Some x else dq_cell k d j)"
    using construct_elem_ok [OF inv e p] Some by auto
  then have "dq_list k d' = dq_list k d" using i dq_cell_list [OF inv] by (intro dq_list_eqI) auto
  then show ?thesis by (simp add: p)
qed

lemma ds_acquire_d: "ds_d (ds_acquire t p s) = ds_d s"
  by (auto simp: ds_acquire_def ds_to_def split: prod.splits bool.splits)

lemma ds_stutter:
  assumes inv: "ds_inv k dflt s" and ex: "ds_exec ok k dflt s a = Some s'" and lin: "ds_lin dflt s a = None"
  shows "ds_abs k s' = ds_abs k s"
proof (cases a)
  case (Dq_call t c)
  with ex show ?thesis by (auto simp: ds_abs_def split: if_splits option.splits)
next
  case (Dq_move t)
  let ?d = "ds_d s"
  note dinv = ds_invD(1) [OF inv] and cap = ds_invD(5) [OF inv] and wr = ds_invD(3) [OF inv, of t]
  show ?thesis
  proof (cases "ds_pcs s t")
    case (Em_dir v)
    obtain r d where p: "emplace_dir ok k ?d = (r, d)" by fastforce
    with ex Dq_move Em_dir dq_keeps_list [of k ?d d] emplace_dir_ok [OF dinv p] show ?thesis
      by (cases r) (auto simp: ds_abs_def ds_fail_def split: if_splits)
  next
    case (Em_block v)
    obtain r d where p: "ensure_block ok k (dq_size ?d) ?d = (r, d)" by fastforce
    have "dq_keeps k ?d d" using ensure_block_ok [OF dinv _ p] wr Em_block by auto
    with ex Dq_move Em_block p dq_keeps_list [of k ?d d] show ?thesis
      by (cases r) (auto simp: ds_abs_def ds_fail_def split: if_splits)
  next
    case (Em_construct v)
    obtain r d where p: "construct_elem k (dq_size ?d) v ?d = (r, d)" by fastforce
    with construct_above_list [OF dinv, of "dq_size ?d" v] wr Em_construct have "dq_list k d = dq_list k ?d" by simp
    with ex Dq_move Em_construct p show ?thesis
      by (cases r; cases v) (auto simp: ds_abs_def ds_fail_def split: if_splits)
  next
    case (Rs_dir n)
    obtain r d where p: "resize_dir ok k n ?d = (r, d)" by fastforce
    have "dq_keeps k ?d d" using resize_dir_ok [OF dinv resize_fits p] wr Rs_dir dq_invD(1) [OF dinv] by auto
    with ex Dq_move Rs_dir p dq_keeps_list [of k ?d d] show ?thesis
      by (cases r) (auto simp: ds_abs_def ds_fail_def split: if_splits)
  next
    case (Rs_block n i)
    obtain r d where p: "ensure_block ok k i ?d = (r, d)" by fastforce
    have "dq_keeps k ?d d" using ensure_block_ok [OF dinv _ p] wr Rs_block by auto
    with ex Dq_move Rs_block p dq_keeps_list [of k ?d d] show ?thesis
      by (cases r) (auto simp: ds_abs_def ds_fail_def split: if_splits)
  next
    case (Rs_construct n i)
    obtain r d where p: "construct_elem k i (Some dflt) ?d = (r, d)" by fastforce
    with construct_above_list [OF dinv, of i "Some dflt"] wr Rs_construct have "dq_list k d = dq_list k ?d" by simp
    with ex Dq_move Rs_construct p show ?thesis
      by (cases r) (auto simp: ds_abs_def ds_fail_def split: if_splits)
  next
    case (Rv_dir n)
    obtain r d where p: "dq_reserve ok k n ?d = (r, d)" by fastforce
    with ex Dq_move Rv_dir wr dq_reserve_ok [OF dinv _ cap [unfolded cap_ok_def] p] show ?thesis
      by (cases r) (auto simp: ds_abs_def ds_fail_def split: if_splits)
  qed (use ex lin Dq_move in \<open>auto simp: ds_abs_def ds_acquire_d ds_to_def split: option.splits sum.splits if_splits\<close>)
qed

text \<open>The size grows by at most one in a step, or to the size a fitting \<open>resize\<close> asked for.\<close>

lemma ds_size_step:
  assumes inv: "ds_inv k dflt s" and ex: "ds_exec ok k dflt s a = Some s'" and size: "unat (dq_size (ds_d s)) \<le> 2 ^ 62 + n"
  shows "unat (dq_size (ds_d s')) \<le> 2 ^ 62 + Suc n"
proof (cases "ds_lin dflt s a")
  case None
  then have "length (ds_abs k s') = length (ds_abs k s)" using ds_stutter [OF inv ex] by simp
  with size show ?thesis by (simp add: ds_abs_def)
next
  case (Some b)
  have "length (ds_abs k s') = length (ds_abs k s) + length b" using ds_linearize [OF inv ex Some] by simp
  moreover have "length b = 1 \<or> unat (dq_size (ds_d s)) + length b \<le> 2 ^ 62"
  proof (cases a)
    case (Dq_move t)
    with Some ds_invD(3) [OF inv, of t] show ?thesis by (auto split: dq_pc.splits)
  qed (use Some in auto)
  ultimately show ?thesis using size by (auto simp: ds_abs_def)
qed

interpretation dsr: budget_refinement "ds_exec ok k dflt" "ds_act_fits k"
  "\<lambda>n s. ds_inv k dflt s \<and> unat (dq_size (ds_d s)) \<le> 2 ^ 62 + n" "2 ^ 62" grow_exec "ds_abs k" "ds_lin dflt" for ok k dflt
proof unfold_locales
  fix n t and a :: "'a dq_act" and s :: "'a dqsys"
  assume s: "ds_inv k dflt s \<and> unat (dq_size (ds_d s)) \<le> 2 ^ 62 + n" "n < 2 ^ 62" "ds_act_fits k a" "ds_exec ok k dflt s a = Some t"
  have "unat (dq_size (ds_d s)) < 2 ^ 63" using s(1,2) by simp
  with s ds_exec_inv [of k dflt s a ok t] ds_size_step [of k dflt s ok a t n] show "ds_inv k dflt t \<and> unat (dq_size (ds_d t)) \<le> 2 ^ 62 + Suc n" by blast
qed (auto dest: ds_stutter ds_linearize simp: grow_exec_def)

lemma ds_reachable:
  assumes "k < 64" and "ds_fits k as" and "run (ds_exec ok k dflt) ds_init as = Some s"
  shows "ds_inv k dflt s" and "unat (dq_size (ds_d s)) < 2 ^ 63"
    and "run grow_exec [] (lin_trace (ds_exec ok k dflt) (ds_lin dflt) ds_init as) = Some (dq_list k (ds_d s))"
proof -
  have i: "ds_inv k dflt ds_init \<and> unat (dq_size (ds_d (ds_init :: 'a dqsys))) \<le> 2 ^ 62 + 0"
    using dq_empty_inv [OF assms(1)] by (auto simp: ds_inv_def ds_init_def spin_owned_def cap_ok_def) (simp_all add: dq_empty_def)
  have f: "list_all (ds_act_fits k) as" "0 + length as \<le> 2 ^ 62" using assms(2) by (auto simp: ds_fits_def)
  from dsr.budget_run [OF i f assms(3)] assms(2)
  show "ds_inv k dflt s" "unat (dq_size (ds_d s)) < 2 ^ 63" by (auto simp: ds_fits_def)
  have "ds_abs k (ds_init :: 'a dqsys) = []" by (simp add: ds_abs_def ds_init_def dq_list_def dq_empty_def)
  with dsr.budget_abs [OF i f assms(3)]
  show "run grow_exec [] (lin_trace (ds_exec ok k dflt) (ds_lin dflt) ds_init as) = Some (dq_list k (ds_d s))"
    by (simp add: ds_abs_def)
qed

section \<open>Progress\<close>

text \<open>Inside a call there is always a next step, so none of the accesses is undefined.\<close>

lemma ds_reader_moves:
  assumes inv: "ds_inv k dflt s" and pc: "ds_pcs s t \<in> {At_size i, At_dir i} \<or> ds_pcs s t = At_entry i a \<or> ds_pcs s t = At_cell i b"
  shows "\<exists>s'. ds_exec ok k dflt s (Dq_move t) = Some s'"
proof -
  note dinv = ds_invD(1) [OF inv] and rd = ds_invD(4) [OF inv, of t]
  consider "ds_pcs s t = At_size i" | "ds_pcs s t = At_dir i" | "ds_pcs s t = At_entry i a" | "ds_pcs s t = At_cell i b"
    using pc by blast
  then show ?thesis
  proof cases
    case 2
    then have "unat i < unat (dq_size (ds_d s))" using rd by simp
    then obtain e where "dq_entry (ds_d s) (unat i div 2 ^ k) = Some e"
      using dq_cell_entry [OF dq_cell_list [OF dinv]] by blast
    then show ?thesis using 2 by (auto elim: dq_entry_directory)
  next
    case 3
    then show ?thesis using rd at_entry_read [of k "ds_d s" i a] by fastforce
  next
    case 4
    then show ?thesis using rd at_cell_read [OF dinv, of i b] by simp
  qed auto
qed

lemma construct_elem_defined:
  "dq_inv k d \<Longrightarrow> dq_entry d (unat i div 2 ^ k) \<noteq> None \<Longrightarrow> fst (construct_elem k i v d) = (case v of None \<Rightarrow> Inl User_exception | Some x \<Rightarrow> Inr ())"
  using construct_elem_ok [of k d i v "fst (construct_elem k i v d)" "snd (construct_elem k i v d)"] by (cases v) auto

lemma ds_writer_moves:
  assumes inv: "ds_inv k dflt s" and h: "ds_holds (ds_pcs s t)"
  shows "\<exists>s'. ds_write ok k dflt t (ds_pcs s t) s = Some s'"
proof -
  let ?d = "ds_d s"
  note dinv = ds_invD(1) [OF inv] and cap = ds_invD(5) [OF inv] and wr = ds_invD(3) [OF inv, of t]
  show ?thesis
  proof (cases "ds_pcs s t")
    case (Em_dir v)
    obtain r d where p: "emplace_dir ok k ?d = (r, d)" by fastforce
    with Em_dir emplace_dir_ok [OF dinv p] show ?thesis by (cases r) (auto simp: ds_fail_def)
  next
    case (Em_block v)
    obtain r d where p: "ensure_block ok k (dq_size ?d) ?d = (r, d)" by fastforce
    with Em_block wr ensure_block_ok [OF dinv _ p] show ?thesis by (cases r) (auto simp: ds_fail_def)
  next
    case (Em_construct v)
    obtain r d where p: "construct_elem k (dq_size ?d) v ?d = (r, d)" by fastforce
    with Em_construct wr construct_elem_defined [OF dinv, of "dq_size ?d" v] show ?thesis
      by (cases v) (auto simp: ds_fail_def)
  next
    case (Rs_dir n)
    obtain r d where p: "resize_dir ok k n ?d = (r, d)" by fastforce
    have "unat n + (2 ^ k - 1) < 2 ^ 64" using Rs_dir wr resize_fits [OF dq_invD(1) [OF dinv]] by simp
    with Rs_dir p resize_dir_ok [OF dinv _ p] show ?thesis by (cases r) (auto simp: ds_fail_def)
  next
    case (Rs_block n i)
    obtain r d where p: "ensure_block ok k i ?d = (r, d)" by fastforce
    with Rs_block wr ensure_block_ok [OF dinv _ p] show ?thesis by (cases r) (auto simp: ds_fail_def)
  next
    case (Rs_construct n i)
    obtain r d where p: "construct_elem k i (Some dflt) ?d = (r, d)" by fastforce
    with Rs_construct wr construct_elem_defined [OF dinv, of i "Some dflt"] show ?thesis by auto
  next
    case (Rv_dir n)
    obtain r d where p: "dq_reserve ok k n ?d = (r, d)" by fastforce
    with Rv_dir wr dq_reserve_ok [OF dinv _ cap [unfolded cap_ok_def] p] show ?thesis by (cases r) (auto simp: ds_fail_def)
  qed (use h in \<open>auto simp: Let_def\<close>)
qed

lemma ds_progress:
  assumes inv: "ds_inv k dflt s" and "\<not> ds_at_rest (ds_pcs s t)"
  shows "\<exists>s'. ds_exec ok k dflt s (Dq_move t) = Some s'"
proof (cases "ds_holds (ds_pcs s t)")
  case True
  from ds_writer_moves [OF inv this, of ok] show ?thesis by auto
next
  case False
  with assms(2) ds_reader_moves [OF inv, of t _ _ _ ok] show ?thesis by (cases "ds_pcs s t") auto
qed

section \<open>The contract under concurrency\<close>

text \<open>
  C16.  Writers: in every interleaving of calls whose sizes fit (\<open>ds_fits\<close>), the deque is a list that changes only when a writer
  stores \<open>size_\<close>, and then by appending what the call was given (the element, or value-initialised
  elements), so the schedule is a schedule of atomic appends; an \<open>emplace_back(x)\<close> that returned
  the index \<open>i\<close> has \<open>x\<close> at index \<open>i\<close>; and a thread inside a call always has a next step, so
  no access it makes is undefined.
\<close>

theorem deque_writers_linearizable:
  assumes "k < 64" and "ds_fits k as" and "run (ds_exec ok k dflt) ds_init as = Some s"
  shows "run grow_exec [] (lin_trace (ds_exec ok k dflt) (ds_lin dflt) ds_init as) = Some (dq_list k (ds_d s)) \<and>
     (ds_pcs s t = Wr_ret (Some x) (Inr i) \<longrightarrow> unat i < length (dq_list k (ds_d s)) \<and> dq_list k (ds_d s) ! unat i = x) \<and>
     (ds_at_rest (ds_pcs s t) \<or> (\<exists>s'. ds_exec ok k dflt s (Dq_move t) = Some s'))"
proof -
  note inv = ds_reachable(1) [OF assms]
  have "unat i < length (dq_list k (ds_d s)) \<and> dq_list k (ds_d s) ! unat i = x"
    if "ds_pcs s t = Wr_ret (Some x) (Inr i)"
    using that ds_invD(4) [OF inv, of t] by (simp add: dq_list_nth)
  with ds_reachable(3) [OF assms] ds_progress [OF inv] show ?thesis by blast
qed

text \<open>Two appends, a reader that loads the directory, a third append that retires it, and the reader's last steps.\<close>

definition ds_demo :: "int dq_act list" where
  "ds_demo = Dq_call 1 (Call_emplace (Some 10)) # replicate 6 (Dq_move 1) @
     Dq_call 1 (Call_emplace (Some 11)) # replicate 6 (Dq_move 1) @
     Dq_call 2 (Call_at 0) # Dq_move 2 # Dq_move 2 #
     Dq_call 1 (Call_emplace (Some 12)) # replicate 6 (Dq_move 1)"

lemma replicate_6: "replicate 6 x = [x, x, x, x, x, x]"
  by (simp add: numeral_eq_Suc)

lemma ds_demo_fits: "ds_fits 1 ds_demo" "ds_fits 1 (ds_demo @ [Dq_move 2, Dq_move 2])"
  by (simp_all add: ds_fits_def ds_demo_def list_all_iff)

lemmas ds_eval = ds_fail_def ds_demo_def ds_init_def ds_to_def ds_acquire_def ttas_def unlock_def replicate_6 replicate_2 dq_eval

theorem deque_writers_linearizable_witness:
  "\<exists>s. run (ds_exec (\<lambda>_. True) 1 0) ds_init ds_demo = Some s \<and> ds_pcs s 1 = Wr_ret (Some 12) (Inr 2) \<and>
     dq_list 1 (ds_d s) ! 2 = 12"
proof -
  obtain s where s: "run (ds_exec (\<lambda>_. True) 1 0) ds_init ds_demo = Some s" "ds_pcs s 1 = Wr_ret (Some 12) (Inr 2)"
    by (simp add: ds_eval)
  with deque_writers_linearizable [OF _ ds_demo_fits(1) s(1), of 1 12 2] show ?thesis by auto
qed

text \<open>
  C15.  Readers: in every interleaving of calls whose sizes fit (\<open>ds_fits\<close>), a thread inside \<open>at(i)\<close> can take every further step,
  through whichever directory it loaded (also one retired since), never touching a null or freed
  pointer; what it returns is the element of index \<open>i\<close>, then and at every later time.
\<close>

theorem deque_readers_safe:
  assumes "k < 64" and "ds_fits k as" and "run (ds_exec ok k dflt) ds_init as = Some s"
  shows "(ds_pcs s t \<in> {At_size i, At_dir i} \<or> ds_pcs s t = At_entry i a \<or> ds_pcs s t = At_cell i b \<longrightarrow>
           (\<exists>s'. ds_exec ok k dflt s (Dq_move t) = Some s')) \<and>
     (ds_pcs s t = At_ret i (Inr x) \<longrightarrow> unat i < length (dq_list k (ds_d s)) \<and> dq_list k (ds_d s) ! unat i = x)"
  using ds_reader_moves [OF ds_reachable(1) [OF assms]] ds_invD(4) [OF ds_reachable(1) [OF assms], of t]
  by (auto simp: dq_list_nth)

theorem deque_readers_safe_witness:
  "\<exists>s s' s''. run (ds_exec (\<lambda>_. True) 1 0) ds_init ds_demo = Some s \<and> ds_pcs s 2 = At_entry 0 0 \<and>
     dq_directory (ds_d s) \<noteq> Some 0 \<and> ds_exec (\<lambda>_. True) 1 0 s (Dq_move 2) = Some s' \<and>
     run (ds_exec (\<lambda>_. True) 1 0) ds_init (ds_demo @ [Dq_move 2, Dq_move 2]) = Some s'' \<and>
     ds_pcs s'' 2 = At_ret 0 (Inr 10) \<and> dq_list 1 (ds_d s'') ! 0 = 10"
proof -
  obtain s where s: "run (ds_exec (\<lambda>_. True) 1 0) ds_init ds_demo = Some s" "ds_pcs s 2 = At_entry 0 0"
      "dq_directory (ds_d s) \<noteq> Some 0"
    by (simp add: ds_eval)
  obtain s'' where s'': "run (ds_exec (\<lambda>_. True) 1 0) ds_init (ds_demo @ [Dq_move 2, Dq_move 2]) = Some s''"
      "ds_pcs s'' 2 = At_ret 0 (Inr 10)"
    by (simp add: ds_eval load_ref_def)
  from deque_readers_safe [OF _ ds_demo_fits(1) s(1), of 2 0 0] s(2) obtain s' where "ds_exec (\<lambda>_. True) 1 0 s (Dq_move 2) = Some s'" by auto
  moreover have "dq_list 1 (ds_d s'') ! 0 = 10" using deque_readers_safe [OF _ ds_demo_fits(2) s''(1), of 2 0] s''(2) by fastforce
  ultimately show ?thesis using s s'' by blast
qed

end
