(* ===== verification/Lock_Free_List.thy ===== *)
theory Lock_Free_List
  imports Conc_Prelude
begin

text \<open>
  The Harris-style forward list of \<^verbatim>\<open>LockFreeList/lock_free_list.h\<close>, in marking mode: nodes,
  iterators, \<open>insert_after\<close> and \<open>erase_after\<close> as a machine of any number of threads, one
  access to a \<open>next\<close> word per step, and the abstract list it implements.

  The list delegates memory reclamation to its pointer policy: a node that a word, an iterator
  or a call refers to is alive, so an address is never reused while anybody holds it.  Addresses
  are therefore numbers handed out once; \<open>lf_alloc\<close> is the next fresh one.
\<close>

section \<open>State\<close>

text \<open>
  A \<open>next\<close> word is a pointer with a mark: \<open>(p, True)\<close> read from the \<open>next\<close> of \<open>x\<close> says that \<open>x\<close>
  itself is logically deleted.
\<close>

type_synonym addr = nat
type_synonym lword = "addr option \<times> bool"

abbreviation is_marked :: "lword \<Rightarrow> bool" where
  "is_marked w \<equiv> snd w"

definition get_unmarked :: "lword \<Rightarrow> lword" where
  "get_unmarked w = (fst w, False)"

definition set_mark :: "lword \<Rightarrow> lword" where
  "set_mark w = (fst w, True)"

text \<open>Where a thread is inside a call; the local variables of the call are the arguments.\<close>

datatype lf_pc =
    Lf_idle
  | Ins_load addr addr                   \<comment> \<open>about to load \<open>anchor->next\<close>\<close>
  | Ins_store addr addr lword            \<comment> \<open>about to store \<open>expected_next\<close> into \<open>new_node->next\<close>\<close>
  | Ins_cas addr addr lword              \<comment> \<open>about to swing \<open>anchor->next\<close> to \<open>new_node\<close>\<close>
  | Ins_ret addr bool
  | Er_load addr                         \<comment> \<open>about to load \<open>anchor->next\<close>\<close>
  | Er_next addr addr                    \<comment> \<open>about to load \<open>target->next\<close>\<close>
  | Er_mark addr addr lword              \<comment> \<open>marking race with the \<open>target_next\<close> last seen\<close>
  | Er_unlink addr addr lword bool       \<comment> \<open>about to swing \<open>anchor->next\<close> past the target\<close>
  | Er_ret bool

text \<open>
  \<open>lf_order\<close> and \<open>lf_done\<close> are history variables: every node ever linked, in list order, and the
  operations each thread has performed on the list during its current or last call.
\<close>

datatype list_op = Link tid addr addr | Unlink tid addr

record 'a lfl =
  lf_alloc :: nat
  lf_value :: "addr \<Rightarrow> 'a"
  lf_next :: "addr \<Rightarrow> lword"
  lf_head :: addr
  lf_iter :: "tid \<Rightarrow> addr option"
  lf_pcs :: "tid \<Rightarrow> lf_pc"
  lf_order :: "addr list"
  lf_done :: "tid \<Rightarrow> list_op list"

definition lf_goto :: "tid \<Rightarrow> lf_pc \<Rightarrow> 'a lfl \<Rightarrow> 'a lfl" where
  "lf_goto t p s = s\<lparr>lf_pcs := (lf_pcs s)(t := p)\<rparr>"

definition lf_enter :: "tid \<Rightarrow> lf_pc \<Rightarrow> 'a lfl \<Rightarrow> 'a lfl" where
  "lf_enter t p s = lf_goto t p (s\<lparr>lf_done := (lf_done s)(t := [])\<rparr>)"

definition lf_write :: "addr \<Rightarrow> lword \<Rightarrow> 'a lfl \<Rightarrow> 'a lfl" where
  "lf_write x w s = s\<lparr>lf_next := (lf_next s)(x := w)\<rparr>"

definition lf_perform :: "tid \<Rightarrow> list_op \<Rightarrow> 'a lfl \<Rightarrow> tid \<Rightarrow> list_op list" where
  "lf_perform t b s = (lf_done s)(t := lf_done s t @ [b])"

fun link_after :: "addr \<Rightarrow> addr \<Rightarrow> addr list \<Rightarrow> addr list" where
  "link_after a n [] = []"
| "link_after a n (x # xs) = (if x = a then x # n # xs else x # link_after a n xs)"

section \<open>The operations\<close>

text \<open>The constructor: the list owns a dummy head that is never erased.\<close>

definition lf_construct :: "'a \<Rightarrow> 'a lfl" where
  "lf_construct v =
     \<lparr>lf_alloc = 1, lf_value = (\<lambda>_. v), lf_next = (\<lambda>_. (None, False)), lf_head = 0,
      lf_iter = (\<lambda>_. None), lf_pcs = (\<lambda>_. Lf_idle), lf_order = [0], lf_done = (\<lambda>_. [])\<rparr>"

text \<open>\<open>operator++\<close> on an iterator: the successor with the mark stripped; the end stays the end.\<close>

definition iter_next :: "'a lfl \<Rightarrow> addr option \<Rightarrow> addr option" where
  "iter_next s it = (case it of None \<Rightarrow> None | Some x \<Rightarrow> fst (get_unmarked (lf_next s x)))"

definition before_begin :: "'a lfl \<Rightarrow> addr option" where
  "before_begin s = Some (lf_head s)"

definition list_begin :: "'a lfl \<Rightarrow> addr option" where
  "list_begin s = iter_next s (before_begin s)"

fun insert_after_step :: "tid \<Rightarrow> lf_pc \<Rightarrow> 'a lfl \<Rightarrow> 'a lfl option" where
  "insert_after_step t (Ins_load a n) s =
     (let expected_next = lf_next s a in
      if is_marked expected_next then Some (lf_goto t (Ins_ret n False) s)
      else Some (lf_goto t (Ins_store a n expected_next) s))"
| "insert_after_step t (Ins_store a n expected_next) s =
     Some (lf_goto t (Ins_cas a n expected_next) (lf_write n expected_next s))"
| "insert_after_step t (Ins_cas a n expected_next) s =
     (if lf_next s a = expected_next
      then Some (lf_goto t (Ins_ret n True)
             ((lf_write a (Some n, False) s)
                \<lparr>lf_order := link_after a n (lf_order s), lf_done := lf_perform t (Link t a n) s\<rparr>))
      else Some (lf_goto t (Ins_load a n) s))"
| "insert_after_step t _ s = None"

fun erase_after_step :: "tid \<Rightarrow> lf_pc \<Rightarrow> 'a lfl \<Rightarrow> 'a lfl option" where
  "erase_after_step t (Er_load a) s =
     (case lf_next s a of
        (Some x, False) \<Rightarrow> Some (lf_goto t (Er_next a x) s)
      | _ \<Rightarrow> Some (lf_goto t (Er_ret False) s))"
| "erase_after_step t (Er_next a x) s = Some (lf_goto t (Er_mark a x (lf_next s x)) s)"
| "erase_after_step t (Er_mark a x target_next) s =
     (if is_marked target_next then Some (lf_goto t (Er_unlink a x target_next False) s)
      else if lf_next s x = target_next
      then Some (lf_goto t (Er_unlink a x (set_mark target_next) True)
             ((lf_write x (set_mark target_next) s)\<lparr>lf_done := lf_perform t (Unlink t x) s\<rparr>))
      else Some (lf_goto t (Er_mark a x (lf_next s x)) s))"
| "erase_after_step t (Er_unlink a x target_next marked_by_us) s =
     Some (lf_goto t (if marked_by_us then Er_ret True else Er_load a)
       (if lf_next s a = (Some x, False) then lf_write a (get_unmarked target_next) s else s))"
| "erase_after_step t _ s = None"

fun lf_at_rest :: "lf_pc \<Rightarrow> bool" where
  "lf_at_rest Lf_idle = True"
| "lf_at_rest (Ins_ret n b) = True"
| "lf_at_rest (Er_ret b) = True"
| "lf_at_rest _ = False"

text \<open>
  What a thread can do: take \<open>before_begin()\<close>, advance its iterator, copy another thread's
  iterator, call \<open>insert_after\<close> with a new node of a given value or \<open>erase_after\<close> with its
  iterator as the anchor, and perform the next access of the call it is in.  A null anchor makes
  both calls return false at once.
\<close>

datatype 'a lf_act =
    Lf_before_begin tid
  | Lf_inc tid
  | Lf_copy tid tid
  | Lf_insert tid 'a
  | Lf_erase tid
  | Lf_step tid

definition new_node :: "'a \<Rightarrow> 'a lfl \<Rightarrow> addr \<times> 'a lfl" where
  "new_node v s =
     (lf_alloc s, s\<lparr>lf_alloc := Suc (lf_alloc s), lf_value := (lf_value s)(lf_alloc s := v),
                    lf_next := (lf_next s)(lf_alloc s := (None, False))\<rparr>)"

definition lf_step :: "tid \<Rightarrow> lf_pc \<Rightarrow> 'a lfl \<Rightarrow> 'a lfl option" where
  "lf_step t p s = (case insert_after_step t p s of Some s' \<Rightarrow> Some s' | None \<Rightarrow> erase_after_step t p s)"

fun lf_call :: "'a lfl \<Rightarrow> 'a lf_act \<Rightarrow> 'a lfl option" where
  "lf_call s (Lf_before_begin t) = Some (s\<lparr>lf_iter := (lf_iter s)(t := before_begin s)\<rparr>)"
| "lf_call s (Lf_inc t) = Some (s\<lparr>lf_iter := (lf_iter s)(t := iter_next s (lf_iter s t))\<rparr>)"
| "lf_call s (Lf_copy t u) = Some (s\<lparr>lf_iter := (lf_iter s)(t := lf_iter s u)\<rparr>)"
| "lf_call s (Lf_insert t v) =
     (case new_node v s of (n, s1) \<Rightarrow>
        (case lf_iter s t of
           None \<Rightarrow> Some (lf_enter t (Ins_ret n False) s1)
         | Some a \<Rightarrow> Some (lf_enter t (Ins_load a n) s1)))"
| "lf_call s (Lf_erase t) =
     (case lf_iter s t of
        None \<Rightarrow> Some (lf_enter t (Er_ret False) s)
      | Some a \<Rightarrow> Some (lf_enter t (Er_load a) s))"
| "lf_call s (Lf_step t) = None"

fun lf_tid :: "'a lf_act \<Rightarrow> tid" where
  "lf_tid (Lf_before_begin t) = t"
| "lf_tid (Lf_inc t) = t"
| "lf_tid (Lf_copy t u) = t"
| "lf_tid (Lf_insert t v) = t"
| "lf_tid (Lf_erase t) = t"
| "lf_tid (Lf_step t) = t"

definition lf_exec :: "'a lfl \<Rightarrow> 'a lf_act \<Rightarrow> 'a lfl option" where
  "lf_exec s a =
     (if lf_at_rest (lf_pcs s (lf_tid a)) then lf_call s a
      else case a of Lf_step t \<Rightarrow> lf_step t (lf_pcs s t) s | _ \<Rightarrow> None)"

section \<open>The abstract list\<close>

text \<open>
  The nodes that are linked and not erased, in list order, and the atomic list they are compared
  with: a sequence of addresses with insertion after a present node and removal of a present node.
\<close>

definition live :: "'a lfl \<Rightarrow> addr \<Rightarrow> bool" where
  "live s x \<longleftrightarrow> \<not> is_marked (lf_next s x)"

definition live_nodes :: "'a lfl \<Rightarrow> addr list" where
  "live_nodes s = filter (live s) (lf_order s)"

fun alist_exec :: "addr list \<Rightarrow> list_op \<Rightarrow> addr list option" where
  "alist_exec xs (Link t a n) = (if a \<in> set xs \<and> n \<notin> set xs then Some (link_after a n xs) else None)"
| "alist_exec xs (Unlink t x) = (if x \<in> set xs then Some (remove1 x xs) else None)"

section \<open>Lists with insertion after an element\<close>

text \<open>\<open>after x xs\<close>: what follows \<open>x\<close>.\<close>

fun after :: "'b \<Rightarrow> 'b list \<Rightarrow> 'b list" where
  "after x [] = []"
| "after x (y # ys) = (if y = x then ys else after x ys)"

lemma set_link_after [simp]: "set (link_after a n xs) = set xs \<union> (if a \<in> set xs then {n} else {})"
  by (induction xs) auto

lemma distinct_link_after: "distinct xs \<Longrightarrow> n \<notin> set xs \<Longrightarrow> distinct (link_after a n xs)"
  by (induction xs) auto

lemma link_after_idle [simp]: "a \<notin> set xs \<Longrightarrow> link_after a n xs = xs"
  by (induction xs) auto

lemma link_after_Nil_iff [simp]: "link_after a n xs = [] \<longleftrightarrow> xs = []"
  by (cases xs) auto

lemma hd_link_after [simp]: "hd (link_after a n xs) = hd xs"
  by (cases xs) auto

lemma filter_link_after:
  "P a \<Longrightarrow> P n \<Longrightarrow> filter P (link_after a n xs) = link_after a n (filter P xs)"
  by (induction xs) auto

lemma set_after_subset: "set (after x xs) \<subseteq> set xs"
  by (induction xs) auto

lemma after_self: "distinct xs \<Longrightarrow> x \<notin> set (after x xs)"
  by (induction xs) auto

lemma after_notin [simp]: "x \<notin> set xs \<Longrightarrow> after x xs = []"
  by (induction xs) auto

lemma after_trans:
  "distinct xs \<Longrightarrow> y \<in> set (after x xs) \<Longrightarrow>
     after x xs = takeWhile (\<lambda>z. z \<noteq> y) (after x xs) @ y # after y xs"
proof (induction xs)
  case Nil
  then show ?case by simp
next
  case (Cons z zs)
  show ?case
  proof (cases "z = x")
    case True
    then have "y \<in> set zs" "z \<noteq> y" using Cons.prems by auto
    moreover have "y \<in> set ws \<Longrightarrow> ws = takeWhile (\<lambda>z. z \<noteq> y) ws @ y # after y ws" for ws
      by (induction ws) auto
    ultimately show ?thesis using True by auto
  next
    case False
    then have "y \<in> set (after x zs)" using Cons.prems by auto
    moreover from this have "z \<noteq> y" using Cons.prems set_after_subset [of x zs] by auto
    ultimately show ?thesis using Cons False by auto
  qed
qed

lemma after_link_after:
  assumes "distinct xs" and "n \<notin> set xs" and "a \<in> set xs"
  shows "after x (link_after a n xs) =
     (if x = a then n # after a xs else if x = n then after a xs else link_after a n (after x xs))"
  using assms
proof (induction xs)
  case Nil
  then show ?case by simp
next
  case (Cons y ys)
  have "y \<notin> set (after x ys)" using Cons.prems(1) set_after_subset [of x ys] by auto
  with Cons show ?case by (cases "a \<in> set ys") auto
qed

lemma takeWhile_link_after:
  "a \<notin> set (takeWhile (\<lambda>z. z \<noteq> y) xs) \<Longrightarrow> y \<in> set xs \<Longrightarrow>
     takeWhile (\<lambda>z. z \<noteq> y) (link_after a n xs) = takeWhile (\<lambda>z. z \<noteq> y) xs"
  by (induction xs) (auto split: if_splits)

section \<open>The invariant\<close>

text \<open>
  A word links \<open>x\<close> to a node further down the order, and skips only erased nodes; a null word
  means that nothing live follows.
\<close>

definition skips_dead :: "(addr \<Rightarrow> lword) \<Rightarrow> addr list \<Rightarrow> addr \<Rightarrow> bool" where
  "skips_dead nxt xs x = (case fst (nxt x) of
       None \<Rightarrow> (\<forall>m\<in>set (after x xs). is_marked (nxt m))
     | Some y \<Rightarrow> y \<in> set (after x xs) \<and>
                (\<forall>m\<in>set (takeWhile (\<lambda>z. z \<noteq> y) (after x xs)). is_marked (nxt m)))"

definition chain_ok :: "(addr \<Rightarrow> lword) \<Rightarrow> addr list \<Rightarrow> bool" where
  "chain_ok nxt xs \<longleftrightarrow> distinct xs \<and> xs \<noteq> [] \<and> \<not> is_marked (nxt (hd xs)) \<and> (\<forall>x\<in>set xs. skips_dead nxt xs x)"

fun lf_private :: "lf_pc \<Rightarrow> addr option" where
  "lf_private (Ins_load a n) = Some n"
| "lf_private (Ins_store a n e) = Some n"
| "lf_private (Ins_cas a n e) = Some n"
| "lf_private _ = None"

fun lf_pc_ok :: "'a lfl \<Rightarrow> lf_pc \<Rightarrow> bool" where
  "lf_pc_ok s (Ins_load a n) = (a \<in> set (lf_order s))"
| "lf_pc_ok s (Ins_store a n e) = (a \<in> set (lf_order s) \<and> \<not> is_marked e)"
| "lf_pc_ok s (Ins_cas a n e) = (a \<in> set (lf_order s) \<and> \<not> is_marked e \<and> lf_next s n = e)"
| "lf_pc_ok s (Er_load a) = (a \<in> set (lf_order s))"
| "lf_pc_ok s (Er_next a x) = (a \<in> set (lf_order s) \<and> x \<in> set (lf_order s) \<and> x \<noteq> lf_head s)"
| "lf_pc_ok s (Er_mark a x e) =
     (a \<in> set (lf_order s) \<and> x \<in> set (lf_order s) \<and> x \<noteq> lf_head s \<and> (is_marked e \<longrightarrow> lf_next s x = e))"
| "lf_pc_ok s (Er_unlink a x e b) =
     (a \<in> set (lf_order s) \<and> x \<in> set (lf_order s) \<and> is_marked e \<and> lf_next s x = e)"
| "lf_pc_ok s _ = True"

definition lf_owners :: "'a lfl \<Rightarrow> bool" where
  "lf_owners s \<longleftrightarrow>
     (\<forall>t n. lf_private (lf_pcs s t) = Some n \<longrightarrow> n < lf_alloc s \<and> n \<notin> set (lf_order s)) \<and>
     (\<forall>t u n. lf_private (lf_pcs s t) = Some n \<longrightarrow> lf_private (lf_pcs s u) = Some n \<longrightarrow> t = u)"

definition lf_inv :: "'a lfl \<Rightarrow> bool" where
  "lf_inv s \<longleftrightarrow> chain_ok (lf_next s) (lf_order s) \<and> hd (lf_order s) = lf_head s \<and>
     (\<forall>x\<in>set (lf_order s). x < lf_alloc s) \<and> lf_owners s \<and> (\<forall>t. lf_pc_ok s (lf_pcs s t)) \<and>
     (\<forall>t x. lf_iter s t = Some x \<longrightarrow> x \<in> set (lf_order s))"

section \<open>What each kind of write does to the chain\<close>

lemma skips_dead_cong:
  "nxt' x = nxt x \<Longrightarrow> (\<And>m. m \<in> set (after x xs) \<Longrightarrow> is_marked (nxt m) \<Longrightarrow> is_marked (nxt' m)) \<Longrightarrow>
     skips_dead nxt xs x \<Longrightarrow> skips_dead nxt' xs x"
  by (auto simp: skips_dead_def split: option.splits dest: set_takeWhileD)

lemma chain_private_write:
  assumes "chain_ok nxt xs" and "n \<notin> set xs"
  shows "chain_ok (nxt(n := w)) xs"
proof -
  have "skips_dead (nxt(n := w)) xs x" if "x \<in> set xs" for x
    by (rule skips_dead_cong [of _ _ nxt]) (use assms that set_after_subset [of x xs] in \<open>auto simp: chain_ok_def\<close>)
  then show ?thesis using assms hd_in_set [of xs] by (auto simp: chain_ok_def)
qed

lemma chain_mark:
  assumes "chain_ok nxt xs" and "x \<noteq> hd xs"
  shows "chain_ok (nxt(x := set_mark (nxt x))) xs"
proof -
  have "skips_dead (nxt(x := set_mark (nxt x))) xs y" if "y \<in> set xs" for y
    using assms(1) that by (auto simp: chain_ok_def skips_dead_def set_mark_def split: option.splits)
  then show ?thesis using assms by (auto simp: chain_ok_def)
qed

lemma chain_link:
  assumes c: "chain_ok nxt xs" and a: "a \<in> set xs" "\<not> is_marked (nxt a)"
    and n: "n \<notin> set xs" "nxt n = nxt a"
  shows "chain_ok (nxt(a := (Some n, False))) (link_after a n xs)"
proof -
  let ?nxt = "nxt(a := (Some n, False))" and ?xs = "link_after a n xs"
  have d: "distinct xs" and sk: "\<And>x. x \<in> set xs \<Longrightarrow> skips_dead nxt xs x"
    using c by (auto simp: chain_ok_def)
  note aft = after_link_after [OF d n(1) a(1)]
  have na: "n \<noteq> a" using a n by auto
  have "skips_dead ?nxt ?xs x" if x: "x \<in> set ?xs" for x
  proof -
    consider "x = a" | "x = n" | "x \<noteq> a" "x \<noteq> n" "x \<in> set xs" using x a by fastforce
    then show ?thesis
    proof cases
      case 1
      then show ?thesis by (simp add: skips_dead_def aft)
    next
      case 2
      have "a \<notin> set (after a xs)" using d by (rule after_self)
      then show ?thesis using 2 sk [OF a(1)] n na
        by (auto simp: skips_dead_def aft split: option.splits dest: set_takeWhileD)
    next
      case 3
      note s = sk [OF 3(3)]
      have y: "y \<in> set (after x xs) \<Longrightarrow> y \<noteq> n" for y using set_after_subset [of x xs] n(1) by auto
      show ?thesis
      proof (cases "fst (nxt x)")
        case None
        then have "a \<notin> set (after x xs)" using s a(2) by (auto simp: skips_dead_def)
        then show ?thesis using s 3 None by (auto simp: skips_dead_def aft)
      next
        case (Some y)
        then have "y \<in> set (after x xs)" "a \<notin> set (takeWhile (\<lambda>z. z \<noteq> y) (after x xs))"
          using s a(2) by (auto simp: skips_dead_def)
        then show ?thesis using s 3 Some by (auto simp: skips_dead_def aft takeWhile_link_after)
      qed
    qed
  qed
  moreover have "\<not> is_marked (?nxt (hd ?xs))" using c by (auto simp: chain_ok_def)
  moreover have "distinct ?xs" "?xs \<noteq> []" using c n distinct_link_after by (auto simp: chain_ok_def)
  ultimately show ?thesis by (auto simp: chain_ok_def)
qed

lemma chain_unlink:
  assumes c: "chain_ok nxt xs" and a: "a \<in> set xs" "nxt a = (Some x, False)"
    and x: "x \<in> set xs" "is_marked (nxt x)"
  shows "chain_ok (nxt(a := get_unmarked (nxt x))) xs"
proof -
  let ?nxt = "nxt(a := get_unmarked (nxt x))"
  have d: "distinct xs" and sk: "\<And>z. z \<in> set xs \<Longrightarrow> skips_dead nxt xs z"
    using c by (auto simp: chain_ok_def)
  have ax: "x \<in> set (after a xs)" "\<forall>m\<in>set (takeWhile (\<lambda>z. z \<noteq> x) (after a xs)). is_marked (nxt m)"
    using sk [OF a(1)] a(2) by (auto simp: skips_dead_def)
  note split_a = after_trans [OF d ax(1)]
  have dx: "distinct (after a xs)" using d by (induction xs) auto
  have notin: "a \<notin> set (after a xs)" using d by (rule after_self)
  have "skips_dead ?nxt xs a"
  proof (cases "fst (nxt x)")
    case None
    then have "\<forall>m\<in>set (after x xs). is_marked (nxt m)" using sk [OF x(1)] by (auto simp: skips_dead_def)
    then have "\<forall>m\<in>set (after a xs). is_marked (nxt m)" using ax(2) x(2) by (subst split_a) auto
    then show ?thesis using None notin by (auto simp: skips_dead_def get_unmarked_def)
  next
    case (Some y)
    then have y: "y \<in> set (after x xs)" "\<forall>m\<in>set (takeWhile (\<lambda>z. z \<noteq> y) (after x xs)). is_marked (nxt m)"
      using sk [OF x(1)] by (auto simp: skips_dead_def)
    have ya: "y \<in> set (after a xs)" using y(1) by (subst split_a) auto
    have "y \<notin> set (takeWhile (\<lambda>z. z \<noteq> x) (after a xs)) \<and> y \<noteq> x"
      using dx y(1) by (subst (asm) split_a) auto
    then have "takeWhile (\<lambda>z. z \<noteq> y) (after a xs) =
        takeWhile (\<lambda>z. z \<noteq> x) (after a xs) @ x # takeWhile (\<lambda>z. z \<noteq> y) (after x xs)"
      by (subst split_a, subst takeWhile_append2) auto
    then have "\<forall>m\<in>set (takeWhile (\<lambda>z. z \<noteq> y) (after a xs)). is_marked (nxt m)" using ax(2) x(2) y(2) by auto
    then show ?thesis using Some ya notin
      by (auto simp: skips_dead_def get_unmarked_def dest: set_takeWhileD)
  qed
  moreover have "skips_dead ?nxt xs z" if "z \<in> set xs" "z \<noteq> a" for z
    by (rule skips_dead_cong [OF _ _ sk [OF that(1)]]) (use that a(2) in \<open>auto simp: get_unmarked_def\<close>)
  ultimately show ?thesis using c by (auto simp: chain_ok_def get_unmarked_def)
qed

section \<open>Every step keeps the invariant\<close>

lemma lf_sel_simps [simp]:
  "lf_next (lf_goto t p s) = lf_next s" "lf_order (lf_goto t p s) = lf_order s"
  "lf_head (lf_goto t p s) = lf_head s" "lf_alloc (lf_goto t p s) = lf_alloc s"
  "lf_iter (lf_goto t p s) = lf_iter s" "lf_done (lf_goto t p s) = lf_done s"
  "lf_value (lf_goto t p s) = lf_value s" "lf_pcs (lf_goto t p s) = (lf_pcs s)(t := p)"
  "lf_next (lf_write x w s) = (lf_next s)(x := w)" "lf_order (lf_write x w s) = lf_order s"
  "lf_head (lf_write x w s) = lf_head s" "lf_alloc (lf_write x w s) = lf_alloc s"
  "lf_iter (lf_write x w s) = lf_iter s" "lf_done (lf_write x w s) = lf_done s"
  "lf_value (lf_write x w s) = lf_value s" "lf_pcs (lf_write x w s) = lf_pcs s"
  by (simp_all add: lf_goto_def lf_write_def)

lemma lf_pc_ok_mono:
  assumes "lf_pc_ok s p" and "set (lf_order s) \<subseteq> set (lf_order s')" and "lf_head s' = lf_head s"
    and "\<And>x. x \<in> set (lf_order s) \<Longrightarrow> is_marked (lf_next s x) \<Longrightarrow> lf_next s' x = lf_next s x"
    and "\<And>n. lf_private p = Some n \<Longrightarrow> lf_next s' n = lf_next s n"
  shows "lf_pc_ok s' p"
  using assms by (cases p) auto

lemma lf_invD:
  assumes "lf_inv s"
  shows "chain_ok (lf_next s) (lf_order s)" "hd (lf_order s) = lf_head s" "lf_pc_ok s (lf_pcs s t)"
    "lf_iter s t = Some x \<Longrightarrow> x \<in> set (lf_order s)" "x \<in> set (lf_order s) \<Longrightarrow> x < lf_alloc s"
    "lf_private (lf_pcs s t) = Some n \<Longrightarrow> n < lf_alloc s \<and> n \<notin> set (lf_order s)"
    "lf_private (lf_pcs s t) = Some n \<Longrightarrow> lf_private (lf_pcs s u) = Some n \<Longrightarrow> t = u"
  using assms by (auto simp: lf_inv_def lf_owners_def)

lemma lf_head_order: "lf_inv s \<Longrightarrow> lf_head s \<in> set (lf_order s)"
  using lf_invD(1,2) [of s] hd_in_set [of "lf_order s"] by (auto simp: chain_ok_def)

lemma lf_inv_upd:
  assumes inv: "lf_inv s"
    and same: "lf_alloc s' = lf_alloc s" "lf_head s' = lf_head s" "lf_iter s' = lf_iter s"
      "lf_pcs s' = (lf_pcs s)(t := p)"
    and chain: "chain_ok (lf_next s') (lf_order s')" "hd (lf_order s') = hd (lf_order s)"
    and order: "set (lf_order s) \<subseteq> set (lf_order s')"
      "\<And>x. x \<in> set (lf_order s') \<Longrightarrow> x \<notin> set (lf_order s) \<Longrightarrow> lf_private (lf_pcs s t) = Some x"
    and frozen: "\<And>x. x \<in> set (lf_order s) \<Longrightarrow> is_marked (lf_next s x) \<Longrightarrow> lf_next s' x = lf_next s x"
    and others: "\<And>x. x \<notin> set (lf_order s) \<Longrightarrow> lf_private (lf_pcs s t) \<noteq> Some x \<Longrightarrow> lf_next s' x = lf_next s x"
    and own: "lf_pc_ok s' p"
      "\<And>n. lf_private p = Some n \<Longrightarrow> lf_private (lf_pcs s t) = Some n \<and> n \<notin> set (lf_order s')"
  shows "lf_inv s'"
proof -
  note I = lf_invD [OF inv]
  have "lf_pc_ok s' (lf_pcs s' u)" for u
  proof (cases "u = t")
    case False
    have "lf_next s' n = lf_next s n" if "lf_private (lf_pcs s u) = Some n" for n
      using I(6) [OF that] I(7) [OF that] False others by blast
    then show ?thesis
      using lf_pc_ok_mono [OF I(3) [of u] order(1) same(2) frozen] False same(4) by simp
  qed (use own same in simp)
  moreover have "lf_owners s'"
    unfolding lf_owners_def same
  proof (intro conjI allI impI)
    fix u n assume u: "lf_private (((lf_pcs s)(t := p)) u) = Some n"
    then show "n < lf_alloc s" using I(6) own(2) by (auto split: if_splits)
    show "n \<notin> set (lf_order s')"
      using u own(2) I(6) [of u n] I(7) [of u n t] order(2) by (auto split: if_splits)
  next
    fix u v n
    assume "lf_private (((lf_pcs s)(t := p)) u) = Some n" "lf_private (((lf_pcs s)(t := p)) v) = Some n"
    then show "u = v" using I(7) own(2) by (auto split: if_splits)
  qed
  moreover have "x < lf_alloc s'" if "x \<in> set (lf_order s')" for x
    using that order(2) [of x] I(5) [of x] I(6) [of t x] same(1) by auto
  ultimately show ?thesis
    using I(2,4) chain order(1) same(2,3) by (auto simp: lf_inv_def)
qed

lemma live_nodes_cong:
  "lf_order s' = lf_order s \<Longrightarrow> (\<And>x. x \<in> set (lf_order s) \<Longrightarrow> live s' x = live s x) \<Longrightarrow> live_nodes s' = live_nodes s"
  by (simp add: live_nodes_def cong: filter_cong)

lemma lf_inv_goto:
  assumes "lf_inv s" and "lf_pc_ok s p"
    and "\<And>n. lf_private p = Some n \<Longrightarrow> lf_private (lf_pcs s t) = Some n"
  shows "lf_inv (lf_goto t p s)"
proof -
  have "lf_pc_ok (lf_goto t p s) p" by (rule lf_pc_ok_mono [OF assms(2)]) simp_all
  then show ?thesis
    by (intro lf_inv_upd [where t = t and p = p, OF assms(1)])
       (use lf_invD(1) [OF assms(1)] lf_invD(6) [OF assms(1), of t] assms(3) in \<open>auto\<close>)
qed

lemma lf_private_write:
  assumes inv: "lf_inv s" and p: "lf_pcs s t = Ins_store a n e"
  shows "lf_inv (lf_goto t (Ins_cas a n e) (lf_write n e s))"
proof (rule lf_inv_upd [where t = t and p = "Ins_cas a n e", OF inv])
  note I = lf_invD [OF inv]
  have n: "n \<notin> set (lf_order s)" using I(6) [of t n] p by simp
  have ok: "a \<in> set (lf_order s)" "\<not> is_marked e" using I(3) [of t] p by auto
  show "chain_ok (lf_next (lf_goto t (Ins_cas a n e) (lf_write n e s)))
     (lf_order (lf_goto t (Ins_cas a n e) (lf_write n e s)))"
    using chain_private_write [OF I(1) n] by simp
qed (use p lf_invD(3) [OF inv, of t] lf_invD(6) [OF inv, of t n] in \<open>auto\<close>)

lemma link_linearizes:
  assumes inv: "lf_inv s" and p: "lf_pcs s t = Ins_cas a n e" and e: "lf_next s a = e"
    and s': "s' = lf_goto t (Ins_ret n True) ((lf_write a (Some n, False) s)
                \<lparr>lf_order := link_after a n (lf_order s), lf_done := lf_perform t (Link t a n) s\<rparr>)"
  shows "lf_inv s' \<and> alist_exec (live_nodes s) (Link t a n) = Some (live_nodes s')"
proof -
  note I = lf_invD [OF inv]
  have n: "n \<notin> set (lf_order s)" using I(6) [of t n] p by simp
  have ok: "a \<in> set (lf_order s)" "\<not> is_marked (lf_next s a)" "lf_next s n = lf_next s a" using I(3) [of t] p e by auto
  have na: "n \<noteq> a" using n ok by auto
  have "live_nodes s' = filter (live s) (link_after a n (lf_order s))"
    unfolding live_nodes_def by (rule filter_cong) (use s' ok in \<open>auto simp: live_def\<close>)
  also have "\<dots> = link_after a n (live_nodes s)"
    using ok by (simp add: filter_link_after live_nodes_def live_def)
  finally have L: "live_nodes s' = link_after a n (live_nodes s)" .
  have ex: "alist_exec (live_nodes s) (Link t a n) = Some (live_nodes s')"
    using ok n L by (simp add: live_nodes_def live_def)
  have "lf_inv s'"
  proof (rule lf_inv_upd [where t = t and p = "Ins_ret n True", OF inv])
    show "chain_ok (lf_next s') (lf_order s')"
      using chain_link [OF I(1) ok(1,2) n ok(3)] s' by simp
  qed (use s' p ok n in \<open>auto split: if_splits\<close>)
  with ex show ?thesis by simp
qed

lemma mark_linearizes:
  assumes inv: "lf_inv s" and p: "lf_pcs s t = Er_mark a x e" and e: "lf_next s x = e" "\<not> is_marked e"
    and s': "s' = lf_goto t (Er_unlink a x (set_mark e) True)
             ((lf_write x (set_mark e) s)\<lparr>lf_done := lf_perform t (Unlink t x) s\<rparr>)"
  shows "lf_inv s' \<and> alist_exec (live_nodes s) (Unlink t x) = Some (live_nodes s')"
proof -
  note I = lf_invD [OF inv]
  have ok: "a \<in> set (lf_order s)" "x \<in> set (lf_order s)" "x \<noteq> lf_head s" using I(3) [of t] p by auto
  have d: "distinct (lf_order s)" using I(1) by (simp add: chain_ok_def)
  have "live_nodes s' = filter (\<lambda>y. y \<noteq> x) (live_nodes s)"
    by (simp add: live_nodes_def s' live_def set_mark_def) (rule filter_cong, auto simp: live_def)
  also have "\<dots> = remove1 x (live_nodes s)"
    using d by (simp add: live_nodes_def distinct_remove1_removeAll removeAll_filter_not_eq) (metis (mono_tags, lifting))
  finally have ex: "alist_exec (live_nodes s) (Unlink t x) = Some (live_nodes s')"
    using ok e by (simp add: live_nodes_def live_def)
  have "lf_inv s'"
  proof (rule lf_inv_upd [where t = t and p = "Er_unlink a x (set_mark e) True", OF inv])
    show "chain_ok (lf_next s') (lf_order s')"
      using chain_mark [OF I(1), of x] ok I(2) e s' by simp
  qed (use s' p ok e in \<open>auto simp: set_mark_def\<close>)
  with ex show ?thesis by simp
qed

lemma unlink_stutters:
  assumes inv: "lf_inv s" and p: "lf_pcs s t = Er_unlink a x e b"
    and s': "s' = lf_goto t (if b then Er_ret True else Er_load a)
       (if lf_next s a = (Some x, False) then lf_write a (get_unmarked e) s else s)"
  shows "lf_inv s' \<and> live_nodes s' = live_nodes s"
proof -
  note I = lf_invD [OF inv]
  have ok: "a \<in> set (lf_order s)" "x \<in> set (lf_order s)" "is_marked e" "lf_next s x = e"
    using I(3) [of t] p by auto
  have L: "live_nodes s' = live_nodes s"
    by (rule live_nodes_cong) (auto simp: s' live_def get_unmarked_def)
  have "lf_inv s'"
  proof (rule lf_inv_upd [where t = t and p = "if b then Er_ret True else Er_load a", OF inv])
    show "chain_ok (lf_next s') (lf_order s')"
      using chain_unlink [OF I(1) ok(1) _ ok(2)] ok(3,4) I(1) s' by auto
  qed (use s' p ok in \<open>auto split: if_splits\<close>)
  with L show ?thesis by simp
qed

lemma lf_step_cases:
  assumes "lf_step t p s = Some s'"
  obtains (insert) "insert_after_step t p s = Some s'" | (erase) "erase_after_step t p s = Some s'"
  using assms by (auto simp: lf_step_def split: option.splits)

text \<open>The operation that a step performs on the abstract list, if it performs one.\<close>

fun lf_lin_pc :: "tid \<Rightarrow> lf_pc \<Rightarrow> 'a lfl \<Rightarrow> list_op option" where
  "lf_lin_pc t (Ins_cas a n e) s = (if lf_next s a = e then Some (Link t a n) else None)"
| "lf_lin_pc t (Er_mark a x e) s = (if \<not> is_marked e \<and> lf_next s x = e then Some (Unlink t x) else None)"
| "lf_lin_pc t _ s = None"

definition lf_lin :: "'a lfl \<Rightarrow> 'a lf_act \<Rightarrow> list_op option" where
  "lf_lin s a = (case a of Lf_step t \<Rightarrow> lf_lin_pc t (lf_pcs s t) s | _ \<Rightarrow> None)"

definition lf_effect :: "list_op option \<Rightarrow> 'a lfl \<Rightarrow> 'a lfl \<Rightarrow> bool" where
  "lf_effect b s s' = (case b of
       None \<Rightarrow> live_nodes s' = live_nodes s
     | Some b \<Rightarrow> alist_exec (live_nodes s) b = Some (live_nodes s'))"

lemma lf_goto_effect [simp]: "lf_effect None s (lf_goto t p s)"
  by (auto simp: lf_effect_def live_def intro: live_nodes_cong)

lemma chain_next_order:
  assumes "chain_ok nxt xs" and "x \<in> set xs" and "nxt x = (Some y, b)"
  shows "y \<in> set xs" "y \<noteq> hd xs"
proof -
  have y: "y \<in> set (after x xs)" using assms by (auto simp: chain_ok_def skips_dead_def dest!: bspec)
  then show "y \<in> set xs" using set_after_subset by fastforce
  have "hd xs \<notin> set (after x xs)"
    using assms(1) set_after_subset [of x "tl xs"] by (cases xs) (auto simp: chain_ok_def)
  with y show "y \<noteq> hd xs" by auto
qed

lemma insert_step_inv:
  assumes inv: "lf_inv s" and st: "insert_after_step t (lf_pcs s t) s = Some s'"
  shows "lf_inv s' \<and> lf_effect (lf_lin_pc t (lf_pcs s t) s) s s'"
proof (cases "lf_pcs s t")
  case (Ins_load a n)
  then show ?thesis using st inv lf_invD(3) [OF inv, of t]
    by (auto simp: Let_def intro!: lf_inv_goto split: if_splits)
next
  case (Ins_store a n e)
  have "live_nodes (lf_goto t (Ins_cas a n e) (lf_write n e s)) = live_nodes s"
    by (rule live_nodes_cong) (use lf_invD(6) [OF inv, of t n] Ins_store in \<open>auto simp: live_def\<close>)
  then show ?thesis using st inv Ins_store lf_private_write [OF inv Ins_store] by (auto simp: lf_effect_def)
next
  case (Ins_cas a n e)
  show ?thesis
  proof (cases "lf_next s a = e")
    case True
    then show ?thesis using st Ins_cas link_linearizes [OF inv Ins_cas True] by (auto simp: lf_effect_def)
  next
    case False
    then show ?thesis using st Ins_cas inv lf_invD(3) [OF inv, of t] by (auto intro!: lf_inv_goto)
  qed
qed (use st in simp_all)

lemma erase_step_inv:
  assumes inv: "lf_inv s" and st: "erase_after_step t (lf_pcs s t) s = Some s'"
  shows "lf_inv s' \<and> lf_effect (lf_lin_pc t (lf_pcs s t) s) s s'"
proof (cases "lf_pcs s t")
  case (Er_load a)
  then have "a \<in> set (lf_order s)" using lf_invD(3) [OF inv, of t] by simp
  note nx = chain_next_order [OF lf_invD(1) [OF inv] this]
  then show ?thesis using st Er_load inv lf_invD(2) [OF inv] lf_invD(3) [OF inv, of t]
    by (auto intro!: lf_inv_goto split: prod.splits option.splits bool.splits)
next
  case (Er_next a x)
  then show ?thesis using st inv lf_invD(3) [OF inv, of t] by (auto intro!: lf_inv_goto)
next
  case (Er_mark a x e)
  show ?thesis
  proof (cases "\<not> is_marked e \<and> lf_next s x = e")
    case True
    then show ?thesis using st Er_mark mark_linearizes [OF inv Er_mark] by (auto simp: lf_effect_def)
  next
    case False
    then show ?thesis using st Er_mark inv lf_invD(3) [OF inv, of t]
      by (auto intro!: lf_inv_goto split: if_splits)
  qed
next
  case (Er_unlink a x e b)
  then show ?thesis using st unlink_stutters [OF inv Er_unlink] by (auto simp: lf_effect_def)
qed (use st in simp_all)

lemma lf_inv_iter:
  assumes "lf_inv s" and "\<And>x. p = Some x \<Longrightarrow> x \<in> set (lf_order s)"
  shows "lf_inv (s\<lparr>lf_iter := (lf_iter s)(t := p)\<rparr>) \<and> lf_effect None s (s\<lparr>lf_iter := (lf_iter s)(t := p)\<rparr>)"
proof -
  let ?s = "s\<lparr>lf_iter := (lf_iter s)(t := p)\<rparr>"
  have L: "live_nodes ?s = live_nodes s" by (rule live_nodes_cong) (simp_all add: live_def)
  have "lf_pc_ok ?s q" if "lf_pc_ok s q" for q by (rule lf_pc_ok_mono [OF that]) simp_all
  then show ?thesis using assms L by (auto simp: lf_inv_def lf_owners_def lf_effect_def)
qed

lemma lf_inv_new_node:
  assumes "lf_inv s"
  shows "lf_inv (snd (new_node v s)) \<and> live_nodes (snd (new_node v s)) = live_nodes s"
proof -
  let ?s = "snd (new_node v s)" and ?n = "lf_alloc s"
  have sel: "lf_order ?s = lf_order s" "lf_pcs ?s = lf_pcs s" "lf_iter ?s = lf_iter s" "lf_head ?s = lf_head s"
    "lf_alloc ?s = Suc ?n" "lf_next ?s = (lf_next s)(?n := (None, False))"
    by (simp_all add: new_node_def)
  have n: "?n \<notin> set (lf_order s)" using lf_invD(5) [OF assms] by blast
  have L: "live_nodes ?s = live_nodes s" by (rule live_nodes_cong) (use n in \<open>auto simp: sel live_def\<close>)
  have "lf_pc_ok ?s (lf_pcs s u)" for u
    by (rule lf_pc_ok_mono [OF lf_invD(3) [OF assms]])
       (use lf_invD(6) [OF assms, of u] n in \<open>auto simp: sel\<close>)
  moreover have "chain_ok (lf_next ?s) (lf_order ?s)"
    using chain_private_write [OF lf_invD(1) [OF assms] n] by (simp add: sel)
  moreover have "lf_owners ?s" using lf_invD(6,7) [OF assms] by (fastforce simp: lf_owners_def sel)
  ultimately show ?thesis
    using L lf_invD(2,4,5) [OF assms] by (auto simp: lf_inv_def sel less_SucI)
qed

lemma lf_inv_enter:
  assumes "lf_inv s" and "lf_pc_ok s p" and "lf_at_rest (lf_pcs s t)"
    and "\<And>n. lf_private p = Some n \<Longrightarrow> n < lf_alloc s \<and> n \<notin> set (lf_order s) \<and> (\<forall>u. lf_private (lf_pcs s u) \<noteq> Some n)"
  shows "lf_inv (lf_enter t p s) \<and> live_nodes (lf_enter t p s) = live_nodes s"
proof -
  let ?s = "lf_enter t p s"
  have sel: "lf_order ?s = lf_order s" "lf_pcs ?s = (lf_pcs s)(t := p)" "lf_iter ?s = lf_iter s" "lf_head ?s = lf_head s"
    "lf_alloc ?s = lf_alloc s" "lf_next ?s = lf_next s"
    by (simp_all add: lf_enter_def)
  have "lf_pc_ok ?s q" if "lf_pc_ok s q" for q by (rule lf_pc_ok_mono [OF that]) (simp_all add: sel)
  moreover have "lf_owners ?s"
    using lf_invD(6,7) [OF assms(1)] assms(4) by (auto simp: lf_owners_def sel)
  ultimately have "lf_inv ?s"
    using assms(1,2) by (auto simp: lf_inv_def sel)
  moreover have "live_nodes ?s = live_nodes s" by (rule live_nodes_cong) (simp_all add: sel live_def)
  ultimately show ?thesis by simp
qed

lemma lf_call_inv:
  assumes inv: "lf_inv s" and rest: "lf_at_rest (lf_pcs s (lf_tid a))" and st: "lf_call s a = Some s'"
  shows "lf_inv s' \<and> live_nodes s' = live_nodes s"
proof (cases a)
  case (Lf_before_begin t)
  then show ?thesis using st lf_inv_iter [OF inv, of "before_begin s" t] lf_head_order [OF inv]
    by (auto simp: before_begin_def lf_effect_def)
next
  case (Lf_inc t)
  have "x \<in> set (lf_order s)" if "iter_next s (lf_iter s t) = Some x" for x
    using that lf_invD(4) [OF inv, of t] chain_next_order(1) [OF lf_invD(1) [OF inv]]
    by (auto simp: iter_next_def get_unmarked_def split: option.splits) (metis prod.collapse)
  then show ?thesis using Lf_inc st lf_inv_iter [OF inv, of "iter_next s (lf_iter s t)" t] by (auto simp: lf_effect_def)
next
  case (Lf_copy t u)
  then show ?thesis using st lf_inv_iter [OF inv, of "lf_iter s u" t] lf_invD(4) [OF inv, of u]
    by (auto simp: lf_effect_def)
next
  case (Lf_insert t v)
  let ?s1 = "snd (new_node v s)"
  have sel: "lf_order ?s1 = lf_order s" "lf_pcs ?s1 = lf_pcs s" "lf_iter ?s1 = lf_iter s" "lf_alloc ?s1 = Suc (lf_alloc s)"
    by (simp_all add: new_node_def)
  note N = lf_inv_new_node [OF inv, of v]
  have fresh: "lf_alloc s < Suc (lf_alloc s) \<and> lf_alloc s \<notin> set (lf_order s) \<and> (\<forall>u. lf_private (lf_pcs s u) \<noteq> Some (lf_alloc s))"
    using lf_invD(5,6) [OF inv] by blast
  have "lf_inv (lf_enter t p ?s1) \<and> live_nodes (lf_enter t p ?s1) = live_nodes ?s1"
    if "p = Ins_ret (lf_alloc s) False \<or> (\<exists>x. lf_iter s t = Some x \<and> p = Ins_load x (lf_alloc s))" for p
    by (rule lf_inv_enter) (use that N rest Lf_insert fresh lf_invD(4) [OF inv, of t] in \<open>auto simp: sel\<close>)
  then show ?thesis using st N Lf_insert by (auto simp: new_node_def split: option.splits)
next
  case (Lf_erase t)
  have "lf_inv (lf_enter t p s) \<and> live_nodes (lf_enter t p s) = live_nodes s"
    if "p = Er_ret False \<or> (\<exists>x. lf_iter s t = Some x \<and> p = Er_load x)" for p
    by (rule lf_inv_enter) (use that rest Lf_erase lf_invD(4) [OF inv, of t] inv in \<open>auto\<close>)
  then show ?thesis using st Lf_erase by (auto split: option.splits)
qed (use st in simp)

lemma lf_exec_inv:
  assumes inv: "lf_inv s" and st: "lf_exec s a = Some s'"
  shows "lf_inv s' \<and> lf_effect (lf_lin s a) s s'"
proof (cases "lf_at_rest (lf_pcs s (lf_tid a))")
  case True
  have "lf_lin s a = None"
  proof (cases a)
    case (Lf_step t)
    then show ?thesis using True by (cases "lf_pcs s t") (auto simp: lf_lin_def)
  qed (simp_all add: lf_lin_def)
  then show ?thesis using True st lf_call_inv [OF inv True] by (simp add: lf_exec_def lf_effect_def)
next
  case False
  then obtain t where a: "a = Lf_step t" and "lf_step t (lf_pcs s t) s = Some s'"
    using st by (auto simp: lf_exec_def split: lf_act.splits)
  from this(2) show ?thesis
    by (cases rule: lf_step_cases)
       (use a insert_step_inv [OF inv] erase_step_inv [OF inv] in \<open>simp_all add: lf_lin_def\<close>)
qed

interpretation lfi: machine_invariant lf_exec lf_inv
  by unfold_locales (use lf_exec_inv in blast)

interpretation lfr: machine_refinement lf_exec lf_inv alist_exec live_nodes lf_lin
  by unfold_locales (use lf_exec_inv in \<open>fastforce simp: lf_effect_def\<close>)+

lemma lf_construct_inv: "lf_inv (lf_construct v)"
  by (simp add: lf_inv_def lf_construct_def lf_owners_def chain_ok_def skips_dead_def)

end
