(* ===== verification/Lock_Free_List_Spec.thy ===== *)
theory Lock_Free_List_Spec
  imports Lock_Free_List
begin

text \<open>
  The properties of the lock-free list: linearizability of \<open>insert_after\<close> and \<open>erase_after\<close>, the
  exact meaning of their answers, traversal through erased nodes, and what one thread running
  alone achieves.
\<close>

section \<open>What the calls return\<close>

fun lf_result_ok :: "tid \<Rightarrow> lf_pc \<Rightarrow> list_op list \<Rightarrow> bool" where
  "lf_result_ok t (Ins_ret n b) d = (if b then (\<exists>a. d = [Link t a n]) else d = [])"
| "lf_result_ok t (Er_ret b) d = (if b then (\<exists>x. d = [Unlink t x]) else d = [])"
| "lf_result_ok t (Er_unlink a x e b) d = (d = (if b then [Unlink t x] else []))"
| "lf_result_ok t _ d = (d = [])"

definition lf_results :: "'a lfl \<Rightarrow> bool" where
  "lf_results s \<longleftrightarrow> (\<forall>t. lf_result_ok t (lf_pcs s t) (lf_done s t))"

lemma lf_results_upd:
  assumes "lf_results s" and "lf_pcs s' = (lf_pcs s)(t := p)" and "\<And>u. u \<noteq> t \<Longrightarrow> lf_done s' u = lf_done s u"
    and "lf_result_ok t p (lf_done s' t)"
  shows "lf_results s'"
  using assms by (auto simp: lf_results_def)

lemma lf_exec_results:
  assumes R: "lf_results s" and st: "lf_exec s a = Some s'"
  shows "lf_results s'"
proof (cases "lf_at_rest (lf_pcs s (lf_tid a))")
  case True
  show ?thesis
  proof (cases a)
    case (Lf_insert t v)
    then show ?thesis using st True R
      by (intro lf_results_upd [OF R, of _ t "lf_pcs s' t"])
         (auto simp: lf_exec_def new_node_def lf_enter_def split: option.splits)
  next
    case (Lf_erase t)
    then show ?thesis using st True R
      by (intro lf_results_upd [OF R, of _ t "lf_pcs s' t"])
         (auto simp: lf_exec_def lf_enter_def split: option.splits)
  qed (use R st True in \<open>auto simp: lf_exec_def lf_results_def\<close>)
next
  case False
  then obtain t where st: "lf_step t (lf_pcs s t) s = Some s'"
    using st by (auto simp: lf_exec_def split: lf_act.splits)
  have ok: "lf_result_ok t (lf_pcs s t) (lf_done s t)" using R by (auto simp: lf_results_def)
  from st show ?thesis
  proof (cases rule: lf_step_cases)
    case insert
    then show ?thesis using ok
      by (intro lf_results_upd [OF R, of _ t "lf_pcs s' t"]; cases "lf_pcs s t")
         (auto simp: Let_def lf_perform_def split: if_splits)
  next
    case erase
    then show ?thesis using ok
      by (intro lf_results_upd [OF R, of _ t "lf_pcs s' t"]; cases "lf_pcs s t")
         (auto simp: Let_def lf_perform_def split: if_splits prod.splits option.splits bool.splits)
  qed
qed

interpretation lfres: machine_invariant lf_exec lf_results
  by unfold_locales (rule lf_exec_results)

lemma lf_reachable:
  assumes "run lf_exec (lf_construct v) as = Some s"
  shows "lf_inv s" "lf_results s"
  using lfi.run_Inv [OF lf_construct_inv assms] lfres.run_Inv [OF _ assms]
  by (auto simp: lf_results_def lf_construct_def)

section \<open>Traversal\<close>

text \<open>The nodes an iterator visits from \<open>it\<close> on; \<open>None\<close> when \<open>fuel\<close> steps do not reach the end.\<close>

fun lf_walk :: "nat \<Rightarrow> 'a lfl \<Rightarrow> addr option \<Rightarrow> addr list option" where
  "lf_walk fuel s None = Some []"
| "lf_walk 0 s (Some x) = None"
| "lf_walk (Suc fuel) s (Some x) = map_option (Cons x) (lf_walk fuel s (iter_next s (Some x)))"

lemma after_length: "x \<in> set xs \<Longrightarrow> length (after x xs) < length xs"
  by (induction xs) auto

lemma after_length_less: "distinct xs \<Longrightarrow> y \<in> set (after x xs) \<Longrightarrow> length (after y xs) < length (after x xs)"
  by (subst (2) after_trans) auto

lemma lf_walk_from:
  assumes inv: "lf_inv s"
  shows "x \<in> set (lf_order s) \<Longrightarrow> length (after x (lf_order s)) \<le> k \<Longrightarrow>
    \<exists>ys. lf_walk (Suc k) s (Some x) = Some (x # ys) \<and> set ys \<subseteq> set (after x (lf_order s)) \<and>
         filter (live s) ys = filter (live s) (after x (lf_order s)) \<and> distinct ys"
proof (induction k arbitrary: x rule: less_induct)
  case (less k)
  have d: "distinct (lf_order s)" and sk: "skips_dead (lf_next s) (lf_order s) x"
    using lf_invD(1) [OF inv] less.prems(1) by (auto simp: chain_ok_def)
  show ?case
  proof (cases "fst (lf_next s x)")
    case None
    then show ?thesis using sk by (auto simp: iter_next_def get_unmarked_def skips_dead_def live_def filter_empty_conv)
  next
    case (Some y)
    then have y: "y \<in> set (after x (lf_order s))"
      "\<forall>m\<in>set (takeWhile (\<lambda>z. z \<noteq> y) (after x (lf_order s))). \<not> live s m"
      using sk by (auto simp: skips_dead_def live_def)
    note split_x = after_trans [OF d y(1)]
    have lt: "length (after y (lf_order s)) < length (after x (lf_order s))"
      using after_length_less [OF d y(1)] .
    then obtain j where j: "k = Suc j" using less.prems(2) by (cases k) auto
    then have "j < k" "length (after y (lf_order s)) \<le> j" using lt less.prems(2) by simp_all
    moreover have "y \<in> set (lf_order s)" using y(1) set_after_subset by fastforce
    ultimately obtain ys where ys: "lf_walk (Suc j) s (Some y) = Some (y # ys)"
        "set ys \<subseteq> set (after y (lf_order s))" "filter (live s) ys = filter (live s) (after y (lf_order s))" "distinct ys"
      using less.IH by metis
    have "filter (live s) (takeWhile (\<lambda>z. z \<noteq> y) (after x (lf_order s))) = []"
      using y(2) by (simp add: filter_empty_conv)
    then have "filter (live s) (after x (lf_order s)) = filter (live s) (y # ys)"
      using ys(3) by (subst split_x) simp
    moreover have "set (y # ys) \<subseteq> set (after x (lf_order s))" using ys(2) by (subst split_x) auto
    moreover have "distinct (y # ys)" using ys(2,4) after_self [OF d, of y] by auto
    moreover have "lf_walk (Suc k) s (Some x) = Some (x # y # ys)"
      using ys(1) Some j by (simp add: iter_next_def get_unmarked_def)
    ultimately show ?thesis by metis
  qed
qed

text \<open>From \<open>before_begin()\<close> a walk of at most as many steps as nodes were created finds exactly the live nodes.\<close>

lemma lf_walk_head:
  assumes inv: "lf_inv s"
  shows "\<exists>xs. lf_walk (lf_alloc s) s (before_begin s) = Some xs \<and> distinct xs \<and> filter (live s) xs = live_nodes s"
proof -
  have d: "distinct (lf_order s)" using lf_invD(1) [OF inv] by (simp add: chain_ok_def)
  note h = lf_head_order [OF inv]
  have ord: "lf_order s = lf_head s # after (lf_head s) (lf_order s)"
    using lf_invD(2) [OF inv] h by (cases "lf_order s") auto
  have "card (set (lf_order s)) \<le> card {..<lf_alloc s}" using lf_invD(5) [OF inv] by (intro card_mono) auto
  then have "length (lf_order s) \<le> lf_alloc s" using d by (simp add: distinct_card)
  moreover have "length (after (lf_head s) (lf_order s)) < length (lf_order s)" by (rule after_length [OF h])
  ultimately obtain k where k: "lf_alloc s = Suc k" "length (after (lf_head s) (lf_order s)) \<le> k"
    by (cases "lf_alloc s") auto
  obtain ys where ys: "lf_walk (Suc k) s (Some (lf_head s)) = Some (lf_head s # ys)"
      "set ys \<subseteq> set (after (lf_head s) (lf_order s))"
      "filter (live s) ys = filter (live s) (after (lf_head s) (lf_order s))" "distinct ys"
    using lf_walk_from [OF inv h k(2)] by blast
  have "filter (live s) (lf_head s # ys) = live_nodes s"
    using ys(3) ord unfolding live_nodes_def by (metis filter.simps(2))
  moreover have "distinct (lf_head s # ys)" using ys(2,4) after_self [OF d, of "lf_head s"] by auto
  ultimately show ?thesis using ys(1) k(1) by (auto simp: before_begin_def)
qed

section \<open>Linearizability\<close>

text \<open>
  A schedule for the witnesses: thread 1 inserts 10 at the front, thread 2 then erases the front node
  while thread 1 inserts 20, and both calls overlap.
\<close>

definition lf_demo :: "nat lf_act list" where
  "lf_demo = [Lf_before_begin 1, Lf_before_begin 2, Lf_insert 1 10, Lf_step 1, Lf_step 1, Lf_step 1,
     Lf_erase 2, Lf_step 2, Lf_insert 1 20, Lf_step 1, Lf_step 2, Lf_step 2, Lf_step 1, Lf_step 1, Lf_step 2]"

lemmas lf_eval = lf_demo_def lf_construct_def lf_exec_def lf_step_def lf_goto_def lf_write_def lf_enter_def
  lf_perform_def new_node_def before_begin_def iter_next_def get_unmarked_def set_mark_def Let_def
  lf_lin_def live_nodes_def live_def

text \<open>What a call records as performed is an operation of the schedule's trace.\<close>

lemma lf_done_traced:
  "run lf_exec s as = Some s' \<Longrightarrow> set (lf_done s' t) \<subseteq> set (lf_done s t) \<union> set (lin_trace lf_exec lf_lin s as)"
proof (induction as arbitrary: s)
  case Nil
  then show ?case by simp
next
  case (Cons a as)
  then obtain u where u: "lf_exec s a = Some u" "run lf_exec u as = Some s'" by (auto split: option.splits)
  have "set (lf_done u t) \<subseteq> set (lf_done s t) \<union> set_option (lf_lin s a)"
  proof (cases "lf_at_rest (lf_pcs s (lf_tid a))")
    case True
    then show ?thesis using u(1)
      by (cases a) (auto simp: lf_exec_def new_node_def lf_enter_def split: option.splits if_splits)
  next
    case False
    then obtain v where a: "a = Lf_step v" and "lf_step v (lf_pcs s v) s = Some u"
      using u(1) by (auto simp: lf_exec_def split: lf_act.splits)
    from this(2) show ?thesis
      by (cases rule: lf_step_cases; cases "lf_pcs s v")
         (auto simp: a lf_lin_def Let_def lf_perform_def split: if_splits prod.splits option.splits bool.splits)
  qed
  with Cons.IH [OF u(2)] u(1) show ?case by (cases "lf_lin s a") auto
qed

text \<open>
  C9.  Linearizability: whatever the interleaving of the threads' accesses, following the next words from
  \<open>before_begin()\<close> reaches the end, visits no node twice, and the nodes found that are not erased are at
  every moment the list obtained by performing, in the order the calls took effect, each
  \<open>insert_after\<close> as one insertion directly behind its anchor and each \<open>erase_after\<close> as one removal.  A call
  that returned true performed exactly one such operation of its own (the insertion of its node, the removal
  of a node), a call that returned false performed none.
\<close>

theorem lf_list_linearizable:
  assumes "run lf_exec (lf_construct v) as = Some s"
  shows "(\<exists>xs. lf_walk (lf_alloc s) s (before_begin s) = Some xs \<and> distinct xs \<and>
            run alist_exec [0] (lin_trace lf_exec lf_lin (lf_construct v) as) = Some (filter (live s) xs)) \<and>
         (\<forall>t n. lf_pcs s t = Ins_ret n True \<longrightarrow>
            (\<exists>a. lf_done s t = [Link t a n] \<and> Link t a n \<in> set (lin_trace lf_exec lf_lin (lf_construct v) as))) \<and>
         (\<forall>t. lf_pcs s t = Er_ret True \<longrightarrow>
            (\<exists>x. lf_done s t = [Unlink t x] \<and> Unlink t x \<in> set (lin_trace lf_exec lf_lin (lf_construct v) as))) \<and>
         (\<forall>t n. lf_pcs s t = Ins_ret n False \<or> lf_pcs s t = Er_ret False \<longrightarrow> lf_done s t = [])"
proof -
  let ?tr = "lin_trace lf_exec lf_lin (lf_construct v) as"
  have "live_nodes (lf_construct v) = [0]" by (simp add: live_nodes_def lf_construct_def live_def)
  then have "run alist_exec [0] ?tr = Some (live_nodes s)"
    using lfr.run_abs [OF lf_construct_inv assms] by simp
  with lf_walk_head [OF lf_reachable(1) [OF assms]]
  have walk: "\<exists>xs. lf_walk (lf_alloc s) s (before_begin s) = Some xs \<and> distinct xs \<and> run alist_exec [0] ?tr = Some (filter (live s) xs)"
    by auto
  have tr: "set (lf_done s t) \<subseteq> set ?tr" for t using lf_done_traced [OF assms, of t] by (simp add: lf_construct_def)
  have ok: "lf_result_ok t (lf_pcs s t) (lf_done s t)" for t
    using lf_reachable(2) [OF assms] by (auto simp: lf_results_def)
  have "lf_pcs s t = Ins_ret n b \<Longrightarrow> lf_result_ok t (Ins_ret n b) (lf_done s t)"
    "lf_pcs s t = Er_ret b \<Longrightarrow> lf_result_ok t (Er_ret b) (lf_done s t)" for t n b
    using ok [of t] by simp_all
  then have "lf_pcs s t = Ins_ret n True \<Longrightarrow> \<exists>a. lf_done s t = [Link t a n] \<and> Link t a n \<in> set ?tr"
    "lf_pcs s t = Er_ret True \<Longrightarrow> \<exists>x. lf_done s t = [Unlink t x] \<and> Unlink t x \<in> set ?tr"
    "lf_pcs s t = Ins_ret n False \<or> lf_pcs s t = Er_ret False \<Longrightarrow> lf_done s t = []" for t n
    using tr [of t] by fastforce+
  with walk show ?thesis by blast
qed

theorem lf_list_linearizable_witness:
  "\<exists>s xs. run lf_exec (lf_construct 0) lf_demo = Some s \<and> lf_walk (lf_alloc s) s (before_begin s) = Some xs \<and>
       lin_trace lf_exec lf_lin (lf_construct 0) lf_demo = [Link 1 0 1, Unlink 2 1, Link 1 0 2] \<and>
       run alist_exec [0] [Link 1 0 1, Unlink 2 1, Link 1 0 2] = Some (filter (live s) xs) \<and> filter (live s) xs = [0, 2]"
proof -
  obtain s where s: "run lf_exec (lf_construct (0 :: nat)) lf_demo = Some s"
    by (simp add: lf_eval)
  have tr: "lin_trace lf_exec lf_lin (lf_construct (0 :: nat)) lf_demo = [Link 1 0 1, Unlink 2 1, Link 1 0 2]"
    by (simp add: lf_eval)
  obtain xs where "lf_walk (lf_alloc s) s (before_begin s) = Some xs"
      "run alist_exec [0] [Link 1 0 1, Unlink 2 1, Link 1 0 2] = Some (filter (live s) xs)"
    using lf_list_linearizable [OF s] unfolding tr by blast
  with s tr show ?thesis by auto
qed

section \<open>The meaning of the answers\<close>

lemma after_filter: "P x \<Longrightarrow> after x (filter P xs) = filter P (after x xs)"
  by (induction xs) auto

lemma after_live:
  assumes "lf_inv s" and "a \<in> set (lf_order s)" and "live s a"
  shows "lf_next s a = (None, b) \<Longrightarrow> after a (live_nodes s) = []"
    and "lf_next s a = (Some x, b) \<Longrightarrow> live s x \<Longrightarrow> \<exists>ys. after a (live_nodes s) = x # ys"
    and "lf_next s a = (Some x, b) \<Longrightarrow> \<not> live s x \<Longrightarrow>
           after a (live_nodes s) = filter (live s) (after x (lf_order s))"
proof -
  have d: "distinct (lf_order s)" and sk: "skips_dead (lf_next s) (lf_order s) a"
    using lf_invD(1) [OF assms(1)] assms(2) by (auto simp: chain_ok_def)
  have L: "after a (live_nodes s) = filter (live s) (after a (lf_order s))"
    using assms(3) by (simp add: live_nodes_def after_filter)
  show "after a (live_nodes s) = []" if "lf_next s a = (None, b)"
    using sk that L by (auto simp: skips_dead_def live_def filter_empty_conv)
  have *: "after a (live_nodes s) = filter (live s) (x # after x (lf_order s))"
    if n: "lf_next s a = (Some x, b)"
  proof -
    have x: "x \<in> set (after a (lf_order s))"
      "\<forall>m\<in>set (takeWhile (\<lambda>z. z \<noteq> x) (after a (lf_order s))). \<not> live s m"
      using sk n by (auto simp: skips_dead_def live_def)
    have "filter (live s) (takeWhile (\<lambda>z. z \<noteq> x) (after a (lf_order s))) = []"
      using x(2) by (simp add: filter_empty_conv)
    then show ?thesis unfolding L by (subst after_trans [OF d x(1)]) simp
  qed
  show "\<exists>ys. after a (live_nodes s) = x # ys" if "lf_next s a = (Some x, b)" "live s x"
    using * [OF that(1)] that(2) by simp
  show "after a (live_nodes s) = filter (live s) (after x (lf_order s))"
    if "lf_next s a = (Some x, b)" "\<not> live s x"
    using * [OF that(1)] that(2) by simp
qed

text \<open>
  C19.  Answers: in every interleaving, \<open>insert_after\<close> returns false at a moment when its anchor is erased;
  \<open>erase_after\<close> returns false at a moment when its anchor is erased or nothing live follows the anchor; and a
  node that \<open>erase_after\<close> takes as its target is, at the moment it is read, either the first live node behind
  the live anchor or a node already erased, which it only helps to unlink.
\<close>

theorem lf_answers_exact:
  assumes "run lf_exec (lf_construct v) as = Some s" and "lf_exec s (Lf_step t) = Some s'"
    and "\<not> lf_at_rest (lf_pcs s t)"
  shows "(\<forall>n. lf_pcs s' t = Ins_ret n False \<longrightarrow> (\<exists>a. lf_pcs s t = Ins_load a n \<and> a \<notin> set (live_nodes s))) \<and>
         (lf_pcs s' t = Er_ret False \<longrightarrow>
            (\<exists>a. lf_pcs s t = Er_load a \<and> (a \<notin> set (live_nodes s) \<or> after a (live_nodes s) = []))) \<and>
         (\<forall>a x. lf_pcs s' t = Er_next a x \<longrightarrow> a \<in> set (live_nodes s) \<and>
            (x \<notin> set (live_nodes s) \<or> (\<exists>ys. after a (live_nodes s) = x # ys)))"
proof -
  have inv: "lf_inv s" using lf_reachable(1) [OF assms(1)] .
  note ok = lf_invD(3) [OF inv, of t]
  have "lf_step t (lf_pcs s t) s = Some s'" using assms(2,3) by (simp add: lf_exec_def)
  then show ?thesis
  proof (cases rule: lf_step_cases)
    case insert
    then show ?thesis using ok
      by (cases "lf_pcs s t") (auto simp: Let_def live_nodes_def live_def split: if_splits)
  next
    case erase
    show ?thesis
    proof (cases "lf_pcs s t")
      case (Er_load a)
      then have a: "a \<in> set (lf_order s)" using ok by simp
      obtain p b where n: "lf_next s a = (p, b)" by fastforce
      show ?thesis
      proof (cases "b \<or> p = None")
        case True
        then have "lf_pcs s' t = Er_ret False" using erase Er_load n by (auto split: option.splits bool.splits)
        moreover have "a \<notin> set (live_nodes s) \<or> after a (live_nodes s) = []"
          using True n a after_live(1) [OF inv a, of b] by (auto simp: live_nodes_def live_def)
        ultimately show ?thesis using Er_load by simp
      next
        case False
        then obtain x where x: "p = Some x" "\<not> b" by auto
        then have "lf_pcs s' t = Er_next a x" using erase Er_load n by auto
        moreover have "live s a" using n x by (simp add: live_def)
        moreover have "x \<notin> set (live_nodes s) \<or> (\<exists>ys. after a (live_nodes s) = x # ys)"
          using after_live(2) [OF inv a \<open>live s a\<close>, of x b] n x by (auto simp: live_nodes_def)
        ultimately show ?thesis using a by (auto simp: live_nodes_def)
      qed
    qed (use erase in \<open>auto split: if_splits\<close>)
  qed
qed

theorem lf_answers_exact_witness:
  "\<exists>s s'. run lf_exec (lf_construct (0 :: nat)) [Lf_before_begin 1, Lf_erase 1] = Some s \<and>
     lf_exec s (Lf_step 1) = Some s' \<and> lf_pcs s' 1 = Er_ret False \<and> after 0 (live_nodes s) = []"
proof -
  have "\<exists>s s'. run lf_exec (lf_construct (0 :: nat)) [Lf_before_begin 1, Lf_erase 1] = Some s \<and>
     lf_exec s (Lf_step 1) = Some s' \<and> lf_pcs s' 1 = Er_ret False \<and> lf_pcs s 1 = Er_load 0 \<and> 0 \<in> set (live_nodes s)"
    by (simp add: lf_eval)
  then obtain s s' where s: "run lf_exec (lf_construct (0 :: nat)) [Lf_before_begin 1, Lf_erase 1] = Some s"
      "lf_exec s (Lf_step 1) = Some s'" "lf_pcs s' 1 = Er_ret False" "lf_pcs s 1 = Er_load 0" "0 \<in> set (live_nodes s)"
    by blast
  have "after 0 (live_nodes s) = []"
    using lf_answers_exact [OF s(1,2)] s(3-5) by fastforce
  with s show ?thesis by blast
qed

section \<open>Traversal from any node\<close>

text \<open>
  C20.  Traversal: at any moment, incrementing an iterator from any node that was ever linked, erased or not,
  reaches the end within as many steps as nodes were linked, visits no node twice, and the live nodes
  it visits are exactly the live nodes behind its start, in list order; from the head they are the whole list.
\<close>

theorem lf_traversal:
  assumes "run lf_exec (lf_construct v) as = Some s" and "x \<in> set (lf_order s)"
  shows "\<exists>ys. lf_walk (length (lf_order s)) s (Some x) = Some (x # ys) \<and> distinct (x # ys) \<and>
           filter (live s) ys = filter (live s) (after x (lf_order s)) \<and>
           (x = lf_head s \<longrightarrow> filter (live s) (x # ys) = live_nodes s)"
proof -
  have inv: "lf_inv s" using lf_reachable(1) [OF assms(1)] .
  have d: "distinct (lf_order s)" using lf_invD(1) [OF inv] by (simp add: chain_ok_def)
  obtain k where k: "length (lf_order s) = Suc k" using assms(2) by (cases "lf_order s") auto
  obtain ys where ys: "lf_walk (Suc k) s (Some x) = Some (x # ys)" "set ys \<subseteq> set (after x (lf_order s))"
      "filter (live s) ys = filter (live s) (after x (lf_order s))" "distinct ys"
    using lf_walk_from [OF inv assms(2), of k] after_length [OF assms(2)] k by auto
  moreover have "filter (live s) (x # ys) = live_nodes s" if "x = lf_head s"
  proof -
    have "lf_order s = x # after x (lf_order s)"
      using lf_invD(2) [OF inv] that assms(2) by (cases "lf_order s") auto
    then show ?thesis using ys(3) unfolding live_nodes_def by (metis filter.simps(2))
  qed
  ultimately show ?thesis using k after_self [OF d, of x] by auto
qed

theorem lf_traversal_witness:
  "\<exists>s ys. run lf_exec (lf_construct 0) lf_demo = Some s \<and> 1 \<in> set (lf_order s) \<and> \<not> live s 1 \<and>
     lf_walk 3 s (Some 1) = Some (1 # ys) \<and> filter (live s) ys = []"
proof -
  have "\<exists>s. run lf_exec (lf_construct 0) lf_demo = Some s \<and> lf_order s = [0, 2, 1] \<and> \<not> live s 1"
    by (simp add: lf_eval)
  then obtain s where s: "run lf_exec (lf_construct 0) lf_demo = Some s" "lf_order s = [0, 2, 1]" "\<not> live s 1" by blast
  then obtain ys where "lf_walk (length (lf_order s)) s (Some 1) = Some (1 # ys)"
      "filter (live s) ys = filter (live s) (after 1 (lf_order s))"
    using lf_traversal [OF s(1), of 1] by auto
  then have "lf_walk 3 s (Some 1) = Some (1 # ys) \<and> filter (live s) ys = []" using s(2) by (simp add: numeral_3_eq_3)
  with s show ?thesis by auto
qed

section \<open>A thread running alone\<close>

fun lf_solo :: "nat \<Rightarrow> tid \<Rightarrow> 'a lfl \<Rightarrow> 'a lfl option" where
  "lf_solo 0 t s = (if lf_at_rest (lf_pcs s t) then Some s else None)"
| "lf_solo (Suc k) t s =
     (if lf_at_rest (lf_pcs s t) then Some s
      else case lf_exec s (Lf_step t) of None \<Rightarrow> None | Some s' \<Rightarrow> lf_solo k t s')"

text \<open>The whole calls, with fuel for four accesses per node ever linked.\<close>

definition erase_after_call :: "tid \<Rightarrow> 'a lfl \<Rightarrow> (bool \<times> 'a lfl) option" where
  "erase_after_call t s =
     (case lf_exec s (Lf_erase t) of None \<Rightarrow> None
      | Some s1 \<Rightarrow> map_option (\<lambda>s2. (lf_pcs s2 t = Er_ret True, s2)) (lf_solo (4 * length (lf_order s)) t s1))"

definition insert_after_call :: "tid \<Rightarrow> 'a \<Rightarrow> 'a lfl \<Rightarrow> (bool \<times> 'a lfl) option" where
  "insert_after_call t v s =
     (case lf_exec s (Lf_insert t v) of None \<Rightarrow> None
      | Some s1 \<Rightarrow> map_option (\<lambda>s2. (lf_pcs s2 t = Ins_ret (lf_alloc s) True, s2)) (lf_solo 3 t s1))"

lemma lf_solo_rest [simp]: "lf_at_rest (lf_pcs s t) \<Longrightarrow> lf_solo k t s = Some s"
  by (cases k) simp_all

lemma lf_solo_more: "lf_solo k t s = Some s' \<Longrightarrow> k \<le> j \<Longrightarrow> lf_solo j t s = Some s'"
proof (induction k arbitrary: s j)
  case 0
  then show ?case by (auto split: if_splits)
next
  case (Suc k)
  then obtain i where "j = Suc i" "k \<le> i" by (cases j) auto
  then show ?case using Suc by (auto split: if_splits option.splits)
qed

text \<open>How many linked nodes the next word of the anchor still has in front of it.\<close>

definition lf_ahead :: "'a lfl \<Rightarrow> addr \<Rightarrow> nat" where
  "lf_ahead s a = (case fst (lf_next s a) of None \<Rightarrow> 0 | Some x \<Rightarrow> Suc (length (after x (lf_order s))))"

lemma lf_ahead_bound:
  assumes "lf_inv s" and "a \<in> set (lf_order s)"
  shows "lf_ahead s a < length (lf_order s)"
proof -
  have d: "distinct (lf_order s)" and sk: "skips_dead (lf_next s) (lf_order s) a"
    using lf_invD(1) [OF assms(1)] assms(2) by (auto simp: chain_ok_def)
  show ?thesis
    using sk after_length [OF assms(2)] after_length_less [OF d, of _ a]
    by (fastforce simp: lf_ahead_def skips_dead_def split: option.splits)
qed

text \<open>One round of \<open>erase_after\<close> run alone on a live anchor whose next word is not null.\<close>

lemma lf_round_wins:
  assumes "lf_pcs s t = Er_load a" and n: "lf_next s a = (Some x, False)" and l: "live s x" and "x \<noteq> a"
  shows "\<exists>s'. lf_solo 4 t s = Some s' \<and> lf_pcs s' t = Er_ret True \<and> lf_order s' = lf_order s \<and>
      lf_iter s' = lf_iter s \<and> lf_value s' = lf_value s \<and>
      (\<forall>y. live s' y \<longleftrightarrow> live s y \<and> y \<noteq> x)"
proof -
  obtain p where p: "lf_next s x = (p, False)" using l by (cases "lf_next s x") (auto simp: live_def)
  show ?thesis using assms p
    by (auto simp: numeral_eq_Suc lf_exec_def lf_step_def set_mark_def get_unmarked_def live_def)
qed

lemma lf_round_helps:
  assumes "lf_pcs s t = Er_load a" and n: "lf_next s a = (Some x, False)" and l: "\<not> live s x" and "x \<noteq> a"
  shows "\<exists>s'. (\<forall>k. lf_solo (4 + k) t s = lf_solo k t s') \<and> lf_pcs s' t = Er_load a \<and> lf_order s' = lf_order s \<and>
      lf_iter s' = lf_iter s \<and> lf_value s' = lf_value s \<and>
      lf_next s' a = (fst (lf_next s x), False) \<and> live s' = live s \<and> run lf_exec s (replicate 4 (Lf_step t)) = Some s'"
proof -
  obtain p where p: "lf_next s x = (p, True)" using l by (cases "lf_next s x") (auto simp: live_def)
  show ?thesis using assms p
    by (auto simp: numeral_eq_Suc lf_exec_def lf_step_def get_unmarked_def live_def fun_eq_iff)
qed

lemma lf_solo_erase:
  assumes "lf_inv s" and "lf_pcs s t = Er_load a"
  shows "\<exists>s'. lf_solo (4 * Suc (lf_ahead s a)) t s = Some s' \<and> lf_iter s' = lf_iter s \<and> lf_order s' = lf_order s \<and>
      lf_value s' = lf_value s \<and>
      (if live s a \<and> after a (live_nodes s) \<noteq> []
       then lf_pcs s' t = Er_ret True \<and> live_nodes s' = remove1 (hd (after a (live_nodes s))) (live_nodes s)
       else lf_pcs s' t = Er_ret False \<and> live_nodes s' = live_nodes s)"
  using assms
proof (induction "lf_ahead s a" arbitrary: s rule: less_induct)
  case (less s)
  note inv = less.prems(1) and p = less.prems(2)
  have a: "a \<in> set (lf_order s)" using lf_invD(3) [OF inv, of t] p by simp
  have d: "distinct (lf_order s)" and sk: "skips_dead (lf_next s) (lf_order s) a"
    using lf_invD(1) [OF inv] a by (auto simp: chain_ok_def)
  obtain q b where n: "lf_next s a = (q, b)" by fastforce
  consider (no) "b \<or> q = None" | (wins) x where "q = Some x" "\<not> b" "live s x" | (helps) x where "q = Some x" "\<not> b" "\<not> live s x"
    by (cases q) auto
  then show ?case
  proof cases
    case no
    have "live s a \<Longrightarrow> after a (live_nodes s) = []"
      using no n after_live(1) [OF inv a, of b] by (auto simp: live_def)
    moreover have "lf_solo 1 t s = Some (lf_goto t (Er_ret False) s)"
      using no p n by (auto simp: lf_exec_def lf_step_def split: option.splits bool.splits)
    then have "lf_solo (4 * Suc (lf_ahead s a)) t s = Some (lf_goto t (Er_ret False) s)"
      by (rule lf_solo_more) simp
    moreover have "live_nodes (lf_goto t (Er_ret False) s) = live_nodes s"
      by (rule live_nodes_cong) (simp_all add: live_def)
    ultimately show ?thesis by auto
  next
    case wins
    have xa: "x \<noteq> a" using sk n wins after_self [OF d, of a] by (auto simp: skips_dead_def)
    have la: "live s a" using n wins by (simp add: live_def)
    obtain ys where ys: "after a (live_nodes s) = x # ys" using after_live(2) [OF inv a la] n wins by blast
    obtain s' where s': "lf_solo 4 t s = Some s'" "lf_pcs s' t = Er_ret True" "lf_order s' = lf_order s"
        "lf_iter s' = lf_iter s" "lf_value s' = lf_value s" "\<forall>y. live s' y \<longleftrightarrow> live s y \<and> y \<noteq> x"
      using lf_round_wins [OF p, of x] n wins xa by auto
    have "live_nodes s' = filter (\<lambda>y. y \<noteq> x) (live_nodes s)"
      unfolding live_nodes_def filter_filter s'(3) by (rule filter_cong) (use s'(6) in auto)
    also have "\<dots> = remove1 x (live_nodes s)"
      using d by (simp add: live_nodes_def distinct_remove1_removeAll removeAll_filter_not_eq) (metis (mono_tags, lifting))
    finally have "live_nodes s' = remove1 x (live_nodes s)" .
    moreover have "lf_solo (4 * Suc (lf_ahead s a)) t s = Some s'" by (rule lf_solo_more [OF s'(1)]) simp
    ultimately show ?thesis using s' ys la by auto
  next
    case helps
    have x: "x \<in> set (after a (lf_order s))" using sk n helps by (auto simp: skips_dead_def)
    have xa: "x \<noteq> a" using x after_self [OF d, of a] by auto
    obtain s1 where s1: "\<forall>k. lf_solo (4 + k) t s = lf_solo k t s1" "lf_pcs s1 t = Er_load a" "lf_order s1 = lf_order s"
        "lf_iter s1 = lf_iter s" "lf_value s1 = lf_value s" "lf_next s1 a = (fst (lf_next s x), False)" "live s1 = live s"
        "run lf_exec s (replicate 4 (Lf_step t)) = Some s1"
      using lf_round_helps [OF p, of x] n helps xa by auto
    have inv1: "lf_inv s1" using lfi.run_Inv [OF inv s1(8)] .
    have L: "live_nodes s1 = live_nodes s" using s1(3,7) by (simp add: live_nodes_def)
    have "x \<in> set (lf_order s)" using x set_after_subset by fastforce
    then have skx: "skips_dead (lf_next s) (lf_order s) x" using lf_invD(1) [OF inv] by (auto simp: chain_ok_def)
    have lt: "lf_ahead s1 a < lf_ahead s a"
      using skx after_length_less [OF d, of _ x] s1(3,6) n helps
      by (fastforce simp: lf_ahead_def skips_dead_def split: option.splits)
    have fuel: "lf_solo (4 * Suc (lf_ahead s a)) t s = Some s'"
      if "lf_solo (4 * Suc (lf_ahead s1 a)) t s1 = Some s'" for s'
    proof -
      have "lf_solo (4 * lf_ahead s a) t s1 = Some s'" by (rule lf_solo_more [OF that]) (use lt in simp)
      then show ?thesis using s1(1) by simp
    qed
    show ?thesis using less.hyps [OF lt inv1 s1(2)] fuel unfolding L s1(3-5,7) by metis
  qed
qed

lemma erase_after_alone:
  assumes inv: "lf_inv s" and rest: "lf_at_rest (lf_pcs s t)" and a: "lf_iter s t = Some a"
  shows "\<exists>b s'. erase_after_call t s = Some (b, s') \<and> lf_inv s' \<and> lf_at_rest (lf_pcs s' t) \<and>
      lf_iter s' = lf_iter s \<and> lf_value s' = lf_value s \<and>
      b = (live s a \<and> after a (live_nodes s) \<noteq> []) \<and>
      live_nodes s' = (if b then remove1 (hd (after a (live_nodes s))) (live_nodes s) else live_nodes s)"
proof -
  let ?s1 = "lf_enter t (Er_load a) s"
  have ex: "lf_exec s (Lf_erase t) = Some ?s1" using rest a by (simp add: lf_exec_def)
  then have inv1: "lf_inv ?s1" using lf_exec_inv [OF inv] by blast
  have sel: "lf_order ?s1 = lf_order s" "lf_next ?s1 = lf_next s" "lf_iter ?s1 = lf_iter s" "lf_value ?s1 = lf_value s"
    "lf_pcs ?s1 t = Er_load a" "live_nodes ?s1 = live_nodes s" "live ?s1 = live s"
    by (auto simp: lf_enter_def live_def fun_eq_iff intro!: live_nodes_cong)
  obtain s' where s': "lf_solo (4 * Suc (lf_ahead ?s1 a)) t ?s1 = Some s'" "lf_iter s' = lf_iter s" "lf_value s' = lf_value s"
      "if live s a \<and> after a (live_nodes s) \<noteq> []
       then lf_pcs s' t = Er_ret True \<and> live_nodes s' = remove1 (hd (after a (live_nodes s))) (live_nodes s)
       else lf_pcs s' t = Er_ret False \<and> live_nodes s' = live_nodes s"
    using lf_solo_erase [OF inv1 sel(5)] unfolding sel by metis
  have "lf_ahead ?s1 a < length (lf_order s)"
    using lf_ahead_bound [OF inv1, of a] lf_invD(3) [OF inv1, of t] sel by simp
  then have f: "lf_solo (4 * length (lf_order s)) t ?s1 = Some s'"
    by (intro lf_solo_more [OF s'(1)]) simp
  have "lf_inv s'"
  proof -
    have "lf_solo k t u = Some s' \<Longrightarrow> lf_inv u \<Longrightarrow> lf_inv s'" for k u
      by (induction k arbitrary: u) (auto split: if_splits option.splits dest: lf_exec_inv)
    then show ?thesis using f inv1 by blast
  qed
  then show ?thesis using ex f s'(2-4) by (auto simp: erase_after_call_def split: if_splits)
qed

lemma insert_after_alone:
  assumes inv: "lf_inv s" and rest: "lf_at_rest (lf_pcs s t)" and a: "lf_iter s t = Some a"
  shows "\<exists>b s'. insert_after_call t v s = Some (b, s') \<and> lf_inv s' \<and> lf_at_rest (lf_pcs s' t) \<and>
      lf_iter s' = lf_iter s \<and> lf_value s' = (lf_value s)(lf_alloc s := v) \<and> b = live s a \<and>
      live_nodes s' = (if b then link_after a (lf_alloc s) (live_nodes s) else live_nodes s)"
proof -
  obtain s1 where ex: "lf_exec s (Lf_insert t v) = Some s1"
    and s1: "lf_pcs s1 t = Ins_load a (lf_alloc s)" "lf_iter s1 = lf_iter s" "lf_order s1 = lf_order s"
      "lf_value s1 = (lf_value s)(lf_alloc s := v)" "lf_next s1 = (lf_next s)(lf_alloc s := (None, False))"
    using rest a by (simp add: lf_exec_def new_node_def lf_enter_def)
  have inv1: "lf_inv s1" and L: "live_nodes s1 = live_nodes s"
    using lf_exec_inv [OF inv ex] by (simp_all add: lf_effect_def lf_lin_def)
  have a_ord: "a \<in> set (lf_order s)" using lf_invD(4) [OF inv a] .
  then have al: "a \<noteq> lf_alloc s" using lf_invD(5) [OF inv, of a] by auto
  have keep: "lf_inv u" if "run lf_exec s1 bs = Some u" for bs u using lfi.run_Inv [OF inv1 that] .
  show ?thesis
  proof (cases "live s a")
    case False
    then have "lf_solo 3 t s1 = Some (lf_goto t (Ins_ret (lf_alloc s) False) s1)"
      and r: "run lf_exec s1 [Lf_step t] = Some (lf_goto t (Ins_ret (lf_alloc s) False) s1)"
      using s1 al by (auto simp: numeral_3_eq_3 lf_exec_def lf_step_def live_def)
    moreover have "live_nodes (lf_goto t (Ins_ret (lf_alloc s) False) s1) = live_nodes s1"
      by (rule live_nodes_cong) (simp_all add: live_def)
    ultimately show ?thesis using ex s1 L False keep [OF r] by (auto simp: insert_after_call_def)
  next
    case True
    then obtain s2 where s2: "lf_solo 3 t s1 = Some s2" "run lf_exec s1 [Lf_step t, Lf_step t, Lf_step t] = Some s2"
        "lf_pcs s2 t = Ins_ret (lf_alloc s) True" "lf_iter s2 = lf_iter s" "lf_value s2 = lf_value s1"
        "lin_trace lf_exec lf_lin s1 [Lf_step t, Lf_step t, Lf_step t] = [Link t a (lf_alloc s)]"
      using s1 al by (auto simp: numeral_3_eq_3 lf_exec_def lf_step_def live_def lf_lin_def)
    then have "run alist_exec (live_nodes s) [Link t a (lf_alloc s)] = Some (live_nodes s2)"
      using lfr.run_abs [OF inv1 s2(2)] L by simp
    then have "live_nodes s2 = link_after a (lf_alloc s) (live_nodes s)" by (auto split: if_splits)
    then show ?thesis using ex s1 s2 True keep [OF s2(2)] by (auto simp: insert_after_call_def)
  qed
qed

text \<open>
  C21.  Progress: in any reachable state, whatever calls the other threads have left unfinished, a call of
  a thread that then runs alone returns, within four accesses per node ever linked.
  \<open>insert_after\<close> returns true exactly when the anchor is live and then its node stands directly behind the
  anchor with its value; \<open>erase_after\<close> returns true exactly when the anchor is live and a live node follows,
  and then it has removed the first one.
\<close>

theorem lf_calls_return:
  assumes "run lf_exec (lf_construct v0) as = Some s" and "lf_at_rest (lf_pcs s t)" and "lf_iter s t = Some a"
  shows "(\<exists>b s'. erase_after_call t s = Some (b, s') \<and> b = (live s a \<and> after a (live_nodes s) \<noteq> []) \<and>
            live_nodes s' = (if b then remove1 (hd (after a (live_nodes s))) (live_nodes s) else live_nodes s)) \<and>
         (\<exists>b s'. insert_after_call t v s = Some (b, s') \<and> b = live s a \<and> lf_value s' (lf_alloc s) = v \<and>
            live_nodes s' = (if b then link_after a (lf_alloc s) (live_nodes s) else live_nodes s))"
  using erase_after_alone [OF lf_reachable(1) [OF assms(1)] assms(2,3)]
    insert_after_alone [OF lf_reachable(1) [OF assms(1)] assms(2,3), of v]
  by auto

text \<open>A schedule that leaves thread 3 stuck between its mark and its unlink.\<close>

definition lf_demo2 :: "nat lf_act list" where
  "lf_demo2 = [Lf_before_begin 1, Lf_before_begin 3, Lf_insert 1 10, Lf_step 1, Lf_step 1, Lf_step 1,
     Lf_insert 1 20, Lf_step 1, Lf_step 1, Lf_step 1, Lf_erase 3, Lf_step 3, Lf_step 3, Lf_step 3]"

theorem lf_calls_return_witness:
  "\<exists>s s'. run lf_exec (lf_construct 0) lf_demo2 = Some s \<and> live_nodes s = [0, 1] \<and>
     (\<not> live s 2) \<and> erase_after_call 1 s = Some (True, s') \<and> live_nodes s' = [0]"
proof -
  have "\<exists>s. run lf_exec (lf_construct 0) lf_demo2 = Some s \<and> live_nodes s = [0, 1] \<and> \<not> live s 2 \<and> live s 0 \<and>
     lf_at_rest (lf_pcs s 1) \<and> lf_iter s 1 = Some 0"
    by (simp add: lf_eval lf_demo2_def)
  then obtain s where s: "run lf_exec (lf_construct 0) lf_demo2 = Some s" "live_nodes s = [0, 1]" "\<not> live s 2" "live s 0"
     "lf_at_rest (lf_pcs s 1)" "lf_iter s 1 = Some 0" by blast
  obtain s' where "erase_after_call 1 s = Some (True, s')" "live_nodes s' = [0]"
    using lf_calls_return [OF s(1,5,6), of 0] s(2,4) by auto
  with s show ?thesis by blast
qed

text \<open>The drain loop \<^verbatim>\<open>while (erase_after(h)) {}\<close>; \<open>None\<close> when \<open>fuel\<close> rounds do not end it.\<close>

fun drain_loop :: "nat \<Rightarrow> tid \<Rightarrow> 'a lfl \<Rightarrow> 'a lfl option" where
  "drain_loop 0 t s = None"
| "drain_loop (Suc fuel) t s =
     (case erase_after_call t s of None \<Rightarrow> None
      | Some (True, s') \<Rightarrow> drain_loop fuel t s'
      | Some (False, s') \<Rightarrow> Some s')"

lemma drain_loop_empties:
  "lf_inv s \<Longrightarrow> lf_at_rest (lf_pcs s t) \<Longrightarrow> lf_iter s t = Some (lf_head s) \<Longrightarrow> live_nodes s = lf_head s # xs \<Longrightarrow>
     length xs < fuel \<Longrightarrow> \<exists>s'. drain_loop fuel t s = Some s' \<and> live_nodes s' = [lf_head s]"
proof (induction fuel arbitrary: s xs)
  case (Suc k)
  have "distinct (live_nodes s)"
    using lf_invD(1) [OF Suc.prems(1)] by (simp add: live_nodes_def chain_ok_def)
  have h: "live s (lf_head s)" using lf_invD(1,2) [OF Suc.prems(1)] by (auto simp: chain_ok_def live_def)
  obtain b s' where s': "erase_after_call t s = Some (b, s')" "lf_inv s'" "lf_at_rest (lf_pcs s' t)"
      "lf_iter s' = lf_iter s" "b = (xs \<noteq> [])" "live_nodes s' = (if b then remove1 (hd xs) (live_nodes s) else live_nodes s)"
    using erase_after_alone [OF Suc.prems(1-3)] h Suc.prems(4) by auto
  show ?case
  proof (cases xs)
    case Nil
    then show ?thesis using s' Suc.prems(4) by simp
  next
    case (Cons y ys)
    have "y \<noteq> lf_head s" using \<open>distinct (live_nodes s)\<close> Suc.prems(4) Cons by auto
    then have L: "live_nodes s' = lf_head s # ys" using s'(5,6) Suc.prems(4) Cons by simp
    have "lf_head s' = lf_head s"
      using L lf_invD(2) [OF s'(2)] lf_invD(1) [OF s'(2)]
      by (cases "lf_order s'") (auto simp: live_nodes_def chain_ok_def live_def split: if_splits)
    then show ?thesis using Suc.IH [OF s'(2,3), of ys] s'(1,4,5) Suc.prems(3,5) L Cons by simp
  qed
qed simp

text \<open>
  Draining: from any reachable state, whatever calls other threads have left unfinished (in
  particular erased nodes whose unlinking failed or has not happened yet), the loop that erases behind the
  head until \<open>erase_after\<close> returns false ends and leaves no live node but the head.
\<close>

theorem lf_drain_complete:
  assumes "run lf_exec (lf_construct v0) as = Some s" and "lf_at_rest (lf_pcs s t)"
    and "lf_iter s t = Some (lf_head s)"
  shows "\<exists>s'. drain_loop (length (live_nodes s)) t s = Some s' \<and> live_nodes s' = [lf_head s]"
proof -
  have inv: "lf_inv s" using lf_reachable(1) [OF assms(1)] .
  then obtain xs where xs: "live_nodes s = lf_head s # xs"
    using lf_invD(1,2) [OF inv] by (cases "lf_order s") (auto simp: live_nodes_def chain_ok_def live_def)
  then show ?thesis using drain_loop_empties [OF inv assms(2,3) xs, of "length (live_nodes s)"] by simp
qed

theorem lf_drain_complete_witness:
  "\<exists>s s'. run lf_exec (lf_construct 0) lf_demo2 = Some s \<and> live_nodes s = [0, 1] \<and>
     drain_loop 2 1 s = Some s' \<and> live_nodes s' = [0]"
proof -
  have "\<exists>s. run lf_exec (lf_construct 0) lf_demo2 = Some s \<and> live_nodes s = [0, 1] \<and> lf_head s = 0 \<and>
     lf_at_rest (lf_pcs s 1) \<and> lf_iter s 1 = Some 0"
    by (simp add: lf_eval lf_demo2_def)
  then obtain s where s: "run lf_exec (lf_construct 0) lf_demo2 = Some s" "live_nodes s = [0, 1]" "lf_head s = 0"
     "lf_at_rest (lf_pcs s 1)" "lf_iter s 1 = Some 0" by blast
  then have "\<exists>s'. drain_loop (length (live_nodes s)) 1 s = Some s' \<and> live_nodes s' = [0]"
    using lf_drain_complete [OF s(1,4)] by simp
  with s show ?thesis by (auto simp: numeral_2_eq_2)
qed

end
