(* ===== verification/List_Node.thy ===== *)
theory List_Node
  imports Lock_Free_List
begin

text \<open>
  The remaining parts of \<^verbatim>\<open>LockFreeList/lock_free_list.h\<close>: the destruction of chains of nodes by
  \<open>~Node\<close> with the intrusive reference count, and the mode without marking (\<open>supports_marking\<close>
  false), which links and unlinks with a bare compare-and-swap.
\<close>

section \<open>Nodes with their reference counts\<close>

text \<open>
  The heap holds the nodes that exist.  Every operation returns \<open>None\<close> when it would touch a node that does
  not exist, or drop a count below zero.
\<close>

record lnode =
  ln_next :: lword
  ln_count :: nat

type_synonym nheap = "addr \<rightharpoonup> lnode"

definition AddRef :: "addr option \<Rightarrow> nheap \<Rightarrow> nheap option" where
  "AddRef p h = (case p of None \<Rightarrow> Some h
     | Some x \<Rightarrow> (case h x of None \<Rightarrow> None | Some n \<Rightarrow> Some (h(x \<mapsto> n\<lparr>ln_count := Suc (ln_count n)\<rparr>))))"

definition DelRef :: "addr \<Rightarrow> nheap \<Rightarrow> (bool \<times> nheap) option" where
  "DelRef x h = (case h x of None \<Rightarrow> None
     | Some n \<Rightarrow> (if ln_count n = 0 then None
                 else Some (ln_count n = 1, h(x \<mapsto> n\<lparr>ln_count := ln_count n - 1\<rparr>))))"

definition use_count :: "addr \<Rightarrow> nheap \<Rightarrow> nat option" where
  "use_count x h = map_option ln_count (h x)"

definition load_next :: "addr \<Rightarrow> nheap \<Rightarrow> lword option" where
  "load_next x h = map_option ln_next (h x)"

definition clear_next :: "addr \<Rightarrow> nheap \<Rightarrow> nheap option" where
  "clear_next x h = (case h x of None \<Rightarrow> None | Some n \<Rightarrow> Some (h(x \<mapsto> n\<lparr>ln_next := (None, False)\<rparr>)))"

text \<open>
  \<open>release\<close> drops one reference and deletes the node whose count reaches zero; \<open>delete_node\<close> runs
  \<open>~Node\<close> and frees the memory.  \<open>depth\<close> bounds how deeply destructors may be nested and \<open>fuel\<close>
  how often the loop of \<open>~Node\<close> may run; exceeding either is \<open>None\<close>.  \<open>load\<close> hands out a counted
  reference, \<open>store(nullptr)\<close> releases the reference of the word, the move assignment releases the reference
  \<open>curr\<close> held, and leaving the function releases the last one.
\<close>

fun release :: "nat \<Rightarrow> nat \<Rightarrow> addr option \<Rightarrow> nheap \<Rightarrow> nheap option"
  and delete_node :: "nat \<Rightarrow> nat \<Rightarrow> addr \<Rightarrow> nheap \<Rightarrow> nheap option"
  and node_dtor_loop :: "nat \<Rightarrow> nat \<Rightarrow> nat \<Rightarrow> addr option \<Rightarrow> nheap \<Rightarrow> nheap option" where
  "release fuel depth None h = Some h"
| "release fuel depth (Some x) h =
     (case DelRef x h of None \<Rightarrow> None
      | Some (False, h1) \<Rightarrow> Some h1
      | Some (True, h1) \<Rightarrow> (case depth of 0 \<Rightarrow> None | Suc d \<Rightarrow> delete_node fuel d x h1))"
| "delete_node fuel depth x h =
     (case load_next x h of None \<Rightarrow> None
      | Some w \<Rightarrow>
        Option.bind (AddRef (fst w) h) (\<lambda>h1.
        Option.bind (clear_next x h1) (\<lambda>h2.
        Option.bind (release fuel depth (fst w) h2) (\<lambda>h3.
        Option.bind (node_dtor_loop fuel depth fuel (fst w) h3) (\<lambda>h4.
        Some (h4(x := None)))))))"
| "node_dtor_loop fuel depth k None h = Some h"
| "node_dtor_loop fuel depth k (Some x) h =
     (case use_count x h of None \<Rightarrow> None
      | Some c \<Rightarrow>
        (if c = 1
         then (case k of 0 \<Rightarrow> None
               | Suc j \<Rightarrow>
                 (case load_next x h of None \<Rightarrow> None
                  | Some w \<Rightarrow>
                    Option.bind (AddRef (fst w) h) (\<lambda>h1.
                    Option.bind (clear_next x h1) (\<lambda>h2.
                    Option.bind (release fuel depth (fst w) h2) (\<lambda>h3.
                    Option.bind (release fuel depth (Some x) h3) (\<lambda>h4.
                    node_dtor_loop fuel depth j (fst w) h4))))))
         else release fuel depth (Some x) h))"

section \<open>Destroying a chain\<close>

text \<open>
  \<open>sole_chain h p ys z\<close>: from the pointer \<open>p\<close>, the nodes \<open>ys\<close> follow each other, each with a count of one, and the
  next pointer behind them is \<open>z\<close>; \<open>shared h z\<close>: that is null or a node with another owner.
\<close>

fun sole_chain :: "nheap \<Rightarrow> addr option \<Rightarrow> addr list \<Rightarrow> addr option \<Rightarrow> bool" where
  "sole_chain h p [] z = (p = z)"
| "sole_chain h p (y # ys) z =
     (p = Some y \<and> (case h y of None \<Rightarrow> False | Some n \<Rightarrow> ln_count n = 1 \<and> sole_chain h (fst (ln_next n)) ys z))"

definition shared :: "nheap \<Rightarrow> addr option \<Rightarrow> bool" where
  "shared h z = (case z of None \<Rightarrow> True | Some y \<Rightarrow> (case h y of None \<Rightarrow> False | Some n \<Rightarrow> 2 \<le> ln_count n))"

definition drop_ref :: "addr option \<Rightarrow> nheap \<Rightarrow> nheap" where
  "drop_ref z h = (case z of None \<Rightarrow> h | Some y \<Rightarrow>
     h(y := map_option (\<lambda>n. n\<lparr>ln_count := ln_count n - 1\<rparr>) (h y)))"

lemma sole_chain_upd:
  "x \<notin> set ys \<Longrightarrow> sole_chain (h(x := v)) p ys z = sole_chain h p ys z"
  by (induction ys arbitrary: p) (auto split: option.splits)

lemma sole_chain_target:
  assumes "sole_chain h p ys z" and "shared h z" and "p = Some y"
  obtains n where "h y = Some n" "1 \<le> ln_count n" "ys = [] \<and> z = Some y \<and> 2 \<le> ln_count n \<or> y \<in> set ys"
  using assms by (cases ys) (fastforce simp: shared_def split: option.splits)+

text \<open>Loading a next pointer and nulling the word moves one reference and changes no count.\<close>

lemma take_next:
  assumes "h x = Some n" and "\<And>y. p = Some y \<Longrightarrow> y \<noteq> x \<and> (\<exists>m. h y = Some m \<and> 1 \<le> ln_count m)"
  shows "Option.bind (AddRef p h) (\<lambda>h1. Option.bind (clear_next x h1) (\<lambda>h2.
           Option.bind (release fuel depth p h2) f)) = f (h(x \<mapsto> n\<lparr>ln_next := (None, False)\<rparr>))"
proof (cases p)
  case None
  then show ?thesis using assms(1) by (simp add: AddRef_def clear_next_def)
next
  case (Some y)
  then obtain m where m: "y \<noteq> x" "h y = Some m" "1 \<le> ln_count m" using assms(2) by blast
  then have "h(y \<mapsto> m\<lparr>ln_count := Suc (ln_count m)\<rparr>, x \<mapsto> n\<lparr>ln_next := (None, False)\<rparr>, y \<mapsto> m) =
      h(x \<mapsto> n\<lparr>ln_next := (None, False)\<rparr>)"
    by (auto simp: fun_eq_iff)
  then show ?thesis using Some m assms(1) by (simp add: AddRef_def clear_next_def DelRef_def)
qed

lemma delete_leaf:
  "h x = Some n \<Longrightarrow> fst (ln_next n) = None \<Longrightarrow> delete_node fuel depth x h = Some (h(x := None))"
  by (simp add: load_next_def AddRef_def clear_next_def)

lemma shared_upd: "z \<noteq> Some x \<Longrightarrow> shared (h(x := v)) z = shared h z"
  by (auto simp: shared_def split: option.splits)

lemma dtor_loop_chain:
  "sole_chain h p ys z \<Longrightarrow> distinct ys \<Longrightarrow> shared h z \<Longrightarrow> length ys \<le> k \<Longrightarrow>
     node_dtor_loop fuel (Suc d) k p h = Some (drop_ref z (h |` (- set ys)))"
proof (induction ys arbitrary: h p k)
  case Nil
  then show ?case
    by (cases p) (auto simp: shared_def drop_ref_def use_count_def DelRef_def split: option.splits)
next
  case (Cons y ys)
  then obtain n where p: "p = Some y" and n: "h y = Some n" "ln_count n = 1" "sole_chain h (fst (ln_next n)) ys z"
    by (auto split: option.splits)
  obtain j where k: "k = Suc j" "length ys \<le> j" using Cons.prems(4) by (cases k) auto
  have zy: "z \<noteq> Some y" using Cons.prems(3) n(1,2) by (auto simp: shared_def)
  let ?h1 = "h(y \<mapsto> n\<lparr>ln_next := (None, False)\<rparr>)" and ?h2 = "h(y := None)"
  have tgt: "y' \<noteq> y \<and> (\<exists>m. h y' = Some m \<and> 1 \<le> ln_count m)" if "fst (ln_next n) = Some y'" for y'
    using sole_chain_target [OF n(3) Cons.prems(3) that] Cons.prems(2) zy by (metis distinct.simps(2))
  have rel: "release fuel (Suc d) (Some y) ?h1 = Some ?h2"
    using n by (simp add: DelRef_def delete_leaf del: delete_node.simps)
  have "sole_chain ?h2 (fst (ln_next n)) ys z" using n(3) Cons.prems(2) by (simp add: sole_chain_upd)
  moreover have "shared ?h2 z" using Cons.prems(3) by (subst shared_upd [OF zy])
  ultimately have "node_dtor_loop fuel (Suc d) j (fst (ln_next n)) ?h2 = Some (drop_ref z (?h2 |` (- set ys)))"
    using Cons.IH Cons.prems(2) k(2) by (metis distinct.simps(2))
  moreover have "?h2 |` (- set ys) = h |` (- set (y # ys))" by (auto simp: restrict_map_def)
  moreover have "node_dtor_loop fuel (Suc d) (Suc j) (Some y) h =
      Option.bind (release fuel (Suc d) (Some y) ?h1) (node_dtor_loop fuel (Suc d) j (fst (ln_next n)))"
  proof -
    have e: "use_count y h = Some 1" "load_next y h = Some (ln_next n)"
      using n by (simp_all add: use_count_def load_next_def)
    show ?thesis unfolding node_dtor_loop.simps(2) e option.case if_P [OF refl] nat.case
      by (subst take_next [of h y n]) (use n tgt in auto)
  qed
  ultimately show ?case unfolding p k(1) rel by (simp only: Option.bind.simps)
qed

text \<open>
  C22.  Destruction: when the last reference to a node is released, the node and the nodes behind it that have no
  other owner are freed, each exactly once and none of them touched afterwards; the first node that somebody
  else still owns keeps its contents and loses one reference; nothing else changes.  Destructors nest at most
  two deep, however long the chain is.
\<close>

theorem node_dtor_iterative:
  assumes "h x = Some n" and "ln_count n = 1" and "sole_chain h (fst (ln_next n)) ys z" and "distinct (x # ys)"
    and "shared h z" and "length ys \<le> fuel"
  shows "release fuel 2 (Some x) h = Some (drop_ref z (h |` (- set (x # ys))))"
proof -
  let ?h0 = "h(x \<mapsto> n\<lparr>ln_count := 0\<rparr>)" and ?h1 = "h(x \<mapsto> n\<lparr>ln_count := 0, ln_next := (None, False)\<rparr>)"
  have zx: "z \<noteq> Some x" using assms(1,2,5) by (auto simp: shared_def)
  have tgt: "y \<noteq> x \<and> (\<exists>m. ?h0 y = Some m \<and> 1 \<le> ln_count m)" if y: "fst (ln_next n) = Some y" for y
  proof -
    obtain m where m: "h y = Some m" "1 \<le> ln_count m" "ys = [] \<and> z = Some y \<and> 2 \<le> ln_count m \<or> y \<in> set ys"
      using sole_chain_target [OF assms(3,5) y] by blast
    then have "y \<noteq> x" using zx assms(4) by auto
    with m show ?thesis by simp
  qed
  have "sole_chain ?h1 (fst (ln_next n)) ys z" "shared ?h1 z"
    using assms(3-5) zx by (simp_all add: sole_chain_upd shared_upd)
  then have loop: "node_dtor_loop fuel (Suc 0) fuel (fst (ln_next n)) ?h1 = Some (drop_ref z (?h1 |` (- set ys)))"
    using assms(4,6) by (intro dtor_loop_chain) simp_all
  have "(drop_ref z (?h1 |` (- set ys)))(x := None) = drop_ref z (h |` (- set (x # ys)))"
    using zx assms(4) by (cases z) (auto simp: drop_ref_def restrict_map_def fun_eq_iff)
  moreover have "delete_node fuel (Suc 0) x ?h0 = Some ((drop_ref z (?h1 |` (- set ys)))(x := None))"
  proof -
    have e: "load_next x ?h0 = Some (ln_next n)" by (simp add: load_next_def)
    have "delete_node fuel (Suc 0) x ?h0 =
        Option.bind (node_dtor_loop fuel (Suc 0) fuel (fst (ln_next n)) ?h1) (\<lambda>h4. Some (h4(x := None)))"
      unfolding delete_node.simps e option.case
      by (subst take_next [of ?h0 x "n\<lparr>ln_count := 0\<rparr>"]) (use tgt in auto)
    then show ?thesis unfolding loop by simp
  qed
  ultimately show ?thesis
    using assms(1,2) by (simp add: DelRef_def numeral_2_eq_2 del: delete_node.simps)
qed

definition node_demo :: nheap where
  "node_demo = [0 \<mapsto> \<lparr>ln_next = (Some 1, False), ln_count = 1\<rparr>, 1 \<mapsto> \<lparr>ln_next = (Some 2, True), ln_count = 1\<rparr>,
     2 \<mapsto> \<lparr>ln_next = (None, False), ln_count = 3\<rparr>]"

theorem node_dtor_iterative_witness:
  "release 1 2 (Some 0) node_demo = Some [2 \<mapsto> \<lparr>ln_next = (None, False), ln_count = 2\<rparr>]"
proof -
  have "release 1 2 (Some 0) node_demo = Some (drop_ref (Some 2) (node_demo |` (- set [0, 1])))"
    by (rule node_dtor_iterative [where n = "\<lparr>ln_next = (Some 1, False), ln_count = 1\<rparr>"])
       (simp_all add: node_demo_def shared_def)
  moreover have "drop_ref (Some 2) (node_demo |` (- set [0, 1])) = [2 \<mapsto> \<lparr>ln_next = (None, False), ln_count = 2\<rparr>]"
    by (auto simp: drop_ref_def node_demo_def restrict_map_def fun_eq_iff)
  ultimately show ?thesis by simp
qed

section \<open>The mode without marking\<close>

text \<open>
  Without marks a failed compare-and-swap hands back the current word, which is used at once; the words carry
  no mark.  The state is the one of the marking mode.
\<close>

fun blind_insert_step :: "tid \<Rightarrow> lf_pc \<Rightarrow> 'a lfl \<Rightarrow> 'a lfl option" where
  "blind_insert_step t (Ins_load a n) s = Some (lf_goto t (Ins_store a n (lf_next s a)) s)"
| "blind_insert_step t (Ins_store a n expected_next) s =
     Some (lf_goto t (Ins_cas a n expected_next) (lf_write n expected_next s))"
| "blind_insert_step t (Ins_cas a n expected_next) s =
     (if lf_next s a = expected_next
      then Some (lf_goto t (Ins_ret n True) (lf_write a (Some n, False) s))
      else Some (lf_goto t (Ins_store a n (lf_next s a)) s))"
| "blind_insert_step t _ s = None"

definition blind_test :: "tid \<Rightarrow> addr \<Rightarrow> lword \<Rightarrow> 'a lfl \<Rightarrow> 'a lfl" where
  "blind_test t a target s =
     (case fst target of None \<Rightarrow> lf_goto t (Er_ret False) s | Some x \<Rightarrow> lf_goto t (Er_next a x) s)"

fun blind_erase_step :: "tid \<Rightarrow> lf_pc \<Rightarrow> 'a lfl \<Rightarrow> 'a lfl option" where
  "blind_erase_step t (Er_load a) s = Some (blind_test t a (lf_next s a) s)"
| "blind_erase_step t (Er_next a x) s = Some (lf_goto t (Er_unlink a x (lf_next s x) True) s)"
| "blind_erase_step t (Er_unlink a x target_next b) s =
     (if lf_next s a = (Some x, False) then Some (lf_goto t (Er_ret True) (lf_write a target_next s))
      else Some (blind_test t a (lf_next s a) s))"
| "blind_erase_step t _ s = None"

definition blind_exec :: "'a lfl \<Rightarrow> 'a lf_act \<Rightarrow> 'a lfl option" where
  "blind_exec s a =
     (if lf_at_rest (lf_pcs s (lf_tid a)) then lf_call s a
      else case a of
          Lf_step t \<Rightarrow> (case blind_insert_step t (lf_pcs s t) s of
                        Some s' \<Rightarrow> Some s' | None \<Rightarrow> blind_erase_step t (lf_pcs s t) s)
        | _ \<Rightarrow> None)"

text \<open>The chain of next words from a pointer.\<close>

fun next_path :: "(addr \<Rightarrow> lword) \<Rightarrow> addr option \<Rightarrow> addr list \<Rightarrow> bool" where
  "next_path nxt p [] = (p = None)"
| "next_path nxt p (x # xs) = (p = Some x \<and> next_path nxt (fst (nxt x)) xs)"

lemma next_path_upd: "x \<notin> set xs \<Longrightarrow> next_path (nxt(x := w)) p xs = next_path nxt p xs"
  by (induction xs arbitrary: p) auto

lemma next_path_append:
  "next_path nxt p (xs @ y # ys) \<Longrightarrow> next_path nxt (fst (nxt y)) ys"
  by (induction xs arbitrary: p) auto

lemma next_path_swing:
  "next_path nxt p (xs @ y # ys) \<Longrightarrow> y \<notin> set xs \<Longrightarrow> y \<notin> set zs \<Longrightarrow> next_path nxt (fst w) zs \<Longrightarrow>
     next_path (nxt(y := w)) p (xs @ y # zs)"
  by (induction xs arbitrary: p) (auto simp: next_path_upd)

definition blind_run :: "'a lfl \<Rightarrow> 'a lf_act \<Rightarrow> nat \<Rightarrow> tid \<Rightarrow> 'a lfl option" where
  "blind_run s call k t = run blind_exec s (call # replicate k (Lf_step t))"

text \<open>
  Without marking, a call that nobody interferes with works on the chain of next pointers as a list:
  \<open>insert_after\<close> puts the new node directly behind the anchor in three accesses and returns true;
  \<open>erase_after\<close> takes out the node behind the anchor in three accesses, or returns false after one when the
  anchor is the last node.
\<close>

theorem blind_calls_alone:
  assumes "next_path (lf_next s) (Some h) (xs @ a # ys)" and "distinct (xs @ a # ys)"
    and "lf_at_rest (lf_pcs s t)" and "lf_iter s t = Some a" and "lf_alloc s \<notin> set (xs @ a # ys)"
    and "\<forall>x\<in>set (xs @ a # ys). \<not> is_marked (lf_next s x)"
  shows "(\<exists>s'. blind_run s (Lf_insert t v) 3 t = Some s' \<and> lf_pcs s' t = Ins_ret (lf_alloc s) True \<and>
            lf_value s' (lf_alloc s) = v \<and> next_path (lf_next s') (Some h) (xs @ a # lf_alloc s # ys)) \<and>
         (\<forall>y zs. ys = y # zs \<longrightarrow> (\<exists>s'. blind_run s (Lf_erase t) 3 t = Some s' \<and> lf_pcs s' t = Er_ret True \<and>
            next_path (lf_next s') (Some h) (xs @ a # zs))) \<and>
         (ys = [] \<longrightarrow> (\<exists>s'. blind_run s (Lf_erase t) 1 t = Some s' \<and> lf_pcs s' t = Er_ret False \<and>
            next_path (lf_next s') (Some h) (xs @ [a])))"
proof (intro conjI allI impI)
  let ?n = "lf_alloc s"
  have tail: "next_path (lf_next s) (fst (lf_next s a)) ys" using next_path_append [OF assms(1)] .
  have na: "a \<noteq> ?n" using assms(5) by auto
  let ?f = "(lf_next s)(?n := lf_next s a)"
  have p0: "next_path ?f (Some h) (xs @ a # ys)" using assms(1,5) by (subst next_path_upd) auto
  have "next_path ?f (fst (?f ?n)) ys" using tail assms(5) by (simp add: next_path_upd)
  then have "next_path (?f(a := (Some ?n, False))) (Some h) (xs @ a # ?n # ys)"
    using assms(2,5) na by (intro next_path_swing [OF p0]) auto
  then show "\<exists>s'. blind_run s (Lf_insert t v) 3 t = Some s' \<and> lf_pcs s' t = Ins_ret ?n True \<and>
            lf_value s' ?n = v \<and> next_path (lf_next s') (Some h) (xs @ a # ?n # ys)"
    using assms(3,4) na
    by (simp add: blind_run_def numeral_3_eq_3 blind_exec_def new_node_def lf_enter_def fun_upd_upd)
next
  fix y zs assume ys: "ys = y # zs"
  have tail: "next_path (lf_next s) (fst (lf_next s a)) (y # zs)" using next_path_append [OF assms(1)] ys by simp
  have a: "lf_next s a = (Some y, False)" using tail assms(6) by (cases "lf_next s a") auto
  have "next_path ((lf_next s)(a := lf_next s y)) (Some h) (xs @ a # zs)"
    using assms(2) ys tail by (intro next_path_swing [OF assms(1)]) auto
  then show "\<exists>s'. blind_run s (Lf_erase t) 3 t = Some s' \<and> lf_pcs s' t = Er_ret True \<and>
            next_path (lf_next s') (Some h) (xs @ a # zs)"
    using assms(3,4) a by (simp add: blind_run_def numeral_3_eq_3 blind_exec_def blind_test_def lf_enter_def)
next
  assume ys: "ys = []"
  have "fst (lf_next s a) = None" using next_path_append [OF assms(1)] ys by simp
  then show "\<exists>s'. blind_run s (Lf_erase t) 1 t = Some s' \<and> lf_pcs s' t = Er_ret False \<and>
            next_path (lf_next s') (Some h) (xs @ [a])"
    using assms(1,3,4) ys by (simp add: blind_run_def blind_exec_def blind_test_def lf_enter_def)
qed

lemmas blind_eval = lf_construct_def blind_exec_def lf_goto_def lf_write_def lf_enter_def blind_test_def
  new_node_def before_begin_def iter_next_def get_unmarked_def blind_run_def

theorem blind_calls_alone_witness:
  "\<exists>s s'. run blind_exec (lf_construct (0 :: nat)) [Lf_before_begin 1] = Some s \<and>
     blind_run s (Lf_insert 1 7) 3 1 = Some s' \<and> next_path (lf_next s') (Some 0) [0, 1] \<and> lf_value s' 1 = 7"
proof -
  have "\<exists>s. run blind_exec (lf_construct (0 :: nat)) [Lf_before_begin 1] = Some s \<and> lf_next s 0 = (None, False) \<and>
      lf_at_rest (lf_pcs s 1) \<and> lf_iter s 1 = Some 0 \<and> lf_alloc s = 1"
    by (simp add: blind_eval)
  then obtain s where s: "run blind_exec (lf_construct (0 :: nat)) [Lf_before_begin 1] = Some s" "lf_next s 0 = (None, False)"
      "lf_at_rest (lf_pcs s 1)" "lf_iter s 1 = Some 0" "lf_alloc s = 1" by blast
  then show ?thesis using blind_calls_alone [of s 0 "[]" 0 "[]" 1 7] by auto
qed

definition blind_demo :: "nat lf_act list" where
  "blind_demo =
     [Lf_before_begin 1, Lf_insert 1 10, Lf_step 1, Lf_step 1, Lf_step 1, Lf_insert 1 20, Lf_step 1, Lf_step 1, Lf_step 1,
      Lf_insert 1 30, Lf_step 1, Lf_step 1, Lf_step 1, Lf_before_begin 2, Lf_inc 2,
      Lf_erase 1, Lf_step 1, Lf_step 1, Lf_erase 2, Lf_step 2, Lf_step 2, Lf_step 2, Lf_step 1]"

text \<open>
  The documented limitation of the mode without marking: with three nodes \<open>X\<close>, \<open>Y\<close>, \<open>Z\<close> behind the head
  (addresses 3, 2, 1), two overlapping calls erase \<open>X\<close> behind the head and \<open>Y\<close> behind \<open>X\<close>, both return true, and
  \<open>Y\<close> is in the list again afterwards.
\<close>

theorem blind_erase_resurrects:
  "\<exists>s. run blind_exec (lf_construct 0) blind_demo = Some s \<and>
     lf_pcs s 1 = Er_ret True \<and> lf_pcs s 2 = Er_ret True \<and> next_path (lf_next s) (Some 0) [0, 2, 1]"
  by (simp add: blind_eval blind_demo_def)

end
