(* ===== verification/Intr_Handle.thy ===== *)
theory Intr_Handle
  imports Conc_Prelude
begin

text \<open>
  What the two intrusive atomic shared pointers have in common: the raw word with its stolen bits and
  the reference count in the pointee (\<^verbatim>\<open>IntrSharedPtr/intr_pointee.h\<close>), and the owning handle
  \<open>shared_ptr_type\<close> with the conversions between words and handles
  (\<^verbatim>\<open>IntrSharedPtr/intr_shared_ptr_common.h\<close>).

  Everything that can own a reference is a slot: an atomic word, a handle variable of a thread, and two
  hidden variables per thread, the by-value parameter of a call and the reference a call is about to
  hand over or to release.  The central statement about the counts is \<open>counts_exact\<close>: the count of every
  object that exists is the number of slots that point to it, and no slot points to an object that does
  not exist.
\<close>

section \<open>Words\<close>

type_synonym uintptr = "64 word"

text \<open>The word without the mark bit, and the word as a pointer without either stolen bit.\<close>

definition unmarked_ptr :: "uintptr \<Rightarrow> uintptr" where
  "unmarked_ptr w = w AND NOT 1"

definition ptr_of :: "uintptr \<Rightarrow> uintptr" where
  "ptr_of w = w AND NOT 3"

definition word_marked :: "uintptr \<Rightarrow> bool" where
  "word_marked w \<longleftrightarrow> w AND 1 \<noteq> 0"

definition word_set_mark :: "uintptr \<Rightarrow> uintptr" where
  "word_set_mark w = w OR 1"

definition word_locked :: "uintptr \<Rightarrow> bool" where
  "word_locked w \<longleftrightarrow> w AND 2 \<noteq> 0"

definition with_lock :: "uintptr \<Rightarrow> uintptr" where
  "with_lock w = w OR 2"

definition without_lock :: "uintptr \<Rightarrow> uintptr" where
  "without_lock w = w AND NOT 2"

lemma bit_one_word: "bit (1 :: uintptr) n \<longleftrightarrow> n = 0"
  by (simp add: bit_1_iff)

lemma bit_two_word: "bit (2 :: uintptr) n \<longleftrightarrow> n = 1"
  using bit_push_bit_iff [of 1 "1 :: uintptr" n] by (auto simp: bit_1_iff)

lemma bit_three_word: "bit (3 :: uintptr) n \<longleftrightarrow> n < 2"
proof -
  have "(3 :: uintptr) = mask 2" by (simp add: mask_eq_exp_minus_1)
  then show ?thesis by (simp only: bit_mask_iff possible_bit_word) auto
qed

named_theorems word_bits \<open>the stolen bits read bit by bit\<close>

lemma bit_unmarked_ptr [word_bits]: "bit (unmarked_ptr w) n \<longleftrightarrow> n \<noteq> 0 \<and> bit w n"
  unfolding unmarked_ptr_def bit_and_iff bit_not_iff bit_one_word
  by (auto dest: bit_imp_possible_bit)

lemma bit_ptr_of [word_bits]: "bit (ptr_of w) n \<longleftrightarrow> 2 \<le> n \<and> bit w n"
  unfolding ptr_of_def bit_and_iff bit_not_iff bit_three_word
  by (auto dest: bit_imp_possible_bit)

lemma bit_word_set_mark [word_bits]: "bit (word_set_mark w) n \<longleftrightarrow> n = 0 \<or> bit w n"
  unfolding word_set_mark_def bit_or_iff bit_one_word by auto

lemma bit_with_lock [word_bits]: "bit (with_lock w) n \<longleftrightarrow> n = 1 \<or> bit w n"
  unfolding with_lock_def bit_or_iff bit_two_word by auto

lemma bit_without_lock [word_bits]: "bit (without_lock w) n \<longleftrightarrow> n \<noteq> 1 \<and> bit w n"
  unfolding without_lock_def bit_and_iff bit_not_iff bit_two_word
  by (auto dest: bit_imp_possible_bit)

lemma and_ne_0_bit: "(w :: uintptr) AND v \<noteq> 0 \<longleftrightarrow> (\<exists>n. bit w n \<and> bit v n)"
proof -
  have "u = 0" if "\<forall>n. \<not> bit u n" for u :: uintptr
    by (rule bit_word_eqI) (use that in simp)
  then have "(w AND v \<noteq> 0) = (\<exists>n. bit (w AND v) n)" by auto
  then show ?thesis by (simp only: bit_and_iff)
qed

lemma word_locked_bit [word_bits]: "word_locked w \<longleftrightarrow> bit w 1"
  unfolding word_locked_def and_ne_0_bit bit_two_word by auto

lemma word_marked_bit [word_bits]: "word_marked w \<longleftrightarrow> bit w 0"
  unfolding word_marked_def and_ne_0_bit bit_one_word by auto

lemma ptr_of_simps [simp]:
  "ptr_of 0 = 0" "ptr_of 1 = 0" "ptr_of (ptr_of w) = ptr_of w" "ptr_of (unmarked_ptr w) = ptr_of w"
  "ptr_of (word_set_mark w) = ptr_of w" "ptr_of (with_lock w) = ptr_of w" "ptr_of (without_lock w) = ptr_of w"
  by (rule bit_word_eqI, auto simp: word_bits bit_one_word)+

lemma lock_bit_simps [simp]:
  "word_locked (with_lock w)" "\<not> word_locked (without_lock w)" "\<not> word_locked (ptr_of w)" "\<not> word_locked 0"
  "word_locked (word_set_mark w) = word_locked w" "word_locked (unmarked_ptr w) = word_locked w"
  by (auto simp: word_bits)

lemma without_lock_simps [simp]:
  "without_lock (with_lock w) = without_lock w" "without_lock (without_lock w) = without_lock w"
  "without_lock 0 = 0" "without_lock (ptr_of w) = ptr_of w"
  by (rule bit_word_eqI, auto simp: word_bits)+

lemma without_lock_id [simp]: "\<not> word_locked w \<Longrightarrow> without_lock w = w"
  by (rule bit_word_eqI) (auto simp: word_bits)

lemma unmarked_ptr_of [simp]: "\<not> word_locked w \<Longrightarrow> unmarked_ptr w = ptr_of w"
  by (rule bit_word_eqI) (auto simp: word_bits numeral_2_eq_2 Suc_le_eq neq0_conv intro: Suc_lessI)

lemma mark_bit_simps [simp]:
  "word_marked (word_set_mark w)" "\<not> word_marked (unmarked_ptr w)" "\<not> word_marked (ptr_of w)"
  "word_marked (with_lock w) = word_marked w" "word_marked (without_lock w) = word_marked w"
  by (auto simp: word_bits)

text \<open>A word is its pointer and its mark; the two values with a null pointer are null and marked null.\<close>

lemma word_identity:
  assumes "\<not> word_locked v" and "\<not> word_locked w" and "ptr_of v = ptr_of w" and "word_marked v = word_marked w"
  shows "v = w"
proof (rule bit_word_eqI)
  fix n :: nat
  have "(2 \<le> n \<and> bit v n) = (2 \<le> n \<and> bit w n)"
    unfolding bit_ptr_of [symmetric] assms(3) ..
  moreover have "n \<in> {0, 1} \<or> 2 \<le> (n :: nat)" by auto
  ultimately show "bit v n = bit w n" using assms(1,2,4) by (auto simp: word_bits)
qed

section \<open>Slots and counts\<close>

datatype slot = Word nat | Hnd tid nat | Arg tid | Tmp tid

record rstore =
  rs_count :: "uintptr \<rightharpoonup> nat"
  rs_slot :: "slot \<Rightarrow> uintptr"

definition refs :: "(slot \<Rightarrow> uintptr) \<Rightarrow> uintptr \<Rightarrow> nat" where
  "refs m x = card {l. ptr_of (m l) = x}"

definition fin_slots :: "(slot \<Rightarrow> uintptr) \<Rightarrow> bool" where
  "fin_slots m \<longleftrightarrow> finite {l. ptr_of (m l) \<noteq> 0}"

definition hook_use_count :: "uintptr \<Rightarrow> rstore \<Rightarrow> nat" where
  "hook_use_count p r = (case rs_count r p of None \<Rightarrow> 0 | Some c \<Rightarrow> c)"

definition counts_exact :: "rstore \<Rightarrow> bool" where
  "counts_exact r \<longleftrightarrow> fin_slots (rs_slot r) \<and> (\<forall>x. x \<noteq> 0 \<longrightarrow> refs (rs_slot r) x = hook_use_count x r)"

text \<open>
  The hooks of the pointee.  \<open>hook_AddRef\<close> on an object that does not exist, or whose count is zero although it
  has been owned, is a use after free; \<open>hook_DelRef\<close> returns whether the count fell from one to zero.
\<close>

definition hook_AddRef :: "uintptr \<Rightarrow> rstore \<Rightarrow> rstore option" where
  "hook_AddRef p r =
     (if p = 0 then Some r
      else case rs_count r p of None \<Rightarrow> None
           | Some c \<Rightarrow> (if c = 0 then None else Some (r\<lparr>rs_count := (rs_count r)(p \<mapsto> Suc c)\<rparr>)))"

definition hook_DelRef :: "uintptr \<Rightarrow> rstore \<Rightarrow> (bool \<times> rstore) option" where
  "hook_DelRef p r =
     (case rs_count r p of None \<Rightarrow> None
      | Some c \<Rightarrow> (if c = 0 then None else Some (c = 1, r\<lparr>rs_count := (rs_count r)(p \<mapsto> c - 1)\<rparr>)))"

definition free_obj :: "uintptr \<Rightarrow> rstore \<Rightarrow> rstore option" where
  "free_obj p r = (if rs_count r p = Some 0 then Some (r\<lparr>rs_count := (rs_count r)(p := None)\<rparr>) else None)"

definition set_slot :: "slot \<Rightarrow> uintptr \<Rightarrow> rstore \<Rightarrow> rstore" where
  "set_slot l w r = r\<lparr>rs_slot := (rs_slot r)(l := w)\<rparr>"

lemma set_slot_simps [simp]:
  "rs_count (set_slot l w r) = rs_count r" "rs_slot (set_slot l w r) = (rs_slot r)(l := w)"
  by (simp_all add: set_slot_def)

lemma use_count_upd [simp]:
  "hook_use_count x (set_slot l w r) = hook_use_count x r"
  "hook_use_count x (r\<lparr>rs_count := (rs_count r)(p \<mapsto> c)\<rparr>) = (if x = p then c else hook_use_count x r)"
  "hook_use_count x (r\<lparr>rs_count := (rs_count r)(p := None)\<rparr>) = (if x = p then 0 else hook_use_count x r)"
  by (simp_all add: hook_use_count_def)

lemma fin_slots_upd: "fin_slots m \<Longrightarrow> fin_slots (m(a := w))"
  unfolding fin_slots_def by (rule finite_subset [of _ "insert a {l. ptr_of (m l) \<noteq> 0}"]) auto

lemma fin_slotsD: "fin_slots m \<Longrightarrow> x \<noteq> 0 \<Longrightarrow> finite {l. ptr_of (m l) = x}"
  unfolding fin_slots_def by (erule rev_finite_subset) auto

lemma countsD: "counts_exact r \<Longrightarrow> fin_slots (rs_slot r)" "counts_exact r \<Longrightarrow> x \<noteq> 0 \<Longrightarrow> refs (rs_slot r) x = hook_use_count x r"
  by (simp_all add: counts_exact_def)

lemma refs_upd:
  assumes "fin_slots m" and "x \<noteq> 0"
  shows "refs (m(a := w)) x + (if ptr_of (m a) = x then 1 else 0) = refs m x + (if ptr_of w = x then 1 else 0)"
proof -
  let ?A = "{l. l \<noteq> a \<and> ptr_of (m l) = x}"
  have fin: "finite ?A" using fin_slotsD [OF assms] by (rule rev_finite_subset) auto
  have "{l. ptr_of ((m(a := w)) l) = x} = (if ptr_of w = x then insert a ?A else ?A)" by auto
  moreover have "{l. ptr_of (m l) = x} = (if ptr_of (m a) = x then insert a ?A else ?A)" by auto
  ultimately show ?thesis using fin by (simp add: refs_def)
qed

lemma counts_own:
  assumes "counts_exact r" and "ptr_of (rs_slot r l) = x" and "x \<noteq> 0"
  obtains c where "rs_count r x = Some (Suc c)"
proof -
  have "0 < refs (rs_slot r) x"
    using fin_slotsD [OF countsD(1) [OF assms(1)] assms(3)] assms(2) by (auto simp: refs_def card_gt_0_iff)
  then have "0 < hook_use_count x r" using countsD(2) [OF assms(1,3)] by simp
  then show ?thesis using that
    by (cases "rs_count r x") (auto simp: hook_use_count_def gr0_conv_Suc)
qed

text \<open>The ways in which counts and slots change together.\<close>

lemma counts_exactI:
  assumes "fin_slots (rs_slot r)" and "\<And>x. x \<noteq> 0 \<Longrightarrow> refs (rs_slot r) x = hook_use_count x r"
  shows "counts_exact r"
  using assms by (simp add: counts_exact_def)

lemma counts_take:
  assumes c: "counts_exact r" and z: "ptr_of (rs_slot r l) = 0" and "hook_AddRef (ptr_of w) r = Some r'"
  shows "counts_exact (set_slot l w r')"
proof (rule counts_exactI)
  have slots: "rs_slot r' = rs_slot r"
    using assms(3) by (auto simp: hook_AddRef_def split: option.splits if_splits)
  show "fin_slots (rs_slot (set_slot l w r'))" using fin_slots_upd [OF countsD(1) [OF c]] slots by simp
  fix x :: uintptr assume x: "x \<noteq> 0"
  have "hook_use_count x r' = hook_use_count x r + (if ptr_of w = x then 1 else 0)"
    using assms(3) x by (auto simp: hook_AddRef_def hook_use_count_def split: option.splits if_splits)
  then show "refs (rs_slot (set_slot l w r')) x = hook_use_count x (set_slot l w r')"
    using refs_upd [OF countsD(1) [OF c] x, of l w] z x countsD(2) [OF c x] slots by simp
qed

lemma counts_drop:
  assumes c: "counts_exact r" and d: "hook_DelRef (ptr_of (rs_slot r l)) r = Some (b, r')"
    and nz: "ptr_of (rs_slot r l) \<noteq> 0"
  shows "counts_exact (set_slot l 0 r')"
proof (rule counts_exactI)
  let ?p = "ptr_of (rs_slot r l)"
  have slots: "rs_slot r' = rs_slot r"
    using d by (auto simp: hook_DelRef_def split: option.splits if_splits)
  show "fin_slots (rs_slot (set_slot l 0 r'))" using fin_slots_upd [OF countsD(1) [OF c]] slots by simp
  fix x :: uintptr assume x: "x \<noteq> 0"
  have "hook_use_count x r' + (if ?p = x then 1 else 0) = hook_use_count x r"
    using d x by (auto simp: hook_DelRef_def hook_use_count_def split: option.splits if_splits)
  then show "refs (rs_slot (set_slot l 0 r')) x = hook_use_count x (set_slot l 0 r')"
    using refs_upd [OF countsD(1) [OF c] x, of l 0] x countsD(2) [OF c x] slots by simp
qed

lemma counts_swap:
  assumes c: "counts_exact r" and ab: "a \<noteq> b" and v: "ptr_of v = ptr_of (rs_slot r b)"
    and w: "ptr_of w = ptr_of (rs_slot r a)"
  shows "counts_exact (set_slot b w (set_slot a v r))"
proof (rule counts_exactI)
  note f = countsD(1) [OF c]
  show "fin_slots (rs_slot (set_slot b w (set_slot a v r)))"
    using fin_slots_upd [OF fin_slots_upd [OF f]] by simp
  fix x :: uintptr assume x: "x \<noteq> 0"
  have "((rs_slot r)(a := v)) b = rs_slot r b" using ab by simp
  then have "refs ((rs_slot r)(a := v, b := w)) x + (if ptr_of (rs_slot r b) = x then 1 else 0) =
      refs ((rs_slot r)(a := v)) x + (if ptr_of w = x then 1 else 0)"
    using refs_upd [OF fin_slots_upd [OF f] x, of a v b w] by simp
  then have "refs ((rs_slot r)(a := v, b := w)) x = refs (rs_slot r) x"
    using refs_upd [OF f x, of a v] v w by simp
  then show "refs (rs_slot (set_slot b w (set_slot a v r))) x = hook_use_count x (set_slot b w (set_slot a v r))"
    using countsD(2) [OF c x] by simp
qed

lemma counts_same:
  assumes c: "counts_exact r" and w: "ptr_of w = ptr_of (rs_slot r l)"
  shows "counts_exact (set_slot l w r)"
proof (rule counts_exactI)
  show "fin_slots (rs_slot (set_slot l w r))" using fin_slots_upd [OF countsD(1) [OF c]] by simp
  fix x :: uintptr assume x: "x \<noteq> 0"
  then show "refs (rs_slot (set_slot l w r)) x = hook_use_count x (set_slot l w r)"
    using refs_upd [OF countsD(1) [OF c] x, of l w] countsD(2) [OF c x] w by simp
qed

lemma counts_free: "counts_exact r \<Longrightarrow> free_obj p r = Some r' \<Longrightarrow> counts_exact r'"
  by (auto simp: counts_exact_def free_obj_def hook_use_count_def split: if_splits)

lemma AddRef_owned:
  assumes "counts_exact r" and "ptr_of (rs_slot r l) = p"
  obtains r' where "hook_AddRef p r = Some r'" "rs_slot r' = rs_slot r"
proof (cases "p = 0")
  case False
  then show ?thesis using counts_own [OF assms False] that by (fastforce simp: hook_AddRef_def)
qed (use that in \<open>simp add: hook_AddRef_def\<close>)

lemma DelRef_owned:
  assumes "counts_exact r" and "ptr_of (rs_slot r l) = p" and "p \<noteq> 0"
  obtains b r' where "hook_DelRef p r = Some (b, r')" "rs_slot r' = rs_slot r" "b \<longleftrightarrow> rs_count r' p = Some 0"
  using counts_own [OF assms] that by (fastforce simp: hook_DelRef_def)

section \<open>Handles\<close>

text \<open>
  The operations of \<open>shared_ptr_type\<close> on a thread's own handle variables.  Each takes at most one reference,
  into the hidden variable of the thread, and leaves there the word whose reference it gives up; the release
  is the next step of the machine that uses it.  \<open>Hop_adopt j w\<close> is \<open>h = shared_ptr_type(p)\<close> for a raw
  pointer (a new object when nothing exists at its address), \<open>Hop_copy\<close> and \<open>Hop_move\<close> the two
  assignments, \<open>Hop_mark\<close> and \<open>Hop_unmark\<close> assign the result of \<open>set_mark()\<close> and \<open>get_unmarked() const &\<close>,
  \<open>Hop_take_unmarked\<close> that of \<open>get_unmarked() &&\<close>, and \<open>Hop_reset\<close> is the destructor.
\<close>

datatype hop =
    Hop_adopt nat uintptr
  | Hop_copy nat nat
  | Hop_move nat nat
  | Hop_mark nat nat
  | Hop_unmark nat nat
  | Hop_take_unmarked nat nat
  | Hop_reset nat

definition swap_slots :: "slot \<Rightarrow> slot \<Rightarrow> rstore \<Rightarrow> rstore" where
  "swap_slots a b r = set_slot b (rs_slot r a) (set_slot a (rs_slot r b) r)"

definition take_ref :: "tid \<Rightarrow> uintptr \<Rightarrow> rstore \<Rightarrow> rstore option" where
  "take_ref t w r = map_option (set_slot (Tmp t) w) (hook_AddRef (unmarked_ptr w) r)"

definition adopt_raw :: "tid \<Rightarrow> uintptr \<Rightarrow> rstore \<Rightarrow> rstore option" where
  "adopt_raw t w r =
     (if word_locked w then None
      else if unmarked_ptr w \<noteq> 0 \<and> rs_count r (unmarked_ptr w) = None
      then Some (set_slot (Tmp t) w (r\<lparr>rs_count := (rs_count r)(unmarked_ptr w \<mapsto> 1)\<rparr>))
      else take_ref t w r)"

fun hop_begin :: "tid \<Rightarrow> hop \<Rightarrow> rstore \<Rightarrow> rstore option" where
  "hop_begin t (Hop_adopt j w) r = map_option (swap_slots (Tmp t) (Hnd t j)) (adopt_raw t w r)"
| "hop_begin t (Hop_copy i j) r =
     (if i = j then Some r
      else map_option (swap_slots (Tmp t) (Hnd t j)) (take_ref t (rs_slot r (Hnd t i)) r))"
| "hop_begin t (Hop_move i j) r =
     (if i = j then Some r
      else Some (swap_slots (Tmp t) (Hnd t i) (swap_slots (Hnd t i) (Hnd t j) r)))"
| "hop_begin t (Hop_mark i j) r =
     map_option (swap_slots (Tmp t) (Hnd t j)) (take_ref t (word_set_mark (rs_slot r (Hnd t i))) r)"
| "hop_begin t (Hop_unmark i j) r =
     map_option (swap_slots (Tmp t) (Hnd t j)) (take_ref t (unmarked_ptr (rs_slot r (Hnd t i))) r)"
| "hop_begin t (Hop_take_unmarked i j) r =
     Some (swap_slots (Tmp t) (Hnd t j)
       (swap_slots (Tmp t) (Hnd t i) (set_slot (Hnd t i) (unmarked_ptr (rs_slot r (Hnd t i))) r)))"
| "hop_begin t (Hop_reset j) r = Some (swap_slots (Tmp t) (Hnd t j) r)"

text \<open>
  Releasing the word in the thread's hidden variable: \<open>DelRef\<close>, and whether the object has to be disposed of.
\<close>

definition release_tmp :: "tid \<Rightarrow> rstore \<Rightarrow> (bool \<times> uintptr \<times> rstore) option" where
  "release_tmp t r =
     (let p = unmarked_ptr (rs_slot r (Tmp t)) in
      if p = 0 then Some (False, p, set_slot (Tmp t) 0 r)
      else map_option (\<lambda>(b, r'). (b, p, set_slot (Tmp t) 0 r')) (hook_DelRef p r))"

text \<open>The handle part of an invariant: only atomic words may carry the lock bit.\<close>

definition clean_slots :: "rstore \<Rightarrow> bool" where
  "clean_slots r \<longleftrightarrow> (\<forall>l. (\<forall>w. l \<noteq> Word w) \<longrightarrow> \<not> word_locked (rs_slot r l)) \<and> rs_count r 0 = None"

definition zeros :: "rstore \<Rightarrow> uintptr set" where
  "zeros r = {x. rs_count r x = Some 0}"

lemma swap_slots_simps [simp]:
  "rs_count (swap_slots a b r) = rs_count r"
  "rs_slot (swap_slots a b r) = (rs_slot r)(a := rs_slot r b, b := rs_slot r a)"
  by (simp_all add: swap_slots_def)

lemma swap_slots_same [simp]: "swap_slots a a r = r"
  by (simp add: swap_slots_def set_slot_def)

lemma counts_swap_slots: "counts_exact r \<Longrightarrow> counts_exact (swap_slots a b r)"
  by (cases "a = b") (auto simp: swap_slots_def intro: counts_swap)

lemma clean_swap: "clean_slots r \<Longrightarrow> (\<forall>w. a \<noteq> Word w) \<Longrightarrow> (\<forall>w. b \<noteq> Word w) \<Longrightarrow> clean_slots (swap_slots a b r)"
  by (auto simp: clean_slots_def)

lemma clean_set: "clean_slots r \<Longrightarrow> \<not> word_locked w \<Longrightarrow> clean_slots (set_slot l w r)"
  by (auto simp: clean_slots_def)

text \<open>\<open>own_change t r r'\<close>: nothing but the slots of thread \<open>t\<close> and the counts have changed, and no count is newly zero.\<close>

definition own_change :: "tid \<Rightarrow> rstore \<Rightarrow> rstore \<Rightarrow> bool" where
  "own_change t r r' \<longleftrightarrow>
     (\<forall>w. rs_slot r' (Word w) = rs_slot r (Word w)) \<and> rs_slot r' (Arg t) = rs_slot r (Arg t) \<and>
     (\<forall>u. u \<noteq> t \<longrightarrow> (\<forall>i. rs_slot r' (Hnd u i) = rs_slot r (Hnd u i)) \<and>
        rs_slot r' (Arg u) = rs_slot r (Arg u) \<and> rs_slot r' (Tmp u) = rs_slot r (Tmp u))"

lemma own_change_trans: "own_change t r1 r2 \<Longrightarrow> own_change t r2 r3 \<Longrightarrow> own_change t r1 r3"
  by (simp add: own_change_def)

lemma own_change_simps [simp]:
  "own_change t r r" "own_change t r (swap_slots (Tmp t) (Hnd t j) r)"
  "own_change t r (swap_slots (Hnd t i) (Hnd t j) r)"
  "own_change t r (set_slot (Tmp t) w r)" "own_change t r (set_slot (Hnd t i) w r)"
  by (auto simp: own_change_def)

text \<open>\<open>handle_ok\<close>: what every step that only concerns counts and the thread's own slots keeps.\<close>

definition handle_ok :: "tid \<Rightarrow> rstore \<Rightarrow> rstore \<Rightarrow> bool" where
  "handle_ok t r r' \<longleftrightarrow> counts_exact r' \<and> clean_slots r' \<and> zeros r' = zeros r \<and> own_change t r r'"

lemma handle_ok_swap:
  assumes "handle_ok t r r'"
  shows "handle_ok t r (swap_slots (Tmp t) (Hnd t j) r')" "handle_ok t r (swap_slots (Hnd t i) (Hnd t j) r')"
  using assms own_change_trans own_change_simps
  by (auto simp: handle_ok_def zeros_def intro!: counts_swap_slots clean_swap)

lemma take_ref_ok:
  assumes "counts_exact r" and "clean_slots r" and "ptr_of (rs_slot r (Tmp t)) = 0"
    and "take_ref t w r = Some r'" and "\<not> word_locked w"
  shows "handle_ok t r r' \<and> rs_slot r' = (rs_slot r)(Tmp t := w)"
proof -
  obtain r1 where r1: "hook_AddRef (ptr_of w) r = Some r1" "r' = set_slot (Tmp t) w r1"
    using assms(4,5) by (auto simp: take_ref_def)
  then have "rs_slot r1 = rs_slot r" "zeros r1 = zeros r" "rs_count r1 0 = None"
    using assms(2) by (auto simp: hook_AddRef_def zeros_def clean_slots_def split: option.splits if_splits)
  then show ?thesis
    using counts_take [OF assms(1,3) r1(1)] r1(2) assms(2,5)
    by (auto simp: handle_ok_def clean_slots_def own_change_def zeros_def)
qed

lemma adopt_raw_ok:
  assumes "counts_exact r" and "clean_slots r" and "ptr_of (rs_slot r (Tmp t)) = 0" and "adopt_raw t w r = Some r'"
  shows "handle_ok t r r'"
proof (cases "unmarked_ptr w \<noteq> 0 \<and> rs_count r (unmarked_ptr w) = None")
  case True
  then have w: "\<not> word_locked w" "ptr_of w \<noteq> 0" "rs_count r (ptr_of w) = None"
    and r': "r' = set_slot (Tmp t) w (r\<lparr>rs_count := (rs_count r)(ptr_of w \<mapsto> 1)\<rparr>)"
    using assms(4) by (auto simp: adopt_raw_def split: if_splits)
  have "counts_exact r'"
  proof (rule counts_exactI)
    show "fin_slots (rs_slot r')" using r' fin_slots_upd [OF countsD(1) [OF assms(1)]] by simp
    fix x :: uintptr assume x: "x \<noteq> 0"
    have "hook_use_count x r' = hook_use_count x r + (if ptr_of w = x then 1 else 0)"
      using w(3) r' by (auto simp: hook_use_count_def)
    then show "refs (rs_slot r') x = hook_use_count x r'"
      using refs_upd [OF countsD(1) [OF assms(1)] x, of "Tmp t" w] assms(3) x countsD(2) [OF assms(1) x] r' by simp
  qed
  then show ?thesis using r' w assms(2) by (auto simp: handle_ok_def clean_slots_def own_change_def zeros_def)
next
  case False
  then show ?thesis using assms take_ref_ok [OF assms(1-3)] by (auto simp: adopt_raw_def split: if_splits)
qed

lemma hop_begin_ok:
  assumes c: "counts_exact r" and cl: "clean_slots r" and z: "rs_slot r (Tmp t) = 0" and h: "hop_begin t a r = Some r'"
  shows "handle_ok t r r'"
proof -
  have z': "ptr_of (rs_slot r (Tmp t)) = 0" using z by simp
  have refl: "handle_ok t r r" using c cl by (simp add: handle_ok_def)
  have clean: "\<not> word_locked (rs_slot r (Hnd t i))" for i using cl by (simp add: clean_slots_def)
  note take = take_ref_ok [OF c cl z', THEN conjunct1] and adopt = adopt_raw_ok [OF c cl z']
  show ?thesis
  proof (cases a)
    case (Hop_take_unmarked i j)
    let ?r1 = "set_slot (Hnd t i) (unmarked_ptr (rs_slot r (Hnd t i))) r"
    have "handle_ok t r ?r1"
      using c cl clean [of i] by (auto simp: handle_ok_def zeros_def intro: counts_same clean_set)
    then show ?thesis using h Hop_take_unmarked handle_ok_swap(1) by auto
  qed (use h take adopt refl clean handle_ok_swap in \<open>auto split: if_splits\<close>)
qed

lemma release_tmp_ok:
  assumes c: "counts_exact r" and cl: "clean_slots r"
  shows "\<exists>b p r'. release_tmp t r = Some (b, p, r') \<and> counts_exact r' \<and> clean_slots r' \<and> own_change t r r' \<and>
     rs_slot r' (Tmp t) = 0 \<and> (\<forall>i. rs_slot r' (Hnd t i) = rs_slot r (Hnd t i)) \<and>
     zeros r' = (if b then insert p (zeros r) else zeros r) \<and> (b \<longrightarrow> p \<noteq> 0 \<and> p \<notin> zeros r)"
proof -
  let ?p = "ptr_of (rs_slot r (Tmp t))"
  have u: "unmarked_ptr (rs_slot r (Tmp t)) = ?p" using cl by (simp add: clean_slots_def)
  show ?thesis
  proof (cases "?p = 0")
    case True
    then show ?thesis using c cl u counts_same [OF c, of 0 "Tmp t"] clean_set [OF cl, of 0 "Tmp t"]
      by (auto simp: release_tmp_def zeros_def own_change_def)
  next
    case False
    obtain k where k: "rs_count r ?p = Some (Suc k)" using counts_own [OF c refl False] by blast
    let ?r = "set_slot (Tmp t) 0 (r\<lparr>rs_count := (rs_count r)(?p \<mapsto> k)\<rparr>)"
    have d: "hook_DelRef ?p r = Some (k = 0, r\<lparr>rs_count := (rs_count r)(?p \<mapsto> k)\<rparr>)"
      using k by (simp add: hook_DelRef_def)
    then have "release_tmp t r = Some (k = 0, ?p, ?r)" using u False by (simp add: release_tmp_def Let_def)
    moreover have "counts_exact ?r" using counts_drop [OF c d False] .
    moreover have "clean_slots ?r" "own_change t r ?r" "zeros ?r = (if k = 0 then insert ?p (zeros r) else zeros r)"
      "?p \<notin> zeros r"
      using cl False k by (auto simp: clean_slots_def own_change_def zeros_def)
    ultimately show ?thesis using False by (intro exI [of _ "k = 0"] exI [of _ ?p] exI [of _ ?r]) simp
  qed
qed

end
