(* ===== verification/Intr_Ptr.thy ===== *)
theory Intr_Ptr
  imports Intr_Handle
begin

text \<open>
  The atomic shared pointer with the embedded spinlock, \<^verbatim>\<open>IntrSharedPtr/intr_shared_ptr.h\<close>: any number of
  atomic words and threads, each thread with its own handles.  One step is one access to a word or to a
  count.  A step that would touch an object that does not exist, revive an object whose count
  is zero or delete an object twice is not enabled, so that an operation that can always
  continue never does any of these.
\<close>

section \<open>State\<close>

text \<open>
  The operation a thread performs on a word: \<open>Op_load w d\<close> is \<open>d = w.load()\<close>, \<open>Op_store w\<close> is \<open>w.store(desired)\<close>
  with the parameter in the thread's \<open>Arg\<close> slot, \<open>Op_cas w e d\<close> is \<open>w.compare_exchange_strong(e, d)\<close>.
\<close>

datatype ip_op = Op_load nat nat | Op_store nat | Op_cas nat nat nat

datatype ip_fin = Fin_unit | Fin_bool bool | Fin_arg

datatype ip_pc =
    Ip_rest
  | Ip_stadd nat                    \<comment> \<open>\<open>store\<close>: about to \<open>AddRef\<close> the new pointee for the word\<close>
  | Ip_load ip_op nat               \<comment> \<open>\<open>lock\<close>: about to load the word, with \<open>spin_count\<close>\<close>
  | Ip_try ip_op nat uintptr        \<comment> \<open>\<open>lock\<close>: about to set the lock bit of the unlocked value last seen\<close>
  | Ip_spin ip_op nat nat           \<comment> \<open>\<open>lock\<close>: re-check number \<open>i\<close> of a locked word\<close>
  | Ip_park ip_op nat               \<comment> \<open>\<open>lock\<close>: about to yield or sleep, and to load the word again\<close>
  | Ip_crit ip_op uintptr           \<comment> \<open>lock held, the count of the pointee not yet raised\<close>
  | Ip_pub ip_op uintptr            \<comment> \<open>about to publish the new word, which releases the lock\<close>
  | Ip_unlock ip_op uintptr         \<comment> \<open>about to write the old word back\<close>
  | Ip_rel ip_fin                   \<comment> \<open>about to release the word in \<open>Tmp\<close>\<close>
  | Ip_del uintptr ip_fin           \<comment> \<open>about to delete the object whose count fell to zero\<close>
  | Ip_done ip_fin

record isp =
  isp_store :: rstore
  isp_pcs :: "tid \<Rightarrow> ip_pc"

definition isp_init :: isp where
  "isp_init = \<lparr>isp_store = \<lparr>rs_count = Map.empty, rs_slot = (\<lambda>_. 0)\<rparr>, isp_pcs = (\<lambda>_. Ip_rest)\<rparr>"

fun op_word :: "ip_op \<Rightarrow> nat" where
  "op_word (Op_load w d) = w"
| "op_word (Op_store w) = w"
| "op_word (Op_cas w e d) = w"

definition isp_to :: "tid \<Rightarrow> ip_pc \<Rightarrow> rstore \<Rightarrow> isp \<Rightarrow> isp" where
  "isp_to t p r s = s\<lparr>isp_store := r, isp_pcs := (isp_pcs s)(t := p)\<rparr>"

section \<open>The embedded lock\<close>

text \<open>\<open>Intent::Read\<close> for \<open>load\<close>, \<open>Intent::Write\<close> for the others; how \<open>spin_count\<close> moves at the end of a round.\<close>

fun op_reads :: "ip_op \<Rightarrow> bool" where
  "op_reads (Op_load w d) = True"
| "op_reads _ = False"

definition park_count :: "ip_op \<Rightarrow> nat \<Rightarrow> nat" where
  "park_count op c = (if c < (if op_reads op then 32 else 8) then Suc c else 0)"

definition lock_dispatch :: "ip_op \<Rightarrow> nat \<Rightarrow> uintptr \<Rightarrow> ip_pc" where
  "lock_dispatch op c val = (if word_locked val then Ip_spin op c 0 else Ip_try op c val)"

definition after_lock :: "ip_op \<Rightarrow> uintptr \<Rightarrow> ip_pc" where
  "after_lock op val = (case op of Op_store w \<Rightarrow> Ip_pub op val | _ \<Rightarrow> Ip_crit op val)"

fun lock_step :: "tid \<Rightarrow> ip_pc \<Rightarrow> isp \<Rightarrow> isp option" where
  "lock_step t (Ip_load op c) s =
     (let r = isp_store s in Some (isp_to t (lock_dispatch op c (rs_slot r (Word (op_word op)))) r s))"
| "lock_step t (Ip_try op c val) s =
     (let r = isp_store s; cur = rs_slot r (Word (op_word op)) in
      if cur = val then Some (isp_to t (after_lock op val) (set_slot (Word (op_word op)) (with_lock val) r) s)
      else Some (isp_to t (lock_dispatch op c cur) r s))"
| "lock_step t (Ip_spin op c i) s =
     (let r = isp_store s; val = rs_slot r (Word (op_word op)) in
      if \<not> word_locked val then Some (isp_to t (Ip_try op c val) r s)
      else Some (isp_to t (if Suc i < 8 then Ip_spin op c (Suc i) else Ip_park op c) r s))"
| "lock_step t (Ip_park op c) s =
     (let r = isp_store s in
      Some (isp_to t (lock_dispatch op (park_count op c) (rs_slot r (Word (op_word op)))) r s))"
| "lock_step t _ s = None"

section \<open>The operations under the lock\<close>

fun crit_step :: "tid \<Rightarrow> ip_pc \<Rightarrow> isp \<Rightarrow> isp option" where
  "crit_step t (Ip_stadd w) s =
     (let r = isp_store s in
      map_option (\<lambda>r'. isp_to t (Ip_load (Op_store w) 0) r' s) (take_ref t (rs_slot r (Arg t)) r))"
| "crit_step t (Ip_crit (Op_load w d) val) s =
     map_option (\<lambda>r'. isp_to t (Ip_unlock (Op_load w d) val) r' s) (take_ref t (without_lock val) (isp_store s))"
| "crit_step t (Ip_crit (Op_cas w e d) val) s =
     (let r = isp_store s in
      if without_lock val = rs_slot r (Hnd t e)
      then map_option (\<lambda>r'. isp_to t (Ip_pub (Op_cas w e d) val) r' s) (take_ref t (rs_slot r (Hnd t d)) r)
      else map_option (\<lambda>r'. isp_to t (Ip_unlock (Op_cas w e d) val) r' s) (take_ref t (without_lock val) r))"
| "crit_step t (Ip_pub (Op_store w) val) s =
     (let r = isp_store s in
      Some (isp_to t (Ip_rel Fin_arg) (set_slot (Tmp t) (ptr_of val) (set_slot (Word w) (rs_slot r (Arg t)) r)) s))"
| "crit_step t (Ip_pub (Op_cas w e d) val) s =
     (let r = isp_store s in
      Some (isp_to t (Ip_rel (Fin_bool True))
              (set_slot (Tmp t) (ptr_of val) (set_slot (Word w) (rs_slot r (Hnd t d)) r)) s))"
| "crit_step t (Ip_unlock (Op_load w d) val) s =
     Some (isp_to t (Ip_rel Fin_unit) (swap_slots (Tmp t) (Hnd t d) (set_slot (Word w) val (isp_store s))) s)"
| "crit_step t (Ip_unlock (Op_cas w e d) val) s =
     Some (isp_to t (Ip_rel (Fin_bool False)) (swap_slots (Tmp t) (Hnd t e) (set_slot (Word w) val (isp_store s))) s)"
| "crit_step t _ s = None"

text \<open>
  \<open>delete_disposal::release\<close>: \<open>DelRef\<close>, then \<open>delete\<close> of an object whose count fell to zero.  \<open>store\<close> goes
  on to release its by-value parameter.
\<close>

definition rel_next :: "tid \<Rightarrow> ip_fin \<Rightarrow> rstore \<Rightarrow> isp \<Rightarrow> isp" where
  "rel_next t f r s = (case f of
       Fin_arg \<Rightarrow> isp_to t (Ip_rel Fin_unit) (swap_slots (Tmp t) (Arg t) r) s
     | _ \<Rightarrow> isp_to t (Ip_done f) r s)"

fun rel_step :: "tid \<Rightarrow> ip_pc \<Rightarrow> isp \<Rightarrow> isp option" where
  "rel_step t (Ip_rel f) s =
     (case release_tmp t (isp_store s) of None \<Rightarrow> None
      | Some (b, p, r) \<Rightarrow> (if b then Some (isp_to t (Ip_del p f) r s) else Some (rel_next t f r s)))"
| "rel_step t (Ip_del p f) s =
     (case free_obj p (isp_store s) of None \<Rightarrow> None | Some r \<Rightarrow> Some (rel_next t f r s))"
| "rel_step t _ s = None"

definition isp_step :: "tid \<Rightarrow> ip_pc \<Rightarrow> isp \<Rightarrow> isp option" where
  "isp_step t p s = (case lock_step t p s of Some s' \<Rightarrow> Some s' | None \<Rightarrow>
     (case crit_step t p s of Some s' \<Rightarrow> Some s' | None \<Rightarrow> rel_step t p s))"

section \<open>Calls\<close>

datatype isp_act =
    Ip_hop tid hop
  | Ip_call_load tid nat nat
  | Ip_call_store tid nat nat
  | Ip_call_cas tid nat nat nat
  | Ip_construct tid nat nat
  | Ip_destroy tid nat
  | Ip_step tid
  | Ip_weak_fail tid               \<comment> \<open>a spurious failure of the weak compare-exchange in \<open>lock\<close>\<close>

fun isp_tid :: "isp_act \<Rightarrow> tid" where
  "isp_tid (Ip_hop t h) = t"
| "isp_tid (Ip_call_load t w d) = t"
| "isp_tid (Ip_call_store t w i) = t"
| "isp_tid (Ip_call_cas t w e d) = t"
| "isp_tid (Ip_construct t w i) = t"
| "isp_tid (Ip_destroy t w) = t"
| "isp_tid (Ip_step t) = t"
| "isp_tid (Ip_weak_fail t) = t"

fun ip_at_rest :: "ip_pc \<Rightarrow> bool" where
  "ip_at_rest Ip_rest = True"
| "ip_at_rest (Ip_done f) = True"
| "ip_at_rest _ = False"

text \<open>
  Passing a handle by value copies it into the parameter.  The converting constructor may only run on a word
  that holds nothing, the destructor only when no operation has the word locked.
\<close>

definition pass_by_value :: "tid \<Rightarrow> uintptr \<Rightarrow> rstore \<Rightarrow> rstore option" where
  "pass_by_value t w r = map_option (swap_slots (Tmp t) (Arg t)) (take_ref t w r)"

fun isp_call :: "isp \<Rightarrow> isp_act \<Rightarrow> isp option" where
  "isp_call s (Ip_hop t h) = map_option (\<lambda>r. isp_to t (Ip_rel Fin_unit) r s) (hop_begin t h (isp_store s))"
| "isp_call s (Ip_call_load t w d) = Some (isp_to t (Ip_load (Op_load w d) 0) (isp_store s) s)"
| "isp_call s (Ip_call_store t w i) =
     map_option (\<lambda>r. isp_to t (Ip_stadd w) r s)
       (pass_by_value t (rs_slot (isp_store s) (Hnd t i)) (isp_store s))"
| "isp_call s (Ip_call_cas t w e d) = Some (isp_to t (Ip_load (Op_cas w e d) 0) (isp_store s) s)"
| "isp_call s (Ip_construct t w i) =
     (if rs_slot (isp_store s) (Word w) \<noteq> 0 then None
      else Option.bind (pass_by_value t (rs_slot (isp_store s) (Hnd t i)) (isp_store s)) (\<lambda>r.
           Option.bind (take_ref t (rs_slot r (Arg t)) r) (\<lambda>r'.
           Some (isp_to t (Ip_rel Fin_arg) (swap_slots (Tmp t) (Word w) r') s))))"
| "isp_call s (Ip_destroy t w) =
     (let val = rs_slot (isp_store s) (Word w) in
      if word_locked val then None
      else Some (isp_to t (Ip_rel Fin_unit) (set_slot (Tmp t) (ptr_of val) (set_slot (Word w) 0 (isp_store s))) s))"
| "isp_call s _ = None"

definition isp_exec :: "isp \<Rightarrow> isp_act \<Rightarrow> isp option" where
  "isp_exec s a =
     (let t = isp_tid a; p = isp_pcs s t in
      if ip_at_rest p then isp_call s a
      else case a of
          Ip_step _ \<Rightarrow> isp_step t p s
        | Ip_weak_fail _ \<Rightarrow> (case p of
            Ip_try op c val \<Rightarrow>
              Some (isp_to t (lock_dispatch op c (rs_slot (isp_store s) (Word (op_word op)))) (isp_store s) s)
          | _ \<Rightarrow> None)
        | _ \<Rightarrow> None)"

section \<open>The invariant\<close>

text \<open>\<open>ip_holds p\<close>: the word whose lock the thread holds, and the value it replaced by its lock bit.\<close>

fun ip_holds :: "ip_pc \<Rightarrow> (nat \<times> uintptr) option" where
  "ip_holds (Ip_crit op val) = Some (op_word op, val)"
| "ip_holds (Ip_pub op val) = Some (op_word op, val)"
| "ip_holds (Ip_unlock op val) = Some (op_word op, val)"
| "ip_holds _ = None"

fun ip_deletes :: "ip_pc \<Rightarrow> uintptr option" where
  "ip_deletes (Ip_del p f) = Some p"
| "ip_deletes _ = None"

definition ip_ready :: "tid \<Rightarrow> ip_op \<Rightarrow> rstore \<Rightarrow> bool" where
  "ip_ready t op r = (case op of
       Op_store w \<Rightarrow> rs_slot r (Tmp t) = rs_slot r (Arg t)
     | _ \<Rightarrow> rs_slot r (Tmp t) = 0 \<and> rs_slot r (Arg t) = 0)"

fun ip_pc_ok :: "tid \<Rightarrow> ip_pc \<Rightarrow> rstore \<Rightarrow> bool" where
  "ip_pc_ok t Ip_rest r = (rs_slot r (Tmp t) = 0 \<and> rs_slot r (Arg t) = 0)"
| "ip_pc_ok t (Ip_done f) r = (rs_slot r (Tmp t) = 0 \<and> rs_slot r (Arg t) = 0)"
| "ip_pc_ok t (Ip_stadd w) r = (rs_slot r (Tmp t) = 0)"
| "ip_pc_ok t (Ip_load op c) r = ip_ready t op r"
| "ip_pc_ok t (Ip_try op c val) r = (ip_ready t op r \<and> \<not> word_locked val)"
| "ip_pc_ok t (Ip_spin op c i) r = ip_ready t op r"
| "ip_pc_ok t (Ip_park op c) r = ip_ready t op r"
| "ip_pc_ok t (Ip_crit op val) r = (rs_slot r (Tmp t) = 0 \<and> rs_slot r (Arg t) = 0 \<and> (\<forall>w. op \<noteq> Op_store w))"
| "ip_pc_ok t (Ip_pub (Op_load w d) val) r = False"
| "ip_pc_ok t (Ip_pub (Op_store w) val) r = (rs_slot r (Tmp t) = rs_slot r (Arg t))"
| "ip_pc_ok t (Ip_pub (Op_cas w e d) val) r =
     (rs_slot r (Tmp t) = rs_slot r (Hnd t d) \<and> rs_slot r (Arg t) = 0 \<and> val = rs_slot r (Hnd t e))"
| "ip_pc_ok t (Ip_unlock (Op_load w d) val) r = (rs_slot r (Tmp t) = val \<and> rs_slot r (Arg t) = 0)"
| "ip_pc_ok t (Ip_unlock (Op_store w) val) r = False"
| "ip_pc_ok t (Ip_unlock (Op_cas w e d) val) r =
     (rs_slot r (Tmp t) = val \<and> rs_slot r (Arg t) = 0 \<and> val \<noteq> rs_slot r (Hnd t e))"
| "ip_pc_ok t (Ip_rel f) r = (f = Fin_arg \<or> rs_slot r (Arg t) = 0)"
| "ip_pc_ok t (Ip_del p f) r = (rs_slot r (Tmp t) = 0 \<and> (f = Fin_arg \<or> rs_slot r (Arg t) = 0))"

definition isp_inv :: "isp \<Rightarrow> bool" where
  "isp_inv s \<longleftrightarrow>
     (let r = isp_store s; pc = isp_pcs s in
      counts_exact r \<and> clean_slots r \<and> (\<forall>t. ip_pc_ok t (pc t) r) \<and>
      zeros r = {x. \<exists>t. ip_deletes (pc t) = Some x} \<and>
      (\<forall>t u x. ip_deletes (pc t) = Some x \<longrightarrow> ip_deletes (pc u) = Some x \<longrightarrow> t = u) \<and>
      (\<forall>t w v. ip_holds (pc t) = Some (w, v) \<longrightarrow> rs_slot r (Word w) = with_lock v \<and> \<not> word_locked v) \<and>
      (\<forall>w. word_locked (rs_slot r (Word w)) \<longrightarrow> (\<exists>t v. ip_holds (pc t) = Some (w, v))) \<and>
      (\<forall>t u w v v'. ip_holds (pc t) = Some (w, v) \<longrightarrow> ip_holds (pc u) = Some (w, v') \<longrightarrow> t = u))"

lemma isp_invD:
  assumes "isp_inv s"
  shows "counts_exact (isp_store s)" "clean_slots (isp_store s)" "ip_pc_ok t (isp_pcs s t) (isp_store s)"
    "zeros (isp_store s) = {x. \<exists>t. ip_deletes (isp_pcs s t) = Some x}"
    "ip_deletes (isp_pcs s t) = Some x \<Longrightarrow> ip_deletes (isp_pcs s u) = Some x \<Longrightarrow> t = u"
    "ip_holds (isp_pcs s t) = Some (w, v) \<Longrightarrow> rs_slot (isp_store s) (Word w) = with_lock v \<and> \<not> word_locked v"
    "word_locked (rs_slot (isp_store s) (Word w)) \<Longrightarrow> \<exists>t v. ip_holds (isp_pcs s t) = Some (w, v)"
    "ip_holds (isp_pcs s t) = Some (w, v) \<Longrightarrow> ip_holds (isp_pcs s u) = Some (w, v') \<Longrightarrow> t = u"
  using assms unfolding isp_inv_def Let_def by blast+

lemma isp_to_simps [simp]: "isp_store (isp_to t p r s) = r" "isp_pcs (isp_to t p r s) = (isp_pcs s)(t := p)"
  by (simp_all add: isp_to_def)

lemma ip_pc_ok_cong:
  assumes "\<And>i. rs_slot r' (Hnd t i) = rs_slot r (Hnd t i)" and "rs_slot r' (Arg t) = rs_slot r (Arg t)"
    and "rs_slot r' (Tmp t) = rs_slot r (Tmp t)" and "ip_pc_ok t p r"
  shows "ip_pc_ok t p r'"
  using assms(4) by (cases "(t, p, r)" rule: ip_pc_ok.cases)
    (auto simp: assms(1-3) ip_ready_def split: ip_op.splits)

text \<open>
  One step of thread \<open>t\<close> from \<open>s\<close> to the counts and slots \<open>r\<close> and the position \<open>p\<close>: the conditions under which the
  invariant is kept.  Words change only where \<open>t\<close> holds the lock or nobody does.
\<close>

lemma isp_inv_step:
  assumes inv: "isp_inv s"
    and counts: "counts_exact r" "clean_slots r"
    and others: "\<And>u i. u \<noteq> t \<Longrightarrow> rs_slot r (Hnd u i) = rs_slot (isp_store s) (Hnd u i)"
      "\<And>u. u \<noteq> t \<Longrightarrow> rs_slot r (Arg u) = rs_slot (isp_store s) (Arg u)"
      "\<And>u. u \<noteq> t \<Longrightarrow> rs_slot r (Tmp u) = rs_slot (isp_store s) (Tmp u)"
    and words: "\<And>w. rs_slot r (Word w) \<noteq> rs_slot (isp_store s) (Word w) \<Longrightarrow>
        \<not> word_locked (rs_slot (isp_store s) (Word w)) \<or> (\<exists>v. ip_holds (isp_pcs s t) = Some (w, v))"
    and own: "ip_pc_ok t p r"
    and zero: "zeros r = (zeros (isp_store s) - set_option (ip_deletes (isp_pcs s t))) \<union> set_option (ip_deletes p)"
      "\<And>x. ip_deletes p = Some x \<Longrightarrow> x \<notin> zeros (isp_store s)"
    and held: "\<And>w v. ip_holds p = Some (w, v) \<Longrightarrow> rs_slot r (Word w) = with_lock v \<and> \<not> word_locked v \<and>
        (\<not> word_locked (rs_slot (isp_store s) (Word w)) \<or> (\<exists>v. ip_holds (isp_pcs s t) = Some (w, v)))"
    and free: "\<And>w. word_locked (rs_slot r (Word w)) \<Longrightarrow> (\<exists>v. ip_holds p = Some (w, v)) \<or>
        rs_slot r (Word w) = rs_slot (isp_store s) (Word w) \<and> (\<forall>v. ip_holds (isp_pcs s t) \<noteq> Some (w, v))"
  shows "isp_inv (isp_to t p r s)"
proof -
  note I = isp_invD [OF inv]
  let ?pc = "(isp_pcs s)(t := p)"
  have pcs: "ip_pc_ok u (?pc u) r" for u
    using own I(3) [of u] ip_pc_ok_cong [of r u "isp_store s"] others by (cases "u = t") simp_all
  have del: "zeros r = {x. \<exists>u. ip_deletes (?pc u) = Some x}"
  proof (rule set_eqI)
    fix x
    have "(\<exists>u. ip_deletes (?pc u) = Some x) \<longleftrightarrow> ip_deletes p = Some x \<or> (\<exists>u. u \<noteq> t \<and> ip_deletes (isp_pcs s u) = Some x)"
      by auto
    moreover have "(\<exists>u. u \<noteq> t \<and> ip_deletes (isp_pcs s u) = Some x) \<longleftrightarrow>
        x \<in> zeros (isp_store s) \<and> ip_deletes (isp_pcs s t) \<noteq> Some x"
      using I(4) I(5) [of _ x t] by auto
    ultimately show "x \<in> zeros r \<longleftrightarrow> x \<in> {x. \<exists>u. ip_deletes (?pc u) = Some x}"
      unfolding zero(1) by (auto simp: elem_set)
  qed
  have del1: "u = v" if "ip_deletes (?pc u) = Some x" "ip_deletes (?pc v) = Some x" for u v x
    using that zero(2) I(4,5) by (auto split: if_splits)
  have holds: "rs_slot r (Word w) = with_lock v \<and> \<not> word_locked v" if "ip_holds (?pc u) = Some (w, v)" for u w v
  proof (cases "u = t")
    case False
    then have h: "ip_holds (isp_pcs s u) = Some (w, v)" using that by simp
    moreover have "\<not> (\<exists>v. ip_holds (isp_pcs s t) = Some (w, v))" using I(8) [OF h] False by blast
    ultimately have "rs_slot r (Word w) = rs_slot (isp_store s) (Word w)"
      using words [of w] I(6) [OF h] by fastforce
    then show ?thesis using I(6) [OF h] by simp
  qed (use that held in simp)
  have owner: "\<exists>u v. ip_holds (?pc u) = Some (w, v)" if "word_locked (rs_slot r (Word w))" for w
    using free [OF that] that I(7) [of w] by (metis fun_upd_apply)
  have unique: "u = v" if "ip_holds (?pc u) = Some (w, x)" "ip_holds (?pc v) = Some (w, y)" for u v w x y
  proof -
    have "u' = t" if h: "ip_holds (isp_pcs s u') = Some (w, x')" "ip_holds p = Some (w, y')" for u' x' y'
    proof -
      obtain v where "ip_holds (isp_pcs s t) = Some (w, v)" using held [OF h(2)] I(6) [OF h(1)] by auto
      then show ?thesis using I(8) [OF h(1)] by blast
    qed
    then show ?thesis using that I(8) by (auto split: if_splits)
  qed
  show ?thesis
    unfolding isp_inv_def Let_def isp_to_simps
    using counts pcs del del1 holds owner unique by blast
qed

section \<open>Every step is possible and keeps the invariant\<close>

lemma isp_inv_handle:
  assumes inv: "isp_inv s" and h: "handle_ok t (isp_store s) r"
    and p: "ip_deletes p = None" "ip_deletes (isp_pcs s t) = None" "ip_holds p = ip_holds (isp_pcs s t)" "ip_pc_ok t p r"
  shows "isp_inv (isp_to t p r s)"
  by (rule isp_inv_step [OF inv])
     (use h p isp_invD(6) [OF inv, of t] in \<open>auto simp: handle_ok_def own_change_def\<close>)

lemma handle_ok_refl: "isp_inv s \<Longrightarrow> handle_ok t (isp_store s) (isp_store s)"
  by (simp add: handle_ok_def isp_invD)

lemma lock_dispatch_simps [simp]:
  "ip_deletes (lock_dispatch op c v) = None" "ip_holds (lock_dispatch op c v) = None"
  "ip_pc_ok t (lock_dispatch op c v) r = ip_ready t op r"
  by (auto simp: lock_dispatch_def)

lemma isp_take:
  assumes inv: "isp_inv s" and "rs_slot (isp_store s) (Tmp t) = 0"
    and own: "ptr_of w = ptr_of (rs_slot (isp_store s) l)" and w: "\<not> word_locked w"
  obtains r where "take_ref t w (isp_store s) = Some r" "handle_ok t (isp_store s) r"
    "rs_slot r = (rs_slot (isp_store s))(Tmp t := w)"
proof -
  obtain r1 where r1: "hook_AddRef (ptr_of w) (isp_store s) = Some r1"
    using AddRef_owned [OF isp_invD(1) [OF inv], of l "ptr_of w"] own by metis
  then have "take_ref t w (isp_store s) = Some (set_slot (Tmp t) w r1)" using w by (simp add: take_ref_def)
  then show ?thesis using that take_ref_ok [OF isp_invD(1,2) [OF inv] _ _ w] assms(2) by simp
qed

lemma lock_step_ok:
  assumes inv: "isp_inv s" and p: "isp_pcs s t = p"
    and l: "(\<exists>op c. p = Ip_load op c) \<or> (\<exists>op c v. p = Ip_try op c v) \<or> (\<exists>op c i. p = Ip_spin op c i) \<or> (\<exists>op c. p = Ip_park op c)"
  shows "\<exists>s'. lock_step t p s = Some s' \<and> isp_inv s'"
proof -
  note ok = isp_invD(3) [OF inv, of t]
  have goto: "isp_inv (isp_to t q (isp_store s) s)"
    if "ip_deletes q = None" "ip_holds q = None" "ip_pc_ok t q (isp_store s)" for q
    by (rule isp_inv_handle [OF inv handle_ok_refl [OF inv]]) (use that p l in auto)
  show ?thesis
  proof (cases "\<exists>op c v. p = Ip_try op c v \<and> rs_slot (isp_store s) (Word (op_word op)) = v")
    case True
    then obtain op c v where q: "p = Ip_try op c v" "rs_slot (isp_store s) (Word (op_word op)) = v" by blast
    let ?r = "set_slot (Word (op_word op)) (with_lock v) (isp_store s)"
    have v: "\<not> word_locked v" "ip_ready t op (isp_store s)" using ok p q by auto
    have ready: "ip_pc_ok t (after_lock op v) ?r" "ip_deletes (after_lock op v) = None"
      "ip_holds (after_lock op v) = Some (op_word op, v)"
      using v by (auto simp: after_lock_def ip_ready_def split: ip_op.splits)
    have "isp_inv (isp_to t (after_lock op v) ?r s)"
    proof (rule isp_inv_step [OF inv])
      show "counts_exact ?r" by (rule counts_same [OF isp_invD(1) [OF inv]]) (simp add: q)
      show "clean_slots ?r" using isp_invD(2) [OF inv] by (auto simp: clean_slots_def)
    qed (use ready p q v isp_invD(4) [OF inv] in \<open>auto simp: zeros_def split: if_splits\<close>)
    then show ?thesis using q by (simp add: Let_def)
  next
    case False
    then show ?thesis using l ok p goto by (auto simp: Let_def)
  qed
qed

lemma crit_take_ok:
  assumes inv: "isp_inv s" and p: "isp_pcs s t = p" and l: "(\<exists>w. p = Ip_stadd w) \<or> (\<exists>op v. p = Ip_crit op v)"
  shows "\<exists>s'. crit_step t p s = Some s' \<and> isp_inv s'"
proof -
  let ?r = "isp_store s"
  note ok = isp_invD(3) [OF inv, of t] and cl = isp_invD(2) [OF inv]
  have tmp: "rs_slot ?r (Tmp t) = 0" using l ok p by auto
  have unl: "\<not> word_locked (rs_slot ?r (Arg t))" "\<not> word_locked (rs_slot ?r (Hnd t i))" for i
    using cl by (simp_all add: clean_slots_def)
  from l consider (add) w where "p = Ip_stadd w" | (load) w d v where "p = Ip_crit (Op_load w d) v"
    | (cas) w e d v where "p = Ip_crit (Op_cas w e d) v"
    using ok p by (auto elim: ip_op.exhaust) (metis ip_op.exhaust)
  then show ?thesis
  proof cases
    case add
    obtain r where r: "take_ref t (rs_slot ?r (Arg t)) ?r = Some r" "handle_ok t ?r r" "rs_slot r = (rs_slot ?r)(Tmp t := rs_slot ?r (Arg t))"
      using isp_take [OF inv tmp refl unl(1)] by blast
    have "isp_inv (isp_to t (Ip_load (Op_store w) 0) r s)"
      by (rule isp_inv_handle [OF inv r(2)]) (use add p r(3) in \<open>auto simp: ip_ready_def\<close>)
    then show ?thesis using add r(1) by (simp add: Let_def)
  next
    case load
    have h: "rs_slot ?r (Word w) = with_lock v" "\<not> word_locked v" using isp_invD(6) [OF inv, of t w v] load p by auto
    obtain r where r: "take_ref t v ?r = Some r" "handle_ok t ?r r" "rs_slot r = (rs_slot ?r)(Tmp t := v)"
      using isp_take [OF inv tmp _ h(2), of "Word w"] h(1) by auto
    have "isp_inv (isp_to t (Ip_unlock (Op_load w d) v) r s)"
      by (rule isp_inv_handle [OF inv r(2)]) (use load p r(3) ok in auto)
    then show ?thesis using load h r(1) by simp
  next
    case cas
    have h: "rs_slot ?r (Word w) = with_lock v" "\<not> word_locked v" using isp_invD(6) [OF inv, of t w v] cas p by auto
    show ?thesis
    proof (cases "v = rs_slot ?r (Hnd t e)")
      case True
      obtain r where r: "take_ref t (rs_slot ?r (Hnd t d)) ?r = Some r" "handle_ok t ?r r"
          "rs_slot r = (rs_slot ?r)(Tmp t := rs_slot ?r (Hnd t d))"
        using isp_take [OF inv tmp refl unl(2)] by blast
      have "isp_inv (isp_to t (Ip_pub (Op_cas w e d) v) r s)"
        by (rule isp_inv_handle [OF inv r(2)]) (use cas p r(3) ok True in auto)
      then show ?thesis using cas h r(1) True by (simp add: Let_def)
    next
      case False
      obtain r where r: "take_ref t v ?r = Some r" "handle_ok t ?r r" "rs_slot r = (rs_slot ?r)(Tmp t := v)"
        using isp_take [OF inv tmp _ h(2), of "Word w"] h(1) by auto
      have "isp_inv (isp_to t (Ip_unlock (Op_cas w e d) v) r s)"
        by (rule isp_inv_handle [OF inv r(2)]) (use cas p r(3) ok False in auto)
      then show ?thesis using cas h r(1) False by (simp add: Let_def)
    qed
  qed
qed

lemma isp_inv_write:
  assumes inv: "isp_inv s" and h: "ip_holds (isp_pcs s t) = Some (w, v)" and x: "\<not> word_locked x"
    and r: "counts_exact r" "clean_slots r" "rs_count r = rs_count (isp_store s)" "rs_slot r (Word w) = x"
      "\<And>w'. w' \<noteq> w \<Longrightarrow> rs_slot r (Word w') = rs_slot (isp_store s) (Word w')"
      "\<And>u i. u \<noteq> t \<Longrightarrow> rs_slot r (Hnd u i) = rs_slot (isp_store s) (Hnd u i)"
      "\<And>u. u \<noteq> t \<Longrightarrow> rs_slot r (Arg u) = rs_slot (isp_store s) (Arg u) \<and> rs_slot r (Tmp u) = rs_slot (isp_store s) (Tmp u)"
    and f: "f = Fin_arg \<or> rs_slot r (Arg t) = 0"
  shows "isp_inv (isp_to t (Ip_rel f) r s)"
proof (rule isp_inv_step [OF inv r(1,2)])
  have "ip_deletes (isp_pcs s t) = None" using h by (cases "isp_pcs s t") auto
  then show "zeros r = zeros (isp_store s) - set_option (ip_deletes (isp_pcs s t)) \<union> set_option (ip_deletes (Ip_rel f))"
    using r(3) by (simp add: zeros_def)
  show "rs_slot r (Word w') \<noteq> rs_slot (isp_store s) (Word w') \<Longrightarrow>
      \<not> word_locked (rs_slot (isp_store s) (Word w')) \<or> (\<exists>v. ip_holds (isp_pcs s t) = Some (w', v))" for w'
    using r(5) h by metis
  show "word_locked (rs_slot r (Word w')) \<Longrightarrow> (\<exists>v. ip_holds (Ip_rel f) = Some (w', v)) \<or>
        rs_slot r (Word w') = rs_slot (isp_store s) (Word w') \<and> (\<forall>v. ip_holds (isp_pcs s t) \<noteq> Some (w', v))" for w'
    using r(4,5) x h by (cases "w' = w") auto
qed (use r f in auto)

lemma publish_ok:
  assumes inv: "isp_inv s" and p: "isp_pcs s t = p" and l: "\<exists>op v. p = Ip_pub op v \<or> p = Ip_unlock op v"
  shows "\<exists>s'. crit_step t p s = Some s' \<and> isp_inv s'"
proof -
  let ?r = "isp_store s"
  note ok = isp_invD(3) [OF inv, of t] and cl = isp_invD(2) [OF inv] and ce = isp_invD(1) [OF inv]
  have unl: "\<not> word_locked (rs_slot ?r (Arg t))" "\<not> word_locked (rs_slot ?r (Hnd t i))" for i
    using cl by (simp_all add: clean_slots_def)
  have pub: "isp_inv (isp_to t (Ip_rel f) (set_slot (Tmp t) (ptr_of v) (set_slot (Word w) x ?r)) s)"
    if h: "ip_holds p = Some (w, v)" and x: "\<not> word_locked x" "ptr_of x = ptr_of (rs_slot ?r (Tmp t))"
      and f: "f = Fin_arg \<or> rs_slot ?r (Arg t) = 0" for w v x f
  proof (rule isp_inv_write [OF inv _ x(1)])
    have v: "rs_slot ?r (Word w) = with_lock v" using isp_invD(6) [OF inv, of t w v] h p by simp
    show "counts_exact (set_slot (Tmp t) (ptr_of v) (set_slot (Word w) x ?r))"
      using counts_swap [OF ce, of "Word w" "Tmp t" x "ptr_of v"] x(2) v by simp
    show "clean_slots (set_slot (Tmp t) (ptr_of v) (set_slot (Word w) x ?r))" using cl by (auto simp: clean_slots_def)
  qed (use h p f in auto)
  have undo: "isp_inv (isp_to t (Ip_rel f) (swap_slots (Tmp t) (Hnd t d) (set_slot (Word w) v ?r)) s)"
    if h: "ip_holds p = Some (w, v)" and f: "f = Fin_arg \<or> rs_slot ?r (Arg t) = 0" for w v d f
  proof -
    have v: "rs_slot ?r (Word w) = with_lock v" "\<not> word_locked v" using isp_invD(6) [OF inv, of t w v] h p by simp_all
    show ?thesis
    proof (rule isp_inv_write [OF inv _ v(2)])
      show "counts_exact (swap_slots (Tmp t) (Hnd t d) (set_slot (Word w) v ?r))"
        using v by (intro counts_swap_slots counts_same [OF ce]) simp
      show "clean_slots (swap_slots (Tmp t) (Hnd t d) (set_slot (Word w) v ?r))"
        using cl by (intro clean_swap) (auto simp: clean_slots_def)
    qed (use h p f in auto)
  qed
  from l obtain op v where q: "p = Ip_pub op v \<or> p = Ip_unlock op v" by blast
  show ?thesis
  proof (cases op)
    case (Op_load w d)
    then show ?thesis using q ok p undo [of w v Fin_unit d] by (auto simp: Let_def)
  next
    case (Op_store w)
    then show ?thesis using q ok p pub [of w v "rs_slot ?r (Arg t)" Fin_arg] unl by (auto simp: Let_def)
  next
    case (Op_cas w e d)
    then show ?thesis using q ok p pub [of w v "rs_slot ?r (Hnd t d)" "Fin_bool True"] undo [of w v "Fin_bool False" e] unl
      by (auto simp: Let_def)
  qed
qed

lemma rel_next_ok:
  assumes inv: "isp_inv s" and r: "counts_exact r" "clean_slots r" "own_change t (isp_store s) r" "rs_slot r (Tmp t) = 0"
    and f: "f = Fin_arg \<or> rs_slot (isp_store s) (Arg t) = 0"
    and z: "zeros r = zeros (isp_store s) - set_option (ip_deletes (isp_pcs s t))" and h: "ip_holds (isp_pcs s t) = None"
  shows "isp_inv (rel_next t f r s)"
proof (cases "f = Fin_arg")
  case True
  have "isp_inv (isp_to t (Ip_rel Fin_unit) (swap_slots (Tmp t) (Arg t) r) s)"
    by (rule isp_inv_step [OF inv])
       (use r z h in \<open>auto simp: own_change_def zeros_def intro!: counts_swap_slots clean_swap\<close>)
  then show ?thesis using True by (simp add: rel_next_def)
next
  case False
  have "isp_inv (isp_to t (Ip_done f) r s)"
    by (rule isp_inv_step [OF inv]) (use r z h f False in \<open>auto simp: own_change_def zeros_def\<close>)
  then show ?thesis using False by (cases f) (simp_all add: rel_next_def)
qed

lemma rel_step_ok:
  assumes inv: "isp_inv s" and p: "isp_pcs s t = p" and l: "(\<exists>f. p = Ip_rel f) \<or> (\<exists>x f. p = Ip_del x f)"
  shows "\<exists>s'. rel_step t p s = Some s' \<and> isp_inv s'"
proof (cases "\<exists>f. p = Ip_rel f")
  case True
  then obtain f where q: "p = Ip_rel f" by blast
  obtain b x r where r: "release_tmp t (isp_store s) = Some (b, x, r)" "counts_exact r" "clean_slots r"
      "own_change t (isp_store s) r" "rs_slot r (Tmp t) = 0"
      "zeros r = (if b then insert x (zeros (isp_store s)) else zeros (isp_store s))" "b \<longrightarrow> x \<noteq> 0 \<and> x \<notin> zeros (isp_store s)"
    using release_tmp_ok [OF isp_invD(1,2) [OF inv], of t] by blast
  have f: "f = Fin_arg \<or> rs_slot (isp_store s) (Arg t) = 0" using isp_invD(3) [OF inv, of t] p q by simp
  show ?thesis
  proof (cases b)
    case True
    have "isp_inv (isp_to t (Ip_del x f) r s)"
      by (rule isp_inv_step [OF inv]) (use r f p q True in \<open>auto simp: own_change_def\<close>)
    then show ?thesis using q r(1) True by simp
  next
    case False
    then show ?thesis using rel_next_ok [OF inv r(2-5) f] r(1,6) p q by simp
  qed
next
  case False
  then obtain x f where q: "p = Ip_del x f" using l by blast
  have "x \<in> zeros (isp_store s)" unfolding isp_invD(4) [OF inv] using p q by (auto intro!: exI [of _ t])
  then have x: "rs_count (isp_store s) x = Some 0" by (simp add: zeros_def)
  have ok: "rs_slot (isp_store s) (Tmp t) = 0" "f = Fin_arg \<or> rs_slot (isp_store s) (Arg t) = 0"
    using isp_invD(3) [OF inv, of t] p q by simp_all
  let ?r = "(isp_store s)\<lparr>rs_count := (rs_count (isp_store s))(x := None)\<rparr>"
  have fr: "free_obj x (isp_store s) = Some ?r" using x by (simp add: free_obj_def)
  have "isp_inv (rel_next t f ?r s)"
    by (rule rel_next_ok [OF inv counts_free [OF isp_invD(1) [OF inv] fr]])
       (use isp_invD(2) [OF inv] ok p q in \<open>auto simp: clean_slots_def own_change_def zeros_def\<close>)
  then show ?thesis using q fr by simp
qed

lemma isp_step_ok:
  assumes inv: "isp_inv s" and r: "\<not> ip_at_rest (isp_pcs s t)"
  shows "\<exists>s'. isp_step t (isp_pcs s t) s = Some s' \<and> isp_inv s'"
proof (cases "isp_pcs s t")
  case (Ip_stadd w)
  then show ?thesis using crit_take_ok [OF inv Ip_stadd] by (auto simp: isp_step_def)
next
  case (Ip_load op c)
  then show ?thesis using lock_step_ok [OF inv Ip_load] by (auto simp: isp_step_def)
next
  case (Ip_try op c v)
  then show ?thesis using lock_step_ok [OF inv Ip_try] by (auto simp: isp_step_def)
next
  case (Ip_spin op c k)
  then show ?thesis using lock_step_ok [OF inv Ip_spin] by (auto simp: isp_step_def simp del: lock_step.simps)
next
  case (Ip_park op c)
  then show ?thesis using lock_step_ok [OF inv Ip_park] by (auto simp: isp_step_def)
next
  case (Ip_crit op v)
  then show ?thesis using crit_take_ok [OF inv Ip_crit] by (auto simp: isp_step_def)
next
  case (Ip_pub op v)
  then show ?thesis using publish_ok [OF inv Ip_pub] by (auto simp: isp_step_def)
next
  case (Ip_unlock op v)
  then show ?thesis using publish_ok [OF inv Ip_unlock] by (auto simp: isp_step_def)
next
  case (Ip_rel f)
  then show ?thesis using rel_step_ok [OF inv Ip_rel] by (auto simp: isp_step_def)
next
  case (Ip_del x f)
  then show ?thesis using rel_step_ok [OF inv Ip_del] by (auto simp: isp_step_def)
qed (use r in simp_all)

lemma isp_weak_fail_ok:
  assumes inv: "isp_inv s" and p: "isp_pcs s t = Ip_try op c v"
  shows "isp_inv (isp_to t (lock_dispatch op c (rs_slot (isp_store s) (Word (op_word op)))) (isp_store s) s)"
  by (rule isp_inv_handle [OF inv handle_ok_refl [OF inv]]) (use p isp_invD(3) [OF inv, of t] in auto)

lemma pass_by_value_ok:
  assumes inv: "isp_inv s" and z: "rs_slot (isp_store s) (Tmp t) = 0" "rs_slot (isp_store s) (Arg t) = 0"
    and st: "pass_by_value t (rs_slot (isp_store s) (Hnd t i)) (isp_store s) = Some r"
  shows "counts_exact r \<and> clean_slots r \<and> zeros r = zeros (isp_store s) \<and>
     rs_slot r = (rs_slot (isp_store s))(Arg t := rs_slot (isp_store s) (Hnd t i))"
proof -
  let ?w = "rs_slot (isp_store s) (Hnd t i)"
  have w: "\<not> word_locked ?w" using isp_invD(2) [OF inv] by (simp add: clean_slots_def)
  obtain r1 where r1: "take_ref t ?w (isp_store s) = Some r1" "r = swap_slots (Tmp t) (Arg t) r1"
    using st by (auto simp: pass_by_value_def)
  note T = take_ref_ok [OF isp_invD(1,2) [OF inv] _ r1(1) w]
  have "rs_slot r = (rs_slot (isp_store s))(Arg t := ?w)" using T z r1(2) by (auto simp: fun_eq_iff)
  then show ?thesis
    using T z r1(2) by (auto simp: handle_ok_def zeros_def intro: counts_swap_slots clean_swap)
qed

lemma isp_call_ok:
  assumes inv: "isp_inv s" and rest: "ip_at_rest (isp_pcs s (isp_tid a))" and st: "isp_call s a = Some s'"
  shows "isp_inv s'"
proof -
  let ?t = "isp_tid a" and ?r = "isp_store s"
  have z: "rs_slot ?r (Tmp ?t) = 0" "rs_slot ?r (Arg ?t) = 0"
    using isp_invD(3) [OF inv, of ?t] rest by (cases "isp_pcs s ?t"; simp)+
  have idle: "ip_deletes (isp_pcs s ?t) = None" "ip_holds (isp_pcs s ?t) = None"
    using rest by (cases "isp_pcs s ?t"; simp)+
  note cl = isp_invD(2) [OF inv] and ce = isp_invD(1) [OF inv] and keep = isp_inv_handle [OF inv _ _ idle(1)]
  show ?thesis
  proof (cases a)
    case (Ip_hop t h)
    then obtain r where r: "hop_begin t h ?r = Some r" "s' = isp_to t (Ip_rel Fin_unit) r s" using st by auto
    have "handle_ok t ?r r" using hop_begin_ok [OF ce cl _ r(1)] z Ip_hop by simp
    then show ?thesis using r(2) keep [of r "Ip_rel Fin_unit"] idle z Ip_hop
      by (simp add: handle_ok_def own_change_def)
  next
    case (Ip_call_load t w d)
    then show ?thesis using st keep [OF handle_ok_refl [OF inv]] idle z by (auto simp: ip_ready_def)
  next
    case (Ip_call_cas t w e d)
    then show ?thesis using st keep [OF handle_ok_refl [OF inv]] idle z by (auto simp: ip_ready_def)
  next
    case (Ip_call_store t w i)
    then obtain r where r: "pass_by_value t (rs_slot ?r (Hnd t i)) ?r = Some r" "s' = isp_to t (Ip_stadd w) r s"
      using st by auto
    have P: "counts_exact r \<and> clean_slots r \<and> zeros r = zeros ?r \<and> rs_slot r = (rs_slot ?r)(Arg t := rs_slot ?r (Hnd t i))"
      using pass_by_value_ok [OF inv _ _ r(1)] z Ip_call_store by simp
    show ?thesis unfolding r(2)
      by (rule isp_inv_step [OF inv]) (use P z idle Ip_call_store in auto)
  next
    case (Ip_construct t w i)
    then obtain r r' where r: "rs_slot ?r (Word w) = 0" "pass_by_value t (rs_slot ?r (Hnd t i)) ?r = Some r"
        "take_ref t (rs_slot r (Arg t)) r = Some r'" "s' = isp_to t (Ip_rel Fin_arg) (swap_slots (Tmp t) (Word w) r') s"
      using st by (auto simp: bind_eq_Some_conv split: if_splits)
    have P: "counts_exact r \<and> clean_slots r \<and> zeros r = zeros ?r \<and> rs_slot r = (rs_slot ?r)(Arg t := rs_slot ?r (Hnd t i))"
      using pass_by_value_ok [OF inv _ _ r(2)] z Ip_construct by simp
    have unl: "\<not> word_locked (rs_slot ?r (Hnd t i))" using cl by (simp add: clean_slots_def)
    have T: "handle_ok t r r' \<and> rs_slot r' = (rs_slot r)(Tmp t := rs_slot r (Arg t))"
      by (rule take_ref_ok) (use P r(3) z Ip_construct unl in auto)
    have "clean_slots (swap_slots (Tmp t) (Word w) r')" "zeros (swap_slots (Tmp t) (Word w) r') = zeros ?r"
      using T P r(1) by (auto simp: clean_slots_def zeros_def handle_ok_def)
    then show ?thesis unfolding r(4)
      by (intro isp_inv_step [OF inv])
         (use T P z idle r(1) Ip_construct unl in \<open>auto simp: handle_ok_def intro: counts_swap_slots split: if_splits\<close>)
  next
    case (Ip_destroy t w)
    let ?v = "rs_slot ?r (Word w)"
    have s': "\<not> word_locked ?v" "s' = isp_to t (Ip_rel Fin_unit) (set_slot (Tmp t) (ptr_of ?v) (set_slot (Word w) 0 ?r)) s"
      using st Ip_destroy by (auto simp: Let_def split: if_splits)
    have "counts_exact (set_slot (Tmp t) (ptr_of ?v) (set_slot (Word w) 0 ?r))"
      using z Ip_destroy by (intro counts_swap [OF ce]) auto
    moreover have "clean_slots (set_slot (Tmp t) (ptr_of ?v) (set_slot (Word w) 0 ?r))"
      using cl by (auto simp: clean_slots_def)
    ultimately show ?thesis unfolding s'(2)
      by (intro isp_inv_step [OF inv]) (use z idle Ip_destroy s'(1) in \<open>auto simp: zeros_def split: if_splits\<close>)
  qed (use st in simp_all)
qed

lemma isp_exec_inv: "isp_inv s \<Longrightarrow> isp_exec s a = Some s' \<Longrightarrow> isp_inv s'"
  using isp_call_ok isp_step_ok isp_weak_fail_ok
  by (fastforce simp: isp_exec_def Let_def split: if_splits isp_act.splits ip_pc.splits)

interpretation ispi: machine_invariant isp_exec isp_inv
  by unfold_locales (rule isp_exec_inv)

lemma isp_init_inv: "isp_inv isp_init"
  by (simp add: isp_inv_def isp_init_def counts_exact_def fin_slots_def clean_slots_def zeros_def refs_def hook_use_count_def)

section \<open>Memory safety\<close>

lemma isp_reachable: "run isp_exec isp_init as = Some s \<Longrightarrow> isp_inv s"
  by (rule ispi.run_Inv [OF isp_init_inv])

text \<open>Two threads share word 0: thread 1 publishes an object, thread 2 loads it while thread 1 replaces it by null.\<close>

definition isp_demo :: "isp_act list" where
  "isp_demo =
     [Ip_hop 1 (Hop_adopt 0 64), Ip_step 1,
      Ip_call_store 1 0 0, Ip_step 1, Ip_step 1, Ip_step 1, Ip_step 1, Ip_step 1, Ip_step 1,
      Ip_call_load 2 0 5, Ip_step 2, Ip_step 2, Ip_step 2, Ip_step 2, Ip_step 2,
      Ip_call_cas 1 0 0 1, Ip_step 1, Ip_step 1, Ip_step 1, Ip_step 1, Ip_step 1,
      Ip_hop 1 (Hop_reset 0), Ip_step 1]"

lemmas isp_eval = isp_demo_def isp_init_def isp_exec_def isp_step_def isp_to_def Let_def take_ref_def adopt_raw_def
  hook_AddRef_def hook_DelRef_def swap_slots_def set_slot_def release_tmp_def free_obj_def pass_by_value_def
  lock_dispatch_def after_lock_def rel_next_def unmarked_ptr_def ptr_of_def word_locked_def with_lock_def without_lock_def
  word_set_mark_def

text \<open>
  C23.  Memory safety and exact counts: in every interleaving of any number of threads loading, storing and
  swapping any number of words and copying, moving and dropping their handles, the next access of a thread inside a
  call is always possible (it touches no object that has been deleted, revives none whose count reached zero,
  deletes none twice); every word and handle that is not null points to an object that exists; and the count
  of every object is exactly the number of words, handles and call-local references that point to it.
\<close>

theorem isp_memory_safe:
  assumes "run isp_exec isp_init as = Some s"
  shows "(\<forall>t. \<not> ip_at_rest (isp_pcs s t) \<longrightarrow> isp_exec s (Ip_step t) \<noteq> None) \<and>
         (\<forall>l. ptr_of (rs_slot (isp_store s) l) \<noteq> 0 \<longrightarrow>
            (\<exists>c. rs_count (isp_store s) (ptr_of (rs_slot (isp_store s) l)) = Some (Suc c))) \<and>
         (\<forall>x c. x \<noteq> 0 \<and> rs_count (isp_store s) x = Some c \<longrightarrow> refs (rs_slot (isp_store s)) x = c)"
proof (intro conjI allI impI)
  have inv: "isp_inv s" using isp_reachable [OF assms] .
  show "isp_exec s (Ip_step t) \<noteq> None" if "\<not> ip_at_rest (isp_pcs s t)" for t
    using isp_step_ok [OF inv that] that by (auto simp: isp_exec_def)
  show "\<exists>c. rs_count (isp_store s) (ptr_of (rs_slot (isp_store s) l)) = Some (Suc c)"
    if "ptr_of (rs_slot (isp_store s) l) \<noteq> 0" for l
    using counts_own [OF isp_invD(1) [OF inv] refl that] by blast
  show "refs (rs_slot (isp_store s)) x = c" if "x \<noteq> 0 \<and> rs_count (isp_store s) x = Some c" for x c
    using countsD(2) [OF isp_invD(1) [OF inv], of x] that by (simp add: hook_use_count_def)
qed

theorem isp_memory_safe_witness:
  "\<exists>s. run isp_exec isp_init isp_demo = Some s \<and> rs_slot (isp_store s) (Hnd 2 5) = 64 \<and>
     rs_slot (isp_store s) (Word 0) = 0 \<and> refs (rs_slot (isp_store s)) 64 = 1"
proof -
  have "\<exists>s. run isp_exec isp_init isp_demo = Some s \<and> rs_slot (isp_store s) (Hnd 2 5) = 64 \<and>
     rs_slot (isp_store s) (Word 0) = 0 \<and> rs_count (isp_store s) 64 = Some 1"
    by (simp add: isp_eval)
  then obtain s where s: "run isp_exec isp_init isp_demo = Some s" "rs_slot (isp_store s) (Hnd 2 5) = 64"
     "rs_slot (isp_store s) (Word 0) = 0" "rs_count (isp_store s) 64 = Some 1" by blast
  then have "refs (rs_slot (isp_store s)) 64 = 1" using isp_memory_safe [OF s(1)] by auto
  with s show ?thesis by blast
qed

text \<open>
  Reclamation is immediate: an object whose count is zero exists only while the one thread whose release
  brought it there is about to delete it; when no call is in progress, the objects that exist are exactly those
  that a word or a handle points to.
\<close>

theorem isp_reclaims:
  assumes "run isp_exec isp_init as = Some s"
  shows "(\<forall>x. rs_count (isp_store s) x = Some 0 \<longrightarrow> (\<exists>!t. \<exists>f. isp_pcs s t = Ip_del x f)) \<and>
         ((\<forall>t. ip_at_rest (isp_pcs s t)) \<longrightarrow>
            (\<forall>x. x \<noteq> 0 \<longrightarrow> (rs_count (isp_store s) x \<noteq> None \<longleftrightarrow> (\<exists>l. ptr_of (rs_slot (isp_store s) l) = x))))"
proof (intro conjI allI impI)
  have inv: "isp_inv s" using isp_reachable [OF assms] .
  have del: "ip_deletes (isp_pcs s t) = Some x \<longleftrightarrow> (\<exists>f. isp_pcs s t = Ip_del x f)" for t x
    by (cases "isp_pcs s t") auto
  show "\<exists>!t. \<exists>f. isp_pcs s t = Ip_del x f" if "rs_count (isp_store s) x = Some 0" for x
  proof -
    have "x \<in> zeros (isp_store s)" using that by (simp add: zeros_def)
    then have "\<exists>t. ip_deletes (isp_pcs s t) = Some x" unfolding isp_invD(4) [OF inv] by simp
    then show ?thesis using isp_invD(5) [OF inv, of _ x] unfolding del by blast
  qed
  fix x :: uintptr assume rest: "\<forall>t. ip_at_rest (isp_pcs s t)" and x: "x \<noteq> 0"
  have "rs_count (isp_store s) x \<noteq> Some 0"
  proof
    assume "rs_count (isp_store s) x = Some 0"
    then have "x \<in> zeros (isp_store s)" by (simp add: zeros_def)
    then obtain t f where "isp_pcs s t = Ip_del x f" unfolding isp_invD(4) [OF inv] by (auto simp: del)
    then show False using rest [rule_format, of t] by simp
  qed
  moreover have "refs (rs_slot (isp_store s)) x = hook_use_count x (isp_store s)"
    using countsD(2) [OF isp_invD(1) [OF inv] x] .
  moreover have "0 < refs (rs_slot (isp_store s)) x \<longleftrightarrow> (\<exists>l. ptr_of (rs_slot (isp_store s) l) = x)"
    using fin_slotsD [OF countsD(1) [OF isp_invD(1) [OF inv]] x] by (auto simp: refs_def card_gt_0_iff)
  ultimately show "rs_count (isp_store s) x \<noteq> None \<longleftrightarrow> (\<exists>l. ptr_of (rs_slot (isp_store s) l) = x)"
    by (auto simp: hook_use_count_def split: option.splits)
qed

theorem isp_reclaims_witness:
  "\<exists>s. run isp_exec isp_init (isp_demo @ [Ip_hop 2 (Hop_reset 5), Ip_step 2]) = Some s \<and>
     (\<exists>!t. \<exists>f. isp_pcs s t = Ip_del 64 f)"
proof -
  have "\<exists>s. run isp_exec isp_init (isp_demo @ [Ip_hop 2 (Hop_reset 5), Ip_step 2]) = Some s \<and>
     rs_count (isp_store s) 64 = Some 0"
    by (simp add: isp_eval)
  then obtain s where s: "run isp_exec isp_init (isp_demo @ [Ip_hop 2 (Hop_reset 5), Ip_step 2]) = Some s"
     "rs_count (isp_store s) 64 = Some 0" by blast
  then show ?thesis using isp_reclaims [OF s(1)] by blast
qed

section \<open>Linearizability\<close>

text \<open>
  The atomic pointer: a map from words to values (pointer and mark).  A load reads a value into a handle; a
  compare-exchange either finds the expected value and replaces it, or reads a different value into \<open>expected\<close>.
\<close>

datatype aptr_op =
    A_load tid nat nat uintptr
  | A_store nat uintptr
  | A_cas_ok nat uintptr uintptr
  | A_cas_fail tid nat nat uintptr uintptr

fun aptr_exec :: "(nat \<Rightarrow> uintptr) \<Rightarrow> aptr_op \<Rightarrow> (nat \<Rightarrow> uintptr) option" where
  "aptr_exec m (A_load t d w v) = (if m w = v then Some m else None)"
| "aptr_exec m (A_store w v) = Some (m(w := v))"
| "aptr_exec m (A_cas_ok w e d) = (if m w = e then Some (m(w := d)) else None)"
| "aptr_exec m (A_cas_fail t e w x v) = (if m w = v \<and> v \<noteq> x then Some m else None)"

definition isp_abs :: "isp \<Rightarrow> nat \<Rightarrow> uintptr" where
  "isp_abs s = (\<lambda>w. without_lock (rs_slot (isp_store s) (Word w)))"

fun isp_lin_pc :: "tid \<Rightarrow> ip_pc \<Rightarrow> rstore \<Rightarrow> aptr_op option" where
  "isp_lin_pc t (Ip_unlock (Op_load w d) val) r = Some (A_load t d w val)"
| "isp_lin_pc t (Ip_unlock (Op_cas w e d) val) r = Some (A_cas_fail t e w (rs_slot r (Hnd t e)) val)"
| "isp_lin_pc t (Ip_pub (Op_store w) val) r = Some (A_store w (rs_slot r (Arg t)))"
| "isp_lin_pc t (Ip_pub (Op_cas w e d) val) r = Some (A_cas_ok w (rs_slot r (Hnd t e)) (rs_slot r (Hnd t d)))"
| "isp_lin_pc t _ r = None"

definition isp_lin :: "isp \<Rightarrow> isp_act \<Rightarrow> aptr_op option" where
  "isp_lin s a = (case a of
       Ip_step t \<Rightarrow> isp_lin_pc t (isp_pcs s t) (isp_store s)
     | Ip_construct t w i \<Rightarrow> Some (A_store w (rs_slot (isp_store s) (Hnd t i)))
     | Ip_destroy t w \<Rightarrow> Some (A_store w 0)
     | _ \<Rightarrow> None)"

definition isp_effect :: "aptr_op option \<Rightarrow> isp \<Rightarrow> isp \<Rightarrow> bool" where
  "isp_effect b s s' = (case b of
       None \<Rightarrow> isp_abs s' = isp_abs s
     | Some b \<Rightarrow> aptr_exec (isp_abs s) b = Some (isp_abs s') \<and>
         (case b of A_load t d w v \<Rightarrow> rs_slot (isp_store s') (Hnd t d) = v
          | A_cas_fail t e w x v \<Rightarrow> rs_slot (isp_store s') (Hnd t e) = v | _ \<Rightarrow> True))"

lemma same_words: "(\<And>w. rs_slot (isp_store s') (Word w) = rs_slot (isp_store s) (Word w)) \<Longrightarrow> isp_abs s' = isp_abs s"
  by (simp add: isp_abs_def)

lemma take_ref_slots: "take_ref t w r = Some r' \<Longrightarrow> rs_slot r' = (rs_slot r)(Tmp t := w)"
  by (auto simp: take_ref_def hook_AddRef_def split: option.splits if_splits)

lemma release_tmp_slots: "release_tmp t r = Some (b, p, r') \<Longrightarrow> rs_slot r' = (rs_slot r)(Tmp t := 0)"
  by (auto simp: release_tmp_def hook_DelRef_def Let_def split: option.splits if_splits)

lemma free_obj_slots: "free_obj p r = Some r' \<Longrightarrow> rs_slot r' = rs_slot r"
  by (auto simp: free_obj_def split: if_splits)

lemma rel_next_words: "rs_slot (isp_store (rel_next t f r s)) (Word w) = rs_slot r (Word w)"
  by (cases f) (simp_all add: rel_next_def)

lemma isp_step_effect:
  assumes inv: "isp_inv s" and st: "isp_step t (isp_pcs s t) s = Some s'"
  shows "isp_effect (isp_lin_pc t (isp_pcs s t) (isp_store s)) s s'"
proof -
  note ok = isp_invD(3) [OF inv, of t] and H = isp_invD(6) [OF inv, of t]
  show ?thesis
  proof (cases "isp_pcs s t")
    case (Ip_crit op v)
    then show ?thesis using st
      by (cases op) (auto simp: isp_step_def isp_effect_def Let_def dest!: take_ref_slots intro!: same_words split: if_splits option.splits)
  next
    case (Ip_pub op v)
    have v: "rs_slot (isp_store s) (Word (op_word op)) = with_lock v" "\<not> word_locked v" using H Ip_pub by simp_all
    have "\<not> word_locked (rs_slot (isp_store s) (Arg t))" "\<not> word_locked (rs_slot (isp_store s) (Hnd t i))" for i
      using isp_invD(2) [OF inv] by (simp_all add: clean_slots_def)
    then show ?thesis using st ok Ip_pub v
      by (cases op) (auto simp: isp_step_def isp_effect_def isp_abs_def Let_def)
  next
    case (Ip_unlock op v)
    have v: "rs_slot (isp_store s) (Word (op_word op)) = with_lock v" "\<not> word_locked v" using H Ip_unlock by simp_all
    then show ?thesis using st ok Ip_unlock
      by (cases op) (auto simp: isp_step_def isp_effect_def isp_abs_def Let_def)
  next
    case (Ip_rel f)
    then show ?thesis using st
      by (auto simp: isp_step_def isp_effect_def rel_next_words intro!: same_words dest!: release_tmp_slots split: option.splits if_splits)
  next
    case (Ip_del p f)
    then show ?thesis using st
      by (auto simp: isp_step_def isp_effect_def rel_next_words intro!: same_words dest!: free_obj_slots split: option.splits if_splits)
  next
    case (Ip_stadd w)
    then show ?thesis using st
      by (auto simp: isp_step_def isp_effect_def Let_def intro!: same_words dest!: take_ref_slots split: option.splits if_splits)
  next
    case (Ip_try op c v)
    then show ?thesis using st ok
      by (auto simp: isp_step_def isp_effect_def isp_abs_def Let_def split: if_splits)
  next
    case (Ip_spin op c k)
    then obtain q where "s' = isp_to t q (isp_store s) s"
      using st by (auto simp: isp_step_def Let_def split: if_splits)
    then show ?thesis using Ip_spin by (simp add: isp_effect_def isp_abs_def)
  qed (use st in \<open>auto simp: isp_step_def isp_effect_def isp_abs_def Let_def\<close>)
qed

lemma isp_call_effect:
  assumes inv: "isp_inv s" and rest: "ip_at_rest (isp_pcs s (isp_tid a))" and st: "isp_call s a = Some s'"
  shows "isp_effect (isp_lin s a) s s'"
proof -
  have unl: "\<not> word_locked (rs_slot (isp_store s) (Hnd t i))" for t i
    using isp_invD(2) [OF inv] by (simp add: clean_slots_def)
  show ?thesis
  proof (cases a)
    case (Ip_hop t h)
    then obtain r where r: "hop_begin t h (isp_store s) = Some r" "s' = isp_to t (Ip_rel Fin_unit) r s" using st by auto
    have "rs_slot (isp_store s) (Tmp t) = 0"
      using isp_invD(3) [OF inv, of t] rest Ip_hop by (cases "isp_pcs s t") auto
    then have "own_change t (isp_store s) r"
      using hop_begin_ok [OF isp_invD(1,2) [OF inv] _ r(1)] by (simp add: handle_ok_def)
    then show ?thesis using r(2) Ip_hop by (simp add: isp_effect_def isp_lin_def own_change_def isp_abs_def)
  qed (use st unl in \<open>auto simp: isp_effect_def isp_lin_def isp_abs_def pass_by_value_def bind_eq_Some_conv Let_def
          dest!: take_ref_slots split: if_splits\<close>)
qed

lemma isp_exec_effect:
  assumes inv: "isp_inv s" and st: "isp_exec s a = Some s'"
  shows "isp_effect (isp_lin s a) s s'"
proof (cases "ip_at_rest (isp_pcs s (isp_tid a))")
  case True
  then show ?thesis using isp_call_effect [OF inv True] st by (simp add: isp_exec_def Let_def)
next
  case False
  then consider (step) t where "a = Ip_step t" "isp_step t (isp_pcs s t) s = Some s'"
    | (weak) t p where "a = Ip_weak_fail t" "s' = isp_to t p (isp_store s) s"
    using st by (fastforce simp: isp_exec_def Let_def split: isp_act.splits ip_pc.splits)
  then show ?thesis
    by cases (use isp_step_effect [OF inv] in \<open>auto simp: isp_lin_def isp_effect_def isp_abs_def\<close>)
qed

interpretation ispr: machine_refinement isp_exec isp_inv aptr_exec isp_abs isp_lin
  by unfold_locales (use isp_exec_effect in \<open>fastforce simp: isp_effect_def\<close>)+

text \<open>
  C24.  Linearizability: every interleaving of the lock-protected operations is a sequence of atomic loads, stores and
  compare-exchanges on the values (pointer and mark) of the words.  A load leaves in its handle exactly the value
  the word has at its atomic point; a compare-exchange succeeds exactly when the word holds the expected
  value, mark included, and otherwise leaves in \<open>expected\<close> the value found, which differs from the one passed in.
\<close>

theorem isp_linearizable:
  assumes "run isp_exec isp_init as = Some s"
  shows "run aptr_exec (\<lambda>_. 0) (lin_trace isp_exec isp_lin isp_init as) = Some (isp_abs s) \<and>
     (\<forall>a s' t d w v. isp_exec s a = Some s' \<and> isp_lin s a = Some (A_load t d w v) \<longrightarrow>
        isp_abs s w = v \<and> rs_slot (isp_store s') (Hnd t d) = v) \<and>
     (\<forall>a s' t e w x v. isp_exec s a = Some s' \<and> isp_lin s a = Some (A_cas_fail t e w x v) \<longrightarrow>
        x = rs_slot (isp_store s) (Hnd t e) \<and> isp_abs s w = v \<and> v \<noteq> x \<and> rs_slot (isp_store s') (Hnd t e) = v)"
proof (intro conjI allI impI)
  have inv: "isp_inv s" using isp_reachable [OF assms] .
  have "isp_abs isp_init = (\<lambda>_. 0)" by (simp add: isp_abs_def isp_init_def)
  then show "run aptr_exec (\<lambda>_. 0) (lin_trace isp_exec isp_lin isp_init as) = Some (isp_abs s)"
    using ispr.run_abs [OF isp_init_inv assms] by simp
  fix a s' t d w v assume h: "isp_exec s a = Some s' \<and> isp_lin s a = Some (A_load t d w v)"
  then show "isp_abs s w = v" "rs_slot (isp_store s') (Hnd t d) = v"
    using isp_exec_effect [OF inv conjunct1 [OF h]] by (auto simp: isp_effect_def split: if_splits)
next
  have inv: "isp_inv s" using isp_reachable [OF assms] .
  fix a s' t e w x v assume h: "isp_exec s a = Some s' \<and> isp_lin s a = Some (A_cas_fail t e w x v)"
  then show "isp_abs s w = v" "v \<noteq> x" "rs_slot (isp_store s') (Hnd t e) = v"
    using isp_exec_effect [OF inv conjunct1 [OF h]] by (auto simp: isp_effect_def split: if_splits)
  have "isp_lin_pc u p r = Some (A_cas_fail t e w x v) \<Longrightarrow> x = rs_slot r (Hnd t e)" for u p r
    by (cases "(u, p, r)" rule: isp_lin_pc.cases) auto
  with h show "x = rs_slot (isp_store s) (Hnd t e)"
    by (auto simp: isp_lin_def split: isp_act.splits)
qed

theorem isp_linearizable_witness:
  "lin_trace isp_exec isp_lin isp_init isp_demo = [A_store 0 64, A_load 2 5 0 64, A_cas_ok 0 64 0] \<and>
   run aptr_exec (\<lambda>_. 0) [A_store 0 64, A_load 2 5 0 64, A_cas_ok 0 64 0] = Some ((\<lambda>_. 0)(0 := 64, 0 := 0))"
proof -
  have tr: "lin_trace isp_exec isp_lin isp_init isp_demo = [A_store 0 64, A_load 2 5 0 64, A_cas_ok 0 64 0]"
    by (simp add: isp_eval isp_lin_def)
  obtain s where s: "run isp_exec isp_init isp_demo = Some s"
    by (simp add: isp_eval)
  have "run aptr_exec (\<lambda>_. 0) [A_store 0 64, A_load 2 5 0 64, A_cas_ok 0 64 0] = Some (isp_abs s)"
    using isp_linearizable [OF s] tr by metis
  with tr show ?thesis by simp
qed

end
