(* ===== verification/Intr_Ptr_Hp.thy ===== *)
theory Intr_Ptr_Hp
  imports Intr_Ptr
begin

text \<open>
  The atomic shared pointer protected by hazard pointers, \<^verbatim>\<open>IntrSharedPtr/intr_shared_ptr_hp.h\<close>: the
  seven-step load protocol, \<open>store\<close>, the two compare-exchanges, and deferred reclamation, for any number of
  threads and words, one access to a word, a count or a hazard record per step.

  The hazard pointer library is not part of the repository.  Of it the model uses what it documents: a thread
  publishes one address at a time in its hazard record, a retired object is reclaimed at some later
  moment chosen by the library, and not while a hazard record names it that has named it since before
  it was retired.  \<open>hp_shield x\<close> is exactly the set of those records: the threads whose record named
  \<open>x\<close> when \<open>x\<close> was retired and has not been changed since.  \<open>Hp_reclaim x\<close> may happen at any moment
  when that set is empty.
\<close>

section \<open>State\<close>

text \<open>
  \<open>Ho_load w d\<close> is \<open>d = w.load()\<close>; \<open>Ho_cas w e d strong original new_word\<close> is a compare-exchange of \<open>w\<close> with
  the handles \<open>e\<close> (expected) and \<open>d\<close> (desired), whose raw words were captured on entry.
\<close>

datatype hp_op = Ho_load nat nat | Ho_cas nat nat nat bool uintptr uintptr

datatype hp_fin =
    Hf_unit
  | Hf_arg                          \<comment> \<open>\<open>store\<close>: go on to release the by-value parameter\<close>
  | Hf_true
  | Hf_false bool nat uintptr       \<comment> \<open>compare-exchange returned false: strong, \<open>expected\<close>, original word\<close>
  | Hf_throw
  | Hf_refresh hp_op                \<comment> \<open>the word differed: refresh \<open>expected\<close> through \<open>load\<close>\<close>
  | Hf_retry hp_op uintptr          \<comment> \<open>re-validation failed: next round of \<open>load\<close> with this word\<close>
  | Hf_again hp_op uintptr          \<comment> \<open>\<open>expected\<close> was refreshed to this word\<close>

datatype hp_pc =
    Hp_rest
  | Hp_stadd nat
  | Hp_xchg nat
  | Hc_add hp_op
  | Hc_cas hp_op
  | Hl_first hp_op                  \<comment> \<open>step 1\<close>
  | Hl_make hp_op uintptr           \<comment> \<open>acquire a hazard record, then step 2\<close>
  | Hl_protect hp_op uintptr        \<comment> \<open>step 2 with the record kept\<close>
  | Hl_reload hp_op uintptr         \<comment> \<open>step 4\<close>
  | Hl_try hp_op uintptr            \<comment> \<open>step 5: \<open>TryAddRef\<close>, load of the count\<close>
  | Hl_tcas hp_op uintptr nat       \<comment> \<open>step 5: \<open>TryAddRef\<close>, compare-exchange of the count\<close>
  | Hl_zero hp_op                   \<comment> \<open>step 5: reload after a count of zero\<close>
  | Hl_reval hp_op uintptr          \<comment> \<open>step 6\<close>
  | Hl_ret hp_op uintptr            \<comment> \<open>clear the record and return this word\<close>
  | Hl_back hp_op uintptr           \<comment> \<open>clear the record, release the reference taken, retry with this word\<close>
  | Hp_rel hp_fin
  | Hp_retire uintptr hp_fin
  | Hp_done hp_fin

record hps =
  hp_store :: rstore
  hp_pcs :: "tid \<Rightarrow> hp_pc"
  hp_haz :: "tid \<Rightarrow> uintptr"
  hp_users :: "tid list"
  hp_retired :: "uintptr list"
  hp_shield :: "uintptr \<Rightarrow> tid list"

definition hps_init :: hps where
  "hps_init = \<lparr>hp_store = \<lparr>rs_count = Map.empty, rs_slot = (\<lambda>_. 0)\<rparr>, hp_pcs = (\<lambda>_. Hp_rest),
     hp_haz = (\<lambda>_. 0), hp_users = [], hp_retired = [], hp_shield = (\<lambda>_. [])\<rparr>"

fun ho_word :: "hp_op \<Rightarrow> nat" where
  "ho_word (Ho_load w d) = w"
| "ho_word (Ho_cas w e d strong orig new) = w"

definition hp_to :: "tid \<Rightarrow> hp_pc \<Rightarrow> rstore \<Rightarrow> hps \<Rightarrow> hps" where
  "hp_to t p r s = s\<lparr>hp_store := r, hp_pcs := (hp_pcs s)(t := p)\<rparr>"

text \<open>Writing the thread's hazard record: it no longer shields what it named before.\<close>

definition hp_aim :: "tid \<Rightarrow> uintptr \<Rightarrow> hps \<Rightarrow> hps" where
  "hp_aim t x s = s\<lparr>hp_haz := (hp_haz s)(t := x), hp_users := List.insert t (hp_users s),
     hp_shield := (\<lambda>y. removeAll t (hp_shield s y))\<rparr>"

section \<open>The load protocol\<close>

text \<open>The end of \<open>load\<close>: the word goes into \<open>d\<close>, or refreshes \<open>expected\<close>; the handle's old reference is released.\<close>

definition hl_finish :: "tid \<Rightarrow> hp_op \<Rightarrow> uintptr \<Rightarrow> hps \<Rightarrow> hps" where
  "hl_finish t op word s =
     (let r = set_slot (Tmp t) word (hp_store s) in
      case op of
        Ho_load w d \<Rightarrow> hp_to t (Hp_rel Hf_unit) (swap_slots (Tmp t) (Hnd t d) r) s
      | Ho_cas w e d strong orig new \<Rightarrow> hp_to t (Hp_rel (Hf_again op word)) (swap_slots (Tmp t) (Hnd t e) r) s)"

definition hl_top :: "tid \<Rightarrow> hp_op \<Rightarrow> uintptr \<Rightarrow> hps \<Rightarrow> hps" where
  "hl_top t op word s =
     (if unmarked_ptr word = 0 then hl_finish t op word s
      else hp_to t (Hl_make op (unmarked_ptr word)) (hp_store s) s)"

text \<open>A reload inside the hazard scope that found another pointer: leave with a null, or re-aim the record.\<close>

definition hl_moved :: "tid \<Rightarrow> hp_op \<Rightarrow> uintptr \<Rightarrow> hps \<Rightarrow> hps" where
  "hl_moved t op word s =
     (if unmarked_ptr word = 0 then hp_to t (Hl_ret op word) (hp_store s) s
      else hp_to t (Hl_protect op (unmarked_ptr word)) (hp_store s) s)"

fun load_step :: "tid \<Rightarrow> hp_pc \<Rightarrow> hps \<Rightarrow> hps option" where
  "load_step t (Hl_first op) s = Some (hl_top t op (rs_slot (hp_store s) (Word (ho_word op))) s)"
| "load_step t (Hl_make op x) s = Some (hp_to t (Hl_reload op x) (hp_store s) (hp_aim t x s))"
| "load_step t (Hl_protect op x) s = Some (hp_to t (Hl_reload op x) (hp_store s) (hp_aim t x s))"
| "load_step t (Hl_reload op x) s =
     (let reloaded = rs_slot (hp_store s) (Word (ho_word op)) in
      if unmarked_ptr reloaded \<noteq> x then Some (hl_moved t op reloaded s)
      else Some (hp_to t (Hl_try op x) (hp_store s) s))"
| "load_step t (Hl_try op x) s =
     (case rs_count (hp_store s) x of
        None \<Rightarrow> None
      | Some count \<Rightarrow> Some (hp_to t (if count \<noteq> 0 then Hl_tcas op x count else Hl_zero op) (hp_store s) s))"
| "load_step t (Hl_tcas op x count) s =
     (case rs_count (hp_store s) x of
        None \<Rightarrow> None
      | Some cur \<Rightarrow>
          (if cur = count then map_option (\<lambda>r. hp_to t (Hl_reval op x) r s) (take_ref t x (hp_store s))
           else Some (hp_to t (if cur \<noteq> 0 then Hl_tcas op x cur else Hl_try op x) (hp_store s) s)))"
| "load_step t (Hl_zero op) s = Some (hl_moved t op (rs_slot (hp_store s) (Word (ho_word op))) s)"
| "load_step t (Hl_reval op x) s =
     (let word = rs_slot (hp_store s) (Word (ho_word op)) in
      Some (hp_to t (if unmarked_ptr word = x then Hl_ret op word else Hl_back op word) (hp_store s) s))"
| "load_step t (Hl_ret op word) s = Some (hl_finish t op word (hp_aim t 0 s))"
| "load_step t (Hl_back op word) s = Some (hp_to t (Hp_rel (Hf_retry op word)) (hp_store s) (hp_aim t 0 s))"
| "load_step t _ s = None"

section \<open>\<open>store\<close> and the compare-exchanges\<close>

fun swap_step :: "tid \<Rightarrow> hp_pc \<Rightarrow> hps \<Rightarrow> hps option" where
  "swap_step t (Hp_stadd w) s =
     map_option (\<lambda>r. hp_to t (Hp_xchg w) r s) (take_ref t (rs_slot (hp_store s) (Arg t)) (hp_store s))"
| "swap_step t (Hp_xchg w) s =
     (let r = hp_store s in
      Some (hp_to t (Hp_rel Hf_arg)
        (set_slot (Tmp t) (unmarked_ptr (rs_slot r (Word w))) (set_slot (Word w) (rs_slot r (Arg t)) r)) s))"
| "swap_step t (Hc_add (Ho_cas w e d strong orig new)) s =
     map_option (\<lambda>r. hp_to t (Hc_cas (Ho_cas w e d strong orig new)) r s) (take_ref t (unmarked_ptr new) (hp_store s))"
| "swap_step t (Hc_cas (Ho_cas w e d strong orig new)) s =
     (let r = hp_store s; observed = rs_slot r (Word w) in
      if observed = orig
      then Some (hp_to t (Hp_rel Hf_true) (set_slot (Tmp t) (unmarked_ptr observed) (set_slot (Word w) new r)) s)
      else Some (hp_to t (Hp_rel (Hf_refresh (Ho_cas w e d strong orig new))) r s))"
| "swap_step t _ s = None"

section \<open>Releases and reclamation\<close>

definition hp_continue :: "tid \<Rightarrow> hp_fin \<Rightarrow> hps \<Rightarrow> hps" where
  "hp_continue t f s = (case f of
       Hf_arg \<Rightarrow> hp_to t (Hp_rel Hf_unit) (swap_slots (Tmp t) (Arg t) (hp_store s)) s
     | Hf_refresh op \<Rightarrow> hp_to t (Hl_first op) (hp_store s) s
     | Hf_retry op word \<Rightarrow> hl_top t op word s
     | Hf_again op refreshed \<Rightarrow> (case op of
           Ho_cas w e d strong orig new \<Rightarrow>
             hp_to t (if \<not> strong \<or> refreshed \<noteq> orig then Hp_done (Hf_false strong e orig) else Hc_add op) (hp_store s) s
         | Ho_load w d \<Rightarrow> hp_to t (Hp_done Hf_unit) (hp_store s) s)
     | _ \<Rightarrow> hp_to t (Hp_done f) (hp_store s) s)"

text \<open>\<open>retire_disposal::release\<close>: \<open>DelRef\<close>, and \<open>retire()\<close> of an object whose count fell to zero.\<close>

fun release_step :: "tid \<Rightarrow> hp_pc \<Rightarrow> hps \<Rightarrow> hps option" where
  "release_step t (Hp_rel f) s =
     (case release_tmp t (hp_store s) of None \<Rightarrow> None
      | Some (b, p, r) \<Rightarrow>
          (if b then Some (hp_to t (Hp_retire p f) r s) else Some (hp_continue t f (s\<lparr>hp_store := r\<rparr>))))"
| "release_step t (Hp_retire p f) s =
     Some (hp_continue t f
       (s\<lparr>hp_retired := p # hp_retired s,
          hp_shield := (hp_shield s)(p := filter (\<lambda>u. hp_haz s u = p) (hp_users s))\<rparr>))"
| "release_step t _ s = None"

definition hp_reclaim :: "uintptr \<Rightarrow> hps \<Rightarrow> hps option" where
  "hp_reclaim x s =
     (if x \<in> set (hp_retired s) \<and> hp_shield s x = []
      then map_option (\<lambda>r. s\<lparr>hp_store := r, hp_retired := removeAll x (hp_retired s)\<rparr>) (free_obj x (hp_store s))
      else None)"

definition hp_step :: "tid \<Rightarrow> hp_pc \<Rightarrow> hps \<Rightarrow> hps option" where
  "hp_step t p s = (case load_step t p s of Some s' \<Rightarrow> Some s' | None \<Rightarrow>
     (case swap_step t p s of Some s' \<Rightarrow> Some s' | None \<Rightarrow> release_step t p s))"

section \<open>Calls\<close>

datatype hps_act =
    Hp_hop tid hop
  | Hp_call_load tid nat nat
  | Hp_call_store tid nat nat
  | Hp_call_cas tid nat nat nat bool
  | Hp_construct tid nat nat
  | Hp_destroy tid nat
  | Hp_step tid
  | Hp_bad_alloc tid                \<comment> \<open>no hazard record can be allocated\<close>
  | Hp_reclaim uintptr              \<comment> \<open>a scan of the hazard pointer library reclaims a retired object\<close>

fun hp_at_rest :: "hp_pc \<Rightarrow> bool" where
  "hp_at_rest Hp_rest = True"
| "hp_at_rest (Hp_done f) = True"
| "hp_at_rest _ = False"

fun hp_call :: "hps \<Rightarrow> hps_act \<Rightarrow> hps option" where
  "hp_call s (Hp_hop t h) = map_option (\<lambda>r. hp_to t (Hp_rel Hf_unit) r s) (hop_begin t h (hp_store s))"
| "hp_call s (Hp_call_load t w d) = Some (hp_to t (Hl_first (Ho_load w d)) (hp_store s) s)"
| "hp_call s (Hp_call_store t w i) =
     map_option (\<lambda>r. hp_to t (Hp_stadd w) r s)
       (pass_by_value t (rs_slot (hp_store s) (Hnd t i)) (hp_store s))"
| "hp_call s (Hp_call_cas t w e d strong) =
     Some (hp_to t (Hc_add (Ho_cas w e d strong (rs_slot (hp_store s) (Hnd t e)) (rs_slot (hp_store s) (Hnd t d))))
             (hp_store s) s)"
| "hp_call s (Hp_construct t w i) =
     (if rs_slot (hp_store s) (Word w) \<noteq> 0 then None
      else Option.bind (pass_by_value t (rs_slot (hp_store s) (Hnd t i)) (hp_store s)) (\<lambda>r.
           Option.bind (take_ref t (rs_slot r (Arg t)) r) (\<lambda>r'.
           Some (hp_to t (Hp_rel Hf_arg) (swap_slots (Tmp t) (Word w) r') s))))"
| "hp_call s (Hp_destroy t w) =
     Some (hp_to t (Hp_rel Hf_unit)
       (set_slot (Tmp t) (unmarked_ptr (rs_slot (hp_store s) (Word w))) (set_slot (Word w) 0 (hp_store s))) s)"
| "hp_call s _ = None"

fun hps_exec :: "hps \<Rightarrow> hps_act \<Rightarrow> hps option" where
  "hps_exec s (Hp_step t) = (if hp_at_rest (hp_pcs s t) then None else hp_step t (hp_pcs s t) s)"
| "hps_exec s (Hp_bad_alloc t) =
     (case hp_pcs s t of Hl_make op x \<Rightarrow> Some (hp_to t (Hp_done Hf_throw) (hp_store s) s) | _ \<Rightarrow> None)"
| "hps_exec s (Hp_reclaim x) = hp_reclaim x s"
| "hps_exec s (Hp_hop t h) = (if hp_at_rest (hp_pcs s t) then hp_call s (Hp_hop t h) else None)"
| "hps_exec s (Hp_call_load t w d) = (if hp_at_rest (hp_pcs s t) then hp_call s (Hp_call_load t w d) else None)"
| "hps_exec s (Hp_call_store t w i) = (if hp_at_rest (hp_pcs s t) then hp_call s (Hp_call_store t w i) else None)"
| "hps_exec s (Hp_call_cas t w e d b) = (if hp_at_rest (hp_pcs s t) then hp_call s (Hp_call_cas t w e d b) else None)"
| "hps_exec s (Hp_construct t w i) = (if hp_at_rest (hp_pcs s t) then hp_call s (Hp_construct t w i) else None)"
| "hps_exec s (Hp_destroy t w) = (if hp_at_rest (hp_pcs s t) then hp_call s (Hp_destroy t w) else None)"

section \<open>The invariant\<close>

text \<open>
  \<open>hp_aimed\<close>: the address the thread's record must name; \<open>hp_guarded\<close>: the object the thread may touch
  although it holds no reference to it; \<open>hp_retires\<close>: the object the thread is about to retire.
\<close>

fun hp_aimed :: "hp_pc \<Rightarrow> uintptr option" where
  "hp_aimed (Hl_reload op x) = Some x"
| "hp_aimed (Hl_try op x) = Some x"
| "hp_aimed (Hl_tcas op x c) = Some x"
| "hp_aimed _ = None"

fun hp_guarded :: "hp_pc \<Rightarrow> uintptr option" where
  "hp_guarded (Hl_try op x) = Some x"
| "hp_guarded (Hl_tcas op x c) = Some x"
| "hp_guarded _ = None"

fun hp_retires :: "hp_pc \<Rightarrow> uintptr option" where
  "hp_retires (Hp_retire x f) = Some x"
| "hp_retires _ = None"

definition ho_ok :: "tid \<Rightarrow> hp_op \<Rightarrow> rstore \<Rightarrow> bool" where
  "ho_ok t op r = (case op of Ho_load w d \<Rightarrow> True
     | Ho_cas w e d strong orig new \<Rightarrow> rs_slot r (Hnd t d) = new \<and> (e = d \<longrightarrow> orig = new))"

definition no_refs :: "tid \<Rightarrow> rstore \<Rightarrow> bool" where
  "no_refs t r \<longleftrightarrow> rs_slot r (Tmp t) = 0 \<and> rs_slot r (Arg t) = 0"

definition fin_ok :: "tid \<Rightarrow> hp_fin \<Rightarrow> rstore \<Rightarrow> bool" where
  "fin_ok t f r = (case f of
       Hf_arg \<Rightarrow> True
     | Hf_refresh op \<Rightarrow> rs_slot r (Arg t) = 0 \<and> ho_ok t op r
     | Hf_retry op word \<Rightarrow> rs_slot r (Arg t) = 0 \<and> ho_ok t op r \<and> \<not> word_locked word
     | Hf_again op v \<Rightarrow> rs_slot r (Arg t) = 0 \<and> (case op of Ho_load w d \<Rightarrow> False
         | Ho_cas w e d strong orig new \<Rightarrow> rs_slot r (Hnd t e) = v \<and> (e = d \<longrightarrow> orig = new) \<and>
             (e \<noteq> d \<longrightarrow> rs_slot r (Hnd t d) = new))
     | Hf_false strong e orig \<Rightarrow> rs_slot r (Arg t) = 0 \<and> (strong \<longrightarrow> rs_slot r (Hnd t e) \<noteq> orig)
     | _ \<Rightarrow> rs_slot r (Arg t) = 0)"

definition addr_ok :: "uintptr \<Rightarrow> bool" where
  "addr_ok x \<longleftrightarrow> x \<noteq> 0 \<and> ptr_of x = x"

fun hp_pc_ok :: "tid \<Rightarrow> hp_pc \<Rightarrow> rstore \<Rightarrow> bool" where
  "hp_pc_ok t Hp_rest r = no_refs t r"
| "hp_pc_ok t (Hp_done f) r = (no_refs t r \<and> fin_ok t f r)"
| "hp_pc_ok t (Hp_stadd w) r = (rs_slot r (Tmp t) = 0)"
| "hp_pc_ok t (Hp_xchg w) r = (rs_slot r (Tmp t) = rs_slot r (Arg t))"
| "hp_pc_ok t (Hc_add op) r = (no_refs t r \<and> ho_ok t op r \<and> (\<forall>w d. op \<noteq> Ho_load w d))"
| "hp_pc_ok t (Hc_cas op) r = (rs_slot r (Arg t) = 0 \<and> ho_ok t op r \<and>
     (case op of Ho_load w d \<Rightarrow> False | Ho_cas w e d strong orig new \<Rightarrow> rs_slot r (Tmp t) = unmarked_ptr new))"
| "hp_pc_ok t (Hl_first op) r = (no_refs t r \<and> ho_ok t op r)"
| "hp_pc_ok t (Hl_make op x) r = (no_refs t r \<and> ho_ok t op r \<and> addr_ok x)"
| "hp_pc_ok t (Hl_protect op x) r = (no_refs t r \<and> ho_ok t op r \<and> addr_ok x)"
| "hp_pc_ok t (Hl_reload op x) r = (no_refs t r \<and> ho_ok t op r \<and> addr_ok x)"
| "hp_pc_ok t (Hl_try op x) r = (no_refs t r \<and> ho_ok t op r \<and> addr_ok x)"
| "hp_pc_ok t (Hl_tcas op x c) r = (no_refs t r \<and> ho_ok t op r \<and> addr_ok x \<and> c \<noteq> 0)"
| "hp_pc_ok t (Hl_zero op) r = (no_refs t r \<and> ho_ok t op r)"
| "hp_pc_ok t (Hl_reval op x) r = (rs_slot r (Tmp t) = x \<and> rs_slot r (Arg t) = 0 \<and> ho_ok t op r \<and> addr_ok x)"
| "hp_pc_ok t (Hl_ret op word) r =
     (ptr_of (rs_slot r (Tmp t)) = ptr_of word \<and> rs_slot r (Arg t) = 0 \<and> ho_ok t op r \<and> \<not> word_locked word)"
| "hp_pc_ok t (Hl_back op word) r = (rs_slot r (Arg t) = 0 \<and> ho_ok t op r \<and> \<not> word_locked word)"
| "hp_pc_ok t (Hp_rel f) r = fin_ok t f r"
| "hp_pc_ok t (Hp_retire x f) r = (rs_slot r (Tmp t) = 0 \<and> fin_ok t f r)"

definition unlocked_slots :: "rstore \<Rightarrow> bool" where
  "unlocked_slots r \<longleftrightarrow> (\<forall>l. \<not> word_locked (rs_slot r l)) \<and> rs_count r 0 = None"

definition hps_inv :: "hps \<Rightarrow> bool" where
  "hps_inv s \<longleftrightarrow>
     (let r = hp_store s; pc = hp_pcs s in
      counts_exact r \<and> unlocked_slots r \<and> (\<forall>t. hp_pc_ok t (pc t) r) \<and>
      zeros r = set (hp_retired s) \<union> {x. \<exists>t. hp_retires (pc t) = Some x} \<and>
      (\<forall>t x. hp_retires (pc t) = Some x \<longrightarrow> x \<notin> set (hp_retired s)) \<and>
      (\<forall>t u x. hp_retires (pc t) = Some x \<longrightarrow> hp_retires (pc u) = Some x \<longrightarrow> t = u) \<and>
      (\<forall>t. hp_haz s t \<noteq> 0 \<longrightarrow> t \<in> set (hp_users s)) \<and>
      (\<forall>t x. hp_aimed (pc t) = Some x \<longrightarrow> hp_haz s t = x) \<and>
      (\<forall>t x. hp_guarded (pc t) = Some x \<longrightarrow>
         rs_count r x \<noteq> None \<and> (x \<in> set (hp_retired s) \<longrightarrow> t \<in> set (hp_shield s x))))"

lemma hps_invD:
  assumes "hps_inv s"
  shows "counts_exact (hp_store s)" "unlocked_slots (hp_store s)" "hp_pc_ok t (hp_pcs s t) (hp_store s)"
    "zeros (hp_store s) = set (hp_retired s) \<union> {x. \<exists>t. hp_retires (hp_pcs s t) = Some x}"
    "hp_retires (hp_pcs s t) = Some x \<Longrightarrow> x \<notin> set (hp_retired s)"
    "hp_retires (hp_pcs s t) = Some x \<Longrightarrow> hp_retires (hp_pcs s u) = Some x \<Longrightarrow> t = u"
    "hp_haz s t \<noteq> 0 \<Longrightarrow> t \<in> set (hp_users s)"
    "hp_aimed (hp_pcs s t) = Some x \<Longrightarrow> hp_haz s t = x"
    "hp_guarded (hp_pcs s t) = Some x \<Longrightarrow> rs_count (hp_store s) x \<noteq> None"
    "hp_guarded (hp_pcs s t) = Some x \<Longrightarrow> x \<in> set (hp_retired s) \<Longrightarrow> t \<in> set (hp_shield s x)"
  using assms unfolding hps_inv_def Let_def by blast+

lemma hp_to_simps [simp]:
  "hp_store (hp_to t p r s) = r" "hp_pcs (hp_to t p r s) = (hp_pcs s)(t := p)"
  "hp_haz (hp_to t p r s) = hp_haz s" "hp_users (hp_to t p r s) = hp_users s"
  "hp_retired (hp_to t p r s) = hp_retired s" "hp_shield (hp_to t p r s) = hp_shield s"
  "hp_store (hp_aim t x s) = hp_store s" "hp_pcs (hp_aim t x s) = hp_pcs s"
  "hp_haz (hp_aim t x s) = (hp_haz s)(t := x)" "hp_users (hp_aim t x s) = List.insert t (hp_users s)"
  "hp_retired (hp_aim t x s) = hp_retired s" "hp_shield (hp_aim t x s) y = removeAll t (hp_shield s y)"
  by (simp_all add: hp_to_def hp_aim_def)

lemma hp_pc_ok_cong:
  assumes "\<And>i. rs_slot r' (Hnd t i) = rs_slot r (Hnd t i)" and "rs_slot r' (Arg t) = rs_slot r (Arg t)"
    and "rs_slot r' (Tmp t) = rs_slot r (Tmp t)"
  shows "hp_pc_ok t p r' = hp_pc_ok t p r"
proof -
  have "ho_ok t op r' = ho_ok t op r" "no_refs t r' = no_refs t r" "fin_ok t f r' = fin_ok t f r" for op f
    by (simp_all add: ho_ok_def no_refs_def fin_ok_def assms split: hp_op.splits hp_fin.splits)
  then show ?thesis by (cases p) (simp_all add: assms split: hp_op.splits)
qed

lemma hp_retires_guarded: "hp_retires p = Some x \<Longrightarrow> hp_guarded p = None"
  by (cases p) simp_all

lemma hp_guarded_aimed: "hp_guarded p = Some x \<Longrightarrow> hp_aimed p = Some x"
  by (cases p) simp_all

text \<open>The conditions under which a step of thread \<open>t\<close> keeps the invariant.\<close>

lemma hps_inv_step:
  assumes inv: "hps_inv s" and pcs: "hp_pcs s' = (hp_pcs s)(t := p)"
    and counts: "counts_exact (hp_store s')" "unlocked_slots (hp_store s')"
    and others: "\<And>u i. u \<noteq> t \<Longrightarrow> rs_slot (hp_store s') (Hnd u i) = rs_slot (hp_store s) (Hnd u i)"
      "\<And>u. u \<noteq> t \<Longrightarrow> rs_slot (hp_store s') (Arg u) = rs_slot (hp_store s) (Arg u)"
      "\<And>u. u \<noteq> t \<Longrightarrow> rs_slot (hp_store s') (Tmp u) = rs_slot (hp_store s) (Tmp u)"
    and dom: "\<And>x. rs_count (hp_store s) x \<noteq> None \<Longrightarrow> rs_count (hp_store s') x \<noteq> None"
    and own: "hp_pc_ok t p (hp_store s')"
    and zero: "zeros (hp_store s') = zeros (hp_store s) \<union> set_option (hp_retires p)"
      "\<And>x. hp_retires p = Some x \<Longrightarrow> x \<notin> zeros (hp_store s)"
    and retired: "set (hp_retired s') = set (hp_retired s) \<union> set_option (hp_retires (hp_pcs s t))"
    and haz: "\<And>u. u \<noteq> t \<Longrightarrow> hp_haz s' u = hp_haz s u" "set (hp_users s) \<subseteq> set (hp_users s')"
      "hp_haz s' t \<noteq> 0 \<Longrightarrow> t \<in> set (hp_users s')" "\<And>x. hp_aimed p = Some x \<Longrightarrow> hp_haz s' t = x"
    and guard: "\<And>x. hp_guarded p = Some x \<Longrightarrow> rs_count (hp_store s') x \<noteq> None \<and> x \<notin> set (hp_retired s') \<or>
        hp_guarded (hp_pcs s t) = Some x \<and> rs_count (hp_store s') x \<noteq> None \<and> hp_retired s' = hp_retired s \<and> hp_shield s' = hp_shield s"
    and shield: "\<And>u x. u \<noteq> t \<Longrightarrow> hp_guarded (hp_pcs s u) = Some x \<Longrightarrow> x \<in> set (hp_retired s') \<Longrightarrow> u \<in> set (hp_shield s' x)"
  shows "hps_inv s'"
proof -
  note I = hps_invD [OF inv]
  let ?pc = "(hp_pcs s)(t := p)"
  have ok: "hp_pc_ok u (?pc u) (hp_store s')" for u
    using own I(3) [of u] hp_pc_ok_cong [of "hp_store s'" u "hp_store s"] others by (cases "u = t") simp_all
  have old: "{x. \<exists>u. hp_retires (hp_pcs s u) = Some x} = set_option (hp_retires (hp_pcs s t)) \<union> {x. \<exists>u. u \<noteq> t \<and> hp_retires (hp_pcs s u) = Some x}"
    by (auto simp: elem_set)
  have new: "{x. \<exists>u. hp_retires (?pc u) = Some x} = set_option (hp_retires p) \<union> {x. \<exists>u. u \<noteq> t \<and> hp_retires (hp_pcs s u) = Some x}"
    by (auto simp: elem_set)
  have z: "zeros (hp_store s') = set (hp_retired s') \<union> {x. \<exists>u. hp_retires (?pc u) = Some x}"
    unfolding zero(1) I(4) retired new old by blast
  have r1: "x \<notin> set (hp_retired s')" if h: "hp_retires (?pc u) = Some x" for u x
  proof (cases "u = t")
    case True
    then have "x \<notin> zeros (hp_store s)" using h zero(2) by simp
    then show ?thesis unfolding I(4) retired by (auto simp: elem_set)
  next
    case False
    then show ?thesis using h I(5) [of u x] I(6) [of u x t] unfolding retired by (auto simp: elem_set)
  qed
  have r2: "u = v" if h: "hp_retires (?pc u) = Some x" "hp_retires (?pc v) = Some x" for u v x
  proof -
    have "w = t" if "hp_retires p = Some x" "hp_retires (hp_pcs s w) = Some x" for w
      using zero(2) [OF that(1)] that(2) I(4) by blast
    then show ?thesis using h I(6) by (auto split: if_splits)
  qed
  have g: "rs_count (hp_store s') x \<noteq> None \<and> (x \<in> set (hp_retired s') \<longrightarrow> u \<in> set (hp_shield s' x))"
    if h: "hp_guarded (?pc u) = Some x" for u x
  proof (cases "u = t")
    case True
    then show ?thesis using guard [of x] h I(10) [of t x] by auto
  next
    case False
    then show ?thesis using h I(9) [of u x] dom shield by simp
  qed
  have hz: "hp_haz s' u \<noteq> 0 \<Longrightarrow> u \<in> set (hp_users s')" for u
    using haz(1-3) I(7) [of u] by (cases "u = t") auto
  have am: "hp_aimed (?pc u) = Some x \<Longrightarrow> hp_haz s' u = x" for u x
    using haz(1,4) I(8) [of u x] by (cases "u = t") auto
  show ?thesis
    unfolding hps_inv_def Let_def pcs
    using counts ok z r1 r2 hz am g by blast
qed

section \<open>Every step is possible and keeps the invariant\<close>

text \<open>\<open>local_move\<close>: the thread rearranged references among its own slots and went on to a position without duties.\<close>

definition local_move :: "tid \<Rightarrow> rstore \<Rightarrow> hp_pc \<Rightarrow> rstore \<Rightarrow> bool" where
  "local_move t r p r' \<longleftrightarrow> counts_exact r' \<and> unlocked_slots r' \<and> rs_count r' = rs_count r \<and>
     (\<forall>w. rs_slot r' (Word w) = rs_slot r (Word w)) \<and>
     (\<forall>u. u \<noteq> t \<longrightarrow> (\<forall>i. rs_slot r' (Hnd u i) = rs_slot r (Hnd u i)) \<and>
        rs_slot r' (Arg u) = rs_slot r (Arg u) \<and> rs_slot r' (Tmp u) = rs_slot r (Tmp u)) \<and>
     hp_retires p = None \<and> hp_aimed p = None \<and> hp_guarded p = None \<and> hp_pc_ok t p r'"

lemma unlocked_set: "unlocked_slots r \<Longrightarrow> \<not> word_locked w \<Longrightarrow> unlocked_slots (set_slot l w r)"
  by (auto simp: unlocked_slots_def)

lemma unlocked_swap: "unlocked_slots r \<Longrightarrow> unlocked_slots (swap_slots a b r)"
  by (auto simp: unlocked_slots_def)

lemma unlocked_clean: "unlocked_slots r \<Longrightarrow> clean_slots r"
  by (auto simp: unlocked_slots_def clean_slots_def)

lemma unlocked_ptr: "unlocked_slots r \<Longrightarrow> unmarked_ptr (rs_slot r l) = ptr_of (rs_slot r l)"
  by (simp add: unlocked_slots_def)

lemma hl_finish_move:
  assumes "counts_exact (hp_store s)" and "unlocked_slots (hp_store s)"
    and w: "ptr_of (rs_slot (hp_store s) (Tmp t)) = ptr_of word" "\<not> word_locked word"
    and "rs_slot (hp_store s) (Arg t) = 0" and "ho_ok t op (hp_store s)"
  obtains p r where "hl_finish t op word s = hp_to t p r s" "local_move t (hp_store s) p r"
proof -
  let ?r = "set_slot (Tmp t) word (hp_store s)"
  have c: "counts_exact ?r" "unlocked_slots ?r"
    using assms by (auto intro: counts_same unlocked_set)
  show ?thesis
  proof (cases op)
    case (Ho_load v d)
    show ?thesis
      by (rule that [of "Hp_rel Hf_unit" "swap_slots (Tmp t) (Hnd t d) ?r"])
         (use Ho_load assms(5) counts_swap_slots [OF c(1)] unlocked_swap [OF c(2)] in
           \<open>auto simp: hl_finish_def Let_def local_move_def fin_ok_def\<close>)
  next
    case (Ho_cas v e d strong orig new)
    show ?thesis
      by (rule that [of "Hp_rel (Hf_again op word)" "swap_slots (Tmp t) (Hnd t e) ?r"])
         (use Ho_cas assms(5,6) counts_swap_slots [OF c(1)] unlocked_swap [OF c(2)] in
           \<open>auto simp: hl_finish_def Let_def local_move_def fin_ok_def ho_ok_def\<close>)
  qed
qed

lemma unmarked_addr_ok: "\<not> word_locked w \<Longrightarrow> unmarked_ptr w \<noteq> 0 \<Longrightarrow> addr_ok (unmarked_ptr w)"
  by (simp add: addr_ok_def)

lemma hl_top_move:
  assumes "counts_exact (hp_store s)" and "unlocked_slots (hp_store s)" and "no_refs t (hp_store s)"
    and "\<not> word_locked word" and "ho_ok t op (hp_store s)"
  obtains p r where "hl_top t op word s = hp_to t p r s" "local_move t (hp_store s) p r"
proof (cases "unmarked_ptr word = 0")
  case True
  then show ?thesis using hl_finish_move [of s t word op] assms that by (auto simp: hl_top_def no_refs_def)
next
  case False
  then show ?thesis
    using that [of "Hl_make op (unmarked_ptr word)" "hp_store s"] assms unmarked_addr_ok [OF assms(4)]
    by (simp add: hl_top_def local_move_def)
qed

lemma hp_continue_move:
  assumes c: "counts_exact (hp_store s)" "unlocked_slots (hp_store s)"
    and z: "rs_slot (hp_store s) (Tmp t) = 0" and f: "fin_ok t f (hp_store s)"
  obtains p r where "hp_continue t f s = hp_to t p r s" "local_move t (hp_store s) p r"
proof -
  have stay: "local_move t (hp_store s) p (hp_store s)"
    if "hp_retires p = None" "hp_aimed p = None" "hp_guarded p = None" "hp_pc_ok t p (hp_store s)" for p
    using that c by (simp add: local_move_def)
  show ?thesis
  proof (cases f)
    case Hf_arg
    have "local_move t (hp_store s) (Hp_rel Hf_unit) (swap_slots (Tmp t) (Arg t) (hp_store s))"
      using z counts_swap_slots [OF c(1)] unlocked_swap [OF c(2)] by (auto simp: local_move_def fin_ok_def)
    then show ?thesis using that Hf_arg by (simp add: hp_continue_def)
  next
    case (Hf_retry op word)
    then show ?thesis using hl_top_move [OF c, of t word op] z f that
      by (auto simp: hp_continue_def fin_ok_def no_refs_def)
  next
    case (Hf_again op v)
    then obtain w e d strong orig new where op: "op = Ho_cas w e d strong orig new"
      using f by (cases op) (auto simp: fin_ok_def)
    let ?p = "if \<not> strong \<or> v \<noteq> orig then Hp_done (Hf_false strong e orig) else Hc_add op"
    have "local_move t (hp_store s) ?p (hp_store s)"
      by (rule stay) (use Hf_again op f z in \<open>auto simp: fin_ok_def no_refs_def ho_ok_def\<close>)
    then show ?thesis using that [of ?p "hp_store s"] Hf_again op by (simp add: hp_continue_def)
  next
    case (Hf_refresh op)
    then show ?thesis using that [of "Hl_first op" "hp_store s"] stay f z by (simp add: hp_continue_def fin_ok_def no_refs_def)
  qed (use that [of "Hp_done f" "hp_store s"] stay f z in \<open>auto simp: hp_continue_def fin_ok_def no_refs_def\<close>)
qed

lemma hps_inv_local:
  assumes inv: "hps_inv s" and m: "local_move t (hp_store s) p r" and "hp_retires (hp_pcs s t) = None"
  shows "hps_inv (hp_to t p r s)"
  by (rule hps_inv_step [OF inv, where t = t and p = p])
     (use m assms(3) hps_invD(7,10) [OF inv] in \<open>auto simp: local_move_def zeros_def\<close>)

lemma hps_inv_aim:
  assumes inv: "hps_inv s" and "hp_aimed (hp_pcs s t) = None" and "hp_retires (hp_pcs s t) = None"
  shows "hps_inv (hp_aim t x s)"
proof -
  have g: "hp_guarded (hp_pcs s t) = None" using assms(2) by (cases "hp_pcs s t") simp_all
  show ?thesis
    by (rule hps_inv_step [OF inv, where t = t and p = "hp_pcs s t"])
       (use assms g hps_invD(1,2,7) [OF inv] hps_invD(3,10) [OF inv] in \<open>auto\<close>)
qed

text \<open>Taking a reference that the thread is entitled to.\<close>

lemma hps_inv_take:
  assumes inv: "hps_inv s" and tmp: "rs_slot (hp_store s) (Tmp t) = 0" and st: "take_ref t w (hp_store s) = Some r"
    and w: "\<not> word_locked w" and p: "hp_pc_ok t p r" "hp_retires p = None" "hp_aimed p = None" "hp_guarded p = None"
      "hp_retires (hp_pcs s t) = None"
  shows "hps_inv (hp_to t p r s)"
proof -
  note C = unlocked_clean [OF hps_invD(2) [OF inv]]
  have T: "handle_ok t (hp_store s) r \<and> rs_slot r = (rs_slot (hp_store s))(Tmp t := w)"
    by (rule take_ref_ok [OF hps_invD(1) [OF inv] C]) (use tmp st w in simp_all)
  have "rs_count r x \<noteq> None" if "rs_count (hp_store s) x \<noteq> None" for x
    using st that by (auto simp: take_ref_def hook_AddRef_def split: option.splits if_splits)
  moreover have "unlocked_slots r"
    using T w hps_invD(2) [OF inv] by (auto simp: unlocked_slots_def handle_ok_def clean_slots_def)
  ultimately show ?thesis
    by (intro hps_inv_step [OF inv, where t = t and p = p])
       (use T p hps_invD(7,10) [OF inv] in \<open>auto simp: handle_ok_def own_change_def\<close>)
qed

lemma hps_AddRef:
  assumes "hps_inv s" and "ptr_of w = ptr_of (rs_slot (hp_store s) l)" and "\<not> word_locked w"
  obtains r where "take_ref t w (hp_store s) = Some r" "rs_slot r = (rs_slot (hp_store s))(Tmp t := w)"
proof -
  obtain r where "hook_AddRef (ptr_of w) (hp_store s) = Some r"
    using AddRef_owned [OF hps_invD(1) [OF assms(1)], of l "ptr_of w"] assms(2) by metis
  then have "take_ref t w (hp_store s) = Some (set_slot (Tmp t) w r)" using assms(3) by (simp add: take_ref_def)
  then show ?thesis using that take_ref_slots by blast
qed

lemma hps_stay:
  assumes inv: "hps_inv s" and "hp_retires p = None" "hp_retires (hp_pcs s t) = None" "hp_pc_ok t p (hp_store s)"
    and "\<And>x. hp_aimed p = Some x \<Longrightarrow> hp_haz s t = x"
    and "\<And>x. hp_guarded p = Some x \<Longrightarrow> rs_count (hp_store s) x \<noteq> None \<and> x \<notin> set (hp_retired s) \<or> hp_guarded (hp_pcs s t) = Some x"
  shows "hps_inv (hp_to t p (hp_store s) s)"
  by (rule hps_inv_step [OF inv, where t = t and p = p])
     (use assms hps_invD(1,2,7) [OF inv] hps_invD(9,10) [OF inv] in \<open>auto\<close>)

lemma hl_moved_ok:
  assumes inv: "hps_inv s" and "no_refs t (hp_store s)" "ho_ok t op (hp_store s)" "\<not> word_locked word"
    and "hp_retires (hp_pcs s t) = None"
  shows "hps_inv (hl_moved t op word s)"
  using assms unmarked_addr_ok [OF assms(4)]
  by (auto simp: hl_moved_def no_refs_def intro!: hps_stay)

lemma load_step_ok:
  assumes inv: "hps_inv s" and p: "hp_pcs s t = p"
    and l: "p \<notin> {Hp_rest}" "\<And>f. p \<noteq> Hp_done f" "\<And>w. p \<noteq> Hp_stadd w" "\<And>w. p \<noteq> Hp_xchg w" "\<And>op. p \<noteq> Hc_add op"
      "\<And>op. p \<noteq> Hc_cas op" "\<And>f. p \<noteq> Hp_rel f" "\<And>x f. p \<noteq> Hp_retire x f"
  shows "\<exists>s'. load_step t p s = Some s' \<and> hps_inv s'"
proof -
  let ?r = "hp_store s"
  note ok = hps_invD(3) [OF inv, of t] and ce = hps_invD(1) [OF inv] and ul = hps_invD(2) [OF inv]
  have unl: "\<not> word_locked (rs_slot ?r l)" for l using ul by (simp add: unlocked_slots_def)
  show ?thesis
  proof (cases p)
    case (Hl_first op)
    obtain q r where "hl_top t op (rs_slot ?r (Word (ho_word op))) s = hp_to t q r s" "local_move t ?r q r"
      using hl_top_move [OF ce ul _ unl, of t op "Word (ho_word op)"] ok p Hl_first by auto
    then show ?thesis using hps_inv_local [OF inv, of t] p Hl_first by simp
  next
    case (Hl_make op x)
    have "hps_inv (hp_aim t x s)" using hps_inv_aim [OF inv] p Hl_make by simp
    then have "hps_inv (hp_to t (Hl_reload op x) (hp_store (hp_aim t x s)) (hp_aim t x s))"
      by (rule hps_stay) (use ok p Hl_make in auto)
    then show ?thesis using Hl_make by simp
  next
    case (Hl_protect op x)
    have "hps_inv (hp_aim t x s)" using hps_inv_aim [OF inv] p Hl_protect by simp
    then have "hps_inv (hp_to t (Hl_reload op x) (hp_store (hp_aim t x s)) (hp_aim t x s))"
      by (rule hps_stay) (use ok p Hl_protect in auto)
    then show ?thesis using Hl_protect by simp
  next
    case (Hl_reload op x)
    let ?w = "rs_slot ?r (Word (ho_word op))"
    show ?thesis
    proof (cases "unmarked_ptr ?w = x")
      case True
      then have x: "ptr_of ?w = x" "x \<noteq> 0" using unl ok p Hl_reload by (auto simp: addr_ok_def)
      obtain c where c: "rs_count ?r x = Some (Suc c)" using counts_own [OF ce x] by blast
      then have "x \<notin> zeros ?r" by (simp add: zeros_def)
      then have "x \<notin> set (hp_retired s)" unfolding hps_invD(4) [OF inv] by simp
      then have "hps_inv (hp_to t (Hl_try op x) ?r s)"
        using ok p Hl_reload c hps_invD(8) [OF inv, of t x] by (intro hps_stay [OF inv]) (auto split: if_splits)
      then show ?thesis using True Hl_reload by simp
    next
      case False
      then show ?thesis using hl_moved_ok [OF inv _ _ unl] ok p Hl_reload by simp
    qed
  next
    case (Hl_try op x)
    obtain c where c: "rs_count ?r x = Some c" using hps_invD(9) [OF inv, of t x] p Hl_try by auto
    have "hps_inv (hp_to t (if c \<noteq> 0 then Hl_tcas op x c else Hl_zero op) ?r s)"
      using ok p Hl_try hps_invD(8) [OF inv, of t x] by (intro hps_stay [OF inv]) (auto split: if_splits)
    then show ?thesis using Hl_try c by simp
  next
    case (Hl_tcas op x n)
    obtain c where c: "rs_count ?r x = Some c" using hps_invD(9) [OF inv, of t x] p Hl_tcas by auto
    show ?thesis
    proof (cases "c = n")
      case True
      have x: "unmarked_ptr x = x" "n \<noteq> 0" "x \<noteq> 0" "\<not> word_locked x" "rs_slot ?r (Tmp t) = 0"
        using ok p Hl_tcas lock_bit_simps(3) [of x] by (auto simp: addr_ok_def no_refs_def simp del: lock_bit_simps)
      then obtain r where r: "take_ref t x ?r = Some r" using c True by (simp add: take_ref_def hook_AddRef_def)
      have "hp_pc_ok t (Hl_reval op x) r"
        using take_ref_slots [OF r] ok p Hl_tcas by (auto simp: no_refs_def ho_ok_def split: hp_op.splits)
      then have "hps_inv (hp_to t (Hl_reval op x) r s)"
        by (intro hps_inv_take [OF inv x(5) r x(4)]) (use p Hl_tcas in auto)
      then show ?thesis using Hl_tcas c True r by simp
    next
      case False
      have "hps_inv (hp_to t (if c \<noteq> 0 then Hl_tcas op x c else Hl_try op x) ?r s)"
        using ok p Hl_tcas hps_invD(8) [OF inv, of t x] by (intro hps_stay [OF inv]) (auto split: if_splits)
      then show ?thesis using Hl_tcas c False by simp
    qed
  next
    case (Hl_zero op)
    then show ?thesis using hl_moved_ok [OF inv _ _ unl] ok p by simp
  next
    case (Hl_reval op x)
    let ?w = "rs_slot ?r (Word (ho_word op))"
    have "hps_inv (hp_to t (if unmarked_ptr ?w = x then Hl_ret op ?w else Hl_back op ?w) ?r s)"
      using ok p Hl_reval unl by (intro hps_stay [OF inv]) (auto simp: addr_ok_def split: if_splits)
    then show ?thesis using Hl_reval by (simp add: Let_def)
  next
    case (Hl_ret op w)
    have inv1: "hps_inv (hp_aim t 0 s)" using hps_inv_aim [OF inv] p Hl_ret by simp
    obtain q r where "hl_finish t op w (hp_aim t 0 s) = hp_to t q r (hp_aim t 0 s)" "local_move t ?r q r"
      using hl_finish_move [of "hp_aim t 0 s" t w op] ce ul ok p Hl_ret by auto
    then show ?thesis using hps_inv_local [OF inv1, of t q r] p Hl_ret by simp
  next
    case (Hl_back op w)
    have inv1: "hps_inv (hp_aim t 0 s)" using hps_inv_aim [OF inv] p Hl_back by simp
    have "hps_inv (hp_to t (Hp_rel (Hf_retry op w)) (hp_store (hp_aim t 0 s)) (hp_aim t 0 s))"
      using inv1 by (rule hps_stay) (use ok p Hl_back in \<open>auto simp: fin_ok_def\<close>)
    then show ?thesis using Hl_back by simp
  qed (use l in auto)
qed

text \<open>Swapping a word with the reference the thread has prepared for it.\<close>

lemma hps_inv_swap:
  assumes inv: "hps_inv s" and x: "\<not> word_locked x" "ptr_of x = ptr_of (rs_slot (hp_store s) (Tmp t))"
    and y: "ptr_of y = ptr_of (rs_slot (hp_store s) (Word w))" "\<not> word_locked y"
    and f: "fin_ok t f (set_slot (Tmp t) y (set_slot (Word w) x (hp_store s)))" "hp_retires (hp_pcs s t) = None"
  shows "hps_inv (hp_to t (Hp_rel f) (set_slot (Tmp t) y (set_slot (Word w) x (hp_store s))) s)"
proof (rule hps_inv_step [OF inv, where t = t and p = "Hp_rel f"])
  show "counts_exact (hp_store (hp_to t (Hp_rel f) (set_slot (Tmp t) y (set_slot (Word w) x (hp_store s))) s))"
    using counts_swap [OF hps_invD(1) [OF inv], of "Word w" "Tmp t" x y] x y by simp
  show "unlocked_slots (hp_store (hp_to t (Hp_rel f) (set_slot (Tmp t) y (set_slot (Word w) x (hp_store s))) s))"
    using hps_invD(2) [OF inv] x y by (auto intro: unlocked_set)
qed (use f hps_invD(7,10) [OF inv] in \<open>auto simp: zeros_def\<close>)

lemma swap_step_ok:
  assumes inv: "hps_inv s" and p: "hp_pcs s t = p"
    and l: "(\<exists>w. p = Hp_stadd w \<or> p = Hp_xchg w) \<or> (\<exists>op. p = Hc_add op \<or> p = Hc_cas op)"
  shows "\<exists>s'. swap_step t p s = Some s' \<and> hps_inv s'"
proof -
  let ?r = "hp_store s"
  note ok = hps_invD(3) [OF inv, of t] and ul = hps_invD(2) [OF inv]
  have unl: "\<not> word_locked (rs_slot ?r l)" for l using ul by (simp add: unlocked_slots_def)
  from l ok p consider (add) w where "p = Hp_stadd w" | (xchg) w where "p = Hp_xchg w"
    | (cadd) w e d b orig new where "p = Hc_add (Ho_cas w e d b orig new)"
    | (cas) w e d b orig new where "p = Hc_cas (Ho_cas w e d b orig new)"
    by (cases p) (auto split: hp_op.splits, metis hp_op.exhaust)
  then show ?thesis
  proof cases
    case add
    obtain r where r: "take_ref t (rs_slot ?r (Arg t)) ?r = Some r" "rs_slot r = (rs_slot ?r)(Tmp t := rs_slot ?r (Arg t))"
      using hps_AddRef [OF inv refl unl] by blast
    have "hps_inv (hp_to t (Hp_xchg w) r s)"
      by (rule hps_inv_take [OF inv _ r(1) unl]) (use r(2) ok p add in auto)
    then show ?thesis using add r(1) by simp
  next
    case xchg
    have "hps_inv (hp_to t (Hp_rel Hf_arg) (set_slot (Tmp t) (unmarked_ptr (rs_slot ?r (Word w)))
        (set_slot (Word w) (rs_slot ?r (Arg t)) ?r)) s)"
      by (rule hps_inv_swap [OF inv]) (use xchg ok p unl in \<open>auto simp: fin_ok_def\<close>)
    then show ?thesis using xchg by (simp add: Let_def)
  next
    case cadd
    then have n: "rs_slot ?r (Hnd t d) = new" "rs_slot ?r (Tmp t) = 0" using ok p by (auto simp: ho_ok_def no_refs_def)
    have nl: "\<not> word_locked (unmarked_ptr new)" using unl [of "Hnd t d"] n(1) by simp
    obtain r where r: "take_ref t (unmarked_ptr new) ?r = Some r" "rs_slot r = (rs_slot ?r)(Tmp t := unmarked_ptr new)"
      using hps_AddRef [OF inv _ nl, of "Hnd t d"] n(1) by auto
    have "hps_inv (hp_to t (Hc_cas (Ho_cas w e d b orig new)) r s)"
      by (rule hps_inv_take [OF inv n(2) r(1) nl]) (use r(2) ok p cadd in \<open>auto simp: ho_ok_def no_refs_def\<close>)
    then show ?thesis using cadd r(1) by simp
  next
    case cas
    then have n: "rs_slot ?r (Hnd t d) = new" "rs_slot ?r (Tmp t) = unmarked_ptr new" "rs_slot ?r (Arg t) = 0"
      using ok p by (auto simp: ho_ok_def)
    have nl: "\<not> word_locked new" using unl [of "Hnd t d"] n(1) by simp
    show ?thesis
    proof (cases "rs_slot ?r (Word w) = orig")
      case True
      have "hps_inv (hp_to t (Hp_rel Hf_true) (set_slot (Tmp t) (unmarked_ptr orig) (set_slot (Word w) new ?r)) s)"
        by (rule hps_inv_swap [OF inv nl]) (use cas p n True unl [of "Word w"] in \<open>auto simp: fin_ok_def\<close>)
      then show ?thesis using cas True by (simp add: Let_def)
    next
      case False
      have "hps_inv (hp_to t (Hp_rel (Hf_refresh (Ho_cas w e d b orig new))) ?r s)"
        by (rule hps_stay [OF inv]) (use cas p n ok in \<open>auto simp: fin_ok_def\<close>)
      then show ?thesis using cas False by (simp add: Let_def)
    qed
  qed
qed

lemma release_step_ok:
  assumes inv: "hps_inv s" and p: "hp_pcs s t = p" and l: "(\<exists>f. p = Hp_rel f) \<or> (\<exists>x f. p = Hp_retire x f)"
  shows "\<exists>s'. release_step t p s = Some s' \<and> hps_inv s'"
proof (cases "\<exists>f. p = Hp_rel f")
  case True
  then obtain f where q: "p = Hp_rel f" by blast
  have f: "fin_ok t f (hp_store s)" using hps_invD(3) [OF inv, of t] p q by simp
  obtain b x r where r: "release_tmp t (hp_store s) = Some (b, x, r)" "counts_exact r" "clean_slots r"
      "own_change t (hp_store s) r" "rs_slot r (Tmp t) = 0" "\<forall>i. rs_slot r (Hnd t i) = rs_slot (hp_store s) (Hnd t i)"
      "zeros r = (if b then insert x (zeros (hp_store s)) else zeros (hp_store s))" "b \<longrightarrow> x \<noteq> 0 \<and> x \<notin> zeros (hp_store s)"
    using release_tmp_ok [OF hps_invD(1) [OF inv] unlocked_clean [OF hps_invD(2) [OF inv]], of t] by blast
  have ul: "unlocked_slots r"
    using r(3-6) hps_invD(2) [OF inv] release_tmp_slots [OF r(1)] by (auto simp: unlocked_slots_def clean_slots_def)
  have dom: "rs_count r y \<noteq> None" if "rs_count (hp_store s) y \<noteq> None" for y
    using r(1) that by (auto simp: release_tmp_def hook_DelRef_def Let_def split: option.splits if_splits)
  have f': "fin_ok t f r" using f r(4,6) by (simp add: fin_ok_def ho_ok_def own_change_def split: hp_fin.splits hp_op.splits)
  show ?thesis
  proof (cases b)
    case True
    have "hps_inv (hp_to t (Hp_retire x f) r s)"
      by (rule hps_inv_step [OF inv, where t = t and p = "Hp_retire x f"])
         (use r ul dom f' p q True hps_invD(7,10) [OF inv] in \<open>auto simp: own_change_def\<close>)
    then show ?thesis using q r(1) True by simp
  next
    case False
    let ?s = "s\<lparr>hp_store := r\<rparr>"
    obtain p' r' where m: "hp_continue t f ?s = hp_to t p' r' ?s" "local_move t r p' r'"
      using hp_continue_move [of ?s t f] r ul f' by auto
    have "hps_inv (hp_to t p' r' ?s)"
      by (rule hps_inv_step [OF inv, where t = t and p = p'])
         (use m(2) r ul dom f' p q False hps_invD(7,10) [OF inv] in \<open>auto simp: own_change_def local_move_def zeros_def\<close>)
    then show ?thesis using q r(1) False m(1) by simp
  qed
next
  case False
  then obtain x f where q: "p = Hp_retire x f" using l by blast
  let ?s = "s\<lparr>hp_retired := x # hp_retired s, hp_shield := (hp_shield s)(x := filter (\<lambda>u. hp_haz s u = x) (hp_users s))\<rparr>"
  have ok: "rs_slot (hp_store s) (Tmp t) = 0" "fin_ok t f (hp_store s)" using hps_invD(3) [OF inv, of t] p q by simp_all
  obtain p' r' where m: "hp_continue t f ?s = hp_to t p' r' ?s" "local_move t (hp_store s) p' r'"
    using hp_continue_move [of ?s t f] hps_invD(1,2) [OF inv] ok by auto
  have xz: "x \<noteq> 0"
  proof
    assume "x = 0"
    then have "0 \<in> zeros (hp_store s)" unfolding hps_invD(4) [OF inv] using p q by (auto intro!: exI [of _ t])
    then show False using hps_invD(2) [OF inv] by (simp add: zeros_def unlocked_slots_def)
  qed
  have sh: "u \<in> set (hp_shield ?s y)" if g: "hp_guarded (hp_pcs s u) = Some y" "y \<in> set (hp_retired ?s)" for u y
  proof (cases "y = x")
    case True
    have "hp_haz s u = x" using hps_invD(8) [OF inv hp_guarded_aimed [OF g(1)]] True by simp
    then show ?thesis using True xz hps_invD(7) [OF inv, of u] by simp
  next
    case False
    then show ?thesis using g hps_invD(10) [OF inv g(1)] by simp
  qed
  have "hps_inv (hp_to t p' r' ?s)"
    by (rule hps_inv_step [OF inv, where t = t and p = p'])
       (use m(2) sh p q hps_invD(7) [OF inv] in \<open>auto simp: local_move_def zeros_def\<close>)
  then show ?thesis using q m(1) by simp
qed

lemma hp_step_ok:
  assumes inv: "hps_inv s" and r: "\<not> hp_at_rest (hp_pcs s t)"
  shows "\<exists>s'. hp_step t (hp_pcs s t) s = Some s' \<and> hps_inv s'"
proof (cases "hp_pcs s t")
  case (Hp_stadd w)
  then show ?thesis using swap_step_ok [OF inv Hp_stadd] by (auto simp: hp_step_def)
next
  case (Hp_xchg w)
  then show ?thesis using swap_step_ok [OF inv Hp_xchg] by (auto simp: hp_step_def)
next
  case (Hc_add op)
  then show ?thesis using swap_step_ok [OF inv Hc_add] by (auto simp: hp_step_def)
next
  case (Hc_cas op)
  then show ?thesis using swap_step_ok [OF inv Hc_cas] by (auto simp: hp_step_def)
next
  case (Hp_rel f)
  then show ?thesis using release_step_ok [OF inv Hp_rel] by (auto simp: hp_step_def)
next
  case (Hp_retire x f)
  then show ?thesis using release_step_ok [OF inv Hp_retire] by (auto simp: hp_step_def)
qed (use r load_step_ok [OF inv refl, of t] in \<open>auto simp: hp_step_def simp del: load_step.simps\<close>)

lemma hp_reclaim_ok:
  assumes inv: "hps_inv s" and st: "hp_reclaim x s = Some s'"
  shows "hps_inv s'"
proof -
  note I = hps_invD [OF inv]
  obtain r where r: "x \<in> set (hp_retired s)" "hp_shield s x = []" "free_obj x (hp_store s) = Some r"
      "s' = s\<lparr>hp_store := r, hp_retired := removeAll x (hp_retired s)\<rparr>"
    using st by (auto simp: hp_reclaim_def split: if_splits)
  have slots: "rs_slot r = rs_slot (hp_store s)" using free_obj_slots [OF r(3)] .
  have count: "rs_count r = (rs_count (hp_store s))(x := None)"
    using r(3) by (auto simp: free_obj_def split: if_splits)
  have "hp_pc_ok t (hp_pcs s t) r" for t using I(3) [of t] hp_pc_ok_cong [of r t "hp_store s"] slots by simp
  moreover have "unlocked_slots r" using I(2) slots count by (simp add: unlocked_slots_def)
  moreover have "zeros r = set (removeAll x (hp_retired s)) \<union> {y. \<exists>t. hp_retires (hp_pcs s t) = Some y}"
  proof -
    have "zeros r = zeros (hp_store s) - {x}" by (auto simp: zeros_def count)
    moreover have "x \<notin> {y. \<exists>t. hp_retires (hp_pcs s t) = Some y}" using I(5) r(1) by blast
    ultimately show ?thesis unfolding I(4) by auto
  qed
  moreover have "y \<noteq> x" if "hp_guarded (hp_pcs s t) = Some y" for t y using I(10) [OF that] r(1,2) by auto
  ultimately show ?thesis
    unfolding hps_inv_def Let_def r(4)
    using counts_free [OF I(1) r(3)] I(5-10) by (auto simp: count)
qed

lemma pass_by_value_hp:
  assumes inv: "hps_inv s" and z: "no_refs t (hp_store s)"
    and st: "pass_by_value t (rs_slot (hp_store s) (Hnd t i)) (hp_store s) = Some r"
  shows "counts_exact r \<and> unlocked_slots r \<and> zeros r = zeros (hp_store s) \<and>
     rs_slot r = (rs_slot (hp_store s))(Arg t := rs_slot (hp_store s) (Hnd t i)) \<and>
     (\<forall>x. rs_count (hp_store s) x \<noteq> None \<longrightarrow> rs_count r x \<noteq> None)"
proof -
  let ?w = "rs_slot (hp_store s) (Hnd t i)"
  have w: "\<not> word_locked ?w" using hps_invD(2) [OF inv] by (simp add: unlocked_slots_def)
  obtain r1 where r1: "take_ref t ?w (hp_store s) = Some r1" "r = swap_slots (Tmp t) (Arg t) r1"
    using st by (auto simp: pass_by_value_def)
  have T: "handle_ok t (hp_store s) r1 \<and> rs_slot r1 = (rs_slot (hp_store s))(Tmp t := ?w)"
    by (rule take_ref_ok [OF hps_invD(1) [OF inv] unlocked_clean [OF hps_invD(2) [OF inv]] _ r1(1) w])
       (use z in \<open>simp add: no_refs_def\<close>)
  have "rs_slot r = (rs_slot (hp_store s))(Arg t := ?w)" using T z r1(2) by (auto simp: fun_eq_iff no_refs_def)
  moreover have "rs_count r x \<noteq> None" if "rs_count (hp_store s) x \<noteq> None" for x
    using r1 that by (auto simp: take_ref_def hook_AddRef_def split: option.splits if_splits)
  ultimately show ?thesis
    using T r1(2) w hps_invD(2) [OF inv]
    by (auto simp: handle_ok_def zeros_def unlocked_slots_def clean_slots_def intro: counts_swap_slots)
qed

lemma hop_begin_dom: "hop_begin t h r = Some r' \<Longrightarrow> rs_count r x \<noteq> None \<Longrightarrow> rs_count r' x \<noteq> None"
  by (cases h) (auto simp: adopt_raw_def take_ref_def hook_AddRef_def split: option.splits if_splits)

lemma hp_call_ok:
  assumes inv: "hps_inv s" and rest: "hp_at_rest (hp_pcs s t)" and st: "hp_call s a = Some s'"
    and a: "a \<in> {Hp_hop t h, Hp_call_load t w d, Hp_call_store t w d, Hp_call_cas t w e d b, Hp_construct t w d, Hp_destroy t w}"
  shows "hps_inv s'"
proof -
  let ?r = "hp_store s"
  have z: "no_refs t ?r" using hps_invD(3) [OF inv, of t] rest by (cases "hp_pcs s t") auto
  have idle: "hp_retires (hp_pcs s t) = None" "hp_guarded (hp_pcs s t) = None"
    using rest by (cases "hp_pcs s t"; simp)+
  note ul = hps_invD(2) [OF inv] and ce = hps_invD(1) [OF inv] and frame = hps_invD(7,10) [OF inv]
  have unl: "\<not> word_locked (rs_slot ?r l)" for l using ul by (simp add: unlocked_slots_def)
  show ?thesis
  proof (cases a)
    case (Hp_hop u k)
    then have u: "u = t" using a by auto
    obtain r where r: "hop_begin t k ?r = Some r" "s' = hp_to t (Hp_rel Hf_unit) r s" using st Hp_hop u by auto
    have H: "handle_ok t ?r r" using hop_begin_ok [OF ce unlocked_clean [OF ul] _ r(1)] z by (simp add: no_refs_def)
    have "unlocked_slots r"
      unfolding unlocked_slots_def
    proof (intro conjI allI)
      show "\<not> word_locked (rs_slot r l)" for l
        using H unl by (cases l) (auto simp: handle_ok_def own_change_def clean_slots_def)
      show "rs_count r 0 = None" using H by (simp add: handle_ok_def clean_slots_def)
    qed
    then show ?thesis unfolding r(2)
      by (intro hps_inv_step [OF inv, where t = t and p = "Hp_rel Hf_unit"])
         (use H z idle frame hop_begin_dom [OF r(1)] in \<open>auto simp: handle_ok_def own_change_def fin_ok_def no_refs_def\<close>)
  next
    case (Hp_call_load u v k)
    then have "hps_inv (hp_to t (Hl_first (Ho_load v k)) ?r s)"
      by (intro hps_stay [OF inv]) (use z idle in \<open>auto simp: ho_ok_def\<close>)
    then show ?thesis using st a Hp_call_load by auto
  next
    case (Hp_call_cas u v k j c)
    then have "hps_inv (hp_to t (Hc_add (Ho_cas v k j c (rs_slot ?r (Hnd t k)) (rs_slot ?r (Hnd t j)))) ?r s)"
      by (intro hps_stay [OF inv]) (use z idle in \<open>auto simp: ho_ok_def\<close>)
    then show ?thesis using st a Hp_call_cas by auto
  next
    case (Hp_call_store u v i)
    then obtain r where r: "pass_by_value t (rs_slot ?r (Hnd t i)) ?r = Some r" "s' = hp_to t (Hp_stadd v) r s"
      using st a by auto
    show ?thesis unfolding r(2)
      by (rule hps_inv_step [OF inv, where t = t and p = "Hp_stadd v"])
         (use pass_by_value_hp [OF inv z r(1)] z idle frame in \<open>auto simp: no_refs_def\<close>)
  next
    case (Hp_construct u v i)
    then obtain r r' where r: "rs_slot ?r (Word v) = 0" "pass_by_value t (rs_slot ?r (Hnd t i)) ?r = Some r"
        "take_ref t (rs_slot r (Arg t)) r = Some r'" "s' = hp_to t (Hp_rel Hf_arg) (swap_slots (Tmp t) (Word v) r') s"
      using st a by (auto simp: bind_eq_Some_conv split: if_splits)
    note P = pass_by_value_hp [OF inv z r(2)]
    have T: "handle_ok t r r' \<and> rs_slot r' = (rs_slot r)(Tmp t := rs_slot r (Arg t))"
      by (rule take_ref_ok) (use P r(3) z unl in \<open>auto simp: no_refs_def intro: unlocked_clean\<close>)
    have dom: "rs_count r' x \<noteq> None" if "rs_count ?r x \<noteq> None" for x
      using P that r(3) by (auto simp: take_ref_def hook_AddRef_def split: option.splits if_splits)
    have "unlocked_slots r'" using T P unl by (auto simp: unlocked_slots_def handle_ok_def clean_slots_def)
    then have "unlocked_slots (swap_slots (Tmp t) (Word v) r')" by (rule unlocked_swap)
    then show ?thesis unfolding r(4)
      by (intro hps_inv_step [OF inv, where t = t and p = "Hp_rel Hf_arg"])
         (use T P z idle frame dom in \<open>auto simp: handle_ok_def no_refs_def fin_ok_def zeros_def intro: counts_swap_slots\<close>)
  next
    case (Hp_destroy u v)
    have "hps_inv (hp_to t (Hp_rel Hf_unit) (set_slot (Tmp t) (unmarked_ptr (rs_slot ?r (Word v))) (set_slot (Word v) 0 ?r)) s)"
      by (rule hps_inv_swap [OF inv]) (use z idle unl in \<open>auto simp: no_refs_def fin_ok_def\<close>)
    then show ?thesis using st a Hp_destroy by auto
  qed (use st in simp_all)
qed

lemma hps_exec_inv: "hps_inv s \<Longrightarrow> hps_exec s a = Some s' \<Longrightarrow> hps_inv s'"
proof (cases a)
  case (Hp_bad_alloc t)
  assume inv: "hps_inv s" and st: "hps_exec s a = Some s'"
  then obtain op x where p: "hp_pcs s t = Hl_make op x" "s' = hp_to t (Hp_done Hf_throw) (hp_store s) s"
    using Hp_bad_alloc by (auto split: hp_pc.splits)
  show ?thesis unfolding p(2)
    by (rule hps_stay [OF inv]) (use p(1) hps_invD(3) [OF inv, of t] in \<open>auto simp: fin_ok_def no_refs_def\<close>)
next
  case (Hp_step t)
  assume "hps_inv s" "hps_exec s a = Some s'"
  then show ?thesis using hp_step_ok [of s t] Hp_step by (auto split: if_splits)
qed (auto intro: hp_call_ok hp_reclaim_ok simp del: hp_call.simps split: if_splits)

interpretation hpsi: machine_invariant hps_exec hps_inv
  by unfold_locales (rule hps_exec_inv)

lemma hps_init_inv: "hps_inv hps_init"
  by (simp add: hps_inv_def hps_init_def counts_exact_def fin_slots_def unlocked_slots_def zeros_def refs_def
        hook_use_count_def no_refs_def)

end
