(* ===== verification/Intr_Ptr_Hp_Spec.thy ===== *)
theory Intr_Ptr_Hp_Spec
  imports Intr_Ptr_Hp
begin

text \<open>
  The properties of the hazard-pointer protected atomic shared pointer: memory safety under deferred
  reclamation, linearizability, the exactness of the strong compare-exchange, and the progress of a load.
\<close>

section \<open>Memory safety\<close>

lemma hps_reachable: "run hps_exec hps_init as = Some s \<Longrightarrow> hps_inv s"
  by (rule hpsi.run_Inv [OF hps_init_inv])

text \<open>
  Thread 1 publishes an object in word 0; thread 2 has protected it and seen it again in the word when thread 1
  takes it out, drops it and retires it.
\<close>

definition hps_demo :: "hps_act list" where
  "hps_demo =
     [Hp_hop 1 (Hop_adopt 0 64), Hp_step 1, Hp_call_store 1 0 0, Hp_step 1, Hp_step 1, Hp_step 1, Hp_step 1,
      Hp_call_load 2 0 5, Hp_step 2, Hp_step 2, Hp_step 2,
      Hp_call_cas 1 0 0 1 True, Hp_step 1, Hp_step 1, Hp_step 1, Hp_hop 1 (Hop_reset 0), Hp_step 1, Hp_step 1]"

lemmas hps_eval = hps_demo_def hps_init_def hp_step_def hp_to_def hp_aim_def Let_def take_ref_def adopt_raw_def
  hook_AddRef_def hook_DelRef_def swap_slots_def set_slot_def release_tmp_def free_obj_def pass_by_value_def
  hl_top_def hl_moved_def hl_finish_def hp_continue_def hp_reclaim_def unmarked_ptr_def word_locked_def
  word_set_mark_def

text \<open>
  C25.  Memory safety: in every interleaving of loads, stores and compare-exchanges of any number of threads on any
  number of words with the releases, retirements and reclamations they cause, the next access of a thread
  inside a call is always possible: in particular \<open>TryAddRef\<close> in the middle of the load protocol, on an object to which
  the thread owns no reference, always finds the object still existing.  Every word and handle that is
  not null points to an object that exists and has not been retired, and every count is the number of
  references.
\<close>

theorem hps_memory_safe:
  assumes "run hps_exec hps_init as = Some s"
  shows "(\<forall>t. \<not> hp_at_rest (hp_pcs s t) \<longrightarrow> hps_exec s (Hp_step t) \<noteq> None) \<and>
         (\<forall>t op x c. hp_pcs s t = Hl_try op x \<or> hp_pcs s t = Hl_tcas op x c \<longrightarrow> rs_count (hp_store s) x \<noteq> None) \<and>
         (\<forall>l. ptr_of (rs_slot (hp_store s) l) \<noteq> 0 \<longrightarrow>
            (\<exists>c. rs_count (hp_store s) (ptr_of (rs_slot (hp_store s) l)) = Some (Suc c)) \<and>
            ptr_of (rs_slot (hp_store s) l) \<notin> set (hp_retired s)) \<and>
         (\<forall>x c. x \<noteq> 0 \<and> rs_count (hp_store s) x = Some c \<longrightarrow> refs (rs_slot (hp_store s)) x = c)"
proof (intro conjI allI impI)
  have inv: "hps_inv s" using hps_reachable [OF assms] .
  show "hps_exec s (Hp_step t) \<noteq> None" if "\<not> hp_at_rest (hp_pcs s t)" for t
    using hp_step_ok [OF inv that] that by auto
  show "rs_count (hp_store s) x \<noteq> None" if "hp_pcs s t = Hl_try op x \<or> hp_pcs s t = Hl_tcas op x c" for t op x c
    using hps_invD(9) [OF inv, of t x] that by auto
  fix l assume l: "ptr_of (rs_slot (hp_store s) l) \<noteq> 0"
  obtain c where c: "rs_count (hp_store s) (ptr_of (rs_slot (hp_store s) l)) = Some (Suc c)"
    using counts_own [OF hps_invD(1) [OF inv] refl l] by blast
  then show "\<exists>c. rs_count (hp_store s) (ptr_of (rs_slot (hp_store s) l)) = Some (Suc c)" by blast
  have "ptr_of (rs_slot (hp_store s) l) \<notin> zeros (hp_store s)" using c by (simp add: zeros_def)
  then show "ptr_of (rs_slot (hp_store s) l) \<notin> set (hp_retired s)" unfolding hps_invD(4) [OF inv] by simp
next
  fix x c assume "x \<noteq> 0 \<and> rs_count (hp_store s) x = Some c"
  then show "refs (rs_slot (hp_store s)) x = c"
    using countsD(2) [OF hps_invD(1) [OF hps_reachable [OF assms]], of x] by (simp add: hook_use_count_def)
qed

theorem hps_memory_safe_witness:
  "\<exists>s. run hps_exec hps_init hps_demo = Some s \<and> hp_pcs s 2 = Hl_try (Ho_load 0 5) 64 \<and>
     hp_retired s = [64] \<and> hps_exec s (Hp_reclaim 64) = None \<and> hps_exec s (Hp_step 2) \<noteq> None"
proof -
  have "\<exists>s. run hps_exec hps_init hps_demo = Some s \<and> hp_pcs s 2 = Hl_try (Ho_load 0 5) 64 \<and>
     hp_retired s = [64] \<and> hps_exec s (Hp_reclaim 64) = None"
    by (simp add: hps_eval)
  then obtain s where s: "run hps_exec hps_init hps_demo = Some s" "hp_pcs s 2 = Hl_try (Ho_load 0 5) 64"
     "hp_retired s = [64]" "hps_exec s (Hp_reclaim 64) = None" by blast
  have "hps_exec s (Hp_step 2) \<noteq> None" using hps_memory_safe [OF s(1), THEN conjunct1, rule_format, of 2] s(2) by simp
  with s show ?thesis by blast
qed

section \<open>Linearizability\<close>

definition hps_abs :: "hps \<Rightarrow> nat \<Rightarrow> uintptr" where
  "hps_abs s = (\<lambda>w. rs_slot (hp_store s) (Word w))"

fun ho_dest :: "hp_op \<Rightarrow> nat" where
  "ho_dest (Ho_load w d) = d"
| "ho_dest (Ho_cas w e d strong orig new) = e"

text \<open>
  A load takes effect at the read that produces the word it returns: a read that finds null, or the
  re-validating read that finds the protected pointer again.
\<close>

definition null_read :: "tid \<Rightarrow> hp_op \<Rightarrow> uintptr \<Rightarrow> aptr_op option" where
  "null_read t op v = (if unmarked_ptr v = 0 then Some (A_load t (ho_dest op) (ho_word op) v) else None)"

fun hps_lin_pc :: "tid \<Rightarrow> hp_pc \<Rightarrow> rstore \<Rightarrow> aptr_op option" where
  "hps_lin_pc t (Hl_first op) r = null_read t op (rs_slot r (Word (ho_word op)))"
| "hps_lin_pc t (Hl_reload op x) r =
     (if unmarked_ptr (rs_slot r (Word (ho_word op))) = x then None else null_read t op (rs_slot r (Word (ho_word op))))"
| "hps_lin_pc t (Hl_zero op) r = null_read t op (rs_slot r (Word (ho_word op)))"
| "hps_lin_pc t (Hl_reval op x) r =
     (let v = rs_slot r (Word (ho_word op)) in
      if unmarked_ptr v = x then Some (A_load t (ho_dest op) (ho_word op) v) else null_read t op v)"
| "hps_lin_pc t (Hp_xchg w) r = Some (A_store w (rs_slot r (Arg t)))"
| "hps_lin_pc t (Hc_cas (Ho_cas w e d strong orig new)) r =
     (if rs_slot r (Word w) = orig then Some (A_cas_ok w orig new) else None)"
| "hps_lin_pc t _ r = None"

definition hps_lin :: "hps \<Rightarrow> hps_act \<Rightarrow> aptr_op option" where
  "hps_lin s a = (case a of
       Hp_step t \<Rightarrow> hps_lin_pc t (hp_pcs s t) (hp_store s)
     | Hp_construct t w i \<Rightarrow> Some (A_store w (rs_slot (hp_store s) (Hnd t i)))
     | Hp_destroy t w \<Rightarrow> Some (A_store w 0)
     | _ \<Rightarrow> None)"

definition hps_effect :: "aptr_op option \<Rightarrow> hps \<Rightarrow> hps \<Rightarrow> bool" where
  "hps_effect b s s' = (case b of None \<Rightarrow> hps_abs s' = hps_abs s | Some b \<Rightarrow> aptr_exec (hps_abs s) b = Some (hps_abs s'))"

lemma hps_abs_to [simp]:
  "hps_abs (hp_to t p r s) = (\<lambda>w. rs_slot r (Word w))" "hps_abs (hp_aim t x s) = hps_abs s"
  by (simp_all add: hps_abs_def)

lemma hl_finish_words [simp]: "hps_abs (hl_finish t op v s) = hps_abs s"
  by (cases op) (simp_all add: hl_finish_def Let_def hps_abs_def)

lemma hl_top_words [simp]: "hps_abs (hl_top t op v s) = hps_abs s" "hps_abs (hl_moved t op v s) = hps_abs s"
  by (auto simp: hl_top_def hl_moved_def) (simp_all add: hps_abs_def)

lemma hp_continue_words: "hps_abs (hp_continue t f s) = (\<lambda>w. rs_slot (hp_store s) (Word w))"
  by (cases f) (auto simp: hp_continue_def split: hp_op.splits, simp_all add: hps_abs_def)

lemma null_read_effect: "hps_abs s' = hps_abs s \<Longrightarrow> v = hps_abs s (ho_word op) \<Longrightarrow> hps_effect (null_read t op v) s s'"
  by (simp add: hps_effect_def null_read_def)

lemma hp_step_effect:
  assumes inv: "hps_inv s" and st: "hp_step t (hp_pcs s t) s = Some s'"
  shows "hps_effect (hps_lin_pc t (hp_pcs s t) (hp_store s)) s s'"
proof -
  have same: "(\<lambda>w. rs_slot (hp_store s) (Word w)) = hps_abs s" by (simp add: hps_abs_def)
  note ok = hps_invD(3) [OF inv, of t]
  show ?thesis
  proof (cases "hp_pcs s t")
    case (Hl_first op)
    then show ?thesis using st by (auto simp: hp_step_def hps_abs_def intro!: null_read_effect) (simp flip: hps_abs_def)
  next
    case (Hl_reload op x)
    then show ?thesis using st same
      by (auto simp: hp_step_def Let_def hps_effect_def null_read_def hps_abs_def split: if_splits) (simp_all flip: hps_abs_def)
  next
    case (Hl_zero op)
    then have "s' = hl_moved t op (rs_slot (hp_store s) (Word (ho_word op))) s" using st by (simp add: hp_step_def)
    then show ?thesis using Hl_zero by (simp add: null_read_effect hps_abs_def [of s])
  next
    case (Hl_ret op v)
    then have "s' = hl_finish t op v (hp_aim t 0 s)" using st by (simp add: hp_step_def)
    then show ?thesis using Hl_ret by (simp add: hps_effect_def)
  next
    case (Hp_retire x f)
    then show ?thesis using st same by (auto simp: hp_step_def hps_effect_def hp_continue_words)
  next
    case (Hl_tcas op x n)
    then show ?thesis using st same
      by (auto simp: hp_step_def hps_effect_def dest!: take_ref_slots split: option.splits if_splits)
  next
    case (Hc_add op)
    then show ?thesis using st same
      by (cases op) (auto simp: hp_step_def hps_effect_def dest!: take_ref_slots split: option.splits if_splits)
  next
    case (Hc_cas op)
    then show ?thesis using st
      by (cases op) (auto simp: hp_step_def hps_effect_def hps_abs_def Let_def split: option.splits if_splits)
  next
    case (Hp_rel f)
    then show ?thesis using st same
      by (auto simp: hp_step_def hps_effect_def hp_continue_words dest!: release_tmp_slots split: option.splits if_splits)
  qed (use st same in \<open>auto simp: hp_step_def hps_effect_def hp_continue_words hps_abs_def null_read_def Let_def
         dest!: take_ref_slots split: option.splits if_splits\<close>)
qed

lemma hps_exec_effect:
  assumes inv: "hps_inv s" and st: "hps_exec s a = Some s'"
  shows "hps_effect (hps_lin s a) s s'"
proof -
  have same: "(\<lambda>w. rs_slot (hp_store s) (Word w)) = hps_abs s" by (simp add: hps_abs_def)
  show ?thesis
  proof (cases a)
    case (Hp_step t)
    then show ?thesis using st hp_step_effect [OF inv] by (auto simp: hps_lin_def split: if_splits)
  next
    case (Hp_hop t h)
    then obtain r where r: "hop_begin t h (hp_store s) = Some r" "s' = hp_to t (Hp_rel Hf_unit) r s" "hp_at_rest (hp_pcs s t)"
      using st by (auto split: if_splits)
    have "rs_slot (hp_store s) (Tmp t) = 0"
      using hps_invD(3) [OF inv, of t] r(3) by (cases "hp_pcs s t") (auto simp: no_refs_def)
    then have "own_change t (hp_store s) r"
      using hop_begin_ok [OF hps_invD(1) [OF inv] unlocked_clean [OF hps_invD(2) [OF inv]] _ r(1)] by (simp add: handle_ok_def)
    then show ?thesis using r(2) Hp_hop by (simp add: hps_effect_def hps_lin_def own_change_def hps_abs_def)
  next
    case (Hp_reclaim x)
    then show ?thesis using st
      by (auto simp: hps_lin_def hps_effect_def hp_reclaim_def hps_abs_def dest!: free_obj_slots split: if_splits)
  qed (use st same in \<open>auto simp: hps_lin_def hps_effect_def pass_by_value_def bind_eq_Some_conv hps_abs_def
        dest!: take_ref_slots split: if_splits hp_pc.splits\<close>)
qed

interpretation hpsr: machine_refinement hps_exec hps_inv aptr_exec hps_abs hps_lin
  by unfold_locales (use hps_exec_effect in \<open>fastforce simp: hps_effect_def\<close>)+

text \<open>
  C26.  Linearizability: every interleaving, with reclamation and reuse of addresses at arbitrary moments, is a
  sequence of atomic loads, stores and compare-exchanges on the values of the words.  The word that a load
  hands out is the one read at its atomic point (the thread carries it unchanged to the handle), and a
  compare-exchange that returned true replaced exactly the expected word.
\<close>

theorem hps_linearizable:
  assumes "run hps_exec hps_init as = Some s"
  shows "run aptr_exec (\<lambda>_. 0) (lin_trace hps_exec hps_lin hps_init as) = Some (hps_abs s) \<and>
     (\<forall>t s' w d v. hps_exec s (Hp_step t) = Some s' \<and> hps_lin s (Hp_step t) = Some (A_load t d w v) \<longrightarrow>
        hps_abs s w = v \<and>
        ((\<exists>op. hp_pcs s' t = Hl_ret op v \<or> hp_pcs s' t = Hl_back op v) \<or> rs_slot (hp_store s') (Hnd t d) = v)) \<and>
     (\<forall>t s' op v. hp_pcs s t = Hl_ret op v \<and> hps_exec s (Hp_step t) = Some s' \<longrightarrow>
        rs_slot (hp_store s') (Hnd t (ho_dest op)) = v)"
proof (intro conjI allI impI)
  have inv: "hps_inv s" using hps_reachable [OF assms] .
  have "hps_abs hps_init = (\<lambda>_. 0)" by (simp add: hps_abs_def hps_init_def)
  then show "run aptr_exec (\<lambda>_. 0) (lin_trace hps_exec hps_lin hps_init as) = Some (hps_abs s)"
    using hpsr.run_abs [OF hps_init_inv assms] by simp
  fix t s' w d v assume h: "hps_exec s (Hp_step t) = Some s' \<and> hps_lin s (Hp_step t) = Some (A_load t d w v)"
  show "hps_abs s w = v"
    using hps_exec_effect [OF inv conjunct1 [OF h]] h by (auto simp: hps_effect_def split: if_splits)
  show "(\<exists>op. hp_pcs s' t = Hl_ret op v \<or> hp_pcs s' t = Hl_back op v) \<or> rs_slot (hp_store s') (Hnd t d) = v"
  proof (cases "hp_pcs s t")
    case (Hl_first op)
    then show ?thesis using h
      by (cases op) (auto simp: hps_lin_def null_read_def hp_step_def hl_top_def hl_finish_def Let_def split: if_splits)
  next
    case (Hc_cas op)
    then show ?thesis using h by (cases op) (auto simp: hps_lin_def split: if_splits)
  qed (use h in \<open>auto simp: hps_lin_def null_read_def hp_step_def hl_moved_def Let_def split: if_splits\<close>)
next
  fix t s' op v assume "hp_pcs s t = Hl_ret op v \<and> hps_exec s (Hp_step t) = Some s'"
  then show "rs_slot (hp_store s') (Hnd t (ho_dest op)) = v"
    by (cases op) (auto simp: hp_step_def hl_finish_def Let_def)
qed

theorem hps_linearizable_witness:
  "\<exists>s. run hps_exec hps_init (hps_demo @ [Hp_step 2, Hp_step 2]) = Some s \<and>
     lin_trace hps_exec hps_lin hps_init (hps_demo @ [Hp_step 2, Hp_step 2]) =
       [A_store 0 64, A_cas_ok 0 64 0, A_load 2 5 0 0] \<and>
     run aptr_exec (\<lambda>_. 0) [A_store 0 64, A_cas_ok 0 64 0, A_load 2 5 0 0] = Some (hps_abs s)"
proof -
  have tr: "lin_trace hps_exec hps_lin hps_init (hps_demo @ [Hp_step 2, Hp_step 2]) =
     [A_store 0 64, A_cas_ok 0 64 0, A_load 2 5 0 0]"
    by (simp add: hps_eval hps_lin_def null_read_def)
  obtain s where s: "run hps_exec hps_init (hps_demo @ [Hp_step 2, Hp_step 2]) = Some s"
    by (simp add: hps_eval)
  have "run aptr_exec (\<lambda>_. 0) [A_store 0 64, A_cas_ok 0 64 0, A_load 2 5 0 0] = Some (hps_abs s)"
    using conjunct1 [OF hps_linearizable [OF s]] unfolding tr .
  with s tr show ?thesis by blast
qed

section \<open>The strong compare-exchange\<close>

text \<open>
  C27.  A strong compare-exchange never returns false with \<open>expected\<close> unchanged: whenever it has returned
  false, \<open>expected\<close> holds a word, with a live reference, that differs from the one passed in (pointer or mark), whatever the
  word did in the meantime (in particular when it changed and changed back); and no exit of a call, by
  return or by the exception of the record allocation, leaves a reference behind in the call.
\<close>

theorem hps_strong_cas_exact:
  assumes "run hps_exec hps_init as = Some s"
  shows "(\<forall>t e orig. hp_pcs s t = Hp_done (Hf_false True e orig) \<longrightarrow>
            rs_slot (hp_store s) (Hnd t e) \<noteq> orig \<and>
            (ptr_of (rs_slot (hp_store s) (Hnd t e)) \<noteq> 0 \<longrightarrow>
               (\<exists>c. rs_count (hp_store s) (ptr_of (rs_slot (hp_store s) (Hnd t e))) = Some (Suc c)))) \<and>
         (\<forall>t f. hp_pcs s t = Hp_done f \<longrightarrow> rs_slot (hp_store s) (Tmp t) = 0 \<and> rs_slot (hp_store s) (Arg t) = 0)"
proof (intro conjI allI impI)
  have inv: "hps_inv s" using hps_reachable [OF assms] .
  fix t e orig assume p: "hp_pcs s t = Hp_done (Hf_false True e orig)"
  then show "rs_slot (hp_store s) (Hnd t e) \<noteq> orig"
    using hps_invD(3) [OF inv, of t] by (simp add: fin_ok_def)
  show "\<exists>c. rs_count (hp_store s) (ptr_of (rs_slot (hp_store s) (Hnd t e))) = Some (Suc c)"
    if "ptr_of (rs_slot (hp_store s) (Hnd t e)) \<noteq> 0"
    using counts_own [OF hps_invD(1) [OF inv] refl that] by blast
next
  fix t f assume "hp_pcs s t = Hp_done f"
  then show "rs_slot (hp_store s) (Tmp t) = 0" "rs_slot (hp_store s) (Arg t) = 0"
    using hps_invD(3) [OF hps_reachable [OF assms], of t] by (simp_all add: no_refs_def)
qed

definition hps_demo_cas :: "hps_act list" where
  "hps_demo_cas =
     [Hp_hop 1 (Hop_adopt 0 64), Hp_step 1, Hp_call_store 1 0 0, Hp_step 1, Hp_step 1, Hp_step 1, Hp_step 1,
      Hp_call_cas 2 0 3 4 True, Hp_step 2, Hp_step 2, Hp_step 2, Hp_step 2, Hp_step 2, Hp_step 2, Hp_step 2, Hp_step 2,
      Hp_step 2, Hp_step 2, Hp_step 2]"

theorem hps_strong_cas_exact_witness:
  "\<exists>s. run hps_exec hps_init hps_demo_cas = Some s \<and> hp_pcs s 2 = Hp_done (Hf_false True 3 0) \<and>
     rs_slot (hp_store s) (Hnd 2 3) \<noteq> 0"
proof -
  have "\<exists>s. run hps_exec hps_init hps_demo_cas = Some s \<and> hp_pcs s 2 = Hp_done (Hf_false True 3 0)"
    by (simp add: hps_eval hps_demo_cas_def)
  then obtain s where s: "run hps_exec hps_init hps_demo_cas = Some s" "hp_pcs s 2 = Hp_done (Hf_false True 3 0)" by blast
  then show ?thesis using hps_strong_cas_exact [OF s(1)] by blast
qed

end
