(* ===== verification/Hash_Words.thy ===== *)
theory Hash_Words
  imports Conc_Prelude
begin

text \<open>
  The words of \<open>ConcurrentResizableHashSet\<close> (\<^verbatim>\<open>ConcurrentHash/concurrent_hash_set.h\<close>): the encoding of bucket
  heads, node links and free-list heads in 64 bits, the seal level of a table size, and the tree of buckets that the
  doublings of the table create.  Table sizes and bucket indices are natural numbers.
\<close>

section \<open>Constants\<close>

definition MARK_BIT :: word_t where "MARK_BIT = 1"
definition FROZEN_BIT :: word_t where "FROZEN_BIT = 2"
definition LEVEL_SHIFT :: nat where "LEVEL_SHIFT = 58"
definition LEVEL_MASK :: word_t where "LEVEL_MASK = push_bit LEVEL_SHIFT 0x3F"
definition PTR_MASK :: word_t where "PTR_MASK = NOT (LEVEL_MASK OR 7)"
definition EMPTY :: word_t where "EMPTY = 0"
definition UNINITIALIZED :: word_t where "UNINITIALIZED = 8"
definition MAX_ARENA_SHARDS :: size_t where "MAX_ARENA_SHARDS = push_bit 16 1"
definition FREE_COUNT_SHIFT :: nat where "FREE_COUNT_SHIFT = 55"
definition FREE_POP_ONE :: word_t where "FREE_POP_ONE = push_bit FREE_COUNT_SHIFT 1"
definition FREE_COUNT_MASK :: word_t where "FREE_COUNT_MASK = NOT (FREE_POP_ONE - 1)"
definition FREE_BATCH_MASK :: word_t where "FREE_BATCH_MASK = push_bit FREE_COUNT_SHIFT 255"
definition FREE_EMPTY :: word_t where "FREE_EMPTY = 0"

section \<open>Reading and building words\<close>

definition level_of :: "word_t \<Rightarrow> nat" where
  "level_of head = unat (drop_bit LEVEL_SHIFT (head AND LEVEL_MASK))"

definition level_for :: "nat \<Rightarrow> nat" where
  "level_for ts = countr_zero_nat ts"

definition addr_of :: "word_t \<Rightarrow> word_t" where
  "addr_of w = w AND PTR_MASK"

definition is_marked :: "word_t \<Rightarrow> bool" where
  "is_marked link \<longleftrightarrow> link AND MARK_BIT \<noteq> 0"

definition is_frozen :: "word_t \<Rightarrow> bool" where
  "is_frozen link \<longleftrightarrow> link AND FROZEN_BIT \<noteq> 0"

definition free_addr_of :: "word_t \<Rightarrow> word_t" where
  "free_addr_of head = drop_bit 6 (push_bit 9 head)"

definition free_word :: "word_t \<Rightarrow> word_t \<Rightarrow> word_t" where
  "free_word addr count_bits = drop_bit 3 addr OR (count_bits AND FREE_COUNT_MASK)"

text \<open>The word a split writes into the parent's head, and the word an insertion writes into a head.\<close>

definition sealed_word :: "word_t \<Rightarrow> nat \<Rightarrow> word_t" where
  "sealed_word head seal = (head AND NOT LEVEL_MASK) OR push_bit LEVEL_SHIFT (of_nat seal)"

definition prepend_word :: "word_t \<Rightarrow> word_t \<Rightarrow> word_t" where
  "prepend_word node head = node OR (head AND LEVEL_MASK)"

text \<open>An address the word encoding can represent: the test of \<open>alloc_node\<close>, for an object, which is never at 0.\<close>

definition node_addr :: "word_t \<Rightarrow> bool" where
  "node_addr a \<longleftrightarrow> a AND NOT PTR_MASK = 0 \<and> a \<noteq> UNINITIALIZED \<and> a \<noteq> 0"

section \<open>The bucket tree\<close>

definition bit_floor_nat :: "nat \<Rightarrow> nat" where
  "bit_floor_nat j = (if j = 0 then 0 else 2 ^ (bit_width_nat j - 1))"

definition parent :: "nat \<Rightarrow> nat" where
  "parent j = j - bit_floor_nat j"

text \<open>The key hash \<open>h\<close> belongs to bucket \<open>j\<close> under the mask of the table that created \<open>j\<close>.\<close>

definition maps :: "nat \<Rightarrow> nat \<Rightarrow> bool" where
  "maps h j \<longleftrightarrow> h mod 2 ^ bit_width_nat j = j"

section \<open>Facts about the words\<close>

named_theorems hash_bits \<open>the bits of the words\<close>

lemma bit_masks [hash_bits]:
  "bit LEVEL_MASK n \<longleftrightarrow> 58 \<le> n \<and> n < 64"
  "bit PTR_MASK n \<longleftrightarrow> 3 \<le> n \<and> n < 58"
  "bit MARK_BIT n \<longleftrightarrow> n = 0"
  "bit FROZEN_BIT n \<longleftrightarrow> n = 1"
proof -
  have m: "0x3F = (mask 6 :: word_t)" "7 = (mask 3 :: word_t)" by (simp_all add: mask_numeral)
  show l: "bit LEVEL_MASK n \<longleftrightarrow> 58 \<le> n \<and> n < 64" for n
    unfolding LEVEL_MASK_def LEVEL_SHIFT_def m by (auto simp: bit_simps)
  show "bit PTR_MASK n \<longleftrightarrow> 3 \<le> n \<and> n < 58"
    unfolding PTR_MASK_def m by (auto simp: bit_simps l)
  show "bit MARK_BIT n \<longleftrightarrow> n = 0" by (simp add: MARK_BIT_def bit_1_iff)
  show "bit FROZEN_BIT n \<longleftrightarrow> n = 1"
    using bit_push_bit_iff [of 1 "1 :: word_t" n] by (auto simp: FROZEN_BIT_def bit_1_iff)
qed

lemma bit_addr_of [hash_bits]: "bit (addr_of w) n \<longleftrightarrow> bit w n \<and> 3 \<le> n \<and> n < 58"
  by (auto simp: addr_of_def bit_and_iff bit_masks)

lemma bit_free_addr_of [hash_bits]: "bit (free_addr_of w) n \<longleftrightarrow> 3 \<le> n \<and> n < 58 \<and> bit w (n - 3)"
  by (auto simp: free_addr_of_def bit_simps)

lemma bit_count_mask [hash_bits]: "bit FREE_COUNT_MASK n \<longleftrightarrow> 55 \<le> n \<and> n < 64"
proof -
  have "FREE_POP_ONE - 1 = mask 55" by (simp add: FREE_POP_ONE_def FREE_COUNT_SHIFT_def mask_eq_exp_minus_1 push_bit_eq_mult)
  then show ?thesis by (auto simp: FREE_COUNT_MASK_def bit_simps)
qed

lemma bit_free_word [hash_bits]: "bit (free_word a c) n \<longleftrightarrow> n < 64 \<and> (bit a (n + 3) \<or> bit c n \<and> 55 \<le> n)"
  by (auto simp: free_word_def bit_simps bit_count_mask add.commute dest: bit_imp_le_length)

lemma bit_sealed [hash_bits]:
  "bit (sealed_word w l) n \<longleftrightarrow> n < 64 \<and> (if n < 58 then bit w n else bit (of_nat l :: word_t) (n - 58))"
  by (auto simp: sealed_word_def bit_simps bit_masks LEVEL_SHIFT_def dest: bit_imp_le_length)

lemma bit_prepend [hash_bits]: "bit (prepend_word a w) n \<longleftrightarrow> bit a n \<or> bit w n \<and> 58 \<le> n \<and> n < 64"
  by (auto simp: prepend_word_def bit_simps bit_masks)

lemma word_bits_eq: "u = v \<longleftrightarrow> (\<forall>n. bit u n \<longleftrightarrow> bit v n)" for u v :: word_t
  by (auto intro: bit_word_eqI)

lemma marked_bit: "is_marked w \<longleftrightarrow> bit w 0" "is_frozen w \<longleftrightarrow> bit w 1"
proof -
  have "w AND MARK_BIT = 0 \<longleftrightarrow> \<not> bit w 0"
    by (auto simp: word_bits_eq bit_simps hash_bits dest: bit_imp_le_length intro!: gr0I)
  moreover have "w AND FROZEN_BIT = 0 \<longleftrightarrow> \<not> bit w 1"
    by (auto simp: word_bits_eq bit_simps hash_bits dest: bit_imp_le_length)
  ultimately show "is_marked w \<longleftrightarrow> bit w 0" "is_frozen w \<longleftrightarrow> bit w 1"
    by (auto simp: is_marked_def is_frozen_def)
qed

lemma node_addr_iff: "node_addr a \<longleftrightarrow> addr_of a = a \<and> a \<noteq> 0 \<and> a \<noteq> UNINITIALIZED"
proof -
  have "bit (a AND NOT PTR_MASK) n \<longleftrightarrow> bit a n \<and> \<not> (3 \<le> n \<and> n < 58)" for n
    using bit_imp_le_length [of a n] by (auto simp: bit_simps bit_masks)
  then have "a AND NOT PTR_MASK = 0 \<longleftrightarrow> addr_of a = a"
    unfolding word_bits_eq bit_addr_of by auto
  then show ?thesis by (auto simp: node_addr_def)
qed

lemma node_addr_bits: "addr_of a = a \<Longrightarrow> bit a n \<Longrightarrow> 3 \<le> n \<and> n < 58"
  by (metis bit_addr_of)

lemma level_of_eq: "level_of w = unat (drop_bit 58 w)"
proof -
  have "drop_bit 58 (w AND LEVEL_MASK) = drop_bit 58 w"
    by (rule bit_word_eqI) (auto simp: bit_simps hash_bits dest: bit_imp_le_length)
  then show ?thesis by (simp add: level_of_def LEVEL_SHIFT_def)
qed

lemma level_lt: "level_of w < 64"
  unfolding level_of_eq unat_shift using unat_lt_size [of w] by (simp add: div_less_iff_less_mult)

lemma addr_words [simp]:
  "addr_of (addr_of w) = addr_of w"
  "addr_of (w OR MARK_BIT) = addr_of w"
  "addr_of (w OR FROZEN_BIT) = addr_of w"
  "addr_of (sealed_word w l) = addr_of w"
  "addr_of (prepend_word a w) = addr_of a"
  "addr_of (free_addr_of w) = free_addr_of w"
  "addr_of 0 = 0"
  by (rule bit_word_eqI; force simp: bit_simps hash_bits)+

lemma addr_uninit [simp]: "addr_of UNINITIALIZED = UNINITIALIZED" "UNINITIALIZED \<noteq> 0" "level_of UNINITIALIZED = 0"
proof -
  show "addr_of UNINITIALIZED = UNINITIALIZED"
    by (simp add: UNINITIALIZED_def addr_of_def PTR_MASK_def LEVEL_MASK_def LEVEL_SHIFT_def)
  show "UNINITIALIZED \<noteq> 0" by (simp add: UNINITIALIZED_def)
  show "level_of UNINITIALIZED = 0" by (simp add: level_of_eq UNINITIALIZED_def unat_shift)
qed

lemma level_words:
  "level_of 0 = 0"
  "level_of (addr_of w) = 0"
  "l < 64 \<Longrightarrow> level_of (sealed_word w l) = l"
  "addr_of a = a \<Longrightarrow> level_of (prepend_word a w) = level_of w"
proof -
  show "level_of 0 = 0" by (simp add: level_of_eq)
  have "drop_bit 58 (addr_of w) = 0" by (rule bit_word_eqI) (auto simp: bit_simps hash_bits)
  then show "level_of (addr_of w) = 0" by (simp add: level_of_eq)
  assume l: "l < 64"
  have "l = unat (of_nat l :: word_t)" using l unat_of_nat_size [of l] by simp
  moreover have "drop_bit 58 (sealed_word w l) = (of_nat l :: word_t)"
  proof (rule bit_word_eqI)
    fix n assume "n < LENGTH(64)"
    have "bit (of_nat l :: word_t) n \<Longrightarrow> n < 6"
      using l bit_take_bit_iff [of 6 l n] take_bit_nat_eq_self [of l 6] by (simp add: bit_simps)
    then show "bit (drop_bit 58 (sealed_word w l)) n \<longleftrightarrow> bit (of_nat l :: word_t) n"
      by (auto simp: bit_simps hash_bits)
  qed
  ultimately show "level_of (sealed_word w l) = l" by (simp add: level_of_eq)
next
  assume "addr_of a = a"
  then have "drop_bit 58 (prepend_word a w) = drop_bit 58 w"
    by (intro bit_word_eqI) (auto simp: bit_simps hash_bits dest: node_addr_bits bit_imp_le_length)
  then show "level_of (prepend_word a w) = level_of w" by (simp add: level_of_eq)
qed

lemma tag_words [simp]:
  "is_marked (w OR MARK_BIT)" "is_frozen (w OR MARK_BIT) = is_frozen w"
  "is_frozen (w OR FROZEN_BIT)" "is_marked (w OR FROZEN_BIT) = is_marked w"
  by (auto simp: marked_bit bit_simps hash_bits)

lemma tags_bare [simp]: "addr_of a = a \<Longrightarrow> \<not> is_marked a" "addr_of a = a \<Longrightarrow> \<not> is_frozen a"
  by (auto simp: marked_bit dest: node_addr_bits)

lemma free_words [simp]:
  "addr_of a = a \<Longrightarrow> free_addr_of (free_word a c) = a"
  "free_addr_of 0 = 0"
proof -
  assume a: "addr_of a = a"
  show "free_addr_of (free_word a c) = a"
  proof (rule bit_word_eqI)
    fix n assume "n < LENGTH(64)"
    show "bit (free_addr_of (free_word a c)) n = bit a n"
      using node_addr_bits [OF a, of n] by (auto simp: hash_bits)
  qed
qed (simp add: free_addr_of_def)

section \<open>Facts about the bucket tree\<close>

lemma width_eqI: "2 ^ m \<le> j \<Longrightarrow> j < 2 ^ Suc m \<Longrightarrow> bit_width_nat j = Suc m"
proof -
  assume a: "2 ^ m \<le> j" "j < 2 ^ Suc m"
  then have "0 < j" by (metis less_le_trans zero_less_numeral zero_less_power)
  note b = bit_width_nat_bounds [OF this]
  obtain w where w: "bit_width_nat j = Suc w" using \<open>0 < j\<close> by (simp add: bit_width_nat.simps [of j])
  have "(2 :: nat) ^ w < 2 ^ Suc m" "(2 :: nat) ^ m < 2 ^ Suc w" using a b w by auto
  then have "w < Suc m" "m < Suc w" by (simp_all only: power_strict_increasing_iff)
  with w show ?thesis by simp
qed

lemma width_0 [simp]: "bit_width_nat 0 = 0"
  by (simp add: bit_width_nat.simps)

lemma width_gt: "j < 2 ^ bit_width_nat j"
  using bit_width_nat_bounds [of j] by (cases "j = 0") auto

lemma width_le: "j < 2 ^ m \<Longrightarrow> bit_width_nat j \<le> m"
proof (cases "j = 0")
  case False
  assume "j < 2 ^ m"
  moreover obtain w where w: "bit_width_nat j = Suc w" using False by (simp add: bit_width_nat.simps [of j])
  moreover have "2 ^ w \<le> j" using bit_width_nat_bounds [of j] False w by simp
  ultimately have "(2 :: nat) ^ w < 2 ^ m" by (metis order_le_less_trans)
  then have "w < m" by simp
  with w show ?thesis by simp
qed simp

lemma parent_split:
  assumes "0 < j"
  obtains m where "bit_width_nat j = Suc m" "bit_floor_nat j = 2 ^ m" "j = 2 ^ m + parent j" "parent j < 2 ^ m"
proof -
  obtain m where m: "bit_width_nat j = Suc m" using assms by (simp add: bit_width_nat.simps [of j])
  then have "2 ^ m \<le> j" "j < 2 * 2 ^ m" using bit_width_nat_bounds [OF assms] by auto
  with m that [of m] assms show ?thesis by (simp add: parent_def bit_floor_nat_def)
qed

lemma parent_less [simp]: "0 < j \<Longrightarrow> parent j < j"
  by (erule parent_split) (metis less_add_same_cancel2 zero_less_numeral zero_less_power)

lemma parent_add: "j < 2 ^ m \<Longrightarrow> parent (2 ^ m + j) = j \<and> bit_width_nat (2 ^ m + j) = Suc m"
  using width_eqI [of m "2 ^ m + j"] by (simp add: parent_def bit_floor_nat_def)

lemma maps_parent:
  assumes "0 < c" and "maps h c" shows "maps h (parent c)"
proof -
  obtain m where m: "bit_width_nat c = Suc m" "c = 2 ^ m + parent c" "parent c < 2 ^ m" using parent_split [OF assms(1)] .
  let ?w = "bit_width_nat (parent c)"
  have w: "?w \<le> m" using m(3) by (rule width_le)
  have "h mod 2 ^ ?w = h mod 2 ^ Suc m mod 2 ^ ?w" by (rule mod_mod_cancel [symmetric], rule le_imp_power_dvd) (use w in simp)
  also have "h mod 2 ^ Suc m = c" using assms(2) m(1) by (simp add: maps_def)
  also have "c mod 2 ^ ?w = parent c"
  proof -
    have "(2 :: nat) ^ m mod 2 ^ ?w = 0" using le_imp_power_dvd [OF w, of "2 :: nat"] by (simp add: dvd_eq_mod_eq_0)
    then have "(2 ^ m + parent c) mod 2 ^ ?w = parent c mod 2 ^ ?w" by (metis mod_add_left_eq add_0)
    then show ?thesis using width_gt [of "parent c"] m(2) by simp
  qed
  finally show ?thesis by (simp add: maps_def)
qed

text \<open>Of the children of a bucket, a key belongs to one at most.\<close>

lemma maps_mod:
  assumes "maps h c" and "bit_width_nat c = Suc x" and "m \<le> x"
  shows "h mod 2 ^ Suc m = c mod 2 ^ Suc m"
proof -
  have "h mod 2 ^ Suc x mod 2 ^ Suc m = h mod 2 ^ Suc m" by (rule mod_mod_cancel, rule le_imp_power_dvd) (use assms(3) in simp)
  moreover have "h mod 2 ^ Suc x = c" using assms(1,2) by (simp add: maps_def)
  ultimately show ?thesis by simp
qed

lemma maps_below:
  assumes "maps h c" and "0 < c" and "bit_width_nat c = Suc x" and "m < x" and "parent c < 2 ^ m"
  shows "h mod 2 ^ Suc m = parent c"
proof -
  obtain x' where "bit_width_nat c = Suc x'" "c = 2 ^ x' + parent c" using parent_split [OF assms(2)] by metis
  then have c: "c = 2 ^ x + parent c" using assms(3) by simp
  have "(2 :: nat) ^ Suc m dvd 2 ^ x" using assms(4) by (intro le_imp_power_dvd) simp
  then obtain y :: nat where "2 ^ x = 2 ^ Suc m * y" ..
  then have "c = parent c + 2 ^ Suc m * y" using c by simp
  then have "c mod 2 ^ Suc m = parent c mod 2 ^ Suc m" by (metis mod_mult_self2)
  then show ?thesis using maps_mod [OF assms(1,3), of m] assms(4,5) by simp
qed

lemma child_unique:
  assumes "0 < c" "0 < c'" "parent c = parent c'" "maps h c" "maps h c'"
  shows "c = c'"
proof -
  have no: False if pos: "0 < c" and that: "0 < c'" "parent c = parent c'" "maps h c" "maps h c'"
    "bit_width_nat c = Suc m" "bit_width_nat c' = Suc x" "m < x" for c c' m x
  proof -
    obtain m' where m: "bit_width_nat c = Suc m'" "c = 2 ^ m' + parent c" "parent c < 2 ^ m'" using parent_split [OF pos] by metis
    then have c: "c = 2 ^ m + parent c" "parent c < 2 ^ m" using that(5) by simp_all
    have "h mod 2 ^ Suc m = parent c" using maps_below [OF that(4,1,6,7)] that(2) c(2) by simp
    moreover have "h mod 2 ^ Suc m = c" using that(3,5) by (simp add: maps_def)
    moreover have "parent c < c" using pos by (rule parent_less)
    ultimately show False by simp
  qed
  obtain m where m: "bit_width_nat c = Suc m" "c = 2 ^ m + parent c" using parent_split [OF assms(1)] by metis
  obtain x where x: "bit_width_nat c' = Suc x" "c' = 2 ^ x + parent c'" using parent_split [OF assms(2)] by metis
  have "\<not> m < x" using no [OF assms m(1) x(1)] by blast
  moreover have "\<not> x < m" using no [OF assms(2,1) assms(3) [symmetric] assms(5,4) x(1) m(1)] by blast
  ultimately have "m = x" by simp
  then show ?thesis using m(2) x(2) assms(3) by simp
qed

lemma prefix_step:
  "h mod 2 ^ Suc m = h mod 2 ^ m \<or>
   h mod 2 ^ Suc m = 2 ^ m + h mod 2 ^ m \<and> parent (h mod 2 ^ Suc m) = h mod 2 ^ m \<and> maps h (h mod 2 ^ Suc m)"
  for h :: nat
proof -
  have "h mod 2 ^ Suc m = 2 ^ m * (h div 2 ^ m mod 2) + h mod 2 ^ m"
    using mod_mult2_eq [of h "2 ^ m" 2] by (simp add: mult.commute)
  moreover have "h div 2 ^ m mod 2 = 0 \<or> h div 2 ^ m mod 2 = 1" by auto
  moreover have "h mod 2 ^ m < 2 ^ m" by simp
  ultimately show ?thesis using parent_add [of "h mod 2 ^ m" m] by (auto simp: maps_def)
qed

lemma and_mask_mod: "ts = 2 ^ m \<Longrightarrow> h AND (ts - 1) = h mod (ts :: nat)"
  by (simp only: take_bit_eq_mod flip: take_bit_eq_mask mask_eq_exp_minus_1)

lemma level_for_pow [simp]: "level_for (2 ^ m) = m"
  unfolding level_for_def by (induction m) (simp_all add: countr_zero_nat.simps)

text \<open>
  The bucket that decides about a key: the deepest published bucket on the path of its hash, found by going from the
  bucket of the current table size up to the first published ancestor.
\<close>

fun auth :: "(nat \<Rightarrow> bool) \<Rightarrow> nat \<Rightarrow> nat" where
  "auth P j = (if j = 0 \<or> P j then j else auth P (parent j))"

declare auth.simps [simp del]

lemma auth_pub: "P j \<Longrightarrow> auth P j = j"
  by (simp add: auth.simps)

lemma published_prefix:
  assumes closed: "\<And>j. P j \<Longrightarrow> 0 < j \<Longrightarrow> P (parent j)"
    and none: "\<And>c. P c \<Longrightarrow> 0 < c \<Longrightarrow> parent c = h mod 2 ^ m \<Longrightarrow> maps h c \<Longrightarrow> 2 ^ m \<le> c \<Longrightarrow> False"
    and "m \<le> n" and "P (h mod 2 ^ n)"
  shows "h mod 2 ^ n = (h mod 2 ^ m :: nat)"
  using assms(3,4)
proof (induction n rule: dec_induct)
  case (step n)
  from prefix_step [of h n] show ?case
  proof (elim disjE conjE)
    assume e: "h mod 2 ^ Suc n = h mod 2 ^ n"
    then show ?thesis using step by simp
  next
    assume e: "h mod 2 ^ Suc n = 2 ^ n + h mod 2 ^ n" "parent (h mod 2 ^ Suc n) = h mod 2 ^ n" "maps h (h mod 2 ^ Suc n)"
    have pos: "0 < h mod 2 ^ Suc n" unfolding e(1) by simp
    have "P (h mod 2 ^ n)" using closed [OF step.prems pos] e(2) by simp
    then have "h mod 2 ^ n = h mod 2 ^ m" by (rule step.IH)
    moreover have "(2 :: nat) ^ m \<le> 2 ^ n" using step.hyps by simp
    moreover have "2 ^ m \<le> h mod 2 ^ Suc n" using calculation(2) unfolding e(1) by linarith
    ultimately show ?thesis using none [OF step.prems pos _ e(3)] e(2) by simp
  qed
qed simp

lemma auth_eq:
  assumes closed: "\<And>j. P j \<Longrightarrow> 0 < j \<Longrightarrow> P (parent j)"
    and none: "\<And>c. P c \<Longrightarrow> 0 < c \<Longrightarrow> parent c = h mod 2 ^ m \<Longrightarrow> maps h c \<Longrightarrow> 2 ^ m \<le> c \<Longrightarrow> False"
    and pub: "P (h mod 2 ^ m)" and "m \<le> n"
  shows "auth P (h mod 2 ^ n) = (h mod 2 ^ m :: nat)"
  using assms(4)
proof (induction n rule: dec_induct)
  case base
  then show ?case using pub by (rule auth_pub)
next
  case (step n)
  from prefix_step [of h n] show ?case
  proof (elim disjE conjE)
    assume "h mod 2 ^ Suc n = h mod 2 ^ n"
    then show ?thesis using step by simp
  next
    assume e: "h mod 2 ^ Suc n = 2 ^ n + h mod 2 ^ n" "parent (h mod 2 ^ Suc n) = h mod 2 ^ n"
    have "h mod 2 ^ Suc n = h mod 2 ^ m" if "P (h mod 2 ^ Suc n)"
      by (rule published_prefix [of P, OF closed none _ that]) (use step.hyps in auto)
    moreover have "h mod 2 ^ Suc n \<noteq> h mod 2 ^ m"
    proof -
      have "h mod 2 ^ m < 2 ^ m" "(2 :: nat) ^ m \<le> 2 ^ n" using step.hyps by simp_all
      then show ?thesis unfolding e(1) by linarith
    qed
    ultimately have "\<not> P (h mod 2 ^ Suc n)" by blast
    then show ?thesis using e step.IH by (subst auth.simps) simp
  qed
qed

end
