(* ===== verification/Hash_Set.thy ===== *)
theory Hash_Set
  imports Hash_Words
begin

text \<open>
  \<open>ConcurrentResizableHashSet\<close> (\<^verbatim>\<open>ConcurrentHash/concurrent_hash_set.h\<close>) as a machine of any number of threads.
  The shared state is the arena of nodes, addressed by 64-bit addresses, the array of bucket heads, the shards with
  their free and limbo lists, the table size, the resize lock and the node counter.  Every step performs one access to
  a shared word; a thread's program counter carries the local variables of the call.  \<open>ad\<close> is the template
  parameter \<open>AllowDelete\<close> and \<open>hash\<close> the function computed by \<open>Hash\<close>.

  Two kinds of choice are left to the environment: the address at which the deque places a new node, and where
  user code or an allocation throws.  A call of \<^verbatim>\<open>std::abort()\<close> ends the process, so no state follows it.
\<close>

section \<open>State\<close>

record 'k node =
  nd_value :: 'k
  nd_link :: word_t

record shard =
  sh_nodes :: "word_t list"
  sh_free :: word_t
  sh_limbo :: word_t

datatype 'k hs_op = Op_contains 'k | Op_insert 'k | Op_erase 'k

datatype hs_res = Ret bool | Throw

text \<open>
  Where \<open>split_bucket\<close> returns to: \<open>contains\<close> and \<open>erase\<close> with the table size they work with, \<open>insert\<close> with the
  node it has allocated but not published.
\<close>

datatype 'k ctx =
    Cx_contains 'k nat
  | Cx_erase 'k nat
  | Cx_insert 'k "word_t option"

text \<open>
  Where \<open>alloc_node\<close> returns to: \<open>insert\<close> (key, table size, head), or the walk of \<open>split_bucket\<close> for bucket \<open>j\<close>
  (with the buckets whose splits wait for it, the link of the node being copied, and the copies made so far, the
  last one first: \<open>new_subchain_head\<close> and \<open>new_subchain_tail\<close> are the first and the last of them).
\<close>

datatype 'k acont =
    Ac_insert 'k nat word_t
  | Ac_split "'k ctx" nat "nat list" word_t "word_t list"

datatype 'k lcont =
    Lc_done "'k hs_op" hs_res            \<comment> \<open>return from the call\<close>
  | Lc_split "'k ctx" nat "nat list"      \<comment> \<open>\<open>split_bucket\<close> returns\<close>
  | Lc_raise "'k ctx"                 \<comment> \<open>\<open>split_bucket\<close> rethrows\<close>
  | Lc_alloc "'k acont"               \<comment> \<open>\<open>alloc_node\<close> rethrows\<close>

datatype 'k contains_pc =
    C_size 'k | C_head 'k nat | C_again 'k nat | C_walk 'k nat word_t | C_conf 'k nat

datatype 'k erase_pc =
    E_size 'k | E_head 'k nat | E_again 'k nat | E_walk 'k nat word_t | E_mark 'k nat word_t word_t | E_conf 'k nat bool

datatype 'k insert_pc =
    I_size 'k "word_t option" | I_head 'k "word_t option" nat | I_walk 'k "word_t option" nat word_t word_t
  | I_link 'k word_t nat word_t | I_cas 'k word_t nat word_t
  | I_count 'k nat | I_lock 'k nat | I_test 'k nat | I_grow 'k nat | I_store 'k nat | I_unlock 'k

datatype 'k split_pc =
    S_parent "'k ctx" nat "nat list" | S_again "'k ctx" nat "nat list" | S_seal "'k ctx" nat "nat list" word_t
  | S_walk "'k ctx" nat "nat list" word_t "word_t list"
  | S_freeze "'k ctx" nat "nat list" word_t word_t "word_t list"
  | S_pub "'k ctx" nat "nat list" "word_t list"

datatype 'k alloc_pc =
    A_start 'k "'k acont" | A_head 'k "'k acont" nat | A_link 'k "'k acont" nat word_t
  | A_cas 'k "'k acont" nat word_t word_t | A_count 'k "'k acont" nat word_t | A_value 'k "'k acont" nat word_t
  | A_store 'k "'k acont" word_t | A_append 'k "'k acont" nat | A_batch 'k "'k acont" word_t

datatype 'k limbo_pc =
    L_head "word_t list" nat "'k lcont" | L_link "word_t list" nat "'k lcont" word_t
  | L_cas "word_t list" nat "'k lcont" word_t

datatype 'k hs_pc =
    Hs_rest
  | Hs_done "'k hs_op" hs_res
  | Contains "'k contains_pc"
  | Erase "'k erase_pc"
  | Insert "'k insert_pc"
  | Split "'k split_pc"
  | Alloc "'k alloc_pc"
  | Limbo_push "'k limbo_pc"

record 'k hset =
  hs_nodes :: "word_t \<rightharpoonup> 'k node"
  hs_buckets :: "word_t list"
  hs_shards :: "shard list"
  hs_size :: nat
  hs_lock :: bool
  hs_count :: nat
  hs_next :: "32 word"                 \<comment> \<open>\<open>next_thread_number\<close>\<close>
  hs_number :: "tid \<rightharpoonup> 32 word"         \<comment> \<open>the thread-local \<open>number\<close>\<close>
  hs_threads :: "tid list"             \<comment> \<open>the threads that have called an operation\<close>
  hs_pcs :: "tid \<Rightarrow> 'k hs_pc"

definition hs_to :: "tid \<Rightarrow> 'k hs_pc \<Rightarrow> 'k hset \<Rightarrow> 'k hset" where
  "hs_to t p s = s\<lparr>hs_pcs := (hs_pcs s)(t := p)\<rparr>"

definition hs_head :: "'k hset \<Rightarrow> nat \<Rightarrow> word_t option" where
  "hs_head s j = (if j < length (hs_buckets s) then Some (hs_buckets s ! j) else None)"

definition set_head :: "nat \<Rightarrow> word_t \<Rightarrow> 'k hset \<Rightarrow> 'k hset" where
  "set_head j w s = s\<lparr>hs_buckets := (hs_buckets s)[j := w]\<rparr>"

definition set_link :: "word_t \<Rightarrow> word_t \<Rightarrow> 'k hset \<Rightarrow> 'k hset" where
  "set_link a w s = s\<lparr>hs_nodes := (hs_nodes s)(a := map_option (\<lambda>n. n\<lparr>nd_link := w\<rparr>) (hs_nodes s a))\<rparr>"

definition set_value :: "word_t \<Rightarrow> 'k \<Rightarrow> 'k hset \<Rightarrow> 'k hset" where
  "set_value a v s = s\<lparr>hs_nodes := (hs_nodes s)(a := map_option (\<lambda>n. n\<lparr>nd_value := v\<rparr>) (hs_nodes s a))\<rparr>"

definition set_shard :: "nat \<Rightarrow> shard \<Rightarrow> 'k hset \<Rightarrow> 'k hset" where
  "set_shard i sh s = s\<lparr>hs_shards := (hs_shards s)[i := sh]\<rparr>"

definition bucket_of :: "('k \<Rightarrow> size_t) \<Rightarrow> 'k \<Rightarrow> nat \<Rightarrow> nat" where
  "bucket_of hash k ts = unat (hash k) AND (ts - 1)"

section \<open>Construction\<close>

text \<open>
  \<open>hw\<close> is what \<open>hardware_concurrency()\<close> reports and \<open>ok\<close> whether the allocations succeed; the buckets of a
  table above \<open>2 ^ 60\<close> do not fit the address space.
\<close>

definition hs_construct :: "size_t \<Rightarrow> size_t \<Rightarrow> size_t \<Rightarrow> bool \<Rightarrow> cxx_error + 'k hset" where
  "hs_construct initial_capacity arena_shards hw ok =
     (let a1 = (if arena_shards = 0 then hw else arena_shards);
          a2 = (if a1 = 0 then 1 else a1);
          a3 = (if a2 > MAX_ARENA_SHARDS then MAX_ARENA_SHARDS else a2) in
      bind_err (bit_ceil a3) (\<lambda>shards.
      let c = (if initial_capacity < 4 then 4 else initial_capacity) in
      if c > push_bit 63 1 then Inl Abort
      else bind_err (bit_ceil c) (\<lambda>cap.
      if \<not> ok \<or> cap > push_bit 60 1 then Inl Bad_alloc
      else Inr \<lparr>hs_nodes = Map.empty, hs_buckets = replicate (unat cap) EMPTY,
                hs_shards = replicate (unat shards) \<lparr>sh_nodes = [], sh_free = FREE_EMPTY, sh_limbo = EMPTY\<rparr>,
                hs_size = unat cap, hs_lock = False, hs_count = 0, hs_next = 0, hs_number = Map.empty,
                hs_threads = [], hs_pcs = (\<lambda>_. Hs_rest)\<rparr>)))"

section \<open>Calls, returns and exceptions\<close>

primrec ctx_op :: "'k ctx \<Rightarrow> 'k hs_op" where
  "ctx_op (Cx_contains k ts) = Op_contains k"
| "ctx_op (Cx_erase k ts) = Op_erase k"
| "ctx_op (Cx_insert k nn) = Op_insert k"

text \<open>\<open>split_bucket\<close> returns: to the split that waits for it, or to the operation.\<close>

fun split_return :: "'k ctx \<Rightarrow> nat list \<Rightarrow> 'k hs_pc" where
  "split_return cx (j # js) = Split (S_again cx j js)"
| "split_return (Cx_contains k ts) [] = Contains (C_again k ts)"
| "split_return (Cx_erase k ts) [] = Erase (E_again k ts)"
| "split_return (Cx_insert k nn) [] = Insert (I_size k nn)"

text \<open>The thread's shard; only called when the thread has its number.\<close>

definition my_shard :: "tid \<Rightarrow> 'k hset \<Rightarrow> nat" where
  "my_shard t s = (case hs_number s t of None \<Rightarrow> 0 | Some n \<Rightarrow> unat n AND (length (hs_shards s) - 1))"

text \<open>
  An exception leaves \<open>split_bucket\<close> (no frame of an enclosing split has a handler active) or \<open>insert\<close>: a node
  \<open>insert\<close> holds goes to limbo first.
\<close>

fun raise_ctx :: "'k ctx \<Rightarrow> nat \<Rightarrow> 'k hs_pc" where
  "raise_ctx (Cx_insert k (Some n)) i = Limbo_push (L_head [n] i (Lc_done (Op_insert k) Throw))"
| "raise_ctx cx i = Hs_done (ctx_op cx) Throw"

primrec raise_split :: "'k ctx \<Rightarrow> word_t list \<Rightarrow> nat \<Rightarrow> 'k hs_pc" where
  "raise_split cx [] i = raise_ctx cx i"
| "raise_split cx (c # cs) i = Limbo_push (L_head (c # cs) i (Lc_raise cx))"

primrec raise_alloc :: "'k acont \<Rightarrow> nat \<Rightarrow> 'k hs_pc" where
  "raise_alloc (Ac_insert k ts head) i = Hs_done (Op_insert k) Throw"
| "raise_alloc (Ac_split cx j js next_raw subs) i = raise_split cx subs i"

section \<open>\<open>contains\<close>\<close>

primrec contains_step :: "('k \<Rightarrow> size_t) \<Rightarrow> tid \<Rightarrow> 'k contains_pc \<Rightarrow> 'k hset \<Rightarrow> 'k hset option" where
  "contains_step hash t (C_size k) s = Some (hs_to t (Contains (C_head k (hs_size s))) s)"
| "contains_step hash t (C_head k ts) s =
     (let j = bucket_of hash k ts in
      case hs_head s j of None \<Rightarrow> None
      | Some w \<Rightarrow> (if addr_of w = UNINITIALIZED then Some (hs_to t (Split (S_parent (Cx_contains k ts) j [])) s)
                  else Some (hs_to t (Contains (C_walk k ts (addr_of w))) s)))"
| "contains_step hash t (C_again k ts) s =
     (case hs_head s (bucket_of hash k ts) of None \<Rightarrow> None
      | Some w \<Rightarrow> Some (hs_to t (Contains (C_walk k ts (addr_of w))) s))"
| "contains_step hash t (C_walk k ts cur) s =
     (if addr_of cur = EMPTY then Some (hs_to t (Contains (C_conf k ts)) s)
      else case hs_nodes s (addr_of cur) of None \<Rightarrow> None
      | Some n \<Rightarrow> (let check_cur = nd_link n in
          if nd_value n = k \<and> \<not> is_marked check_cur then Some (hs_to t (Hs_done (Op_contains k) (Ret True)) s)
          else Some (hs_to t (Contains (C_walk k ts check_cur)) s)))"
| "contains_step hash t (C_conf k ts) s =
     (if hs_size s = ts then Some (hs_to t (Hs_done (Op_contains k) (Ret False)) s)
      else Some (hs_to t (Contains (C_head k (hs_size s))) s))"

section \<open>\<open>erase\<close>\<close>

primrec erase_step :: "('k \<Rightarrow> size_t) \<Rightarrow> tid \<Rightarrow> 'k erase_pc \<Rightarrow> 'k hset \<Rightarrow> 'k hset option" where
  "erase_step hash t (E_size k) s = Some (hs_to t (Erase (E_head k (hs_size s))) s)"
| "erase_step hash t (E_head k ts) s =
     (let j = bucket_of hash k ts in
      case hs_head s j of None \<Rightarrow> None
      | Some w \<Rightarrow> (if addr_of w = UNINITIALIZED then Some (hs_to t (Split (S_parent (Cx_erase k ts) j [])) s)
                  else Some (hs_to t (Erase (E_walk k ts (addr_of w))) s)))"
| "erase_step hash t (E_again k ts) s =
     (case hs_head s (bucket_of hash k ts) of None \<Rightarrow> None
      | Some w \<Rightarrow> Some (hs_to t (Erase (E_walk k ts (addr_of w))) s))"
| "erase_step hash t (E_walk k ts cur) s =
     (if addr_of cur = EMPTY then Some (hs_to t (Erase (E_conf k ts False)) s)
      else case hs_nodes s (addr_of cur) of None \<Rightarrow> None
      | Some n \<Rightarrow> (let check_cur = nd_link n in
          if nd_value n = k \<and> \<not> is_marked check_cur
          then Some (hs_to t (Erase (if is_frozen check_cur then E_conf k ts True
                                     else E_mark k ts (addr_of cur) check_cur)) s)
          else Some (hs_to t (Erase (E_walk k ts check_cur)) s)))"
| "erase_step hash t (E_mark k ts a check_cur) s =
     (case hs_nodes s a of None \<Rightarrow> None
      | Some n \<Rightarrow> (if nd_link n = check_cur
          then Some (hs_to t (Hs_done (Op_erase k) (Ret True)) (set_link a (check_cur OR MARK_BIT) s))
          else Some (hs_to t (Erase (E_conf k ts (is_frozen (nd_link n)))) s)))"
| "erase_step hash t (E_conf k ts stale) s =
     (if hs_size s = ts \<and> \<not> stale then Some (hs_to t (Hs_done (Op_erase k) (Ret False)) s)
      else Some (hs_to t (Erase (E_head k (hs_size s))) s))"

section \<open>\<open>insert\<close>\<close>

text \<open>Under \<open>resize_lock_\<close>: \<open>buckets_.resize(new_ts)\<close> and the marking of the new buckets, which no other thread can reach.\<close>

definition grow_buckets :: "nat \<Rightarrow> word_t list \<Rightarrow> word_t list" where
  "grow_buckets ts bs =
     (let bs' = (if 2 * ts \<le> length bs then bs else bs @ replicate (2 * ts - length bs) 0) in
      take ts bs' @ replicate ts UNINITIALIZED @ drop (2 * ts) bs')"

primrec insert_step :: "('k \<Rightarrow> size_t) \<Rightarrow> tid \<Rightarrow> 'k insert_pc \<Rightarrow> 'k hset \<Rightarrow> 'k hset option" where
  "insert_step hash t (I_size k nn) s = Some (hs_to t (Insert (I_head k nn (hs_size s))) s)"
| "insert_step hash t (I_head k nn ts) s =
     (let j = bucket_of hash k ts in
      case hs_head s j of None \<Rightarrow> None
      | Some head \<Rightarrow>
          (if addr_of head = UNINITIALIZED then Some (hs_to t (Split (S_parent (Cx_insert k nn) j [])) s)
           else if level_of head > level_for ts then Some (hs_to t (Insert (I_size k nn)) s)
           else Some (hs_to t (Insert (I_walk k nn ts head (addr_of head))) s)))"
| "insert_step hash t (I_walk k nn ts head cur) s =
     (if addr_of cur = EMPTY
      then (case nn of
              None \<Rightarrow> Some (hs_to t (Alloc (A_start k (Ac_insert k ts head))) s)
            | Some n \<Rightarrow> Some (hs_to t (Insert (I_link k n ts head)) s))
      else case hs_nodes s (addr_of cur) of None \<Rightarrow> None
      | Some n \<Rightarrow> (let check_cur = nd_link n in
          if nd_value n = k \<and> \<not> is_marked check_cur
          then (case nn of
                  None \<Rightarrow> Some (hs_to t (Hs_done (Op_insert k) (Ret False)) s)
                | Some m \<Rightarrow> Some (hs_to t (Limbo_push (L_head [m] (my_shard t s) (Lc_done (Op_insert k) (Ret False)))) s))
          else Some (hs_to t (Insert (I_walk k nn ts head check_cur)) s)))"
| "insert_step hash t (I_link k n ts head) s = Some (hs_to t (Insert (I_cas k n ts head)) (set_link n (addr_of head) s))"
| "insert_step hash t (I_cas k n ts head) s =
     (let j = bucket_of hash k ts in
      case hs_head s j of None \<Rightarrow> None
      | Some w \<Rightarrow> (if w = head then Some (hs_to t (Insert (I_count k ts)) (set_head j (prepend_word n head) s))
                  else Some (hs_to t (Insert (I_size k (Some n))) s)))"
| "insert_step hash t (I_count k ts) s =
     Some (hs_to t (if hs_count s > ts * 2 then Insert (I_lock k ts) else Hs_done (Op_insert k) (Ret True)) s)"
| "insert_step hash t (I_lock k ts) s =
     (if hs_lock s then Some s else Some (hs_to t (Insert (I_test k ts)) (s\<lparr>hs_lock := True\<rparr>)))"
| "insert_step hash t (I_test k ts) s = Some (hs_to t (Insert (if hs_size s = ts then I_grow k ts else I_unlock k)) s)"
| "insert_step hash t (I_grow k ts) s =
     (if 2 * ts \<le> 2 ^ 60
      then Some (hs_to t (Insert (I_store k ts)) (s\<lparr>hs_buckets := grow_buckets ts (hs_buckets s)\<rparr>)) else None)"
| "insert_step hash t (I_store k ts) s = Some (hs_to t (Insert (I_unlock k)) (s\<lparr>hs_size := ts * 2\<rparr>))"
| "insert_step hash t (I_unlock k) s = Some (hs_to t (Hs_done (Op_insert k) (Ret True)) (s\<lparr>hs_lock := False\<rparr>))"

section \<open>\<open>split_bucket\<close>\<close>

definition seal_level :: "nat \<Rightarrow> nat" where
  "seal_level j = level_for (bit_floor_nat j * 2)"

definition after_seal :: "'k ctx \<Rightarrow> nat \<Rightarrow> nat list \<Rightarrow> word_t \<Rightarrow> 'k hs_pc" where
  "after_seal cx j js parent_head =
     Split (if level_of parent_head < seal_level j then S_seal cx j js parent_head else S_walk cx j js parent_head [])"

definition moves_to :: "('k \<Rightarrow> size_t) \<Rightarrow> 'k \<Rightarrow> nat \<Rightarrow> bool" where
  "moves_to hash v j \<longleftrightarrow> unat (hash v) AND (bit_floor_nat j * 2 - 1) = j"

definition sub_head :: "word_t list \<Rightarrow> word_t" where
  "sub_head subs = (case subs of [] \<Rightarrow> EMPTY | c # cs \<Rightarrow> c)"

primrec split_step :: "bool \<Rightarrow> ('k \<Rightarrow> size_t) \<Rightarrow> tid \<Rightarrow> 'k split_pc \<Rightarrow> 'k hset \<Rightarrow> 'k hset option" where
  "split_step ad hash t (S_parent cx j js) s =
     (case hs_head s (parent j) of None \<Rightarrow> None
      | Some w \<Rightarrow> (if addr_of w = UNINITIALIZED then Some (hs_to t (Split (S_parent cx (parent j) (j # js))) s)
                  else Some (hs_to t (after_seal cx j js w) s)))"
| "split_step ad hash t (S_again cx j js) s =
     (case hs_head s (parent j) of None \<Rightarrow> None | Some w \<Rightarrow> Some (hs_to t (after_seal cx j js w) s))"
| "split_step ad hash t (S_seal cx j js parent_head) s =
     (case hs_head s (parent j) of None \<Rightarrow> None
      | Some w \<Rightarrow>
          (let sealed = sealed_word parent_head (seal_level j) in
           if w = parent_head then Some (hs_to t (after_seal cx j js sealed) (set_head (parent j) sealed s))
           else Some (hs_to t (after_seal cx j js w) s)))"
| "split_step ad hash t (S_walk cx j js cur subs) s =
     (if addr_of cur = EMPTY then Some (hs_to t (Split (S_pub cx j js subs)) s)
      else case hs_nodes s (addr_of cur) of None \<Rightarrow> None
      | Some n \<Rightarrow> (let next_raw = nd_link n in
          if is_marked next_raw \<or> \<not> moves_to hash (nd_value n) j then Some (hs_to t (Split (S_walk cx j js next_raw subs)) s)
          else if ad \<and> \<not> is_frozen next_raw then Some (hs_to t (Split (S_freeze cx j js (addr_of cur) next_raw subs)) s)
          else Some (hs_to t (Alloc (A_start (nd_value n) (Ac_split cx j js next_raw subs))) s)))"
| "split_step ad hash t (S_freeze cx j js a next_raw subs) s =
     (case hs_nodes s a of None \<Rightarrow> None
      | Some n \<Rightarrow>
          (if nd_link n = next_raw
           then Some (hs_to t (Alloc (A_start (nd_value n) (Ac_split cx j js (next_raw OR FROZEN_BIT) subs)))
                        (set_link a (next_raw OR FROZEN_BIT) s))
           else if is_marked (nd_link n) then Some (hs_to t (Split (S_walk cx j js (nd_link n) subs)) s)
           else Some (hs_to t (Alloc (A_start (nd_value n) (Ac_split cx j js (nd_link n) subs))) s)))"
| "split_step ad hash t (S_pub cx j js subs) s =
     (case hs_head s j of None \<Rightarrow> None
      | Some w \<Rightarrow>
          (if w = UNINITIALIZED then Some (hs_to t (split_return cx js) (set_head j (sub_head subs) s))
           else if subs = [] then Some (hs_to t (split_return cx js) s)
           else Some (hs_to t (Limbo_push (L_head subs (my_shard t s) (Lc_split cx j js))) s)))"

section \<open>\<open>alloc_node\<close>\<close>

text \<open>\<open>thread_number()\<close>: the number is taken on the first call.\<close>

definition thread_number :: "tid \<Rightarrow> 'k hset \<Rightarrow> 'k hset" where
  "thread_number t s =
     (case hs_number s t of Some n \<Rightarrow> s
      | None \<Rightarrow> s\<lparr>hs_number := (hs_number s)(t \<mapsto> hs_next s), hs_next := hs_next s + 1\<rparr>)"

primrec alloc_next :: "'k acont \<Rightarrow> word_t" where
  "alloc_next (Ac_insert k ts head) = addr_of head"
| "alloc_next (Ac_split cx j js next_raw subs) = sub_head subs"

primrec alloc_return :: "'k acont \<Rightarrow> word_t \<Rightarrow> 'k hs_pc" where
  "alloc_return (Ac_insert k ts head) n = Insert (I_cas k n ts head)"
| "alloc_return (Ac_split cx j js next_raw subs) n = Split (S_walk cx j js next_raw (n # subs))"

definition hs_shard :: "'k hset \<Rightarrow> nat \<Rightarrow> shard option" where
  "hs_shard s i = (if i < length (hs_shards s) then Some (hs_shards s ! i) else None)"

definition pop_test :: "'k \<Rightarrow> 'k acont \<Rightarrow> nat \<Rightarrow> word_t \<Rightarrow> 'k hs_pc" where
  "pop_test v c i head = Alloc (if free_addr_of head = FREE_EMPTY then A_append v c i else A_link v c i head)"

primrec alloc_step :: "tid \<Rightarrow> 'k alloc_pc \<Rightarrow> 'k hset \<Rightarrow> 'k hset option" where
  "alloc_step t (A_start v c) s =
     (let s' = thread_number t s in Some (hs_to t (Alloc (A_head v c (my_shard t s'))) s'))"
| "alloc_step t (A_head v c i) s =
     (case hs_shard s i of None \<Rightarrow> None | Some sh \<Rightarrow> Some (hs_to t (pop_test v c i (sh_free sh)) s))"
| "alloc_step t (A_link v c i head) s =
     (case hs_nodes s (free_addr_of head) of None \<Rightarrow> None
      | Some n \<Rightarrow> Some (hs_to t (Alloc (A_cas v c i head (nd_link n))) s))"
| "alloc_step t (A_cas v c i head successor) s =
     (case hs_shard s i of None \<Rightarrow> None
      | Some sh \<Rightarrow>
          (if sh_free sh = head
           then Some (hs_to t (Alloc ((if head AND FREE_BATCH_MASK = 0 then A_count else A_value) v c i (free_addr_of head)))
                        (set_shard i (sh\<lparr>sh_free := free_word successor (head + FREE_POP_ONE)\<rparr>) s))
           else Some (hs_to t (pop_test v c i (sh_free sh)) s)))"
| "alloc_step t (A_count v c i n) s = Some (hs_to t (Alloc (A_value v c i n)) (s\<lparr>hs_count := hs_count s + 256\<rparr>))"
| "alloc_step t (A_value v c i n) s = Some (hs_to t (Alloc (A_store v c n)) (set_value n v s))"
| "alloc_step t (A_store v c n) s = Some (hs_to t (alloc_return c n) (set_link n (alloc_next c) s))"
| "alloc_step t (A_append v c i) s = None"
| "alloc_step t (A_batch v c n) s = Some (hs_to t (alloc_return c n) (s\<lparr>hs_count := hs_count s + 256\<rparr>))"

text \<open>The append, at an address the environment chooses.\<close>

definition alloc_append :: "tid \<Rightarrow> word_t \<Rightarrow> 'k hset \<Rightarrow> 'k hset option" where
  "alloc_append t a s = (case hs_pcs s t of
       Alloc (A_append v c i) \<Rightarrow>
         (case hs_shard s i of None \<Rightarrow> None
          | Some sh \<Rightarrow>
              (if node_addr a \<and> hs_nodes s a = None
               then Some (hs_to t (if length (sh_nodes sh) AND 255 = 0 then Alloc (A_batch v c a) else alloc_return c a)
                      (set_shard i (sh\<lparr>sh_nodes := sh_nodes sh @ [a]\<rparr>)
                        (s\<lparr>hs_nodes := (hs_nodes s)(a \<mapsto> \<lparr>nd_value = v, nd_link = alloc_next c\<rparr>)\<rparr>)))
               else None))
     | _ \<Rightarrow> None)"

section \<open>\<open>push_limbo\<close>\<close>

primrec limbo_return :: "'k lcont \<Rightarrow> nat \<Rightarrow> 'k hs_pc" where
  "limbo_return (Lc_done op r) i = Hs_done op r"
| "limbo_return (Lc_split cx j js) i = split_return cx js"
| "limbo_return (Lc_raise cx) i = raise_ctx cx i"
| "limbo_return (Lc_alloc c) i = raise_alloc c i"

primrec limbo_step :: "tid \<Rightarrow> 'k limbo_pc \<Rightarrow> 'k hset \<Rightarrow> 'k hset option" where
  "limbo_step t (L_head xs i c) s =
     (case hs_shard s i of None \<Rightarrow> None | Some sh \<Rightarrow> Some (hs_to t (Limbo_push (L_link xs i c (sh_limbo sh))) s))"
| "limbo_step t (L_link xs i c old_head) s = Some (hs_to t (Limbo_push (L_cas xs i c old_head)) (set_link (last xs) old_head s))"
| "limbo_step t (L_cas xs i c old_head) s =
     (case hs_shard s i of None \<Rightarrow> None
      | Some sh \<Rightarrow>
          (if sh_limbo sh = old_head
           then Some (hs_to t (limbo_return c i) (set_shard i (sh\<lparr>sh_limbo := hd xs\<rparr>) s))
           else Some (hs_to t (Limbo_push (L_link xs i c (sh_limbo sh))) s)))"

section \<open>Spurious failures and exceptions\<close>

definition weak_fail :: "tid \<Rightarrow> 'k hs_pc \<Rightarrow> 'k hset \<Rightarrow> 'k hset option" where
  "weak_fail t p s = (case p of
       Split (S_seal cx j js parent_head) \<Rightarrow>
         (case hs_head s (parent j) of None \<Rightarrow> None | Some w \<Rightarrow> Some (hs_to t (after_seal cx j js w) s))
     | Alloc (A_cas v c i head successor) \<Rightarrow>
         (case hs_shard s i of None \<Rightarrow> None | Some sh \<Rightarrow> Some (hs_to t (pop_test v c i (sh_free sh)) s))
     | Limbo_push (L_cas xs i c old_head) \<Rightarrow>
         (case hs_shard s i of None \<Rightarrow> None | Some sh \<Rightarrow> Some (hs_to t (Limbo_push (L_link xs i c (sh_limbo sh))) s))
     | _ \<Rightarrow> None)"

text \<open>
  Where user code runs or memory is allocated: the hash of the key at the head of the loops of \<open>contains\<close>, \<open>erase\<close> and
  \<open>insert\<close>, the comparisons and hashes of an operation (at any point of its walk), the assignment of a value to a reused node, the append, and the growth of \<open>buckets_\<close>, whose failure is caught.
\<close>

definition throw_step :: "tid \<Rightarrow> 'k hs_pc \<Rightarrow> 'k hset \<Rightarrow> 'k hs_pc option" where
  "throw_step t p s = (case p of
       Contains (C_head k ts) \<Rightarrow> Some (Hs_done (Op_contains k) Throw)
     | Contains (C_walk k ts cur) \<Rightarrow> Some (Hs_done (Op_contains k) Throw)
     | Erase (E_head k ts) \<Rightarrow> Some (Hs_done (Op_erase k) Throw)
     | Erase (E_walk k ts cur) \<Rightarrow> Some (Hs_done (Op_erase k) Throw)
     | Insert (I_head k nn ts) \<Rightarrow> Some (raise_ctx (Cx_insert k nn) (my_shard t s))
     | Insert (I_walk k nn ts head cur) \<Rightarrow> Some (raise_ctx (Cx_insert k nn) (my_shard t s))
     | Split (S_walk cx j js cur subs) \<Rightarrow> Some (raise_split cx subs (my_shard t s))
     | Alloc (A_value v c i n) \<Rightarrow> Some (Limbo_push (L_head [n] i (Lc_alloc c)))
     | Alloc (A_append v c i) \<Rightarrow> Some (raise_alloc c i)
     | Insert (I_grow k ts) \<Rightarrow> Some (Insert (I_unlock k))
     | _ \<Rightarrow> None)"

section \<open>Quiescent reclamation\<close>

definition push_free :: "nat \<Rightarrow> word_t \<Rightarrow> 'k hset \<Rightarrow> 'k hset option" where
  "push_free i a s = (case hs_shard s i of None \<Rightarrow> None
     | Some sh \<Rightarrow> Some (set_shard i (sh\<lparr>sh_free := free_word a (sh_free sh)\<rparr>) (set_link a (free_addr_of (sh_free sh)) s)))"

definition is_dead :: "('k \<Rightarrow> size_t) \<Rightarrow> 'k node \<Rightarrow> nat \<Rightarrow> nat \<Rightarrow> 'k hset \<Rightarrow> bool" where
  "is_dead hash n j ts s =
     (if is_marked (nd_link n) then True
      else let h = hash (nd_value n);
               own_mask = push_bit (bit_width_nat j) 1 - 1;
               moving_bits = h AND NOT own_mask;
               child = j OR 2 ^ countr_zero moving_bits in
           if moving_bits = 0 then False
           else child < ts \<and> addr_of (hs_buckets s ! child) \<noteq> UNINITIALIZED)"

definition clear_counters :: "'k hset \<Rightarrow> 'k hset" where
  "clear_counters s =
     s\<lparr>hs_shards := map (\<lambda>sh. sh\<lparr>sh_free := free_word (free_addr_of (sh_free sh)) 0\<rparr>) (hs_shards s)\<rparr>"

definition deal_to :: "nat \<Rightarrow> 'k hset \<Rightarrow> nat" where
  "deal_to deal s = deal AND (length (hs_shards s) - 1)"

text \<open>The walks of a list through the links of its nodes; \<open>fuel\<close> bounds the number of nodes met.\<close>

fun drain_chain :: "nat \<Rightarrow> word_t \<Rightarrow> nat \<Rightarrow> 'k hset \<Rightarrow> (nat \<times> 'k hset) option" where
  "drain_chain fuel cur deal s =
     (if addr_of cur = EMPTY then Some (deal, s)
      else case fuel of 0 \<Rightarrow> None
      | Suc f \<Rightarrow> (case hs_nodes s (addr_of cur) of None \<Rightarrow> None
          | Some n \<Rightarrow> Option.bind (push_free (deal_to deal s) (addr_of cur) s) (drain_chain f (nd_link n) (deal + 1))))"

declare drain_chain.simps [simp del]

primrec drain_limbo :: "nat \<Rightarrow> nat list \<Rightarrow> nat \<Rightarrow> 'k hset \<Rightarrow> (nat \<times> 'k hset) option" where
  "drain_limbo fuel [] deal s = Some (deal, s)"
| "drain_limbo fuel (i # is) deal s =
     (case hs_shard s i of None \<Rightarrow> None
      | Some sh \<Rightarrow> Option.bind (drain_chain fuel (sh_limbo sh) deal (set_shard i (sh\<lparr>sh_limbo := EMPTY\<rparr>) s))
          (\<lambda>(deal', s'). drain_limbo fuel is deal' s'))"

datatype slot_ref = Head nat | Link word_t

primrec set_slot :: "slot_ref \<Rightarrow> word_t \<Rightarrow> 'k hset \<Rightarrow> 'k hset" where
  "set_slot (Head j) w s = set_head j w s"
| "set_slot (Link a) w s = set_link a w s"

fun reclaim_chain ::
  "('k \<Rightarrow> size_t) \<Rightarrow> nat \<Rightarrow> nat \<Rightarrow> nat \<Rightarrow> slot_ref \<Rightarrow> word_t \<Rightarrow> word_t \<Rightarrow> nat \<Rightarrow> nat \<Rightarrow> 'k hset \<Rightarrow> (nat \<times> nat \<times> 'k hset) option"
where
  "reclaim_chain hash fuel j ts slot slot_word keep deal live s =
     (if addr_of slot_word = EMPTY then Some (deal, live, s)
      else case fuel of 0 \<Rightarrow> None
      | Suc f \<Rightarrow> (case hs_nodes s (addr_of slot_word) of None \<Rightarrow> None
          | Some n \<Rightarrow>
              (if is_dead hash n j ts s
               then let w = (slot_word AND keep) OR addr_of (nd_link n) in
                    Option.bind (push_free (deal_to deal s) (addr_of slot_word) (set_slot slot w s))
                      (reclaim_chain hash f j ts slot w keep (deal + 1) live)
               else reclaim_chain hash f j ts (Link (addr_of slot_word)) (nd_link n) (MARK_BIT OR FROZEN_BIT)
                      deal (live + 1) s)))"

declare reclaim_chain.simps [simp del]

primrec reclaim_buckets :: "('k \<Rightarrow> size_t) \<Rightarrow> nat \<Rightarrow> nat \<Rightarrow> nat list \<Rightarrow> nat \<Rightarrow> nat \<Rightarrow> 'k hset \<Rightarrow> (nat \<times> nat \<times> 'k hset) option" where
  "reclaim_buckets hash fuel ts [] deal live s = Some (deal, live, s)"
| "reclaim_buckets hash fuel ts (j # js) deal live s =
     (let w = hs_buckets s ! j in
      if addr_of w = UNINITIALIZED then reclaim_buckets hash fuel ts js deal live s
      else Option.bind (reclaim_chain hash fuel j ts (Head j) w LEVEL_MASK deal live s)
             (\<lambda>(deal', live', s'). reclaim_buckets hash fuel ts js deal' live' s'))"

definition get_internal_node_count :: "'k hset \<Rightarrow> nat" where
  "get_internal_node_count s = sum_list (map (length \<circ> sh_nodes) (hs_shards s))"

definition append_credit :: "'k hset \<Rightarrow> nat" where
  "append_credit s = sum_list (map (\<lambda>sh. (256 - (length (sh_nodes sh) AND 255)) AND 255) (hs_shards s))"

text \<open>Every list is made of different slots, so the number of slots is enough fuel.\<close>

definition reclaim :: "('k \<Rightarrow> size_t) \<Rightarrow> 'k hset \<Rightarrow> (nat \<times> 'k hset) option" where
  "reclaim hash s =
     (let fuel = get_internal_node_count s; ts = hs_size s in
      Option.bind (drain_limbo fuel [0..<length (hs_shards s)] 0 (clear_counters s)) (\<lambda>(deal, s1).
      Option.bind (reclaim_buckets hash fuel ts [0..<ts] deal 0 s1) (\<lambda>(deal', live, s2).
      Some (live, s2\<lparr>hs_count := live + append_credit s2\<rparr>))))"

section \<open>The accounting sweep\<close>

record accounting =
  acc_slots :: nat
  acc_reachable :: nat
  acc_free :: nat
  acc_limbo :: nat
  acc_consistent :: bool

definition lower_bound :: "word_t list \<Rightarrow> word_t \<Rightarrow> nat" where
  "lower_bound xs a = length (takeWhile (\<lambda>x. x < a) xs)"

text \<open>The flag of slot \<open>i\<close>; the vector of flags is as long as that of slots.\<close>

definition seen_at :: "bool list \<Rightarrow> nat \<Rightarrow> bool" where
  "seen_at seen i = (if i < length seen then seen ! i else True)"

definition visits :: "word_t list \<Rightarrow> bool list \<Rightarrow> word_t \<Rightarrow> bool" where
  "visits slots seen a =
     (let i = lower_bound slots a in \<not> (i = length slots \<or> slots ! i \<noteq> a \<or> seen_at seen i))"

text \<open>
  The walk of one list: \<open>strip\<close> is \<open>addr_of\<close> for chains and limbo lists, the identity for free lists.  A walk stops at
  an address that is no slot or was seen before, so every round sets a flag and the walk ends on any memory.
\<close>

function sweep :: "(word_t \<Rightarrow> word_t) \<Rightarrow> (word_t \<rightharpoonup> 'k node) \<Rightarrow> word_t list \<Rightarrow> word_t \<Rightarrow> bool list \<Rightarrow> bool \<Rightarrow> nat \<Rightarrow> (bool list \<times> bool \<times> nat) option"
where
  "sweep strip N slots cur seen ok n =
     (if strip cur = EMPTY then Some (seen, ok, n)
      else if \<not> visits slots seen (strip cur) then Some (seen, False, n)
      else case N (addr_of cur) of None \<Rightarrow> None
        | Some nd \<Rightarrow> sweep strip N slots (nd_link nd) (seen[lower_bound slots (strip cur) := True]) ok (n + 1))"
  by pat_completeness auto

lemma flags_decrease: "i < length xs \<Longrightarrow> \<not> xs ! i \<Longrightarrow> length (filter Not (xs[i := True])) < length (filter Not xs)"
proof (induction xs arbitrary: i)
  case (Cons x xs)
  then show ?case by (cases i) auto
qed simp

termination sweep
  by (relation "measure (\<lambda>(strip, N, slots, cur, seen, ok, n). length (filter Not seen))")
     (auto simp: visits_def seen_at_def Let_def flags_decrease split: if_splits)

declare sweep.simps [simp del]

primrec sweep_buckets :: "'k hset \<Rightarrow> word_t list \<Rightarrow> nat list \<Rightarrow> bool list \<Rightarrow> bool \<Rightarrow> nat \<Rightarrow> (bool list \<times> bool \<times> nat) option" where
  "sweep_buckets s slots [] seen ok n = Some (seen, ok, n)"
| "sweep_buckets s slots (j # js) seen ok n =
     (if addr_of (hs_buckets s ! j) = UNINITIALIZED then sweep_buckets s slots js seen ok n
      else Option.bind (sweep addr_of (hs_nodes s) slots (hs_buckets s ! j) seen ok n)
        (\<lambda>(seen', ok', n'). sweep_buckets s slots js seen' ok' n'))"

primrec sweep_shards :: "'k hset \<Rightarrow> word_t list \<Rightarrow> shard list \<Rightarrow> bool list \<Rightarrow> bool \<Rightarrow> nat \<Rightarrow> nat \<Rightarrow> (bool \<times> nat \<times> nat) option" where
  "sweep_shards s slots [] seen ok f l = Some (ok, f, l)"
| "sweep_shards s slots (sh # shs) seen ok f l =
     Option.bind (sweep id (hs_nodes s) slots (free_addr_of (sh_free sh)) seen ok f) (\<lambda>(seen1, ok1, f1).
     Option.bind (sweep addr_of (hs_nodes s) slots (sh_limbo sh) seen1 ok1 l) (\<lambda>(seen2, ok2, l2).
     sweep_shards s slots shs seen2 ok2 f1 l2))"

definition get_internal_accounting :: "'k hset \<Rightarrow> accounting option" where
  "get_internal_accounting s =
     (let slots = sort (concat (map sh_nodes (hs_shards s))) in
      Option.bind (sweep_buckets s slots [0..<hs_size s] (replicate (length slots) False) True 0) (\<lambda>(seen, ok, r).
      Option.bind (sweep_shards s slots (hs_shards s) seen ok 0 0) (\<lambda>(ok', f, l).
      Some \<lparr>acc_slots = length slots, acc_reachable = r, acc_free = f, acc_limbo = l,
            acc_consistent = (ok' \<and> r + f + l = length slots)\<rparr>)))"

section \<open>The machine\<close>

datatype 'k hs_act =
    Hs_call tid "'k hs_op"
  | Hs_step tid
  | Hs_weak tid
  | Hs_throw tid
  | Hs_append tid word_t
  | Hs_reclaim

fun at_rest :: "'k hs_pc \<Rightarrow> bool" where
  "at_rest Hs_rest = True"
| "at_rest (Hs_done op r) = True"
| "at_rest _ = False"

fun op_start :: "bool \<Rightarrow> 'k hs_op \<Rightarrow> 'k hs_pc option" where
  "op_start ad (Op_contains k) = Some (Contains (C_size k))"
| "op_start ad (Op_insert k) = Some (Insert (I_size k None))"
| "op_start ad (Op_erase k) = (if ad then Some (Erase (E_size k)) else None)"

fun hs_step :: "bool \<Rightarrow> ('k \<Rightarrow> size_t) \<Rightarrow> tid \<Rightarrow> 'k hs_pc \<Rightarrow> 'k hset \<Rightarrow> 'k hset option" where
  "hs_step ad hash t (Contains p) s = contains_step hash t p s"
| "hs_step ad hash t (Erase p) s = erase_step hash t p s"
| "hs_step ad hash t (Insert p) s = insert_step hash t p s"
| "hs_step ad hash t (Split p) s = split_step ad hash t p s"
| "hs_step ad hash t (Alloc p) s = alloc_step t p s"
| "hs_step ad hash t (Limbo_push p) s = limbo_step t p s"
| "hs_step ad hash t _ s = None"

fun hs_exec :: "bool \<Rightarrow> ('k \<Rightarrow> size_t) \<Rightarrow> 'k hset \<Rightarrow> 'k hs_act \<Rightarrow> 'k hset option" where
  "hs_exec ad hash s (Hs_call t op) =
     (if at_rest (hs_pcs s t)
      then map_option (\<lambda>p. hs_to t p (s\<lparr>hs_threads := List.insert t (hs_threads s)\<rparr>)) (op_start ad op) else None)"
| "hs_exec ad hash s (Hs_step t) = hs_step ad hash t (hs_pcs s t) s"
| "hs_exec ad hash s (Hs_weak t) = weak_fail t (hs_pcs s t) s"
| "hs_exec ad hash s (Hs_throw t) = map_option (\<lambda>p. hs_to t p s) (throw_step t (hs_pcs s t) s)"
| "hs_exec ad hash s (Hs_append t a) = alloc_append t a s"
| "hs_exec ad hash s Hs_reclaim =
     (if list_all (\<lambda>t. at_rest (hs_pcs s t)) (hs_threads s) then map_option snd (reclaim hash s) else None)"

end
