(* ===== verification/Hash_Set_Inv.thy ===== *)
theory Hash_Set_Inv
  imports Hash_Set
begin

text \<open>
  The invariant of the hash set machine.  Every slot of the arena is in exactly one place: in the chain of a published
  bucket, on a free list, on a limbo list, or in the hands of one thread.  The assignment of addresses to places is the
  function \<open>L\<close>; \<open>hs_heap\<close> says what holds of the shared words, \<open>pc_ok\<close> what a thread knows at each point of a call,
  and \<open>rely\<close> what other threads may do to the shared state meanwhile.
\<close>

section \<open>Places\<close>

datatype place = Chain nat | Free nat | Limbo nat | Priv tid

type_synonym layout = "place \<Rightarrow> word_t list"

record 'k hs_par =
  del :: bool
  hashf :: "'k \<Rightarrow> size_t"
  cap :: nat

primrec linked :: "(word_t \<rightharpoonup> 'k node) \<Rightarrow> word_t \<Rightarrow> word_t list \<Rightarrow> word_t \<Rightarrow> bool" where
  "linked N w [] e \<longleftrightarrow> addr_of w = e"
| "linked N w (a # xs) e \<longleftrightarrow> addr_of w = a \<and> (\<exists>n. N a = Some n \<and> linked N (nd_link n) xs e)"

definition link :: "'k hset \<Rightarrow> word_t \<Rightarrow> word_t" where
  "link s a = nd_link (the (hs_nodes s a))"

definition val :: "'k hset \<Rightarrow> word_t \<Rightarrow> 'k" where
  "val s a = nd_value (the (hs_nodes s a))"

definition hv :: "'k hs_par \<Rightarrow> 'k \<Rightarrow> nat" where
  "hv P k = unat (hashf P k)"

definition pub :: "'k hset \<Rightarrow> nat \<Rightarrow> bool" where
  "pub s j \<longleftrightarrow> j < hs_size s \<and> addr_of (hs_buckets s ! j) \<noteq> UNINITIALIZED"

definition lev :: "'k hset \<Rightarrow> nat \<Rightarrow> nat" where
  "lev s j = level_of (hs_buckets s ! j)"

definition tail_at :: "word_t \<Rightarrow> word_t list \<Rightarrow> word_t list" where
  "tail_at a xs = dropWhile (\<lambda>x. x \<noteq> a) xs"

text \<open>The size of the table that created bucket \<open>j\<close>.\<close>

definition own :: "'k hs_par \<Rightarrow> nat \<Rightarrow> nat" where
  "own P j = (if j < cap P then cap P else 2 ^ bit_width_nat j)"

text \<open>A node that is neither a tombstone nor still erasable: what a split copies.\<close>

definition settled :: "'k hs_par \<Rightarrow> 'k hset \<Rightarrow> word_t \<Rightarrow> bool" where
  "settled P s a \<longleftrightarrow> \<not> is_marked (link s a) \<and> (del P \<longrightarrow> is_frozen (link s a))"

definition owned :: "layout \<Rightarrow> word_t set \<Rightarrow> bool" where
  "owned L A \<longleftrightarrow> (\<forall>p. distinct (L p)) \<and> (\<forall>p q a. a \<in> set (L p) \<longrightarrow> a \<in> set (L q) \<longrightarrow> p = q) \<and> (\<Union>p. set (L p)) = A"

definition geometry :: "'k hs_par \<Rightarrow> 'k hset \<Rightarrow> bool" where
  "geometry P s \<longleftrightarrow> (\<exists>m q. hs_size s = 2 ^ m \<and> cap P = 2 ^ q \<and> q \<le> m \<and> m \<le> 60) \<and>
     hs_size s \<le> length (hs_buckets s) \<and> (\<exists>p. length (hs_shards s) = 2 ^ p)"

definition arena :: "'k hset \<Rightarrow> bool" where
  "arena s \<longleftrightarrow> dom (hs_nodes s) = (\<Union>sh\<in>set (hs_shards s). set (sh_nodes sh)) \<and>
     distinct (concat (map sh_nodes (hs_shards s))) \<and> (\<forall>a\<in>dom (hs_nodes s). node_addr a)"

definition chains :: "'k hs_par \<Rightarrow> 'k hset \<Rightarrow> layout \<Rightarrow> bool" where
  "chains P s L \<longleftrightarrow> (\<forall>j. if pub s j then linked (hs_nodes s) (hs_buckets s ! j) (L (Chain j)) 0
       else L (Chain j) = [] \<and> (j < hs_size s \<longrightarrow> hs_buckets s ! j = UNINITIALIZED))"

definition spares :: "'k hset \<Rightarrow> layout \<Rightarrow> bool" where
  "spares s L \<longleftrightarrow> (\<forall>i. if i < length (hs_shards s)
       then linked (hs_nodes s) (free_addr_of (sh_free (hs_shards s ! i))) (L (Free i)) 0 \<and>
            linked (hs_nodes s) (sh_limbo (hs_shards s ! i)) (L (Limbo i)) 0 \<and>
            addr_of (sh_limbo (hs_shards s ! i)) = sh_limbo (hs_shards s ! i)
       else L (Free i) = [] \<and> L (Limbo i) = []) \<and>
     (\<forall>a\<in>dom (hs_nodes s). (\<forall>j. a \<notin> set (L (Chain j))) \<longrightarrow> addr_of (link s a) = link s a)"

definition tags :: "'k hs_par \<Rightarrow> 'k hset \<Rightarrow> bool" where
  "tags P s \<longleftrightarrow> (\<forall>a. hs_nodes s a \<noteq> None \<longrightarrow> \<not> (is_marked (link s a) \<and> is_frozen (link s a)) \<and>
      (\<not> del P \<longrightarrow> \<not> is_marked (link s a) \<and> \<not> is_frozen (link s a)))"

definition keys :: "'k hs_par \<Rightarrow> 'k hset \<Rightarrow> layout \<Rightarrow> bool" where
  "keys P s L \<longleftrightarrow> (\<forall>j. \<forall>a\<in>set (L (Chain j)). hv P (val s a) mod own P j = j \<and>
      (\<forall>b\<in>set (L (Chain j)). val s a = val s b \<and> \<not> is_marked (link s a) \<and> \<not> is_marked (link s b) \<longrightarrow> a = b))"

definition tree :: "'k hs_par \<Rightarrow> 'k hset \<Rightarrow> layout \<Rightarrow> bool" where
  "tree P s L \<longleftrightarrow> (\<forall>j < cap P. pub s j) \<and>
     (\<forall>c. pub s c \<and> cap P \<le> c \<longrightarrow> pub s (parent c) \<and> bit_width_nat c \<le> lev s (parent c) \<and>
        (\<forall>a\<in>set (L (Chain (parent c))). maps (hv P (val s a)) c \<longrightarrow> is_marked (link s a) \<or> settled P s a))"

definition hs_heap :: "'k hs_par \<Rightarrow> 'k hset \<Rightarrow> layout \<Rightarrow> bool" where
  "hs_heap P s L \<longleftrightarrow> geometry P s \<and> arena s \<and> owned L (dom (hs_nodes s)) \<and> chains P s L \<and> spares s L \<and>
     tags P s \<and> keys P s L \<and> tree P s L"

section \<open>What a thread knows\<close>

definition tsz :: "'k hs_par \<Rightarrow> 'k hset \<Rightarrow> nat \<Rightarrow> bool" where
  "tsz P s ts \<longleftrightarrow> (\<exists>m. ts = 2 ^ m) \<and> cap P \<le> ts \<and> ts \<le> hs_size s"

definition on_chain :: "'k hset \<Rightarrow> layout \<Rightarrow> nat \<Rightarrow> word_t \<Rightarrow> bool" where
  "on_chain s L j w \<longleftrightarrow> pub s j \<and> (addr_of w = 0 \<or> addr_of w \<in> set (L (Chain j)))"

definition rest :: "layout \<Rightarrow> nat \<Rightarrow> word_t \<Rightarrow> word_t set" where
  "rest L j w = set (tail_at (addr_of w) (L (Chain j)))"

definition searched :: "'k hset \<Rightarrow> layout \<Rightarrow> 'k \<Rightarrow> nat \<Rightarrow> word_t \<Rightarrow> word_t \<Rightarrow> bool" where
  "searched s L k j w c \<longleftrightarrow> (\<forall>a\<in>rest L j w - rest L j c. val s a = k \<longrightarrow> is_marked (link s a))"

definition inserting :: "'k hs_par \<Rightarrow> 'k hset \<Rightarrow> layout \<Rightarrow> 'k \<Rightarrow> nat \<Rightarrow> word_t \<Rightarrow> word_t \<Rightarrow> bool" where
  "inserting P s L k ts head cur \<longleftrightarrow> tsz P s ts \<and> level_of head \<le> level_for ts \<and>
     on_chain s L (bucket_of (hashf P) k ts) head \<and> on_chain s L (bucket_of (hashf P) k ts) cur \<and>
     searched s L k (bucket_of (hashf P) k ts) head cur"

definition splitting :: "'k hs_par \<Rightarrow> 'k hset \<Rightarrow> layout \<Rightarrow> nat \<Rightarrow> 'k set \<Rightarrow> word_t \<Rightarrow> bool" where
  "splitting P s L j V w \<longleftrightarrow> on_chain s L (parent j) w \<and> bit_width_nat j \<le> lev s (parent j) \<and>
     (\<forall>a\<in>set (L (Chain (parent j))) - rest L (parent j) w. maps (hv P (val s a)) j \<longrightarrow>
        is_marked (link s a) \<or> settled P s a \<and> val s a \<in> V) \<and>
     (\<forall>v\<in>V. \<exists>a\<in>set (L (Chain (parent j))) - rest L (parent j) w. val s a = v \<and> maps (hv P v) j \<and> settled P s a)"

definition in_tree :: "'k hs_par \<Rightarrow> 'k hset \<Rightarrow> nat \<Rightarrow> bool" where
  "in_tree P s j \<longleftrightarrow> cap P \<le> j \<and> j < hs_size s"

primrec ctx_ok :: "'k hs_par \<Rightarrow> 'k hset \<Rightarrow> 'k ctx \<Rightarrow> bool" where
  "ctx_ok P s (Cx_contains k ts) \<longleftrightarrow> tsz P s ts"
| "ctx_ok P s (Cx_erase k ts) \<longleftrightarrow> tsz P s ts \<and> del P"
| "ctx_ok P s (Cx_insert k nn) \<longleftrightarrow> (\<forall>n. nn = Some n \<longrightarrow> val s n = k)"

primrec ctx_bucket :: "'k hs_par \<Rightarrow> 'k ctx \<Rightarrow> nat \<Rightarrow> bool" where
  "ctx_bucket P (Cx_contains k ts) j \<longleftrightarrow> j = bucket_of (hashf P) k ts"
| "ctx_bucket P (Cx_erase k ts) j \<longleftrightarrow> j = bucket_of (hashf P) k ts"
| "ctx_bucket P (Cx_insert k nn) j \<longleftrightarrow> True"

primrec frames :: "'k hs_par \<Rightarrow> 'k hset \<Rightarrow> 'k ctx \<Rightarrow> nat \<Rightarrow> nat list \<Rightarrow> bool" where
  "frames P s cx j [] \<longleftrightarrow> in_tree P s j \<and> ctx_ok P s cx \<and> ctx_bucket P cx j"
| "frames P s cx j (j' # js) \<longleftrightarrow> in_tree P s j \<and> parent j' = j \<and> frames P s cx j' js"

definition subs_ok :: "'k hset \<Rightarrow> word_t list \<Rightarrow> bool" where
  "subs_ok s subs \<longleftrightarrow> linked (hs_nodes s) (sub_head subs) subs 0 \<and> distinct (map (val s) subs)"

primrec acont_ok :: "'k hs_par \<Rightarrow> 'k hset \<Rightarrow> layout \<Rightarrow> 'k acont \<Rightarrow> 'k \<Rightarrow> bool" where
  "acont_ok P s L (Ac_insert k ts head) v \<longleftrightarrow> v = k \<and> inserting P s L k ts head 0"
| "acont_ok P s L (Ac_split cx j js next_raw subs) v \<longleftrightarrow>
     frames P s cx j js \<and> subs_ok s subs \<and> v \<notin> val s ` set subs \<and> splitting P s L j (insert v (val s ` set subs)) next_raw"

text \<open>What is left to know once \<open>alloc_node\<close> has thrown.\<close>

primrec araise_ok :: "'k hs_par \<Rightarrow> 'k hset \<Rightarrow> 'k acont \<Rightarrow> bool" where
  "araise_ok P s (Ac_insert k ts head) \<longleftrightarrow> True"
| "araise_ok P s (Ac_split cx j js next_raw subs) \<longleftrightarrow> subs_ok s subs \<and> ctx_ok P s cx"

primrec lcont_ok :: "'k hs_par \<Rightarrow> 'k hset \<Rightarrow> 'k lcont \<Rightarrow> bool" where
  "lcont_ok P s (Lc_done op r) \<longleftrightarrow> True"
| "lcont_ok P s (Lc_split cx j js) \<longleftrightarrow> frames P s cx j js \<and> pub s j"
| "lcont_ok P s (Lc_raise cx) \<longleftrightarrow> ctx_ok P s cx"
| "lcont_ok P s (Lc_alloc c) \<longleftrightarrow> araise_ok P s c"

definition sub_segment :: "'k hset \<Rightarrow> word_t list \<Rightarrow> bool" where
  "sub_segment s xs \<longleftrightarrow> xs \<noteq> [] \<and> linked (hs_nodes s) (hd xs) (butlast xs) (last xs)"

fun crit :: "'k hs_pc \<Rightarrow> bool" where
  "crit (Insert (I_test k ts)) = True"
| "crit (Insert (I_grow k ts)) = True"
| "crit (Insert (I_store k ts)) = True"
| "crit (Insert (I_unlock k)) = True"
| "crit _ = False"

text \<open>A link read without tags: it has changed since only by gaining one.\<close>

definition live_read :: "'k hset \<Rightarrow> word_t \<Rightarrow> word_t \<Rightarrow> bool" where
  "live_read s a w \<longleftrightarrow> addr_of w = addr_of (link s a) \<and> \<not> is_marked w \<and> \<not> is_frozen w \<and>
     (link s a = w \<or> is_marked (link s a) \<or> is_frozen (link s a))"

primrec contains_ok :: "'k hs_par \<Rightarrow> 'k hset \<Rightarrow> layout \<Rightarrow> 'k contains_pc \<Rightarrow> bool" where
  "contains_ok P s L (C_size k) \<longleftrightarrow> True"
| "contains_ok P s L (C_head k ts) \<longleftrightarrow> tsz P s ts"
| "contains_ok P s L (C_again k ts) \<longleftrightarrow> tsz P s ts \<and> pub s (bucket_of (hashf P) k ts)"
| "contains_ok P s L (C_walk k ts cur) \<longleftrightarrow> tsz P s ts \<and> on_chain s L (bucket_of (hashf P) k ts) cur"
| "contains_ok P s L (C_conf k ts) \<longleftrightarrow> tsz P s ts"

primrec erase_ok :: "'k hs_par \<Rightarrow> 'k hset \<Rightarrow> layout \<Rightarrow> 'k erase_pc \<Rightarrow> bool" where
  "erase_ok P s L (E_size k) \<longleftrightarrow> del P"
| "erase_ok P s L (E_head k ts) \<longleftrightarrow> tsz P s ts \<and> del P"
| "erase_ok P s L (E_again k ts) \<longleftrightarrow> tsz P s ts \<and> del P \<and> pub s (bucket_of (hashf P) k ts)"
| "erase_ok P s L (E_walk k ts cur) \<longleftrightarrow> tsz P s ts \<and> del P \<and> on_chain s L (bucket_of (hashf P) k ts) cur"
| "erase_ok P s L (E_mark k ts a w) \<longleftrightarrow> tsz P s ts \<and> del P \<and> pub s (bucket_of (hashf P) k ts) \<and>
     a \<in> set (L (Chain (bucket_of (hashf P) k ts))) \<and> val s a = k \<and> live_read s a w"
| "erase_ok P s L (E_conf k ts stale) \<longleftrightarrow> tsz P s ts \<and> del P"

primrec insert_ok :: "'k hs_par \<Rightarrow> 'k hset \<Rightarrow> layout \<Rightarrow> 'k insert_pc \<Rightarrow> bool" where
  "insert_ok P s L (I_size k nn) \<longleftrightarrow> ctx_ok P s (Cx_insert k nn)"
| "insert_ok P s L (I_head k nn ts) \<longleftrightarrow> ctx_ok P s (Cx_insert k nn) \<and> tsz P s ts"
| "insert_ok P s L (I_walk k nn ts head cur) \<longleftrightarrow> ctx_ok P s (Cx_insert k nn) \<and> inserting P s L k ts head cur"
| "insert_ok P s L (I_link k n ts head) \<longleftrightarrow> val s n = k \<and> inserting P s L k ts head 0"
| "insert_ok P s L (I_cas k n ts head) \<longleftrightarrow> val s n = k \<and> link s n = addr_of head \<and> inserting P s L k ts head 0"
| "insert_ok P s L (I_count k ts) \<longleftrightarrow> tsz P s ts"
| "insert_ok P s L (I_lock k ts) \<longleftrightarrow> tsz P s ts"
| "insert_ok P s L (I_test k ts) \<longleftrightarrow> tsz P s ts"
| "insert_ok P s L (I_grow k ts) \<longleftrightarrow> ts = hs_size s"
| "insert_ok P s L (I_store k ts) \<longleftrightarrow> ts = hs_size s \<and> 2 * ts \<le> length (hs_buckets s) \<and> 2 * ts \<le> 2 ^ 60 \<and>
     (\<forall>j. ts \<le> j \<and> j < 2 * ts \<longrightarrow> hs_buckets s ! j = UNINITIALIZED)"
| "insert_ok P s L (I_unlock k) \<longleftrightarrow> True"

primrec split_ok :: "'k hs_par \<Rightarrow> 'k hset \<Rightarrow> layout \<Rightarrow> 'k split_pc \<Rightarrow> bool" where
  "split_ok P s L (S_parent cx j js) \<longleftrightarrow> frames P s cx j js"
| "split_ok P s L (S_again cx j js) \<longleftrightarrow> frames P s cx j js \<and> pub s (parent j)"
| "split_ok P s L (S_seal cx j js w) \<longleftrightarrow> frames P s cx j js \<and> pub s (parent j) \<and> level_of w < bit_width_nat j"
| "split_ok P s L (S_walk cx j js cur subs) \<longleftrightarrow>
     frames P s cx j js \<and> subs_ok s subs \<and> splitting P s L j (val s ` set subs) cur"
| "split_ok P s L (S_freeze cx j js a w subs) \<longleftrightarrow>
     frames P s cx j js \<and> subs_ok s subs \<and> splitting P s L j (val s ` set subs) a \<and> del P \<and>
     a \<in> set (L (Chain (parent j))) \<and> maps (hv P (val s a)) j \<and> live_read s a w"
| "split_ok P s L (S_pub cx j js subs) \<longleftrightarrow>
     frames P s cx j js \<and> subs_ok s subs \<and> splitting P s L j (val s ` set subs) 0"

primrec alloc_ok :: "'k hs_par \<Rightarrow> 'k hset \<Rightarrow> layout \<Rightarrow> 'k alloc_pc \<Rightarrow> bool" where
  "alloc_ok P s L (A_start v c) \<longleftrightarrow> acont_ok P s L c v"
| "alloc_ok P s L (A_head v c i) \<longleftrightarrow> acont_ok P s L c v \<and> i < length (hs_shards s)"
| "alloc_ok P s L (A_link v c i head) \<longleftrightarrow> acont_ok P s L c v \<and> i < length (hs_shards s) \<and>
     hs_nodes s (free_addr_of head) \<noteq> None"
| "alloc_ok P s L (A_cas v c i head w) \<longleftrightarrow> acont_ok P s L c v \<and> i < length (hs_shards s) \<and>
     hs_nodes s (free_addr_of head) \<noteq> None \<and>
     (free_addr_of head \<in> set (L (Free i)) \<longrightarrow> link s (free_addr_of head) = w)"
| "alloc_ok P s L (A_count v c i n) \<longleftrightarrow> acont_ok P s L c v \<and> i < length (hs_shards s)"
| "alloc_ok P s L (A_value v c i n) \<longleftrightarrow> acont_ok P s L c v \<and> i < length (hs_shards s)"
| "alloc_ok P s L (A_store v c n) \<longleftrightarrow> acont_ok P s L c v \<and> val s n = v"
| "alloc_ok P s L (A_append v c i) \<longleftrightarrow> acont_ok P s L c v \<and> i < length (hs_shards s)"
| "alloc_ok P s L (A_batch v c n) \<longleftrightarrow> acont_ok P s L c v \<and> val s n = v \<and> link s n = alloc_next c"

primrec limbo_ok :: "'k hs_par \<Rightarrow> 'k hset \<Rightarrow> layout \<Rightarrow> 'k limbo_pc \<Rightarrow> bool" where
  "limbo_ok P s L (L_head xs i c) \<longleftrightarrow> lcont_ok P s c \<and> i < length (hs_shards s) \<and> sub_segment s xs"
| "limbo_ok P s L (L_link xs i c w) \<longleftrightarrow> lcont_ok P s c \<and> i < length (hs_shards s) \<and> sub_segment s xs \<and> addr_of w = w"
| "limbo_ok P s L (L_cas xs i c w) \<longleftrightarrow> lcont_ok P s c \<and> i < length (hs_shards s) \<and> sub_segment s xs \<and>
     addr_of w = w \<and> link s (last xs) = w"

fun pc_ok :: "'k hs_par \<Rightarrow> 'k hset \<Rightarrow> layout \<Rightarrow> 'k hs_pc \<Rightarrow> bool" where
  "pc_ok P s L (Contains p) = contains_ok P s L p"
| "pc_ok P s L (Erase p) = erase_ok P s L p"
| "pc_ok P s L (Insert p) = insert_ok P s L p"
| "pc_ok P s L (Split p) = split_ok P s L p"
| "pc_ok P s L (Alloc p) = alloc_ok P s L p"
| "pc_ok P s L (Limbo_push p) = limbo_ok P s L p"
| "pc_ok P s L _ = True"

section \<open>The nodes a thread holds\<close>

primrec opt_list :: "'a option \<Rightarrow> 'a list" where
  "opt_list None = []"
| "opt_list (Some x) = [x]"

fun ctx_priv :: "'k ctx \<Rightarrow> word_t list" where
  "ctx_priv (Cx_insert k nn) = opt_list nn"
| "ctx_priv _ = []"

primrec acont_priv :: "'k acont \<Rightarrow> word_t list" where
  "acont_priv (Ac_insert k ts head) = []"
| "acont_priv (Ac_split cx j js w subs) = subs @ ctx_priv cx"

primrec lcont_priv :: "'k lcont \<Rightarrow> word_t list" where
  "lcont_priv (Lc_done op r) = []"
| "lcont_priv (Lc_split cx j js) = ctx_priv cx"
| "lcont_priv (Lc_raise cx) = ctx_priv cx"
| "lcont_priv (Lc_alloc c) = acont_priv c"

fun insert_priv :: "'k insert_pc \<Rightarrow> word_t list" where
  "insert_priv (I_size k nn) = opt_list nn"
| "insert_priv (I_head k nn ts) = opt_list nn"
| "insert_priv (I_walk k nn ts head cur) = opt_list nn"
| "insert_priv (I_link k n ts head) = [n]"
| "insert_priv (I_cas k n ts head) = [n]"
| "insert_priv _ = []"

primrec split_priv :: "'k split_pc \<Rightarrow> word_t list" where
  "split_priv (S_parent cx j js) = ctx_priv cx"
| "split_priv (S_again cx j js) = ctx_priv cx"
| "split_priv (S_seal cx j js w) = ctx_priv cx"
| "split_priv (S_walk cx j js w subs) = subs @ ctx_priv cx"
| "split_priv (S_freeze cx j js a w subs) = subs @ ctx_priv cx"
| "split_priv (S_pub cx j js subs) = subs @ ctx_priv cx"

primrec alloc_priv :: "'k alloc_pc \<Rightarrow> word_t list" where
  "alloc_priv (A_start v c) = acont_priv c"
| "alloc_priv (A_head v c i) = acont_priv c"
| "alloc_priv (A_link v c i head) = acont_priv c"
| "alloc_priv (A_cas v c i head w) = acont_priv c"
| "alloc_priv (A_count v c i n) = n # acont_priv c"
| "alloc_priv (A_value v c i n) = n # acont_priv c"
| "alloc_priv (A_store v c n) = n # acont_priv c"
| "alloc_priv (A_append v c i) = acont_priv c"
| "alloc_priv (A_batch v c n) = n # acont_priv c"

primrec limbo_priv :: "'k limbo_pc \<Rightarrow> word_t list" where
  "limbo_priv (L_head xs i c) = xs @ lcont_priv c"
| "limbo_priv (L_link xs i c w) = xs @ lcont_priv c"
| "limbo_priv (L_cas xs i c w) = xs @ lcont_priv c"

fun priv :: "'k hs_pc \<Rightarrow> word_t list" where
  "priv (Insert p) = insert_priv p"
| "priv (Split p) = split_priv p"
| "priv (Alloc p) = alloc_priv p"
| "priv (Limbo_push p) = limbo_priv p"
| "priv _ = []"

definition hs_inv :: "'k hs_par \<Rightarrow> 'k hset \<Rightarrow> layout \<Rightarrow> bool" where
  "hs_inv P s L \<longleftrightarrow> hs_heap P s L \<and> (\<forall>t. L (Priv t) = priv (hs_pcs s t)) \<and> (\<forall>t. pc_ok P s L (hs_pcs s t)) \<and>
     (\<forall>t u. crit (hs_pcs s t) \<longrightarrow> crit (hs_pcs s u) \<longrightarrow> t = u) \<and> (\<forall>t. crit (hs_pcs s t) \<longrightarrow> hs_lock s) \<and>
     (\<forall>t. t \<notin> set (hs_threads s) \<longrightarrow> hs_pcs s t = Hs_rest)"

section \<open>What other threads may do\<close>

definition env_steps :: "'k hs_par \<Rightarrow> 'k hset \<Rightarrow> layout \<Rightarrow> 'k hset \<Rightarrow> layout \<Rightarrow> bool" where
  "env_steps P s L s' L' \<longleftrightarrow> hs_size s \<le> hs_size s' \<and> length (hs_shards s') = length (hs_shards s) \<and>
     dom (hs_nodes s) \<subseteq> dom (hs_nodes s') \<and>
     (\<forall>j. pub s j \<longrightarrow> pub s' j \<and> lev s j \<le> lev s' j \<and>
        (\<exists>ys. L' (Chain j) = ys @ L (Chain j) \<and>
           (\<forall>a\<in>set ys. \<forall>c. cap P \<le> c \<and> parent c = j \<and> bit_width_nat c \<le> lev s j \<longrightarrow> \<not> maps (hv P (val s' a)) c))) \<and>
     (\<forall>j. \<forall>a\<in>set (L (Chain j)). val s' a = val s a \<and> addr_of (link s' a) = addr_of (link s a) \<and>
        (is_marked (link s a) \<longrightarrow> is_marked (link s' a)) \<and> (settled P s a \<longrightarrow> settled P s' a) \<and>
        (link s' a = link s a \<or> is_marked (link s' a) \<or> is_frozen (link s' a))) \<and>
     (\<forall>i. set (L' (Free i)) \<subseteq> set (L (Free i)) \<and> (\<forall>a\<in>set (L' (Free i)). link s' a = link s a))"

definition rely :: "'k hs_par \<Rightarrow> 'k hset \<Rightarrow> layout \<Rightarrow> 'k hset \<Rightarrow> layout \<Rightarrow> word_t set \<Rightarrow> bool \<Rightarrow> bool" where
  "rely P s L s' L' A c \<longleftrightarrow> env_steps P s L s' L' \<and> (\<forall>a\<in>A. hs_nodes s' a = hs_nodes s a) \<and>
     (c \<longrightarrow> hs_size s' = hs_size s \<and> length (hs_buckets s') = length (hs_buckets s) \<and>
        (\<forall>j. hs_size s \<le> j \<longrightarrow> hs_buckets s' ! j = hs_buckets s ! j))"

section \<open>Lists in the arena\<close>

lemma linked_cong:
  "(\<And>a. a \<in> set xs \<Longrightarrow> N' a = N a) \<Longrightarrow> linked N' w xs e = linked N w xs e"
  by (induction xs arbitrary: w) auto

lemma linked_links:
  assumes "\<And>a n. a \<in> set xs \<Longrightarrow> N a = Some n \<Longrightarrow> \<exists>n'. N' a = Some n' \<and> addr_of (nd_link n') = addr_of (nd_link n)"
    and "linked N w xs e" and "addr_of w' = addr_of w"
  shows "linked N' w' xs e"
  using assms
proof (induction xs arbitrary: w w')
  case (Cons a xs)
  from Cons.prems obtain n where n: "addr_of w = a" "N a = Some n" "linked N (nd_link n) xs e" by auto
  then obtain n' where n': "N' a = Some n'" "addr_of (nd_link n') = addr_of (nd_link n)" using Cons.prems(1) [of a n] by auto
  have "linked N' (nd_link n') xs e" by (rule Cons.IH [OF _ n(3) n'(2)]) (use Cons.prems(1) in auto)
  then show ?case using n n' Cons.prems(3) by simp
qed simp

lemma linked_addr: "addr_of w' = addr_of w \<Longrightarrow> linked N w' xs e = linked N w xs e"
  by (cases xs) auto

lemma linked_append:
  "linked N w (xs @ ys) e \<longleftrightarrow> (\<exists>w'. linked N w xs (addr_of w') \<and> linked N w' ys e)"
  by (induction xs arbitrary: w) (auto dest: linked_addr)

lemma linked_unique: "linked N w xs 0 \<Longrightarrow> linked N w ys 0 \<Longrightarrow> 0 \<notin> set xs \<Longrightarrow> 0 \<notin> set ys \<Longrightarrow> xs = ys"
proof (induction xs arbitrary: w ys)
  case Nil
  then show ?case by (cases ys) auto
next
  case (Cons a xs)
  then show ?case by (cases ys) auto
qed

lemma linked_dom: "linked N w xs e \<Longrightarrow> set xs \<subseteq> dom N"
  by (induction xs arbitrary: w) auto

lemma tail_Nil: "a \<notin> set xs \<Longrightarrow> tail_at a xs = []"
  by (auto simp: tail_at_def dropWhile_eq_Nil_conv)

lemma tail_hd: "tail_at a (a # xs) = a # xs"
  by (simp add: tail_at_def)

lemma tail_subset: "set (tail_at a xs) \<subseteq> set xs"
  by (auto simp: tail_at_def dest: set_dropWhileD)

lemma tail_append: "a \<notin> set ys \<Longrightarrow> tail_at a (ys @ xs) = tail_at a xs"
  unfolding tail_at_def by (induction ys) auto

lemma tail_next:
  assumes "linked N w xs 0" and "distinct xs" and "a \<in> set xs" and "N a = Some n" and "0 \<notin> set xs"
  shows "tail_at a xs = a # tail_at (addr_of (nd_link n)) xs \<and> a \<notin> set (tail_at (addr_of (nd_link n)) xs) \<and>
    (addr_of (nd_link n) = 0 \<or> addr_of (nd_link n) \<in> set xs)"
proof -
  from assms(3) obtain ys zs where xs: "xs = ys @ a # zs" by (auto simp: in_set_conv_decomp)
  then obtain w' where w': "linked N w' (a # zs) 0" using assms(1) by (auto simp: linked_append)
  then have z: "linked N (nd_link n) zs 0" using assms(4) by auto
  have f: "tail_at a xs = a # zs" unfolding xs using assms(2) xs by (subst tail_append) (auto simp: tail_hd)
  show ?thesis
  proof (cases zs)
    case Nil
    then have "addr_of (nd_link n) = 0" using z by simp
    then show ?thesis using f Nil assms(5) by (simp add: tail_Nil)
  next
    case (Cons b bs)
    then have b: "addr_of (nd_link n) = b" using z by simp
    have "tail_at b ((ys @ [a]) @ b # bs) = b # bs" using assms(2) unfolding xs Cons
      by (subst tail_append) (auto simp: tail_hd)
    then have "tail_at b xs = zs" using xs Cons by simp
    then show ?thesis using f b assms(2) xs Cons by auto
  qed
qed

end
