(* ===== verification/Hash_Set_Rely.thy ===== *)
theory Hash_Set_Rely
  imports Hash_Set_Inv
begin

text \<open>
  What a thread knows at any point of a call survives the steps of the other threads: \<open>pc_ok\<close> is stable under \<open>rely\<close>.
  Then the general form of a step: a new shared state that respects the others and a new program point whose
  knowledge holds.
\<close>

section \<open>Reading the invariant\<close>

lemma heapD:
  assumes "hs_heap P s L"
  shows "geometry P s" "arena s" "owned L (dom (hs_nodes s))" "chains P s L" "spares s L" "tags P s" "keys P s L" "tree P s L"
  using assms by (auto simp: hs_heap_def)

lemma ownedD:
  assumes "owned L A"
  shows "distinct (L p)" "a \<in> set (L p) \<Longrightarrow> a \<in> set (L q) \<Longrightarrow> p = q" "a \<in> set (L p) \<Longrightarrow> a \<in> A"
    "a \<in> A \<Longrightarrow> \<exists>p. a \<in> set (L p)"
  using assms by (auto simp: owned_def)

lemma place_node:
  assumes h: "hs_heap P s L" and a: "a \<in> set (L p)"
  obtains n where "hs_nodes s a = Some n" "nd_link n = link s a" "nd_value n = val s a" "node_addr a"
proof -
  have d: "a \<in> dom (hs_nodes s)" using ownedD(3) [OF heapD(3) [OF h] a] .
  then have "node_addr a" using heapD(2) [OF h] by (simp add: arena_def)
  with d that show ?thesis by (auto simp: link_def val_def)
qed

lemma place_addr: "hs_heap P s L \<Longrightarrow> a \<in> set (L p) \<Longrightarrow> addr_of a = a \<and> a \<noteq> 0"
  by (erule (1) place_node) (simp add: node_addr_iff)

lemma zero_notin: "hs_heap P s L \<Longrightarrow> 0 \<notin> set (L p)"
  by (auto dest: place_addr)

lemma chain_linked:
  "hs_heap P s L \<Longrightarrow> pub s j \<Longrightarrow> linked (hs_nodes s) (hs_buckets s ! j) (L (Chain j)) 0"
  by (drule heapD(4)) (simp add: chains_def)

lemma chain_pub: "hs_heap P s L \<Longrightarrow> a \<in> set (L (Chain j)) \<Longrightarrow> pub s j"
  by (drule heapD(4)) (metis chains_def empty_iff empty_set)

lemma chain_head:
  assumes "hs_heap P s L" and "pub s j"
  shows "on_chain s L j (hs_buckets s ! j) \<and> rest L j (hs_buckets s ! j) = set (L (Chain j))"
proof -
  have l: "linked (hs_nodes s) (hs_buckets s ! j) (L (Chain j)) 0" using chain_linked [OF assms] .
  show ?thesis
  proof (cases "L (Chain j)")
    case Nil
    then show ?thesis using l assms(2) by (simp add: on_chain_def rest_def tail_at_def)
  next
    case (Cons a xs)
    then have "addr_of (hs_buckets s ! j) = a" using l by simp
    then show ?thesis using Cons assms(2) by (simp add: on_chain_def rest_def tail_hd)
  qed
qed

text \<open>One step of a walk along a chain.\<close>

lemma chain_next:
  assumes h: "hs_heap P s L" and c: "on_chain s L j w" "addr_of w \<noteq> 0"
  obtains n where "hs_nodes s (addr_of w) = Some n" "nd_link n = link s (addr_of w)" "nd_value n = val s (addr_of w)"
    "addr_of w \<in> set (L (Chain j))" "on_chain s L j (nd_link n)"
    "rest L j w = insert (addr_of w) (rest L j (nd_link n))" "addr_of w \<notin> rest L j (nd_link n)"
proof -
  have a: "addr_of w \<in> set (L (Chain j))" "pub s j" using c by (auto simp: on_chain_def)
  obtain n where n: "hs_nodes s (addr_of w) = Some n" "nd_link n = link s (addr_of w)" "nd_value n = val s (addr_of w)"
    using place_node [OF h a(1)] by metis
  note t = tail_next [OF chain_linked [OF h a(2)] ownedD(1) [OF heapD(3) [OF h]] a(1) n(1) zero_notin [OF h]]
  show ?thesis
    by (rule that [OF n a(1)]) (use t a(2) in \<open>auto simp: on_chain_def rest_def\<close>)
qed

lemma rest_zero: "hs_heap P s L \<Longrightarrow> addr_of w = 0 \<Longrightarrow> rest L j w = {}"
  using zero_notin [of P s L "Chain j"] by (simp add: rest_def tail_Nil)

lemma rest_subset: "rest L j w \<subseteq> set (L (Chain j))"
  unfolding rest_def by (rule tail_subset)

lemma on_chain_zero: "pub s j \<Longrightarrow> addr_of w = 0 \<Longrightarrow> on_chain s L j w"
  by (simp add: on_chain_def)

lemma rest_addr: "addr_of w' = addr_of w \<Longrightarrow> rest L j w' = rest L j w"
  by (simp add: rest_def)

lemma on_chain_addr: "addr_of w' = addr_of w \<Longrightarrow> on_chain s L j w' = on_chain s L j w"
  by (simp add: on_chain_def)

section \<open>Stability\<close>

lemma envD:
  assumes "env_steps P s L s' L'"
  shows "hs_size s \<le> hs_size s'" "length (hs_shards s') = length (hs_shards s)" "dom (hs_nodes s) \<subseteq> dom (hs_nodes s')"
    "pub s j \<Longrightarrow> pub s' j" "pub s j \<Longrightarrow> lev s j \<le> lev s' j"
    "a \<in> set (L (Chain j)) \<Longrightarrow> val s' a = val s a \<and> addr_of (link s' a) = addr_of (link s a)"
    "a \<in> set (L (Chain j)) \<Longrightarrow> is_marked (link s a) \<Longrightarrow> is_marked (link s' a)"
    "a \<in> set (L (Chain j)) \<Longrightarrow> settled P s a \<Longrightarrow> settled P s' a"
    "set (L' (Free i)) \<subseteq> set (L (Free i))" "a \<in> set (L' (Free i)) \<Longrightarrow> link s' a = link s a"
    "a \<in> set (L (Chain j)) \<Longrightarrow> link s' a = link s a \<or> is_marked (link s' a) \<or> is_frozen (link s' a)"
  using assms by (auto simp: env_steps_def)

lemma live_read_stable:
  assumes e: "env_steps P s L s' L'" and a: "a \<in> set (L (Chain j))" and "live_read s a w" and "del P"
  shows "live_read s' a w"
  using assms(3,4) envD(6) [OF e a] envD(7) [OF e a] envD(8) [OF e a] envD(11) [OF e a]
  by (auto simp: live_read_def settled_def)

lemma env_chain:
  assumes "env_steps P s L s' L'" and "pub s j"
  obtains ys where "L' (Chain j) = ys @ L (Chain j)"
    "\<And>a c. a \<in> set ys \<Longrightarrow> cap P \<le> c \<Longrightarrow> parent c = j \<Longrightarrow> bit_width_nat c \<le> lev s j \<Longrightarrow> \<not> maps (hv P (val s' a)) c"
  using assms unfolding env_steps_def by metis

lemma env_on_chain:
  assumes e: "env_steps P s L s' L'" and h: "hs_heap P s L" and h': "hs_heap P s' L'" and c: "on_chain s L j w"
  shows "on_chain s' L' j w \<and> rest L' j w = rest L j w"
proof -
  have p: "pub s j" using c by (simp add: on_chain_def)
  obtain ys where ys: "L' (Chain j) = ys @ L (Chain j)" using env_chain [OF e p] .
  have "distinct (ys @ L (Chain j))" using ownedD(1) [OF heapD(3) [OF h']] ys by metis
  then have "addr_of w \<in> set (L (Chain j)) \<Longrightarrow> tail_at (addr_of w) (ys @ L (Chain j)) = tail_at (addr_of w) (L (Chain j))"
    by (intro tail_append) auto
  then show ?thesis using c ys envD(4) [OF e p] zero_notin [OF h', of "Chain j"]
    by (auto simp: on_chain_def rest_def tail_Nil)
qed

lemma tsz_mono: "tsz P s ts \<Longrightarrow> hs_size s \<le> hs_size s' \<Longrightarrow> tsz P s' ts"
  by (auto simp: tsz_def)

lemma in_tree_mono: "in_tree P s j \<Longrightarrow> hs_size s \<le> hs_size s' \<Longrightarrow> in_tree P s' j"
  by (auto simp: in_tree_def)

lemma val_same: "hs_nodes s' a = hs_nodes s a \<Longrightarrow> val s' a = val s a \<and> link s' a = link s a"
  by (simp add: val_def link_def)

lemma ctx_ok_stable:
  assumes "ctx_ok P s cx" and "hs_size s \<le> hs_size s'" and "\<And>a. a \<in> set (ctx_priv cx) \<Longrightarrow> val s' a = val s a"
  shows "ctx_ok P s' cx"
  using assms by (cases cx) (auto intro: tsz_mono)

lemma frames_stable:
  assumes "frames P s cx j js" and "hs_size s \<le> hs_size s'" and "\<And>a. a \<in> set (ctx_priv cx) \<Longrightarrow> val s' a = val s a"
  shows "frames P s' cx j js"
  using assms(1)
  by (induction js arbitrary: j) (use assms(2,3) in \<open>auto intro: in_tree_mono ctx_ok_stable\<close>)

lemma subs_ok_stable:
  assumes "subs_ok s subs" and "\<And>a. a \<in> set subs \<Longrightarrow> hs_nodes s' a = hs_nodes s a"
  shows "subs_ok s' subs" and "val s' ` set subs = val s ` set subs"
proof -
  have v: "\<And>a. a \<in> set subs \<Longrightarrow> val s' a = val s a" using assms(2) by (simp add: val_def)
  then have m: "map (val s') subs = map (val s) subs" by (intro map_cong) auto
  have "linked (hs_nodes s') (sub_head subs) subs 0 = linked (hs_nodes s) (sub_head subs) subs 0"
    by (rule linked_cong) (rule assms(2))
  then show "subs_ok s' subs" using assms(1) unfolding subs_ok_def m by blast
  show "val s' ` set subs = val s ` set subs" using v by (rule image_cong [OF refl])
qed

lemma sub_segment_stable:
  assumes "sub_segment s xs" and "\<And>a. a \<in> set xs \<Longrightarrow> hs_nodes s' a = hs_nodes s a"
  shows "sub_segment s' xs"
  using assms linked_cong [of "butlast xs" "hs_nodes s'" "hs_nodes s" "hd xs" "last xs"]
  by (auto simp: sub_segment_def dest: in_set_butlastD)

lemma inserting_stable:
  assumes e: "env_steps P s L s' L'" and h: "hs_heap P s L" "hs_heap P s' L'" and i: "inserting P s L k ts head cur"
  shows "inserting P s' L' k ts head cur"
proof -
  let ?j = "bucket_of (hashf P) k ts"
  have c: "on_chain s L ?j head" "on_chain s L ?j cur" using i by (auto simp: inserting_def)
  note r = env_on_chain [OF e h c(1)] env_on_chain [OF e h c(2)]
  have "searched s' L' k ?j head cur"
    unfolding searched_def
  proof (intro ballI impI)
    fix a assume a: "a \<in> rest L' ?j head - rest L' ?j cur" "val s' a = k"
    then have m: "a \<in> rest L ?j head - rest L ?j cur" "a \<in> set (L (Chain ?j))" using r rest_subset by auto
    then have "is_marked (link s a)" using i a(2) envD(6) [OF e m(2)] by (simp add: inserting_def searched_def)
    then show "is_marked (link s' a)" by (rule envD(7) [OF e m(2)])
  qed
  then show ?thesis using i r tsz_mono [OF _ envD(1) [OF e]] by (simp add: inserting_def)
qed

lemma splittingD:
  assumes "splitting P s L j V w"
  shows "on_chain s L (parent j) w" "pub s (parent j)" "bit_width_nat j \<le> lev s (parent j)"
    "a \<in> set (L (Chain (parent j))) \<Longrightarrow> a \<notin> rest L (parent j) w \<Longrightarrow> maps (hv P (val s a)) j \<Longrightarrow>
       is_marked (link s a) \<or> settled P s a \<and> val s a \<in> V"
    "v \<in> V \<Longrightarrow> \<exists>a. a \<in> set (L (Chain (parent j))) \<and> a \<notin> rest L (parent j) w \<and> val s a = v \<and> maps (hv P v) j \<and> settled P s a"
proof -
  show "on_chain s L (parent j) w" "pub s (parent j)" "bit_width_nat j \<le> lev s (parent j)"
    using assms by (simp_all add: splitting_def on_chain_def)
  show "is_marked (link s a) \<or> settled P s a \<and> val s a \<in> V"
    if "a \<in> set (L (Chain (parent j)))" "a \<notin> rest L (parent j) w" "maps (hv P (val s a)) j"
    using assms that by (simp add: splitting_def)
  assume "v \<in> V"
  with assms have "\<exists>a\<in>set (L (Chain (parent j))) - rest L (parent j) w. val s a = v \<and> maps (hv P v) j \<and> settled P s a"
    by (simp add: splitting_def)
  then show "\<exists>a. a \<in> set (L (Chain (parent j))) \<and> a \<notin> rest L (parent j) w \<and> val s a = v \<and> maps (hv P v) j \<and> settled P s a"
    by blast
qed

lemma splittingI:
  assumes "on_chain s L (parent j) w" and "bit_width_nat j \<le> lev s (parent j)"
    and "\<And>a. a \<in> set (L (Chain (parent j))) \<Longrightarrow> a \<notin> rest L (parent j) w \<Longrightarrow> maps (hv P (val s a)) j \<Longrightarrow>
       is_marked (link s a) \<or> settled P s a \<and> val s a \<in> V"
    and "\<And>v. v \<in> V \<Longrightarrow> \<exists>a. a \<in> set (L (Chain (parent j))) \<and> a \<notin> rest L (parent j) w \<and> val s a = v \<and> maps (hv P v) j \<and> settled P s a"
  shows "splitting P s L j V w"
  unfolding splitting_def using assms by fast

lemma splitting_stable:
  assumes e: "env_steps P s L s' L'" and h: "hs_heap P s L" "hs_heap P s' L'" and i: "splitting P s L j V w"
    and j: "cap P \<le> j"
  shows "splitting P s' L' j V w"
proof -
  let ?p = "parent j"
  note d = splittingD [OF i]
  note r = env_on_chain [OF e h d(1)]
  obtain ys where ys: "L' (Chain ?p) = ys @ L (Chain ?p)"
    and new: "\<And>a. a \<in> set ys \<Longrightarrow> \<not> maps (hv P (val s' a)) j"
    using env_chain [OF e d(2)] j d(3) by metis
  show ?thesis
  proof (rule splittingI)
    show "on_chain s' L' ?p w" using r by simp
    show "bit_width_nat j \<le> lev s' ?p" using d(3) envD(5) [OF e d(2)] by simp
    fix a assume a: "a \<in> set (L' (Chain ?p))" "a \<notin> rest L' ?p w" "maps (hv P (val s' a)) j"
    have m: "a \<in> set (L (Chain ?p))" using a new ys by auto
    have "is_marked (link s a) \<or> settled P s a \<and> val s a \<in> V"
      by (rule d(4) [OF m]) (use a r envD(6) [OF e m] in auto)
    then show "is_marked (link s' a) \<or> settled P s' a \<and> val s' a \<in> V" using envD(6,7,8) [OF e m] by metis
  next
    fix v assume "v \<in> V"
    from d(5) [OF this] obtain a where a: "a \<in> set (L (Chain ?p))" "a \<notin> rest L ?p w" "val s a = v" "maps (hv P v) j" "settled P s a"
      by (elim exE conjE)
    have "a \<in> set (L' (Chain ?p)) \<and> a \<notin> rest L' ?p w" using a(1,2) r ys by simp
    then show "\<exists>a. a \<in> set (L' (Chain ?p)) \<and> a \<notin> rest L' ?p w \<and> val s' a = v \<and> maps (hv P v) j \<and> settled P s' a"
      using a(3-5) envD(6) [OF e a(1)] envD(8) [OF e a(1)] by metis
  qed
qed

lemma frames_in_tree: "frames P s cx j js \<Longrightarrow> in_tree P s j"
  by (cases js) auto

lemma acont_ok_stable:
  assumes e: "env_steps P s L s' L'" and h: "hs_heap P s L" "hs_heap P s' L'"
    and p: "\<And>a. a \<in> set (acont_priv c) \<Longrightarrow> hs_nodes s' a = hs_nodes s a"
    and c: "acont_ok P s L c v"
  shows "acont_ok P s' L' c v"
proof (cases c)
  case (Ac_insert k ts head)
  then show ?thesis using c inserting_stable [OF e h] by simp
next
  case (Ac_split cx j js w subs)
  have vs: "val s' ` set subs = val s ` set subs" and so: "subs_ok s' subs"
    using subs_ok_stable [of s subs s'] c p Ac_split by auto
  have "frames P s' cx j js"
    using frames_stable [OF _ envD(1) [OF e], of P cx j js] c p Ac_split by (auto simp: val_def)
  moreover have "splitting P s' L' j (insert v (val s ` set subs)) w"
    using splitting_stable [OF e h] c Ac_split frames_in_tree by (fastforce simp: in_tree_def)
  ultimately show ?thesis using c so vs Ac_split by simp
qed

lemma lcont_ok_stable:
  assumes e: "env_steps P s L s' L'"
    and p: "\<And>a. a \<in> set (lcont_priv c) \<Longrightarrow> hs_nodes s' a = hs_nodes s a"
    and c: "lcont_ok P s c"
  shows "lcont_ok P s' c"
proof -
  have v: "\<And>a. a \<in> set (lcont_priv c) \<Longrightarrow> val s' a = val s a" using p by (simp add: val_def)
  show ?thesis
  proof (cases c)
    case (Lc_split cx j js)
    then show ?thesis using c v frames_stable [OF _ envD(1) [OF e], of P cx j js] envD(4) [OF e] by auto
  next
    case (Lc_raise cx)
    then show ?thesis using c v ctx_ok_stable [OF _ envD(1) [OF e], of P cx] by auto
  next
    case (Lc_alloc ac)
    then show ?thesis using c v p
      by (cases ac) (auto intro: subs_ok_stable(1) [of s] ctx_ok_stable [OF _ envD(1) [OF e]])
  qed (use c in simp)
qed

lemma erase_ok_stable:
  assumes e: "env_steps P s L s' L'" and h: "hs_heap P s L" "hs_heap P s' L'" and k: "erase_ok P s L p"
  shows "erase_ok P s' L' p"
proof (cases p)
  case (E_mark ky t a w)
  let ?j = "bucket_of (hashf P) ky t"
  have a: "a \<in> set (L (Chain ?j))" "pub s ?j" using k E_mark by auto
  have "on_chain s L ?j a" using a place_addr [OF h(1) a(1)] by (simp add: on_chain_def)
  then have "a \<in> set (L' (Chain ?j))" using env_on_chain [OF e h, of ?j a] place_addr [OF h(1) a(1)] by (simp add: on_chain_def)
  then show ?thesis using k E_mark envD(4) [OF e, of ?j] envD(6) [OF e a(1)] live_read_stable [OF e a(1)] tsz_mono [OF _ envD(1) [OF e]] by simp
qed (use k tsz_mono [OF _ envD(1) [OF e]] env_on_chain [OF e h] envD(4) [OF e] in auto)

lemma insert_ok_stable:
  assumes r: "rely P s L s' L' (set (insert_priv p)) (crit (Insert p))" and h: "hs_heap P s L" "hs_heap P s' L'"
    and k: "insert_ok P s L p"
  shows "insert_ok P s' L' p"
proof -
  have e: "env_steps P s L s' L'" and nodes: "\<And>a. a \<in> set (insert_priv p) \<Longrightarrow> hs_nodes s' a = hs_nodes s a"
    using r by (auto simp: rely_def)
  note v = val_same [OF nodes] and ts = tsz_mono [OF _ envD(1) [OF e]] and ins = inserting_stable [OF e h]
  show ?thesis
  proof (cases p)
    case (I_store ky t)
    then show ?thesis using k r by (auto simp: rely_def)
  next
    case (I_grow ky t)
    then show ?thesis using k r by (auto simp: rely_def)
  qed (use k v ts ins in auto)
qed

lemma split_ok_stable:
  assumes e: "env_steps P s L s' L'" and nodes: "\<And>a. a \<in> set (split_priv p) \<Longrightarrow> hs_nodes s' a = hs_nodes s a"
    and h: "hs_heap P s L" "hs_heap P s' L'" and k: "split_ok P s L p"
  shows "split_ok P s' L' p"
proof -
  note v = val_same [OF nodes]
  note fr = frames_stable [OF _ envD(1) [OF e]] and pb = envD(4) [OF e]
  note so = subs_ok_stable [of s _ s'] and sp = splitting_stable [OF e h]
  have ct: "frames P s c j js \<Longrightarrow> cap P \<le> j" for c j js using frames_in_tree by (fastforce simp: in_tree_def)
  show ?thesis
  proof (cases p)
    case (S_walk c j js w subs)
    have "frames P s' c j js" by (rule fr) (use k v S_walk in auto)
    moreover have "subs_ok s' subs" "val s' ` set subs = val s ` set subs"
      by (rule so; use k nodes S_walk in simp)+
    ultimately show ?thesis using k sp [of j "val s ` set subs" w] ct [of c j js] S_walk by simp
  next
    case (S_freeze c j js a w subs)
    have f: "frames P s' c j js" by (rule fr) (use k v S_freeze in auto)
    have u: "subs_ok s' subs" "val s' ` set subs = val s ` set subs"
      by (rule so; use k nodes S_freeze in simp)+
    have a: "a \<in> set (L (Chain (parent j)))" using k S_freeze by simp
    have "on_chain s L (parent j) a" using k S_freeze by (simp add: splitting_def)
    then have "a \<in> set (L' (Chain (parent j)))"
      using env_on_chain [OF e h, of "parent j" a] place_addr [OF h(1) a] by (auto simp: on_chain_def)
    then show ?thesis using k f u sp [of j "val s ` set subs" a] ct [of c j js] envD(6) [OF e a] live_read_stable [OF e a] S_freeze by simp
  next
    case (S_pub c j js subs)
    have "frames P s' c j js" by (rule fr) (use k v S_pub in auto)
    moreover have "subs_ok s' subs" "val s' ` set subs = val s ` set subs"
      by (rule so; use k nodes S_pub in simp)+
    ultimately show ?thesis using k sp [of j "val s ` set subs" 0] ct [of c j js] S_pub by simp
  qed (use k v fr pb in auto)
qed

lemma alloc_ok_stable:
  assumes e: "env_steps P s L s' L'" and nodes: "\<And>a. a \<in> set (alloc_priv p) \<Longrightarrow> hs_nodes s' a = hs_nodes s a"
    and h: "hs_heap P s L" "hs_heap P s' L'" and k: "alloc_ok P s L p"
  shows "alloc_ok P s' L' p"
proof -
  note v = val_same [OF nodes] and ac = acont_ok_stable [OF e h] and shl = envD(2) [OF e]
  have dm: "hs_nodes s a \<noteq> None \<Longrightarrow> hs_nodes s' a \<noteq> None" for a using envD(3) [OF e] by (auto simp: dom_def)
  show ?thesis
  proof (cases p)
    case (A_cas vl c i head w)
    then have "acont_ok P s' L' c vl" using k nodes by (intro ac) auto
    then show ?thesis using k shl dm [of "free_addr_of head"] envD(9) [OF e, of i] A_cas
        envD(10) [OF e, of "free_addr_of head" i] by (auto simp del: not_None_eq)
  next
    case (A_link vl c i head)
    then have "acont_ok P s' L' c vl" using k nodes by (intro ac) auto
    then show ?thesis using k shl dm [of "free_addr_of head"] A_link by (auto simp del: not_None_eq)
  qed (use k nodes v shl ac in auto)
qed

lemma limbo_ok_stable:
  assumes e: "env_steps P s L s' L'" and nodes: "\<And>a. a \<in> set (limbo_priv p) \<Longrightarrow> hs_nodes s' a = hs_nodes s a"
    and k: "limbo_ok P s L p"
  shows "limbo_ok P s' L' p"
proof -
  note v = val_same [OF nodes] and shl = envD(2) [OF e] and lc = lcont_ok_stable [OF e]
    and sg = sub_segment_stable [of s _ s']
  show ?thesis
  proof (cases p)
    case (L_cas xs i c w)
    have "last xs \<in> set xs" using k L_cas by (simp add: sub_segment_def)
    then have "link s' (last xs) = link s (last xs)" using v L_cas by simp
    moreover have "lcont_ok P s' c" "sub_segment s' xs" using k nodes L_cas by (auto intro!: lc sg)
    ultimately show ?thesis using k shl L_cas by simp
  qed (use k nodes shl lc sg in auto)
qed

lemma pc_ok_stable:
  assumes r: "rely P s L s' L' (set (priv p)) (crit p)" and h: "hs_heap P s L" "hs_heap P s' L'" and k: "pc_ok P s L p"
  shows "pc_ok P s' L' p"
proof -
  have e: "env_steps P s L s' L'" and nodes: "\<And>a. a \<in> set (priv p) \<Longrightarrow> hs_nodes s' a = hs_nodes s a"
    using r by (auto simp: rely_def)
  show ?thesis
  proof (cases p)
    case (Contains q)
    then show ?thesis using k tsz_mono [OF _ envD(1) [OF e]] env_on_chain [OF e h] envD(4) [OF e] by (cases q) auto
  next
    case (Erase q)
    then show ?thesis using erase_ok_stable [OF e h] k by simp
  next
    case (Insert q)
    then show ?thesis using insert_ok_stable [OF _ h] r k by simp
  next
    case (Split q)
    then show ?thesis using split_ok_stable [OF e _ h] nodes k by simp
  next
    case (Alloc q)
    then show ?thesis using alloc_ok_stable [OF e _ h] nodes k by simp
  next
    case (Limbo_push q)
    then show ?thesis using limbo_ok_stable [OF e] nodes k by simp
  qed simp_all
qed

end
