(* ===== verification/Hash_Set_Heap.thy ===== *)
theory Hash_Set_Heap
  imports Hash_Set_Rely
begin

text \<open>
  The ways in which a step changes the shared state, each with the layout of the arena after it: the shared
  invariant is kept, and the change is one the other threads rely on.
\<close>

section \<open>Steps in general\<close>

definition calm :: "'k hset \<Rightarrow> 'k hset \<Rightarrow> bool" where
  "calm s s' \<longleftrightarrow> hs_lock s' = hs_lock s \<and> hs_size s' = hs_size s \<and> length (hs_buckets s') = length (hs_buckets s) \<and>
     (\<forall>j. hs_size s \<le> j \<longrightarrow> hs_buckets s' ! j = hs_buckets s ! j)"

lemma hs_invD:
  assumes "hs_inv P s L"
  shows "hs_heap P s L" "L (Priv t) = priv (hs_pcs s t)" "pc_ok P s L (hs_pcs s t)"
    "crit (hs_pcs s t) \<Longrightarrow> crit (hs_pcs s u) \<Longrightarrow> t = u" "crit (hs_pcs s t) \<Longrightarrow> hs_lock s"
    "hs_pcs s t \<noteq> Hs_rest \<Longrightarrow> t \<in> set (hs_threads s)"
  using assms by (auto simp: hs_inv_def)

lemma hs_stepI:
  assumes inv: "hs_inv P s L" and h': "hs_heap P s' L'" and e: "env_steps P s L s' L'"
    and others: "\<And>u. u \<noteq> t \<Longrightarrow> L' (Priv u) = L (Priv u)"
      "\<And>u a. u \<noteq> t \<Longrightarrow> a \<in> set (L (Priv u)) \<Longrightarrow> hs_nodes s' a = hs_nodes s a"
    and pcs: "hs_pcs s' = (hs_pcs s)(t := p')"
    and own: "L' (Priv t) = priv p'" "pc_ok P s' L' p'"
    and lock: "crit p' \<Longrightarrow> hs_lock s' \<and> (crit (hs_pcs s t) \<or> \<not> hs_lock s)"
    and calm: "calm s s' \<or> crit (hs_pcs s t) \<or> \<not> hs_lock s"
    and thr: "hs_threads s' = List.insert t (hs_threads s)"
  shows "hs_inv P s' L'"
proof -
  note d = hs_invD [OF inv]
  have only: "calm s s'" "u \<noteq> t" if "crit (hs_pcs s u)" "u \<noteq> t" for u
    using that calm d(4) [of u t] d(5) [of u] by auto
  have ok: "pc_ok P s' L' (hs_pcs s u)" if u: "u \<noteq> t" for u
  proof (rule pc_ok_stable [OF _ d(1) h' d(3)])
    show "rely P s L s' L' (set (priv (hs_pcs s u))) (crit (hs_pcs s u))"
      using e others(2) [OF u] only [of u] u unfolding rely_def d(2) [symmetric] calm_def by blast
  qed
  have lk: "hs_lock s'" if "crit (hs_pcs s u)" "u \<noteq> t" for u
    using only(1) [OF that] d(5) [OF that(1)] by (simp add: calm_def)
  have un: "\<not> (crit p' \<and> crit (hs_pcs s u))" if "u \<noteq> t" for u
    using lock d(4) [of t u] d(5) [of u] that by auto
  have rs: "hs_pcs s u = Hs_rest" if "u \<notin> set (hs_threads s)" for u using d(6) [of u] that by blast
  show ?thesis
    unfolding hs_inv_def pcs
    using h' own others(1) ok lk un lock d rs by (auto simp: thr)
qed

lemma hs_localI:
  assumes inv: "hs_inv P s L"
    and same: "hs_nodes s' = hs_nodes s" "hs_buckets s' = hs_buckets s" "hs_shards s' = hs_shards s" "hs_size s' = hs_size s"
    and pcs: "hs_pcs s' = (hs_pcs s)(t := p')" and own: "priv p' = priv (hs_pcs s t)" "pc_ok P s L p'"
    and lock: "crit p' \<Longrightarrow> hs_lock s' \<and> (crit (hs_pcs s t) \<or> \<not> hs_lock s)"
    and calm: "hs_lock s' = hs_lock s \<or> crit (hs_pcs s t) \<or> \<not> hs_lock s"
    and thr: "hs_threads s' = List.insert t (hs_threads s)"
  shows "hs_inv P s' L"
proof -
  have sm: "pub s' = pub s" "lev s' = lev s" "link s' = link s" "val s' = val s" "settled P s' = settled P s"
    using same by (auto simp: pub_def lev_def link_def val_def settled_def fun_eq_iff)
  have h: "hs_heap P s' L"
    using hs_invD(1) [OF inv]
    unfolding hs_heap_def geometry_def arena_def chains_def spares_def tags_def keys_def tree_def same sm .
  have e: "env_steps P s L s' L" unfolding env_steps_def same sm by auto
  have "pc_ok P s' L p'"
    by (rule pc_ok_stable [OF _ hs_invD(1) [OF inv] h own(2)]) (use e same in \<open>auto simp: rely_def\<close>)
  then show ?thesis
    by (intro hs_stepI [OF inv h e _ _ pcs _ _ lock _ thr])
       (use same own hs_invD(2) [OF inv] calm in \<open>auto simp: calm_def\<close>)
qed

section \<open>Congruence\<close>

lemma chain_parts_cong:
  assumes "hs_buckets s' = hs_buckets s" "hs_size s' = hs_size s" "\<And>j. L' (Chain j) = L (Chain j)"
    and n: "\<And>j a. a \<in> set (L (Chain j)) \<Longrightarrow> hs_nodes s' a = hs_nodes s a"
  shows "chains P s' L' = chains P s L" "keys P s' L' = keys P s L" "tree P s' L' = tree P s L"
proof -
  have sm: "pub s' = pub s" "lev s' = lev s" using assms by (auto simp: pub_def lev_def fun_eq_iff)
  have v: "val s' a = val s a" "link s' a = link s a" "settled P s' a = settled P s a" if "a \<in> set (L (Chain j))" for a j
    using n [OF that] by (auto simp: val_def link_def settled_def)
  have l: "linked (hs_nodes s') w (L (Chain j)) e = linked (hs_nodes s) w (L (Chain j)) e" for w j e
    by (rule linked_cong) (rule n)
  show "chains P s' L' = chains P s L" unfolding chains_def sm assms(1,2,3) l ..
  show "keys P s' L' = keys P s L" unfolding keys_def assms(3) using v by (metis (no_types, lifting))
  show "tree P s' L' = tree P s L" unfolding tree_def assms(3) sm
    by (intro conj_cong refl all_cong ball_cong imp_cong) (simp_all add: v)
qed

lemma env_refl_parts:
  assumes "hs_buckets s' = hs_buckets s" "hs_size s' = hs_size s" "length (hs_shards s') = length (hs_shards s)"
    "dom (hs_nodes s) \<subseteq> dom (hs_nodes s')" "\<And>j. L' (Chain j) = L (Chain j)"
    and n: "\<And>j a. a \<in> set (L (Chain j)) \<Longrightarrow> hs_nodes s' a = hs_nodes s a"
    and f: "\<And>i. set (L' (Free i)) \<subseteq> set (L (Free i))" "\<And>i a. a \<in> set (L' (Free i)) \<Longrightarrow> hs_nodes s' a = hs_nodes s a"
  shows "env_steps P s L s' L'"
proof -
  have sm: "pub s' = pub s" "lev s' = lev s" using assms by (auto simp: pub_def lev_def fun_eq_iff)
  have v: "val s' a = val s a" "link s' a = link s a" "settled P s' a = settled P s a" if "a \<in> set (L (Chain j))" for a j
    using n [OF that] by (auto simp: val_def link_def settled_def)
  have w: "link s' a = link s a" if "a \<in> set (L' (Free i))" for a i using f(2) [OF that] by (simp add: link_def)
  show ?thesis unfolding env_steps_def sm assms(2,3,5) using assms(4) v w f(1) by auto
qed

text \<open>Writing a node that a thread holds.\<close>

lemma write_private:
  assumes h: "hs_heap P s L" and a: "a \<in> set (L (Priv t))" and n: "addr_of (nd_link n) = nd_link n"
    and s': "s' = s\<lparr>hs_nodes := (hs_nodes s)(a \<mapsto> n)\<rparr>"
  shows "hs_heap P s' L \<and> env_steps P s L s' L"
proof
  have other: "hs_nodes s' b = hs_nodes s b" if "b \<in> set (L p)" "p \<noteq> Priv t" for b p
    using ownedD(2) [OF heapD(3) [OF h] a, of p] that s' by auto
  have same: "hs_buckets s' = hs_buckets s" "hs_size s' = hs_size s" "hs_shards s' = hs_shards s" using s' by simp_all
  have ad: "a \<in> dom (hs_nodes s)" using ownedD(3) [OF heapD(3) [OF h] a] .
  then have dm: "dom (hs_nodes s') = dom (hs_nodes s)" using s' by auto
  note cp = chain_parts_cong [of s' s L L, OF same(1,2) refl other, simplified]
  have sp: "spares s' L"
  proof -
    have l: "linked (hs_nodes s') w (L p) 0 = linked (hs_nodes s) w (L p) 0" if "p \<noteq> Priv t" for w p
      by (rule linked_cong) (use other that in blast)
    have b: "addr_of (link s' b) = link s' b" if "b \<in> dom (hs_nodes s)" "\<forall>j. b \<notin> set (L (Chain j))" for b
      using that heapD(5) [OF h] n by (cases "b = a") (auto simp: spares_def link_def s')
    show ?thesis using heapD(5) [OF h] b unfolding spares_def dm same by (simp add: l)
  qed
  have tg: "tags P s'"
    using heapD(6) [OF h] n by (auto simp: tags_def link_def s')
  show "hs_heap P s' L"
    using h cp sp tg dm same unfolding hs_heap_def by (auto simp: geometry_def arena_def)
  show "env_steps P s L s' L"
    by (rule env_refl_parts) (use same dm other in auto)
qed

lemma geometry_shards:
  "hs_size s' = hs_size s \<Longrightarrow> hs_buckets s' = hs_buckets s \<Longrightarrow> length (hs_shards s') = length (hs_shards s) \<Longrightarrow>
   geometry P s' = geometry P s"
  by (simp add: geometry_def)

text \<open>Moving addresses between places.\<close>

lemma owned_move:
  assumes o: "owned L A" and ne: "p \<noteq> q"
    and p: "L p = xs @ ys"
  shows "owned (L(p := ys, q := xs @ L q)) A"
proof -
  have d: "distinct (xs @ ys)" using ownedD(1) [OF o, of p] p by simp
  have dq: "set (xs @ ys) \<inter> set (L q) = {}" using ownedD(2) [OF o, of _ p q] p ne by auto
  have other: "set (L r) \<inter> set (xs @ ys) = {}" "set (L r) \<inter> set (L q) = {}" if "r \<noteq> p" "r \<noteq> q" for r
    using ownedD(2) [OF o, of _ r p] ownedD(2) [OF o, of _ r q] that p by auto
  have un: "(\<Union>r. set ((L(p := ys, q := xs @ L q)) r)) = (\<Union>r. set (L r))"
  proof (rule set_eqI)
    fix a
    have "a \<in> (\<Union>r. set (L r)) \<longleftrightarrow> a \<in> set (L p) \<or> a \<in> set (L q) \<or> (\<exists>r. r \<noteq> p \<and> r \<noteq> q \<and> a \<in> set (L r))" by auto
    also have "\<dots> \<longleftrightarrow> a \<in> set ys \<or> a \<in> set (xs @ L q) \<or> (\<exists>r. r \<noteq> p \<and> r \<noteq> q \<and> a \<in> set (L r))" using p by auto
    also have "\<dots> \<longleftrightarrow> a \<in> (\<Union>r. set ((L(p := ys, q := xs @ L q)) r))" using ne by (auto split: if_splits)
    finally show "a \<in> (\<Union>r. set ((L(p := ys, q := xs @ L q)) r)) \<longleftrightarrow> a \<in> (\<Union>r. set (L r))" by simp
  qed
  show ?thesis
    unfolding owned_def
  proof (intro conjI allI impI)
    show "distinct ((L(p := ys, q := xs @ L q)) r)" for r using d dq ownedD(1) [OF o] by auto
    show "(\<Union>r. set ((L(p := ys, q := xs @ L q)) r)) = A" using un o by (simp add: owned_def)
    have mem: "if a \<in> set xs then r = q else a \<in> set (L r)" if "a \<in> set ((L(p := ys, q := xs @ L q)) r)" for a r
    proof (cases "r = p \<or> r = q")
      case True
      then show ?thesis using that d p ne by auto
    next
      case False
      then show ?thesis using that other(1) [of r] by auto
    qed
    fix r r' a assume "a \<in> set ((L(p := ys, q := xs @ L q)) r)" "a \<in> set ((L(p := ys, q := xs @ L q)) r')"
    then have m: "if a \<in> set xs then r = q else a \<in> set (L r)" "if a \<in> set xs then r' = q else a \<in> set (L r')"
      using mem by blast+
    show "r = r'"
    proof (cases "a \<in> set xs")
      case True
      then show ?thesis using m by simp
    next
      case False
      then show ?thesis using m ownedD(2) [OF o, of a r r'] by simp
    qed
  qed
qed

section \<open>Allocation and limbo\<close>

lemma spares_move:
  assumes sp: "spares s L" and same: "hs_nodes s' = hs_nodes s" "length (hs_shards s') = length (hs_shards s)"
    and chain: "\<And>j. L' (Chain j) = L (Chain j)"
    and other: "\<And>k. k \<noteq> i \<Longrightarrow> L' (Free k) = L (Free k) \<and> L' (Limbo k) = L (Limbo k) \<and> hs_shards s' ! k = hs_shards s ! k"
    and i: "i < length (hs_shards s)"
    and new: "linked (hs_nodes s) (free_addr_of (sh_free (hs_shards s' ! i))) (L' (Free i)) 0"
      "linked (hs_nodes s) (sh_limbo (hs_shards s' ! i)) (L' (Limbo i)) 0"
      "addr_of (sh_limbo (hs_shards s' ! i)) = sh_limbo (hs_shards s' ! i)"
  shows "spares s' L'"
proof -
  have lk: "link s' = link s" using same by (simp add: link_def fun_eq_iff)
  have "if k < length (hs_shards s')
       then linked (hs_nodes s') (free_addr_of (sh_free (hs_shards s' ! k))) (L' (Free k)) 0 \<and>
            linked (hs_nodes s') (sh_limbo (hs_shards s' ! k)) (L' (Limbo k)) 0 \<and>
            addr_of (sh_limbo (hs_shards s' ! k)) = sh_limbo (hs_shards s' ! k)
       else L' (Free k) = [] \<and> L' (Limbo k) = []" for k
    using sp new i other [of k] unfolding spares_def same by (cases "k = i") auto
  then show ?thesis using sp unfolding spares_def chain lk same(1) by blast
qed

lemma arena_shard:
  assumes "arena s" and "hs_nodes s' = hs_nodes s" and "map sh_nodes (hs_shards s') = map sh_nodes (hs_shards s)"
  shows "arena s'"
proof -
  have "(\<Union>sh\<in>set (hs_shards s'). set (sh_nodes sh)) = \<Union> (set (map set (map sh_nodes (hs_shards s'))))" by simp
  also have "\<dots> = (\<Union>sh\<in>set (hs_shards s). set (sh_nodes sh))" unfolding assms(3) by simp
  finally show ?thesis using assms by (simp add: arena_def)
qed

lemma map_update_same: "i < length xs \<Longrightarrow> f x = f (xs ! i) \<Longrightarrow> map f (xs[i := x]) = map f xs"
  by (rule nth_equalityI) (auto simp: nth_list_update)

lemma sparesD:
  assumes "spares s L"
  shows "i < length (hs_shards s) \<Longrightarrow> linked (hs_nodes s) (free_addr_of (sh_free (hs_shards s ! i))) (L (Free i)) 0"
    "i < length (hs_shards s) \<Longrightarrow> linked (hs_nodes s) (sh_limbo (hs_shards s ! i)) (L (Limbo i)) 0"
    "i < length (hs_shards s) \<Longrightarrow> addr_of (sh_limbo (hs_shards s ! i)) = sh_limbo (hs_shards s ! i)"
    "\<not> i < length (hs_shards s) \<Longrightarrow> L (Free i) = [] \<and> L (Limbo i) = []"
    "hs_nodes s a \<noteq> None \<Longrightarrow> (\<And>j. a \<notin> set (L (Chain j))) \<Longrightarrow> addr_of (link s a) = link s a"
proof -
  have *: "if i < length (hs_shards s)
       then linked (hs_nodes s) (free_addr_of (sh_free (hs_shards s ! i))) (L (Free i)) 0 \<and>
            linked (hs_nodes s) (sh_limbo (hs_shards s ! i)) (L (Limbo i)) 0 \<and>
            addr_of (sh_limbo (hs_shards s ! i)) = sh_limbo (hs_shards s ! i)
       else L (Free i) = [] \<and> L (Limbo i) = []"
    using assms unfolding spares_def by blast
  show "i < length (hs_shards s) \<Longrightarrow> linked (hs_nodes s) (free_addr_of (sh_free (hs_shards s ! i))) (L (Free i)) 0"
    "i < length (hs_shards s) \<Longrightarrow> linked (hs_nodes s) (sh_limbo (hs_shards s ! i)) (L (Limbo i)) 0"
    "i < length (hs_shards s) \<Longrightarrow> addr_of (sh_limbo (hs_shards s ! i)) = sh_limbo (hs_shards s ! i)"
    "\<not> i < length (hs_shards s) \<Longrightarrow> L (Free i) = [] \<and> L (Limbo i) = []"
    using * by simp_all
  show "addr_of (link s a) = link s a" if "hs_nodes s a \<noteq> None" "\<And>j. a \<notin> set (L (Chain j))"
    using assms that unfolding spares_def by blast
qed

lemma bare_link:
  assumes h: "hs_heap P s L" and a: "a \<in> set (L p)" and "\<And>j. p \<noteq> Chain j"
  shows "addr_of (link s a) = link s a"
proof (rule sparesD(5) [OF heapD(5) [OF h]])
  show "hs_nodes s a \<noteq> None" using ownedD(3) [OF heapD(3) [OF h] a] by blast
  show "a \<notin> set (L (Chain j))" for j using ownedD(2) [OF heapD(3) [OF h] a, of "Chain j"] assms(3) by blast
qed

text \<open>A change of one shard's list heads.\<close>

lemma shard_heap:
  assumes h: "hs_heap P s L" and i: "i < length (hs_shards s)"
    and s': "s' = set_shard i sh s" and sh: "sh_nodes sh = sh_nodes (hs_shards s ! i)"
    and o: "owned L' (dom (hs_nodes s))" and chain: "\<And>j. L' (Chain j) = L (Chain j)"
    and other: "\<And>k. k \<noteq> i \<Longrightarrow> L' (Free k) = L (Free k) \<and> L' (Limbo k) = L (Limbo k)"
    and new: "linked (hs_nodes s) (free_addr_of (sh_free sh)) (L' (Free i)) 0"
      "linked (hs_nodes s) (sh_limbo sh) (L' (Limbo i)) 0" "addr_of (sh_limbo sh) = sh_limbo sh"
  shows "hs_heap P s' L'" "set (L' (Free i)) \<subseteq> set (L (Free i)) \<Longrightarrow> env_steps P s L s' L'"
proof -
  have same: "hs_nodes s' = hs_nodes s" "hs_buckets s' = hs_buckets s" "hs_size s' = hs_size s"
    "length (hs_shards s') = length (hs_shards s)" using s' by (simp_all add: set_shard_def)
  have nth: "hs_shards s' ! i = sh" "k \<noteq> i \<Longrightarrow> hs_shards s' ! k = hs_shards s ! k" for k
    using s' i by (simp_all add: set_shard_def)
  have tg: "tags P s' = tags P s" by (simp add: tags_def link_def same)
  note cp = chain_parts_cong [of s' s L' L, OF same(2,3) chain]
  have "arena s'" by (rule arena_shard [OF heapD(2) [OF h] same(1)]) (use i sh s' in \<open>simp add: set_shard_def map_update_same\<close>)
  moreover have "spares s' L'"
    by (rule spares_move [OF heapD(5) [OF h] same(1,4) chain _ i]) (use other nth new in auto)
  moreover have "geometry P s'" using geometry_shards [OF same(3,2,4)] heapD(1) [OF h] by simp
  ultimately show "hs_heap P s' L'"
    using h o tg cp same(1) unfolding hs_heap_def by simp
  assume "set (L' (Free i)) \<subseteq> set (L (Free i))"
  then have fs: "set (L' (Free k)) \<subseteq> set (L (Free k))" for k using other by (cases "k = i") auto
  show "env_steps P s L s' L'"
    by (rule env_refl_parts) (use same chain fs in auto)
qed

lemma shard_step:
  assumes h: "hs_heap P s L" and i: "i < length (hs_shards s)"
    and s': "s' = set_shard i sh s" and sh: "sh_nodes sh = sh_nodes (hs_shards s ! i)"
    and o: "owned L' (dom (hs_nodes s))" and chain: "\<And>j. L' (Chain j) = L (Chain j)"
    and other: "\<And>k. k \<noteq> i \<Longrightarrow> L' (Free k) = L (Free k) \<and> L' (Limbo k) = L (Limbo k)"
    and new: "linked (hs_nodes s) (free_addr_of (sh_free sh)) (L' (Free i)) 0"
      "linked (hs_nodes s) (sh_limbo sh) (L' (Limbo i)) 0" "addr_of (sh_limbo sh) = sh_limbo sh"
    and sub: "set (L' (Free i)) \<subseteq> set (L (Free i))"
  shows "hs_heap P s' L' \<and> env_steps P s L s' L'"
  using shard_heap [OF h i s' sh o chain other new] sub by blast

text \<open>A pop from a free list, and a push onto a limbo list.\<close>

lemma pop_free:
  assumes h: "hs_heap P s L" and i: "i < length (hs_shards s)" and f: "L (Free i) = a # xs"
    and s': "s' = set_shard i ((hs_shards s ! i)\<lparr>sh_free := free_word (link s a) c\<rparr>) s"
    and L': "L' = L(Free i := xs, Priv t := a # L (Priv t))"
  shows "hs_heap P s' L' \<and> env_steps P s L s' L'"
proof (rule shard_step [OF h i s'])
  note sp = sparesD [OF heapD(5) [OF h]]
  have "linked (hs_nodes s) (free_addr_of (sh_free (hs_shards s ! i))) (a # xs) 0" using sp(1) [OF i] unfolding f .
  then have "linked (hs_nodes s) (link s a) xs 0" by (auto simp: link_def simp del: addr_words)
  moreover have "addr_of (link s a) = link s a" by (rule bare_link [OF h, of a "Free i"]) (use f in auto)
  ultimately show "linked (hs_nodes s) (free_addr_of (sh_free ((hs_shards s ! i)\<lparr>sh_free := free_word (link s a) c\<rparr>))) (L' (Free i)) 0"
    using L' by simp
  have "owned (L(Free i := xs, Priv t := [a] @ L (Priv t))) (dom (hs_nodes s))"
    by (rule owned_move [OF heapD(3) [OF h]]) (use f in auto)
  then show "owned L' (dom (hs_nodes s))" using L' by simp
qed (use sparesD(2,3) [OF heapD(5) [OF h] i] L' f in auto)

lemma push_limbo_heap:
  assumes h: "hs_heap P s L" and i: "i < length (hs_shards s)" and pv: "L (Priv t) = xs @ ys"
    and sg: "sub_segment s xs" and lk: "link s (last xs) = sh_limbo (hs_shards s ! i)"
    and s': "s' = set_shard i ((hs_shards s ! i)\<lparr>sh_limbo := hd xs\<rparr>) s"
    and L': "L' = L(Priv t := ys, Limbo i := xs @ L (Limbo i))"
  shows "hs_heap P s' L' \<and> env_steps P s L s' L'"
proof (rule shard_step [OF h i s'])
  note sp = sparesD [OF heapD(5) [OF h]]
  have ne: "xs \<noteq> []" and l: "linked (hs_nodes s) (hd xs) (butlast xs) (last xs)" using sg by (auto simp: sub_segment_def)
  have la: "last xs \<in> set (L (Priv t))" "hd xs \<in> set (L (Priv t))" using ne pv by auto
  obtain n where n: "hs_nodes s (last xs) = Some n" "nd_link n = link s (last xs)" using place_node [OF h la(1)] by metis
  have "linked (hs_nodes s) (last xs) (last xs # L (Limbo i)) 0"
    using n lk sp(2) [OF i] place_addr [OF h la(1)] by simp
  then have "linked (hs_nodes s) (hd xs) (butlast xs @ last xs # L (Limbo i)) 0"
    unfolding linked_append using l place_addr [OF h la(1)] by (intro exI [of _ "last xs"]) simp
  moreover have "butlast xs @ last xs # L (Limbo i) = xs @ L (Limbo i)" using ne by simp
  ultimately show "linked (hs_nodes s) (sh_limbo ((hs_shards s ! i)\<lparr>sh_limbo := hd xs\<rparr>)) (L' (Limbo i)) 0"
    using L' by simp
  show "addr_of (sh_limbo ((hs_shards s ! i)\<lparr>sh_limbo := hd xs\<rparr>)) = sh_limbo ((hs_shards s ! i)\<lparr>sh_limbo := hd xs\<rparr>)"
    using place_addr [OF h la(2)] by simp
  show "owned L' (dom (hs_nodes s))" unfolding L' by (rule owned_move [OF heapD(3) [OF h] _ pv]) simp
qed (use sparesD(1) [OF heapD(5) [OF h] i] L' in auto)

text \<open>An append to the arena.\<close>

lemma append_node:
  assumes h: "hs_heap P s L" and i: "i < length (hs_shards s)" and a: "node_addr a" "hs_nodes s a = None"
    and n: "addr_of (nd_link n) = nd_link n"
    and s': "s' = set_shard i ((hs_shards s ! i)\<lparr>sh_nodes := sh_nodes (hs_shards s ! i) @ [a]\<rparr>)
               (s\<lparr>hs_nodes := (hs_nodes s)(a \<mapsto> n)\<rparr>)"
    and L': "L' = L(Priv t := a # L (Priv t))"
  shows "hs_heap P s' L' \<and> env_steps P s L s' L'"
proof
  have same: "hs_buckets s' = hs_buckets s" "hs_size s' = hs_size s" "hs_nodes s' = (hs_nodes s)(a \<mapsto> n)"
    "length (hs_shards s') = length (hs_shards s)" using s' by (simp_all add: set_shard_def)
  have fresh: "a \<notin> set (L p)" for p using ownedD(3) [OF heapD(3) [OF h], of a p] a(2) by auto
  have old: "b \<in> set (L p) \<Longrightarrow> hs_nodes s' b = hs_nodes s b" for b p using fresh [of p] same(3) by auto
  have chain: "L' (Chain j) = L (Chain j)" "L' (Free j) = L (Free j)" "L' (Limbo j) = L (Limbo j)" for j using L' by simp_all
  note cp = chain_parts_cong [of s' s L' L, OF same(1,2) chain(1) old]
  have lk: "linked (hs_nodes s') w (L p) 0 = linked (hs_nodes s) w (L p) 0" for w p
    by (rule linked_cong) (rule old)
  have ow: "owned L' (dom (hs_nodes s'))"
  proof -
    have d: "dom (hs_nodes s') = insert a (dom (hs_nodes s))" using same(3) by simp
    have r: "set (L' r) = set (L r) \<union> (if r = Priv t then {a} else {})" for r using L' by auto
    show ?thesis unfolding owned_def
    proof (intro conjI allI impI)
      show "distinct (L' r)" for r using ownedD(1) [OF heapD(3) [OF h], of r] fresh [of r] L' by (cases "r = Priv t") simp_all
      show "(\<Union>r. set (L' r)) = dom (hs_nodes s')"
      proof -
        have "(\<Union>r. set (L' r)) = (\<Union>r. set (L r)) \<union> {a}" unfolding r by (auto split: if_splits)
        then show ?thesis using heapD(3) [OF h] d unfolding owned_def by simp
      qed
      show "r = r'" if "b \<in> set (L' r)" "b \<in> set (L' r')" for r r' b
        using that ownedD(2) [OF heapD(3) [OF h], of b r r'] fresh [of r] fresh [of r'] unfolding r
        by (auto split: if_splits)
    qed
  qed
  note sp = sparesD [OF heapD(5) [OF h]]
  have nth: "hs_shards s' ! i = (hs_shards s ! i)\<lparr>sh_nodes := sh_nodes (hs_shards s ! i) @ [a]\<rparr>"
    "k \<noteq> i \<Longrightarrow> hs_shards s' ! k = hs_shards s ! k" for k
    using s' i by (simp_all add: set_shard_def)
  have heads: "sh_free (hs_shards s' ! k) = sh_free (hs_shards s ! k)" "sh_limbo (hs_shards s' ! k) = sh_limbo (hs_shards s ! k)" for k
    using nth by (cases "k = i"; simp)+
  have "spares s' L'"
  proof -
    have b: "addr_of (link s' b) = link s' b" if "b \<in> dom (hs_nodes s')" "\<forall>j. b \<notin> set (L (Chain j))" for b
      using that sp(5) [of b] n same(3) by (cases "b = a") (auto simp: link_def)
    show ?thesis unfolding spares_def chain lk same(4) heads using b sp(1-4) by simp
  qed
  moreover have "tags P s'"
    using heapD(6) [OF h] n by (auto simp: tags_def link_def same)
  moreover have "geometry P s'" using geometry_shards [OF same(2,1,4)] heapD(1) [OF h] by simp
  moreover have "arena s'"
  proof -
    let ?f = "sh_nodes" and ?xs = "hs_shards s"
    obtain us v vs where sh: "?xs = us @ v # vs" "length us = i" "?xs ! i = v"
      using id_take_nth_drop [OF i] i by (metis length_take min.absorb4)
    have new: "hs_shards s' = us @ v\<lparr>sh_nodes := sh_nodes v @ [a]\<rparr> # vs"
      using s' sh by (simp add: set_shard_def list_update_append)
    have ar: "dom (hs_nodes s) = (\<Union>sh\<in>set ?xs. set (sh_nodes sh))" "distinct (concat (map sh_nodes ?xs))"
      "\<forall>a\<in>dom (hs_nodes s). node_addr a" using heapD(2) [OF h] by (auto simp: arena_def)
    have "a \<notin> (\<Union>sh\<in>set ?xs. set (sh_nodes sh))" using ar(1) a(2) by blast
    then have "distinct (concat (map sh_nodes (hs_shards s')))" using ar(2) unfolding new sh(1) by auto
    moreover have "dom (hs_nodes s') = (\<Union>sh\<in>set (hs_shards s'). set (sh_nodes sh))"
      using ar(1) unfolding new sh(1) same(3) by auto
    moreover have "\<forall>b\<in>dom (hs_nodes s'). node_addr b" using ar(3) a(1) same(3) by auto
    ultimately show ?thesis unfolding arena_def by blast
  qed
  ultimately show "hs_heap P s' L'" using h ow cp unfolding hs_heap_def by simp
  show "env_steps P s L s' L'"
    by (rule env_refl_parts) (use same chain old in auto)
qed

section \<open>Chains\<close>

lemma keysD:
  assumes "keys P s L" and "a \<in> set (L (Chain j))"
  shows "hv P (val s a) mod own P j = j"
    "b \<in> set (L (Chain j)) \<Longrightarrow> val s a = val s b \<Longrightarrow> \<not> is_marked (link s a) \<Longrightarrow> \<not> is_marked (link s b) \<Longrightarrow> a = b"
  using assms unfolding keys_def by blast+

lemma treeD:
  assumes "tree P s L"
  shows "j < cap P \<Longrightarrow> pub s j"
    "pub s c \<Longrightarrow> cap P \<le> c \<Longrightarrow> pub s (parent c)"
    "pub s c \<Longrightarrow> cap P \<le> c \<Longrightarrow> bit_width_nat c \<le> lev s (parent c)"
    "pub s c \<Longrightarrow> cap P \<le> c \<Longrightarrow> a \<in> set (L (Chain (parent c))) \<Longrightarrow> maps (hv P (val s a)) c \<Longrightarrow> is_marked (link s a) \<or> settled P s a"
  using assms unfolding tree_def by blast+

text \<open>A tombstone or a freeze: the tag bits of a published link.\<close>

lemma set_link_nodes:
  assumes "hs_nodes s a = Some n"
  shows "hs_nodes (set_link a w s) = (hs_nodes s)(a \<mapsto> n\<lparr>nd_link := w\<rparr>)" "hs_buckets (set_link a w s) = hs_buckets s"
    "hs_size (set_link a w s) = hs_size s" "hs_shards (set_link a w s) = hs_shards s" "hs_pcs (set_link a w s) = hs_pcs s"
    "link (set_link a w s) b = (if b = a then w else link s b)" "val (set_link a w s) b = val s b"
    "hs_lock (set_link a w s) = hs_lock s" "hs_threads (set_link a w s) = hs_threads s"
  using assms by (auto simp: set_link_def link_def val_def)

lemma tag_chain:
  assumes h: "hs_heap P s L" and a: "a \<in> set (L (Chain j))" and w: "addr_of w = addr_of (link s a)"
    and tg: "\<not> (is_marked w \<and> is_frozen w)" "del P"
    and up: "is_marked (link s a) \<Longrightarrow> is_marked w" "\<not> is_marked (link s a) \<Longrightarrow> is_frozen (link s a) \<Longrightarrow> \<not> is_marked w \<and> is_frozen w"
    and gain: "is_marked w \<or> is_frozen w" and s': "s' = set_link a w s"
  shows "hs_heap P s' L \<and> env_steps P s L s' L"
proof
  obtain n where n: "hs_nodes s a = Some n" "nd_link n = link s a" "nd_value n = val s a" using place_node [OF h a] by metis
  note nd = set_link_nodes [OF n(1), of w, folded s']
  have dm: "dom (hs_nodes s') = dom (hs_nodes s)" using n(1) nd(1) by auto
  have pl: "pub s' = pub s" "lev s' = lev s" using nd(2,3) by (auto simp: pub_def lev_def fun_eq_iff)
  have mk: "is_marked (link s b) \<Longrightarrow> is_marked (link s' b)" for b using up(1) nd(6) by (cases "b = a") simp_all
  have st: "settled P s b \<Longrightarrow> settled P s' b" for b using up(2) nd(6) tg(2) by (auto simp: settled_def)
  have lk: "linked (hs_nodes s') v xs e" if "linked (hs_nodes s) v xs e" for v xs e
    by (rule linked_links [OF _ that refl]) (use nd(1) n w in auto)
  have "geometry P s'" using heapD(1) [OF h] unfolding geometry_def nd(2-4) .
  moreover have "arena s'" using heapD(2) [OF h] unfolding arena_def dm nd(4) .
  moreover have "owned L (dom (hs_nodes s'))" using heapD(3) [OF h] unfolding dm .
  moreover have "chains P s' L"
    using heapD(4) [OF h] lk unfolding chains_def pl nd(2,3) by (auto split: if_splits)
  moreover have "spares s' L"
  proof -
    note sp = sparesD [OF heapD(5) [OF h]]
    have "addr_of (link s' b) = link s' b" if "b \<in> dom (hs_nodes s)" "\<forall>j. b \<notin> set (L (Chain j))" for b
      using sp(5) [of b] that a nd(6) by auto
    then show ?thesis unfolding spares_def nd(4) dm using sp(1-4) lk by simp
  qed
  moreover have "tags P s'" using heapD(6) [OF h] tg nd(1,6) n(1) unfolding tags_def by (auto split: if_splits)
  moreover have "keys P s' L"
    using keysD [OF heapD(7) [OF h]] mk unfolding keys_def nd(7) by blast
  moreover have "tree P s' L"
    using treeD [OF heapD(8) [OF h]] mk st unfolding tree_def nd(7) pl by blast
  ultimately show "hs_heap P s' L" unfolding hs_heap_def by blast
  have "link s' b = link s b" if "b \<in> set (L (Free i))" for b i
    using ownedD(2) [OF heapD(3) [OF h] a, of "Free i"] that nd(6) by auto
  then show "env_steps P s L s' L"
    unfolding env_steps_def pl nd(3,4,7) dm using mk st w gain nd(6) by auto
qed

text \<open>Changes of a bucket head.\<close>

lemma set_head_simps [simp]:
  "hs_nodes (set_head j w s) = hs_nodes s" "hs_shards (set_head j w s) = hs_shards s" "hs_size (set_head j w s) = hs_size s"
  "hs_buckets (set_head j w s) = (hs_buckets s)[j := w]" "link (set_head j w s) = link s" "val (set_head j w s) = val s"
  "settled P (set_head j w s) = settled P s" "tags P (set_head j w s) = tags P s" "hs_pcs (set_head j w s) = hs_pcs s"
  "hs_lock (set_head j w s) = hs_lock s" "hs_threads (set_head j w s) = hs_threads s"
  by (auto simp: set_head_def link_def val_def settled_def tags_def fun_eq_iff)

lemma size_le_buckets: "hs_heap P s L \<Longrightarrow> hs_size s \<le> length (hs_buckets s)"
  by (drule heapD(1)) (simp add: geometry_def)

lemma head_parts:
  assumes h: "hs_heap P s L" and j: "j < hs_size s" and s': "s' = set_head j w s"
    and w: "addr_of w \<noteq> UNINITIALIZED" "linked (hs_nodes s) w (L' (Chain j)) 0"
    and o: "owned L' (dom (hs_nodes s))"
    and other: "\<And>i. i \<noteq> j \<Longrightarrow> L' (Chain i) = L (Chain i)" "\<And>i. L' (Free i) = L (Free i)" "\<And>i. L' (Limbo i) = L (Limbo i)"
    and grow: "set (L (Chain j)) \<subseteq> set (L' (Chain j))"
    and kt: "keys P s' L'" "tree P s' L'"
  shows "hs_heap P s' L'"
proof -
  have len: "j < length (hs_buckets s)" using j size_le_buckets [OF h] by simp
  have nth: "hs_buckets s' ! i = (if i = j then w else hs_buckets s ! i)" for i using s' len by simp
  have pb: "pub s' i \<longleftrightarrow> i = j \<or> pub s i" for i using w(1) j s' nth [of i] by (auto simp: pub_def)
  have "geometry P s'" using heapD(1) [OF h] s' by (simp add: geometry_def)
  moreover have "arena s'" using heapD(2) [OF h] s' by (simp add: arena_def)
  moreover have "chains P s' L'"
  proof -
    have "if pub s' i then linked (hs_nodes s') (hs_buckets s' ! i) (L' (Chain i)) 0
       else L' (Chain i) = [] \<and> (i < hs_size s' \<longrightarrow> hs_buckets s' ! i = UNINITIALIZED)" for i
      using heapD(4) [OF h] w(2) other(1) [of i] pb [of i] nth [of i] s' unfolding chains_def by (cases "i = j") auto
    then show ?thesis unfolding chains_def by blast
  qed
  moreover have "spares s' L'"
  proof -
    note sp = sparesD [OF heapD(5) [OF h]]
    have "addr_of (link s b) = link s b" if "b \<in> dom (hs_nodes s)" "\<forall>i. b \<notin> set (L' (Chain i))" for b
    proof (rule sp(5))
      show "hs_nodes s b \<noteq> None" using that(1) by blast
      show "b \<notin> set (L (Chain i))" for i using that(2) [rule_format, of i] grow other(1) [of i] by (cases "i = j") auto
    qed
    then show ?thesis using sp(1-4) s' unfolding spares_def other(2,3) by simp
  qed
  ultimately show ?thesis using o kt heapD(6) [OF h] s' unfolding hs_heap_def by simp
qed

lemma nth_head:
  assumes "hs_heap P s L" and "j < hs_size s"
  shows "hs_buckets (set_head j w s) ! i = (if i = j then w else hs_buckets s ! i)"
    "pub (set_head j w s) i \<longleftrightarrow> (if i = j then addr_of w \<noteq> UNINITIALIZED else pub s i)"
    "lev (set_head j w s) i = (if i = j then level_of w else lev s i)"
proof -
  show n: "hs_buckets (set_head j w s) ! i = (if i = j then w else hs_buckets s ! i)"
    using assms(2) size_le_buckets [OF assms(1)] by simp
  show "pub (set_head j w s) i \<longleftrightarrow> (if i = j then addr_of w \<noteq> UNINITIALIZED else pub s i)"
    using n assms(2) by (simp add: pub_def)
  show "lev (set_head j w s) i = (if i = j then level_of w else lev s i)" unfolding lev_def n by simp
qed

lemma pub_size: "pub s j \<Longrightarrow> j < hs_size s"
  by (simp add: pub_def)

lemma prepend_heap:
  assumes h: "hs_heap P s L" and j: "pub s j" and pv: "L (Priv t) = n # ys"
    and lk: "link s n = addr_of (hs_buckets s ! j)"
    and k1: "hv P (val s n) mod own P j = j"
    and k2: "\<And>a. a \<in> set (L (Chain j)) \<Longrightarrow> val s a = val s n \<Longrightarrow> is_marked (link s a)"
    and k3: "\<And>c. cap P \<le> c \<Longrightarrow> parent c = j \<Longrightarrow> bit_width_nat c \<le> lev s j \<Longrightarrow> \<not> maps (hv P (val s n)) c"
    and s': "s' = set_head j (prepend_word n (hs_buckets s ! j)) s"
    and L': "L' = L(Priv t := ys, Chain j := n # L (Chain j))"
  shows "hs_heap P s' L' \<and> env_steps P s L s' L'"
proof
  have np: "n \<in> set (L (Priv t))" using pv by simp
  obtain nd where nd: "hs_nodes s n = Some nd" "nd_link nd = link s n" "node_addr n" using place_node [OF h np] by metis
  have na: "addr_of n = n" "n \<noteq> UNINITIALIZED" using nd(3) by (simp_all add: node_addr_iff)
  note hd = nth_head [OF h pub_size [OF j], of "prepend_word n (hs_buckets s ! j)", folded s']
  have pb: "pub s' = pub s" using hd(2) na j by (auto simp: fun_eq_iff)
  have lv: "lev s' = lev s" using hd(3) level_words(4) [OF na(1)] by (auto simp: fun_eq_iff lev_def)
  have sm: "link s' = link s" "val s' = val s" "settled P s' = settled P s" "hs_nodes s' = hs_nodes s" using s' by simp_all
  have ch: "L' (Chain i) = (if i = j then n # L (Chain j) else L (Chain i))" for i using L' by simp
  have new: "\<not> is_marked (link s n)" using lk by (simp add: marked_bit hash_bits)
  show "hs_heap P s' L'"
  proof (rule head_parts [OF h pub_size [OF j] s'])
    show "addr_of (prepend_word n (hs_buckets s ! j)) \<noteq> UNINITIALIZED" using na by simp
    have "linked (hs_nodes s) (addr_of (hs_buckets s ! j)) (L (Chain j)) 0"
      using chain_linked [OF h j] by (simp add: linked_addr [of "addr_of (hs_buckets s ! j)" "hs_buckets s ! j"])
    then show "linked (hs_nodes s) (prepend_word n (hs_buckets s ! j)) (L' (Chain j)) 0"
      using nd na lk ch by simp
    have "owned (L(Priv t := ys, Chain j := [n] @ L (Chain j))) (dom (hs_nodes s))"
      by (rule owned_move [OF heapD(3) [OF h]]) (use pv in auto)
    then show "owned L' (dom (hs_nodes s))" using L' by simp
    show "keys P s' L'"
      unfolding keys_def sm ch using keysD [OF heapD(7) [OF h]] k1 k2 by auto
    show "tree P s' L'"
    proof -
      have "is_marked (link s a) \<or> settled P s a"
        if c: "pub s c" "cap P \<le> c" and a: "a \<in> set (L' (Chain (parent c)))" "maps (hv P (val s a)) c" for c a
      proof (cases "a \<in> set (L (Chain (parent c)))")
        case True
        then show ?thesis using treeD(4) [OF heapD(8) [OF h] c] a(2) by blast
      next
        case False
        then have "a = n" "parent c = j" using a(1) ch by (auto split: if_splits)
        then show ?thesis using k3 [OF c(2)] treeD(3) [OF heapD(8) [OF h] c] a(2) by simp
      qed
      then show ?thesis using treeD(1-3) [OF heapD(8) [OF h]] unfolding tree_def pb lv sm by blast
    qed
  qed (use L' in auto)
  have "\<exists>zs. L' (Chain i) = zs @ L (Chain i) \<and>
      (\<forall>a\<in>set zs. \<forall>c. cap P \<le> c \<and> parent c = i \<and> bit_width_nat c \<le> lev s i \<longrightarrow> \<not> maps (hv P (val s a)) c)" for i
    using k3 ch by (cases "i = j") (auto intro!: exI [of _ "[n]"])
  then show "env_steps P s L s' L'" unfolding env_steps_def pb lv sm using s' L' by auto
qed

lemma seal_heap:
  assumes h: "hs_heap P s L" and j: "pub s j" and l: "lev s j \<le> l" "l < 64"
    and s': "s' = set_head j (sealed_word (hs_buckets s ! j) l) s"
  shows "hs_heap P s' L \<and> env_steps P s L s' L"
proof
  note hd = nth_head [OF h pub_size [OF j], of "sealed_word (hs_buckets s ! j) l", folded s']
  have pb: "pub s' = pub s" using hd(2) j by (auto simp: fun_eq_iff pub_def)
  have lv: "lev s i \<le> lev s' i" for i using hd(3) level_words(3) [OF l(2)] l(1) by simp
  have sm: "link s' = link s" "val s' = val s" "settled P s' = settled P s" "hs_nodes s' = hs_nodes s" using s' by simp_all
  show "hs_heap P s' L"
  proof (rule head_parts [OF h pub_size [OF j] s' _ _ heapD(3) [OF h]])
    show "addr_of (sealed_word (hs_buckets s ! j) l) \<noteq> UNINITIALIZED" using j by (simp add: pub_def)
    show "linked (hs_nodes s) (sealed_word (hs_buckets s ! j) l) (L (Chain j)) 0"
      using chain_linked [OF h j] by (simp add: linked_addr [of "sealed_word (hs_buckets s ! j) l" "hs_buckets s ! j"])
    show "keys P s' L" using heapD(7) [OF h] unfolding keys_def sm .
    show "tree P s' L"
      using treeD [OF heapD(8) [OF h]] lv unfolding tree_def pb sm by (meson order_trans)
  qed auto
  show "env_steps P s L s' L" unfolding env_steps_def pb sm using s' lv by auto
qed

lemma publish_heap:
  assumes h: "hs_heap P s L" and j: "in_tree P s j" "\<not> pub s j" and sp: "splitting P s L j (val s ` set subs) 0"
    and so: "subs_ok s subs" and pv: "L (Priv t) = subs @ ys"
    and s': "s' = set_head j (sub_head subs) s"
    and L': "L' = L(Priv t := ys, Chain j := subs)"
  shows "hs_heap P s' L' \<and> env_steps P s L s' L'"
proof
  have js: "j < hs_size s" and jc: "cap P \<le> j" using j(1) by (auto simp: in_tree_def)
  have priv: "a \<in> set subs \<Longrightarrow> a \<in> set (L (Priv t))" for a using pv by simp
  have hdw: "addr_of (sub_head subs) \<noteq> UNINITIALIZED" "addr_of (sub_head subs) = sub_head subs"
  proof -
    have "sub_head subs = 0 \<or> node_addr (sub_head subs)"
    proof (cases subs)
      case (Cons c cs)
      then have "c \<in> set (L (Priv t))" using priv by simp
      then show ?thesis using Cons place_node [OF h, of c "Priv t"] by (metis list.simps(5) sub_head_def)
    qed (simp add: sub_head_def EMPTY_def)
    then show "addr_of (sub_head subs) \<noteq> UNINITIALIZED" "addr_of (sub_head subs) = sub_head subs"
      using addr_uninit(2) by (auto simp: node_addr_iff)
  qed
  note hd = nth_head [OF h js, of "sub_head subs", folded s']
  have pb: "pub s' i \<longleftrightarrow> i = j \<or> pub s i" for i using hd(2) hdw by simp
  have pj: "parent j \<noteq> j"
  proof -
    have "0 < cap P" using heapD(1) [OF h] by (auto simp: geometry_def)
    then have "parent j < j" using jc by (intro parent_less) simp
    then show ?thesis by simp
  qed
  have lv: "lev s' i = lev s i" if "i \<noteq> j" for i using hd(3) that by simp
  have sm: "link s' = link s" "val s' = val s" "settled P s' = settled P s" "hs_nodes s' = hs_nodes s" using s' by simp_all
  have ch: "L' (Chain i) = (if i = j then subs else L (Chain i))" for i using L' by simp
  have L0: "L (Chain j) = []" using heapD(4) [OF h] j(2) by (simp add: chains_def)
  have bare: "\<not> is_marked (link s a)" if "a \<in> set subs" for a using bare_link [OF h priv [OF that]] by simp
  have nochild: "\<not> pub s c" if "cap P \<le> c" "parent c = j" for c using treeD(2) [OF heapD(8) [OF h]] that j(2) by blast
  have own: "own P j = 2 ^ bit_width_nat j" using jc by (simp add: own_def)
  show "hs_heap P s' L'"
  proof (rule head_parts [OF h js s' hdw(1)])
    show "linked (hs_nodes s) (sub_head subs) (L' (Chain j)) 0" using so ch by (simp add: subs_ok_def)
    have "owned (L(Priv t := ys, Chain j := subs @ L (Chain j))) (dom (hs_nodes s))"
      by (rule owned_move [OF heapD(3) [OF h]]) (use pv in auto)
    then show "owned L' (dom (hs_nodes s))" using L' L0 by simp
    show "keys P s' L'"
      unfolding keys_def sm ch
    proof (intro allI ballI conjI impI)
      fix i a assume a: "a \<in> set (if i = j then subs else L (Chain i))"
      show "hv P (val s a) mod own P i = i"
      proof (cases "i = j")
        case True
        then have "val s a \<in> val s ` set subs" using a by simp
        then show ?thesis using splittingD(5) [OF sp] own True by (auto simp: maps_def)
      next
        case False
        then show ?thesis using a keysD(1) [OF heapD(7) [OF h]] by simp
      qed
      fix b assume b: "b \<in> set (if i = j then subs else L (Chain i))" and e: "val s a = val s b \<and> \<not> is_marked (link s a) \<and> \<not> is_marked (link s b)"
      show "a = b"
      proof (cases "i = j")
        case True
        then show ?thesis using a b e so by (auto simp: subs_ok_def distinct_map inj_on_def)
      next
        case False
        then show ?thesis using a b e keysD(2) [OF heapD(7) [OF h]] by simp
      qed
    qed
    show "tree P s' L'"
      unfolding tree_def sm
    proof (intro conjI allI impI ballI)
      show "pub s' i" if "i < cap P" for i using treeD(1) [OF heapD(8) [OF h] that] pb by simp
      fix c assume c: "pub s' c \<and> cap P \<le> c"
      have pne: "parent c \<noteq> j" if "c \<noteq> j" using c nochild [of c] pb that by auto
      show "pub s' (parent c)" using c pb treeD(2) [OF heapD(8) [OF h], of c] splittingD(2) [OF sp] by auto
      show "bit_width_nat c \<le> lev s' (parent c)"
        using c pb treeD(3) [OF heapD(8) [OF h], of c] splittingD(3) [OF sp] lv [of "parent c"] pne pj by (cases "c = j") auto
      fix a assume a: "a \<in> set (L' (Chain (parent c)))" "maps (hv P (val s a)) c"
      show "is_marked (link s a) \<or> settled P s a"
      proof (cases "c = j")
        case True
        then have "a \<in> set (L (Chain (parent j)))" using a(1) ch pj by simp
        then show ?thesis using splittingD(4) [OF sp, of a] a(2) True rest_zero [OF h] by auto
      next
        case False
        then show ?thesis using treeD(4) [OF heapD(8) [OF h], of c a] c pb pne a ch by simp
      qed
    qed
  qed (use L' L0 in auto)
  have "\<exists>zs. L' (Chain i) = zs @ L (Chain i) \<and>
      (\<forall>a\<in>set zs. \<forall>c. cap P \<le> c \<and> parent c = i \<and> bit_width_nat c \<le> lev s i \<longrightarrow> \<not> maps (hv P (val s a)) c)" if "pub s i" for i
    using ch that j(2) by (intro exI [of _ "[]"]) auto
  moreover have "lev s i \<le> lev s' i" if "pub s i" for i using lv [of i] that j(2) by (cases "i = j") auto
  ultimately show "env_steps P s L s' L'" unfolding env_steps_def sm pb using s' L' by auto
qed

section \<open>Growing the table\<close>

lemma buckets_beyond:
  assumes h: "hs_heap P s L" and s': "s' = s\<lparr>hs_buckets := bs\<rparr>"
    and bs: "hs_size s \<le> length bs" "\<And>j. j < hs_size s \<Longrightarrow> bs ! j = hs_buckets s ! j"
  shows "hs_heap P s' L \<and> env_steps P s L s' L"
proof
  have pb: "pub s' = pub s" using s' bs by (auto simp: pub_def fun_eq_iff)
  have lv: "lev s' j = lev s j" if "pub s j" for j using s' bs that by (simp add: pub_def lev_def)
  have sm: "link s' = link s" "val s' = val s" "settled P s' = settled P s" "hs_nodes s' = hs_nodes s" "hs_size s' = hs_size s"
    "hs_shards s' = hs_shards s" "tags P s' = tags P s"
    using s' by (auto simp: link_def val_def settled_def tags_def fun_eq_iff)
  have "geometry P s'" using heapD(1) [OF h] bs(1) s' by (simp add: geometry_def)
  moreover have "arena s'" using heapD(2) [OF h] unfolding arena_def sm .
  moreover have "chains P s' L"
    unfolding chains_def
  proof (rule allI)
    fix j
    have "hs_buckets s' ! j = hs_buckets s ! j" if "j < hs_size s" using s' bs(2) [OF that] by simp
    then show "if pub s' j then linked (hs_nodes s') (hs_buckets s' ! j) (L (Chain j)) 0
       else L (Chain j) = [] \<and> (j < hs_size s' \<longrightarrow> hs_buckets s' ! j = UNINITIALIZED)"
      using heapD(4) [OF h] pub_size [of s j] unfolding chains_def pb sm by auto
  qed
  moreover have "spares s' L" using heapD(5) [OF h] unfolding spares_def sm .
  moreover have "keys P s' L" using heapD(7) [OF h] unfolding keys_def sm .
  moreover have "tree P s' L"
    using treeD [OF heapD(8) [OF h]] lv unfolding tree_def pb sm by (metis (no_types, lifting))
  ultimately show "hs_heap P s' L" using heapD(3,6) [OF h] unfolding hs_heap_def sm by simp
  show "env_steps P s L s' L" unfolding env_steps_def pb sm using lv by auto
qed

lemma double_size:
  assumes h: "hs_heap P s L" and s': "s' = s\<lparr>hs_size := ts * 2\<rparr>" and ts: "ts = hs_size s" "2 * ts \<le> length (hs_buckets s)" "2 * ts \<le> 2 ^ 60"
    and un: "\<And>j. ts \<le> j \<Longrightarrow> j < 2 * ts \<Longrightarrow> hs_buckets s ! j = UNINITIALIZED"
  shows "hs_heap P s' L \<and> env_steps P s L s' L"
proof
  have pb: "pub s' = pub s"
  proof
    fix j show "pub s' j = pub s j" using un [of j] s' ts(1) by (cases "ts \<le> j") (auto simp: pub_def)
  qed
  have lv: "lev s' = lev s" using s' by (simp add: lev_def fun_eq_iff)
  have sm: "link s' = link s" "val s' = val s" "settled P s' = settled P s" "hs_nodes s' = hs_nodes s" "hs_buckets s' = hs_buckets s"
    "hs_shards s' = hs_shards s" "tags P s' = tags P s"
    using s' by (auto simp: link_def val_def settled_def tags_def fun_eq_iff)
  have "geometry P s'"
  proof -
    obtain m q where m: "hs_size s = 2 ^ m" "cap P = 2 ^ q" "q \<le> m" using heapD(1) [OF h] by (auto simp: geometry_def)
    have "(2 :: nat) ^ Suc m \<le> 2 ^ 60" using ts(1,3) m(1) by simp
    then have "Suc m \<le> 60" by (rule power_le_imp_le_exp [rotated]) simp
    then have "\<exists>m' q. hs_size s' = 2 ^ m' \<and> cap P = 2 ^ q \<and> q \<le> m' \<and> m' \<le> 60"
      using m s' ts(1) by (intro exI [of _ "Suc m"] exI [of _ q]) simp
    then show ?thesis using heapD(1) [OF h] ts s' by (simp add: geometry_def)
  qed
  moreover have "arena s'" using heapD(2) [OF h] unfolding arena_def sm .
  moreover have "chains P s' L"
    unfolding chains_def pb sm
  proof (rule allI)
    fix j
    show "if pub s j then linked (hs_nodes s) (hs_buckets s ! j) (L (Chain j)) 0
       else L (Chain j) = [] \<and> (j < hs_size s' \<longrightarrow> hs_buckets s ! j = UNINITIALIZED)"
      using heapD(4) [OF h] un [of j] s' ts(1) unfolding chains_def by (cases "j < ts") (auto split: if_splits)
  qed
  moreover have "spares s' L" using heapD(5) [OF h] unfolding spares_def sm .
  moreover have "keys P s' L" using heapD(7) [OF h] unfolding keys_def sm .
  moreover have "tree P s' L" using heapD(8) [OF h] unfolding tree_def pb lv sm .
  ultimately show "hs_heap P s' L" using heapD(3,6) [OF h] unfolding hs_heap_def sm by simp
  show "env_steps P s L s' L" unfolding env_steps_def pb lv sm using s' ts(1) by auto
qed

lemma grow_buckets_nth:
  assumes "ts \<le> length bs"
  shows "length (grow_buckets ts bs) = max (length bs) (2 * ts)"
    "j < ts \<Longrightarrow> grow_buckets ts bs ! j = bs ! j"
    "ts \<le> j \<Longrightarrow> j < 2 * ts \<Longrightarrow> grow_buckets ts bs ! j = UNINITIALIZED"
  using assms by (auto simp: grow_buckets_def Let_def nth_append max_def)

end
