(* ===== verification/Hash_Set_Effect.thy ===== *)
theory Hash_Set_Effect
  imports Hash_Set_Heap
begin

text \<open>
  The set the table stands for, and what each kind of step does to it.  A key is decided by the deepest
  published bucket on its path; it is in the set iff that bucket's chain has a node for it that is no tombstone.
\<close>

section \<open>Membership\<close>

definition memb :: "'k hs_par \<Rightarrow> 'k hset \<Rightarrow> layout \<Rightarrow> 'k \<Rightarrow> bool" where
  "memb P s L k \<longleftrightarrow>
     (\<exists>a\<in>set (L (Chain (auth (pub s) (hv P k mod hs_size s)))). val s a = k \<and> \<not> is_marked (link s a))"

datatype 'k set_op = Ins 'k | Del 'k

definition set_change :: "'k set_op option \<Rightarrow> ('k \<Rightarrow> bool) \<Rightarrow> ('k \<Rightarrow> bool) \<Rightarrow> bool" where
  "set_change b A B = (case b of None \<Rightarrow> B = A
     | Some (Ins k) \<Rightarrow> \<not> A k \<and> B = A(k := True)
     | Some (Del k) \<Rightarrow> A k \<and> B = A(k := False))"

text \<open>
  What a step may do, seen from the other threads' side: a node that appears in a chain as a live node makes its key a
  member, a node that is tombstoned takes its key out, and a published chain gains a node only by an insertion of its key.
\<close>

definition step_effect :: "'k hs_par \<Rightarrow> 'k hset \<Rightarrow> layout \<Rightarrow> 'k hset \<Rightarrow> layout \<Rightarrow> 'k set_op option \<Rightarrow> bool" where
  "step_effect P s L s' L' b \<longleftrightarrow> hs_heap P s' L' \<and> env_steps P s L s' L' \<and> set_change b (memb P s L) (memb P s' L') \<and>
     (\<forall>j. \<forall>a\<in>set (L' (Chain j)). a \<notin> set (L (Chain j)) \<and> \<not> is_marked (link s' a) \<longrightarrow> memb P s' L' (val s' a)) \<and>
     (\<forall>j. \<forall>a\<in>set (L (Chain j)). \<not> is_marked (link s a) \<and> is_marked (link s' a) \<longrightarrow> \<not> memb P s' L' (val s a)) \<and>
     (\<forall>j. pub s j \<longrightarrow> (\<forall>a\<in>set (L' (Chain j)). a \<notin> set (L (Chain j)) \<longrightarrow> b = Some (Ins (val s' a))))"

section \<open>The deciding bucket\<close>

lemma sizes:
  assumes "hs_heap P s L"
  obtains m q where "hs_size s = 2 ^ m" "cap P = 2 ^ q" "q \<le> m" "m \<le> 60"
  using heapD(1) [OF assms] by (auto simp: geometry_def)

lemma cap_pos: "hs_heap P s L \<Longrightarrow> 0 < cap P"
  by (erule sizes) simp

lemma pub_closed:
  assumes "hs_heap P s L" and "pub s j" and "0 < j"
  shows "pub s (parent j)"
proof (cases "j < cap P")
  case True
  have "parent j < j" using assms(3) by simp
  then show ?thesis using treeD(1) [OF heapD(8) [OF assms(1)]] True by (meson less_trans)
next
  case False
  then show ?thesis using treeD(2) [OF heapD(8) [OF assms(1)] assms(2)] by simp
qed

lemma auth_home:
  assumes h: "hs_heap P s L" and m: "2 ^ m \<le> hs_size s" and p: "pub s (hv P k mod 2 ^ m)"
    and none: "\<And>c. pub s c \<Longrightarrow> parent c = hv P k mod 2 ^ m \<Longrightarrow> maps (hv P k) c \<Longrightarrow> 2 ^ m \<le> c \<Longrightarrow> False"
  shows "auth (pub s) (hv P k mod hs_size s) = hv P k mod 2 ^ m"
proof -
  obtain n where n: "hs_size s = 2 ^ n" using sizes [OF h] .
  then have "m \<le> n" using m by simp
  then show ?thesis unfolding n
    by (intro auth_eq [of "pub s"]) (use pub_closed [OF h] none p in blast)+
qed

lemma memb_at:
  "auth (pub s) (hv P k mod hs_size s) = j \<Longrightarrow>
     memb P s L k \<longleftrightarrow> (\<exists>a\<in>set (L (Chain j)). val s a = k \<and> \<not> is_marked (link s a))"
  by (simp add: memb_def)

lemma own_size:
  assumes h: "hs_heap P s L" and j: "pub s j"
  obtains m where "own P j = 2 ^ m" "cap P \<le> 2 ^ m" "2 ^ m \<le> hs_size s" "j < 2 ^ m"
proof -
  obtain n q where n: "hs_size s = 2 ^ n" "cap P = 2 ^ q" "q \<le> n" using sizes [OF h] .
  show ?thesis
  proof (cases "j < cap P")
    case True
    then show ?thesis using that [of q] n by (simp add: own_def)
  next
    case False
    have w: "bit_width_nat j \<le> n" by (rule width_le) (use pub_size [OF j] n(1) in simp)
    have "2 ^ bit_width_nat j \<le> (2 :: nat) ^ n" using w by simp
    moreover have "cap P \<le> 2 ^ bit_width_nat j" using False width_gt [of j] by simp
    ultimately show ?thesis using that [of "bit_width_nat j"] False n width_gt [of j] by (simp add: own_def)
  qed
qed

text \<open>A node of a chain decides about its key unless its key has moved on to a published child.\<close>

lemma auth_node:
  assumes h: "hs_heap P s L" and a: "a \<in> set (L (Chain j))"
    and none: "\<And>c. pub s c \<Longrightarrow> cap P \<le> c \<Longrightarrow> parent c = j \<Longrightarrow> maps (hv P (val s a)) c \<Longrightarrow> False"
  shows "auth (pub s) (hv P (val s a) mod hs_size s) = j"
proof -
  obtain m where m: "own P j = 2 ^ m" "cap P \<le> 2 ^ m" "2 ^ m \<le> hs_size s" using own_size [OF h chain_pub [OF h a]] .
  have e: "hv P (val s a) mod 2 ^ m = j" using keysD(1) [OF heapD(7) [OF h] a] m(1) by simp
  show ?thesis
    using auth_home [OF h m(3), of "val s a"] chain_pub [OF h a] none m(2) unfolding e by (meson order_trans)
qed

lemma auth_live:
  assumes h: "hs_heap P s L" and a: "a \<in> set (L (Chain j))" "\<not> is_marked (link s a)" "\<not> is_frozen (link s a)" "del P"
  shows "auth (pub s) (hv P (val s a) mod hs_size s) = j"
  by (rule auth_node [OF h a(1)]) (use treeD(4) [OF heapD(8) [OF h]] a in \<open>auto simp: settled_def\<close>)

lemma bucket_mod:
  assumes "tsz P s ts" shows "bucket_of (hashf P) k ts = hv P k mod ts"
proof -
  obtain m where "ts = 2 ^ m" using assms by (auto simp: tsz_def)
  then show ?thesis unfolding bucket_of_def hv_def by (rule and_mask_mod)
qed

text \<open>The bucket of a table size whose head is not sealed above that size decides about the key.\<close>

lemma auth_unsealed:
  assumes h: "hs_heap P s L" and ts: "tsz P s ts" and p: "pub s (hv P k mod ts)" and l: "lev s (hv P k mod ts) \<le> level_for ts"
  shows "auth (pub s) (hv P k mod hs_size s) = hv P k mod ts"
    "cap P \<le> c \<Longrightarrow> parent c = hv P k mod ts \<Longrightarrow> bit_width_nat c \<le> lev s (hv P k mod ts) \<Longrightarrow> \<not> maps (hv P k) c"
    "hv P k mod own P (hv P k mod ts) = hv P k mod ts"
proof -
  obtain m where m: "ts = 2 ^ m" "cap P \<le> 2 ^ m" "2 ^ m \<le> hs_size s" using ts by (auto simp: tsz_def)
  obtain q where q: "cap P = 2 ^ q" using sizes [OF h] .
  let ?j = "hv P k mod 2 ^ m"
  have lm: "lev s ?j \<le> m" using l m(1) by simp
  show "auth (pub s) (hv P k mod hs_size s) = hv P k mod ts"
    unfolding m(1)
  proof (rule auth_home [OF h m(3)])
    show "pub s ?j" using p m(1) by simp
    fix c assume c: "pub s c" "parent c = ?j" "2 ^ m \<le> c"
    then have "bit_width_nat c \<le> m" using treeD(3) [OF heapD(8) [OF h], of c] m(2) lm by simp
    then have "(2 :: nat) ^ bit_width_nat c \<le> 2 ^ m" by simp
    then show False using c(3) width_gt [of c] by linarith
  qed
  show "\<not> maps (hv P k) c" if c: "cap P \<le> c" "parent c = hv P k mod ts" "bit_width_nat c \<le> lev s (hv P k mod ts)"
  proof
    assume mp: "maps (hv P k) c"
    have "0 < c" using c(1) cap_pos [OF h] by simp
    then have "parent c < c" by simp
    have bm: "bit_width_nat c \<le> m" using c(3) lm m(1) by simp
    have "hv P k mod 2 ^ bit_width_nat c = ?j mod 2 ^ bit_width_nat c"
      by (rule mod_mod_cancel [symmetric], rule le_imp_power_dvd) (rule bm)
    then have "c = parent c mod 2 ^ bit_width_nat c" using mp c(2) m(1) by (simp add: maps_def)
    then show False using \<open>parent c < c\<close> by (metis mod_less_eq_dividend not_le)
  qed
  show "hv P k mod own P (hv P k mod ts) = hv P k mod ts"
  proof -
    have "hv P k mod 2 ^ x = ?j" if "?j < 2 ^ x" "x \<le> m" for x
    proof -
      have "hv P k mod 2 ^ x = ?j mod 2 ^ x" by (rule mod_mod_cancel [symmetric], rule le_imp_power_dvd) (rule that(2))
      then show ?thesis using that(1) by simp
    qed
    moreover have "q \<le> m" using m(2) q by simp
    moreover have "bit_width_nat ?j \<le> m" by (rule width_le) simp
    moreover have "?j < cap P \<Longrightarrow> ?j < 2 ^ q" using q by simp
    ultimately show ?thesis using width_gt [of ?j] unfolding m(1) own_def q by (cases "?j < 2 ^ q") metis+
  qed
qed

section \<open>Steps that keep the set\<close>

lemma memb_same:
  assumes "pub s' = pub s" "hs_size s' = hs_size s" "\<And>j. L' (Chain j) = L (Chain j)"
    and "\<And>j a. a \<in> set (L (Chain j)) \<Longrightarrow> val s' a = val s a \<and> (is_marked (link s' a) \<longleftrightarrow> is_marked (link s a))"
  shows "memb P s' L' = memb P s L"
proof
  fix k
  show "memb P s' L' k = memb P s L k"
    unfolding memb_def assms(1-3) by (rule bex_cong [OF refl]) (simp add: assms(4))
qed

lemma quiet_effect:
  assumes he: "hs_heap P s' L' \<and> env_steps P s L s' L'"
    and same: "pub s' = pub s" "hs_size s' = hs_size s" "\<And>j. L' (Chain j) = L (Chain j)"
    and vm: "\<And>j a. a \<in> set (L (Chain j)) \<Longrightarrow> val s' a = val s a \<and> (is_marked (link s' a) \<longleftrightarrow> is_marked (link s a))"
  shows "step_effect P s L s' L' None"
proof -
  have "memb P s' L' = memb P s L" by (rule memb_same) (use same vm in auto)
  then show ?thesis unfolding step_effect_def set_change_def using he same(3) vm by simp
qed

lemma pub_cong: "hs_buckets s' = hs_buckets s \<Longrightarrow> hs_size s' = hs_size s \<Longrightarrow> pub s' = pub s"
  by (simp add: pub_def fun_eq_iff)

lemma not_in_chain:
  assumes "hs_heap P s L" and "a \<in> set (L p)" and "\<And>j. p \<noteq> Chain j"
  shows "a \<notin> set (L (Chain j))"
  using ownedD(2) [OF heapD(3) [OF assms(1)] assms(2), of "Chain j"] assms(3) by blast

lemma write_private_effect:
  assumes h: "hs_heap P s L" and a: "a \<in> set (L (Priv t))" and n: "addr_of (nd_link n) = nd_link n"
    and s': "s' = s\<lparr>hs_nodes := (hs_nodes s)(a \<mapsto> n)\<rparr>"
  shows "step_effect P s L s' L None"
proof (rule quiet_effect [OF write_private [OF h a n s']])
  show "pub s' = pub s" by (rule pub_cong) (simp_all add: s')
  fix j b assume "b \<in> set (L (Chain j))"
  then have "b \<noteq> a" using not_in_chain [OF h a] by auto
  then show "val s' b = val s b \<and> is_marked (link s' b) = is_marked (link s b)" by (simp add: s' val_def link_def)
qed (simp_all add: s')

lemma pop_effect:
  assumes h: "hs_heap P s L" and i: "i < length (hs_shards s)" and f: "L (Free i) = a # xs"
    and s': "s' = set_shard i ((hs_shards s ! i)\<lparr>sh_free := free_word (link s a) c\<rparr>) s"
    and L': "L' = L(Free i := xs, Priv t := a # L (Priv t))"
  shows "step_effect P s L s' L' None"
proof (rule quiet_effect [OF pop_free [OF h i f s' L']])
  show "pub s' = pub s" by (rule pub_cong) (simp_all add: s' set_shard_def)
qed (simp_all add: s' set_shard_def L' val_def link_def)

lemma limbo_effect:
  assumes h: "hs_heap P s L" and i: "i < length (hs_shards s)" and pv: "L (Priv t) = xs @ ys"
    and sg: "sub_segment s xs" and lk: "link s (last xs) = sh_limbo (hs_shards s ! i)"
    and s': "s' = set_shard i ((hs_shards s ! i)\<lparr>sh_limbo := hd xs\<rparr>) s"
    and L': "L' = L(Priv t := ys, Limbo i := xs @ L (Limbo i))"
  shows "step_effect P s L s' L' None"
proof (rule quiet_effect [OF push_limbo_heap [OF h i pv sg lk s' L']])
  show "pub s' = pub s" by (rule pub_cong) (simp_all add: s' set_shard_def)
qed (simp_all add: s' set_shard_def L' val_def link_def)

lemma append_effect:
  assumes h: "hs_heap P s L" and i: "i < length (hs_shards s)" and a: "node_addr a" "hs_nodes s a = None"
    and n: "addr_of (nd_link n) = nd_link n"
    and s': "s' = set_shard i ((hs_shards s ! i)\<lparr>sh_nodes := sh_nodes (hs_shards s ! i) @ [a]\<rparr>)
               (s\<lparr>hs_nodes := (hs_nodes s)(a \<mapsto> n)\<rparr>)"
    and L': "L' = L(Priv t := a # L (Priv t))"
  shows "step_effect P s L s' L' None"
proof (rule quiet_effect [OF append_node [OF h i a n s' L']])
  show "pub s' = pub s" by (rule pub_cong) (simp_all add: s' set_shard_def)
  fix j b assume "b \<in> set (L (Chain j))"
  then have "b \<noteq> a" using ownedD(3) [OF heapD(3) [OF h]] a(2) by blast
  then show "val s' b = val s b \<and> is_marked (link s' b) = is_marked (link s b)" by (simp add: s' set_shard_def val_def link_def)
qed (simp_all add: s' set_shard_def L')

lemma freeze_effect:
  assumes h: "hs_heap P s L" and a: "a \<in> set (L (Chain j))" and d: "del P" and lv: "\<not> is_marked (link s a)"
    and s': "s' = set_link a (link s a OR FROZEN_BIT) s"
  shows "step_effect P s L s' L None" "settled P s' a"
proof -
  obtain n where n: "hs_nodes s a = Some n" using place_node [OF h a] by metis
  note nd = set_link_nodes [OF n, of "link s a OR FROZEN_BIT", folded s']
  show "step_effect P s L s' L None"
  proof (rule quiet_effect [OF tag_chain [OF h a _ _ d _ _ _ s']])
    show "pub s' = pub s" by (rule pub_cong) (simp_all add: nd)
  qed (use lv nd in auto)
  show "settled P s' a" using nd(6) lv by (simp add: settled_def)
qed

lemma seal_effect:
  assumes h: "hs_heap P s L" and j: "pub s j" and l: "lev s j \<le> l" "l < 64"
    and s': "s' = set_head j (sealed_word (hs_buckets s ! j) l) s"
  shows "step_effect P s L s' L None"
proof (rule quiet_effect [OF seal_heap [OF h j l s']])
  show "pub s' = pub s" using nth_head(2) [OF h pub_size [OF j], of "sealed_word (hs_buckets s ! j) l"] j
    by (auto simp: s' fun_eq_iff pub_def)
qed (simp_all add: s')

lemma grow_effect:
  assumes h: "hs_heap P s L" and s': "s' = s\<lparr>hs_buckets := bs\<rparr>"
    and bs: "hs_size s \<le> length bs" "\<And>j. j < hs_size s \<Longrightarrow> bs ! j = hs_buckets s ! j"
  shows "step_effect P s L s' L None"
proof (rule quiet_effect [OF buckets_beyond [OF h s' bs]])
  show "pub s' = pub s" using s' bs by (auto simp: pub_def fun_eq_iff)
qed (simp_all add: s' val_def link_def)

lemma double_effect:
  assumes h: "hs_heap P s L" and s': "s' = s\<lparr>hs_size := ts * 2\<rparr>" and ts: "ts = hs_size s" "2 * ts \<le> length (hs_buckets s)" "2 * ts \<le> 2 ^ 60"
    and un: "\<And>j. ts \<le> j \<Longrightarrow> j < 2 * ts \<Longrightarrow> hs_buckets s ! j = UNINITIALIZED"
  shows "step_effect P s L s' L None"
proof -
  note he = double_size [OF h s' ts un]
  have pb: "pub s' = pub s"
  proof
    fix j show "pub s' j = pub s j" using un [of j] s' ts(1) by (cases "ts \<le> j") (auto simp: pub_def)
  qed
  have sm: "link s' = link s" "val s' = val s" using s' by (simp_all add: link_def val_def fun_eq_iff)
  have au: "auth (pub s) (x mod hs_size s') = auth (pub s) (x mod hs_size s)" for x
  proof -
    obtain m where m: "hs_size s = 2 ^ m" using sizes [OF h] .
    then have m': "hs_size s' = 2 ^ Suc m" using s' ts(1) by simp
    from prefix_step [of x m] show ?thesis unfolding m m'
    proof (elim disjE conjE)
      assume e: "x mod 2 ^ Suc m = 2 ^ m + x mod 2 ^ m" "parent (x mod 2 ^ Suc m) = x mod 2 ^ m"
      then have "\<not> pub s (x mod 2 ^ Suc m)" using m by (auto simp: pub_def)
      then show "auth (pub s) (x mod 2 ^ Suc m) = auth (pub s) (x mod 2 ^ m)" using e by (subst auth.simps) simp
    qed simp
  qed
  have "memb P s' L = memb P s L" by (simp add: memb_def fun_eq_iff pb sm au)
  then show ?thesis unfolding step_effect_def set_change_def using he by (simp add: sm)
qed

section \<open>Steps that change the set\<close>

lemma mark_effect:
  assumes h: "hs_heap P s L" and a: "a \<in> set (L (Chain j))" and d: "del P"
    and lv: "\<not> is_marked (link s a)" "\<not> is_frozen (link s a)"
    and s': "s' = set_link a (link s a OR MARK_BIT) s"
  shows "step_effect P s L s' L (Some (Del (val s a)))"
proof -
  obtain n where n: "hs_nodes s a = Some n" using place_node [OF h a] by metis
  note nd = set_link_nodes [OF n, of "link s a OR MARK_BIT", folded s']
  have he: "hs_heap P s' L \<and> env_steps P s L s' L" by (rule tag_chain [OF h a _ _ d _ _ _ s']) (use lv in auto)
  have pb: "pub s' = pub s" by (rule pub_cong) (simp_all add: nd)
  note au = auth_live [OF h a lv d]
  have uni: "b = a" if "b \<in> set (L (Chain j))" "val s b = val s a" "\<not> is_marked (link s b)" for b
    using keysD(2) [OF heapD(7) [OF h] a that(1)] that lv by simp
  have "memb P s L (val s a)" unfolding memb_at [OF au] using a lv by blast
  moreover have gone: "\<not> memb P s' L (val s a)"
    unfolding memb_def pb nd(3) au nd(6,7) using uni by auto
  moreover have "memb P s' L k = memb P s L k" if "k \<noteq> val s a" for k
    unfolding memb_def pb nd(3,6,7) using that by auto
  ultimately show ?thesis
    unfolding step_effect_def set_change_def using he nd(6,7) by (auto simp: fun_eq_iff)
qed

lemma prepend_effect:
  assumes h: "hs_heap P s L" and ts: "tsz P s ts" and j: "j = hv P (val s n) mod ts" "pub s j" "lev s j \<le> level_for ts"
    and pv: "L (Priv t) = n # ys" and lk: "link s n = addr_of (hs_buckets s ! j)"
    and k2: "\<And>a. a \<in> set (L (Chain j)) \<Longrightarrow> val s a = val s n \<Longrightarrow> is_marked (link s a)"
    and s': "s' = set_head j (prepend_word n (hs_buckets s ! j)) s"
    and L': "L' = L(Priv t := ys, Chain j := n # L (Chain j))"
  shows "step_effect P s L s' L' (Some (Ins (val s n)))"
proof -
  note au = auth_unsealed [OF h ts, of "val s n", folded j(1), OF j(2,3)]
  have he: "hs_heap P s' L' \<and> env_steps P s L s' L'"
    by (rule prepend_heap [OF h j(2) pv lk au(3) k2 au(2) s' L'])
  have np: "n \<in> set (L (Priv t))" using pv by simp
  have na: "addr_of n = n" "n \<noteq> UNINITIALIZED" using place_node [OF h np] by (metis node_addr_iff)+
  have pb: "pub s' = pub s"
    using nth_head(2) [OF h pub_size [OF j(2)], of "prepend_word n (hs_buckets s ! j)"] na j(2) by (auto simp: s' fun_eq_iff)
  have sm: "link s' = link s" "val s' = val s" "hs_size s' = hs_size s" using s' by simp_all
  have ch: "L' (Chain i) = (if i = j then n # L (Chain j) else L (Chain i))" for i using L' by simp
  have new: "\<not> is_marked (link s n)" using lk by (simp add: marked_bit hash_bits)
  have "\<not> memb P s L (val s n)" unfolding memb_at [OF au(1)] using k2 by blast
  moreover have now: "memb P s' L' (val s n)" unfolding memb_def pb sm au(1) ch using new by auto
  moreover have "memb P s' L' k = memb P s L k" if "k \<noteq> val s n" for k
    unfolding memb_def pb sm ch using that by auto
  ultimately show ?thesis
    unfolding step_effect_def set_change_def using he ch sm by (auto simp: fun_eq_iff split: if_splits)
qed

lemma auth_cong: "(\<And>c. maps h c \<Longrightarrow> P c = Q c) \<Longrightarrow> auth P (h mod 2 ^ n) = auth Q (h mod 2 ^ n)"
proof (induction n)
  case 0
  then show ?case by (simp add: auth.simps)
next
  case (Suc n)
  from prefix_step [of h n] show ?case
  proof (elim disjE conjE)
    assume e: "h mod 2 ^ Suc n = 2 ^ n + h mod 2 ^ n" "parent (h mod 2 ^ Suc n) = h mod 2 ^ n" "maps h (h mod 2 ^ Suc n)"
    then have "P (h mod 2 ^ Suc n) = Q (h mod 2 ^ Suc n)" using Suc.prems by blast
    then show ?thesis using e Suc by (subst (1 2) auth.simps) simp
  qed (use Suc in simp)
qed

lemma publish_effect:
  assumes h: "hs_heap P s L" and j: "in_tree P s j" "\<not> pub s j" and sp: "splitting P s L j (val s ` set subs) 0"
    and so: "subs_ok s subs" and pv: "L (Priv t) = subs @ ys"
    and s': "s' = set_head j (sub_head subs) s"
    and L': "L' = L(Priv t := ys, Chain j := subs)"
  shows "step_effect P s L s' L' None" "pub s' j"
proof -
  have he: "hs_heap P s' L' \<and> env_steps P s L s' L'" by (rule publish_heap [OF h j sp so pv s' L'])
  note d = splittingD [OF sp]
  have sm: "link s' = link s" "val s' = val s" "hs_size s' = hs_size s" using s' by simp_all
  have ch: "L' (Chain i) = (if i = j then subs else L (Chain i))" for i using L' by simp
  have bare: "\<not> is_marked (link s a)" if "a \<in> set subs" for a
    using bare_link [OF h, of a "Priv t"] pv that by simp
  have js: "j < hs_size s" "cap P \<le> j" using j(1) by (auto simp: in_tree_def)
  have pos: "0 < j" using js(2) cap_pos [OF h] by simp
  show pj': "pub s' j"
  proof -
    have "sub_head subs = 0 \<or> node_addr (sub_head subs)"
    proof (cases subs)
      case (Cons c cs)
      then have "c \<in> set (L (Priv t))" using pv by simp
      then show ?thesis using Cons place_node [OF h, of c "Priv t"] by (metis list.simps(5) sub_head_def)
    qed (simp add: sub_head_def EMPTY_def)
    then have "addr_of (sub_head subs) \<noteq> UNINITIALIZED" using addr_uninit(2) by (auto simp: node_addr_iff)
    then show ?thesis using nth_head(2) [OF h js(1), of "sub_head subs" j] s' by simp
  qed
  have pb: "pub s' i = pub s i" if "i \<noteq> j" for i
    using nth_head(2) [OF h js(1), of "sub_head subs" i] s' that by simp
  obtain m where m: "bit_width_nat j = Suc m" "j = 2 ^ m + parent j" "parent j < 2 ^ m" using parent_split [OF pos] .
  have msize: "2 ^ Suc m \<le> hs_size s"
  proof -
    obtain n where n: "hs_size s = 2 ^ n" using sizes [OF h] .
    have "Suc m \<le> n" using width_le [of j n] js(1) n m(1) by simp
    then show ?thesis unfolding n by (rule power_increasing) simp
  qed
  have before: "auth (pub s) (hv P k mod hs_size s) = parent j" if k: "maps (hv P k) j" for k
  proof -
    have e: "hv P k mod 2 ^ Suc m = j" using k m(1) by (simp add: maps_def)
    have e': "hv P k mod 2 ^ m = parent j"
    proof -
      have "hv P k mod 2 ^ m = j mod 2 ^ m" using mod_mod_cancel [of "2 ^ m" "2 ^ Suc m" "hv P k"] e by simp
      also have "\<dots> = parent j" by (subst m(2)) (use m(3) in simp)
      finally show ?thesis .
    qed
    have "auth (pub s) (hv P k mod hs_size s) = hv P k mod 2 ^ m"
    proof (rule auth_home [OF h])
      show "2 ^ m \<le> hs_size s" using msize by simp
      show "pub s (hv P k mod 2 ^ m)" using d(2) e' by simp
      fix c assume c: "pub s c" "parent c = hv P k mod 2 ^ m" "maps (hv P k) c" "2 ^ m \<le> c"
      have "0 < c" using c(4) by (metis less_le_trans zero_less_numeral zero_less_power)
      then have "c = j" using child_unique [OF _ pos _ c(3) k] c(2) e' by simp
      then show False using c(1) j(2) by simp
    qed
    then show ?thesis using e' by simp
  qed
  have after: "auth (pub s') (hv P k mod hs_size s') = j" if k: "maps (hv P k) j" for k
  proof -
    have h': "hs_heap P s' L'" using he by blast
    have e: "hv P k mod 2 ^ Suc m = j" using k m(1) by (simp add: maps_def)
    have "auth (pub s') (hv P k mod hs_size s') = hv P k mod 2 ^ Suc m"
    proof (rule auth_home [OF h'])
      show "2 ^ Suc m \<le> hs_size s'" using msize sm by simp
      show "pub s' (hv P k mod 2 ^ Suc m)" using pj' e by simp
      fix c assume c: "pub s' c" "parent c = hv P k mod 2 ^ Suc m" "2 ^ Suc m \<le> c"
      have "0 < c" using c(3) by (metis less_le_trans zero_less_numeral zero_less_power)
      then have "parent c < c" by simp
      then have "c \<noteq> j" using c(2) e by simp
      then have "pub s (parent c)" using pb c(1) pub_closed [OF h _ \<open>0 < c\<close>] by simp
      then show False using c(2) e j(2) by simp
    qed
    then show ?thesis using e by simp
  qed
  have "memb P s' L' k = memb P s L k" for k
  proof (cases "maps (hv P k) j")
    case True
    have "memb P s' L' k \<longleftrightarrow> k \<in> val s ` set subs"
      unfolding memb_at [OF after [OF True]] ch sm using bare by auto
    also have "\<dots> \<longleftrightarrow> (\<exists>a\<in>set (L (Chain (parent j))). val s a = k \<and> \<not> is_marked (link s a))"
    proof
      assume "k \<in> val s ` set subs"
      from d(5) [OF this] show "\<exists>a\<in>set (L (Chain (parent j))). val s a = k \<and> \<not> is_marked (link s a)"
        by (auto simp: settled_def)
    next
      assume "\<exists>a\<in>set (L (Chain (parent j))). val s a = k \<and> \<not> is_marked (link s a)"
      then obtain a where a: "a \<in> set (L (Chain (parent j)))" "val s a = k" "\<not> is_marked (link s a)" by blast
      then show "k \<in> val s ` set subs" using d(4) [OF a(1)] True rest_zero [OF h, of 0] by auto
    qed
    finally show ?thesis unfolding memb_at [OF before [OF True]] .
  next
    case False
    obtain n where n: "hs_size s = 2 ^ n" using sizes [OF h] .
    have "auth (pub s') (hv P k mod 2 ^ n) = auth (pub s) (hv P k mod 2 ^ n)"
      by (rule auth_cong) (use pb False in metis)
    moreover have "L' (Chain i) = L (Chain i)" if "pub s i \<or> i = 0" for i
      using ch that j(2) pos by auto
    moreover have "pub s (auth (pub s) i) \<or> auth (pub s) i = 0" for i
      by (induction "pub s" i rule: auth.induct) (subst (1 2) auth.simps, auto)
    ultimately show ?thesis unfolding memb_def sm n by simp
  qed
  moreover have "memb P s' L' (val s a)" if "a \<in> set subs" for a
  proof -
    have "val s a \<in> val s ` set subs" using that by simp
    then have "maps (hv P (val s a)) j" using d(5) by blast
    from memb_at [OF after [OF this]] show ?thesis using ch that bare sm by auto
  qed
  ultimately show "step_effect P s L s' L' None"
    unfolding step_effect_def set_change_def using he ch sm j(2) by (auto simp: fun_eq_iff split: if_splits)
qed

end
