(* ===== verification/Hash_Set_Steps.thy ===== *)
theory Hash_Set_Steps
  imports Hash_Set_Effect
begin

text \<open>
  Every access a thread makes succeeds, keeps the invariant and has the effect on the set that its kind
  of step has: the successful publishing CAS of \<open>insert\<close> adds its key, the successful marking CAS of \<open>erase\<close>
  removes its key, and no other step changes the set.
\<close>

section \<open>The rule for a step\<close>

definition ok_step :: "'k hs_par \<Rightarrow> 'k hset \<Rightarrow> layout \<Rightarrow> 'k hset \<Rightarrow> 'k set_op option \<Rightarrow> bool" where
  "ok_step P s L s' b \<longleftrightarrow> (\<exists>L'. hs_inv P s' L' \<and> step_effect P s L s' L' b)"

definition same_heap :: "'k hset \<Rightarrow> 'k hset \<Rightarrow> bool" where
  "same_heap s s' \<longleftrightarrow> hs_nodes s' = hs_nodes s \<and> hs_buckets s' = hs_buckets s \<and> hs_shards s' = hs_shards s \<and> hs_size s' = hs_size s"

lemma same_heapD:
  assumes "same_heap s s'"
  shows "pub s' = pub s" "lev s' = lev s" "link s' = link s" "val s' = val s" "settled P s' = settled P s" "hs_size s' = hs_size s"
    "hs_nodes s' = hs_nodes s" "hs_buckets s' = hs_buckets s" "hs_shards s' = hs_shards s"
  using assms by (auto simp: same_heap_def pub_def lev_def link_def val_def settled_def fun_eq_iff)

lemma same_heap_heap: "same_heap s s' \<Longrightarrow> hs_heap P s' L = hs_heap P s L"
  unfolding hs_heap_def geometry_def arena_def chains_def spares_def tags_def keys_def tree_def
  by (simp add: same_heapD)

lemma same_heap_env: "same_heap s s' \<Longrightarrow> env_steps P s0 L0 s' L = env_steps P s0 L0 s L"
  unfolding env_steps_def by (simp add: same_heapD)

lemma env_refl: "env_steps P s L s L"
  unfolding env_steps_def by auto

lemma same_heap_effect: "same_heap s s' \<Longrightarrow> step_effect P s0 L0 s' L b = step_effect P s0 L0 s L b"
  unfolding step_effect_def memb_def by (simp add: same_heapD same_heap_heap same_heap_env)

lemma same_heap_pc:
  assumes "same_heap s s'" and "hs_heap P s L" and "pc_ok P s L p" shows "pc_ok P s' L p"
proof (rule pc_ok_stable [OF _ assms(2) _ assms(3)])
  show "hs_heap P s' L" using assms by (simp add: same_heap_heap)
  show "rely P s L s' L (set (priv p)) (crit p)"
    using same_heap_env [OF assms(1), of P s L L] env_refl [of P s L] assms(1) by (simp add: rely_def same_heap_def)
qed

lemma effect_refl: "hs_heap P s L \<Longrightarrow> step_effect P s L s L None"
  unfolding step_effect_def set_change_def using env_refl by auto

lemma effect_heap: "step_effect P s L s' L' b \<Longrightarrow> hs_heap P s' L' \<and> env_steps P s L s' L'"
  by (simp add: step_effect_def)

lemma hs_to_simps [simp]:
  "hs_nodes (hs_to t p s) = hs_nodes s" "hs_buckets (hs_to t p s) = hs_buckets s" "hs_shards (hs_to t p s) = hs_shards s"
  "hs_size (hs_to t p s) = hs_size s" "hs_lock (hs_to t p s) = hs_lock s" "hs_threads (hs_to t p s) = hs_threads s"
  "hs_pcs (hs_to t p s) = (hs_pcs s)(t := p)" "hs_count (hs_to t p s) = hs_count s"
  "hs_number (hs_to t p s) = hs_number s" "hs_next (hs_to t p s) = hs_next s"
  by (simp_all add: hs_to_def)

lemma same_heap_refl: "same_heap s s"
  by (simp add: same_heap_def)

lemma heap_step:
  assumes inv: "hs_inv P s L" and run: "hs_pcs s t \<noteq> Hs_rest"
    and eff: "step_effect P s L s1 L' b" and same: "same_heap s1 s2"
    and pcs: "hs_pcs s2 = hs_pcs s" "hs_threads s2 = hs_threads s"
    and others: "\<And>u. u \<noteq> t \<Longrightarrow> L' (Priv u) = L (Priv u)"
      "\<And>u a. u \<noteq> t \<Longrightarrow> a \<in> set (L (Priv u)) \<Longrightarrow> hs_nodes s1 a = hs_nodes s a"
    and own: "L' (Priv t) = priv p'" "pc_ok P s1 L' p'"
    and lock: "crit p' \<Longrightarrow> hs_lock s2 \<and> (crit (hs_pcs s t) \<or> \<not> hs_lock s)"
    and calm: "calm s s2 \<or> crit (hs_pcs s t) \<or> \<not> hs_lock s"
  shows "ok_step P s L (hs_to t p' s2) b"
proof -
  let ?s = "hs_to t p' s2"
  note e = effect_heap [OF eff]
  have same': "same_heap s1 ?s" using same by (simp add: same_heap_def)
  have "hs_inv P ?s L'"
  proof (rule hs_stepI [OF inv, where t = t and p' = p'])
    show "hs_heap P ?s L'" using e same_heap_heap [OF same'] by blast
    show "env_steps P s L ?s L'" using e same_heap_env [OF same'] by blast
    show "pc_ok P ?s L' p'" using same_heap_pc [OF same' _ own(2)] e by blast
    show "hs_threads ?s = List.insert t (hs_threads s)" using pcs(2) hs_invD(6) [OF inv run] by simp
    show "hs_nodes ?s a = hs_nodes s a" if "u \<noteq> t" "a \<in> set (L (Priv u))" for u a
      using others(2) [OF that] same by (simp add: same_heap_def)
    show "calm s ?s \<or> crit (hs_pcs s t) \<or> \<not> hs_lock s" using calm by (simp add: calm_def)
  qed (use others(1) pcs(1) own(1) lock in auto)
  moreover have "step_effect P s L ?s L' b" using eff same_heap_effect [OF same'] by blast
  ultimately show ?thesis unfolding ok_step_def by blast
qed

text \<open>A step that changes no shared word but the thread's own point.\<close>

lemma local_step:
  assumes inv: "hs_inv P s L" and pc: "hs_pcs s t = p" "p \<noteq> Hs_rest" and own: "priv p' = priv p" "pc_ok P s L p'"
    and lock: "crit p' \<Longrightarrow> crit p"
  shows "ok_step P s L (hs_to t p' s) None"
  by (rule heap_step [OF inv _ effect_refl [OF hs_invD(1) [OF inv]] same_heap_refl])
     (use pc own lock hs_invD(2,5) [OF inv, of t] in \<open>auto simp: calm_def\<close>)

section \<open>Reading heads\<close>

lemma head_some: "hs_heap P s L \<Longrightarrow> j < hs_size s \<Longrightarrow> hs_head s j = Some (hs_buckets s ! j)"
  by (drule heapD(1)) (auto simp: hs_head_def geometry_def)

lemma uninit_tree: "hs_heap P s L \<Longrightarrow> j < hs_size s \<Longrightarrow> addr_of (hs_buckets s ! j) = UNINITIALIZED \<Longrightarrow> in_tree P s j"
  using treeD(1) [OF heapD(8), of P s L j] by (force simp: in_tree_def pub_def not_le)

lemma bucket_lt: "hs_heap P s L \<Longrightarrow> tsz P s ts \<Longrightarrow> bucket_of (hashf P) k ts < hs_size s"
proof -
  assume ts: "tsz P s ts" and h: "hs_heap P s L"
  then have "hv P k mod ts < ts" using cap_pos [OF h] by (intro mod_less_divisor) (auto simp: tsz_def)
  then show ?thesis unfolding bucket_mod [OF ts] using ts by (auto simp: tsz_def)
qed

lemma size_tsz: "hs_heap P s L \<Longrightarrow> tsz P s (hs_size s)"
  by (drule heapD(1)) (auto simp: geometry_def tsz_def)

lemma pub_iff: "j < hs_size s \<Longrightarrow> pub s j \<longleftrightarrow> addr_of (hs_buckets s ! j) \<noteq> UNINITIALIZED"
  by (simp add: pub_def)

lemma split_entry:
  assumes "hs_heap P s L" "j < hs_size s" "addr_of (hs_buckets s ! j) = UNINITIALIZED" "ctx_ok P s cx" "ctx_bucket P cx j"
  shows "frames P s cx j []"
  using assms by (simp add: uninit_tree)

lemma chain_start:
  assumes "hs_heap P s L" "j < hs_size s" "addr_of (hs_buckets s ! j) \<noteq> UNINITIALIZED"
  shows "on_chain s L j (hs_buckets s ! j)" "on_chain s L j (addr_of (hs_buckets s ! j))"
  using chain_head [OF assms(1), of j] assms on_chain_addr [of "addr_of (hs_buckets s ! j)" "hs_buckets s ! j"]
  by (auto simp: pub_iff)

section \<open>\<open>contains\<close> and \<open>erase\<close>\<close>

lemma contains_steps:
  assumes inv: "hs_inv P s L" and pc: "hs_pcs s t = Contains p"
  shows "\<exists>s'. contains_step (hashf P) t p s = Some s' \<and> ok_step P s L s' None"
proof -
  note h = hs_invD(1) [OF inv]
  have ok: "contains_ok P s L p" using hs_invD(3) [OF inv, of t] pc by simp
  note go = local_step [OF inv pc]
  show ?thesis
  proof (cases p)
    case (C_size k)
    then show ?thesis using go [of "Contains (C_head k (hs_size s))"] size_tsz [OF h] by simp
  next
    case (C_head k ts)
    then have ts: "tsz P s ts" using ok by simp
    let ?j = "bucket_of (hashf P) k ts"
    note j = bucket_lt [OF h ts, of k]
    show ?thesis
    proof (cases "addr_of (hs_buckets s ! ?j) = UNINITIALIZED")
      case True
      then show ?thesis using C_head head_some [OF h j] go [of "Split (S_parent (Cx_contains k ts) ?j [])"]
          split_entry [OF h j True, of "Cx_contains k ts"] ts by simp
    next
      case False
      then show ?thesis using C_head head_some [OF h j] go [of "Contains (C_walk k ts (addr_of (hs_buckets s ! ?j)))"]
          chain_start [OF h j False] ts by simp
    qed
  next
    case (C_again k ts)
    then have ts: "tsz P s ts" "pub s (bucket_of (hashf P) k ts)" using ok by simp_all
    let ?j = "bucket_of (hashf P) k ts"
    note j = bucket_lt [OF h ts(1), of k]
    show ?thesis using C_again head_some [OF h j] go [of "Contains (C_walk k ts (addr_of (hs_buckets s ! ?j)))"]
          chain_start [OF h j] ts by (simp add: pub_def)
  next
    case (C_walk k ts cur)
    then have ts: "tsz P s ts" "on_chain s L (bucket_of (hashf P) k ts) cur" using ok by simp_all
    show ?thesis
    proof (cases "addr_of cur = 0")
      case True
      then show ?thesis using C_walk go [of "Contains (C_conf k ts)"] ts by (simp add: EMPTY_def)
    next
      case False
      obtain n where n: "hs_nodes s (addr_of cur) = Some n" "on_chain s L (bucket_of (hashf P) k ts) (nd_link n)"
        using chain_next [OF h ts(2) False] by metis
      then show ?thesis using C_walk False ts go [of "Hs_done (Op_contains k) (Ret True)"] go [of "Contains (C_walk k ts (nd_link n))"]
        by (auto simp: EMPTY_def Let_def)
    qed
  next
    case (C_conf k ts)
    then show ?thesis using go [of "Hs_done (Op_contains k) (Ret False)"] go [of "Contains (C_head k (hs_size s))"] size_tsz [OF h] by auto
  qed
qed

lemma set_link_private:
  assumes h: "hs_heap P s L" and a: "a \<in> set (L (Priv t))" and w: "addr_of w = w"
  shows "step_effect P s L (set_link a w s) L None"
proof -
  obtain n where n: "hs_nodes s a = Some n" using place_node [OF h a] by metis
  then have "set_link a w s = s\<lparr>hs_nodes := (hs_nodes s)(a \<mapsto> n\<lparr>nd_link := w\<rparr>)\<rparr>" by (simp add: set_link_def)
  from write_private_effect [OF h a _ this] show ?thesis using w by simp
qed

lemma set_link_simps [simp]:
  "hs_buckets (set_link a w s) = hs_buckets s" "hs_shards (set_link a w s) = hs_shards s" "hs_size (set_link a w s) = hs_size s"
  "hs_lock (set_link a w s) = hs_lock s" "hs_threads (set_link a w s) = hs_threads s" "hs_pcs (set_link a w s) = hs_pcs s"
  by (simp_all add: set_link_def)

lemma priv_disjoint:
  assumes h: "hs_heap P s L" and "a \<in> set (L p)" and "b \<in> set (L q)" and "p \<noteq> q" shows "b \<noteq> a"
  using ownedD(2) [OF heapD(3) [OF h]] assms by blast

lemma set_link_other: "b \<noteq> a \<Longrightarrow> hs_nodes (set_link a w s) b = hs_nodes s b"
  by (simp add: set_link_def)

lemma erase_steps:
  assumes inv: "hs_inv P s L" and pc: "hs_pcs s t = Erase p"
  shows "\<exists>s'. erase_step (hashf P) t p s = Some s' \<and> ok_step P s L s'
     (case p of E_mark k ts a w \<Rightarrow> if map_option nd_link (hs_nodes s a) = Some w then Some (Del k) else None | _ \<Rightarrow> None)"
proof -
  note h = hs_invD(1) [OF inv]
  have ok: "erase_ok P s L p" using hs_invD(3) [OF inv, of t] pc by simp
  note go = local_step [OF inv pc]
  show ?thesis
  proof (cases p)
    case (E_size k)
    then show ?thesis using go [of "Erase (E_head k (hs_size s))"] size_tsz [OF h] ok by simp
  next
    case (E_head k ts)
    then have ts: "tsz P s ts" "del P" using ok by simp_all
    let ?j = "bucket_of (hashf P) k ts"
    note j = bucket_lt [OF h ts(1), of k]
    show ?thesis
    proof (cases "addr_of (hs_buckets s ! ?j) = UNINITIALIZED")
      case True
      then show ?thesis using E_head head_some [OF h j] go [of "Split (S_parent (Cx_erase k ts) ?j [])"]
          split_entry [OF h j True, of "Cx_erase k ts"] ts by simp
    next
      case False
      then show ?thesis using E_head head_some [OF h j] go [of "Erase (E_walk k ts (addr_of (hs_buckets s ! ?j)))"]
          chain_start [OF h j False] ts by simp
    qed
  next
    case (E_again k ts)
    then have ts: "tsz P s ts" "del P" "pub s (bucket_of (hashf P) k ts)" using ok by simp_all
    let ?j = "bucket_of (hashf P) k ts"
    note j = bucket_lt [OF h ts(1), of k]
    show ?thesis using E_again head_some [OF h j] go [of "Erase (E_walk k ts (addr_of (hs_buckets s ! ?j)))"]
          chain_start [OF h j] ts by (simp add: pub_def)
  next
    case (E_walk k ts cur)
    then have ts: "tsz P s ts" "del P" "on_chain s L (bucket_of (hashf P) k ts) cur" using ok by simp_all
    show ?thesis
    proof (cases "addr_of cur = 0")
      case True
      then show ?thesis using E_walk go [of "Erase (E_conf k ts False)"] ts by (simp add: EMPTY_def)
    next
      case False
      obtain n where n: "hs_nodes s (addr_of cur) = Some n" "nd_link n = link s (addr_of cur)" "nd_value n = val s (addr_of cur)"
        "addr_of cur \<in> set (L (Chain (bucket_of (hashf P) k ts)))" "on_chain s L (bucket_of (hashf P) k ts) (nd_link n)"
        using chain_next [OF h ts(3) False] by metis
      then show ?thesis using E_walk False ts go [of "Erase (E_conf k ts True)"] go [of "Erase (E_walk k ts (nd_link n))"]
          go [of "Erase (E_mark k ts (addr_of cur) (nd_link n))"] chain_pub [OF h n(4)]
        by (auto simp: EMPTY_def Let_def live_read_def)
    qed
  next
    case (E_mark k ts a w)
    let ?j = "bucket_of (hashf P) k ts"
    have ts: "tsz P s ts" "del P" "a \<in> set (L (Chain ?j))" "val s a = k" "\<not> is_marked w" "\<not> is_frozen w"
      using ok E_mark by (simp_all add: live_read_def)
    obtain n where n: "hs_nodes s a = Some n" "nd_link n = link s a" using place_node [OF h ts(3)] by metis
    show ?thesis
    proof (cases "nd_link n = w")
      case True
      let ?s = "set_link a (link s a OR MARK_BIT) s" and ?p = "Hs_done (Op_erase k) (Ret True)"
      have eff: "step_effect P s L ?s L (Some (Del (val s a)))"
        by (rule mark_effect [OF h ts(3,2)]) (use ts n True in auto)
      have "ok_step P s L (hs_to t ?p ?s) (Some (Del (val s a)))"
      proof (rule heap_step [OF inv _ eff same_heap_refl])
        show "hs_nodes ?s b = hs_nodes s b" if "u \<noteq> t" "b \<in> set (L (Priv u))" for u b
          by (rule set_link_other) (use priv_disjoint [OF h ts(3) that(2)] in blast)
      qed (use pc hs_invD(2) [OF inv, of t] in \<open>auto simp: calm_def\<close>)
      then show ?thesis using E_mark n True ts(4) by simp
    next
      case False
      then show ?thesis using E_mark n ts(1,2) go [of "Erase (E_conf k ts (is_frozen (nd_link n)))"] by simp
    qed
  next
    case (E_conf k ts stale)
    then show ?thesis using ok go [of "Hs_done (Op_erase k) (Ret False)"] go [of "Erase (E_head k (hs_size s))"] size_tsz [OF h] by auto
  qed
qed

section \<open>\<open>insert\<close>\<close>

lemma shards_pos: "hs_heap P s L \<Longrightarrow> 0 < length (hs_shards s)"
  by (drule heapD(1)) (auto simp: geometry_def)

lemma my_shard_lt:
  assumes "hs_heap P s L" shows "my_shard t s < length (hs_shards s)"
proof -
  obtain p where p: "length (hs_shards s) = 2 ^ p" using heapD(1) [OF assms] by (auto simp: geometry_def)
  have "unat n AND (length (hs_shards s) - 1) < length (hs_shards s)" for n :: "32 word"
    unfolding and_mask_mod [OF p, of "unat n"] using shards_pos [OF assms] by simp
  then show ?thesis using shards_pos [OF assms] by (simp add: my_shard_def split: option.split)
qed

lemma insertingD:
  assumes "inserting P s L k ts head cur"
  shows "tsz P s ts" "level_of head \<le> level_for ts" "on_chain s L (bucket_of (hashf P) k ts) head"
    "on_chain s L (bucket_of (hashf P) k ts) cur"
    "a \<in> rest L (bucket_of (hashf P) k ts) head \<Longrightarrow> a \<notin> rest L (bucket_of (hashf P) k ts) cur \<Longrightarrow> val s a = k \<Longrightarrow> is_marked (link s a)"
  using assms by (auto simp: inserting_def searched_def)

lemma inserting_start:
  assumes h: "hs_heap P s L" and ts: "tsz P s ts" and j: "j = bucket_of (hashf P) k ts"
    and head: "addr_of (hs_buckets s ! j) \<noteq> UNINITIALIZED" "level_of (hs_buckets s ! j) \<le> level_for ts"
  shows "inserting P s L k ts (hs_buckets s ! j) (addr_of (hs_buckets s ! j))"
proof -
  have jl: "j < hs_size s" using bucket_lt [OF h ts] j by simp
  show ?thesis using ts head chain_start [OF h jl head(1)] rest_addr [of "addr_of (hs_buckets s ! j)" "hs_buckets s ! j" L j]
    unfolding inserting_def searched_def j [symmetric] by simp
qed

lemma inserting_next:
  assumes h: "hs_heap P s L" and i: "inserting P s L k ts head cur" and c: "addr_of cur \<noteq> 0"
    and miss: "\<not> (val s (addr_of cur) = k \<and> \<not> is_marked (link s (addr_of cur)))"
  shows "inserting P s L k ts head (link s (addr_of cur))"
proof -
  let ?j = "bucket_of (hashf P) k ts"
  note d = insertingD [OF i]
  obtain n where n: "nd_link (n :: 'a node) = link s (addr_of cur)" "on_chain s L ?j (nd_link n)"
    "rest L ?j cur = insert (addr_of cur) (rest L ?j (nd_link n))"
    using chain_next [OF h d(4) c] by metis
  have "is_marked (link s a)" if "a \<in> rest L ?j head" "a \<notin> rest L ?j (nd_link n)" "val s a = k" for a
    using d(5) [OF that(1) _ that(3)] n(3) that miss by (cases "a = addr_of cur") auto
  then show ?thesis using d n unfolding inserting_def searched_def by simp
qed

lemma inserting_end:
  assumes h: "hs_heap P s L" and i: "inserting P s L k ts head cur" and c: "addr_of cur = 0"
  shows "inserting P s L k ts head 0"
  using i c rest_zero [OF h c, of "bucket_of (hashf P) k ts"] rest_zero [OF h, of 0 "bucket_of (hashf P) k ts"]
  unfolding inserting_def searched_def on_chain_def by simp

lemma one_segment: "hs_heap P s L \<Longrightarrow> n \<in> set (L p) \<Longrightarrow> sub_segment s [n]"
  by (simp add: sub_segment_def place_addr)

lemma insert_walk_steps:
  assumes inv: "hs_inv P s L" and pc: "hs_pcs s t = Insert (I_walk k nn ts head cur)"
  shows "\<exists>s'. insert_step (hashf P) t (I_walk k nn ts head cur) s = Some s' \<and> ok_step P s L s' None"
proof -
  note h = hs_invD(1) [OF inv]
  have ok: "ctx_ok P s (Cx_insert k nn)" "inserting P s L k ts head cur" using hs_invD(3) [OF inv, of t] pc by simp_all
  have pv: "L (Priv t) = opt_list nn" using hs_invD(2) [OF inv, of t] pc by simp
  note go = local_step [OF inv pc]
  show ?thesis
  proof (cases "addr_of cur = 0")
    case True
    note i0 = inserting_end [OF h ok(2) True]
    show ?thesis
    proof (cases nn)
      case None
      then show ?thesis using True go [of "Alloc (A_start k (Ac_insert k ts head))"] i0 by (simp add: EMPTY_def)
    next
      case (Some n)
      then show ?thesis using True go [of "Insert (I_link k n ts head)"] i0 ok(1) by (simp add: EMPTY_def)
    qed
  next
    case False
    obtain n where n: "hs_nodes s (addr_of cur) = Some n" "nd_link n = link s (addr_of cur)" "nd_value n = val s (addr_of cur)"
      using chain_next [OF h insertingD(4) [OF ok(2)] False] by metis
    show ?thesis
    proof (cases "nd_value n = k \<and> \<not> is_marked (nd_link n)")
      case found: True
      show ?thesis
      proof (cases nn)
        case None
        then show ?thesis using False n(1) found go [of "Hs_done (Op_insert k) (Ret False)"] by (simp add: EMPTY_def)
      next
        case (Some m)
        then have "sub_segment s [m]" using one_segment [OF h, of m "Priv t"] pv by simp
        then show ?thesis using False n(1) found Some my_shard_lt [OF h, of t]
            go [of "Limbo_push (L_head [m] (my_shard t s) (Lc_done (Op_insert k) (Ret False)))"] by (simp add: EMPTY_def)
      qed
    next
      case miss: False
      have "inserting P s L k ts head (nd_link n)" using inserting_next [OF h ok(2) False] miss n by simp
      then show ?thesis using False n(1) miss go [of "Insert (I_walk k nn ts head (nd_link n))"] ok(1) by (auto simp: EMPTY_def Let_def)
    qed
  qed
qed

lemma insert_cas_steps:
  assumes inv: "hs_inv P s L" and pc: "hs_pcs s t = Insert (I_cas k n ts head)"
  shows "\<exists>s'. insert_step (hashf P) t (I_cas k n ts head) s = Some s' \<and> ok_step P s L s'
     (if hs_head s (bucket_of (hashf P) k ts) = Some head then Some (Ins k) else None)"
proof -
  note h = hs_invD(1) [OF inv]
  let ?j = "bucket_of (hashf P) k ts"
  have ok: "val s n = k" "link s n = addr_of head" "inserting P s L k ts head 0" using hs_invD(3) [OF inv, of t] pc by simp_all
  have pv: "L (Priv t) = [n]" using hs_invD(2) [OF inv, of t] pc by simp
  note d = insertingD [OF ok(3)]
  have j: "hs_head s ?j = Some (hs_buckets s ! ?j)" using head_some [OF h bucket_lt [OF h d(1)]] .
  have pj: "pub s ?j" using d(3) by (simp add: on_chain_def)
  show ?thesis
  proof (cases "hs_buckets s ! ?j = head")
    case True
    let ?s = "set_head ?j (prepend_word n (hs_buckets s ! ?j)) s" and ?L = "L(Priv t := [], Chain ?j := n # L (Chain ?j))"
    have eff: "step_effect P s L ?s ?L (Some (Ins (val s n)))"
    proof (rule prepend_effect [OF h d(1) _ pj _ pv])
      show "?j = hv P (val s n) mod ts" using bucket_mod [OF d(1)] ok(1) by simp
      show "lev s ?j \<le> level_for ts" using d(2) True by (simp add: lev_def)
      show "link s n = addr_of (hs_buckets s ! ?j)" using ok(2) True by simp
      show "is_marked (link s a)" if "a \<in> set (L (Chain ?j))" "val s a = val s n" for a
        using d(5) [of a] that chain_head [OF h pj] True rest_zero [OF h, of 0 ?j] ok(1) by simp
    qed simp_all
    have "ok_step P s L (hs_to t (Insert (I_count k ts)) ?s) (Some (Ins (val s n)))"
      by (rule heap_step [OF inv _ eff same_heap_refl])
         (use pc d(1) pub_size [OF pj] in \<open>auto simp: calm_def set_head_def tsz_def\<close>)
    then show ?thesis using True j ok(1) by simp
  next
    case False
    then show ?thesis using j local_step [OF inv pc, of "Insert (I_size k (Some n))"] ok(1) by simp
  qed
qed

lemma insert_steps:
  assumes inv: "hs_inv P s L" and pc: "hs_pcs s t = Insert p" and room: "\<And>k ts. p = I_grow k ts \<Longrightarrow> 2 * ts \<le> 2 ^ 60"
  shows "\<exists>s'. insert_step (hashf P) t p s = Some s' \<and> ok_step P s L s'
     (case p of I_cas k n ts head \<Rightarrow> if hs_head s (bucket_of (hashf P) k ts) = Some head then Some (Ins k) else None | _ \<Rightarrow> None)"
proof -
  note h = hs_invD(1) [OF inv]
  have ok: "insert_ok P s L p" using hs_invD(3) [OF inv, of t] pc by simp
  have pv: "L (Priv t) = insert_priv p" using hs_invD(2) [OF inv, of t] pc by simp
  note go = local_step [OF inv pc]
  have crit: "hs_lock s" if "crit (Insert p)" using hs_invD(5) [OF inv, of t] pc that by simp
  show ?thesis
  proof (cases p)
    case (I_size k nn)
    then show ?thesis using go [of "Insert (I_head k nn (hs_size s))"] size_tsz [OF h] ok by simp
  next
    case (I_head k nn ts)
    then have ts: "tsz P s ts" "ctx_ok P s (Cx_insert k nn)" using ok by simp_all
    let ?j = "bucket_of (hashf P) k ts" let ?w = "hs_buckets s ! ?j"
    note j = bucket_lt [OF h ts(1), of k]
    show ?thesis
    proof (cases "addr_of ?w = UNINITIALIZED")
      case True
      then show ?thesis using I_head head_some [OF h j] go [of "Split (S_parent (Cx_insert k nn) ?j [])"]
          split_entry [OF h j True, of "Cx_insert k nn"] ts by simp
    next
      case False
      show ?thesis
        using I_head head_some [OF h j] False ts go [of "Insert (I_size k nn)"] go [of "Insert (I_walk k nn ts ?w (addr_of ?w))"]
          inserting_start [OF h ts(1) refl, of k] by (cases "level_of ?w > level_for ts") (simp_all add: Let_def)
    qed
  next
    case (I_walk k nn ts head cur)
    then show ?thesis using insert_walk_steps [OF inv] pc by simp
  next
    case (I_link k n ts head)
    then have o: "val s n = k" "inserting P s L k ts head 0" and n: "n \<in> set (L (Priv t))" using ok pv by simp_all
    let ?s = "set_link n (addr_of head) s"
    note eff = set_link_private [OF h n, of "addr_of head", simplified]
    obtain nd where nd: "hs_nodes s n = Some nd" using place_node [OF h n] by metis
    note sl = set_link_nodes [OF nd, of "addr_of head"]
    have "inserting P ?s L k ts head 0" using inserting_stable [OF _ h _ o(2)] effect_heap [OF eff] by blast
    then have "ok_step P s L (hs_to t (Insert (I_cas k n ts head)) ?s) None"
      by (intro heap_step [OF inv _ eff same_heap_refl])
         (use pc pv I_link o sl priv_disjoint [OF h n] in \<open>auto simp: calm_def\<close>)
    then show ?thesis using I_link by simp
  next
    case (I_cas k n ts head)
    then show ?thesis using insert_cas_steps [OF inv] pc by simp
  next
    case (I_count k ts)
    then show ?thesis using ok go [of "Insert (I_lock k ts)"] go [of "Hs_done (Op_insert k) (Ret True)"] by simp
  next
    case (I_lock k ts)
    show ?thesis
    proof (cases "hs_lock s")
      case True
      then show ?thesis using I_lock inv effect_refl [OF h] unfolding ok_step_def by auto
    next
      case False
      have "ok_step P s L (hs_to t (Insert (I_test k ts)) (s\<lparr>hs_lock := True\<rparr>)) None"
        by (rule heap_step [OF inv _ effect_refl [OF h]]) (use pc pv ok I_lock False in \<open>auto simp: same_heap_def\<close>)
      then show ?thesis using I_lock False by simp
    qed
  next
    case (I_test k ts)
    then show ?thesis using ok go [of "Insert (I_grow k ts)"] go [of "Insert (I_unlock k)"] by auto
  next
    case (I_grow k ts)
    then have ts: "ts = hs_size s" using ok by simp
    have le: "ts \<le> length (hs_buckets s)" using heapD(1) [OF h] ts by (simp add: geometry_def)
    note gb = grow_buckets_nth [OF le]
    let ?s = "s\<lparr>hs_buckets := grow_buckets ts (hs_buckets s)\<rparr>"
    have eff: "step_effect P s L ?s L None" by (rule grow_effect [OF h refl]) (use gb ts in auto)
    have "ok_step P s L (hs_to t (Insert (I_store k ts)) ?s) None"
      by (rule heap_step [OF inv _ eff same_heap_refl]) (use pc pv I_grow crit ts gb room [OF I_grow] in auto)
    then show ?thesis using I_grow room by simp
  next
    case (I_store k ts)
    let ?s = "s\<lparr>hs_size := ts * 2\<rparr>"
    have eff: "step_effect P s L ?s L None" by (rule double_effect [OF h refl]) (use ok I_store in auto)
    have "ok_step P s L (hs_to t (Insert (I_unlock k)) ?s) None"
      by (rule heap_step [OF inv _ eff same_heap_refl]) (use pc pv I_store crit in auto)
    then show ?thesis using I_store by simp
  next
    case (I_unlock k)
    have "ok_step P s L (hs_to t (Hs_done (Op_insert k) (Ret True)) (s\<lparr>hs_lock := False\<rparr>)) None"
      by (rule heap_step [OF inv _ effect_refl [OF h]]) (use pc pv I_unlock in \<open>auto simp: same_heap_def\<close>)
    then show ?thesis using I_unlock by simp
  qed
qed

section \<open>\<open>split_bucket\<close>\<close>

lemma seal_level_eq: "0 < j \<Longrightarrow> seal_level j = bit_width_nat j"
proof -
  assume "0 < j"
  then obtain m where m: "bit_width_nat j = Suc m" "bit_floor_nat j = 2 ^ m" using parent_split by metis
  have "bit_floor_nat j * 2 = 2 ^ Suc m" using m(2) by simp
  then show ?thesis unfolding seal_level_def using level_for_pow [of "Suc m"] m(1) by metis
qed

lemma moves_to_maps: "0 < j \<Longrightarrow> moves_to (hashf P) v j \<longleftrightarrow> maps (hv P v) j"
proof -
  assume "0 < j"
  then obtain m where m: "bit_width_nat j = Suc m" "bit_floor_nat j = 2 ^ m" using parent_split by metis
  have e: "bit_floor_nat j * 2 = 2 ^ Suc m" using m(2) by simp
  show ?thesis unfolding moves_to_def maps_def hv_def m(1) and_mask_mod [OF e] unfolding e ..
qed

lemma tree_parent:
  assumes h: "hs_heap P s L" and j: "in_tree P s j"
  shows "0 < j" "parent j < hs_size s" "hs_head s (parent j) = Some (hs_buckets s ! parent j)" "bit_width_nat j < 64"
proof -
  show pos: "0 < j" using j cap_pos [OF h] by (auto simp: in_tree_def)
  have "parent j < j" using pos by simp
  then show pl: "parent j < hs_size s" using j by (auto simp: in_tree_def)
  show "hs_head s (parent j) = Some (hs_buckets s ! parent j)" using head_some [OF h pl] .
  obtain m where "hs_size s = 2 ^ m" "m \<le> 60" using sizes [OF h] by metis
  then show "bit_width_nat j < 64" using width_le [of j m] j by (auto simp: in_tree_def)
qed

lemma after_seal_ok:
  assumes h: "hs_heap P s L" and f: "frames P s cx j js" and p: "pub s (parent j)" and w: "w = hs_buckets s ! parent j"
  shows "pc_ok P s L (after_seal cx j js w)"
proof -
  note tp = tree_parent [OF h frames_in_tree [OF f]]
  note ch = chain_head [OF h p]
  have "splitting P s L j {} w" if "bit_width_nat j \<le> level_of w"
    by (rule splittingI) (use ch that w in \<open>auto simp: lev_def\<close>)
  then show ?thesis using f p seal_level_eq [OF tp(1)] by (auto simp: after_seal_def subs_ok_def sub_head_def EMPTY_def not_less)
qed

lemma after_seal_simps: "priv (after_seal cx j js w) = ctx_priv cx" "crit (after_seal cx j js w) = False"
  by (simp_all add: after_seal_def)

text \<open>The walk passes a node: it is not copied, or it is.\<close>

lemma splitting_skip:
  assumes h: "hs_heap P s L" and sp: "splitting P s L j V w" and w: "addr_of w \<noteq> 0"
    and no: "is_marked (link s (addr_of w)) \<or> \<not> maps (hv P (val s (addr_of w))) j"
  shows "splitting P s L j V (link s (addr_of w))"
proof -
  note d = splittingD [OF sp]
  obtain n where n: "hs_nodes s (addr_of w) = Some n" "nd_link n = link s (addr_of w)" "on_chain s L (parent j) (nd_link n)"
    "rest L (parent j) w = insert (addr_of w) (rest L (parent j) (nd_link n))"
    using chain_next [OF h d(1) w] by metis
  show ?thesis unfolding n(2) [symmetric]
  proof (rule splittingI [OF n(3) d(3)])
    fix a assume a: "a \<in> set (L (Chain (parent j)))" "a \<notin> rest L (parent j) (nd_link n)" "maps (hv P (val s a)) j"
    show "is_marked (link s a) \<or> settled P s a \<and> val s a \<in> V"
      using d(4) [OF a(1) _ a(3)] n(4) a no by (cases "a = addr_of w") auto
  next
    fix v assume "v \<in> V"
    from d(5) [OF this] show "\<exists>a. a \<in> set (L (Chain (parent j))) \<and> a \<notin> rest L (parent j) (nd_link n) \<and> val s a = v \<and> maps (hv P v) j \<and> settled P s a"
      using n(4) by auto
  qed
qed

lemma splitting_copy:
  assumes h: "hs_heap P s L" and sp: "splitting P s L j V w" and w: "addr_of w \<noteq> 0"
    and yes: "settled P s (addr_of w)" "maps (hv P (val s (addr_of w))) j"
  shows "splitting P s L j (insert (val s (addr_of w)) V) (link s (addr_of w))" "val s (addr_of w) \<notin> V"
proof -
  note d = splittingD [OF sp]
  obtain n where n: "hs_nodes s (addr_of w) = Some n" "nd_link n = link s (addr_of w)" "on_chain s L (parent j) (nd_link n)"
    "rest L (parent j) w = insert (addr_of w) (rest L (parent j) (nd_link n))" "addr_of w \<in> set (L (Chain (parent j)))"
    "addr_of w \<notin> rest L (parent j) (nd_link n)"
    using chain_next [OF h d(1) w] by metis
  show "splitting P s L j (insert (val s (addr_of w)) V) (link s (addr_of w))" unfolding n(2) [symmetric]
  proof (rule splittingI [OF n(3) d(3)])
    fix a assume a: "a \<in> set (L (Chain (parent j)))" "a \<notin> rest L (parent j) (nd_link n)" "maps (hv P (val s a)) j"
    show "is_marked (link s a) \<or> settled P s a \<and> val s a \<in> insert (val s (addr_of w)) V"
      using d(4) [OF a(1) _ a(3)] n(4) a yes by (cases "a = addr_of w") auto
  next
    fix v assume "v \<in> insert (val s (addr_of w)) V"
    then consider "v = val s (addr_of w)" | "v \<in> V" by blast
    then show "\<exists>a. a \<in> set (L (Chain (parent j))) \<and> a \<notin> rest L (parent j) (nd_link n) \<and> val s a = v \<and> maps (hv P v) j \<and> settled P s a"
    proof cases
      case 1
      then show ?thesis using n yes by blast
    next
      case 2
      from d(5) [OF this] show ?thesis using n(4) by auto
    qed
  qed
  show "val s (addr_of w) \<notin> V"
  proof
    assume "val s (addr_of w) \<in> V"
    from d(5) [OF this] obtain a where a: "a \<in> set (L (Chain (parent j)))" "a \<notin> rest L (parent j) w" "val s a = val s (addr_of w)" "settled P s a"
      by blast
    then have "a = addr_of w" using keysD(2) [OF heapD(7) [OF h] a(1) n(5)] yes(1) by (auto simp: settled_def)
    then show False using a(2) n(4) by blast
  qed
qed

lemma splitting_end: "hs_heap P s L \<Longrightarrow> splitting P s L j V w \<Longrightarrow> addr_of w = 0 \<Longrightarrow> splitting P s L j V 0"
  by (simp add: splitting_def on_chain_def rest_def)

lemma splitting_addr: "splitting P s L j V (addr_of w) = splitting P s L j V w"
  by (simp add: splitting_def on_chain_def rest_def)

lemma split_walk_steps:
  assumes inv: "hs_inv P s L" and pc: "hs_pcs s t = Split (S_walk cx j js cur subs)"
  shows "\<exists>s'. split_step (del P) (hashf P) t (S_walk cx j js cur subs) s = Some s' \<and> ok_step P s L s' None"
proof -
  note h = hs_invD(1) [OF inv]
  have f: "frames P s cx j js" and so: "subs_ok s subs" and sp: "splitting P s L j (val s ` set subs) cur"
    using hs_invD(3) [OF inv, of t] pc by simp_all
  note go = local_step [OF inv pc]
  note tp = tree_parent [OF h frames_in_tree [OF f]]
  show ?thesis
  proof (cases "addr_of cur = 0")
    case True
    then show ?thesis using go [of "Split (S_pub cx j js subs)"] splitting_end [OF h sp] f so by (simp add: EMPTY_def)
  next
    case False
    let ?a = "addr_of cur"
    obtain n where n: "hs_nodes s ?a = Some n" "nd_link n = link s ?a" "nd_value n = val s ?a" "?a \<in> set (L (Chain (parent j)))"
      using chain_next [OF h splittingD(1) [OF sp] False] by metis
    consider "is_marked (nd_link n) \<or> \<not> moves_to (hashf P) (nd_value n) j"
      | "\<not> is_marked (nd_link n)" "moves_to (hashf P) (nd_value n) j" "del P" "\<not> is_frozen (nd_link n)"
      | "\<not> is_marked (nd_link n)" "moves_to (hashf P) (nd_value n) j" "\<not> del P \<or> is_frozen (nd_link n)" by blast
    then show ?thesis
    proof cases
      case 1
      then have "splitting P s L j (val s ` set subs) (nd_link n)"
        using splitting_skip [OF h sp False] n moves_to_maps [OF tp(1)] by metis
      then show ?thesis using 1 False n(1) f so go [of "Split (S_walk cx j js (nd_link n) subs)"] by (simp add: EMPTY_def Let_def)
    next
      case 2
      then have "pc_ok P s L (Split (S_freeze cx j js ?a (nd_link n) subs))"
        using f so sp n moves_to_maps [OF tp(1), of P] by (simp add: splitting_addr live_read_def)
      then show ?thesis using 2 False n(1) go [of "Split (S_freeze cx j js ?a (nd_link n) subs)"] by (simp add: EMPTY_def Let_def)
    next
      case 3
      then have "settled P s ?a" "maps (hv P (val s ?a)) j" using n moves_to_maps [OF tp(1), of P] by (auto simp: settled_def)
      note c = splitting_copy [OF h sp False this]
      have "ok_step P s L (hs_to t (Alloc (A_start (nd_value n) (Ac_split cx j js (nd_link n) subs))) s) None"
        by (rule go) (use f so c n in auto)
      then show ?thesis using 3 False n(1) by (auto simp: EMPTY_def Let_def)
    qed
  qed
qed

lemma split_freeze_steps:
  assumes inv: "hs_inv P s L" and pc: "hs_pcs s t = Split (S_freeze cx j js a w subs)"
  shows "\<exists>s'. split_step (del P) (hashf P) t (S_freeze cx j js a w subs) s = Some s' \<and> ok_step P s L s' None"
proof -
  note h = hs_invD(1) [OF inv]
  have f: "frames P s cx j js" and so: "subs_ok s subs" and sp: "splitting P s L j (val s ` set subs) a"
    and a: "a \<in> set (L (Chain (parent j)))" and mp: "maps (hv P (val s a)) j" and d: "del P" and lr: "live_read s a w"
    using hs_invD(3) [OF inv, of t] pc by simp_all
  have pv: "L (Priv t) = subs @ ctx_priv cx" using hs_invD(2) [OF inv, of t] pc by simp
  obtain n where n: "hs_nodes s a = Some n" "nd_link n = link s a" "nd_value n = val s a" using place_node [OF h a] by metis
  have aa: "addr_of a = a" "a \<noteq> 0" using place_addr [OF h a] by auto
  note go = local_step [OF inv pc]
  consider "nd_link n = w" | "nd_link n \<noteq> w" "is_marked (nd_link n)" | "nd_link n \<noteq> w" "\<not> is_marked (nd_link n)" "is_frozen (nd_link n)"
    using lr n(2) by (auto simp: live_read_def)
  then show ?thesis
  proof cases
    case 1
    let ?s = "set_link a (link s a OR FROZEN_BIT) s"
    have lv: "\<not> is_marked (link s a)" using 1 lr n(2) by (simp add: live_read_def)
    note eff = freeze_effect [OF h a d lv refl]
    note eh = effect_heap [OF eff(1)]
    note sl = set_link_nodes [OF n(1), of "link s a OR FROZEN_BIT"]
    have nodes: "hs_nodes ?s b = hs_nodes s b" if "b \<in> set (L (Priv u))" for b u
      by (rule set_link_other) (use priv_disjoint [OF h a that] in blast)
    have so': "subs_ok ?s subs" "val ?s ` set subs = val s ` set subs"
      by (rule subs_ok_stable [OF so]; use nodes [of _ t] pv in simp)+
    have sp': "splitting P ?s L j (val ?s ` set subs) a"
      unfolding so'(2) by (rule splitting_stable [OF _ h _ sp]) (use eh frames_in_tree [OF f] in \<open>auto simp: in_tree_def\<close>)
    have va: "val ?s a = val s a" "link ?s a = w OR FROZEN_BIT" using sl 1 n(2) by simp_all
    have c: "splitting P ?s L j (insert (val s a) (val ?s ` set subs)) (w OR FROZEN_BIT)" "val s a \<notin> val ?s ` set subs"
      using splitting_copy [of P ?s L j "val ?s ` set subs" a] eh sp' eff(2) mp unfolding aa(1) va by (auto simp: aa)
    have f': "frames P ?s cx j js" by (rule frames_stable [OF f]) (use sl in auto)
    have "ok_step P s L (hs_to t (Alloc (A_start (nd_value n) (Ac_split cx j js (w OR FROZEN_BIT) subs))) ?s) None"
      by (rule heap_step [OF inv _ eff(1) same_heap_refl]) (use pc pv nodes f' so' c n in \<open>auto simp: calm_def\<close>)
    then show ?thesis using n 1 by simp
  next
    case 2
    have "splitting P s L j (val s ` set subs) (nd_link n)"
      using splitting_skip [OF h sp] 2 n aa by simp
    then show ?thesis using n(1) 2 f so go [of "Split (S_walk cx j js (nd_link n) subs)"] by simp
  next
    case 3
    then have "settled P s a" using n by (simp add: settled_def)
    from splitting_copy [OF h sp, unfolded aa(1), OF aa(2) this mp]
    have "ok_step P s L (hs_to t (Alloc (A_start (nd_value n) (Ac_split cx j js (nd_link n) subs))) s) None"
      by (intro go) (use f so n in auto)
    then show ?thesis using n(1) 3 by simp
  qed
qed

lemma split_return_ok:
  assumes h: "hs_heap P s L" and f: "frames P s cx j js" and p: "pub s j"
  shows "pc_ok P s L (split_return cx js)" "priv (split_return cx js) = ctx_priv cx" "\<not> crit (split_return cx js)"
proof -
  show "pc_ok P s L (split_return cx js)" using f p by (cases js; cases cx) auto
  show "priv (split_return cx js) = ctx_priv cx" "\<not> crit (split_return cx js)" by (cases js; cases cx; simp)+
qed

lemma subs_segment:
  assumes so: "subs_ok s subs" and ne: "subs \<noteq> []"
  shows "sub_segment s subs"
proof -
  have "linked (hs_nodes s) (hd subs) subs 0" using so ne by (cases subs) (simp_all add: subs_ok_def sub_head_def)
  then have "linked (hs_nodes s) (hd subs) (butlast subs @ [last subs]) 0" using ne by simp
  then obtain w where "linked (hs_nodes s) (hd subs) (butlast subs) (addr_of w)" "linked (hs_nodes s) w [last subs] 0"
    unfolding linked_append by blast
  moreover from this(2) have "addr_of w = last subs" by simp
  ultimately show ?thesis using ne by (simp add: sub_segment_def)
qed

lemma split_pub_steps:
  assumes inv: "hs_inv P s L" and pc: "hs_pcs s t = Split (S_pub cx j js subs)"
  shows "\<exists>s'. split_step (del P) (hashf P) t (S_pub cx j js subs) s = Some s' \<and> ok_step P s L s' None"
proof -
  note h = hs_invD(1) [OF inv]
  have f: "frames P s cx j js" and so: "subs_ok s subs" and sp: "splitting P s L j (val s ` set subs) 0"
    using hs_invD(3) [OF inv, of t] pc by simp_all
  have pv: "L (Priv t) = subs @ ctx_priv cx" using hs_invD(2) [OF inv, of t] pc by simp
  have js: "j < hs_size s" using frames_in_tree [OF f] by (simp add: in_tree_def)
  have hd: "hs_head s j = Some (hs_buckets s ! j)" using head_some [OF h js] .
  show ?thesis
  proof (cases "hs_buckets s ! j = UNINITIALIZED")
    case True
    then have np: "\<not> pub s j" by (simp add: pub_def)
    let ?s = "set_head j (sub_head subs) s" and ?L = "L(Priv t := ctx_priv cx, Chain j := subs)"
    note eff = publish_effect [OF h frames_in_tree [OF f] np sp so pv refl refl]
    have f': "frames P ?s cx j js" by (rule frames_stable [OF f]) auto
    have h': "hs_heap P ?s ?L" using effect_heap [OF eff(1)] by blast
    have "ok_step P s L (hs_to t (split_return cx js) ?s) None"
      by (rule heap_step [OF inv _ eff(1) same_heap_refl])
         (use pc js split_return_ok [OF h' f' eff(2)] in \<open>auto simp: calm_def\<close>)
    then show ?thesis using hd True by simp
  next
    case False
    then have p: "pub s j" using heapD(4) [OF h] js unfolding chains_def by (auto split: if_splits)
    note r = split_return_ok [OF h f p]
    show ?thesis
    proof (cases "subs = []")
      case True
      have "ok_step P s L (hs_to t (split_return cx js) s) None" by (rule local_step [OF inv pc]) (use r True in auto)
      then show ?thesis using hd False True by simp
    next
      case ne: False
      have "sub_segment s subs" by (rule subs_segment [OF so ne])
      then have "ok_step P s L (hs_to t (Limbo_push (L_head subs (my_shard t s) (Lc_split cx j js))) s) None"
        by (intro local_step [OF inv pc]) (use f p my_shard_lt [OF h] in auto)
      then show ?thesis using hd False ne by simp
    qed
  qed
qed

lemma split_steps:
  assumes inv: "hs_inv P s L" and pc: "hs_pcs s t = Split p"
  shows "\<exists>s'. split_step (del P) (hashf P) t p s = Some s' \<and> ok_step P s L s' None"
proof -
  note h = hs_invD(1) [OF inv]
  have ok: "split_ok P s L p" using hs_invD(3) [OF inv, of t] pc by simp
  have pv: "L (Priv t) = split_priv p" using hs_invD(2) [OF inv, of t] pc by simp
  note go = local_step [OF inv pc]
  have seal: "ok_step P s L (hs_to t (after_seal cx j js (hs_buckets s ! parent j)) s) None"
    if "frames P s cx j js" "pub s (parent j)" "split_priv p = ctx_priv cx" for cx j js
    by (rule go) (use after_seal_ok [OF h that(1,2) refl] that in \<open>auto simp: after_seal_simps\<close>)
  show ?thesis
  proof (cases p)
    case (S_parent cx j js)
    then have f: "frames P s cx j js" using ok by simp
    note tp = tree_parent [OF h frames_in_tree [OF f]]
    show ?thesis
    proof (cases "addr_of (hs_buckets s ! parent j) = UNINITIALIZED")
      case True
      have "frames P s cx (parent j) (j # js)" using f uninit_tree [OF h tp(2) True] by simp
      then show ?thesis using S_parent tp(3) True go [of "Split (S_parent cx (parent j) (j # js))"] by simp
    next
      case False
      then show ?thesis using S_parent tp seal [OF f] by (simp add: pub_def)
    qed
  next
    case (S_again cx j js)
    then have f: "frames P s cx j js" "pub s (parent j)" using ok by simp_all
    then show ?thesis using S_again tree_parent [OF h frames_in_tree [OF f(1)]] seal [OF f] by simp
  next
    case (S_seal cx j js w)
    then have f: "frames P s cx j js" "pub s (parent j)" "level_of w < bit_width_nat j" using ok by simp_all
    note tp = tree_parent [OF h frames_in_tree [OF f(1)]]
    show ?thesis
    proof (cases "hs_buckets s ! parent j = w")
      case True
      let ?w = "sealed_word (hs_buckets s ! parent j) (seal_level j)" let ?s = "set_head (parent j) ?w s"
      have eff: "step_effect P s L ?s L None"
        by (rule seal_effect [OF h f(2) _ _ refl]) (use f(3) True tp seal_level_eq [OF tp(1)] in \<open>auto simp: lev_def\<close>)
      have h': "hs_heap P ?s L" and e: "env_steps P s L ?s L" using effect_heap [OF eff] by auto
      have "pc_ok P ?s L (after_seal cx j js ?w)"
      proof (rule after_seal_ok [OF h'])
        show "frames P ?s cx j js" by (rule frames_stable [OF f(1)]) auto
        show "pub ?s (parent j)" using envD(4) [OF e f(2)] .
        show "?w = hs_buckets ?s ! parent j" using tp(2) size_le_buckets [OF h] by simp
      qed
      then have "ok_step P s L (hs_to t (after_seal cx j js ?w) ?s) None"
        by (intro heap_step [OF inv _ eff same_heap_refl]) (use pc pv S_seal tp(2) in \<open>auto simp: calm_def after_seal_simps\<close>)
      then show ?thesis using S_seal tp(3) True by (simp add: Let_def)
    next
      case False
      then show ?thesis using S_seal tp(3) seal [OF f(1,2)] by simp
    qed
  next
    case (S_walk cx j js cur subs)
    then show ?thesis using split_walk_steps [OF inv] pc by simp
  next
    case (S_freeze cx j js a w subs)
    then show ?thesis using split_freeze_steps [OF inv] pc by simp
  next
    case (S_pub cx j js subs)
    then show ?thesis using split_pub_steps [OF inv] pc by simp
  qed
qed

end
