(* ===== verification/Hash_Set_Exec.thy ===== *)
theory Hash_Set_Exec
  imports Hash_Set_Steps
begin

text \<open>
  The remaining accesses (allocation, limbo lists), spurious failures, exceptions and calls; then the theorem
  about one action of the machine, \<open>hs_exec_ok\<close>.
\<close>

section \<open>\<open>alloc_node\<close>\<close>

lemma set_shard_simps [simp]:
  "hs_nodes (set_shard i sh s) = hs_nodes s" "hs_buckets (set_shard i sh s) = hs_buckets s" "hs_size (set_shard i sh s) = hs_size s"
  "hs_shards (set_shard i sh s) = (hs_shards s)[i := sh]" "hs_pcs (set_shard i sh s) = hs_pcs s" "hs_lock (set_shard i sh s) = hs_lock s"
  "hs_threads (set_shard i sh s) = hs_threads s" "val (set_shard i sh s) = val s" "link (set_shard i sh s) = link s"
  by (simp_all add: set_shard_def val_def link_def fun_eq_iff)

lemma free_top:
  assumes h: "hs_heap P s L" and i: "i < length (hs_shards s)" and a: "a = free_addr_of (sh_free (hs_shards s ! i))" "a \<noteq> 0"
  obtains xs where "L (Free i) = a # xs" "hs_nodes s a \<noteq> None"
proof -
  have l: "linked (hs_nodes s) a (L (Free i)) 0" using sparesD(1) [OF heapD(5) [OF h] i] a by simp
  have "addr_of a = a" using a by simp
  then obtain xs where x: "L (Free i) = a # xs" using l a(2) by (cases "L (Free i)") auto
  moreover have "hs_nodes s a \<noteq> None" using l x by auto
  ultimately show ?thesis using that by blast
qed

lemma pop_test_ok:
  assumes h: "hs_heap P s L" and i: "i < length (hs_shards s)" and c: "acont_ok P s L c v"
  shows "pc_ok P s L (pop_test v c i (sh_free (hs_shards s ! i)))" "priv (pop_test v c i w) = acont_priv c" "\<not> crit (pop_test v c i w)"
proof -
  show "pc_ok P s L (pop_test v c i (sh_free (hs_shards s ! i)))"
    using free_top [OF h i refl] i c by (auto simp: pop_test_def FREE_EMPTY_def)
qed (simp_all add: pop_test_def)

lemma alloc_next_bare:
  assumes h: "hs_heap P s L" and c: "set (acont_priv c) \<subseteq> set (L p)"
  shows "addr_of (alloc_next c) = alloc_next c"
proof (cases c)
  case (Ac_split cx j js w subs)
  then show ?thesis using c place_addr [OF h, of _ p] by (cases subs) (auto simp: sub_head_def EMPTY_def)
qed simp

lemma alloc_return_ok:
  assumes h: "hs_heap P s L" and c: "acont_ok P s L c v" and n: "val s n = v" "link s n = alloc_next c" "n \<in> set (L p)"
  shows "pc_ok P s L (alloc_return c n)" "priv (alloc_return c n) = n # acont_priv c" "\<not> crit (alloc_return c n)"
proof -
  obtain nd where nd: "hs_nodes s n = Some nd" "nd_link nd = link s n" "addr_of n = n"
    using place_node [OF h n(3)] by (metis node_addr_iff)
  show "pc_ok P s L (alloc_return c n)"
  proof (cases c)
    case (Ac_insert k ts head)
    then show ?thesis using c n by simp
  next
    case (Ac_split cx j js w subs)
    then have "subs_ok s (n # subs)" using c n nd by (auto simp: subs_ok_def sub_head_def)
    then show ?thesis using c Ac_split n(1) by simp
  qed
  show "priv (alloc_return c n) = n # acont_priv c" "\<not> crit (alloc_return c n)" by (cases c; simp)+
qed

lemma set_value_simps [simp]:
  "hs_buckets (set_value a v s) = hs_buckets s" "hs_shards (set_value a v s) = hs_shards s" "hs_size (set_value a v s) = hs_size s"
  "hs_lock (set_value a v s) = hs_lock s" "hs_threads (set_value a v s) = hs_threads s" "hs_pcs (set_value a v s) = hs_pcs s"
  by (simp_all add: set_value_def)

lemma set_value_private:
  assumes h: "hs_heap P s L" and a: "a \<in> set (L (Priv t))"
  shows "step_effect P s L (set_value a v s) L None" "val (set_value a v s) a = v"
    "b \<noteq> a \<Longrightarrow> hs_nodes (set_value a v s) b = hs_nodes s b"
proof -
  obtain n where n: "hs_nodes s a = Some n" "nd_link n = link s a" using place_node [OF h a] by metis
  then have e: "set_value a v s = s\<lparr>hs_nodes := (hs_nodes s)(a \<mapsto> n\<lparr>nd_value := v\<rparr>)\<rparr>" by (simp add: set_value_def)
  show "step_effect P s L (set_value a v s) L None"
    by (rule write_private_effect [OF h a _ e]) (use bare_link [OF h a] n in simp)
  show "val (set_value a v s) a = v" "b \<noteq> a \<Longrightarrow> hs_nodes (set_value a v s) b = hs_nodes s b"
    using e n by (simp_all add: val_def)
qed

lemma thread_number_same: "same_heap s (thread_number t s)" "hs_pcs (thread_number t s) = hs_pcs s" "hs_lock (thread_number t s) = hs_lock s"
  "hs_threads (thread_number t s) = hs_threads s"
  by (simp_all add: thread_number_def same_heap_def split: option.split)

lemma alloc_cas_steps:
  assumes inv: "hs_inv P s L" and pc: "hs_pcs s t = Alloc (A_cas v c i head w)"
  shows "\<exists>s'. alloc_step t (A_cas v c i head w) s = Some s' \<and> ok_step P s L s' None"
proof -
  note h = hs_invD(1) [OF inv]
  have ok: "acont_ok P s L c v" "i < length (hs_shards s)" "hs_nodes s (free_addr_of head) \<noteq> None"
    "free_addr_of head \<in> set (L (Free i)) \<Longrightarrow> link s (free_addr_of head) = w"
    using hs_invD(3) [OF inv, of t] pc by simp_all
  have pv: "L (Priv t) = acont_priv c" using hs_invD(2) [OF inv, of t] pc by simp
  have sh: "hs_shard s i = Some (hs_shards s ! i)" using ok by (simp add: hs_shard_def)
  show ?thesis
  proof (cases "sh_free (hs_shards s ! i) = head")
    case True
    let ?a = "free_addr_of head"
    have a0: "?a \<noteq> 0" using ok(3) heapD(2) [OF h] by (auto simp: arena_def node_addr_def dom_def)
    obtain xs where xs: "L (Free i) = ?a # xs" using free_top [OF h ok(2), of ?a] True a0 by metis
    then have lk: "link s ?a = w" using ok(4) by simp
    let ?s = "set_shard i ((hs_shards s ! i)\<lparr>sh_free := free_word (link s ?a) (head + FREE_POP_ONE)\<rparr>) s"
    let ?L = "L(Free i := xs, Priv t := ?a # L (Priv t))"
    let ?p = "Alloc ((if head AND FREE_BATCH_MASK = 0 then A_count else A_value) v c i ?a)"
    have eff: "step_effect P s L ?s ?L None" by (rule pop_effect [OF h ok(2) xs refl refl])
    have "acont_ok P ?s ?L c v" by (rule acont_ok_stable [OF _ h _ _ ok(1)]) (use effect_heap [OF eff] in auto)
    then have "ok_step P s L (hs_to t ?p ?s) None"
      by (intro heap_step [OF inv _ eff same_heap_refl]) (use pc pv ok in \<open>auto simp: calm_def\<close>)
    then show ?thesis using sh True lk by simp
  next
    case False
    have "ok_step P s L (hs_to t (pop_test v c i (sh_free (hs_shards s ! i))) s) None"
      by (rule local_step [OF inv pc]) (use pop_test_ok [OF h ok(2,1)] in auto)
    then show ?thesis using sh False by simp
  qed
qed

lemma alloc_steps:
  assumes inv: "hs_inv P s L" and pc: "hs_pcs s t = Alloc p" and no: "\<And>v c i. p \<noteq> A_append v c i"
  shows "\<exists>s'. alloc_step t p s = Some s' \<and> ok_step P s L s' None"
proof -
  note h = hs_invD(1) [OF inv]
  have ok: "alloc_ok P s L p" using hs_invD(3) [OF inv, of t] pc by simp
  have pv: "L (Priv t) = alloc_priv p" using hs_invD(2) [OF inv, of t] pc by simp
  note go = local_step [OF inv pc]
  have fresh: "b \<noteq> n" if "L (Priv t) = n # acont_priv c" "b \<in> set (acont_priv c)" for n b c
    using ownedD(1) [OF heapD(3) [OF h], of "Priv t"] that by auto
  show ?thesis
  proof (cases p)
    case (A_start v c)
    let ?s = "thread_number t s"
    have "hs_heap P ?s L" using h same_heap_heap [OF thread_number_same(1)] by blast
    then have "my_shard t ?s < length (hs_shards s)" using my_shard_lt [of P ?s L t] by (simp add: same_heapD(9) [OF thread_number_same(1)])
    then have "ok_step P s L (hs_to t (Alloc (A_head v c (my_shard t ?s))) ?s) None"
      by (intro heap_step [OF inv _ effect_refl [OF h] thread_number_same(1)])
         (use pc pv ok A_start in \<open>auto simp: calm_def thread_number_same same_heapD(6,8) [OF thread_number_same(1)]\<close>)
    then show ?thesis using A_start by (simp add: Let_def)
  next
    case (A_head v c i)
    have "ok_step P s L (hs_to t (pop_test v c i (sh_free (hs_shards s ! i))) s) None"
      by (rule go) (use ok A_head pop_test_ok [OF h] in auto)
    then show ?thesis using ok A_head by (simp add: hs_shard_def)
  next
    case (A_link v c i head)
    then obtain n where n: "hs_nodes s (free_addr_of head) = Some n" using ok by auto
    then have "nd_link n = link s (free_addr_of head)" by (simp add: link_def)
    then show ?thesis using A_link n ok go [of "Alloc (A_cas v c i head (nd_link n))"] by simp
  next
    case (A_cas v c i head w)
    then show ?thesis using alloc_cas_steps [OF inv] pc by simp
  next
    case (A_count v c i n)
    have "ok_step P s L (hs_to t (Alloc (A_value v c i n)) (s\<lparr>hs_count := hs_count s + 256\<rparr>)) None"
      by (rule heap_step [OF inv _ effect_refl [OF h]]) (use pc pv ok A_count in \<open>auto simp: same_heap_def calm_def\<close>)
    then show ?thesis using A_count by simp
  next
    case (A_value v c i n)
    then have o: "acont_ok P s L c v" and n: "n \<in> set (L (Priv t))" and pv': "L (Priv t) = n # acont_priv c" using ok pv by simp_all
    note sv = set_value_private [OF h n, where v = v]
    have "acont_ok P (set_value n v s) L c v"
      by (rule acont_ok_stable [OF _ h _ _ o]) (use effect_heap [OF sv(1)] sv(3) fresh [OF pv'] in auto)
    then have "ok_step P s L (hs_to t (Alloc (A_store v c n)) (set_value n v s)) None"
      by (intro heap_step [OF inv _ sv(1) same_heap_refl]) (use pc pv' sv priv_disjoint [OF h n] in \<open>auto simp: calm_def\<close>)
    then show ?thesis using A_value by simp
  next
    case (A_store v c n)
    then have o: "acont_ok P s L c v" "val s n = v" and n: "n \<in> set (L (Priv t))" and pv': "L (Priv t) = n # acont_priv c" using ok pv by simp_all
    let ?s = "set_link n (alloc_next c) s"
    have bare: "addr_of (alloc_next c) = alloc_next c" by (rule alloc_next_bare [OF h, of _ "Priv t"]) (use pv' in auto)
    note eff = set_link_private [OF h n bare]
    obtain nd where nd: "hs_nodes s n = Some nd" using place_node [OF h n] by metis
    note sl = set_link_nodes [OF nd, of "alloc_next c"]
    have c': "acont_ok P ?s L c v"
      by (rule acont_ok_stable [OF _ h _ _ o(1)]) (use effect_heap [OF eff] fresh [OF pv'] in \<open>auto intro!: set_link_other\<close>)
    have h': "hs_heap P ?s L" using effect_heap [OF eff] by blast
    have "val ?s n = v" "link ?s n = alloc_next c" using sl o by simp_all
    note ar = alloc_return_ok [OF h' c' this n]
    have "ok_step P s L (hs_to t (alloc_return c n) ?s) None"
      by (rule heap_step [OF inv _ eff same_heap_refl]) (use pc pv' ar priv_disjoint [OF h n] in \<open>auto simp: calm_def intro!: set_link_other\<close>)
    then show ?thesis using A_store by simp
  next
    case (A_batch v c n)
    then have n: "n \<in> set (L (Priv t))" using pv by simp
    have "ok_step P s L (hs_to t (alloc_return c n) (s\<lparr>hs_count := hs_count s + 256\<rparr>)) None"
      by (rule heap_step [OF inv _ effect_refl [OF h]])
         (use pc pv ok A_batch alloc_return_ok [OF h _ _ _ n] in \<open>auto simp: same_heap_def calm_def\<close>)
    then show ?thesis using A_batch by simp
  qed (use no in blast)
qed

lemma append_steps:
  assumes inv: "hs_inv P s L" and e: "alloc_append t a s = Some s'"
  shows "ok_step P s L s' None"
proof -
  note h = hs_invD(1) [OF inv]
  obtain v c i where pc: "hs_pcs s t = Alloc (A_append v c i)"
    using e by (auto simp: alloc_append_def split: hs_pc.splits alloc_pc.splits)
  have ok: "acont_ok P s L c v" "i < length (hs_shards s)" using hs_invD(3) [OF inv, of t] pc by simp_all
  have pv: "L (Priv t) = acont_priv c" using hs_invD(2) [OF inv, of t] pc by simp
  let ?sh = "hs_shards s ! i"
  let ?s = "set_shard i (?sh\<lparr>sh_nodes := sh_nodes ?sh @ [a]\<rparr>) (s\<lparr>hs_nodes := (hs_nodes s)(a \<mapsto> \<lparr>nd_value = v, nd_link = alloc_next c\<rparr>)\<rparr>)"
  let ?p = "if length (sh_nodes ?sh) AND 255 = 0 then Alloc (A_batch v c a) else alloc_return c a"
  let ?L = "L(Priv t := a # L (Priv t))"
  have a: "node_addr a" "hs_nodes s a = None" and s': "s' = hs_to t ?p ?s"
    using e pc ok(2) by (auto simp: alloc_append_def hs_shard_def split: if_splits)
  have bare: "addr_of (alloc_next c) = alloc_next c" by (rule alloc_next_bare [OF h, of _ "Priv t"]) (use pv in auto)
  have eff: "step_effect P s L ?s ?L None" by (rule append_effect [OF h ok(2) a _ refl refl]) (use bare in simp)
  have old: "hs_nodes ?s b = hs_nodes s b" if "b \<in> set (L p)" for b p
    using ownedD(3) [OF heapD(3) [OF h] that] a(2) by auto
  have c': "acont_ok P ?s ?L c v"
    by (rule acont_ok_stable [OF _ h _ _ ok(1)]) (use effect_heap [OF eff] old [of _ "Priv t"] pv in auto)
  have h': "hs_heap P ?s ?L" using effect_heap [OF eff] by blast
  have "val ?s a = v" "link ?s a = alloc_next c" "a \<in> set (?L (Priv t))" by (simp_all add: set_shard_def val_def link_def)
  note ar = alloc_return_ok [OF h' c' this]
  have p: "pc_ok P ?s ?L ?p" "priv ?p = a # acont_priv c" "\<not> crit ?p"
  proof -
    have "pc_ok P ?s ?L (Alloc (A_batch v c a))" using c' \<open>val ?s a = v\<close> \<open>link ?s a = alloc_next c\<close> by simp
    then show "pc_ok P ?s ?L ?p" using ar(1) by presburger
    show "priv ?p = a # acont_priv c" "\<not> crit ?p" using ar(2,3) by simp_all
  qed
  show ?thesis unfolding s'
  proof (rule heap_step [OF inv _ eff same_heap_refl _ _ _ _ _ p(1)])
    show "hs_nodes ?s b = hs_nodes s b" if "u \<noteq> t" "b \<in> set (L (Priv u))" for u b using old that(2) by blast
  qed (use pc pv p(2,3) in \<open>auto simp: calm_def\<close>)
qed

section \<open>\<open>push_limbo\<close> and exceptions\<close>

lemma raise_ctx_ok:
  assumes h: "hs_heap P s L" and i: "i < length (hs_shards s)" and p: "set (ctx_priv cx) \<subseteq> set (L p)"
  shows "pc_ok P s L (raise_ctx cx i)" "priv (raise_ctx cx i) = ctx_priv cx" "\<not> crit (raise_ctx cx i)"
proof -
  have "pc_ok P s L (raise_ctx cx i) \<and> priv (raise_ctx cx i) = ctx_priv cx \<and> \<not> crit (raise_ctx cx i)"
  proof (cases cx)
    case (Cx_insert k nn)
    then show ?thesis using i p one_segment [OF h] by (cases nn) auto
  qed simp_all
  then show "pc_ok P s L (raise_ctx cx i)" "priv (raise_ctx cx i) = ctx_priv cx" "\<not> crit (raise_ctx cx i)" by blast+
qed

lemma raise_split_ok:
  assumes h: "hs_heap P s L" and i: "i < length (hs_shards s)" and p: "set (ctx_priv cx) \<subseteq> set (L p)"
    and so: "subs_ok s subs" and cx: "ctx_ok P s cx"
  shows "pc_ok P s L (raise_split cx subs i)" "priv (raise_split cx subs i) = subs @ ctx_priv cx" "\<not> crit (raise_split cx subs i)"
  using raise_ctx_ok [OF h i p] subs_segment [OF so] i cx by (cases subs; simp)+

lemma raise_alloc_ok:
  assumes h: "hs_heap P s L" and i: "i < length (hs_shards s)" and p: "set (acont_priv c) \<subseteq> set (L p)" and c: "araise_ok P s c"
  shows "pc_ok P s L (raise_alloc c i)" "priv (raise_alloc c i) = acont_priv c" "\<not> crit (raise_alloc c i)"
proof -
  have "pc_ok P s L (raise_alloc c i) \<and> priv (raise_alloc c i) = acont_priv c \<and> \<not> crit (raise_alloc c i)"
  proof (cases c)
    case (Ac_split cx j js w subs)
    then have "set (ctx_priv cx) \<subseteq> set (L p)" "subs_ok s subs" "ctx_ok P s cx" using p c by auto
    from raise_split_ok [OF h i this] show ?thesis using Ac_split by simp
  qed simp
  then show "pc_ok P s L (raise_alloc c i)" "priv (raise_alloc c i) = acont_priv c" "\<not> crit (raise_alloc c i)" by blast+
qed

lemma limbo_return_ok:
  assumes h: "hs_heap P s L" and i: "i < length (hs_shards s)" and p: "set (lcont_priv c) \<subseteq> set (L p)" and c: "lcont_ok P s c"
  shows "pc_ok P s L (limbo_return c i)" "priv (limbo_return c i) = lcont_priv c" "\<not> crit (limbo_return c i)"
proof -
  have "pc_ok P s L (limbo_return c i) \<and> priv (limbo_return c i) = lcont_priv c \<and> \<not> crit (limbo_return c i)"
  proof (cases c)
    case (Lc_split cx j js)
    then show ?thesis using split_return_ok [OF h] c by auto
  next
    case (Lc_raise cx)
    then show ?thesis using raise_ctx_ok [OF h i] p by auto
  next
    case (Lc_alloc ac)
    then show ?thesis using raise_alloc_ok [OF h i] p c by auto
  qed simp
  then show "pc_ok P s L (limbo_return c i)" "priv (limbo_return c i) = lcont_priv c" "\<not> crit (limbo_return c i)" by blast+
qed

lemma frames_ctx: "frames P s cx j js \<Longrightarrow> ctx_ok P s cx"
  by (induction js arbitrary: j) auto

lemma acont_raise: "acont_ok P s L c v \<Longrightarrow> araise_ok P s c"
  by (cases c) (auto dest: frames_ctx)

lemma limbo_steps:
  assumes inv: "hs_inv P s L" and pc: "hs_pcs s t = Limbo_push p"
  shows "\<exists>s'. limbo_step t p s = Some s' \<and> ok_step P s L s' None"
proof -
  note h = hs_invD(1) [OF inv]
  have ok: "limbo_ok P s L p" using hs_invD(3) [OF inv, of t] pc by simp
  have pv: "L (Priv t) = limbo_priv p" using hs_invD(2) [OF inv, of t] pc by simp
  note go = local_step [OF inv pc]
  note bare = sparesD(3) [OF heapD(5) [OF h]]
  show ?thesis
  proof (cases p)
    case (L_head xs i c)
    then show ?thesis using ok bare go [of "Limbo_push (L_link xs i c (sh_limbo (hs_shards s ! i)))"] by (simp add: hs_shard_def)
  next
    case (L_link xs i c w)
    then have o: "lcont_ok P s c" "i < length (hs_shards s)" "sub_segment s xs" "addr_of w = w" and pv': "L (Priv t) = xs @ lcont_priv c"
      using ok pv by simp_all
    have ne: "xs \<noteq> []" using o(3) by (simp add: sub_segment_def)
    have n: "last xs \<in> set (L (Priv t))" using ne pv' by simp
    have "distinct ((butlast xs @ [last xs]) @ lcont_priv c)" using ownedD(1) [OF heapD(3) [OF h], of "Priv t"] pv' append_butlast_last_id [OF ne] by metis
    then have d: "last xs \<notin> set (butlast xs)" "last xs \<notin> set (lcont_priv c)" by auto
    let ?s = "set_link (last xs) w s"
    note eff = set_link_private [OF h n o(4)]
    note e = effect_heap [OF eff]
    obtain nd where nd: "hs_nodes s (last xs) = Some nd" using place_node [OF h n] by metis
    note sl = set_link_nodes [OF nd, of w]
    have "lcont_ok P ?s c"
      by (rule lcont_ok_stable [OF _ _ o(1), of L _ L]) (use e d in \<open>auto intro!: set_link_other\<close>)
    moreover have "linked (hs_nodes ?s) (hd xs) (butlast xs) (last xs) = linked (hs_nodes s) (hd xs) (butlast xs) (last xs)"
      by (rule linked_cong, rule set_link_other) (use d(1) in blast)
    then have "sub_segment ?s xs" using o(3) by (simp add: sub_segment_def)
    ultimately have "ok_step P s L (hs_to t (Limbo_push (L_cas xs i c w)) ?s) None"
      by (intro heap_step [OF inv _ eff same_heap_refl]) (use pc pv' o sl(6) priv_disjoint [OF h n] in \<open>auto simp: calm_def intro!: set_link_other\<close>)
    then show ?thesis using L_link by simp
  next
    case (L_cas xs i c w)
    then have o: "lcont_ok P s c" "i < length (hs_shards s)" "sub_segment s xs" "addr_of w = w" "link s (last xs) = w"
      and pv': "L (Priv t) = xs @ lcont_priv c" using ok pv by simp_all
    show ?thesis
    proof (cases "sh_limbo (hs_shards s ! i) = w")
      case True
      let ?s = "set_shard i ((hs_shards s ! i)\<lparr>sh_limbo := hd xs\<rparr>) s"
      let ?L = "L(Priv t := lcont_priv c, Limbo i := xs @ L (Limbo i))"
      have eff: "step_effect P s L ?s ?L None" by (rule limbo_effect [OF h o(2) pv' o(3) _ refl refl]) (use o(5) True in simp)
      note e = effect_heap [OF eff]
      have "lcont_ok P ?s c" by (rule lcont_ok_stable [OF _ _ o(1), of L _ ?L]) (use e in auto)
      then have "ok_step P s L (hs_to t (limbo_return c i) ?s) None"
        by (intro heap_step [OF inv _ eff same_heap_refl])
           (use pc o e limbo_return_ok [of P ?s ?L i c "Priv t"] in \<open>auto simp: calm_def\<close>)
      then show ?thesis using L_cas o(2) True by (simp add: hs_shard_def)
    next
      case False
      then show ?thesis using L_cas o bare go [of "Limbo_push (L_link xs i c (sh_limbo (hs_shards s ! i)))"] by (simp add: hs_shard_def)
    qed
  qed
qed

lemma weak_steps:
  assumes inv: "hs_inv P s L" and e: "weak_fail t (hs_pcs s t) s = Some s'"
  shows "ok_step P s L s' None"
proof -
  note h = hs_invD(1) [OF inv]
  note ok = hs_invD(3) [OF inv, of t]
  consider cx j js w where "hs_pcs s t = Split (S_seal cx j js w)"
    | v c i hd w where "hs_pcs s t = Alloc (A_cas v c i hd w)" | xs i c w where "hs_pcs s t = Limbo_push (L_cas xs i c w)"
    using e by (auto simp: weak_fail_def split: hs_pc.splits split_pc.splits alloc_pc.splits limbo_pc.splits)
  then show ?thesis
  proof cases
    case 1
    then have f: "frames P s cx j js" "pub s (parent j)" using ok by simp_all
    have "s' = hs_to t (after_seal cx j js (hs_buckets s ! parent j)) s"
      using e 1 tree_parent [OF h frames_in_tree [OF f(1)]] by (simp add: weak_fail_def)
    moreover have "ok_step P s L (hs_to t (after_seal cx j js (hs_buckets s ! parent j)) s) None"
      by (rule local_step [OF inv 1]) (use after_seal_ok [OF h f refl] in \<open>simp_all add: after_seal_simps\<close>)
    ultimately show ?thesis by simp
  next
    case 2
    then have i: "i < length (hs_shards s)" "acont_ok P s L c v" using ok by simp_all
    have "s' = hs_to t (pop_test v c i (sh_free (hs_shards s ! i))) s" using e 2 i by (simp add: weak_fail_def hs_shard_def)
    moreover have "ok_step P s L (hs_to t (pop_test v c i (sh_free (hs_shards s ! i))) s) None"
      by (rule local_step [OF inv 2]) (use pop_test_ok [OF h i] in auto)
    ultimately show ?thesis by simp
  next
    case 3
    then have i: "i < length (hs_shards s)" using ok by simp
    have "s' = hs_to t (Limbo_push (L_link xs i c (sh_limbo (hs_shards s ! i)))) s" using e 3 i by (simp add: weak_fail_def hs_shard_def)
    moreover have "ok_step P s L (hs_to t (Limbo_push (L_link xs i c (sh_limbo (hs_shards s ! i)))) s) None"
      by (rule local_step [OF inv 3]) (use ok 3 sparesD(3) [OF heapD(5) [OF h] i] in auto)
    ultimately show ?thesis by simp
  qed
qed

lemma throw_steps:
  assumes inv: "hs_inv P s L" and e: "throw_step t (hs_pcs s t) s = Some p'"
  shows "ok_step P s L (hs_to t p' s) None"
proof -
  note h = hs_invD(1) [OF inv]
  note ok = hs_invD(3) [OF inv, of t] and pv = hs_invD(2) [OF inv, of t]
  note i = my_shard_lt [OF h, of t]
  consider k ts cur where "hs_pcs s t = Contains (C_walk k ts cur) \<or> hs_pcs s t = Contains (C_head k ts)" "p' = Hs_done (Op_contains k) Throw"
    | k ts cur where "hs_pcs s t = Erase (E_walk k ts cur) \<or> hs_pcs s t = Erase (E_head k ts)" "p' = Hs_done (Op_erase k) Throw"
    | k nn ts hd cur where "hs_pcs s t = Insert (I_walk k nn ts hd cur) \<or> hs_pcs s t = Insert (I_head k nn ts)" "p' = raise_ctx (Cx_insert k nn) (my_shard t s)"
    | cx j js cur subs where "hs_pcs s t = Split (S_walk cx j js cur subs)" "p' = raise_split cx subs (my_shard t s)"
    | v c i n where "hs_pcs s t = Alloc (A_value v c i n)" "p' = Limbo_push (L_head [n] i (Lc_alloc c))"
    | v c i where "hs_pcs s t = Alloc (A_append v c i)" "p' = raise_alloc c i"
    | k ts where "hs_pcs s t = Insert (I_grow k ts)" "p' = Insert (I_unlock k)"
    using e by (auto simp: throw_step_def split: hs_pc.splits contains_pc.splits erase_pc.splits insert_pc.splits split_pc.splits alloc_pc.splits)
  then show ?thesis
  proof cases
    case 1
    show ?thesis by (rule local_step [OF inv refl]) (use 1 in auto)
  next
    case 2
    show ?thesis by (rule local_step [OF inv refl]) (use 2 in auto)
  next
    case 7
    show ?thesis by (rule local_step [OF inv 7(1)]) (use 7(2) in simp_all)
  next
    case 3
    show ?thesis by (rule local_step [OF inv refl]) (use 3 pv raise_ctx_ok [OF h i, of "Cx_insert k nn" "Priv t"] in auto)
  next
    case 4
    then have o: "subs_ok s subs" "ctx_ok P s cx" using ok by (auto dest: frames_ctx)
    show ?thesis by (rule local_step [OF inv 4(1)]) (use 4 pv raise_split_ok [OF h i _ o, of "Priv t"] in auto)
  next
    case 5
    then have o: "acont_ok P s L c v" "n \<in> set (L (Priv t))" "i < length (hs_shards s)" using ok pv by auto
    show ?thesis by (rule local_step [OF inv 5(1)]) (use 5 o acont_raise [OF o(1)] one_segment [OF h o(2)] in auto)
  next
    case 6
    then have o: "acont_ok P s L c v" "i < length (hs_shards s)" using ok by auto
    show ?thesis by (rule local_step [OF inv 6(1)]) (use 6 pv raise_alloc_ok [OF h o(2) _ acont_raise [OF o(1)], of "Priv t"] in auto)
  qed
qed

section \<open>Actions\<close>

lemma call_steps:
  assumes inv: "hs_inv P s L" and r: "at_rest (hs_pcs s t)" and p: "op_start (del P) op = Some p"
  shows "ok_step P s L (hs_to t p (s\<lparr>hs_threads := List.insert t (hs_threads s)\<rparr>)) None"
proof -
  note h = hs_invD(1) [OF inv]
  let ?s = "hs_to t p (s\<lparr>hs_threads := List.insert t (hs_threads s)\<rparr>)"
  have same: "same_heap s ?s" by (simp add: same_heap_def)
  have rp: "priv (hs_pcs s t) = []" "\<not> crit (hs_pcs s t)" using r by (cases "hs_pcs s t"; simp)+
  have pp: "priv p = []" "pc_ok P s L p" "\<not> crit p" using p by (cases op; auto split: if_splits)+
  have eff: "step_effect P s L ?s L None" using same_heap_effect [OF same] effect_refl [OF h] by blast
  have "hs_inv P ?s L"
    by (rule hs_stepI [OF inv, where t = t and p' = p])
       (use effect_heap [OF eff] same_heap_pc [OF same h pp(2)] pp rp hs_invD(2) [OF inv, of t] in \<open>auto simp: calm_def\<close>)
  then show ?thesis using eff unfolding ok_step_def by blast
qed

text \<open>The operation on the set that an action performs.\<close>

definition hs_lin :: "('k \<Rightarrow> size_t) \<Rightarrow> 'k hset \<Rightarrow> 'k hs_act \<Rightarrow> 'k set_op option" where
  "hs_lin hash s a = (case a of
     Hs_step t \<Rightarrow> (case hs_pcs s t of
         Insert (I_cas k n ts head) \<Rightarrow> if hs_head s (bucket_of hash k ts) = Some head then Some (Ins k) else None
       | Erase (E_mark k ts x w) \<Rightarrow> if map_option nd_link (hs_nodes s x) = Some w then Some (Del k) else None
       | _ \<Rightarrow> None)
   | _ \<Rightarrow> None)"

text \<open>A thread whose next access is neither the append nor a growth beyond the address space.\<close>

definition steps :: "'k hs_pc \<Rightarrow> bool" where
  "steps p \<longleftrightarrow> \<not> at_rest p \<and> (\<forall>v c i. p \<noteq> Alloc (A_append v c i)) \<and> (\<forall>k ts. p = Insert (I_grow k ts) \<longrightarrow> 2 * ts \<le> 2 ^ 60)"

lemma hs_step_some:
  assumes inv: "hs_inv P s L" and st: "steps (hs_pcs s t)"
  shows "\<exists>s'. hs_exec (del P) (hashf P) s (Hs_step t) = Some s' \<and> ok_step P s L s' (hs_lin (hashf P) s (Hs_step t))"
proof (cases "hs_pcs s t")
  case (Contains p)
  then show ?thesis using contains_steps [OF inv] by (simp add: hs_lin_def)
next
  case (Erase p)
  then show ?thesis using erase_steps [OF inv Erase] by (auto simp: hs_lin_def split: erase_pc.splits)
next
  case (Insert p)
  then show ?thesis using insert_steps [OF inv Insert] st by (auto simp: hs_lin_def steps_def split: insert_pc.splits)
next
  case (Split p)
  then show ?thesis using split_steps [OF inv] by (simp add: hs_lin_def)
next
  case (Alloc p)
  then show ?thesis using alloc_steps [OF inv Alloc] st by (auto simp: hs_lin_def steps_def)
next
  case (Limbo_push p)
  then show ?thesis using limbo_steps [OF inv] by (simp add: hs_lin_def)
qed (use st in \<open>simp_all add: steps_def\<close>)

lemma not_steps:
  "\<not> steps (hs_pcs s t) \<Longrightarrow> hs_exec ad hash s (Hs_step t) = None"
  by (cases "hs_pcs s t") (auto simp: steps_def)

lemma hs_exec_ok:
  assumes inv: "hs_inv P s L" and e: "hs_exec (del P) (hashf P) s a = Some s'" and a: "a \<noteq> Hs_reclaim"
  shows "ok_step P s L s' (hs_lin (hashf P) s a)"
proof (cases a)
  case (Hs_call t op)
  then show ?thesis using e call_steps [OF inv] by (auto simp: hs_lin_def split: if_splits)
next
  case (Hs_step t)
  then show ?thesis using hs_step_some [OF inv, of t] e not_steps [of s t] by force
next
  case (Hs_weak t)
  then show ?thesis using weak_steps [OF inv] e by (simp add: hs_lin_def)
next
  case (Hs_throw t)
  then show ?thesis using throw_steps [OF inv] e by (auto simp: hs_lin_def)
next
  case (Hs_append t b)
  then show ?thesis using append_steps [OF inv] e by (simp add: hs_lin_def)
qed (use a in blast)

end
