(* ===== verification/Hash_Set_Reclaim.thy ===== *)
theory Hash_Set_Reclaim
  imports Hash_Set_Exec
begin

text \<open>
  Quiescent reclamation.  The test \<open>is_dead\<close> finds exactly the nodes that decide nothing: tombstones and nodes whose
  key has moved on.  Each unlinking and each push onto a free list keeps the shared invariant and the set, the
  walks end within the fuel, and the number returned is the number of keys.
\<close>

section \<open>The next child\<close>

lemma countr_zero_nat_eq: "0 < n \<Longrightarrow> \<exists>r. n = 2 ^ countr_zero_nat n * (2 * r + 1)"
proof (induction n rule: countr_zero_nat.induct)
  case (1 n)
  show ?case
  proof (cases "odd n")
    case True
    then have "n = 2 ^ countr_zero_nat n * (2 * (n div 2) + 1)" by (simp add: countr_zero_nat.simps [of n])
    then show ?thesis by blast
  next
    case False
    then have "0 < n div 2" using 1(2) by auto
    then obtain r where r: "n div 2 = 2 ^ countr_zero_nat (n div 2) * (2 * r + 1)" using 1(1) 1(2) False by auto
    have "countr_zero_nat n = Suc (countr_zero_nat (n div 2))" using 1(2) False by (simp add: countr_zero_nat.simps [of n])
    moreover have "n = 2 * (n div 2)" using False by simp
    ultimately have "n = 2 ^ countr_zero_nat n * (2 * r + 1)" using r by simp
    then show ?thesis by blast
  qed
qed

lemma moving_bits:
  fixes h :: size_t
  assumes w: "w < 64"
  shows "unat (h AND NOT (push_bit w 1 - 1)) = unat h - unat h mod 2 ^ w"
proof -
  have m: "push_bit w 1 - 1 = (mask w :: size_t)" by (simp add: mask_eq_exp_minus_1 push_bit_eq_mult)
  have "h AND NOT (mask w) = push_bit w (drop_bit w h)"
    by (rule bit_word_eqI) (auto simp: bit_simps dest: bit_imp_le_length)
  moreover have "unat (push_bit w (drop_bit w h)) = unat h div 2 ^ w * 2 ^ w"
  proof -
    have "unat h div 2 ^ w * 2 ^ w \<le> unat h" by simp
    also have "\<dots> < 2 ^ 64" using unat_lt_size [of h] by simp
    finally have lt: "unat h div 2 ^ w * 2 ^ w < 2 ^ 64" .
    have "unat (push_bit w (drop_bit w h)) = unat (drop_bit w h * 2 ^ w)" by (simp add: push_bit_eq_mult)
    also have "\<dots> = unat (drop_bit w h) * unat (2 ^ w :: size_t) mod 2 ^ 64" by (simp add: unat_word_ariths)
    also have "unat (2 ^ w :: size_t) = 2 ^ w" using w by (rule unat_pow2)
    also have "unat (drop_bit w h) = unat h div 2 ^ w" by (rule unat_shift)
    finally show ?thesis using lt by simp
  qed
  ultimately show ?thesis unfolding m by (simp add: minus_mod_eq_div_mult)
qed

text \<open>\<open>moving_bits\<close> and \<open>child\<close> of \<open>is_dead\<close>.\<close>

lemma next_child:
  fixes h :: size_t
  assumes w: "w = bit_width_nat j" "w < 64" and j: "unat h mod 2 ^ w = j" and mb: "mb = h AND NOT (push_bit w 1 - 1)"
  shows "mb = 0 \<Longrightarrow> 0 < c \<Longrightarrow> parent c = j \<Longrightarrow> \<not> maps (unat h) c"
    "mb \<noteq> 0 \<Longrightarrow> child = j OR 2 ^ countr_zero mb \<Longrightarrow> 0 < child \<and> parent child = j \<and> maps (unat h) child"
proof -
  have um: "unat mb = unat h - j" unfolding mb moving_bits [OF w(2)] j ..
  have jl: "j \<le> unat h" using j mod_less_eq_dividend [of "unat h" "2 ^ w"] by simp
  show "\<not> maps (unat h) c" if "mb = 0" "0 < c" "parent c = j"
  proof
    assume m: "maps (unat h) c"
    have "unat h = j" using um that(1) jl by simp
    then have "c \<le> j" using m mod_less_eq_dividend [of j "2 ^ bit_width_nat c"] by (simp add: maps_def)
    then show False using parent_less [OF that(2)] that(3) by simp
  qed
  assume mb0: "mb \<noteq> 0" and child: "child = j OR 2 ^ countr_zero mb"
  let ?b = "countr_zero mb"
  have pos: "0 < unat mb" using mb0 by (simp add: unat_gt_0)
  have b: "?b = countr_zero_nat (unat mb)" using mb0 by (simp add: countr_zero_def)
  obtain r where r: "unat mb = 2 ^ ?b * (2 * r + 1)" using countr_zero_nat_eq [OF pos] b by metis
  have jw: "j < 2 ^ w" using w(1) width_gt by simp
  have dv: "2 ^ w dvd unat mb" using um j jl by (metis dvd_minus_mod)
  have wb: "w \<le> ?b"
  proof (rule ccontr)
    assume "\<not> w \<le> ?b"
    then have "(2 :: nat) ^ Suc ?b dvd 2 ^ w" by (intro le_imp_power_dvd) simp
    then have "2 ^ ?b * 2 dvd 2 ^ ?b * (2 * r + 1)" using dv r by (metis dvd_trans power_Suc mult.commute)
    then have "2 dvd 2 * r + 1" by (simp only: nat_mult_dvd_cancel_disj) simp
    then show False by presburger
  qed
  have "(2 :: nat) ^ w \<le> 2 ^ ?b" using wb by (rule power_increasing) simp
  then have jb: "j < 2 ^ ?b" using jw by (rule order.strict_trans2 [rotated])
  have eq: "unat h = j + 2 ^ ?b + 2 ^ Suc ?b * r" using um r jl by (simp add: algebra_simps)
  have c: "child = 2 ^ ?b + j"
  proof -
    have "j AND 2 ^ ?b = 0" using jb by (simp add: and_exp_eq_0_iff_not_bit bit_iff_odd)
    then show ?thesis unfolding child by (simp add: disjunctive_add_eq_or [symmetric])
  qed
  show "0 < child \<and> parent child = j \<and> maps (unat h) child"
    using parent_add [OF jb] jb eq unfolding c maps_def by (simp add: mult.commute)
qed

section \<open>Dead nodes\<close>

lemma auth_ge:
  assumes "P c" and c: "c = h mod 2 ^ m" and "m \<le> n"
  shows "c \<le> auth P (h mod 2 ^ n)"
  using assms(3)
proof (induction n rule: dec_induct)
  case base
  then show ?case using assms(1) c by (simp add: auth_pub)
next
  case (step n)
  from prefix_step [of h n] show ?case
  proof (elim disjE conjE)
    assume e: "h mod 2 ^ Suc n = 2 ^ n + h mod 2 ^ n" "parent (h mod 2 ^ Suc n) = h mod 2 ^ n"
    have "c < 2 ^ m" unfolding c by simp
    also have "(2 :: nat) ^ m \<le> 2 ^ n" using step.hyps(1) by (rule power_increasing) simp
    finally have "c \<le> h mod 2 ^ Suc n" using e(1) by simp
    moreover have "auth P (h mod 2 ^ Suc n) = h mod 2 ^ Suc n \<or> auth P (h mod 2 ^ Suc n) = auth P (h mod 2 ^ n)"
      using auth.simps [of P "h mod 2 ^ Suc n"] e(2) by metis
    ultimately show ?thesis using step.IH by auto
  qed (use step in simp)
qed

definition stale :: "'k hs_par \<Rightarrow> 'k hset \<Rightarrow> nat \<Rightarrow> word_t \<Rightarrow> bool" where
  "stale P s j a \<longleftrightarrow> is_marked (link s a) \<or> auth (pub s) (hv P (val s a) mod hs_size s) \<noteq> j"

lemma own_bits:
  assumes h: "hs_heap P s L" and a: "a \<in> set (L (Chain j))"
  shows "hv P (val s a) mod 2 ^ bit_width_nat j = j" "bit_width_nat j < 64"
proof -
  obtain m q where m: "hs_size s = 2 ^ m" "cap P = 2 ^ q" "m \<le> 60" using sizes [OF h] by metis
  have "j < 2 ^ m" using pub_size [OF chain_pub [OF h a]] m(1) by simp
  then show "bit_width_nat j < 64" using width_le [of j m] m(3) by simp
  have "2 ^ bit_width_nat j dvd own P j"
  proof (cases "j < cap P")
    case True
    then have "bit_width_nat j \<le> q" using m(2) by (intro width_le) simp
    then show ?thesis using True m(2) by (simp add: own_def le_imp_power_dvd)
  qed (simp add: own_def)
  then have "hv P (val s a) mod 2 ^ bit_width_nat j = hv P (val s a) mod own P j mod 2 ^ bit_width_nat j"
    by (rule mod_mod_cancel [symmetric])
  then show "hv P (val s a) mod 2 ^ bit_width_nat j = j" using keysD(1) [OF heapD(7) [OF h] a] width_gt [of j] by simp
qed

lemma dead_iff:
  assumes h: "hs_heap P s L" and a: "a \<in> set (L (Chain j))" and n: "hs_nodes s a = Some n"
  shows "is_dead (hashf P) n j (hs_size s) s \<longleftrightarrow> stale P s j a"
proof (cases "is_marked (link s a)")
  case True
  then show ?thesis using n by (simp add: is_dead_def stale_def link_def)
next
  case False
  have nv: "nd_link n = link s a" "nd_value n = val s a" using n by (simp_all add: link_def val_def)
  let ?h = "hashf P (val s a)" let ?mb = "?h AND NOT (push_bit (bit_width_nat j) 1 - 1)"
  let ?c = "j OR 2 ^ countr_zero ?mb"
  note ob = own_bits [OF h a, unfolded hv_def]
  note nc = next_child [OF refl ob(2,1) refl]
  have here: "auth (pub s) (hv P (val s a) mod hs_size s) = j"
    if "\<And>c. pub s c \<Longrightarrow> 0 < c \<Longrightarrow> parent c = j \<Longrightarrow> maps (unat ?h) c \<Longrightarrow> False"
  proof (rule auth_node [OF h a])
    fix c assume "pub s c" "cap P \<le> c" "parent c = j" "maps (hv P (val s a)) c"
    then show False using that [of c] cap_pos [OF h] by (simp add: hv_def)
  qed
  show ?thesis
  proof (cases "?mb = 0")
    case True
    then have "auth (pub s) (hv P (val s a) mod hs_size s) = j" using here nc(1) by blast
    then show ?thesis using True False nv by (simp add: is_dead_def stale_def Let_def)
  next
    case mb: False
    have c: "0 < ?c" "parent ?c = j" "maps (unat ?h) ?c" using nc(2) [OF mb refl] by auto
    have "is_dead (hashf P) n j (hs_size s) s \<longleftrightarrow> pub s ?c"
      using mb False nv by (simp add: is_dead_def Let_def pub_def)
    also have "\<dots> \<longleftrightarrow> auth (pub s) (hv P (val s a) mod hs_size s) \<noteq> j"
    proof
      assume p: "pub s ?c"
      obtain m where m: "hs_size s = 2 ^ m" using sizes [OF h] by metis
      have "bit_width_nat ?c \<le> m" by (rule width_le) (use pub_size [OF p] m in simp)
      moreover have "?c = unat ?h mod 2 ^ bit_width_nat ?c" using c(3) by (simp add: maps_def)
      ultimately have "?c \<le> auth (pub s) (unat ?h mod 2 ^ m)" using auth_ge [of "pub s" ?c "unat ?h" "bit_width_nat ?c" m] p by blast
      then show "auth (pub s) (hv P (val s a) mod hs_size s) \<noteq> j"
        using parent_less [OF c(1)] c(2) m by (simp add: hv_def)
    next
      assume "auth (pub s) (hv P (val s a) mod hs_size s) \<noteq> j"
      then show "pub s ?c" using here child_unique [OF _ c(1) _ _ c(3)] c(2) by metis
    qed
    finally show ?thesis using False by (simp add: stale_def)
  qed
qed

section \<open>Moving a node to a free list\<close>

lemma owned_remove:
  assumes o: "owned L A" and p: "L p = ks @ a # zs" and ne: "p \<noteq> q"
  shows "owned (L(p := ks @ zs, q := a # L q)) A"
proof -
  have d: "distinct (ks @ a # zs)" using ownedD(1) [OF o, of p] p by simp
  have ap: "a \<in> set (L r) \<longleftrightarrow> r = p" for r using ownedD(2) [OF o, of a p r] p by auto
  let ?L = "L(p := ks @ zs, q := a # L q)"
  have mem: "b \<in> set (?L r) \<longleftrightarrow> (if b = a then r = q else b \<in> set (L r))" for b r
  proof -
    have "b \<in> set (?L r) \<longleftrightarrow> (if r = q then b = a \<or> b \<in> set (L q) else if r = p then b \<in> set (ks @ zs) else b \<in> set (L r))" using ne by auto
    moreover have "b \<in> set (ks @ zs) \<longleftrightarrow> b \<noteq> a \<and> b \<in> set (L p)" using d p by auto
    ultimately show ?thesis using ap [of r] ap [of q] ne by (cases "b = a"; cases "r = q"; cases "r = p") simp_all
  qed
  show ?thesis unfolding owned_def
  proof (intro conjI allI impI)
    show "distinct (?L r)" for r using d ownedD(1) [OF o, of r] ownedD(1) [OF o, of q] ap [of q] ne by auto
    show "r = r'" if "b \<in> set (?L r)" "b \<in> set (?L r')" for r r' b
      using that ownedD(2) [OF o, of b r r'] unfolding mem by (auto split: if_splits)
    have "b \<in> (\<Union>r. set (?L r)) \<longleftrightarrow> b \<in> (\<Union>r. set (L r))" for b
    proof (cases "b = a")
      case True
      have "a \<in> set (L p)" using p by simp
      then show ?thesis using True unfolding UN_iff mem by auto
    next
      case False
      then show ?thesis unfolding UN_iff mem by simp
    qed
    then have "(\<Union>r. set (?L r)) = (\<Union>r. set (L r))" by (rule set_eqI)
    also have "\<dots> = A" using o by (simp add: owned_def)
    finally show "(\<Union>r. set (?L r)) = A" .
  qed
qed

text \<open>The node is already linked to the top of the list.\<close>

lemma push_free_heap:
  assumes h: "hs_heap P s L" and i: "i < length (hs_shards s)" and pv: "L (Priv t) = a # ys"
    and lk: "link s a = free_addr_of (sh_free (hs_shards s ! i))"
    and s': "s' = set_shard i ((hs_shards s ! i)\<lparr>sh_free := free_word a (sh_free (hs_shards s ! i))\<rparr>) s"
    and L': "L' = L(Priv t := ys, Free i := a # L (Free i))"
  shows "hs_heap P s' L'"
proof (rule shard_heap(1) [OF h i s'])
  note sp = sparesD [OF heapD(5) [OF h]]
  have a: "a \<in> set (L (Priv t))" using pv by simp
  obtain n where n: "hs_nodes s a = Some n" "nd_link n = link s a" "addr_of a = a" using place_node [OF h a] by (metis node_addr_iff)
  show "linked (hs_nodes s) (free_addr_of (sh_free ((hs_shards s ! i)\<lparr>sh_free := free_word a (sh_free (hs_shards s ! i))\<rparr>))) (L' (Free i)) 0"
    using n sp(1) [OF i] lk L' by simp
  have "owned (L(Priv t := [] @ ys, Free i := a # L (Free i))) (dom (hs_nodes s))"
    by (rule owned_remove [OF heapD(3) [OF h]]) (use pv in auto)
  then show "owned L' (dom (hs_nodes s))" using L' by simp
qed (use sparesD(2,3) [OF heapD(5) [OF h] i] L' in auto)

section \<open>Unlinking\<close>

lemma relink_words:
  "addr_of ((u AND LEVEL_MASK) OR addr_of v) = addr_of v" "level_of ((u AND LEVEL_MASK) OR addr_of v) = level_of u"
  "addr_of ((u AND (MARK_BIT OR FROZEN_BIT)) OR addr_of v) = addr_of v"
  "is_marked ((u AND (MARK_BIT OR FROZEN_BIT)) OR addr_of v) = is_marked u"
  "is_frozen ((u AND (MARK_BIT OR FROZEN_BIT)) OR addr_of v) = is_frozen u"
proof -
  show "addr_of ((u AND LEVEL_MASK) OR addr_of v) = addr_of v" "addr_of ((u AND (MARK_BIT OR FROZEN_BIT)) OR addr_of v) = addr_of v"
    by (rule bit_word_eqI; force simp: bit_simps hash_bits)+
  have "drop_bit 58 ((u AND LEVEL_MASK) OR addr_of v) = drop_bit 58 u"
    by (rule bit_word_eqI) (auto simp: bit_simps hash_bits dest: bit_imp_le_length)
  then show "level_of ((u AND LEVEL_MASK) OR addr_of v) = level_of u" by (simp add: level_of_eq)
  show "is_marked ((u AND (MARK_BIT OR FROZEN_BIT)) OR addr_of v) = is_marked u"
    "is_frozen ((u AND (MARK_BIT OR FROZEN_BIT)) OR addr_of v) = is_frozen u"
    by (auto simp: marked_bit bit_simps hash_bits)
qed

text \<open>What a quiescent step keeps of the nodes in \<open>A\<close> and of the table.\<close>

definition view :: "'k hset \<Rightarrow> 'k hset \<Rightarrow> word_t set \<Rightarrow> bool" where
  "view s s' A \<longleftrightarrow> pub s' = pub s \<and> hs_size s' = hs_size s \<and> map sh_nodes (hs_shards s') = map sh_nodes (hs_shards s) \<and>
     hs_pcs s' = hs_pcs s \<and> hs_threads s' = hs_threads s \<and> hs_lock s' = hs_lock s \<and>
     (\<forall>b\<in>A. val s' b = val s b \<and> is_marked (link s' b) = is_marked (link s b))"

lemma viewD:
  assumes "view s s' A"
  shows "pub s' = pub s" "hs_size s' = hs_size s" "length (hs_shards s') = length (hs_shards s)" "map sh_nodes (hs_shards s') = map sh_nodes (hs_shards s)"
    "b \<in> A \<Longrightarrow> val s' b = val s b" "b \<in> A \<Longrightarrow> is_marked (link s' b) = is_marked (link s b)" "hs_pcs s' = hs_pcs s" "hs_threads s' = hs_threads s"
    "hs_lock s' = hs_lock s"
  using assms by (auto simp: view_def dest: map_eq_imp_length_eq)

lemma view_refl: "view s s A"
  by (simp add: view_def)

lemma view_trans: "view s s' A \<Longrightarrow> view s' s'' B \<Longrightarrow> C \<subseteq> A \<Longrightarrow> C \<subseteq> B \<Longrightarrow> view s s'' C"
  unfolding view_def by (simp add: subset_iff)

lemma view_stale: "view s s' A \<Longrightarrow> a \<in> A \<Longrightarrow> stale P s' j a = stale P s j a"
  by (simp add: stale_def viewD)

lemma unlink_heap:
  assumes h: "hs_heap P s L" and c: "L (Chain j) = ks @ a # zs"
    and dm: "dom (hs_nodes s') = dom (hs_nodes s)" and old: "\<And>b. b \<noteq> a \<Longrightarrow> b \<notin> set ks \<Longrightarrow> hs_nodes s' b = hs_nodes s b"
    and fl: "\<And>b. b \<noteq> a \<Longrightarrow> val s' b = val s b \<and> is_marked (link s' b) = is_marked (link s b) \<and> is_frozen (link s' b) = is_frozen (link s b)"
    and bare: "addr_of (link s' a) = link s' a"
    and same: "length (hs_buckets s') = length (hs_buckets s)" "hs_size s' = hs_size s" "hs_shards s' = hs_shards s"
    and hd: "\<And>i. i \<noteq> j \<Longrightarrow> hs_buckets s' ! i = hs_buckets s ! i" "pub s' j" "lev s' j = lev s j"
    and lk: "linked (hs_nodes s') (hs_buckets s' ! j) (ks @ zs) 0"
    and L': "L' = L(Chain j := ks @ zs, Priv t := a # L (Priv t))"
  shows "hs_heap P s' L' \<and> pub s' = pub s"
proof -
  have cj: "set (L (Chain j)) = insert a (set (ks @ zs))" using c by auto
  have pj: "pub s j" using chain_pub [OF h, of a j] c by simp
  have pb: "pub s' = pub s"
  proof
    show "pub s' i = pub s i" for i using hd(1) [of i] hd(2) pj same(2) by (cases "i = j") (auto simp: pub_def)
  qed
  have lv: "lev s' = lev s" proof
    show "lev s' i = lev s i" for i using hd(1) [of i] hd(3) by (cases "i = j") (auto simp: lev_def)
  qed
  have off: "a \<notin> set (L p) \<and> set ks \<inter> set (L p) = {}" if "p \<noteq> Chain j" for p
    using ownedD(2) [OF heapD(3) [OF h], of _ "Chain j" p] c that by auto
  have nd: "hs_nodes s' b = hs_nodes s b" if "b \<in> set (L p)" "p \<noteq> Chain j" for b p using old [of b] off [OF that(2)] that(1) by auto
  have lp: "linked (hs_nodes s') w (L p) e = linked (hs_nodes s) w (L p) e" if "p \<noteq> Chain j" for w p e
    by (rule linked_cong) (use nd that in blast)
  have sub: "set (L' (Chain i)) \<subseteq> set (L (Chain i))" "a \<notin> set (L' (Chain i))" for i
    using c L' ownedD(1) [OF heapD(3) [OF h], of "Chain j"] off [of "Chain i"] by (auto split: if_splits)
  have "geometry P s'" using heapD(1) [OF h] same by (simp add: geometry_def)
  moreover have "arena s'" using heapD(2) [OF h] dm same(3) by (simp add: arena_def)
  moreover have "owned L' (dom (hs_nodes s'))" using owned_remove [OF heapD(3) [OF h] c, of "Priv t"] L' dm by simp
  moreover have "chains P s' L'"
    unfolding chains_def
  proof (rule allI)
    fix i
    show "if pub s' i then linked (hs_nodes s') (hs_buckets s' ! i) (L' (Chain i)) 0
       else L' (Chain i) = [] \<and> (i < hs_size s' \<longrightarrow> hs_buckets s' ! i = UNINITIALIZED)"
    proof (cases "i = j")
      case True
      then show ?thesis using lk hd(2) L' by simp
    next
      case False
      then show ?thesis using heapD(4) [OF h] lp [of "Chain i"] hd(1) [of i] same(2) pb L' unfolding chains_def by auto
    qed
  qed
  moreover have "spares s' L'"
  proof -
    note sp = sparesD [OF heapD(5) [OF h]]
    have "addr_of (link s' b) = link s' b" if "b \<in> dom (hs_nodes s')" "\<forall>i. b \<notin> set (L' (Chain i))" for b
    proof (cases "b = a")
      case False
      then have nc: "b \<notin> set (L (Chain i))" for i using that(2) cj L' by (cases "i = j") (auto dest!: spec [of _ i])
      then have "hs_nodes s' b = hs_nodes s b" using old [OF False] nc [of j] c by auto
      then show ?thesis using sp(5) [of b] nc that(1) dm by (auto simp: link_def)
    qed (use bare in simp)
    moreover have "L' (Free i) = L (Free i)" "L' (Limbo i) = L (Limbo i)" for i using L' by simp_all
    ultimately show ?thesis unfolding spares_def same(3) using sp(1-4) by (auto simp: lp)
  qed
  moreover have "tags P s'"
    unfolding tags_def
  proof (intro allI impI)
    fix b assume b: "hs_nodes s' b \<noteq> None"
    then have "hs_nodes s b \<noteq> None" using dm by blast
    then show "\<not> (is_marked (link s' b) \<and> is_frozen (link s' b)) \<and> (\<not> del P \<longrightarrow> \<not> is_marked (link s' b) \<and> \<not> is_frozen (link s' b))"
      using heapD(6) [OF h] fl [of b] bare by (cases "b = a") (auto simp: tags_def)
  qed
  moreover have "keys P s' L'"
    unfolding keys_def
  proof (intro allI ballI conjI impI)
    fix i b assume b: "b \<in> set (L' (Chain i))"
    then have bn: "b \<noteq> a" "b \<in> set (L (Chain i))" using sub by blast+
    show "hv P (val s' b) mod own P i = i" using keysD(1) [OF heapD(7) [OF h] bn(2)] fl [OF bn(1)] by simp
    fix b' assume b': "b' \<in> set (L' (Chain i))" "val s' b = val s' b' \<and> \<not> is_marked (link s' b) \<and> \<not> is_marked (link s' b')"
    then have bn': "b' \<noteq> a" "b' \<in> set (L (Chain i))" using sub by blast+
    show "b = b'" using keysD(2) [OF heapD(7) [OF h] bn(2) bn'(2)] b'(2) fl [OF bn(1)] fl [OF bn'(1)] by simp
  qed
  moreover have "tree P s' L'"
    unfolding tree_def pb lv
  proof (intro allI conjI impI ballI)
    note tr = treeD [OF heapD(8) [OF h]]
    show "pub s i" if "i < cap P" for i using tr(1) that by blast
    fix x assume x: "pub s x \<and> cap P \<le> x"
    then show "pub s (parent x)" "bit_width_nat x \<le> lev s (parent x)" using tr(2,3) by blast+
    fix b assume b: "b \<in> set (L' (Chain (parent x)))" "maps (hv P (val s' b)) x"
    then have bn: "b \<noteq> a" "b \<in> set (L (Chain (parent x)))" using sub by blast+
    show "is_marked (link s' b) \<or> settled P s' b"
      using tr(4) [of x b] x bn(2) b(2) fl [OF bn(1)] by (auto simp: settled_def)
  qed
  ultimately have "hs_heap P s' L'" unfolding hs_heap_def by blast
  then show ?thesis using pb by blast
qed

lemma linked_remove:
  assumes l: "linked N w (ks @ a # zs) e" and n: "N a = Some n"
    and same: "\<And>b. b \<in> set zs \<Longrightarrow> N' b = N b" "\<And>b. b \<in> set (butlast ks) \<Longrightarrow> N' b = N b"
    and w: "ks = [] \<Longrightarrow> addr_of w' = addr_of (nd_link n)"
      "ks \<noteq> [] \<Longrightarrow> addr_of w' = addr_of w \<and> (\<exists>nb. N' (last ks) = Some nb \<and> addr_of (nd_link nb) = addr_of (nd_link n))"
  shows "linked N' w' (ks @ zs) e"
proof -
  obtain u where u: "linked N w ks (addr_of u)" "linked N u (a # zs) e" using l by (auto simp: linked_append)
  then have z: "linked N (nd_link n) zs e" using n by auto
  have z': "linked N' v zs e" if "addr_of v = addr_of (nd_link n)" for v
    using z linked_cong [of zs N' N] same(1) linked_addr [OF that] by blast
  show ?thesis
  proof (cases ks rule: rev_cases)
    case Nil
    then show ?thesis using z' w(1) by simp
  next
    case (snoc bs b)
    then obtain v where v: "linked N w bs (addr_of v)" "linked N v [b] (addr_of u)" using u(1) by (auto simp: linked_append)
    obtain nb where nb: "N' b = Some nb" "addr_of (nd_link nb) = addr_of (nd_link n)" "addr_of w' = addr_of w" using w(2) snoc by auto
    have "linked N' w bs (addr_of v)" using v(1) linked_cong [of bs N' N] same(2) snoc by simp
    then have "linked N' w' bs (addr_of v)" using linked_addr [OF nb(3)] by blast
    moreover have "linked N' v (b # zs) e" using v(2) nb(1) z' [OF nb(2)] by auto
    ultimately show ?thesis unfolding snoc by (auto simp: linked_append)
  qed
qed

definition slot_at :: "nat \<Rightarrow> word_t list \<Rightarrow> slot_ref" where
  "slot_at j ks = (if ks = [] then Head j else Link (last ks))"

definition word_at :: "'k hset \<Rightarrow> nat \<Rightarrow> word_t list \<Rightarrow> word_t" where
  "word_at s j ks = (if ks = [] then hs_buckets s ! j else link s (last ks))"

definition keep_at :: "word_t list \<Rightarrow> word_t" where
  "keep_at ks = (if ks = [] then LEVEL_MASK else MARK_BIT OR FROZEN_BIT)"

lemma push_free_eq:
  assumes "i < length (hs_shards s)"
  shows "push_free i a s = Some (set_shard i ((hs_shards s ! i)\<lparr>sh_free := free_word a (sh_free (hs_shards s ! i))\<rparr>)
    (set_link a (free_addr_of (sh_free (hs_shards s ! i))) s))"
  using assms by (simp add: push_free_def hs_shard_def)

lemma unlink_step:
  assumes h: "hs_heap P s L" and c: "L (Chain j) = ks @ a # zs" and d: "d < length (hs_shards s)"
    and w: "w = (word_at s j ks AND keep_at ks) OR addr_of (link s a)"
  shows "\<exists>s'. push_free d a (set_slot (slot_at j ks) w s) = Some s' \<and> hs_heap P s' (L(Chain j := ks @ zs, Free d := a # L (Free d))) \<and>
    view s s' (UNIV - {a}) \<and> word_at s' j ks = w"
proof -
  have ac: "a \<in> set (L (Chain j))" using c by simp
  have dist: "distinct (ks @ a # zs)" using ownedD(1) [OF heapD(3) [OF h], of "Chain j"] c by simp
  have pj: "pub s j" using chain_pub [OF h ac] .
  have jl: "j < length (hs_buckets s)" using pub_size [OF pj] size_le_buckets [OF h] by simp
  obtain n where n: "hs_nodes s a = Some n" "nd_link n = link s a" "addr_of a = a" "a \<noteq> 0" using place_node [OF h ac] by (metis node_addr_iff)
  have on: "on_chain s L j a" using pj ac n by (simp add: on_chain_def)
  have nx: "addr_of (link s a) \<noteq> UNINITIALIZED"
  proof -
    have "on_chain s L j (link s a)" using chain_next [OF h on] n by metis
    then show ?thesis using addr_uninit(2) place_node [OF h, of "addr_of (link s a)" "Chain j"] by (auto simp: on_chain_def node_addr_iff)
  qed
  let ?f = "free_addr_of (sh_free (hs_shards s ! d))"
  let ?y = "set_slot (slot_at j ks) w s" let ?x = "set_link a ?f ?y"
  have ch: "linked (hs_nodes s) (hs_buckets s ! j) (ks @ a # zs) 0" using chain_linked [OF h pj] c by simp
  have kn: "hs_nodes s (last ks) \<noteq> None" "last ks \<noteq> a" if "ks \<noteq> []"
    using subsetD [OF linked_dom [OF ch], of "last ks"] that dist last_in_set [OF that] by auto
  have y: "hs_size ?y = hs_size s" "hs_shards ?y = hs_shards s" "hs_pcs ?y = hs_pcs s" "hs_threads ?y = hs_threads s" "hs_lock ?y = hs_lock s"
    "hs_buckets ?y = (if ks = [] then (hs_buckets s)[j := w] else hs_buckets s)"
    "hs_nodes ?y = (if ks = [] then hs_nodes s else (hs_nodes s)(last ks := map_option (\<lambda>n. n\<lparr>nd_link := w\<rparr>) (hs_nodes s (last ks))))"
    by (simp_all add: slot_at_def set_head_def set_link_def)
  have ya: "hs_nodes ?y a = Some n" using n(1) kn y(7) by auto
  note x = set_link_nodes [OF ya, of ?f]
  have xn: "hs_nodes ?x b = (if b = a then Some (n\<lparr>nd_link := ?f\<rparr>) else if ks \<noteq> [] \<and> b = last ks
      then map_option (\<lambda>n. n\<lparr>nd_link := w\<rparr>) (hs_nodes s (last ks)) else hs_nodes s b)" for b
    unfolding x(1) y(7) by simp
  have aw: "addr_of w = addr_of (link s a)" unfolding w keep_at_def using relink_words by simp
  have xl: "link ?x (last ks) = w" if "ks \<noteq> []" using that kn xn [of "last ks"] by (auto simp: link_def)
  have lastk: "ks \<noteq> [] \<Longrightarrow> b \<in> set (butlast ks) \<Longrightarrow> b \<noteq> last ks \<and> b \<noteq> a" for b
    using dist by (metis append_butlast_last_id distinct_append disjoint_insert(1) in_set_butlastD list.simps(15) not_distinct_conv_prefix)
  have fl: "val ?x b = val s b \<and> is_marked (link ?x b) = is_marked (link s b) \<and> is_frozen (link ?x b) = is_frozen (link s b)" if "b \<noteq> a" for b
  proof (cases "ks \<noteq> [] \<and> b = last ks")
    case True
    have "w = (link s b AND (MARK_BIT OR FROZEN_BIT)) OR addr_of (link s a)" using w True by (simp add: word_at_def keep_at_def)
    then have "is_marked w = is_marked (link s b)" "is_frozen w = is_frozen (link s b)" using relink_words by simp_all
    moreover have "val ?x b = val s b" using True kn xn [of b] by (auto simp: val_def)
    ultimately show ?thesis using True xl by simp
  next
    case False
    then have "hs_nodes ?x b = hs_nodes s b" using xn [of b] that by auto
    then show ?thesis by (simp add: val_def link_def)
  qed
  have hx: "hs_heap P ?x (L(Chain j := ks @ zs, Priv 0 := a # L (Priv 0))) \<and> pub ?x = pub s"
  proof (rule unlink_heap [OF h c])
    show "dom (hs_nodes ?x) = dom (hs_nodes s)" using xn n(1) by (auto simp: dom_def split: if_splits)
    show "hs_nodes ?x b = hs_nodes s b" if "b \<noteq> a" "b \<notin> set ks" for b using xn [of b] that by auto
    show "val ?x b = val s b \<and> is_marked (link ?x b) = is_marked (link s b) \<and> is_frozen (link ?x b) = is_frozen (link s b)" if "b \<noteq> a" for b
      using fl [OF that] .
    show "addr_of (link ?x a) = link ?x a" using x(6) [of a] by simp
    show "length (hs_buckets ?x) = length (hs_buckets s)" "hs_size ?x = hs_size s" "hs_shards ?x = hs_shards s" using x(2-4) y by simp_all
    show "hs_buckets ?x ! i = hs_buckets s ! i" if "i \<noteq> j" for i using x(2) y(6) that by simp
    have bj: "hs_buckets ?x ! j = (if ks = [] then w else hs_buckets s ! j)" using x(2) y(6) jl by simp
    show "pub ?x j" using bj pj aw nx x(3) y(1) by (auto simp: pub_def)
    show "lev ?x j = lev s j"
      using bj w relink_words(2) [of "hs_buckets s ! j" "link s a"] by (auto simp: lev_def word_at_def keep_at_def)
    show "linked (hs_nodes ?x) (hs_buckets ?x ! j) (ks @ zs) 0"
    proof (rule linked_remove [OF ch n(1)])
      have "b \<noteq> a" "ks \<noteq> [] \<Longrightarrow> b \<noteq> last ks" if "b \<in> set zs" for b using that dist last_in_set [of ks] by (auto simp: disjoint_iff)
      then show "hs_nodes ?x b = hs_nodes s b" if "b \<in> set zs" for b using xn [of b] that by auto
      show "hs_nodes ?x b = hs_nodes s b" if "b \<in> set (butlast ks)" for b using lastk [of b] xn [of b] that by (cases "ks = []") auto
      show "addr_of (hs_buckets ?x ! j) = addr_of (nd_link n)" if "ks = []" using bj that aw n(2) by simp
      show "addr_of (hs_buckets ?x ! j) = addr_of (hs_buckets s ! j) \<and> (\<exists>nb. hs_nodes ?x (last ks) = Some nb \<and> addr_of (nd_link nb) = addr_of (nd_link n))"
        if "ks \<noteq> []" using bj that aw n(2) xn [of "last ks"] kn [OF that] by auto
    qed
  qed (rule refl)
  let ?s = "set_shard d ((hs_shards s ! d)\<lparr>sh_free := free_word a (sh_free (hs_shards s ! d))\<rparr>) ?x"
  have sh: "hs_shards ?x = hs_shards s" using x(4) y(2) by simp
  have pf: "push_free d a ?y = Some ?s" using push_free_eq [of d ?y a] y(2) d by simp
  have "hs_heap P ?s ((L(Chain j := ks @ zs, Priv 0 := a # L (Priv 0)))(Priv 0 := L (Priv 0), Free d := a # L (Free d)))"
    by (rule push_free_heap [OF conjunct1 [OF hx]]) (use d sh x(6) [of a] in auto)
  moreover have "(L(Chain j := ks @ zs, Priv 0 := a # L (Priv 0)))(Priv 0 := L (Priv 0), Free d := a # L (Free d)) =
    L(Chain j := ks @ zs, Free d := a # L (Free d))" by (auto simp: fun_eq_iff)
  ultimately have hs: "hs_heap P ?s (L(Chain j := ks @ zs, Free d := a # L (Free d)))" by simp
  have "val ?s b = val s b \<and> is_marked (link ?s b) = is_marked (link s b)" if "b \<noteq> a" for b using fl [OF that] by simp
  then have "view s ?s (UNIV - {a})"
    using hx x(3,5,8,9) y(1-5) d sh unfolding view_def
    by (auto simp: pub_def fun_eq_iff map_update_same)
  moreover have "word_at ?s j ks = w" using xl x(2) y(6) jl by (cases "ks = []") (simp_all add: word_at_def)
  ultimately show ?thesis using pf hs by blast
qed

section \<open>The walks\<close>

lemma deal_lt: "hs_heap P s L \<Longrightarrow> deal_to deal s < length (hs_shards s)"
proof -
  assume h: "hs_heap P s L"
  obtain p where p: "length (hs_shards s) = 2 ^ p" using heapD(1) [OF h] by (auto simp: geometry_def)
  show ?thesis unfolding deal_to_def and_mask_mod [OF p, of deal] using shards_pos [OF h] by simp
qed

lemma reclaim_chain_ok:
  assumes h: "hs_heap P s L" and c: "L (Chain j) = ks @ zs" and pj: "pub s j" and fu: "length zs \<le> fuel"
  shows "\<exists>deal' s' L'. reclaim_chain (hashf P) fuel j (hs_size s) (slot_at j ks) (word_at s j ks) (keep_at ks) deal live s =
      Some (deal', live + length (filter (\<lambda>a. \<not> stale P s j a) zs), s') \<and> hs_heap P s' L' \<and>
    L' (Chain j) = ks @ filter (\<lambda>a. \<not> stale P s j a) zs \<and> (\<forall>i. i \<noteq> j \<longrightarrow> L' (Chain i) = L (Chain i)) \<and>
    (\<forall>i. L' (Limbo i) = L (Limbo i)) \<and> (\<forall>t. L' (Priv t) = L (Priv t)) \<and> view s s' (\<Union>i. set (L' (Chain i)))"
  using assms
proof (induction zs arbitrary: fuel ks deal live s L)
  case Nil
  have "addr_of (word_at s j ks) = 0"
  proof -
    have ch: "linked (hs_nodes s) (hs_buckets s ! j) ks 0" using chain_linked [OF Nil.prems(1,3)] Nil.prems(2) by simp
    then show ?thesis
    proof (cases ks rule: rev_cases)
      case (snoc bs b)
      then obtain n where "hs_nodes s b = Some n" "addr_of (nd_link n) = 0" using ch by (auto simp: linked_append)
      then show ?thesis using snoc by (simp add: word_at_def link_def)
    qed (simp add: word_at_def)
  qed
  then show ?case using Nil.prems by (auto simp: reclaim_chain.simps [of _ fuel] EMPTY_def view_refl)
next
  case (Cons a zs)
  note h = Cons.prems(1)
  obtain f where f: "fuel = Suc f" "length zs \<le> f" using Cons.prems(4) by (cases fuel) auto
  have ac: "a \<in> set (L (Chain j))" using Cons.prems(2) by simp
  obtain n where n: "hs_nodes s a = Some n" "nd_link n = link s a" "addr_of a = a" "a \<noteq> 0" using place_node [OF h ac] by (metis node_addr_iff)
  have wa: "addr_of (word_at s j ks) = a"
  proof -
    have ch: "linked (hs_nodes s) (hs_buckets s ! j) (ks @ a # zs) 0" using chain_linked [OF h Cons.prems(3)] Cons.prems(2) by simp
    then show ?thesis
    proof (cases ks rule: rev_cases)
      case (snoc bs b)
      then obtain m where "hs_nodes s b = Some m" "addr_of (nd_link m) = a" using ch by (auto simp: linked_append)
      then show ?thesis using snoc by (simp add: word_at_def link_def)
    qed (simp add: word_at_def)
  qed
  have dead: "is_dead (hashf P) n j (hs_size s) s \<longleftrightarrow> stale P s j a" using dead_iff [OF h ac n(1)] .
  show ?case
  proof (cases "stale P s j a")
    case True
    let ?w = "(word_at s j ks AND keep_at ks) OR addr_of (link s a)"
    obtain s1 where s1: "push_free (deal_to deal s) a (set_slot (slot_at j ks) ?w s) = Some s1"
      "hs_heap P s1 (L(Chain j := ks @ zs, Free (deal_to deal s) := a # L (Free (deal_to deal s))))"
      "view s s1 (UNIV - {a})" "word_at s1 j ks = ?w"
      using unlink_step [OF h Cons.prems(2) deal_lt [OF h] refl] by blast
    let ?L = "L(Chain j := ks @ zs, Free (deal_to deal s) := a # L (Free (deal_to deal s)))"
    have p1: "pub s1 j" using viewD(1) [OF s1(3)] Cons.prems(3) by simp
    note ih = Cons.IH [OF s1(2) _ p1 f(2), of ks "deal + 1" live, unfolded s1(4) viewD(2) [OF s1(3)]]
    have st: "stale P s1 j b = stale P s j b" if "b \<noteq> a" for b using view_stale [OF s1(3)] that by simp
    have na: "a \<notin> set (?L (Chain i))" for i
      using ownedD(2) [OF heapD(3) [OF s1(2)], of a "Free (deal_to deal s)" "Chain i"] by auto
    have fz: "filter (\<lambda>a. \<not> stale P s1 j a) zs = filter (\<lambda>a. \<not> stale P s j a) zs"
    proof (rule filter_cong [OF refl])
      fix b assume "b \<in> set zs"
      then have "b \<noteq> a" using na [of j] by auto
      then show "(\<not> stale P s1 j b) = (\<not> stale P s j b)" using st by simp
    qed
    obtain deal' s' L' where r: "reclaim_chain (hashf P) f j (hs_size s) (slot_at j ks) ?w (keep_at ks) (deal + 1) live s1 =
        Some (deal', live + length (filter (\<lambda>a. \<not> stale P s j a) zs), s')" "hs_heap P s' L'"
      "L' (Chain j) = ks @ filter (\<lambda>a. \<not> stale P s j a) zs" "\<And>i. i \<noteq> j \<Longrightarrow> L' (Chain i) = L (Chain i)"
      "\<And>i. L' (Limbo i) = L (Limbo i)" "\<And>t. L' (Priv t) = L (Priv t)" "view s1 s' (\<Union>i. set (L' (Chain i)))"
      using ih unfolding fz by auto
    have "view s s' (\<Union>i. set (L' (Chain i)))"
    proof (rule view_trans [OF s1(3) r(7) _ subset_refl])
      have "set (L' (Chain i)) \<subseteq> set (?L (Chain i))" for i using r(3) r(4) [of i] by (cases "i = j") auto
      then show "(\<Union>i. set (L' (Chain i))) \<subseteq> UNIV - {a}" using na by blast
    qed
    moreover have "reclaim_chain (hashf P) fuel j (hs_size s) (slot_at j ks) (word_at s j ks) (keep_at ks) deal live s =
        Some (deal', live + length (filter (\<lambda>a. \<not> stale P s j a) zs), s')"
      using r(1) s1(1) n wa dead True f(1) by (simp add: reclaim_chain.simps [of _ "Suc f"] EMPTY_def Let_def)
    ultimately show ?thesis using r True by auto
  next
    case False
    have k: "slot_at j (ks @ [a]) = Link a" "word_at s j (ks @ [a]) = link s a" "keep_at (ks @ [a]) = MARK_BIT OR FROZEN_BIT"
      by (simp_all add: slot_at_def word_at_def keep_at_def)
    have "reclaim_chain (hashf P) fuel j (hs_size s) (slot_at j ks) (word_at s j ks) (keep_at ks) deal live s =
      reclaim_chain (hashf P) f j (hs_size s) (Link a) (link s a) (MARK_BIT OR FROZEN_BIT) deal (live + 1) s"
      using n wa dead False f(1) by (simp add: reclaim_chain.simps [of _ "Suc f"] EMPTY_def)
    then show ?thesis
      using Cons.IH [OF h _ Cons.prems(3) f(2), of "ks @ [a]" deal "live + 1"] Cons.prems(2) False unfolding k by simp
  qed
qed

lemma drain_chain_ok:
  assumes h: "hs_heap P s L" and pv: "L (Priv 0) = xs" and lk: "linked (hs_nodes s) cur xs 0" and fu: "length xs \<le> fuel"
  shows "\<exists>deal' s' L'. drain_chain fuel cur deal s = Some (deal', s') \<and> hs_heap P s' L' \<and> L' (Priv 0) = [] \<and>
    (\<forall>j. L' (Chain j) = L (Chain j)) \<and> (\<forall>i. L' (Limbo i) = L (Limbo i)) \<and> (\<forall>t. t \<noteq> 0 \<longrightarrow> L' (Priv t) = L (Priv t)) \<and>
    view s s' (\<Union>i. set (L' (Chain i))) \<and> map sh_limbo (hs_shards s') = map sh_limbo (hs_shards s)"
  using assms
proof (induction xs arbitrary: fuel cur deal s L)
  case Nil
  then have "drain_chain fuel cur deal s = Some (deal, s)" by (simp add: drain_chain.simps [of fuel] EMPTY_def)
  then show ?case using Nil.prems by (auto simp: view_refl)
next
  case (Cons a xs)
  note h = Cons.prems(1)
  obtain f where f: "fuel = Suc f" "length xs \<le> f" using Cons.prems(4) by (cases fuel) auto
  have ap: "a \<in> set (L (Priv 0))" using Cons.prems(2) by simp
  obtain n where n: "hs_nodes s a = Some n" "nd_link n = link s a" "addr_of a = a" "a \<noteq> 0" using place_node [OF h ap] by (metis node_addr_iff)
  have ca: "addr_of cur = a" "linked (hs_nodes s) (nd_link n) xs 0" using Cons.prems(3) n(1) by auto
  let ?d = "deal_to deal s" let ?f = "free_addr_of (sh_free (hs_shards s ! ?d))"
  have d: "?d < length (hs_shards s)" using deal_lt [OF h] .
  let ?x = "set_link a ?f s"
  let ?s = "set_shard ?d ((hs_shards s ! ?d)\<lparr>sh_free := free_word a (sh_free (hs_shards s ! ?d))\<rparr>) ?x"
  let ?L = "L(Priv 0 := xs, Free ?d := a # L (Free ?d))"
  note x = set_link_nodes [OF n(1), of ?f]
  have hx: "hs_heap P ?x L" using effect_heap [OF set_link_private [OF h ap, of ?f]] by simp
  have hs: "hs_heap P ?s ?L" by (rule push_free_heap [OF hx _ Cons.prems(2)]) (use d x(4,6) in auto)
  have na: "a \<notin> set xs" "a \<notin> set (L (Chain i))" for i
    using ownedD(1) [OF heapD(3) [OF h], of "Priv 0"] Cons.prems(2) not_in_chain [OF h ap] by auto
  have "linked (hs_nodes ?s) (nd_link n) xs 0 = linked (hs_nodes s) (nd_link n) xs 0"
    by (rule linked_cong) (use na(1) x(1) in auto)
  then have lk: "linked (hs_nodes ?s) (nd_link n) xs 0" using ca(2) by simp
  have v: "view s ?s (\<Union>i. set (L (Chain i)))"
    using x(3-9) na(2) d unfolding view_def by (auto simp: pub_def fun_eq_iff map_update_same x(2))
  have lm: "map sh_limbo (hs_shards ?s) = map sh_limbo (hs_shards s)" using x(4) d by (simp add: map_update_same)
  obtain deal' s' L' where r: "drain_chain f (nd_link n) (deal + 1) ?s = Some (deal', s')" "hs_heap P s' L'" "L' (Priv 0) = []"
    "\<And>j. L' (Chain j) = L (Chain j)" "\<And>i. L' (Limbo i) = L (Limbo i)" "\<And>t. t \<noteq> 0 \<Longrightarrow> L' (Priv t) = L (Priv t)"
    "view ?s s' (\<Union>i. set (L' (Chain i)))" "map sh_limbo (hs_shards s') = map sh_limbo (hs_shards ?s)"
    using Cons.IH [OF hs _ lk f(2), of "deal + 1"] by auto
  have "drain_chain fuel cur deal s = Some (deal', s')"
    using r(1) n ca(1) f(1) push_free_eq [OF d, of a] by (simp add: drain_chain.simps [of "Suc f"] EMPTY_def)
  moreover have "view s s' (\<Union>i. set (L' (Chain i)))" by (rule view_trans [OF v r(7)]) (use r(4) in auto)
  ultimately show ?case using r lm by auto
qed

lemma place_count:
  assumes h: "hs_heap P s L" shows "length (L p) \<le> get_internal_node_count s"
proof -
  let ?ns = "concat (map sh_nodes (hs_shards s))"
  have "set (L p) \<subseteq> set ?ns" using ownedD(3) [OF heapD(3) [OF h], of _ p] heapD(2) [OF h] by (auto simp: arena_def)
  then have "card (set (L p)) \<le> card (set ?ns)" by (intro card_mono) auto
  moreover have "card (set (L p)) = length (L p)" using ownedD(1) [OF heapD(3) [OF h]] by (rule distinct_card)
  moreover have "card (set ?ns) = length ?ns" using heapD(2) [OF h] by (intro distinct_card) (simp add: arena_def)
  moreover have "length ?ns = get_internal_node_count s" by (simp add: get_internal_node_count_def length_concat comp_def)
  ultimately show ?thesis by simp
qed

lemma count_view: "view s s' A \<Longrightarrow> get_internal_node_count s' = get_internal_node_count s"
proof -
  assume "view s s' A"
  then have "map length (map sh_nodes (hs_shards s')) = map length (map sh_nodes (hs_shards s))" by (simp only: viewD(4))
  then show ?thesis by (simp add: get_internal_node_count_def comp_def)
qed

lemma drain_limbo_ok:
  assumes h: "hs_heap P s L" and rng: "\<forall>i\<in>set is. i < length (hs_shards s)" and pv: "\<And>t. L (Priv t) = []"
    and fu: "get_internal_node_count s \<le> fuel"
  shows "\<exists>deal' s' L'. drain_limbo fuel is deal s = Some (deal', s') \<and> hs_heap P s' L' \<and> (\<forall>t. L' (Priv t) = []) \<and>
    (\<forall>j. L' (Chain j) = L (Chain j)) \<and> (\<forall>i. L' (Limbo i) = (if i \<in> set is then [] else L (Limbo i))) \<and>
    view s s' (\<Union>i. set (L' (Chain i)))"
  using assms
proof (induction "is" arbitrary: deal s L)
  case Nil
  then show ?case by (auto simp: view_refl)
next
  case (Cons i "is")
  note h = Cons.prems(1)
  have i: "i < length (hs_shards s)" using Cons.prems(2) by simp
  let ?sh = "hs_shards s ! i"
  let ?s = "set_shard i (?sh\<lparr>sh_limbo := EMPTY\<rparr>) s" let ?L = "L(Limbo i := [], Priv 0 := L (Limbo i))"
  note sp = sparesD [OF heapD(5) [OF h]]
  have hs: "hs_heap P ?s ?L"
  proof (rule shard_heap(1) [OF h i refl])
    have "owned (L(Limbo i := [], Priv 0 := L (Limbo i) @ L (Priv 0))) (dom (hs_nodes s))"
      by (rule owned_move [OF heapD(3) [OF h]]) auto
    then show "owned ?L (dom (hs_nodes s))" using Cons.prems(3) by simp
  qed (use sp(1) [OF i] in \<open>auto simp: EMPTY_def\<close>)
  have v: "view s ?s A" for A using i by (auto simp: view_def pub_def fun_eq_iff map_update_same)
  have fu: "length (L (Limbo i)) \<le> fuel" using place_count [OF h, of "Limbo i"] Cons.prems(4) by simp
  have lk: "linked (hs_nodes ?s) (sh_limbo ?sh) (L (Limbo i)) 0" using sp(2) [OF i] by simp
  obtain d1 s1 L1 where r: "drain_chain fuel (sh_limbo ?sh) deal ?s = Some (d1, s1)" "hs_heap P s1 L1" "L1 (Priv 0) = []"
    "\<And>j. L1 (Chain j) = L (Chain j)" "\<And>k. L1 (Limbo k) = (?L (Limbo k))" "\<And>t. t \<noteq> 0 \<Longrightarrow> L1 (Priv t) = L (Priv t)"
    "view ?s s1 (\<Union>i. set (L1 (Chain i)))"
    using drain_chain_ok [OF hs _ lk fu, of deal] by auto
  have v1: "view s s1 (\<Union>i. set (L1 (Chain i)))" by (rule view_trans [OF v [of UNIV] r(7)]) auto
  have p1: "L1 (Priv t) = []" for t using r(3,6) Cons.prems(3) by (cases "t = 0") auto
  have i1: "\<forall>i\<in>set is. i < length (hs_shards s1)" using Cons.prems(2) viewD(3) [OF v1] by simp
  have f1: "get_internal_node_count s1 \<le> fuel" using count_view [OF v1] Cons.prems(4) by simp
  obtain d2 s2 L2 where q: "drain_limbo fuel is d1 s1 = Some (d2, s2)" "hs_heap P s2 L2" "\<And>t. L2 (Priv t) = []"
    "\<And>j. L2 (Chain j) = L1 (Chain j)" "\<And>i. L2 (Limbo i) = (if i \<in> set is then [] else L1 (Limbo i))" "view s1 s2 (\<Union>i. set (L2 (Chain i)))"
    using Cons.IH [OF r(2) i1 p1 f1, of d1] by auto
  have "drain_limbo fuel (i # is) deal s = Some (d2, s2)" using r(1) q(1) i by (simp add: hs_shard_def)
  moreover have "view s s2 (\<Union>i. set (L2 (Chain i)))" by (rule view_trans [OF v1 q(6)]) (use q(4) in auto)
  ultimately show ?case using q r(4,5) by auto
qed

lemma reclaim_buckets_ok:
  assumes h: "hs_heap P s L" and d: "distinct js" "\<forall>j\<in>set js. j < hs_size s" and fu: "get_internal_node_count s \<le> fuel"
  shows "\<exists>deal' s' L'. reclaim_buckets (hashf P) fuel (hs_size s) js deal live s =
      Some (deal', live + (\<Sum>j\<leftarrow>js. length (filter (\<lambda>a. \<not> stale P s j a) (L (Chain j)))), s') \<and> hs_heap P s' L' \<and>
    (\<forall>j. L' (Chain j) = (if j \<in> set js then filter (\<lambda>a. \<not> stale P s j a) (L (Chain j)) else L (Chain j))) \<and>
    (\<forall>i. L' (Limbo i) = L (Limbo i)) \<and> (\<forall>t. L' (Priv t) = L (Priv t)) \<and> view s s' (\<Union>i. set (L' (Chain i)))"
  using assms
proof (induction js arbitrary: deal live s L)
  case Nil
  then show ?case by (auto simp: view_refl)
next
  case (Cons j js)
  note h = Cons.prems(1)
  let ?keep = "\<lambda>s j. filter (\<lambda>a. \<not> stale P s j a) (L (Chain j))"
  have js: "j < hs_size s" "j \<notin> set js" "distinct js" "\<forall>j\<in>set js. j < hs_size s" using Cons.prems(2,3) by auto
  show ?case
  proof (cases "pub s j")
    case False
    then have e: "addr_of (hs_buckets s ! j) = UNINITIALIZED" "L (Chain j) = []"
      using js(1) heapD(4) [OF h] by (auto simp: pub_def chains_def split: if_splits dest: spec [of _ j])
    obtain d1 s1 L1 where q: "reclaim_buckets (hashf P) fuel (hs_size s) js deal live s = Some (d1, live + (\<Sum>i\<leftarrow>js. length (?keep s i)), s1)"
      "hs_heap P s1 L1" "\<And>i. L1 (Chain i) = (if i \<in> set js then ?keep s i else L (Chain i))"
      "\<And>i. L1 (Limbo i) = L (Limbo i)" "\<And>t. L1 (Priv t) = L (Priv t)" "view s s1 (\<Union>i. set (L1 (Chain i)))"
      using Cons.IH [OF h js(3,4) Cons.prems(4), of deal live] by blast
    have "L1 (Chain i) = (if i \<in> set (j # js) then ?keep s i else L (Chain i))" for i using q(3) [of i] e(2) js(2) by (cases "i = j") auto
    moreover have "reclaim_buckets (hashf P) fuel (hs_size s) (j # js) deal live s = Some (d1, live + (\<Sum>i\<leftarrow>j # js. length (?keep s i)), s1)"
      using q(1) e by simp
    ultimately show ?thesis using q(2,4-6) by blast
  next
    case True
    have f0: "length (L (Chain j)) \<le> fuel" using place_count [OF h, of "Chain j"] Cons.prems(4) by simp
    have k: "slot_at j [] = Head j" "word_at s j [] = hs_buckets s ! j" "keep_at [] = LEVEL_MASK" by (simp_all add: slot_at_def word_at_def keep_at_def)
    obtain d1 s1 L1 where r: "reclaim_chain (hashf P) fuel j (hs_size s) (Head j) (hs_buckets s ! j) LEVEL_MASK deal live s =
        Some (d1, live + length (?keep s j), s1)" "hs_heap P s1 L1" "L1 (Chain j) = ?keep s j" "\<And>i. i \<noteq> j \<Longrightarrow> L1 (Chain i) = L (Chain i)"
      "\<And>i. L1 (Limbo i) = L (Limbo i)" "\<And>t. L1 (Priv t) = L (Priv t)" "view s s1 (\<Union>i. set (L1 (Chain i)))"
      using reclaim_chain_ok [OF h, of j "[]" "L (Chain j)" fuel deal live, OF _ True f0] unfolding k by auto
    have sz: "hs_size s1 = hs_size s" using viewD(2) [OF r(7)] .
    have j1: "\<forall>j\<in>set js. j < hs_size s1" using js(4) sz by simp
    have f1: "get_internal_node_count s1 \<le> fuel" using count_view [OF r(7)] Cons.prems(4) by simp
    have same: "filter (\<lambda>a. \<not> stale P s1 i a) (L1 (Chain i)) = ?keep s i" if "i \<in> set js" for i
    proof -
      have "i \<noteq> j" using that js(2) by blast
      then have l: "L1 (Chain i) = L (Chain i)" by (rule r(4))
      show ?thesis unfolding l
      proof (rule filter_cong [OF refl])
        fix b assume "b \<in> set (L (Chain i))"
        then have "b \<in> set (L1 (Chain i))" using l by simp
        then have "b \<in> (\<Union>i. set (L1 (Chain i)))" by blast
        then show "(\<not> stale P s1 i b) = (\<not> stale P s i b)" using view_stale [OF r(7)] by blast
      qed
    qed
    have sum: "(\<Sum>i\<leftarrow>js. length (filter (\<lambda>a. \<not> stale P s1 i a) (L1 (Chain i)))) = (\<Sum>i\<leftarrow>js. length (?keep s i))"
      by (rule arg_cong [where f = sum_list], rule map_cong) (simp_all add: same)
    obtain d2 s2 L2 where q: "reclaim_buckets (hashf P) fuel (hs_size s) js d1 (live + length (?keep s j)) s1 =
        Some (d2, live + length (?keep s j) + (\<Sum>i\<leftarrow>js. length (?keep s i)), s2)" "hs_heap P s2 L2"
      "\<And>i. L2 (Chain i) = (if i \<in> set js then filter (\<lambda>a. \<not> stale P s1 i a) (L1 (Chain i)) else L1 (Chain i))"
      "\<And>i. L2 (Limbo i) = L1 (Limbo i)" "\<And>t. L2 (Priv t) = L1 (Priv t)" "view s1 s2 (\<Union>i. set (L2 (Chain i)))"
      using Cons.IH [OF r(2) js(3) j1 f1, of d1 "live + length (?keep s j)"] unfolding sum sz by auto
    have ch: "L2 (Chain i) = (if i \<in> set (j # js) then ?keep s i else L (Chain i))" for i
      using q(3) [of i] same [of i] r(3) r(4) [of i] js(2) by (cases "i = j") auto
    have "view s s2 (\<Union>i. set (L2 (Chain i)))"
    proof (rule view_trans [OF r(7) q(6) _ subset_refl])
      have "set (L2 (Chain i)) \<subseteq> set (L1 (Chain i))" for i using q(3) [of i] by auto
      then show "(\<Union>i. set (L2 (Chain i))) \<subseteq> (\<Union>i. set (L1 (Chain i)))" by blast
    qed
    moreover have "reclaim_buckets (hashf P) fuel (hs_size s) (j # js) deal live s =
      Some (d2, live + (\<Sum>i\<leftarrow>j # js. length (?keep s i)), s2)"
      using r(1) q(1) True by (simp add: pub_def add.assoc)
    ultimately show ?thesis using q(2,4,5) r(5,6) ch by auto
  qed
qed

section \<open>\<open>reclaim\<close>\<close>

lemma clear_counters_heap:
  assumes h: "hs_heap P s L" shows "hs_heap P (clear_counters s) L" "view s (clear_counters s) A"
proof -
  let ?s = "clear_counters s"
  have e: "hs_nodes ?s = hs_nodes s" "hs_buckets ?s = hs_buckets s" "hs_size ?s = hs_size s" "length (hs_shards ?s) = length (hs_shards s)"
    "map sh_nodes (hs_shards ?s) = map sh_nodes (hs_shards s)"
    by (simp_all add: clear_counters_def comp_def)
  have sh: "sh_limbo (hs_shards ?s ! i) = sh_limbo (hs_shards s ! i)" "free_addr_of (sh_free (hs_shards ?s ! i)) = free_addr_of (sh_free (hs_shards s ! i))"
    if "i < length (hs_shards s)" for i using that by (simp_all add: clear_counters_def)
  have sm: "link ?s = link s" "val ?s = val s" "pub ?s = pub s" using e by (auto simp: link_def val_def pub_def fun_eq_iff)
  have "geometry P ?s" using heapD(1) [OF h] e by (simp add: geometry_def)
  moreover have "arena ?s" by (rule arena_shard [OF heapD(2) [OF h] e(1,5)])
  moreover have "spares ?s L"
    using heapD(5) [OF h] sh unfolding spares_def e(1,4) sm by (auto split: if_splits)
  moreover have "chains P ?s L" "keys P ?s L" "tree P ?s L"
    using chain_parts_cong [of ?s s L L, OF e(2,3)] e(1) heapD(4,7,8) [OF h] by auto
  moreover have "tags P ?s" using heapD(6) [OF h] unfolding tags_def e sm .
  ultimately show "hs_heap P ?s L" using heapD(3) [OF h] e(1) unfolding hs_heap_def by simp
  show "view s ?s A" using e sm unfolding view_def by (simp add: clear_counters_def comp_def)
qed

text \<open>The nodes that decide about a key, one for each key of the set.\<close>

lemma live_keys:
  assumes h: "hs_heap P s L"
  shows "(\<Sum>j\<leftarrow>[0..<hs_size s]. length (filter (\<lambda>a. \<not> stale P s j a) (L (Chain j)))) = card {k. memb P s L k}" "finite {k. memb P s L k}"
proof -
  let ?A = "\<lambda>j. {a \<in> set (L (Chain j)). \<not> stale P s j a}" and ?n = "hs_size s"
  have "(\<Sum>j\<leftarrow>[0..<?n]. length (filter (\<lambda>a. \<not> stale P s j a) (L (Chain j)))) = (\<Sum>j\<in>{0..<?n}. length (filter (\<lambda>a. \<not> stale P s j a) (L (Chain j))))"
    by (simp add: interv_sum_list_conv_sum_set_nat)
  also have "\<dots> = (\<Sum>j\<in>{0..<?n}. card (?A j))"
  proof (rule sum.cong [OF refl])
    fix j
    have "distinct (filter (\<lambda>a. \<not> stale P s j a) (L (Chain j)))" using ownedD(1) [OF heapD(3) [OF h]] by simp
    from distinct_card [OF this] show "length (filter (\<lambda>a. \<not> stale P s j a) (L (Chain j))) = card (?A j)" by (simp add: set_filter)
  qed
  also have "\<dots> = card (\<Union>j\<in>{0..<?n}. ?A j)"
  proof (rule card_UN_disjoint [symmetric])
    show "\<forall>i\<in>{0..<?n}. \<forall>j\<in>{0..<?n}. i \<noteq> j \<longrightarrow> ?A i \<inter> ?A j = {}"
      using ownedD(2) [OF heapD(3) [OF h], of _ "Chain _" "Chain _"] by blast
  qed auto
  finally have sum: "(\<Sum>j\<leftarrow>[0..<?n]. length (filter (\<lambda>a. \<not> stale P s j a) (L (Chain j)))) = card (\<Union>j\<in>{0..<?n}. ?A j)" .
  have "bij_betw (val s) (\<Union>j\<in>{0..<?n}. ?A j) {k. memb P s L k}"
    unfolding bij_betw_def
  proof
    show "inj_on (val s) (\<Union>j\<in>{0..<?n}. ?A j)"
    proof (rule inj_onI)
      fix a b assume ab: "a \<in> (\<Union>j\<in>{0..<?n}. ?A j)" "b \<in> (\<Union>j\<in>{0..<?n}. ?A j)" "val s a = val s b"
      then obtain i j where i: "a \<in> set (L (Chain i))" "\<not> stale P s i a" and j: "b \<in> set (L (Chain j))" "\<not> stale P s j b" by blast
      have "i = j" using i(2) j(2) ab(3) by (simp add: stale_def)
      then show "a = b" using keysD(2) [OF heapD(7) [OF h] i(1), of b] i j ab(3) by (simp add: stale_def)
    qed
    show "val s ` (\<Union>j\<in>{0..<?n}. ?A j) = {k. memb P s L k}"
    proof (intro equalityI subsetI)
      fix k assume "k \<in> val s ` (\<Union>j\<in>{0..<?n}. ?A j)"
      then obtain a j where a: "a \<in> set (L (Chain j))" "\<not> stale P s j a" "k = val s a" by blast
      then show "k \<in> {k. memb P s L k}" unfolding memb_def stale_def by auto
    next
      fix k assume "k \<in> {k. memb P s L k}"
      then obtain a where a: "a \<in> set (L (Chain (auth (pub s) (hv P k mod ?n))))" "val s a = k" "\<not> is_marked (link s a)"
        unfolding memb_def by blast
      let ?j = "auth (pub s) (hv P k mod ?n)"
      have "?j < ?n" using pub_size [OF chain_pub [OF h a(1)]] .
      moreover have "\<not> stale P s ?j a" using a by (simp add: stale_def)
      ultimately have "a \<in> (\<Union>j\<in>{0..<?n}. ?A j)" using a(1) by (intro UN_I [of ?j]) auto
      then show "k \<in> val s ` (\<Union>j\<in>{0..<?n}. ?A j)" using a(2) by blast
    qed
  qed
  then have "card (\<Union>j\<in>{0..<?n}. ?A j) = card {k. memb P s L k}" "finite {k. memb P s L k}"
    by (auto dest: bij_betw_same_card bij_betw_finite)
  then show "(\<Sum>j\<leftarrow>[0..<?n]. length (filter (\<lambda>a. \<not> stale P s j a) (L (Chain j)))) = card {k. memb P s L k}" "finite {k. memb P s L k}"
    using sum by simp_all
qed

lemma same_heap_memb: "same_heap s s' \<Longrightarrow> memb P s' L = memb P s L"
  by (simp add: memb_def same_heapD fun_eq_iff)

lemma reclaim_ok:
  assumes h: "hs_heap P s L" and pv: "\<And>t. L (Priv t) = []"
  shows "\<exists>s' L'. reclaim (hashf P) s = Some (card {k. memb P s L k}, s') \<and> hs_heap P s' L' \<and> memb P s' L' = memb P s L \<and>
    (\<forall>i. L' (Limbo i) = []) \<and> (\<forall>t. L' (Priv t) = []) \<and> (\<forall>j. \<forall>a\<in>set (L' (Chain j)). \<not> stale P s' j a) \<and>
    hs_count s' = card {k. memb P s L k} + append_credit s' \<and> view s s' {}"
proof -
  let ?s = "clear_counters s" and ?fuel = "get_internal_node_count s"
  note c = clear_counters_heap [OF h]
  have f1: "get_internal_node_count ?s \<le> ?fuel" using count_view [OF c(2) [of UNIV]] by simp
  have ls: "length (hs_shards ?s) = length (hs_shards s)" "hs_size ?s = hs_size s" using viewD(2,3) [OF c(2) [of UNIV]] by simp_all
  obtain d1 s1 L1 where a: "drain_limbo ?fuel [0..<length (hs_shards s)] 0 ?s = Some (d1, s1)" "hs_heap P s1 L1" "\<And>t. L1 (Priv t) = []"
    "\<And>j. L1 (Chain j) = L (Chain j)" "\<And>i. L1 (Limbo i) = (if i \<in> set [0..<length (hs_shards s)] then [] else L (Limbo i))"
    "view ?s s1 (\<Union>i. set (L1 (Chain i)))"
    using drain_limbo_ok [OF c(1) _ pv f1, of "[0..<length (hs_shards s)]" 0] ls by auto
  have v1: "view s s1 (\<Union>i. set (L1 (Chain i)))" by (rule view_trans [OF c(2) [of UNIV] a(6)]) auto
  have lim: "L1 (Limbo i) = []" for i using a(5) [of i] sparesD(4) [OF heapD(5) [OF h], of i] by auto
  have sz: "hs_size s1 = hs_size s" using viewD(2) [OF v1] .
  have f2: "get_internal_node_count s1 \<le> ?fuel" using count_view [OF v1] by simp
  let ?keep = "\<lambda>j. filter (\<lambda>a. \<not> stale P s1 j a) (L1 (Chain j))"
  obtain d2 s2 L2 where b: "reclaim_buckets (hashf P) ?fuel (hs_size s1) [0..<hs_size s] d1 0 s1 =
      Some (d2, 0 + (\<Sum>j\<leftarrow>[0..<hs_size s]. length (?keep j)), s2)" "hs_heap P s2 L2"
    "\<And>j. L2 (Chain j) = (if j \<in> set [0..<hs_size s] then ?keep j else L1 (Chain j))" "\<And>i. L2 (Limbo i) = L1 (Limbo i)" "\<And>t. L2 (Priv t) = L1 (Priv t)"
    "view s1 s2 (\<Union>i. set (L2 (Chain i)))"
    using reclaim_buckets_ok [OF a(2) _ _ f2, of "[0..<hs_size s]" d1 0] sz by auto
  have ch: "L2 (Chain j) = ?keep j" for j
  proof (cases "j < hs_size s")
    case True
    then show ?thesis using b(3) [of j] by simp
  next
    case False
    then have "\<not> pub s1 j" using pub_size [of s1 j] sz by auto
    then have "L1 (Chain j) = []" using heapD(4) [OF a(2)] unfolding chains_def by metis
    then show ?thesis using b(3) [of j] False by simp
  qed
  have st: "stale P s1 j x = stale P s j x" "val s1 x = val s x" "is_marked (link s1 x) = is_marked (link s x)"
    if "x \<in> set (L (Chain i))" for i j x
  proof -
    have "x \<in> (\<Union>i. set (L1 (Chain i)))" using that a(4) by auto
    then show "stale P s1 j x = stale P s j x" "val s1 x = val s x" "is_marked (link s1 x) = is_marked (link s x)"
      using view_stale [OF v1] viewD(5,6) [OF v1] by blast+
  qed
  have live: "(\<Sum>j\<leftarrow>[0..<hs_size s]. length (?keep j)) = card {k. memb P s L k}"
  proof -
    have "?keep j = filter (\<lambda>a. \<not> stale P s j a) (L (Chain j))" for j unfolding a(4) by (rule filter_cong) (auto simp: st)
    then show ?thesis using live_keys(1) [OF h] by simp
  qed
  have v2: "view s s2 (\<Union>i. set (L2 (Chain i)))" by (rule view_trans [OF v1 b(6)]) (auto simp: ch)
  have vx: "val s2 x = val s x" "is_marked (link s2 x) = is_marked (link s x)" "stale P s2 j x = stale P s j x" if "x \<in> set (L2 (Chain i))" for i j x
  proof -
    have "x \<in> (\<Union>i. set (L2 (Chain i)))" using that by blast
    then show "val s2 x = val s x" "is_marked (link s2 x) = is_marked (link s x)" "stale P s2 j x = stale P s j x"
      using viewD(5,6) [OF v2] view_stale [OF v2] by blast+
  qed
  have mem: "memb P s2 L2 k = memb P s L k" for k
  proof -
    let ?j = "auth (pub s) (hv P k mod hs_size s)"
    have e: "x \<in> set (L2 (Chain ?j)) \<and> val s x = k \<and> \<not> is_marked (link s x) \<longleftrightarrow> x \<in> set (L (Chain ?j)) \<and> val s x = k \<and> \<not> is_marked (link s x)" for x
      unfolding ch a(4) using st(1) [of x ?j ?j] by (auto simp: stale_def)
    have "memb P s2 L2 k \<longleftrightarrow> (\<exists>x\<in>set (L2 (Chain ?j)). val s x = k \<and> \<not> is_marked (link s x))"
      unfolding memb_def viewD(1,2) [OF v2] by (rule bex_cong [OF refl]) (simp add: vx(1,2))
    also have "\<dots> \<longleftrightarrow> memb P s L k" unfolding memb_def Bex_def e ..
    finally show ?thesis .
  qed
  let ?n = "card {k. memb P s L k}" let ?s' = "s2\<lparr>hs_count := ?n + append_credit s2\<rparr>"
  have same: "same_heap s2 ?s'" by (simp add: same_heap_def)
  have "reclaim (hashf P) s = Some (?n, ?s')" using a(1) b(1) sz live by (simp add: reclaim_def Let_def)
  moreover have "hs_heap P ?s' L2" using b(2) same_heap_heap [OF same] by blast
  moreover have "memb P ?s' L2 = memb P s L" using mem same_heap_memb [OF same, of P L2] by (simp add: fun_eq_iff)
  moreover have "\<not> stale P ?s' j x" if "x \<in> set (L2 (Chain j))" for j x
  proof -
    have "\<not> stale P s2 j x" using vx(3) [OF that] that st(1) [of x j j] unfolding ch a(4) by auto
    then show ?thesis unfolding stale_def same_heapD [OF same] .
  qed
  moreover have "hs_count ?s' = ?n + append_credit ?s'" by (simp add: append_credit_def)
  moreover have "view s ?s' {}" using v2 same_heapD [OF same] by (simp add: view_def)
  ultimately show ?thesis using lim a(3) b(4,5) by (intro exI [of _ ?s'] exI [of _ L2]) simp
qed

text \<open>\<open>reclaim\<close> as an action of the machine.\<close>

lemma quiet_pcs:
  assumes inv: "hs_inv P s L" and q: "list_all (\<lambda>t. at_rest (hs_pcs s t)) (hs_threads s)"
  shows "at_rest (hs_pcs s t)" "L (Priv t) = []"
proof -
  show r: "at_rest (hs_pcs s t)"
    using q hs_invD(6) [OF inv, of t] by (cases "hs_pcs s t = Hs_rest") (auto simp: list_all_iff)
  then show "L (Priv t) = []" unfolding hs_invD(2) [OF inv] by (cases "hs_pcs s t") auto
qed

lemma reclaim_inv:
  assumes inv: "hs_inv P s L" and q: "list_all (\<lambda>t. at_rest (hs_pcs s t)) (hs_threads s)"
  shows "\<exists>s' L'. reclaim (hashf P) s = Some (card {k. memb P s L k}, s') \<and> hs_inv P s' L' \<and> memb P s' L' = memb P s L \<and>
    (\<forall>i. L' (Limbo i) = []) \<and> (\<forall>j. \<forall>a\<in>set (L' (Chain j)). \<not> stale P s' j a) \<and>
    hs_count s' = card {k. memb P s L k} + append_credit s' \<and> view s s' {}"
proof -
  note qp = quiet_pcs [OF inv q]
  obtain s' L' where r: "reclaim (hashf P) s = Some (card {k. memb P s L k}, s')" "hs_heap P s' L'" "memb P s' L' = memb P s L"
    "\<forall>i. L' (Limbo i) = []" "\<forall>t. L' (Priv t) = []" "\<forall>j. \<forall>a\<in>set (L' (Chain j)). \<not> stale P s' j a"
    "hs_count s' = card {k. memb P s L k} + append_credit s'" "view s s' {}"
    using reclaim_ok [OF hs_invD(1) [OF inv] qp(2)] by blast
  have p: "priv (hs_pcs s t) = []" "pc_ok P s' L' (hs_pcs s t)" "\<not> crit (hs_pcs s t)" for t using qp(1) [of t] by (cases "hs_pcs s t"; simp)+
  have "hs_inv P s' L'"
    using inv r(2,5) p unfolding hs_inv_def viewD(7,8,9) [OF r(8)] by simp
  then show ?thesis using r by blast
qed

end
