(* ===== verification/Hash_Set_Account.thy ===== *)
theory Hash_Set_Account
  imports Hash_Set_Reclaim
begin

text \<open>
  The accounting sweep on a state of the invariant with every thread at rest: it visits every slot exactly
  once, on the list the layout puts it on.
\<close>

lemma lower_bound_hit:
  assumes "sorted xs" and "distinct xs" and "a \<in> set xs"
  shows "lower_bound xs a < length xs" "xs ! lower_bound xs a = a"
proof -
  obtain ys zs where xs: "xs = ys @ a # zs" using assms(3) by (auto simp: in_set_conv_decomp)
  have "x < a" if "x \<in> set ys" for x using assms(1,2) that by (auto simp: xs sorted_append less_le)
  then have "lower_bound xs a = length ys" by (simp add: lower_bound_def xs takeWhile_append)
  then show "lower_bound xs a < length xs" "xs ! lower_bound xs a = a" by (simp_all add: xs)
qed

text \<open>The flags, as the set of the slots seen.\<close>

definition flags :: "word_t list \<Rightarrow> word_t set \<Rightarrow> bool list" where
  "flags slots S = map (\<lambda>a. a \<in> S) slots"

lemma flags_visit:
  assumes s: "sorted slots" "distinct slots" and a: "a \<in> set slots" "a \<notin> S"
  shows "visits slots (flags slots S) a" "(flags slots S)[lower_bound slots a := True] = flags slots (insert a S)"
proof -
  note lb = lower_bound_hit [OF s a(1)]
  show "visits slots (flags slots S) a" using lb a(2) by (simp add: visits_def flags_def seen_at_def Let_def)
  show "(flags slots S)[lower_bound slots a := True] = flags slots (insert a S)"
  proof (rule nth_equalityI)
    fix i assume "i < length ((flags slots S)[lower_bound slots a := True])"
    then have i: "i < length slots" by (simp add: flags_def)
    show "(flags slots S)[lower_bound slots a := True] ! i = flags slots (insert a S) ! i"
      using i lb nth_eq_iff_index_eq [OF s(2) i lb(1)] by (auto simp: flags_def nth_list_update)
  qed (simp add: flags_def)
qed

lemma sweep_list:
  assumes s: "sorted slots" "distinct slots" and xs: "linked N cur xs 0" "distinct xs" "set xs \<subseteq> set slots" "set xs \<inter> S = {}" "0 \<notin> set xs"
    and st: "strip cur = addr_of cur" "\<And>a n. a \<in> set xs \<Longrightarrow> N a = Some n \<Longrightarrow> strip (nd_link n) = addr_of (nd_link n)"
  shows "sweep strip N slots cur (flags slots S) ok n = Some (flags slots (S \<union> set xs), ok, n + length xs)"
  using xs st
proof (induction xs arbitrary: cur S n)
  case Nil
  then show ?case by (simp add: sweep.simps [of _ _ _ cur] EMPTY_def)
next
  case (Cons a xs)
  obtain nd where nd: "addr_of cur = a" "N a = Some nd" "linked N (nd_link nd) xs 0" using Cons.prems(1) by auto
  have a: "a \<noteq> 0" "a \<in> set slots" "a \<notin> S" using Cons.prems(3-5) by auto
  note fv = flags_visit [OF s a(2,3)]
  have "sweep strip N slots (nd_link nd) (flags slots (insert a S)) ok (n + 1) =
    Some (flags slots (insert a S \<union> set xs), ok, n + 1 + length xs)"
    by (rule Cons.IH [OF nd(3)]) (use Cons.prems nd in auto)
  then show ?case using nd a fv Cons.prems(6) by (simp add: sweep.simps [of _ _ _ cur] EMPTY_def)
qed

lemma sweep_buckets_ok:
  assumes h: "hs_heap P s L" and s: "sorted slots" "distinct slots" "set slots = dom (hs_nodes s)"
    and js: "distinct js" "\<forall>j\<in>set js. j < hs_size s" and S: "S \<subseteq> (\<Union>j\<in>- set js. set (L (Chain j)))" "n = card S"
  shows "\<exists>n'. sweep_buckets s slots js (flags slots S) ok n = Some (flags slots (S \<union> (\<Union>j\<in>set js. set (L (Chain j)))), ok, n') \<and>
     n' = card (S \<union> (\<Union>j\<in>set js. set (L (Chain j)))) \<and> n' = n + (\<Sum>j\<leftarrow>js. length (L (Chain j)))"
  using js S
proof (induction js arbitrary: S n)
  case (Cons j js)
  note o = heapD(3) [OF h]
  let ?c = "set (L (Chain j))"
  have dis: "?c \<inter> S = {}"
  proof -
    have "x \<notin> S" if "x \<in> ?c" for x using Cons.prems(3) ownedD(2) [OF o that] by fastforce
    then show ?thesis by blast
  qed
  have fin: "finite S" using Cons.prems(3) ownedD(3) [OF o] s(3) by (intro finite_subset [of S "set slots"]) auto
  have S': "S \<union> ?c \<subseteq> (\<Union>j\<in>- set js. set (L (Chain j)))" using Cons.prems(1,3) by auto
  have cd: "card (S \<union> ?c) = n + length (L (Chain j))"
    using dis fin Cons.prems(4) distinct_card [OF ownedD(1) [OF o, of "Chain j"]] by (subst card_Un_disjoint) auto
  have un: "S \<union> (\<Union>j\<in>set (j # js). set (L (Chain j))) = (S \<union> ?c) \<union> (\<Union>j\<in>set js. set (L (Chain j)))" by auto
  have ih: "\<exists>n'. sweep_buckets s slots js (flags slots (S \<union> ?c)) ok (card (S \<union> ?c)) =
      Some (flags slots ((S \<union> ?c) \<union> (\<Union>j\<in>set js. set (L (Chain j)))), ok, n') \<and> n' = card ((S \<union> ?c) \<union> (\<Union>j\<in>set js. set (L (Chain j)))) \<and>
      n' = card (S \<union> ?c) + (\<Sum>j\<leftarrow>js. length (L (Chain j)))"
    by (rule Cons.IH [OF _ _ S' refl]) (use Cons.prems(1,2) in auto)
  show ?case
  proof (cases "pub s j")
    case False
    then have e: "addr_of (hs_buckets s ! j) = UNINITIALIZED" "L (Chain j) = []"
      using Cons.prems(2) heapD(4) [OF h] by (auto simp: pub_def chains_def split: if_splits dest: spec [of _ j])
    then show ?thesis using ih Cons.prems(4) un by simp
  next
    case True
    have "sweep addr_of (hs_nodes s) slots (hs_buckets s ! j) (flags slots S) ok n = Some (flags slots (S \<union> ?c), ok, n + length (L (Chain j)))"
      by (rule sweep_list [OF s(1,2) chain_linked [OF h True] ownedD(1) [OF o]])
         (use ownedD(3) [OF o, of _ "Chain j"] s(3) dis zero_notin [OF h, of "Chain j"] in auto)
    then show ?thesis using ih True un cd by (simp add: pub_def)
  qed
qed simp

lemma sweep_shards_ok:
  assumes h: "hs_heap P s L" and s: "sorted slots" "distinct slots" "set slots = dom (hs_nodes s)"
    and ys: "hs_shards s = xs @ ys" and S: "S \<subseteq> (\<Union>j. set (L (Chain j))) \<union> (\<Union>i<length xs. set (L (Free i)) \<union> set (L (Limbo i)))"
    and n: "r + f + l = card S"
  shows "\<exists>f' l'. sweep_shards s slots ys (flags slots S) ok f l = Some (ok, f', l') \<and>
     r + f' + l' = card (S \<union> (\<Union>i\<in>{length xs..<length (hs_shards s)}. set (L (Free i)) \<union> set (L (Limbo i)))) \<and>
     l' = l + (\<Sum>i\<leftarrow>[length xs..<length (hs_shards s)]. length (L (Limbo i)))"
  using ys S n
proof (induction ys arbitrary: xs S f l)
  case Nil
  then show ?case by simp
next
  case (Cons sh ys)
  note o = heapD(3) [OF h]
  let ?i = "length xs" let ?F = "set (L (Free ?i))" and ?M = "set (L (Limbo ?i))"
  have i: "?i < length (hs_shards s)" "hs_shards s ! ?i = sh" using Cons.prems(1) by simp_all
  note sp = sparesD [OF heapD(5) [OF h]]
  have notin: "x \<notin> S" if x: "x \<in> ?F \<union> ?M" for x
  proof
    assume "x \<in> S"
    then consider j where "x \<in> set (L (Chain j))" | k where "k < ?i" "x \<in> set (L (Free k)) \<union> set (L (Limbo k))" using Cons.prems(2) by auto
    then show False
    proof cases
      case 1
      then show False using x ownedD(2) [OF o, of x "Chain j"] by blast
    next
      case 2
      then show False using x ownedD(2) [OF o, of x "Free k"] ownedD(2) [OF o, of x "Limbo k"] by blast
    qed
  qed
  have fm: "?F \<inter> ?M = {}" using ownedD(2) [OF o, of _ "Free ?i" "Limbo ?i"] by blast
  have bare: "id (nd_link n) = addr_of (nd_link n)" if "a \<in> ?F" "hs_nodes s a = Some n" for a n
    using bare_link [OF h that(1)] that(2) by (simp add: link_def)
  have f1: "sweep id (hs_nodes s) slots (free_addr_of (sh_free sh)) (flags slots S) ok f = Some (flags slots (S \<union> ?F), ok, f + length (L (Free ?i)))"
    by (rule sweep_list [OF s(1,2) _ ownedD(1) [OF o] _ _ _ _ bare])
       (use sp(1) [OF i(1)] i(2) ownedD(3) [OF o, of _ "Free ?i"] s(3) notin zero_notin [OF h] in auto)
  have f2: "sweep addr_of (hs_nodes s) slots (sh_limbo sh) (flags slots (S \<union> ?F)) ok l = Some (flags slots (S \<union> ?F \<union> ?M), ok, l + length (L (Limbo ?i)))"
    by (rule sweep_list [OF s(1,2) _ ownedD(1) [OF o]])
       (use sp(2) [OF i(1)] i(2) ownedD(3) [OF o, of _ "Limbo ?i"] s(3) notin fm zero_notin [OF h] in auto)
  have fin: "finite S"
    using Cons.prems(2) ownedD(3) [OF o] s(3) by (intro finite_subset [of S "set slots"]) auto
  have c: "card (S \<union> ?F \<union> ?M) = card S + length (L (Free ?i)) + length (L (Limbo ?i))"
  proof -
    have "card (S \<union> ?F) = card S + card ?F" using fin notin by (intro card_Un_disjoint) auto
    moreover have "card (S \<union> ?F \<union> ?M) = card (S \<union> ?F) + card ?M" using fin notin fm by (intro card_Un_disjoint) auto
    ultimately show ?thesis using distinct_card [OF ownedD(1) [OF o]] by simp
  qed
  have "\<exists>f' l'. sweep_shards s slots ys (flags slots (S \<union> ?F \<union> ?M)) ok (f + length (L (Free ?i))) (l + length (L (Limbo ?i))) = Some (ok, f', l') \<and>
     r + f' + l' = card ((S \<union> ?F \<union> ?M) \<union> (\<Union>i\<in>{length (xs @ [sh])..<length (hs_shards s)}. set (L (Free i)) \<union> set (L (Limbo i)))) \<and>
     l' = l + length (L (Limbo ?i)) + (\<Sum>i\<leftarrow>[length (xs @ [sh])..<length (hs_shards s)]. length (L (Limbo i)))"
    by (rule Cons.IH) (use Cons.prems c in \<open>auto simp: less_Suc_eq\<close>)
  moreover have "(S \<union> ?F \<union> ?M) \<union> (\<Union>i\<in>{length (xs @ [sh])..<length (hs_shards s)}. set (L (Free i)) \<union> set (L (Limbo i))) =
    S \<union> (\<Union>i\<in>{?i..<length (hs_shards s)}. set (L (Free i)) \<union> set (L (Limbo i)))"
  proof -
    have "{?i..<length (hs_shards s)} = insert ?i {length (xs @ [sh])..<length (hs_shards s)}" using i(1) by auto
    then show ?thesis by auto
  qed
  moreover have "[?i..<length (hs_shards s)] = ?i # [length (xs @ [sh])..<length (hs_shards s)]" using i(1) by (simp add: upt_conv_Cons)
  ultimately show ?case using f1 f2 by (auto simp: add.assoc)
qed

lemma accounting_ok:
  assumes h: "hs_heap P s L" and pv: "\<And>t. L (Priv t) = []"
  shows "\<exists>r f l. get_internal_accounting s = Some \<lparr>acc_slots = get_internal_node_count s, acc_reachable = r, acc_free = f, acc_limbo = l,
     acc_consistent = True\<rparr> \<and> r + f + l = get_internal_node_count s \<and>
     r = (\<Sum>j\<leftarrow>[0..<hs_size s]. length (L (Chain j))) \<and> l = (\<Sum>i\<leftarrow>[0..<length (hs_shards s)]. length (L (Limbo i)))"
proof -
  let ?ns = "concat (map sh_nodes (hs_shards s))" let ?sl = "sort ?ns"
  note o = heapD(3) [OF h]
  have sl: "sorted ?sl" "distinct ?sl" "set ?sl = dom (hs_nodes s)" using heapD(2) [OF h] by (simp_all add: arena_def)
  have ln: "length ?sl = get_internal_node_count s" by (simp add: get_internal_node_count_def length_concat comp_def)
  have none: "L (Chain j) = []" if "\<not> j < hs_size s" for j
    using heapD(4) [OF h] that pub_size [of s j] unfolding chains_def by metis
  let ?C = "\<Union>j\<in>set [0..<hs_size s]. set (L (Chain j))"
  have C: "?C = (\<Union>j. set (L (Chain j)))" using none by fastforce
  have f0: "flags ?sl {} = replicate (length ?sl) False" by (simp add: flags_def map_replicate_const)
  have "\<exists>n'. sweep_buckets s ?sl [0..<hs_size s] (flags ?sl {}) True 0 = Some (flags ?sl ({} \<union> ?C), True, n') \<and>
     n' = card ({} \<union> ?C) \<and> n' = 0 + (\<Sum>j\<leftarrow>[0..<hs_size s]. length (L (Chain j)))"
    by (rule sweep_buckets_ok [OF h sl]) auto
  note b = this [unfolded f0 Un_empty_left add_0]
  obtain r where r: "sweep_buckets s ?sl [0..<hs_size s] (replicate (length ?sl) False) True 0 = Some (flags ?sl ?C, True, r)" "r = card ?C"
    "r = (\<Sum>j\<leftarrow>[0..<hs_size s]. length (L (Chain j)))"
    using b by blast
  have "\<exists>f l. sweep_shards s ?sl (hs_shards s) (flags ?sl ?C) True 0 0 = Some (True, f, l) \<and>
    r + f + l = card (?C \<union> (\<Union>i\<in>{0..<length (hs_shards s)}. set (L (Free i)) \<union> set (L (Limbo i)))) \<and>
    l = 0 + (\<Sum>i\<leftarrow>[0..<length (hs_shards s)]. length (L (Limbo i)))"
    by (rule sweep_shards_ok [OF h sl, where xs = "[]", unfolded list.size(3)]) (use r(2) C in auto)
  then obtain f l where q: "sweep_shards s ?sl (hs_shards s) (flags ?sl ?C) True 0 0 = Some (True, f, l)"
    "r + f + l = card (?C \<union> (\<Union>i\<in>{0..<length (hs_shards s)}. set (L (Free i)) \<union> set (L (Limbo i))))"
    "l = (\<Sum>i\<leftarrow>[0..<length (hs_shards s)]. length (L (Limbo i)))"
    unfolding add_0 by blast
  have "?C \<union> (\<Union>i\<in>{0..<length (hs_shards s)}. set (L (Free i)) \<union> set (L (Limbo i))) = dom (hs_nodes s)"
  proof (intro equalityI subsetI)
    fix a assume "a \<in> dom (hs_nodes s)"
    then obtain p where p: "a \<in> set (L p)" using ownedD(4) [OF o] by blast
    show "a \<in> ?C \<union> (\<Union>i\<in>{0..<length (hs_shards s)}. set (L (Free i)) \<union> set (L (Limbo i)))"
    proof (cases p)
      case (Free i)
      then show ?thesis using p sparesD(4) [OF heapD(5) [OF h], of i] by (cases "i < length (hs_shards s)") auto
    next
      case (Limbo i)
      then show ?thesis using p sparesD(4) [OF heapD(5) [OF h], of i] by (cases "i < length (hs_shards s)") auto
    qed (use p pv C in auto)
  qed (use ownedD(3) [OF o] in auto)
  moreover have "card (dom (hs_nodes s)) = length ?sl" using distinct_card [OF sl(2)] sl(3) by simp
  ultimately have "r + f + l = length ?sl" using q(2) by simp
  then show ?thesis using r(1,3) q(1,3) ln by (simp add: get_internal_accounting_def Let_def)
qed

end
