(* ===== verification/Hash_Set_Watch.thy ===== *)
theory Hash_Set_Watch
  imports Hash_Set_Reclaim
begin

text \<open>
  The answers of the calls.  Each call is accompanied by a record of what was true of its key while it ran and of
  the operations on the set it performed; the answer of a finished call agrees with its record.
\<close>

section \<open>The set as a function of the state\<close>

text \<open>The walk of the deciding chain; the number of slots bounds its length.\<close>

fun chain_has :: "nat \<Rightarrow> (word_t \<rightharpoonup> 'k node) \<Rightarrow> word_t \<Rightarrow> 'k \<Rightarrow> bool" where
  "chain_has fuel N cur k =
     (if addr_of cur = EMPTY then False
      else case fuel of 0 \<Rightarrow> False
      | Suc f \<Rightarrow> (case N (addr_of cur) of None \<Rightarrow> False
          | Some n \<Rightarrow> nd_value n = k \<and> \<not> is_marked (nd_link n) \<or> chain_has f N (nd_link n) k))"

declare chain_has.simps [simp del]

definition hs_set :: "('k \<Rightarrow> size_t) \<Rightarrow> 'k hset \<Rightarrow> 'k \<Rightarrow> bool" where
  "hs_set hash s k =
     chain_has (get_internal_node_count s) (hs_nodes s) (hs_buckets s ! auth (pub s) (unat (hash k) mod hs_size s)) k"

lemma chain_has_linked:
  "linked N cur xs 0 \<Longrightarrow> length xs \<le> fuel \<Longrightarrow> 0 \<notin> set xs \<Longrightarrow>
     chain_has fuel N cur k \<longleftrightarrow> (\<exists>a\<in>set xs. nd_value (the (N a)) = k \<and> \<not> is_marked (nd_link (the (N a))))"
proof (induction xs arbitrary: cur fuel)
  case Nil
  then show ?case by (simp add: chain_has.simps [of fuel] EMPTY_def)
next
  case (Cons a xs)
  then obtain f n where "fuel = Suc f" "N a = Some n" "addr_of cur = a" "linked N (nd_link n) xs 0" "length xs \<le> f" "a \<noteq> 0"
    by (cases fuel) auto
  then show ?case using Cons.IH [of "nd_link n" f] Cons.prems(3) by (auto simp: chain_has.simps [of "Suc f"] EMPTY_def)
qed

lemma auth_published: "hs_heap P s L \<Longrightarrow> pub s (auth (pub s) j)"
proof -
  assume h: "hs_heap P s L"
  have z: "pub s 0" using treeD(1) [OF heapD(8) [OF h]] cap_pos [OF h] by blast
  show ?thesis by (induction "pub s" j rule: auth.induct) (metis auth.simps z)
qed

lemma hs_set_memb:
  assumes h: "hs_heap P s L" shows "hs_set (hashf P) s k \<longleftrightarrow> memb P s L k"
proof -
  let ?j = "auth (pub s) (hv P k mod hs_size s)"
  have "hs_set (hashf P) s k \<longleftrightarrow> chain_has (get_internal_node_count s) (hs_nodes s) (hs_buckets s ! ?j) k" by (simp add: hs_set_def hv_def)
  also have "\<dots> \<longleftrightarrow> memb P s L k"
    using chain_has_linked [OF chain_linked [OF h auth_published [OF h]] place_count [OF h] zero_notin [OF h]]
    by (simp add: memb_def val_def link_def)
  finally show ?thesis .
qed

section \<open>Calls with their records\<close>

record 'k watch =
  w_op :: "'k hs_op"
  w_in :: bool
  w_out :: bool
  w_did :: "'k set_op list"

primrec op_key :: "'k hs_op \<Rightarrow> 'k" where
  "op_key (Op_contains k) = k"
| "op_key (Op_insert k) = k"
| "op_key (Op_erase k) = k"

definition watch_open :: "'k hs_op \<Rightarrow> ('k \<Rightarrow> bool) \<Rightarrow> 'k watch" where
  "watch_open op A = \<lparr>w_op = op, w_in = A (op_key op), w_out = (\<not> A (op_key op)), w_did = []\<rparr>"

definition watch_note :: "('k \<Rightarrow> bool) \<Rightarrow> 'k set_op list \<Rightarrow> 'k watch \<Rightarrow> 'k watch" where
  "watch_note A bs w = w\<lparr>w_in := w_in w \<or> A (op_key (w_op w)), w_out := w_out w \<or> \<not> A (op_key (w_op w)), w_did := w_did w @ bs\<rparr>"

primrec opt_ops :: "'b option \<Rightarrow> 'b list" where
  "opt_ops None = []"
| "opt_ops (Some b) = [b]"

primrec act_of :: "'k hs_act \<Rightarrow> tid \<Rightarrow> bool" where
  "act_of (Hs_call u op) t \<longleftrightarrow> u = t"
| "act_of (Hs_step u) t \<longleftrightarrow> u = t"
| "act_of (Hs_weak u) t \<longleftrightarrow> u = t"
| "act_of (Hs_throw u) t \<longleftrightarrow> u = t"
| "act_of (Hs_append u a) t \<longleftrightarrow> u = t"
| "act_of Hs_reclaim t \<longleftrightarrow> False"

text \<open>The records of the calls in progress after an action; the record of a finished call does not change.\<close>

definition watch_step :: "('k \<Rightarrow> size_t) \<Rightarrow> 'k hset \<Rightarrow> 'k hs_act \<Rightarrow> 'k hset \<Rightarrow> (tid \<Rightarrow> 'k watch) \<Rightarrow> tid \<Rightarrow> 'k watch" where
  "watch_step hash s a s' W t =
     (case a of Hs_call u op \<Rightarrow>
         if u = t then watch_open op (hs_set hash s')
         else if at_rest (hs_pcs s t) then W t else watch_note (hs_set hash s') [] (W t)
      | _ \<Rightarrow> if at_rest (hs_pcs s t) then W t
             else watch_note (hs_set hash s') (if act_of a t then opt_ops (hs_lin hash s a) else []) (W t))"

definition watched :: "bool \<Rightarrow> ('k \<Rightarrow> size_t) \<Rightarrow> 'k hset \<times> (tid \<Rightarrow> 'k watch) \<Rightarrow> 'k hs_act \<Rightarrow> ('k hset \<times> (tid \<Rightarrow> 'k watch)) option" where
  "watched ad hash x a = map_option (\<lambda>s'. (s', watch_step hash (fst x) a s' (snd x))) (hs_exec ad hash (fst x) a)"

text \<open>What an answer promises.\<close>

fun answer_ok :: "'k hs_op \<Rightarrow> hs_res \<Rightarrow> 'k watch \<Rightarrow> bool" where
  "answer_ok op Throw w \<longleftrightarrow> w_did w = []"
| "answer_ok (Op_contains k) (Ret b) w \<longleftrightarrow> w_did w = [] \<and> (if b then w_in w else w_out w)"
| "answer_ok (Op_insert k) (Ret b) w \<longleftrightarrow> (if b then w_did w = [Ins k] else w_did w = [] \<and> w_in w)"
| "answer_ok (Op_erase k) (Ret b) w \<longleftrightarrow> (if b then w_did w = [Del k] else w_did w = [] \<and> w_out w)"

section \<open>What a call knows of its record\<close>

definition recorded :: "'k hs_par \<Rightarrow> 'k hset \<Rightarrow> layout \<Rightarrow> 'k hs_op \<Rightarrow> 'k watch \<Rightarrow> bool" where
  "recorded P s L op w \<longleftrightarrow> w_op w = op \<and> (if memb P s L (op_key op) then w_in w else w_out w)"

definition idle :: "'k hs_par \<Rightarrow> 'k hset \<Rightarrow> layout \<Rightarrow> 'k hs_op \<Rightarrow> 'k watch \<Rightarrow> bool" where
  "idle P s L op w \<longleftrightarrow> recorded P s L op w \<and> w_did w = []"

definition known :: "'k hs_par \<Rightarrow> 'k hset \<Rightarrow> layout \<Rightarrow> 'k \<Rightarrow> nat \<Rightarrow> 'k watch \<Rightarrow> bool" where
  "known P s L k ts w \<longleftrightarrow>
     (\<forall>a\<in>set (L (Chain (bucket_of (hashf P) k ts))). val s a = k \<and> \<not> is_marked (link s a) \<longrightarrow> w_in w)"

definition missed :: "'k hs_par \<Rightarrow> 'k hset \<Rightarrow> layout \<Rightarrow> 'k \<Rightarrow> nat \<Rightarrow> word_t \<Rightarrow> 'k watch \<Rightarrow> bool" where
  "missed P s L k ts cur w \<longleftrightarrow> pub s (bucket_of (hashf P) k ts) \<and> (w_out w \<or>
     (\<forall>a\<in>set (L (Chain (bucket_of (hashf P) k ts))) - rest L (bucket_of (hashf P) k ts) cur. val s a = k \<longrightarrow> is_marked (link s a)))"

primrec ctx_watch :: "'k hs_par \<Rightarrow> 'k hset \<Rightarrow> layout \<Rightarrow> 'k ctx \<Rightarrow> 'k watch \<Rightarrow> bool" where
  "ctx_watch P s L (Cx_contains k ts) w \<longleftrightarrow> idle P s L (Op_contains k) w \<and> known P s L k ts w"
| "ctx_watch P s L (Cx_erase k ts) w \<longleftrightarrow> idle P s L (Op_erase k) w \<and> known P s L k ts w"
| "ctx_watch P s L (Cx_insert k nn) w \<longleftrightarrow> idle P s L (Op_insert k) w"

primrec acont_watch :: "'k hs_par \<Rightarrow> 'k hset \<Rightarrow> layout \<Rightarrow> 'k acont \<Rightarrow> 'k watch \<Rightarrow> bool" where
  "acont_watch P s L (Ac_insert k ts head) w \<longleftrightarrow> idle P s L (Op_insert k) w"
| "acont_watch P s L (Ac_split cx j js next_raw subs) w \<longleftrightarrow> ctx_watch P s L cx w"

primrec lcont_watch :: "'k hs_par \<Rightarrow> 'k hset \<Rightarrow> layout \<Rightarrow> 'k lcont \<Rightarrow> 'k watch \<Rightarrow> bool" where
  "lcont_watch P s L (Lc_done op r) w \<longleftrightarrow> idle P s L op w \<and> answer_ok op r w"
| "lcont_watch P s L (Lc_split cx j js) w \<longleftrightarrow> ctx_watch P s L cx w"
| "lcont_watch P s L (Lc_raise cx) w \<longleftrightarrow> ctx_watch P s L cx w"
| "lcont_watch P s L (Lc_alloc c) w \<longleftrightarrow> acont_watch P s L c w"

primrec contains_watch :: "'k hs_par \<Rightarrow> 'k hset \<Rightarrow> layout \<Rightarrow> 'k contains_pc \<Rightarrow> 'k watch \<Rightarrow> bool" where
  "contains_watch P s L (C_size k) w \<longleftrightarrow> idle P s L (Op_contains k) w"
| "contains_watch P s L (C_head k ts) w \<longleftrightarrow> idle P s L (Op_contains k) w \<and> known P s L k ts w"
| "contains_watch P s L (C_again k ts) w \<longleftrightarrow> idle P s L (Op_contains k) w \<and> known P s L k ts w"
| "contains_watch P s L (C_walk k ts cur) w \<longleftrightarrow> idle P s L (Op_contains k) w \<and> known P s L k ts w \<and> missed P s L k ts cur w"
| "contains_watch P s L (C_conf k ts) w \<longleftrightarrow> idle P s L (Op_contains k) w \<and> missed P s L k ts 0 w"

primrec erase_watch :: "'k hs_par \<Rightarrow> 'k hset \<Rightarrow> layout \<Rightarrow> 'k erase_pc \<Rightarrow> 'k watch \<Rightarrow> bool" where
  "erase_watch P s L (E_size k) w \<longleftrightarrow> idle P s L (Op_erase k) w"
| "erase_watch P s L (E_head k ts) w \<longleftrightarrow> idle P s L (Op_erase k) w \<and> known P s L k ts w"
| "erase_watch P s L (E_again k ts) w \<longleftrightarrow> idle P s L (Op_erase k) w \<and> known P s L k ts w"
| "erase_watch P s L (E_walk k ts cur) w \<longleftrightarrow> idle P s L (Op_erase k) w \<and> known P s L k ts w \<and> missed P s L k ts cur w"
| "erase_watch P s L (E_mark k ts a v) w \<longleftrightarrow> idle P s L (Op_erase k) w \<and> (is_marked (link s a) \<longrightarrow> w_out w)"
| "erase_watch P s L (E_conf k ts st) w \<longleftrightarrow> idle P s L (Op_erase k) w \<and> (\<not> st \<longrightarrow> w_out w \<or> missed P s L k ts 0 w)"

primrec insert_watch :: "'k hs_par \<Rightarrow> 'k hset \<Rightarrow> layout \<Rightarrow> 'k insert_pc \<Rightarrow> 'k watch \<Rightarrow> bool" where
  "insert_watch P s L (I_size k nn) w \<longleftrightarrow> idle P s L (Op_insert k) w"
| "insert_watch P s L (I_head k nn ts) w \<longleftrightarrow> idle P s L (Op_insert k) w \<and> known P s L k ts w"
| "insert_watch P s L (I_walk k nn ts head cur) w \<longleftrightarrow> idle P s L (Op_insert k) w \<and> known P s L k ts w"
| "insert_watch P s L (I_link k n ts head) w \<longleftrightarrow> idle P s L (Op_insert k) w"
| "insert_watch P s L (I_cas k n ts head) w \<longleftrightarrow> idle P s L (Op_insert k) w"
| "insert_watch P s L (I_count k ts) w \<longleftrightarrow> recorded P s L (Op_insert k) w \<and> w_did w = [Ins k]"
| "insert_watch P s L (I_lock k ts) w \<longleftrightarrow> recorded P s L (Op_insert k) w \<and> w_did w = [Ins k]"
| "insert_watch P s L (I_test k ts) w \<longleftrightarrow> recorded P s L (Op_insert k) w \<and> w_did w = [Ins k]"
| "insert_watch P s L (I_grow k ts) w \<longleftrightarrow> recorded P s L (Op_insert k) w \<and> w_did w = [Ins k]"
| "insert_watch P s L (I_store k ts) w \<longleftrightarrow> recorded P s L (Op_insert k) w \<and> w_did w = [Ins k]"
| "insert_watch P s L (I_unlock k) w \<longleftrightarrow> recorded P s L (Op_insert k) w \<and> w_did w = [Ins k]"

primrec split_ctx :: "'k split_pc \<Rightarrow> 'k ctx" where
  "split_ctx (S_parent cx j js) = cx"
| "split_ctx (S_again cx j js) = cx"
| "split_ctx (S_seal cx j js w) = cx"
| "split_ctx (S_walk cx j js w subs) = cx"
| "split_ctx (S_freeze cx j js a w subs) = cx"
| "split_ctx (S_pub cx j js subs) = cx"

primrec alloc_cont :: "'k alloc_pc \<Rightarrow> 'k acont" where
  "alloc_cont (A_start v c) = c"
| "alloc_cont (A_head v c i) = c"
| "alloc_cont (A_link v c i head) = c"
| "alloc_cont (A_cas v c i head w) = c"
| "alloc_cont (A_count v c i n) = c"
| "alloc_cont (A_value v c i n) = c"
| "alloc_cont (A_store v c n) = c"
| "alloc_cont (A_append v c i) = c"
| "alloc_cont (A_batch v c n) = c"

primrec limbo_cont :: "'k limbo_pc \<Rightarrow> 'k lcont" where
  "limbo_cont (L_head xs i c) = c"
| "limbo_cont (L_link xs i c w) = c"
| "limbo_cont (L_cas xs i c w) = c"

fun pc_watch :: "'k hs_par \<Rightarrow> 'k hset \<Rightarrow> layout \<Rightarrow> 'k hs_pc \<Rightarrow> 'k watch \<Rightarrow> bool" where
  "pc_watch P s L Hs_rest w \<longleftrightarrow> True"
| "pc_watch P s L (Hs_done op r) w \<longleftrightarrow> w_op w = op \<and> answer_ok op r w"
| "pc_watch P s L (Contains p) w \<longleftrightarrow> contains_watch P s L p w"
| "pc_watch P s L (Erase p) w \<longleftrightarrow> erase_watch P s L p w"
| "pc_watch P s L (Insert p) w \<longleftrightarrow> insert_watch P s L p w"
| "pc_watch P s L (Split p) w \<longleftrightarrow> ctx_watch P s L (split_ctx p) w"
| "pc_watch P s L (Alloc p) w \<longleftrightarrow> acont_watch P s L (alloc_cont p) w"
| "pc_watch P s L (Limbo_push p) w \<longleftrightarrow> lcont_watch P s L (limbo_cont p) w"

section \<open>Stability\<close>

text \<open>A record that has noted the new state.\<close>

definition noted :: "'k hs_par \<Rightarrow> 'k hset \<Rightarrow> layout \<Rightarrow> 'k watch \<Rightarrow> 'k watch \<Rightarrow> bool" where
  "noted P s L w w' \<longleftrightarrow> w_op w' = w_op w \<and> w_did w' = w_did w \<and> (w_in w \<longrightarrow> w_in w') \<and> (w_out w \<longrightarrow> w_out w') \<and>
     (if memb P s L (op_key (w_op w)) then w_in w' else w_out w')"

lemma noted_recorded: "noted P s' L' w w' \<Longrightarrow> recorded P s L op w \<Longrightarrow> recorded P s' L' op w'"
  "noted P s' L' w w' \<Longrightarrow> idle P s L op w \<Longrightarrow> idle P s' L' op w'"
  by (auto simp: noted_def recorded_def idle_def)

lemma effectD:
  assumes "step_effect P s L s' L' b"
  shows "hs_heap P s' L'" "env_steps P s L s' L'" "set_change b (memb P s L) (memb P s' L')"
    "a \<in> set (L' (Chain j)) \<Longrightarrow> a \<notin> set (L (Chain j)) \<Longrightarrow> \<not> is_marked (link s' a) \<Longrightarrow> memb P s' L' (val s' a)"
    "a \<in> set (L (Chain j)) \<Longrightarrow> \<not> is_marked (link s a) \<Longrightarrow> is_marked (link s' a) \<Longrightarrow> \<not> memb P s' L' (val s a)"
    "pub s j \<Longrightarrow> a \<in> set (L' (Chain j)) \<Longrightarrow> a \<notin> set (L (Chain j)) \<Longrightarrow> b = Some (Ins (val s' a))"
  using assms unfolding step_effect_def by blast+

lemma known_stable:
  assumes e: "step_effect P s L s' L' b" and n: "noted P s' L' w w'" and op: "op_key (w_op w) = k" and k: "known P s L k ts w"
  shows "known P s' L' k ts w'"
  unfolding known_def
proof (intro ballI impI)
  let ?j = "bucket_of (hashf P) k ts"
  fix a assume a: "a \<in> set (L' (Chain ?j))" "val s' a = k \<and> \<not> is_marked (link s' a)"
  show "w_in w'"
  proof (cases "a \<in> set (L (Chain ?j))")
    case True
    then have "val s a = k" "\<not> is_marked (link s a)"
      using envD(6) [OF effectD(2) [OF e] True] envD(7) [OF effectD(2) [OF e] True] a(2) by auto
    then show ?thesis using k True n by (auto simp: known_def noted_def)
  next
    case False
    then have "memb P s' L' k" using effectD(4) [OF e a(1) False] a(2) by simp
    then show ?thesis using n op by (simp add: noted_def)
  qed
qed

lemma missed_stable:
  assumes h: "hs_heap P s L" and e: "step_effect P s L s' L' b" and n: "noted P s' L' w w'" and r: "recorded P s L op w" "op_key op = k"
    and c: "on_chain s L (bucket_of (hashf P) k ts) cur" and m: "missed P s L k ts cur w"
  shows "missed P s' L' k ts cur w'"
proof -
  let ?j = "bucket_of (hashf P) k ts"
  note env = effectD(2) [OF e]
  have p: "pub s ?j" using m by (simp add: missed_def)
  have rs: "rest L' ?j cur = rest L ?j cur" using env_on_chain [OF env h effectD(1) [OF e] c] by blast
  have "is_marked (link s' a)" if a: "a \<in> set (L' (Chain ?j)) - rest L' ?j cur" "val s' a = k" and no: "\<not> w_out w'" for a
  proof (cases "a \<in> set (L (Chain ?j))")
    case True
    have "\<not> w_out w" using no n by (auto simp: noted_def)
    moreover have "val s a = k" using envD(6) [OF env True] a(2) by simp
    ultimately have "is_marked (link s a)" using m True a(1) rs by (auto simp: missed_def)
    then show ?thesis using envD(7) [OF env True] by blast
  next
    case False
    then have "b = Some (Ins k)" using effectD(6) [OF e p] a by blast
    then have "\<not> memb P s L k" using effectD(3) [OF e] by (simp add: set_change_def)
    then have "w_out w" using r by (simp add: recorded_def)
    then show ?thesis using no n by (simp add: noted_def)
  qed
  then show ?thesis using envD(4) [OF env p] unfolding missed_def by blast
qed

lemma answer_mono: "answer_ok op r w \<Longrightarrow> noted P s L w w' \<Longrightarrow> answer_ok op r w'"
  by (cases "(op, r, w)" rule: answer_ok.cases) (auto simp: noted_def split: if_splits)

lemma ctx_watch_stable:
  assumes e: "step_effect P s L s' L' b" and n: "noted P s' L' w w'" and c: "ctx_watch P s L cx w"
  shows "ctx_watch P s' L' cx w'"
  using c noted_recorded [OF n] known_stable [OF e n] by (cases cx) (auto simp: idle_def recorded_def)

lemma pc_watch_stable:
  assumes h: "hs_heap P s L" and e: "step_effect P s L s' L' b" and n: "noted P s' L' w w'"
    and ok: "pc_ok P s L p" and c: "pc_watch P s L p w"
  shows "pc_watch P s' L' p w'"
proof -
  note nr = noted_recorded [OF n] and cs = ctx_watch_stable [OF e n]
  have kn: "known P s L k ts w \<Longrightarrow> idle P s L op w \<Longrightarrow> op_key op = k \<Longrightarrow> known P s' L' k ts w'" for k ts op
    using known_stable [OF e n] by (auto simp: idle_def recorded_def)
  have ms: "missed P s L k ts cur w \<Longrightarrow> idle P s L op w \<Longrightarrow> op_key op = k \<Longrightarrow> on_chain s L (bucket_of (hashf P) k ts) cur \<Longrightarrow>
      missed P s' L' k ts cur w'" for k ts cur op
    using missed_stable [OF h e n] by (auto simp: idle_def)
  have m0: "missed P s L k ts 0 w \<Longrightarrow> idle P s L op w \<Longrightarrow> op_key op = k \<Longrightarrow> missed P s' L' k ts 0 w'" for k ts op
    using ms [of k ts 0 op] on_chain_zero [of s "bucket_of (hashf P) k ts" 0 L] by (auto simp: missed_def)
  show ?thesis
  proof (cases p)
    case (Hs_done op r)
    then show ?thesis using c answer_mono [OF _ n] n by (auto simp: noted_def)
  next
    case (Contains q)
    then show ?thesis using c ok nr(2) kn ms m0 by (cases q) auto
  next
    case (Erase q)
    show ?thesis
    proof (cases q)
      case (E_mark k ts a v)
      have o: "idle P s L (Op_erase k) w" "is_marked (link s a) \<Longrightarrow> w_out w" "a \<in> set (L (Chain (bucket_of (hashf P) k ts)))" "val s a = k"
        using c ok Erase E_mark by auto
      have "w_out w'" if "is_marked (link s' a)"
      proof (cases "is_marked (link s a)")
        case True
        then show ?thesis using o(2) n by (simp add: noted_def)
      next
        case False
        then have "\<not> memb P s' L' k" using effectD(5) [OF e o(3) _ that] o(4) by simp
        then show ?thesis using nr(2) [OF o(1)] by (simp add: idle_def recorded_def)
      qed
      then show ?thesis using nr(2) [OF o(1)] Erase E_mark by simp
    next
      case (E_conf k ts st)
      then show ?thesis using c Erase nr(2) m0 n by (auto simp: noted_def)
    qed (use c ok Erase nr(2) kn ms in auto)
  next
    case (Insert q)
    have d: "w_did w' = w_did w" using n by (simp add: noted_def)
    show ?thesis using c Insert nr kn d by (cases q) auto
  next
    case (Split q)
    then show ?thesis using c cs by simp
  next
    case (Alloc q)
    then show ?thesis using c cs nr(2) by (cases "alloc_cont q") auto
  next
    case (Limbo_push q)
    show ?thesis
    proof (cases "limbo_cont q")
      case (Lc_alloc ac)
      then show ?thesis using c cs nr(2) Limbo_push by (cases ac) auto
    qed (use c cs nr(2) answer_mono [OF _ n] Limbo_push in auto)
  qed simp
qed

section \<open>The thread's own steps\<close>

lemma known_now:
  assumes h: "hs_heap P s L" and r: "recorded P s L op w" "op_key op = k"
  shows "known P s L k (hs_size s) w"
  unfolding known_def
proof (intro ballI impI)
  let ?j = "bucket_of (hashf P) k (hs_size s)"
  fix a assume a: "a \<in> set (L (Chain ?j))" "val s a = k \<and> \<not> is_marked (link s a)"
  have "?j = hv P k mod hs_size s" using bucket_mod [OF size_tsz [OF h]] .
  then have "auth (pub s) (hv P k mod hs_size s) = ?j" using auth_pub [of "pub s" ?j] chain_pub [OF h a(1)] by simp
  then have "memb P s L k" using memb_at [of s P k ?j L] a by blast
  then show "w_in w" using r by (simp add: recorded_def)
qed

lemma missed_start:
  assumes "hs_heap P s L" "pub s (bucket_of (hashf P) k ts)"
  shows "missed P s L k ts (addr_of (hs_buckets s ! bucket_of (hashf P) k ts)) w"
  using chain_head [OF assms] assms(2) rest_addr [of "addr_of (hs_buckets s ! bucket_of (hashf P) k ts)" "hs_buckets s ! bucket_of (hashf P) k ts" L]
  by (simp add: missed_def)

lemma missed_end: "hs_heap P s L \<Longrightarrow> missed P s L k ts cur w \<Longrightarrow> addr_of cur = 0 \<Longrightarrow> missed P s L k ts 0 w"
  by (simp add: missed_def rest_def)

lemma missed_next:
  assumes h: "hs_heap P s L" and c: "on_chain s L (bucket_of (hashf P) k ts) cur" "addr_of cur \<noteq> 0" and m: "missed P s L k ts cur w"
    and n: "hs_nodes s (addr_of cur) = Some n" "\<not> (nd_value n = k \<and> \<not> is_marked (nd_link n))"
  shows "missed P s L k ts (nd_link n) w"
proof -
  let ?j = "bucket_of (hashf P) k ts"
  have r: "rest L ?j cur = insert (addr_of cur) (rest L ?j (nd_link n))" using chain_next [OF h c] n(1) by (metis option.inject)
  have v: "nd_value n = val s (addr_of cur)" "nd_link n = link s (addr_of cur)" using n(1) by (simp_all add: val_def link_def)
  have "is_marked (link s a)" if "a \<in> set (L (Chain ?j)) - rest L ?j (nd_link n)" "val s a = k" "\<not> w_out w" for a
    using m r v n(2) that by (cases "a = addr_of cur") (auto simp: missed_def)
  then show ?thesis using m unfolding missed_def by blast
qed

lemma found_known:
  assumes "hs_heap P s L" "on_chain s L (bucket_of (hashf P) k ts) cur" "addr_of cur \<noteq> 0" "known P s L k ts w"
    and "hs_nodes s (addr_of cur) = Some n" "nd_value n = k" "\<not> is_marked (nd_link n)"
  shows "w_in w"
proof -
  have "val s (addr_of cur) = k" "\<not> is_marked (link s (addr_of cur))" using assms(5-7) by (simp_all add: val_def link_def)
  then show ?thesis using assms(2-4) by (auto simp: known_def on_chain_def)
qed

lemma missed_answer:
  assumes h: "hs_heap P s L" and m: "missed P s L k (hs_size s) 0 w" and r: "recorded P s L op w" "op_key op = k"
  shows "w_out w"
proof (rule ccontr)
  let ?j = "bucket_of (hashf P) k (hs_size s)"
  assume no: "\<not> w_out w"
  then have mk: "\<forall>a\<in>set (L (Chain ?j)). val s a = k \<longrightarrow> is_marked (link s a)" and p: "pub s ?j"
    using m rest_zero [OF h, of 0 ?j] by (auto simp: missed_def)
  have "?j = hv P k mod hs_size s" using bucket_mod [OF size_tsz [OF h]] .
  then have "auth (pub s) (hv P k mod hs_size s) = ?j" using auth_pub [of "pub s" ?j] p by simp
  then have "\<not> memb P s L k" using memb_at [of s P k ?j L] mk by blast
  then show False using r no by (simp add: recorded_def)
qed

lemma split_return_watch: "ctx_watch P s L cx w \<Longrightarrow> pc_watch P s L (split_return cx js) w"
  by (cases cx; cases js) auto

lemma raise_ctx_watch: "ctx_watch P s L cx w \<Longrightarrow> pc_watch P s L (raise_ctx cx i) w"
proof (cases cx)
  case (Cx_insert k nn)
  assume "ctx_watch P s L cx w"
  then show ?thesis using Cx_insert by (cases nn) (auto simp: idle_def recorded_def)
qed (auto simp: idle_def recorded_def)

lemma raise_split_watch: "ctx_watch P s L cx w \<Longrightarrow> pc_watch P s L (raise_split cx subs i) w"
  using raise_ctx_watch by (cases subs) auto

lemma raise_alloc_watch: "acont_watch P s L c w \<Longrightarrow> pc_watch P s L (raise_alloc c i) w"
  using raise_split_watch by (cases c) (auto simp: idle_def recorded_def)

lemma limbo_return_watch: "lcont_watch P s L c w \<Longrightarrow> pc_watch P s L (limbo_return c i) w"
  using split_return_watch raise_ctx_watch raise_alloc_watch by (cases c) (auto simp: idle_def recorded_def)

lemma alloc_return_watch: "acont_watch P s L c w \<Longrightarrow> pc_watch P s L (alloc_return c n) w"
  by (cases c) auto

lemma after_seal_watch: "ctx_watch P s L cx w \<Longrightarrow> pc_watch P s L (after_seal cx j js v) w"
  by (simp add: after_seal_def)

lemma pop_test_watch: "acont_watch P s L c w \<Longrightarrow> pc_watch P s L (pop_test v c i x) w"
  by (simp add: pop_test_def)

lemma same_heap_head: "same_heap s s' \<Longrightarrow> hs_head s j = hs_head s' j"
  by (simp add: hs_head_def same_heap_def)

text \<open>The step is taken in \<open>s0\<close>; \<open>s\<close> has the same shared words.\<close>

lemma contains_own:
  assumes h: "hs_heap P s L" and ok: "contains_ok P s L q" and w: "contains_watch P s L q w"
    and e: "contains_step (hashf P) t q s0 = Some s1" and same: "same_heap s0 s"
  shows "pc_watch P s L (hs_pcs s1 t) w"
proof -
  note sh = same_heapD(6,7,8) [OF same, symmetric] same_heap_head [OF same]
  show ?thesis
  proof (cases q)
    case (C_size k)
    then show ?thesis using e w known_now [OF h, of "Op_contains k" w k] sh by (auto simp: idle_def)
  next
    case (C_head k ts)
    let ?j = "bucket_of (hashf P) k ts"
    have j: "?j < hs_size s" using bucket_lt [OF h] ok C_head by simp
    show ?thesis using e w C_head head_some [OF h j] missed_start [OF h, of k ts w] j sh
      by (auto simp: pub_def Let_def split: if_splits)
  next
    case (C_again k ts)
    let ?j = "bucket_of (hashf P) k ts"
    have j: "?j < hs_size s" "pub s ?j" using bucket_lt [OF h] ok C_again by simp_all
    show ?thesis using e w C_again head_some [OF h j(1)] missed_start [OF h j(2), of w] sh by auto
  next
    case (C_walk k ts cur)
    have o: "on_chain s L (bucket_of (hashf P) k ts) cur" using ok C_walk by simp
    show ?thesis
    proof (cases "addr_of cur = 0")
      case True
      then show ?thesis using e w C_walk missed_end [OF h _ True] by (simp add: EMPTY_def) auto
    next
      case False
      then obtain n where n: "hs_nodes s (addr_of cur) = Some n" using chain_next [OF h o False] by metis
      show ?thesis
        using e w C_walk False n sh missed_next [OF h o False _ n] found_known [OF h o False _ n]
        by (auto simp: EMPTY_def Let_def idle_def recorded_def split: if_splits)
    qed
  next
    case (C_conf k ts)
    then show ?thesis
      using e w known_now [OF h, of "Op_contains k" w k] missed_answer [OF h, of k w "Op_contains k"] sh
      by (auto simp: idle_def recorded_def split: if_splits)
  qed
qed

lemma erase_own:
  assumes h: "hs_heap P s L" and ok: "erase_ok P s L q" and w: "erase_watch P s L q w"
    and e: "erase_step (hashf P) t q s0 = Some s1" and same: "same_heap s0 s"
    and fail: "\<And>k ts a v. q = E_mark k ts a v \<Longrightarrow> link s a \<noteq> v"
  shows "pc_watch P s L (hs_pcs s1 t) w"
proof -
  note sh = same_heapD(6,7,8) [OF same, symmetric] same_heap_head [OF same]
  show ?thesis
  proof (cases q)
    case (E_size k)
    then show ?thesis using e w known_now [OF h, of "Op_erase k" w k] sh by (auto simp: idle_def)
  next
    case (E_head k ts)
    let ?j = "bucket_of (hashf P) k ts"
    have j: "?j < hs_size s" using bucket_lt [OF h] ok E_head by simp
    show ?thesis using e w E_head head_some [OF h j] missed_start [OF h, of k ts w] j sh
      by (auto simp: pub_def Let_def split: if_splits)
  next
    case (E_again k ts)
    let ?j = "bucket_of (hashf P) k ts"
    have j: "?j < hs_size s" "pub s ?j" using bucket_lt [OF h] ok E_again by simp_all
    show ?thesis using e w E_again head_some [OF h j(1)] missed_start [OF h j(2), of w] sh by auto
  next
    case (E_walk k ts cur)
    have o: "on_chain s L (bucket_of (hashf P) k ts) cur" using ok E_walk by simp
    show ?thesis
    proof (cases "addr_of cur = 0")
      case True
      then show ?thesis using e w E_walk missed_end [OF h _ True] by (simp add: EMPTY_def) auto
    next
      case False
      then obtain n where n: "hs_nodes s (addr_of cur) = Some n" "nd_link n = link s (addr_of cur)" using chain_next [OF h o False] by metis
      show ?thesis
        using e w E_walk False n sh missed_next [OF h o False _ n(1)]
        by (auto simp: EMPTY_def Let_def split: if_splits)
    qed
  next
    case (E_mark k ts a v)
    have o: "a \<in> set (L (Chain (bucket_of (hashf P) k ts)))" "live_read s a v" "link s a \<noteq> v" using ok E_mark fail by simp_all
    obtain n where n: "hs_nodes s a = Some n" "nd_link n = link s a" using place_node [OF h o(1)] by metis
    show ?thesis using e w E_mark n o(2,3) sh by (auto simp: live_read_def)
  next
    case (E_conf k ts st)
    then show ?thesis
      using e w known_now [OF h, of "Op_erase k" w k] missed_answer [OF h, of k w "Op_erase k"] sh
      by (auto simp: idle_def recorded_def split: if_splits)
  qed
qed

fun insert_reads :: "'k insert_pc \<Rightarrow> bool" where
  "insert_reads (I_size k nn) = True"
| "insert_reads (I_walk k nn ts head cur) = True"
| "insert_reads (I_cas k n ts head) = True"
| "insert_reads _ = False"

lemma insert_own:
  assumes h: "hs_heap P s L" and ok: "insert_reads q \<Longrightarrow> insert_ok P s L q" and w: "insert_watch P s L q w"
    and e: "insert_step (hashf P) t q s0 = Some s1" and same: "insert_reads q \<Longrightarrow> same_heap s0 s"
    and pc: "hs_pcs s0 t = Insert q"
    and fail: "\<And>k n ts head. q = I_cas k n ts head \<Longrightarrow> hs_head s (bucket_of (hashf P) k ts) \<noteq> Some head"
  shows "pc_watch P s L (hs_pcs s1 t) w"
proof -
  have sh: "hs_size s0 = hs_size s" "hs_nodes s0 = hs_nodes s" "hs_head s0 j = hs_head s j" if "insert_reads q" for j
    using same [OF that] same_heap_head [OF same [OF that]] by (simp_all add: same_heap_def)
  show ?thesis
  proof (cases q)
    case (I_size k nn)
    then show ?thesis using e w known_now [OF h, of "Op_insert k" w k] sh by (auto simp: idle_def)
  next
    case (I_head k nn ts)
    then show ?thesis using e w by (auto simp: Let_def split: option.splits if_splits)
  next
    case (I_walk k nn ts head cur)
    have o: "on_chain s L (bucket_of (hashf P) k ts) cur" using ok I_walk by (auto simp: inserting_def)
    show ?thesis
    proof (cases "addr_of cur = 0")
      case True
      then show ?thesis using e w I_walk by (auto simp: EMPTY_def split: option.splits)
    next
      case False
      then obtain n where n: "hs_nodes s (addr_of cur) = Some n" using chain_next [OF h o False] by metis
      show ?thesis
        using e w I_walk False n sh found_known [OF h o False _ n]
        by (auto simp: EMPTY_def Let_def idle_def recorded_def split: if_splits option.splits)
    qed
  next
    case (I_cas k n ts head)
    then show ?thesis using e w sh fail by (auto simp: Let_def split: option.splits if_splits)
  qed (use e w pc in \<open>auto simp: recorded_def split: if_splits\<close>)
qed

lemma split_own:
  assumes w: "ctx_watch P s L (split_ctx q) w" and e: "split_step ad hash t q s0 = Some s1"
  shows "pc_watch P s L (hs_pcs s1 t) w"
  using w e split_return_watch [of P s L "split_ctx q" w] after_seal_watch [of P s L "split_ctx q" w]
  by (cases q) (auto simp: Let_def set_head_def split: option.splits if_splits)

lemma alloc_own:
  assumes w: "acont_watch P s L (alloc_cont q) w" and e: "alloc_step t q s0 = Some s1"
  shows "pc_watch P s L (hs_pcs s1 t) w"
  using w e alloc_return_watch [of P s L "alloc_cont q" w] pop_test_watch [of P s L "alloc_cont q" w]
  by (cases q) (auto simp: Let_def split: option.splits if_splits)

lemma limbo_own:
  assumes w: "lcont_watch P s L (limbo_cont q) w" and e: "limbo_step t q s0 = Some s1"
  shows "pc_watch P s L (hs_pcs s1 t) w"
  using w e limbo_return_watch [of P s L "limbo_cont q" w]
  by (cases q) (auto split: option.splits if_splits)

section \<open>The records are right\<close>

lemma pcs_frame:
  assumes e: "hs_exec ad hash s a = Some s'" and t: "\<not> act_of a t" and r: "a \<noteq> Hs_reclaim"
  shows "hs_pcs s' t = hs_pcs s t"
proof (cases a)
  case (Hs_step u)
  then have st: "hs_step ad hash u (hs_pcs s u) s = Some s'" and ne: "t \<noteq> u" using e t by auto
  show ?thesis
  proof (cases "hs_pcs s u")
    case (Contains p)
    then show ?thesis using st ne by (cases p) (auto simp: Let_def split: option.splits if_splits)
  next
    case (Erase p)
    then show ?thesis using st ne by (cases p) (auto simp: Let_def split: option.splits if_splits)
  next
    case (Insert p)
    then show ?thesis using st ne by (cases p) (auto simp: Let_def split: option.splits if_splits)
  next
    case (Split p)
    then show ?thesis using st ne by (cases p) (auto simp: Let_def split: option.splits if_splits)
  next
    case (Alloc p)
    then show ?thesis using st ne by (cases p) (auto simp: Let_def thread_number_same split: option.splits if_splits)
  next
    case (Limbo_push p)
    then show ?thesis using st ne by (cases p) (auto split: option.splits if_splits)
  qed (use st in auto)
next
  case (Hs_weak u)
  then show ?thesis using e t
    by (auto simp: weak_fail_def split: hs_pc.splits split_pc.splits alloc_pc.splits limbo_pc.splits option.splits)
next
  case (Hs_append u b)
  then show ?thesis using e t by (auto simp: alloc_append_def split: hs_pc.splits alloc_pc.splits option.splits if_splits)
qed (use e t r in \<open>auto split: if_splits\<close>)

lemma pc_watch_rest: "at_rest p \<Longrightarrow> pc_watch P s L p w = pc_watch P s' L' p w"
  by (cases p) auto

lemma noted_note:
  assumes "hs_heap P s L" shows "noted P s L w (watch_note (hs_set (hashf P) s) [] w)"
  using hs_set_memb [OF assms] by (auto simp: noted_def watch_note_def)

lemma own_step:
  assumes inv: "hs_inv P s L" and e: "hs_step (del P) (hashf P) t (hs_pcs s t) s = Some s'"
    and inv': "hs_inv P s' L'" and eff: "step_effect P s L s' L' (hs_lin (hashf P) s (Hs_step t))"
    and w: "pc_watch P s L (hs_pcs s t) w"
  shows "pc_watch P s' L' (hs_pcs s' t) (watch_note (hs_set (hashf P) s') (opt_ops (hs_lin (hashf P) s (Hs_step t))) w)"
proof -
  note h = hs_invD(1) [OF inv] and h' = hs_invD(1) [OF inv'] and ok = hs_invD(3) [OF inv, of t]
  let ?w = "watch_note (hs_set (hashf P) s') [] w"
  note n = noted_note [OF h', of w]
  note pw = pc_watch_stable [OF h eff n ok w]
  have ok': "pc_ok P s' L' (hs_pcs s t)" if "same_heap s s'"
    by (rule pc_ok_stable [OF _ h h' ok]) (use effectD(2) [OF eff] that in \<open>auto simp: rely_def same_heap_def\<close>)
  show ?thesis
  proof (cases "hs_pcs s t")
    case (Contains q)
    have "same_heap s s'" using e Contains by (cases q) (auto simp: same_heap_def Let_def split: option.splits if_splits)
    then show ?thesis using contains_own [OF h' _ _ _] ok' pw e Contains by (simp add: hs_lin_def)
  next
    case (Erase q)
    show ?thesis
    proof (cases "hs_lin (hashf P) s (Hs_step t) = None")
      case True
      then have ne: "link s a \<noteq> v" if "q = E_mark k ts a v" for k ts a v
      proof -
        have "a \<in> set (L (Chain (bucket_of (hashf P) k ts)))" using ok Erase that by simp
        then obtain n where "hs_nodes s a = Some n" "nd_link n = link s a" using place_node [OF h] by metis
        then show ?thesis using True Erase that by (auto simp: hs_lin_def split: if_splits)
      qed
      have same: "same_heap s s'" using e Erase ne by (cases q) (auto simp: same_heap_def Let_def link_def split: option.splits if_splits)
      have "link s' a \<noteq> v" if "q = E_mark k ts a v" for k ts a v using ne [OF that] same_heapD(3) [OF same] by simp
      then show ?thesis using erase_own [OF h' _ _ _ same] ok' [OF same] pw e Erase True by simp
    next
      case False
      then obtain k ts a v where q: "q = E_mark k ts a v" "map_option nd_link (hs_nodes s a) = Some v" "hs_lin (hashf P) s (Hs_step t) = Some (Del k)"
        using Erase by (auto simp: hs_lin_def split: erase_pc.splits if_splits)
      then show ?thesis using e pw Erase by (auto simp: watch_note_def idle_def recorded_def)
    qed
  next
    case (Insert q)
    show ?thesis
    proof (cases "hs_lin (hashf P) s (Hs_step t) = None")
      case True
      then have ne: "hs_head s (bucket_of (hashf P) k ts) \<noteq> Some hd" if "q = I_cas k n ts hd" for k n ts hd
        using Insert that by (auto simp: hs_lin_def split: if_splits)
      have same: "same_heap s s'" if "insert_reads q"
        using e Insert ne that by (cases q) (auto simp: same_heap_def Let_def split: option.splits if_splits)
      have fail: "hs_head s' (bucket_of (hashf P) k ts) \<noteq> Some hd" if "q = I_cas k n ts hd" for k n ts hd
        using ne [OF that] same_heap_head [OF same] that by simp
      have "pc_watch P s' L' (hs_pcs s' t) ?w"
        by (rule insert_own [OF h' _ _ _ same Insert fail]) (use ok' [OF same] pw e Insert in auto)
      then show ?thesis using True by simp
    next
      case False
      then obtain k n ts hd where q: "q = I_cas k n ts hd" "hs_head s (bucket_of (hashf P) k ts) = Some hd" "hs_lin (hashf P) s (Hs_step t) = Some (Ins k)"
        using Insert by (auto simp: hs_lin_def split: insert_pc.splits if_splits)
      then show ?thesis using e pw Insert by (auto simp: watch_note_def idle_def recorded_def Let_def)
    qed
  next
    case (Split q)
    then show ?thesis using split_own pw e by (simp add: hs_lin_def)
  next
    case (Alloc q)
    then show ?thesis using alloc_own pw e by (simp add: hs_lin_def)
  next
    case (Limbo_push q)
    then show ?thesis using limbo_own pw e by (simp add: hs_lin_def)
  qed (use e in auto)
qed

lemma own_other:
  assumes e: "hs_exec ad hash s a = Some s'" and a: "act_of a t" "\<And>op. a \<noteq> Hs_call t op" "a \<noteq> Hs_step t" and w: "pc_watch P s1 L1 (hs_pcs s t) w"
  shows "pc_watch P s1 L1 (hs_pcs s' t) w"
proof (cases a)
  case (Hs_weak u)
  then show ?thesis using e a(1) w after_seal_watch [of P s1 L1 _ w] pop_test_watch [of P s1 L1 _ w]
    by (auto simp: weak_fail_def split: hs_pc.splits split_pc.splits alloc_pc.splits limbo_pc.splits option.splits)
next
  case (Hs_throw u)
  then show ?thesis using e a(1) w raise_ctx_watch [of P s1 L1 "Cx_insert _ _" w] raise_split_watch [of P s1 L1 _ w] raise_alloc_watch [of P s1 L1 _ w]
    by (auto simp: throw_step_def idle_def recorded_def split: hs_pc.splits contains_pc.splits erase_pc.splits insert_pc.splits split_pc.splits alloc_pc.splits)
next
  case (Hs_append u b)
  then show ?thesis using e a(1) w alloc_return_watch [of P s1 L1 _ w]
    by (auto simp: alloc_append_def split: hs_pc.splits alloc_pc.splits option.splits if_splits)
qed (use a in auto)

lemma watch_exec:
  assumes inv: "hs_inv P s L" and e: "hs_exec (del P) (hashf P) s a = Some s'" and W: "\<And>t. pc_watch P s L (hs_pcs s t) (W t)"
  shows "\<exists>L'. hs_inv P s' L' \<and> (\<forall>t. pc_watch P s' L' (hs_pcs s' t) (watch_step (hashf P) s a s' W t)) \<and>
    set_change (hs_lin (hashf P) s a) (memb P s L) (memb P s' L')"
proof (cases "a = Hs_reclaim")
  case True
  then have q: "list_all (\<lambda>t. at_rest (hs_pcs s t)) (hs_threads s)" and r: "map_option snd (reclaim (hashf P) s) = Some s'"
    using e by (auto split: if_splits)
  obtain L' where L': "hs_inv P s' L'" "memb P s' L' = memb P s L" "view s s' {}" using reclaim_inv [OF inv q] r by auto
  have "pc_watch P s' L' (hs_pcs s' t) (watch_step (hashf P) s a s' W t)" for t
    using W [of t] quiet_pcs(1) [OF inv q, of t] pc_watch_rest [of "hs_pcs s t" P s L "W t" s' L'] True viewD(7) [OF L'(3)]
    by (simp add: watch_step_def)
  then show ?thesis using L' True by (auto simp: hs_lin_def set_change_def)
next
  case False
  obtain L' where inv': "hs_inv P s' L'" and eff: "step_effect P s L s' L' (hs_lin (hashf P) s a)"
    using hs_exec_ok [OF inv e False] by (auto simp: ok_step_def)
  note h = hs_invD(1) [OF inv] and h' = hs_invD(1) [OF inv']
  have other: "pc_watch P s' L' (hs_pcs s t) (if at_rest (hs_pcs s t) then W t else watch_note (hs_set (hashf P) s') [] (W t))" for t
  proof (cases "at_rest (hs_pcs s t)")
    case True
    then show ?thesis using pc_watch_rest [OF True, of P s L "W t" s' L'] W [of t] by simp
  next
    case False
    then show ?thesis using pc_watch_stable [OF h eff noted_note [OF h'] hs_invD(3) [OF inv] W, of t] by simp
  qed
  have "pc_watch P s' L' (hs_pcs s' t) (watch_step (hashf P) s a s' W t)" for t
  proof (cases "act_of a t")
    case nt: False
    then have "watch_step (hashf P) s a s' W t = (if at_rest (hs_pcs s t) then W t else watch_note (hs_set (hashf P) s') [] (W t))"
      by (cases a) (auto simp: watch_step_def)
    then show ?thesis using other [of t] pcs_frame [OF e nt False] by simp
  next
    case own: True
    show ?thesis
    proof (cases a)
      case (Hs_call u op)
      then obtain p where u: "u = t" "op_start (del P) op = Some p" "hs_pcs s' t = p" using e own by (auto split: if_splits)
      have "idle P s' L' op (watch_open op (hs_set (hashf P) s'))"
        using hs_set_memb [OF h'] by (simp add: idle_def recorded_def watch_open_def)
      then have "pc_watch P s' L' p (watch_open op (hs_set (hashf P) s'))" using u(2) by (cases op) (auto split: if_splits)
      then show ?thesis using u Hs_call by (simp add: watch_step_def)
    next
      case (Hs_step u)
      then have st: "u = t" "hs_step (del P) (hashf P) t (hs_pcs s t) s = Some s'" using e own by auto
      then have "\<not> at_rest (hs_pcs s t)" by (cases "hs_pcs s t") auto
      then show ?thesis using own_step [OF inv st(2) inv' _ W] eff Hs_step st(1) by (simp add: watch_step_def)
    next
      case (Hs_weak u)
      then have "\<not> at_rest (hs_pcs s t)" using e own by (cases "hs_pcs s t") (auto simp: weak_fail_def)
      then show ?thesis using own_other [OF e own, of P s' L'] other [of t] Hs_weak own by (simp add: watch_step_def hs_lin_def)
    next
      case (Hs_throw u)
      then have "\<not> at_rest (hs_pcs s t)" using e own by (cases "hs_pcs s t") (auto simp: throw_step_def)
      then show ?thesis using own_other [OF e own, of P s' L'] other [of t] Hs_throw own by (simp add: watch_step_def hs_lin_def)
    next
      case (Hs_append u b)
      then have "\<not> at_rest (hs_pcs s t)" using e own by (cases "hs_pcs s t") (auto simp: alloc_append_def)
      then show ?thesis using own_other [OF e own, of P s' L'] other [of t] Hs_append own by (simp add: watch_step_def hs_lin_def)
    qed (use False in blast)
  qed
  then show ?thesis using inv' effectD(3) [OF eff] by blast
qed

end
