(* ===== verification/Hash_Set_Spec.thy ===== *)
theory Hash_Set_Spec
  imports Hash_Set_Account Hash_Set_Watch
begin

text \<open>
  What \<open>ConcurrentResizableHashSet\<close> promises, for every schedule of calls, steps, spurious failures, exceptions and
  quiescent reclamations that starts from a constructed set: the set behaves as a mathematical set of keys, every
  answer was true at some moment of its call, no step follows a word to something that is not a node, and at rest the
  arena is accounted for.
\<close>

section \<open>A new set\<close>

definition hs_P :: "bool \<Rightarrow> ('k \<Rightarrow> size_t) \<Rightarrow> nat \<Rightarrow> 'k hs_par" where
  "hs_P ad hash c = \<lparr>del = ad, hashf = hash, cap = c\<rparr>"

lemma hs_P_sel [simp]: "del (hs_P ad hash c) = ad" "hashf (hs_P ad hash c) = hash" "cap (hs_P ad hash c) = c"
  by (simp_all add: hs_P_def)

lemma bit_ceil_pow:
  assumes "bit_ceil w = Inr c" obtains m where "unat c = 2 ^ m" "m < 64"
proof (cases "w \<le> 1")
  case True
  then show ?thesis using assms that [of 0] by (simp add: bit_ceil_def)
next
  case False
  then have c: "c = 2 ^ bit_width (w - 1)" and w: "w \<le> 2 ^ 63" "1 < w" using assms by (simp_all add: bit_ceil_def split: if_splits)
  have "unat (w - 1) = unat w - 1" using w(2) by (subst unat_sub) (auto simp: word_le_nat_alt word_less_nat_alt)
  moreover have "unat w \<le> 2 ^ 63" using w(1) unat_pow2 [of 63] by (simp add: word_le_nat_alt)
  moreover have "0 < unat w" using w(2) by (simp add: word_less_nat_alt)
  ultimately have "unat (w - 1) < 2 ^ 63" by simp
  then have "bit_width (w - 1) \<le> 63" unfolding bit_width_def by (rule width_le)
  then show ?thesis using that [of "bit_width (w - 1)"] c unat_pow2 [of "bit_width (w - 1)"] by simp
qed

text \<open>What the constructor builds: power-of-two table and arena, all buckets empty, no call made.\<close>

lemma construct_fields:
  assumes "hs_construct icap sh hw ok = Inr (s :: 'k hset)"
  obtains m p where "s = \<lparr>hs_nodes = Map.empty, hs_buckets = replicate (2 ^ m) EMPTY,
      hs_shards = replicate (2 ^ p) \<lparr>sh_nodes = [], sh_free = FREE_EMPTY, sh_limbo = EMPTY\<rparr>,
      hs_size = 2 ^ m, hs_lock = False, hs_count = 0, hs_next = 0, hs_number = Map.empty,
      hs_threads = [], hs_pcs = (\<lambda>_. Hs_rest)\<rparr>" "m \<le> 60"
proof -
  let ?c = "if icap < 4 then 4 else icap"
  obtain a shards where b: "bit_ceil a = Inr shards" and
    r: "(if push_bit 63 1 < ?c then Inl Abort else bind_err (bit_ceil ?c) (\<lambda>cap. if \<not> ok \<or> push_bit 60 1 < cap then Inl Bad_alloc
        else Inr \<lparr>hs_nodes = Map.empty, hs_buckets = replicate (unat cap) EMPTY,
      hs_shards = replicate (unat shards) \<lparr>sh_nodes = [], sh_free = FREE_EMPTY, sh_limbo = EMPTY\<rparr>,
      hs_size = unat cap, hs_lock = False, hs_count = 0, hs_next = 0, hs_number = Map.empty,
      hs_threads = [], hs_pcs = (\<lambda>_. Hs_rest)\<rparr>)) = Inr s"
    using assms unfolding hs_construct_def Let_def bind_err_Inr by blast
  obtain cap where c: "bit_ceil ?c = Inr cap" "\<not> cap > push_bit 60 1"
    and s: "s = \<lparr>hs_nodes = Map.empty, hs_buckets = replicate (unat cap) EMPTY,
      hs_shards = replicate (unat shards) \<lparr>sh_nodes = [], sh_free = FREE_EMPTY, sh_limbo = EMPTY\<rparr>,
      hs_size = unat cap, hs_lock = False, hs_count = 0, hs_next = 0, hs_number = Map.empty,
      hs_threads = [], hs_pcs = (\<lambda>_. Hs_rest)\<rparr>"
    using r by (auto simp: bind_err_Inr split: if_split_asm)
  obtain p where p: "unat shards = 2 ^ p" using bit_ceil_pow [OF b] .
  obtain m where m: "unat cap = 2 ^ m" "m < 64" using bit_ceil_pow [OF c(1)] .
  have "unat cap \<le> unat (2 ^ 60 :: size_t)" using c(2) by (simp add: word_le_nat_alt not_less push_bit_eq_mult)
  then have "(2 :: nat) ^ m \<le> 2 ^ 60" using m unat_pow2 [of 60] by simp
  then have "m \<le> 60" by (simp only: power_increasing_iff)
  then show ?thesis using that s m p by simp
qed

lemma construct_ok:
  assumes "hs_construct icap sh hw ok = Inr s"
  shows "hs_inv (hs_P ad hash (hs_size s)) s (\<lambda>_. [])" "hs_set hash s = (\<lambda>_. False)" "hs_pcs s t = Hs_rest"
proof -
  obtain m p where s: "s = \<lparr>hs_nodes = Map.empty, hs_buckets = replicate (2 ^ m) EMPTY,
      hs_shards = replicate (2 ^ p) \<lparr>sh_nodes = [], sh_free = FREE_EMPTY, sh_limbo = EMPTY\<rparr>,
      hs_size = 2 ^ m, hs_lock = False, hs_count = 0, hs_next = 0, hs_number = Map.empty,
      hs_threads = [], hs_pcs = (\<lambda>_. Hs_rest)\<rparr>" and m: "m \<le> 60" using construct_fields [OF assms] .
  have e: "addr_of EMPTY = 0" "free_addr_of FREE_EMPTY = 0" "0 \<noteq> UNINITIALIZED" "EMPTY = 0" by (simp_all add: EMPTY_def FREE_EMPTY_def UNINITIALIZED_def)
  have pub: "pub s j \<longleftrightarrow> j < 2 ^ m" for j using e by (cases "j < 2 ^ m") (simp_all add: pub_def s)
  have "hs_heap (hs_P ad hash (hs_size s)) s (\<lambda>_. [])"
    unfolding hs_heap_def
  proof (intro conjI)
    show "geometry (hs_P ad hash (hs_size s)) s" using m by (auto simp: geometry_def s)
    show "arena s" by (simp add: arena_def s)
    show "owned (\<lambda>_. []) (dom (hs_nodes s))" by (simp add: owned_def s)
    show "chains (hs_P ad hash (hs_size s)) s (\<lambda>_. [])" unfolding chains_def pub using e by (simp add: s)
    show "spares s (\<lambda>_. [])" using e by (simp add: spares_def s)
    show "tags (hs_P ad hash (hs_size s)) s" by (simp add: tags_def s)
    show "keys (hs_P ad hash (hs_size s)) s (\<lambda>_. [])" by (simp add: keys_def)
    show "tree (hs_P ad hash (hs_size s)) s (\<lambda>_. [])" unfolding tree_def pub by (simp add: s)
  qed
  then show inv: "hs_inv (hs_P ad hash (hs_size s)) s (\<lambda>_. [])" by (simp add: hs_inv_def s)
  show "hs_set hash s = (\<lambda>_. False)"
    using hs_set_memb [OF hs_invD(1) [OF inv]] by (auto simp: memb_def)
  show "hs_pcs s t = Hs_rest" by (simp add: s)
qed

section \<open>The machine against the set\<close>

text \<open>The specification: a set of keys, where an insertion needs the key absent and an erasure needs it present.\<close>

primrec set_exec :: "('k \<Rightarrow> bool) \<Rightarrow> 'k set_op \<Rightarrow> ('k \<Rightarrow> bool) option" where
  "set_exec A (Ins k) = (if A k then None else Some (A(k := True)))"
| "set_exec A (Del k) = (if A k then Some (A(k := False)) else None)"

definition hs_ok :: "bool \<Rightarrow> ('k \<Rightarrow> size_t) \<Rightarrow> nat \<Rightarrow> 'k hset \<Rightarrow> bool" where
  "hs_ok ad hash c s \<longleftrightarrow> (\<exists>L. hs_inv (hs_P ad hash c) s L)"

definition watch_ok :: "bool \<Rightarrow> ('k \<Rightarrow> size_t) \<Rightarrow> nat \<Rightarrow> 'k hset \<times> (tid \<Rightarrow> 'k watch) \<Rightarrow> bool" where
  "watch_ok ad hash c x \<longleftrightarrow>
     (\<exists>L. hs_inv (hs_P ad hash c) (fst x) L \<and> (\<forall>t. pc_watch (hs_P ad hash c) (fst x) L (hs_pcs (fst x) t) (snd x t)))"

lemma hs_set_eq: "hs_inv (hs_P ad hash c) s L \<Longrightarrow> hs_set hash s = memb (hs_P ad hash c) s L"
  using hs_set_memb [of "hs_P ad hash c" s L] hs_invD(1) by fastforce

lemma hs_exec_effect:
  assumes inv: "hs_inv (hs_P ad hash c) s L" and e: "hs_exec ad hash s a = Some s'"
  shows "\<exists>L'. hs_inv (hs_P ad hash c) s' L' \<and> set_change (hs_lin hash s a) (hs_set hash s) (hs_set hash s')"
proof (cases "a = Hs_reclaim")
  case True
  then have q: "list_all (\<lambda>t. at_rest (hs_pcs s t)) (hs_threads s)" and r: "map_option snd (reclaim hash s) = Some s'"
    using e by (auto split: if_splits)
  obtain L' where "hs_inv (hs_P ad hash c) s' L'" "memb (hs_P ad hash c) s' L' = memb (hs_P ad hash c) s L" using reclaim_inv [OF inv q] r by auto
  then show ?thesis using True hs_set_eq [of ad hash c] inv by (auto simp: hs_lin_def set_change_def)
next
  case False
  then obtain L' where "hs_inv (hs_P ad hash c) s' L'" "step_effect (hs_P ad hash c) s L s' L' (hs_lin hash s a)"
    using hs_exec_ok [OF inv] e by (auto simp: ok_step_def)
  then show ?thesis using effectD(3) hs_set_eq [of ad hash c] inv by metis
qed

interpretation hsr: machine_refinement "hs_exec ad hash" "hs_ok ad hash c" set_exec "hs_set hash" "hs_lin hash" for ad hash c
proof
  fix s a s'
  assume ok: "hs_ok ad hash c s" and e: "hs_exec ad hash s a = Some s'"
  obtain L where inv: "hs_inv (hs_P ad hash c) s L" using ok by (auto simp: hs_ok_def)
  note ef = hs_exec_effect [OF inv e]
  show "hs_ok ad hash c s'" using ef by (auto simp: hs_ok_def)
  show "hs_set hash s' = hs_set hash s" if "hs_lin hash s a = None" using ef that by (auto simp: set_change_def)
  show "set_exec (hs_set hash s) b = Some (hs_set hash s')" if "hs_lin hash s a = Some b" for b
    using ef that by (cases b) (auto simp: set_change_def)
qed

interpretation hsw: machine_invariant "watched ad hash" "watch_ok ad hash c" for ad hash c
proof
  fix x a y
  assume ok: "watch_ok ad hash c x" and e: "watched ad hash x a = Some y"
  obtain L where L: "hs_inv (hs_P ad hash c) (fst x) L" "\<And>t. pc_watch (hs_P ad hash c) (fst x) L (hs_pcs (fst x) t) (snd x t)"
    using ok by (auto simp: watch_ok_def)
  obtain s' where s': "hs_exec ad hash (fst x) a = Some s'" "y = (s', watch_step hash (fst x) a s' (snd x))"
    using e by (auto simp: watched_def)
  show "watch_ok ad hash c y" using watch_exec [of "hs_P ad hash c", OF L(1) _ L(2), of a s'] s' by (auto simp: watch_ok_def)
qed

section \<open>The shape of the table\<close>

text \<open>The nodes of a chain in order; \<open>None\<close> for a link to no node and for a chain longer than \<open>fuel\<close>.\<close>

fun chain_nodes :: "nat \<Rightarrow> (word_t \<rightharpoonup> 'k node) \<Rightarrow> word_t \<Rightarrow> (word_t \<times> 'k node) list option" where
  "chain_nodes fuel N cur =
     (if addr_of cur = EMPTY then Some []
      else case fuel of 0 \<Rightarrow> None
      | Suc f \<Rightarrow> (case N (addr_of cur) of None \<Rightarrow> None
          | Some n \<Rightarrow> map_option ((#) (addr_of cur, n)) (chain_nodes f N (nd_link n))))"

declare chain_nodes.simps [simp del]

definition hs_chain :: "'k hset \<Rightarrow> nat \<Rightarrow> (word_t \<times> 'k node) list option" where
  "hs_chain s j = chain_nodes (get_internal_node_count s) (hs_nodes s) (hs_buckets s ! j)"

text \<open>
  A chain: no address twice, no link with both tags (with none if \<open>erase\<close> does not exist), keys that belong to the
  bucket, no key twice among the nodes that are no tombstones.
\<close>

definition chain_wf :: "bool \<Rightarrow> ('k \<Rightarrow> size_t) \<Rightarrow> nat \<Rightarrow> (word_t \<times> 'k node) list \<Rightarrow> bool" where
  "chain_wf ad hash j xs \<longleftrightarrow> distinct (map fst xs) \<and>
     list_all (\<lambda>(a, n). node_addr a \<and> \<not> (is_marked (nd_link n) \<and> is_frozen (nd_link n)) \<and>
       (ad \<or> \<not> is_marked (nd_link n) \<and> \<not> is_frozen (nd_link n)) \<and> maps (unat (hash (nd_value n))) j) xs \<and>
     distinct (map (nd_value \<circ> snd) (filter (\<lambda>(a, n). \<not> is_marked (nd_link n)) xs))"

text \<open>
  A bucket: untouched since the doubling that created it, or with a well-formed chain; if it was published after the
  construction, its parent is published and the parent's head is sealed at the level of the split.
\<close>

definition bucket_wf :: "bool \<Rightarrow> ('k \<Rightarrow> size_t) \<Rightarrow> nat \<Rightarrow> 'k hset \<Rightarrow> nat \<Rightarrow> bool" where
  "bucket_wf ad hash c s j =
     (if addr_of (hs_buckets s ! j) = UNINITIALIZED then hs_buckets s ! j = UNINITIALIZED \<and> c \<le> j
      else (case hs_chain s j of None \<Rightarrow> False | Some xs \<Rightarrow> chain_wf ad hash j xs) \<and>
        (c \<le> j \<longrightarrow> addr_of (hs_buckets s ! parent j) \<noteq> UNINITIALIZED \<and> bit_width_nat j \<le> level_of (hs_buckets s ! parent j)))"

definition hs_wf :: "bool \<Rightarrow> ('k \<Rightarrow> size_t) \<Rightarrow> nat \<Rightarrow> 'k hset \<Rightarrow> bool" where
  "hs_wf ad hash c s \<longleftrightarrow> hs_size s = 2 ^ level_for (hs_size s) \<and> c \<le> hs_size s \<and> hs_size s \<le> length (hs_buckets s) \<and>
     list_all (bucket_wf ad hash c s) [0..<hs_size s]"

lemma chain_nodes_linked:
  "linked N cur xs 0 \<Longrightarrow> length xs \<le> fuel \<Longrightarrow> 0 \<notin> set xs \<Longrightarrow> chain_nodes fuel N cur = Some (map (\<lambda>a. (a, the (N a))) xs)"
proof (induction xs arbitrary: cur fuel)
  case Nil
  then show ?case by (simp add: chain_nodes.simps [of fuel] EMPTY_def)
next
  case (Cons a xs)
  then obtain f n where "fuel = Suc f" "N a = Some n" "addr_of cur = a" "linked N (nd_link n) xs 0" "length xs \<le> f" "a \<noteq> 0"
    by (cases fuel) auto
  then show ?case using Cons.IH [of "nd_link n" f] Cons.prems(3) by (auto simp: chain_nodes.simps [of "Suc f"] EMPTY_def)
qed

lemma hs_chain_eq:
  assumes h: "hs_heap P s L" and j: "pub s j"
  shows "hs_chain s j = Some (map (\<lambda>a. (a, the (hs_nodes s a))) (L (Chain j)))"
  unfolding hs_chain_def by (rule chain_nodes_linked [OF chain_linked [OF h j] place_count [OF h] zero_notin [OF h]])

lemma chain_in:
  assumes h: "hs_heap P s L" and "pub s j" and "hs_chain s j = Some xs" and "(a, n) \<in> set xs"
  shows "a \<in> set (L (Chain j))" "hs_nodes s a = Some n"
proof -
  show a: "a \<in> set (L (Chain j))" using assms hs_chain_eq [OF h] by auto
  have "n = the (hs_nodes s a)" using assms hs_chain_eq [OF h] by auto
  then show "hs_nodes s a = Some n" using place_node [OF h a] by (metis option.sel)
qed

lemma chain_wf_layout:
  assumes h: "hs_heap P s L" and j: "pub s j"
  shows "chain_wf (del P) (hashf P) j (map (\<lambda>a. (a, the (hs_nodes s a))) (L (Chain j)))"
proof -
  let ?xs = "L (Chain j)"
  have d: "distinct ?xs" using ownedD(1) [OF heapD(3) [OF h]] .
  have node: "node_addr a \<and> \<not> (is_marked (link s a) \<and> is_frozen (link s a)) \<and> (del P \<or> \<not> is_marked (link s a) \<and> \<not> is_frozen (link s a)) \<and>
      maps (unat (hashf P (val s a))) j" if a: "a \<in> set ?xs" for a
  proof -
    obtain n where "hs_nodes s a = Some n" "node_addr a" using place_node [OF h a] by metis
    then show ?thesis using heapD(6) [OF h] own_bits(1) [OF h a] by (auto simp: tags_def maps_def hv_def)
  qed
  have "inj_on (val s) (set (filter (\<lambda>a. \<not> is_marked (link s a)) ?xs))"
    using heapD(7) [OF h] unfolding keys_def by (auto intro!: inj_onI)
  then have v: "distinct (map (val s) (filter (\<lambda>a. \<not> is_marked (link s a)) ?xs))" using d by (simp add: distinct_map)
  have "map (nd_value \<circ> snd) (filter (\<lambda>(a, n). \<not> is_marked (nd_link n)) (map (\<lambda>a. (a, the (hs_nodes s a))) ?xs)) =
      map (val s) (filter (\<lambda>a. \<not> is_marked (link s a)) ?xs)"
    by (simp add: filter_map comp_def val_def link_def)
  then show ?thesis using d v node unfolding chain_wf_def by (simp add: list_all_iff comp_def flip: link_def val_def)
qed

lemma hs_wf_inv:
  assumes h: "hs_heap P s L" shows "hs_wf (del P) (hashf P) (cap P) s"
proof -
  obtain m q where m: "hs_size s = 2 ^ m" "cap P = 2 ^ q" "q \<le> m" and b: "hs_size s \<le> length (hs_buckets s)"
    using heapD(1) [OF h] by (auto simp: geometry_def)
  have t: "tree P s L" and c: "chains P s L" using heapD(8,4) [OF h] .
  have each: "bucket_wf (del P) (hashf P) (cap P) s j" if j: "j < hs_size s" for j
  proof (cases "pub s j")
    case True
    then have "pub s (parent j) \<and> bit_width_nat j \<le> lev s (parent j)" if "cap P \<le> j" using t that by (auto simp: tree_def)
    then show ?thesis using True hs_chain_eq [OF h True] chain_wf_layout [OF h True] by (simp add: bucket_wf_def pub_def lev_def)
  next
    case False
    then show ?thesis using c t j by (auto simp: bucket_wf_def chains_def tree_def not_less [symmetric] split: if_splits)
  qed
  show ?thesis unfolding hs_wf_def list_all_iff
    using m b each power_increasing [of q m "2 :: nat"] by auto
qed

section \<open>A small execution\<close>

text \<open>
  A table of four buckets with one shard and keys hashed to themselves.  Thread 0 inserts 5, which doubles the
  table; thread 1 looks 5 up, which splits bucket 1 and moves the key to bucket 5; thread 0 erases 5 there.
\<close>

definition demo_hash :: "nat \<Rightarrow> size_t" where
  "demo_hash k = of_nat k"

definition demo_new :: "nat hset" where
  "demo_new = \<lparr>hs_nodes = Map.empty, hs_buckets = [0, 0, 0, 0], hs_shards = [\<lparr>sh_nodes = [], sh_free = 0, sh_limbo = 0\<rparr>],
     hs_size = 4, hs_lock = False, hs_count = 0, hs_next = 0, hs_number = Map.empty, hs_threads = [], hs_pcs = (\<lambda>_. Hs_rest)\<rparr>"

definition demo_insert :: "nat hs_act list" where
  "demo_insert = Hs_call 0 (Op_insert 5) # replicate 5 (Hs_step 0) @ Hs_append 0 16 # replicate 8 (Hs_step 0)"

definition demo_doubled :: "nat hset" where
  "demo_doubled = \<lparr>hs_nodes = [16 \<mapsto> \<lparr>nd_value = 5, nd_link = 0\<rparr>], hs_buckets = [0, 16, 0, 0, 8, 8, 8, 8],
     hs_shards = [\<lparr>sh_nodes = [16], sh_free = 0, sh_limbo = 0\<rparr>],
     hs_size = 8, hs_lock = False, hs_count = 256, hs_next = 1, hs_number = [0 \<mapsto> 0], hs_threads = [0],
     hs_pcs = (\<lambda>_. Hs_rest)(0 := Hs_done (Op_insert 5) (Ret True))\<rparr>"

definition demo_split :: "nat hs_act list" where
  "demo_split = Hs_call 1 (Op_contains 5) # replicate 8 (Hs_step 1) @ Hs_append 1 24 # replicate 4 (Hs_step 1)"

definition demo_erase :: "nat hs_act list" where
  "demo_erase = Hs_call 0 (Op_erase 5) # replicate 4 (Hs_step 0)"

definition demo_erased :: "nat hset" where
  "demo_erased = \<lparr>hs_nodes = [16 \<mapsto> \<lparr>nd_value = 5, nd_link = 2\<rparr>, 24 \<mapsto> \<lparr>nd_value = 5, nd_link = 1\<rparr>],
     hs_buckets = [0, 864691128455135248, 0, 0, 8, 24, 8, 8], hs_shards = [\<lparr>sh_nodes = [16, 24], sh_free = 0, sh_limbo = 0\<rparr>],
     hs_size = 8, hs_lock = False, hs_count = 256, hs_next = 2, hs_number = [0 \<mapsto> 0, Suc 0 \<mapsto> 1], hs_threads = [1, 0],
     hs_pcs = (\<lambda>_. Hs_rest)(1 := Hs_done (Op_contains 5) (Ret True), 0 := Hs_done (Op_erase 5) (Ret True))\<rparr>"

definition demo_all :: "nat hs_act list" where
  "demo_all = demo_insert @ demo_split @ demo_erase"

lemma mask_values:
  "LEVEL_MASK = 0xFC00000000000000" "PTR_MASK = 0x03FFFFFFFFFFFFF8" "FREE_POP_ONE = 0x80000000000000"
  "FREE_COUNT_MASK = 0xFF80000000000000" "FREE_BATCH_MASK = 0x7F80000000000000"
  by (simp_all add: LEVEL_MASK_def PTR_MASK_def LEVEL_SHIFT_def FREE_POP_ONE_def FREE_COUNT_SHIFT_def FREE_COUNT_MASK_def FREE_BATCH_MASK_def)

lemma replicate_numeral: "replicate (numeral n) x = x # replicate (pred_numeral n) x"
  by (simp add: numeral_eq_Suc)

lemmas words_eval = mask_values MARK_BIT_def FROZEN_BIT_def LEVEL_SHIFT_def EMPTY_def UNINITIALIZED_def FREE_EMPTY_def FREE_COUNT_SHIFT_def
  level_of_def addr_of_def is_marked_def is_frozen_def free_addr_of_def free_word_def sealed_word_def prepend_word_def node_addr_def
  level_for_def countr_zero_nat.simps bit_floor_nat_def parent_def bit_width_nat.simps

lemmas hs_eval = hs_to_def hs_head_def set_head_def set_link_def set_value_def set_shard_def bucket_of_def my_shard_def grow_buckets_def
  seal_level_def after_seal_def moves_to_def sub_head_def thread_number_def hs_shard_def pop_test_def alloc_append_def weak_fail_def
  throw_step_def Let_def replicate_numeral

lemma demo_construct: "hs_construct 4 1 8 True = Inr demo_new"
  by (simp add: hs_construct_def demo_new_def MAX_ARENA_SHARDS_def bit_ceil_def bit_width_def bit_width_nat.simps EMPTY_def FREE_EMPTY_def
      Let_def replicate_numeral word_le_nat_alt)

lemma demo_insert_run: "run (hs_exec True demo_hash) demo_new demo_insert = Some demo_doubled"
  by (simp add: demo_new_def demo_doubled_def demo_insert_def demo_hash_def words_eval hs_eval)

lemma demo_rest_run: "run (hs_exec True demo_hash) demo_doubled (demo_split @ demo_erase) = Some demo_erased"
  by (simp add: demo_doubled_def demo_erased_def demo_split_def demo_erase_def demo_hash_def words_eval hs_eval)

lemma demo_run: "run (hs_exec True demo_hash) demo_new demo_all = Some demo_erased"
  using demo_insert_run demo_rest_run by (simp add: demo_all_def run_append)

lemma demo_quiet: "list_all (\<lambda>t. at_rest (hs_pcs demo_erased t)) (hs_threads demo_erased)"
  by (simp add: demo_erased_def)

lemma demo_slots: "get_internal_node_count demo_erased = 2"
  by (simp add: demo_erased_def get_internal_node_count_def)

section \<open>The properties\<close>

text \<open>States of a schedule that starts from a constructed set.\<close>

lemma reached:
  assumes "hs_construct icap sh hw ok = Inr s0" and "run (hs_exec ad hash) s0 as = Some s"
  obtains L where "hs_inv (hs_P ad hash (hs_size s0)) s L"
  using hsr.run_Inv [OF _ assms(2), of "hs_size s0"] construct_ok(1) [OF assms(1)] by (auto simp: hs_ok_def)

lemma watched_run:
  "run (hs_exec ad hash) s as = Some s' \<Longrightarrow> \<exists>W'. run (watched ad hash) (s, W) as = Some (s', W')"
  by (induction as arbitrary: s W) (auto simp: watched_def split: option.splits)

text \<open>
  C1.  The hash set is linearizable: with every successful compare-and-swap of \<open>insert\<close> read as the insertion of its key
  and every successful marking of \<open>erase\<close> as the removal of its key, any schedule of any number of threads, through
  doublings of the table, splits of buckets, exceptions and reclamations, performs a legal sequence of operations on a set of
  keys (an insertion only of an absent key, a removal only of a present one), and the keys found by the table are that set.\<close>

theorem hs_linearizable:
  assumes "hs_construct icap sh hw ok = Inr s0" and "run (hs_exec ad hash) s0 as = Some s"
  shows "run set_exec (\<lambda>_. False) (lin_trace (hs_exec ad hash) (hs_lin hash) s0 as) = Some (hs_set hash s)"
proof -
  have "hs_ok ad hash (hs_size s0) s0" using construct_ok(1) [OF assms(1)] by (auto simp: hs_ok_def)
  from hsr.run_abs [OF this assms(2)] show ?thesis using construct_ok(2) [OF assms(1)] by simp
qed

theorem hs_linearizable_witness:
  "run set_exec (\<lambda>_. False) (lin_trace (hs_exec True demo_hash) (hs_lin demo_hash) demo_new demo_all) = Some (hs_set demo_hash demo_erased)"
  by (rule hs_linearizable [OF demo_construct demo_run])

text \<open>
  C2.  Every answer is right.  While a call runs, its record notes whether its key was in the set, whether it was absent, and which
  operations on the set the call performed.  When the call has returned: \<open>contains\<close> answers true only if the key was
  in the set at some moment of the call and false only if it was absent at some moment; \<open>insert\<close> answers true exactly when it
  performed one insertion of its key, and false only if the key was present at some moment; \<open>erase\<close> likewise; a call that
  throws has changed nothing.\<close>

theorem hs_answers_exact:
  assumes "hs_construct icap sh hw ok = Inr s0" and "run (hs_exec ad hash) s0 as = Some s"
  shows "\<exists>W. run (watched ad hash) (s0, W0) as = Some (s, W) \<and>
    (\<forall>t op r. hs_pcs s t = Hs_done op r \<longrightarrow> w_op (W t) = op \<and> answer_ok op r (W t))"
proof -
  obtain W where W: "run (watched ad hash) (s0, W0) as = Some (s, W)" using watched_run [OF assms(2)] by metis
  have "watch_ok ad hash (hs_size s0) (s0, W0)" using construct_ok(1,3) [OF assms(1)] by (auto simp: watch_ok_def)
  from hsw.run_Inv [OF this W] have "w_op (W t) = op \<and> answer_ok op r (W t)" if "hs_pcs s t = Hs_done op r" for t op r
    unfolding watch_ok_def using that by (metis fst_conv pc_watch.simps(2) snd_conv)
  with W show ?thesis by blast
qed

theorem hs_answers_exact_witness:
  "\<exists>W. run (watched True demo_hash) (demo_new, \<lambda>_. watch_open (Op_contains 0) (\<lambda>_. False)) demo_all = Some (demo_erased, W) \<and>
     w_did (W 0) = [Del 5] \<and> w_did (W 1) = [] \<and> w_in (W 1)"
proof -
  obtain W where W: "run (watched True demo_hash) (demo_new, \<lambda>_. watch_open (Op_contains 0) (\<lambda>_. False)) demo_all = Some (demo_erased, W)"
    "\<And>t op r. hs_pcs demo_erased t = Hs_done op r \<Longrightarrow> w_op (W t) = op \<and> answer_ok op r (W t)"
    using hs_answers_exact [OF demo_construct demo_run, of "\<lambda>_. watch_open (Op_contains 0) (\<lambda>_. False)"] by blast
  show ?thesis using W(1) W(2) [of 0 "Op_erase 5" "Ret True"] W(2) [of 1 "Op_contains 5" "Ret True"] by (auto simp: demo_erased_def)
qed

text \<open>
  C3.  No call goes wrong.  A thread inside a call can always take its next step (a step is not enabled when it would index
  past the bucket array or the shards, or follow a word that is not the address of a constructed node), unless the next thing
  it does is to obtain memory: there it can continue with any free address the encoding can represent, or throw; a table that has
  reached the limit of the address space does not grow, and the exception is the one that \<open>insert\<close> absorbs.\<close>

theorem hs_memory_safe:
  assumes "hs_construct icap sh hw ok = Inr s0" and "run (hs_exec ad hash) s0 as = Some s" and "\<not> at_rest (hs_pcs s t)"
  shows "case hs_pcs s t of
      Alloc (A_append v c i) \<Rightarrow> (\<forall>a. node_addr a \<longrightarrow> hs_nodes s a = None \<longrightarrow> hs_exec ad hash s (Hs_append t a) \<noteq> None) \<and>
        hs_exec ad hash s (Hs_throw t) \<noteq> None
    | Insert (I_grow k ts) \<Rightarrow> (2 * ts \<le> 2 ^ 60 \<longrightarrow> hs_exec ad hash s (Hs_step t) \<noteq> None) \<and> hs_exec ad hash s (Hs_throw t) \<noteq> None
    | _ \<Rightarrow> hs_exec ad hash s (Hs_step t) \<noteq> None"
proof -
  obtain L where inv: "hs_inv (hs_P ad hash (hs_size s0)) s L" using reached [OF assms(1,2)] .
  have st: "hs_exec ad hash s (Hs_step t) \<noteq> None" if "steps (hs_pcs s t)" using hs_step_some [OF inv that] by auto
  consider v c i where "hs_pcs s t = Alloc (A_append v c i)" | k ts where "hs_pcs s t = Insert (I_grow k ts)"
    | "\<forall>v c i. hs_pcs s t \<noteq> Alloc (A_append v c i)" "\<forall>k ts. hs_pcs s t \<noteq> Insert (I_grow k ts)" by blast
  then show ?thesis
  proof cases
    case 1
    moreover have "i < length (hs_shards s)" using hs_invD(3) [OF inv, of t] 1 by simp
    ultimately show ?thesis by (simp add: alloc_append_def hs_shard_def throw_step_def)
  next
    case 2
    then show ?thesis using st by (simp add: steps_def throw_step_def)
  next
    case 3
    then have "hs_exec ad hash s (Hs_step t) \<noteq> None" using st assms(3) by (simp add: steps_def)
    then show ?thesis using 3 by (auto simp del: hs_exec.simps split: hs_pc.split alloc_pc.split insert_pc.split)
  qed
qed

theorem hs_memory_safe_witness:
  "\<exists>s. run (hs_exec True demo_hash) demo_new (take 6 demo_insert) = Some s \<and>
     hs_exec True demo_hash s (Hs_append 0 16) \<noteq> None \<and> hs_exec True demo_hash s (Hs_throw 0) \<noteq> None"
proof -
  let ?s = "demo_new\<lparr>hs_next := 1, hs_number := [0 \<mapsto> 0], hs_threads := [0],
    hs_pcs := (\<lambda>_. Hs_rest)(0 := Alloc (A_append 5 (Ac_insert 5 4 0) 0))\<rparr>"
  have r: "run (hs_exec True demo_hash) demo_new (take 6 demo_insert) = Some ?s"
    by (simp add: demo_new_def demo_insert_def demo_hash_def words_eval hs_eval)
  have a: "node_addr 16" "hs_nodes ?s 16 = None" by (simp_all add: node_addr_def mask_values UNINITIALIZED_def demo_new_def)
  show ?thesis using hs_memory_safe [OF demo_construct r, of 0] r a by (simp del: hs_exec.simps)
qed

text \<open>
  C28.  The table is well formed in every state, also while threads are in the middle of calls: its size is a power of two, every
  bucket is untouched or heads a chain that ends, repeats no address, holds only keys that belong to it, each at most once alive, and
  no link carries both tags; every bucket that a split published has a published parent, sealed against later insertions.\<close>

theorem hs_table_well_formed:
  assumes "hs_construct icap sh hw ok = Inr s0" and "run (hs_exec ad hash) s0 as = Some s"
  shows "hs_wf ad hash (hs_size s0) s"
proof -
  obtain L where "hs_inv (hs_P ad hash (hs_size s0)) s L" using reached [OF assms] .
  from hs_wf_inv [OF hs_invD(1) [OF this]] show ?thesis by simp
qed

theorem hs_table_well_formed_witness: "hs_wf True demo_hash 4 demo_erased"
  using hs_table_well_formed [OF demo_construct demo_run] by (simp add: demo_new_def)

text \<open>
  C29.  Whenever no call is in progress, also after calls that threw, the accounting sweep ends and finds every arena slot exactly
  once, in a chain, on a free list or on a limbo list: no node is lost and none is in two places.\<close>

theorem hs_accounting_consistent:
  assumes "hs_construct icap sh hw ok = Inr s0" and "run (hs_exec ad hash) s0 as = Some s"
    and "list_all (\<lambda>t. at_rest (hs_pcs s t)) (hs_threads s)"
  shows "\<exists>r f l. get_internal_accounting s = Some \<lparr>acc_slots = get_internal_node_count s, acc_reachable = r, acc_free = f, acc_limbo = l,
     acc_consistent = True\<rparr> \<and> r + f + l = get_internal_node_count s"
proof -
  obtain L where inv: "hs_inv (hs_P ad hash (hs_size s0)) s L" using reached [OF assms(1,2)] .
  from accounting_ok [OF hs_invD(1) [OF inv] quiet_pcs(2) [OF inv assms(3)]] show ?thesis by blast
qed

theorem hs_accounting_consistent_witness:
  "\<exists>r f l. get_internal_accounting demo_erased =
     Some \<lparr>acc_slots = 2, acc_reachable = r, acc_free = f, acc_limbo = l, acc_consistent = True\<rparr> \<and> r + f + l = 2"
  using hs_accounting_consistent [OF demo_construct demo_run demo_quiet] unfolding demo_slots .

text \<open>
  C30.  \<open>reclaim\<close> returns with the number of keys in the set, leaves the set as it was, and frees everything else: afterwards
  the chains hold exactly one node for each key, the limbo lists are empty, and all other slots are on the free lists.  The
  node counter is reset to the number of keys plus the slots the shards have counted in advance.\<close>

theorem hs_reclaim_exact:
  assumes "hs_construct icap sh hw ok = Inr s0" and "run (hs_exec ad hash) s0 as = Some s"
    and "list_all (\<lambda>t. at_rest (hs_pcs s t)) (hs_threads s)"
  shows "\<exists>n s'. reclaim hash s = Some (n, s') \<and> finite {k. hs_set hash s k} \<and> n = card {k. hs_set hash s k} \<and> hs_set hash s' = hs_set hash s \<and>
    get_internal_accounting s' = Some \<lparr>acc_slots = get_internal_node_count s, acc_reachable = n,
      acc_free = get_internal_node_count s - n, acc_limbo = 0, acc_consistent = True\<rparr> \<and> hs_count s' = n + append_credit s'"
proof -
  let ?P = "hs_P ad hash (hs_size s0)"
  obtain L where inv: "hs_inv ?P s L" using reached [OF assms(1,2)] .
  obtain s' L' where r: "reclaim hash s = Some (card {k. memb ?P s L k}, s')" "hs_inv ?P s' L'" "memb ?P s' L' = memb ?P s L"
    "\<forall>i. L' (Limbo i) = []" "\<forall>j. \<forall>a\<in>set (L' (Chain j)). \<not> stale ?P s' j a" "hs_count s' = card {k. memb ?P s L k} + append_credit s'" "view s s' {}"
    using reclaim_inv [OF inv assms(3)] by auto
  have q: "list_all (\<lambda>t. at_rest (hs_pcs s' t)) (hs_threads s')" using assms(3) viewD(7,8) [OF r(7)] by simp
  have nc: "get_internal_node_count s' = get_internal_node_count s"
    using viewD(4) [OF r(7)] by (simp add: get_internal_node_count_def flip: map_map)
  obtain x f l where acc: "get_internal_accounting s' = Some \<lparr>acc_slots = get_internal_node_count s', acc_reachable = x, acc_free = f,
      acc_limbo = l, acc_consistent = True\<rparr>" "x + f + l = get_internal_node_count s'"
    "x = (\<Sum>j\<leftarrow>[0..<hs_size s']. length (L' (Chain j)))" "l = (\<Sum>i\<leftarrow>[0..<length (hs_shards s')]. length (L' (Limbo i)))"
    using accounting_ok [OF hs_invD(1) [OF r(2)] quiet_pcs(2) [OF r(2) q]] by blast
  have "filter (\<lambda>a. \<not> stale ?P s' j a) (L' (Chain j)) = L' (Chain j)" for j using r(5) by (simp add: filter_id_conv)
  then have "x = card {k. memb ?P s L k}" using live_keys(1) [OF hs_invD(1) [OF r(2)]] acc(3) r(3) by simp
  moreover have "l = 0" using acc(4) r(4) by (simp add: sum_list_0)
  moreover have "finite {k. memb ?P s L k}" by (rule live_keys(2) [OF hs_invD(1) [OF inv]])
  ultimately show ?thesis using r acc(1,2) nc hs_set_eq [OF inv] hs_set_eq [OF r(2)] by auto
qed

theorem hs_reclaim_exact_witness:
  "\<exists>n s'. reclaim demo_hash demo_erased = Some (n, s') \<and> hs_set demo_hash s' = hs_set demo_hash demo_erased \<and>
     get_internal_accounting s' = Some \<lparr>acc_slots = 2, acc_reachable = n, acc_free = 2 - n, acc_limbo = 0, acc_consistent = True\<rparr>"
  using hs_reclaim_exact [OF demo_construct demo_run demo_quiet] unfolding demo_slots by blast

text \<open>
  C31.  The test that \<open>reclaim\<close> applies to a node, with bit operations on the hash and one bucket head, decides what the chain
  structure means: on a node of the chain of a published bucket it is true exactly for a tombstone and for a node whose key is decided by
  another bucket (the deepest published bucket on the path of the key's hash).\<close>

theorem hs_is_dead_exact:
  assumes "hs_construct icap sh hw ok = Inr s0" and "run (hs_exec ad hash) s0 as = Some s"
    and "pub s j" and "hs_chain s j = Some xs" and "(a, n) \<in> set xs"
  shows "is_dead hash n j (hs_size s) s \<longleftrightarrow> is_marked (nd_link n) \<or> auth (pub s) (unat (hash (nd_value n)) mod hs_size s) \<noteq> j"
proof -
  obtain L where inv: "hs_inv (hs_P ad hash (hs_size s0)) s L" using reached [OF assms(1,2)] .
  note h = hs_invD(1) [OF inv]
  note c = chain_in [OF h assms(3-5)]
  show ?thesis using dead_iff [OF h c] c(2) by (simp add: stale_def link_def val_def hv_def)
qed

theorem hs_is_dead_exact_witness:
  "is_dead demo_hash \<lparr>nd_value = 5, nd_link = 2\<rparr> 1 8 demo_erased"
proof -
  have p: "pub demo_erased 1" "pub demo_erased 5" by (simp_all add: pub_def demo_erased_def words_eval)
  have c: "hs_chain demo_erased 1 = Some [(16, \<lparr>nd_value = 5, nd_link = 2\<rparr>)]"
    by (simp add: hs_chain_def get_internal_node_count_def demo_erased_def chain_nodes.simps words_eval)
  show ?thesis using hs_is_dead_exact [OF demo_construct demo_run p(1) c, of 16 "\<lparr>nd_value = 5, nd_link = 2\<rparr>"] p(2)
    by (simp add: demo_erased_def demo_hash_def auth.simps)
qed

text \<open>
  C32.  The fields of the words survive each other.  Tagging a link, sealing a head or prepending a node to it changes exactly the
  field it means to change: the address read back, the seal level and the tags are those that were written; a node
  address is recovered from a free-list head whatever the pop counter holds, and the counter from the head.\<close>

theorem hash_words_roundtrip:
  assumes "node_addr a" and "l < 64"
  shows "addr_of (sealed_word (prepend_word a w) l) = a \<and> level_of (sealed_word (prepend_word a w) l) = l \<and>
    level_of (prepend_word a w) = level_of w \<and>
    addr_of ((a OR MARK_BIT) OR FROZEN_BIT) = a \<and> is_marked (a OR MARK_BIT) \<and> \<not> is_frozen (a OR MARK_BIT) \<and>
    is_frozen (a OR FROZEN_BIT) \<and> \<not> is_marked (a OR FROZEN_BIT) \<and>
    free_addr_of (free_word a c) = a \<and> free_word a c AND FREE_COUNT_MASK = c AND FREE_COUNT_MASK"
proof -
  have a: "addr_of a = a" using assms(1) by (simp add: node_addr_iff)
  have "free_word a c AND FREE_COUNT_MASK = c AND FREE_COUNT_MASK"
  proof (rule bit_word_eqI)
    fix n assume "n < LENGTH(64)"
    have "\<not> bit a (n + 3)" if "55 \<le> n" using node_addr_bits [OF a, of "n + 3"] that by auto
    then show "bit (free_word a c AND FREE_COUNT_MASK) n = bit (c AND FREE_COUNT_MASK) n" by (auto simp: bit_simps hash_bits)
  qed
  then show ?thesis using a level_words(3) [OF assms(2)] level_words(4) [OF a] by simp
qed

theorem hash_words_roundtrip_witness:
  "addr_of (sealed_word (prepend_word 0x7F0010 0) 12) = 0x7F0010 \<and> level_of (sealed_word (prepend_word 0x7F0010 0) 12) = 12"
  using hash_words_roundtrip [of "0x7F0010" 12 0 0] by (simp add: node_addr_def mask_values UNINITIALIZED_def)

end
