(* ===== verification/Thread_Stack.thy ===== *)
theory Thread_Stack
  imports Conc_Prelude
begin

text \<open>
  The sizes of a \<open>Thread\<close> (\<^verbatim>\<open>Thread/thread.h\<close>): the stagger of the stacks, the rounding, the computation of the stack
  size with its overflow checks, the bound on what the C library carves out of a stack, and the machine parameters they
  are computed from.  All sizes are 64-bit words and wrap; the creation counter is a 32-bit word.  A granule is
  positive by the precondition of the source; the properties are about powers of two, the only granules it uses.
\<close>

section \<open>Constants\<close>

definition SIZE_MAX :: size_t where "SIZE_MAX = - 1"
definition stagger_step :: size_t where "stagger_step = 256"
definition stagger_slots :: "32 word" where "stagger_slots = 16"
definition max_stagger :: size_t where "max_stagger = (ucast stagger_slots - 1) * stagger_step"
definition start_frames_allowance :: size_t where "start_frames_allowance = 2048"
definition stack_extra :: size_t where "stack_extra = max_stagger + start_frames_allowance"
definition default_guard_bytes :: size_t where "default_guard_bytes = push_bit 20 1"

section \<open>Size arithmetic\<close>

definition stagger_for :: "32 word \<Rightarrow> size_t" where
  "stagger_for n = ucast (n mod stagger_slots) * stagger_step"

definition page_round :: "size_t \<Rightarrow> size_t \<Rightarrow> size_t option" where
  "page_round n granule =
     (if n > SIZE_MAX - (granule - 1) then None else Some ((n + (granule - 1)) div granule * granule))"

definition compute_stack_size :: "size_t \<Rightarrow> size_t \<Rightarrow> size_t \<Rightarrow> size_t \<Rightarrow> size_t \<Rightarrow> size_t option" where
  "compute_stack_size requested extra tls granule minimum =
     (let clamped = (if requested < minimum then minimum else requested) in
      if extra > SIZE_MAX - clamped then None
      else let with_extra = clamped + extra in
      if tls > SIZE_MAX - with_extra then None
      else page_round (with_extra + tls) granule)"

definition guard_fits :: "size_t \<Rightarrow> size_t \<Rightarrow> size_t \<Rightarrow> bool" where
  "guard_fits stack guard page = (case page_round guard page of None \<Rightarrow> False | Some rounded \<Rightarrow> rounded \<le> SIZE_MAX - stack)"

definition tls_carve_bound :: "size_t \<Rightarrow> size_t \<Rightarrow> size_t" where
  "tls_carve_bound sz al =
     (let align = (if al = 0 then 1 else al) in
      case page_round sz align of None \<Rightarrow> SIZE_MAX
      | Some rounded \<Rightarrow> (if rounded > SIZE_MAX - (align - 1) then SIZE_MAX else rounded + (align - 1)))"

section \<open>Machine parameters\<close>

text \<open>
  The query of the C library is \<open>None\<close> when the symbol is absent and otherwise gives the reported size and alignment;
  \<open>sysconf\<close> returns a signed word.
\<close>

record tls_info =
  tls_size :: size_t
  tls_align :: size_t

definition tls_info_from :: "(size_t \<times> size_t) option \<Rightarrow> tls_info" where
  "tls_info_from query = (case query of None \<Rightarrow> \<lparr>tls_size = 0, tls_align = 1\<rparr>
     | Some (sz, al) \<Rightarrow> \<lparr>tls_size = sz, tls_align = (if al = 0 then 1 else al)\<rparr>)"

definition tls_size_from :: "(size_t \<times> size_t) option \<Rightarrow> size_t" where
  "tls_size_from query = (let info = tls_info_from query in tls_carve_bound (tls_size info) (tls_align info))"

definition page_size :: "size_t \<Rightarrow> size_t" where
  "page_size sysconf_page = (if sint sysconf_page > 0 then sysconf_page else 4096)"

definition stack_granule :: "(size_t \<times> size_t) option \<Rightarrow> size_t \<Rightarrow> size_t" where
  "stack_granule query sysconf_page =
     (let align = tls_align (tls_info_from query); page = page_size sysconf_page in if align > page then align else page)"

section \<open>Rounding and sums as natural numbers\<close>

text \<open>The least multiple of \<open>g\<close> that is not below \<open>n\<close>.\<close>

definition round_up :: "nat \<Rightarrow> nat \<Rightarrow> nat" where
  "round_up n g = (n + g - 1) div g * g"

definition fits :: "nat \<Rightarrow> size_t option" where
  "fits n = (if n < 2 ^ 64 then Some (of_nat n) else None)"

lemma round_up_least:
  assumes g: "0 < g"
  shows "n \<le> round_up n g" "g dvd round_up n g" "g dvd m \<Longrightarrow> n \<le> m \<Longrightarrow> round_up n g \<le> m"
proof -
  have "n + g - 1 = (n + g - 1) div g * g + (n + g - 1) mod g" by simp
  moreover have "(n + g - 1) mod g < g" using g by simp
  ultimately show "n \<le> round_up n g" unfolding round_up_def using g by linarith
  show "g dvd round_up n g" by (simp add: round_up_def)
  assume "g dvd m" "n \<le> m"
  then obtain k where k: "m = k * g" by (metis dvd_def mult.commute)
  have "n + g - 1 < (k + 1) * g" using \<open>n \<le> m\<close> k g by (simp add: algebra_simps)
  then have "(n + g - 1) div g < k + 1" using g by (simp add: div_less_iff_less_mult)
  then show "round_up n g \<le> m" unfolding round_up_def k by simp
qed

lemma unat_size_max: "unat SIZE_MAX = 2 ^ 64 - 1"
  by (simp add: SIZE_MAX_def unsigned_minus_1_eq_mask mask_eq_exp_minus_1)

lemma size_max_minus: "unat (SIZE_MAX - w) = 2 ^ 64 - 1 - unat w"
proof -
  have "w \<le> SIZE_MAX" by (simp add: SIZE_MAX_def)
  then show ?thesis using unat_size_max by (simp add: unat_sub)
qed

lemma exceeds_max: "a > SIZE_MAX - b \<longleftrightarrow> 2 ^ 64 \<le> unat a + unat b"
  unfolding word_less_nat_alt size_max_minus using unat_lt_size [of b] by linarith

lemma unat_pred: "0 < unat g \<Longrightarrow> unat (g - 1 :: size_t) = unat g - 1"
  by (subst unat_sub) (auto simp: word_le_nat_alt)

lemma page_round_fits:
  assumes g: "unat g = 2 ^ k" "k < 64"
  shows "page_round n g = fits (round_up (unat n) (2 ^ k))"
proof -
  let ?m = "round_up (unat n) (2 ^ k)"
  have pos: "(0 :: nat) < 2 ^ k" by simp
  have gp: "unat (g - 1) = 2 ^ k - 1" using unat_pred [of g] g by simp
  have d: "(2 :: nat) ^ k dvd 2 ^ 64" by (rule le_imp_power_dvd) (use g(2) in simp)
  note r = round_up_least [OF pos, of "unat n"]
  show ?thesis
  proof (cases "n > SIZE_MAX - (g - 1)")
    case True
    then have big: "2 ^ 64 \<le> unat n + (2 ^ k - 1)" unfolding exceeds_max gp .
    have "\<not> ?m < 2 ^ 64"
    proof
      assume "?m < 2 ^ 64"
      moreover have "(2 :: nat) ^ k dvd 2 ^ 64 - ?m" by (rule dvd_diff_nat [OF d r(2)])
      ultimately have "2 ^ k \<le> 2 ^ 64 - ?m" by (intro dvd_imp_le) auto
      then show False using r(1) big \<open>?m < 2 ^ 64\<close> pos by linarith
    qed
    then show ?thesis using True by (simp add: page_round_def fits_def)
  next
    case False
    then have small: "unat n + (2 ^ k - 1) < 2 ^ 64" unfolding exceeds_max gp by simp
    have le: "?m \<le> unat n + (2 ^ k - 1)" unfolding round_up_def using div_times_less_eq_dividend [of "unat n + 2 ^ k - 1" "2 ^ k"] by simp
    have s: "unat (n + (g - 1)) = unat n + (2 ^ k - 1)" using unat_add_size [of n "g - 1"] small gp by simp
    have "unat ((n + (g - 1)) div g * g) = ?m"
    proof -
      have q: "unat ((n + (g - 1)) div g) = (unat n + 2 ^ k - 1) div 2 ^ k" using s g pos by (simp add: unat_div_distrib)
      then have "unat ((n + (g - 1)) div g) * unat g = ?m" using g by (simp add: round_up_def)
      moreover have "?m < 2 ^ 64" using le small by simp
      ultimately show ?thesis by (simp add: unat_word_ariths)
    qed
    then have "(n + (g - 1)) div g * g = of_nat ?m" by (metis of_nat_unat ucast_id)
    then show ?thesis using False le small by (simp add: page_round_def fits_def)
  qed
qed

lemma add_fits: "a + b < 2 ^ 64 \<longleftrightarrow> \<not> y > SIZE_MAX - x" if "unat x = a" "unat y = b"
  using that by (simp add: exceeds_max add.commute not_le)

lemma fits_None: "2 ^ 64 \<le> n \<Longrightarrow> fits n = None"
  by (simp add: fits_def)

section \<open>Properties\<close>

lemma compute_stack:
  assumes "unat granule = 2 ^ k" and "k < 64"
  shows "compute_stack_size requested extra tls granule minimum =
    fits (round_up (max (unat requested) (unat minimum) + unat extra + unat tls) (2 ^ k))"
proof -
  let ?c = "if requested < minimum then minimum else requested" and ?g = "(2 :: nat) ^ k"
  have c: "unat ?c = max (unat requested) (unat minimum)" by (auto simp: word_less_nat_alt)
  let ?t = "max (unat requested) (unat minimum) + unat extra + unat tls"
  have up: "?t \<le> round_up ?t ?g" using round_up_least(1) [of ?g ?t] by simp
  show ?thesis
  proof (cases "extra > SIZE_MAX - ?c")
    case True
    then have "2 ^ 64 \<le> round_up ?t ?g" using up c unfolding exceeds_max by linarith
    then show ?thesis using True by (simp add: compute_stack_size_def fits_None)
  next
    case False
    then have e: "unat (?c + extra) = unat ?c + unat extra" unfolding exceeds_max by (intro unat_add_size) linarith
    show ?thesis
    proof (cases "tls > SIZE_MAX - (?c + extra)")
      case True
      then have "2 ^ 64 \<le> round_up ?t ?g" using up c e unfolding exceeds_max by linarith
      then show ?thesis using False True by (simp add: compute_stack_size_def fits_None)
    next
      case small: False
      then have "unat (?c + extra + tls) = unat (?c + extra) + unat tls" unfolding exceeds_max by (intro unat_add_size) linarith
      then have "unat (?c + extra + tls) = ?t" using e c by simp
      then show ?thesis using False small page_round_fits [OF assms, of "?c + extra + tls"] by (simp add: compute_stack_size_def Let_def)
    qed
  qed
qed

text \<open>
  \<open>compute_stack_size\<close> is exact: for a granule that is a power of two it returns the least multiple of the
  granule that holds the clamped request, the extra and the static TLS, computed without wrap-around, and it
  returns nothing exactly when that number does not fit in 64 bits.\<close>

theorem compute_stack_size_exact:
  assumes "unat granule = 2 ^ k" and "k < 64"
  shows "compute_stack_size requested extra tls granule minimum =
    fits (round_up (max (unat requested) (unat minimum) + unat extra + unat tls) (2 ^ k))"
  using assms by (rule compute_stack)

theorem compute_stack_size_exact_witness:
  "compute_stack_size 100000 stack_extra 4160 4096 16384 = fits (round_up (100000 + 5888 + 4160) 4096)"
  using compute_stack_size_exact [of 4096 12 100000 stack_extra 4160 16384]
  by (simp add: stack_extra_def max_stagger_def start_frames_allowance_def stagger_slots_def stagger_step_def)

lemma max_stagger_value: "unat (stagger_for n) \<le> 3840" "unat stack_extra = 3840 + 2048"
proof -
  have m: "unat (n mod stagger_slots) < 16" by (simp add: stagger_slots_def unat_mod_distrib)
  then have "unat (ucast (n mod stagger_slots) :: size_t) = unat (n mod stagger_slots)"
    by (simp add: unsigned_ucast_eq take_bit_nat_eq_self)
  then have "unat (stagger_for n) = unat (n mod stagger_slots) * 256" using m
    by (simp add: stagger_for_def stagger_step_def unat_word_ariths)
  then show "unat (stagger_for n) \<le> 3840" using m by simp
  show "unat stack_extra = 3840 + 2048"
    by (simp add: stack_extra_def max_stagger_def start_frames_allowance_def stagger_slots_def stagger_step_def)
qed

text \<open>
  C33.  A stack that was computed is large enough: below the static TLS, the deepest stagger of any thread number and the start-up
  frames it still holds the requested size, and at least the minimum.  It is a multiple of the granule, so the stagger alone decides
  where in its page a top frame lies.\<close>

theorem stack_suffices:
  assumes "unat granule = 2 ^ k" and "k < 64" and "compute_stack_size requested stack_extra tls granule minimum = Some stack"
  shows "max (unat requested) (unat minimum) + unat start_frames_allowance + unat (stagger_for n) + unat tls \<le> unat stack \<and>
    2 ^ k dvd unat stack"
proof -
  let ?t = "max (unat requested) (unat minimum) + unat stack_extra + unat tls"
  have "fits (round_up ?t (2 ^ k)) = Some stack" using compute_stack [OF assms(1,2)] assms(3) by simp
  then have "unat stack = round_up ?t (2 ^ k)" by (auto simp: fits_def unat_of_nat_size split: if_splits)
  moreover have "?t \<le> round_up ?t (2 ^ k)" "2 ^ k dvd round_up ?t (2 ^ k)" using round_up_least [of "2 ^ k" ?t] by simp_all
  moreover have "unat start_frames_allowance = 2048" by (simp add: start_frames_allowance_def)
  ultimately show ?thesis using max_stagger_value(1) [of n] max_stagger_value(2) by simp
qed

theorem stack_suffices_witness:
  "compute_stack_size 100000 stack_extra 4160 4096 16384 = Some 110592 \<and> 100000 + 2048 + 3840 + 4160 \<le> (110592 :: nat)"
proof -
  have c: "compute_stack_size 100000 stack_extra 4160 4096 16384 = Some 110592"
    by (simp add: compute_stack_size_def page_round_def SIZE_MAX_def stack_extra_def max_stagger_def start_frames_allowance_def
        stagger_slots_def stagger_step_def)
  from stack_suffices [of 4096 12, OF _ _ c, of 15] c show ?thesis
    by (simp add: stagger_for_def stagger_slots_def stagger_step_def start_frames_allowance_def)
qed

lemma stagger_value: "unat (stagger_for n) = 256 * (unat n mod 16)"
proof -
  have m: "unat (n mod stagger_slots) = unat n mod 16" by (simp add: stagger_slots_def unat_mod_distrib)
  then have "unat (ucast (n mod stagger_slots) :: size_t) = unat n mod 16"
    by (simp add: unsigned_ucast_eq take_bit_nat_eq_self)
  then show ?thesis by (simp add: stagger_for_def stagger_step_def unat_word_ariths)
qed

lemma window_inj: "(x + i) mod m = (x + j) mod m \<Longrightarrow> i < m \<Longrightarrow> j < m \<Longrightarrow> i = (j :: nat)"
proof (induction i j rule: linorder_wlog)
  case (le i j)
  then have "m dvd (x + j) - (x + i)" by (metis add_le_mono1 add.commute mod_eq_dvd_iff_nat)
  then have "m dvd j - i" by simp
  then show ?case using le by (cases "j - i = 0") (auto dest: dvd_imp_le)
qed (metis)

text \<open>
  The staggers rotate: the thread after thread \<open>n\<close> starts 256 bytes further in a page of 4096 bytes, also when the 32-bit
  creation counter wraps around, and sixteen consecutive threads get sixteen different offsets.\<close>

theorem stagger_rotation:
  "unat (stagger_for (n + 1)) = (unat (stagger_for n) + 256) mod 4096 \<and>
   (\<forall>i < 16. \<forall>j < 16. stagger_for (n + of_nat i) = stagger_for (n + of_nat j) \<longrightarrow> i = j)"
proof -
  have w: "unat (n + of_nat i) mod 16 = (unat n + i) mod 16" for i :: nat
  proof -
    have d: "(16 :: nat) dvd 2 ^ 32" by simp
    have "unat (n + of_nat i) = (unat n + i) mod 2 ^ 32" by (simp add: unat_word_ariths unat_of_nat mod_add_right_eq)
    then show ?thesis using mod_mod_cancel [OF d, of "unat n + i"] by simp
  qed
  have "unat (stagger_for (n + 1)) = 256 * ((unat n + 1) mod 16)" using stagger_value [of "n + 1"] w [of 1] by simp
  moreover have "256 * ((unat n + 1) mod 16) = (256 * (unat n mod 16) + 256) mod 4096"
    using mult_mod_right [of 256 "unat n + 1" 16] mod_mult_right_eq [of 256 "unat n" 16] mult_mod_right [of 256 "unat n" 16]
    by (simp add: mod_add_left_eq mod_add_right_eq add.commute)
  moreover have "i = j" if ij: "i < 16" "j < 16" "stagger_for (n + of_nat i) = stagger_for (n + of_nat j)" for i j
  proof -
    have "(unat n + i) mod 16 = (unat n + j) mod 16"
      using ij(3) stagger_value [of "n + of_nat i"] stagger_value [of "n + of_nat j"] w by simp
    then show ?thesis using window_inj ij(1,2) by blast
  qed
  ultimately show ?thesis using stagger_value [of n] by auto
qed

theorem stagger_rotation_witness:
  "unat (stagger_for (4294967295 + 1)) = (unat (stagger_for 4294967295) + 256) mod 4096 \<and> stagger_for 7 \<noteq> stagger_for 12"
  using stagger_rotation [of 4294967295] conjunct2 [OF stagger_rotation [of 0], rule_format, of 7 12] by auto

text \<open>
  \<open>guard_fits\<close> is exact: it holds exactly when the stack together with the guard, rounded up to the page as the C library
  rounds it, is smaller than \<open>2 ^ 64\<close> bytes.\<close>

theorem guard_fits_exact:
  assumes "unat page = 2 ^ k" and "k < 64"
  shows "guard_fits stack guard page \<longleftrightarrow> unat stack + round_up (unat guard) (2 ^ k) < 2 ^ 64"
proof (cases "round_up (unat guard) (2 ^ k) < 2 ^ 64")
  case True
  then show ?thesis using page_round_fits [OF assms, of guard] unat_lt_size [of stack]
    by (auto simp: guard_fits_def fits_def word_le_nat_alt size_max_minus unat_of_nat_size)
next
  case False
  then show ?thesis using page_round_fits [OF assms, of guard] by (simp add: guard_fits_def fits_def)
qed

theorem guard_fits_exact_witness: "guard_fits 110592 default_guard_bytes 4096 \<and> \<not> guard_fits 110592 SIZE_MAX 4096"
proof -
  have "round_up 1048576 4096 = 1048576" "(2 :: nat) ^ 64 \<le> round_up (2 ^ 64 - 1) 4096"
    using round_up_least(1) [of 4096 "2 ^ 64 - 1"] by (simp_all add: round_up_def)
  then show ?thesis using guard_fits_exact [of 4096 12 110592 default_guard_bytes] guard_fits_exact [of 4096 12 110592 SIZE_MAX]
    by (simp add: default_guard_bytes_def unat_size_max)
qed

text \<open>
  The bound on the static TLS is enough and does not wrap.  The C library takes the size, rounded up to the alignment, off the
  top of the stack and aligns the result down; wherever the top \<open>T\<close> lies, that carves off no more than
  \<open>tls_carve_bound\<close>, unless the bound does not fit in 64 bits, and then it is the largest size, which makes the
  stack size computation fail.\<close>

theorem tls_carve_enough:
  assumes "unat al = 2 ^ k" and "k < 64"
  shows "unat (tls_carve_bound sz al) = min (2 ^ 64 - 1) (round_up (unat sz) (2 ^ k) + (2 ^ k - 1)) \<and>
    (tls_carve_bound sz al \<noteq> SIZE_MAX \<longrightarrow> (\<forall>T. T - (T - round_up (unat sz) (2 ^ k)) div 2 ^ k * 2 ^ k \<le> unat (tls_carve_bound sz al))) \<and>
    (tls_carve_bound sz al = SIZE_MAX \<longrightarrow> 0 < unat extra \<longrightarrow> compute_stack_size requested extra (tls_carve_bound sz al) granule minimum = None)"
proof -
  let ?r = "round_up (unat sz) (2 ^ k)"
  have a: "al \<noteq> 0" "unat (al - 1) = 2 ^ k - 1" using assms unat_pred [of al] by auto
  have u: "unat (tls_carve_bound sz al) = min (2 ^ 64 - 1) (?r + (2 ^ k - 1))"
  proof (cases "?r < 2 ^ 64")
    case True
    have pr: "page_round sz al = Some (of_nat ?r)" and ur: "unat (of_nat ?r :: size_t) = ?r"
      using page_round_fits [OF assms, of sz] True by (simp_all add: fits_def unat_of_nat_size)
    show ?thesis
    proof (cases "(of_nat ?r :: size_t) > SIZE_MAX - (al - 1)")
      case big: True
      then have "2 ^ 64 \<le> ?r + (2 ^ k - 1)" unfolding exceeds_max ur a(2) .
      then show ?thesis using big pr a unat_size_max by (simp add: tls_carve_bound_def Let_def)
    next
      case small: False
      then have lt: "?r + (2 ^ k - 1) < 2 ^ 64" unfolding exceeds_max ur a(2) by simp
      then have "unat (of_nat ?r + (al - 1)) = ?r + (2 ^ k - 1)" using unat_add_size [of "of_nat ?r" "al - 1"] ur a(2) by simp
      then show ?thesis using small pr a lt by (simp add: tls_carve_bound_def Let_def)
    qed
  next
    case False
    then show ?thesis using page_round_fits [OF assms, of sz] a unat_size_max by (simp add: tls_carve_bound_def Let_def fits_def)
  qed
  have c: "T - (T - ?r) div 2 ^ k * 2 ^ k \<le> ?r + (2 ^ k - 1)" for T
  proof -
    have "T - ?r < (T - ?r) div 2 ^ k * 2 ^ k + 2 ^ k" using mod_less_divisor [of "2 ^ k" "T - ?r", OF zero_less_power [OF zero_less_numeral]] div_mult_mod_eq [of "T - ?r" "2 ^ k"] by linarith
    then show ?thesis by linarith
  qed
  have "?r + (2 ^ k - 1) \<le> unat (tls_carve_bound sz al)" if "tls_carve_bound sz al \<noteq> SIZE_MAX"
  proof -
    have "unat (tls_carve_bound sz al) \<noteq> 2 ^ 64 - 1" using that unat_size_max by (metis word_unat_eq_iff)
    then show ?thesis using u by linarith
  qed
  moreover have "compute_stack_size requested extra SIZE_MAX granule minimum = None" if e: "0 < unat extra"
  proof (cases "extra > SIZE_MAX - (if requested < minimum then minimum else requested)")
    case False
    then have "unat ((if requested < minimum then minimum else requested) + extra) = unat (if requested < minimum then minimum else requested) + unat extra"
      unfolding exceeds_max by (intro unat_add_size) linarith
    then have "SIZE_MAX > SIZE_MAX - ((if requested < minimum then minimum else requested) + extra)"
      using e unfolding exceeds_max unat_size_max by simp
    then show ?thesis using False by (simp add: compute_stack_size_def)
  qed (simp add: compute_stack_size_def)
  ultimately show ?thesis using u c by (auto intro: order_trans)
qed

theorem tls_carve_enough_witness:
  "unat (tls_carve_bound 4000 64) = 4032 + 63 \<and> (\<forall>T. T - (T - 4032) div 64 * 64 \<le> (4095 :: nat))"
proof -
  have "round_up 4000 64 = 4032" by (simp add: round_up_def)
  then show ?thesis using tls_carve_enough [of 64 6 4000 1 0 0 0] unat_size_max by auto
qed

end
