(* ===== verification/Thread_Obj.thy ===== *)
theory Thread_Obj
  imports Thread_Stack
begin

text \<open>
  The class \<open>Thread\<close> (\<^verbatim>\<open>Thread/thread.h\<close>): the attributes object, the signal masks around \<open>pthread_create\<close>, the launch with its
  error paths, and the life of thread objects (construction, \<open>join\<close>, \<open>detach\<close>, moves, \<open>swap\<close>, destruction) as a machine.

  The POSIX calls are not part of the sources: each returns a code that the environment chooses (\<open>choices\<close>), and has
  the documented effect when the code is 0.  \<open>pthread_create\<close> returns a handle that is not in use, \<open>pthread_join\<close> returns 0 only
  for a joinable thread that has ended, and a handle stays in use until its thread is joined or, detached, has ended.
\<close>

section \<open>Signals\<close>

datatype signal = SIGSEGV | SIGBUS | SIGFPE | SIGILL | SIGPROF | SIGTRAP | SIGSYS | SIGKILL | SIGSTOP | Other_signal nat

type_synonym sigset = "signal \<Rightarrow> bool"

definition sigdelset :: "sigset \<Rightarrow> signal \<Rightarrow> sigset" where
  "sigdelset s x = s(x := False)"

definition unblocked_signals :: "signal list" where
  "unblocked_signals = [SIGSEGV, SIGBUS, SIGFPE, SIGILL, SIGPROF, SIGTRAP, SIGSYS]"

definition start_mask :: sigset where
  "start_mask = sigdelset (sigdelset (fold (\<lambda>x s. sigdelset s x) unblocked_signals (\<lambda>_. True)) SIGKILL) SIGSTOP"

text \<open>\<open>pthread_sigmask\<close> with \<open>SIG_BLOCK\<close>; with \<open>SIG_SETMASK\<close> the mask is replaced.  \<open>SIGKILL\<close> and \<open>SIGSTOP\<close> are never blocked.\<close>

definition sig_block :: "sigset \<Rightarrow> sigset \<Rightarrow> sigset" where
  "sig_block old s = (\<lambda>x. old x \<or> s x)(SIGKILL := False, SIGSTOP := False)"

definition sig_setmask :: "sigset \<Rightarrow> sigset" where
  "sig_setmask s = s(SIGKILL := False, SIGSTOP := False)"

section \<open>The process\<close>

type_synonym handle = nat       \<comment> \<open>\<open>pthread_t\<close>; 0 is \<open>native_handle_type{}\<close>\<close>
type_synonym oid = nat          \<comment> \<open>a \<open>Thread\<close> object\<close>

text \<open>
  A thread created by the class: before its first action, running the callable, or ended; whether it was detached;
  and whether it owns the heap state that holds the callable.
\<close>

datatype phase = Created | Running | Ended

record thr =
  th_phase :: phase
  th_mask :: sigset
  th_detached :: bool
  th_state :: bool
  th_stack :: size_t
  th_guard :: size_t
  th_stagger :: size_t

record world =
  tw_default_stack :: size_t
  tw_counter :: "32 word"
  tw_attrs :: int                      \<comment> \<open>attribute objects initialized and not yet destroyed\<close>
  tw_heap :: int                       \<comment> \<open>heap states allocated and not yet freed\<close>
  tw_mask :: sigset                    \<comment> \<open>the mask of the creating thread\<close>
  tw_threads :: "handle \<rightharpoonup> thr"
  tw_objs :: "oid \<rightharpoonup> handle"

record machine =
  mp_query :: "(size_t \<times> size_t) option"
  mp_page :: size_t
  mp_min :: size_t

record attributes =
  at_stack :: "size_t option"
  at_guard :: "size_t option"

text \<open>The codes of the calls, whether the allocation succeeds and the copies into the state do not throw, and the new handle.\<close>

record choices =
  ch_init :: nat
  ch_setstack :: nat
  ch_setguard :: nat
  ch_alloc :: bool
  ch_copy :: bool
  ch_create :: nat
  ch_handle :: handle

datatype thread_error = Sys_error nat | Alloc_error | User_error

definition EINVAL :: nat where "EINVAL = 22"
definition EDEADLK :: nat where "EDEADLK = 35"

section \<open>Launching\<close>

definition attr_destroy :: "world \<Rightarrow> world" where
  "attr_destroy w = w\<lparr>tw_attrs := tw_attrs w - 1\<rparr>"

definition attr_owner :: "machine \<Rightarrow> attributes \<Rightarrow> choices \<Rightarrow> world \<Rightarrow> (thread_error + size_t \<times> size_t) \<times> world" where
  "attr_owner mp a c w =
     (let requested = (case at_stack a of Some s \<Rightarrow> s | None \<Rightarrow> tw_default_stack w);
          guard_bytes = (case at_guard a of Some g \<Rightarrow> g | None \<Rightarrow> default_guard_bytes) in
      case compute_stack_size requested stack_extra (tls_size_from (mp_query mp)) (stack_granule (mp_query mp) (mp_page mp)) (mp_min mp) of
        None \<Rightarrow> (Inl (Sys_error EINVAL), w)
      | Some stack \<Rightarrow>
          (if \<not> guard_fits stack guard_bytes (page_size (mp_page mp)) then (Inl (Sys_error EINVAL), w)
           else if ch_init c \<noteq> 0 then (Inl (Sys_error (ch_init c)), w)
           else let w1 = w\<lparr>tw_attrs := tw_attrs w + 1\<rparr> in
           if ch_setstack c \<noteq> 0 then (Inl (Sys_error (ch_setstack c)), attr_destroy w1)
           else if ch_setguard c \<noteq> 0 then (Inl (Sys_error (ch_setguard c)), attr_destroy w1)
           else (Inr (stack, guard_bytes), w1)))"

definition next_stagger :: "world \<Rightarrow> size_t \<times> world" where
  "next_stagger w = (stagger_for (tw_counter w), w\<lparr>tw_counter := tw_counter w + 1\<rparr>)"

text \<open>
  \<open>create_thread\<close> inside \<open>CreationMaskScope\<close>: the new thread inherits the mask its creator has during the call.
\<close>

definition create_thread :: "choices \<Rightarrow> size_t \<Rightarrow> size_t \<Rightarrow> size_t \<Rightarrow> world \<Rightarrow> nat \<times> world" where
  "create_thread c stack guard_bytes stagger w =
     (let saved = tw_mask w; w1 = w\<lparr>tw_mask := sig_block saved start_mask\<rparr>;
          w2 = (if ch_create c = 0
                then w1\<lparr>tw_threads := (tw_threads w1)(ch_handle c \<mapsto>
                       \<lparr>th_phase = Created, th_mask = tw_mask w1, th_detached = False, th_state = True,
                        th_stack = stack, th_guard = guard_bytes, th_stagger = stagger\<rparr>)\<rparr>
                else w1) in
      (ch_create c, w2\<lparr>tw_mask := sig_setmask saved\<rparr>))"

definition launch :: "machine \<Rightarrow> attributes \<Rightarrow> choices \<Rightarrow> world \<Rightarrow> (thread_error + handle) \<times> world" where
  "launch mp a c w =
     (case attr_owner mp a c w of
        (Inl e, w1) \<Rightarrow> (Inl e, w1)
      | (Inr (stack, guard_bytes), w1) \<Rightarrow>
          (case next_stagger w1 of (stagger, w2) \<Rightarrow>
             (if \<not> ch_alloc c then (Inl Alloc_error, attr_destroy w2)
              else if \<not> ch_copy c then (Inl User_error, attr_destroy w2)
              else (case create_thread c stack guard_bytes stagger (w2\<lparr>tw_heap := tw_heap w2 + 1\<rparr>) of (rc, w3) \<Rightarrow>
                 (if rc \<noteq> 0 then (Inl (Sys_error rc), attr_destroy (w3\<lparr>tw_heap := tw_heap w3 - 1\<rparr>))
                  else (Inr (ch_handle c), attr_destroy w3))))))"

section \<open>The new thread\<close>

text \<open>\<open>start_routine\<close>: its first action sets the mask; it owns the state from then on.\<close>

definition start_routine :: "thr \<Rightarrow> thr" where
  "start_routine th = th\<lparr>th_phase := Running, th_mask := sig_setmask start_mask\<rparr>"

text \<open>
  The end of the callable: it returns, or a forced unwind leaves it (both free the state and end the thread), or an exception
  escapes and \<^verbatim>\<open>std::terminate()\<close> ends the process (\<open>None\<close>).
\<close>

datatype outcome = Returns | Forced_unwind | Escapes

definition finish :: "outcome \<Rightarrow> thr \<Rightarrow> thr option" where
  "finish r th = (case r of Escapes \<Rightarrow> None | _ \<Rightarrow> Some (th\<lparr>th_phase := Ended, th_state := False\<rparr>))"

section \<open>Thread objects\<close>

definition joinable :: "handle \<Rightarrow> bool" where
  "joinable h \<longleftrightarrow> h \<noteq> 0"

text \<open>\<open>self\<close> is the handle of the calling thread, \<open>rc\<close> what \<open>pthread_join\<close> or \<open>pthread_detach\<close> returns.\<close>

definition join :: "handle \<Rightarrow> nat \<Rightarrow> handle \<Rightarrow> thread_error + handle" where
  "join self rc h =
     (if \<not> joinable h then Inl (Sys_error EINVAL)
      else if h = self then Inl (Sys_error EDEADLK)
      else if rc \<noteq> 0 then Inl (Sys_error rc)
      else Inr 0)"

definition detach :: "nat \<Rightarrow> handle \<Rightarrow> thread_error + handle" where
  "detach rc h =
     (if \<not> joinable h then Inl (Sys_error EINVAL)
      else if rc \<noteq> 0 then Inl (Sys_error rc)
      else Inr 0)"

section \<open>The machine\<close>

datatype act =
    Th_default oid
  | Th_launch oid attributes choices
  | Th_begin handle
  | Th_finish handle outcome
  | Th_join handle oid nat
  | Th_detach oid nat
  | Th_move oid oid
  | Th_assign handle oid oid nat
  | Th_swap oid oid
  | Th_destroy handle oid nat
  | Th_set_default size_t

text \<open>The C library forgets a thread that has been joined, and a detached one that has ended.\<close>

definition forget :: "handle \<Rightarrow> (handle \<rightharpoonup> thr) \<Rightarrow> handle \<rightharpoonup> thr" where
  "forget h T = T(h := None)"

definition join_done :: "handle \<Rightarrow> world \<Rightarrow> bool" where
  "join_done h w = (case tw_threads w h of None \<Rightarrow> False | Some th \<Rightarrow> th_phase th = Ended \<and> \<not> th_detached th)"

text \<open>
  A call of \<open>join\<close> on object \<open>x\<close>: \<open>pthread_join\<close> returns 0 only once the thread has ended.  An exception leaves the object as it is.
\<close>

definition do_join :: "handle \<Rightarrow> oid \<Rightarrow> nat \<Rightarrow> world \<Rightarrow> ((thread_error + unit) \<times> world) option" where
  "do_join self x rc w = (case tw_objs w x of None \<Rightarrow> None
     | Some h \<Rightarrow> (case join self rc h of
           Inl e \<Rightarrow> Some (Inl e, w)
         | Inr h' \<Rightarrow> if join_done h w
             then Some (Inr (), w\<lparr>tw_threads := forget h (tw_threads w), tw_objs := (tw_objs w)(x \<mapsto> h')\<rparr>)
             else None))"

definition mark_detached :: "handle \<Rightarrow> (handle \<rightharpoonup> thr) \<Rightarrow> handle \<rightharpoonup> thr" where
  "mark_detached h T = (case T h of None \<Rightarrow> T
     | Some th \<Rightarrow> if th_phase th = Ended then forget h T else T(h \<mapsto> th\<lparr>th_detached := True\<rparr>))"

definition do_detach :: "oid \<Rightarrow> nat \<Rightarrow> world \<Rightarrow> ((thread_error + unit) \<times> world) option" where
  "do_detach x rc w = (case tw_objs w x of None \<Rightarrow> None
     | Some h \<Rightarrow> (case detach rc h of
           Inl e \<Rightarrow> Some (Inl e, w)
         | Inr h' \<Rightarrow> Some (Inr (), w\<lparr>tw_threads := mark_detached h (tw_threads w), tw_objs := (tw_objs w)(x \<mapsto> h')\<rparr>)))"

text \<open>
  \<open>if (joinable()) join();\<close> in a function that is \<^verbatim>\<open>noexcept\<close>: an exception ends the process (\<open>None\<close>).
\<close>

definition join_if :: "handle \<Rightarrow> oid \<Rightarrow> nat \<Rightarrow> world \<Rightarrow> world option" where
  "join_if self x rc w = (case tw_objs w x of None \<Rightarrow> None
     | Some h \<Rightarrow> if \<not> joinable h then Some w
         else (case do_join self x rc w of Some (Inr _, w') \<Rightarrow> Some w' | _ \<Rightarrow> None))"

text \<open>The handle moves, and its source is left empty.\<close>

definition take_handle :: "oid \<Rightarrow> oid \<Rightarrow> world \<Rightarrow> world option" where
  "take_handle x y w = (case tw_objs w y of None \<Rightarrow> None
     | Some h \<Rightarrow> Some (w\<lparr>tw_objs := (tw_objs w)(y \<mapsto> 0, x \<mapsto> h)\<rparr>))"

fun th_exec :: "machine \<Rightarrow> world \<Rightarrow> act \<Rightarrow> world option" where
  "th_exec mp w (Th_default x) =
     (if tw_objs w x = None then Some (w\<lparr>tw_objs := (tw_objs w)(x \<mapsto> 0)\<rparr>) else None)"
| "th_exec mp w (Th_launch x a c) =
     (if tw_objs w x = None \<and> ch_handle c \<noteq> 0 \<and> tw_threads w (ch_handle c) = None
      then (case launch mp a c w of
              (Inl e, w') \<Rightarrow> Some w'
            | (Inr h, w') \<Rightarrow> Some (w'\<lparr>tw_objs := (tw_objs w')(x \<mapsto> h)\<rparr>))
      else None)"
| "th_exec mp w (Th_begin h) =
     (case tw_threads w h of None \<Rightarrow> None
      | Some th \<Rightarrow> if th_phase th = Created then Some (w\<lparr>tw_threads := (tw_threads w)(h \<mapsto> start_routine th)\<rparr>) else None)"
| "th_exec mp w (Th_finish h r) =
     (case tw_threads w h of None \<Rightarrow> None
      | Some th \<Rightarrow> if th_phase th = Running
          then map_option (\<lambda>th'. w\<lparr>tw_heap := tw_heap w - 1,
                                    tw_threads := (if th_detached th' then forget h (tw_threads w) else (tw_threads w)(h \<mapsto> th'))\<rparr>)
                 (finish r th)
          else None)"
| "th_exec mp w (Th_join self x rc) = map_option snd (do_join self x rc w)"
| "th_exec mp w (Th_detach x rc) = map_option snd (do_detach x rc w)"
| "th_exec mp w (Th_move x y) = (if tw_objs w x = None \<and> x \<noteq> y then take_handle x y w else None)"
| "th_exec mp w (Th_assign self x y rc) =
     (if x = y then Some w else if tw_objs w y = None then None else Option.bind (join_if self x rc w) (take_handle x y))"
| "th_exec mp w (Th_swap x y) =
     (case (tw_objs w x, tw_objs w y) of (Some h, Some h') \<Rightarrow> Some (w\<lparr>tw_objs := (tw_objs w)(x \<mapsto> h', y \<mapsto> h)\<rparr>) | _ \<Rightarrow> None)"
| "th_exec mp w (Th_destroy self x rc) = map_option (\<lambda>w'. w'\<lparr>tw_objs := (tw_objs w')(x := None)\<rparr>) (join_if self x rc w)"
| "th_exec mp w (Th_set_default n) = Some (w\<lparr>tw_default_stack := n\<rparr>)"

text \<open>The process before the first construction; \<open>m\<close> is the mask of the creating thread.\<close>

definition th_init :: "sigset \<Rightarrow> world" where
  "th_init m = \<lparr>tw_default_stack = push_bit 20 2, tw_counter = 0, tw_attrs = 0, tw_heap = 0, tw_mask = sig_setmask m,
     tw_threads = Map.empty, tw_objs = Map.empty\<rparr>"

section \<open>Masks\<close>

lemma start_mask_eq: "start_mask x \<longleftrightarrow> x \<notin> set unblocked_signals \<and> x \<noteq> SIGKILL \<and> x \<noteq> SIGSTOP"
  by (auto simp: start_mask_def sigdelset_def unblocked_signals_def)

lemma setmask_idem [simp]: "sig_setmask (sig_setmask m) = sig_setmask m" "sig_setmask start_mask = start_mask"
  by (auto simp: sig_setmask_def start_mask_eq fun_eq_iff)

section \<open>The launch\<close>

lemma attr_owner_cases:
  assumes "attr_owner mp a c w = (r, w')"
  obtains (bad) e where "r = Inl e" "w' = w"
  | (good) stack g where "r = Inr (stack, g)" "w' = w\<lparr>tw_attrs := tw_attrs w + 1\<rparr>"
      "compute_stack_size (case at_stack a of Some s \<Rightarrow> s | None \<Rightarrow> tw_default_stack w) stack_extra (tls_size_from (mp_query mp))
         (stack_granule (mp_query mp) (mp_page mp)) (mp_min mp) = Some stack"
      "g = (case at_guard a of Some g \<Rightarrow> g | None \<Rightarrow> default_guard_bytes)" "guard_fits stack g (page_size (mp_page mp))"
  using assms by (auto simp: attr_owner_def attr_destroy_def Let_def split: option.splits if_splits)

lemma launch_cases:
  assumes "launch mp a c w = (r, w')"
  obtains (failed) e n where "r = Inl e" "w' = w\<lparr>tw_counter := n, tw_mask := tw_mask w'\<rparr>" "tw_mask w' = tw_mask w \<or> tw_mask w' = sig_setmask (tw_mask w)"
  | (started) stack g where "r = Inr (ch_handle c)"
      "w' = w\<lparr>tw_counter := tw_counter w + 1, tw_heap := tw_heap w + 1, tw_mask := sig_setmask (tw_mask w),
              tw_threads := (tw_threads w)(ch_handle c \<mapsto> \<lparr>th_phase = Created, th_mask = sig_block (tw_mask w) start_mask,
                 th_detached = False, th_state = True, th_stack = stack, th_guard = g, th_stagger = stagger_for (tw_counter w)\<rparr>)\<rparr>"
      "compute_stack_size (case at_stack a of Some s \<Rightarrow> s | None \<Rightarrow> tw_default_stack w) stack_extra (tls_size_from (mp_query mp))
         (stack_granule (mp_query mp) (mp_page mp)) (mp_min mp) = Some stack"
      "g = (case at_guard a of Some g \<Rightarrow> g | None \<Rightarrow> default_guard_bytes)" "guard_fits stack g (page_size (mp_page mp))"
proof (cases "attr_owner mp a c w")
  case (Pair r1 w1)
  then show ?thesis
  proof (cases rule: attr_owner_cases)
    case (bad e)
    then show ?thesis using failed [of e "tw_counter w"] assms Pair by (simp add: launch_def)
  next
    case (good stack g)
    then show ?thesis
      using assms Pair failed [of _ "tw_counter w + 1"] started [of stack g]
      by (auto simp: launch_def next_stagger_def create_thread_def attr_destroy_def Let_def split: if_splits)
  qed
qed

section \<open>The invariant\<close>

definition with_state :: "(handle \<rightharpoonup> thr) \<Rightarrow> handle set" where
  "with_state T = {h. \<exists>th. T h = Some th \<and> th_state th}"

definition thr_ok :: "thr \<Rightarrow> bool" where
  "thr_ok th \<longleftrightarrow> (th_state th \<longleftrightarrow> th_phase th \<noteq> Ended) \<and> (th_detached th \<longrightarrow> th_phase th \<noteq> Ended) \<and>
     (if th_phase th = Created then \<forall>x. start_mask x \<longrightarrow> th_mask th x else th_mask th = start_mask)"

text \<open>
  Who owns what: an object with a handle owns a thread that is not detached, no two objects own the same, and every thread that
  is neither detached nor joined is owned by an object.
\<close>

definition owners :: "(oid \<rightharpoonup> handle) \<Rightarrow> (handle \<rightharpoonup> thr) \<Rightarrow> bool" where
  "owners ob T \<longleftrightarrow> (\<forall>x h. ob x = Some h \<longrightarrow> h \<noteq> 0 \<longrightarrow> (\<exists>th. T h = Some th \<and> \<not> th_detached th)) \<and>
     (\<forall>x y h. ob x = Some h \<longrightarrow> ob y = Some h \<longrightarrow> h \<noteq> 0 \<longrightarrow> x = y) \<and>
     (\<forall>h th. T h = Some th \<longrightarrow> \<not> th_detached th \<longrightarrow> h \<noteq> 0 \<longrightarrow> (\<exists>x. ob x = Some h))"

definition th_inv :: "sigset \<Rightarrow> world \<Rightarrow> bool" where
  "th_inv m w \<longleftrightarrow> tw_attrs w = 0 \<and> tw_mask w = sig_setmask m \<and> tw_threads w 0 = None \<and> finite (dom (tw_threads w)) \<and>
     tw_heap w = int (card (with_state (tw_threads w))) \<and> (\<forall>h th. tw_threads w h = Some th \<longrightarrow> thr_ok th) \<and>
     owners (tw_objs w) (tw_threads w)"

lemma with_state_finite: "finite (dom T) \<Longrightarrow> finite (with_state T)"
  by (rule finite_subset [of _ "dom T"]) (auto simp: with_state_def)

lemma with_state_upd:
  "T h = Some th \<Longrightarrow> th_state th' = th_state th \<Longrightarrow> with_state (T(h \<mapsto> th')) = with_state T"
  "T h = None \<Longrightarrow> th_state th' \<Longrightarrow> with_state (T(h \<mapsto> th')) = insert h (with_state T)"
  "\<not> th_state th' \<Longrightarrow> with_state (T(h \<mapsto> th')) = with_state T - {h}"
  "with_state (T(h := None)) = with_state T - {h}"
  by (auto simp: with_state_def)

lemma ownersI:
  assumes "\<And>x h. ob x = Some h \<Longrightarrow> h \<noteq> 0 \<Longrightarrow> \<exists>th. T h = Some th \<and> \<not> th_detached th"
    and "\<And>x y h. ob x = Some h \<Longrightarrow> ob y = Some h \<Longrightarrow> h \<noteq> 0 \<Longrightarrow> x = y"
    and "\<And>h th. T h = Some th \<Longrightarrow> \<not> th_detached th \<Longrightarrow> h \<noteq> 0 \<Longrightarrow> \<exists>x. ob x = Some h"
  shows "owners ob T"
  using assms unfolding owners_def by blast

lemma ownersD:
  assumes "owners ob T"
  shows "ob x = Some h \<Longrightarrow> h \<noteq> 0 \<Longrightarrow> \<exists>th. T h = Some th \<and> \<not> th_detached th"
    "ob x = Some h \<Longrightarrow> ob y = Some h \<Longrightarrow> h \<noteq> 0 \<Longrightarrow> x = y"
    "T h = Some th \<Longrightarrow> \<not> th_detached th \<Longrightarrow> h \<noteq> 0 \<Longrightarrow> \<exists>x. ob x = Some h"
  using assms unfolding owners_def by blast+

lemma owners_swap:
  assumes o: "owners ob T" and h: "ob x = Some h" "ob y = Some h'"
  shows "owners (ob(x \<mapsto> h', y \<mapsto> h)) T"
proof (rule ownersI)
  fix k th assume "T k = Some th" "\<not> th_detached th" "k \<noteq> 0"
  then obtain z where "ob z = Some k" using ownersD(3) [OF o] by blast
  then have "(ob(x \<mapsto> h', y \<mapsto> h)) (if z = x then y else if z = y then x else z) = Some k" using h by auto
  then show "\<exists>z. (ob(x \<mapsto> h', y \<mapsto> h)) z = Some k" by blast
qed (use h ownersD(1,2) [OF o] in \<open>auto split: if_splits\<close>)

lemma owners_empty:
  assumes o: "owners ob T" and x: "ob x = None \<or> ob x = Some 0"
  shows "owners (ob(x \<mapsto> 0)) T" "owners (ob(x := None)) T"
proof -
  have e: "\<exists>z. z \<noteq> x \<and> ob z = Some k" if "T k = Some th" "\<not> th_detached th" "k \<noteq> 0" for k th
    using ownersD(3) [OF o that] that(3) x by (metis option.distinct(1) option.inject)
  have ex: "\<exists>z. (ob(x := v)) z = Some k" if "T k = Some th" "\<not> th_detached th" "k \<noteq> 0" for k th v using e [OF that] by auto
  show "owners (ob(x \<mapsto> 0)) T" by (rule ownersI [OF _ _ ex]) (use ownersD(1,2) [OF o] in \<open>auto split: if_splits\<close>)
  show "owners (ob(x := None)) T" by (rule ownersI [OF _ _ ex]) (use ownersD(1,2) [OF o] in \<open>auto split: if_splits\<close>)
qed

lemma owners_move:
  assumes o: "owners ob T" and y: "ob y = Some h" and x: "x \<noteq> y" "ob x = None \<or> ob x = Some 0"
  shows "owners (ob(y \<mapsto> 0, x \<mapsto> h)) T"
  using owners_swap [OF owners_empty(1) [OF o x(2)], of x 0 y h] x y by (simp add: fun_upd_twist)

lemma owners_release:
  assumes o: "owners ob T" and x: "ob x = Some h" "h \<noteq> 0" and T: "\<And>k. k \<noteq> h \<Longrightarrow> T' k = T k" "\<And>th. T' h = Some th \<Longrightarrow> th_detached th"
  shows "owners (ob(x \<mapsto> 0)) T'"
proof (rule ownersI)
  fix k th assume k: "T' k = Some th" "\<not> th_detached th" "k \<noteq> 0"
  then have "k \<noteq> h" using T(2) by blast
  then obtain z where z: "ob z = Some k" using ownersD(3) [OF o, of k th] k T(1) by auto
  then have "z \<noteq> x" using x \<open>k \<noteq> h\<close> by auto
  with z
  show "\<exists>z. (ob(x \<mapsto> 0)) z = Some k" by (metis fun_upd_other)
next
  fix y k assume k: "(ob(x \<mapsto> 0)) y = Some k" "k \<noteq> 0"
  then have "ob y = Some k" "y \<noteq> x" by (auto split: if_splits)
  moreover from this have "k \<noteq> h" using ownersD(2) [OF o] x by blast
  ultimately show "\<exists>th. T' k = Some th \<and> \<not> th_detached th" using ownersD(1) [OF o] k T(1) by auto
qed (use ownersD(2) [OF o] in \<open>auto split: if_splits\<close>)

lemma owners_thread:
  assumes o: "owners ob T" and h: "T h = Some th" "th_detached th' = th_detached th"
  shows "owners ob (T(h \<mapsto> th'))"
proof (rule ownersI)
  fix x k assume "ob x = Some k" "k \<noteq> 0"
  then obtain t where "T k = Some t" "\<not> th_detached t" using ownersD(1) [OF o] by blast
  then show "\<exists>t. (T(h \<mapsto> th')) k = Some t \<and> \<not> th_detached t" using h by auto
next
  fix k t assume "(T(h \<mapsto> th')) k = Some t" "\<not> th_detached t" "k \<noteq> 0"
  then show "\<exists>x. ob x = Some k" using ownersD(3) [OF o] h by (auto split: if_splits)
qed (use ownersD(2) [OF o] in blast)

section \<open>Every action keeps the invariant\<close>

lemma inv_join:
  assumes i: "th_inv m w" and e: "do_join self x rc w = Some (r, w')"
  shows "th_inv m w'"
proof -
  obtain h where h: "tw_objs w x = Some h" using e by (auto simp: do_join_def split: option.splits)
  consider "w' = w" | "h \<noteq> 0" "join_done h w" "w' = w\<lparr>tw_threads := (tw_threads w)(h := None), tw_objs := (tw_objs w)(x \<mapsto> 0)\<rparr>"
  proof (cases "join self rc h")
    case (Inl er)
    then show ?thesis using that(1) e h by (simp add: do_join_def)
  next
    case (Inr h')
    then have "h \<noteq> 0" "h' = 0" by (auto simp: join_def joinable_def split: if_splits)
    then show ?thesis using that(2) e h Inr by (simp add: do_join_def forget_def split: if_splits)
  qed
  then show ?thesis
  proof cases
    case 2
    then obtain th where th: "tw_threads w h = Some th" "th_phase th = Ended" by (auto simp: join_done_def split: option.splits)
    have ns: "h \<notin> with_state (tw_threads w)" using i th by (auto simp: th_inv_def thr_ok_def with_state_def)
    have "owners ((tw_objs w)(x \<mapsto> 0)) ((tw_threads w)(h := None))"
      by (rule owners_release [of "tw_objs w" "tw_threads w" x h]) (use i h 2 in \<open>auto simp: th_inv_def\<close>)
    then show ?thesis using i 2 ns by (auto simp: th_inv_def with_state_upd split: if_splits)
  qed (use i in simp)
qed

lemma inv_detach:
  assumes i: "th_inv m w" and e: "do_detach x rc w = Some (r, w')"
  shows "th_inv m w'"
proof -
  obtain h where h: "tw_objs w x = Some h" using e by (auto simp: do_detach_def split: option.splits)
  let ?T = "mark_detached h (tw_threads w)"
  consider "w' = w" | "h \<noteq> 0" "w' = w\<lparr>tw_threads := ?T, tw_objs := (tw_objs w)(x \<mapsto> 0)\<rparr>"
    using e h by (auto simp: do_detach_def detach_def joinable_def split: if_splits)
  then show ?thesis
  proof cases
    case 2
    then obtain th where th: "tw_threads w h = Some th" "thr_ok th" using i h ownersD(1) [of "tw_objs w" "tw_threads w" x h] by (auto simp: th_inv_def)
    have T: "?T = (if th_phase th = Ended then (tw_threads w)(h := None) else (tw_threads w)(h \<mapsto> th\<lparr>th_detached := True\<rparr>))"
      using th by (simp add: mark_detached_def forget_def)
    have ws: "with_state ?T = with_state (tw_threads w)"
      using th by (auto simp: T with_state_def thr_ok_def)
    have "owners ((tw_objs w)(x \<mapsto> 0)) ?T"
      by (rule owners_release [of "tw_objs w" "tw_threads w" x h]) (use i h 2 T in \<open>auto simp: th_inv_def split: if_splits\<close>)
    moreover have "finite (dom ?T)" "?T 0 = None" "\<forall>k th'. ?T k = Some th' \<longrightarrow> thr_ok th'"
      using i th 2 unfolding T th_inv_def by (auto simp: thr_ok_def split: if_splits)
    ultimately show ?thesis using i 2 ws by (auto simp: th_inv_def)
  qed (use i in simp)
qed

lemma inv_join_if:
  assumes i: "th_inv m w" and e: "join_if self x rc w = Some w'"
  shows "th_inv m w' \<and> tw_objs w' x = Some 0 \<and> (\<forall>y. y \<noteq> x \<longrightarrow> tw_objs w' y = tw_objs w y)"
proof -
  obtain h where h: "tw_objs w x = Some h" using e by (auto simp: join_if_def split: option.splits)
  consider "h = 0" "w' = w" | u where "do_join self x rc w = Some (Inr u, w')"
    using e h by (auto simp: join_if_def joinable_def split: if_splits option.splits sum.splits prod.splits)
  then show ?thesis
  proof cases
    case 2
    then have "tw_objs w' = (tw_objs w)(x \<mapsto> 0)" using h by (auto simp: do_join_def join_def split: if_splits)
    then show ?thesis using inv_join [OF i 2] by simp
  qed (use i h in simp)
qed

lemma inv_launch:
  assumes i: "th_inv m w" and x: "tw_objs w x = None" and c: "ch_handle c \<noteq> 0" "tw_threads w (ch_handle c) = None" and e: "launch mp a c w = (r, w')"
  shows "th_inv m (case r of Inl _ \<Rightarrow> w' | Inr h \<Rightarrow> w'\<lparr>tw_objs := (tw_objs w')(x \<mapsto> h)\<rparr>)"
  using e
proof (cases rule: launch_cases)
  case (failed er n)
  have "tw_mask w' = tw_mask w" using failed(3) i by (auto simp: th_inv_def)
  then have "w' = w\<lparr>tw_counter := n\<rparr>" using failed(2) by simp
  then show ?thesis using i failed(1) by (simp add: th_inv_def)
next
  case (started stack g)
  let ?th = "\<lparr>th_phase = Created, th_mask = sig_block (tw_mask w) start_mask, th_detached = False, th_state = True, th_stack = stack, th_guard = g,
     th_stagger = stagger_for (tw_counter w)\<rparr>"
  let ?h = "ch_handle c" let ?T = "(tw_threads w)(?h \<mapsto> ?th)"
  have o: "owners (tw_objs w) (tw_threads w)" using i by (simp add: th_inv_def)
  have un: "tw_objs w y \<noteq> Some ?h" for y using ownersD(1) [OF o, of y ?h] c by auto
  have "owners ((tw_objs w)(x \<mapsto> ?h)) ?T"
  proof (rule ownersI)
    fix k th assume "?T k = Some th" "\<not> th_detached th" "k \<noteq> 0"
    then consider "k = ?h" | z where "tw_objs w z = Some k" using ownersD(3) [OF o, of k th] by (auto split: if_splits)
    then show "\<exists>z. ((tw_objs w)(x \<mapsto> ?h)) z = Some k" 
    proof cases
      case (2 z)
      then have "((tw_objs w)(x \<mapsto> ?h)) z = Some k" using x by auto
      then show ?thesis by blast
    qed auto
  qed (use ownersD(1,2) [OF o] un in \<open>fastforce split: if_splits\<close>)+
  moreover have "thr_ok ?th" by (auto simp: thr_ok_def sig_block_def start_mask_eq)
  moreover have "?h \<notin> with_state (tw_threads w)" "finite (with_state (tw_threads w))" using c(2) i with_state_finite by (auto simp: with_state_def th_inv_def)
  ultimately show ?thesis using i started c by (auto simp: th_inv_def with_state_upd(2))
qed

interpretation thi: machine_invariant "th_exec mp" "th_inv m" for mp m
proof
  fix w a w'
  assume i: "th_inv m w" and e: "th_exec mp w a = Some w'"
  have o: "owners (tw_objs w) (tw_threads w)" using i by (simp add: th_inv_def)
  show "th_inv m w'"
  proof (cases a)
    case (Th_default x)
    then show ?thesis using i e owners_empty(1) [OF o, of x] by (auto simp: th_inv_def split: if_splits)
  next
    case (Th_launch x at c)
    then show ?thesis using inv_launch [OF i, of x c mp at] e by (auto split: if_splits prod.splits sum.splits)
  next
    case (Th_begin h)
    then obtain th where th: "tw_threads w h = Some th" "th_phase th = Created" "w' = w\<lparr>tw_threads := (tw_threads w)(h \<mapsto> start_routine th)\<rparr>"
      using e by (auto split: option.splits if_splits)
    have "owners (tw_objs w) ((tw_threads w)(h \<mapsto> start_routine th))" by (rule owners_thread [OF o th(1)]) (simp add: start_routine_def)
    moreover have "thr_ok (start_routine th)" using i th(1,2) by (auto simp: th_inv_def thr_ok_def start_routine_def)
    moreover have "with_state ((tw_threads w)(h \<mapsto> start_routine th)) = with_state (tw_threads w)"
      by (rule with_state_upd(1) [of _ _ th]) (simp_all add: th start_routine_def)
    moreover have "h \<noteq> 0" using i th(1) unfolding th_inv_def by (metis option.distinct(1))
    ultimately show ?thesis using i th by (auto simp: th_inv_def split: if_splits)
  next
    case (Th_join self x rc)
    then show ?thesis using inv_join [OF i] e by auto
  next
    case (Th_detach x rc)
    then show ?thesis using inv_detach [OF i] e by auto
  next
    case (Th_move x y)
    then show ?thesis using i e owners_move [OF o, of y _ x] by (auto simp: th_inv_def take_handle_def split: if_splits option.splits)
  next
    case (Th_assign self x y rc)
    show ?thesis
    proof (cases "x = y")
      case False
      then obtain w1 where w1: "join_if self x rc w = Some w1" "take_handle x y w1 = Some w'"
        using e Th_assign by (auto simp: bind_eq_Some_conv split: if_splits)
      note j = inv_join_if [OF i w1(1)]
      obtain h where h: "tw_objs w1 y = Some h" "w' = w1\<lparr>tw_objs := (tw_objs w1)(y \<mapsto> 0, x \<mapsto> h)\<rparr>"
        using w1(2) by (auto simp: take_handle_def split: option.splits)
      have "owners ((tw_objs w1)(y \<mapsto> 0, x \<mapsto> h)) (tw_threads w1)"
        by (rule owners_move) (use j h False in \<open>auto simp: th_inv_def\<close>)
      then show ?thesis using j h by (simp add: th_inv_def)
    qed (use e i Th_assign in simp)
  next
    case (Th_swap x y)
    then show ?thesis using i e owners_swap [OF o] by (auto simp: th_inv_def split: option.splits)
  next
    case (Th_destroy self x rc)
    then obtain w1 where w1: "join_if self x rc w = Some w1" "w' = w1\<lparr>tw_objs := (tw_objs w1)(x := None)\<rparr>" using e by auto
    show ?thesis using inv_join_if [OF i w1(1)] owners_empty(2) [of "tw_objs w1" "tw_threads w1" x] w1(2) by (auto simp: th_inv_def)
  next
    case (Th_finish h r)
    then obtain th th' where th: "tw_threads w h = Some th" "th_phase th = Running" "finish r th = Some th'"
      and w': "w' = w\<lparr>tw_heap := tw_heap w - 1, tw_threads := (if th_detached th' then forget h (tw_threads w) else (tw_threads w)(h \<mapsto> th'))\<rparr>"
      using e by (auto split: option.splits if_splits)
    have th': "th' = th\<lparr>th_phase := Ended, th_state := False\<rparr>" using th(3) by (cases r) (auto simp: finish_def)
    let ?T = "if th_detached th' then forget h (tw_threads w) else (tw_threads w)(h \<mapsto> th')"
    have hs: "h \<in> with_state (tw_threads w)" "finite (with_state (tw_threads w))" using i th(1,2) with_state_finite by (auto simp: th_inv_def thr_ok_def with_state_def)
    have "with_state ?T = with_state (tw_threads w) - {h}" using with_state_upd(3) [of th'] by (simp add: forget_def with_state_upd(4) th')
    then have c: "int (card (with_state ?T)) = int (card (with_state (tw_threads w))) - 1"
      using card_Suc_Diff1 [OF hs(2,1)] by simp
    have "owners (tw_objs w) ?T"
    proof (rule ownersI)
      fix x k assume "tw_objs w x = Some k" "k \<noteq> 0"
      then obtain t where "tw_threads w k = Some t" "\<not> th_detached t" using ownersD(1) [OF o] by blast
      then show "\<exists>t. ?T k = Some t \<and> \<not> th_detached t" using th(1) by (auto simp: forget_def th')
    qed (use ownersD(2,3) [OF o] th(1) in \<open>auto simp: forget_def th' split: if_splits\<close>)
    moreover have "finite (dom ?T)" "?T 0 = None" "\<forall>k t. ?T k = Some t \<longrightarrow> thr_ok t"
      using i th(1,2) by (auto simp: th_inv_def forget_def th' thr_ok_def split: if_splits)
    ultimately show ?thesis using i w' c by (simp add: th_inv_def)
  qed (use i e in \<open>auto simp: th_inv_def\<close>)
qed

lemma th_init_inv: "th_inv m (th_init m)"
  by (auto simp: th_inv_def th_init_def with_state_def owners_def)

section \<open>A small execution\<close>

definition tdemo_machine :: machine where
  "tdemo_machine = \<lparr>mp_query = Some (4000, 64), mp_page = 4096, mp_min = 16384\<rparr>"

definition tdemo_ok :: choices where
  "tdemo_ok = \<lparr>ch_init = 0, ch_setstack = 0, ch_setguard = 0, ch_alloc = True, ch_copy = True, ch_create = 0, ch_handle = 7\<rparr>"

definition tdemo_plain :: attributes where
  "tdemo_plain = \<lparr>at_stack = Some 100000, at_guard = None\<rparr>"

definition tdemo_world :: world where
  "tdemo_world = (th_init (\<lambda>_. False))\<lparr>tw_counter := 1, tw_heap := 1, tw_mask := sig_setmask (\<lambda>_. False), tw_objs := [1 \<mapsto> 7],
     tw_threads := [7 \<mapsto> \<lparr>th_phase = Created, th_mask = sig_block (sig_setmask (\<lambda>_. False)) start_mask, th_detached = False, th_state = True,
       th_stack = 110592, th_guard = 1048576, th_stagger = 0\<rparr>]\<rparr>"

lemmas thread_eval = launch_def attr_owner_def next_stagger_def create_thread_def attr_destroy_def compute_stack_size_def page_round_def
  guard_fits_def tls_size_from_def tls_info_from_def tls_carve_bound_def stack_granule_def page_size_def stagger_for_def Let_def
  SIZE_MAX_def stack_extra_def max_stagger_def start_frames_allowance_def stagger_slots_def stagger_step_def default_guard_bytes_def

lemma tdemo_launch: "launch tdemo_machine tdemo_plain tdemo_ok (th_init (\<lambda>_. False)) = (Inr 7, tdemo_world\<lparr>tw_objs := Map.empty\<rparr>)"
  by (simp add: thread_eval tdemo_machine_def tdemo_plain_def tdemo_ok_def tdemo_world_def th_init_def)

lemma tdemo_run: "run (th_exec tdemo_machine) (th_init (\<lambda>_. False)) [Th_launch 1 tdemo_plain tdemo_ok] = Some tdemo_world"
  by (simp add: tdemo_launch) (simp add: tdemo_ok_def th_init_def tdemo_world_def)

section \<open>Properties\<close>

text \<open>
  C34.  A construction either starts exactly one thread or leaves nothing behind.  On every path the attribute object is destroyed
  and the creator has its own signal mask back; if the constructor throws, whichever of its steps failed, no thread was started, no heap
  state is left and no thread table entry changed; otherwise one thread with the returned handle exists, which owns the one new heap state and
  has a stack that was computed without overflow.\<close>

theorem thread_launch_clean:
  assumes "launch mp a c w = (r, w')" and "sig_setmask (tw_mask w) = tw_mask w"
  shows "tw_attrs w' = tw_attrs w \<and> tw_mask w' = tw_mask w \<and> tw_objs w' = tw_objs w \<and>
    (case r of Inl e \<Rightarrow> tw_heap w' = tw_heap w \<and> tw_threads w' = tw_threads w
     | Inr h \<Rightarrow> tw_heap w' = tw_heap w + 1 \<and> (\<exists>th. tw_threads w' = (tw_threads w)(h \<mapsto> th) \<and> th_phase th = Created \<and> th_state th \<and>
         compute_stack_size (case at_stack a of Some s \<Rightarrow> s | None \<Rightarrow> tw_default_stack w) stack_extra (tls_size_from (mp_query mp))
           (stack_granule (mp_query mp) (mp_page mp)) (mp_min mp) = Some (th_stack th) \<and>
         guard_fits (th_stack th) (th_guard th) (page_size (mp_page mp)) \<and> th_stagger th = stagger_for (tw_counter w)))"
  using assms(1)
proof (cases rule: launch_cases)
  case (failed e n)
  have "tw_mask w' = tw_mask w" using failed(3) assms(2) by auto
  moreover from this have "w' = w\<lparr>tw_counter := n\<rparr>" using failed(2) by simp
  ultimately show ?thesis using failed(1) by simp
next
  case (started stack g)
  let ?th = "\<lparr>th_phase = Created, th_mask = sig_block (tw_mask w) start_mask, th_detached = False, th_state = True, th_stack = stack, th_guard = g,
     th_stagger = stagger_for (tw_counter w)\<rparr>"
  show ?thesis using started assms(2) by (simp only: sum.case) (simp, rule exI [of _ ?th], simp)
qed

theorem thread_launch_clean_witness:
  "launch tdemo_machine tdemo_plain (tdemo_ok\<lparr>ch_create := 11\<rparr>) (th_init (\<lambda>_. False)) =
     (Inl (Sys_error 11), (th_init (\<lambda>_. False))\<lparr>tw_counter := 1\<rparr>) \<and> tw_attrs ((th_init (\<lambda>_. False))\<lparr>tw_counter := 1\<rparr>) = 0"
proof -
  have m: "sig_setmask (tw_mask (th_init (\<lambda>_. False))) = tw_mask (th_init (\<lambda>_. False))" by (simp add: th_init_def)
  have l: "launch tdemo_machine tdemo_plain (tdemo_ok\<lparr>ch_create := 11\<rparr>) (th_init (\<lambda>_. False)) =
     (Inl (Sys_error 11), (th_init (\<lambda>_. False))\<lparr>tw_counter := 1\<rparr>)"
    by (simp add: thread_eval tdemo_machine_def tdemo_plain_def tdemo_ok_def th_init_def)
  from thread_launch_clean [OF l m] l show ?thesis by (simp add: th_init_def)
qed

text \<open>
  C35.  Threads are neither lost nor joined twice.  After any sequence of constructions, moves, assignments, swaps, joins, detachments and
  destructions: every object that is joinable owns a thread that exists and is not detached, no two objects own the same thread, every
  thread that is not detached is owned by an object (so it will be joined), no attribute object is left, and the heap
  states alive are exactly those of the threads that have not ended.\<close>

theorem thread_ownership:
  assumes "run (th_exec mp) (th_init m) as = Some w"
  shows "owners (tw_objs w) (tw_threads w) \<and> tw_attrs w = 0 \<and>
    tw_heap w = int (card {h. \<exists>th. tw_threads w h = Some th \<and> th_phase th \<noteq> Ended})"
proof -
  have i: "th_inv m w" by (rule thi.run_Inv [OF th_init_inv assms])
  then have "with_state (tw_threads w) = {h. \<exists>th. tw_threads w h = Some th \<and> th_phase th \<noteq> Ended}"
    by (auto simp: th_inv_def thr_ok_def with_state_def)
  then show ?thesis using i by (simp add: th_inv_def)
qed

theorem thread_ownership_witness: "owners (tw_objs tdemo_world) (tw_threads tdemo_world) \<and> tw_attrs tdemo_world = 0"
  using thread_ownership [OF tdemo_run] by blast

text \<open>
  A thread never runs with a foreign signal mask: from its creation on it blocks every signal except the seven of
  \<open>unblocked_signals\<close> (and the two that cannot be blocked), from its first action on its mask is exactly that one, whatever the mask of its
  creator, and the creator's own mask is unchanged at the end of every action.\<close>

theorem thread_start_mask:
  assumes "run (th_exec mp) (th_init m) as = Some w" and "tw_threads w h = Some th"
  shows "(\<forall>x. x \<notin> set unblocked_signals \<longrightarrow> x \<noteq> SIGKILL \<longrightarrow> x \<noteq> SIGSTOP \<longrightarrow> th_mask th x) \<and>
    (th_phase th \<noteq> Created \<longrightarrow> (\<forall>x. th_mask th x \<longleftrightarrow> x \<notin> set unblocked_signals \<and> x \<noteq> SIGKILL \<and> x \<noteq> SIGSTOP)) \<and>
    tw_mask w = sig_setmask m"
proof -
  have i: "th_inv m w" by (rule thi.run_Inv [OF th_init_inv assms(1)])
  then have "thr_ok th" using assms(2) by (auto simp: th_inv_def)
  then show ?thesis using i start_mask_eq by (auto simp: thr_ok_def th_inv_def split: if_splits)
qed

theorem thread_start_mask_witness:
  "\<exists>th. tw_threads tdemo_world 7 = Some th \<and> th_mask th (Other_signal 2)"
proof -
  obtain th where th: "tw_threads tdemo_world 7 = Some th" by (simp add: tdemo_world_def)
  from thread_start_mask [OF tdemo_run th] th show ?thesis by (auto simp: unblocked_signals_def)
qed

text \<open>
  Destroying a \<open>Thread\<close> object never leaves its thread running.  The destructor returns only if the object owned no thread, or owned
  another thread than the caller that has ended and is now joined; every other case ends the process or waits.  Move assignment does the
  same to the thread of its target before it takes over the source's thread, and leaves the source empty.\<close>

theorem thread_destroy_joins:
  assumes "run (th_exec mp) (th_init m) as = Some w" and "tw_objs w x = Some h"
  shows "(th_exec mp w (Th_destroy self x rc) = Some w' \<longrightarrow> tw_objs w' x = None \<and>
      (h \<noteq> 0 \<longrightarrow> h \<noteq> self \<and> (\<exists>th. tw_threads w h = Some th \<and> th_phase th = Ended) \<and> tw_threads w' h = None)) \<and>
    (th_exec mp w (Th_assign self x y rc) = Some w' \<longrightarrow> x \<noteq> y \<longrightarrow> tw_objs w' x = tw_objs w y \<and> tw_objs w' y = Some 0 \<and>
      (h \<noteq> 0 \<longrightarrow> h \<noteq> self \<and> (\<exists>th. tw_threads w h = Some th \<and> th_phase th = Ended) \<and> tw_threads w' h = None))"
proof -
  have j: "h \<noteq> self \<and> (\<exists>th. tw_threads w h = Some th \<and> th_phase th = Ended) \<and> tw_threads w1 h = None"
    if "join_if self x rc w = Some w1" "h \<noteq> 0" for w1
    using that assms(2) by (auto simp: join_if_def do_join_def join_def joinable_def join_done_def forget_def split: if_splits option.splits)
  have i: "th_inv m w" by (rule thi.run_Inv [OF th_init_inv assms(1)])
  have "tw_objs w1 y = tw_objs w y" if "join_if self x rc w = Some w1" "x \<noteq> y" for w1 using inv_join_if [OF i that(1)] that(2) by auto
  note keep = this
  have d: "tw_objs w' x = None \<and> (h \<noteq> 0 \<longrightarrow> h \<noteq> self \<and> (\<exists>th. tw_threads w h = Some th \<and> th_phase th = Ended) \<and> tw_threads w' h = None)"
    if "th_exec mp w (Th_destroy self x rc) = Some w'"
    using that j by (cases "join_if self x rc w") auto
  have "tw_objs w' x = tw_objs w y \<and> tw_objs w' y = Some 0 \<and>
      (h \<noteq> 0 \<longrightarrow> h \<noteq> self \<and> (\<exists>th. tw_threads w h = Some th \<and> th_phase th = Ended) \<and> tw_threads w' h = None)"
    if e: "th_exec mp w (Th_assign self x y rc) = Some w'" "x \<noteq> y"
  proof -
    obtain w1 where w1: "join_if self x rc w = Some w1" "take_handle x y w1 = Some w'"
      using e by (auto simp: bind_eq_Some_conv split: if_splits)
    then obtain k where "tw_objs w1 y = Some k" "w' = w1\<lparr>tw_objs := (tw_objs w1)(y \<mapsto> 0, x \<mapsto> k)\<rparr>"
      by (auto simp: take_handle_def split: option.splits)
    then show ?thesis using j [OF w1(1)] keep [OF w1(1) e(2)] e(2) by simp
  qed
  with d show ?thesis by blast
qed

theorem thread_destroy_joins_witness: "th_exec tdemo_machine tdemo_world (Th_destroy 0 1 0) = None"
proof -
  have o: "tw_objs tdemo_world 1 = Some 7" by (simp add: tdemo_world_def)
  have "tw_threads tdemo_world 7 \<noteq> None" "\<forall>th. tw_threads tdemo_world 7 = Some th \<longrightarrow> th_phase th = Created" by (simp_all add: tdemo_world_def)
  then show ?thesis using thread_destroy_joins [OF tdemo_run o, of 0 0] by (metis not_Some_eq phase.distinct(3) zero_neq_numeral)
qed

end
