(* ===== verification/Rcu_List.thy ===== *)
theory Rcu_List
  imports Lock_Free_List
begin

text \<open>
  \<open>LockFreeListRCU\<close> (\<^verbatim>\<open>LockFreeListRCU/lock_free_list_rcu.h\<close>): the forward list with generations, handles and reclamation, as a machine of any
  number of threads.  Nodes are reused here, so an address says nothing about the lifetime of what is stored at it: a node has a value, a
  \<open>next\<close> word and a \<open>retire_link\<close>, and its value is absent while the storage is raw.  Every step performs one access to a shared word; the
  plain fields that only the holder of \<open>reclaiming_\<close> touches are accessed together with a shared word.  The \<open>incarnation\<close> of the debug
  build, which counts the times a node was taken from the free list, is kept.

  The debug assertions of the source are part of the model: where one would fail, no step is possible.  An access to a node
  that does not exist, and an access to a value that is not constructed, are not possible either.

  The contract with the user is a guard of the actions: a handle is refreshed, moved or destroyed only when no operation uses it, and an operation
  takes an iterator that was obtained under the current session of its handle.  The nodes on which such iterators are parked are kept
  with the handle.
\<close>

section \<open>State\<close>

type_synonym hid = nat

record 'a rnode =
  rn_value :: "'a option"
  rn_next :: lword
  rn_link :: "addr option"
  rn_inc :: "32 word"

text \<open>An iterator: the node it is on and the incarnation of the node when it was obtained.\<close>

type_synonym riter = "addr \<times> 32 word"

datatype gen_state = G_empty | G_current | G_sealed

text \<open>A generation number is only compared by the accounting sweep; it is not bounded here.\<close>

record block =
  gb_refs :: int
  gb_bag :: "addr option"
  gb_state :: gen_state
  gb_gen :: nat

datatype advance_kind = Nothing_retired | Advanced | Ring_full | Contended

record reclaim_result =
  rr_nodes :: nat
  rr_bags :: nat
  rr_advance :: advance_kind

datatype rl_res = Res_handle | Res_refresh bool | Res_insert bool | Res_erase bool | Res_bad_alloc | Res_reclaim reclaim_result

text \<open>Where \<open>join\<close> returns to: \<open>new_handle\<close> or \<open>refresh\<close>.\<close>

datatype jctx = J_new hid | J_refresh hid

datatype join_pc = Jn_load jctx | Jn_bump jctx nat | Jn_check jctx nat | Jn_undo jctx nat

datatype refresh_pc = Rf_load hid | Rf_leave hid nat

text \<open>\<open>init_node\<close>: the handle, the anchor, then the value, or the node and whether it came from the free list.\<close>

datatype 'a init_pc =
    Al_head hid addr 'a | Al_link hid addr 'a addr | Al_cas hid addr 'a addr "addr option" | Al_new hid addr 'a
  | In_load hid addr addr bool | In_store hid addr addr bool lword | In_cas hid addr addr bool lword
  | In_dispose hid addr | In_delete hid addr

datatype rerase_pc = Rx_load hid addr | Rx_next hid addr addr | Rx_mark hid addr addr lword | Rx_unlink hid addr addr lword bool

text \<open>Where \<open>retire\<close> returns to: \<open>init_node\<close> after a disposal, or \<open>erase_after\<close> with its anchor and \<open>marked_by_us\<close>.\<close>

datatype retire_ctx = K_init hid | K_erase hid addr bool

datatype retire_pc = Rt_load retire_ctx addr | Rt_store retire_ctx addr "addr option" | Rt_cas retire_ctx addr "addr option"

text \<open>Where \<open>free_oldest\<close> returns to: \<open>advance\<close>, or the end of \<open>reclaim\<close> with the result of \<open>advance\<close>.\<close>

datatype free_ctx = F_advance | F_final advance_kind

datatype reclaim_pc =
    Rc_flag | Rc_retired | Rc_next | Rc_exchange nat nat | Rc_publish nat nat addr | Rc_exit reclaim_result
  | Fp_refs free_ctx nat nat
  | Fp_walk free_ctx nat nat "addr option" "addr option" nat
  | Fp_store free_ctx nat nat "addr option" nat "addr option"
  | Fp_cas free_ctx nat nat "addr option" nat "addr option"

datatype 'a rl_pc =
    Rl_rest
  | Rl_done rl_res
  | Join join_pc
  | Refresh refresh_pc
  | Init "'a init_pc"
  | Erase_after rerase_pc
  | Retire retire_pc
  | Reclaim reclaim_pc

text \<open>
  \<open>rl_handles\<close> gives the block of a live handle, \<open>rl_iters\<close> the nodes on which iterators of its session are parked; \<open>rl_did\<close> is a
  history variable: the operations on the list that a thread has performed in its current or last call.
\<close>

record 'a rcu =
  rl_nodes :: "addr \<rightharpoonup> 'a rnode"
  rl_ring :: "block list"
  rl_current :: nat
  rl_reclaiming :: bool
  rl_oldest :: nat
  rl_retired :: "addr option"
  rl_free :: "addr option"
  rl_allocated :: int
  rl_handles :: "hid \<rightharpoonup> nat"
  rl_iters :: "hid \<Rightarrow> riter list"
  rl_threads :: "tid list"
  rl_pcs :: "tid \<Rightarrow> 'a rl_pc"
  rl_did :: "tid \<Rightarrow> list_op list"

definition rl_head :: addr where "rl_head = 0"

definition rl_to :: "tid \<Rightarrow> 'a rl_pc \<Rightarrow> 'a rcu \<Rightarrow> 'a rcu" where
  "rl_to t p s = s\<lparr>rl_pcs := (rl_pcs s)(t := p)\<rparr>"

definition rl_next :: "'a rcu \<Rightarrow> addr \<Rightarrow> lword option" where
  "rl_next s a = map_option rn_next (rl_nodes s a)"

definition set_next :: "addr \<Rightarrow> lword \<Rightarrow> 'a rcu \<Rightarrow> 'a rcu" where
  "set_next a w s = s\<lparr>rl_nodes := (rl_nodes s)(a := map_option (\<lambda>n. n\<lparr>rn_next := w\<rparr>) (rl_nodes s a))\<rparr>"

definition set_rlink :: "addr \<Rightarrow> addr option \<Rightarrow> 'a rcu \<Rightarrow> 'a rcu" where
  "set_rlink a p s = s\<lparr>rl_nodes := (rl_nodes s)(a := map_option (\<lambda>n. n\<lparr>rn_link := p\<rparr>) (rl_nodes s a))\<rparr>"

definition bump_inc :: "addr \<Rightarrow> 'a rcu \<Rightarrow> 'a rcu" where
  "bump_inc a s = s\<lparr>rl_nodes := (rl_nodes s)(a := map_option (\<lambda>n. n\<lparr>rn_inc := rn_inc n + 1\<rparr>) (rl_nodes s a))\<rparr>"

definition set_val :: "addr \<Rightarrow> 'a option \<Rightarrow> 'a rcu \<Rightarrow> 'a rcu" where
  "set_val a v s = s\<lparr>rl_nodes := (rl_nodes s)(a := map_option (\<lambda>n. n\<lparr>rn_value := v\<rparr>) (rl_nodes s a))\<rparr>"

definition set_block :: "nat \<Rightarrow> block \<Rightarrow> 'a rcu \<Rightarrow> 'a rcu" where
  "set_block b B s = s\<lparr>rl_ring := (rl_ring s)[b := B]\<rparr>"

definition add_refs :: "nat \<Rightarrow> int \<Rightarrow> 'a rcu \<Rightarrow> 'a rcu" where
  "add_refs b d s = set_block b ((rl_ring s ! b)\<lparr>gb_refs := gb_refs (rl_ring s ! b) + d\<rparr>) s"

section \<open>Construction\<close>

definition rl_construct :: "nat \<Rightarrow> 'a rcu" where
  "rl_construct kGenerations =
     \<lparr>rl_nodes = [rl_head \<mapsto> \<lparr>rn_value = None, rn_next = (None, False), rn_link = None, rn_inc = 0\<rparr>],
      rl_ring = (replicate kGenerations \<lparr>gb_refs = 0, gb_bag = None, gb_state = G_empty, gb_gen = 0\<rparr>)
        [0 := \<lparr>gb_refs = 0, gb_bag = None, gb_state = G_current, gb_gen = 0\<rparr>],
      rl_current = 0, rl_reclaiming = False, rl_oldest = 0, rl_retired = None, rl_free = None, rl_allocated = 0,
      rl_handles = Map.empty, rl_iters = (\<lambda>_. []), rl_threads = [], rl_pcs = (\<lambda>_. Rl_rest), rl_did = (\<lambda>_. [])\<rparr>"

section \<open>Joining and leaving a generation\<close>

text \<open>\<open>leave\<close>, and the undo of a stale increment; the count is asserted to be positive.\<close>

definition leave :: "nat \<Rightarrow> 'a rcu \<Rightarrow> 'a rcu option" where
  "leave b s = (if gb_refs (rl_ring s ! b) > 0 then Some (add_refs b (- 1) s) else None)"

primrec join_return :: "tid \<Rightarrow> jctx \<Rightarrow> nat \<Rightarrow> 'a rcu \<Rightarrow> 'a rcu" where
  "join_return t (J_new h) b s =
     rl_to t (Rl_done Res_handle) (s\<lparr>rl_handles := (rl_handles s)(h \<mapsto> b), rl_iters := (rl_iters s)(h := [])\<rparr>)"
| "join_return t (J_refresh h) b s = rl_to t (Refresh (Rf_leave h b)) s"

primrec join_step :: "tid \<Rightarrow> join_pc \<Rightarrow> 'a rcu \<Rightarrow> 'a rcu option" where
  "join_step t (Jn_load c) s = Some (rl_to t (Join (Jn_bump c (rl_current s))) s)"
| "join_step t (Jn_bump c b) s = Some (rl_to t (Join (Jn_check c b)) (add_refs b 1 s))"
| "join_step t (Jn_check c b) s =
     (if rl_current s = b then Some (join_return t c b s) else Some (rl_to t (Join (Jn_undo c b)) s))"
| "join_step t (Jn_undo c b) s = map_option (rl_to t (Join (Jn_load c))) (leave b s)"

primrec refresh_step :: "tid \<Rightarrow> refresh_pc \<Rightarrow> 'a rcu \<Rightarrow> 'a rcu option" where
  "refresh_step t (Rf_load h) s =
     (if Some (rl_current s) = rl_handles s h then Some (rl_to t (Rl_done (Res_refresh False)) s)
      else Some (rl_to t (Join (Jn_load (J_refresh h))) s))"
| "refresh_step t (Rf_leave h joined) s =
     (case rl_handles s h of None \<Rightarrow> None
      | Some b \<Rightarrow> map_option (\<lambda>s'. rl_to t (Rl_done (Res_refresh True)) (s'\<lparr>rl_handles := (rl_handles s')(h \<mapsto> joined)\<rparr>)) (leave b s))"

section \<open>Retiring a node\<close>

primrec retire_return :: "retire_ctx \<Rightarrow> 'a rl_pc" where
  "retire_return (K_init h) = Rl_done (Res_insert False)"
| "retire_return (K_erase h a marked_by_us) = (if marked_by_us then Rl_done (Res_erase True) else Erase_after (Rx_load h a))"

text \<open>A retired node is asserted to be marked.\<close>

primrec retire_step :: "tid \<Rightarrow> retire_pc \<Rightarrow> 'a rcu \<Rightarrow> 'a rcu option" where
  "retire_step t (Rt_load k n) s =
     (case rl_next s n of None \<Rightarrow> None
      | Some w \<Rightarrow> if is_marked w then Some (rl_to t (Retire (Rt_store k n (rl_retired s))) s) else None)"
| "retire_step t (Rt_store k n hd0) s =
     (if rl_nodes s n = None then None else Some (rl_to t (Retire (Rt_cas k n hd0)) (set_rlink n hd0 s)))"
| "retire_step t (Rt_cas k n hd0) s =
     (if rl_retired s = hd0 then Some (rl_to t (retire_return k) (s\<lparr>rl_retired := Some n\<rparr>))
      else Some (rl_to t (Retire (Rt_store k n (rl_retired s))) s))"

section \<open>\<open>insert_after\<close> and \<open>emplace_after\<close>\<close>

definition pop_head :: "hid \<Rightarrow> addr \<Rightarrow> 'a \<Rightarrow> addr option \<Rightarrow> 'a rl_pc" where
  "pop_head h a v head = Init (case head of None \<Rightarrow> Al_new h a v | Some hd0 \<Rightarrow> Al_link h a v hd0)"

primrec init_step :: "tid \<Rightarrow> 'a init_pc \<Rightarrow> 'a rcu \<Rightarrow> 'a rcu option" where
  "init_step t (Al_head h a v) s = Some (rl_to t (pop_head h a v (rl_free s)) s)"
| "init_step t (Al_link h a v hd0) s =
     (case rl_nodes s hd0 of None \<Rightarrow> None | Some n \<Rightarrow> Some (rl_to t (Init (Al_cas h a v hd0 (rn_link n))) s))"
| "init_step t (Al_cas h a v hd0 nx) s =
     (if rl_free s = Some hd0
      then if rl_nodes s hd0 = None then None
        else Some (rl_to t (Init (In_load h a hd0 True)) (set_val hd0 (Some v) (bump_inc hd0 (s\<lparr>rl_free := nx\<rparr>))))
      else Some (rl_to t (pop_head h a v (rl_free s)) s))"
| "init_step t (Al_new h a v) s = None"
| "init_step t (In_load h a n popped) s =
     (case rl_next s a of None \<Rightarrow> None
      | Some expected_next \<Rightarrow>
          if is_marked expected_next then Some (rl_to t (Init (if popped then In_dispose h n else In_delete h n)) s)
          else Some (rl_to t (Init (In_store h a n popped expected_next)) s))"
| "init_step t (In_store h a n popped expected_next) s =
     (if rl_nodes s n = None then None
      else Some (rl_to t (Init (In_cas h a n popped expected_next)) (set_next n expected_next s)))"
| "init_step t (In_cas h a n popped expected_next) s =
     (case rl_next s a of None \<Rightarrow> None
      | Some w \<Rightarrow>
          if w = expected_next
          then Some (rl_to t (Rl_done (Res_insert True)) ((set_next a (Some n, False) s)\<lparr>rl_did := (rl_did s)(t := rl_did s t @ [Link t a n])\<rparr>))
          else Some (rl_to t (Init (In_load h a n popped)) s))"
| "init_step t (In_dispose h n) s =
     (if rl_nodes s n = None then None
      else Some (rl_to t (Retire (Rt_load (K_init h) n)) (set_next n (set_mark (None, False)) s)))"
| "init_step t (In_delete h n) s =
     (case rl_nodes s n of None \<Rightarrow> None
      | Some nd \<Rightarrow> if rn_value nd = None then None
          else Some (rl_to t (Rl_done (Res_insert False)) (s\<lparr>rl_nodes := (rl_nodes s)(n := None), rl_allocated := rl_allocated s - 1\<rparr>)))"

text \<open>\<^verbatim>\<open>new Node\<close> at an address the environment chooses, with the value constructed in it.\<close>

definition new_step :: "tid \<Rightarrow> addr \<Rightarrow> 'a rcu \<Rightarrow> 'a rcu option" where
  "new_step t x s = (case rl_pcs s t of
       Init (Al_new h a v) \<Rightarrow>
         if rl_nodes s x = None
         then Some (rl_to t (Init (In_load h a x False))
                (s\<lparr>rl_nodes := (rl_nodes s)(x \<mapsto> \<lparr>rn_value = Some v, rn_next = (None, False), rn_link = None, rn_inc = 0\<rparr>),
                   rl_allocated := rl_allocated s + 1\<rparr>))
         else None
     | _ \<Rightarrow> None)"

section \<open>\<open>erase_after\<close>\<close>

primrec rerase_step :: "tid \<Rightarrow> rerase_pc \<Rightarrow> 'a rcu \<Rightarrow> 'a rcu option" where
  "rerase_step t (Rx_load h a) s =
     (case rl_next s a of None \<Rightarrow> None
      | Some target \<Rightarrow> (case target of
            (Some x, False) \<Rightarrow> Some (rl_to t (Erase_after (Rx_next h a x)) s)
          | _ \<Rightarrow> Some (rl_to t (Rl_done (Res_erase False)) s)))"
| "rerase_step t (Rx_next h a x) s =
     (case rl_next s x of None \<Rightarrow> None
      | Some target_next \<Rightarrow> Some (rl_to t (Erase_after (if is_marked target_next then Rx_unlink h a x target_next False else Rx_mark h a x target_next)) s))"
| "rerase_step t (Rx_mark h a x target_next) s =
     (case rl_next s x of None \<Rightarrow> None
      | Some w \<Rightarrow>
          if w = target_next
          then Some (rl_to t (Erase_after (Rx_unlink h a x (set_mark target_next) True))
                 ((set_next x (set_mark target_next) s)\<lparr>rl_did := (rl_did s)(t := rl_did s t @ [Unlink t x])\<rparr>))
          else Some (rl_to t (Erase_after (if is_marked w then Rx_unlink h a x w False else Rx_mark h a x w)) s))"
| "rerase_step t (Rx_unlink h a x target_next marked_by_us) s =
     (case rl_next s a of None \<Rightarrow> None
      | Some w \<Rightarrow>
          if w = (Some x, False)
          then Some (rl_to t (Retire (Rt_load (K_erase h a marked_by_us) x)) (set_next a (get_unmarked target_next) s))
          else Some (rl_to t (if marked_by_us then Rl_done (Res_erase True) else Erase_after (Rx_load h a)) s))"

section \<open>\<open>reclaim\<close>\<close>

definition next_slot :: "'a rcu \<Rightarrow> nat" where
  "next_slot s = (rl_current s + 1) mod length (rl_ring s)"

text \<open>The end of a pass of \<open>free_oldest\<close>; inside \<open>advance\<close> the next slot is looked at again.\<close>

primrec free_return :: "free_ctx \<Rightarrow> nat \<Rightarrow> nat \<Rightarrow> 'a rcu \<Rightarrow> reclaim_pc" where
  "free_return F_advance nodes bags s =
     (if gb_state (rl_ring s ! next_slot s) \<noteq> G_empty then Fp_refs (F_final Ring_full) nodes bags else Rc_exchange nodes bags)"
| "free_return (F_final adv) nodes bags s = Rc_exit \<lparr>rr_nodes = nodes, rr_bags = bags, rr_advance = adv\<rparr>"

primrec reclaim_step :: "tid \<Rightarrow> reclaim_pc \<Rightarrow> 'a rcu \<Rightarrow> 'a rcu option" where
  "reclaim_step t Rc_flag s =
     (if rl_reclaiming s then Some (rl_to t (Rl_done (Res_reclaim \<lparr>rr_nodes = 0, rr_bags = 0, rr_advance = Contended\<rparr>)) s)
      else Some (rl_to t (Reclaim Rc_retired) (s\<lparr>rl_reclaiming := True\<rparr>)))"
| "reclaim_step t Rc_retired s =
     Some (rl_to t (Reclaim (if rl_retired s = None then Fp_refs (F_final Nothing_retired) 0 0 else Rc_next)) s)"
| "reclaim_step t Rc_next s =
     Some (rl_to t (Reclaim (if gb_state (rl_ring s ! next_slot s) \<noteq> G_empty then Fp_refs F_advance 0 0 else Rc_exchange 0 0)) s)"
| "reclaim_step t (Rc_exchange nodes bags) s =
     (case rl_retired s of
        None \<Rightarrow> Some (rl_to t (Reclaim (Fp_refs (F_final Nothing_retired) nodes bags)) s)
      | Some chain \<Rightarrow>
          if gb_state (rl_ring s ! rl_current s) = G_current \<and> gb_state (rl_ring s ! next_slot s) = G_empty
          then Some (rl_to t (Reclaim (Rc_publish nodes bags chain)) (s\<lparr>rl_retired := None\<rparr>))
          else None)"
| "reclaim_step t (Rc_publish nodes bags chain) s =
     (let closing = rl_ring s ! rl_current s; next = rl_ring s ! next_slot s;
          s1 = set_block (rl_current s) (closing\<lparr>gb_bag := Some chain, gb_state := G_sealed\<rparr>) s;
          s2 = set_block (next_slot s) (next\<lparr>gb_state := G_current, gb_gen := gb_gen closing + 1\<rparr>) s1 in
      Some (rl_to t (Reclaim (Fp_refs (F_final Advanced) nodes bags)) (s2\<lparr>rl_current := next_slot s\<rparr>)))"
| "reclaim_step t (Fp_refs k nodes bags) s =
     (let B = rl_ring s ! rl_oldest s in
      Some (rl_to t (Reclaim (if gb_state B \<noteq> G_sealed \<or> gb_refs B \<noteq> 0 then free_return k nodes bags s
                              else Fp_walk k nodes bags (gb_bag B) None 0)) s))"
| "reclaim_step t (Fp_walk k nodes bags p tail count) s =
     (case p of
        None \<Rightarrow> Some (rl_to t (Reclaim (Fp_store k nodes bags tail count (rl_free s))) s)
      | Some a \<Rightarrow> (case rl_nodes s a of None \<Rightarrow> None
          | Some n \<Rightarrow>
              if is_marked (rn_next n) \<and> rn_value n \<noteq> None
              then Some (rl_to t (Reclaim (Fp_walk k nodes bags (rn_link n) (Some a) (count + 1))) (set_val a None s))
              else None))"
| "reclaim_step t (Fp_store k nodes bags tail count head) s =
     (case tail of None \<Rightarrow> None
      | Some a \<Rightarrow> if rl_nodes s a = None then None
          else Some (rl_to t (Reclaim (Fp_cas k nodes bags tail count head)) (set_rlink a head s)))"
| "reclaim_step t (Fp_cas k nodes bags tail count head) s =
     (let B = rl_ring s ! rl_oldest s in
      if rl_free s = head
      then Some (rl_to t (Reclaim (Fp_refs k (nodes + count) (bags + 1)))
             ((set_block (rl_oldest s) (B\<lparr>gb_bag := None, gb_state := G_empty\<rparr>) s)
                \<lparr>rl_free := gb_bag B, rl_oldest := (rl_oldest s + 1) mod length (rl_ring s)\<rparr>))
      else Some (rl_to t (Reclaim (Fp_store k nodes bags tail count (rl_free s))) s))"
| "reclaim_step t (Rc_exit r) s = Some (rl_to t (Rl_done (Res_reclaim r)) (s\<lparr>rl_reclaiming := False\<rparr>))"

section \<open>The machine\<close>

fun rl_step :: "tid \<Rightarrow> 'a rl_pc \<Rightarrow> 'a rcu \<Rightarrow> 'a rcu option" where
  "rl_step t (Join p) s = join_step t p s"
| "rl_step t (Refresh p) s = refresh_step t p s"
| "rl_step t (Init p) s = init_step t p s"
| "rl_step t (Erase_after p) s = rerase_step t p s"
| "rl_step t (Retire p) s = retire_step t p s"
| "rl_step t (Reclaim p) s = reclaim_step t p s"
| "rl_step t _ s = None"

text \<open>Spurious failures of the weak compare-exchanges.\<close>

definition rl_weak :: "tid \<Rightarrow> 'a rl_pc \<Rightarrow> 'a rcu \<Rightarrow> 'a rcu option" where
  "rl_weak t p s = (case p of
       Retire (Rt_cas k n hd0) \<Rightarrow> Some (rl_to t (Retire (Rt_store k n (rl_retired s))) s)
     | Init (Al_cas h a v hd0 nx) \<Rightarrow> Some (rl_to t (pop_head h a v (rl_free s)) s)
     | Reclaim (Fp_cas k nodes bags tail count head) \<Rightarrow> Some (rl_to t (Reclaim (Fp_store k nodes bags tail count (rl_free s))) s)
     | _ \<Rightarrow> None)"

fun rl_at_rest :: "'a rl_pc \<Rightarrow> bool" where
  "rl_at_rest Rl_rest = True"
| "rl_at_rest (Rl_done r) = True"
| "rl_at_rest _ = False"

primrec jctx_handle :: "jctx \<Rightarrow> hid" where
  "jctx_handle (J_new h) = h"
| "jctx_handle (J_refresh h) = h"

primrec join_ctx :: "join_pc \<Rightarrow> jctx" where
  "join_ctx (Jn_load c) = c"
| "join_ctx (Jn_bump c b) = c"
| "join_ctx (Jn_check c b) = c"
| "join_ctx (Jn_undo c b) = c"

primrec init_handle :: "'a init_pc \<Rightarrow> hid" where
  "init_handle (Al_head h a v) = h"
| "init_handle (Al_link h a v hd0) = h"
| "init_handle (Al_cas h a v hd0 nx) = h"
| "init_handle (Al_new h a v) = h"
| "init_handle (In_load h a n p) = h"
| "init_handle (In_store h a n p e) = h"
| "init_handle (In_cas h a n p e) = h"
| "init_handle (In_dispose h n) = h"
| "init_handle (In_delete h n) = h"

primrec rerase_handle :: "rerase_pc \<Rightarrow> hid" where
  "rerase_handle (Rx_load h a) = h"
| "rerase_handle (Rx_next h a x) = h"
| "rerase_handle (Rx_mark h a x w) = h"
| "rerase_handle (Rx_unlink h a x w b) = h"

primrec ctx_handle :: "retire_ctx \<Rightarrow> hid" where
  "ctx_handle (K_init h) = h"
| "ctx_handle (K_erase h a b) = h"

primrec retire_ctx_of :: "retire_pc \<Rightarrow> retire_ctx" where
  "retire_ctx_of (Rt_load k n) = k"
| "retire_ctx_of (Rt_store k n hd0) = k"
| "retire_ctx_of (Rt_cas k n hd0) = k"

text \<open>The handle a call uses, and the handle it uses alone (one that is being created or refreshed).\<close>

fun uses :: "'a rl_pc \<Rightarrow> hid option" where
  "uses (Init p) = Some (init_handle p)"
| "uses (Erase_after p) = Some (rerase_handle p)"
| "uses (Retire p) = Some (ctx_handle (retire_ctx_of p))"
| "uses _ = None"

fun claims :: "'a rl_pc \<Rightarrow> hid option" where
  "claims (Join p) = Some (jctx_handle (join_ctx p))"
| "claims (Refresh (Rf_load h)) = Some h"
| "claims (Refresh (Rf_leave h b)) = Some h"
| "claims _ = None"

definition unclaimed :: "hid \<Rightarrow> 'a rcu \<Rightarrow> bool" where
  "unclaimed h s \<longleftrightarrow> list_all (\<lambda>t. claims (rl_pcs s t) \<noteq> Some h) (rl_threads s)"

definition unused :: "hid \<Rightarrow> 'a rcu \<Rightarrow> bool" where
  "unused h s \<longleftrightarrow> list_all (\<lambda>t. claims (rl_pcs s t) \<noteq> Some h \<and> uses (rl_pcs s t) \<noteq> Some h) (rl_threads s)"

datatype 'a rl_act =
    Rl_new_handle tid hid
  | Rl_refresh tid hid
  | Rl_drop hid
  | Rl_move hid hid
  | Rl_swap hid hid
  | Rl_inc hid riter
  | Rl_insert tid hid "riter option" 'a
  | Rl_erase tid hid "riter option"
  | Rl_reclaim tid
  | Rl_step tid
  | Rl_spurious tid
  | Rl_new tid addr
  | Rl_no_memory tid

definition rl_call :: "tid \<Rightarrow> 'a rl_pc \<Rightarrow> 'a rcu \<Rightarrow> 'a rcu option" where
  "rl_call t p s = (if rl_at_rest (rl_pcs s t)
     then Some (rl_to t p (s\<lparr>rl_threads := List.insert t (rl_threads s), rl_did := (rl_did s)(t := [])\<rparr>)) else None)"

text \<open>The destructor of a handle, and what a move assignment does to its target first.\<close>

definition drop_handle :: "hid \<Rightarrow> 'a rcu \<Rightarrow> 'a rcu option" where
  "drop_handle h s = (case rl_handles s h of None \<Rightarrow> Some s
     | Some b \<Rightarrow> map_option (\<lambda>s'. s'\<lparr>rl_handles := (rl_handles s')(h := None), rl_iters := (rl_iters s')(h := [])\<rparr>) (leave b s))"

definition give_handle :: "hid \<Rightarrow> hid \<Rightarrow> 'a rcu \<Rightarrow> 'a rcu" where
  "give_handle h g s = s\<lparr>rl_handles := (rl_handles s)(h := rl_handles s g, g := None),
     rl_iters := (rl_iters s)(h := rl_iters s g, g := [])\<rparr>"

definition swap_handles :: "hid \<Rightarrow> hid \<Rightarrow> 'a rcu \<Rightarrow> 'a rcu" where
  "swap_handles h g s = s\<lparr>rl_handles := (rl_handles s)(h := rl_handles s g, g := rl_handles s h),
     rl_iters := (rl_iters s)(h := rl_iters s g, g := rl_iters s h)\<rparr>"

text \<open>\<open>make_iterator\<close>, and the iterators of the session of \<open>h\<close>; \<open>before_begin\<close> is always one.\<close>

definition make_iterator :: "'a rcu \<Rightarrow> addr \<Rightarrow> riter option" where
  "make_iterator s a = map_option (\<lambda>n. (a, rn_inc n)) (rl_nodes s a)"

definition valid_iter :: "hid \<Rightarrow> riter \<Rightarrow> 'a rcu \<Rightarrow> bool" where
  "valid_iter h it s \<longleftrightarrow> rl_handles s h \<noteq> None \<and> unclaimed h s \<and> (Some it = make_iterator s rl_head \<or> it \<in> set (rl_iters s h))"

text \<open>\<open>operator*\<close> with \<open>check_deref\<close>, and \<open>operator++\<close>; a step past the last node leaves \<open>end()\<close>, which is no iterator of the session.\<close>

definition rl_deref :: "'a rcu \<Rightarrow> riter \<Rightarrow> 'a option" where
  "rl_deref s it = (case rl_nodes s (fst it) of None \<Rightarrow> None
     | Some n \<Rightarrow> if fst it \<noteq> rl_head \<and> rn_inc n = snd it then rn_value n else None)"

definition inc_iter :: "hid \<Rightarrow> riter \<Rightarrow> 'a rcu \<Rightarrow> 'a rcu option" where
  "inc_iter h it s = (case rl_nodes s (fst it) of None \<Rightarrow> None
     | Some n \<Rightarrow> if rn_inc n \<noteq> snd it then None
         else (case fst (rn_next n) of None \<Rightarrow> Some s
               | Some x \<Rightarrow> map_option (\<lambda>it'. s\<lparr>rl_iters := (rl_iters s)(h := List.insert it' (rl_iters s h))\<rparr>) (make_iterator s x)))"

text \<open>
  An anchor that is \<open>end()\<close> makes the calls return false before anything else.
\<close>

fun rl_exec :: "'a rcu \<Rightarrow> 'a rl_act \<Rightarrow> 'a rcu option" where
  "rl_exec s (Rl_new_handle t h) =
     (if rl_handles s h = None \<and> unclaimed h s then rl_call t (Join (Jn_load (J_new h))) s else None)"
| "rl_exec s (Rl_refresh t h) =
     (if rl_handles s h \<noteq> None \<and> unused h s
      then rl_call t (Refresh (Rf_load h)) (s\<lparr>rl_iters := (rl_iters s)(h := [])\<rparr>) else None)"
| "rl_exec s (Rl_drop h) = (if unused h s then drop_handle h s else None)"
| "rl_exec s (Rl_move h g) =
     (if \<not> (unused h s \<and> unused g s) then None
      else if h = g then Some s else map_option (give_handle h g) (drop_handle h s))"
| "rl_exec s (Rl_swap h g) = (if unused h s \<and> unused g s then Some (swap_handles h g s) else None)"
| "rl_exec s (Rl_inc h it) = (if valid_iter h it s then inc_iter h it s else None)"
| "rl_exec s (Rl_insert t h anchor v) = (case anchor of
       None \<Rightarrow> if rl_handles s h \<noteq> None \<and> unclaimed h s then rl_call t (Rl_done (Res_insert False)) s else None
     | Some it \<Rightarrow> if valid_iter h it s then rl_call t (Init (Al_head h (fst it) v)) s else None)"
| "rl_exec s (Rl_erase t h anchor) = (case anchor of
       None \<Rightarrow> if rl_handles s h \<noteq> None \<and> unclaimed h s then rl_call t (Rl_done (Res_erase False)) s else None
     | Some it \<Rightarrow> if valid_iter h it s then rl_call t (Erase_after (Rx_load h (fst it))) s else None)"
| "rl_exec s (Rl_reclaim t) = rl_call t (Reclaim Rc_flag) s"
| "rl_exec s (Rl_step t) = rl_step t (rl_pcs s t) s"
| "rl_exec s (Rl_spurious t) = rl_weak t (rl_pcs s t) s"
| "rl_exec s (Rl_new t x) = new_step t x s"
| "rl_exec s (Rl_no_memory t) = (case rl_pcs s t of
       Init (Al_new h a v) \<Rightarrow> Some (rl_to t (Rl_done Res_bad_alloc) s) | _ \<Rightarrow> None)"

end
