(* ===== verification/Rcu_Inv.thy ===== *)
theory Rcu_Inv
  imports Rcu_List
begin

text \<open>
  The invariant of \<open>LockFreeListRCU\<close>.  A ghost layout says of every node in which population it is: linked from the head, on the retired
  list, in the bag of a slot, on the free list, or in the hands of one thread; a second ghost gives for a dead node the generation that
  was current when it was unlinked.  The invariant links them to the words of the list.
\<close>

section \<open>Chains and selectors\<close>

fun chainto :: "(addr \<Rightarrow> addr option) \<Rightarrow> addr option \<Rightarrow> addr list \<Rightarrow> addr option \<Rightarrow> bool" where
  "chainto f p [] e = (p = e)"
| "chainto f p (x # xs) e = (p = Some x \<and> chainto f (f x) xs e)"

definition nx :: "'a rcu \<Rightarrow> addr \<Rightarrow> addr option" where
  "nx s a = Option.bind (rl_nodes s a) (\<lambda>n. fst (rn_next n))"

definition marked :: "'a rcu \<Rightarrow> addr \<Rightarrow> bool" where
  "marked s a = (case rl_nodes s a of None \<Rightarrow> False | Some n \<Rightarrow> is_marked (rn_next n))"

definition lk :: "'a rcu \<Rightarrow> addr \<Rightarrow> addr option" where
  "lk s a = Option.bind (rl_nodes s a) rn_link"

definition val :: "'a rcu \<Rightarrow> addr \<Rightarrow> 'a option" where
  "val s a = Option.bind (rl_nodes s a) rn_value"

definition inc :: "'a rcu \<Rightarrow> addr \<Rightarrow> 32 word option" where
  "inc s a = map_option rn_inc (rl_nodes s a)"

lemma chainto_append: "chainto f p (xs @ ys) e \<longleftrightarrow> (\<exists>q. chainto f p xs q \<and> chainto f q ys e)"
  by (induction xs arbitrary: p) auto

lemma chainto_cong: "(\<And>x. x \<in> set xs \<Longrightarrow> f x = g x) \<Longrightarrow> chainto f p xs e = chainto g p xs e"
  by (induction xs arbitrary: p) auto

lemma chainto_upd [simp]: "a \<notin> set xs \<Longrightarrow> chainto (f(a := v)) p xs e = chainto f p xs e"
  by (rule chainto_cong) auto

lemma chainto_det: "chainto f p xs None \<Longrightarrow> chainto f p ys None \<Longrightarrow> xs = ys"
proof (induction xs arbitrary: p ys)
  case Nil
  then show ?case by (cases ys) auto
next
  case (Cons x xs)
  then show ?case by (cases ys) auto
qed

lemma chainto_nth: "chainto f p xs e \<Longrightarrow> i < length xs \<Longrightarrow> f (xs ! i) = (if Suc i < length xs then Some (xs ! Suc i) else e)"
proof (induction xs arbitrary: p i)
  case (Cons x xs)
  then show ?case
    by (cases i; cases xs) auto
qed simp

lemma chainto_hd: "chainto f p xs e \<Longrightarrow> p = (if xs = [] then e else Some (hd xs))"
  by (cases xs) auto

lemma chainto_last:
  "chainto f p xs e \<Longrightarrow> xs \<noteq> [] \<Longrightarrow> distinct xs \<Longrightarrow> chainto (f(last xs := e')) p xs e'"
proof (induction xs arbitrary: p)
  case (Cons x xs)
  then show ?case
    by (cases "xs = []") auto
qed simp

lemma chainto_next:
  assumes "chainto f p xs None" and "a \<in> set xs" and "f a = Some y"
  shows "y \<in> set xs"
  using assms chainto_nth [OF assms(1)] by (fastforce simp: in_set_conv_nth split: if_splits)

section \<open>Ghost layout\<close>

datatype rplace = P_chain | P_retired | P_pend | P_bag nat | P_free | P_new tid | P_pop tid | P_dead tid

record ghost =
  g_at :: "addr \<rightharpoonup> rplace"
  g_list :: "rplace \<Rightarrow> addr list"
  g_ub :: "addr \<Rightarrow> nat"
  g_rec :: "(tid \<times> reclaim_pc) option"

fun dead_place :: "rplace \<Rightarrow> bool" where
  "dead_place P_retired = True"
| "dead_place P_pend = True"
| "dead_place (P_bag b) = True"
| "dead_place (P_dead t) = True"
| "dead_place _ = False"

definition lay :: "ghost \<Rightarrow> bool" where
  "lay G \<longleftrightarrow> (\<forall>P. distinct (g_list G P) \<and> (\<forall>a. a \<in> set (g_list G P) \<longleftrightarrow> g_at G a = Some P))"

definition dead :: "ghost \<Rightarrow> addr \<Rightarrow> bool" where
  "dead G a \<longleftrightarrow> (\<exists>P. g_at G a = Some P \<and> dead_place P)"

text \<open>What a handle of generation \<open>g\<close> may refer to, and what a thread that pops from the free list under it may hold.\<close>

definition obs :: "ghost \<Rightarrow> nat \<Rightarrow> addr \<Rightarrow> bool" where
  "obs G g a \<longleftrightarrow> a = 0 \<or> g_at G a = Some P_chain \<or> dead G a \<and> g \<le> g_ub G a"

definition popobs :: "ghost \<Rightarrow> nat \<Rightarrow> addr \<Rightarrow> bool" where
  "popobs G g a \<longleftrightarrow> g_at G a = Some P_free \<or> (\<exists>t. g_at G a = Some (P_pop t)) \<or> g_at G a = Some P_chain \<or> dead G a \<and> g \<le> g_ub G a"

section \<open>The ring\<close>

definition rpos :: "nat \<Rightarrow> nat \<Rightarrow> nat \<Rightarrow> nat" where
  "rpos K o1 b = (b + K - o1) mod K"

abbreviation K_of :: "'a rcu \<Rightarrow> nat" where
  "K_of s \<equiv> length (rl_ring s)"

abbreviation blk :: "'a rcu \<Rightarrow> nat \<Rightarrow> block" where
  "blk s b \<equiv> rl_ring s ! b"

definition lo :: "'a rcu \<Rightarrow> nat" where
  "lo s = gb_gen (blk s (rl_oldest s))"

definition cgen :: "'a rcu \<Rightarrow> nat" where
  "cgen s = gb_gen (blk s (rl_current s))"

definition slot_ok :: "nat \<Rightarrow> nat \<Rightarrow> nat \<Rightarrow> block \<Rightarrow> bool" where
  "slot_ok n lo0 d B \<longleftrightarrow>
     (if d < n then gb_state B = G_sealed \<and> gb_gen B = lo0 + d \<and> gb_bag B \<noteq> None
      else if d = n then gb_state B = G_current \<and> gb_gen B = lo0 + d \<and> gb_bag B = None
      else gb_state B = G_empty \<and> gb_bag B = None)"

definition ring_ok :: "'a rcu \<Rightarrow> bool" where
  "ring_ok s \<longleftrightarrow> 2 \<le> K_of s \<and> rl_oldest s < K_of s \<and> rl_current s < K_of s \<and>
     (\<forall>b<K_of s. slot_ok (rpos (K_of s) (rl_oldest s) (rl_current s)) (lo s) (rpos (K_of s) (rl_oldest s) b) (blk s b))"

lemma rpos_less: "0 < K \<Longrightarrow> rpos K o1 b < K"
  by (simp add: rpos_def)

lemma rpos_self [simp]: "0 < K \<Longrightarrow> rpos K b b = 0"
  by (simp add: rpos_def)

lemma rpos_cases:
  "b < K \<Longrightarrow> o1 < K \<Longrightarrow> rpos K o1 b = (if o1 \<le> b then b - o1 else b + K - o1)"
  using mod_add_self2 [of "b - o1" K] by (auto simp: rpos_def simp del: mod_add_self2)

lemma rpos_inj: "b < K \<Longrightarrow> b' < K \<Longrightarrow> o1 < K \<Longrightarrow> rpos K o1 b = rpos K o1 b' \<longleftrightarrow> b = b'"
  by (auto simp: rpos_cases split: if_splits)

lemma Suc_mod_cases: "b < K \<Longrightarrow> Suc b mod K = (if Suc b = K then 0 else Suc b)"
  by auto

lemma rpos_Suc_oldest:
  "b < K \<Longrightarrow> o1 < K \<Longrightarrow> rpos K (Suc o1 mod K) b = (if rpos K o1 b = 0 then K - 1 else rpos K o1 b - 1)"
  by (auto simp: rpos_cases Suc_mod_cases split: if_splits)

lemma rpos_Suc_slot:
  "b < K \<Longrightarrow> o1 < K \<Longrightarrow> rpos K o1 (Suc b mod K) = (if Suc (rpos K o1 b) = K then 0 else Suc (rpos K o1 b))"
  by (auto simp: rpos_cases Suc_mod_cases split: if_splits)

lemma ring_okD:
  assumes "ring_ok s"
  shows "2 \<le> K_of s" "rl_oldest s < K_of s" "rl_current s < K_of s" "0 < K_of s"
    and "gb_state (blk s (rl_current s)) = G_current" "gb_bag (blk s (rl_current s)) = None" "lo s \<le> cgen s"
    and "b < K_of s \<Longrightarrow> slot_ok (rpos (K_of s) (rl_oldest s) (rl_current s)) (lo s) (rpos (K_of s) (rl_oldest s) b) (blk s b)"
proof -
  show b: "2 \<le> K_of s" "rl_oldest s < K_of s" "rl_current s < K_of s" "0 < K_of s"
    and sl: "\<And>b. b < K_of s \<Longrightarrow> slot_ok (rpos (K_of s) (rl_oldest s) (rl_current s)) (lo s) (rpos (K_of s) (rl_oldest s) b) (blk s b)"
    using assms by (auto simp: ring_ok_def)
  show "gb_state (blk s (rl_current s)) = G_current" "gb_bag (blk s (rl_current s)) = None" "lo s \<le> cgen s"
    using sl [OF b(3)] by (simp_all add: slot_ok_def cgen_def)
qed

lemma ring_in_use:
  assumes "ring_ok s" and "b < K_of s" and "gb_state (blk s b) \<noteq> G_empty"
  shows "lo s \<le> gb_gen (blk s b)" "gb_gen (blk s b) \<le> cgen s"
    "gb_gen (blk s b) = lo s \<longleftrightarrow> b = rl_oldest s" "gb_gen (blk s b) = cgen s \<longleftrightarrow> b = rl_current s"
    "gb_bag (blk s b) \<noteq> None \<longleftrightarrow> gb_state (blk s b) = G_sealed" "gb_state (blk s b) = G_current \<longleftrightarrow> b = rl_current s"
proof -
  note r = ring_okD [OF assms(1)]
  have p0: "rpos (K_of s) (rl_oldest s) b = 0 \<longleftrightarrow> b = rl_oldest s"
    using rpos_inj [OF assms(2) r(2) r(2)] r(4) by simp
  have pc: "rpos (K_of s) (rl_oldest s) b = rpos (K_of s) (rl_oldest s) (rl_current s) \<longleftrightarrow> b = rl_current s"
    using rpos_inj [OF assms(2) r(3) r(2)] .
  note sb = r(8) [OF assms(2)] and sc = r(8) [OF r(3)]
  show "lo s \<le> gb_gen (blk s b)" "gb_gen (blk s b) \<le> cgen s"
    "gb_gen (blk s b) = lo s \<longleftrightarrow> b = rl_oldest s" "gb_gen (blk s b) = cgen s \<longleftrightarrow> b = rl_current s"
    "gb_bag (blk s b) \<noteq> None \<longleftrightarrow> gb_state (blk s b) = G_sealed" "gb_state (blk s b) = G_current \<longleftrightarrow> b = rl_current s"
    using sb sc assms(3) p0 pc by (auto simp: slot_ok_def cgen_def split: if_splits)
qed

lemma ring_sealed_iff:
  assumes "ring_ok s" and "b < K_of s"
  shows "gb_bag (blk s b) \<noteq> None \<longleftrightarrow> gb_state (blk s b) = G_sealed"
  using ring_okD(8) [OF assms] by (auto simp: slot_ok_def split: if_splits)

section \<open>The memory\<close>

text \<open>The phases of the reclaimer that matter for the memory.\<close>

fun is_freeing :: "(tid \<times> reclaim_pc) option \<Rightarrow> bool" where
  "is_freeing (Some (t, Fp_walk k n b p tl0 c)) = True"
| "is_freeing (Some (t, Fp_store k n b tl0 c h)) = True"
| "is_freeing (Some (t, Fp_cas k n b tl0 c h)) = True"
| "is_freeing _ = False"

fun walked :: "(tid \<times> reclaim_pc) option \<Rightarrow> nat" where
  "walked (Some (t, Fp_walk k n b p tl0 c)) = c"
| "walked (Some (t, Fp_store k n b tl0 c h)) = c"
| "walked (Some (t, Fp_cas k n b tl0 c h)) = c"
| "walked _ = 0"

fun pend :: "(tid \<times> reclaim_pc) option \<Rightarrow> addr option" where
  "pend (Some (t, Rc_publish n b c)) = Some c"
| "pend _ = None"

text \<open>How the chain of the oldest bag ends while it is spliced onto the free list.\<close>

fun bag_end :: "(tid \<times> reclaim_pc) option \<Rightarrow> addr option \<Rightarrow> bool" where
  "bag_end (Some (t, Fp_store k n b tl0 c h)) e = True"
| "bag_end (Some (t, Fp_cas k n b tl0 c h)) e = (e = h)"
| "bag_end _ e = (e = None)"

definition nodes_ok :: "'a rcu \<Rightarrow> ghost \<Rightarrow> bool" where
  "nodes_ok s G \<longleftrightarrow> lay G \<and> rl_nodes s 0 \<noteq> None \<and> \<not> marked s 0 \<and> (\<forall>a. g_at G a = None \<longleftrightarrow> a = 0 \<or> rl_nodes s a = None) \<and>
     finite (dom (g_at G)) \<and> rl_allocated s = int (card (dom (g_at G)))"

definition bag_ok :: "'a rcu \<Rightarrow> ghost \<Rightarrow> nat \<Rightarrow> bool" where
  "bag_ok s G b \<longleftrightarrow> (if b < K_of s
     then \<exists>e. chainto (lk s) (gb_bag (blk s b)) (g_list G (P_bag b)) e \<and> (if b = rl_oldest s then bag_end (g_rec G) e else e = None)
     else g_list G (P_bag b) = [])"

definition chains_ok :: "'a rcu \<Rightarrow> ghost \<Rightarrow> bool" where
  "chains_ok s G \<longleftrightarrow> chainto (nx s) (nx s 0) (g_list G P_chain) None \<and>
     chainto (lk s) (rl_retired s) (g_list G P_retired) None \<and>
     chainto (lk s) (rl_free s) (g_list G P_free) None \<and>
     chainto (lk s) (pend (g_rec G)) (g_list G P_pend) None \<and>
     (\<forall>b. bag_ok s G b)"

definition dead_ok :: "'a rcu \<Rightarrow> ghost \<Rightarrow> bool" where
  "dead_ok s G \<longleftrightarrow> (\<forall>a. dead G a \<longrightarrow> marked s a \<and> g_ub G a \<le> cgen s \<and>
     (\<forall>b. g_at G a = Some (P_bag b) \<longrightarrow> g_ub G a \<le> gb_gen (blk s b)) \<and>
     (lo s \<le> g_ub G a \<longrightarrow> (\<forall>m. nx s a = Some m \<longrightarrow> m \<noteq> 0 \<and> obs G (g_ub G a) m)))"

definition vals_ok :: "'a rcu \<Rightarrow> ghost \<Rightarrow> bool" where
  "vals_ok s G \<longleftrightarrow> (\<forall>a P. g_at G a = Some P \<longrightarrow>
     (val s a = None \<longleftrightarrow> P = P_free \<or> P = P_bag (rl_oldest s) \<and> a \<in> set (take (walked (g_rec G)) (g_list G P))))"

fun rc_ok :: "'a rcu \<Rightarrow> addr list \<Rightarrow> reclaim_pc \<Rightarrow> bool" where
  "rc_ok s xs Rc_flag = False"
| "rc_ok s xs (Rc_exchange n b) = (gb_state (blk s (next_slot s)) = G_empty)"
| "rc_ok s xs (Rc_publish n b c) = (gb_state (blk s (next_slot s)) = G_empty)"
| "rc_ok s xs (Fp_walk k n b p tl0 c) = (gb_state (blk s (rl_oldest s)) = G_sealed \<and> c \<le> length xs \<and>
     p = (if c < length xs then Some (xs ! c) else None) \<and> tl0 = (if c = 0 then None else Some (xs ! (c - 1))))"
| "rc_ok s xs (Fp_store k n b tl0 c h) = (gb_state (blk s (rl_oldest s)) = G_sealed \<and> c = length xs \<and> xs \<noteq> [] \<and> tl0 = Some (last xs))"
| "rc_ok s xs (Fp_cas k n b tl0 c h) = (gb_state (blk s (rl_oldest s)) = G_sealed \<and> c = length xs \<and> xs \<noteq> [] \<and> tl0 = Some (last xs))"
| "rc_ok s xs _ = True"

definition rec_ok :: "'a rcu \<Rightarrow> ghost \<Rightarrow> bool" where
  "rec_ok s G \<longleftrightarrow> (case g_rec G of None \<Rightarrow> \<not> rl_reclaiming s
     | Some (t, p) \<Rightarrow> rl_reclaiming s \<and> rc_ok s (g_list G (P_bag (rl_oldest s))) p)"

definition mem_ok :: "'a rcu \<Rightarrow> ghost \<Rightarrow> bool" where
  "mem_ok s G \<longleftrightarrow> ring_ok s \<and> nodes_ok s G \<and> chains_ok s G \<and> dead_ok s G \<and> vals_ok s G \<and> rec_ok s G"

section \<open>Handles\<close>

definition hgen :: "'a rcu \<Rightarrow> hid \<Rightarrow> nat option" where
  "hgen s h = map_option (\<lambda>b. gb_gen (blk s b)) (rl_handles s h)"

text \<open>The generations a session can have.\<close>

definition guard :: "'a rcu \<Rightarrow> ghost \<Rightarrow> nat \<Rightarrow> bool" where
  "guard s G g \<longleftrightarrow> lo s \<le> g \<and> g \<le> cgen s \<and> (is_freeing (g_rec G) \<longrightarrow> lo s < g)"

fun bumps :: "'a rl_pc \<Rightarrow> nat option" where
  "bumps (Join (Jn_check c b)) = Some b"
| "bumps (Join (Jn_undo c b)) = Some b"
| "bumps (Refresh (Rf_leave h b)) = Some b"
| "bumps _ = None"

text \<open>A block that a session is on.\<close>

definition held :: "'a rcu \<Rightarrow> ghost \<Rightarrow> nat \<Rightarrow> bool" where
  "held s G b \<longleftrightarrow> b < K_of s \<and> gb_state (blk s b) \<noteq> G_empty \<and> guard s G (gb_gen (blk s b))"

fun claim_ok :: "'a rcu \<Rightarrow> ghost \<Rightarrow> 'a rl_pc \<Rightarrow> bool" where
  "claim_ok s G (Join p) = ((case join_ctx p of J_new h \<Rightarrow> rl_handles s h = None | J_refresh h \<Rightarrow> rl_handles s h \<noteq> None \<and> rl_iters s h = []) \<and>
     (case p of Jn_load c \<Rightarrow> True | Jn_bump c b \<Rightarrow> b < K_of s | Jn_check c b \<Rightarrow> b < K_of s | Jn_undo c b \<Rightarrow> b < K_of s))"
| "claim_ok s G (Refresh p) = (case p of Rf_load h \<Rightarrow> rl_handles s h \<noteq> None \<and> rl_iters s h = []
     | Rf_leave h b \<Rightarrow> rl_handles s h \<noteq> None \<and> rl_iters s h = [] \<and> held s G b)"
| "claim_ok s G _ = True"

definition hand_ok :: "'a rcu \<Rightarrow> ghost \<Rightarrow> bool" where
  "hand_ok s G \<longleftrightarrow>
     finite (dom (rl_handles s)) \<and> (\<forall>t. t \<notin> set (rl_threads s) \<longrightarrow> rl_at_rest (rl_pcs s t)) \<and>
     (\<forall>h b. rl_handles s h = Some b \<longrightarrow> held s G b \<and> (\<forall>it\<in>set (rl_iters s h). fst it \<noteq> 0 \<and> obs G (gb_gen (blk s b)) (fst it) \<and> inc s (fst it) = Some (snd it))) \<and>
     (\<forall>t. claim_ok s G (rl_pcs s t)) \<and>
     (\<forall>t h. uses (rl_pcs s t) = Some h \<longrightarrow> rl_handles s h \<noteq> None) \<and>
     (\<forall>t u h. claims (rl_pcs s t) = Some h \<longrightarrow> t \<noteq> u \<longrightarrow> claims (rl_pcs s u) \<noteq> Some h \<and> uses (rl_pcs s u) \<noteq> Some h) \<and>
     (\<forall>b<K_of s. gb_refs (blk s b) = int (card {h. rl_handles s h = Some b} + card {t. bumps (rl_pcs s t) = Some b}))"

section \<open>Threads\<close>

fun new_of :: "'a rl_pc \<Rightarrow> addr list" where
  "new_of (Init (In_load h a n p)) = (if p then [] else [n])"
| "new_of (Init (In_store h a n p e)) = (if p then [] else [n])"
| "new_of (Init (In_cas h a n p e)) = (if p then [] else [n])"
| "new_of (Init (In_delete h n)) = [n]"
| "new_of _ = []"

fun pop_of :: "'a rl_pc \<Rightarrow> addr list" where
  "pop_of (Init (In_load h a n p)) = (if p then [n] else [])"
| "pop_of (Init (In_store h a n p e)) = (if p then [n] else [])"
| "pop_of (Init (In_cas h a n p e)) = (if p then [n] else [])"
| "pop_of (Init (In_dispose h n)) = [n]"
| "pop_of _ = []"

fun dead_of :: "'a rl_pc \<Rightarrow> addr list" where
  "dead_of (Retire (Rt_load k n)) = [n]"
| "dead_of (Retire (Rt_store k n q)) = [n]"
| "dead_of (Retire (Rt_cas k n q)) = [n]"
| "dead_of _ = []"

fun init_ok :: "'a rcu \<Rightarrow> ghost \<Rightarrow> nat \<Rightarrow> 'a init_pc \<Rightarrow> bool" where
  "init_ok s G g (Al_head h a v) = obs G g a"
| "init_ok s G g (Al_link h a v q) = (obs G g a \<and> popobs G g q)"
| "init_ok s G g (Al_cas h a v q n) = (obs G g a \<and> popobs G g q \<and> (g_at G q = Some P_free \<longrightarrow> lk s q = n))"
| "init_ok s G g (Al_new h a v) = obs G g a"
| "init_ok s G g (In_load h a n p) = obs G g a"
| "init_ok s G g (In_store h a n p e) = (obs G g a \<and> \<not> is_marked e)"
| "init_ok s G g (In_cas h a n p e) = (obs G g a \<and> \<not> is_marked e \<and> rl_next s n = Some e)"
| "init_ok s G g (In_dispose h n) = True"
| "init_ok s G g (In_delete h n) = True"

fun rerase_ok :: "'a rcu \<Rightarrow> ghost \<Rightarrow> nat \<Rightarrow> rerase_pc \<Rightarrow> bool" where
  "rerase_ok s G g (Rx_load h a) = obs G g a"
| "rerase_ok s G g (Rx_next h a x) = (obs G g a \<and> obs G g x \<and> x \<noteq> 0)"
| "rerase_ok s G g (Rx_mark h a x w) = (obs G g a \<and> obs G g x \<and> x \<noteq> 0 \<and> \<not> is_marked w)"
| "rerase_ok s G g (Rx_unlink h a x w m) = (obs G g a \<and> obs G g x \<and> x \<noteq> 0 \<and> is_marked w \<and> rl_next s x = Some w)"

fun ctx_ok :: "ghost \<Rightarrow> nat \<Rightarrow> retire_ctx \<Rightarrow> bool" where
  "ctx_ok G g (K_init h) = True"
| "ctx_ok G g (K_erase h a m) = obs G g a"

fun retire_ok :: "'a rcu \<Rightarrow> ghost \<Rightarrow> nat \<Rightarrow> retire_pc \<Rightarrow> bool" where
  "retire_ok s G g (Rt_load k n) = ctx_ok G g k"
| "retire_ok s G g (Rt_store k n q) = ctx_ok G g k"
| "retire_ok s G g (Rt_cas k n q) = (ctx_ok G g k \<and> lk s n = q)"

fun pc_ok :: "'a rcu \<Rightarrow> ghost \<Rightarrow> nat \<Rightarrow> 'a rl_pc \<Rightarrow> bool" where
  "pc_ok s G g (Init p) = init_ok s G g p"
| "pc_ok s G g (Erase_after p) = rerase_ok s G g p"
| "pc_ok s G g (Retire p) = retire_ok s G g p"
| "pc_ok s G g _ = True"

definition thr_ok :: "'a rcu \<Rightarrow> ghost \<Rightarrow> bool" where
  "thr_ok s G \<longleftrightarrow>
     (\<forall>t. g_list G (P_new t) = new_of (rl_pcs s t) \<and> g_list G (P_pop t) = pop_of (rl_pcs s t) \<and> g_list G (P_dead t) = dead_of (rl_pcs s t)) \<and>
     (\<forall>t h g. uses (rl_pcs s t) = Some h \<longrightarrow> hgen s h = Some g \<longrightarrow> pc_ok s G g (rl_pcs s t)) \<and>
     (\<forall>t p. (rl_pcs s t = Reclaim p \<and> p \<noteq> Rc_flag) \<longleftrightarrow> g_rec G = Some (t, p))"

definition rinv :: "'a rcu \<Rightarrow> ghost \<Rightarrow> bool" where
  "rinv s G \<longleftrightarrow> mem_ok s G \<and> hand_ok s G \<and> thr_ok s G"

end
