(* ===== verification/Rcu_Effect.thy ===== *)
theory Rcu_Effect
  imports Rcu_Inv
begin

text \<open>
  What each kind of write does to the memory invariant of \<open>LockFreeListRCU\<close>, and what it leaves alone for the other threads.
\<close>

section \<open>Selectors\<close>

definition same_mem :: "'a rcu \<Rightarrow> 'a rcu \<Rightarrow> bool" where
  "same_mem s s' \<longleftrightarrow> rl_nodes s' = rl_nodes s \<and> rl_current s' = rl_current s \<and> rl_reclaiming s' = rl_reclaiming s \<and>
     rl_oldest s' = rl_oldest s \<and> rl_retired s' = rl_retired s \<and> rl_free s' = rl_free s \<and> rl_allocated s' = rl_allocated s \<and>
     K_of s' = K_of s \<and>
     (\<forall>b<K_of s. gb_bag (blk s' b) = gb_bag (blk s b) \<and> gb_state (blk s' b) = gb_state (blk s b) \<and> gb_gen (blk s' b) = gb_gen (blk s b))"

lemma same_mem_sel:
  assumes "same_mem s s'"
  shows "nx s' = nx s" "lk s' = lk s" "val s' = val s" "inc s' = inc s" "marked s' = marked s" "rl_next s' = rl_next s"
  using assms by (auto simp: same_mem_def nx_def lk_def val_def inc_def marked_def rl_next_def fun_eq_iff)

lemma same_mem_ring:
  assumes "same_mem s s'" and "rl_current s < K_of s" and "rl_oldest s < K_of s"
  shows "lo s' = lo s" "cgen s' = cgen s" "guard s' G g = guard s G g" "held s' G b = held s G b" "next_slot s' = next_slot s"
  using assms by (auto simp: same_mem_def lo_def cgen_def guard_def held_def next_slot_def)

lemma same_mem_ring_ok:
  assumes "same_mem s s'" and "ring_ok s"
  shows "ring_ok s'"
proof -
  note r = ring_okD [OF assms(2)]
  have "slot_ok n l d (blk s' b) = slot_ok n l d (blk s b)" if "b < K_of s" for n l d b
    using assms(1) that by (auto simp: same_mem_def slot_ok_def)
  moreover have "lo s' = lo s" using same_mem_ring [OF assms(1) r(3,2)] by simp
  ultimately show ?thesis
    using assms by (simp add: ring_ok_def same_mem_def)
qed

lemma same_mem_rc_ok:
  assumes "same_mem s s'" and "ring_ok s"
  shows "rc_ok s' xs p = rc_ok s xs p"
proof -
  note r = ring_okD [OF assms(2)]
  have "next_slot s < K_of s" using r(4) by (simp add: next_slot_def)
  then show ?thesis
    using assms(1) r(2) same_mem_ring(5) [OF assms(1) r(3,2)] by (cases p) (auto simp: same_mem_def)
qed

lemma mem_okD:
  assumes "mem_ok s G"
  shows "ring_ok s" "nodes_ok s G" "chains_ok s G" "dead_ok s G" "vals_ok s G" "rec_ok s G"
  using assms by (auto simp: mem_ok_def)

lemma layD: "lay G \<Longrightarrow> distinct (g_list G P)" "lay G \<Longrightarrow> a \<in> set (g_list G P) \<longleftrightarrow> g_at G a = Some P"
  by (auto simp: lay_def)

lemma same_mem_ok:
  assumes "same_mem s s'" and "mem_ok s G"
  shows "mem_ok s' G"
proof -
  note m = mem_okD [OF assms(2)]
  note r = ring_okD [OF m(1)]
  note sel = same_mem_sel [OF assms(1)] and ring = same_mem_ring [OF assms(1) r(3,2)]
  note eqs = assms(1) [unfolded same_mem_def]
  have "nodes_ok s' G" using m(2) eqs sel by (simp add: nodes_ok_def)
  moreover have "chains_ok s' G" using m(3) eqs sel by (simp add: chains_ok_def bag_ok_def)
  moreover have "dead_ok s' G"
  proof -
    have "b < K_of s" if "g_at G a = Some (P_bag b)" for a b
    proof (rule ccontr)
      assume "\<not> b < K_of s"
      then have "g_list G (P_bag b) = []" using m(3) by (auto simp: chains_ok_def bag_ok_def)
      then show False using layD(2) m(2) that by (metis nodes_ok_def list.set(1) empty_iff)
    qed
    then show ?thesis using m(4) eqs sel ring by (auto simp: dead_ok_def)
  qed
  moreover have "vals_ok s' G" using m(5) eqs sel by (simp add: vals_ok_def)
  moreover have "rec_ok s' G"
    using m(6) eqs same_mem_rc_ok [OF assms(1) m(1)] by (auto simp: rec_ok_def split: option.splits)
  ultimately show ?thesis using same_mem_ring_ok [OF assms(1) m(1)] by (simp add: mem_ok_def)
qed

lemma sel_set_next:
  assumes "rl_nodes s a \<noteq> None"
  shows "nx (set_next a w s) = (nx s)(a := fst w)" "marked (set_next a w s) = (marked s)(a := is_marked w)"
    "lk (set_next a w s) = lk s" "val (set_next a w s) = val s" "inc (set_next a w s) = inc s"
    "rl_next (set_next a w s) = (rl_next s)(a \<mapsto> w)" "rl_nodes (set_next a w s) b = None \<longleftrightarrow> rl_nodes s b = None"
  using assms by (auto simp: set_next_def nx_def marked_def lk_def val_def inc_def rl_next_def fun_eq_iff)

lemma sel_set_rlink:
  assumes "rl_nodes s a \<noteq> None"
  shows "nx (set_rlink a w s) = nx s" "marked (set_rlink a w s) = marked s"
    "lk (set_rlink a w s) = (lk s)(a := w)" "val (set_rlink a w s) = val s" "inc (set_rlink a w s) = inc s"
    "rl_next (set_rlink a w s) = rl_next s" "rl_nodes (set_rlink a w s) b = None \<longleftrightarrow> rl_nodes s b = None"
  using assms by (auto simp: set_rlink_def nx_def marked_def lk_def val_def inc_def rl_next_def fun_eq_iff)

lemma sel_set_val:
  assumes "rl_nodes s a \<noteq> None"
  shows "nx (set_val a w s) = nx s" "marked (set_val a w s) = marked s"
    "lk (set_val a w s) = lk s" "val (set_val a w s) = (val s)(a := w)" "inc (set_val a w s) = inc s"
    "rl_next (set_val a w s) = rl_next s" "rl_nodes (set_val a w s) b = None \<longleftrightarrow> rl_nodes s b = None"
  using assms by (auto simp: set_val_def nx_def marked_def lk_def val_def inc_def rl_next_def fun_eq_iff)

lemma sel_bump_inc:
  assumes "rl_nodes s a = Some n"
  shows "nx (bump_inc a s) = nx s" "marked (bump_inc a s) = marked s"
    "lk (bump_inc a s) = lk s" "val (bump_inc a s) = val s" "inc (bump_inc a s) = (inc s)(a \<mapsto> rn_inc n + 1)"
    "rl_next (bump_inc a s) = rl_next s" "rl_nodes (bump_inc a s) b = None \<longleftrightarrow> rl_nodes s b = None"
  using assms by (auto simp: bump_inc_def nx_def marked_def lk_def val_def inc_def rl_next_def fun_eq_iff)

lemma upd_fields [simp]:
  "rl_ring (set_next a w s) = rl_ring s" "rl_current (set_next a w s) = rl_current s" "rl_reclaiming (set_next a w s) = rl_reclaiming s"
  "rl_oldest (set_next a w s) = rl_oldest s" "rl_retired (set_next a w s) = rl_retired s" "rl_free (set_next a w s) = rl_free s"
  "rl_allocated (set_next a w s) = rl_allocated s" "rl_handles (set_next a w s) = rl_handles s" "rl_iters (set_next a w s) = rl_iters s"
  "rl_threads (set_next a w s) = rl_threads s" "rl_pcs (set_next a w s) = rl_pcs s" "rl_did (set_next a w s) = rl_did s"
  "rl_ring (set_rlink a q s) = rl_ring s" "rl_current (set_rlink a q s) = rl_current s" "rl_reclaiming (set_rlink a q s) = rl_reclaiming s"
  "rl_oldest (set_rlink a q s) = rl_oldest s" "rl_retired (set_rlink a q s) = rl_retired s" "rl_free (set_rlink a q s) = rl_free s"
  "rl_allocated (set_rlink a q s) = rl_allocated s" "rl_handles (set_rlink a q s) = rl_handles s" "rl_iters (set_rlink a q s) = rl_iters s"
  "rl_threads (set_rlink a q s) = rl_threads s" "rl_pcs (set_rlink a q s) = rl_pcs s" "rl_did (set_rlink a q s) = rl_did s"
  "rl_ring (set_val a v s) = rl_ring s" "rl_current (set_val a v s) = rl_current s" "rl_reclaiming (set_val a v s) = rl_reclaiming s"
  "rl_oldest (set_val a v s) = rl_oldest s" "rl_retired (set_val a v s) = rl_retired s" "rl_free (set_val a v s) = rl_free s"
  "rl_allocated (set_val a v s) = rl_allocated s" "rl_handles (set_val a v s) = rl_handles s" "rl_iters (set_val a v s) = rl_iters s"
  "rl_threads (set_val a v s) = rl_threads s" "rl_pcs (set_val a v s) = rl_pcs s" "rl_did (set_val a v s) = rl_did s"
  "rl_ring (bump_inc a s) = rl_ring s" "rl_current (bump_inc a s) = rl_current s" "rl_reclaiming (bump_inc a s) = rl_reclaiming s"
  "rl_oldest (bump_inc a s) = rl_oldest s" "rl_retired (bump_inc a s) = rl_retired s" "rl_free (bump_inc a s) = rl_free s"
  "rl_allocated (bump_inc a s) = rl_allocated s" "rl_handles (bump_inc a s) = rl_handles s" "rl_iters (bump_inc a s) = rl_iters s"
  "rl_threads (bump_inc a s) = rl_threads s" "rl_pcs (bump_inc a s) = rl_pcs s" "rl_did (bump_inc a s) = rl_did s"
  by (simp_all add: set_next_def set_rlink_def set_val_def bump_inc_def)

section \<open>What a step leaves alone for the others\<close>

definition keeps :: "tid \<Rightarrow> 'a rcu \<Rightarrow> ghost \<Rightarrow> 'a rcu \<Rightarrow> ghost \<Rightarrow> bool" where
  "keeps t s G s' G' \<longleftrightarrow>
     (\<forall>g a. guard s G g \<longrightarrow> obs G g a \<longrightarrow> obs G' g a \<and> inc s' a = inc s a \<and> (marked s a \<longrightarrow> rl_next s' a = rl_next s a)) \<and>
     (\<forall>g a. guard s G g \<longrightarrow> popobs G g a \<longrightarrow> popobs G' g a \<and> (g_at G' a = Some P_free \<longrightarrow> g_at G a = Some P_free \<and> lk s' a = lk s a)) \<and>
     (\<forall>u. u \<noteq> t \<longrightarrow> g_list G' (P_new u) = g_list G (P_new u) \<and> g_list G' (P_pop u) = g_list G (P_pop u) \<and> g_list G' (P_dead u) = g_list G (P_dead u)) \<and>
     (\<forall>u a. u \<noteq> t \<longrightarrow> g_at G a \<in> {Some (P_new u), Some (P_pop u), Some (P_dead u)} \<longrightarrow> rl_next s' a = rl_next s a \<and> lk s' a = lk s a)"

definition same_ring :: "'a rcu \<Rightarrow> 'a rcu \<Rightarrow> bool" where
  "same_ring s s' \<longleftrightarrow> rl_ring s' = rl_ring s \<and> rl_current s' = rl_current s \<and> rl_oldest s' = rl_oldest s"

lemma same_ring_sel:
  assumes "same_ring s s'"
  shows "lo s' = lo s" "cgen s' = cgen s" "ring_ok s' = ring_ok s" "guard s' G g = guard s G g" "held s' G b = held s G b"
    "next_slot s' = next_slot s" "rc_ok s' xs p = rc_ok s xs p"
proof -
  show eq: "lo s' = lo s" "cgen s' = cgen s" "next_slot s' = next_slot s" "ring_ok s' = ring_ok s" 
    using assms by (simp_all add: same_ring_def lo_def cgen_def next_slot_def ring_ok_def)
  show "guard s' G g = guard s G g" "held s' G b = held s G b"
    using assms eq by (simp_all add: same_ring_def guard_def held_def)
  show "rc_ok s' xs p = rc_ok s xs p"
    using assms eq by (cases p) (simp_all add: same_ring_def)
qed

lemma same_ring_rec: "same_ring s s' \<Longrightarrow> rl_reclaiming s' = rl_reclaiming s \<Longrightarrow> rec_ok s' G = rec_ok s G"
  by (auto simp: rec_ok_def same_ring_sel(7) split: option.splits) (auto simp: same_ring_def)

lemma rec_same:
  assumes "rec_ok s G" and "same_ring s s'" and "rl_reclaiming s' = rl_reclaiming s" and "g_rec G' = g_rec G"
    and "\<And>b. g_list G' (P_bag b) = g_list G (P_bag b)"
  shows "rec_ok s' G'"
proof -
  have "rl_oldest s' = rl_oldest s" using assms(2) by (simp add: same_ring_def)
  then show ?thesis using assms by (auto simp: rec_ok_def same_ring_sel(7) [OF assms(2)] split: option.splits)
qed

lemma at_place:
  assumes "mem_ok s G" and "g_at G a = Some P"
  shows "rl_nodes s a \<noteq> None" "a \<noteq> 0" "a \<in> set (g_list G P)" "a \<in> set (g_list G Q) \<longleftrightarrow> Q = P"
proof -
  have l: "lay G" and n: "g_at G a = None \<longleftrightarrow> a = 0 \<or> rl_nodes s a = None"
    using mem_okD(2) [OF assms(1)] by (simp_all add: nodes_ok_def)
  show "rl_nodes s a \<noteq> None" "a \<noteq> 0" using n assms(2) by simp_all
  show "a \<in> set (g_list G P)" "a \<in> set (g_list G Q) \<longleftrightarrow> Q = P" using layD(2) [OF l] assms(2) by auto
qed

lemma head_node: "mem_ok s G \<Longrightarrow> rl_nodes s 0 \<noteq> None" "mem_ok s G \<Longrightarrow> \<not> marked s 0" "mem_ok s G \<Longrightarrow> g_at G 0 = None"
  using mem_okD(2) by (auto simp: nodes_ok_def)

lemma dead_mono_at: "dead G a \<longleftrightarrow> (\<exists>P. g_at G a = Some P \<and> dead_place P)"
  by (simp add: dead_def)

lemma bag_ok_same:
  assumes "bag_ok s G b" and "same_ring s s'" and "g_list G' (P_bag b) = g_list G (P_bag b)" and "g_rec G' = g_rec G"
    and "\<And>a. a \<in> set (g_list G (P_bag b)) \<Longrightarrow> lk s' a = lk s a"
  shows "bag_ok s' G' b"
proof -
  have "chainto (lk s') p (g_list G (P_bag b)) e = chainto (lk s) p (g_list G (P_bag b)) e" for p e
    using assms(5) by (rule chainto_cong)
  then show ?thesis using assms(1-4) by (cases "b < K_of s") (auto simp: bag_ok_def same_ring_def split: if_splits)
qed

lemma bags_same:
  assumes "chains_ok s G" and "same_ring s s'" and "g_rec G' = g_rec G" and "\<And>b. g_list G' (P_bag b) = g_list G (P_bag b)"
    and "\<And>a b. a \<in> set (g_list G (P_bag b)) \<Longrightarrow> lk s' a = lk s a"
  shows "\<forall>b. bag_ok s' G' b"
  using assms bag_ok_same [OF _ assms(2,4,3)] by (simp add: chains_ok_def)

section \<open>Writes to a private node\<close>

lemma effect_next_own:
  assumes m: "mem_ok s G" and P: "g_at G n = Some P" "P = P_new t \<or> P = P_pop t"
  shows "mem_ok (set_next n w s) G" "keeps t s G (set_next n w s) G"
proof -
  note at = at_place [OF m P(1)] and d = mem_okD [OF m]
  note sel = sel_set_next [OF at(1)]
  have sr: "same_ring s (set_next n w s)" by (simp add: same_ring_def)
  have nd: "\<not> dead G n" "g_at G n \<noteq> Some P_chain" using P by (auto simp: dead_def)
  have "nodes_ok (set_next n w s) G" using d(2) sel at(2) by (simp add: nodes_ok_def)
  moreover have "chains_ok (set_next n w s) G"
    using d(3) sel at P(2) bags_same [OF d(3) sr, of G] by (auto simp: chains_ok_def)
  moreover have "dead_ok (set_next n w s) G"
    using d(4) sel nd same_ring_sel [OF sr] by (auto simp: dead_ok_def)
  moreover have "vals_ok (set_next n w s) G" using d(5) sel by (simp add: vals_ok_def)
  moreover have "rec_ok (set_next n w s) G" using d(6) same_ring_rec [OF sr] by simp
  ultimately show "mem_ok (set_next n w s) G" using d(1) same_ring_sel [OF sr] by (simp add: mem_ok_def)
  show "keeps t s G (set_next n w s) G"
    using P sel at nd head_node [OF m] by (auto simp: keeps_def obs_def)
qed

lemma effect_rlink_own:
  assumes m: "mem_ok s G" and P: "g_at G n = Some (P_dead t)"
  shows "mem_ok (set_rlink n q s) G" "keeps t s G (set_rlink n q s) G"
proof -
  note at = at_place [OF m P] and d = mem_okD [OF m]
  note sel = sel_set_rlink [OF at(1)]
  have sr: "same_ring s (set_rlink n q s)" by (simp add: same_ring_def)
  have "nodes_ok (set_rlink n q s) G" using d(2) sel at(2) by (simp add: nodes_ok_def)
  moreover have "chains_ok (set_rlink n q s) G"
  proof -
    have "\<forall>b. bag_ok (set_rlink n q s) G b" by (rule bags_same [OF d(3) sr]) (use sel(3) at in auto)
    then show ?thesis using d(3) sel at by (auto simp: chains_ok_def)
  qed
  moreover have "dead_ok (set_rlink n q s) G"
    using d(4) sel same_ring_sel [OF sr] by (simp add: dead_ok_def)
  moreover have "vals_ok (set_rlink n q s) G" using d(5) sel by (simp add: vals_ok_def)
  moreover have "rec_ok (set_rlink n q s) G" using d(6) same_ring_rec [OF sr] by simp
  ultimately show "mem_ok (set_rlink n q s) G" using d(1) same_ring_sel [OF sr] by (simp add: mem_ok_def)
  show "keeps t s G (set_rlink n q s) G"
    using P sel at head_node [OF m] by (auto simp: keeps_def)
qed

lemma effect_mark:
  assumes m: "mem_ok s G" and P: "g_at G x = Some P_chain" and x: "rl_next s x = Some w" "\<not> is_marked w"
  shows "mem_ok (set_next x (set_mark w) s) G" "keeps t s G (set_next x (set_mark w) s) G"
proof -
  let ?s = "set_next x (set_mark w) s"
  note at = at_place [OF m P] and d = mem_okD [OF m]
  note sel = sel_set_next [OF at(1)]
  have nx: "nx ?s = nx s" using x(1) sel by (auto simp: nx_def rl_next_def set_mark_def fun_eq_iff)
  have sr: "same_ring s ?s" by (simp add: same_ring_def)
  have mk: "marked s x = False" using x by (auto simp: marked_def rl_next_def)
  have "nodes_ok ?s G" using d(2) sel at(2) by (simp add: nodes_ok_def)
  moreover have "chains_ok ?s G" using d(3) nx sel(3) bags_same [OF d(3) sr, of G] by (simp add: chains_ok_def)
  moreover have "dead_ok ?s G"
    using d(4) nx sel(2) same_ring_sel [OF sr] by (auto simp: dead_ok_def set_mark_def)
  moreover have "vals_ok ?s G" using d(5) sel by (simp add: vals_ok_def)
  moreover have "rec_ok ?s G" using d(6) same_ring_rec [OF sr] by simp
  ultimately show "mem_ok ?s G" using d(1) same_ring_sel [OF sr] by (simp add: mem_ok_def)
  show "keeps t s G ?s G"
    using P sel mk by (auto simp: keeps_def)
qed

section \<open>Moving a node to another population\<close>

definition move :: "addr \<Rightarrow> rplace \<Rightarrow> addr list \<Rightarrow> rplace \<Rightarrow> addr list \<Rightarrow> ghost \<Rightarrow> ghost" where
  "move a P xs Q ys G = G\<lparr>g_at := (g_at G)(a \<mapsto> Q), g_list := (g_list G)(P := xs, Q := ys)\<rparr>"

lemma move_sel [simp]:
  "g_at (move a P xs Q ys G) = (g_at G)(a \<mapsto> Q)" "g_list (move a P xs Q ys G) = (g_list G)(P := xs, Q := ys)"
  "g_ub (move a P xs Q ys G) = g_ub G" "g_rec (move a P xs Q ys G) = g_rec G"
  by (simp_all add: move_def)

lemma lay_move:
  assumes "lay G" and "g_at G a = Some P" and "P \<noteq> Q" and "distinct xs" and "set xs = set (g_list G P) - {a}"
    and "distinct ys" and "set ys = insert a (set (g_list G Q))"
  shows "lay (move a P xs Q ys G)"
  using assms by (simp add: lay_def)

lemma nodes_move:
  assumes "nodes_ok s G" and "g_at G a = Some P" and "lay (move a P xs Q ys G)"
    and "\<And>b. rl_nodes s' b = None \<longleftrightarrow> rl_nodes s b = None" and "\<not> marked s' 0" and "rl_allocated s' = rl_allocated s"
  shows "nodes_ok s' (move a P xs Q ys G)"
proof -
  have "dom ((g_at G)(a \<mapsto> Q)) = dom (g_at G)" using assms(2) by auto
  moreover have "a \<noteq> 0" "rl_nodes s a \<noteq> None" using assms(1,2) by (auto simp: nodes_ok_def dest: spec [of _ a])
  ultimately show ?thesis using assms by (simp add: nodes_ok_def)
qed

lemma vals_move:
  assumes "vals_ok s G" and "g_at G a = Some P" and "val s' = val s" and "rl_oldest s' = rl_oldest s"
    and "\<And>b. P \<noteq> P_bag b" "\<And>b. Q \<noteq> P_bag b" "P \<noteq> P_free" "Q \<noteq> P_free"
  shows "vals_ok s' (move a P xs Q ys G)"
  using assms by (simp add: vals_ok_def)

lemma chainto_link_after:
  "chainto f p xs e \<Longrightarrow> a \<in> set xs \<Longrightarrow> n \<notin> set xs \<Longrightarrow> distinct xs \<Longrightarrow> f n = f a \<Longrightarrow>
     chainto (f(a := Some n)) p (link_after a n xs) e"
  by (induction xs arbitrary: p) auto

lemma chainto_remove:
  "chainto f p xs None \<Longrightarrow> a \<in> set xs \<Longrightarrow> distinct xs \<Longrightarrow> f a = Some x \<Longrightarrow> x \<in> set xs \<Longrightarrow> x \<noteq> a \<Longrightarrow> hd xs \<noteq> x \<Longrightarrow>
     chainto (f(a := f x)) p (remove1 x xs) None"
proof (induction xs arbitrary: p)
  case (Cons y ys)
  show ?case
  proof (cases "y = a")
    case True
    then obtain zs where "ys = x # zs" using Cons.prems by (cases ys) auto
    then show ?thesis using True Cons.prems chainto_upd [of a zs f "f x"] by (auto simp: fun_upd_def)
  next
    case False
    then have "a \<in> set ys" using Cons.prems(2) by simp
    then obtain z zs where z: "ys = z # zs" by (cases ys) auto
    have "z \<noteq> x"
    proof
      assume "z = x"
      then have "a \<in> set zs" "chainto f (f x) zs None" using \<open>a \<in> set ys\<close> z Cons.prems by auto
      then show False using chainto_next [of f "f x" zs a x] Cons.prems(3,4) z \<open>z = x\<close> by auto
    qed
    then show ?thesis using Cons False z by auto
  qed
qed simp

text \<open>The chain from the head, the head included.\<close>

abbreviation full :: "ghost \<Rightarrow> addr list" where
  "full G \<equiv> 0 # g_list G P_chain"

lemma full_chain:
  assumes "mem_ok s G"
  shows "chainto (nx s) (Some 0) (full G) None" "distinct (full G)" "a \<in> set (full G) \<longleftrightarrow> a = 0 \<or> g_at G a = Some P_chain"
proof -
  note d = mem_okD [OF assms]
  have l: "lay G" using d(2) by (simp add: nodes_ok_def)
  show "chainto (nx s) (Some 0) (full G) None" using d(3) by (simp add: chains_ok_def)
  show "a \<in> set (full G) \<longleftrightarrow> a = 0 \<or> g_at G a = Some P_chain" using layD(2) [OF l] by auto
  show "distinct (full G)" using layD [OF l] head_node(3) [OF assms] by simp
qed

text \<open>An observable node without a mark is on the chain.\<close>

lemma obs_unmarked:
  assumes "mem_ok s G" and "obs G g a" and "\<not> marked s a"
  shows "a = 0 \<or> g_at G a = Some P_chain"
  using assms mem_okD(4) [OF assms(1)] by (auto simp: obs_def dead_ok_def)

lemma obs_exists: "mem_ok s G \<Longrightarrow> obs G g a \<Longrightarrow> rl_nodes s a \<noteq> None"
  using at_place(1) head_node(1) by (fastforce simp: obs_def dead_def)

lemma popobs_exists: "mem_ok s G \<Longrightarrow> popobs G g a \<Longrightarrow> rl_nodes s a \<noteq> None"
  using at_place(1) by (fastforce simp: popobs_def dead_def)

text \<open>What an observable node links to is observable.\<close>

lemma obs_next:
  assumes "mem_ok s G" and "guard s G g" and "obs G g a" and "nx s a = Some x"
  shows "obs G g x" "x \<noteq> 0"
proof -
  note full = full_chain [OF assms(1)] and d = mem_okD [OF assms(1)]
  have "obs G g x \<and> x \<noteq> 0"
  proof (cases "a = 0 \<or> g_at G a = Some P_chain")
    case True
    then have "x \<in> set (g_list G P_chain)"
      using d(3) assms(4) chainto_next [of "nx s" "nx s 0" "g_list G P_chain" a x] full(3) [of a]
      by (cases "g_list G P_chain") (auto simp: chains_ok_def)
    moreover from this have "x \<noteq> 0" using full(2) by (metis distinct.simps(2))
    ultimately show ?thesis using full(3) [of x] by (auto simp: obs_def)
  next
    case False
    then have dd: "dead G a" "g \<le> g_ub G a" using assms(3) by (auto simp: obs_def)
    moreover have "lo s \<le> g_ub G a" using assms(2) dd by (simp add: guard_def)
    ultimately show ?thesis using d(4) assms(4) by (fastforce simp: dead_ok_def obs_def)
  qed
  then show "obs G g x" "x \<noteq> 0" by auto
qed

lemma effect_link:
  assumes m: "mem_ok s G" and P: "g_at G n = Some P" "P = P_new t \<or> P = P_pop t" "g_list G P = [n]"
    and a: "a = 0 \<or> g_at G a = Some P_chain" "rl_next s a = Some e" "rl_next s n = Some e" "\<not> is_marked e"
  defines "G' \<equiv> move n P [] P_chain (tl (link_after a n (full G))) G"
  shows "mem_ok (set_next a (Some n, False) s) G'" "keeps t s G (set_next a (Some n, False) s) G'"
    "full G' = link_after a n (full G)"
proof -
  let ?s = "set_next a (Some n, False) s"
  note at = at_place [OF m P(1)] and d = mem_okD [OF m] and full = full_chain [OF m]
  have an: "rl_nodes s a \<noteq> None" using a(2) by (auto simp: rl_next_def)
  note sel = sel_set_next [OF an]
  have nx: "nx s n = nx s a" "\<not> marked s a" "\<not> marked s n"
    using a by (auto simp: nx_def rl_next_def marked_def)
  have aF: "a \<in> set (full G)" using a(1) full(3) by simp
  have nF: "n \<notin> set (full G)" using at(2) P full(3) [of n] by auto
  have na: "n \<noteq> a" using aF nF by auto
  show f': "full G' = link_after a n (full G)" by (simp add: G'_def)
  have dead': "dead G' x = dead G x" for x using P by (auto simp: G'_def dead_def)
  have obs': "obs G' g x" if "obs G g x" for g x using that dead' by (auto simp: G'_def obs_def)
  have sr: "same_ring s ?s" by (simp add: same_ring_def)
  have l: "lay G" using d(2) by (simp add: nodes_ok_def)
  have dl: "distinct (link_after a n (full G))" using full(2) nF by (rule distinct_link_after)
  have "lay G'" unfolding G'_def
  proof (rule lay_move [OF l P(1)])
    show "P \<noteq> P_chain" "distinct []" "set [] = set (g_list G P) - {n}" using P by auto
    show "distinct (tl (link_after a n (full G)))" using dl by (rule distinct_tl)
    have f0: "link_after a n (full G) = 0 # tl (link_after a n (full G))" using f' by (simp add: G'_def)
    have "set (link_after a n (full G)) = insert n (set (full G))" using aF by (simp only: set_link_after) simp
    then have "insert 0 (set (tl (link_after a n (full G)))) = insert n (insert 0 (set (g_list G P_chain)))"
      using f0 by (metis list.simps(15))
    moreover have "0 \<notin> set (tl (link_after a n (full G)))" using dl f0 by (metis distinct.simps(2))
    moreover have "0 \<notin> insert n (set (g_list G P_chain))" using full(2) at(2) by simp
    ultimately show "set (tl (link_after a n (full G))) = insert n (set (g_list G P_chain))" by (metis insert_commute insert_ident)
  qed
  then have "nodes_ok ?s G'" unfolding G'_def
    by (rule nodes_move [OF d(2) P(1)]) (use sel head_node [OF m] in auto)
  moreover have "chains_ok ?s G'"
  proof -
    have "chainto ((nx s)(a := Some n)) (Some 0) (link_after a n (full G)) None"
      using chainto_link_after [OF full(1) aF nF full(2) nx(1)] .
    then have "chainto (nx ?s) (nx ?s 0) (g_list G' P_chain) None"
      unfolding f' [symmetric] using sel(1) by simp
    moreover have "\<forall>b. bag_ok ?s G' b"
      by (rule bags_same [OF d(3) sr]) (use sel(3) P(2) in \<open>auto simp: G'_def\<close>)
    ultimately show ?thesis using d(3) sel(3) P(2) by (auto simp: chains_ok_def G'_def)
  qed
  moreover have "dead_ok ?s G'"
  proof -
    have "x \<noteq> a" if "dead G x" for x using d(4) that nx(2) by (auto simp: dead_ok_def)
    then show ?thesis using d(4) sel dead' obs' same_ring_sel [OF sr] P
      by (auto simp: dead_ok_def) (auto simp: G'_def dead_def split: if_splits)
  qed
  moreover have "vals_ok ?s G'" unfolding G'_def
    by (rule vals_move [OF d(5) P(1)]) (use sel P in auto)
  moreover have "rec_ok ?s G'" by (rule rec_same [OF d(6) sr]) (use P in \<open>auto simp: G'_def\<close>)
  ultimately show "mem_ok ?s G'" using d(1) same_ring_sel [OF sr] by (simp add: mem_ok_def)
  have no: "\<not> obs G g n" for g using P at(2) by (auto simp: obs_def dead_def)
  show "keeps t s G ?s G'"
    using P sel na no nx obs' dead' a(1) head_node [OF m] by (auto simp: keeps_def popobs_def G'_def)
qed

text \<open>A node dies: it is unlinked, or disposed of without ever having been linked.\<close>

definition die :: "addr \<Rightarrow> nat \<Rightarrow> ghost \<Rightarrow> ghost" where
  "die a c G = G\<lparr>g_ub := (g_ub G)(a := c)\<rparr>"

lemma die_sel [simp]:
  "g_at (die a c G) = g_at G" "g_list (die a c G) = g_list G" "g_ub (die a c G) = (g_ub G)(a := c)" "g_rec (die a c G) = g_rec G"
  "lay (die a c G) = lay G"
  by (simp_all add: die_def lay_def)

lemma die_ok [simp]: "nodes_ok s (die a c G) = nodes_ok s G" "vals_ok s (die a c G) = vals_ok s G"
  by (simp_all add: nodes_ok_def vals_ok_def)

lemma effect_unlink:
  assumes m: "mem_ok s G" and x: "rl_next s x = Some w" "is_marked w" and L: "g_list G (P_dead t) = []"
    and a: "a = 0 \<or> g_at G a = Some P_chain" "rl_next s a = Some (Some x, False)"
  defines "G' \<equiv> die x (cgen s) (move x P_chain (remove1 x (g_list G P_chain)) (P_dead t) [x] G)"
  shows "g_at G x = Some P_chain" "mem_ok (set_next a (get_unmarked w) s) G'" "keeps t s G (set_next a (get_unmarked w) s) G'"
proof -
  let ?s = "set_next a (get_unmarked w) s" and ?M = "move x P_chain (remove1 x (g_list G P_chain)) (P_dead t) [x] G"
  note d = mem_okD [OF m] and full = full_chain [OF m]
  have an: "rl_nodes s a \<noteq> None" using a(2) by (auto simp: rl_next_def)
  note sel = sel_set_next [OF an]
  have nxa: "nx s a = Some x" "\<not> marked s a" using a by (auto simp: nx_def rl_next_def marked_def)
  have mx: "marked s x" "nx s x = fst w" using x by (auto simp: nx_def rl_next_def marked_def)
  have aF: "a \<in> set (full G)" using a(1) full(3) by simp
  have xF: "x \<in> set (full G)" using chainto_next [OF full(1) aF nxa(1)] .
  have xa: "x \<noteq> a" using mx nxa by auto
  have x0: "x \<noteq> 0" using mx(1) head_node(2) [OF m] by metis
  show P: "g_at G x = Some P_chain" using xF full(3) [of x] x0 by auto
  note at = at_place [OF m P]
  have sr: "same_ring s ?s" by (simp add: same_ring_def)
  have l: "lay G" using d(2) by (simp add: nodes_ok_def)
  have dead': "dead G' y \<longleftrightarrow> y = x \<or> dead G y" for y using P by (auto simp: G'_def dead_def)
  have ub: "g_ub G y \<le> cgen s" if "dead G y" for y using d(4) that by (simp add: dead_ok_def)
  have obs': "obs G' g y" if "obs G g y" "g \<le> cgen s" for g y
    using that dead' P by (auto simp: G'_def obs_def dead_def)
  have "lay ?M"
    by (rule lay_move [OF l P]) (use L layD(1) [OF l] in auto)
  then have "nodes_ok ?s ?M"
    by (rule nodes_move [OF d(2) P]) (use sel head_node [OF m] in \<open>auto simp: get_unmarked_def\<close>)
  then have "nodes_ok ?s G'" by (simp add: G'_def)
  moreover have "chains_ok ?s G'"
  proof -
    have "chainto ((nx s)(a := nx s x)) (Some 0) (remove1 x (full G)) None"
      by (rule chainto_remove [OF full(1) aF full(2) nxa(1) xF xa]) (use x0 in simp)
    then have "chainto (nx ?s) (nx ?s 0) (g_list G' P_chain) None"
      using sel(1) x0 mx(2) by (simp add: G'_def get_unmarked_def)
    moreover have "\<forall>b. bag_ok ?s G' b"
      by (rule bags_same [OF d(3) sr]) (use sel(3) in \<open>auto simp: G'_def\<close>)
    ultimately show ?thesis using d(3) sel(3) by (auto simp: chains_ok_def G'_def)
  qed
  moreover have "dead_ok ?s G'"
  proof -
    have ne: "y \<noteq> a" if "dead G y" for y using d(4) that nxa(2) by (auto simp: dead_ok_def)
    have xn: "z \<noteq> 0 \<and> obs G' (cgen s) z" if z: "nx s x = Some z" for z
    proof -
      have "z \<in> set (g_list G P_chain)"
        using chainto_next [of "nx s" "nx s 0" "g_list G P_chain" x z] d(3) at(3) z by (auto simp: chains_ok_def)
      then have "z \<noteq> 0" "g_at G z = Some P_chain" using full(2) full(3) [of z] by (metis distinct.simps(2), auto)
      then have "obs G (cgen s) z" by (simp add: obs_def)
      then show ?thesis using obs' \<open>z \<noteq> 0\<close> by blast
    qed
    show ?thesis unfolding dead_ok_def
    proof (intro allI impI)
      fix y assume "dead G' y"
      then consider "y = x" | "y \<noteq> x" "dead G y" using dead' by auto
      then show "marked ?s y \<and> g_ub G' y \<le> cgen ?s \<and> (\<forall>b. g_at G' y = Some (P_bag b) \<longrightarrow> g_ub G' y \<le> gb_gen (blk ?s b)) \<and>
        (lo ?s \<le> g_ub G' y \<longrightarrow> (\<forall>m. nx ?s y = Some m \<longrightarrow> m \<noteq> 0 \<and> obs G' (g_ub G' y) m))"
      proof cases
        case 1
        then show ?thesis using sel xa mx(1) xn same_ring_sel [OF sr] by (auto simp: G'_def)
      next
        case 2
        then have "obs G' (g_ub G y) z" if "obs G (g_ub G y) z" for z using obs' that ub by blast
        then show ?thesis using d(4) 2 ne [OF 2(2)] sel same_ring_sel [OF sr] by (auto simp: dead_ok_def G'_def)
      qed
    qed
  qed
  moreover have "vals_ok ?s ?M"
    by (rule vals_move [OF d(5) P]) (use sel in auto)
  then have "vals_ok ?s G'" by (simp add: G'_def)
  moreover have "rec_ok ?s G'" by (rule rec_same [OF d(6) sr]) (auto simp: G'_def)
  ultimately show "mem_ok ?s G'" using d(1) same_ring_sel [OF sr] by (simp add: mem_ok_def)
  have obsg: "obs G' g y" if "guard s G g" "obs G g y" for g y using obs' that by (simp add: guard_def)
  have popg: "popobs G' g y" if "guard s G g" "popobs G g y" for g y
    using that dead' P by (auto simp: guard_def popobs_def G'_def dead_def)
  show "keeps t s G ?s G'"
    using sel P xa nxa obsg popg a(1) head_node [OF m] by (auto simp: keeps_def G'_def)
qed

lemma effect_dispose:
  assumes m: "mem_ok s G" and P: "g_at G n = Some (P_pop t)" "g_list G (P_pop t) = [n]" "g_list G (P_dead t) = []"
  defines "G' \<equiv> die n (cgen s) (move n (P_pop t) [] (P_dead t) [n] G)"
  shows "mem_ok (set_next n (set_mark (None, False)) s) G'" "keeps t s G (set_next n (set_mark (None, False)) s) G'"
proof -
  let ?s = "set_next n (set_mark (None, False)) s" and ?M = "move n (P_pop t) [] (P_dead t) [n] G"
  note d = mem_okD [OF m] and at = at_place [OF m P(1)]
  note sel = sel_set_next [OF at(1)]
  have sr: "same_ring s ?s" by (simp add: same_ring_def)
  have l: "lay G" using d(2) by (simp add: nodes_ok_def)
  have dead': "dead G' y \<longleftrightarrow> y = n \<or> dead G y" for y by (auto simp: G'_def dead_def)
  have nn: "\<not> dead G n" "\<not> obs G g n" for g using P at(2) by (auto simp: obs_def dead_def)
  have obs': "obs G' g y" if "obs G g y" for g y
    using that dead' nn by (cases "y = n") (auto simp: G'_def obs_def)
  have "lay ?M" by (rule lay_move [OF l P(1)]) (use P in auto)
  then have "nodes_ok ?s ?M"
    by (rule nodes_move [OF d(2) P(1)]) (use sel at(2) head_node [OF m] in \<open>auto simp: set_mark_def\<close>)
  then have "nodes_ok ?s G'" by (simp add: G'_def)
  moreover have "chains_ok ?s G'"
  proof -
    have "\<forall>b. bag_ok ?s G' b"
      by (rule bags_same [OF d(3) sr]) (use sel(3) in \<open>auto simp: G'_def\<close>)
    then show ?thesis using d(3) sel at(2,4) by (auto simp: chains_ok_def G'_def)
  qed
  moreover have "dead_ok ?s G'"
    using d(4) nn dead' obs' sel same_ring_sel [OF sr] by (auto simp: dead_ok_def set_mark_def) (auto simp: G'_def)
  moreover have "vals_ok ?s ?M"
    by (rule vals_move [OF d(5) P(1)]) (use sel in auto)
  then have "vals_ok ?s G'" by (simp add: G'_def)
  moreover have "rec_ok ?s G'" by (rule rec_same [OF d(6) sr]) (auto simp: G'_def)
  ultimately show "mem_ok ?s G'" using d(1) same_ring_sel [OF sr] by (simp add: mem_ok_def)
  have popg: "popobs G' g y" if "guard s G g" "popobs G g y" for g y
    using that dead' nn(1) by (cases "y = n") (auto simp: guard_def popobs_def G'_def)
  show "keeps t s G ?s G'"
    using sel P nn obs' popg by (auto simp: keeps_def G'_def)
qed

definition forget :: "addr \<Rightarrow> rplace \<Rightarrow> ghost \<Rightarrow> ghost" where
  "forget a P G = G\<lparr>g_at := (g_at G)(a := None), g_list := (g_list G)(P := [])\<rparr>"

definition appear :: "addr \<Rightarrow> rplace \<Rightarrow> ghost \<Rightarrow> ghost" where
  "appear a P G = G\<lparr>g_at := (g_at G)(a \<mapsto> P), g_list := (g_list G)(P := [a])\<rparr>"

lemma effect_delete:
  assumes m: "mem_ok s G" and P: "g_at G n = Some (P_new t)" "g_list G (P_new t) = [n]"
  defines "s' \<equiv> s\<lparr>rl_nodes := (rl_nodes s)(n := None), rl_allocated := rl_allocated s - 1\<rparr>"
  shows "mem_ok s' (forget n (P_new t) G)" "keeps t s G s' (forget n (P_new t) G)"
proof -
  let ?G = "forget n (P_new t) G"
  note d = mem_okD [OF m] and at = at_place [OF m P(1)]
  have sr: "same_ring s s'" by (simp add: same_ring_def s'_def)
  have l: "lay G" and fin: "finite (dom (g_at G))" using d(2) by (auto simp: nodes_ok_def)
  have sel: "nx s' x = nx s x" "lk s' x = lk s x" "val s' x = val s x" "inc s' x = inc s x" "marked s' x = marked s x"
    "rl_next s' x = rl_next s x" if "x \<noteq> n" for x
    using that by (auto simp: s'_def nx_def lk_def val_def inc_def marked_def rl_next_def)
  have nn: "\<not> dead G n" "\<not> obs G g n" "\<not> popobs G g n" for g using P at(2) by (auto simp: obs_def popobs_def dead_def)
  have dead': "dead ?G y = dead G y" for y using nn(1) by (auto simp: forget_def dead_def)
  have obs': "obs ?G g y" if "obs G g y" for g y using that dead' nn(2) by (cases "y = n") (auto simp: forget_def obs_def)
  have popg: "popobs ?G g y" if "popobs G g y" for g y using that dead' nn(3) by (cases "y = n") (auto simp: forget_def popobs_def)
  have ch: "chainto (nx s') p xs e = chainto (nx s) p xs e" "chainto (lk s') p xs e = chainto (lk s) p xs e" if "n \<notin> set xs" for p xs e
    using sel(1,2) that chainto_cong [of xs "nx s'" "nx s"] chainto_cong [of xs "lk s'" "lk s"] by metis+
  have "g_at G a = Some (P_new t) \<longleftrightarrow> a = n" for a using layD(2) [OF l, of a "P_new t"] P(2) by simp
  then have "lay ?G" using l by (auto simp: lay_def forget_def) (metis P(1) option.inject)
  moreover have "card (dom (g_at ?G)) + 1 = card (dom (g_at G))"
  proof -
    have "dom (g_at ?G) = dom (g_at G) - {n}" by (auto simp: forget_def)
    moreover have "n \<in> dom (g_at G)" using P by auto
    ultimately show ?thesis using fin by (metis Suc_eq_plus1 card_Suc_Diff1)
  qed
  moreover have "dom (g_at ?G) \<subseteq> dom (g_at G)" by (auto simp: forget_def)
  ultimately have "nodes_ok s' ?G"
    using d(2) sel(5) [of 0] at(2) finite_subset [OF _ fin]
    by (auto simp: nodes_ok_def s'_def forget_def)
  moreover have "chains_ok s' ?G"
  proof -
    have "\<forall>b. bag_ok s' ?G b"
      by (rule bags_same [OF d(3) sr]) (simp_all add: forget_def, metis sel(2) at(4) rplace.distinct)
    then show ?thesis using d(3) at(4) sel(1) [of 0] at(2) by (auto simp: chains_ok_def forget_def ch) (auto simp: s'_def)
  qed
  moreover have "dead_ok s' ?G"
    unfolding dead_ok_def
  proof (intro allI impI)
    fix y assume "dead ?G y"
    then have y: "dead G y" "y \<noteq> n" using dead' nn by auto
    then show "marked s' y \<and> g_ub ?G y \<le> cgen s' \<and> (\<forall>b. g_at ?G y = Some (P_bag b) \<longrightarrow> g_ub ?G y \<le> gb_gen (blk s' b)) \<and>
        (lo s' \<le> g_ub ?G y \<longrightarrow> (\<forall>m. nx s' y = Some m \<longrightarrow> m \<noteq> 0 \<and> obs ?G (g_ub ?G y) m))"
      using d(4) obs' sel [OF y(2)] same_ring_sel [OF sr] by (auto simp: dead_ok_def) (auto simp: forget_def s'_def)
  qed
  moreover have "vals_ok s' ?G"
    using d(5) sel(3) by (auto simp: vals_ok_def forget_def) (auto simp: s'_def)
  moreover have "rec_ok s' ?G" by (rule rec_same [OF d(6) sr]) (auto simp: forget_def s'_def)
  ultimately show "mem_ok s' ?G" using d(1) same_ring_sel [OF sr] by (simp add: mem_ok_def)
  have "x \<noteq> n" if "obs G g x \<or> popobs G g x \<or> (u \<noteq> t \<and> g_at G x \<in> {Some (P_new u), Some (P_pop u), Some (P_dead u)})" for g x u
    using that nn P by auto
  then show "keeps t s G s' ?G"
    using sel obs' popg by (fastforce simp: keeps_def forget_def)
qed

lemma effect_new:
  fixes s :: "'a rcu" and v :: 'a and w q i
  assumes m: "mem_ok s G" and n: "rl_nodes s n = None" and P: "g_list G (P_new t) = []"
  defines "s' \<equiv> s\<lparr>rl_nodes := (rl_nodes s)(n \<mapsto> \<lparr>rn_value = Some v, rn_next = w, rn_link = q, rn_inc = i\<rparr>), rl_allocated := rl_allocated s + 1\<rparr>"
  shows "mem_ok s' (appear n (P_new t) G)" "keeps t s G s' (appear n (P_new t) G)"
proof -
  let ?G = "appear n (P_new t) G"
  note d = mem_okD [OF m]
  have sr: "same_ring s s'" by (simp add: same_ring_def s'_def)
  have l: "lay G" and fin: "finite (dom (g_at G))" using d(2) by (auto simp: nodes_ok_def)
  have n0: "n \<noteq> 0" using n head_node(1) [OF m] by metis
  have an: "g_at G n = None" using d(2) n by (simp add: nodes_ok_def)
  have nl: "n \<notin> set (g_list G Q)" for Q using layD(2) [OF l] an by simp
  have sel: "nx s' x = nx s x" "lk s' x = lk s x" "val s' x = val s x" "inc s' x = inc s x" "marked s' x = marked s x"
    "rl_next s' x = rl_next s x" if "x \<noteq> n" for x
    using that by (auto simp: s'_def nx_def lk_def val_def inc_def marked_def rl_next_def)
  have nn: "\<not> dead G n" "\<not> obs G g n" "\<not> popobs G g n" for g using an n0 by (auto simp: obs_def popobs_def dead_def)
  have dead': "dead ?G y = dead G y" for y using nn(1) by (auto simp: appear_def dead_def)
  have obs': "obs ?G g y" if "obs G g y" for g y using that dead' nn(2) by (cases "y = n") (auto simp: appear_def obs_def)
  have popg: "popobs ?G g y" if "popobs G g y" for g y using that dead' nn(3) by (cases "y = n") (auto simp: appear_def popobs_def)
  have ch: "chainto (nx s') p xs e = chainto (nx s) p xs e" "chainto (lk s') p xs e = chainto (lk s) p xs e" if "n \<notin> set xs" for p xs e
    using sel(1,2) that chainto_cong [of xs "nx s'" "nx s"] chainto_cong [of xs "lk s'" "lk s"] by metis+
  have "g_at G a \<noteq> Some (P_new t)" for a using layD(2) [OF l, of a "P_new t"] P by simp
  then have "lay ?G" using l an by (auto simp: lay_def appear_def)
  moreover have "card (dom (g_at ?G)) = card (dom (g_at G)) + 1"
  proof -
    have "dom (g_at ?G) = insert n (dom (g_at G))" by (auto simp: appear_def)
    then show ?thesis using fin an by (simp add: domIff)
  qed
  moreover have "finite (dom (g_at ?G))" using fin by (simp add: appear_def)
  ultimately have "nodes_ok s' ?G"
    using d(2) sel(5) [of 0] n0 by (auto simp: nodes_ok_def s'_def appear_def)
  moreover have "chains_ok s' ?G"
  proof -
    have "\<forall>b. bag_ok s' ?G b"
      by (rule bags_same [OF d(3) sr]) (simp_all add: appear_def, metis sel(2) nl)
    then show ?thesis using d(3) nl sel(1) [of 0] n0 by (auto simp: chains_ok_def appear_def ch) (auto simp: s'_def)
  qed
  moreover have "dead_ok s' ?G"
    unfolding dead_ok_def
  proof (intro allI impI)
    fix y assume "dead ?G y"
    then have y: "dead G y" "y \<noteq> n" using dead' nn by auto
    then show "marked s' y \<and> g_ub ?G y \<le> cgen s' \<and> (\<forall>b. g_at ?G y = Some (P_bag b) \<longrightarrow> g_ub ?G y \<le> gb_gen (blk s' b)) \<and>
        (lo s' \<le> g_ub ?G y \<longrightarrow> (\<forall>m. nx s' y = Some m \<longrightarrow> m \<noteq> 0 \<and> obs ?G (g_ub ?G y) m))"
      using d(4) obs' sel [OF y(2)] same_ring_sel [OF sr] by (auto simp: dead_ok_def) (auto simp: appear_def s'_def)
  qed
  moreover have "vals_ok s' ?G"
  proof -
    have "val s' n = Some v" by (simp add: s'_def val_def)
    then show ?thesis using d(5) sel(3) by (auto simp: vals_ok_def appear_def) (auto simp: s'_def)
  qed
  moreover have "rec_ok s' ?G" by (rule rec_same [OF d(6) sr]) (auto simp: appear_def s'_def)
  ultimately show "mem_ok s' ?G" using d(1) same_ring_sel [OF sr] by (simp add: mem_ok_def)
  have "x \<noteq> n" if "obs G g x \<or> popobs G g x \<or> (u \<noteq> t \<and> g_at G x \<in> {Some (P_new u), Some (P_pop u), Some (P_dead u)})" for g x u
    using that nn an by auto
  then show "keeps t s G s' ?G"
    using sel obs' popg by (fastforce simp: keeps_def appear_def)
qed

lemma effect_pop:
  fixes s :: "'a rcu" and v :: 'a
  assumes m: "mem_ok s G" and q: "rl_free s = Some q" and P: "g_list G (P_pop t) = []"
  defines "s' \<equiv> set_val q (Some v) (bump_inc q (s\<lparr>rl_free := lk s q\<rparr>))"
  defines "G' \<equiv> move q P_free (tl (g_list G P_free)) (P_pop t) [q] G"
  shows "g_at G q = Some P_free" "mem_ok s' G'" "keeps t s G s' G'"
proof -
  note d = mem_okD [OF m]
  have l: "lay G" using d(2) by (simp add: nodes_ok_def)
  obtain rest where rest: "g_list G P_free = q # rest" "chainto (lk s) (lk s q) rest None"
    using d(3) q by (cases "g_list G P_free") (auto simp: chains_ok_def)
  show aq: "g_at G q = Some P_free" using layD(2) [OF l, of q P_free] rest by simp
  note at = at_place [OF m aq]
  obtain nd where nd: "rl_nodes s q = Some nd" using at(1) by auto
  have sel: "nx s' = nx s" "lk s' = lk s" "val s' = (val s)(q \<mapsto> v)" "inc s' x = (if x = q then Some (rn_inc nd + 1) else inc s x)"
    "marked s' = marked s" "rl_next s' = rl_next s" "rl_nodes s' x = None \<longleftrightarrow> rl_nodes s x = None" for x
    using nd by (auto simp: s'_def set_val_def bump_inc_def nx_def lk_def val_def inc_def marked_def rl_next_def fun_eq_iff)
  have sr: "same_ring s s'" by (simp add: same_ring_def s'_def)
  have nn: "\<not> dead G q" "\<not> obs G g q" for g using aq at(2) by (auto simp: obs_def dead_def)
  have dead': "dead G' y = dead G y" for y using nn(1) by (auto simp: G'_def dead_def)
  have obs': "obs G' g y" if "obs G g y" for g y using that dead' nn(2) by (cases "y = q") (auto simp: G'_def obs_def)
  have popg: "popobs G' g y" if "popobs G g y" for g y using that dead' by (auto simp: G'_def popobs_def)
  have "lay G'" unfolding G'_def
    by (rule lay_move [OF l aq]) (use P rest layD(1) [OF l, of P_free] in auto)
  then have "nodes_ok s' G'" unfolding G'_def
    by (rule nodes_move [OF d(2) aq]) (use sel head_node [OF m] in \<open>auto simp: s'_def\<close>)
  moreover have "chains_ok s' G'"
  proof -
    have "\<forall>b. bag_ok s' G' b"
      by (rule bags_same [OF d(3) sr]) (use sel(2) in \<open>auto simp: G'_def\<close>)
    then show ?thesis using d(3) sel rest by (auto simp: chains_ok_def G'_def) (auto simp: s'_def)
  qed
  moreover have "dead_ok s' G'"
    using d(4) dead' obs' nn(1) sel same_ring_sel [OF sr] by (auto simp: dead_ok_def) (auto simp: G'_def s'_def split: if_splits)
  moreover have "vals_ok s' G'"
    using d(5) sel(3) by (auto simp: vals_ok_def G'_def) (auto simp: s'_def)
  moreover have "rec_ok s' G'" by (rule rec_same [OF d(6) sr]) (auto simp: G'_def s'_def)
  ultimately show "mem_ok s' G'" using d(1) same_ring_sel [OF sr] by (simp add: mem_ok_def)
  show "keeps t s G s' G'"
    using sel obs' popg nn(2) by (auto simp: keeps_def G'_def)
qed

lemma effect_push:
  assumes m: "mem_ok s G" and P: "g_at G n = Some (P_dead t)" "g_list G (P_dead t) = [n]" "lk s n = rl_retired s"
  defines "s' \<equiv> s\<lparr>rl_retired := Some n\<rparr>" and "G' \<equiv> move n (P_dead t) [] P_retired (n # g_list G P_retired) G"
  shows "mem_ok s' G'" "keeps t s G s' G'"
proof -
  note d = mem_okD [OF m] and at = at_place [OF m P(1)]
  have l: "lay G" using d(2) by (simp add: nodes_ok_def)
  have sel: "nx s' = nx s" "lk s' = lk s" "val s' = val s" "inc s' = inc s" "marked s' = marked s" "rl_next s' = rl_next s" "rl_nodes s' = rl_nodes s"
    by (auto simp: s'_def nx_def lk_def val_def inc_def marked_def rl_next_def fun_eq_iff)
  have sr: "same_ring s s'" by (simp add: same_ring_def s'_def)
  have dead': "dead G' y = dead G y" for y using P by (auto simp: G'_def dead_def)
  have obs': "obs G' g y = obs G g y" for g y using dead' P by (auto simp: G'_def obs_def)
  have popg: "popobs G' g y = popobs G g y" for g y using dead' P by (auto simp: G'_def popobs_def)
  have "lay G'" unfolding G'_def
    by (rule lay_move [OF l P(1)]) (use P at(4) layD(1) [OF l, of P_retired] in auto)
  then have "nodes_ok s' G'" unfolding G'_def
    by (rule nodes_move [OF d(2) P(1)]) (use sel head_node [OF m] in \<open>auto simp: s'_def\<close>)
  moreover have "chains_ok s' G'"
  proof -
    have "\<forall>b. bag_ok s' G' b"
      by (rule bags_same [OF d(3) sr]) (use sel(2) in \<open>auto simp: G'_def\<close>)
    then show ?thesis using d(3) sel P(3) by (auto simp: chains_ok_def G'_def) (auto simp: s'_def)
  qed
  moreover have "dead_ok s' G'"
    using d(4) dead' obs' sel same_ring_sel [OF sr] by (auto simp: dead_ok_def) (auto simp: G'_def s'_def split: if_splits)
  moreover have "vals_ok s' G'" unfolding G'_def
    by (rule vals_move [OF d(5) P(1)]) (use sel in \<open>auto simp: s'_def\<close>)
  moreover have "rec_ok s' G'" by (rule rec_same [OF d(6) sr]) (auto simp: G'_def s'_def)
  ultimately show "mem_ok s' G'" using d(1) same_ring_sel [OF sr] by (simp add: mem_ok_def)
  show "keeps t s G s' G'"
    using sel obs' popg by (auto simp: keeps_def G'_def)
qed

end
