(* ===== verification/Rcu_Ring.thy ===== *)
theory Rcu_Ring
  imports Rcu_Effect
begin

text \<open>
  What the reclaimer of \<open>LockFreeListRCU\<close> does to the memory invariant: taking the retired list, sealing a generation, destroying the
  values of a bag and giving its nodes to the free list.
\<close>

section \<open>The ring\<close>

lemma set_block_fields [simp]:
  "rl_nodes (set_block b B s) = rl_nodes s" "rl_current (set_block b B s) = rl_current s" "rl_reclaiming (set_block b B s) = rl_reclaiming s"
  "rl_oldest (set_block b B s) = rl_oldest s" "rl_retired (set_block b B s) = rl_retired s" "rl_free (set_block b B s) = rl_free s"
  "rl_allocated (set_block b B s) = rl_allocated s" "rl_handles (set_block b B s) = rl_handles s" "rl_iters (set_block b B s) = rl_iters s"
  "rl_threads (set_block b B s) = rl_threads s" "rl_pcs (set_block b B s) = rl_pcs s" "rl_did (set_block b B s) = rl_did s"
  "rl_ring (set_block b B s) = (rl_ring s)[b := B]"
  by (simp_all add: set_block_def)

definition published :: "addr \<Rightarrow> 'a rcu \<Rightarrow> 'a rcu" where
  "published c s = (set_block (next_slot s) ((blk s (next_slot s))\<lparr>gb_state := G_current, gb_gen := gb_gen (blk s (rl_current s)) + 1\<rparr>)
     (set_block (rl_current s) ((blk s (rl_current s))\<lparr>gb_bag := Some c, gb_state := G_sealed\<rparr>) s))\<lparr>rl_current := next_slot s\<rparr>"

lemma next_slot_less: "ring_ok s \<Longrightarrow> next_slot s < K_of s"
  using ring_okD(4) by (fastforce simp: next_slot_def)

lemma next_slot_empty:
  assumes "ring_ok s" and "gb_state (blk s (next_slot s)) = G_empty"
  shows "next_slot s \<noteq> rl_current s" "next_slot s \<noteq> rl_oldest s"
    "rpos (K_of s) (rl_oldest s) (next_slot s) = Suc (rpos (K_of s) (rl_oldest s) (rl_current s))"
proof -
  note r = ring_okD [OF assms(1)]
  show "next_slot s \<noteq> rl_current s" using r(5) assms(2) by auto
  have "gb_state (blk s (rl_oldest s)) \<noteq> G_empty" using r(8) [OF r(2)] r(4) by (auto simp: slot_ok_def split: if_splits)
  then show o: "next_slot s \<noteq> rl_oldest s" using assms(2) by auto
  then have "rpos (K_of s) (rl_oldest s) (next_slot s) \<noteq> 0"
    using rpos_inj [OF next_slot_less [OF assms(1)] r(2) r(2)] r(4) by simp
  then show "rpos (K_of s) (rl_oldest s) (next_slot s) = Suc (rpos (K_of s) (rl_oldest s) (rl_current s))"
    using rpos_Suc_slot [OF r(3) r(2)] by (auto simp: next_slot_def split: if_splits)
qed

lemma ring_publish:
  assumes r: "ring_ok s" and e: "gb_state (blk s (next_slot s)) = G_empty"
  shows "ring_ok (published c s)" "lo (published c s) = lo s" "cgen (published c s) = Suc (cgen s)"
proof -
  let ?K = "K_of s" and ?o = "rl_oldest s"
  note d = ring_okD [OF r] and n = next_slot_empty [OF r e] and l = next_slot_less [OF r]
  have o: "gb_gen (blk (published c s) ?o) = gb_gen (blk s ?o)"
    using n d by (auto simp: published_def nth_list_update)
  then show lo': "lo (published c s) = lo s" by (simp add: lo_def published_def)
  show "cgen (published c s) = Suc (cgen s)" using l by (simp add: cgen_def published_def)
  have "slot_ok (rpos ?K ?o (next_slot s)) (lo s) (rpos ?K ?o b) (blk (published c s) b)" if b: "b < ?K" for b
  proof -
    consider "b = next_slot s" | "b = rl_current s" | "b \<noteq> next_slot s" "b \<noteq> rl_current s" by blast
    then show ?thesis
    proof cases
      case 1
      then show ?thesis using d(8) [OF b] d(8) [OF d(3)] n l by (auto simp: slot_ok_def published_def split: if_splits)
    next
      case 2
      then show ?thesis using d(8) [OF b] n l d(3) by (auto simp: slot_ok_def published_def nth_list_update)
    next
      case 3
      then have "rpos ?K ?o b \<noteq> rpos ?K ?o (next_slot s)" "rpos ?K ?o b \<noteq> rpos ?K ?o (rl_current s)"
        using rpos_inj [OF b l d(2)] rpos_inj [OF b d(3) d(2)] by auto
      moreover have "blk (published c s) b = blk s b" using 3 by (simp add: published_def)
      ultimately show ?thesis using d(8) [OF b] n(3) by (auto simp: slot_ok_def split: if_splits)
    qed
  qed
  then show "ring_ok (published c s)"
    using d l lo' by (simp add: ring_ok_def published_def)
qed

definition spliced :: "'a rcu \<Rightarrow> 'a rcu" where
  "spliced s = (set_block (rl_oldest s) ((blk s (rl_oldest s))\<lparr>gb_bag := None, gb_state := G_empty\<rparr>) s)
     \<lparr>rl_free := gb_bag (blk s (rl_oldest s)), rl_oldest := (rl_oldest s + 1) mod K_of s\<rparr>"

lemma ring_splice:
  assumes r: "ring_ok s" and e: "gb_state (blk s (rl_oldest s)) = G_sealed"
  shows "ring_ok (spliced s)" "lo (spliced s) = Suc (lo s)" "cgen (spliced s) = cgen s" "rl_oldest (spliced s) \<noteq> rl_oldest s"
proof -
  let ?K = "K_of s" and ?o = "rl_oldest s"
  let ?p = "rpos ?K ?o" and ?q = "rpos ?K (Suc ?o mod ?K)"
  note d = ring_okD [OF r]
  have q: "?q b = (if ?p b = 0 then ?K - 1 else ?p b - 1)" if "b < ?K" for b using rpos_Suc_oldest [OF that d(2)] .
  have ol: "Suc ?o mod ?K < ?K" using d(4) by simp
  have ne: "rl_current s \<noteq> ?o" using d(5) e by auto
  have pc: "?p (rl_current s) \<noteq> 0" using rpos_inj [OF d(3) d(2) d(2)] ne d(4) by simp
  have oo: "Suc ?o mod ?K \<noteq> ?o" using d(1,2) by (simp add: Suc_mod_cases)
  then show "rl_oldest (spliced s) \<noteq> ?o" by (simp add: spliced_def)
  have po: "?p (Suc ?o mod ?K) = 1" using rpos_Suc_slot [OF d(2) d(2)] d(1,4) by simp
  have blko: "blk (spliced s) b = blk s b" if "b \<noteq> ?o" for b using that by (simp add: spliced_def)
  have g1: "gb_gen (blk s (Suc ?o mod ?K)) = Suc (lo s)"
    using d(8) [OF ol] po pc by (auto simp: slot_ok_def split: if_splits)
  then show lo': "lo (spliced s) = Suc (lo s)" using oo by (simp add: lo_def spliced_def)
  show "cgen (spliced s) = cgen s" using ne by (simp add: cgen_def spliced_def)
  have "slot_ok (?q (rl_current s)) (Suc (lo s)) (?q b) (blk (spliced s) b)" if b: "b < ?K" for b
  proof (cases "b = ?o")
    case True
    then have "?q b = ?K - 1" using q [OF b] d(4) by simp
    moreover have "?q (rl_current s) < ?K - 1" using q [OF d(3)] pc rpos_less [OF d(4), of ?o "rl_current s"] by auto
    ultimately show ?thesis using True d(2) by (simp add: slot_ok_def spliced_def)
  next
    case False
    then have "?p b \<noteq> 0" using rpos_inj [OF b d(2) d(2)] d(4) by simp
    then show ?thesis using d(8) [OF b] q [OF b] q [OF d(3)] pc blko [OF False] by (auto simp: slot_ok_def split: if_splits)
  qed
  then show "ring_ok (spliced s)" using d ol lo' by (simp add: ring_ok_def spliced_def)
qed

section \<open>The reclaimer's program counter\<close>

definition at_rc :: "(tid \<times> reclaim_pc) option \<Rightarrow> ghost \<Rightarrow> ghost" where
  "at_rc r G = G\<lparr>g_rec := r\<rparr>"

lemma at_rc_sel [simp]:
  "g_at (at_rc r G) = g_at G" "g_list (at_rc r G) = g_list G" "g_ub (at_rc r G) = g_ub G" "g_rec (at_rc r G) = r"
  "lay (at_rc r G) = lay G" "dead (at_rc r G) = dead G" "obs (at_rc r G) = obs G" "popobs (at_rc r G) = popobs G"
  by (auto simp: at_rc_def lay_def dead_def obs_def popobs_def fun_eq_iff)

lemma at_rc_ok [simp]: "nodes_ok s (at_rc r G) = nodes_ok s G" "dead_ok s (at_rc r G) = dead_ok s G"
  by (simp_all add: nodes_ok_def dead_ok_def)

lemma reclaiming_sel [simp]:
  "nx (s\<lparr>rl_reclaiming := f\<rparr>) = nx s" "lk (s\<lparr>rl_reclaiming := f\<rparr>) = lk s" "val (s\<lparr>rl_reclaiming := f\<rparr>) = val s"
  "inc (s\<lparr>rl_reclaiming := f\<rparr>) = inc s" "marked (s\<lparr>rl_reclaiming := f\<rparr>) = marked s" "rl_next (s\<lparr>rl_reclaiming := f\<rparr>) = rl_next s"
  "lo (s\<lparr>rl_reclaiming := f\<rparr>) = lo s" "cgen (s\<lparr>rl_reclaiming := f\<rparr>) = cgen s"
  by (auto simp: nx_def lk_def val_def inc_def marked_def rl_next_def fun_eq_iff lo_def cgen_def)

lemma effect_rc:
  assumes m: "mem_ok s G" and w: "walked r = walked (g_rec G)" "pend r = pend (g_rec G)" "\<And>e. bag_end (g_rec G) e \<Longrightarrow> bag_end r e"
    and r: "rec_ok (s\<lparr>rl_reclaiming := f\<rparr>) (at_rc r G)"
  shows "mem_ok (s\<lparr>rl_reclaiming := f\<rparr>) (at_rc r G)" "keeps t s G (s\<lparr>rl_reclaiming := f\<rparr>) (at_rc r G)"
proof -
  let ?s = "s\<lparr>rl_reclaiming := f\<rparr>" and ?G = "at_rc r G"
  note d = mem_okD [OF m]
  have sr: "same_ring s ?s" by (simp add: same_ring_def)
  have b: "bag_ok ?s ?G b" for b
  proof -
    have "bag_ok s G b" using d(3) by (simp add: chains_ok_def)
    then show ?thesis using w(3) by (cases "b < K_of s") (auto simp: bag_ok_def split: if_splits)
  qed
  have "nodes_ok ?s ?G" using d(2) by (simp add: nodes_ok_def)
  moreover have "chains_ok ?s ?G" using d(3) w b by (simp add: chains_ok_def)
  moreover have "dead_ok ?s ?G" using d(4) by (simp add: dead_ok_def)
  moreover have "vals_ok ?s ?G" using d(5) w by (simp add: vals_ok_def)
  ultimately show "mem_ok ?s ?G" using r d(1) same_ring_sel(3) [OF sr] by (simp add: mem_ok_def)
  show "keeps t s G ?s ?G" by (auto simp: keeps_def)
qed

section \<open>Moving a whole population\<close>

definition move_all :: "rplace \<Rightarrow> rplace \<Rightarrow> addr list \<Rightarrow> ghost \<Rightarrow> ghost" where
  "move_all P Q ys G = G\<lparr>g_at := (\<lambda>a. if g_at G a = Some P then Some Q else g_at G a), g_list := (g_list G)(P := [], Q := ys)\<rparr>"

lemma move_all_sel [simp]:
  "g_at (move_all P Q ys G) = (\<lambda>a. if g_at G a = Some P then Some Q else g_at G a)"
  "g_list (move_all P Q ys G) = (g_list G)(P := [], Q := ys)"
  "g_ub (move_all P Q ys G) = g_ub G" "g_rec (move_all P Q ys G) = g_rec G"
  by (simp_all add: move_all_def)

lemma lay_move_all:
  assumes "lay G" and "P \<noteq> Q" and "distinct ys" and "set ys = set (g_list G P) \<union> set (g_list G Q)"
  shows "lay (move_all P Q ys G)"
  using assms by (auto simp: lay_def)

lemma nodes_move_all:
  assumes "nodes_ok s G" and "lay (move_all P Q ys G)" and "rl_nodes s' = rl_nodes s" and "rl_allocated s' = rl_allocated s"
  shows "nodes_ok s' (move_all P Q ys G)"
proof -
  have "dom (\<lambda>a. if g_at G a = Some P then Some Q else g_at G a) = dom (g_at G)" by (auto split: if_splits)
  moreover have "marked s' = marked s" using assms(3) by (simp add: marked_def fun_eq_iff)
  moreover have "g_at (move_all P Q ys G) a = None \<longleftrightarrow> g_at G a = None" for a by simp
  ultimately show ?thesis using assms unfolding nodes_ok_def by (simp del: move_all_sel(1)) (simp add: move_all_def)
qed

lemma same_nodes_sel:
  assumes "rl_nodes s' = rl_nodes s"
  shows "nx s' = nx s" "lk s' = lk s" "val s' = val s" "inc s' = inc s" "marked s' = marked s" "rl_next s' = rl_next s"
  using assms by (auto simp: nx_def lk_def val_def inc_def marked_def rl_next_def fun_eq_iff)

lemma effect_exchange:
  assumes m: "mem_ok s G" and r: "g_rec G = Some (t, Rc_exchange n b)" and c: "rl_retired s = Some c"
  defines "s' \<equiv> s\<lparr>rl_retired := None\<rparr>" and "G' \<equiv> at_rc (Some (t, Rc_publish n b c)) (move_all P_retired P_pend (g_list G P_retired) G)"
  shows "mem_ok s' G'" "keeps t s G s' G'"
proof -
  let ?M = "move_all P_retired P_pend (g_list G P_retired) G"
  note d = mem_okD [OF m]
  have l: "lay G" using d(2) by (simp add: nodes_ok_def)
  have sel: "nx s' = nx s" "lk s' = lk s" "val s' = val s" "inc s' = inc s" "marked s' = marked s" "rl_next s' = rl_next s"
    by (rule same_nodes_sel; simp add: s'_def)+
  have sr: "same_ring s s'" by (simp add: same_ring_def s'_def)
  have pe: "g_list G P_pend = []" using d(3) r by (cases "g_list G P_pend") (auto simp: chains_ok_def)
  have dead': "dead G' y = dead G y" for y by (auto simp: G'_def dead_def)
  have obs': "obs G' g y = obs G g y" for g y using dead' by (auto simp: G'_def obs_def)
  have popg: "popobs G' g y = popobs G g y" for g y using dead' by (auto simp: G'_def popobs_def)
  have "lay ?M" by (rule lay_move_all [OF l]) (use layD(1) [OF l] pe in auto)
  then have "nodes_ok s' ?M" by (rule nodes_move_all [OF d(2)]) (simp_all add: s'_def)
  then have "nodes_ok s' G'" by (simp add: G'_def)
  moreover have "chains_ok s' G'"
  proof -
    have "bag_ok s' G' b" for b
    proof -
      have "bag_ok s G b" using d(3) by (simp add: chains_ok_def)
      then show ?thesis using sel r by (cases "b < K_of s") (auto simp: bag_ok_def G'_def s'_def split: if_splits)
    qed
    then show ?thesis using d(3) sel c by (simp add: chains_ok_def) (simp add: G'_def s'_def)
  qed
  moreover have "dead_ok s' G'"
    using d(4) dead' obs' sel same_ring_sel [OF sr] by (auto simp: dead_ok_def) (auto simp: G'_def s'_def split: if_splits)
  moreover have "vals_ok s' G'" using d(5) sel r by (auto simp: vals_ok_def G'_def s'_def)
  moreover have "rec_ok s' G'" using d(6) r same_ring_sel [OF sr] by (simp add: rec_ok_def G'_def s'_def)
  ultimately show "mem_ok s' G'" using d(1) same_ring_sel [OF sr] by (simp add: mem_ok_def)
  show "keeps t s G s' G'"
    using sel obs' popg by (auto simp: keeps_def G'_def)
qed

lemma effect_publish:
  fixes k i j
  assumes m: "mem_ok s G" and r: "g_rec G = Some (t, Rc_publish n b c)"
  defines "G' \<equiv> at_rc (Some (t, Fp_refs k i j)) (move_all P_pend (P_bag (rl_current s)) (g_list G P_pend) G)"
  shows "mem_ok (published c s) G'" "keeps t s G (published c s) G'"
proof -
  let ?s = "published c s" and ?M = "move_all P_pend (P_bag (rl_current s)) (g_list G P_pend) G"
  note d = mem_okD [OF m]
  note rg = ring_okD [OF d(1)]
  have e: "gb_state (blk s (next_slot s)) = G_empty" using d(6) r by (simp add: rec_ok_def)
  note p = ring_publish [OF d(1) e, of c] and n = next_slot_empty [OF d(1) e] and nl = next_slot_less [OF d(1)]
  have l: "lay G" using d(2) by (simp add: nodes_ok_def)
  have sel: "nx ?s = nx s" "lk ?s = lk s" "val ?s = val s" "inc ?s = inc s" "marked ?s = marked s" "rl_next ?s = rl_next s"
    by (rule same_nodes_sel; simp add: published_def)+
  have K: "K_of ?s = K_of s" by (simp add: published_def)
  have bag0: "g_list G (P_bag x) = []" if "x < K_of s" "gb_bag (blk s x) = None" for x
  proof -
    have "bag_ok s G x" using d(3) by (simp add: chains_ok_def)
    then show ?thesis using that r by (cases "g_list G (P_bag x)") (auto simp: bag_ok_def split: if_splits)
  qed
  have cb: "g_list G (P_bag (rl_current s)) = []" using bag0 rg by blast
  have nb: "g_list G (P_bag (next_slot s)) = []"
    using bag0 [OF nl] ring_sealed_iff [OF d(1) nl] e by auto
  have dead': "dead G' y = dead G y" for y by (auto simp: G'_def dead_def)
  have obs': "obs G' g y = obs G g y" for g y using dead' by (auto simp: G'_def obs_def)
  have popg: "popobs G' g y = popobs G g y" for g y using dead' by (auto simp: G'_def popobs_def)
  have "lay ?M" by (rule lay_move_all [OF l]) (use layD(1) [OF l] cb in auto)
  then have "nodes_ok ?s ?M" by (rule nodes_move_all [OF d(2)]) (simp_all add: published_def)
  then have "nodes_ok ?s G'" by (simp add: G'_def)
  moreover have "chains_ok ?s G'"
  proof -
    have "bag_ok ?s G' x" for x
    proof (cases "x = rl_current s")
      case True
      have "chainto (lk s) (Some c) (g_list G P_pend) None" using d(3) r by (simp add: chains_ok_def)
      then show ?thesis using True rg n sel by (simp add: bag_ok_def published_def G'_def)
    next
      case False
      have b: "bag_ok s G x" using d(3) by (simp add: chains_ok_def)
      moreover have "x < K_of s \<Longrightarrow> gb_bag (blk ?s x) = gb_bag (blk s x)"
        using False by (cases "x = next_slot s") (auto simp: published_def)
      ultimately show ?thesis using False K sel r
        by (cases "x < K_of s") (auto simp: bag_ok_def G'_def published_def split: if_splits)
    qed
    then show ?thesis using d(3) sel by (simp add: chains_ok_def) (simp add: G'_def published_def)
  qed
  moreover have "dead_ok ?s G'"
    unfolding dead_ok_def
  proof (intro allI impI)
    fix y assume "dead G' y"
    then have y: "dead G y" using dead' by simp
    have bg: "g_ub G y \<le> gb_gen (blk ?s x)" if "g_at G' y = Some (P_bag x)" for x
    proof (cases "x = rl_current s")
      case True
      then have "gb_gen (blk ?s x) = cgen s" using n rg by (simp add: published_def cgen_def)
      then show ?thesis using d(4) y by (simp add: dead_ok_def)
    next
      case False
      then have at: "g_at G y = Some (P_bag x)" using that by (auto simp: G'_def split: if_splits)
      then have "x \<noteq> next_slot s" using layD(2) [OF l, of y "P_bag (next_slot s)"] nb by auto
      then have "blk ?s x = blk s x" using False by (simp add: published_def)
      then show ?thesis using d(4) y at by (simp add: dead_ok_def)
    qed
    show "marked ?s y \<and> g_ub G' y \<le> cgen ?s \<and> (\<forall>b. g_at G' y = Some (P_bag b) \<longrightarrow> g_ub G' y \<le> gb_gen (blk ?s b)) \<and>
        (lo ?s \<le> g_ub G' y \<longrightarrow> (\<forall>m. nx ?s y = Some m \<longrightarrow> m \<noteq> 0 \<and> obs G' (g_ub G' y) m))"
      using d(4) y bg obs' sel p(2,3) by (auto simp: dead_ok_def G'_def)
  qed
  moreover have "vals_ok ?s G'" using d(5) sel r by (auto simp: vals_ok_def G'_def published_def)
  moreover have "rec_ok ?s G'" using d(6) r by (simp add: rec_ok_def G'_def published_def)
  ultimately show "mem_ok ?s G'" using p(1) by (simp add: mem_ok_def)
  show "keeps t s G ?s G'"
    using sel obs' popg by (auto simp: keeps_def G'_def)
qed

section \<open>Freeing a bag\<close>

lemma oldest_bag:
  assumes m: "mem_ok s G" and e: "gb_state (blk s (rl_oldest s)) = G_sealed"
  obtains e' where "chainto (lk s) (gb_bag (blk s (rl_oldest s))) (g_list G (P_bag (rl_oldest s))) e'" "bag_end (g_rec G) e'"
proof -
  note d = mem_okD [OF m]
  have "bag_ok s G (rl_oldest s)" using d(3) by (simp add: chains_ok_def)
  then show ?thesis using that ring_okD(2) [OF d(1)] by (auto simp: bag_ok_def split: if_splits)
qed

lemma oldest_bag_nonempty:
  assumes m: "mem_ok s G" and e: "gb_state (blk s (rl_oldest s)) = G_sealed" and "\<And>e. bag_end (g_rec G) e \<Longrightarrow> e = None"
  shows "g_list G (P_bag (rl_oldest s)) \<noteq> []"
proof -
  note d = mem_okD [OF m]
  obtain e' where "chainto (lk s) (gb_bag (blk s (rl_oldest s))) (g_list G (P_bag (rl_oldest s))) e'" "bag_end (g_rec G) e'"
    using oldest_bag [OF m e] by blast
  moreover from this have "e' = None" using assms(3) by blast
  ultimately show ?thesis using ring_sealed_iff [OF d(1) ring_okD(2) [OF d(1)]] e by (auto dest: chainto_hd)
qed

lemma effect_walk:
  assumes m: "mem_ok s G" and r: "g_rec G = Some (t, Fp_walk k n b (Some a) q c)"
  defines "G' \<equiv> at_rc (Some (t, Fp_walk k n b (lk s a) (Some a) (c + 1))) G"
  shows "rl_nodes s a \<noteq> None" "marked s a" "val s a \<noteq> None" "mem_ok (set_val a None s) G'" "keeps t s G (set_val a None s) G'"
proof -
  let ?s = "set_val a None s" and ?xs = "g_list G (P_bag (rl_oldest s))"
  note d = mem_okD [OF m]
  have rc: "gb_state (blk s (rl_oldest s)) = G_sealed" "c < length ?xs" "?xs ! c = a" "rl_reclaiming s"
    using d(6) r by (auto simp: rec_ok_def split: if_splits)
  have l: "lay G" using d(2) by (simp add: nodes_ok_def)
  have ain: "a \<in> set ?xs" using rc by auto
  have at: "g_at G a = Some (P_bag (rl_oldest s))" using layD(2) [OF l] ain by simp
  have dx: "distinct ?xs" using layD(1) [OF l] .
  show ex: "rl_nodes s a \<noteq> None" using at_place(1) [OF m at] .
  show "marked s a" using d(4) at by (auto simp: dead_ok_def dead_def)
  have tk: "take (Suc c) ?xs = take c ?xs @ [a]" using rc by (simp add: take_Suc_conv_app_nth)
  have nt: "a \<notin> set (take c ?xs)"
    using distinct_take [OF dx, of "Suc c"] tk by simp
  show "val s a \<noteq> None" using d(5) at nt r by (auto simp: vals_ok_def)
  note sel = sel_set_val [OF ex]
  have sr: "same_ring s ?s" by (simp add: same_ring_def)
  have lka: "lk s a = (if Suc c < length ?xs then Some (?xs ! Suc c) else None)"
  proof -
    obtain e' where "chainto (lk s) (gb_bag (blk s (rl_oldest s))) ?xs e'" "bag_end (g_rec G) e'" using oldest_bag [OF m rc(1)] by blast
    then show ?thesis using chainto_nth [of "lk s" _ ?xs e' c] rc(2,3) r by simp
  qed
  have "nodes_ok ?s G'" using d(2) sel by (simp add: nodes_ok_def G'_def)
  moreover have "chains_ok ?s G'"
  proof -
    have "bag_ok ?s G' x" for x
    proof -
      have "bag_ok s G x" using d(3) by (simp add: chains_ok_def)
      then show ?thesis using sel r by (cases "x < K_of s") (auto simp: bag_ok_def G'_def split: if_splits)
    qed
    then show ?thesis using d(3) sel r by (simp add: chains_ok_def) (simp add: G'_def)
  qed
  moreover have "dead_ok ?s G'" using d(4) sel same_ring_sel [OF sr] by (simp add: dead_ok_def G'_def)
  moreover have "vals_ok ?s G'" unfolding vals_ok_def
  proof (intro allI impI)
    fix y P assume "g_at G' y = Some P"
    then have y: "g_at G y = Some P" by (simp add: G'_def)
    show "(val ?s y = None) = (P = P_free \<or> P = P_bag (rl_oldest ?s) \<and> y \<in> set (take (walked (g_rec G')) (g_list G' P)))"
      using d(5) y at tk sel(4) r by (cases "y = a") (auto simp: vals_ok_def G'_def)
  qed
  moreover have "rec_ok ?s G'" using d(6) r rc lka same_ring_sel [OF sr] by (simp add: rec_ok_def G'_def)
  ultimately show "mem_ok ?s G'" using d(1) same_ring_sel [OF sr] by (simp add: mem_ok_def)
  show "keeps t s G ?s G'" using sel by (auto simp: keeps_def G'_def)
qed

lemma effect_tail:
  assumes m: "mem_ok s G" and r: "g_rec G = Some (t, Fp_store k n b (Some a) c q)"
  defines "G' \<equiv> at_rc (Some (t, Fp_cas k n b (Some a) c q)) G"
  shows "rl_nodes s a \<noteq> None" "mem_ok (set_rlink a q s) G'" "keeps t s G (set_rlink a q s) G'"
proof -
  let ?s = "set_rlink a q s" and ?xs = "g_list G (P_bag (rl_oldest s))"
  note d = mem_okD [OF m]
  have rc: "gb_state (blk s (rl_oldest s)) = G_sealed" "c = length ?xs" "?xs \<noteq> []" "a = last ?xs" "rl_reclaiming s"
    using d(6) r by (auto simp: rec_ok_def)
  have l: "lay G" using d(2) by (simp add: nodes_ok_def)
  have ain: "a \<in> set ?xs" using rc by auto
  have at: "g_at G a = Some (P_bag (rl_oldest s))" using layD(2) [OF l] ain by simp
  show ex: "rl_nodes s a \<noteq> None" using at_place(1) [OF m at] .
  note sel = sel_set_rlink [OF ex] and ap = at_place(4) [OF m at]
  have sr: "same_ring s ?s" by (simp add: same_ring_def)
  have "nodes_ok ?s G'" using d(2) sel by (simp add: nodes_ok_def G'_def)
  moreover have "chains_ok ?s G'"
  proof -
    have "bag_ok ?s G' x" for x
    proof (cases "x = rl_oldest s")
      case True
      obtain e' where "chainto (lk s) (gb_bag (blk s (rl_oldest s))) ?xs e'" using oldest_bag [OF m rc(1)] by blast
      then have "chainto ((lk s)(a := q)) (gb_bag (blk s (rl_oldest s))) ?xs q"
        using chainto_last [OF _ rc(3) layD(1) [OF l]] rc(4) by simp
      then show ?thesis using True sel ring_okD(2) [OF d(1)] by (simp add: bag_ok_def G'_def)
    next
      case False
      have "bag_ok s G x" using d(3) by (simp add: chains_ok_def)
      then show ?thesis using False sel ap by (cases "x < K_of s") (auto simp: bag_ok_def G'_def)
    qed
    then show ?thesis using d(3) sel ap r by (simp add: chains_ok_def) (simp add: G'_def)
  qed
  moreover have "dead_ok ?s G'" using d(4) sel same_ring_sel [OF sr] by (simp add: dead_ok_def G'_def)
  moreover have "vals_ok ?s G'" using d(5) sel r by (simp add: vals_ok_def G'_def)
  moreover have "rec_ok ?s G'" using d(6) r same_ring_sel [OF sr] by (simp add: rec_ok_def G'_def)
  ultimately show "mem_ok ?s G'" using d(1) same_ring_sel [OF sr] by (simp add: mem_ok_def)
  show "keeps t s G ?s G'" using sel at by (auto simp: keeps_def G'_def)
qed

lemma effect_splice:
  fixes k' i j
  assumes m: "mem_ok s G" and r: "g_rec G = Some (t, Fp_cas k n b q c (rl_free s))"
  defines "G' \<equiv> at_rc (Some (t, Fp_refs k' i j)) (move_all (P_bag (rl_oldest s)) P_free (g_list G (P_bag (rl_oldest s)) @ g_list G P_free) G)"
  shows "mem_ok (spliced s) G'" "keeps t s G (spliced s) G'"
proof -
  let ?s = "spliced s" and ?o = "rl_oldest s" and ?xs = "g_list G (P_bag (rl_oldest s))"
  let ?M = "move_all (P_bag ?o) P_free (?xs @ g_list G P_free) G"
  note d = mem_okD [OF m]
  note rg = ring_okD [OF d(1)]
  have rc: "gb_state (blk s ?o) = G_sealed" "c = length ?xs" "?xs \<noteq> []" "rl_reclaiming s"
    using d(6) r by (auto simp: rec_ok_def)
  note p = ring_splice [OF d(1) rc(1)]
  have l: "lay G" using d(2) by (simp add: nodes_ok_def)
  have sel: "nx ?s = nx s" "lk ?s = lk s" "val ?s = val s" "inc ?s = inc s" "marked ?s = marked s" "rl_next ?s = rl_next s"
    by (rule same_nodes_sel; simp add: spliced_def)+
  have K: "K_of ?s = K_of s" by (simp add: spliced_def)
  have xsf: "set ?xs \<inter> set (g_list G P_free) = {}" using layD(2) [OF l] by auto
  have chx: "chainto (lk s) (gb_bag (blk s ?o)) ?xs (rl_free s)" using oldest_bag [OF m rc(1)] r by auto
  have blko: "blk ?s x = blk s x" if "x \<noteq> ?o" for x using that by (simp add: spliced_def)
  have ubo: "g_ub G y \<le> lo s" if "g_at G y = Some (P_bag ?o)" for y
    using d(4) that by (auto simp: dead_ok_def dead_def lo_def)
  have dead': "dead G' y \<longleftrightarrow> dead G y \<and> g_at G y \<noteq> Some (P_bag ?o)" for y by (auto simp: G'_def dead_def)
  have obs': "obs G' g y" if "obs G g y" "lo s < g" for g y
  proof -
    have "g_at G y \<noteq> Some (P_bag ?o)" if "g \<le> g_ub G y" using ubo [of y] that \<open>lo s < g\<close> by auto
    moreover have "g_at G' y = Some P_chain" if "g_at G y = Some P_chain" using that by (simp add: G'_def)
    moreover have "g_ub G' y = g_ub G y" by (simp add: G'_def)
    ultimately show ?thesis using that(1) dead' [of y] unfolding obs_def by auto
  qed
  have popg: "popobs G' g y" "g_at G' y = Some P_free \<Longrightarrow> g_at G y = Some P_free" if "popobs G g y" "lo s < g" for g y
  proof -
    have nb: "g_at G y \<noteq> Some (P_bag ?o)" if "popobs G g y" using ubo [of y] that \<open>lo s < g\<close> by (auto simp: popobs_def)
    then have "g_at G' y = g_at G y" using that(1) by (simp add: G'_def)
    moreover have "g_ub G' y = g_ub G y" by (simp add: G'_def)
    ultimately show "popobs G' g y" "g_at G' y = Some P_free \<Longrightarrow> g_at G y = Some P_free"
      using that(1) nb dead' [of y] unfolding popobs_def by auto
  qed
  have "lay ?M" by (rule lay_move_all [OF l]) (use layD(1) [OF l] xsf in auto)
  then have "nodes_ok ?s ?M" by (rule nodes_move_all [OF d(2)]) (simp_all add: spliced_def)
  then have "nodes_ok ?s G'" by (simp add: G'_def)
  moreover have "chains_ok ?s G'"
  proof -
    have "bag_ok ?s G' x" for x
    proof (cases "x = ?o")
      case True
      then show ?thesis using rg p(4) by (simp add: bag_ok_def G'_def spliced_def)
    next
      case False
      have b: "bag_ok s G x" using d(3) by (simp add: chains_ok_def)
      then show ?thesis using False K sel blko [OF False]
        by (cases "x < K_of s") (auto simp: bag_ok_def G'_def)
    qed
    moreover have "chainto (lk s) (gb_bag (blk s ?o)) (?xs @ g_list G P_free) None"
      using chx d(3) by (auto simp: chainto_append chains_ok_def)
    ultimately show ?thesis using d(3) sel r by (simp add: chains_ok_def) (simp add: G'_def spliced_def)
  qed
  moreover have "dead_ok ?s G'"
    unfolding dead_ok_def
  proof (intro allI impI)
    fix y assume "dead G' y"
    then have y: "dead G y" "g_at G y \<noteq> Some (P_bag ?o)" using dead' by auto
    have at': "g_at G' y = g_at G y" using y by (simp add: G'_def)
    show "marked ?s y \<and> g_ub G' y \<le> cgen ?s \<and> (\<forall>b. g_at G' y = Some (P_bag b) \<longrightarrow> g_ub G' y \<le> gb_gen (blk ?s b)) \<and>
        (lo ?s \<le> g_ub G' y \<longrightarrow> (\<forall>m. nx ?s y = Some m \<longrightarrow> m \<noteq> 0 \<and> obs G' (g_ub G' y) m))"
    proof -
      have y4: "marked s y" "g_ub G y \<le> cgen s" "g_at G y = Some (P_bag b) \<Longrightarrow> g_ub G y \<le> gb_gen (blk s b)"
        "lo s \<le> g_ub G y \<Longrightarrow> nx s y = Some m \<Longrightarrow> m \<noteq> 0 \<and> obs G (g_ub G y) m" for b m
        using d(4) y(1) by (auto simp: dead_ok_def)
      have ub: "g_ub G' y = g_ub G y" by (simp add: G'_def)
      have "g_ub G y \<le> gb_gen (blk ?s b)" if "g_at G y = Some (P_bag b)" for b
        using y4(3) [OF that] y(2) that blko [of b] by auto
      moreover have "m \<noteq> 0 \<and> obs G' (g_ub G y) m" if "Suc (lo s) \<le> g_ub G y" "nx s y = Some m" for m
        using y4(4) [OF _ that(2)] that(1) obs' by auto
      ultimately show ?thesis using y4(1,2) unfolding ub at' sel p(2,3) by blast
    qed
  qed
  moreover have "vals_ok ?s G'" unfolding vals_ok_def
  proof (intro allI impI)
    fix y P assume y: "g_at G' y = Some P"
    show "(val ?s y = None) = (P = P_free \<or> P = P_bag (rl_oldest ?s) \<and> y \<in> set (take (walked (g_rec G')) (g_list G' P)))"
    proof (cases "g_at G y = Some (P_bag ?o)")
      case True
      then have "val s y = None" using d(5) r rc(2) layD(2) [OF l, of y "P_bag ?o"] by (auto simp: vals_ok_def)
      then show ?thesis using True y sel by (simp add: G'_def)
    next
      case False
      then show ?thesis using d(5) y sel by (auto simp: vals_ok_def G'_def)
    qed
  qed
  moreover have "rec_ok ?s G'" using d(6) r by (simp add: rec_ok_def G'_def spliced_def)
  ultimately show "mem_ok ?s G'" using p(1) by (simp add: mem_ok_def)
  show "keeps t s G ?s G'"
    using sel obs' popg r by (auto simp: keeps_def guard_def G'_def)
qed

end
