(* ===== verification/Rcu_Steps.thy ===== *)
theory Rcu_Steps
  imports Rcu_Ring
begin

text \<open>
  The invariant of \<open>LockFreeListRCU\<close> holds after every step: one lemma combines the effect of a step on the memory with the
  program counter it leads to, and every step of an operation is an instance.
\<close>

section \<open>The other threads\<close>

lemma rl_to_sel [simp]:
  "rl_nodes (rl_to t p s) = rl_nodes s" "rl_ring (rl_to t p s) = rl_ring s" "rl_current (rl_to t p s) = rl_current s"
  "rl_reclaiming (rl_to t p s) = rl_reclaiming s" "rl_oldest (rl_to t p s) = rl_oldest s" "rl_retired (rl_to t p s) = rl_retired s"
  "rl_free (rl_to t p s) = rl_free s" "rl_allocated (rl_to t p s) = rl_allocated s" "rl_handles (rl_to t p s) = rl_handles s"
  "rl_iters (rl_to t p s) = rl_iters s" "rl_threads (rl_to t p s) = rl_threads s" "rl_pcs (rl_to t p s) = (rl_pcs s)(t := p)"
  "rl_did (rl_to t p s) = rl_did s"
  by (simp_all add: rl_to_def)

lemma same_mem_rl_to [simp]: "same_mem s (rl_to t p s)"
  by (simp add: same_mem_def)

lemma rinvD:
  assumes "rinv s G"
  shows "mem_ok s G" "hand_ok s G" "thr_ok s G"
  using assms by (auto simp: rinv_def)

lemma hand_okD:
  assumes "hand_ok s G"
  shows "finite (dom (rl_handles s))" "t \<notin> set (rl_threads s) \<Longrightarrow> rl_at_rest (rl_pcs s t)"
    "rl_handles s h = Some b \<Longrightarrow> held s G b"
    "rl_handles s h = Some b \<Longrightarrow> it \<in> set (rl_iters s h) \<Longrightarrow> fst it \<noteq> 0 \<and> obs G (gb_gen (blk s b)) (fst it) \<and> inc s (fst it) = Some (snd it)"
    "claim_ok s G (rl_pcs s t)" "uses (rl_pcs s t) = Some h \<Longrightarrow> rl_handles s h \<noteq> None"
    "claims (rl_pcs s t) = Some h \<Longrightarrow> t \<noteq> u \<Longrightarrow> claims (rl_pcs s u) \<noteq> Some h"
    "claims (rl_pcs s t) = Some h \<Longrightarrow> t \<noteq> u \<Longrightarrow> uses (rl_pcs s u) \<noteq> Some h"
    "b < K_of s \<Longrightarrow> gb_refs (blk s b) = int (card {h. rl_handles s h = Some b} + card {t. bumps (rl_pcs s t) = Some b})"
  using assms by (auto simp: hand_ok_def)

lemma thr_okD:
  assumes "thr_ok s G"
  shows "g_list G (P_new t) = new_of (rl_pcs s t)" "g_list G (P_pop t) = pop_of (rl_pcs s t)" "g_list G (P_dead t) = dead_of (rl_pcs s t)"
    "uses (rl_pcs s t) = Some h \<Longrightarrow> hgen s h = Some g \<Longrightarrow> pc_ok s G g (rl_pcs s t)"
    "(rl_pcs s t = Reclaim p \<and> p \<noteq> Rc_flag) \<longleftrightarrow> g_rec G = Some (t, p)"
  using assms by (auto simp: thr_ok_def)

lemma keepsD:
  assumes "keeps t s G s' G'"
  shows "guard s G g \<Longrightarrow> obs G g a \<Longrightarrow> obs G' g a" "guard s G g \<Longrightarrow> obs G g a \<Longrightarrow> inc s' a = inc s a"
    "guard s G g \<Longrightarrow> obs G g a \<Longrightarrow> marked s a \<Longrightarrow> rl_next s' a = rl_next s a"
    "guard s G g \<Longrightarrow> popobs G g a \<Longrightarrow> popobs G' g a"
    "guard s G g \<Longrightarrow> popobs G g a \<Longrightarrow> g_at G' a = Some P_free \<Longrightarrow> g_at G a = Some P_free"
    "guard s G g \<Longrightarrow> popobs G g a \<Longrightarrow> g_at G' a = Some P_free \<Longrightarrow> lk s' a = lk s a"
    "u \<noteq> t \<Longrightarrow> g_list G' (P_new u) = g_list G (P_new u)" "u \<noteq> t \<Longrightarrow> g_list G' (P_pop u) = g_list G (P_pop u)"
    "u \<noteq> t \<Longrightarrow> g_list G' (P_dead u) = g_list G (P_dead u)"
    "u \<noteq> t \<Longrightarrow> g_at G a \<in> {Some (P_new u), Some (P_pop u), Some (P_dead u)} \<Longrightarrow> rl_next s' a = rl_next s a \<and> lk s' a = lk s a"
  using assms unfolding keeps_def by blast+

lemma owned:
  assumes "rinv s G"
  shows "a \<in> set (new_of (rl_pcs s t)) \<longleftrightarrow> g_at G a = Some (P_new t)" "a \<in> set (pop_of (rl_pcs s t)) \<longleftrightarrow> g_at G a = Some (P_pop t)"
    "a \<in> set (dead_of (rl_pcs s t)) \<longleftrightarrow> g_at G a = Some (P_dead t)"
proof -
  have "lay G" using mem_okD(2) [OF rinvD(1) [OF assms]] by (simp add: nodes_ok_def)
  then show "a \<in> set (new_of (rl_pcs s t)) \<longleftrightarrow> g_at G a = Some (P_new t)" "a \<in> set (pop_of (rl_pcs s t)) \<longleftrightarrow> g_at G a = Some (P_pop t)"
    "a \<in> set (dead_of (rl_pcs s t)) \<longleftrightarrow> g_at G a = Some (P_dead t)"
    using layD(2) thr_okD(1-3) [OF rinvD(3) [OF assms], of t] by metis+
qed

lemma marked_next: "rl_next s x = Some w \<Longrightarrow> marked s x = is_marked w"
  by (auto simp: marked_def rl_next_def)

lemma ctx_ok_keeps: "keeps t s G s' G' \<Longrightarrow> guard s G g \<Longrightarrow> ctx_ok G g k \<Longrightarrow> ctx_ok G' g k"
  by (cases k) (auto dest: keepsD(1))

lemma init_ok_keeps:
  assumes inv: "rinv s G" and k: "keeps t s G s' G'" and u: "u \<noteq> t" and g: "guard s G g" and pc: "rl_pcs s u = Init p" "init_ok s G g p"
  shows "init_ok s' G' g p"
proof -
  note K = keepsD [OF k] and own = owned [OF inv, of _ u]
  show ?thesis
  proof (cases p)
    case (In_cas h a n q e)
    then have "g_at G n \<in> {Some (P_new u), Some (P_pop u), Some (P_dead u)}" using own(1,2) [of n] pc(1) by (cases q) auto
    then show ?thesis using K(10) [OF u] pc(2) In_cas K(1) [OF g] by auto
  next
    case (Al_cas h a v q n)
    then show ?thesis using pc(2) K(1,4-6) [OF g] by auto
  qed (use pc(2) K(1,4) [OF g] in auto)
qed

lemma pc_ok_keeps:
  assumes inv: "rinv s G" and k: "keeps t s G s' G'" and u: "u \<noteq> t" and g: "guard s G g" and pc: "pc_ok s G g (rl_pcs s u)"
  shows "pc_ok s' G' g (rl_pcs s u)"
proof -
  note K = keepsD [OF k] and own = owned [OF inv, of _ u]
  show ?thesis
  proof (cases "rl_pcs s u")
    case (Init p)
    then show ?thesis using init_ok_keeps [OF inv k u g Init] pc by simp
  next
    case (Erase_after p)
    then show ?thesis using pc K(1,3) [OF g] by (cases p) (auto simp: marked_next)
  next
    case (Retire p)
    show ?thesis
    proof (cases p)
      case (Rt_cas c n q)
      then have "g_at G n = Some (P_dead u)" using own(3) [of n] Retire by auto
      then show ?thesis using K(10) [OF u] Rt_cas Retire pc ctx_ok_keeps [OF k g] by auto
    qed (use Retire pc ctx_ok_keeps [OF k g] in auto)
  qed simp_all
qed

section \<open>A step that changes the memory\<close>

lemma hgen_guard:
  assumes "hand_ok s G" and "hgen s h = Some g"
  obtains b where "rl_handles s h = Some b" "g = gb_gen (blk s b)" "held s G b" "guard s G g"
proof -
  obtain b where b: "rl_handles s h = Some b" "g = gb_gen (blk s b)" using assms(2) by (auto simp: hgen_def)
  then show ?thesis using that hand_okD(3) [OF assms(1) b(1)] by (auto simp: held_def)
qed

text \<open>A block that a session is on, or that a refresh has joined.\<close>

definition member :: "'a rcu \<Rightarrow> nat \<Rightarrow> bool" where
  "member s b \<longleftrightarrow> (\<exists>h. rl_handles s h = Some b) \<or> (\<exists>t h. rl_pcs s t = Refresh (Rf_leave h b))"

lemma rinv_step:
  assumes inv: "rinv s G" and mem: "mem_ok s1 G'" and k: "keeps t s G s1 G'"
    and same: "rl_pcs s1 = rl_pcs s" "rl_handles s1 = rl_handles s" "rl_iters s1 = rl_iters s" "rl_threads s1 = rl_threads s" "K_of s1 = K_of s"
    and ref: "\<And>b. gb_refs (blk s1 b) = gb_refs (blk s b)"
    and hld: "\<And>b. member s b \<Longrightarrow> held s G b \<Longrightarrow> held s1 G' b \<and> gb_gen (blk s1 b) = gb_gen (blk s b)"
    and p: "\<not> rl_at_rest (rl_pcs s t)" "claims (rl_pcs s t) = None" "bumps (rl_pcs s t) = None" "claims p' = None" "bumps p' = None"
      "uses p' = None \<or> uses p' = uses (rl_pcs s t)" "claim_ok s1 G' p'"
    and own: "g_list G' (P_new t) = new_of p'" "g_list G' (P_pop t) = pop_of p'" "g_list G' (P_dead t) = dead_of p'"
    and rc: "\<And>q. (p' = Reclaim q \<and> q \<noteq> Rc_flag) \<longleftrightarrow> g_rec G' = Some (t, q)" "\<And>u q. u \<noteq> t \<Longrightarrow> g_rec G' = Some (u, q) \<longleftrightarrow> g_rec G = Some (u, q)"
    and ok: "\<And>h g. uses p' = Some h \<Longrightarrow> hgen s h = Some g \<Longrightarrow> guard s G g \<Longrightarrow> pc_ok s G g (rl_pcs s t) \<Longrightarrow> pc_ok s1 G' g p'"
  shows "rinv (rl_to t p' s1) G'"
proof -
  let ?s = "rl_to t p' s1"
  note i = rinvD [OF inv]
  note h = hand_okD [OF i(2)] and th = thr_okD [OF i(3)]
  note K = keepsD [OF k]
  have sm: "same_mem s1 ?s" by simp
  note rg = ring_okD [OF mem_okD(1) [OF mem]]
  note sel = same_mem_sel [OF sm] and ring = same_mem_ring [OF sm rg(3,2)]
  have tin: "t \<in> set (rl_threads s)" using h(2) p(1) by blast
  have mem': "mem_ok ?s G'" using same_mem_ok [OF sm mem] .
  have hb: "held s1 G' b \<and> gb_gen (blk s1 b) = gb_gen (blk s b) \<and> guard s G (gb_gen (blk s b))" if "rl_handles s x = Some b" for x b
    using hld h(3) [OF that] that by (auto simp: member_def held_def)
  have hg: "hgen ?s x = hgen s x" for x using hb same(2) by (cases "rl_handles s x") (auto simp: hgen_def)
  have "hand_ok ?s G'"
    unfolding hand_ok_def
  proof (intro conjI allI impI ballI)
    show "finite (dom (rl_handles ?s))" using h(1) same by simp
    show "rl_at_rest (rl_pcs ?s u)" if "u \<notin> set (rl_threads ?s)" for u using h(2) tin that same by auto
    show "held ?s G' b" if "rl_handles ?s x = Some b" for x b using hb that same ring by simp
    show "fst it \<noteq> 0" "obs G' (gb_gen (blk ?s b)) (fst it)" "inc ?s (fst it) = Some (snd it)"
      if "rl_handles ?s x = Some b" "it \<in> set (rl_iters ?s x)" for x b it
    proof -
      have x: "rl_handles s x = Some b" "it \<in> set (rl_iters s x)" using that same by simp_all
      note o = h(4) [OF x] and b = hb [OF x(1)]
      show "fst it \<noteq> 0" using o by simp
      show "obs G' (gb_gen (blk ?s b)) (fst it)" using o b K(1) by simp
      show "inc ?s (fst it) = Some (snd it)" using o b K(2) [of "gb_gen (blk s b)" "fst it"] sel by simp
    qed
    show "claim_ok ?s G' (rl_pcs ?s u)" for u
    proof (cases "u = t")
      case True
      then show ?thesis using p(7) ring(4) by (cases p') (auto split: join_pc.splits jctx.splits refresh_pc.splits)
    next
      case False
      have rl: "held s1 G' b" if "rl_pcs s u = Refresh (Rf_leave x b)" for x b
        using hld [of b] h(5) [of u] that by (auto simp: member_def)
      show ?thesis using h(5) [of u] False same ring(4) rl
        by (cases "rl_pcs s u") (auto split: join_pc.splits jctx.splits refresh_pc.splits)
    qed
    show "rl_handles ?s x \<noteq> None" if "uses (rl_pcs ?s u) = Some x" for u x
      using that h(6) [of u x] h(6) [of t x] same p(6) by (cases "u = t") auto
    show "claims (rl_pcs ?s v) \<noteq> Some x" "uses (rl_pcs ?s v) \<noteq> Some x" if "claims (rl_pcs ?s u) = Some x" "u \<noteq> v" for u v x
      using that h(7) [of u x v] h(8) [of u x v] h(8) [of u x t] same p by (auto split: if_splits)
    show "gb_refs (blk ?s b) = int (card {x. rl_handles ?s x = Some b} + card {u. bumps (rl_pcs ?s u) = Some b})" if "b < K_of ?s" for b
    proof -
      have "{u. bumps (rl_pcs ?s u) = Some b} = {u. bumps (rl_pcs s u) = Some b}" using p same by auto
      then show ?thesis using h(9) [of b] that same ref by simp
    qed
  qed
  moreover have "thr_ok ?s G'"
    unfolding thr_ok_def
  proof (intro conjI allI impI)
    show "g_list G' (P_new u) = new_of (rl_pcs ?s u)" "g_list G' (P_pop u) = pop_of (rl_pcs ?s u)" "g_list G' (P_dead u) = dead_of (rl_pcs ?s u)" for u
      using own K(7-9) [of u] th(1-3) [of u] same by (cases "u = t"; simp)+
    show "pc_ok ?s G' g (rl_pcs ?s u)" if "uses (rl_pcs ?s u) = Some x" "hgen ?s x = Some g" for u x g
    proof -
      have g: "hgen s x = Some g" using that(2) hg by simp
      then have gd: "guard s G g" using hgen_guard [OF i(2)] by blast
      have pcs: "pc_ok s1 G' g q \<Longrightarrow> pc_ok ?s G' g q" for q
        by (cases q) (use sel in \<open>auto elim!: init_ok.elims rerase_ok.elims retire_ok.elims\<close>)
      show ?thesis
      proof (cases "u = t")
        case True
        then have "uses p' = Some x" using that(1) by simp
        moreover from this have "uses (rl_pcs s t) = Some x" using p(6) by auto
        ultimately show ?thesis using ok [OF _ g gd th(4) [OF _ g]] pcs True by simp
      next
        case False
        then have "pc_ok s G g (rl_pcs s u)" using that(1) th(4) [OF _ g, of u] same by simp
        then show ?thesis using pc_ok_keeps [OF inv k False gd] pcs False same by simp
      qed
    qed
    show "(rl_pcs ?s u = Reclaim q \<and> q \<noteq> Rc_flag) = (g_rec G' = Some (u, q))" for u q
      using rc(1) [of q] rc(2) [of u q] th(5) [of u q] same by (cases "u = t") auto
  qed
  ultimately show ?thesis using mem' by (simp add: rinv_def)
qed

section \<open>The abstract list\<close>

text \<open>
  The live nodes in list order with their values, and the atomic list they are compared with: an insertion behind a present node, and
  the removal of a present node.
\<close>

fun put_after :: "addr \<Rightarrow> addr \<times> 'v \<Rightarrow> (addr \<times> 'v) list \<Rightarrow> (addr \<times> 'v) list" where
  "put_after a p [] = []"
| "put_after a p (x # xs) = (if fst x = a then x # p # xs else x # put_after a p xs)"

fun vlist_exec :: "(addr \<times> 'v) list \<Rightarrow> list_op \<times> 'v \<Rightarrow> (addr \<times> 'v) list option" where
  "vlist_exec xs (Link t a n, v) = (if a \<in> fst ` set xs \<and> n \<notin> fst ` set xs then Some (put_after a (n, v) xs) else None)"
| "vlist_exec xs (Unlink t x, v) = (if (x, v) \<in> set xs then Some (filter (\<lambda>p. fst p \<noteq> x) xs) else None)"

definition avl :: "'a rcu \<Rightarrow> ghost \<Rightarrow> (addr \<times> 'a option) list" where
  "avl s G = map (\<lambda>a. (a, val s a)) (filter (\<lambda>a. \<not> marked s a) (full G))"

fun rl_lin_pc :: "tid \<Rightarrow> 'a rl_pc \<Rightarrow> 'a rcu \<Rightarrow> (list_op \<times> 'a option) option" where
  "rl_lin_pc t (Init (In_cas h a n q e)) s = (if rl_next s a = Some e then Some (Link t a n, val s n) else None)"
| "rl_lin_pc t (Erase_after (Rx_mark h a x w)) s = (if rl_next s x = Some w then Some (Unlink t x, val s x) else None)"
| "rl_lin_pc t _ s = None"

definition good :: "(list_op \<times> 'a option) option \<Rightarrow> 'a rcu \<Rightarrow> ghost \<Rightarrow> 'a rcu \<Rightarrow> bool" where
  "good l s G s' \<longleftrightarrow> (\<exists>G'. rinv s' G' \<and>
     (case l of None \<Rightarrow> avl s' G' = avl s G | Some b \<Rightarrow> vlist_exec (avl s G) b = Some (avl s' G')))"

lemma map_link_after: "map (\<lambda>x. (x, f x)) (link_after a n xs) = put_after a (n, f n) (map (\<lambda>x. (x, f x)) xs)"
  by (induction xs) auto

lemma avl_same:
  assumes "g_list G' P_chain = g_list G P_chain" and "\<And>a. a \<in> set (full G) \<Longrightarrow> marked s' a = marked s a \<and> (\<not> marked s a \<longrightarrow> val s' a = val s a)"
  shows "avl s' G' = avl s G"
proof -
  have "filter (\<lambda>a. \<not> marked s' a) (full G') = filter (\<lambda>a. \<not> marked s a) (full G)"
    using assms by (intro filter_cong) auto
  then show ?thesis using assms(2) by (simp add: avl_def)
qed

lemma avl_rl_to [simp]: "avl (rl_to t p s) G = avl s G"
  using same_mem_sel [OF same_mem_rl_to [where s = s and t = t and p = p]] by (simp add: avl_def)

section \<open>Steps of the list operations\<close>

lemma keeps_refl [simp]: "keeps t s G s G"
  by (simp add: keeps_def)

definition op_pc :: "'a rl_pc \<Rightarrow> bool" where
  "op_pc p \<longleftrightarrow> uses p \<noteq> None \<or> (\<exists>r. p = Rl_done r)"

lemma op_pc_facts:
  assumes "op_pc p"
  shows "claims p = None" "bumps p = None" "claim_ok s G p" "p \<noteq> Reclaim q"
  using assms by (cases p; auto simp: op_pc_def)+

lemma uses_facts:
  assumes "uses p = Some h"
  shows "op_pc p" "\<not> rl_at_rest p"
  using assms by (cases p; auto simp: op_pc_def)+

lemma rinv_op:
  assumes inv: "rinv s G" and u: "uses (rl_pcs s t) = Some h" and mem: "mem_ok s1 G'" and k: "keeps t s G s1 G'" and sr: "same_ring s s1"
    and same: "rl_pcs s1 = rl_pcs s" "rl_handles s1 = rl_handles s" "rl_iters s1 = rl_iters s" "rl_threads s1 = rl_threads s" "g_rec G' = g_rec G"
    and p: "op_pc p'" "uses p' = None \<or> uses p' = Some h"
    and own: "g_list G' (P_new t) = new_of p'" "g_list G' (P_pop t) = pop_of p'" "g_list G' (P_dead t) = dead_of p'"
    and ok: "\<And>g. uses p' = Some h \<Longrightarrow> guard s G g \<Longrightarrow> pc_ok s G g (rl_pcs s t) \<Longrightarrow> pc_ok s1 G' g p'"
  shows "rinv (rl_to t p' s1) G'"
proof (rule rinv_step [OF inv mem k same(1-4)])
  note i = rinvD [OF inv]
  show "K_of s1 = K_of s" "gb_refs (blk s1 b) = gb_refs (blk s b)" for b using sr by (simp_all add: same_ring_def)
  show "held s1 G' b \<and> gb_gen (blk s1 b) = gb_gen (blk s b)" if "held s G b" for b
    using that sr same_ring_sel [OF sr] same(5) by (simp add: same_ring_def held_def guard_def)
  show "\<not> rl_at_rest (rl_pcs s t)" "claims (rl_pcs s t) = None" "bumps (rl_pcs s t) = None"
    using uses_facts [OF u] op_pc_facts by auto
  show "claims p' = None" "bumps p' = None" "claim_ok s1 G' p'" using op_pc_facts [OF p(1)] by auto
  show "uses p' = None \<or> uses p' = uses (rl_pcs s t)" using p(2) u by simp
  show "g_list G' (P_new t) = new_of p'" "g_list G' (P_pop t) = pop_of p'" "g_list G' (P_dead t) = dead_of p'" using own .
  have "g_rec G \<noteq> Some (t, q)" for q
    using thr_okD(5) [OF i(3), of t q] op_pc_facts(4) [OF uses_facts(1) [OF u], of q] by auto
  then show "(p' = Reclaim q \<and> q \<noteq> Rc_flag) = (g_rec G' = Some (t, q))" for q
    using op_pc_facts(4) [OF p(1)] same(5) by simp
  show "g_rec G' = Some (v, q) \<longleftrightarrow> g_rec G = Some (v, q)" for v q using same(5) by simp
  show "pc_ok s1 G' g p'" if "uses p' = Some x" "guard s G g" "pc_ok s G g (rl_pcs s t)" for x g
    using ok that p(2) by auto
qed

lemma op_handle:
  assumes inv: "rinv s G" and u: "uses (rl_pcs s t) = Some h"
  obtains g where "hgen s h = Some g" "guard s G g" "pc_ok s G g (rl_pcs s t)"
proof -
  note i = rinvD [OF inv]
  obtain b where "rl_handles s h = Some b" using hand_okD(6) [OF i(2) u] by auto
  then have g: "hgen s h = Some (gb_gen (blk s b))" by (simp add: hgen_def)
  moreover have "guard s G (gb_gen (blk s b))" using hgen_guard [OF i(2) g] by blast
  ultimately show ?thesis using that thr_okD(4) [OF i(3) u] by blast
qed

text \<open>A step that reads only.\<close>

lemma rinv_pc:
  assumes inv: "rinv s G" and u: "uses (rl_pcs s t) = Some h" and p: "op_pc p'" "uses p' = None \<or> uses p' = Some h"
    and own: "new_of p' = new_of (rl_pcs s t)" "pop_of p' = pop_of (rl_pcs s t)" "dead_of p' = dead_of (rl_pcs s t)"
    and ok: "\<And>g. uses p' = Some h \<Longrightarrow> guard s G g \<Longrightarrow> pc_ok s G g (rl_pcs s t) \<Longrightarrow> pc_ok s G g p'"
  shows "good None s G (rl_to t p' s)"
proof -
  note i = rinvD [OF inv]
  have "rinv (rl_to t p' s) G"
    by (rule rinv_op [OF inv u i(1) keeps_refl]) (use p own thr_okD(1-3) [OF i(3)] ok in \<open>simp_all add: same_ring_def\<close>)
  then show ?thesis by (auto simp: good_def)
qed

end
