(* ===== verification/Rcu_Ops.thy ===== *)
theory Rcu_Ops
  imports Rcu_Steps
begin

text \<open>
  Every step of \<open>insert_after\<close>, \<open>erase_after\<close>, \<open>retire\<close> and \<open>reclaim\<close> is possible in a state with the invariant, keeps the invariant
  and has the effect of at most one operation on the abstract list.
\<close>

section \<open>\<open>insert_after\<close>\<close>

lemma free_popobs:
  assumes m: "mem_ok s G" and q: "rl_free s = Some q"
  shows "popobs G g q"
proof -
  have "lay G" using mem_okD(2) [OF m] by (simp add: nodes_ok_def)
  moreover have "q \<in> set (g_list G P_free)" using mem_okD(3) [OF m] q by (cases "g_list G P_free") (auto simp: chains_ok_def)
  ultimately show ?thesis using layD(2) by (auto simp: popobs_def)
qed

lemma next_exists:
  assumes "rl_nodes s a \<noteq> None"
  obtains w where "rl_next s a = Some w" "nx s a = fst w" "marked s a = is_marked w"
  using assms that by (cases "rl_nodes s a") (auto simp: rl_next_def nx_def marked_def)

lemma avl_link:
  assumes m: "mem_ok s G" and P: "g_at G n = Some P" "P = P_new t \<or> P = P_pop t" and a: "a = 0 \<or> g_at G a = Some P_chain" "\<not> marked s a" "\<not> marked s n"
    and s': "\<And>x. marked s' x = marked s x" "val s' = val s" and G': "full G' = link_after a n (full G)"
  shows "vlist_exec (avl s G) (Link t a n, val s n) = Some (avl s' G')"
proof -
  note full = full_chain [OF m]
  have "n \<notin> set (full G)" using full(3) [of n] P at_place(2) [OF m P(1)] by auto
  moreover have "a \<in> set (full G)" using full(3) a by simp
  moreover have "avl s' G' = put_after a (n, val s n) (avl s G)"
  proof -
    have "avl s' G' = map (\<lambda>a. (a, val s a)) (filter (\<lambda>a. \<not> marked s a) (link_after a n (full G)))"
      unfolding avl_def G' using s' by simp
    also have "filter (\<lambda>a. \<not> marked s a) (link_after a n (full G)) = link_after a n (filter (\<lambda>a. \<not> marked s a) (full G))"
      using a by (intro filter_link_after) auto
    finally show ?thesis by (simp only: avl_def map_link_after)
  qed
  ultimately show ?thesis using a by (auto simp: avl_def image_image)
qed

text \<open>A write to nodes that are not on the chain leaves the abstract list alone.\<close>

lemma avl_off_chain:
  assumes m: "mem_ok s G" and n: "n \<noteq> 0" "g_at G n \<noteq> Some P_chain" and G': "g_list G' P_chain = g_list G P_chain"
    and s': "\<And>x. x \<noteq> n \<Longrightarrow> marked s' x = marked s x \<and> val s' x = val s x"
  shows "avl s' G' = avl s G"
proof (rule avl_same [OF G'])
  fix x assume "x \<in> set (full G)"
  then have "x \<noteq> n" using full_chain(3) [OF m, of x] n by auto
  then show "marked s' x = marked s x \<and> (\<not> marked s x \<longrightarrow> val s' x = val s x)" using s' by simp
qed

lemma goodI: "rinv s' G' \<Longrightarrow> avl s' G' = avl s G \<Longrightarrow> good None s G s'"
  "rinv s' G' \<Longrightarrow> vlist_exec (avl s G) b = Some (avl s' G') \<Longrightarrow> good (Some b) s G s'"
  by (auto simp: good_def)

lemma pop_head_inv:
  assumes inv: "rinv s G" and pc: "rl_pcs s t = Init (Al_head h a v) \<or> (\<exists>q n. rl_pcs s t = Init (Al_cas h a v q n))"
  shows "good None s G (rl_to t (pop_head h a v (rl_free s)) s)"
proof -
  have u: "uses (rl_pcs s t) = Some h" using pc by auto
  show ?thesis
    by (rule rinv_pc [OF inv u]) (use pc free_popobs [OF rinvD(1) [OF inv]] in \<open>auto simp: pop_head_def op_pc_def split: option.splits\<close>)
qed

lemma pop_inv:
  assumes inv: "rinv s G" and pc: "rl_pcs s t = Init (Al_cas h a v q n)" and q: "rl_free s = Some q"
  defines "s1 \<equiv> set_val q (Some v) (bump_inc q (s\<lparr>rl_free := n\<rparr>))"
  shows "rl_nodes s q \<noteq> None" "good None s G (rl_to t (Init (In_load h a q True)) s1)"
proof -
  note i = rinvD [OF inv]
  note m = i(1) and th = thr_okD [OF i(3), where t = t]
  have u: "uses (rl_pcs s t) = Some h" using pc by simp
  obtain g where g: "guard s G g" "init_ok s G g (Al_cas h a v q n)" using op_handle [OF inv u] pc by auto
  have P: "g_list G (P_pop t) = []" using th(2) pc by simp
  note e = effect_pop(1) [OF m q P] effect_pop(2,3) [OF m q P, of v]
  have n: "lk s q = n" using e(1) g by simp
  show ex: "rl_nodes s q \<noteq> None" using at_place(1) [OF m e(1)] .
  let ?G = "move q P_free (tl (g_list G P_free)) (P_pop t) [q] G"
  have e1: "mem_ok s1 ?G" "keeps t s G s1 ?G" using e(2,3) n by (simp_all add: s1_def)
  have r: "rinv (rl_to t (Init (In_load h a q True)) s1) ?G"
    by (rule rinv_op [OF inv u e1]) (use pc th keepsD(1) [OF e1(2)] in \<open>auto simp: same_ring_def op_pc_def s1_def\<close>)
  moreover have "avl s1 ?G = avl s G"
    by (rule avl_off_chain [OF m at_place(2) [OF m e(1)]]) (use e(1) in \<open>auto simp: s1_def marked_def val_def set_val_def bump_inc_def\<close>)
  ultimately show "good None s G (rl_to t (Init (In_load h a q True)) s1)" by (auto intro: goodI)
qed

lemma own_place:
  assumes "rinv s G" and "rl_pcs s t = Init (In_load h a n q) \<or> rl_pcs s t = Init (In_store h a n q e) \<or> rl_pcs s t = Init (In_cas h a n q e)"
  shows "g_at G n = Some (if q then P_pop t else P_new t)" "g_list G (if q then P_pop t else P_new t) = [n]"
    "(if q then P_pop t else P_new t) = P_new t \<or> (if q then P_pop t else P_new t) = P_pop t"
  using owned(1,2) [OF assms(1), of n t] thr_okD(1,2) [OF rinvD(3) [OF assms(1)], of t] assms(2) by (auto split: if_splits)

lemma store_inv:
  assumes inv: "rinv s G" and pc: "rl_pcs s t = Init (In_store h a n q e)"
  shows "rl_nodes s n \<noteq> None" "good None s G (rl_to t (Init (In_cas h a n q e)) (set_next n e s))"
proof -
  note m = rinvD(1) [OF inv] and th = thr_okD [OF rinvD(3) [OF inv], where t = t]
  have u: "uses (rl_pcs s t) = Some h" using pc by simp
  note P = own_place [OF inv disjI2 [OF disjI1 [OF pc]]]
  note ef = effect_next_own [OF m P(1,3), of e] and at = at_place [OF m P(1)]
  note sel = sel_set_next [OF at(1)]
  show "rl_nodes s n \<noteq> None" using at(1) .
  have r: "rinv (rl_to t (Init (In_cas h a n q e)) (set_next n e s)) G"
    by (rule rinv_op [OF inv u ef]) (use pc th sel in \<open>auto simp: same_ring_def op_pc_def\<close>)
  moreover have "avl (set_next n e s) G = avl s G"
    by (rule avl_off_chain [OF m at(2)]) (use P sel in \<open>auto split: if_splits\<close>)
  ultimately show "good None s G (rl_to t (Init (In_cas h a n q e)) (set_next n e s))" by (auto intro: goodI)
qed

lemma link_inv:
  assumes inv: "rinv s G" and pc: "rl_pcs s t = Init (In_cas h a n q e)" and w: "rl_next s a = Some e"
  defines "s2 \<equiv> (set_next a (Some n, False) s)\<lparr>rl_did := (rl_did s)(t := rl_did s t @ [Link t a n])\<rparr>"
  shows "good (Some (Link t a n, val s n)) s G (rl_to t (Rl_done (Res_insert True)) s2)"
proof -
  note m = rinvD(1) [OF inv] and th = thr_okD [OF rinvD(3) [OF inv], where t = t]
  have u: "uses (rl_pcs s t) = Some h" using pc by simp
  obtain g where g: "guard s G g" "init_ok s G g (In_cas h a n q e)" using op_handle [OF inv u] pc by auto
  note P = own_place [OF inv disjI2 [OF disjI2 [OF pc]]]
  have ne: "rl_next s n = Some e" "\<not> is_marked e" "\<not> marked s a" "\<not> marked s n" using g w by (auto simp: marked_next)
  have a: "a = 0 \<or> g_at G a = Some P_chain" using obs_unmarked [OF m, of g a] g ne by simp
  let ?s1 = "set_next a (Some n, False) s" and ?G = "move n (if q then P_pop t else P_new t) [] P_chain (tl (link_after a n (full G))) G"
  note ef = effect_link [OF m P(1,3,2) a w ne(1,2)]
  have sm: "same_mem ?s1 s2" by (simp add: same_mem_def s2_def)
  have k2: "keeps t s G s2 ?G" using ef(2) same_mem_sel [OF sm] by (simp add: keeps_def)
  have "rinv (rl_to t (Rl_done (Res_insert True)) s2) ?G"
    by (rule rinv_op [OF inv u same_mem_ok [OF sm ef(1)] k2]) (use pc th P in \<open>auto simp: same_ring_def op_pc_def s2_def\<close>)
  moreover have "vlist_exec (avl s G) (Link t a n, val s n) = Some (avl s2 ?G)"
  proof (rule avl_link [OF m P(1,3) a ne(3,4)])
    have "rl_nodes s a \<noteq> None" using w by (auto simp: rl_next_def)
    then show "marked s2 x = marked s x" "val s2 = val s" for x using same_mem_sel [OF sm] sel_set_next [of s a] ne(3) by auto
  qed (rule ef(3))
  ultimately show ?thesis by (auto intro: goodI)
qed

lemma dispose_inv:
  assumes inv: "rinv s G" and pc: "rl_pcs s t = Init (In_dispose h n)"
  shows "rl_nodes s n \<noteq> None" "good None s G (rl_to t (Retire (Rt_load (K_init h) n)) (set_next n (set_mark (None, False)) s))"
proof -
  let ?s1 = "set_next n (set_mark (None, False)) s" and ?G = "die n (cgen s) (move n (P_pop t) [] (P_dead t) [n] G)"
  note m = rinvD(1) [OF inv] and th = thr_okD [OF rinvD(3) [OF inv], where t = t]
  have u: "uses (rl_pcs s t) = Some h" using pc by simp
  have P: "g_at G n = Some (P_pop t)" "g_list G (P_pop t) = [n]" "g_list G (P_dead t) = []"
    using owned(2) [OF inv, of n t] th(2,3) pc by auto
  note ef = effect_dispose [OF m P] and at = at_place [OF m P(1)]
  note sel = sel_set_next [OF at(1)]
  show "rl_nodes s n \<noteq> None" using at(1) .
  have "rinv (rl_to t (Retire (Rt_load (K_init h) n)) ?s1) ?G"
    by (rule rinv_op [OF inv u ef]) (use pc th in \<open>auto simp: same_ring_def op_pc_def\<close>)
  moreover have "avl ?s1 ?G = avl s G"
    by (rule avl_off_chain [OF m at(2)]) (use P sel in auto)
  ultimately show "good None s G (rl_to t (Retire (Rt_load (K_init h) n)) ?s1)" by (auto intro: goodI)
qed

lemma delete_inv:
  assumes inv: "rinv s G" and pc: "rl_pcs s t = Init (In_delete h n)"
  defines "s1 \<equiv> s\<lparr>rl_nodes := (rl_nodes s)(n := None), rl_allocated := rl_allocated s - 1\<rparr>"
  shows "\<exists>nd. rl_nodes s n = Some nd \<and> rn_value nd \<noteq> None" "good None s G (rl_to t (Rl_done (Res_insert False)) s1)"
proof -
  note m = rinvD(1) [OF inv] and th = thr_okD [OF rinvD(3) [OF inv], where t = t]
  have u: "uses (rl_pcs s t) = Some h" using pc by simp
  have P: "g_at G n = Some (P_new t)" "g_list G (P_new t) = [n]"
    using owned(1) [OF inv, of n t] th(1) pc by auto
  note ef = effect_delete [OF m P] and at = at_place [OF m P(1)]
  have "val s n \<noteq> None" using mem_okD(5) [OF m] P(1) by (auto simp: vals_ok_def)
  then show "\<exists>nd. rl_nodes s n = Some nd \<and> rn_value nd \<noteq> None" by (cases "rl_nodes s n") (auto simp: val_def)
  have "rinv (rl_to t (Rl_done (Res_insert False)) s1) (forget n (P_new t) G)"
    unfolding s1_def by (rule rinv_op [OF inv u ef]) (use pc th in \<open>auto simp: same_ring_def op_pc_def forget_def\<close>)
  moreover have "avl s1 (forget n (P_new t) G) = avl s G"
    by (rule avl_off_chain [OF m at(2)]) (use P in \<open>auto simp: forget_def s1_def marked_def val_def\<close>)
  ultimately show "good None s G (rl_to t (Rl_done (Res_insert False)) s1)" by (auto intro: goodI)
qed

lemma init_step_inv:
  assumes inv: "rinv s G" and pc: "rl_pcs s t = Init p" and nw: "\<And>h a v. p \<noteq> Al_new h a v"
  shows "\<exists>s'. init_step t p s = Some s' \<and> good (rl_lin_pc t (Init p) s) s G s'"
proof -
  note m = rinvD(1) [OF inv]
  have u: "uses (rl_pcs s t) = Some (init_handle p)" using pc by simp
  obtain g where g: "guard s G g" "init_ok s G g p" using op_handle [OF inv u] pc by auto
  show ?thesis
  proof (cases p)
    case (Al_head h a v)
    then show ?thesis using pop_head_inv [OF inv, of t h a v] pc by simp
  next
    case (Al_link h a v q)
    then obtain n where n: "rl_nodes s q = Some n" using popobs_exists [OF m, of g q] g by auto
    then have "good None s G (rl_to t (Init (Al_cas h a v q (rn_link n))) s)"
      by (intro rinv_pc [OF inv u]) (use pc Al_link in \<open>auto simp: op_pc_def lk_def\<close>)
    then show ?thesis using Al_link n by simp
  next
    case (Al_cas h a v q n)
    then show ?thesis using pop_head_inv [OF inv, of t h a v] pop_inv [OF inv, of t h a v q n] pc by auto
  next
    case (In_load h a n q)
    then have "rl_nodes s a \<noteq> None" using obs_exists [OF m, of g a] g by auto
    then obtain w where w: "rl_next s a = Some w" by (rule next_exists)
    have "good None s G (rl_to t (Init (if is_marked w then (if q then In_dispose h n else In_delete h n) else In_store h a n q w)) s)"
      by (rule rinv_pc [OF inv u]) (use pc In_load in \<open>auto simp: op_pc_def\<close>)
    then show ?thesis using In_load w by (auto split: if_splits)
  next
    case (In_cas h a n q e)
    then have "rl_nodes s a \<noteq> None" using obs_exists [OF m, of g a] g by auto
    then obtain w where w: "rl_next s a = Some w" by (rule next_exists)
    have "good None s G (rl_to t (Init (In_load h a n q)) s)"
      by (rule rinv_pc [OF inv u]) (use pc In_cas in \<open>auto simp: op_pc_def\<close>)
    then show ?thesis using In_cas w link_inv [OF inv, of t h a n q e] pc by simp
  next
    case (In_delete h n)
    then show ?thesis using delete_inv [OF inv, of t h n] pc by auto
  qed (use nw pc store_inv [OF inv, of t] dispose_inv [OF inv, of t] in auto)
qed

lemma new_step_inv:
  assumes inv: "rinv s G" and st: "new_step t x s = Some s'"
  shows "good None s G s'"
proof -
  obtain h a v where pc: "rl_pcs s t = Init (Al_new h a v)" and x: "rl_nodes s x = None"
    and s': "s' = rl_to t (Init (In_load h a x False))
       (s\<lparr>rl_nodes := (rl_nodes s)(x \<mapsto> \<lparr>rn_value = Some v, rn_next = (None, False), rn_link = None, rn_inc = 0\<rparr>), rl_allocated := rl_allocated s + 1\<rparr>)"
    using st by (auto simp: new_step_def split: rl_pc.splits init_pc.splits if_splits)
  note m = rinvD(1) [OF inv] and th = thr_okD [OF rinvD(3) [OF inv], where t = t]
  have u: "uses (rl_pcs s t) = Some h" using pc by simp
  have P: "g_list G (P_new t) = []" using th(1) pc by simp
  note ef = effect_new [OF m x P, of v "(None, False)" None 0]
  have "rinv s' (appear x (P_new t) G)"
    unfolding s' by (rule rinv_op [OF inv u ef]) (use pc th keepsD(1) [OF ef(2)] in \<open>auto simp: same_ring_def op_pc_def appear_def\<close>)
  moreover have "x \<noteq> 0" "g_at G x = None" using x head_node(1) [OF m] mem_okD(2) [OF m] by (metis, simp add: nodes_ok_def)
  then have "avl s' (appear x (P_new t) G) = avl s G"
    by (intro avl_off_chain [OF m]) (auto simp: appear_def s' marked_def val_def)
  ultimately show ?thesis by (rule goodI)
qed

lemma no_memory_inv:
  assumes inv: "rinv s G" and pc: "rl_pcs s t = Init (Al_new h a v)"
  shows "good None s G (rl_to t (Rl_done Res_bad_alloc) s)"
proof -
  have u: "uses (rl_pcs s t) = Some h" using pc by simp
  show ?thesis by (rule rinv_pc [OF inv u]) (use pc in \<open>auto simp: op_pc_def\<close>)
qed

section \<open>\<open>retire\<close>\<close>

lemma retire_return_facts:
  "op_pc (retire_return k)" "uses (retire_return k) = None \<or> uses (retire_return k) = Some (ctx_handle k)"
  "new_of (retire_return k) = []" "pop_of (retire_return k) = []" "dead_of (retire_return k) = []"
  "ctx_ok G g k \<Longrightarrow> pc_ok s G g (retire_return k)"
  by (cases k; auto simp: op_pc_def)+

lemma retire_own:
  assumes "rinv s G" and "rl_pcs s t = Retire (Rt_load k n) \<or> rl_pcs s t = Retire (Rt_store k n q) \<or> rl_pcs s t = Retire (Rt_cas k n q)"
  shows "g_at G n = Some (P_dead t)" "g_list G (P_dead t) = [n]" "g_list G (P_new t) = []" "g_list G (P_pop t) = []"
    "uses (rl_pcs s t) = Some (ctx_handle k)"
  using owned(3) [OF assms(1), of n t] thr_okD(1-3) [OF rinvD(3) [OF assms(1)], of t] assms(2) by auto

lemma retire_reload:
  assumes inv: "rinv s G" and pc: "rl_pcs s t = Retire (Rt_load k n) \<or> rl_pcs s t = Retire (Rt_cas k n q)"
  shows "good None s G (rl_to t (Retire (Rt_store k n (rl_retired s))) s)"
proof -
  have u: "uses (rl_pcs s t) = Some (ctx_handle k)" using pc by auto
  show ?thesis by (rule rinv_pc [OF inv u]) (use pc in \<open>auto simp: op_pc_def\<close>)
qed

lemma retire_step_inv:
  assumes inv: "rinv s G" and pc: "rl_pcs s t = Retire p"
  shows "\<exists>s'. retire_step t p s = Some s' \<and> good None s G s'"
proof -
  note m = rinvD(1) [OF inv]
  show ?thesis
  proof (cases p)
    case (Rt_load k n)
    then have P: "g_at G n = Some (P_dead t)" using retire_own(1) [OF inv] pc by simp
    then obtain w where "rl_next s n = Some w" "marked s n = is_marked w" using next_exists [OF at_place(1) [OF m P]] by metis
    moreover have "marked s n" using mem_okD(4) [OF m] P by (auto simp: dead_ok_def dead_def)
    ultimately show ?thesis using retire_reload [OF inv] Rt_load pc by auto
  next
    case (Rt_store k n q)
    note o = retire_own [OF inv disjI2 [OF disjI1 [OF pc [unfolded Rt_store]]]]
    note ef = effect_rlink_own [OF m o(1), of q] and sel = sel_set_rlink [OF at_place(1) [OF m o(1)]]
    have "rinv (rl_to t (Retire (Rt_cas k n q)) (set_rlink n q s)) G"
      by (rule rinv_op [OF inv o(5) ef]) (use pc Rt_store o sel in \<open>auto simp: same_ring_def op_pc_def\<close>)
    moreover have "avl (set_rlink n q s) G = avl s G"
      by (rule avl_off_chain [OF m at_place(2) [OF m o(1)]]) (use o sel in auto)
    ultimately have "good None s G (rl_to t (Retire (Rt_cas k n q)) (set_rlink n q s))" by (auto intro: goodI)
    then show ?thesis using Rt_store at_place(1) [OF m o(1)] by simp
  next
    case (Rt_cas k n q)
    note o = retire_own [OF inv disjI2 [OF disjI2 [OF pc [unfolded Rt_cas]]]]
    show ?thesis
    proof (cases "rl_retired s = q")
      case True
      obtain g where g: "guard s G g" "pc_ok s G g (rl_pcs s t)" using op_handle [OF inv o(5)] by blast
      have l: "lk s n = rl_retired s" using g True Rt_cas pc by simp
      note ef = effect_push [OF m o(1,2) l]
      let ?s1 = "s\<lparr>rl_retired := Some n\<rparr>" and ?G = "move n (P_dead t) [] P_retired (n # g_list G P_retired) G"
      have "rinv (rl_to t (retire_return k) ?s1) ?G"
        by (rule rinv_op [OF inv o(5) ef])
          (use pc Rt_cas o retire_return_facts(2) [of k] in
            \<open>auto simp: same_ring_def retire_return_facts(1,3-6) ctx_ok_keeps [OF ef(2)]\<close>)
      moreover have "avl ?s1 ?G = avl s G"
        by (rule avl_off_chain [OF m at_place(2) [OF m o(1)]]) (use o in \<open>auto simp: marked_def val_def\<close>)
      ultimately have "good None s G (rl_to t (retire_return k) ?s1)" by (auto intro: goodI)
      then show ?thesis using Rt_cas True by simp
    next
      case False
      then show ?thesis using retire_reload [OF inv] Rt_cas pc by simp
    qed
  qed
qed

section \<open>\<open>erase_after\<close>\<close>

lemma mark_inv:
  assumes inv: "rinv s G" and pc: "rl_pcs s t = Erase_after (Rx_mark h a x w)" and x: "rl_next s x = Some w"
  defines "s2 \<equiv> (set_next x (set_mark w) s)\<lparr>rl_did := (rl_did s)(t := rl_did s t @ [Unlink t x])\<rparr>"
  shows "good (Some (Unlink t x, val s x)) s G (rl_to t (Erase_after (Rx_unlink h a x (set_mark w) True)) s2)"
proof -
  let ?s1 = "set_next x (set_mark w) s"
  note m = rinvD(1) [OF inv] and th = thr_okD [OF rinvD(3) [OF inv], where t = t]
  have u: "uses (rl_pcs s t) = Some h" using pc by simp
  obtain g where g: "guard s G g" "rerase_ok s G g (Rx_mark h a x w)" using op_handle [OF inv u] pc by auto
  have um: "\<not> is_marked w" "\<not> marked s x" using g x by (auto simp: marked_next)
  have xc: "g_at G x = Some P_chain" using obs_unmarked [OF m, of g x] g um by simp
  note ef = effect_mark [OF m xc x um(1)] and sel = sel_set_next [OF at_place(1) [OF m xc]]
  have sm: "same_mem ?s1 s2" by (simp add: same_mem_def s2_def)
  note sel2 = same_mem_sel [OF sm]
  have k2: "keeps t s G s2 G" using ef(2) sel2 by (simp add: keeps_def)
  have "rinv (rl_to t (Erase_after (Rx_unlink h a x (set_mark w) True)) s2) G"
    by (rule rinv_op [OF inv u same_mem_ok [OF sm ef(1)] k2])
      (use pc th sel sel2 in \<open>auto simp: same_ring_def op_pc_def s2_def set_mark_def\<close>)
  moreover have "vlist_exec (avl s G) (Unlink t x, val s x) = Some (avl s2 G)"
  proof -
    have "(x, val s x) \<in> set (avl s G)" using um(2) full_chain(3) [OF m, of x] xc by (auto simp: avl_def)
    moreover have "filter (\<lambda>y. \<not> marked s2 y) (full G) = filter (\<lambda>y. y \<noteq> x) (filter (\<lambda>y. \<not> marked s y) (full G))"
      unfolding filter_filter by (rule filter_cong) (auto simp: sel2 sel set_mark_def)
    then have "avl s2 G = filter (\<lambda>p. fst p \<noteq> x) (avl s G)" using sel sel2 by (simp add: avl_def filter_map o_def)
    ultimately show ?thesis by simp
  qed
  ultimately show ?thesis by (auto intro: goodI)
qed

lemma unlink_inv:
  assumes inv: "rinv s G" and pc: "rl_pcs s t = Erase_after (Rx_unlink h a x w mine)" and a: "rl_next s a = Some (Some x, False)"
  shows "good None s G (rl_to t (Retire (Rt_load (K_erase h a mine) x)) (set_next a (get_unmarked w) s))"
proof -
  note m = rinvD(1) [OF inv] and th = thr_okD [OF rinvD(3) [OF inv], where t = t]
  have u: "uses (rl_pcs s t) = Some h" using pc by simp
  obtain g where g: "guard s G g" "rerase_ok s G g (Rx_unlink h a x w mine)" using op_handle [OF inv u] pc by auto
  have L: "g_list G (P_dead t) = []" using th(3) pc by simp
  have ua: "\<not> marked s a" using a by (simp add: marked_next)
  have ac: "a = 0 \<or> g_at G a = Some P_chain" using obs_unmarked [OF m, of g a] g ua by simp
  have xw: "rl_next s x = Some w" "is_marked w" using g by auto
  note ef = effect_unlink [OF m xw L ac a]
  let ?s1 = "set_next a (get_unmarked w) s" and ?G = "die x (cgen s) (move x P_chain (remove1 x (g_list G P_chain)) (P_dead t) [x] G)"
  have "rinv (rl_to t (Retire (Rt_load (K_erase h a mine) x)) ?s1) ?G"
    by (rule rinv_op [OF inv u ef(2,3)]) (use pc th keepsD(1) [OF ef(3)] in \<open>auto simp: same_ring_def op_pc_def\<close>)
  moreover have "avl ?s1 ?G = avl s G"
  proof -
    have "rl_nodes s a \<noteq> None" using a by (auto simp: rl_next_def)
    then have mk: "marked ?s1 = marked s" "val ?s1 = val s" using sel_set_next [of s a] ua by (auto simp: get_unmarked_def fun_eq_iff)
    have "marked s x" using xw by (simp add: marked_next)
    then have "filter (\<lambda>y. \<not> marked s y) (full ?G) = filter (\<lambda>y. \<not> marked s y) (full G)"
      by (simp add: filter_remove1 remove1_idem)
    then show ?thesis using mk by (simp add: avl_def)
  qed
  ultimately show ?thesis by (auto intro: goodI)
qed

lemma rerase_step_inv:
  assumes inv: "rinv s G" and pc: "rl_pcs s t = Erase_after p"
  shows "\<exists>s'. rerase_step t p s = Some s' \<and> good (rl_lin_pc t (Erase_after p) s) s G s'"
proof -
  note m = rinvD(1) [OF inv]
  have u: "uses (rl_pcs s t) = Some (rerase_handle p)" using pc by simp
  obtain g where g: "guard s G g" "rerase_ok s G g p" using op_handle [OF inv u] pc by auto
  have nxt: "\<exists>w. rl_next s y = Some w \<and> nx s y = fst w" if "obs G g y" for y
    using next_exists [OF obs_exists [OF m that]] by metis
  show ?thesis
  proof (cases p)
    case (Rx_load h a)
    obtain w where w: "rl_next s a = Some w" "nx s a = fst w" using nxt [of a] Rx_load g by auto
    show ?thesis
    proof (cases "\<exists>x. w = (Some x, False)")
      case True
      then obtain x where x: "w = (Some x, False)" by blast
      have ax: "nx s a = Some x" using w x by simp
      have "x \<noteq> 0" using obs_next(2) [OF m g(1) _ ax] g(2) Rx_load by simp
      then have "good None s G (rl_to t (Erase_after (Rx_next h a x)) s)"
        by (intro rinv_pc [OF inv u]) (use pc Rx_load obs_next(1) [OF m _ _ ax] in \<open>auto simp: op_pc_def\<close>)
      then show ?thesis using Rx_load w x by simp
    next
      case False
      have "good None s G (rl_to t (Rl_done (Res_erase False)) s)"
        by (rule rinv_pc [OF inv u]) (use pc Rx_load in \<open>auto simp: op_pc_def\<close>)
      then show ?thesis using Rx_load w False by (cases w) (auto split: option.splits bool.splits)
    qed
  next
    case (Rx_next h a x)
    obtain w where w: "rl_next s x = Some w" using nxt [of x] Rx_next g by auto
    have "good None s G (rl_to t (Erase_after (if is_marked w then Rx_unlink h a x w False else Rx_mark h a x w)) s)"
      by (rule rinv_pc [OF inv u]) (use pc Rx_next w in \<open>auto simp: op_pc_def\<close>)
    then show ?thesis using Rx_next w by simp
  next
    case (Rx_mark h a x v)
    obtain w where w: "rl_next s x = Some w" using nxt [of x] Rx_mark g by auto
    have "good None s G (rl_to t (Erase_after (if is_marked w then Rx_unlink h a x w False else Rx_mark h a x w)) s)"
      by (rule rinv_pc [OF inv u]) (use pc Rx_mark w in \<open>auto simp: op_pc_def\<close>)
    then show ?thesis using Rx_mark w mark_inv [OF inv, of t h a x v] pc by simp
  next
    case (Rx_unlink h a x v mine)
    obtain w where w: "rl_next s a = Some w" using nxt [of a] Rx_unlink g by auto
    have "good None s G (rl_to t (if mine then Rl_done (Res_erase True) else Erase_after (Rx_load h a)) s)"
      by (rule rinv_pc [OF inv u]) (use pc Rx_unlink in \<open>auto simp: op_pc_def\<close>)
    then show ?thesis using Rx_unlink w unlink_inv [OF inv, of t h a x v mine] pc by simp
  qed
qed

end
