(* ===== verification/Rcu_Reclaim.thy ===== *)
theory Rcu_Reclaim
  imports Rcu_Ops
begin

text \<open>The steps of \<open>reclaim\<close>, \<open>advance\<close> and \<open>free_oldest\<close>.\<close>

lemma effect_rc_same:
  assumes "mem_ok s G" and "walked r = walked (g_rec G)" "pend r = pend (g_rec G)" "\<And>e. bag_end (g_rec G) e \<Longrightarrow> bag_end r e" and "rec_ok s (at_rc r G)"
  shows "mem_ok s (at_rc r G)" "keeps t s G s (at_rc r G)"
  using effect_rc [OF assms(1-4), where f = "rl_reclaiming s"] assms(5) by simp_all

lemma rinv_rec:
  assumes inv: "rinv s G" and pc: "rl_pcs s t = Reclaim q" and mem: "mem_ok s1 G'" and k: "keeps t s G s1 G'"
    and same: "rl_pcs s1 = rl_pcs s" "rl_handles s1 = rl_handles s" "rl_iters s1 = rl_iters s" "rl_threads s1 = rl_threads s" "K_of s1 = K_of s"
    and ref: "\<And>b. gb_refs (blk s1 b) = gb_refs (blk s b)"
    and hld: "\<And>b. member s b \<Longrightarrow> held s G b \<Longrightarrow> held s1 G' b \<and> gb_gen (blk s1 b) = gb_gen (blk s b)"
    and p: "p' = Reclaim q' \<and> q' \<noteq> Rc_flag \<and> g_rec G' = Some (t, q') \<or> (\<exists>r. p' = Rl_done r) \<and> (\<forall>x. g_rec G' \<noteq> Some (t, x))"
    and rc: "\<And>u x. u \<noteq> t \<Longrightarrow> g_rec G' = Some (u, x) \<longleftrightarrow> g_rec G = Some (u, x)"
    and own: "g_list G' (P_new t) = g_list G (P_new t)" "g_list G' (P_pop t) = g_list G (P_pop t)" "g_list G' (P_dead t) = g_list G (P_dead t)"
  shows "rinv (rl_to t p' s1) G'"
proof (rule rinv_step [OF inv mem k same ref hld])
  show "\<not> rl_at_rest (rl_pcs s t)" "claims (rl_pcs s t) = None" "bumps (rl_pcs s t) = None" using pc by simp_all
  show "claims p' = None" "bumps p' = None" "uses p' = None \<or> uses p' = uses (rl_pcs s t)" "claim_ok s1 G' p'" using p by auto
  show "g_list G' (P_new t) = new_of p'" "g_list G' (P_pop t) = pop_of p'" "g_list G' (P_dead t) = dead_of p'"
    using own p thr_okD(1-3) [OF rinvD(3) [OF inv], of t] pc by auto
  show "(p' = Reclaim x \<and> x \<noteq> Rc_flag) = (g_rec G' = Some (t, x))" for x using p by auto
  show "g_rec G' = Some (u, x) \<longleftrightarrow> g_rec G = Some (u, x)" if "u \<noteq> t" for u x using rc that .
  show "pc_ok s1 G' g p'" if "uses p' = Some h" for h g using that p by auto
qed

lemma holder:
  assumes inv: "rinv s G" and pc: "rl_pcs s t = Reclaim q" "q \<noteq> Rc_flag"
  shows "g_rec G = Some (t, q)" "rl_reclaiming s" "rc_ok s (g_list G (P_bag (rl_oldest s))) q"
proof -
  show g: "g_rec G = Some (t, q)" using thr_okD(5) [OF rinvD(3) [OF inv]] pc by blast
  show "rl_reclaiming s" "rc_ok s (g_list G (P_bag (rl_oldest s))) q"
    using mem_okD(6) [OF rinvD(1) [OF inv]] g by (auto simp: rec_ok_def)
qed

text \<open>A step of the reclaimer that only moves its program counter; the bag that is being freed stays the same.\<close>

lemma rc_goto:
  assumes inv: "rinv s G" and pc: "rl_pcs s t = Reclaim q" "q \<noteq> Rc_flag" "q' \<noteq> Rc_flag"
    and w: "walked (Some (t, q')) = walked (Some (t, q))" "pend (Some (t, q')) = pend (Some (t, q))" "\<And>e. bag_end (Some (t, q)) e \<Longrightarrow> bag_end (Some (t, q')) e"
    and f: "is_freeing (Some (t, q')) \<Longrightarrow> \<not> is_freeing (Some (t, q)) \<Longrightarrow> \<not> member s (rl_oldest s)"
    and ok: "rc_ok s (g_list G (P_bag (rl_oldest s))) q'"
  shows "good None s G (rl_to t (Reclaim q') s)"
proof -
  note m = rinvD(1) [OF inv] and hd1 = holder [OF inv pc(1,2)]
  let ?G = "at_rc (Some (t, q')) G"
  have "rec_ok s ?G" using hd1 ok by (simp add: rec_ok_def)
  then have ef: "mem_ok s ?G" "keeps t s G s ?G" using effect_rc_same [OF m, of "Some (t, q')"] w hd1(1) by simp_all
  have "rinv (rl_to t (Reclaim q') s) ?G"
  proof (rule rinv_rec [OF inv pc(1) ef])
    show "held s ?G b \<and> gb_gen (blk s b) = gb_gen (blk s b)" if "member s b" "held s G b" for b
    proof -
      have "lo s < gb_gen (blk s b)" if "is_freeing (Some (t, q'))"
      proof (cases "is_freeing (Some (t, q))")
        case True
        then show ?thesis using \<open>held s G b\<close> hd1(1) by (simp add: held_def guard_def)
      next
        case False
        then have "b \<noteq> rl_oldest s" using f that \<open>member s b\<close> by blast
        then show ?thesis using ring_in_use(1,3) [OF mem_okD(1) [OF m], of b] \<open>held s G b\<close> by (auto simp: held_def)
      qed
      then show ?thesis using \<open>held s G b\<close> by (simp add: held_def guard_def)
    qed
  qed (use pc hd1(1) in auto)
  moreover have "avl s ?G = avl s G" by (rule avl_same) auto
  ultimately show ?thesis by (auto intro: goodI)
qed

text \<open>Nobody is on a block whose count is zero.\<close>

lemma count_zero:
  assumes h: "hand_ok s G" and b: "b < K_of s" and z: "gb_refs (blk s b) = 0"
  shows "\<not> member s b"
proof -
  have fh: "finite {h. rl_handles s h = Some b}"
    by (rule finite_subset [OF _ hand_okD(1) [OF h]]) auto
  have ft: "finite {t. bumps (rl_pcs s t) = Some b}"
  proof (rule finite_subset)
    show "{t. bumps (rl_pcs s t) = Some b} \<subseteq> set (rl_threads s)"
    proof
      fix t assume "t \<in> {t. bumps (rl_pcs s t) = Some b}"
      then have "\<not> rl_at_rest (rl_pcs s t)" by (cases "rl_pcs s t") auto
      then show "t \<in> set (rl_threads s)" using hand_okD(2) [OF h] by blast
    qed
  qed simp
  have "card {h. rl_handles s h = Some b} = 0" "card {t. bumps (rl_pcs s t) = Some b} = 0"
    using hand_okD(9) [OF h b] z by auto
  then have "{h. rl_handles s h = Some b} = {}" "{t. bumps (rl_pcs s t) = Some b} = {}" using fh ft by auto
  then have n: "rl_handles s h \<noteq> Some b" "bumps (rl_pcs s t) \<noteq> Some b" for h t by auto
  have "rl_pcs s t \<noteq> Refresh (Rf_leave h b)" for t h using n(2) [of t] by auto
  then show ?thesis using n(1) by (auto simp: member_def)
qed

lemma free_return_facts [simp]:
  "walked (Some (t, free_return k n b s)) = 0" "pend (Some (t, free_return k n b s)) = None" "bag_end (Some (t, free_return k n b s)) e = (e = None)"
  "\<not> is_freeing (Some (t, free_return k n b s))" "free_return k n b s \<noteq> Rc_flag" "rc_ok s xs (free_return k n b s)"
  by (cases k; simp)+

lemma fp_refs_inv:
  assumes inv: "rinv s G" and pc: "rl_pcs s t = Reclaim (Fp_refs k n b)"
  shows "\<exists>s'. reclaim_step t (Fp_refs k n b) s = Some s' \<and> good None s G s'"
proof -
  note m = rinvD(1) [OF inv]
  note rg = ring_okD [OF mem_okD(1) [OF m]]
  let ?B = "blk s (rl_oldest s)"
  show ?thesis
  proof (cases "gb_state ?B \<noteq> G_sealed \<or> gb_refs ?B \<noteq> 0")
    case True
    have "good None s G (rl_to t (Reclaim (free_return k n b s)) s)"
      by (rule rc_goto [OF inv pc]) simp_all
    then show ?thesis using True by simp
  next
    case False
    have nm: "\<not> member s (rl_oldest s)" using count_zero [OF rinvD(2) [OF inv] rg(2)] False by simp
    note g = holder(1) [OF inv pc]
    obtain e where e: "chainto (lk s) (gb_bag ?B) (g_list G (P_bag (rl_oldest s))) e" "e = None"
      using oldest_bag [OF m] False g by auto
    have "g_list G (P_bag (rl_oldest s)) \<noteq> []" using oldest_bag_nonempty [OF m] False g by auto
    then have "good None s G (rl_to t (Reclaim (Fp_walk k n b (gb_bag ?B) None 0)) s)"
      by (intro rc_goto [OF inv pc]) (use nm False chainto_hd [OF e(1)] in \<open>auto simp: hd_conv_nth\<close>)
    then show ?thesis using False by simp
  qed
qed

lemma fp_walk_inv:
  assumes inv: "rinv s G" and pc: "rl_pcs s t = Reclaim (Fp_walk k n b q r c)"
  shows "\<exists>s'. reclaim_step t (Fp_walk k n b q r c) s = Some s' \<and> good None s G s'"
proof -
  note m = rinvD(1) [OF inv] and h = holder [OF inv pc]
  let ?xs = "g_list G (P_bag (rl_oldest s))"
  show ?thesis
  proof (cases q)
    case None
    have "?xs \<noteq> []" using oldest_bag_nonempty [OF m] h by auto
    then have "good None s G (rl_to t (Reclaim (Fp_store k n b r c (rl_free s))) s)"
      by (intro rc_goto [OF inv pc]) (use h None in \<open>auto simp: last_conv_nth split: if_splits\<close>)
    then show ?thesis using None by simp
  next
    case (Some a)
    have g: "g_rec G = Some (t, Fp_walk k n b (Some a) r c)" using h Some by simp
    note ef = effect_walk [OF m g]
    obtain nd where nd: "rl_nodes s a = Some nd" using ef(1) by auto
    have nv: "is_marked (rn_next nd)" "rn_value nd \<noteq> None" "lk s a = rn_link nd" using ef(2,3) nd by (auto simp: marked_def val_def lk_def)
    let ?p = "Fp_walk k n b (lk s a) (Some a) (c + 1)" and ?s1 = "set_val a None s"
    have at: "g_at G a = Some (P_bag (rl_oldest s))"
    proof -
      have "lay G" using mem_okD(2) [OF m] by (simp add: nodes_ok_def)
      moreover have "a \<in> set ?xs" using h(3) Some by (auto split: if_splits)
      ultimately show ?thesis using layD(2) by blast
    qed
    have "rinv (rl_to t (Reclaim ?p) ?s1) (at_rc (Some (t, ?p)) G)"
      by (rule rinv_rec [OF inv pc ef(4,5)]) (use h(1) in \<open>auto simp: held_def guard_def lo_def cgen_def\<close>)
    moreover have "avl ?s1 (at_rc (Some (t, ?p)) G) = avl s G"
      by (rule avl_off_chain [OF m at_place(2) [OF m at]]) (use at sel_set_val [OF ef(1)] in auto)
    ultimately have "good None s G (rl_to t (Reclaim ?p) ?s1)" by (auto intro: goodI)
    then show ?thesis using Some nd nv by simp
  qed
qed

lemma fp_store_inv:
  assumes inv: "rinv s G" and pc: "rl_pcs s t = Reclaim (Fp_store k n b r c q)"
  shows "\<exists>s'. reclaim_step t (Fp_store k n b r c q) s = Some s' \<and> good None s G s'"
proof -
  note m = rinvD(1) [OF inv] and h = holder [OF inv pc]
  obtain a where r: "r = Some a" "a = last (g_list G (P_bag (rl_oldest s)))" "g_list G (P_bag (rl_oldest s)) \<noteq> []" using h(3) by auto
  have g: "g_rec G = Some (t, Fp_store k n b (Some a) c q)" using h r by simp
  note ef = effect_tail [OF m g]
  have at: "g_at G a = Some (P_bag (rl_oldest s))"
    using r layD(2) [of G a] mem_okD(2) [OF m] last_in_set by (metis nodes_ok_def)
  let ?p = "Fp_cas k n b (Some a) c q" and ?s1 = "set_rlink a q s"
  have "rinv (rl_to t (Reclaim ?p) ?s1) (at_rc (Some (t, ?p)) G)"
    by (rule rinv_rec [OF inv pc ef(2,3)]) (use h(1) in \<open>auto simp: held_def guard_def lo_def cgen_def\<close>)
  moreover have "avl ?s1 (at_rc (Some (t, ?p)) G) = avl s G"
    by (rule avl_off_chain [OF m at_place(2) [OF m at]]) (use at sel_set_rlink [OF ef(1)] in auto)
  ultimately have "good None s G (rl_to t (Reclaim ?p) ?s1)" by (auto intro: goodI)
  then show ?thesis using r ef(1) by simp
qed

lemma fp_retry_inv:
  assumes inv: "rinv s G" and pc: "rl_pcs s t = Reclaim (Fp_cas k n b r c q)"
  shows "good None s G (rl_to t (Reclaim (Fp_store k n b r c (rl_free s))) s)"
  by (rule rc_goto [OF inv pc]) (use holder [OF inv pc] in auto)

lemma fp_cas_inv:
  assumes inv: "rinv s G" and pc: "rl_pcs s t = Reclaim (Fp_cas k n b r c q)"
  shows "\<exists>s'. reclaim_step t (Fp_cas k n b r c q) s = Some s' \<and> good None s G s'"
proof (cases "rl_free s = q")
  case True
  note m = rinvD(1) [OF inv] and h = holder [OF inv pc]
  note rg = ring_okD [OF mem_okD(1) [OF m]]
  have g: "g_rec G = Some (t, Fp_cas k n b r c (rl_free s))" using h True by simp
  have sl: "gb_state (blk s (rl_oldest s)) = G_sealed" using h(3) by simp
  let ?p = "Fp_refs k (n + c) (b + 1)"
  let ?G = "at_rc (Some (t, ?p)) (move_all (P_bag (rl_oldest s)) P_free (g_list G (P_bag (rl_oldest s)) @ g_list G P_free) G)"
  note ef = effect_splice [OF m g, of k "n + c" "b + 1"] and sp = ring_splice [OF mem_okD(1) [OF m] sl]
  have "rinv (rl_to t (Reclaim ?p) (spliced s)) ?G"
  proof (rule rinv_rec [OF inv pc ef])
    show "gb_refs (blk (spliced s) x) = gb_refs (blk s x)" for x
      using rg(2) by (cases "x = rl_oldest s") (simp_all add: spliced_def)
    show "held (spliced s) ?G x \<and> gb_gen (blk (spliced s) x) = gb_gen (blk s x)" if "held s G x" for x
    proof -
      have "lo s < gb_gen (blk s x)" using that h(1) by (simp add: held_def guard_def)
      then have "x \<noteq> rl_oldest s" by (auto simp: lo_def)
      then have "blk (spliced s) x = blk s x" by (simp add: spliced_def)
      then show ?thesis using that sp(2,3) \<open>lo s < gb_gen (blk s x)\<close> by (simp add: held_def guard_def) (simp add: spliced_def)
    qed
  qed (use h(1) in \<open>auto simp: spliced_def\<close>)
  moreover have "avl (spliced s) ?G = avl s G"
    by (rule avl_same) (auto simp: marked_def val_def spliced_def)
  ultimately have "good None s G (rl_to t (Reclaim ?p) (spliced s))" by (auto intro: goodI)
  then show ?thesis using True by (simp add: Let_def spliced_def)
next
  case False
  then show ?thesis using fp_retry_inv [OF inv pc] by (simp add: Let_def)
qed

section \<open>\<open>advance\<close> and the flag\<close>

lemma rc_exchange_inv:
  assumes inv: "rinv s G" and pc: "rl_pcs s t = Reclaim (Rc_exchange n b)"
  shows "\<exists>s'. reclaim_step t (Rc_exchange n b) s = Some s' \<and> good None s G s'"
proof (cases "rl_retired s")
  case None
  have "good None s G (rl_to t (Reclaim (Fp_refs (F_final Nothing_retired) n b)) s)"
    by (rule rc_goto [OF inv pc]) auto
  then show ?thesis using None by simp
next
  case (Some c)
  note m = rinvD(1) [OF inv] and h = holder [OF inv pc]
  note rg = ring_okD [OF mem_okD(1) [OF m]] and ef = effect_exchange [OF m h(1) Some]
  let ?p = "Rc_publish n b c" and ?s1 = "s\<lparr>rl_retired := None\<rparr>"
  let ?G = "at_rc (Some (t, ?p)) (move_all P_retired P_pend (g_list G P_retired) G)"
  have "rinv (rl_to t (Reclaim ?p) ?s1) ?G"
    by (rule rinv_rec [OF inv pc ef]) (use h(1) in \<open>auto simp: held_def guard_def lo_def cgen_def\<close>)
  moreover have "avl ?s1 ?G = avl s G"
    by (rule avl_same) (auto simp: marked_def val_def)
  ultimately have "good None s G (rl_to t (Reclaim ?p) ?s1)" by (auto intro: goodI)
  then show ?thesis using Some h(3) rg(5) by simp
qed

lemma rc_publish_inv:
  assumes inv: "rinv s G" and pc: "rl_pcs s t = Reclaim (Rc_publish n b c)"
  shows "\<exists>s'. reclaim_step t (Rc_publish n b c) s = Some s' \<and> good None s G s'"
proof -
  note m = rinvD(1) [OF inv] and h = holder [OF inv pc]
  note r = mem_okD(1) [OF m]
  note rg = ring_okD [OF r]
  have e: "gb_state (blk s (next_slot s)) = G_empty" using h(3) by simp
  let ?p = "Fp_refs (F_final Advanced) n b"
  let ?G = "at_rc (Some (t, ?p)) (move_all P_pend (P_bag (rl_current s)) (g_list G P_pend) G)"
  note ef = effect_publish [OF m h(1), of "F_final Advanced" n b] and pu = ring_publish [OF r e, of c]
  note ns = next_slot_empty [OF r e] and nl = next_slot_less [OF r]
  have "rinv (rl_to t (Reclaim ?p) (published c s)) ?G"
  proof (rule rinv_rec [OF inv pc ef])
    show "gb_refs (blk (published c s) x) = gb_refs (blk s x)" for x
      using rg(3) nl ns(1) by (cases "x = next_slot s"; cases "x = rl_current s") (simp_all add: published_def)
    show "held (published c s) ?G x \<and> gb_gen (blk (published c s) x) = gb_gen (blk s x)" if "held s G x" for x
    proof -
      have x: "x \<noteq> next_slot s" "x < K_of s" using that e by (auto simp: held_def)
      then have "gb_gen (blk (published c s) x) = gb_gen (blk s x) \<and> gb_state (blk (published c s) x) \<noteq> G_empty"
        using that by (cases "x = rl_current s") (auto simp: published_def held_def)
      then show ?thesis using that pu(2,3) h(1) by (simp add: held_def guard_def) (simp add: published_def)
    qed
  qed (use h(1) in \<open>auto simp: published_def\<close>)
  moreover have "avl (published c s) ?G = avl s G"
    by (rule avl_same) (auto simp: marked_def val_def published_def)
  ultimately have "good None s G (rl_to t (Reclaim ?p) (published c s))" by (auto intro: goodI)
  then show ?thesis by (simp add: Let_def published_def)
qed

lemma rc_flag_inv:
  assumes inv: "rinv s G" and pc: "rl_pcs s t = Reclaim Rc_flag"
  shows "\<exists>s'. reclaim_step t Rc_flag s = Some s' \<and> good None s G s'"
proof -
  note m = rinvD(1) [OF inv]
  have nt: "g_rec G \<noteq> Some (t, x)" for x using thr_okD(5) [OF rinvD(3) [OF inv], of t x] pc by auto
  show ?thesis
  proof (cases "rl_reclaiming s")
    case True
    have "rinv (rl_to t (Rl_done (Res_reclaim \<lparr>rr_nodes = 0, rr_bags = 0, rr_advance = Contended\<rparr>)) s) G"
      by (rule rinv_rec [OF inv pc m keeps_refl]) (use nt in auto)
    then show ?thesis using True by (auto intro: goodI)
  next
    case False
    then have g: "g_rec G = None" using mem_okD(6) [OF m] by (auto simp: rec_ok_def split: option.splits)
    let ?s1 = "s\<lparr>rl_reclaiming := True\<rparr>" and ?G = "at_rc (Some (t, Rc_retired)) G"
    have "rec_ok ?s1 ?G" by (simp add: rec_ok_def)
    then have ef: "mem_ok ?s1 ?G" "keeps t s G ?s1 ?G" using effect_rc [OF m, where r = "Some (t, Rc_retired)" and f = True] g by simp_all
    have "rinv (rl_to t (Reclaim Rc_retired) ?s1) ?G"
      by (rule rinv_rec [OF inv pc ef]) (use g in \<open>auto simp: held_def guard_def\<close>)
    moreover have "avl ?s1 ?G = avl s G" by (rule avl_same) (auto simp: marked_def val_def)
    ultimately have "good None s G (rl_to t (Reclaim Rc_retired) ?s1)" by (auto intro: goodI)
    then show ?thesis using False by simp
  qed
qed

lemma rc_exit_inv:
  assumes inv: "rinv s G" and pc: "rl_pcs s t = Reclaim (Rc_exit r)"
  shows "good None s G (rl_to t (Rl_done (Res_reclaim r)) (s\<lparr>rl_reclaiming := False\<rparr>))"
proof -
  note m = rinvD(1) [OF inv] and h = holder [OF inv pc]
  let ?s1 = "s\<lparr>rl_reclaiming := False\<rparr>" and ?G = "at_rc None G"
  have "rec_ok ?s1 ?G" by (simp add: rec_ok_def)
  then have ef: "mem_ok ?s1 ?G" "keeps t s G ?s1 ?G" using effect_rc [OF m, where r = None and f = False] h by simp_all
  have "rinv (rl_to t (Rl_done (Res_reclaim r)) ?s1) ?G"
    by (rule rinv_rec [OF inv pc ef]) (use h(1) in \<open>auto simp: held_def guard_def\<close>)
  moreover have "avl ?s1 ?G = avl s G" by (rule avl_same) (auto simp: marked_def val_def)
  ultimately show ?thesis by (auto intro: goodI)
qed

lemma reclaim_step_inv:
  assumes inv: "rinv s G" and pc: "rl_pcs s t = Reclaim p"
  shows "\<exists>s'. reclaim_step t p s = Some s' \<and> good None s G s'"
proof (cases p)
  case Rc_retired
  have "good None s G (rl_to t (Reclaim (if rl_retired s = None then Fp_refs (F_final Nothing_retired) 0 0 else Rc_next)) s)"
    by (rule rc_goto [OF inv, of t p]) (use pc Rc_retired in \<open>auto split: if_splits\<close>)
  then show ?thesis using Rc_retired by simp
next
  case Rc_next
  have "good None s G (rl_to t (Reclaim (if gb_state (rl_ring s ! next_slot s) \<noteq> G_empty then Fp_refs F_advance 0 0 else Rc_exchange 0 0)) s)"
    by (rule rc_goto [OF inv, of t p]) (use pc Rc_next in \<open>auto split: if_splits\<close>)
  then show ?thesis using Rc_next by simp
qed (use pc rc_flag_inv [OF inv] rc_exchange_inv [OF inv] rc_publish_inv [OF inv] rc_exit_inv [OF inv]
      fp_refs_inv [OF inv] fp_walk_inv [OF inv] fp_store_inv [OF inv] fp_cas_inv [OF inv] in \<open>simp_all del: reclaim_step.simps(5,6,7,8,9)\<close>)

end
