(* ===== verification/Rcu_Handles.thy ===== *)
theory Rcu_Handles
  imports Rcu_Reclaim
begin

text \<open>
  The handles of \<open>LockFreeListRCU\<close>: joining and leaving a generation, moving and swapping handles, iterators and the beginning of calls.
\<close>

section \<open>Counting\<close>

lemma card_fun_upd:
  assumes "finite {x. f x = Some b}"
  shows "int (card {x. (f(a := v)) x = Some b}) = int (card {x. f x = Some b}) - of_bool (f a = Some b) + of_bool (v = Some b)"
proof -
  let ?S = "{x. f x = Some b}"
  have r: "{x. (f(a := v)) x = Some b} = (if v = Some b then insert a (?S - {a}) else ?S - {a})" by auto
  have c: "int (card (?S - {a})) = int (card ?S) - of_bool (f a = Some b)"
  proof (cases "a \<in> ?S")
    case True
    then show ?thesis using card_Suc_Diff1 [OF assms True] by simp
  qed simp
  have i: "card (insert a (?S - {a})) = Suc (card (?S - {a}))" using assms by (intro card_insert_disjoint) auto
  show ?thesis
  proof (cases "v = Some b")
    case True
    then have "card {x. (f(a := v)) x = Some b} = Suc (card (?S - {a}))" using i r by metis
    then show ?thesis using c True by (simp only:) simp
  next
    case False
    then show ?thesis using c unfolding r by simp
  qed
qed

lemma finite_handles: "hand_ok s G \<Longrightarrow> finite {h. rl_handles s h = Some b}"
  by (rule finite_subset [OF _ hand_okD(1)]) auto

lemma finite_bumps:
  assumes "hand_ok s G"
  shows "finite {t. bumps (rl_pcs s t) = Some b}"
proof (rule finite_subset)
  show "{t. bumps (rl_pcs s t) = Some b} \<subseteq> set (rl_threads s)"
  proof
    fix t assume "t \<in> {t. bumps (rl_pcs s t) = Some b}"
    then have "\<not> rl_at_rest (rl_pcs s t)" by (cases "rl_pcs s t") auto
    then show "t \<in> set (rl_threads s)" using hand_okD(2) [OF assms] by blast
  qed
qed simp

section \<open>A step that changes no memory\<close>

lemma held_same: "same_mem s s' \<Longrightarrow> ring_ok s \<Longrightarrow> held s' G b = held s G b"
  using same_mem_ring(4) ring_okD(2,3) by blast

lemma claim_ok_same:
  assumes "same_mem s s'" and "ring_ok s" and "\<And>h. claims p = Some h \<Longrightarrow> rl_handles s' h = rl_handles s h \<and> rl_iters s' h = rl_iters s h"
  shows "claim_ok s' G p = claim_ok s G p"
proof -
  have "K_of s' = K_of s" using assms(1) by (simp add: same_mem_def)
  note eqs = this held_same [OF assms(1,2)]
  show ?thesis
  proof (cases p)
    case (Join q)
    then have "rl_handles s' (jctx_handle (join_ctx q)) = rl_handles s (jctx_handle (join_ctx q))"
      "rl_iters s' (jctx_handle (join_ctx q)) = rl_iters s (jctx_handle (join_ctx q))" using assms(3) by simp_all
    then show ?thesis using Join eqs(1) by (cases "join_ctx q") (simp_all split: join_pc.splits)
  next
    case (Refresh q)
    then show ?thesis using assms(3) eqs by (cases q) simp_all
  qed simp_all
qed

lemma hand_step:
  assumes h: "hand_ok s G" and r: "ring_ok s" and sm: "same_mem s s'"
    and s': "rl_handles s' = (rl_handles s)(x := v)" "\<And>y. y \<noteq> x \<Longrightarrow> rl_iters s' y = rl_iters s y" "rl_pcs s' = (rl_pcs s)(t := p)"
      "set (rl_threads s) \<subseteq> set (rl_threads s')" "t \<in> set (rl_threads s') \<or> rl_at_rest p"
    and x: "\<And>b. v = Some b \<Longrightarrow> held s G b"
      "\<And>b it. v = Some b \<Longrightarrow> it \<in> set (rl_iters s' x) \<Longrightarrow> fst it \<noteq> 0 \<and> obs G (gb_gen (blk s b)) (fst it) \<and> inc s (fst it) = Some (snd it)"
    and alone: "(v = rl_handles s x \<and> rl_iters s' x = rl_iters s x) \<or>
      (v \<noteq> None \<and> rl_handles s x \<noteq> None \<and> (\<forall>u. u \<noteq> t \<longrightarrow> claims (rl_pcs s u) \<noteq> Some x)) \<or>
      (\<forall>u. u \<noteq> t \<longrightarrow> claims (rl_pcs s u) \<noteq> Some x \<and> uses (rl_pcs s u) \<noteq> Some x)"
    and refs: "\<And>b. b < K_of s \<Longrightarrow> gb_refs (blk s' b) = gb_refs (blk s b) - of_bool (rl_handles s x = Some b) + of_bool (v = Some b)
        - of_bool (bumps (rl_pcs s t) = Some b) + of_bool (bumps p = Some b)"
    and p: "claim_ok s' G p" "\<And>y. uses p = Some y \<Longrightarrow> rl_handles s' y \<noteq> None"
      "\<And>y u. claims p = Some y \<Longrightarrow> u \<noteq> t \<Longrightarrow> claims (rl_pcs s u) \<noteq> Some y \<and> uses (rl_pcs s u) \<noteq> Some y"
      "\<And>y u. uses p = Some y \<Longrightarrow> u \<noteq> t \<Longrightarrow> claims (rl_pcs s u) \<noteq> Some y"
  shows "hand_ok s' G"
proof -
  note d = hand_okD [OF h]
  have K: "K_of s' = K_of s" and inc: "inc s' = inc s" and gen: "\<And>b. b < K_of s \<Longrightarrow> gb_gen (blk s' b) = gb_gen (blk s b)"
    using sm same_mem_sel [OF sm] by (auto simp: same_mem_def)
  show ?thesis unfolding hand_ok_def
  proof (intro conjI allI impI ballI)
    show "finite (dom (rl_handles s'))" using d(1) s'(1) by (auto intro: finite_subset [of _ "insert x (dom (rl_handles s))"])
    show "rl_at_rest (rl_pcs s' u)" if "u \<notin> set (rl_threads s')" for u using that s' d(2) [of u] by auto
    show hl: "held s' G b" if "rl_handles s' y = Some b" for y b
      using that s'(1) x(1) d(3) [of y b] held_same [OF sm r] by (auto split: if_splits)
    show "fst it \<noteq> 0" "obs G (gb_gen (blk s' b)) (fst it)" "inc s' (fst it) = Some (snd it)"
      if "rl_handles s' y = Some b" "it \<in> set (rl_iters s' y)" for y b it
    proof -
      have "b < K_of s" using hl [OF that(1)] K by (simp add: held_def)
      then show "fst it \<noteq> 0" "obs G (gb_gen (blk s' b)) (fst it)" "inc s' (fst it) = Some (snd it)"
        using that s'(1,2) x(2) [of b it] d(4) [of y b it] gen inc by (cases "y = x"; simp)+
    qed
    show "claim_ok s' G (rl_pcs s' u)" for u
    proof (cases "u = t")
      case True
      then show ?thesis using p(1) s'(3) by simp
    next
      case False
      have "rl_handles s' y = rl_handles s y \<and> rl_iters s' y = rl_iters s y" if "claims (rl_pcs s u) = Some y" for y
        using that False alone s'(1,2) by (cases "y = x") auto
      then show ?thesis using d(5) [of u] claim_ok_same [OF sm r, of "rl_pcs s u" G] False s'(3) by simp
    qed
    show "rl_handles s' y \<noteq> None" if "uses (rl_pcs s' u) = Some y" for u y
      using that p(2) d(6) [of u y] alone s'(1,3) by (cases "u = t"; cases "y = x") auto
    show "claims (rl_pcs s' w) \<noteq> Some y" "uses (rl_pcs s' w) \<noteq> Some y" if "claims (rl_pcs s' u) = Some y" "u \<noteq> w" for u w y
      using that p(3) [of y w] p(3) [of y u] p(4) [of y u] d(7) [of u y w] d(8) [of u y w] s'(3) by (auto split: if_splits)
    show "gb_refs (blk s' b) = int (card {y. rl_handles s' y = Some b} + card {u. bumps (rl_pcs s' u) = Some b})" if "b < K_of s'" for b
    proof -
      have "(\<lambda>u. bumps (rl_pcs s' u)) = (\<lambda>u. bumps (rl_pcs s u))(t := bumps p)" using s'(3) by auto
      then have "int (card {u. bumps (rl_pcs s' u) = Some b}) =
          int (card {u. bumps (rl_pcs s u) = Some b}) - of_bool (bumps (rl_pcs s t) = Some b) + of_bool (bumps p = Some b)"
        using card_fun_upd [OF finite_bumps [OF h, of b], where a = t and v = "bumps p"] by metis
      moreover have "int (card {y. rl_handles s' y = Some b}) =
          int (card {y. rl_handles s y = Some b}) - of_bool (rl_handles s x = Some b) + of_bool (v = Some b)"
        unfolding s'(1) by (rule card_fun_upd [OF finite_handles [OF h]])
      ultimately show ?thesis using refs [of b] d(9) [of b] that K by simp
    qed
  qed
qed

lemma thr_step:
  assumes inv: "rinv s G" and sm: "same_mem s s'" and pcs: "rl_pcs s' = (rl_pcs s)(t := p)"
    and own: "new_of p = new_of (rl_pcs s t)" "pop_of p = pop_of (rl_pcs s t)" "dead_of p = dead_of (rl_pcs s t)"
    and rc: "\<And>q. (p = Reclaim q \<and> q \<noteq> Rc_flag) \<longleftrightarrow> (rl_pcs s t = Reclaim q \<and> q \<noteq> Rc_flag)"
    and hg: "\<And>u h. u \<noteq> t \<Longrightarrow> uses (rl_pcs s u) = Some h \<Longrightarrow> hgen s' h = hgen s h"
    and ok: "\<And>h g. uses p = Some h \<Longrightarrow> hgen s' h = Some g \<Longrightarrow> pc_ok s G g p"
  shows "thr_ok s' G"
proof -
  note th = thr_okD [OF rinvD(3) [OF inv]] and sel = same_mem_sel [OF sm]
  have pc: "pc_ok s G g q \<Longrightarrow> pc_ok s' G g q" for g q
    by (cases q) (use sel in \<open>auto elim!: init_ok.elims rerase_ok.elims retire_ok.elims\<close>)
  show ?thesis unfolding thr_ok_def
  proof (intro conjI allI impI)
    show "g_list G (P_new u) = new_of (rl_pcs s' u)" "g_list G (P_pop u) = pop_of (rl_pcs s' u)" "g_list G (P_dead u) = dead_of (rl_pcs s' u)" for u
      using th(1-3) [of u] own pcs by auto
    show "pc_ok s' G g (rl_pcs s' u)" if "uses (rl_pcs s' u) = Some h" "hgen s' h = Some g" for u h g
      using that ok hg [of u h] th(4) [of u h g] pc pcs by (cases "u = t") auto
    show "(rl_pcs s' u = Reclaim q \<and> q \<noteq> Rc_flag) = (g_rec G = Some (u, q))" for u q
      using th(5) [of u q] rc pcs by (cases "u = t") auto
  qed
qed

section \<open>Joining and leaving\<close>

lemma add_refs_sel [simp]:
  "rl_nodes (add_refs b d s) = rl_nodes s" "rl_current (add_refs b d s) = rl_current s" "rl_reclaiming (add_refs b d s) = rl_reclaiming s"
  "rl_oldest (add_refs b d s) = rl_oldest s" "rl_retired (add_refs b d s) = rl_retired s" "rl_free (add_refs b d s) = rl_free s"
  "rl_allocated (add_refs b d s) = rl_allocated s" "rl_handles (add_refs b d s) = rl_handles s" "rl_iters (add_refs b d s) = rl_iters s"
  "rl_threads (add_refs b d s) = rl_threads s" "rl_pcs (add_refs b d s) = rl_pcs s" "K_of (add_refs b d s) = K_of s"
  by (simp_all add: add_refs_def)

lemma add_refs_blk:
  assumes "b < K_of s"
  shows "gb_refs (blk (add_refs b d s) c) = gb_refs (blk s c) + d * of_bool (b = c)"
    "gb_gen (blk (add_refs b d s) c) = gb_gen (blk s c)" "gb_state (blk (add_refs b d s) c) = gb_state (blk s c)" "gb_bag (blk (add_refs b d s) c) = gb_bag (blk s c)"
  using assms by (cases "b = c"; simp add: add_refs_def)+

lemma same_mem_add_refs: "b < K_of s \<Longrightarrow> same_mem s (add_refs b d s)"
  by (auto simp: same_mem_def add_refs_blk)

lemma same_mem_trans: "same_mem s s' \<Longrightarrow> same_mem s' s'' \<Longrightarrow> same_mem s s''"
  by (simp add: same_mem_def)

text \<open>A count that somebody is on is positive.\<close>

lemma count_pos:
  assumes h: "hand_ok s G" and b: "b < K_of s" and m: "rl_handles s x = Some b \<or> bumps (rl_pcs s t) = Some b"
  shows "0 < gb_refs (blk s b)"
proof -
  have "{h. rl_handles s h = Some b} \<noteq> {} \<or> {t. bumps (rl_pcs s t) = Some b} \<noteq> {}" using m by auto
  then have "0 < card {h. rl_handles s h = Some b} + card {t. bumps (rl_pcs s t) = Some b}"
    using finite_handles [OF h, of b] finite_bumps [OF h, of b] by (auto simp: card_gt_0_iff)
  then show ?thesis unfolding hand_okD(9) [OF h b] by linarith
qed

lemma good_same:
  assumes inv: "rinv s G" and sm: "same_mem s s'" and h: "hand_ok s' G" and th: "thr_ok s' G"
  shows "good None s G s'"
proof (rule goodI)
  show "rinv s' G" using same_mem_ok [OF sm rinvD(1) [OF inv]] h th by (simp add: rinv_def)
  show "avl s' G = avl s G" using same_mem_sel [OF sm] by (simp add: avl_def)
qed

lemma hgen_same:
  assumes h: "hand_ok s G" and sm: "same_mem s s'" and x: "rl_handles s' x = rl_handles s x"
  shows "hgen s' x = hgen s x"
proof (cases "rl_handles s x")
  case None
  then show ?thesis using x by (simp add: hgen_def)
next
  case (Some b)
  then have "b < K_of s" using hand_okD(3) [OF h Some] by (simp add: held_def)
  then show ?thesis using x Some sm by (simp add: hgen_def same_mem_def)
qed

lemma claimed_facts:
  assumes h: "hand_ok s G" and c: "claims (rl_pcs s t) = Some x"
  shows "t \<in> set (rl_threads s)" "u \<noteq> t \<Longrightarrow> claims (rl_pcs s u) \<noteq> Some x \<and> uses (rl_pcs s u) \<noteq> Some x"
    "new_of (rl_pcs s t) = []" "pop_of (rl_pcs s t) = []" "dead_of (rl_pcs s t) = []" "rl_pcs s t \<noteq> Reclaim q"
proof -
  have "\<not> rl_at_rest (rl_pcs s t)" using c by (cases "rl_pcs s t") auto
  then show "t \<in> set (rl_threads s)" using hand_okD(2) [OF h] by blast
  show "u \<noteq> t \<Longrightarrow> claims (rl_pcs s u) \<noteq> Some x \<and> uses (rl_pcs s u) \<noteq> Some x" using hand_okD(7,8) [OF h c, of u] by auto
  show "new_of (rl_pcs s t) = []" "pop_of (rl_pcs s t) = []" "dead_of (rl_pcs s t) = []" "rl_pcs s t \<noteq> Reclaim q"
    using c by (cases "rl_pcs s t"; auto)+
qed

text \<open>A step of a thread that has a handle for itself: the handle may get a block, and counts may change.\<close>

lemma claim_step:
  assumes inv: "rinv s G" and c: "claims (rl_pcs s t) = Some x" and sm: "same_mem s s1"
    and s1: "rl_handles s1 = (rl_handles s)(x := v)" "\<And>y. y \<noteq> x \<Longrightarrow> rl_iters s1 y = rl_iters s y" "rl_pcs s1 = rl_pcs s" "rl_threads s1 = rl_threads s"
    and v: "\<And>b. v = Some b \<Longrightarrow> held s G b" "v = rl_handles s x \<and> rl_iters s1 x = rl_iters s x \<or> rl_iters s1 x = []"
    and refs: "\<And>b. b < K_of s \<Longrightarrow> gb_refs (blk s1 b) = gb_refs (blk s b) - of_bool (rl_handles s x = Some b) + of_bool (v = Some b)
        - of_bool (bumps (rl_pcs s t) = Some b) + of_bool (bumps p = Some b)"
    and p: "claim_ok s1 G p" "claims p = None \<or> claims p = Some x" "uses p = None" "\<And>q. p \<noteq> Reclaim q"
  shows "good None s G (rl_to t p s1)"
proof -
  note h = rinvD(2) [OF inv] and r = mem_okD(1) [OF rinvD(1) [OF inv]]
  note cf = claimed_facts [OF h c]
  have sm': "same_mem s (rl_to t p s1)" using same_mem_trans [OF sm same_mem_rl_to] .
  have own: "new_of p = []" "pop_of p = []" "dead_of p = []" using p(3) by (cases p; auto)+
  show ?thesis
  proof (rule good_same [OF inv sm'])
    show "hand_ok (rl_to t p s1) G"
    proof (rule hand_step [OF h r sm', where x = x and v = v and t = t and p = p])
      show "fst it \<noteq> 0 \<and> obs G (gb_gen (blk s b)) (fst it) \<and> inc s (fst it) = Some (snd it)"
        if "v = Some b" "it \<in> set (rl_iters (rl_to t p s1) x)" for b it
        using that v hand_okD(4) [OF h, of x b it] by auto
      show "(v = rl_handles s x \<and> rl_iters (rl_to t p s1) x = rl_iters s x) \<or>
        (v \<noteq> None \<and> rl_handles s x \<noteq> None \<and> (\<forall>u. u \<noteq> t \<longrightarrow> claims (rl_pcs s u) \<noteq> Some x)) \<or>
        (\<forall>u. u \<noteq> t \<longrightarrow> claims (rl_pcs s u) \<noteq> Some x \<and> uses (rl_pcs s u) \<noteq> Some x)"
        using cf(2) by blast
      show "claim_ok (rl_to t p s1) G p"
        using p(1) claim_ok_same [OF same_mem_rl_to [where s = s1 and t = t and p = p], of p G] same_mem_ring_ok [OF sm r] by simp
      show "claims (rl_pcs s u) \<noteq> Some y \<and> uses (rl_pcs s u) \<noteq> Some y" if "claims p = Some y" "u \<noteq> t" for y u
        using that p(2) cf(2) by auto
    qed (use s1 v(1) refs p cf(1) in auto)
    show "thr_ok (rl_to t p s1) G"
    proof (rule thr_step [OF inv sm', where t = t and p = p])
      show "hgen (rl_to t p s1) y = hgen s y" if "u \<noteq> t" "uses (rl_pcs s u) = Some y" for u y
        using hgen_same [OF h sm'] cf(2) [OF that(1)] that(2) s1(1) by (cases "y = x") auto
    qed (use s1 own cf(3-6) p in auto)
  qed
qed

lemma join_step_inv:
  assumes inv: "rinv s G" and pc: "rl_pcs s t = Join p"
  shows "\<exists>s'. join_step t p s = Some s' \<and> good None s G s'"
proof -
  note h = rinvD(2) [OF inv] and r = mem_okD(1) [OF rinvD(1) [OF inv]]
  note rg = ring_okD [OF r]
  let ?x = "jctx_handle (join_ctx p)"
  have c: "claims (rl_pcs s t) = Some ?x" using pc by simp
  have ok: "claim_ok s G (Join p)" using hand_okD(5) [OF h, of t] pc by simp
  note goto = claim_step [OF inv c, where v = "rl_handles s ?x"]
  have hh: "rl_handles s ?x = Some b \<Longrightarrow> held s G b" for b using hand_okD(3) [OF h] .
  show ?thesis
  proof (cases p)
    case (Jn_load j)
    have "good None s G (rl_to t (Join (Jn_bump j (rl_current s))) s)"
      by (rule goto) (use pc ok hh rg(3) Jn_load in \<open>auto simp: same_mem_def\<close>)
    then show ?thesis using Jn_load by simp
  next
    case (Jn_bump j b)
    then have b: "b < K_of s" using ok by simp
    have "claim_ok (add_refs b 1 s) G (Join (Jn_check j b))" using ok Jn_bump by (simp split: jctx.splits)
    then have "good None s G (rl_to t (Join (Jn_check j b)) (add_refs b 1 s))"
      by (intro goto) (use pc hh same_mem_add_refs [OF b] add_refs_blk [OF b] Jn_bump in auto)
    then show ?thesis using Jn_bump by simp
  next
    case (Jn_check j b)
    then have b: "b < K_of s" using ok by simp
    show ?thesis
    proof (cases "rl_current s = b")
      case True
      have hb: "held s G b"
      proof -
        have "gb_gen (blk s b) = cgen s" "gb_state (blk s b) \<noteq> G_empty" using rg(5) True by (auto simp: cgen_def)
        moreover have "lo s < cgen s" if "is_freeing (g_rec G)"
        proof -
          have "gb_state (blk s (rl_oldest s)) = G_sealed"
            using that mem_okD(6) [OF rinvD(1) [OF inv]] by (cases "g_rec G" rule: is_freeing.cases) (auto simp: rec_ok_def)
          then have "rl_current s \<noteq> rl_oldest s" using rg(5) by auto
          then show ?thesis using ring_in_use(3) [OF r rg(3)] rg(5,7) by (auto simp: cgen_def)
        qed
        ultimately show ?thesis using b rg(7) by (simp add: held_def guard_def)
      qed
      have "good None s G (join_return t j b s)"
      proof (cases j)
        case (J_new x)
        have "good None s G (rl_to t (Rl_done Res_handle) (s\<lparr>rl_handles := (rl_handles s)(x \<mapsto> b), rl_iters := (rl_iters s)(x := [])\<rparr>))"
          by (rule claim_step [OF inv, where x = x and v = "Some b"]) (use pc ok hb J_new Jn_check in \<open>auto simp: same_mem_def\<close>)
        then show ?thesis using J_new by simp
      next
        case (J_refresh x)
        have "good None s G (rl_to t (Refresh (Rf_leave x b)) s)"
          by (rule goto) (use pc ok hh hb J_refresh Jn_check in \<open>auto simp: same_mem_def\<close>)
        then show ?thesis using J_refresh by simp
      qed
      then show ?thesis using True Jn_check by simp
    next
      case False
      have "good None s G (rl_to t (Join (Jn_undo j b)) s)"
        by (rule goto) (use pc ok hh Jn_check in \<open>auto simp: same_mem_def\<close>)
      then show ?thesis using False Jn_check by simp
    qed
  next
    case (Jn_undo j b)
    then have b: "b < K_of s" using ok by simp
    have pos: "0 < gb_refs (blk s b)" by (rule count_pos [OF h b, of _ t]) (use pc Jn_undo in simp)
    have "claim_ok (add_refs b (- 1) s) G (Join (Jn_load j))" using ok Jn_undo by (simp split: jctx.splits)
    then have "good None s G (rl_to t (Join (Jn_load j)) (add_refs b (- 1) s))"
      by (intro goto) (use pc hh same_mem_add_refs [OF b] add_refs_blk [OF b] Jn_undo in auto)
    then show ?thesis using Jn_undo pos by (simp add: leave_def)
  qed
qed

lemma refresh_step_inv:
  assumes inv: "rinv s G" and pc: "rl_pcs s t = Refresh p"
  shows "\<exists>s'. refresh_step t p s = Some s' \<and> good None s G s'"
proof -
  note h = rinvD(2) [OF inv]
  have ok: "claim_ok s G (Refresh p)" using hand_okD(5) [OF h, of t] pc by simp
  show ?thesis
  proof (cases p)
    case (Rf_load x)
    have c: "claims (rl_pcs s t) = Some x" using pc Rf_load by simp
    have hh: "rl_handles s x = Some b \<Longrightarrow> held s G b" for b using hand_okD(3) [OF h] .
    have "good None s G (rl_to t (Rl_done (Res_refresh False)) s)" "good None s G (rl_to t (Join (Jn_load (J_refresh x))) s)"
      by (rule claim_step [OF inv c, where v = "rl_handles s x"]; use pc ok hh Rf_load in \<open>auto simp: same_mem_def\<close>)+
    then show ?thesis using Rf_load by simp
  next
    case (Rf_leave x j)
    then obtain b where b: "rl_handles s x = Some b" and x: "rl_iters s x = []" "held s G j" using ok by auto
    have bK: "b < K_of s" using hand_okD(3) [OF h b] by (simp add: held_def)
    have pos: "0 < gb_refs (blk s b)" by (rule count_pos [OF h bK, of x]) (use b in simp)
    let ?s1 = "(add_refs b (- 1) s)\<lparr>rl_handles := (rl_handles s)(x \<mapsto> j)\<rparr>"
    have "same_mem s ?s1" using same_mem_add_refs [OF bK, of "- 1"] by (simp add: same_mem_def)
    then have "good None s G (rl_to t (Rl_done (Res_refresh True)) ?s1)"
      by (intro claim_step [OF inv, where x = x and v = "Some j"]) (use pc b x add_refs_blk [OF bK] Rf_leave in auto)
    then show ?thesis using Rf_leave b pos by (simp add: leave_def)
  qed
qed

section \<open>Handles between calls\<close>

lemma rest_facts: "rl_at_rest p \<Longrightarrow> claims p = None \<and> uses p = None"
  by (cases p) auto

lemma unusedD:
  assumes "hand_ok s G"
  shows "unused x s \<Longrightarrow> claims (rl_pcs s u) \<noteq> Some x \<and> uses (rl_pcs s u) \<noteq> Some x" "unclaimed x s \<Longrightarrow> claims (rl_pcs s u) \<noteq> Some x"
proof -
  have "u \<notin> set (rl_threads s) \<Longrightarrow> claims (rl_pcs s u) = None \<and> uses (rl_pcs s u) = None" using hand_okD(2) [OF assms] rest_facts by blast
  then show "unused x s \<Longrightarrow> claims (rl_pcs s u) \<noteq> Some x \<and> uses (rl_pcs s u) \<noteq> Some x" "unclaimed x s \<Longrightarrow> claims (rl_pcs s u) \<noteq> Some x"
    by (cases "u \<in> set (rl_threads s)"; auto simp: unused_def unclaimed_def list_all_iff)+
qed

lemma free_step:
  assumes inv: "rinv s G" and sm: "same_mem s s'"
    and s': "rl_handles s' = (rl_handles s)(x := v)" "\<And>y. y \<noteq> x \<Longrightarrow> rl_iters s' y = rl_iters s y" "rl_pcs s' = rl_pcs s" "rl_threads s' = rl_threads s"
    and free: "\<And>u. claims (rl_pcs s u) \<noteq> Some x" "v = rl_handles s x \<and> v \<noteq> None \<or> (\<forall>u. uses (rl_pcs s u) \<noteq> Some x)"
    and v: "\<And>b. v = Some b \<Longrightarrow> held s G b"
      "\<And>b it. v = Some b \<Longrightarrow> it \<in> set (rl_iters s' x) \<Longrightarrow> fst it \<noteq> 0 \<and> obs G (gb_gen (blk s b)) (fst it) \<and> inc s (fst it) = Some (snd it)"
    and refs: "\<And>b. b < K_of s \<Longrightarrow> gb_refs (blk s' b) = gb_refs (blk s b) - of_bool (rl_handles s x = Some b) + of_bool (v = Some b)"
  shows "good None s G s'"
proof -
  note h = rinvD(2) [OF inv] and r = mem_okD(1) [OF rinvD(1) [OF inv]]
  note d = hand_okD [OF h]
  have pcs: "rl_pcs s' = (rl_pcs s)(0 := rl_pcs s 0)" using s'(3) by simp
  show ?thesis
  proof (rule good_same [OF inv sm])
    show "hand_ok s' G"
    proof (rule hand_step [OF h r sm s'(1,2) pcs _ _ v])
      show "claim_ok s' G (rl_pcs s 0)"
        using d(5) [of 0] claim_ok_same [OF sm r, of "rl_pcs s 0" G] s'(1,2) free(1) [of 0] by fastforce
      show "rl_handles s' y \<noteq> None" if "uses (rl_pcs s 0) = Some y" for y
        using that d(6) [of 0 y] s'(1) free(2) by (cases "y = x") auto
    qed (use s' free refs d(2) [of 0] d(7,8) in auto)
    show "thr_ok s' G"
    proof (rule thr_step [OF inv sm pcs])
      have hg: "hgen s' y = hgen s y" if "uses (rl_pcs s u) = Some y" for u y
        using hgen_same [OF h sm, of y] that s'(1) free(2) by (cases "y = x") auto
      show "hgen s' y = hgen s y" if "u \<noteq> 0" "uses (rl_pcs s u) = Some y" for u y using hg that(2) .
      show "pc_ok s G g (rl_pcs s 0)" if "uses (rl_pcs s 0) = Some y" "hgen s' y = Some g" for y g
        using thr_okD(4) [OF rinvD(3) [OF inv] that(1)] hg that by simp
    qed auto
  qed
qed

lemma drop_inv:
  assumes inv: "rinv s G" and u: "unused x s"
  shows "\<exists>s'. drop_handle x s = Some s' \<and> good None s G s' \<and> rl_handles s' x = None \<and>
    rl_pcs s' = rl_pcs s \<and> rl_threads s' = rl_threads s"
proof (cases "rl_handles s x")
  case None
  have "good None s G s" using inv by (auto intro: goodI)
  then show ?thesis using None by (simp add: drop_handle_def)
next
  case (Some b)
  note h = rinvD(2) [OF inv]
  have bK: "b < K_of s" using hand_okD(3) [OF h Some] by (simp add: held_def)
  have pos: "0 < gb_refs (blk s b)" by (rule count_pos [OF h bK, of x]) (use Some in simp)
  let ?s1 = "(add_refs b (- 1) s)\<lparr>rl_handles := (rl_handles s)(x := None), rl_iters := (rl_iters s)(x := [])\<rparr>"
  have "same_mem s ?s1" using same_mem_add_refs [OF bK, of "- 1"] by (simp add: same_mem_def)
  then have "good None s G ?s1"
    by (rule free_step [OF inv, where x = x and v = None]) (use unusedD(1) [OF h u] Some add_refs_blk [OF bK] in auto)
  then show ?thesis using Some pos by (simp add: drop_handle_def leave_def)
qed

definition swap_id :: "hid \<Rightarrow> hid \<Rightarrow> hid \<Rightarrow> hid" where
  "swap_id x y z = (if z = x then y else if z = y then x else z)"

lemma swap_id_swap_id [simp]: "swap_id x y (swap_id x y z) = z"
  by (simp add: swap_id_def)

lemma swap_inv:
  assumes inv: "rinv s G" and u: "unused x s" "unused y s" and sm: "same_mem s s'" "rl_ring s' = rl_ring s"
    and s': "\<And>z. rl_handles s' z = rl_handles s (swap_id x y z)" "\<And>z. rl_handles s' z \<noteq> None \<Longrightarrow> rl_iters s' z = rl_iters s (swap_id x y z)"
      "\<And>z. z \<noteq> x \<Longrightarrow> z \<noteq> y \<Longrightarrow> rl_iters s' z = rl_iters s z" "rl_pcs s' = rl_pcs s" "rl_threads s' = rl_threads s"
  shows "good None s G s'"
proof -
  note h = rinvD(2) [OF inv] and r = mem_okD(1) [OF rinvD(1) [OF inv]]
  note d = hand_okD [OF h]
  note ux = unusedD(1) [OF h u(1)] and uy = unusedD(1) [OF h u(2)]
  have same: "rl_handles s' z = rl_handles s z" if "z \<noteq> x" "z \<noteq> y" for z using that s'(1) by (simp add: swap_id_def)
  have inc: "inc s' = inc s" using same_mem_sel [OF sm(1)] by simp
  have cnt: "card {z. rl_handles s' z = Some b} = card {z. rl_handles s z = Some b}" for b
  proof -
    have "{z. rl_handles s' z = Some b} = swap_id x y ` {z. rl_handles s z = Some b}"
      using s'(1) by (auto simp: image_iff) (metis swap_id_swap_id)
    moreover have "inj (swap_id x y)" by (metis injI swap_id_swap_id)
    ultimately show ?thesis by (simp add: card_image inj_on_subset [OF _ subset_UNIV])
  qed
  show ?thesis
  proof (rule good_same [OF inv sm(1)])
    show "hand_ok s' G" unfolding hand_ok_def
    proof (intro conjI allI impI ballI)
      have "dom (rl_handles s') \<subseteq> insert x (insert y (dom (rl_handles s)))" using s'(1) by (auto simp: swap_id_def split: if_splits)
      then show "finite (dom (rl_handles s'))" using d(1) finite_subset by blast
      show "rl_at_rest (rl_pcs s' t)" if "t \<notin> set (rl_threads s')" for t using d(2) that s' by simp
      show "held s' G b" if "rl_handles s' z = Some b" for z b using d(3) that s'(1) held_same [OF sm(1) r] by simp
      show "fst it \<noteq> 0" "obs G (gb_gen (blk s' b)) (fst it)" "inc s' (fst it) = Some (snd it)"
        if "rl_handles s' z = Some b" "it \<in> set (rl_iters s' z)" for z b it
        using d(4) [of "swap_id x y z" b it] that s'(1,2) [of z] sm(2) inc by auto
      show "claim_ok s' G (rl_pcs s' t)" for t
        using d(5) [of t] claim_ok_same [OF sm(1) r, of "rl_pcs s t" G] same s'(3,4) ux [of t] uy [of t] by fastforce
      show "rl_handles s' z \<noteq> None" if "uses (rl_pcs s' t) = Some z" for t z
        using d(6) [of t z] that same [of z] s'(4) ux [of t] uy [of t] by fastforce
      show "claims (rl_pcs s' w) \<noteq> Some z" "uses (rl_pcs s' w) \<noteq> Some z" if "claims (rl_pcs s' t) = Some z" "t \<noteq> w" for t w z
        using d(7,8) [of t z w] that s'(4) by auto
      show "gb_refs (blk s' b) = int (card {z. rl_handles s' z = Some b} + card {t. bumps (rl_pcs s' t) = Some b})" if "b < K_of s'" for b
        using d(9) [of b] cnt that sm(2) s'(4) by simp
    qed
    have hg: "hgen s' z = hgen s z" if "uses (rl_pcs s t) = Some z" for t z
      using hgen_same [OF h sm(1), of z] same [of z] that ux [of t] uy [of t] by fastforce
    show "thr_ok s' G"
    proof (rule thr_step [OF inv sm(1)])
      show "rl_pcs s' = (rl_pcs s)(0 := rl_pcs s 0)" using s'(4) by simp
      show "pc_ok s G g (rl_pcs s 0)" if "uses (rl_pcs s 0) = Some z" "hgen s' z = Some g" for z g
        using thr_okD(4) [OF rinvD(3) [OF inv] that(1)] hg that by simp
    qed (use hg in auto)
  qed
qed

end
