(* ===== verification/Rcu_Exec.thy ===== *)
theory Rcu_Exec
  imports Rcu_Handles
begin

text \<open>
  The invariant holds in every state that \<open>LockFreeListRCU\<close> can reach, and every action acts on the abstract list as its linearization
  says.
\<close>

section \<open>Iterators and calls\<close>

lemma iter_ok:
  assumes inv: "rinv s G" and v: "valid_iter h it s"
  obtains b where "rl_handles s h = Some b" "guard s G (gb_gen (blk s b))" "obs G (gb_gen (blk s b)) (fst it)" "inc s (fst it) = Some (snd it)"
proof -
  note hd0 = rinvD(2) [OF inv]
  obtain b where b: "rl_handles s h = Some b" using v by (auto simp: valid_iter_def)
  have g: "guard s G (gb_gen (blk s b))" using hand_okD(3) [OF hd0 b] by (simp add: held_def)
  consider "Some it = make_iterator s 0" | "it \<in> set (rl_iters s h)" using v by (auto simp: valid_iter_def rl_head_def)
  then have "obs G (gb_gen (blk s b)) (fst it) \<and> inc s (fst it) = Some (snd it)"
  proof cases
    case 1
    then obtain n where "rl_nodes s 0 = Some n" "it = (0, rn_inc n)" by (cases "rl_nodes s 0") (auto simp: make_iterator_def)
    then show ?thesis by (simp add: inc_def obs_def)
  next
    case 2
    then show ?thesis using hand_okD(4) [OF hd0 b] by blast
  qed
  then show ?thesis using that b g by blast
qed

lemma inc_iter_inv:
  assumes inv: "rinv s G" and v: "valid_iter h it s"
  shows "\<exists>s'. inc_iter h it s = Some s' \<and> good None s G s'"
proof -
  note m = rinvD(1) [OF inv] and hd0 = rinvD(2) [OF inv]
  obtain b where b: "rl_handles s h = Some b" "guard s G (gb_gen (blk s b))" "obs G (gb_gen (blk s b)) (fst it)" "inc s (fst it) = Some (snd it)"
    using iter_ok [OF inv v] .
  obtain n where n: "rl_nodes s (fst it) = Some n" "rn_inc n = snd it" using b(4) by (auto simp: inc_def)
  have s: "good None s G s" using inv by (auto intro: goodI)
  show ?thesis
  proof (cases "fst (rn_next n)")
    case None
    then show ?thesis using n s by (simp add: inc_iter_def)
  next
    case (Some x)
    then have "nx s (fst it) = Some x" using n by (simp add: nx_def)
    then have x: "obs G (gb_gen (blk s b)) x" "x \<noteq> 0" using obs_next [OF m b(2,3)] by auto
    then obtain nd where nd: "rl_nodes s x = Some nd" using obs_exists [OF m] by blast
    let ?s = "s\<lparr>rl_iters := (rl_iters s)(h := List.insert (x, rn_inc nd) (rl_iters s h))\<rparr>"
    have un: "claims (rl_pcs s u) \<noteq> Some h" for u using unusedD(2) [OF hd0] v by (simp add: valid_iter_def)
    have "good None s G ?s"
      by (rule free_step [OF inv, where x = h and v = "rl_handles s h"])
        (use b(1) x un nd hand_okD(3) [OF hd0] hand_okD(4) [OF hd0 b(1)] in \<open>auto simp: same_mem_def inc_def\<close>)
    then show ?thesis using n Some nd by (simp add: inc_iter_def make_iterator_def)
  qed
qed

lemma rl_call_inv:
  assumes inv: "rinv s G" and c: "rl_call t p s = Some s'"
    and p: "claim_ok s G p" "bumps p = None" "new_of p = []" "pop_of p = []" "dead_of p = []" "\<And>q. p = Reclaim q \<Longrightarrow> q = Rc_flag"
      "\<And>h. claims p = Some h \<Longrightarrow> unused h s" "\<And>h. uses p = Some h \<Longrightarrow> unclaimed h s \<and> rl_handles s h \<noteq> None"
      "\<And>h g. uses p = Some h \<Longrightarrow> hgen s h = Some g \<Longrightarrow> pc_ok s G g p"
  shows "good None s G s'"
proof -
  note h = rinvD(2) [OF inv] and r = mem_okD(1) [OF rinvD(1) [OF inv]]
  have rest: "rl_at_rest (rl_pcs s t)" and s': "s' = rl_to t p (s\<lparr>rl_threads := List.insert t (rl_threads s), rl_did := (rl_did s)(t := [])\<rparr>)"
    using c by (auto simp: rl_call_def split: if_splits)
  have sm: "same_mem s s'" using s' by (simp add: same_mem_def)
  have old: "claims (rl_pcs s t) = None" "uses (rl_pcs s t) = None" "bumps (rl_pcs s t) = None" "new_of (rl_pcs s t) = []" "pop_of (rl_pcs s t) = []"
    "dead_of (rl_pcs s t) = []" "\<And>q. rl_pcs s t \<noteq> Reclaim q" using rest by (cases "rl_pcs s t"; auto)+
  have hs: "rl_handles s' = rl_handles s" "rl_iters s' = rl_iters s" using s' by auto
  show ?thesis
  proof (rule good_same [OF inv sm])
    show "hand_ok s' G"
    proof (rule hand_step [OF h r sm, where x = 0 and v = "rl_handles s 0" and t = t and p = p])
      show "claim_ok s' G p" using claim_ok_same [OF sm r] p(1) hs by simp
    qed (use s' old p unusedD [OF h] hand_okD(3,4) [OF h] in auto)
    show "thr_ok s' G"
      by (rule thr_step [OF inv sm, where t = t and p = p]) (use s' old p hgen_same [OF h sm] in auto)
  qed
qed

lemma good_trans:
  assumes "good None s G s1" and "\<And>G1. rinv s1 G1 \<Longrightarrow> good l s1 G1 s2"
  shows "good l s G s2"
proof -
  obtain G1 where "rinv s1 G1" "avl s1 G1 = avl s G" using assms(1) by (auto simp: good_def)
  then show ?thesis using assms(2) [of G1] by (auto simp: good_def split: option.splits)
qed

lemma clear_iters_inv:
  assumes inv: "rinv s G" and u: "unused h s"
  shows "good None s G (s\<lparr>rl_iters := (rl_iters s)(h := [])\<rparr>)"
  by (rule free_step [OF inv, where x = h and v = "rl_handles s h"])
    (use unusedD(1) [OF rinvD(2) [OF inv] u] hand_okD(3) [OF rinvD(2) [OF inv]] in \<open>auto simp: same_mem_def\<close>)

section \<open>Every action\<close>

lemma rl_step_inv:
  assumes inv: "rinv s G" and p: "rl_step t (rl_pcs s t) s = Some s'"
  shows "good (rl_lin_pc t (rl_pcs s t) s) s G s'"
proof (cases "rl_pcs s t")
  case (Init p)
  then show ?thesis using init_step_inv [OF inv Init] assms(2) by (cases p) auto
qed (use assms(2) join_step_inv [OF inv] refresh_step_inv [OF inv] rerase_step_inv [OF inv] retire_step_inv [OF inv] reclaim_step_inv [OF inv] in
      \<open>fastforce simp del: init_step.simps rerase_step.simps\<close>)+

lemma rl_weak_inv:
  assumes inv: "rinv s G" and w: "rl_weak t (rl_pcs s t) s = Some s'"
  shows "good None s G s'"
  using w retire_reload [OF inv, of t] pop_head_inv [OF inv, of t] fp_retry_inv [OF inv, of t]
  by (auto simp: rl_weak_def split: rl_pc.splits retire_pc.splits init_pc.splits reclaim_pc.splits)

fun rl_lin :: "'a rcu \<Rightarrow> 'a rl_act \<Rightarrow> (list_op \<times> 'a option) option" where
  "rl_lin s (Rl_step t) = rl_lin_pc t (rl_pcs s t) s"
| "rl_lin s _ = None"

lemma refresh_call_inv:
  assumes inv: "rinv s G" and h: "rl_handles s h \<noteq> None" "unused h s"
    and c: "rl_call t (Refresh (Rf_load h)) (s\<lparr>rl_iters := (rl_iters s)(h := [])\<rparr>) = Some s'"
  shows "good None s G s'"
proof (rule good_trans [OF clear_iters_inv [OF inv h(2)]])
  fix G1 assume "rinv (s\<lparr>rl_iters := (rl_iters s)(h := [])\<rparr>) G1"
  then show "good None (s\<lparr>rl_iters := (rl_iters s)(h := [])\<rparr>) G1 s'"
    by (rule rl_call_inv [OF _ c]) (use h in \<open>auto simp: unused_def\<close>)
qed

lemma move_inv:
  assumes inv: "rinv s G" and u: "unused h s" "unused g s" and n: "h \<noteq> g"
  shows "\<exists>s'. map_option (give_handle h g) (drop_handle h s) = Some s' \<and> good None s G s'"
proof -
  obtain s1 where s1: "drop_handle h s = Some s1" "good None s G s1" "rl_handles s1 h = None" "rl_pcs s1 = rl_pcs s" "rl_threads s1 = rl_threads s"
    using drop_inv [OF inv u(1)] by blast
  have u1: "unused h s1" "unused g s1" using u s1(4,5) by (simp_all add: unused_def)
  have "good None s1 G1 (give_handle h g s1)" if "rinv s1 G1" for G1
    by (rule swap_inv [OF that u1]) (use s1(3) n in \<open>auto simp: same_mem_def give_handle_def swap_id_def split: if_splits\<close>)
  then show ?thesis using s1(1) good_trans [OF s1(2)] by auto
qed

lemma swap_handles_inv:
  assumes inv: "rinv s G" and u: "unused h s" "unused g s"
  shows "good None s G (swap_handles h g s)"
  by (rule swap_inv [OF inv u]) (auto simp: same_mem_def swap_handles_def swap_id_def)

lemma op_call_inv:
  assumes inv: "rinv s G" and v: "valid_iter h it s"
    and c: "rl_call t p s = Some s'" "p = Init (Al_head h (fst it) v) \<or> p = Erase_after (Rx_load h (fst it))"
  shows "good None s G s'"
proof (rule rl_call_inv [OF inv c(1)])
  obtain b where b: "rl_handles s h = Some b" "obs G (gb_gen (blk s b)) (fst it)" using iter_ok [OF inv v] .
  then show "pc_ok s G g p" if "uses p = Some x" "hgen s x = Some g" for x g
    using that c(2) by (auto simp: hgen_def)
qed (use v c(2) in \<open>auto simp: valid_iter_def\<close>)

lemma done_call_inv:
  assumes inv: "rinv s G" and c: "rl_call t (Rl_done r) s = Some s'"
  shows "good None s G s'"
  by (rule rl_call_inv [OF inv c]) auto

lemma rl_exec_inv:
  assumes inv: "rinv s G" and e: "rl_exec s a = Some s'"
  shows "good (rl_lin s a) s G s'"
proof (cases a)
  case (Rl_new_handle t h)
  have "unused h s" if "rl_handles s h = None" "unclaimed h s"
    using that by (auto simp: unused_def unclaimed_def list_all_iff dest: hand_okD(6) [OF rinvD(2) [OF inv]])
  then have "good None s G s'"
    using e Rl_new_handle rl_call_inv [OF inv, of t "Join (Jn_load (J_new h))" s'] by (auto split: if_splits)
  then show ?thesis using Rl_new_handle by simp
next
  case (Rl_drop h)
  then show ?thesis using e drop_inv [OF inv, of h] by (auto split: if_splits)
next
  case (Rl_move h g)
  moreover have "good None s G s" using inv by (auto intro: goodI)
  ultimately show ?thesis using e move_inv [OF inv, of h g] by (auto split: if_splits)
next
  case (Rl_inc h it)
  then show ?thesis using e inc_iter_inv [OF inv, of h it] by (auto split: if_splits)
next
  case (Rl_insert t h anchor v)
  then show ?thesis using e done_call_inv [OF inv] op_call_inv [OF inv] by (auto split: if_splits option.splits)
next
  case (Rl_erase t h anchor)
  then show ?thesis using e done_call_inv [OF inv] op_call_inv [OF inv] by (auto split: if_splits option.splits)
next
  case (Rl_reclaim t)
  then have "good None s G s'" using e by (intro rl_call_inv [OF inv, of t "Reclaim Rc_flag"]) auto
  then show ?thesis using Rl_reclaim by simp
next
  case (Rl_no_memory t)
  then show ?thesis using e no_memory_inv [OF inv, of t] by (auto split: rl_pc.splits init_pc.splits)
qed (use e refresh_call_inv [OF inv] swap_handles_inv [OF inv] rl_step_inv [OF inv] rl_weak_inv [OF inv] new_step_inv [OF inv] in
      \<open>auto split: if_splits\<close>)

end
