(* ===== verification/Rcu_Spec.thy ===== *)
theory Rcu_Spec
  imports Rcu_Exec
begin

text \<open>
  The properties of \<open>LockFreeListRCU\<close>: no operation ever touches a node that is gone, the list is linearizable, and a session keeps the nodes
  of its iterators.
\<close>

section \<open>The list as the words show it\<close>

fun rl_walk :: "nat \<Rightarrow> 'a rcu \<Rightarrow> addr option \<Rightarrow> addr list" where
  "rl_walk 0 s p = []"
| "rl_walk (Suc k) s None = []"
| "rl_walk (Suc k) s (Some a) = a # rl_walk k s (nx s a)"

text \<open>The live nodes with their values; there are at most \<open>allocated_\<close> nodes behind the head.\<close>

definition rl_abs :: "'a rcu \<Rightarrow> (addr \<times> 'a option) list" where
  "rl_abs s = map (\<lambda>a. (a, val s a)) (filter (\<lambda>a. \<not> marked s a) (rl_head # rl_walk (nat (rl_allocated s)) s (nx s rl_head)))"

lemma rl_walk_chain: "chainto (nx s) p xs None \<Longrightarrow> length xs \<le> k \<Longrightarrow> rl_walk k s p = xs"
proof (induction xs arbitrary: p k)
  case Nil
  then show ?case by (cases k) auto
next
  case (Cons x xs)
  then show ?case by (cases k) auto
qed

lemma place_length:
  assumes "mem_ok s G"
  shows "length (g_list G P) \<le> nat (rl_allocated s)"
proof -
  have l: "lay G" and n: "finite (dom (g_at G))" "rl_allocated s = int (card (dom (g_at G)))"
    using mem_okD(2) [OF assms] by (auto simp: nodes_ok_def)
  have "set (g_list G P) \<subseteq> dom (g_at G)" using layD(2) [OF l] by auto
  then have "card (set (g_list G P)) \<le> card (dom (g_at G))" using n by (intro card_mono)
  then show ?thesis using n layD(1) [OF l, of P] by (simp add: distinct_card)
qed

lemma rl_abs_avl:
  assumes "mem_ok s G"
  shows "rl_abs s = avl s G"
proof -
  have "rl_walk (nat (rl_allocated s)) s (nx s 0) = g_list G P_chain"
    by (rule rl_walk_chain) (use mem_okD(3) [OF assms] place_length [OF assms] in \<open>auto simp: chains_ok_def\<close>)
  then show ?thesis by (simp add: rl_abs_def avl_def rl_head_def)
qed

definition rl_inv :: "'a rcu \<Rightarrow> bool" where
  "rl_inv s \<longleftrightarrow> (\<exists>G. rinv s G)"

interpretation rli: machine_invariant rl_exec rl_inv
  by unfold_locales (use rl_exec_inv in \<open>fastforce simp: rl_inv_def good_def\<close>)

interpretation rlr: machine_refinement rl_exec rl_inv vlist_exec rl_abs rl_lin
proof
  fix s t :: "'a rcu" and a
  assume i: "rl_inv s" and e: "rl_exec s a = Some t"
  obtain G where G: "rinv s G" using i by (auto simp: rl_inv_def)
  obtain G' where G': "rinv t G'" and l: "case rl_lin s a of None \<Rightarrow> avl t G' = avl s G | Some b \<Rightarrow> vlist_exec (avl s G) b = Some (avl t G')"
    using rl_exec_inv [OF G e] by (auto simp: good_def)
  note abs = rl_abs_avl [OF rinvD(1) [OF G]] rl_abs_avl [OF rinvD(1) [OF G']]
  show "rl_abs t = rl_abs s" if "rl_lin s a = None" using that l abs by simp
  show "vlist_exec (rl_abs s) b = Some (rl_abs t)" if "rl_lin s a = Some b" for b using that l abs by simp
qed

lemma rl_construct_inv:
  assumes "2 \<le> k"
  shows "rl_inv (rl_construct k :: 'a rcu)"
proof -
  let ?s = "rl_construct k :: 'a rcu" and ?G = "\<lparr>g_at = Map.empty, g_list = (\<lambda>_. []), g_ub = (\<lambda>_. 0), g_rec = None\<rparr>"
  have blk: "blk ?s b = \<lparr>gb_refs = 0, gb_bag = None, gb_state = (if b = 0 then G_current else G_empty), gb_gen = 0\<rparr>" if "b < k" for b
    using that by (cases b) (simp_all add: rl_construct_def)
  have K: "K_of ?s = k" by (simp add: rl_construct_def)
  have sel: "rl_oldest ?s = 0" "rl_current ?s = 0" "lo ?s = 0" "rl_handles ?s = Map.empty" "rl_pcs ?s = (\<lambda>_. Rl_rest)" "rl_threads ?s = []"
    using blk [of 0] assms by (simp_all add: rl_construct_def lo_def)
  have "slot_ok 0 0 (rpos k 0 b) (blk ?s b)" if "b < k" for b
    using blk [OF that] rpos_cases [of b k 0] that by (cases "b = 0") (simp_all add: slot_ok_def)
  then have "ring_ok ?s" using assms K sel by (simp add: ring_ok_def)
  moreover have "nodes_ok ?s ?G" by (simp add: nodes_ok_def lay_def marked_def rl_construct_def rl_head_def)
  moreover have "chains_ok ?s ?G"
    using blk K by (auto simp: chains_ok_def bag_ok_def nx_def) (simp_all add: rl_construct_def rl_head_def)
  moreover have "dead_ok ?s ?G" "vals_ok ?s ?G" "rec_ok ?s ?G"
    by (simp_all add: dead_ok_def dead_def vals_ok_def rec_ok_def rl_construct_def)
  moreover have "hand_ok ?s ?G" using blk K sel by (simp add: hand_ok_def)
  moreover have "thr_ok ?s ?G" using sel by (simp add: thr_ok_def)
  ultimately have "rinv ?s ?G" by (simp add: rinv_def mem_ok_def)
  then show ?thesis by (auto simp: rl_inv_def)
qed

lemma rl_reachable:
  assumes "2 \<le> k" and "run rl_exec (rl_construct k) as = Some s"
  obtains G where "rinv s G"
  using rli.run_Inv [OF rl_construct_inv [OF assms(1)] assms(2)] that by (auto simp: rl_inv_def)

section \<open>What the calls return\<close>

fun rl_result_ok :: "tid \<Rightarrow> 'a rl_pc \<Rightarrow> list_op list \<Rightarrow> bool" where
  "rl_result_ok t (Rl_done (Res_insert b)) d = (if b then (\<exists>a n. d = [Link t a n]) else d = [])"
| "rl_result_ok t (Rl_done (Res_erase b)) d = (if b then (\<exists>x. d = [Unlink t x]) else d = [])"
| "rl_result_ok t (Erase_after (Rx_unlink h a x w m)) d = (d = (if m then [Unlink t x] else []))"
| "rl_result_ok t (Retire (Rt_load (K_erase h a m) n)) d = (if m then (\<exists>x. d = [Unlink t x]) else d = [])"
| "rl_result_ok t (Retire (Rt_store (K_erase h a m) n q)) d = (if m then (\<exists>x. d = [Unlink t x]) else d = [])"
| "rl_result_ok t (Retire (Rt_cas (K_erase h a m) n q)) d = (if m then (\<exists>x. d = [Unlink t x]) else d = [])"
| "rl_result_ok t _ d = (d = [])"

definition rl_results :: "'a rcu \<Rightarrow> bool" where
  "rl_results s \<longleftrightarrow> (\<forall>t. rl_result_ok t (rl_pcs s t) (rl_did s t))"

lemma rl_results_upd:
  assumes "rl_results s" and "rl_pcs s' = (rl_pcs s)(t := p)" and "\<And>u. u \<noteq> t \<Longrightarrow> rl_did s' u = rl_did s u"
    and "rl_result_ok t p (rl_did s' t)"
  shows "rl_results s'"
  using assms by (auto simp: rl_results_def)

lemma did_fields [simp]: "rl_did (add_refs b d s) = rl_did s" "rl_did (join_return t c b s) = rl_did s"
  by (auto simp: add_refs_def set_block_def) (cases c; simp)

lemma retire_result [simp]:
  "rl_result_ok t (Retire (Rt_cas k n q) :: 'a rl_pc) d = rl_result_ok t (Retire (Rt_load k n) :: 'a rl_pc) d"
  "rl_result_ok t (Retire (Rt_store k n q) :: 'a rl_pc) d = rl_result_ok t (Retire (Rt_load k n) :: 'a rl_pc) d"
  by (cases k; simp)+

lemma rl_step_results:
  assumes R: "rl_results s" and st: "rl_step t (rl_pcs s t) s = Some s'"
  shows "rl_results s'"
proof -
  have ok: "rl_result_ok t (rl_pcs s t) (rl_did s t)" using R by (auto simp: rl_results_def)
  have goal: "rl_results s'" if "rl_pcs s' = (rl_pcs s)(t := p)" "\<And>u. u \<noteq> t \<Longrightarrow> rl_did s' u = rl_did s u" "rl_result_ok t p (rl_did s' t)" for p
    using rl_results_upd [OF R that] .
  show ?thesis
  proof (cases "rl_pcs s t")
    case (Join p)
    then show ?thesis using st ok
      by (intro goal [of "rl_pcs s' t"]; cases p; cases "join_ctx p") (auto simp: leave_def split: if_splits)
  next
    case (Refresh p)
    then show ?thesis using st ok
      by (intro goal [of "rl_pcs s' t"]; cases p) (auto simp: leave_def split: if_splits option.splits)
  next
    case (Init p)
    then show ?thesis using st ok
      by (intro goal [of "rl_pcs s' t"]; cases p) (auto simp: pop_head_def split: if_splits option.splits)
  next
    case (Erase_after p)
    then show ?thesis using st ok
      by (intro goal [of "rl_pcs s' t"]; cases p) (auto split: if_splits option.splits prod.splits bool.splits)
  next
    case (Retire p)
    then show ?thesis using st ok
      by (intro goal [of "rl_pcs s' t"]; cases p; cases "retire_ctx_of p") (auto split: if_splits option.splits)
  next
    case (Reclaim p)
    then show ?thesis using st ok
      by (intro goal [of "rl_pcs s' t"]; cases p) (auto simp: Let_def split: if_splits option.splits)
  qed (use st in auto)
qed

lemma rl_call_results:
  assumes R: "rl_results s" and c: "rl_call t p (s\<lparr>rl_iters := f\<rparr>) = Some s'" and p: "rl_result_ok t p []"
  shows "rl_results s'"
  using c p by (intro rl_results_upd [OF R, of s' t p]) (auto simp: rl_call_def split: if_splits)

lemma handle_results:
  assumes R: "rl_results s" and "rl_pcs s' = rl_pcs s" "rl_did s' = rl_did s"
  shows "rl_results s'"
  using assms by (simp add: rl_results_def)

lemma drop_fields: "drop_handle h s = Some s' \<Longrightarrow> rl_pcs s' = rl_pcs s \<and> rl_did s' = rl_did s"
  by (auto simp: drop_handle_def leave_def split: option.splits if_splits)

lemma rl_exec_results:
  assumes R: "rl_results s" and e: "rl_exec s a = Some s'"
  shows "rl_results s'"
proof -
  have ok: "rl_result_ok t (rl_pcs s t) (rl_did s t)" for t using R by (auto simp: rl_results_def)
  have c0: "rl_call t p s = Some s' \<Longrightarrow> rl_result_ok t p [] \<Longrightarrow> rl_results s'" for t p
    using rl_call_results [OF R, of t p "rl_iters s" s'] by simp
  show ?thesis
  proof (cases a)
    case (Rl_spurious t)
    then show ?thesis using e ok [of t]
      by (intro rl_results_upd [OF R, of s' t "rl_pcs s' t"])
        (auto simp: rl_weak_def pop_head_def split: rl_pc.splits init_pc.splits retire_pc.splits reclaim_pc.splits option.splits)
  next
    case (Rl_new t x)
    then show ?thesis using e ok [of t]
      by (intro rl_results_upd [OF R, of s' t "rl_pcs s' t"]) (auto simp: new_step_def split: rl_pc.splits init_pc.splits if_splits)
  next
    case (Rl_no_memory t)
    then show ?thesis using e ok [of t]
      by (intro rl_results_upd [OF R, of s' t "rl_pcs s' t"]) (auto split: rl_pc.splits init_pc.splits)
  qed (use e R c0 rl_step_results [OF R] rl_call_results [OF R] in
       \<open>auto simp: give_handle_def swap_handles_def inc_iter_def split: if_splits option.splits
          dest!: drop_fields intro: handle_results [OF R]\<close>)
qed

interpretation rlres: machine_invariant rl_exec rl_results
  by unfold_locales (rule rl_exec_results)

section \<open>A run\<close>

text \<open>
  Thread 1 makes handle 7, inserts 10 (in the new node 4) behind the head and steps an iterator onto it; thread 2 erases the node and
  reclaims, which closes generation 0 but cannot free its bag; then the handle is destroyed, thread 2 reclaims again, and
  thread 1 inserts 20, which reuses the node.
\<close>

definition rl_demo :: "nat rl_act list" where
  "rl_demo = Rl_new_handle 1 7 # replicate 3 (Rl_step 1) @ [Rl_insert 1 7 (Some (0, 0)) 10, Rl_step 1, Rl_new 1 4] @ replicate 3 (Rl_step 1) @ [Rl_inc 7 (0, 0)]"

definition rl_demo_erase :: "nat rl_act list" where
  "rl_demo_erase = Rl_erase 2 7 (Some (0, 0)) # replicate 7 (Rl_step 2) @ Rl_reclaim 2 # replicate 7 (Rl_step 2)"

definition rl_demo_free :: "nat rl_act list" where
  "rl_demo_free = Rl_drop 7 # Rl_reclaim 2 # replicate 9 (Rl_step 2)"

definition rl_demo_reuse :: "nat rl_act list" where
  "rl_demo_reuse = Rl_new_handle 1 7 # replicate 3 (Rl_step 1) @ Rl_insert 1 7 (Some (0, 0)) 20 # replicate 6 (Rl_step 1)"

lemmas rl_eval = rl_construct_def rl_call_def rl_to_def unclaimed_def unused_def valid_iter_def make_iterator_def rl_head_def
  pop_head_def new_step_def inc_iter_def rl_next_def set_next_def set_rlink_def set_val_def bump_inc_def add_refs_def set_block_def leave_def
  set_mark_def get_unmarked_def Let_def next_slot_def rl_deref_def drop_handle_def numeral_eq_Suc
  rl_demo_def rl_demo_erase_def rl_demo_free_def rl_demo_reuse_def

section \<open>Memory safety\<close>

lemma rl_step_possible:
  assumes inv: "rinv s G" and r: "\<not> rl_at_rest (rl_pcs s t)" and n: "\<And>h a v. rl_pcs s t \<noteq> Init (Al_new h a v)"
  shows "\<exists>s'. rl_step t (rl_pcs s t) s = Some s'"
proof (cases "rl_pcs s t")
  case (Init p)
  then show ?thesis using init_step_inv [OF inv Init] n by auto
qed (use r join_step_inv [OF inv, of t] refresh_step_inv [OF inv, of t] rerase_step_inv [OF inv, of t] retire_step_inv [OF inv, of t]
      reclaim_step_inv [OF inv, of t] in auto)

text \<open>An observable node is neither free nor in a bag that is being freed: its value is constructed.\<close>

lemma obs_value:
  assumes m: "mem_ok s G" and g: "guard s G g" and o: "obs G g a" "a \<noteq> 0"
  shows "val s a \<noteq> None" "g_at G a \<noteq> Some P_free" "is_freeing (g_rec G) \<Longrightarrow> g_at G a \<noteq> Some (P_bag (rl_oldest s))"
    "\<And>t. g_at G a \<noteq> Some (P_new t)"
proof -
  show nf: "g_at G a \<noteq> Some P_free" and "\<And>t. g_at G a \<noteq> Some (P_new t)" using o by (auto simp: obs_def dead_def)
  show nb: "g_at G a \<noteq> Some (P_bag (rl_oldest s))" if "is_freeing (g_rec G)"
  proof
    assume "g_at G a = Some (P_bag (rl_oldest s))"
    then have "g_ub G a \<le> lo s" "g \<le> g_ub G a" using mem_okD(4) [OF m] o by (auto simp: dead_ok_def dead_def obs_def lo_def)
    then show False using g that by (simp add: guard_def)
  qed
  obtain P where P: "g_at G a = Some P" using o by (auto simp: obs_def dead_def)
  have "walked (g_rec G) = 0" if "\<not> is_freeing (g_rec G)" using that by (cases "g_rec G" rule: is_freeing.cases) auto
  then show "val s a \<noteq> None" using mem_okD(5) [OF m] P nf nb by (cases "is_freeing (g_rec G)") (auto simp: vals_ok_def)
qed

lemma deref_value:
  assumes "inc s (fst it) = Some (snd it)" and "fst it \<noteq> rl_head"
  shows "rl_deref s it = val s (fst it)"
  using assms by (auto simp: rl_deref_def inc_def val_def split: option.splits)

text \<open>
  C4.  Memory safety of the list with generations: whatever the threads do, no operation touches a node that does not exist or a value that is
  not constructed, and none of the assertions of the debug build fails.  In every reachable state a thread inside a call can take its next
  step (a thread that needs a new node waits for the allocator), an iterator of a live session can be advanced and dereferenced, and a
  handle that no call uses can be destroyed.
\<close>

theorem rl_memory_safe:
  assumes "2 \<le> k" and "run rl_exec (rl_construct k) as = Some s"
  shows "(\<not> rl_at_rest (rl_pcs s t) \<longrightarrow> (\<exists>s'. rl_exec s (Rl_step t) = Some s') \<or> (\<exists>h a v. rl_pcs s t = Init (Al_new h a v))) \<and>
         (valid_iter h it s \<longrightarrow> (\<exists>s'. rl_exec s (Rl_inc h it) = Some s') \<and> (fst it \<noteq> rl_head \<longrightarrow> (\<exists>v. rl_deref s it = Some v))) \<and>
         (unused h s \<longrightarrow> (\<exists>s'. rl_exec s (Rl_drop h) = Some s'))"
proof -
  obtain G where G: "rinv s G" using rl_reachable [OF assms] .
  have "\<exists>v. rl_deref s it = Some v" if v: "valid_iter h it s" "fst it \<noteq> rl_head"
    using iter_ok [OF G v(1)] obs_value(1) [OF rinvD(1) [OF G]] deref_value v(2) by (metis not_None_eq rl_head_def)
  then show ?thesis
    using rl_step_possible [OF G, of t] inc_iter_inv [OF G, of h it] drop_inv [OF G, of h] by fastforce
qed

text \<open>The run, and a thread inside its call: the iterator onto the inserted node can be dereferenced.\<close>

theorem rl_memory_safe_witness:
  "\<exists>s. run rl_exec (rl_construct 2) (rl_demo @ rl_demo_erase) = Some s \<and> valid_iter 7 (4, 0) s \<and>
       (\<exists>s'. rl_exec s (Rl_inc 7 (4, 0)) = Some s') \<and> (\<exists>v. rl_deref s (4, 0) = Some v)"
proof -
  obtain s where s: "run rl_exec (rl_construct 2) (rl_demo @ rl_demo_erase) = Some s" "valid_iter 7 (4, 0) s"
    by (simp add: rl_eval)
  then show ?thesis using rl_memory_safe [OF _ s(1), of 1 7 "(4, 0)"] by (simp add: rl_head_def)
qed

section \<open>Linearizability\<close>

text \<open>
  C5.  Linearizability of the list with generations: the live nodes with their values are at every moment the result of performing, in the order
  in which the calls took effect, every insertion as one insertion behind a node that is in the list and every erasure as one removal
  of a node that is in the list, although nodes are reused.  A call that returned true performed exactly one such operation, a call that
  returned false or threw \<open>std::bad_alloc\<close>, and every call of \<open>refresh\<close> and \<open>reclaim\<close>, none.
\<close>

theorem rl_list_linearizable:
  assumes "2 \<le> k" and "run rl_exec (rl_construct k) as = Some s"
  shows "run vlist_exec [(rl_head, None)] (lin_trace rl_exec rl_lin (rl_construct k) as) = Some (rl_abs s) \<and>
         (rl_pcs s t = Rl_done (Res_insert True) \<longrightarrow> (\<exists>a n. rl_did s t = [Link t a n])) \<and>
         (rl_pcs s t = Rl_done (Res_erase True) \<longrightarrow> (\<exists>x. rl_did s t = [Unlink t x])) \<and>
         (rl_pcs s t \<in> {Rl_done (Res_insert False), Rl_done (Res_erase False), Rl_done Res_bad_alloc} \<union>
            range (\<lambda>b. Rl_done (Res_refresh b)) \<union> range (\<lambda>r. Rl_done (Res_reclaim r)) \<longrightarrow> rl_did s t = [])"
proof -
  have "rl_abs (rl_construct k :: 'a rcu) = [(rl_head, None)]"
    by (simp add: rl_abs_def rl_construct_def rl_head_def val_def marked_def)
  then have "run vlist_exec [(rl_head, None)] (lin_trace rl_exec rl_lin (rl_construct k) as) = Some (rl_abs s)"
    using rlr.run_abs [OF rl_construct_inv [OF assms(1)] assms(2)] by simp
  moreover have "rl_results (rl_construct k :: 'a rcu)" by (simp add: rl_results_def rl_construct_def)
  then have "rl_results s" using rlres.run_Inv assms(2) by blast
  then have "rl_result_ok t (rl_pcs s t) (rl_did s t)" by (auto simp: rl_results_def)
  ultimately show ?thesis by auto
qed

text \<open>The run that reuses node 4: what was done to the list, and what it holds in the end.\<close>

theorem rl_list_linearizable_witness:
  "\<exists>s. run rl_exec (rl_construct 2) (rl_demo @ rl_demo_erase @ rl_demo_free @ rl_demo_reuse) = Some s \<and>
       run vlist_exec [(rl_head, None)] (lin_trace rl_exec rl_lin (rl_construct 2) (rl_demo @ rl_demo_erase @ rl_demo_free @ rl_demo_reuse)) = Some (rl_abs s) \<and>
       rl_abs s = [(0, None), (4, Some 20)] \<and> (\<exists>a n. rl_did s 1 = [Link 1 a n])"
proof -
  obtain s where s: "run rl_exec (rl_construct 2) (rl_demo @ rl_demo_erase @ rl_demo_free @ rl_demo_reuse) = Some s"
    "rl_pcs s 1 = Rl_done (Res_insert True)" "rl_abs s = [(0, None), (4, Some 20)]"
    by (simp add: rl_eval rl_abs_def marked_def nx_def val_def)
  then show ?thesis using rl_list_linearizable [OF _ s(1), of 1] by simp
qed

section \<open>A session keeps what its iterators are on\<close>

text \<open>The node whose value a step constructs or destroys.\<close>

fun touched :: "'a rcu \<Rightarrow> 'a rl_act \<Rightarrow> addr option" where
  "touched s (Rl_step t) = (case rl_pcs s t of
       Init (Al_cas h a v q n) \<Rightarrow> if rl_free s = Some q then Some q else None
     | Init (In_delete h n) \<Rightarrow> Some n
     | Reclaim (Fp_walk k n b p q c) \<Rightarrow> p
     | _ \<Rightarrow> None)"
| "touched s (Rl_new t x) = Some x"
| "touched s _ = None"

definition vi :: "'a rcu \<Rightarrow> addr \<Rightarrow> 'a option \<times> 32 word option" where
  "vi s x = (val s x, inc s x)"

lemma vi_same: "rl_nodes s' = rl_nodes s \<Longrightarrow> vi s' x = vi s x"
  by (simp add: vi_def val_def inc_def)

lemma vi_frame [simp]:
  "vi (set_next a w s) x = vi s x" "vi (set_rlink a q s) x = vi s x" "x \<noteq> a \<Longrightarrow> vi (set_val a v s) x = vi s x" "x \<noteq> a \<Longrightarrow> vi (bump_inc a s) x = vi s x"
  by (cases "rl_nodes s a"; auto simp: vi_def val_def inc_def set_next_def set_rlink_def set_val_def bump_inc_def)+

lemma vi_upd [simp]:
  "vi (s\<lparr>rl_ring := r\<rparr>) x = vi s x" "vi (s\<lparr>rl_current := c\<rparr>) x = vi s x" "vi (s\<lparr>rl_reclaiming := f\<rparr>) x = vi s x" "vi (s\<lparr>rl_oldest := c\<rparr>) x = vi s x"
  "vi (s\<lparr>rl_retired := q\<rparr>) x = vi s x" "vi (s\<lparr>rl_free := q\<rparr>) x = vi s x" "vi (s\<lparr>rl_allocated := n\<rparr>) x = vi s x" "vi (s\<lparr>rl_handles := h\<rparr>) x = vi s x"
  "vi (s\<lparr>rl_iters := i\<rparr>) x = vi s x" "vi (s\<lparr>rl_threads := ts\<rparr>) x = vi s x" "vi (s\<lparr>rl_did := d\<rparr>) x = vi s x" "vi (rl_to t p s) x = vi s x"
  "vi (add_refs b e s) x = vi s x" "vi (set_block b B s) x = vi s x" "vi (join_return t j b s) x = vi s x"
  by (cases j; auto intro!: vi_same)+

lemma vi_node [simp]:
  "y \<noteq> x \<Longrightarrow> vi (s\<lparr>rl_nodes := (rl_nodes s)(y := nd)\<rparr>) x = vi s x"
  "y \<noteq> x \<Longrightarrow> vi (s\<lparr>rl_nodes := (rl_nodes s)(y := nd), rl_allocated := n\<rparr>) x = vi s x"
  by (auto simp: vi_def val_def inc_def)

lemma leave_vi: "leave b s = Some s' \<Longrightarrow> vi s' x = vi s x"
  by (auto simp: leave_def split: if_splits)

lemma drop_vi: "drop_handle h s = Some s' \<Longrightarrow> vi s' x = vi s x"
  by (auto simp: drop_handle_def split: option.splits dest: leave_vi)

lemma rl_step_vi:
  assumes e: "rl_step t (rl_pcs s t) s = Some s'" and x: "touched s (Rl_step t) \<noteq> Some x"
  shows "vi s' x = vi s x"
proof (cases "rl_pcs s t")
  case (Join p)
  then show ?thesis using e by (cases p) (auto split: if_splits dest: leave_vi)
next
  case (Refresh p)
  then show ?thesis using e by (cases p) (auto split: if_splits option.splits dest: leave_vi)
next
  case (Init p)
  then show ?thesis using e x by (cases p) (auto split: if_splits option.splits)
next
  case (Erase_after p)
  then show ?thesis using e by (cases p) (auto split: if_splits option.splits prod.splits bool.splits)
next
  case (Retire p)
  then show ?thesis using e by (cases p) (auto split: if_splits option.splits)
next
  case (Reclaim p)
  then show ?thesis using e x by (cases p) (auto simp: Let_def split: if_splits option.splits)
qed (use e in auto)

lemma rl_exec_vi:
  assumes e: "rl_exec s a = Some s'" and x: "touched s a \<noteq> Some x"
  shows "vi s' x = vi s x"
proof (cases a)
  case (Rl_step t)
  then show ?thesis using rl_step_vi e x by auto
qed (use e x in \<open>auto simp: rl_call_def give_handle_def swap_handles_def inc_iter_def rl_weak_def new_step_def split: if_splits option.splits
       rl_pc.splits init_pc.splits retire_pc.splits reclaim_pc.splits dest: drop_vi\<close>)

lemma touched_unobs:
  assumes inv: "rinv s G" and g: "guard s G g" and o: "obs G g x" "x \<noteq> 0" and e: "rl_exec s a = Some s'"
  shows "touched s a \<noteq> Some x"
proof
  assume t: "touched s a = Some x"
  note m = rinvD(1) [OF inv] and ov = obs_value [OF rinvD(1) [OF inv] g o]
  consider (step) t where "a = Rl_step t" | (new) t where "a = Rl_new t x" using t by (cases a) auto
  then show False
  proof cases
    case new
    then have "rl_nodes s x = None" using e by (auto simp: new_step_def split: rl_pc.splits init_pc.splits if_splits)
    then show False using obs_exists [OF m o(1)] by simp
  next
    case (step u)
    then consider (pop) "rl_free s = Some x" | (del) h where "rl_pcs s u = Init (In_delete h x)"
      | (walk) k n b q c where "rl_pcs s u = Reclaim (Fp_walk k n b (Some x) q c)"
      using t by (auto split: rl_pc.splits init_pc.splits reclaim_pc.splits if_splits)
    then show False
    proof cases
      case pop
      have "lay G" using mem_okD(2) [OF m] by (simp add: nodes_ok_def)
      moreover have "x \<in> set (g_list G P_free)" using mem_okD(3) [OF m] pop by (cases "g_list G P_free") (auto simp: chains_ok_def)
      ultimately show False using layD(2) ov(2) by blast
    next
      case (del h)
      then show False using owned(1) [OF inv, of x u] ov(4) by simp
    next
      case (walk k n b q c)
      note h = holder [OF inv walk]
      have "lay G" using mem_okD(2) [OF m] by (simp add: nodes_ok_def)
      moreover have "x \<in> set (g_list G (P_bag (rl_oldest s)))" using h(3) by (auto split: if_splits)
      moreover have "is_freeing (g_rec G)" using h(1) by simp
      ultimately show False using layD(2) ov(3) by blast
    qed
  qed
qed

text \<open>The actions that end the session of a handle; a handle that is being refreshed has no session either.\<close>

fun ends_session :: "hid \<Rightarrow> 'a rl_act \<Rightarrow> bool" where
  "ends_session h (Rl_refresh t g) = (g = h)"
| "ends_session h (Rl_drop g) = (g = h)"
| "ends_session h (Rl_move g f) = (g = h \<or> f = h)"
| "ends_session h (Rl_swap g f) = (g = h \<or> f = h)"
| "ends_session h _ = False"

definition parked :: "hid \<Rightarrow> riter \<Rightarrow> 'a rcu \<Rightarrow> bool" where
  "parked h it s \<longleftrightarrow> rl_handles s h \<noteq> None \<and> (\<forall>u. claims (rl_pcs s u) \<noteq> Some h) \<and> it \<in> set (rl_iters s h)"

lemma parked_upd:
  assumes "parked h it s" and "rl_handles s' h = None \<longrightarrow> rl_handles s h = None" and "set (rl_iters s h) \<subseteq> set (rl_iters s' h)"
    and "rl_pcs s' = (rl_pcs s)(t := p)" and "claims p \<noteq> Some h"
  shows "parked h it s'"
  using assms by (auto simp: parked_def)

lemma leave_hands: "leave b s = Some s' \<Longrightarrow> rl_handles s' = rl_handles s \<and> rl_iters s' = rl_iters s \<and> rl_pcs s' = rl_pcs s"
  by (auto simp: leave_def split: if_splits)

lemma rl_step_parked:
  assumes p: "parked h it s" and e: "rl_step t (rl_pcs s t) s = Some s'"
  shows "parked h it s'"
proof -
  have c: "claims (rl_pcs s t) \<noteq> Some h" using p by (simp add: parked_def)
  show ?thesis
  proof (cases "rl_pcs s t")
    case (Join q)
    then show ?thesis using e c
      by (intro parked_upd [OF p, of s' t "rl_pcs s' t"]; cases q; cases "join_ctx q") (auto split: if_splits dest!: leave_hands)
  next
    case (Refresh q)
    then show ?thesis using e c
      by (intro parked_upd [OF p, of s' t "rl_pcs s' t"]; cases q) (auto split: if_splits option.splits dest!: leave_hands)
  next
    case (Init q)
    then show ?thesis using e
      by (intro parked_upd [OF p, of s' t "rl_pcs s' t"]; cases q) (auto simp: pop_head_def split: if_splits option.splits)
  next
    case (Erase_after q)
    then show ?thesis using e
      by (intro parked_upd [OF p, of s' t "rl_pcs s' t"]; cases q) (auto split: if_splits option.splits prod.splits bool.splits)
  next
    case (Retire q)
    then show ?thesis using e
      by (intro parked_upd [OF p, of s' t "rl_pcs s' t"]; cases q; cases "retire_ctx_of q") (auto split: if_splits option.splits)
  next
    case (Reclaim q)
    then show ?thesis using e
      by (intro parked_upd [OF p, of s' t "rl_pcs s' t"]; cases q) (auto simp: Let_def split: if_splits option.splits)
  qed (use e in auto)
qed

lemma drop_parked: "drop_handle g s = Some s' \<Longrightarrow> g \<noteq> h \<Longrightarrow> parked h it s \<Longrightarrow> parked h it s'"
  by (auto simp: drop_handle_def parked_def split: option.splits dest!: leave_hands)

lemma rl_call_parked:
  "rl_call t p s = Some s' \<Longrightarrow> claims p \<noteq> Some h \<Longrightarrow> parked h it s \<Longrightarrow> parked h it s'"
  by (auto simp: rl_call_def parked_def split: if_splits)

lemma iters_parked:
  "g \<noteq> h \<Longrightarrow> parked h it (s\<lparr>rl_iters := (rl_iters s)(g := x)\<rparr>) = parked h it s"
  "g \<noteq> h \<Longrightarrow> f \<noteq> h \<Longrightarrow> parked h it (give_handle g f s) = parked h it s"
  "g \<noteq> h \<Longrightarrow> f \<noteq> h \<Longrightarrow> parked h it (swap_handles g f s) = parked h it s"
  by (simp_all add: parked_def give_handle_def swap_handles_def)

lemma rl_exec_parked:
  assumes p: "parked h it s" and e: "rl_exec s a = Some s'" and a: "\<not> ends_session h a"
  shows "parked h it s'"
proof (cases a)
  case (Rl_spurious t)
  then show ?thesis using e
    by (intro parked_upd [OF p, of s' t "rl_pcs s' t"])
      (auto simp: rl_weak_def pop_head_def split: rl_pc.splits init_pc.splits retire_pc.splits reclaim_pc.splits option.splits)
next
  case (Rl_new t x)
  then show ?thesis using e
    by (intro parked_upd [OF p, of s' t "rl_pcs s' t"]) (auto simp: new_step_def split: rl_pc.splits init_pc.splits if_splits)
next
  case (Rl_no_memory t)
  then show ?thesis using e
    by (intro parked_upd [OF p, of s' t "rl_pcs s' t"]) (auto split: rl_pc.splits init_pc.splits)
next
  case (Rl_inc g i)
  then show ?thesis using e p by (auto simp: parked_def inc_iter_def split: option.splits if_splits)
next
  case (Rl_new_handle t g)
  moreover have "g \<noteq> h" using Rl_new_handle e p by (auto simp: parked_def split: if_splits)
  ultimately show ?thesis using e p by (auto split: if_splits elim!: rl_call_parked)
qed (use e p a rl_step_parked [OF p] in
     \<open>auto simp: iters_parked split: if_splits option.splits elim!: rl_call_parked drop_parked\<close>)

lemma parked_valid:
  assumes G: "rinv s G" and x: "fst it \<noteq> rl_head"
  shows "valid_iter h it s \<longleftrightarrow> parked h it s"
proof -
  have "it \<in> set (rl_iters s h)" if "Some it = make_iterator s rl_head \<or> it \<in> set (rl_iters s h)"
    using that x by (cases "rl_nodes s rl_head") (auto simp: make_iterator_def)
  moreover have "unclaimed h s \<longleftrightarrow> (\<forall>u. claims (rl_pcs s u) \<noteq> Some h)"
    using unusedD(2) [OF rinvD(2) [OF G], of h] by (auto simp: unclaimed_def list_all_iff)
  ultimately show ?thesis by (auto simp: valid_iter_def parked_def)
qed

lemma iter_step:
  assumes G: "rinv s G" and v: "valid_iter h it s" "fst it \<noteq> rl_head" and e: "rl_exec s a = Some s'"
  shows "rl_deref s' it = rl_deref s it" "rl_deref s it \<noteq> None"
proof -
  obtain b where b: "guard s G (gb_gen (blk s b))" "obs G (gb_gen (blk s b)) (fst it)" "inc s (fst it) = Some (snd it)"
    using iter_ok [OF G v(1)] by blast
  have x: "fst it \<noteq> 0" using v(2) by (simp add: rl_head_def)
  have "val s' (fst it) = val s (fst it)" "inc s' (fst it) = inc s (fst it)"
    using rl_exec_vi [OF e touched_unobs [OF G b(1,2) x e]] by (simp_all add: vi_def)
  then show "rl_deref s' it = rl_deref s it" "rl_deref s it \<noteq> None"
    using deref_value [OF b(3) v(2)] deref_value [of s' it] b(3) v(2) obs_value(1) [OF rinvD(1) [OF G] b(1,2) x] by simp_all
qed

lemma iter_run:
  assumes "run rl_exec s bs = Some s'" and "rl_inv s" and "valid_iter h it s" and x: "fst it \<noteq> rl_head" and "\<forall>b\<in>set bs. \<not> ends_session h b"
  shows "valid_iter h it s' \<and> rl_deref s' it = rl_deref s it"
  using assms(1-3,5)
proof (induction bs arbitrary: s)
  case (Cons b bs)
  then obtain s1 where s1: "rl_exec s b = Some s1" "run rl_exec s1 bs = Some s'" by (auto split: option.splits)
  obtain G where G: "rinv s G" using Cons.prems(2) by (auto simp: rl_inv_def)
  have i: "rl_inv s1" using rli.exec_Inv [OF Cons.prems(2) s1(1)] .
  then obtain G' where G': "rinv s1 G'" by (auto simp: rl_inv_def)
  have "valid_iter h it s1" using rl_exec_parked [OF _ s1(1)] Cons.prems(3,4) parked_valid [OF G x] parked_valid [OF G' x] by auto
  then show ?case using Cons.IH [OF s1(2) i] Cons.prems(4) iter_step(1) [OF G Cons.prems(3) x s1(1)] by auto
qed simp

text \<open>
  C6.  While a session is on, its iterators are good: whatever the threads do for however long, as long as the handle is not refreshed, moved,
  swapped or destroyed, an iterator obtained under it can still be dereferenced and gives the value it gave in the beginning.  The
  node is not freed, its value is not destroyed, and it is not reused for another element, also when it has been erased and
  generations have been closed and reclaimed since.
\<close>

theorem rl_iterator_stable:
  assumes "2 \<le> k" and "run rl_exec (rl_construct k) as = Some s" and "valid_iter h it s" and "fst it \<noteq> rl_head"
    and "run rl_exec s bs = Some s'" and "\<forall>b\<in>set bs. \<not> ends_session h b"
  shows "valid_iter h it s' \<and> rl_deref s' it = rl_deref s it \<and> rl_deref s it \<noteq> None"
proof -
  have i: "rl_inv s" using rl_reachable [OF assms(1,2)] by (auto simp: rl_inv_def)
  then obtain G where G: "rinv s G" by (auto simp: rl_inv_def)
  obtain b where "guard s G (gb_gen (blk s b))" "obs G (gb_gen (blk s b)) (fst it)" "inc s (fst it) = Some (snd it)"
    using iter_ok [OF G assms(3)] by blast
  then have "rl_deref s it \<noteq> None"
    using obs_value(1) [OF rinvD(1) [OF G]] deref_value assms(4) by (metis rl_head_def)
  then show ?thesis using iter_run [OF assms(5) i assms(3,4,6)] by simp
qed

text \<open>The iterator onto node 4, across the erasure of the node and a reclamation by thread 2.\<close>

theorem rl_iterator_stable_witness:
  "\<exists>s s'. run rl_exec (rl_construct 2) rl_demo = Some s \<and> run rl_exec s rl_demo_erase = Some s' \<and> valid_iter 7 (4, 0) s' \<and>
     rl_deref s' (4, 0) = rl_deref s (4, 0) \<and> rl_deref s (4, 0) \<noteq> None"
proof -
  obtain s s' where s: "run rl_exec (rl_construct 2) rl_demo = Some s" "valid_iter 7 (4, 0) s" "run rl_exec s rl_demo_erase = Some s'"
    by (simp add: rl_eval)
  have "\<forall>b\<in>set rl_demo_erase. \<not> ends_session 7 b" by (simp add: rl_demo_erase_def)
  then show ?thesis using rl_iterator_stable [OF _ s(1,2) _ s(3)] s by (simp add: rl_head_def)
qed

end
