(* ===== verification/Rcu_Account.thy ===== *)
theory Rcu_Account
  imports Rcu_Spec
begin

text \<open>
  The accounting sweep of \<open>LockFreeListRCU\<close> (\<open>get_internal_accounting\<close>) and its destructor, which both walk the four populations of
  nodes while no call is active, and what they find.
\<close>

section \<open>The accounting sweep\<close>

text \<open>
  One walk: the nodes visited, the set \<open>seen\<close> afterwards, and whether no node was seen twice.  The fuel bounds the number of nodes; a
  walk that needs more is reported as inconsistent.
\<close>

fun rl_sweep :: "nat \<Rightarrow> (addr \<Rightarrow> addr option) \<Rightarrow> addr option \<Rightarrow> addr list \<Rightarrow> addr list \<times> addr list \<times> bool" where
  "rl_sweep k f None seen = ([], seen, True)"
| "rl_sweep 0 f (Some a) seen = ([], seen, False)"
| "rl_sweep (Suc k) f (Some a) seen =
     (if a \<in> set seen then ([], seen, False)
      else case rl_sweep k f (f a) (a # seen) of (xs, seen', ok) \<Rightarrow> (a # xs, seen', ok))"

fun rl_sweep_bags :: "nat \<Rightarrow> 'a rcu \<Rightarrow> block list \<Rightarrow> addr list \<Rightarrow> addr list \<times> addr list \<times> bool" where
  "rl_sweep_bags k s [] seen = ([], seen, True)"
| "rl_sweep_bags k s (B # Bs) seen =
     (if gb_state B \<noteq> G_sealed then rl_sweep_bags k s Bs seen
      else case rl_sweep k (lk s) (gb_bag B) seen of (xs, seen', ok) \<Rightarrow>
        (case rl_sweep_bags k s Bs seen' of (ys, seen'', ok') \<Rightarrow> (xs @ ys, seen'', ok \<and> ok')))"

text \<open>The test of one slot, \<open>behind\<close> slots behind the current one.\<close>

definition slot_check :: "'a rcu \<Rightarrow> nat \<Rightarrow> bool" where
  "slot_check s i = (let K = K_of s; c = rl_current s; n = (c + K - rl_oldest s) mod K; B = rl_ring s ! i; behind = (c + K - i) mod K;
       expected = (if behind = 0 then G_current else if behind \<le> n then G_sealed else G_empty) in
     gb_state B = expected \<and> (expected = G_sealed \<longrightarrow> int (gb_gen B) = int (gb_gen (rl_ring s ! c)) - int behind) \<and>
     (gb_state B = G_sealed) = (gb_bag B \<noteq> None) \<and> 0 \<le> gb_refs B \<and> (gb_state B = G_empty \<longrightarrow> gb_refs B = 0))"

record internal_accounting =
  ac_reachable :: nat
  ac_reachable_dead :: nat
  ac_retired :: nat
  ac_bagged :: nat
  ac_free :: nat
  ac_handle_refs :: int
  ac_allocated :: int
  ac_consistent :: bool

text \<open>The storage of a free node is poisoned when its value is destroyed.\<close>

definition rl_get_internal_accounting :: "'a rcu \<Rightarrow> internal_accounting option" where
  "rl_get_internal_accounting s = (if rl_reclaiming s then None else
     let k = nat (rl_allocated s) in
     case rl_sweep k (nx s) (nx s rl_head) [] of (reachable, seen1, ok1) \<Rightarrow>
     case rl_sweep k (lk s) (rl_retired s) seen1 of (retired, seen2, ok2) \<Rightarrow>
     case rl_sweep_bags k s (rl_ring s) seen2 of (bagged, seen3, ok3) \<Rightarrow>
     case rl_sweep k (lk s) (rl_free s) seen3 of (free, seen4, ok4) \<Rightarrow>
       Some \<lparr>ac_reachable = length reachable, ac_reachable_dead = length (filter (marked s) reachable), ac_retired = length retired,
         ac_bagged = length bagged, ac_free = length free, ac_handle_refs = sum_list (map gb_refs (rl_ring s)), ac_allocated = rl_allocated s,
         ac_consistent = (ok1 \<and> ok2 \<and> ok3 \<and> ok4 \<and> list_all (marked s) retired \<and> list_all (marked s) bagged \<and> list_all (\<lambda>a. val s a = None) free \<and>
           int (length reachable + length retired + length bagged + length free) = rl_allocated s \<and> list_all (slot_check s) [0..<K_of s])\<rparr>)"

text \<open>The other accessors for tests.\<close>

definition rl_get_internal_retired_count :: "'a rcu \<Rightarrow> nat option" where
  "rl_get_internal_retired_count s = map_option ac_retired (rl_get_internal_accounting s)"

definition rl_get_internal_incarnation :: "'a rcu \<Rightarrow> riter option \<Rightarrow> 32 word option" where
  "rl_get_internal_incarnation s it = Option.bind it (\<lambda>i. map_option rn_inc (rl_nodes s (fst i)))"

section \<open>The destructor\<close>

text \<open>
  One walk of the destructor: read the link, run \<open>~T\<close> where the value is constructed, delete the node.  Destroying a value that is not
  there, dropping one that is, and touching a node that does not exist are not possible.
\<close>

fun delete_chain :: "nat \<Rightarrow> ('a rnode \<Rightarrow> addr option) \<Rightarrow> bool \<Rightarrow> addr option \<Rightarrow> 'a rcu \<Rightarrow> 'a rcu option" where
  "delete_chain k f constructed None s = Some s"
| "delete_chain 0 f constructed (Some a) s = None"
| "delete_chain (Suc k) f constructed (Some a) s = (case rl_nodes s a of None \<Rightarrow> None
     | Some n \<Rightarrow> if (rn_value n \<noteq> None) \<noteq> constructed then None
         else delete_chain k f constructed (f n) (s\<lparr>rl_nodes := (rl_nodes s)(a := None), rl_allocated := rl_allocated s - 1\<rparr>))"

fun delete_bags :: "nat \<Rightarrow> block list \<Rightarrow> 'a rcu \<Rightarrow> 'a rcu option" where
  "delete_bags k [] s = Some s"
| "delete_bags k (B # Bs) s =
     (if gb_state B \<noteq> G_sealed then delete_bags k Bs s
      else Option.bind (delete_chain k rn_link True (gb_bag B) s) (delete_bags k Bs))"

definition rl_destroy :: "'a rcu \<Rightarrow> 'a rcu option" where
  "rl_destroy s = (if rl_reclaiming s \<or> \<not> list_all (\<lambda>B. gb_refs B = 0) (rl_ring s) then None else
     let k = nat (rl_allocated s) in
     Option.bind (rl_next s rl_head) (\<lambda>w.
     Option.bind (delete_chain k (\<lambda>n. fst (rn_next n)) True (fst w) s) (\<lambda>s1.
     Option.bind (delete_chain k rn_link True (rl_retired s) s1) (\<lambda>s2.
     Option.bind (delete_bags k (rl_ring s) s2) (\<lambda>s3.
     Option.bind (delete_chain k rn_link False (rl_free s) s3) (\<lambda>s4.
       if rl_allocated s4 = 0 then Some s4 else None))))))"

section \<open>The populations at rest\<close>

definition bag_list :: "ghost \<Rightarrow> nat list \<Rightarrow> addr list" where
  "bag_list G bs = concat (map (\<lambda>b. g_list G (P_bag b)) bs)"

lemma at_rest_empty:
  assumes inv: "rinv s G" and r: "\<And>t. rl_at_rest (rl_pcs s t)"
  shows "g_list G (P_new t) = []" "g_list G (P_pop t) = []" "g_list G (P_dead t) = []" "g_rec G = None" "g_list G P_pend = []" "bumps (rl_pcs s t) = None"
proof -
  note th = thr_okD [OF rinvD(3) [OF inv]]
  show "g_list G (P_new t) = []" "g_list G (P_pop t) = []" "g_list G (P_dead t) = []" "bumps (rl_pcs s t) = None"
    using th(1-3) [of t] r [of t] by (cases "rl_pcs s t"; simp)+
  show g: "g_rec G = None"
  proof (rule ccontr)
    assume "g_rec G \<noteq> None"
    then obtain u q where "g_rec G = Some (u, q)" by auto
    then have "rl_pcs s u = Reclaim q" using th(5) by blast
    then show False using r [of u] by simp
  qed
  show "g_list G P_pend = []" using mem_okD(3) [OF rinvD(1) [OF inv]] g by (cases "g_list G P_pend") (auto simp: chains_ok_def)
qed

lemma bag_chain:
  assumes m: "mem_ok s G" and g: "g_rec G = None" and b: "b < K_of s"
  shows "chainto (lk s) (gb_bag (blk s b)) (g_list G (P_bag b)) None" "gb_state (blk s b) \<noteq> G_sealed \<Longrightarrow> g_list G (P_bag b) = []"
proof -
  have "bag_ok s G b" using mem_okD(3) [OF m] by (simp add: chains_ok_def)
  then show c: "chainto (lk s) (gb_bag (blk s b)) (g_list G (P_bag b)) None" using g b by (auto simp: bag_ok_def split: if_splits)
  show "g_list G (P_bag b) = []" if "gb_state (blk s b) \<noteq> G_sealed"
    using c that ring_sealed_iff [OF mem_okD(1) [OF m] b] by (cases "g_list G (P_bag b)") auto
qed

text \<open>At rest the four populations are all the nodes.\<close>

lemma populations:
  assumes inv: "rinv s G" and r: "\<And>t. rl_at_rest (rl_pcs s t)"
  defines "xs \<equiv> g_list G P_chain @ g_list G P_retired @ bag_list G [0..<K_of s] @ g_list G P_free"
  shows "set xs = dom (g_at G)" "distinct xs"
proof -
  note m = rinvD(1) [OF inv] and e = at_rest_empty [OF inv r]
  have l: "lay G" using mem_okD(2) [OF m] by (simp add: nodes_ok_def)
  have bagK: "g_list G (P_bag b) = []" if "\<not> b < K_of s" for b
    using mem_okD(3) [OF m] that by (auto simp: chains_ok_def bag_ok_def split: if_splits)
  show "set xs = dom (g_at G)"
  proof
    show "set xs \<subseteq> dom (g_at G)" using layD(2) [OF l] by (auto simp: xs_def bag_list_def)
    show "dom (g_at G) \<subseteq> set xs"
    proof
      fix a assume "a \<in> dom (g_at G)"
      then obtain P where P: "g_at G a = Some P" by auto
      then have "a \<in> set (g_list G P)" using layD(2) [OF l] by simp
      then show "a \<in> set xs" using e(1-3,5) bagK by (cases P) (force simp: xs_def bag_list_def)+
    qed
  qed
  have db: "distinct (bag_list G bs)" if "distinct bs" for bs
    using that
  proof (induction bs)
    case (Cons b bs)
    have "set (g_list G (P_bag b)) \<inter> set (bag_list G bs) = {}" using Cons.prems by (auto simp: bag_list_def layD(2) [OF l])
    then show ?case using Cons layD(1) [OF l] by (simp add: bag_list_def)
  qed (simp add: bag_list_def)
  show "distinct xs"
    using layD(1) [OF l] db [of "[0..<K_of s]"] by (auto simp: xs_def bag_list_def layD(2) [OF l])
qed

section \<open>What the sweep finds\<close>

lemma rl_sweep_chain:
  "chainto f p xs None \<Longrightarrow> distinct xs \<Longrightarrow> set xs \<inter> set seen = {} \<Longrightarrow> length xs \<le> k \<Longrightarrow> rl_sweep k f p seen = (xs, rev xs @ seen, True)"
proof (induction xs arbitrary: p k seen)
  case (Cons x xs)
  then obtain j where "k = Suc j" by (cases k) auto
  then show ?case using Cons by auto
qed simp

lemma rl_sweep_bags_chain:
  assumes "\<And>b. b \<in> set bs \<Longrightarrow> chainto (lk s) (gb_bag (blk s b)) (g_list G (P_bag b)) None \<and> length (g_list G (P_bag b)) \<le> k \<and>
      (gb_state (blk s b) \<noteq> G_sealed \<longrightarrow> g_list G (P_bag b) = [])"
    and "distinct (bag_list G bs)" and "set (bag_list G bs) \<inter> set seen = {}"
  shows "rl_sweep_bags k s (map (\<lambda>b. blk s b) bs) seen = (bag_list G bs, rev (bag_list G bs) @ seen, True)"
  using assms
proof (induction bs arbitrary: seen)
  case (Cons b bs)
  have b: "chainto (lk s) (gb_bag (blk s b)) (g_list G (P_bag b)) None" "length (g_list G (P_bag b)) \<le> k"
    "gb_state (blk s b) \<noteq> G_sealed \<Longrightarrow> g_list G (P_bag b) = []" using Cons.prems(1) [of b] by auto
  have sp: "bag_list G (b # bs) = g_list G (P_bag b) @ bag_list G bs" by (simp add: bag_list_def)
  have "rl_sweep k (lk s) (gb_bag (blk s b)) seen = (g_list G (P_bag b), rev (g_list G (P_bag b)) @ seen, True)"
    using Cons.prems(2,3) unfolding sp by (intro rl_sweep_chain [OF b(1) _ _ b(2)]) auto
  moreover have "rl_sweep_bags k s (map (\<lambda>b. blk s b) bs) (rev (g_list G (P_bag b)) @ seen) =
      (bag_list G bs, rev (bag_list G bs) @ rev (g_list G (P_bag b)) @ seen, True)"
    using Cons.prems unfolding sp by (intro Cons.IH) auto
  ultimately show ?case using b(3) unfolding sp by (cases "gb_state (blk s b) = G_sealed") simp_all
qed (simp add: bag_list_def)

lemma behind_rpos:
  assumes "i < K" "c < K" "o1 < K"
  shows "(c + K - i) mod K = (if rpos K o1 i \<le> rpos K o1 c then rpos K o1 c - rpos K o1 i else K + rpos K o1 c - rpos K o1 i)"
proof -
  have "(c + K - i) mod K = rpos K i c" by (simp add: rpos_def)
  then show ?thesis using assms by (auto simp: rpos_cases split: if_splits)
qed

lemma slot_check_ok:
  assumes r: "ring_ok s" and h: "hand_ok s G" and b: "\<And>t. bumps (rl_pcs s t) = None" and i: "i < K_of s"
  shows "slot_check s i"
proof -
  note rg = ring_okD [OF r]
  let ?d = "rpos (K_of s) (rl_oldest s) i" and ?n = "rpos (K_of s) (rl_oldest s) (rl_current s)"
  have sl: "slot_ok ?n (lo s) ?d (blk s i)" "slot_ok ?n (lo s) ?n (blk s (rl_current s))" using rg(8) i rg(3) by blast+
  have n: "(rl_current s + K_of s - rl_oldest s) mod K_of s = ?n" by (simp add: rpos_def)
  have bh: "(rl_current s + K_of s - i) mod K_of s = (if ?d \<le> ?n then ?n - ?d else K_of s + ?n - ?d)" using behind_rpos [OF i rg(3,2)] .
  have dl: "?d < K_of s" using rpos_less [OF rg(4)] .
  have refs: "gb_refs (blk s i) = int (card {x. rl_handles s x = Some i})" using hand_okD(9) [OF h i] b by simp
  have "gb_refs (blk s i) = 0" if "gb_state (blk s i) = G_empty"
  proof -
    have "{x. rl_handles s x = Some i} = {}" using hand_okD(3) [OF h] that by (auto simp: held_def)
    then show ?thesis using refs by simp
  qed
  then show ?thesis using sl dl refs unfolding slot_check_def Let_def n bh by (auto simp: slot_ok_def split: if_splits)
qed

lemma refs_total:
  assumes h: "hand_ok s G" and b: "\<And>t. bumps (rl_pcs s t) = None"
  shows "sum_list (map gb_refs (rl_ring s)) = int (card (dom (rl_handles s)))"
proof -
  have "sum_list (map gb_refs (rl_ring s)) = (\<Sum>i<K_of s. gb_refs (blk s i))"
    by (simp add: sum_list_sum_nth atLeast0LessThan)
  also have "\<dots> = (\<Sum>i<K_of s. int (card {x. rl_handles s x = Some i}))"
    by (rule sum.cong) (use hand_okD(9) [OF h] b in auto)
  also have "\<dots> = int (card (\<Union>i<K_of s. {x. rl_handles s x = Some i}))"
    by (subst card_UN_disjoint) (use finite_handles [OF h] in auto)
  also have "(\<Union>i<K_of s. {x. rl_handles s x = Some i}) = dom (rl_handles s)"
    using hand_okD(3) [OF h] by (auto simp: held_def)
  finally show ?thesis .
qed

text \<open>
  C39.  While no call is active, the accounting sweep succeeds and finds the list consistent: every node is in exactly one of the four
  populations (linked from the head, retired, in the bag of a sealed generation, free) and they add up to the nodes allocated, retired
  and bagged nodes are marked, free nodes hold no value, the ring has one current generation with a contiguous run of sealed
  generations behind it and empty slots elsewhere, and the counts add up to the number of live handles.
\<close>

theorem rl_accounting:
  assumes "2 \<le> k" and "run rl_exec (rl_construct k) as = Some s" and rest: "\<And>t. rl_at_rest (rl_pcs s t)"
  shows "\<exists>ac. rl_get_internal_accounting s = Some ac \<and> ac_consistent ac \<and> ac_handle_refs ac = int (card (dom (rl_handles s))) \<and>
           int (ac_reachable ac + ac_retired ac + ac_bagged ac + ac_free ac) = rl_allocated s"
proof -
  obtain G where G: "rinv s G" using rl_reachable [OF assms(1,2)] .
  note m = rinvD(1) [OF G] and e = at_rest_empty [OF G rest]
  note d = mem_okD [OF m] and pl = place_length [OF m] and pop = populations [OF G rest]
  let ?k = "nat (rl_allocated s)" and ?B = "bag_list G [0..<K_of s]"
  have l: "lay G" using d(2) by (simp add: nodes_ok_def)
  have nr: "\<not> rl_reclaiming s" using d(6) e(4) by (simp add: rec_ok_def)
  have ring: "map (\<lambda>b. blk s b) [0..<K_of s] = rl_ring s" by (rule map_nth)
  have w1: "rl_sweep ?k (nx s) (nx s rl_head) [] = (g_list G P_chain, rev (g_list G P_chain), True)"
    using rl_sweep_chain [of "nx s" _ "g_list G P_chain" "[]"] d(3) pop(2) pl by (simp add: chains_ok_def rl_head_def)
  have w2: "rl_sweep ?k (lk s) (rl_retired s) (rev (g_list G P_chain)) = (g_list G P_retired, rev (g_list G P_retired) @ rev (g_list G P_chain), True)"
    using d(3) pop(2) pl by (intro rl_sweep_chain) (auto simp: chains_ok_def)
  have w3: "rl_sweep_bags ?k s (rl_ring s) (rev (g_list G P_retired) @ rev (g_list G P_chain)) =
      (?B, rev ?B @ rev (g_list G P_retired) @ rev (g_list G P_chain), True)"
    by (rule rl_sweep_bags_chain [of "[0..<K_of s]" s G ?k, unfolded ring]) (use bag_chain [OF m e(4)] pop(2) pl in auto)
  have w4: "rl_sweep ?k (lk s) (rl_free s) (rev ?B @ rev (g_list G P_retired) @ rev (g_list G P_chain)) =
      (g_list G P_free, rev (g_list G P_free) @ rev ?B @ rev (g_list G P_retired) @ rev (g_list G P_chain), True)"
    using d(3) pop(2) pl by (intro rl_sweep_chain) (auto simp: chains_ok_def)
  have dm: "marked s a" if "a \<in> set (g_list G P)" "dead_place P" for a P
    using d(4) layD(2) [OF l] that by (auto simp: dead_ok_def dead_def)
  have "list_all (marked s) (g_list G P_retired)" "list_all (marked s) ?B"
    using dm by (auto simp: list_all_iff bag_list_def)
  moreover have "list_all (\<lambda>a. val s a = None) (g_list G P_free)"
    using d(5) layD(2) [OF l] by (auto simp: list_all_iff vals_ok_def)
  moreover have "list_all (slot_check s) [0..<K_of s]"
    using slot_check_ok [OF d(1) rinvD(2) [OF G] e(6)] by (auto simp: list_all_iff)
  moreover have "int (length (g_list G P_chain) + length (g_list G P_retired) + length ?B + length (g_list G P_free)) = rl_allocated s"
  proof -
    have "card (dom (g_at G)) = length (g_list G P_chain @ g_list G P_retired @ ?B @ g_list G P_free)"
      using pop distinct_card by metis
    then show ?thesis using d(2) by (simp add: nodes_ok_def)
  qed
  ultimately show ?thesis using nr refs_total [OF rinvD(2) [OF G] e(6)]
    by (simp add: rl_get_internal_accounting_def Let_def w1 w2 w3 w4)
qed

text \<open>After the node has been erased, bagged, while the handle is alive.\<close>

theorem rl_accounting_witness:
  "\<exists>s ac. run rl_exec (rl_construct 2) (rl_demo @ rl_demo_erase) = Some s \<and> rl_get_internal_accounting s = Some ac \<and> ac_consistent ac \<and>
     ac_handle_refs ac = int (card (dom (rl_handles s))) \<and> int (ac_reachable ac + ac_retired ac + ac_bagged ac + ac_free ac) = rl_allocated s"
proof -
  obtain s where s: "run rl_exec (rl_construct 2) (rl_demo @ rl_demo_erase) = Some s" "\<forall>t. rl_at_rest (rl_pcs s t)"
    by (simp add: rl_eval)
  then show ?thesis using rl_accounting [OF _ s(1)] by auto
qed

section \<open>What the destructor does\<close>

lemma chainto_mono: "chainto f p xs e \<Longrightarrow> (\<And>x. x \<in> set xs \<Longrightarrow> g x = f x) \<Longrightarrow> chainto g p xs e"
  by (induction xs arbitrary: p) auto

lemma delete_chain_ok:
  assumes "chainto (\<lambda>a. Option.bind (rl_nodes s a) f) p xs None" and "distinct xs" and "length xs \<le> k"
    and "\<And>a. a \<in> set xs \<Longrightarrow> \<exists>n. rl_nodes s a = Some n \<and> (rn_value n \<noteq> None) = c"
  shows "delete_chain k f c p s = Some (s\<lparr>rl_nodes := rl_nodes s |` (- set xs), rl_allocated := rl_allocated s - int (length xs)\<rparr>)"
  using assms
proof (induction xs arbitrary: p k s)
  case (Cons x xs)
  then obtain j where j: "k = Suc j" by (cases k) auto
  obtain n where n: "rl_nodes s x = Some n" "(rn_value n \<noteq> None) = c" using Cons.prems(4) by auto
  let ?s = "s\<lparr>rl_nodes := (rl_nodes s)(x := None), rl_allocated := rl_allocated s - 1\<rparr>"
  have "delete_chain j f c (f n) ?s = Some (?s\<lparr>rl_nodes := rl_nodes ?s |` (- set xs), rl_allocated := rl_allocated ?s - int (length xs)\<rparr>)"
  proof (rule Cons.IH)
    have "chainto (\<lambda>a. Option.bind (rl_nodes s a) f) (f n) xs None" using Cons.prems(1) n by simp
    then show "chainto (\<lambda>a. Option.bind (rl_nodes ?s a) f) (f n) xs None"
      by (rule chainto_mono) (use Cons.prems(2) in auto)
    show "\<exists>n. rl_nodes ?s a = Some n \<and> (rn_value n \<noteq> None) = c" if "a \<in> set xs" for a
      using Cons.prems(2,4) that by auto
  qed (use Cons.prems j in auto)
  moreover have "(rl_nodes s)(x := None) |` (- set xs) = rl_nodes s |` (- set (x # xs))" by (auto simp: restrict_map_def)
  ultimately show ?case using Cons.prems(1) j n by (simp add: algebra_simps)
qed (simp add: restrict_map_def)

text \<open>The state after the nodes in \<open>xs\<close> are deleted.\<close>

definition without :: "addr list \<Rightarrow> 'a rcu \<Rightarrow> 'a rcu" where
  "without xs s = s\<lparr>rl_nodes := rl_nodes s |` (- set xs), rl_allocated := rl_allocated s - int (length xs)\<rparr>"

lemma without_append: "without ys (without xs s) = without (xs @ ys) s"
  by (simp add: without_def Int_commute algebra_simps)

lemma delete_pop:
  assumes m: "mem_ok s G" and f: "\<And>a. h a = Option.bind (rl_nodes s a) f" and c: "chainto h p (g_list G P) None"
    and v: "\<And>a. g_at G a = Some P \<Longrightarrow> (val s a \<noteq> None) = c0" and d: "set xs \<inter> set (g_list G P) = {}" and k: "length (g_list G P) \<le> k"
  shows "delete_chain k f c0 p (without xs s) = Some (without (xs @ g_list G P) s)"
proof -
  have l: "lay G" using mem_okD(2) [OF m] by (simp add: nodes_ok_def)
  have same: "rl_nodes (without xs s) a = rl_nodes s a" if "a \<in> set (g_list G P)" for a using d that by (auto simp: without_def restrict_map_def)
  have "delete_chain k f c0 p (without xs s) = Some (without (g_list G P) (without xs s))"
    unfolding without_def [of "g_list G P"]
  proof (rule delete_chain_ok [OF _ layD(1) [OF l] k])
    show "chainto (\<lambda>a. Option.bind (rl_nodes (without xs s) a) f) p (g_list G P) None"
      using c by (rule chainto_mono) (simp add: f same)
    show "\<exists>n. rl_nodes (without xs s) a = Some n \<and> (rn_value n \<noteq> None) = c0" if "a \<in> set (g_list G P)" for a
    proof -
      have at: "g_at G a = Some P" using layD(2) [OF l] that by simp
      obtain n where "rl_nodes s a = Some n" using at_place(1) [OF m at] by auto
      then show ?thesis using same [OF that] v [OF at] by (simp add: val_def)
    qed
  qed
  then show ?thesis by (simp add: without_append)
qed

lemma delete_bags_ok:
  assumes m: "mem_ok s G" and g: "g_rec G = None" and k: "\<And>P. length (g_list G P) \<le> k"
  shows "(\<And>b. b \<in> set bs \<Longrightarrow> b < K_of s) \<Longrightarrow> distinct (xs @ bag_list G bs) \<Longrightarrow>
    delete_bags k (map (\<lambda>b. blk s b) bs) (without xs s) = Some (without (xs @ bag_list G bs) s)"
proof (induction bs arbitrary: xs)
  case (Cons b bs)
  have sp: "bag_list G (b # bs) = g_list G (P_bag b) @ bag_list G bs" by (simp add: bag_list_def)
  have bK: "b < K_of s" using Cons.prems(1) by simp
  note bc = bag_chain [OF m g bK]
  have "delete_chain k rn_link True (gb_bag (blk s b)) (without xs s) = Some (without (xs @ g_list G (P_bag b)) s)"
    by (rule delete_pop [OF m _ bc(1)]) (use Cons.prems(2) sp k mem_okD(5) [OF m] g in \<open>auto simp: lk_def vals_ok_def\<close>)
  moreover have "delete_bags k (map (\<lambda>b. blk s b) bs) (without (xs @ g_list G (P_bag b)) s) = Some (without ((xs @ g_list G (P_bag b)) @ bag_list G bs) s)"
    using Cons.prems sp by (intro Cons.IH) auto
  ultimately show ?case using bc(2) sp by (cases "gb_state (blk s b) = G_sealed") simp_all
qed (simp add: bag_list_def)

text \<open>
  C40.  The destructor, called while no call is active and no handle is alive, passes its assertions and deletes every node of the list exactly
  once: it runs \<open>~T\<close> for exactly the nodes whose value is constructed, leaves nothing but the embedded head, and the count of allocated
  nodes is zero.
\<close>

theorem rl_destroy_complete:
  assumes "2 \<le> k" and "run rl_exec (rl_construct k) as = Some s" and rest: "\<And>t. rl_at_rest (rl_pcs s t)" and none: "\<And>h. rl_handles s h = None"
  shows "\<exists>s'. rl_destroy s = Some s' \<and> dom (rl_nodes s') = {rl_head} \<and> rl_allocated s' = 0"
proof -
  obtain G where G: "rinv s G" using rl_reachable [OF assms(1,2)] .
  note m = rinvD(1) [OF G] and e = at_rest_empty [OF G rest]
  note d = mem_okD [OF m] and pl = place_length [OF m] and pop = populations [OF G rest]
  let ?k = "nat (rl_allocated s)" and ?B = "bag_list G [0..<K_of s]" and ?C = "g_list G P_chain" and ?R = "g_list G P_retired" and ?F = "g_list G P_free"
  have nr: "\<not> rl_reclaiming s" using d(6) e(4) by (simp add: rec_ok_def)
  have zero: "list_all (\<lambda>B. gb_refs B = 0) (rl_ring s)"
    using hand_okD(9) [OF rinvD(2) [OF G]] e(6) none by (auto simp: list_all_length)
  have ring: "map (\<lambda>b. blk s b) [0..<K_of s] = rl_ring s" by (rule map_nth)
  have v: "(val s a \<noteq> None) = (P \<noteq> P_free)" if "g_at G a = Some P" for a P using d(5) that e(4) by (auto simp: vals_ok_def)
  obtain w where w: "rl_next s rl_head = Some w" "nx s 0 = fst w" using next_exists [OF head_node(1) [OF m]] by (metis rl_head_def)
  have s0: "without [] s = s" by (simp add: without_def restrict_map_def)
  have "delete_chain ?k (\<lambda>n. fst (rn_next n)) True (fst w) (without [] s) = Some (without ([] @ ?C) s)"
    by (rule delete_pop [OF m, where h = "nx s"]) (use d(3) pl w(2) v [of _ P_chain] in \<open>auto simp: nx_def chains_ok_def\<close>)
  then have w1: "delete_chain ?k (\<lambda>n. fst (rn_next n)) True (fst w) s = Some (without ?C s)" by (simp add: s0)
  have w2: "delete_chain ?k rn_link True (rl_retired s) (without ?C s) = Some (without (?C @ ?R) s)"
    by (rule delete_pop [OF m, where h = "lk s"]) (use d(3) pl pop(2) v [of _ P_retired] in \<open>auto simp: lk_def chains_ok_def\<close>)
  have w3: "delete_bags ?k (rl_ring s) (without (?C @ ?R) s) = Some (without ((?C @ ?R) @ ?B) s)"
    by (rule delete_bags_ok [OF m e(4), of ?k "[0..<K_of s]", unfolded ring]) (use pl pop(2) in auto)
  have w4: "delete_chain ?k rn_link False (rl_free s) (without ((?C @ ?R) @ ?B) s) = Some (without (((?C @ ?R) @ ?B) @ ?F) s)"
    by (rule delete_pop [OF m, where h = "lk s"]) (use d(3) pl pop(2) v [of _ P_free] in \<open>auto simp: lk_def chains_ok_def\<close>)
  let ?s = "without (((?C @ ?R) @ ?B) @ ?F) s"
  have len: "rl_allocated s = int (length (((?C @ ?R) @ ?B) @ ?F))"
    using pop distinct_card [OF pop(2)] d(2) by (simp add: nodes_ok_def)
  have "rl_nodes s a \<noteq> None \<longleftrightarrow> a = 0 \<or> g_at G a \<noteq> None" for a
  proof -
    have "g_at G a = None \<longleftrightarrow> a = 0 \<or> rl_nodes s a = None" using d(2) by (simp add: nodes_ok_def)
    then show ?thesis using head_node(1) [OF m] by (cases "a = 0") simp_all
  qed
  then have "dom (rl_nodes s) = insert 0 (dom (g_at G))" by (simp only: dom_def set_eq_iff mem_Collect_eq insert_iff) simp
  moreover have "0 \<notin> dom (g_at G)" using head_node(3) [OF m] by auto
  moreover have "set (((?C @ ?R) @ ?B) @ ?F) = dom (g_at G)" using pop(1) by simp
  ultimately have "dom (rl_nodes ?s) = {rl_head}" unfolding without_def by (simp add: rl_head_def)
  then show ?thesis using nr zero w(1) w1 w2 w3 w4 len by (simp add: rl_destroy_def Let_def without_def)
qed

text \<open>After the handle is gone and the node is on the free list.\<close>

theorem rl_destroy_complete_witness:
  "\<exists>s s'. run rl_exec (rl_construct 2) (rl_demo @ rl_demo_erase @ rl_demo_free) = Some s \<and> rl_free s = Some 4 \<and>
     rl_destroy s = Some s' \<and> dom (rl_nodes s') = {rl_head} \<and> rl_allocated s' = 0"
proof -
  obtain s where s: "run rl_exec (rl_construct 2) (rl_demo @ rl_demo_erase @ rl_demo_free) = Some s" "\<forall>t. rl_at_rest (rl_pcs s t)"
    "\<forall>h. rl_handles s h = None" "rl_free s = Some 4"
    by (simp add: rl_eval)
  then show ?thesis using rl_destroy_complete [OF _ s(1)] by auto
qed

end
