(* ===== verification/Rcu_Solo.thy ===== *)
theory Rcu_Solo
  imports Rcu_Account
begin

text \<open>
  What one call of \<open>reclaim\<close> achieves when no other call runs beside it: it returns, it takes over everything that was retired unless the
  ring is full, it frees the bags up to the first one that a handle pins, and it counts the values it destroys.
\<close>

section \<open>The measure\<close>

text \<open>The constructed values, and the sealed generations.\<close>

definition vals :: "'a rcu \<Rightarrow> addr set" where
  "vals s = {a. val s a \<noteq> None}"

definition sealed_run :: "'a rcu \<Rightarrow> nat" where
  "sealed_run s = rpos (K_of s) (rl_oldest s) (rl_current s)"

primrec free_stage :: "free_ctx \<Rightarrow> nat" where
  "free_stage F_advance = 6"
| "free_stage (F_final adv) = 3"

primrec rc_stage :: "reclaim_pc \<Rightarrow> nat" where
  "rc_stage Rc_flag = 9"
| "rc_stage Rc_retired = 8"
| "rc_stage Rc_next = 7"
| "rc_stage (Rc_exchange n b) = 5"
| "rc_stage (Rc_publish n b c) = 4"
| "rc_stage (Rc_exit r) = 0"
| "rc_stage (Fp_refs k n b) = free_stage k"
| "rc_stage (Fp_walk k n b p q c) = free_stage k"
| "rc_stage (Fp_store k n b q c h) = free_stage k"
| "rc_stage (Fp_cas k n b q c h) = free_stage k"

text \<open>Inside a pass over a bag: an attempt to splice with a stale head of the free list is followed by one with the actual head.\<close>

primrec rc_phase :: "'a rcu \<Rightarrow> reclaim_pc \<Rightarrow> nat" where
  "rc_phase s Rc_flag = 0"
| "rc_phase s Rc_retired = 0"
| "rc_phase s Rc_next = 0"
| "rc_phase s (Rc_exchange n b) = 0"
| "rc_phase s (Rc_publish n b c) = 0"
| "rc_phase s (Rc_exit r) = 0"
| "rc_phase s (Fp_refs k n b) = 6"
| "rc_phase s (Fp_walk k n b p q c) = 5"
| "rc_phase s (Fp_store k n b q c h) = (if h = rl_free s then 2 else 4)"
| "rc_phase s (Fp_cas k n b q c h) = (if h = rl_free s then 1 else 3)"

definition rc_measure :: "'a rcu \<Rightarrow> reclaim_pc \<Rightarrow> nat \<times> nat \<times> nat \<times> nat" where
  "rc_measure s p = (rc_stage p, sealed_run s, rc_phase s p, card (vals s))"

definition rc_less :: "((nat \<times> nat \<times> nat \<times> nat) \<times> (nat \<times> nat \<times> nat \<times> nat)) set" where
  "rc_less = less_than <*lex*> less_than <*lex*> less_than <*lex*> less_than"

lemma wf_rc_less: "wf rc_less"
  by (simp add: rc_less_def wf_lex_prod)

lemma rc_less_iff: "((a, b, c, d), a', b', c', d') \<in> rc_less \<longleftrightarrow>
  a < a' \<or> a = a' \<and> (b < b' \<or> b = b' \<and> (c < c' \<or> c = c' \<and> d < d'))"
  by (auto simp: rc_less_def)

lemma finite_vals:
  assumes "mem_ok s G"
  shows "finite (vals s)"
proof (rule finite_subset)
  have n: "\<And>a. g_at G a = None \<longleftrightarrow> a = 0 \<or> rl_nodes s a = None" "finite (dom (g_at G))" using mem_okD(2) [OF assms] by (simp_all add: nodes_ok_def)
  show "vals s \<subseteq> insert 0 (dom (g_at G))"
  proof
    fix a assume "a \<in> vals s"
    then have "rl_nodes s a \<noteq> None" by (cases "rl_nodes s a") (auto simp: vals_def val_def)
    then show "a \<in> insert 0 (dom (g_at G))" using n(1) [of a] by (cases "a = 0") (auto simp: dom_def)
  qed
  show "finite (insert 0 (dom (g_at G)))" using n(2) by simp
qed

lemma vals_same: "rl_nodes s' = rl_nodes s \<Longrightarrow> vals s' = vals s"
  by (simp add: vals_def val_def)

lemma vals_upd [simp]:
  "vals (rl_to t p s) = vals s" "vals (s\<lparr>rl_retired := q\<rparr>) = vals s" "vals (s\<lparr>rl_reclaiming := f\<rparr>) = vals s" "vals (s\<lparr>rl_current := c\<rparr>) = vals s"
  "vals (s\<lparr>rl_free := q, rl_oldest := c\<rparr>) = vals s" "vals (set_block b B s) = vals s"
  by (rule vals_same, simp add: set_block_def rl_to_def)+

lemma vals_link [simp]: "vals (set_rlink a q s) = vals s"
  by (cases "rl_nodes s a") (auto simp: vals_def val_def set_rlink_def)

lemma vals_destroy: "rl_nodes s a \<noteq> None \<Longrightarrow> vals (set_val a None s) = vals s - {a}"
  by (auto simp: vals_def val_def set_val_def)

section \<open>The ring\<close>

lemma sealed_oldest:
  assumes r: "ring_ok s" and b: "b < K_of s" "gb_state (blk s b) = G_sealed"
  shows "gb_state (blk s (rl_oldest s)) = G_sealed"
  using ring_okD(8) [OF r b(1)] ring_okD(8) [OF r ring_okD(2) [OF r]] ring_okD(4) [OF r] b(2) by (auto simp: slot_ok_def split: if_splits)

lemma next_busy:
  assumes r: "ring_ok s" and n: "gb_state (blk s (next_slot s)) \<noteq> G_empty"
  shows "gb_state (blk s (rl_oldest s)) = G_sealed"
proof -
  note rg = ring_okD [OF r] and nl = next_slot_less [OF r]
  have "rpos (K_of s) (rl_oldest s) (next_slot s) =
      (if Suc (sealed_run s) = K_of s then 0 else Suc (sealed_run s))"
    using rpos_Suc_slot [OF rg(3,2)] by (simp add: next_slot_def sealed_run_def)
  then have "sealed_run s \<noteq> 0" using rg(8) [OF nl] n rg(1) by (auto simp: slot_ok_def sealed_run_def split: if_splits)
  then show ?thesis using rg(8) [OF rg(2)] rg(4) by (simp add: slot_ok_def sealed_run_def)
qed

lemma sealed_run_pos: "ring_ok s \<Longrightarrow> gb_state (blk s (rl_oldest s)) = G_sealed \<Longrightarrow> 0 < sealed_run s"
  using ring_okD(8) [of s "rl_oldest s"] ring_okD(2,4) [of s] by (auto simp: slot_ok_def sealed_run_def split: if_splits)

section \<open>The states of a call that runs alone\<close>

definition pinned :: "'a rcu \<Rightarrow> bool" where
  "pinned s \<longleftrightarrow> gb_state (blk s (rl_oldest s)) = G_sealed \<and> gb_refs (blk s (rl_oldest s)) \<noteq> 0"

primrec adv_ok :: "'a rcu \<Rightarrow> advance_kind \<Rightarrow> bool" where
  "adv_ok s Nothing_retired = (rl_retired s = None)"
| "adv_ok s Advanced = (rl_retired s = None)"
| "adv_ok s Ring_full = pinned s"
| "adv_ok s Contended = False"

primrec ctx_ok :: "'a rcu \<Rightarrow> free_ctx \<Rightarrow> bool" where
  "ctx_ok s F_advance = True"
| "ctx_ok s (F_final adv) = adv_ok s adv"

primrec rc_good :: "'a rcu \<Rightarrow> reclaim_pc \<Rightarrow> bool" where
  "rc_good s Rc_flag = False"
| "rc_good s Rc_retired = True"
| "rc_good s Rc_next = True"
| "rc_good s (Rc_exchange n b) = True"
| "rc_good s (Rc_publish n b c) = (rl_retired s = None)"
| "rc_good s (Rc_exit r) = (adv_ok s (rr_advance r) \<and> (gb_state (blk s (rl_oldest s)) = G_sealed \<longrightarrow> pinned s))"
| "rc_good s (Fp_refs k n b) = ctx_ok s k"
| "rc_good s (Fp_walk k n b p q c) = (ctx_ok s k \<and> \<not> pinned s)"
| "rc_good s (Fp_store k n b q c h) = (ctx_ok s k \<and> \<not> pinned s)"
| "rc_good s (Fp_cas k n b q c h) = (ctx_ok s k \<and> \<not> pinned s)"

text \<open>The values destroyed so far.\<close>

primrec destroyed :: "reclaim_pc \<Rightarrow> nat" where
  "destroyed Rc_flag = 0"
| "destroyed Rc_retired = 0"
| "destroyed Rc_next = 0"
| "destroyed (Rc_exchange n b) = n"
| "destroyed (Rc_publish n b c) = n"
| "destroyed (Rc_exit r) = rr_nodes r"
| "destroyed (Fp_refs k n b) = n"
| "destroyed (Fp_walk k n b p q c) = n + c"
| "destroyed (Fp_store k n b q c h) = n + c"
| "destroyed (Fp_cas k n b q c h) = n + c"

lemma adv_ok_same:
  "rl_retired s' = rl_retired s \<Longrightarrow> rl_ring s' = rl_ring s \<Longrightarrow> rl_oldest s' = rl_oldest s \<Longrightarrow> adv_ok s' a = adv_ok s a"
  by (cases a) (auto simp: pinned_def)

lemma ctx_ok_same:
  "rl_retired s' = rl_retired s \<Longrightarrow> rl_ring s' = rl_ring s \<Longrightarrow> rl_oldest s' = rl_oldest s \<Longrightarrow> ctx_ok s' k = ctx_ok s k"
  using adv_ok_same [of s' s] by (cases k) simp_all

lemma ctx_ok_unpinned: "ctx_ok s k \<Longrightarrow> \<not> pinned s \<Longrightarrow> rl_retired s' = rl_retired s \<Longrightarrow> ctx_ok s' k"
proof (cases k)
  case (F_final adv)
  then show "ctx_ok s k \<Longrightarrow> \<not> pinned s \<Longrightarrow> rl_retired s' = rl_retired s \<Longrightarrow> ?thesis" by (cases adv) auto
qed simp

section \<open>One step\<close>

definition solo_step :: "tid \<Rightarrow> 'a rcu \<Rightarrow> reclaim_pc \<Rightarrow> 'a rcu \<Rightarrow> bool" where
  "solo_step t s p s' \<longleftrightarrow> rl_handles s' = rl_handles s \<and> (\<exists>p'. rl_pcs s' = (rl_pcs s)(t := Reclaim p') \<and> rc_good s' p' \<and>
     destroyed p' + card (vals s') = destroyed p + card (vals s) \<and> (rc_measure s' p', rc_measure s p) \<in> rc_less)"

lemma solo_goto:
  assumes "rc_good s p'" and "destroyed p' = destroyed p" and "(rc_measure s p', rc_measure s p) \<in> rc_less"
  shows "solo_step t s p (rl_to t (Reclaim p') s)"
proof -
  have g: "rc_good (rl_to t (Reclaim p') s) p'"
    using assms(1) ctx_ok_same [of "rl_to t (Reclaim p') s" s] adv_ok_same [of "rl_to t (Reclaim p') s" s] by (cases p') (auto simp: pinned_def)
  have m: "rc_measure (rl_to t (Reclaim p') s) p' = rc_measure s p'"
    by (cases p') (auto simp: rc_measure_def sealed_run_def)
  show ?thesis using assms g m by (auto simp: solo_step_def)
qed

lemma fp_refs_solo:
  assumes r: "ring_ok s" and g: "rc_good s (Fp_refs k n b)" and e: "reclaim_step t (Fp_refs k n b) s = Some s'"
  shows "solo_step t s (Fp_refs k n b) s'"
proof (cases "gb_state (blk s (rl_oldest s)) \<noteq> G_sealed \<or> gb_refs (blk s (rl_oldest s)) \<noteq> 0")
  case True
  then have s': "s' = rl_to t (Reclaim (free_return k n b s)) s" using e by simp
  have p: "gb_state (blk s (rl_oldest s)) = G_sealed \<Longrightarrow> pinned s" using True by (simp add: pinned_def)
  show ?thesis unfolding s'
    by (rule solo_goto; cases k) (use p g next_busy [OF r] in \<open>auto simp: rc_measure_def rc_less_iff\<close>)
next
  case False
  then have "s' = rl_to t (Reclaim (Fp_walk k n b (gb_bag (blk s (rl_oldest s))) None 0)) s" using e by simp
  then show ?thesis using False g by (auto intro!: solo_goto simp: pinned_def rc_measure_def rc_less_iff)
qed

lemma fp_walk_solo:
  assumes m: "mem_ok s G" and g: "rc_good s (Fp_walk k n b p q c)" and e: "reclaim_step t (Fp_walk k n b p q c) s = Some s'"
  shows "solo_step t s (Fp_walk k n b p q c) s'"
proof (cases p)
  case None
  then have "s' = rl_to t (Reclaim (Fp_store k n b q c (rl_free s))) s" using e by simp
  then show ?thesis using g by (auto intro!: solo_goto simp: rc_measure_def rc_less_iff)
next
  case (Some a)
  then obtain x where x: "rl_nodes s a = Some x" "rn_value x \<noteq> None"
    and s': "s' = rl_to t (Reclaim (Fp_walk k n b (rn_link x) (Some a) (c + 1))) (set_val a None s)"
    using e by (auto split: option.splits if_splits)
  have a: "a \<in> vals s" using x by (simp add: vals_def val_def)
  have v: "vals s' = vals s - {a}" using vals_destroy [of s a] x(1) s' by simp
  have card: "card (vals s) = Suc (card (vals s'))" using card.remove [OF finite_vals [OF m] a] v by simp
  have "rc_good s' (Fp_walk k n b (rn_link x) (Some a) (c + 1))"
    using g ctx_ok_same [of s' s k] by (simp add: s' pinned_def set_val_def)
  moreover have "sealed_run s' = sealed_run s" by (simp add: s' sealed_run_def set_val_def)
  ultimately show ?thesis using card by (auto simp: solo_step_def rc_measure_def rc_less_iff s' set_val_def)
qed

lemma fp_store_solo:
  assumes g: "rc_good s (Fp_store k n b q c h)" and e: "reclaim_step t (Fp_store k n b q c h) s = Some s'"
  shows "solo_step t s (Fp_store k n b q c h) s'"
proof -
  obtain a where s': "s' = rl_to t (Reclaim (Fp_cas k n b q c h)) (set_rlink a h s)" using e by (auto split: option.splits if_splits)
  have "rc_good s' (Fp_cas k n b q c h)" using g ctx_ok_same [of s' s k] by (simp add: s' pinned_def set_rlink_def)
  moreover have "sealed_run s' = sealed_run s" "rl_free s' = rl_free s" "vals s' = vals s" by (simp_all add: s' sealed_run_def)
  ultimately show ?thesis by (auto simp: solo_step_def rc_measure_def rc_less_iff s' set_rlink_def)
qed

lemma fp_cas_solo:
  assumes r: "ring_ok s" and sl: "gb_state (blk s (rl_oldest s)) = G_sealed"
    and g: "rc_good s (Fp_cas k n b q c h)" and e: "reclaim_step t (Fp_cas k n b q c h) s = Some s'"
  shows "solo_step t s (Fp_cas k n b q c h) s'"
proof (cases "rl_free s = h")
  case False
  then have "s' = rl_to t (Reclaim (Fp_store k n b q c (rl_free s))) s" using e by simp
  then show ?thesis using g False by (auto intro!: solo_goto simp: rc_measure_def rc_less_iff)
next
  case True
  let ?B = "blk s (rl_oldest s)"
  have s': "s' = rl_to t (Reclaim (Fp_refs k (n + c) (b + 1))) ((set_block (rl_oldest s) (?B\<lparr>gb_bag := None, gb_state := G_empty\<rparr>) s)
      \<lparr>rl_free := gb_bag ?B, rl_oldest := (rl_oldest s + 1) mod length (rl_ring s)\<rparr>)"
    using e True by (simp add: Let_def)
  have "rc_good s' (Fp_refs k (n + c) (b + 1))" using g ctx_ok_unpinned [of s k s'] by (simp add: s' set_block_def)
  moreover have "sealed_run s' < sealed_run s"
    using rpos_Suc_oldest [OF ring_okD(3) [OF r] ring_okD(2) [OF r]] sealed_run_pos [OF r sl] by (simp add: s' sealed_run_def set_block_def)
  moreover have "vals s' = vals s" by (simp add: s')
  ultimately show ?thesis by (auto simp: solo_step_def rc_measure_def rc_less_iff s' set_block_def)
qed

lemma rc_exchange_solo:
  assumes e: "reclaim_step t (Rc_exchange n b) s = Some s'"
  shows "solo_step t s (Rc_exchange n b) s'"
proof (cases "rl_retired s")
  case None
  then have "s' = rl_to t (Reclaim (Fp_refs (F_final Nothing_retired) n b)) s" using e by simp
  then show ?thesis using None by (auto intro!: solo_goto simp: rc_measure_def rc_less_iff)
next
  case (Some c)
  then have "s' = rl_to t (Reclaim (Rc_publish n b c)) (s\<lparr>rl_retired := None\<rparr>)" using e by (simp split: if_splits)
  then show ?thesis by (auto simp: solo_step_def rc_measure_def rc_less_iff)
qed

lemma rc_publish_solo:
  assumes g: "rc_good s (Rc_publish n b c)" and e: "reclaim_step t (Rc_publish n b c) s = Some s'"
  shows "solo_step t s (Rc_publish n b c) s'"
proof -
  have "s' = rl_to t (Reclaim (Fp_refs (F_final Advanced) n b)) (published c s)" using e by (simp add: Let_def published_def)
  then show ?thesis using g by (auto simp: solo_step_def rc_measure_def rc_less_iff published_def)
qed

lemma reclaim_solo:
  assumes inv: "rinv s G" and pc: "rl_pcs s t = Reclaim p" and g: "rc_good s p" and p: "\<And>r. p \<noteq> Rc_exit r"
    and e: "reclaim_step t p s = Some s'"
  shows "solo_step t s p s'"
proof -
  note m = rinvD(1) [OF inv]
  note r = mem_okD(1) [OF m]
  show ?thesis
  proof (cases p)
    case Rc_retired
    then show ?thesis using e by (auto intro!: solo_goto simp: rc_measure_def rc_less_iff)
  next
    case Rc_next
    then show ?thesis using e by (auto intro!: solo_goto simp: rc_measure_def rc_less_iff)
  next
    case (Fp_cas k n b q c h)
    have "gb_state (blk s (rl_oldest s)) = G_sealed" using holder(3) [OF inv pc] Fp_cas by simp
    then show ?thesis using fp_cas_solo [OF r] g e Fp_cas by blast
  next
    case Rc_flag
    then show ?thesis using g by simp
  next
    case (Rc_exit x)
    then show ?thesis using p by simp
  next
    case (Rc_exchange n b)
    show ?thesis using rc_exchange_solo e unfolding Rc_exchange by blast
  next
    case (Rc_publish n b c)
    show ?thesis using rc_publish_solo g e unfolding Rc_publish by blast
  next
    case (Fp_refs k n b)
    show ?thesis using fp_refs_solo [OF r] g e unfolding Fp_refs by blast
  next
    case (Fp_walk k n b q tl0 c)
    show ?thesis using fp_walk_solo [OF m] g e unfolding Fp_walk by blast
  next
    case (Fp_store k n b tl0 c h)
    show ?thesis using fp_store_solo g e unfolding Fp_store by blast
  qed
qed

section \<open>The whole call\<close>

definition solo_done :: "tid \<Rightarrow> 'a rcu \<Rightarrow> reclaim_result \<Rightarrow> 'a rcu \<Rightarrow> bool" where
  "solo_done t s r s' \<longleftrightarrow> rl_inv s' \<and> rl_handles s' = rl_handles s \<and> rl_pcs s' = (rl_pcs s)(t := Rl_done (Res_reclaim r)) \<and>
     adv_ok s' (rr_advance r) \<and> (gb_state (blk s' (rl_oldest s')) = G_sealed \<longrightarrow> pinned s')"

lemma run_solo:
  assumes "rl_inv s" and "rl_pcs s t = Reclaim p" and "rc_good s p"
  shows "\<exists>n r s'. run rl_exec s (replicate n (Rl_step t)) = Some s' \<and> solo_done t s r s' \<and> rr_nodes r + card (vals s') = destroyed p + card (vals s)"
  using assms
proof (induction "rc_measure s p" arbitrary: s p rule: wf_induct_rule [OF wf_rc_less])
  case (1 s p)
  obtain G where G: "rinv s G" using 1(2) by (auto simp: rl_inv_def)
  obtain s1 where e: "reclaim_step t p s = Some s1" using reclaim_step_inv [OF G 1(3)] by auto
  have x: "rl_exec s (Rl_step t) = Some s1" using e 1(3) by simp
  have i: "rl_inv s1" using rli.exec_Inv [OF 1(2) x] .
  show ?case
  proof (cases "\<exists>r. p = Rc_exit r")
    case True
    then obtain r where r: "p = Rc_exit r" by blast
    then have s1: "s1 = rl_to t (Rl_done (Res_reclaim r)) (s\<lparr>rl_reclaiming := False\<rparr>)" using e by simp
    have "solo_done t s r s1" using 1(4) i adv_ok_same [of s1 s] by (simp add: solo_done_def r s1 pinned_def)
    moreover have "run rl_exec s (replicate 1 (Rl_step t)) = Some s1" using x by simp
    moreover have "rr_nodes r + card (vals s1) = destroyed p + card (vals s)" by (simp add: s1 r)
    ultimately show ?thesis by blast
  next
    case False
    then obtain p' where p': "rl_handles s1 = rl_handles s" "rl_pcs s1 = (rl_pcs s)(t := Reclaim p')" "rc_good s1 p'"
      "destroyed p' + card (vals s1) = destroyed p + card (vals s)" "(rc_measure s1 p', rc_measure s p) \<in> rc_less"
      using reclaim_solo [OF G 1(3,4) _ e] by (auto simp: solo_step_def)
    then obtain n r s' where n: "run rl_exec s1 (replicate n (Rl_step t)) = Some s'" "solo_done t s1 r s'"
      "rr_nodes r + card (vals s') = destroyed p' + card (vals s1)"
      using 1(1) [OF p'(5) i _ p'(3)] by auto
    have "run rl_exec s (replicate (Suc n) (Rl_step t)) = Some s'" using x n(1) by simp
    moreover have "solo_done t s r s'" using n(2) p'(1,2) by (simp add: solo_done_def)
    ultimately show ?thesis using n(3) p'(4) by metis
  qed
qed

lemma pinned_handle:
  assumes G: "rinv s G" and r: "\<And>u. bumps (rl_pcs s u) = None" and p: "pinned s"
  shows "\<exists>h. rl_handles s h = Some (rl_oldest s)"
proof (rule ccontr)
  assume "\<not> ?thesis"
  then have "gb_refs (blk s (rl_oldest s)) = 0"
    using hand_okD(9) [OF rinvD(2) [OF G]] ring_okD(2) [OF mem_okD(1) [OF rinvD(1) [OF G]]] r by simp
  then show False using p by (simp add: pinned_def)
qed

text \<open>
  C38.  A call of \<open>reclaim\<close> that runs while no other call is active returns, and its result says what it did: unless it is \<open>ring_full\<close>, everything
  that was retired has been taken over into a bag; \<open>ring_full\<close>, and a bag that is left, mean that a live handle is on the oldest
  generation; \<open>freed_nodes\<close> is the number of values the call destroyed; and it is never \<open>contended\<close>.  In particular with no handle alive
  one call frees every erased node.
\<close>

theorem rl_reclaim_complete:
  assumes "2 \<le> k" and "run rl_exec (rl_construct k) as = Some s" and rest: "\<And>u. rl_at_rest (rl_pcs s u)"
  shows "\<exists>n r s'. run rl_exec s (Rl_reclaim t # replicate n (Rl_step t)) = Some s' \<and> rl_pcs s' t = Rl_done (Res_reclaim r) \<and>
     rr_advance r \<noteq> Contended \<and> (rr_advance r \<noteq> Ring_full \<longrightarrow> rl_retired s' = None) \<and>
     (rr_advance r = Ring_full \<or> (\<exists>B\<in>set (rl_ring s'). gb_state B = G_sealed) \<longrightarrow> (\<exists>h. rl_handles s' h = Some (rl_oldest s'))) \<and>
     card {a. val s a \<noteq> None} = card {a. val s' a \<noteq> None} + rr_nodes r"
proof -
  have i: "rl_inv s" using rl_reachable [OF assms(1,2)] by (auto simp: rl_inv_def)
  then obtain G where G: "rinv s G" by (auto simp: rl_inv_def)
  have nr: "\<not> rl_reclaiming s" using mem_okD(6) [OF rinvD(1) [OF G]] at_rest_empty(4) [OF G rest] by (simp add: rec_ok_def)
  obtain s1 where s1: "rl_exec s (Rl_reclaim t) = Some s1" "rl_pcs s1 = (rl_pcs s)(t := Reclaim Rc_flag)" "rl_reclaiming s1 = rl_reclaiming s" "rl_nodes s1 = rl_nodes s"
    using rest by (simp add: rl_call_def)
  obtain s2 where s2: "rl_exec s1 (Rl_step t) = Some s2" "rl_pcs s2 = (rl_pcs s)(t := Reclaim Rc_retired)" "rl_nodes s2 = rl_nodes s"
    using s1 nr by simp
  have i2: "rl_inv s2" using rli.exec_Inv [OF rli.exec_Inv [OF i s1(1)] s2(1)] .
  obtain n r s' where n: "run rl_exec s2 (replicate n (Rl_step t)) = Some s'" "solo_done t s2 r s'" "rr_nodes r + card (vals s') = card (vals s2)"
    using run_solo [OF i2, of t Rc_retired] s2(2) by auto
  obtain G' where G': "rinv s' G'" using n(2) by (auto simp: solo_done_def rl_inv_def)
  have pcs: "rl_pcs s' = (rl_pcs s)(t := Rl_done (Res_reclaim r))" using n(2) s2(2) by (simp add: solo_done_def)
  have b: "bumps (rl_pcs s' u) = None" for u using pcs at_rest_empty(6) [OF G rest] by simp
  have a: "adv_ok s' (rr_advance r)" "gb_state (blk s' (rl_oldest s')) = G_sealed \<Longrightarrow> pinned s'" using n(2) by (simp_all add: solo_done_def)
  have "pinned s'" if "rr_advance r = Ring_full \<or> (\<exists>B\<in>set (rl_ring s'). gb_state B = G_sealed)"
    using that a sealed_oldest [OF mem_okD(1) [OF rinvD(1) [OF G']]] by (auto simp: in_set_conv_nth)
  then have pin: "\<exists>h. rl_handles s' h = Some (rl_oldest s')" if "rr_advance r = Ring_full \<or> (\<exists>B\<in>set (rl_ring s'). gb_state B = G_sealed)"
    using pinned_handle [OF G' b] that by blast
  have run: "run rl_exec s (Rl_reclaim t # replicate (Suc n) (Rl_step t)) = Some s'" using s1(1) s2(1) n(1) by simp
  have adv: "rr_advance r \<noteq> Contended" "rr_advance r \<noteq> Ring_full \<Longrightarrow> rl_retired s' = None" using a(1) by (cases "rr_advance r"; simp)+
  have "card {a. val s a \<noteq> None} = card {a. val s' a \<noteq> None} + rr_nodes r"
    using n(3) vals_same [OF s2(3)] by (simp add: vals_def)
  moreover have "rl_pcs s' t = Rl_done (Res_reclaim r)" using pcs by simp
  ultimately show ?thesis using run adv pin by blast
qed

text \<open>After the handle is destroyed: one call frees the erased node.\<close>

theorem rl_reclaim_complete_witness:
  "\<exists>s n r s'. run rl_exec (rl_construct 2) (rl_demo @ rl_demo_erase @ [Rl_drop 7]) = Some s \<and>
     run rl_exec s (Rl_reclaim 2 # replicate n (Rl_step 2)) = Some s' \<and> rl_pcs s' 2 = Rl_done (Res_reclaim r) \<and> rr_advance r \<noteq> Contended"
proof -
  obtain s where s: "run rl_exec (rl_construct 2) (rl_demo @ rl_demo_erase @ [Rl_drop 7]) = Some s" "\<forall>u. rl_at_rest (rl_pcs s u)"
    by (simp add: rl_eval)
  then show ?thesis using rl_reclaim_complete [OF _ s(1), of 2] by auto
qed

end
