(* ===== verification/Spec2Isabelle.thy ===== *)
theory Spec2Isabelle
  imports Spin_Lock Tune_Lock Atomic_Max Seq_Lock Ring_Queue_Spec Key_Queue Append_Deque_Conc Lock_Free_List_Spec List_Node
    Intr_Ptr Intr_Ptr_Hp_Spec Hash_Set_Spec Thread_Obj Rcu_Solo
begin

text \<open>
  Verification of the concurrent data structures of the ConcurrentCpp library (header-only C++).

  \<^bold>\<open>The program.\<close>  Each directory of the repository holds one header with its tests and benchmarks: locks
  (\<^verbatim>\<open>Spinlock/spinlock.h\<close>, \<^verbatim>\<open>Spinlock/seqlock.h\<close>), an atomic maximum (\<^verbatim>\<open>DCLP/atomic_max.h\<close>), bounded queues
  (\<^verbatim>\<open>ConcurrentQueue/concurrent_queue.h\<close>), an append-only deque (\<^verbatim>\<open>ConcurrentDeque/concurrent_deque.h\<close>), a lock-free list
  (\<^verbatim>\<open>LockFreeList/lock_free_list.h\<close>), the same list with handles and deferred reclamation
  (\<^verbatim>\<open>LockFreeListRCU/lock_free_list_rcu.h\<close>), atomic intrusive shared pointers (\<^verbatim>\<open>IntrSharedPtr/\<close>), a resizable hash set
  (\<^verbatim>\<open>ConcurrentHash/concurrent_hash_set.h\<close>) and a thread class (\<^verbatim>\<open>Thread/thread.h\<close>).  They interact as follows: the hash set keeps its
  bucket heads and its nodes in append deques and doubles its table under a \<open>SpinLock\<close>; the deque serializes its writers with a
  \<open>SpinLock\<close>; the list is parameterized by a pointer policy, which the intrusive shared pointers provide.

  \<^bold>\<open>How concurrency is modelled.\<close>  \<open>Conc_Prelude\<close> defines schedules: a component with threads is an executable function
  \<open>exec :: state \<Rightarrow> action \<Rightarrow> state option\<close> in which one action performs one access to a shared word, the program counter of a thread
  carries the local variables of its call, and \<open>None\<close> means that the action is not enabled.  A statement about every list of actions is a
  statement about every interleaving of sequentially consistent accesses by any number of threads.  Choices of the environment (which
  thread moves, spurious failures of a weak compare-exchange, exceptions of user code, success of an allocation, the address of a new
  object, what a POSIX call returns) are arguments of the actions.  The locale \<open>machine_invariant\<close> carries an invariant of single steps to
  schedules, \<open>machine_refinement\<close> a step-wise simulation to linearizability with respect to an atomic specification; every
  component interprets them on its own machine.  \<open>budget_invariant\<close>, \<open>budget_progress\<close> and \<open>budget_refinement\<close> do the same for machines
  whose counters are words that only a bounded number of calls of bounded size keeps from wrapping around.  Memory orders weaker than sequential consistency are outside this semantics.

  \<^bold>\<open>The theories.\<close>

  \<^item> \<open>Conc_Prelude\<close>: machine types, the \<^verbatim>\<open><bit>\<close> functions, errors, schedules and their locales, words as numbers.
    \<open>Fifo_Spec\<close>: the bounded queue that both ring queues are compared with.
  \<^item> \<open>Spin_Lock\<close> (\<open>SpinLock\<close>): \<open>lock\<close> and \<open>try_lock\<close> with their back-off ladder, \<open>unlock\<close>, \<open>locked\<close>.  Mutual exclusion, refinement of
    an atomic lock, the exact schedule of the back-off and a bound on \<open>try_lock\<close>.
  \<^item> \<open>Tune_Lock\<close> (\<open>TunableSpinLock\<close>, \<open>BackOffLadder\<close>, \<^verbatim>\<open>Spinlock/spinlock_tune.h\<close>): one word, a ladder per call.  Mutual exclusion for any mixture of
    ladders, the schedule of a ladder, and that the default ladder is \<open>SpinLock\<close> step by step.
  \<^item> \<open>Atomic_Max\<close>: the compare-exchange loop; the stored value is the maximum of all calls and every answer is exact.
  \<^item> \<open>Seq_Lock\<close> (\<open>SeqLock\<close>): writers under an odd counter, optimistic readers.  A validated read is one whole generation, provided fewer
    than \<open>2 ^ 63\<close> writes happen during it; writers are serialized; a throwing update leaves the lock usable; a reader alone returns.
  \<^item> \<open>Ring_Queue\<close>, \<open>Ring_Queue_Spec\<close> (\<open>RingAtomicMapQueueMPMC\<close> with values) and \<open>Key_Queue\<close> (keys only): slots with sequence
    numbers on wrapping 64-bit positions.  Linearizability, construction and destruction of the values exactly once,
    exactness of the answers full and empty (\<open>kv_empty_exact\<close>: a \<open>push\<close> under way at the head index hides the later ones), termination of a thread that runs alone within
    \<open>NTRY + 6\<close> and 6 steps (\<open>NTRY + 3\<close> and 4 for keys).
  \<^item> \<open>Append_Deque\<close> (the segmented storage and its operations), \<open>Append_Deque_Spec\<close> (append, \<open>at\<close>, \<open>resize\<close>, \<open>reserve\<close>, iterators, destruction) and
    \<open>Append_Deque_Conc\<close> (writers under the lock, readers without): stable addresses, no reader beyond the published size, refinement
    of a growing list, the error of \<open>at\<close>, and \<open>reserve\<close> on every argument.  The machines accept every call; a call that the language leaves
    undefined has no state after it.  The code does not check its size computations, so the theorems have the side condition \<open>dq_fits\<close>
    (\<open>ds_fits\<close> for schedules): \<open>reserve(n)\<close> with \<open>n + BlockMask < 2 ^ 64\<close>, \<open>resize(n)\<close> with \<open>n \<le> 2 ^ 62\<close>, fewer than \<open>2 ^ 62\<close> calls (steps).
    Under it the size stays below \<open>2 ^ 63\<close> and the capacity below \<open>2 ^ 64\<close>, and no call is undefined; \<open>deque_reserve\<close> shows what
    happens to a \<open>reserve\<close> outside it.
  \<^item> \<open>Lock_Free_List\<close>, \<open>Lock_Free_List_Spec\<close> (insertion and erasure after an anchor, in marking mode) and \<open>List_Node\<close> (the iterative
    destructor of nodes and the mode without marks): linearizability of the list that the next words form, exact answers, traversal through erased nodes, termination within
    four steps per node ever linked, destructors nested at most two deep.
  \<^item> \<open>Rcu_List\<close> (\<open>LockFreeListRCU\<close>: \<open>join\<close>, \<open>leave\<close>, \<open>refresh\<close>, \<open>init_node\<close> with the free list, \<open>erase_after\<close>, \<open>retire\<close>, \<open>reclaim\<close> with \<open>advance\<close> and
    \<open>free_oldest\<close>, handles and iterators, with the assertions of the debug build), \<open>Rcu_Inv\<close> (the invariant: every node is in one
    place, the ring of generations, the last generation that can see an erased node), \<open>Rcu_Effect\<close>, \<open>Rcu_Ring\<close> (what each kind of write does to
    it), \<open>Rcu_Steps\<close>, \<open>Rcu_Ops\<close>, \<open>Rcu_Reclaim\<close>, \<open>Rcu_Handles\<close>, \<open>Rcu_Exec\<close> (every step keeps it), \<open>Rcu_Spec\<close> (memory safety although nodes are
    reused, linearizability, iterators of a session), \<open>Rcu_Account\<close> (\<open>get_internal_accounting\<close> and the destructor), \<open>Rcu_Solo\<close> (what one
    call of \<open>reclaim\<close> achieves).  The walks of the quiescent operations are bounded by \<open>allocated_\<close>, which is enough because every
    node is in one population.
  \<^item> \<open>Intr_Handle\<close>, \<open>Intr_Ptr\<close> (spin bit in the pointer) and \<open>Intr_Ptr_Hp\<close>, \<open>Intr_Ptr_Hp_Spec\<close> (hazard pointers): handles, counts and atomic
    words.  No access to a freed object, exact counts, linearizability, the strong compare-exchange.  The hazard pointer
    library is represented by its contract: an object is reclaimed only when no record that named it when it was retired still does.
  \<^item> \<open>Hash_Words\<close> (the 64-bit encodings and the tree of buckets), \<open>Hash_Set\<close> (the machine: \<open>contains\<close>, \<open>insert\<close>, \<open>erase\<close>, \<open>split_bucket\<close>,
    \<open>alloc_node\<close>, \<open>push_limbo\<close>, \<open>reclaim\<close>, the accounting sweep), \<open>Hash_Set_Inv\<close> (the invariant: a layout assigns every slot to one
    chain, free list, limbo list or thread), \<open>Hash_Set_Rely\<close> (what other threads may do), \<open>Hash_Set_Heap\<close>, \<open>Hash_Set_Effect\<close>, \<open>Hash_Set_Steps\<close>,
    \<open>Hash_Set_Exec\<close> (what each kind of write does to the heap and the set, and that every step keeps the invariant),
    \<open>Hash_Set_Reclaim\<close>, \<open>Hash_Set_Account\<close> (the quiescent operations), \<open>Hash_Set_Watch\<close> (records of calls), \<open>Hash_Set_Spec\<close> (the properties).
    The walks of \<open>reclaim\<close> are bounded by the number of slots, which is enough because every list is made of different slots; the
    accounting sweep terminates on any memory because each round sets a flag.
  \<^item> \<open>Thread_Stack\<close> (the size arithmetic, on words) and \<open>Thread_Obj\<close> (launch, signal masks, life of \<open>Thread\<close> objects): exactness of the
    stack size, no leak on any failing path, ownership of threads, start masks, destruction only after a join.

  \<^bold>\<open>Witnesses.\<close>  Every property with hypotheses is applied to a concrete execution, which the simplifier evaluates.

  \<^bold>\<open>Not modelled.\<close>  Memory orders; timing (what a sleep or a pause waits for); \<open>ConcurrentHashSetRCU\<close> (a second hash set, of 5212 lines,
  with a table, handles and generations of its own; the two designs it combines, \<open>ConcurrentResizableHashSet\<close> and \<open>LockFreeListRCU\<close>, are
  modelled); in \<open>LockFreeListRCU\<close> the wrap-around of the 64-bit generation numbers, which are \<open>nat\<close>, and the address sanitizer;
  the compile-time concept of \<open>SharedPtr\<close>; tests, benchmarks and their support.
\<close>

end
